(* ===== verification/Bu_Prelude.thy ===== *)
theory Bu_Prelude
  imports Main "HOL-Library.Word" "HOL-Library.Multiset"
begin

text \<open>
  Shared ground of the development: the byte type of the stream classes, the errors the
  library raises (and the one error value that stands for an access outside an allocated
  array), the result type and its sequencing, checked array accesses, and the generic list
  lemmas the component theories use.
\<close>

unbundle bit_operations_syntax

type_synonym byte = "8 word"

section \<open>Errors and results\<close>

text \<open>
  Every C++ exception class of the modelled components is one constructor, with the message
  (or the error code) the code throws; the message of an \<open>ArrayException\<close> is left out. \<open>Out_Of_Bounds\<close> is no exception of the
  library: it marks a load or a store outside the memory an object has allocated, or of a
  slot that holds no object, which is undefined behaviour in the source. Keeping it as a value
  lets a theorem say that an operation never gets there, or that it does.
\<close>

datatype myriad_code =
    emptyStream | invalidFormat | badVersion | invalidWordSize | noSuchStream
  | streamExists | invalidStreamId | protectedStream

datatype bu_error =
    ExceptionBase string
  | HeapException string
  | Base64Exception string
  | MyriadException myriad_code
  | HashException string
  | ArrayException
  | TafException string
  | Out_Of_Bounds

type_synonym 'a result = "bu_error + 'a"

definition rbind :: "'a result \<Rightarrow> ('a \<Rightarrow> 'b result) \<Rightarrow> 'b result" where
  "rbind r f = (case r of Inl e \<Rightarrow> Inl e | Inr x \<Rightarrow> f x)"

lemma rbind_Inl [simp]: "rbind (Inl e) f = Inl e"
  by (simp add: rbind_def)

lemma rbind_Inr [simp]: "rbind (Inr x) f = f x"
  by (simp add: rbind_def)

lemma rbind_eq_Inr: "rbind r f = Inr y \<longleftrightarrow> (\<exists>x. r = Inr x \<and> f x = Inr y)"
  by (cases r) simp_all

lemma rbind_cong [fundef_cong]:
  "r = r' \<Longrightarrow> (\<And>x. r' = Inr x \<Longrightarrow> f x = g x) \<Longrightarrow> rbind r f = rbind r' g"
  by (cases r') simp_all

text \<open>The same for a computation that may not return.\<close>

definition obind :: "'a result option \<Rightarrow> ('a \<Rightarrow> 'b result option) \<Rightarrow> 'b result option" where
  "obind r f = (case r of None \<Rightarrow> None | Some (Inl e) \<Rightarrow> Some (Inl e) | Some (Inr x) \<Rightarrow> f x)"

lemma obind_simps [simp]:
  "obind None f = None" "obind (Some (Inl e)) f = Some (Inl e)" "obind (Some (Inr x)) f = f x"
  by (simp_all add: obind_def)

lemma obind_mono [partial_function_mono]:
  assumes "mono_option f" "\<And>y. mono_option (\<lambda>x. g x y)"
  shows "mono_option (\<lambda>x. obind (f x) (\<lambda>y. g x y))"
proof -
  have e: "obind r h = Option.bind r (\<lambda>q. case q of Inl e \<Rightarrow> Some (Inl e) | Inr x \<Rightarrow> h x)"
    for r :: "'e result option" and h :: "'e \<Rightarrow> 'f result option"
    by (simp add: obind_def split: option.split)
  have "mono_option (\<lambda>x. case q of Inl e \<Rightarrow> Some (Inl e) | Inr y \<Rightarrow> g x y)" for q
    using assms(2) by (cases q) (auto simp: monotone_def flat_ord_def)
  then show ?thesis unfolding e by (rule bind_mono [OF assms(1)])
qed

section \<open>Sizes and integers\<close>

text \<open>
  \<open>Bu::size\<close> has 64 bits. Where the code keeps one in an \<open>int\<close>, or casts it, it is taken modulo
  \<open>2^32\<close> into the range of 32 bits.
\<close>

definition c_int :: "int \<Rightarrow> int" where
  "c_int x = (x + 2147483648) mod 4294967296 - 2147483648"

lemma c_int_same [simp]: "- 2147483648 \<le> x \<Longrightarrow> x < 2147483648 \<Longrightarrow> c_int x = x"
  by (simp add: c_int_def)

lemma c_int_negative: "2147483648 \<le> x \<Longrightarrow> x < 4294967296 \<Longrightarrow> c_int x = x - 4294967296"
proof -
  assume a: "2147483648 \<le> x" "x < 4294967296"
  have e: "x + 2147483648 = x - 2147483648 + 4294967296" by simp
  have "(x + 2147483648) mod 4294967296 = x - 2147483648" unfolding e mod_add_self2 using a by simp
  then show ?thesis by (simp add: c_int_def)
qed

section \<open>Checked array accesses\<close>

text \<open>Indices are C++ integers: they may be negative.\<close>

definition arr_get :: "'a list \<Rightarrow> int \<Rightarrow> 'a result" where
  "arr_get xs i = (if 0 \<le> i \<and> i < int (length xs) then Inr (xs ! nat i) else Inl Out_Of_Bounds)"

definition arr_set :: "'a list \<Rightarrow> int \<Rightarrow> 'a \<Rightarrow> 'a list result" where
  "arr_set xs i x =
     (if 0 \<le> i \<and> i < int (length xs) then Inr (xs[nat i := x]) else Inl Out_Of_Bounds)"

lemma arr_get_in [simp]: "i < length xs \<Longrightarrow> arr_get xs (int i) = Inr (xs ! i)"
  by (simp add: arr_get_def)

lemma arr_set_in [simp]: "i < length xs \<Longrightarrow> arr_set xs (int i) x = Inr (xs[i := x])"
  by (simp add: arr_set_def)

lemma arr_set_0 [simp]: "xs \<noteq> [] \<Longrightarrow> arr_set xs 0 x = Inr (xs[0 := x])"
  by (simp add: arr_set_def)

text \<open>Raw memory of an allocator: a slot without an object cannot be read.\<close>

definition slot_get :: "'a option list \<Rightarrow> int \<Rightarrow> 'a result" where
  "slot_get xs i = rbind (arr_get xs i) (\<lambda>x. case x of None \<Rightarrow> Inl Out_Of_Bounds | Some y \<Rightarrow> Inr y)"

lemma slot_get_in: "i < length xs \<Longrightarrow> xs ! i = Some x \<Longrightarrow> slot_get xs (int i) = Inr x"
  by (simp add: slot_get_def)

text \<open>\<open>operator[]\<close> of \<open>Bu::Array\<close> checks its index and throws.\<close>

definition array_at :: "'a list \<Rightarrow> int \<Rightarrow> 'a result" where
  "array_at xs i = (if 0 \<le> i \<and> i < int (length xs) then Inr (xs ! nat i) else Inl ArrayException)"

lemma array_at_in [simp]: "i < length xs \<Longrightarrow> array_at xs (int i) = Inr (xs ! i)"
  by (simp add: array_at_def)

text \<open>The accesses that stay inside an array, as one collection.\<close>

named_theorems access

lemmas [access] = arr_get_in arr_set_in arr_set_0 slot_get_in array_at_in

section \<open>Integers and lists\<close>

text \<open>C++ integer division, which rounds to zero, and its remainder, which takes the sign of the dividend.\<close>

definition c_div :: "int \<Rightarrow> int \<Rightarrow> int" where
  "c_div a b = sgn a * sgn b * (\<bar>a\<bar> div \<bar>b\<bar>)"

lemma c_div_int [simp]: "c_div (int m) (int n) = int (m div n)"
  by (cases "n = 0"; cases "m = 0") (simp_all add: c_div_def of_nat_div)

definition c_rem :: "int \<Rightarrow> int \<Rightarrow> int" where
  "c_rem a b = sgn a * (\<bar>a\<bar> mod \<bar>b\<bar>)"

lemma c_rem_nonneg: "0 \<le> a \<Longrightarrow> 0 < b \<Longrightarrow> c_rem a b = a mod b"
  by (cases "a = 0") (simp_all add: c_rem_def)

lemma c_rem_int [simp]: "0 < n \<Longrightarrow> c_rem (int m) (int n) = int (m mod n)"
  by (simp add: c_rem_nonneg of_nat_mod)

lemma mod_add_inj:
  assumes "((s::nat) + i) mod n = (s + j) mod n" "i < n" "j < n"
  shows "i = j"
proof -
  have "int ((s + i) mod n) = int ((s + j) mod n)" using assms(1) by simp
  then have "(int s + int i) mod int n = (int s + int j) mod int n"
    by (simp add: of_nat_mod)
  then have "int i mod int n = int j mod int n"
    by (metis add_diff_cancel_left' mod_diff_cong)
  with assms(2,3) show ?thesis by simp
qed


lemma dom_eqI: "(\<And>q. m q = None \<longleftrightarrow> q \<notin> A) \<Longrightarrow> dom m = A"
  by (simp add: dom_def set_eq_iff)

lemma last_nth: "i < length xs \<Longrightarrow> last xs = xs ! (length xs - 1)"
  by (rule last_conv_nth) auto

lemma last_upd_other: "i < length xs - 1 \<Longrightarrow> last (xs[i := x]) = last xs"
  by (cases "xs = []") (auto simp: last_list_update)

lemma mset_update_add:
  "i < length xs \<Longrightarrow> add_mset (xs ! i) (mset (xs[i := x])) = add_mset x (mset xs)"
  by (simp add: mset_update)

lemma mset_swap_nth:
  assumes "i < length xs" "j < length xs"
  shows "mset (xs[i := xs ! j, j := xs ! i]) = mset xs"
  using assms by (cases "i = j") (simp_all add: mset_swap)

section \<open>Bytes\<close>

lemma byte_bit_high: "8 \<le> n \<Longrightarrow> \<not> bit (x :: byte) n"
  using bit_imp_le_length [of x n] by auto

section \<open>Overwriting a part of a list\<close>

text \<open>\<open>overwrite xs p ys\<close>: \<open>ys\<close> replaces what stands in \<open>xs\<close> from position \<open>p\<close> on.\<close>

definition overwrite :: "'a list \<Rightarrow> nat \<Rightarrow> 'a list \<Rightarrow> 'a list" where
  "overwrite xs p ys = take p xs @ ys @ drop (p + length ys) xs"

lemma overwrite_Nil [simp]: "p \<le> length xs \<Longrightarrow> overwrite xs p [] = xs"
  by (simp add: overwrite_def)

lemma length_overwrite: "p \<le> length xs \<Longrightarrow> length (overwrite xs p ys) = max (length xs) (p + length ys)"
  by (simp add: overwrite_def)

lemma overwrite_overwrite:
  assumes "p \<le> length xs"
  shows "overwrite (overwrite xs p ys) (p + length ys) zs = overwrite xs p (ys @ zs)"
proof -
  have "take (p + length ys) (overwrite xs p ys) = take p xs @ ys"
    using assms by (simp add: overwrite_def)
  moreover have "drop (p + length ys + length zs) (overwrite xs p ys) = drop (p + length (ys @ zs)) xs"
    using assms by (simp add: overwrite_def add.commute add.left_commute)
  ultimately show ?thesis by (simp add: overwrite_def [of "overwrite xs p ys"]) (simp add: overwrite_def add.assoc)
qed

lemma overwrite_end: "p = length xs \<Longrightarrow> overwrite xs p ys = xs @ ys"
  by (simp add: overwrite_def)

lemma take_overwrite_inside:
  "p + length ys \<le> n \<Longrightarrow> p \<le> length xs \<Longrightarrow> take n (overwrite xs p ys) = overwrite (take n xs) p ys"
  by (simp add: overwrite_def drop_take)

lemma nth_overwrite:
  "p \<le> length xs \<Longrightarrow> i < max (length xs) (p + length ys) \<Longrightarrow>
   overwrite xs p ys ! i = (if p \<le> i \<and> i < p + length ys then ys ! (i - p) else xs ! i)"
  by (auto simp: overwrite_def nth_append min_def)

text \<open>Equal-sized pieces of a list.\<close>

definition piece :: "nat \<Rightarrow> 'a list \<Rightarrow> nat \<Rightarrow> 'a list" where
  "piece n xs i = take n (drop (i * n) xs)"

lemma length_piece: "Suc i * n \<le> length xs \<Longrightarrow> length (piece n xs i) = n"
  by (simp add: piece_def)

lemma piece_same: "length ys = n \<Longrightarrow> i * n \<le> length xs \<Longrightarrow> piece n (overwrite xs (i * n) ys) i = ys"
  by (simp add: piece_def overwrite_def)

lemma piece_other:
  assumes "length ys = n" "Suc i * n \<le> length xs" "i \<noteq> j"
  shows "piece n (overwrite xs (i * n) ys) j = piece n xs j"
proof (cases "j < i")
  case True
  then have "Suc j * n \<le> i * n" by (intro mult_le_mono1) simp
  then have "take n (drop (j * n) (take (i * n) xs)) = take n (drop (j * n) xs)"
    by (simp add: drop_take min_def)
  moreover have "n \<le> length (drop (j * n) (take (i * n) xs))"
    using \<open>Suc j * n \<le> i * n\<close> assms(2) by simp
  ultimately show ?thesis
    using assms(2) \<open>Suc j * n \<le> i * n\<close> by (simp add: piece_def overwrite_def)
next
  case False
  with assms(3) have "i < j" by simp
  then have "Suc i * n \<le> j * n" by (intro mult_le_mono1) simp
  then obtain k where k: "j * n = i * n + n + k" by (metis le_Suc_ex mult_Suc add.commute)
  have "drop (j * n) (overwrite xs (i * n) ys) = drop (j * n) xs"
    using assms by (simp add: overwrite_def k ac_simps)
  then show ?thesis by (simp add: piece_def)
qed

lemma piece_append:
  "Suc i * n \<le> length xs \<Longrightarrow> piece n (xs @ ys) i = piece n xs i"
  by (simp add: piece_def)

lemma piece_take:
  assumes "Suc i * n \<le> k"
  shows "piece n (take k xs) i = piece n xs i"
proof -
  have "n \<le> k - i * n" using assms by simp
  then show ?thesis by (simp add: piece_def drop_take min_absorb1)
qed

lemma length_concat_blocks: "\<forall>b \<in> set bss. length b = n \<Longrightarrow> length (concat bss) = length bss * n"
  by (induction bss) auto

text \<open>Changing one of a list of equal-sized blocks is overwriting their concatenation.\<close>

lemma concat_update_block:
  assumes "\<forall>b \<in> set bss. length b = n" "j < length bss" "o' + length ys \<le> n"
  shows "concat (bss[j := overwrite (bss ! j) o' ys]) = overwrite (concat bss) (j * n + o') ys"
proof -
  have bss: "bss = take j bss @ bss ! j # drop (Suc j) bss" using assms(2) by (rule id_take_nth_drop)
  have l: "length (concat (take j bss)) = j * n"
    using assms(1,2) length_concat_blocks [of "take j bss" n] by (auto dest: in_set_takeD)
  have b: "length (bss ! j) = n" using assms(1,2) by simp
  have c: "concat bss = concat (take j bss) @ bss ! j @ concat (drop (Suc j) bss)"
    by (subst bss) (simp del: append_take_drop_id)
  have "concat (bss[j := overwrite (bss ! j) o' ys]) =
      concat (take j bss) @ overwrite (bss ! j) o' ys @ concat (drop (Suc j) bss)"
    using assms(2) by (simp add: upd_conv_take_nth_drop)
  also have "\<dots> = overwrite (concat bss) (j * n + o') ys"
    using assms(3) b by (simp add: c overwrite_def l)
  finally show ?thesis .
qed

lemma concat_block_read:
  assumes "\<forall>b \<in> set bss. length b = n" "j < length bss" "o' + k \<le> n"
  shows "take k (drop (j * n + o') (concat bss)) = take k (drop o' (bss ! j))"
proof -
  have bss: "bss = take j bss @ bss ! j # drop (Suc j) bss" using assms(2) by (rule id_take_nth_drop)
  have l: "length (concat (take j bss)) = j * n"
    using assms(1,2) length_concat_blocks [of "take j bss" n] by (auto dest: in_set_takeD)
  have b: "length (bss ! j) = n" using assms(1,2) by simp
  have c: "concat bss = concat (take j bss) @ bss ! j @ concat (drop (Suc j) bss)"
    by (subst bss) (simp del: append_take_drop_id)
  show ?thesis using assms(3) b by (simp add: c l)
qed

end
