(* ===== verification/Bu_Queue.thy ===== *)
theory Bu_Queue
  imports Bu_Prelude
begin

text \<open>
  The interfaces of the containers: the comparison functors of \<open>src/stable/util.h\<close> and the
  strict weak order they are, the queue interface of \<open>src/stable/queue.h\<close> as three locales (an
  unbounded queue, a bounded queue that drops its oldest item, and a priority queue), and the clients of a queue
  whose behaviour follows from those laws alone.
\<close>

section \<open>Comparators\<close>

definition basicLTCmp :: "'a::linorder \<Rightarrow> 'a \<Rightarrow> bool" where
  "basicLTCmp a b \<longleftrightarrow> a < b"

definition basicGTCmp :: "'a::linorder \<Rightarrow> 'a \<Rightarrow> bool" where
  "basicGTCmp a b \<longleftrightarrow> a > b"

text \<open>
  What the heap needs of its comparator: a strict weak order. Both functors of the library
  are one.
\<close>

locale weak_order =
  fixes cmp :: "'a \<Rightarrow> 'a \<Rightarrow> bool"
  assumes cmp_irrefl: "\<not> cmp x x"
    and cmp_trans: "cmp x y \<Longrightarrow> cmp y z \<Longrightarrow> cmp x z"
    and cmp_negtrans: "\<not> cmp x y \<Longrightarrow> \<not> cmp y z \<Longrightarrow> \<not> cmp x z"
begin

lemma cmp_asym: "cmp x y \<Longrightarrow> \<not> cmp y x"
  using cmp_irrefl cmp_trans by blast

lemma cmp_less_le: "cmp x y \<Longrightarrow> \<not> cmp z y \<Longrightarrow> cmp x z"
  using cmp_asym cmp_negtrans by blast

end

interpretation lt_order: weak_order "basicLTCmp :: 'a::linorder \<Rightarrow> 'a \<Rightarrow> bool"
  by unfold_locales (auto simp: basicLTCmp_def)

interpretation gt_order: weak_order "basicGTCmp :: 'a::linorder \<Rightarrow> 'a \<Rightarrow> bool"
  by unfold_locales (auto simp: basicGTCmp_def)

section \<open>Clients of a queue\<close>

text \<open>A client that enqueues a list, and one that dequeues \<open>n\<close> times.\<close>

fun enqueue_all :: "('q \<Rightarrow> 'a \<Rightarrow> 'q result) \<Rightarrow> 'q \<Rightarrow> 'a list \<Rightarrow> 'q result" where
  "enqueue_all enq q [] = Inr q"
| "enqueue_all enq q (x # xs) = rbind (enq q x) (\<lambda>q'. enqueue_all enq q' xs)"

fun dequeue_n :: "('q \<Rightarrow> ('a \<times> 'q) result) \<Rightarrow> nat \<Rightarrow> 'q \<Rightarrow> 'a list result" where
  "dequeue_n deq 0 q = Inr []"
| "dequeue_n deq (Suc n) q =
     rbind (deq q) (\<lambda>(x, q'). rbind (dequeue_n deq n q') (\<lambda>xs. Inr (x # xs)))"

section \<open>The priority queue interface\<close>

text \<open>
  What the clients of a priority queue (the containers' \<open>Queue\<close> interface of
  \<open>src/stable/queue.h\<close>, with the order a heap adds) rely on.
\<close>

locale priority_queue = weak_order cmp for cmp :: "'a \<Rightarrow> 'a \<Rightarrow> bool" +
  fixes enq :: "'q \<Rightarrow> 'a \<Rightarrow> 'q result"
    and deq :: "'q \<Rightarrow> ('a \<times> 'q) result"
    and items :: "'q \<Rightarrow> 'a multiset"
    and invar :: "'q \<Rightarrow> bool"
  assumes enq_law: "invar q \<Longrightarrow>
      \<exists>q'. enq q x = Inr q' \<and> invar q' \<and> items q' = add_mset x (items q)"
    and deq_law: "invar q \<Longrightarrow> items q \<noteq> {#} \<Longrightarrow>
      \<exists>x q'. deq q = Inr (x, q') \<and> invar q' \<and> items q = add_mset x (items q') \<and>
        (\<forall>y \<in># items q'. \<not> cmp y x)"

context priority_queue begin

lemma enqueue_all_law:
  "invar q \<Longrightarrow>
     \<exists>q'. enqueue_all enq q xs = Inr q' \<and> invar q' \<and> items q' = items q + mset xs"
proof (induction xs arbitrary: q)
  case Nil
  then show ?case by simp
next
  case (Cons x xs)
  then obtain q1 where q1: "enq q x = Inr q1" "invar q1" "items q1 = add_mset x (items q)"
    using enq_law by blast
  from Cons.IH [OF q1(2)] q1 show ?case by auto
qed

lemma dequeue_n_law:
  "invar q \<Longrightarrow> size (items q) = n \<Longrightarrow>
     \<exists>xs. dequeue_n deq n q = Inr xs \<and> mset xs = items q \<and> sorted_wrt (\<lambda>a b. \<not> cmp b a) xs"
proof (induction n arbitrary: q)
  case 0
  then show ?case by simp
next
  case (Suc n)
  then have "items q \<noteq> {#}" by auto
  with Suc.prems obtain x q' where q': "deq q = Inr (x, q')" "invar q'"
    "items q = add_mset x (items q')" "\<forall>y \<in># items q'. \<not> cmp y x"
    using deq_law by blast
  with Suc.prems have "size (items q') = n" by simp
  from Suc.IH [OF q'(2) this] obtain xs where
    "dequeue_n deq n q' = Inr xs" "mset xs = items q'" "sorted_wrt (\<lambda>a b. \<not> cmp b a) xs"
    by blast
  with q' show ?case by (auto simp flip: set_mset_mset)
qed

end

section \<open>The bounded queue interface\<close>

text \<open>
  \<open>rel n q xs\<close>: the queue \<open>q\<close> has capacity \<open>n\<close> and holds the items \<open>xs\<close>, oldest first.
  Adding to a full queue drops the oldest item.
\<close>

locale lossy_queue =
  fixes enq :: "'q \<Rightarrow> 'a \<Rightarrow> 'q result"
    and deq :: "'q \<Rightarrow> ('a \<times> 'q) result"
    and rel :: "nat \<Rightarrow> 'q \<Rightarrow> 'a list \<Rightarrow> bool"
  assumes lossy_enq: "rel n q xs \<Longrightarrow>
      \<exists>q'. enq q x = Inr q' \<and> rel n q' (drop (Suc (length xs) - n) (xs @ [x]))"
    and lossy_deq: "rel n q (x # xs) \<Longrightarrow> \<exists>q'. deq q = Inr (x, q') \<and> rel n q' xs"
    and lossy_bound: "rel n q xs \<Longrightarrow> length xs \<le> n"
begin

lemma lossy_enqueue_all:
  "rel n q xs \<Longrightarrow>
     \<exists>q'. enqueue_all enq q ys = Inr q' \<and> rel n q' (drop (length xs + length ys - n) (xs @ ys))"
proof (induction ys arbitrary: q xs)
  case Nil
  then show ?case using lossy_bound by auto
next
  case (Cons y ys)
  obtain q1 where q1: "enq q y = Inr q1" "rel n q1 (drop (Suc (length xs) - n) (xs @ [y]))"
    using lossy_enq [OF Cons.prems] by blast
  have "length xs \<le> n" using Cons.prems by (rule lossy_bound)
  moreover from Cons.IH [OF q1(2)] obtain q' where "enqueue_all enq q1 ys = Inr q'"
    "rel n q' (drop (length (drop (Suc (length xs) - n) (xs @ [y])) + length ys - n)
       (drop (Suc (length xs) - n) (xs @ [y]) @ ys))" by blast
  ultimately show ?case
    using q1(1) by (cases "length xs = n") (auto simp: drop_Cons' split: if_splits)
qed

lemma lossy_dequeue_n:
  "rel n q xs \<Longrightarrow> k \<le> length xs \<Longrightarrow> dequeue_n deq k q = Inr (take k xs)"
proof (induction k arbitrary: q xs)
  case 0
  then show ?case by simp
next
  case (Suc k)
  then obtain x ys where xs: "xs = x # ys" by (cases xs) auto
  with Suc.prems obtain q' where "deq q = Inr (x, q')" "rel n q' ys"
    using lossy_deq by blast
  with Suc xs show ?case by simp
qed

end

section \<open>The unbounded queue interface\<close>

text \<open>\<open>rel q xs\<close>: the queue \<open>q\<close> holds the items \<open>xs\<close>, oldest first.\<close>

locale fifo_queue =
  fixes enq :: "'q \<Rightarrow> 'a \<Rightarrow> 'q result"
    and deq :: "'q \<Rightarrow> ('a \<times> 'q) result"
    and rel :: "'q \<Rightarrow> 'a list \<Rightarrow> bool"
  assumes fifo_enq: "rel q xs \<Longrightarrow> \<exists>q'. enq q x = Inr q' \<and> rel q' (xs @ [x])"
    and fifo_deq: "rel q (x # xs) \<Longrightarrow> \<exists>q'. deq q = Inr (x, q') \<and> rel q' xs"
begin

lemma fifo_enqueue_all:
  "rel q xs \<Longrightarrow> \<exists>q'. enqueue_all enq q ys = Inr q' \<and> rel q' (xs @ ys)"
proof (induction ys arbitrary: q xs)
  case Nil
  then show ?case by simp
next
  case (Cons y ys)
  obtain q1 where "enq q y = Inr q1" "rel q1 (xs @ [y])" using fifo_enq [OF Cons.prems] by blast
  with Cons.IH [of q1 "xs @ [y]"] show ?case by simp
qed

lemma fifo_dequeue_n:
  "rel q xs \<Longrightarrow> k \<le> length xs \<Longrightarrow> dequeue_n deq k q = Inr (take k xs)"
proof (induction k arbitrary: q xs)
  case 0
  then show ?case by simp
next
  case (Suc k)
  then obtain x ys where xs: "xs = x # ys" by (cases xs) auto
  with Suc.prems obtain q' where "deq q = Inr (x, q')" "rel q' ys"
    using fifo_deq by blast
  with Suc xs show ?case by simp
qed

end

end
