(* ===== verification/Bu_RingBuffer.thy ===== *)
theory Bu_RingBuffer
  imports Bu_Queue
begin

text \<open>
  \<open>Bu::RingBuffer\<close> (\<open>src/stable/ringbuffer.h\<close>), a queue over a fixed array that drops its
  oldest item when it is full.

  A slot of \<open>aData\<close> is \<open>None\<close> while it holds no object. An access outside the array, a read
  of a slot without an object, and a remainder by a capacity of zero are \<open>Out_Of_Bounds\<close>.
  Items have trivial destructors: \<open>dequeue\<close> copies the item out of a slot it has just
  destroyed, which is defined for such items only.
\<close>

section \<open>The core and its operations\<close>

record 'a rb_core =
  iCapacity :: int
  iStart :: int
  iEnd :: int
  aData :: "'a option list"

definition rb_new :: "'a rb_core" where
  "rb_new = \<lparr>iCapacity = 0, iStart = -1, iEnd = -2, aData = []\<rparr>"

definition rb_init :: "int \<Rightarrow> 'a rb_core \<Rightarrow> 'a rb_core" where
  "rb_init iNewCapacity c =
     (if iCapacity c > 0 then c
      else \<lparr>iCapacity = iNewCapacity, iStart = -1, iEnd = -2,
            aData = replicate (nat iNewCapacity) None\<rparr>)"

definition rb_construct :: "'a rb_core \<Rightarrow> int \<Rightarrow> 'a \<Rightarrow> 'a rb_core result" where
  "rb_construct c i v = rbind (arr_set (aData c) i (Some v)) (\<lambda>d. Inr (c\<lparr>aData := d\<rparr>))"

definition rb_destroy :: "'a rb_core \<Rightarrow> int \<Rightarrow> 'a rb_core result" where
  "rb_destroy c i = rbind (arr_set (aData c) i None) (\<lambda>d. Inr (c\<lparr>aData := d\<rparr>))"

definition rb_slot :: "'a rb_core \<Rightarrow> int \<Rightarrow> 'a result" where
  "rb_slot c i =
     rbind (arr_get (aData c) i)
       (\<lambda>s. case s of None \<Rightarrow> Inl Out_Of_Bounds | Some v \<Rightarrow> Inr v)"

definition rb_rem :: "'a rb_core \<Rightarrow> int \<Rightarrow> int result" where
  "rb_rem c i = (if iCapacity c = 0 then Inl Out_Of_Bounds else Inr (c_rem i (iCapacity c)))"

text \<open>
  \<open>clear\<close> steps by \<open>1%iCapacity\<close>; the loop may not end, so its result is an option.
\<close>

partial_function (option) rb_clear_loop :: "'a rb_core \<Rightarrow> int \<Rightarrow> 'a rb_core result option" where
  "rb_clear_loop c j =
     (if j < iEnd c then
        (case rbind (rb_destroy c j) (\<lambda>c'. rbind (rb_rem c' 1) (\<lambda>r. Inr (c', j + r))) of
           Inl e \<Rightarrow> Some (Inl e)
         | Inr cj \<Rightarrow> rb_clear_loop (fst cj) (snd cj))
      else Some (Inr c))"

definition rb_clear :: "'a rb_core \<Rightarrow> 'a rb_core result option" where
  "rb_clear c =
     map_option (\<lambda>r. rbind r (\<lambda>c'. Inr (c'\<lparr>aData := [], iCapacity := 0\<rparr>)))
       (rb_clear_loop c (iStart c))"

definition rb_dequeue :: "'a rb_core \<Rightarrow> ('a \<times> 'a rb_core) result" where
  "rb_dequeue c =
     (if iStart c = -1 then Inl (ExceptionBase ''No data'')
      else rbind (rb_slot c (iStart c)) (\<lambda>v.
           rbind (rb_destroy c (iStart c)) (\<lambda>c1.
           rbind (rb_rem c1 (iStart c1 + 1)) (\<lambda>s.
             let c2 = c1\<lparr>iStart := s\<rparr>
             in Inr (v, if iStart c2 = iEnd c2 then c2\<lparr>iStart := -1, iEnd := -2\<rparr> else c2)))))"

definition rb_enqueue :: "'a rb_core \<Rightarrow> 'a \<Rightarrow> 'a rb_core result" where
  "rb_enqueue c v =
     (if iStart c = -1 then rb_construct (c\<lparr>iStart := 0, iEnd := 1\<rparr>) 0 v
      else rbind (if iStart c = iEnd c then rbind (rb_dequeue c) (\<lambda>(w, c'). Inr c') else Inr c)
        (\<lambda>c1. rbind (rb_construct c1 (iEnd c1) v)
        (\<lambda>c2. rbind (rb_rem c2 (iEnd c2 + 1)) (\<lambda>e. Inr (c2\<lparr>iEnd := e\<rparr>)))))"

definition rb_get :: "'a rb_core \<Rightarrow> int \<Rightarrow> 'a result" where
  "rb_get c iIndex = rbind (rb_rem c (iIndex + iStart c)) (rb_slot c)"

definition rb_first :: "'a rb_core \<Rightarrow> 'a result" where
  "rb_first c = rb_slot c (iStart c)"

definition rb_last :: "'a rb_core \<Rightarrow> 'a result" where
  "rb_last c = rbind (rb_rem c (iEnd c - 1 + iCapacity c)) (rb_slot c)"

definition rb_peek :: "'a rb_core \<Rightarrow> 'a result" where
  "rb_peek c = rb_get c 0"

definition rb_getSize :: "'a rb_core \<Rightarrow> int" where
  "rb_getSize c =
     (if iStart c < 0 then 0
      else if iEnd c = iStart c then iCapacity c
      else if iEnd c < iStart c then iEnd c - iStart c
      else iCapacity c - (iEnd c - iStart c))"

definition rb_getCapacity :: "'a rb_core \<Rightarrow> int" where
  "rb_getCapacity c = iCapacity c"

definition rb_isFilled :: "'a rb_core \<Rightarrow> bool" where
  "rb_isFilled c \<longleftrightarrow> iStart c = iEnd c"

definition rb_isEmpty :: "'a rb_core \<Rightarrow> bool" where
  "rb_isEmpty c \<longleftrightarrow> iStart c = -1"

text \<open>\<open>_copyCore\<close>, run before the first write through a shared handle.\<close>

fun rb_copy_items :: "'a rb_core \<Rightarrow> 'a rb_core \<Rightarrow> nat \<Rightarrow> nat \<Rightarrow> 'a rb_core result" where
  "rb_copy_items src dst j 0 = Inr dst"
| "rb_copy_items src dst j (Suc n) =
     rbind (rb_get src (int j)) (\<lambda>v. rbind (rb_enqueue dst v) (\<lambda>dst'.
       rb_copy_items src dst' (Suc j) n))"

definition rb_copyCore :: "'a rb_core \<Rightarrow> 'a rb_core result" where
  "rb_copyCore src = rb_copy_items src (rb_init (iCapacity src) rb_new) 0 (nat (rb_getSize src))"

section \<open>Refinement of a bounded queue\<close>

text \<open>
  A core stands for the list of its items, oldest first. Capacities from two up: see
  the last properties for a capacity of one.
\<close>

definition rb_rel :: "'a rb_core \<Rightarrow> 'a list \<Rightarrow> bool" where
  "rb_rel c xs \<longleftrightarrow>
     2 \<le> iCapacity c \<and> int (length (aData c)) = iCapacity c \<and> length xs \<le> length (aData c) \<and>
     (if xs = [] then iStart c = -1 \<and> iEnd c = -2
      else \<exists>s < length (aData c). iStart c = int s \<and>
             iEnd c = int ((s + length xs) mod length (aData c)) \<and>
             (\<forall>i < length xs. aData c ! ((s + i) mod length (aData c)) = Some (xs ! i)))"

lemma rb_rel_cap: "rb_rel c xs \<Longrightarrow> iCapacity c = int (length (aData c)) \<and> 2 \<le> length (aData c)"
  by (auto simp: rb_rel_def)

lemma rb_relI:
  assumes "iCapacity c = int n" "length (aData c) = n" "2 \<le> n" "xs \<noteq> []" "length xs \<le> n" "s < n"
    "iStart c = int s" "iEnd c = int ((s + length xs) mod n)"
    "\<And>i. i < length xs \<Longrightarrow> aData c ! ((s + i) mod n) = Some (xs ! i)"
  shows "rb_rel c xs"
  using assms by (auto simp: rb_rel_def)

lemma rb_relE:
  assumes "rb_rel c xs" "xs \<noteq> []"
  obtains n s where "iCapacity c = int n" "length (aData c) = n" "2 \<le> n" "length xs \<le> n" "s < n"
    "iStart c = int s" "iEnd c = int ((s + length xs) mod n)"
    "\<And>i. i < length xs \<Longrightarrow> aData c ! ((s + i) mod n) = Some (xs ! i)"
  using assms by (auto simp: rb_rel_def)

lemma rb_rel_init: "2 \<le> n \<Longrightarrow> rb_rel (rb_init n rb_new) []"
  by (simp add: rb_rel_def rb_init_def rb_new_def)

lemma rb_isEmpty_rel: "rb_rel c xs \<Longrightarrow> rb_isEmpty c \<longleftrightarrow> xs = []"
  by (auto simp: rb_rel_def rb_isEmpty_def split: if_splits)

lemma rb_wrap_start:
  assumes "0 < k" "k \<le> n" "(s::nat) < n"
  shows "(s + k) mod n = s \<longleftrightarrow> k = n"
proof
  assume a: "(s + k) mod n = s"
  show "k = n"
  proof (rule ccontr)
    assume "k \<noteq> n"
    with assms a mod_add_inj [of s k n 0] show False by simp
  qed
qed (use assms in simp)

lemma rb_isFilled_rel: "rb_rel c xs \<Longrightarrow> rb_isFilled c \<longleftrightarrow> length xs = length (aData c)"
proof (cases "xs = []")
  case True
  assume "rb_rel c xs"
  with True show ?thesis by (auto simp: rb_rel_def rb_isFilled_def)
next
  case False
  assume "rb_rel c xs"
  from this False show ?thesis
  proof (rule rb_relE)
    fix n s assume *: "length (aData c) = n" "length xs \<le> n" "s < n"
      "iStart c = int s" "iEnd c = int ((s + length xs) mod n)"
    with False rb_wrap_start [of "length xs" n s] show ?thesis
      by (auto simp: rb_isFilled_def)
  qed
qed

lemma rb_dequeue_rel:
  assumes "rb_rel c (x # xs)"
  shows "\<exists>c'. rb_dequeue c = Inr (x, c') \<and> rb_rel c' xs \<and> iCapacity c' = iCapacity c
    \<and> iEnd c' = (if xs = [] then -2 else iEnd c)"
  using assms
proof (rule rb_relE)
  fix n s assume *: "iCapacity c = int n" "length (aData c) = n" "2 \<le> n" "length (x # xs) \<le> n"
    "s < n" "iStart c = int s" "iEnd c = int ((s + length (x # xs)) mod n)"
    "\<And>i. i < length (x # xs) \<Longrightarrow> aData c ! ((s + i) mod n) = Some ((x # xs) ! i)"
  define s' where "s' = (s + 1) mod n"
  define c2 where "c2 = c\<lparr>aData := (aData c)[s := None], iStart := int s'\<rparr>"
  have slot: "rb_slot c (iStart c) = Inr x"
    using *(2,5,6) *(8) [of 0] by (simp add: rb_slot_def)
  have destroy: "rb_destroy c (int s) = Inr (c\<lparr>aData := (aData c)[s := None]\<rparr>)"
    using *(2,5) by (simp add: rb_destroy_def)
  have rem: "rb_rem (c\<lparr>aData := d\<rparr>) (int s + 1) = Inr (int s')" for d
    using *(1,3) c_rem_int [of n "s + 1"] by (simp add: rb_rem_def s'_def add.commute)
  have deq: "rb_dequeue c =
      Inr (x, if iStart c2 = iEnd c2 then c2\<lparr>iStart := -1, iEnd := -2\<rparr> else c2)"
    using *(6) slot destroy rem by (simp add: rb_dequeue_def c2_def Let_def)
  have wrap: "(s' + k) mod n = (s + Suc k) mod n" for k
    by (simp add: s'_def mod_add_left_eq)
  show ?thesis
  proof (cases "xs = []")
    case True
    then have "iStart c2 = iEnd c2" using *(7) by (simp add: c2_def s'_def)
    with deq True * show ?thesis by (simp add: rb_rel_def c2_def)
  next
    case False
    have "s' + length xs < s' + n" using *(4) by simp
    then have "(s' + length xs) mod n \<noteq> s'"
      using rb_wrap_start [of "length xs" n s'] False *(3,4) by (simp add: s'_def)
    with *(7) wrap have ne: "iStart c2 \<noteq> iEnd c2" by (simp add: c2_def)
    have "rb_rel c2 xs"
    proof (rule rb_relI [of _ n _ s'])
      fix i assume i: "i < length xs"
      have "(s + Suc i) mod n \<noteq> s"
        using rb_wrap_start [of "Suc i" n s] i *(4,5) by simp
      with *(8) [of "Suc i"] i show "aData c2 ! ((s' + i) mod n) = Some (xs ! i)"
        by (simp add: c2_def wrap)
    qed (use * False wrap in \<open>auto simp: c2_def s'_def\<close>)
    with deq ne False show ?thesis by (simp add: c2_def)
  qed
qed simp

lemma rb_append_rel:
  assumes "rb_rel c xs" "xs \<noteq> []" "length xs < length (aData c)"
  shows "\<exists>c'. rbind (rb_construct c (iEnd c) v)
      (\<lambda>c2. rbind (rb_rem c2 (iEnd c2 + 1)) (\<lambda>e. Inr (c2\<lparr>iEnd := e\<rparr>))) = Inr c' \<and>
    iCapacity c' = iCapacity c \<and> rb_rel c' (xs @ [v])"
  using assms(1,2)
proof (rule rb_relE)
  fix n s assume *: "iCapacity c = int n" "length (aData c) = n" "2 \<le> n" "length xs \<le> n"
    "s < n" "iStart c = int s" "iEnd c = int ((s + length xs) mod n)"
    "\<And>i. i < length xs \<Longrightarrow> aData c ! ((s + i) mod n) = Some (xs ! i)"
  define e where "e = (s + length xs) mod n"
  define c' where "c' = c\<lparr>aData := (aData c)[e := Some v], iEnd := int ((e + 1) mod n)\<rparr>"
  have "e < n" using *(3) by (simp add: e_def)
  then have con: "rb_construct c (iEnd c) v = Inr (c\<lparr>aData := (aData c)[e := Some v]\<rparr>)"
    using *(2,7) by (simp add: rb_construct_def e_def)
  have rem: "rb_rem (c\<lparr>aData := d\<rparr>) (int e + 1) = Inr (int ((e + 1) mod n))" for d
    using *(1,3) c_rem_int [of n "e + 1"] by (simp add: rb_rem_def add.commute)
  have "rb_rel c' (xs @ [v])"
  proof (rule rb_relI [of _ n _ s])
    fix i assume i: "i < length (xs @ [v])"
    show "aData c' ! ((s + i) mod n) = Some ((xs @ [v]) ! i)"
    proof (cases "i = length xs")
      case True
      with \<open>e < n\<close> *(2) show ?thesis by (simp add: c'_def e_def)
    next
      case False
      with i have "i < length xs" by simp
      moreover from this have "(s + i) mod n \<noteq> e"
        using mod_add_inj [of s i n "length xs"] assms(3) *(2) by (auto simp: e_def)
      ultimately show ?thesis using *(8) by (simp add: c'_def nth_append)
    qed
  next
    show "iEnd c' = int ((s + length (xs @ [v])) mod n)"
      by (simp add: c'_def e_def mod_Suc_eq)
  qed (use * assms(3) in \<open>auto simp: c'_def\<close>)
  moreover have "rbind (rb_construct c (iEnd c) v)
      (\<lambda>c2. rbind (rb_rem c2 (iEnd c2 + 1)) (\<lambda>e. Inr (c2\<lparr>iEnd := e\<rparr>))) = Inr c'"
    using con rem *(7) by (simp add: c'_def e_def)
  ultimately show ?thesis by (simp add: c'_def)
qed

lemma rb_enqueue_rel:
  assumes rel: "rb_rel c xs"
  shows "\<exists>c'. rb_enqueue c v = Inr c' \<and> iCapacity c' = iCapacity c \<and>
    rb_rel c' (drop (Suc (length xs) - length (aData c)) (xs @ [v]))"
proof (cases "xs = []")
  case True
  define n where "n = length (aData c)"
  have n: "iCapacity c = int n" "2 \<le> n" "iStart c = -1"
    using rel True by (auto simp: rb_rel_def n_def)
  then have ne: "aData c \<noteq> []" by (auto simp: n_def)
  have "rb_enqueue c v = Inr (c\<lparr>iStart := 0, iEnd := 1, aData := (aData c)[0 := Some v]\<rparr>)"
    using n ne by (auto simp: rb_enqueue_def rb_construct_def n_def)
  moreover have "rb_rel (c\<lparr>iStart := 0, iEnd := 1, aData := (aData c)[0 := Some v]\<rparr>) [v]"
    using n ne by (intro rb_relI [of _ n _ 0]) (auto simp: n_def)
  ultimately show ?thesis using True n by (simp add: n_def)
next
  case ne: False
  then have s: "iStart c \<noteq> -1" using rel by (auto simp: rb_rel_def)
  show ?thesis
  proof (cases "length xs = length (aData c)")
    case False
    then have "iStart c \<noteq> iEnd c" using rb_isFilled_rel [OF rel] by (simp add: rb_isFilled_def)
    moreover have lt: "length xs < length (aData c)" using False rel by (simp add: rb_rel_def)
    moreover have "Suc (length xs) - length (aData c) = 0" using lt by simp
    ultimately show ?thesis
      using rb_append_rel [OF rel \<open>xs \<noteq> []\<close>, of v] s by (simp add: rb_enqueue_def)
  next
    case full: True
    then have e: "iStart c = iEnd c" using rb_isFilled_rel [OF rel] by (simp add: rb_isFilled_def)
    obtain x ys where xs: "xs = x # ys" using ne by (cases xs) auto
    have ys: "ys \<noteq> []" using full rb_rel_cap [OF rel] xs by auto
    obtain c1 where c1: "rb_dequeue c = Inr (x, c1)" "rb_rel c1 ys" "iCapacity c1 = iCapacity c"
      using rb_dequeue_rel [of c x ys] rel xs by auto
    then have "length (aData c1) = length (aData c)"
      using rb_rel_cap [OF rel] rb_rel_cap [OF c1(2)] by simp
    with rb_append_rel [OF c1(2) ys] full xs s e c1 show ?thesis
      by (simp add: rb_enqueue_def)
  qed
qed

interpretation ring: lossy_queue rb_enqueue rb_dequeue
    "\<lambda>n c xs. iCapacity c = int n \<and> rb_rel c xs"
proof (unfold_locales, goal_cases)
  case (1 n q xs x)
  then show ?case using rb_enqueue_rel [of q xs x] rb_rel_cap [of q xs] by auto
next
  case (2 n q x xs)
  then show ?case using rb_dequeue_rel by fastforce
next
  case (3 n q xs)
  then show ?case by (auto simp: rb_rel_def)
qed

section \<open>Sizes and copies\<close>

lemma rb_get_rel: "rb_rel c xs \<Longrightarrow> i < length xs \<Longrightarrow> rb_get c (int i) = Inr (xs ! i)"
proof (erule rb_relE)
  fix n s assume i: "i < length xs" and *: "iCapacity c = int n" "length (aData c) = n" "2 \<le> n" "s < n"
    "iStart c = int s" "\<And>i. i < length xs \<Longrightarrow> aData c ! ((s + i) mod n) = Some (xs ! i)"
  have "rb_rem c (int i + iStart c) = Inr (int ((s + i) mod n))"
    using *(1,3,5) c_rem_int [of n "s + i"] by (simp add: rb_rem_def add.commute)
  moreover have "(s + i) mod n < length (aData c)" using *(2,3) by simp
  ultimately show "rb_get c (int i) = Inr (xs ! i)"
    using *(6) [OF i] by (simp add: rb_get_def rb_slot_def)
qed auto

lemma rb_getSize_rel:
  assumes "rb_rel c xs"
  shows "rb_getSize c =
    (if xs = [] then 0 else if int (length xs) = iCapacity c then iCapacity c
     else if iStart c < iEnd c then iCapacity c - int (length xs)
     else int (length xs) - iCapacity c)"
proof (cases "xs = []")
  case True
  with assms show ?thesis by (simp add: rb_rel_def rb_getSize_def)
next
  case False
  from assms this show ?thesis
  proof (rule rb_relE)
    fix n s assume *: "iCapacity c = int n" "length (aData c) = n" "2 \<le> n" "length xs \<le> n" "s < n"
      "iStart c = int s" "iEnd c = int ((s + length xs) mod n)"
    show ?thesis
    proof (cases "s + length xs < n")
      case True
      with * False show ?thesis by (simp add: rb_getSize_def)
    next
      case ge: False
      then have "(s + length xs) mod n = s + length xs - n"
        using * by (simp add: le_mod_geq)
      with * ge False show ?thesis by (auto simp: rb_getSize_def)
    qed
  qed
qed

lemma rb_copy_items_rel:
  "rb_rel src xs \<Longrightarrow> rb_rel dst ys \<Longrightarrow> iCapacity dst = iCapacity src \<Longrightarrow>
   ys = take j xs \<Longrightarrow> j + k \<le> length xs \<Longrightarrow>
   \<exists>c'. rb_copy_items src dst j k = Inr c' \<and> rb_rel c' (take (j + k) xs) \<and> iCapacity c' = iCapacity src"
proof (induction k arbitrary: dst ys j)
  case 0
  then show ?case by simp
next
  case (Suc k)
  have j: "j < length xs" using Suc.prems(5) by simp
  have lens: "length (aData dst) = length (aData src)" "length xs \<le> length (aData src)"
    using rb_rel_cap [OF Suc.prems(1)] rb_rel_cap [OF Suc.prems(2)] Suc.prems(1,3)
    by (auto simp: rb_rel_def)
  obtain d where d: "rb_enqueue dst (xs ! j) = Inr d" "iCapacity d = iCapacity dst"
    "rb_rel d (drop (Suc (length ys) - length (aData dst)) (ys @ [xs ! j]))"
    using rb_enqueue_rel [OF Suc.prems(2)] by blast
  have "Suc (length ys) - length (aData dst) = 0" using Suc.prems(4) j lens by simp
  then have "rb_rel d (take (Suc j) xs)"
    using d(3) Suc.prems(4) j by (simp add: take_Suc_conv_app_nth)
  from Suc.IH [OF Suc.prems(1) this, of "Suc j"] Suc.prems(3,5) d(2)
  show ?case using rb_get_rel [OF Suc.prems(1) j] d(1) by simp
qed

lemma rb_copyCore_rel:
  assumes "rb_rel c xs" "nat (rb_getSize c) \<le> length xs"
  shows "\<exists>c'. rb_copyCore c = Inr c' \<and> rb_rel c' (take (nat (rb_getSize c)) xs)"
proof -
  have "rb_rel (rb_init (iCapacity c) rb_new) []"
    using assms(1) by (intro rb_rel_init) (auto simp: rb_rel_def)
  moreover have "iCapacity (rb_init (iCapacity c) rb_new) = iCapacity c"
    by (simp add: rb_init_def rb_new_def)
  ultimately show ?thesis
    using rb_copy_items_rel [OF assms(1), of _ "[]" 0 "nat (rb_getSize c)"] assms(2)
    by (fastforce simp: rb_copyCore_def)
qed

lemma rb_clear_loop_cap_one:
  assumes "rb_clear_loop c j = Some r" "iCapacity c = 1" "j = 0" "iEnd c = 1" "length (aData c) = 1"
  shows False
proof -
  have "iCapacity c = 1 \<longrightarrow> j = 0 \<longrightarrow> iEnd c = 1 \<longrightarrow> length (aData c) = 1 \<longrightarrow> False"
  proof (rule rb_clear_loop.raw_induct [where P = "\<lambda>c j r. iCapacity c = 1 \<longrightarrow> j = 0 \<longrightarrow>
      iEnd c = 1 \<longrightarrow> length (aData c) = 1 \<longrightarrow> False", OF _ assms(1)], intro impI)
    fix f :: "'a rb_core \<Rightarrow> int \<Rightarrow> 'a rb_core result option" and c j r
    assume IH: "\<And>c j r. f c j = Some r \<Longrightarrow>
        iCapacity c = 1 \<longrightarrow> j = 0 \<longrightarrow> iEnd c = 1 \<longrightarrow> length (aData c) = 1 \<longrightarrow> False"
      and eq: "(if j < iEnd c
        then case rbind (rb_destroy c j) (\<lambda>c'. rbind (rb_rem c' 1) (\<lambda>r. Inr (c', j + r))) of
               Inl e \<Rightarrow> Some (Inl e) | Inr cj \<Rightarrow> f (fst cj) (snd cj)
        else Some (Inr c)) = Some r"
      and c: "iCapacity c = 1" "j = 0" "iEnd c = 1" "length (aData c) = 1"
    have "aData c \<noteq> []" using c(4) by auto
    with eq c have "f (c\<lparr>aData := (aData c)[0 := None]\<rparr>) 0 = Some r"
      by (simp add: rb_destroy_def rb_rem_def c_rem_def)
    from IH [OF this] c show False by simp
  qed
  with assms show False by simp
qed

section \<open>Properties\<close>

text \<open>
  C17. A ring buffer of capacity \<open>n\<close> (two or more) keeps exactly the last \<open>n\<close> items enqueued:
  after any sequence of enqueues the dequeues return them oldest first, nothing raises, and
  no access leaves the array.
\<close>

theorem ring_keeps_last:
  assumes "2 \<le> n" "k \<le> min n (length ys)"
  shows "rbind (enqueue_all rb_enqueue (rb_init (int n) rb_new) ys) (dequeue_n rb_dequeue k) =
    Inr (take k (drop (length ys - n) ys))"
proof -
  have "iCapacity (rb_init (int n) rb_new) = int n \<and> rb_rel (rb_init (int n) rb_new) []"
    using assms(1) rb_rel_init [of "int n"] by (simp add: rb_init_def rb_new_def)
  from ring.lossy_enqueue_all [OF this, of ys] obtain q where
    q: "enqueue_all rb_enqueue (rb_init (int n) rb_new) ys = Inr q"
      "iCapacity q = int n \<and> rb_rel q (drop (length ys - n) ys)" by auto
  have "k \<le> length (drop (length ys - n) ys)" using assms(2) by auto
  from ring.lossy_dequeue_n [OF q(2) this] q(1) show ?thesis by simp
qed

theorem ring_keeps_last_witness:
  "rbind (enqueue_all rb_enqueue (rb_init 3 rb_new) [1::int, 2, 3, 4, 5]) (dequeue_n rb_dequeue 3) =
    Inr [3, 4, 5]"
  using ring_keeps_last [of 3 3 "[1::int, 2, 3, 4, 5]"] by simp

text \<open>
  What \<open>getSize\<close> returns: the number of items only when the buffer is empty or full. In
  between it is the number of free slots, negated when the items wrap around the end of the
  array.
\<close>

theorem ring_getSize_counts_free:
  assumes "rb_rel c xs"
  shows "rb_getSize c =
    (if xs = [] then 0 else if int (length xs) = iCapacity c then iCapacity c
     else if iStart c < iEnd c then iCapacity c - int (length xs)
     else int (length xs) - iCapacity c)"
  using assms by (rule rb_getSize_rel)

theorem ring_getSize_counts_free_witness:
  "rb_getSize \<lparr>iCapacity = 4, iStart = 1, iEnd = 2, aData = [None, Some (7::int), None, None]\<rparr> = 3"
  using ring_getSize_counts_free
    [of "\<lparr>iCapacity = 4, iStart = 1, iEnd = 2, aData = [None, Some (7::int), None, None]\<rparr>" "[7]"]
  by (simp add: rb_rel_def)

text \<open>
  What a copy-on-write of a ring buffer keeps, since it copies \<open>getSize\<close> items: a full
  buffer is copied whole, a buffer whose items wrap around the end of the array is copied as
  an empty one, and otherwise at most as many items survive as there were free slots.
\<close>

theorem ring_copy_keeps_free:
  assumes "rb_rel c xs" "xs \<noteq> []"
    and "iStart c < iEnd c \<Longrightarrow> iCapacity c \<le> 2 * int (length xs)"
  shows "\<exists>c'. rb_copyCore c = Inr c' \<and>
    rb_rel c' (if int (length xs) = iCapacity c then xs
               else if iStart c < iEnd c then take (nat (iCapacity c) - length xs) xs else [])"
proof -
  define n where "n = length (aData c)"
  have n: "iCapacity c = int n" "length xs \<le> n"
    using assms(1) by (auto simp: rb_rel_def n_def)
  have size: "nat (rb_getSize c) = (if length xs = n then n
      else if iStart c < iEnd c then n - length xs else 0)"
    using rb_getSize_rel [OF assms(1)] n assms(2) by (simp add: nat_diff_distrib)
  have "nat (rb_getSize c) \<le> length xs"
    using size n assms(3) by (cases "iStart c < iEnd c") (auto split: if_splits)
  moreover have "take (nat (rb_getSize c)) xs = (if int (length xs) = iCapacity c then xs
      else if iStart c < iEnd c then take (nat (iCapacity c) - length xs) xs else [])"
    using size n by simp
  ultimately show ?thesis using rb_copyCore_rel [OF assms(1)] by simp
qed

theorem ring_copy_keeps_free_witness:
  "\<exists>c'. rb_copyCore \<lparr>iCapacity = 3, iStart = 2, iEnd = 1, aData = [Some (8::int), None, Some 7]\<rparr> = Inr c' \<and>
    rb_rel c' []"
proof -
  have "rb_rel \<lparr>iCapacity = 3, iStart = 2, iEnd = 1, aData = [Some (8::int), None, Some 7]\<rparr> [7, 8]"
    by (rule rb_relI [of _ 3 _ 2]) (auto simp: less_Suc_eq)
  from ring_copy_keeps_free [OF this] show ?thesis by simp
qed

text \<open>
  A ring buffer of capacity one: \<open>enqueue\<close> leaves the end index outside the array, so the
  second item is written past it, and \<open>clear\<close>, which steps by \<open>1%iCapacity\<close>, never returns
  once an item has been enqueued.
\<close>

theorem ring_capacity_one:
  "enqueue_all rb_enqueue (rb_init 1 rb_new) [x, y] = Inl Out_Of_Bounds \<and>
   (\<exists>c. rb_enqueue (rb_init 1 rb_new) x = Inr c \<and> rb_clear c = None)"
proof -
  define c where "c = \<lparr>iCapacity = 1, iStart = 0, iEnd = 1, aData = [Some x]\<rparr>"
  have c: "rb_enqueue (rb_init 1 rb_new) x = Inr c"
    by (simp add: rb_enqueue_def rb_init_def rb_new_def rb_construct_def c_def)
  moreover have "rb_enqueue c y = Inl Out_Of_Bounds"
    by (simp add: rb_enqueue_def rb_construct_def arr_set_def c_def)
  moreover have "rb_clear_loop c 0 = None"
    using rb_clear_loop_cap_one [of c 0] by (cases "rb_clear_loop c 0") (auto simp: c_def)
  ultimately show ?thesis by (simp add: rb_clear_def c_def)
qed

end
