(* ===== verification/Bu_SharedCore.thy ===== *)
theory Bu_SharedCore
  imports Bu_Prelude
begin

text \<open>
  \<open>Bu::SharedCore\<close> (\<open>src/stable/sharedcore.h\<close>), the copy-on-write base class of the
  containers and of strings.

  The memory is explicit, because the class is about aliasing: \<open>sc_heap\<close> maps an address to
  a core and its reference counter (the code allocates the two together and frees them
  together), \<open>sc_shell\<close> maps an object to the core it points at, and has no entry where the
  pointer is \<open>NULL\<close> or there is no such object. Following a pointer to freed memory is
  \<open>Out_Of_Bounds\<close>. The virtual functions \<open>_allocateCore\<close> and \<open>_copyCore\<close>, which the containers
  override, are the parameters \<open>alloc\<close> and \<open>cp\<close>.
\<close>

section \<open>The store and the protected operations\<close>

record 'c sc_store =
  sc_heap :: "nat \<Rightarrow> ('c \<times> int) option"
  sc_shell :: "nat \<Rightarrow> nat option"
  sc_next :: nat

definition sc_empty :: "'c sc_store" where
  "sc_empty = \<lparr>sc_heap = Map.empty, sc_shell = Map.empty, sc_next = 0\<rparr>"

text \<open>\<open>core = c; iRefCount = new int(1)\<close>, in an object whose pointers are \<open>NULL\<close>.\<close>

definition sc_attach :: "nat \<Rightarrow> 'c \<Rightarrow> 'c sc_store \<Rightarrow> 'c sc_store" where
  "sc_attach h c st =
     st\<lparr>sc_heap := (sc_heap st)(sc_next st \<mapsto> (c, 1)),
        sc_shell := (sc_shell st)(h \<mapsto> sc_next st),
        sc_next := Suc (sc_next st)\<rparr>"

definition sc_core :: "'c sc_store \<Rightarrow> nat \<Rightarrow> (nat \<times> 'c \<times> int) result" where
  "sc_core st h =
     (case sc_shell st h of None \<Rightarrow> Inl Out_Of_Bounds
      | Some a \<Rightarrow> (case sc_heap st a of None \<Rightarrow> Inl Out_Of_Bounds
                 | Some (c, n) \<Rightarrow> Inr (a, c, n)))"

definition sc_deref :: "nat \<Rightarrow> 'c sc_store \<Rightarrow> 'c sc_store result" where
  "sc_deref h st = rbind (sc_core st h) (\<lambda>(a, c, n).
     Inr (st\<lparr>sc_heap := (sc_heap st)(a := (if n - 1 = 0 then None else Some (c, n - 1))),
            sc_shell := (sc_shell st)(h := None)\<rparr>))"

definition sc_incRefCount :: "nat \<Rightarrow> 'c sc_store \<Rightarrow> 'c sc_store result" where
  "sc_incRefCount h st = rbind (sc_core st h) (\<lambda>(a, c, n).
     Inr (st\<lparr>sc_heap := (sc_heap st)(a \<mapsto> (c, n + 1))\<rparr>))"

definition sc_softCopy :: "nat \<Rightarrow> nat \<Rightarrow> 'c sc_store \<Rightarrow> 'c sc_store result" where
  "sc_softCopy h src st =
     rbind (if sc_shell st h \<noteq> None then sc_deref h st else Inr st) (\<lambda>st1.
       sc_incRefCount h (st1\<lparr>sc_shell := (sc_shell st1)(h := sc_shell st1 src)\<rparr>))"

definition sc_hardCopy :: "('c \<Rightarrow> 'c) \<Rightarrow> nat \<Rightarrow> 'c sc_store \<Rightarrow> 'c sc_store result" where
  "sc_hardCopy cp h st =
     (if sc_shell st h = None then Inr st
      else rbind (sc_core st h) (\<lambda>(a, c, n).
        if n = 1 then Inr st
        else rbind (sc_deref h st) (\<lambda>st1. Inr (sc_attach h (cp c) st1))))"

definition sc_resetCore :: "'c \<Rightarrow> nat \<Rightarrow> 'c sc_store \<Rightarrow> 'c sc_store result" where
  "sc_resetCore alloc h st =
     rbind (if sc_shell st h \<noteq> None then sc_deref h st else Inr st)
       (\<lambda>st1. Inr (sc_attach h alloc st1))"

section \<open>The public operations\<close>

text \<open>
  What a program does with objects: construct, copy-construct, assign, destroy, change
  through a member function (which calls \<open>_hardCopy\<close> first and then writes the core), reset,
  clone. In \<open>Sc_Copy h s\<close> and \<open>Sc_Clone h s\<close> the object \<open>h\<close> is the one being made.
\<close>

datatype 'c sc_op =
    Sc_New nat
  | Sc_Copy nat nat
  | Sc_Assign nat nat
  | Sc_Destroy nat
  | Sc_Write nat "'c \<Rightarrow> 'c"
  | Sc_Reset nat
  | Sc_Clone nat nat

fun sc_step :: "'c \<Rightarrow> ('c \<Rightarrow> 'c) \<Rightarrow> 'c sc_store \<Rightarrow> 'c sc_op \<Rightarrow> 'c sc_store result" where
  "sc_step alloc cp st (Sc_New h) = Inr (sc_attach h alloc st)"
| "sc_step alloc cp st (Sc_Copy h s) = sc_softCopy h s st"
| "sc_step alloc cp st (Sc_Assign h s) =
     (if sc_shell st h = sc_shell st s then Inr st else sc_softCopy h s st)"
| "sc_step alloc cp st (Sc_Destroy h) = sc_deref h st"
| "sc_step alloc cp st (Sc_Write h f) =
     rbind (sc_hardCopy cp h st) (\<lambda>st1. rbind (sc_core st1 h) (\<lambda>(a, c, n).
       Inr (st1\<lparr>sc_heap := (sc_heap st1)(a \<mapsto> (f c, n))\<rparr>)))"
| "sc_step alloc cp st (Sc_Reset h) = sc_resetCore alloc h st"
| "sc_step alloc cp st (Sc_Clone h s) =
     rbind (sc_softCopy h s st) (sc_hardCopy cp h)"

fun sc_run :: "'c \<Rightarrow> ('c \<Rightarrow> 'c) \<Rightarrow> 'c sc_store \<Rightarrow> 'c sc_op list \<Rightarrow> 'c sc_store result" where
  "sc_run alloc cp st [] = Inr st"
| "sc_run alloc cp st (x # xs) = rbind (sc_step alloc cp st x) (\<lambda>st'. sc_run alloc cp st' xs)"

definition sc_getRefCount :: "'c sc_store \<Rightarrow> nat \<Rightarrow> int result" where
  "sc_getRefCount st h = rbind (sc_core st h) (\<lambda>(a, c, n). Inr n)"

definition sc_isCoreShared :: "'c sc_store \<Rightarrow> nat \<Rightarrow> nat \<Rightarrow> bool" where
  "sc_isCoreShared st h g \<longleftrightarrow> sc_shell st h = sc_shell st g"

section \<open>The specification: objects as plain values\<close>

text \<open>
  What a program that copies every object eagerly computes: each object holds its own value.
  An operation is legal when C++ allows it: construction of a fresh object from a live one, any
  other operation on live objects.
\<close>

type_synonym 'c objects = "nat \<Rightarrow> 'c option"

fun val_legal :: "'c objects \<Rightarrow> 'c sc_op \<Rightarrow> bool" where
  "val_legal m (Sc_New h) \<longleftrightarrow> m h = None"
| "val_legal m (Sc_Copy h s) \<longleftrightarrow> m h = None \<and> m s \<noteq> None"
| "val_legal m (Sc_Assign h s) \<longleftrightarrow> m h \<noteq> None \<and> m s \<noteq> None"
| "val_legal m (Sc_Destroy h) \<longleftrightarrow> m h \<noteq> None"
| "val_legal m (Sc_Write h f) \<longleftrightarrow> m h \<noteq> None"
| "val_legal m (Sc_Reset h) \<longleftrightarrow> m h \<noteq> None"
| "val_legal m (Sc_Clone h s) \<longleftrightarrow> m h = None \<and> m s \<noteq> None"

fun val_step :: "'c \<Rightarrow> 'c objects \<Rightarrow> 'c sc_op \<Rightarrow> 'c objects" where
  "val_step alloc m (Sc_New h) = m(h \<mapsto> alloc)"
| "val_step alloc m (Sc_Copy h s) = m(h := m s)"
| "val_step alloc m (Sc_Assign h s) = m(h := m s)"
| "val_step alloc m (Sc_Destroy h) = m(h := None)"
| "val_step alloc m (Sc_Write h f) = m(h := map_option f (m h))"
| "val_step alloc m (Sc_Reset h) = m(h \<mapsto> alloc)"
| "val_step alloc m (Sc_Clone h s) = m(h := m s)"

fun val_legal_run :: "'c \<Rightarrow> 'c objects \<Rightarrow> 'c sc_op list \<Rightarrow> bool" where
  "val_legal_run alloc m [] \<longleftrightarrow> True"
| "val_legal_run alloc m (x # xs) \<longleftrightarrow> val_legal m x \<and> val_legal_run alloc (val_step alloc m x) xs"

fun val_run :: "'c \<Rightarrow> 'c objects \<Rightarrow> 'c sc_op list \<Rightarrow> 'c objects" where
  "val_run alloc m [] = m"
| "val_run alloc m (x # xs) = val_run alloc (val_step alloc m x) xs"

definition sc_abs :: "'c sc_store \<Rightarrow> 'c objects" where
  "sc_abs st h = (case sc_shell st h of None \<Rightarrow> None | Some a \<Rightarrow> map_option fst (sc_heap st a))"

section \<open>The invariant\<close>

definition sc_users :: "'c sc_store \<Rightarrow> nat \<Rightarrow> nat set" where
  "sc_users st a = {h. sc_shell st h = Some a}"

definition sc_inv :: "'c sc_store \<Rightarrow> bool" where
  "sc_inv st \<longleftrightarrow>
     finite (dom (sc_shell st)) \<and>
     (\<forall>a. case sc_heap st a of
            None \<Rightarrow> sc_users st a = {}
          | Some (c, n) \<Rightarrow> a < sc_next st \<and> 0 < n \<and> n = int (card (sc_users st a)))"

lemma sc_inv_empty: "sc_inv sc_empty"
  by (simp add: sc_inv_def sc_empty_def sc_users_def)

lemma sc_inv_finite: "sc_inv st \<Longrightarrow> finite (sc_users st a)"
  by (rule finite_subset [of _ "dom (sc_shell st)"]) (auto simp: sc_users_def sc_inv_def)

lemma sc_inv_Some:
  "sc_inv st \<Longrightarrow> sc_heap st a = Some (c, n) \<Longrightarrow>
     a < sc_next st \<and> 0 < n \<and> n = int (card (sc_users st a))"
  unfolding sc_inv_def by (elim conjE allE [of _ a]) simp

lemma sc_inv_None: "sc_inv st \<Longrightarrow> sc_heap st a = None \<Longrightarrow> sc_users st a = {}"
  unfolding sc_inv_def by (elim conjE allE [of _ a]) simp

lemma sc_shell_core:
  assumes "sc_inv st" "sc_shell st h = Some a"
  obtains c n where "sc_heap st a = Some (c, n)" "sc_core st h = Inr (a, c, n)" "sc_abs st h = Some c"
proof -
  have "h \<in> sc_users st a" using assms(2) by (simp add: sc_users_def)
  then obtain c n where "sc_heap st a = Some (c, n)"
    using sc_inv_None [OF assms(1)] by (cases "sc_heap st a") auto
  with assms(2) that show thesis by (simp add: sc_core_def sc_abs_def)
qed

lemma sc_abs_shell: "sc_inv st \<Longrightarrow> sc_abs st h = None \<longleftrightarrow> sc_shell st h = None"
  by (cases "sc_shell st h") (auto simp: sc_abs_def elim: sc_shell_core)

lemma sc_next_fresh: "sc_inv st \<Longrightarrow> sc_heap st (sc_next st) = None \<and> sc_users st (sc_next st) = {}"
  using sc_inv_Some sc_inv_None by (metis less_irrefl not_None_eq surj_pair)

lemma sc_invI:
  assumes "finite (dom (sc_shell st))"
    and "\<And>a. sc_heap st a = None \<Longrightarrow> sc_users st a = {}"
    and "\<And>a c n. sc_heap st a = Some (c, n) \<Longrightarrow>
      a < sc_next st \<and> 0 < n \<and> n = int (card (sc_users st a))"
  shows "sc_inv st"
  using assms by (auto simp: sc_inv_def split: option.splits)

lemma sc_attach_inv:
  assumes inv: "sc_inv st" and h: "sc_shell st h = None"
  shows "sc_inv (sc_attach h c st) \<and> sc_abs (sc_attach h c st) = (sc_abs st)(h \<mapsto> c)"
proof -
  define b where "b = sc_next st"
  have fresh: "sc_heap st b = None" "sc_users st b = {}"
    using sc_next_fresh [OF inv] by (auto simp: b_def)
  have users: "sc_users (sc_attach h c st) a = (if a = b then {h} else sc_users st a)" for a
    using h fresh(2) by (auto simp: sc_users_def sc_attach_def b_def)
  have "sc_inv (sc_attach h c st)"
  proof (rule sc_invI)
    show "finite (dom (sc_shell (sc_attach h c st)))"
      using inv by (simp add: sc_inv_def sc_attach_def)
  next
    fix a assume "sc_heap (sc_attach h c st) a = None"
    then show "sc_users (sc_attach h c st) a = {}"
      using sc_inv_None [OF inv, of a] users [of a]
      by (auto simp: sc_attach_def b_def split: if_splits)
  next
    fix a d n assume "sc_heap (sc_attach h c st) a = Some (d, n)"
    then show "a < sc_next (sc_attach h c st) \<and> 0 < n \<and> n = int (card (sc_users (sc_attach h c st) a))"
      using sc_inv_Some [OF inv, of a d n] users [of a]
      by (auto simp: sc_attach_def b_def split: if_splits)
  qed
  moreover have "sc_abs (sc_attach h c st) g = ((sc_abs st)(h \<mapsto> c)) g" for g
    using fresh(2) by (auto simp: sc_abs_def sc_attach_def b_def sc_users_def split: option.splits)
  ultimately show ?thesis by blast
qed

lemma sc_deref_inv:
  assumes inv: "sc_inv st" and h: "sc_shell st h = Some b"
  shows "\<exists>st'. sc_deref h st = Inr st' \<and> sc_inv st' \<and> sc_abs st' = (sc_abs st)(h := None)
    \<and> sc_shell st' = (sc_shell st)(h := None)"
proof -
  obtain c n where c: "sc_heap st b = Some (c, n)" "sc_core st h = Inr (b, c, n)"
    using sc_shell_core [OF inv h] by blast
  define st' where "st' = st\<lparr>sc_heap := (sc_heap st)(b := (if n - 1 = 0 then None else Some (c, n - 1))),
            sc_shell := (sc_shell st)(h := None)\<rparr>"
  have n: "n = int (card (sc_users st b))" "b < sc_next st"
    using sc_inv_Some [OF inv c(1)] by auto
  have hb: "h \<in> sc_users st b" using h by (simp add: sc_users_def)
  have users: "sc_users st' a = (if a = b then sc_users st b - {h} else sc_users st a)" for a
    using h by (auto simp: sc_users_def st'_def)
  have "0 < card (sc_users st b)"
    using hb sc_inv_finite [OF inv, of b] by (auto simp: card_gt_0_iff)
  then have card: "int (card (sc_users st b - {h})) = n - 1"
    using n(1) hb sc_inv_finite [OF inv, of b] by (simp add: of_nat_diff)
  have "sc_inv st'"
  proof (rule sc_invI)
    show "finite (dom (sc_shell st'))" using inv by (simp add: sc_inv_def st'_def)
  next
    fix a assume a: "sc_heap st' a = None"
    show "sc_users st' a = {}"
    proof (cases "a = b")
      case True
      with a card have "card (sc_users st b - {h}) = 0" by (simp add: st'_def split: if_splits)
      with sc_inv_finite [OF inv, of b] users True show ?thesis by simp
    next
      case False
      with a sc_inv_None [OF inv, of a] users show ?thesis by (simp add: st'_def)
    qed
  next
    fix a d m assume "sc_heap st' a = Some (d, m)"
    then show "a < sc_next st' \<and> 0 < m \<and> m = int (card (sc_users st' a))"
      using sc_inv_Some [OF inv, of a d m] users [of a] card n(2)
      by (auto simp: st'_def split: if_splits)
  qed
  moreover have "sc_abs st' g = ((sc_abs st)(h := None)) g" for g
  proof (cases "g = h")
    case True
    then show ?thesis by (simp add: sc_abs_def st'_def)
  next
    case False
    have "n - 1 \<noteq> 0" if "sc_shell st g = Some b"
    proof
      assume "n - 1 = 0"
      with card sc_inv_finite [OF inv, of b] have "sc_users st b - {h} = {}" by simp
      with that False show False by (auto simp: sc_users_def)
    qed
    with False c(1) show ?thesis by (auto simp: sc_abs_def st'_def split: option.splits)
  qed
  ultimately have "sc_inv st'" "sc_abs st' = (sc_abs st)(h := None)" by auto
  moreover have "sc_deref h st = Inr st'" using c(2) by (simp add: sc_deref_def st'_def)
  ultimately show ?thesis by (auto simp: st'_def)
qed

lemma sc_share_inv:
  assumes inv: "sc_inv st" and h: "sc_shell st h = None" and s: "sc_shell st s = Some b"
  shows "\<exists>st'. sc_incRefCount h (st\<lparr>sc_shell := (sc_shell st)(h := sc_shell st s)\<rparr>) = Inr st' \<and>
    sc_inv st' \<and> sc_abs st' = (sc_abs st)(h := sc_abs st s) \<and> sc_shell st' h = Some b"
proof -
  obtain c n where c: "sc_heap st b = Some (c, n)" "sc_abs st s = Some c"
    using sc_shell_core [OF inv s] by blast
  define st' where "st' = st\<lparr>sc_shell := (sc_shell st)(h \<mapsto> b), sc_heap := (sc_heap st)(b \<mapsto> (c, n + 1))\<rparr>"
  have n: "n = int (card (sc_users st b))" "b < sc_next st" "0 < n"
    using sc_inv_Some [OF inv c(1)] by auto
  have hb: "h \<notin> sc_users st b" using h by (simp add: sc_users_def)
  have users: "sc_users st' a = (if a = b then insert h (sc_users st b) else sc_users st a)" for a
    using h by (auto simp: sc_users_def st'_def)
  have card: "int (card (insert h (sc_users st b))) = n + 1"
    using n(1) hb sc_inv_finite [OF inv, of b] by simp
  have "sc_inv st'"
  proof (rule sc_invI)
    show "finite (dom (sc_shell st'))" using inv by (simp add: sc_inv_def st'_def)
  next
    fix a assume "sc_heap st' a = None"
    then show "sc_users st' a = {}"
      using sc_inv_None [OF inv, of a] users [of a] by (auto simp: st'_def split: if_splits)
  next
    fix a d m assume "sc_heap st' a = Some (d, m)"
    then show "a < sc_next st' \<and> 0 < m \<and> m = int (card (sc_users st' a))"
      using sc_inv_Some [OF inv, of a d m] users [of a] card n
      by (auto simp: st'_def split: if_splits)
  qed
  moreover have "sc_abs st' g = ((sc_abs st)(h := sc_abs st s)) g" for g
    using c by (auto simp: sc_abs_def st'_def split: option.splits)
  moreover have "sc_incRefCount h (st\<lparr>sc_shell := (sc_shell st)(h := sc_shell st s)\<rparr>) = Inr st'"
    using s c(1) by (simp add: sc_incRefCount_def sc_core_def st'_def)
  ultimately show ?thesis by (auto simp: st'_def)
qed

lemma sc_abs_empty [simp]: "sc_abs sc_empty = Map.empty"
  by (auto simp: sc_abs_def sc_empty_def)

section \<open>The interface to the containers\<close>

text \<open>
  What the class needs of the container that derives from it: the core it allocates
  satisfies the container's invariant, and copying a core that does copies it faithfully.
  The member functions a program calls keep that invariant.
\<close>

locale faithful_copy =
  fixes alloc :: 'c and cp :: "'c \<Rightarrow> 'c" and good :: "'c \<Rightarrow> bool"
  assumes alloc_good: "good alloc"
    and copy_good: "good c \<Longrightarrow> cp c = c"

fun sc_op_keeps :: "('c \<Rightarrow> bool) \<Rightarrow> 'c sc_op \<Rightarrow> bool" where
  "sc_op_keeps good (Sc_Write h f) \<longleftrightarrow> (\<forall>c. good c \<longrightarrow> good (f c))"
| "sc_op_keeps good x \<longleftrightarrow> True"

definition val_good :: "('c \<Rightarrow> bool) \<Rightarrow> 'c objects \<Rightarrow> bool" where
  "val_good good m \<longleftrightarrow> (\<forall>h c. m h = Some c \<longrightarrow> good c)"

section \<open>Every operation refines its specification\<close>

lemma sc_softCopy_inv:
  assumes inv: "sc_inv st" and s: "sc_shell st s \<noteq> None" and ne: "s \<noteq> h"
  shows "\<exists>st'. sc_softCopy h s st = Inr st' \<and> sc_inv st' \<and>
    sc_abs st' = (sc_abs st)(h := sc_abs st s) \<and> sc_shell st' h \<noteq> None"
proof -
  obtain st1 where st1: "(if sc_shell st h \<noteq> None then sc_deref h st else Inr st) = Inr st1"
    "sc_inv st1" "sc_abs st1 = (sc_abs st)(h := None)" "sc_shell st1 h = None"
    "sc_shell st1 s = sc_shell st s"
  proof (cases "sc_shell st h")
    case None
    then have "sc_abs st = (sc_abs st)(h := None)" by (auto simp: sc_abs_def)
    with None inv that [of st] show ?thesis by simp
  next
    case (Some b)
    with sc_deref_inv [OF inv Some] ne that show ?thesis by auto
  qed
  with s obtain b where "sc_shell st1 s = Some b" by auto
  from sc_share_inv [OF st1(2,4) this] st1 ne show ?thesis by (auto simp: sc_softCopy_def)
qed

lemma sc_hardCopy_inv:
  assumes inv: "sc_inv st" and h: "sc_shell st h \<noteq> None"
    and cp: "\<And>c. sc_abs st h = Some c \<Longrightarrow> cp c = c"
  shows "\<exists>st' a c. sc_hardCopy cp h st = Inr st' \<and> sc_inv st' \<and> sc_abs st' = sc_abs st \<and>
    sc_shell st' h = Some a \<and> sc_heap st' a = Some (c, 1)"
proof -
  obtain a where a: "sc_shell st h = Some a" using h by auto
  obtain c n where c: "sc_heap st a = Some (c, n)" "sc_core st h = Inr (a, c, n)" "sc_abs st h = Some c"
    using sc_shell_core [OF inv a] by blast
  show ?thesis
  proof (cases "n = 1")
    case True
    with a c inv show ?thesis by (auto simp: sc_hardCopy_def)
  next
    case False
    obtain st1 where st1: "sc_deref h st = Inr st1" "sc_inv st1" "sc_abs st1 = (sc_abs st)(h := None)"
      "sc_shell st1 = (sc_shell st)(h := None)"
      using sc_deref_inv [OF inv a] by blast
    then have none: "sc_shell st1 h = None" by simp
    have "sc_abs (sc_attach h c st1) = sc_abs st"
      using sc_attach_inv [OF st1(2) none, of c] st1(3) c(3) by (auto simp: fun_eq_iff)
    moreover have "sc_hardCopy cp h st = Inr (sc_attach h c st1)"
      using False a c st1(1) cp [OF c(3)] by (simp add: sc_hardCopy_def)
    ultimately show ?thesis
      using sc_attach_inv [OF st1(2) none, of c] by (auto simp: sc_attach_def)
  qed
qed

lemma sc_write_inv:
  assumes inv: "sc_inv st" and h: "sc_shell st h = Some a" and a: "sc_heap st a = Some (c, 1)"
  shows "sc_inv (st\<lparr>sc_heap := (sc_heap st)(a \<mapsto> (d, 1))\<rparr>) \<and>
    sc_abs (st\<lparr>sc_heap := (sc_heap st)(a \<mapsto> (d, 1))\<rparr>) = (sc_abs st)(h \<mapsto> d)"
proof
  define st' where "st' = st\<lparr>sc_heap := (sc_heap st)(a \<mapsto> (d, 1))\<rparr>"
  have users: "sc_users st' b = sc_users st b" for b by (simp add: sc_users_def st'_def)
  have "sc_inv st'"
  proof (rule sc_invI)
    show "finite (dom (sc_shell st'))" using inv by (simp add: sc_inv_def st'_def)
  next
    fix b assume "sc_heap st' b = None"
    then show "sc_users st' b = {}"
      using sc_inv_None [OF inv, of b] users by (auto simp: st'_def split: if_splits)
  next
    fix b e m assume "sc_heap st' b = Some (e, m)"
    then show "b < sc_next st' \<and> 0 < m \<and> m = int (card (sc_users st' b))"
      using sc_inv_Some [OF inv, of b] a users by (fastforce simp: st'_def split: if_splits)
  qed
  then show "sc_inv (st\<lparr>sc_heap := (sc_heap st)(a \<mapsto> (d, 1))\<rparr>)" by (simp add: st'_def)
  have "card (sc_users st a) = 1" using sc_inv_Some [OF inv a] by simp
  then obtain g0 where g0: "sc_users st a = {g0}" by (rule card_1_singletonE)
  have only: "g = h" if "sc_shell st g = Some a" for g
  proof -
    have "g \<in> sc_users st a" "h \<in> sc_users st a" using that h by (auto simp: sc_users_def)
    with g0 show ?thesis by simp
  qed
  show "sc_abs (st\<lparr>sc_heap := (sc_heap st)(a \<mapsto> (d, 1))\<rparr>) = (sc_abs st)(h \<mapsto> d)"
  proof (rule ext)
    fix g
    show "sc_abs (st\<lparr>sc_heap := (sc_heap st)(a \<mapsto> (d, 1))\<rparr>) g = ((sc_abs st)(h \<mapsto> d)) g"
    proof (cases "g = h")
      case True
      with h show ?thesis by (simp add: sc_abs_def)
    next
      case False
      then have "sc_shell st g \<noteq> Some a" using only by blast
      with False show ?thesis by (cases "sc_shell st g") (simp_all add: sc_abs_def)
    qed
  qed
qed

context faithful_copy begin

lemma sc_step_refines:
  assumes inv: "sc_inv st" and legal: "val_legal (sc_abs st) x" and gd: "val_good good (sc_abs st)"
  shows "\<exists>st'. sc_step alloc cp st x = Inr st' \<and> sc_inv st' \<and>
    sc_abs st' = val_step alloc (sc_abs st) x"
proof -
  have cp: "cp c = c" if "sc_abs st h = Some c" for h c
    using that gd copy_good by (auto simp: val_good_def)
  show ?thesis
proof (cases x)
  case (Sc_New h)
  with legal inv sc_attach_inv [OF inv, of h alloc] show ?thesis by (simp add: sc_abs_shell)
next
  case (Sc_Copy h s)
  with legal inv have "sc_shell st s \<noteq> None" "s \<noteq> h" by (auto simp: sc_abs_shell)
  from sc_softCopy_inv [OF inv this] Sc_Copy show ?thesis by auto
next
  case (Sc_Assign h s)
  show ?thesis
  proof (cases "sc_shell st h = sc_shell st s")
    case True
    then have "sc_abs st h = sc_abs st s" by (simp add: sc_abs_def)
    then have "(sc_abs st)(h := sc_abs st s) = sc_abs st" by (auto simp: fun_eq_iff)
    with True Sc_Assign inv show ?thesis by simp
  next
    case False
    with legal inv Sc_Assign have "sc_shell st s \<noteq> None" "s \<noteq> h" by (auto simp: sc_abs_shell)
    from sc_softCopy_inv [OF inv this] Sc_Assign False show ?thesis by auto
  qed
next
  case (Sc_Destroy h)
  with legal inv obtain a where "sc_shell st h = Some a" by (auto simp: sc_abs_shell)
  from sc_deref_inv [OF inv this] Sc_Destroy show ?thesis by auto
next
  case (Sc_Write h f)
  with legal inv have "sc_shell st h \<noteq> None" by (auto simp: sc_abs_shell)
  then obtain st1 a c where st1: "sc_hardCopy cp h st = Inr st1" "sc_inv st1" "sc_abs st1 = sc_abs st"
    "sc_shell st1 h = Some a" "sc_heap st1 a = Some (c, 1)"
    using sc_hardCopy_inv [OF inv, of h cp] cp by blast
  then have "sc_abs st h = Some c" by (simp add: sc_abs_def flip: st1(3))
  with sc_write_inv [OF st1(2,4,5), of "f c"] st1 Sc_Write show ?thesis
    by (simp add: sc_core_def)
next
  case (Sc_Reset h)
  with legal inv obtain a where a: "sc_shell st h = Some a" by (auto simp: sc_abs_shell)
  obtain st1 where st1: "sc_deref h st = Inr st1" "sc_inv st1" "sc_abs st1 = (sc_abs st)(h := None)"
    "sc_shell st1 = (sc_shell st)(h := None)"
    using sc_deref_inv [OF inv a] by blast
  then have "sc_shell st1 h = None" by simp
  from sc_attach_inv [OF st1(2) this, of alloc] st1 a Sc_Reset show ?thesis
    by (simp add: sc_resetCore_def)
next
  case (Sc_Clone h s)
  with legal inv have "sc_shell st s \<noteq> None" "s \<noteq> h" by (auto simp: sc_abs_shell)
  from sc_softCopy_inv [OF inv this] obtain st1 where st1: "sc_softCopy h s st = Inr st1" "sc_inv st1"
    "sc_abs st1 = (sc_abs st)(h := sc_abs st s)" "sc_shell st1 h \<noteq> None" by blast
  have "cp c = c" if "sc_abs st1 h = Some c" for c using that st1(3) cp by simp
  from sc_hardCopy_inv [OF st1(2,4), of cp, OF this] obtain st2 where
    "sc_hardCopy cp h st1 = Inr st2" "sc_inv st2" "sc_abs st2 = sc_abs st1" by blast
  with st1 Sc_Clone show ?thesis by simp
qed
qed

lemma sc_step_good:
  assumes "val_legal m x" "val_good good m" "sc_op_keeps good x"
  shows "val_good good (val_step alloc m x)"
  using assms alloc_good by (cases x) (auto simp: val_good_def)

lemma sc_run_refines:
  "sc_inv st \<Longrightarrow> val_good good (sc_abs st) \<Longrightarrow> val_legal_run alloc (sc_abs st) xs \<Longrightarrow>
   list_all (sc_op_keeps good) xs \<Longrightarrow>
   \<exists>st'. sc_run alloc cp st xs = Inr st' \<and> sc_inv st' \<and> sc_abs st' = val_run alloc (sc_abs st) xs"
proof (induction xs arbitrary: st)
  case Nil
  then show ?case by simp
next
  case (Cons x xs)
  then obtain st1 where st1: "sc_step alloc cp st x = Inr st1" "sc_inv st1"
    "sc_abs st1 = val_step alloc (sc_abs st) x"
    using sc_step_refines [of st x] by auto
  moreover have "val_good good (sc_abs st1)"
    using Cons.prems sc_step_good [of "sc_abs st" x] st1(3) by simp
  ultimately show ?case using Cons.IH [of st1] Cons.prems by simp
qed

lemma sc_run_from_empty:
  assumes "val_legal_run alloc Map.empty xs" "list_all (sc_op_keeps good) xs"
  shows "\<exists>st. sc_run alloc cp sc_empty xs = Inr st \<and> sc_inv st \<and> sc_abs st = val_run alloc Map.empty xs"
proof -
  have "val_good good (sc_abs sc_empty)" by (simp add: val_good_def)
  from sc_run_refines [OF sc_inv_empty this, of xs] assms show ?thesis by simp
qed

end

section \<open>Properties\<close>

text \<open>
  C5. Copy-on-write is invisible: for every legal sequence of constructions, copies,
  assignments, writes, resets, clones and destructions, the shared representation never
  follows a freed core, and each object has the value it would have if every copy were made
  eagerly. The container's copy function is faithful on the cores its invariant allows.
\<close>

theorem shared_core_value_semantics:
  assumes "faithful_copy alloc cp good"
    and "val_legal_run alloc Map.empty xs" "list_all (sc_op_keeps good) xs"
  shows "\<exists>st. sc_run alloc cp sc_empty xs = Inr st \<and> sc_abs st = val_run alloc Map.empty xs"
  using faithful_copy.sc_run_from_empty [OF assms] by blast

theorem shared_core_value_semantics_witness:
  "\<exists>st. sc_run (0::int) id sc_empty [Sc_New 0, Sc_Copy 1 0, Sc_Write 1 (\<lambda>x. x + 5), Sc_Assign 0 1,
      Sc_Write 0 (\<lambda>x. x + 1)] = Inr st \<and> sc_abs st = [0 \<mapsto> 6, 1 \<mapsto> 5]"
proof -
  have "faithful_copy (0::int) id (\<lambda>_. True)" by unfold_locales auto
  from shared_core_value_semantics [OF this, of "[Sc_New 0, Sc_Copy 1 0, Sc_Write 1 (\<lambda>x. x + 5),
      Sc_Assign 0 1, Sc_Write 0 (\<lambda>x. x + 1)]"]
  show ?thesis by (simp add: fun_upd_twist)
qed

text \<open>
  C29. Reference counts are exact after any legal sequence: a core is allocated exactly while
  some object points at it, and its counter is the number of those objects, so nothing leaks
  and nothing is freed twice.
\<close>

theorem shared_core_counts:
  assumes "faithful_copy alloc cp good"
    and "val_legal_run alloc Map.empty xs" "list_all (sc_op_keeps good) xs"
  shows "\<exists>st. sc_run alloc cp sc_empty xs = Inr st \<and>
    (\<forall>a. sc_heap st a = None \<longleftrightarrow> (\<forall>h. sc_shell st h \<noteq> Some a)) \<and>
    (\<forall>a c n. sc_heap st a = Some (c, n) \<longrightarrow> n = int (card {h. sc_shell st h = Some a}))"
proof -
  obtain st where st: "sc_run alloc cp sc_empty xs = Inr st" "sc_inv st"
    using faithful_copy.sc_run_from_empty [OF assms] by blast
  have "sc_heap st a = None \<longleftrightarrow> (\<forall>h. sc_shell st h \<noteq> Some a)" for a
    using sc_inv_None [OF st(2), of a] sc_inv_Some [OF st(2), of a]
    by (cases "sc_heap st a") (auto simp: sc_users_def card_gt_0_iff)
  then show ?thesis using st sc_inv_Some [OF st(2)] by (auto simp: sc_users_def)
qed

theorem shared_core_counts_witness:
  "\<exists>st. sc_run (0::int) id sc_empty [Sc_New 0, Sc_Clone 1 0, Sc_Destroy 0] = Inr st \<and>
    (\<forall>a. sc_heap st a = None \<longleftrightarrow> (\<forall>h. sc_shell st h \<noteq> Some a))"
proof -
  have "faithful_copy (0::int) id (\<lambda>_. True)" by unfold_locales auto
  from shared_core_counts [OF this, of "[Sc_New 0, Sc_Clone 1 0, Sc_Destroy 0]"]
  show ?thesis by auto
qed

end
