(* ===== verification/Bu_Heap.thy ===== *)
theory Bu_Heap
  imports Bu_Queue Bu_SharedCore
begin

text \<open>
  \<open>Bu::Heap\<close> (\<open>src/stable/heap.h\<close>), the array-backed priority queue, with the comparison
  functors of \<open>src/stable/util.h\<close> as its parameter.

  A core is a record of the allocated capacity (\<open>iSize\<close>), the number of live items
  (\<open>iFill\<close>) and the constructed slots of \<open>aItem\<close>, slots \<open>0\<close> to \<open>iFill - 1\<close>; the slots
  above hold no object and are not part of the list. Placing an object in a slot that is not
  allocated is \<open>Out_Of_Bounds\<close>.
\<close>

section \<open>The core and its operations\<close>

record 'a heap_core =
  iSize :: nat
  iFill :: nat
  aItem :: "'a list"

definition heap_new :: "'a heap_core" where
  "heap_new = \<lparr>iSize = 0, iFill = 0, aItem = []\<rparr>"

text \<open>The two initialisers; both leave an initialised heap alone.\<close>

definition heap_init :: "'a heap_core \<Rightarrow> 'a heap_core" where
  "heap_init h = (if iSize h > 0 then h else h\<lparr>iSize := 7, iFill := 0, aItem := []\<rparr>)"

function heap_cap :: "nat \<Rightarrow> nat \<Rightarrow> nat" where
  "heap_cap n iCap = (if n < iCap then heap_cap (n * 2 + 1) iCap else n)"
  by pat_completeness auto
termination
  by (relation "measure (\<lambda>(n, iCap). iCap - n)") auto

declare heap_cap.simps [simp del]

definition heap_init_cap :: "nat \<Rightarrow> 'a heap_core \<Rightarrow> 'a heap_core" where
  "heap_init_cap iCap h =
     (if iSize h > 0 then h else h\<lparr>iSize := heap_cap 1 iCap, iFill := 0, aItem := []\<rparr>)"

definition heap_clear :: "'a heap_core \<Rightarrow> 'a heap_core" where
  "heap_clear h = (if iSize h = 0 then h else \<lparr>iSize = 0, iFill = 0, aItem = []\<rparr>)"

definition heap_upSize :: "'a heap_core \<Rightarrow> 'a heap_core" where
  "heap_upSize h = (if iSize h = 0 then heap_init h else h\<lparr>iSize := iSize h * 2 + 1\<rparr>)"

text \<open>
  The first loop of \<open>enqueue\<close>: walk from the root towards a leaf, swapping the carried item
  with every larger one; it returns the array and the item still carried.
\<close>

function heap_push :: "('a \<Rightarrow> 'a \<Rightarrow> bool) \<Rightarrow> 'a list \<Rightarrow> 'a \<Rightarrow> nat \<Rightarrow> 'a list \<times> 'a" where
  "heap_push cmp xs i j =
     (if j < length xs then
        let xs' = (if cmp i (xs ! j) then xs[j := i] else xs);
            i' = (if cmp i (xs ! j) then xs ! j else i)
        in if j * 2 + 1 \<ge> length xs then (xs', i')
           else if cmp i' (xs' ! (j * 2 + 1)) then heap_push cmp xs' i' (j * 2 + 1)
           else heap_push cmp xs' i' (j * 2 + 2)
      else (xs, i))"
  by pat_completeness auto
termination
  by (relation "measure (\<lambda>(cmp, xs, i, j). length xs - j)") auto

declare heap_push.simps [simp del]

text \<open>The second loop of \<open>enqueue\<close>: move the last item up while its parent is not smaller.\<close>

function heap_up :: "('a \<Rightarrow> 'a \<Rightarrow> bool) \<Rightarrow> 'a list \<Rightarrow> nat \<Rightarrow> 'a list" where
  "heap_up cmp xs j =
     (let k = (j - 1) div 2
      in if j = k then xs
         else if cmp (xs ! k) (xs ! j) then xs
         else heap_up cmp (xs[k := xs ! j, j := xs ! k]) k)"
  by pat_completeness auto
termination
  by (relation "measure (\<lambda>(cmp, xs, j). j)") auto

declare heap_up.simps [simp del]

definition heap_construct :: "'a heap_core \<Rightarrow> 'a \<Rightarrow> 'a heap_core result" where
  "heap_construct h x =
     (if iFill h < iSize h then Inr (h\<lparr>aItem := aItem h @ [x]\<rparr>) else Inl Out_Of_Bounds)"

definition heap_enqueue :: "('a \<Rightarrow> 'a \<Rightarrow> bool) \<Rightarrow> 'a heap_core \<Rightarrow> 'a \<Rightarrow> 'a heap_core result" where
  "heap_enqueue cmp h it =
     (let h1 = (if iFill h + 1 \<ge> iSize h then heap_upSize h else h);
          (xs, i) = heap_push cmp (aItem h1) it 0
      in rbind (heap_construct (h1\<lparr>aItem := xs\<rparr>) i) (\<lambda>h2.
           Inr (h2\<lparr>aItem := (if iFill h2 > 0 then heap_up cmp (aItem h2) (iFill h2)
                            else aItem h2),
                  iFill := iFill h2 + 1\<rparr>)))"

text \<open>
  The loop of \<open>dequeue\<close>: the hole at \<open>j\<close> moves to the smaller child, until the last item of
  the array fits there or there are no children. It returns the array and the hole.
\<close>

function heap_hole :: "('a \<Rightarrow> 'a \<Rightarrow> bool) \<Rightarrow> 'a list \<Rightarrow> nat \<Rightarrow> 'a list \<times> nat" where
  "heap_hole cmp xs j =
     (if j < length xs then
        let n = length xs; k = j * 2 + 1
        in if k + 1 < n \<and> cmp (xs ! (k + 1)) (xs ! k) then
             (if k + 1 < n - 1 \<and> cmp (xs ! (n - 1)) (xs ! (k + 1)) then (xs, j)
              else heap_hole cmp (xs[j := xs ! (k + 1)]) (k + 1))
           else if k < n then
             (if k < n - 1 \<and> cmp (xs ! (n - 1)) (xs ! k) then (xs, j)
              else heap_hole cmp (xs[j := xs ! k]) k)
           else (xs, j)
      else (xs, j))"
  by pat_completeness auto
termination
  by (relation "measure (\<lambda>(cmp, xs, j). length xs - j)") auto

declare heap_hole.simps [simp del]

definition heap_dequeue :: "('a \<Rightarrow> 'a \<Rightarrow> bool) \<Rightarrow> 'a heap_core \<Rightarrow> ('a \<times> 'a heap_core) result" where
  "heap_dequeue cmp h =
     (if iFill h = 0 then Inl (HeapException ''Heap empty.'')
      else let iRet = aItem h ! 0;
               (xs, j) = heap_hole cmp (aItem h) 0;
               ys = (if j < iFill h - 1 then xs[j := xs ! (iFill h - 1)] else xs)
           in Inr (iRet, h\<lparr>aItem := butlast ys, iFill := iFill h - 1\<rparr>))"

definition heap_peek :: "'a heap_core \<Rightarrow> 'a result" where
  "heap_peek h =
     (if iFill h = 0 then Inl (HeapException ''Heap empty.'') else Inr (aItem h ! 0))"

definition heap_isEmpty :: "'a heap_core \<Rightarrow> bool" where
  "heap_isEmpty h \<longleftrightarrow> iFill h = 0"

definition heap_getSize :: "'a heap_core \<Rightarrow> nat" where
  "heap_getSize h = iFill h"

text \<open>\<open>_copyCore\<close>, which every copy-on-write of the shell calls.\<close>

definition heap_copyCore :: "'a heap_core \<Rightarrow> 'a heap_core" where
  "heap_copyCore src =
     \<lparr>iSize = iSize src, iFill = iFill src, aItem = take (iFill src) (aItem src)\<rparr>"


section \<open>The heap order\<close>

definition heap_ok :: "('a \<Rightarrow> 'a \<Rightarrow> bool) \<Rightarrow> 'a list \<Rightarrow> bool" where
  "heap_ok cmp xs \<longleftrightarrow>
     (\<forall>m. 0 < m \<longrightarrow> m < length xs \<longrightarrow> \<not> cmp (xs ! m) (xs ! ((m - 1) div 2)))"

definition heap_wf :: "('a \<Rightarrow> 'a \<Rightarrow> bool) \<Rightarrow> 'a heap_core \<Rightarrow> bool" where
  "heap_wf cmp h \<longleftrightarrow>
     iFill h = length (aItem h) \<and> iFill h \<le> iSize h \<and> heap_ok cmp (aItem h)"

text \<open>The order everywhere but between slot \<open>j\<close> and its parent, and across slot \<open>j\<close>.\<close>

definition heap_up_ok :: "('a \<Rightarrow> 'a \<Rightarrow> bool) \<Rightarrow> 'a list \<Rightarrow> nat \<Rightarrow> bool" where
  "heap_up_ok cmp xs j \<longleftrightarrow>
     (\<forall>m. 0 < m \<longrightarrow> m < length xs \<longrightarrow> m \<noteq> j \<longrightarrow> \<not> cmp (xs ! m) (xs ! ((m - 1) div 2))) \<and>
     (\<forall>m. 0 < j \<longrightarrow> 0 < m \<longrightarrow> m < length xs \<longrightarrow> (m - 1) div 2 = j \<longrightarrow>
        \<not> cmp (xs ! m) (xs ! ((j - 1) div 2)))"

text \<open>
  The order of an array with a hole at \<open>j\<close> that is to be filled with the last item.
\<close>

definition heap_hole_ok :: "('a \<Rightarrow> 'a \<Rightarrow> bool) \<Rightarrow> 'a list \<Rightarrow> nat \<Rightarrow> bool" where
  "heap_hole_ok cmp xs j \<longleftrightarrow>
     j < length xs \<and>
     (\<forall>m. 0 < m \<longrightarrow> m < length xs \<longrightarrow> m \<noteq> j \<longrightarrow> (m - 1) div 2 \<noteq> j \<longrightarrow>
        \<not> cmp (xs ! m) (xs ! ((m - 1) div 2))) \<and>
     (\<forall>m. 0 < j \<longrightarrow> 0 < m \<longrightarrow> m < length xs \<longrightarrow> (m - 1) div 2 = j \<longrightarrow>
        \<not> cmp (xs ! m) (xs ! ((j - 1) div 2))) \<and>
     (0 < j \<longrightarrow> j < length xs - 1 \<longrightarrow> \<not> cmp (last xs) (xs ! ((j - 1) div 2)))"

lemma parent_cases:
  "(m - 1) div 2 = (j::nat) \<Longrightarrow> 0 < m \<Longrightarrow> m = j * 2 + 1 \<or> m = j * 2 + 2"
  by presburger

lemma parent_less: "0 < (m::nat) \<Longrightarrow> (m - 1) div 2 < m"
  by presburger

context weak_order begin

lemma heap_ok_root:
  assumes "heap_ok cmp xs" "m < length xs"
  shows "\<not> cmp (xs ! m) (xs ! 0)"
  using assms(2)
proof (induction m rule: less_induct)
  case (less m)
  show ?case
  proof (cases "m = 0")
    case True
    then show ?thesis by (simp add: cmp_irrefl)
  next
    case False
    then have p: "(m - 1) div 2 < m" using parent_less by blast
    with less have "\<not> cmp (xs ! ((m - 1) div 2)) (xs ! 0)" by simp
    moreover have "\<not> cmp (xs ! m) (xs ! ((m - 1) div 2))"
      using assms(1) less.prems False by (simp add: heap_ok_def)
    ultimately show ?thesis using cmp_negtrans by blast
  qed
qed

lemma heap_ok_replace:
  assumes ok: "heap_ok cmp xs" and j: "j < length xs" and lt: "cmp i (xs ! j)"
    and par: "0 < j \<Longrightarrow> \<not> cmp i (xs ! ((j - 1) div 2))"
  shows "heap_ok cmp (xs[j := i])"
  unfolding heap_ok_def
proof (intro allI impI)
  fix m assume m: "0 < m" "m < length (xs[j := i])"
  then have p: "(m - 1) div 2 < m" by (simp add: parent_less)
  have base: "\<not> cmp (xs ! m) (xs ! ((m - 1) div 2))"
    using ok m by (simp add: heap_ok_def)
  show "\<not> cmp (xs[j := i] ! m) (xs[j := i] ! ((m - 1) div 2))"
  proof (cases "m = j")
    case True
    with p par m show ?thesis by simp
  next
    case False
    show ?thesis
    proof (cases "(m - 1) div 2 = j")
      case True
      with base lt have "\<not> cmp (xs ! m) i"
        using cmp_asym cmp_trans by blast
      with False True j show ?thesis by simp
    next
      case neq: False
      with False base show ?thesis by simp
    qed
  qed
qed

lemma heap_push_ok:
  assumes "heap_push cmp xs i j = (ys, i')" "heap_ok cmp xs"
    and "0 < j \<Longrightarrow> j < length xs \<Longrightarrow> \<not> cmp i (xs ! ((j - 1) div 2))"
  shows "heap_ok cmp ys \<and> length ys = length xs
    \<and> add_mset i' (mset ys) = add_mset i (mset xs)"
  using assms
proof (induction "length xs - j" arbitrary: xs i j rule: less_induct)
  case less
  show ?case
  proof (cases "j < length xs")
    case False
    with less.prems show ?thesis by (simp add: heap_push.simps)
  next
    case j: True
    define xs' where "xs' = (if cmp i (xs ! j) then xs[j := i] else xs)"
    define i2 where "i2 = (if cmp i (xs ! j) then xs ! j else i)"
    have len: "length xs' = length xs" by (simp add: xs'_def)
    have ok: "heap_ok cmp xs'"
      using less.prems(2,3) j by (auto simp: xs'_def intro: heap_ok_replace)
    have ms: "add_mset i2 (mset xs') = add_mset i (mset xs)"
      using j by (simp add: xs'_def i2_def mset_update_add)
    have top: "\<not> cmp i2 (xs' ! j)"
      using j cmp_asym by (auto simp: xs'_def i2_def)
    show ?thesis
    proof (cases "j * 2 + 1 \<ge> length xs")
      case True
      with less.prems(1) j have "ys = xs'" "i' = i2"
        by (auto simp: heap_push.simps [of cmp xs i j] xs'_def i2_def Let_def split: if_splits)
      with ok ms len show ?thesis by simp
    next
      case False
      define j' where "j' = (if cmp i2 (xs' ! (j * 2 + 1)) then j * 2 + 1 else j * 2 + 2)"
      have eq: "heap_push cmp xs' i2 j' = (ys, i')"
        using less.prems(1) j False
        by (simp add: heap_push.simps [of cmp xs i j] xs'_def i2_def j'_def Let_def
            split: if_splits)
      have par: "(j' - 1) div 2 = j" by (simp add: j'_def)
      have "length xs' - j' < length xs - j" using j len by (simp add: j'_def; linarith)
      from less.hyps [OF this eq ok] top par ms len show ?thesis by auto
    qed
  qed
qed

lemma heap_up_ok_swap:
  assumes inv: "heap_up_ok cmp xs j" and j: "j < length xs" "0 < j"
    and nlt: "\<not> cmp (xs ! ((j - 1) div 2)) (xs ! j)"
  shows "heap_up_ok cmp (xs[(j - 1) div 2 := xs ! j, j := xs ! ((j - 1) div 2)]) ((j - 1) div 2)"
proof -
  define k where "k = (j - 1) div 2"
  have kj: "k < j" using j(2) by (simp add: k_def parent_less)
  define ys where "ys = xs[k := xs ! j, j := xs ! k]"
  have ys: "ys ! m = (if m = j then xs ! k else if m = k then xs ! j else xs ! m)"
    if "m < length xs" for m
    using that j kj by (auto simp: ys_def nth_list_update)
  have a: "\<not> cmp (xs ! m) (xs ! ((m - 1) div 2))" if "0 < m" "m < length xs" "m \<noteq> j" for m
    using inv that by (simp add: heap_up_ok_def)
  have b: "\<not> cmp (xs ! m) (xs ! k)" if "0 < m" "m < length xs" "(m - 1) div 2 = j" for m
    using inv that j(2) by (simp add: heap_up_ok_def k_def)
  have "heap_up_ok cmp ys k"
    unfolding heap_up_ok_def
  proof (intro conjI allI impI)
    fix m assume m: "0 < m" "m < length ys" "m \<noteq> k"
    then have ml: "m < length xs" and pl: "(m - 1) div 2 < length xs"
      by (auto simp: ys_def)
    show "\<not> cmp (ys ! m) (ys ! ((m - 1) div 2))"
    proof (cases "m = j")
      case True
      with ys ml pl nlt kj show ?thesis by (simp add: k_def)
    next
      case mj: False
      consider "(m - 1) div 2 = j" | "(m - 1) div 2 = k" "(m - 1) div 2 \<noteq> j"
        | "(m - 1) div 2 \<noteq> j" "(m - 1) div 2 \<noteq> k" by blast
      then show ?thesis
      proof cases
        case 1
        with b m ml ys pl mj show ?thesis by simp
      next
        case 2
        with a [of m] m ml mj nlt have "\<not> cmp (xs ! m) (xs ! j)"
          unfolding k_def using cmp_negtrans by metis
        with 2 ys ml pl m mj kj show ?thesis by simp
      next
        case 3
        with a m ml ys pl mj show ?thesis by simp
      qed
    qed
  next
    fix m assume k0: "0 < k" and m: "0 < m" "m < length ys" "(m - 1) div 2 = k"
    then have ml: "m < length xs" by (simp add: ys_def)
    have pk: "(k - 1) div 2 < k" using k0 by (simp add: parent_less)
    have kp: "\<not> cmp (xs ! k) (xs ! ((k - 1) div 2))"
      using a [of k] k0 kj j by simp
    have "m \<noteq> k" using m k0 by presburger
    show "\<not> cmp (ys ! m) (ys ! ((k - 1) div 2))"
    proof (cases "m = j")
      case True
      with ys ml kp pk kj j show ?thesis by simp
    next
      case False
      with a [of m] m ml kp have "\<not> cmp (xs ! m) (xs ! ((k - 1) div 2))"
        using cmp_negtrans by metis
      with ys ml False \<open>m \<noteq> k\<close> pk kj j show ?thesis by simp
    qed
  qed
  then show ?thesis by (simp add: ys_def k_def)
qed

lemma heap_up_correct:
  assumes "heap_up_ok cmp xs j" "j < length xs"
  shows "heap_ok cmp (heap_up cmp xs j) \<and> mset (heap_up cmp xs j) = mset xs"
  using assms
proof (induction j arbitrary: xs rule: less_induct)
  case (less j)
  define k where "k = (j - 1) div 2"
  show ?case
  proof (cases "j = k")
    case True
    then have "j = 0" by (simp add: k_def; presburger)
    moreover have "heap_up cmp xs 0 = xs" by (subst heap_up.simps) simp
    ultimately have "heap_up cmp xs j = xs" by simp
    with less.prems \<open>j = 0\<close> show ?thesis
      by (auto simp: heap_up_ok_def heap_ok_def)
  next
    case False
    then have j0: "0 < j" by (auto simp: k_def)
    then have kj: "k < j" by (simp add: k_def parent_less)
    show ?thesis
    proof (cases "cmp (xs ! k) (xs ! j)")
      case True
      then have "\<not> cmp (xs ! j) (xs ! k)" using cmp_asym by blast
      then have "heap_ok cmp xs"
        using less.prems by (auto simp: heap_up_ok_def heap_ok_def k_def)
      with True False show ?thesis by (simp add: heap_up.simps [of cmp xs j] k_def Let_def)
    next
      case nlt: False
      define ys where "ys = xs[k := xs ! j, j := xs ! k]"
      have eq: "heap_up cmp xs j = heap_up cmp ys k"
        using False nlt by (simp add: heap_up.simps [of cmp xs j] k_def ys_def Let_def)
      have "heap_up_ok cmp ys k"
        using heap_up_ok_swap [OF less.prems(1) less.prems(2) j0] nlt by (simp add: k_def ys_def)
      from less.IH [OF kj this] less.prems(2) kj
      have "heap_ok cmp (heap_up cmp ys k) \<and> mset (heap_up cmp ys k) = mset ys"
        by (simp add: ys_def)
      moreover have "mset ys = mset xs"
        using less.prems(2) kj by (simp add: ys_def mset_swap_nth)
      ultimately show ?thesis by (simp add: eq)
    qed
  qed
qed

lemma heap_hole_step:
  assumes ok: "heap_hole_ok cmp xs j" and c: "c = j * 2 + 1 \<or> c = j * 2 + 2" "c < length xs"
    and sib: "\<And>s. (s = j * 2 + 1 \<or> s = j * 2 + 2) \<Longrightarrow> s < length xs \<Longrightarrow> \<not> cmp (xs ! s) (xs ! c)"
    and lst: "c < length xs - 1 \<Longrightarrow> \<not> cmp (last xs) (xs ! c)"
  shows "heap_hole_ok cmp (xs[j := xs ! c]) c"
proof -
  have jc: "j < c" "(c - 1) div 2 = j" and jn: "j < length xs - 1" using c by auto
  have lasteq: "last (xs[j := xs ! c]) = last xs"
    using jn by (rule last_upd_other)
  show ?thesis
    unfolding heap_hole_ok_def
  proof (intro conjI allI impI)
    show "c < length (xs[j := xs ! c])" using c by simp
  next
    fix m assume m: "0 < m" "m < length (xs[j := xs ! c])" "m \<noteq> c" "(m - 1) div 2 \<noteq> c"
    show "\<not> cmp (xs[j := xs ! c] ! m) (xs[j := xs ! c] ! ((m - 1) div 2))"
    proof (cases "m = j")
      case True
      have "(j - 1) div 2 \<noteq> j" using True m by presburger
      then show ?thesis using True ok c jc m by (simp add: heap_hole_ok_def)
    next
      case mj: False
      show ?thesis
      proof (cases "(m - 1) div 2 = j")
        case True
        then have "\<not> cmp (xs ! m) (xs ! c)"
          using sib [of m] parent_cases [of m j] m by simp
        with True mj m jn show ?thesis by simp
      next
        case False
        with mj ok m show ?thesis by (simp add: heap_hole_ok_def)
      qed
    qed
  next
    fix m assume m: "0 < m" "m < length (xs[j := xs ! c])" "(m - 1) div 2 = c"
    then have mj: "m \<noteq> j" and ml: "m < length xs" using jc parent_less [of m] by auto
    have "\<not> cmp (xs ! m) (xs ! ((m - 1) div 2))"
      using ok m(1,3) ml mj jc(1) unfolding heap_hole_ok_def by (metis less_irrefl)
    then have "\<not> cmp (xs ! m) (xs ! c)" using m(3) by simp
    then show "\<not> cmp (xs[j := xs ! c] ! m) (xs[j := xs ! c] ! ((c - 1) div 2))"
      using mj jc(2) jn by simp
  next
    assume "c < length (xs[j := xs ! c]) - 1"
    with lst jn jc lasteq show "\<not> cmp (last (xs[j := xs ! c])) (xs[j := xs ! c] ! ((c - 1) div 2))"
      by simp
  qed
qed

lemma heap_hole_correct:
  assumes "heap_hole cmp xs j = (ys, j')" "heap_hole_ok cmp xs j"
  shows "heap_hole_ok cmp ys j' \<and> length ys = length xs \<and> last ys = last xs
    \<and> (\<forall>x. mset (ys[j' := x]) = mset (xs[j := x]))
    \<and> (\<forall>c. 0 < c \<longrightarrow> c < length xs - 1 \<longrightarrow> (c - 1) div 2 = j' \<longrightarrow> \<not> cmp (ys ! c) (last ys))"
  using assms
proof (induction "length xs - j" arbitrary: xs j rule: less_induct)
  case less
  define n where "n = length xs"
  define k where "k = j * 2 + 1"
  have jn: "j < n" using less.prems(2) by (simp add: heap_hole_ok_def n_def)
  have lst: "last xs = xs ! (n - 1)" using jn last_nth by (simp add: n_def)
  have move: ?case
    if c: "c = k \<or> c = k + 1" "c < n"
      and sib: "\<And>s. s = k \<or> s = k + 1 \<Longrightarrow> s < n \<Longrightarrow> \<not> cmp (xs ! s) (xs ! c)"
      and nbrk: "c < n - 1 \<Longrightarrow> \<not> cmp (xs ! (n - 1)) (xs ! c)"
      and eq: "heap_hole cmp (xs[j := xs ! c]) c = (ys, j')" for c
  proof -
    have cj: "j < c" using c by (auto simp: k_def)
    have ok': "heap_hole_ok cmp (xs[j := xs ! c]) c"
      using heap_hole_step [OF less.prems(2), of c] c sib nbrk lst by (auto simp: k_def n_def)
    have dec: "length (xs[j := xs ! c]) - c < length xs - j" using cj c(2) by (simp add: n_def)
    have ms: "mset (xs[j := xs ! c, c := x]) = mset (xs[j := x])" for x
      using mset_swap_nth [of j "xs[j := x]" c] cj c(2) by (simp add: n_def)
    have "last (xs[j := xs ! c]) = last xs"
      using cj c(2) by (intro last_upd_other) (simp add: n_def)
    with less.hyps [OF dec eq ok'] ms show ?thesis by auto
  qed
  have stop: ?case
    if "ys = xs" "j' = j"
      and "\<And>c. c = k \<or> c = k + 1 \<Longrightarrow> c < n - 1 \<Longrightarrow> \<not> cmp (xs ! c) (xs ! (n - 1))"
    using that less.prems(2) lst parent_cases by (auto simp: n_def k_def)
  consider (right_stop) "k + 1 < n - 1" "cmp (xs ! (k + 1)) (xs ! k)" "cmp (xs ! (n - 1)) (xs ! (k + 1))"
    | (right) "k + 1 < n" "cmp (xs ! (k + 1)) (xs ! k)"
        "k + 1 < n - 1 \<Longrightarrow> \<not> cmp (xs ! (n - 1)) (xs ! (k + 1))"
    | (left_stop) "\<not> (k + 1 < n \<and> cmp (xs ! (k + 1)) (xs ! k))" "k < n - 1" "cmp (xs ! (n - 1)) (xs ! k)"
    | (left) "\<not> (k + 1 < n \<and> cmp (xs ! (k + 1)) (xs ! k))" "k < n"
        "k < n - 1 \<Longrightarrow> \<not> cmp (xs ! (n - 1)) (xs ! k)"
    | (leaf) "n \<le> k" by linarith
  then show ?case
  proof cases
    case right_stop
    then have "ys = xs \<and> j' = j"
      using less.prems(1) jn by (auto simp: heap_hole.simps [of cmp xs j] n_def k_def Let_def
          split: if_splits)
    with right_stop stop show ?thesis using cmp_asym cmp_trans by blast
  next
    case right
    then have "heap_hole cmp (xs[j := xs ! (k + 1)]) (k + 1) = (ys, j')"
      using less.prems(1) jn by (simp add: heap_hole.simps [of cmp xs j] n_def k_def Let_def
          split: if_splits)
    with right move [of "k + 1"] show ?thesis using cmp_asym cmp_irrefl by blast
  next
    case left_stop
    then have "ys = xs \<and> j' = j"
      using less.prems(1) jn by (simp add: heap_hole.simps [of cmp xs j] n_def k_def Let_def
          split: if_splits)
    with left_stop stop show ?thesis using cmp_asym cmp_less_le
      by (metis add_lessD1 less_diff_conv)
  next
    case left
    then have "heap_hole cmp (xs[j := xs ! k]) k = (ys, j')"
      using less.prems(1) jn by (simp add: heap_hole.simps [of cmp xs j] n_def k_def Let_def
          split: if_splits)
    with left move [of k] show ?thesis using cmp_irrefl by blast
  next
    case leaf
    then have "ys = xs \<and> j' = j"
      using less.prems(1) jn by (simp add: heap_hole.simps [of cmp xs j] n_def k_def Let_def)
    then show ?thesis using leaf by (intro stop) auto
  qed
qed

lemma heap_last_fits:
  assumes ok: "heap_hole_ok cmp ys j" and j: "j < length ys - 1"
    and kids: "\<And>c. 0 < c \<Longrightarrow> c < length ys - 1 \<Longrightarrow> (c - 1) div 2 = j \<Longrightarrow> \<not> cmp (ys ! c) (last ys)"
  shows "heap_ok cmp (butlast (ys[j := last ys]))"
  unfolding heap_ok_def
proof (intro allI impI)
  fix m assume m: "0 < m" "m < length (butlast (ys[j := last ys]))"
  define p where "p = (m - 1) div 2"
  have pm: "p < m" using m(1) by (simp add: p_def parent_less)
  have ml: "m < length ys - 1" using m by simp
  have nth: "butlast (ys[j := last ys]) ! q = (if q = j then last ys else ys ! q)" if "q \<le> m" for q
    using that ml by (simp add: nth_butlast)
  show "\<not> cmp (butlast (ys[j := last ys]) ! m) (butlast (ys[j := last ys]) ! ((m - 1) div 2))"
  proof (cases "m = j")
    case True
    then have "\<not> cmp (last ys) (ys ! p)"
      using ok m(1) j by (simp add: heap_hole_ok_def p_def)
    with True pm nth show ?thesis by (simp add: p_def)
  next
    case mj: False
    show ?thesis
    proof (cases "p = j")
      case True
      with kids [of m] m(1) ml mj nth pm show ?thesis by (simp add: p_def)
    next
      case False
      then have "\<not> cmp (ys ! m) (ys ! p)"
        using ok m(1) ml mj by (simp add: heap_hole_ok_def p_def)
      with False mj nth pm show ?thesis by (simp add: p_def)
    qed
  qed
qed

lemma heap_hole_at_last:
  assumes ok: "heap_hole_ok cmp ys j" and j: "j = length ys - 1"
  shows "heap_ok cmp (butlast ys)"
  unfolding heap_ok_def
proof (intro allI impI)
  fix m assume m: "0 < m" "m < length (butlast ys)"
  then have "(m - 1) div 2 < m" by (simp add: parent_less)
  with m j have "m \<noteq> j" "(m - 1) div 2 \<noteq> j" "m < length ys" by auto
  then have "\<not> cmp (ys ! m) (ys ! ((m - 1) div 2))"
    using ok m(1) unfolding heap_hole_ok_def by blast
  with m \<open>(m - 1) div 2 < m\<close> show "\<not> cmp (butlast ys ! m) (butlast ys ! ((m - 1) div 2))"
    by (simp add: nth_butlast)
qed

lemma heap_wf_upSize:
  assumes "heap_wf cmp h"
  shows "heap_wf cmp (heap_upSize h) \<and> aItem (heap_upSize h) = aItem h
    \<and> iFill (heap_upSize h) = iFill h \<and> iFill h < iSize (heap_upSize h)"
  using assms by (auto simp: heap_wf_def heap_upSize_def heap_init_def)

lemma heap_up_ok_append:
  assumes "heap_ok cmp xs"
  shows "heap_up_ok cmp (xs @ [i]) (length xs)"
  unfolding heap_up_ok_def
proof (intro conjI allI impI)
  fix m assume m: "0 < m" "m < length (xs @ [i])" "m \<noteq> length xs"
  moreover from this have "(m - 1) div 2 < length xs" using parent_less [of m] by simp
  ultimately show "\<not> cmp ((xs @ [i]) ! m) ((xs @ [i]) ! ((m - 1) div 2))"
    using assms by (simp add: heap_ok_def nth_append)
next
  fix m assume "0 < m" "m < length (xs @ [i])" "(m - 1) div 2 = length xs"
  then have False using parent_less [of m] by simp
  then show "\<not> cmp ((xs @ [i]) ! m) ((xs @ [i]) ! ((length xs - 1) div 2))" ..
qed

lemma heap_enqueue_Inr:
  assumes wf: "heap_wf cmp h"
  shows "\<exists>h'. heap_enqueue cmp h x = Inr h' \<and> heap_wf cmp h' \<and>
    mset (aItem h') = add_mset x (mset (aItem h))"
proof -
  define h1 where "h1 = (if iFill h + 1 \<ge> iSize h then heap_upSize h else h)"
  have h1: "heap_wf cmp h1" "aItem h1 = aItem h" "iFill h1 = iFill h" "iFill h1 < iSize h1"
    using heap_wf_upSize [OF wf] wf by (auto simp: h1_def)
  have n: "iFill h = length (aItem h)" using wf by (simp add: heap_wf_def)
  obtain xs i where p: "heap_push cmp (aItem h) x 0 = (xs, i)" by fastforce
  have push: "heap_ok cmp xs" "length xs = iFill h"
    "add_mset i (mset xs) = add_mset x (mset (aItem h))"
    using heap_push_ok [OF p] h1 n by (auto simp: heap_wf_def)
  define zs where "zs = (if iFill h > 0 then heap_up cmp (xs @ [i]) (iFill h) else xs @ [i])"
  have zs: "heap_ok cmp zs \<and> mset zs = add_mset x (mset (aItem h))"
  proof (cases "iFill h > 0")
    case True
    with heap_up_correct [OF heap_up_ok_append [OF push(1)], of i] push(2,3)
    show ?thesis by (simp add: zs_def)
  next
    case False
    with push show ?thesis by (simp add: zs_def heap_ok_def)
  qed
  then have len: "length zs = iFill h + 1"
    using n by (metis size_mset size_add_mset Suc_eq_plus1)
  have "heap_enqueue cmp h x = Inr (h1\<lparr>aItem := zs, iFill := iFill h + 1\<rparr>)"
    unfolding heap_enqueue_def Let_def h1_def [symmetric] h1(2) p prod.case
    using h1(3,4) push(2) by (simp add: heap_construct_def zs_def)
  moreover have "heap_wf cmp (h1\<lparr>aItem := zs, iFill := iFill h + 1\<rparr>)"
    using zs len h1 by (simp add: heap_wf_def)
  ultimately show ?thesis using zs by auto
qed

lemma heap_dequeue_Inr:
  assumes wf: "heap_wf cmp h" and ne: "aItem h \<noteq> []"
  shows "\<exists>h'. heap_dequeue cmp h = Inr (aItem h ! 0, h') \<and> heap_wf cmp h' \<and>
    mset (aItem h) = add_mset (aItem h ! 0) (mset (aItem h'))"
proof -
  define xs where "xs = aItem h"
  have n: "iFill h = length xs" "length xs > 0" using wf ne by (auto simp: heap_wf_def xs_def)
  have "heap_hole_ok cmp xs 0"
    using wf n by (auto simp: heap_wf_def heap_ok_def heap_hole_ok_def xs_def)
  moreover obtain ys j where hole: "heap_hole cmp xs 0 = (ys, j)" by fastforce
  ultimately have ys: "heap_hole_ok cmp ys j" "length ys = length xs" "last ys = last xs"
    "\<And>x. mset (ys[j := x]) = mset (xs[0 := x])"
    "\<And>c. 0 < c \<Longrightarrow> c < length ys - 1 \<Longrightarrow> (c - 1) div 2 = j \<Longrightarrow> \<not> cmp (ys ! c) (last ys)"
    using heap_hole_correct by fastforce+
  have jl: "j < length ys" using ys(1) by (simp add: heap_hole_ok_def)
  have L: "ys ! (length xs - 1) = last ys" using last_nth [OF jl] ys(2) by simp
  define zs where "zs = (if j < length xs - 1 then ys[j := last ys] else ys)"
  have eq: "heap_dequeue cmp h = Inr (xs ! 0, h\<lparr>aItem := butlast zs, iFill := length xs - 1\<rparr>)"
    using n hole L by (simp add: heap_dequeue_def xs_def [symmetric] zs_def)
  have ok: "heap_ok cmp (butlast zs)"
    using heap_last_fits [OF ys(1) _ ys(5)] heap_hole_at_last [OF ys(1)] ys(2) jl
    by (auto simp: zs_def)
  have ms: "mset xs = add_mset (xs ! 0) (mset (butlast zs))"
  proof (cases "j < length xs - 1")
    case True
    then have zl: "zs = butlast zs @ [last ys]"
      using jl append_butlast_last_id [of zs] last_upd_other [of j ys] ys(2)
      by (metis length_list_update list.size(3) not_less_zero zs_def)
    have "add_mset (xs ! 0) (mset zs) = add_mset (last ys) (mset xs)"
      using True ys(4) [of "last ys"] mset_update_add [OF n(2)] by (simp add: zs_def)
    with arg_cong [OF zl, of mset] show ?thesis by simp
  next
    case False
    then have j: "j = length ys - 1" and zs: "zs = ys" using jl ys(2) by (auto simp: zs_def)
    have "ys[j := xs ! 0] = butlast ys @ [xs ! 0]"
      using j jl by (metis gr_implies_not0 length_0_conv list_update_length
          append_butlast_last_id length_butlast)
    with ys(4) [of "xs ! 0"] zs show ?thesis by simp
  qed
  have "heap_wf cmp (h\<lparr>aItem := butlast zs, iFill := length xs - 1\<rparr>)"
    using wf ok n ys(2) by (auto simp: heap_wf_def zs_def)
  with eq ms show ?thesis by (auto simp: xs_def)
qed

end

section \<open>The heap is a priority queue\<close>

lemma heap_root_least:
  assumes "weak_order cmp" "heap_wf cmp h" "mset (aItem h) = add_mset (aItem h ! 0) M" "y \<in># M"
  shows "\<not> cmp y (aItem h ! 0)"
proof -
  have "y \<in> set (aItem h)" using assms(3,4) by (metis set_mset_mset union_single_eq_member
      insert_DiffM add_mset_commute)
  then obtain m where "m < length (aItem h)" "y = aItem h ! m" by (auto simp: in_set_conv_nth)
  with assms weak_order.heap_ok_root [of cmp "aItem h" m] show ?thesis by (simp add: heap_wf_def)
qed

lemma heap_priority_queue:
  assumes "weak_order cmp"
  shows "priority_queue cmp (heap_enqueue cmp) (heap_dequeue cmp) (\<lambda>h. mset (aItem h)) (heap_wf cmp)"
proof (intro priority_queue.intro priority_queue_axioms.intro)
  show "weak_order cmp" by (rule assms)
next
  fix h :: "'a heap_core" and x assume "heap_wf cmp h"
  then show "\<exists>h'. heap_enqueue cmp h x = Inr h' \<and> heap_wf cmp h' \<and>
      mset (aItem h') = add_mset x (mset (aItem h))"
    by (rule weak_order.heap_enqueue_Inr [OF assms])
next
  fix h :: "'a heap_core" assume h: "heap_wf cmp h" "mset (aItem h) \<noteq> {#}"
  then have "aItem h \<noteq> []" by simp
  from weak_order.heap_dequeue_Inr [OF assms h(1) this] heap_root_least [OF assms h(1)]
  show "\<exists>x h'. heap_dequeue cmp h = Inr (x, h') \<and> heap_wf cmp h' \<and>
      mset (aItem h) = add_mset x (mset (aItem h')) \<and> (\<forall>y \<in># mset (aItem h'). \<not> cmp y x)"
    by metis
qed

interpretation lt_heap: priority_queue "basicLTCmp :: 'a::linorder \<Rightarrow> 'a \<Rightarrow> bool"
    "heap_enqueue basicLTCmp" "heap_dequeue basicLTCmp" "\<lambda>h. mset (aItem h)" "heap_wf basicLTCmp"
  by (rule heap_priority_queue) (rule lt_order.weak_order_axioms)

interpretation gt_heap: priority_queue "basicGTCmp :: 'a::linorder \<Rightarrow> 'a \<Rightarrow> bool"
    "heap_enqueue basicGTCmp" "heap_dequeue basicGTCmp" "\<lambda>h. mset (aItem h)" "heap_wf basicGTCmp"
  by (rule heap_priority_queue) (rule gt_order.weak_order_axioms)

lemma heap_wf_new [simp]: "heap_wf cmp heap_new"
  by (simp add: heap_wf_def heap_new_def heap_ok_def)

text \<open>The copy function of the heap core is what \<open>SharedCore\<close> asks for.\<close>

lemma heap_copyCore_wf: "heap_wf cmp h \<Longrightarrow> heap_copyCore h = h"
  by (simp add: heap_copyCore_def heap_wf_def)

interpretation heap_copy: faithful_copy heap_new heap_copyCore "heap_wf cmp"
  by unfold_locales (simp_all add: heap_copyCore_wf)

section \<open>Properties\<close>

text \<open>
  C12. The heap sorts: enqueueing any list of items into a new heap raises nothing and stays
  inside the allocated array, and as many dequeues return the items in ascending order.
\<close>

theorem heap_sorts:
  "rbind (enqueue_all (heap_enqueue basicLTCmp) heap_new xs)
     (dequeue_n (heap_dequeue basicLTCmp) (length xs)) = Inr (sort (xs :: 'a::linorder list))"
proof -
  obtain q where q: "enqueue_all (heap_enqueue basicLTCmp) heap_new xs = Inr q"
    "heap_wf basicLTCmp q" "mset (aItem q) = mset xs"
    using lt_heap.enqueue_all_law [OF heap_wf_new, of xs] by (auto simp: heap_new_def)
  then have "size (mset (aItem q)) = length xs" by simp
  from lt_heap.dequeue_n_law [OF q(2) this] obtain ys where
    ys: "dequeue_n (heap_dequeue basicLTCmp) (length xs) q = Inr ys" "mset ys = mset xs"
    "sorted_wrt (\<lambda>a b. \<not> basicLTCmp b a) ys"
    using q(3) by auto
  then have "sorted ys" by (simp add: basicLTCmp_def not_less)
  with ys(2) have "sort xs = ys" by (rule properties_for_sort)
  with q ys show ?thesis by simp
qed

text \<open>
  \<open>dequeue\<close> on a well-formed non-empty heap: it returns the root, no item of the heap
  is smaller under the comparator, the rest of the items stay, and the heap order and the
  capacity bound are kept. The comparator is any strict weak order.
\<close>

theorem heap_dequeue_least:
  assumes "weak_order cmp" "heap_wf cmp h" "aItem h \<noteq> []"
  shows "\<exists>x h'. heap_dequeue cmp h = Inr (x, h') \<and> heap_peek h = Inr x \<and> heap_wf cmp h' \<and>
    mset (aItem h) = add_mset x (mset (aItem h')) \<and> (\<forall>y \<in> set (aItem h). \<not> cmp y x)"
proof -
  obtain h' where h': "heap_dequeue cmp h = Inr (aItem h ! 0, h')" "heap_wf cmp h'"
    "mset (aItem h) = add_mset (aItem h ! 0) (mset (aItem h'))"
    using weak_order.heap_dequeue_Inr [OF assms] by blast
  have "heap_peek h = Inr (aItem h ! 0)" using assms by (simp add: heap_peek_def heap_wf_def)
  moreover have "\<not> cmp y (aItem h ! 0)" if "y \<in> set (aItem h)" for y
    using that weak_order.heap_ok_root [OF assms(1)] assms(2)
    by (auto simp: in_set_conv_nth heap_wf_def)
  ultimately show ?thesis using h' by blast
qed

theorem heap_dequeue_least_witness:
  "\<exists>x h'. heap_dequeue basicLTCmp \<lparr>iSize = 7, iFill = 2, aItem = [1::int, 5]\<rparr> = Inr (x, h') \<and>
    heap_peek \<lparr>iSize = 7, iFill = 2, aItem = [1::int, 5]\<rparr> = Inr x \<and> heap_wf basicLTCmp h' \<and>
    mset [1::int, 5] = add_mset x (mset (aItem h')) \<and> (\<forall>y \<in> set [1::int, 5]. \<not> basicLTCmp y x)"
  using heap_dequeue_least [OF lt_order.weak_order_axioms,
      of "\<lparr>iSize = 7, iFill = 2, aItem = [1::int, 5]\<rparr>"]
  by (simp add: heap_wf_def heap_ok_def basicLTCmp_def less_Suc_eq numeral_2_eq_2)

text \<open>
  \<open>enqueue\<close> on a well-formed heap never places an item outside the allocated array,
  adds exactly the new item, and keeps the heap order and the capacity bound; the array is
  grown before it is full.
\<close>

theorem heap_enqueue_adds:
  assumes "weak_order cmp" "heap_wf cmp h"
  shows "\<exists>h'. heap_enqueue cmp h x = Inr h' \<and> heap_wf cmp h' \<and>
    mset (aItem h') = add_mset x (mset (aItem h))"
  by (rule weak_order.heap_enqueue_Inr) (rule assms)+

theorem heap_enqueue_adds_witness:
  "\<exists>h'. heap_enqueue basicGTCmp \<lparr>iSize = 1, iFill = 1, aItem = [4::int]\<rparr> 9 = Inr h' \<and>
    heap_wf basicGTCmp h' \<and> mset (aItem h') = {#9, 4#}"
  using heap_enqueue_adds [OF gt_order.weak_order_axioms,
      of "\<lparr>iSize = 1, iFill = 1, aItem = [4::int]\<rparr>" 9]
  by (simp add: heap_wf_def heap_ok_def)

end
