(* ===== verification/Bu_List.thy ===== *)
theory Bu_List
  imports Bu_Heap
begin

text \<open>
  \<open>Bu::List\<close> (\<open>src/stable/list.h\<close>), the doubly linked list, with its links in an explicit
  store: \<open>links\<close> maps the address of a link to its value and its two pointers. \<open>None\<close> is the
  \<open>NULL\<close> pointer. Following \<open>NULL\<close> or a freed link is \<open>Out_Of_Bounds\<close>. The allocator returns
  an address that is not in use (\<open>newLink\<close>); the value a link points at is allocated and
  freed with it.
\<close>

section \<open>Links and the core operations\<close>

record 'a dlink =
  dl_value :: 'a
  dl_next :: "nat option"
  dl_prev :: "nat option"

record 'a list_core =
  pFirst :: "nat option"
  pLast :: "nat option"
  nSize :: int
  links :: "nat \<Rightarrow> 'a dlink option"
  newLink :: nat

definition list_new :: "'a list_core" where
  "list_new = \<lparr>pFirst = None, pLast = None, nSize = 0, links = Map.empty, newLink = 0\<rparr>"

definition ld_deref :: "'a list_core \<Rightarrow> nat option \<Rightarrow> (nat \<times> 'a dlink) result" where
  "ld_deref c p =
     (case p of None \<Rightarrow> Inl Out_Of_Bounds
      | Some a \<Rightarrow> (case links c a of None \<Rightarrow> Inl Out_Of_Bounds | Some l \<Rightarrow> Inr (a, l)))"

definition ld_set_next :: "nat option \<Rightarrow> nat option \<Rightarrow> 'a list_core \<Rightarrow> 'a list_core result" where
  "ld_set_next p q c = rbind (ld_deref c p) (\<lambda>(a, l).
     Inr (c\<lparr>links := (links c)(a \<mapsto> l\<lparr>dl_next := q\<rparr>)\<rparr>))"

definition ld_set_prev :: "nat option \<Rightarrow> nat option \<Rightarrow> 'a list_core \<Rightarrow> 'a list_core result" where
  "ld_set_prev p q c = rbind (ld_deref c p) (\<lambda>(a, l).
     Inr (c\<lparr>links := (links c)(a \<mapsto> l\<lparr>dl_prev := q\<rparr>)\<rparr>))"

text \<open>Allocating and constructing a link; every caller also counts it.\<close>

definition ld_alloc :: "'a \<Rightarrow> nat option \<Rightarrow> nat option \<Rightarrow> 'a list_core \<Rightarrow> 'a list_core" where
  "ld_alloc v nx pv c =
     c\<lparr>links := (links c)(newLink c \<mapsto> \<lparr>dl_value = v, dl_next = nx, dl_prev = pv\<rparr>),
       newLink := Suc (newLink c), nSize := nSize c + 1\<rparr>"

definition ld_free :: "nat \<Rightarrow> 'a list_core \<Rightarrow> 'a list_core" where
  "ld_free a c = c\<lparr>links := (links c)(a := None)\<rparr>"

definition list_append :: "'a \<Rightarrow> 'a list_core \<Rightarrow> (nat option \<times> 'a list_core) result" where
  "list_append v c =
     (let pNew = Some (newLink c)
      in if pFirst c = None
         then Inr (pNew, (ld_alloc v None None c)\<lparr>pFirst := pNew, pLast := pNew\<rparr>)
         else rbind (ld_set_next (pLast c) pNew (ld_alloc v None (pLast c) c))
                (\<lambda>c'. Inr (pNew, c'\<lparr>pLast := pNew\<rparr>)))"

definition list_prepend :: "'a \<Rightarrow> 'a list_core \<Rightarrow> (nat option \<times> 'a list_core) result" where
  "list_prepend v c =
     (let pNew = Some (newLink c)
      in if pFirst c = None
         then Inr (pNew, (ld_alloc v None None c)\<lparr>pFirst := pNew, pLast := pNew\<rparr>)
         else rbind (ld_set_prev (pFirst c) pNew (ld_alloc v (pFirst c) None c))
                (\<lambda>c'. Inr (pNew, c'\<lparr>pFirst := pNew\<rparr>)))"

definition list_insert :: "nat option \<Rightarrow> 'a \<Rightarrow> 'a list_core \<Rightarrow> (nat option \<times> 'a list_core) result" where
  "list_insert pLink v c =
     (if pLink = None then list_append v c
      else rbind (ld_deref c pLink) (\<lambda>(a, after).
        if dl_prev after = None then list_prepend v c
        else let pNew = Some (newLink c); pPrev = dl_prev after
             in rbind (ld_set_prev pLink pNew (ld_alloc v pLink pPrev c)) (\<lambda>c1.
                rbind (ld_set_next pPrev pNew c1) (\<lambda>c2. Inr (pNew, c2)))))"

definition list_erase :: "nat option \<Rightarrow> 'a list_core \<Rightarrow> 'a list_core result" where
  "list_erase pLink c =
     (if pLink = None then Inr c
      else rbind (ld_deref c pLink) (\<lambda>(a, cur).
        (case dl_prev cur of
           None \<Rightarrow>
             (let c1 = (ld_free a c)\<lparr>pFirst := dl_next cur\<rparr>
              in rbind (if pFirst c1 = None then Inr (c1\<lparr>pLast := None\<rparr>)
                        else ld_set_prev (pFirst c1) None c1)
                   (\<lambda>c2. Inr (c2\<lparr>nSize := nSize c2 - 1\<rparr>)))
         | Some pPrev \<Rightarrow>
             rbind (ld_set_next (Some pPrev) (dl_next cur) (ld_free a c)) (\<lambda>c1.
             rbind (if dl_next cur \<noteq> None then ld_set_prev (dl_next cur) (Some pPrev) c1
                    else Inr (c1\<lparr>pLast := Some pPrev\<rparr>))
               (\<lambda>c2. Inr (c2\<lparr>nSize := nSize c2 - 1\<rparr>))))))"

text \<open>
  Loops that follow \<open>pNext\<close>: whether they end depends on the shape of the store, so their
  results are options.
\<close>

partial_function (option) list_free_all :: "nat option \<Rightarrow> 'a list_core \<Rightarrow> 'a list_core result option" where
  "list_free_all p c =
     (case p of None \<Rightarrow> Some (Inr c)
      | Some a \<Rightarrow> (case links c a of None \<Rightarrow> Some (Inl Out_Of_Bounds)
                 | Some l \<Rightarrow> list_free_all (dl_next l) (ld_free a c)))"

definition list_clear :: "'a list_core \<Rightarrow> 'a list_core result option" where
  "list_clear c =
     map_option (\<lambda>r. rbind r (\<lambda>c'. Inr (c'\<lparr>pFirst := None, pLast := None, nSize := 0\<rparr>)))
       (list_free_all (pFirst c) c)"

text \<open>
  The values an iterator meets from \<open>p\<close> to the end, with the addresses of their links.
\<close>

partial_function (option) list_walk :: "'a list_core \<Rightarrow> nat option \<Rightarrow> (nat \<times> 'a) list result option" where
  "list_walk c p =
     (case p of None \<Rightarrow> Some (Inr [])
      | Some a \<Rightarrow> (case links c a of None \<Rightarrow> Some (Inl Out_Of_Bounds)
                 | Some l \<Rightarrow> Option.bind (list_walk c (dl_next l))
                     (\<lambda>r. Some (rbind r (\<lambda>ys. Inr ((a, dl_value l) # ys))))))"

section \<open>The list class\<close>

text \<open>Iterator steps; moving an iterator that is at the end throws.\<close>

definition list_iter_next :: "'a list_core \<Rightarrow> nat option \<Rightarrow> nat option result" where
  "list_iter_next c p =
     (if p = None then Inl (ExceptionBase ''Attempt to iterate past end of list.'')
      else rbind (ld_deref c p) (\<lambda>(a, l). Inr (dl_next l)))"

definition list_iter_prev :: "'a list_core \<Rightarrow> nat option \<Rightarrow> nat option result" where
  "list_iter_prev c p =
     (if p = None then Inl (ExceptionBase ''Attempt to iterate past begining of list.'')
      else rbind (ld_deref c p) (\<lambda>(a, l). Inr (dl_prev l)))"

definition list_first :: "'a list_core \<Rightarrow> 'a result" where
  "list_first c = rbind (ld_deref c (pFirst c)) (\<lambda>(a, l). Inr (dl_value l))"

definition list_last :: "'a list_core \<Rightarrow> 'a result" where
  "list_last c = rbind (ld_deref c (pLast c)) (\<lambda>(a, l). Inr (dl_value l))"

definition list_getSize :: "'a list_core \<Rightarrow> int" where
  "list_getSize c = nSize c"

definition list_isEmpty :: "'a list_core \<Rightarrow> bool" where
  "list_isEmpty c \<longleftrightarrow> nSize c = 0"

definition list_enqueue :: "'a list_core \<Rightarrow> 'a \<Rightarrow> 'a list_core result" where
  "list_enqueue c v = rbind (list_append v c) (\<lambda>(p, c'). Inr c')"

definition list_dequeue :: "'a list_core \<Rightarrow> ('a \<times> 'a list_core) result" where
  "list_dequeue c = rbind (list_first c) (\<lambda>v. rbind (list_erase (pFirst c) c) (\<lambda>c'. Inr (v, c')))"

definition list_push :: "'a list_core \<Rightarrow> 'a \<Rightarrow> 'a list_core result" where
  "list_push c v = rbind (list_prepend v c) (\<lambda>(p, c'). Inr c')"

definition list_pop :: "'a list_core \<Rightarrow> 'a list_core result" where
  "list_pop c = list_erase (pFirst c) c"

definition list_peekPop :: "'a list_core \<Rightarrow> ('a \<times> 'a list_core) result" where
  "list_peekPop c = rbind (list_first c) (\<lambda>v. rbind (list_pop c) (\<lambda>c'. Inr (v, c')))"

definition list_eraseLast :: "'a list_core \<Rightarrow> 'a list_core result" where
  "list_eraseLast c = list_erase (pLast c) c"

text \<open>\<open>find\<close> and \<open>erase( const value & )\<close>.\<close>

fun find_addr :: "'a \<Rightarrow> (nat \<times> 'a) list \<Rightarrow> nat option" where
  "find_addr v [] = None"
| "find_addr v ((a, x) # xs) = (if x = v then Some a else find_addr v xs)"

definition list_find :: "'a list_core \<Rightarrow> 'a \<Rightarrow> nat option result option" where
  "list_find c v = map_option (\<lambda>r. rbind r (\<lambda>ys. Inr (find_addr v ys))) (list_walk c (pFirst c))"

definition list_erase_value :: "'a \<Rightarrow> 'a list_core \<Rightarrow> 'a list_core result option" where
  "list_erase_value v c = map_option (\<lambda>r. rbind r (\<lambda>p. list_erase p c)) (list_find c v)"

text \<open>\<open>_copyCore\<close>: append every value of the source to a new core.\<close>

fun list_append_all :: "'a list \<Rightarrow> 'a list_core \<Rightarrow> 'a list_core result" where
  "list_append_all [] c = Inr c"
| "list_append_all (v # vs) c = rbind (list_append v c) (\<lambda>(p, c'). list_append_all vs c')"

definition list_copyCore :: "'a list_core \<Rightarrow> 'a list_core result option" where
  "list_copyCore src =
     map_option (\<lambda>r. rbind r (\<lambda>ys. list_append_all (map snd ys) list_new)) (list_walk src (pFirst src))"

text \<open>\<open>insertSorted\<close>: before the first link whose value is larger, or at the end.\<close>

partial_function (option) list_insertSorted_loop ::
    "('a \<Rightarrow> 'a \<Rightarrow> bool) \<Rightarrow> 'a \<Rightarrow> nat option \<Rightarrow> 'a list_core \<Rightarrow> (nat option \<times> 'a list_core) result option" where
  "list_insertSorted_loop cmp v p c =
     (case ld_deref c p of Inl e \<Rightarrow> Some (Inl e)
      | Inr al \<Rightarrow>
          (if cmp v (dl_value (snd al)) then Some (list_insert p v c)
           else if dl_next (snd al) = None then Some (list_append v c)
           else list_insertSorted_loop cmp v (dl_next (snd al)) c))"

definition list_insertSorted ::
    "('a \<Rightarrow> 'a \<Rightarrow> bool) \<Rightarrow> 'a \<Rightarrow> 'a list_core \<Rightarrow> (nat option \<times> 'a list_core) result option" where
  "list_insertSorted cmp v c =
     (if pFirst c = None then Some (list_append v c)
      else list_insertSorted_loop cmp v (pFirst c) c)"

text \<open>\<open>sort\<close>: through a heap.\<close>

function list_drain :: "('a \<Rightarrow> 'a \<Rightarrow> bool) \<Rightarrow> 'a heap_core \<Rightarrow> 'a list_core \<Rightarrow> 'a list_core result" where
  "list_drain cmp h c =
     (if heap_isEmpty h then Inr c
      else case heap_dequeue cmp h of Inl e \<Rightarrow> Inl e
           | Inr (v, h') \<Rightarrow> rbind (list_append v c) (\<lambda>pc. list_drain cmp h' (snd pc)))"
  by pat_completeness auto
termination
  by (relation "measure (\<lambda>(cmp, h, c). iFill h)")
    (auto simp: heap_isEmpty_def heap_dequeue_def Let_def split: prod.splits if_splits)

declare list_drain.simps [simp del]

definition list_sort :: "('a \<Rightarrow> 'a \<Rightarrow> bool) \<Rightarrow> 'a list_core \<Rightarrow> 'a list_core result option" where
  "list_sort cmp c =
     Option.bind (list_walk c (pFirst c)) (\<lambda>r.
     Option.bind (list_clear c) (\<lambda>r'.
       Some (rbind r (\<lambda>ys.
             rbind (enqueue_all (heap_enqueue cmp) (heap_init_cap (nat (nSize c)) heap_new) (map snd ys)) (\<lambda>h.
             rbind r' (\<lambda>c'. list_drain cmp h c'))))))"

section \<open>List segments\<close>

definition headp :: "nat list \<Rightarrow> nat option \<Rightarrow> nat option" where
  "headp ps nx = (case ps of [] \<Rightarrow> nx | p # _ \<Rightarrow> Some p)"

definition lastp :: "nat list \<Rightarrow> nat option \<Rightarrow> nat option" where
  "lastp ps pv = (if ps = [] then pv else Some (last ps))"

lemma headp_simps [simp]: "headp [] nx = nx" "headp (p # ps) nx = Some p"
  by (simp_all add: headp_def)

lemma lastp_simps [simp]: "lastp [] pv = pv" "lastp (ps @ [p]) pv = Some p"
  "lastp (p # ps) pv = lastp ps (Some p)"
  by (simp_all add: lastp_def)

lemma headp_append [simp]: "headp (ps @ qs) nx = headp ps (headp qs nx)"
  by (cases ps) simp_all

lemma lastp_append [simp]: "lastp (ps @ qs) pv = lastp qs (lastp ps pv)"
  by (simp add: lastp_def)

lemma headp_None [simp]: "headp ps None = None \<longleftrightarrow> ps = []"
  by (cases ps) simp_all

text \<open>
  \<open>dseg L pv ps xs nx\<close>: the links at \<open>ps\<close> hold the values \<open>xs\<close>, each points to the next and
  the previous one, the first one back to \<open>pv\<close> and the last one on to \<open>nx\<close>.
\<close>

fun dseg :: "(nat \<Rightarrow> 'a dlink option) \<Rightarrow> nat option \<Rightarrow> nat list \<Rightarrow> 'a list \<Rightarrow> nat option \<Rightarrow> bool" where
  "dseg L pv [] [] nx \<longleftrightarrow> True"
| "dseg L pv (p # ps) (x # xs) nx \<longleftrightarrow>
     L p = Some \<lparr>dl_value = x, dl_next = headp ps nx, dl_prev = pv\<rparr> \<and> dseg L (Some p) ps xs nx"
| "dseg L pv ps xs nx \<longleftrightarrow> False"

lemma dseg_length: "dseg L pv ps xs nx \<Longrightarrow> length ps = length xs"
  by (induction L pv ps xs nx rule: dseg.induct) auto

lemma dseg_append:
  "length ps = length xs \<Longrightarrow>
   dseg L pv (ps @ qs) (xs @ ys) nx \<longleftrightarrow>
     dseg L pv ps xs (headp qs nx) \<and> dseg L (lastp ps pv) qs ys nx"
  by (induction ps xs arbitrary: pv rule: list_induct2) auto

lemma dseg_cong:
  "(\<And>p. p \<in> set ps \<Longrightarrow> L' p = L p) \<Longrightarrow> dseg L' pv ps xs nx = dseg L pv ps xs nx"
  by (induction L pv ps xs nx rule: dseg.induct) auto

lemma dseg_set_next:
  assumes "dseg L pv (ps @ [p]) (xs @ [x]) nx" "distinct (ps @ [p])" "length ps = length xs"
    and "L' p = map_option (\<lambda>l. l\<lparr>dl_next := nx'\<rparr>) (L p)"
    and "\<And>q. q \<in> set ps \<Longrightarrow> L' q = L q"
  shows "dseg L' pv (ps @ [p]) (xs @ [x]) nx'"
proof -
  have "dseg L' pv ps xs nx = dseg L pv ps xs nx" for nx by (rule dseg_cong) (rule assms(5))
  with assms(1-4) show ?thesis by (auto simp: dseg_append)
qed

lemma dseg_set_prev:
  assumes "dseg L pv (p # ps) (x # xs) nx" "p \<notin> set ps"
    and "L' p = map_option (\<lambda>l. l\<lparr>dl_prev := pv'\<rparr>) (L p)"
    and "\<And>q. q \<in> set ps \<Longrightarrow> L' q = L q"
  shows "dseg L' pv' (p # ps) (x # xs) nx"
proof -
  have "dseg L' (Some p) ps xs nx = dseg L (Some p) ps xs nx" by (rule dseg_cong) (rule assms(4))
  with assms(1-3) show ?thesis by auto
qed

text \<open>The list a core stands for, and the addresses of its links in order.\<close>

definition list_rep :: "'a list_core \<Rightarrow> nat list \<Rightarrow> 'a list \<Rightarrow> bool" where
  "list_rep c ps xs \<longleftrightarrow>
     dseg (links c) None ps xs None \<and> distinct ps \<and>
     pFirst c = headp ps None \<and> pLast c = lastp ps None \<and> nSize c = int (length xs) \<and>
     dom (links c) = set ps \<and> (\<forall>p \<in> set ps. p < newLink c)"

lemma list_rep_new: "list_rep list_new [] []"
  by (simp add: list_rep_def list_new_def)

lemma list_rep_length: "list_rep c ps xs \<Longrightarrow> length ps = length xs"
  by (auto simp: list_rep_def dest: dseg_length)

lemma list_rep_fresh: "list_rep c ps xs \<Longrightarrow> newLink c \<notin> set ps"
  by (auto simp: list_rep_def)

text \<open>What a store looks like after a link has been put between \<open>as\<close> and \<open>bs\<close>.\<close>

lemma list_rep_splice:
  assumes rep: "list_rep c (as @ bs) (us @ vs)" and len: "length as = length us"
    and n: "n = newLink c" "links c' n = Some \<lparr>dl_value = v, dl_next = headp bs None, dl_prev = lastp as None\<rparr>"
    and other: "\<And>p. p \<noteq> n \<Longrightarrow> Some p \<noteq> lastp as None \<Longrightarrow> Some p \<noteq> headp bs None \<Longrightarrow> links c' p = links c p"
    and as: "\<And>p. lastp as None = Some p \<Longrightarrow> links c' p = map_option (\<lambda>l. l\<lparr>dl_next := Some n\<rparr>) (links c p)"
    and bs: "\<And>p. headp bs None = Some p \<Longrightarrow> links c' p = map_option (\<lambda>l. l\<lparr>dl_prev := Some n\<rparr>) (links c p)"
    and ends: "pFirst c' = headp as (Some n)" "pLast c' = lastp bs (Some n)"
      "nSize c' = nSize c + 1" "newLink c' = Suc n"
  shows "list_rep c' (as @ n # bs) (us @ v # vs)"
proof -
  have fresh: "n \<notin> set as" "n \<notin> set bs" using list_rep_fresh [OF rep] n(1) by auto
  have d: "distinct as" "distinct bs" "set as \<inter> set bs = {}" using rep by (auto simp: list_rep_def)
  have segs: "dseg (links c) None as us (headp bs None)" "dseg (links c) (lastp as None) bs vs None"
    using rep len by (auto simp: list_rep_def dseg_append)
  have seg1: "dseg (links c') None as us (Some n)"
  proof (cases as rule: rev_cases)
    case Nil
    with segs(1) show ?thesis by (cases us) auto
  next
    case (snoc as' p)
    then obtain us' u where us: "us = us' @ [u]" using len by (cases us rule: rev_cases) auto
    have "links c' q = links c q" if "q \<in> set as'" for q
      using that fresh d snoc by (intro other) (cases bs; auto)+
    moreover have "links c' p = map_option (\<lambda>l. l\<lparr>dl_next := Some n\<rparr>) (links c p)"
      by (rule as) (simp add: snoc)
    ultimately show ?thesis
      using segs(1) d(1) len dseg_set_next [of "links c" None as' p us' u] by (simp add: us snoc)
  qed
  have seg2: "dseg (links c') (Some n) bs vs None"
  proof (cases bs)
    case Nil
    with segs(2) show ?thesis by (cases vs) auto
  next
    case (Cons p bs')
    then obtain w vs' where vs: "vs = w # vs'" using segs(2) by (cases vs) auto
    have "links c' q = links c q" if "q \<in> set bs'" for q
      using that fresh d Cons by (intro other) (cases as rule: rev_cases; auto)+
    moreover have "links c' p = map_option (\<lambda>l. l\<lparr>dl_prev := Some n\<rparr>) (links c p)"
      by (rule bs) (simp add: Cons)
    ultimately show ?thesis
      using segs(2) d(2) dseg_set_prev [of "links c" "lastp as None" p bs' w vs'] by (simp add: vs Cons)
  qed
  have "links c' q = None \<longleftrightarrow> q \<notin> insert n (set as \<union> set bs)" for q
  proof -
    have dom: "links c q = None \<longleftrightarrow> q \<notin> set as \<union> set bs"
      using rep by (auto simp: list_rep_def)
    consider "q = n" | "lastp as None = Some q" | "headp bs None = Some q"
      | "q \<noteq> n" "Some q \<noteq> lastp as None" "Some q \<noteq> headp bs None" by metis
    then show ?thesis
    proof cases
      case 1
      with n(2) show ?thesis by simp
    next
      case 2
      with as [of q] dom fresh show ?thesis by (auto simp: lastp_def split: if_splits)
    next
      case 3
      with bs [of q] dom fresh show ?thesis by (cases bs) auto
    next
      case 4
      with other [of q] dom show ?thesis by simp
    qed
  qed
  then have "dom (links c') = insert n (set as \<union> set bs)" by (rule dom_eqI)
  moreover have "\<forall>p \<in> set as \<union> set bs. p < Suc n" using rep n(1) by (auto simp: list_rep_def less_SucI)
  ultimately show ?thesis
    using rep len seg1 seg2 n(2) fresh d ends by (simp add: list_rep_def dseg_append)
qed

text \<open>And after the link \<open>p\<close> has been taken out.\<close>

lemma list_rep_unsplice:
  assumes rep: "list_rep c (as @ p # bs) (us @ x # vs)" and len: "length as = length us"
    and p: "links c' p = None"
    and other: "\<And>q. q \<noteq> p \<Longrightarrow> Some q \<noteq> lastp as None \<Longrightarrow> Some q \<noteq> headp bs None \<Longrightarrow> links c' q = links c q"
    and as: "\<And>q. lastp as None = Some q \<Longrightarrow> links c' q = map_option (\<lambda>l. l\<lparr>dl_next := headp bs None\<rparr>) (links c q)"
    and bs: "\<And>q. headp bs None = Some q \<Longrightarrow> links c' q = map_option (\<lambda>l. l\<lparr>dl_prev := lastp as None\<rparr>) (links c q)"
    and ends: "pFirst c' = headp as (headp bs None)" "pLast c' = lastp bs (lastp as None)"
      "nSize c' = nSize c - 1" "newLink c' = newLink c"
  shows "list_rep c' (as @ bs) (us @ vs)"
proof -
  have d: "distinct as" "distinct bs" "set as \<inter> set bs = {}" "p \<notin> set as" "p \<notin> set bs"
    using rep by (auto simp: list_rep_def)
  have segs: "dseg (links c) None as us (Some p)" "dseg (links c) (Some p) bs vs None"
    using rep len by (auto simp: list_rep_def dseg_append)
  have seg1: "dseg (links c') None as us (headp bs None)"
  proof (cases as rule: rev_cases)
    case Nil
    with segs(1) show ?thesis by (cases us) auto
  next
    case (snoc as' q)
    then obtain us' u where us: "us = us' @ [u]" using len by (cases us rule: rev_cases) auto
    have "links c' r = links c r" if "r \<in> set as'" for r
      using that d snoc by (intro other) (cases bs; auto)+
    moreover have "links c' q = map_option (\<lambda>l. l\<lparr>dl_next := headp bs None\<rparr>) (links c q)"
      by (rule as) (simp add: snoc)
    ultimately show ?thesis
      using segs(1) d(1) len dseg_set_next [of "links c" None as' q us' u] by (simp add: us snoc)
  qed
  have seg2: "dseg (links c') (lastp as None) bs vs None"
  proof (cases bs)
    case Nil
    with segs(2) show ?thesis by (cases vs) auto
  next
    case (Cons q bs')
    then obtain w vs' where vs: "vs = w # vs'" using segs(2) by (cases vs) auto
    have "links c' r = links c r" if "r \<in> set bs'" for r
      using that d Cons by (intro other) (cases as rule: rev_cases; auto)+
    moreover have "links c' q = map_option (\<lambda>l. l\<lparr>dl_prev := lastp as None\<rparr>) (links c q)"
      by (rule bs) (simp add: Cons)
    ultimately show ?thesis
      using segs(2) d(2) dseg_set_prev [of "links c" "Some p" q bs' w vs'] by (simp add: vs Cons)
  qed
  have "links c' q = None \<longleftrightarrow> q \<notin> set as \<union> set bs" for q
  proof -
    have dom: "links c q = None \<longleftrightarrow> q \<notin> insert p (set as \<union> set bs)"
      using rep by (auto simp: list_rep_def)
    consider "q = p" | "lastp as None = Some q" | "headp bs None = Some q"
      | "q \<noteq> p" "Some q \<noteq> lastp as None" "Some q \<noteq> headp bs None" by metis
    then show ?thesis
    proof cases
      case 1
      with p d show ?thesis by simp
    next
      case 2
      with as [of q] dom show ?thesis by (auto simp: lastp_def split: if_splits)
    next
      case 3
      with bs [of q] dom show ?thesis by (cases bs) auto
    next
      case 4
      with other [of q] dom show ?thesis by simp
    qed
  qed
  then have "dom (links c') = set as \<union> set bs" by (rule dom_eqI)
  then show ?thesis
    using rep len seg1 seg2 d ends by (auto simp: list_rep_def dseg_append)
qed

section \<open>The core operations on represented lists\<close>

lemma list_rep_link:
  assumes "list_rep c (as @ p # bs) (us @ x # vs)" "length as = length us"
  shows "links c p = Some \<lparr>dl_value = x, dl_next = headp bs None, dl_prev = lastp as None\<rparr>"
  using assms by (auto simp: list_rep_def dseg_append)

lemma list_append_rep:
  assumes rep: "list_rep c ps xs"
  shows "\<exists>c'. list_append v c = Inr (Some (newLink c), c') \<and> list_rep c' (ps @ [newLink c]) (xs @ [v])"
proof (cases ps rule: rev_cases)
  case Nil
  define c' where "c' = (ld_alloc v None None c)\<lparr>pFirst := Some (newLink c), pLast := Some (newLink c)\<rparr>"
  have xs: "xs = []" using list_rep_length [OF rep] Nil by simp
  have "list_rep c' ([] @ newLink c # []) ([] @ v # [])"
    by (rule list_rep_splice [of c]) (use rep Nil xs in \<open>auto simp: c'_def ld_alloc_def\<close>)
  moreover have "pFirst c = None" using rep Nil by (simp add: list_rep_def)
  ultimately show ?thesis using Nil xs by (simp add: list_append_def c'_def Let_def)
next
  case (snoc qs p)
  obtain ys x where xs: "xs = ys @ [x]" "length qs = length ys"
    using list_rep_length [OF rep] snoc by (cases xs rule: rev_cases) auto
  have l: "links c p = Some \<lparr>dl_value = x, dl_next = None, dl_prev = lastp qs None\<rparr>"
    using list_rep_link [of c qs p "[]" ys x "[]"] rep snoc xs by simp
  have pl: "pLast c = Some p" and pf: "pFirst c \<noteq> None"
    using rep snoc by (auto simp: list_rep_def headp_def split: list.splits)
  have ne: "p \<noteq> newLink c" using list_rep_fresh [OF rep] snoc by auto
  define c' where "c' = (ld_alloc v None (Some p) c)\<lparr>
      links := (links (ld_alloc v None (Some p) c))(p \<mapsto>
        \<lparr>dl_value = x, dl_next = Some (newLink c), dl_prev = lastp qs None\<rparr>),
      pLast := Some (newLink c)\<rparr>"
  have "list_append v c = Inr (Some (newLink c), c')"
    using pf pl l ne
    by (auto simp: list_append_def Let_def ld_set_next_def ld_deref_def ld_alloc_def c'_def)
  moreover have "list_rep c' (ps @ newLink c # []) (xs @ v # [])"
    by (rule list_rep_splice [of c])
      (use rep l ne snoc xs in \<open>auto simp: c'_def ld_alloc_def list_rep_def\<close>)
  ultimately show ?thesis by simp
qed

lemma list_prepend_rep:
  assumes rep: "list_rep c ps xs"
  shows "\<exists>c'. list_prepend v c = Inr (Some (newLink c), c') \<and> list_rep c' (newLink c # ps) (v # xs)"
proof (cases ps)
  case Nil
  define c' where "c' = (ld_alloc v None None c)\<lparr>pFirst := Some (newLink c), pLast := Some (newLink c)\<rparr>"
  have xs: "xs = []" using list_rep_length [OF rep] Nil by simp
  have "list_rep c' ([] @ newLink c # []) ([] @ v # [])"
    by (rule list_rep_splice [of c]) (use rep Nil xs in \<open>auto simp: c'_def ld_alloc_def\<close>)
  moreover have "pFirst c = None" using rep Nil by (simp add: list_rep_def)
  ultimately show ?thesis using Nil xs by (simp add: list_prepend_def c'_def Let_def)
next
  case (Cons p qs)
  obtain x ys where xs: "xs = x # ys"
    using list_rep_length [OF rep] Cons by (cases xs) auto
  have l: "links c p = Some \<lparr>dl_value = x, dl_next = headp qs None, dl_prev = None\<rparr>"
    using list_rep_link [of c "[]" p qs "[]" x ys] rep Cons xs by simp
  have pf: "pFirst c = Some p" using rep Cons by (auto simp: list_rep_def)
  have ne: "p \<noteq> newLink c" using list_rep_fresh [OF rep] Cons by auto
  define c' where "c' = (ld_alloc v (Some p) None c)\<lparr>
      links := (links (ld_alloc v (Some p) None c))(p \<mapsto>
        \<lparr>dl_value = x, dl_next = headp qs None, dl_prev = Some (newLink c)\<rparr>),
      pFirst := Some (newLink c)\<rparr>"
  have "list_prepend v c = Inr (Some (newLink c), c')"
    using pf l ne
    by (auto simp: list_prepend_def Let_def ld_set_prev_def ld_deref_def ld_alloc_def c'_def)
  moreover have "list_rep c' ([] @ newLink c # ps) ([] @ v # xs)"
    by (rule list_rep_splice [of c])
      (use rep l ne Cons xs in \<open>auto simp: c'_def ld_alloc_def list_rep_def\<close>)
  ultimately show ?thesis by simp
qed

lemma list_insert_rep:
  assumes rep: "list_rep c (as @ p # bs) (us @ x # vs)" and len: "length as = length us"
  shows "\<exists>c'. list_insert (Some p) v c = Inr (Some (newLink c), c') \<and>
    list_rep c' (as @ newLink c # p # bs) (us @ v # x # vs)"
proof (cases as rule: rev_cases)
  case Nil
  with len rep list_rep_link [OF rep len] list_prepend_rep [of c "p # bs" "x # vs" v]
  show ?thesis by (auto simp: list_insert_def Let_def ld_deref_def)
next
  case (snoc as' q)
  obtain us' u where us: "us = us' @ [u]" "length as' = length us'"
    using len snoc by (cases us rule: rev_cases) auto
  have lp: "links c p = Some \<lparr>dl_value = x, dl_next = headp bs None, dl_prev = Some q\<rparr>"
    using list_rep_link [OF rep len] snoc by simp
  have lq: "links c q = Some \<lparr>dl_value = u, dl_next = Some p, dl_prev = lastp as' None\<rparr>"
    using list_rep_link [of c as' q "p # bs" us' u "x # vs"] rep snoc us by simp
  have ne: "p \<noteq> newLink c" "q \<noteq> newLink c" "p \<noteq> q"
    using list_rep_fresh [OF rep] snoc rep by (auto simp: list_rep_def)
  define c1 where "c1 = ld_alloc v (Some p) (Some q) c"
  define c' where "c' = c1\<lparr>links := (links c1)(
      p \<mapsto> \<lparr>dl_value = x, dl_next = headp bs None, dl_prev = Some (newLink c)\<rparr>,
      q \<mapsto> \<lparr>dl_value = u, dl_next = Some (newLink c), dl_prev = lastp as' None\<rparr>)\<rparr>"
  have "list_insert (Some p) v c = Inr (Some (newLink c), c')"
    using lp lq ne
    by (auto simp: list_insert_def Let_def ld_set_prev_def ld_set_next_def ld_deref_def ld_alloc_def
        c'_def c1_def)
  moreover have "list_rep c' (as @ newLink c # (p # bs)) (us @ v # (x # vs))"
    by (rule list_rep_splice [of c, OF rep len])
      (use rep lp lq ne snoc us in \<open>auto simp: c'_def c1_def ld_alloc_def list_rep_def\<close>)
  ultimately show ?thesis by simp
qed

lemma list_erase_rep:
  assumes rep: "list_rep c (as @ p # bs) (us @ x # vs)" and len: "length as = length us"
  shows "\<exists>c'. list_erase (Some p) c = Inr c' \<and> list_rep c' (as @ bs) (us @ vs)"
proof -
  have lp: "links c p = Some \<lparr>dl_value = x, dl_next = headp bs None, dl_prev = lastp as None\<rparr>"
    using list_rep_link [OF rep len] .
  have d: "p \<notin> set as" "p \<notin> set bs" "set as \<inter> set bs = {}" using rep by (auto simp: list_rep_def)
  have lh: "\<exists>w nx. links c q = Some \<lparr>dl_value = w, dl_next = nx, dl_prev = Some p\<rparr>"
    if "bs = q # bs'" for q bs'
    using rep len that by (cases vs) (auto simp: list_rep_def dseg_append)
  have ll: "\<exists>w pv. links c q = Some \<lparr>dl_value = w, dl_next = Some p, dl_prev = pv\<rparr>"
    if "as = as' @ [q]" for q as'
    using rep len that by (cases us rule: rev_cases) (auto simp: list_rep_def dseg_append)
  define F where "F = (links c)(p := None)"
  define F1 where "F1 = (case lastp as None of None \<Rightarrow> F
      | Some q \<Rightarrow> F(q := map_option (\<lambda>l. l\<lparr>dl_next := headp bs None\<rparr>) (links c q)))"
  define F2 where "F2 = (case headp bs None of None \<Rightarrow> F1
      | Some q \<Rightarrow> F1(q := map_option (\<lambda>l. l\<lparr>dl_prev := lastp as None\<rparr>) (links c q)))"
  define c' where "c' = c\<lparr>links := F2, nSize := nSize c - 1,
      pFirst := headp as (headp bs None), pLast := lastp bs (lastp as None)\<rparr>"
  have ends: "pFirst c = headp as (Some p)" "pLast c = lastp bs (Some p)"
    using rep by (auto simp: list_rep_def)
  have "list_erase (Some p) c = Inr c'"
  proof (cases as rule: rev_cases)
    case Nil
    show ?thesis
    proof (cases bs)
      case bNil: Nil
      with Nil lp ends show ?thesis
        by (simp add: list_erase_def Let_def ld_deref_def ld_free_def c'_def F2_def F1_def F_def)
    next
      case (Cons q bs')
      then have "q \<noteq> p" using d by auto
      with Nil Cons lp ends lh [OF Cons] show ?thesis
        by (auto simp: list_erase_def Let_def ld_deref_def ld_free_def ld_set_prev_def
            c'_def F2_def F1_def F_def lastp_def)
    qed
  next
    case (snoc as' r)
    then have r: "r \<noteq> p" using d by auto
    show ?thesis
    proof (cases bs)
      case bNil: Nil
      with snoc lp ends ll [OF snoc] r show ?thesis
        by (auto simp: list_erase_def Let_def ld_deref_def ld_free_def ld_set_next_def
            c'_def F2_def F1_def F_def headp_def split: list.splits)
    next
      case (Cons q bs')
      then have "q \<noteq> p" "q \<noteq> r" using d snoc by auto
      with snoc Cons lp ends ll [OF snoc] lh [OF Cons] r show ?thesis
        by (auto simp: list_erase_def Let_def ld_deref_def ld_free_def ld_set_next_def ld_set_prev_def
            c'_def F2_def F1_def F_def headp_def lastp_def split: list.splits)
    qed
  qed
  moreover have "list_rep c' (as @ bs) (us @ vs)"
  proof (rule list_rep_unsplice [OF rep len])
    show "links c' p = None"
      using d by (auto simp: c'_def F2_def F1_def F_def lastp_def headp_def split: option.splits list.splits if_splits)
  next
    fix q assume "q \<noteq> p" "Some q \<noteq> lastp as None" "Some q \<noteq> headp bs None"
    then show "links c' q = links c q"
      by (auto simp: c'_def F2_def F1_def F_def split: option.splits)
  next
    fix q assume q: "lastp as None = Some q"
    then have "headp bs None \<noteq> Some q" using d by (cases bs) (auto simp: lastp_def split: if_splits)
    with q show "links c' q = map_option (\<lambda>l. l\<lparr>dl_next := headp bs None\<rparr>) (links c q)"
      by (auto simp: c'_def F2_def F1_def split: option.splits)
  next
    fix q assume q: "headp bs None = Some q"
    then show "links c' q = map_option (\<lambda>l. l\<lparr>dl_prev := lastp as None\<rparr>) (links c q)"
      by (simp add: c'_def F2_def)
  qed (simp_all add: c'_def)
  ultimately show ?thesis by blast
qed

section \<open>The loops over a list\<close>

lemma dseg_walk: "dseg (links c) pv ps xs None \<Longrightarrow> list_walk c (headp ps None) = Some (Inr (zip ps xs))"
proof (induction "links c" pv ps xs "None :: nat option" rule: dseg.induct)
  case (1 pv)
  then show ?case by (simp add: list_walk.simps)
next
  case (2 pv p ps x xs)
  then show ?case by (subst list_walk.simps) simp
qed simp_all

lemma list_walk_rep: "list_rep c ps xs \<Longrightarrow> list_walk c (pFirst c) = Some (Inr (zip ps xs))"
  using dseg_walk [of c None ps xs] by (simp add: list_rep_def)

lemma list_walk_values:
  "list_rep c ps xs \<Longrightarrow> \<exists>ys. list_walk c (pFirst c) = Some (Inr ys) \<and> map snd ys = xs"
  using list_walk_rep list_rep_length by fastforce

lemma list_free_all_rep:
  "dseg (links c) pv ps xs None \<Longrightarrow> distinct ps \<Longrightarrow>
   list_free_all (headp ps None) c = Some (Inr (c\<lparr>links := (links c) |` (- set ps)\<rparr>))"
proof (induction ps arbitrary: c pv xs)
  case Nil
  then show ?case by (simp add: list_free_all.simps)
next
  case (Cons p ps)
  then obtain x ys where xs: "xs = x # ys" by (cases xs) auto
  have "dseg (links (ld_free p c)) (Some p) ps ys None = dseg (links c) (Some p) ps ys None"
    by (rule dseg_cong) (use Cons.prems in \<open>auto simp: ld_free_def\<close>)
  with Cons.prems xs Cons.IH [of "ld_free p c" "Some p" ys]
  have "list_free_all (headp (p # ps) None) c =
      Some (Inr (ld_free p c\<lparr>links := links (ld_free p c) |` (- set ps)\<rparr>))"
    by (subst list_free_all.simps) simp
  moreover have "(links c)(p := None) |` (- set ps) = links c |` (- set (p # ps))"
    by (auto simp: restrict_map_def fun_eq_iff)
  ultimately show ?case by (simp add: ld_free_def)
qed

lemma list_clear_rep:
  assumes "list_rep c ps xs"
  shows "\<exists>c'. list_clear c = Some (Inr c') \<and> list_rep c' [] []"
proof -
  have "list_free_all (pFirst c) c = Some (Inr (c\<lparr>links := (links c) |` (- set ps)\<rparr>))"
    using assms list_free_all_rep [of c None ps xs] by (simp add: list_rep_def)
  moreover have "links c |` (- set ps) = Map.empty"
    using assms by (auto simp: list_rep_def restrict_map_def fun_eq_iff dom_def)
  ultimately show ?thesis by (simp add: list_clear_def list_rep_def)
qed

lemma list_rep_empty_links: "list_rep c [] xs \<Longrightarrow> links c = Map.empty"
  by (simp add: list_rep_def)

lemma list_first_rep: "list_rep c ps (x # xs) \<Longrightarrow> list_first c = Inr x"
  by (cases ps) (auto simp: list_rep_def list_first_def ld_deref_def)

lemma list_last_rep:
  assumes "list_rep c ps (xs @ [x])"
  shows "list_last c = Inr x"
proof -
  obtain qs p where ps: "ps = qs @ [p]" "length qs = length xs"
    using list_rep_length [OF assms] by (cases ps rule: rev_cases) auto
  then show ?thesis
    using list_rep_link [of c qs p "[]" xs x "[]"] assms
    by (auto simp: list_last_def ld_deref_def list_rep_def)
qed

lemma list_pop_rep:
  assumes "list_rep c (p # ps) (x # xs)"
  shows "\<exists>c'. list_erase (pFirst c) c = Inr c' \<and> list_rep c' ps xs"
proof -
  have "pFirst c = Some p" using assms by (simp add: list_rep_def)
  with list_erase_rep [of c "[]" p ps "[]" x xs] assms show ?thesis by simp
qed

lemma list_append_all_rep:
  "list_rep c ps xs \<Longrightarrow> \<exists>c' qs. list_append_all ys c = Inr c' \<and> list_rep c' (ps @ qs) (xs @ ys)"
proof (induction ys arbitrary: c ps xs)
  case Nil
  then show ?case by (intro exI [of _ c] exI [of _ "[]"]) simp
next
  case (Cons y ys)
  obtain c1 where c1: "list_append y c = Inr (Some (newLink c), c1)"
    "list_rep c1 (ps @ [newLink c]) (xs @ [y])"
    using list_append_rep [OF Cons.prems] by blast
  from Cons.IH [OF c1(2)] obtain c' qs where
    "list_append_all ys c1 = Inr c'" "list_rep c' ((ps @ [newLink c]) @ qs) ((xs @ [y]) @ ys)" by blast
  with c1 show ?case by (intro exI [of _ c'] exI [of _ "newLink c # qs"]) simp
qed

text \<open>The two queue views: \<open>enqueue\<close>/\<open>dequeue\<close> is first in, first out.\<close>

interpretation list_queue: fifo_queue list_enqueue list_dequeue "\<lambda>c xs. \<exists>ps. list_rep c ps xs"
proof (unfold_locales, goal_cases)
  case (1 c xs x)
  then obtain ps where "list_rep c ps xs" by blast
  from list_append_rep [OF this, of x] show ?case by (auto simp: list_enqueue_def)
next
  case (2 c x xs)
  then obtain ps where ps: "list_rep c ps (x # xs)" by blast
  then obtain p qs where "ps = p # qs" using list_rep_length [OF ps] by (cases ps) auto
  with ps list_pop_rep [of c p qs x xs] list_first_rep [OF ps] show ?case
    by (auto simp: list_dequeue_def)
qed

text \<open>\<open>find\<close> and \<open>erase( const value & )\<close>.\<close>

lemma find_addr_zip:
  "length ps = length xs \<Longrightarrow>
   (v \<notin> set xs \<and> find_addr v (zip ps xs) = None) \<or>
   (\<exists>as p bs us vs. ps = as @ p # bs \<and> xs = us @ v # vs \<and> length as = length us \<and> v \<notin> set us \<and>
      find_addr v (zip ps xs) = Some p)"
proof (induction ps xs rule: list_induct2)
  case Nil
  then show ?case by simp
next
  case (Cons p ps x xs)
  show ?case
  proof (cases "x = v")
    case True
    with Cons.hyps show ?thesis
      by (intro disjI2 exI [of _ "[]"] exI [of _ p] exI [of _ ps] exI [of _ xs]) simp
  next
    case False
    from Cons.IH show ?thesis
    proof (elim disjE exE conjE)
      assume "v \<notin> set xs" "find_addr v (zip ps xs) = None"
      with False show ?thesis by simp
    next
      fix as q bs us vs
      assume "ps = as @ q # bs" "xs = us @ v # vs" "length as = length us" "v \<notin> set us"
        "find_addr v (zip ps xs) = Some q"
      with False show ?thesis
        by (intro disjI2 exI [of _ "p # as"] exI [of _ q] exI [of _ bs] exI [of _ "x # us"] exI [of _ vs]) simp
    qed
  qed
qed

lemma list_erase_value_rep:
  assumes "list_rep c ps xs"
  shows "\<exists>c' qs. list_erase_value v c = Some (Inr c') \<and> list_rep c' qs (remove1 v xs)"
  using find_addr_zip [OF list_rep_length [OF assms], of v]
proof (elim disjE exE conjE)
  assume "v \<notin> set xs" "find_addr v (zip ps xs) = None"
  with assms show ?thesis
    by (intro exI [of _ c] exI [of _ ps])
      (simp add: list_erase_value_def list_find_def list_walk_rep [OF assms] list_erase_def remove1_idem)
next
  fix as p bs us vs
  assume h: "ps = as @ p # bs" "xs = us @ v # vs" "length as = length us" "v \<notin> set us"
    "find_addr v (zip ps xs) = Some p"
  with assms list_erase_rep [of c as p bs us v vs] obtain c' where
    "list_erase (Some p) c = Inr c'" "list_rep c' (as @ bs) (us @ vs)" by blast
  with h show ?thesis
    by (intro exI [of _ c'] exI [of _ "as @ bs"])
      (simp add: list_erase_value_def list_find_def list_walk_rep [OF assms] remove1_append del: zip_append)
qed

section \<open>Sorted insertion and sorting\<close>

lemma list_insertSorted_loop_rep:
  "list_rep c (as @ bs) (us @ vs) \<Longrightarrow> length as = length us \<Longrightarrow> bs \<noteq> [] \<Longrightarrow>
   \<exists>c' qs. list_insertSorted_loop cmp v (headp bs None) c = Some (Inr (Some (newLink c), c')) \<and>
     list_rep c' qs (us @ takeWhile (\<lambda>x. \<not> cmp v x) vs @ v # dropWhile (\<lambda>x. \<not> cmp v x) vs)"
proof (induction bs arbitrary: as us vs)
  case Nil
  then show ?case by simp
next
  case (Cons p bs)
  then obtain x ws where vs: "vs = x # ws" using list_rep_length [OF Cons.prems(1)] by (cases vs) auto
  note rep = Cons.prems(1) [unfolded vs]
  have l: "links c p = Some \<lparr>dl_value = x, dl_next = headp bs None, dl_prev = lastp as None\<rparr>"
    using list_rep_link [OF rep Cons.prems(2)] .
  show ?case
  proof (cases "cmp v x")
    case True
    with l vs list_insert_rep [OF rep Cons.prems(2), of v] show ?thesis
      by (subst list_insertSorted_loop.simps) (auto simp: ld_deref_def)
  next
    case False
    show ?thesis
    proof (cases "bs = []")
      case True
      have "ws = []" using list_rep_length [OF rep] Cons.prems(2) True by simp
      with True l vs False list_append_rep [OF rep, of v] show ?thesis
        by (subst list_insertSorted_loop.simps) (auto simp: ld_deref_def)
    next
      case ne: False
      have "list_rep c ((as @ [p]) @ bs) ((us @ [x]) @ ws)" using rep by simp
      from Cons.IH [OF this _ ne] Cons.prems(2) obtain c' qs where
        "list_insertSorted_loop cmp v (headp bs None) c = Some (Inr (Some (newLink c), c'))"
        "list_rep c' qs ((us @ [x]) @ takeWhile (\<lambda>x. \<not> cmp v x) ws @ v # dropWhile (\<lambda>x. \<not> cmp v x) ws)"
        by auto
      moreover have "list_insertSorted_loop cmp v (headp (p # bs) None) c =
          list_insertSorted_loop cmp v (headp bs None) c"
        using l False ne by (subst list_insertSorted_loop.simps) (simp add: ld_deref_def)
      ultimately show ?thesis using False vs by auto
    qed
  qed
qed

lemma list_insertSorted_rep:
  assumes "list_rep c ps xs"
  shows "\<exists>c' qs. list_insertSorted cmp v c = Some (Inr (Some (newLink c), c')) \<and>
     list_rep c' qs (takeWhile (\<lambda>x. \<not> cmp v x) xs @ v # dropWhile (\<lambda>x. \<not> cmp v x) xs)"
proof (cases "ps = []")
  case True
  then have "xs = []" "pFirst c = None" using assms list_rep_length [OF assms] by (auto simp: list_rep_def)
  moreover obtain c' where "list_append v c = Inr (Some (newLink c), c')"
    "list_rep c' (ps @ [newLink c]) (xs @ [v])" using list_append_rep [OF assms] by blast
  ultimately show ?thesis
    by (intro exI [of _ c'] exI [of _ "ps @ [newLink c]"]) (simp add: list_insertSorted_def)
next
  case False
  with assms have "pFirst c \<noteq> None" "pFirst c = headp ps None" by (auto simp: list_rep_def)
  with False assms list_insertSorted_loop_rep [of c "[]" ps "[]" xs cmp v] show ?thesis
    by (simp add: list_insertSorted_def)
qed

lemma sorted_insert_between:
  "sorted xs \<Longrightarrow> sorted (takeWhile (\<lambda>x. \<not> v < x) xs @ v # dropWhile (\<lambda>x. \<not> v < x) xs)"
proof (induction xs)
  case (Cons x xs)
  show ?case
  proof (cases "v < x")
    case True
    with Cons.prems show ?thesis by auto
  next
    case False
    have "\<forall>y \<in> set (takeWhile (\<lambda>x. \<not> v < x) xs @ v # dropWhile (\<lambda>x. \<not> v < x) xs). x \<le> y"
      using False Cons.prems by (auto dest: set_takeWhileD set_dropWhileD)
    with False Cons show ?thesis by simp
  qed
qed simp

lemma sorted_dropWhile_larger:
  "sorted (xs :: 'a::linorder list) \<Longrightarrow> \<forall>z \<in> set (dropWhile (\<lambda>x. \<not> v < x) xs). v < z"
proof (induction xs)
  case (Cons x xs)
  show ?case
  proof (cases "v < x")
    case True
    then have "v < y" if "y \<in> set (x # xs)" for y
      using that Cons.prems by (metis less_le_trans set_ConsD sorted_simps(2))
    with True show ?thesis by simp
  next
    case False
    have "sorted xs" using Cons.prems by simp
    from Cons.IH [OF this] False show ?thesis by (simp only: dropWhile.simps not_False_eq_True if_True)
  qed
qed simp

lemma heap_wf_init_cap: "heap_wf cmp (heap_init_cap n heap_new)"
  by (simp add: heap_init_cap_def heap_new_def heap_wf_def heap_ok_def)

lemma list_drain_rep:
  assumes pq: "priority_queue cmp (heap_enqueue cmp) (heap_dequeue cmp) (\<lambda>h. mset (aItem h)) (heap_wf cmp)"
  shows "heap_wf cmp h \<Longrightarrow> list_rep c ps xs \<Longrightarrow>
    \<exists>c' qs ys. list_drain cmp h c = Inr c' \<and> list_rep c' qs (xs @ ys) \<and>
      mset ys = mset (aItem h) \<and> sorted_wrt (\<lambda>a b. \<not> cmp b a) ys"
proof (induction "length (aItem h)" arbitrary: h c ps xs)
  case 0
  then have "heap_isEmpty h" by (simp add: heap_isEmpty_def heap_wf_def)
  with 0 show ?case
    by (intro exI [of _ c] exI [of _ ps] exI [of _ "[]"]) (simp add: list_drain.simps)
next
  case (Suc n)
  then have ne: "\<not> heap_isEmpty h" "mset (aItem h) \<noteq> {#}"
    by (auto simp: heap_isEmpty_def heap_wf_def)
  obtain x h1 where h1: "heap_dequeue cmp h = Inr (x, h1)" "heap_wf cmp h1"
    "mset (aItem h) = add_mset x (mset (aItem h1))" "\<forall>y \<in># mset (aItem h1). \<not> cmp y x"
    using priority_queue.deq_law [OF pq Suc.prems(1) ne(2)] by blast
  have "n = length (aItem h1)"
    using Suc.hyps(2) arg_cong [OF h1(3), of size] by simp
  moreover obtain c1 where c1: "list_append x c = Inr (Some (newLink c), c1)"
    "list_rep c1 (ps @ [newLink c]) (xs @ [x])"
    using list_append_rep [OF Suc.prems(2)] by blast
  ultimately obtain c' qs ys where "list_drain cmp h1 c1 = Inr c'"
    "list_rep c' qs ((xs @ [x]) @ ys)" "mset ys = mset (aItem h1)" "sorted_wrt (\<lambda>a b. \<not> cmp b a) ys"
    using Suc.hyps(1) [OF _ h1(2) c1(2)] by blast
  with h1 c1 ne show ?case
    by (intro exI [of _ c'] exI [of _ qs] exI [of _ "x # ys"])
      (simp add: list_drain.simps [of cmp h c] flip: set_mset_mset)
qed

lemma list_sort_rep:
  assumes wo: "weak_order cmp" and rep: "list_rep c ps xs"
  shows "\<exists>c' qs ys. list_sort cmp c = Some (Inr c') \<and> list_rep c' qs ys \<and>
    mset ys = mset xs \<and> sorted_wrt (\<lambda>a b. \<not> cmp b a) ys"
proof -
  note pq = heap_priority_queue [OF wo]
  obtain zs where zs: "list_walk c (pFirst c) = Some (Inr zs)" "map snd zs = xs"
    using list_walk_values [OF rep] by blast
  obtain c1 where c1: "list_clear c = Some (Inr c1)" "list_rep c1 [] []"
    using list_clear_rep [OF rep] by blast
  define h0 :: "'a heap_core" where "h0 = heap_init_cap (nat (nSize c)) heap_new"
  have h0: "heap_wf cmp h0" "aItem h0 = []"
    by (simp_all add: h0_def heap_wf_init_cap) (simp add: heap_init_cap_def heap_new_def)
  obtain h where h: "enqueue_all (heap_enqueue cmp) h0 xs = Inr h" "heap_wf cmp h"
    "mset (aItem h) = mset xs"
    using priority_queue.enqueue_all_law [OF pq h0(1), of xs] h0(2) by auto
  from list_drain_rep [OF pq h(2) c1(2)] obtain c' qs ys where
    "list_drain cmp h c1 = Inr c'" "list_rep c' qs ys" "mset ys = mset xs"
    "sorted_wrt (\<lambda>a b. \<not> cmp b a) ys" using h(3) by auto
  moreover from this zs c1 h have "list_sort cmp c = Some (Inr c')"
    by (simp add: list_sort_def h0_def)
  ultimately show ?thesis by blast
qed

lemma list_copyCore_rep:
  assumes "list_rep c ps xs"
  shows "\<exists>c' qs. list_copyCore c = Some (Inr c') \<and> list_rep c' qs xs"
proof -
  obtain ys where "list_walk c (pFirst c) = Some (Inr ys)" "map snd ys = xs"
    using list_walk_values [OF assms] by blast
  with list_append_all_rep [OF list_rep_new, of xs] show ?thesis by (auto simp: list_copyCore_def)
qed

section \<open>Properties\<close>

text \<open>A concrete list for the witnesses, built by two appends.\<close>

definition two_links :: "int \<Rightarrow> int \<Rightarrow> int list_core" where
  "two_links x y =
     \<lparr>pFirst = Some 0, pLast = Some 1, nSize = 2,
      links = [0 \<mapsto> \<lparr>dl_value = x, dl_next = Some 1, dl_prev = None\<rparr>,
               1 \<mapsto> \<lparr>dl_value = y, dl_next = None, dl_prev = Some 0\<rparr>], newLink = 2\<rparr>"

lemma two_links_rep: "list_rep (two_links x y) [0, 1] [x, y]"
  by (auto simp: two_links_def list_rep_def)

text \<open>
  \<open>insert( MyIter, v )\<close> on any well-linked list, in front of the link at position \<open>i\<close>:
  nothing is dereferenced that is not a link, the new link stands just before that position,
  every other link keeps its address (so iterators stay valid) and its value, and the result is
  again well linked: \<open>pNext\<close> and \<open>pPrev\<close> mirror each other, the ends and the size are right and
  every allocated link is in the list.
\<close>

theorem list_insert_at:
  assumes "list_rep c ps xs" "i < length ps"
  shows "\<exists>c'. list_insert (Some (ps ! i)) v c = Inr (Some (newLink c), c') \<and>
    list_rep c' (take i ps @ newLink c # drop i ps) (take i xs @ v # drop i xs)"
  using assms list_rep_length [OF assms(1)]
    list_insert_rep [of c "take i ps" "ps ! i" "drop (Suc i) ps" "take i xs" "xs ! i" "drop (Suc i) xs" v]
  by (simp flip: Cons_nth_drop_Suc id_take_nth_drop)

theorem list_insert_at_witness:
  "\<exists>c'. list_insert (Some 1) 9 (two_links 5 7) = Inr (Some 2, c') \<and> list_rep c' [0, 2, 1] [5, 9, 7]"
  using list_insert_at [OF two_links_rep [of 5 7], of 1 9] by (simp add: two_links_def)

text \<open>
  \<open>erase( iterator )\<close> on any well-linked list, of the link at position \<open>i\<close>: exactly that
  link is freed and taken out, the other links keep their addresses and values, and the list is
  again well linked.
\<close>

theorem list_erase_at:
  assumes "list_rep c ps xs" "i < length ps"
  shows "\<exists>c'. list_erase (Some (ps ! i)) c = Inr c' \<and> links c' (ps ! i) = None \<and>
    list_rep c' (take i ps @ drop (Suc i) ps) (take i xs @ drop (Suc i) xs)"
proof -
  have n: "ps = take i ps @ ps ! i # drop (Suc i) ps" "xs = take i xs @ xs ! i # drop (Suc i) xs"
    using assms list_rep_length [OF assms(1)] by (simp_all add: id_take_nth_drop)
  then obtain c' where c': "list_erase (Some (ps ! i)) c = Inr c'"
    "list_rep c' (take i ps @ drop (Suc i) ps) (take i xs @ drop (Suc i) xs)"
    using assms list_rep_length [OF assms(1)]
      list_erase_rep [of c "take i ps" "ps ! i" "drop (Suc i) ps" "take i xs" "xs ! i" "drop (Suc i) xs"]
    by (metis length_take)
  have "distinct (take i ps @ ps ! i # drop (Suc i) ps)"
    using assms(1) n(1) by (simp add: list_rep_def)
  with c' show ?thesis by (auto simp: list_rep_def dom_def)
qed

theorem list_erase_at_witness:
  "\<exists>c'. list_erase (Some 0) (two_links 5 7) = Inr c' \<and> links c' 0 = None \<and> list_rep c' [1] [7]"
  using list_erase_at [OF two_links_rep [of 5 7], of 0] by simp

text \<open>
  C10. \<open>sort\<close> through the heap: it returns, raises nothing, frees every old link, and the new
  well-linked list holds the values of the old one in ascending order.
\<close>

theorem list_sort_sorts:
  fixes xs :: "'a::linorder list"
  assumes "list_rep c ps xs"
  shows "\<exists>c' qs. list_sort basicLTCmp c = Some (Inr c') \<and> list_rep c' qs (sort xs)"
proof -
  obtain c' qs ys where ys: "list_sort basicLTCmp c = Some (Inr c')" "list_rep c' qs ys"
    "mset ys = mset xs" "sorted_wrt (\<lambda>a b. \<not> basicLTCmp b a) ys"
    using list_sort_rep [OF lt_order.weak_order_axioms assms] by blast
  then have "sorted ys" by (simp add: basicLTCmp_def not_less)
  with ys properties_for_sort [of ys xs] show ?thesis by auto
qed

theorem list_sort_sorts_witness:
  "\<exists>c' qs. list_sort basicLTCmp (two_links 7 5) = Some (Inr c') \<and> list_rep c' qs [5, 7]"
  using list_sort_sorts [OF two_links_rep [of 7 5]] by simp

text \<open>
  \<open>insertSorted\<close> into a sorted list: it returns and raises nothing, the list keeps its
  values and the new one, and it is still sorted; equal values keep the order of insertion.
\<close>

theorem list_insertSorted_sorted:
  fixes xs :: "'a::linorder list"
  assumes "list_rep c ps xs" "sorted xs"
  shows "\<exists>c' qs ys zs. list_insertSorted basicLTCmp v c = Some (Inr (Some (newLink c), c')) \<and>
    list_rep c' qs (ys @ v # zs) \<and> xs = ys @ zs \<and> sorted (ys @ v # zs) \<and> (\<forall>z \<in> set zs. v < z)"
proof -
  let ?ys = "takeWhile (\<lambda>x. \<not> v < x) xs" and ?zs = "dropWhile (\<lambda>x. \<not> v < x) xs"
  have "\<forall>z \<in> set ?zs. v < z"
    using sorted_dropWhile_larger [OF assms(2)] .
  moreover obtain c' qs where "list_insertSorted basicLTCmp v c = Some (Inr (Some (newLink c), c'))"
    "list_rep c' qs (?ys @ v # ?zs)"
    using list_insertSorted_rep [OF assms(1), of basicLTCmp v] unfolding basicLTCmp_def by blast
  moreover have "xs = ?ys @ ?zs" by simp
  ultimately show ?thesis using sorted_insert_between [OF assms(2), of v] by blast
qed

theorem list_insertSorted_sorted_witness:
  "\<exists>c' qs ys zs. list_insertSorted basicLTCmp 6 (two_links 5 7) = Some (Inr (Some (newLink (two_links 5 7)), c')) \<and>
    list_rep c' qs (ys @ 6 # zs) \<and> [5, 7] = ys @ zs \<and> sorted (ys @ 6 # zs) \<and> (\<forall>z \<in> set zs. 6 < z)"
  by (rule list_insertSorted_sorted [OF two_links_rep]) simp

text \<open>
  A list used as a queue returns any values in the order they were enqueued, and clearing
  it afterwards frees every link.
\<close>

theorem list_queue_fifo:
  "\<exists>c. enqueue_all list_enqueue list_new xs = Inr c \<and>
     dequeue_n list_dequeue (length xs) c = Inr xs \<and>
     (\<exists>c'. list_clear c = Some (Inr c') \<and> links c' = Map.empty \<and> list_isEmpty c')"
proof -
  obtain c ps where c: "enqueue_all list_enqueue list_new xs = Inr c" "list_rep c ps xs"
    using list_queue.fifo_enqueue_all [of list_new "[]" xs] list_rep_new by auto
  moreover have "dequeue_n list_dequeue (length xs) c = Inr xs"
    using list_queue.fifo_dequeue_n [of c xs "length xs"] c(2) by auto
  moreover obtain c' where "list_clear c = Some (Inr c')" "list_rep c' [] []"
    using list_clear_rep [OF c(2)] by blast
  ultimately show ?thesis by (auto simp: list_rep_def list_isEmpty_def)
qed

text \<open>
  Taking the first item of an empty list follows a \<open>NULL\<close> pointer: \<open>first\<close> tests
  \<open>pFirst->pValue\<close>, not \<open>pFirst\<close>, so the exception it means to throw is never thrown, and
  \<open>dequeue\<close> and \<open>peekPop\<close> inherit it.
\<close>

theorem list_first_empty:
  "list_first list_new = Inl Out_Of_Bounds \<and> list_dequeue list_new = Inl Out_Of_Bounds \<and>
   list_peekPop list_new = Inl Out_Of_Bounds"
  by (simp add: list_first_def list_dequeue_def list_peekPop_def list_new_def ld_deref_def)

end
