(* ===== verification/Bu_Array.thy ===== *)
theory Bu_Array
  imports Bu_SharedCore
begin

text \<open>
  \<open>Bu::ArrayCore\<close> and \<open>Bu::Array\<close> (\<open>src/stable/array.h\<close>): a growing array in raw memory of
  \<open>iCapacity\<close> slots, of which the first \<open>iSize\<close> hold objects. A null \<open>pData\<close> is memory of no slots.
  The member functions are stated on a core that is this object's own. \<open>inc\<close>, the template
  parameter by which the array grows, is an argument.
\<close>

section \<open>State\<close>

record 'v array_core =
  ar_pData :: "'v option list"
  ar_iSize :: nat
  ar_iCapacity :: nat

definition ar_new :: "'v array_core" where
  "ar_new = \<lparr>ar_pData = [], ar_iSize = 0, ar_iCapacity = 0\<rparr>"

text \<open>Constructing an object in a slot, destroying the one in it, and the object of one slot moved to another.\<close>

definition ar_construct :: "int \<Rightarrow> 'v \<Rightarrow> 'v option list \<Rightarrow> 'v option list result" where
  "ar_construct i v d = arr_set d i (Some v)"

definition ar_destroy :: "int \<Rightarrow> 'v option list \<Rightarrow> 'v option list result" where
  "ar_destroy i d = rbind (slot_get d i) (\<lambda>v. arr_set d i None)"

fun ar_copy_loop :: "nat list \<Rightarrow> nat \<Rightarrow> 'v option list \<Rightarrow> 'v option list \<Rightarrow> 'v option list result" where
  "ar_copy_loop [] n src dst = Inr dst"
| "ar_copy_loop (j # js) n src dst =
     rbind (slot_get src (int j)) (\<lambda>v. rbind (ar_construct (int (n + j)) v dst) (\<lambda>d. ar_copy_loop js n src d))"

text \<open>\<open>setCapacity\<close> moves the objects to new memory, and only ever grows.\<close>

definition ar_setCapacity :: "int \<Rightarrow> 'v array_core \<Rightarrow> 'v array_core result" where
  "ar_setCapacity iNewLen c =
     (if iNewLen \<le> int (ar_iCapacity c) then Inr c
      else rbind (ar_copy_loop [0..<ar_iSize c] 0 (ar_pData c) (replicate (nat iNewLen) None)) (\<lambda>d.
             Inr (c\<lparr>ar_pData := d, ar_iCapacity := nat iNewLen\<rparr>)))"

fun ar_destroy_loop :: "nat list \<Rightarrow> 'v option list \<Rightarrow> 'v option list result" where
  "ar_destroy_loop [] d = Inr d"
| "ar_destroy_loop (j # js) d = rbind (ar_destroy (int j) d) (ar_destroy_loop js)"

definition ar_clear :: "'v array_core \<Rightarrow> 'v array_core result" where
  "ar_clear c =
     rbind (ar_destroy_loop [0..<ar_iSize c] (ar_pData c)) (\<lambda>d.
       Inr (c\<lparr>ar_pData := [], ar_iSize := 0, ar_iCapacity := 0\<rparr>))"

text \<open>\<open>erase\<close>: every object behind the position moves down by one slot.\<close>

function ar_erase :: "int \<Rightarrow> 'v array_core \<Rightarrow> 'v array_core result" where
  "ar_erase j c =
     (if j < int (ar_iSize c)
      then rbind (ar_destroy j (ar_pData c)) (\<lambda>d.
           if j = int (ar_iSize c) - 1 then Inr (c\<lparr>ar_pData := d, ar_iSize := ar_iSize c - 1\<rparr>)
           else rbind (slot_get d (j + 1)) (\<lambda>v. rbind (ar_construct j v d) (\<lambda>d'.
                  ar_erase (j + 1) (c\<lparr>ar_pData := d'\<rparr>))))
      else Inr c)"
  by pat_completeness auto
termination
  by (relation "measure (\<lambda>(j, c). nat (int (ar_iSize c) - j))") auto

declare ar_erase.simps [simp del]

definition ar_swapErase :: "int \<Rightarrow> 'v array_core \<Rightarrow> 'v array_core result" where
  "ar_swapErase iPos c =
     (let n = int (ar_iSize c) in
      if iPos = n - 1 then ar_erase iPos c
      else rbind (ar_destroy iPos (ar_pData c)) (\<lambda>d1. rbind (slot_get d1 (n - 1)) (\<lambda>v.
           rbind (ar_construct iPos v d1) (\<lambda>d2. rbind (ar_destroy (n - 1) d2) (\<lambda>d3.
             Inr (c\<lparr>ar_pData := d3, ar_iSize := ar_iSize c - 1\<rparr>))))))"

section \<open>The members of the shell\<close>

definition ar_append :: "nat \<Rightarrow> 'v \<Rightarrow> 'v array_core \<Rightarrow> 'v array_core result" where
  "ar_append inc rVal c =
     rbind (if ar_iSize c = ar_iCapacity c then ar_setCapacity (int (ar_iCapacity c + inc)) c else Inr c) (\<lambda>c1.
     rbind (ar_construct (int (ar_iSize c1)) rVal (ar_pData c1)) (\<lambda>d.
       Inr (c1\<lparr>ar_pData := d, ar_iSize := ar_iSize c1 + 1\<rparr>)))"

definition ar_append_all :: "nat \<Rightarrow> 'v array_core \<Rightarrow> 'v array_core \<Rightarrow> 'v array_core result" where
  "ar_append_all inc rVal c =
     rbind (if ar_iSize c + ar_iSize rVal > ar_iCapacity c
            then ar_setCapacity (int (ar_iSize c + ar_iSize rVal + inc)) c else Inr c) (\<lambda>c1.
     rbind (ar_copy_loop [0..<ar_iSize rVal] (ar_iSize c1) (ar_pData rVal) (ar_pData c1)) (\<lambda>d.
       Inr (c1\<lparr>ar_pData := d, ar_iSize := ar_iSize c1 + ar_iSize rVal\<rparr>)))"

definition ar_get :: "int \<Rightarrow> 'v array_core \<Rightarrow> 'v result" where
  "ar_get iIndex c = (if iIndex < 0 \<or> iIndex \<ge> int (ar_iSize c) then Inl ArrayException else slot_get (ar_pData c) iIndex)"

text \<open>\<open>get(i) = v\<close> or \<open>a[i] = v\<close> through the reference the code returns.\<close>

definition ar_put :: "int \<Rightarrow> 'v \<Rightarrow> 'v array_core \<Rightarrow> 'v array_core result" where
  "ar_put iIndex v c =
     (if iIndex < 0 \<or> iIndex \<ge> int (ar_iSize c) then Inl ArrayException
      else rbind (slot_get (ar_pData c) iIndex) (\<lambda>old. rbind (ar_construct iIndex v (ar_pData c)) (\<lambda>d.
             Inr (c\<lparr>ar_pData := d\<rparr>))))"

definition ar_first :: "'v array_core \<Rightarrow> 'v result" where
  "ar_first c = slot_get (ar_pData c) 0"

definition ar_last :: "'v array_core \<Rightarrow> 'v result" where
  "ar_last c = slot_get (ar_pData c) (int (ar_iSize c) - 1)"

definition ar_isEmpty :: "'v array_core \<Rightarrow> bool" where
  "ar_isEmpty c \<longleftrightarrow> ar_iSize c = 0"

definition ar_getSize :: "'v array_core \<Rightarrow> int" where
  "ar_getSize c = int (ar_iSize c)"

definition ar_getCapacity :: "'v array_core \<Rightarrow> int" where
  "ar_getCapacity c = int (ar_iCapacity c)"

fun ar_equal_loop :: "nat list \<Rightarrow> 'v array_core \<Rightarrow> 'v array_core \<Rightarrow> bool result" where
  "ar_equal_loop [] c src = Inr True"
| "ar_equal_loop (j # js) c src =
     rbind (slot_get (ar_pData c) (int j)) (\<lambda>v. rbind (slot_get (ar_pData src) (int j)) (\<lambda>w.
       if v \<noteq> w then Inr False else ar_equal_loop js c src))"

definition ar_equal :: "'v array_core \<Rightarrow> 'v array_core \<Rightarrow> bool result" where
  "ar_equal c src = (if ar_iSize c \<noteq> ar_iSize src then Inr False else ar_equal_loop [0..<ar_iSize c] c src)"

definition ar_copyCore :: "'v array_core \<Rightarrow> 'v array_core result" where
  "ar_copyCore src =
     rbind (ar_setCapacity (int (ar_iCapacity src)) ar_new) (\<lambda>r.
     rbind (ar_copy_loop [0..<ar_iSize src] 0 (ar_pData src) (ar_pData r)) (\<lambda>d.
       Inr (r\<lparr>ar_pData := d, ar_iSize := ar_iSize src\<rparr>)))"

section \<open>Iterators\<close>

text \<open>The position of an iterator, \<open>-1\<close> when it is finished.\<close>

definition ar_iter :: "'v array_core \<Rightarrow> int \<Rightarrow> int" where
  "ar_iter c iPos = (if iPos \<ge> ar_getSize c then - 1 else iPos)"

definition ar_begin :: "'v array_core \<Rightarrow> int" where
  "ar_begin c = ar_iter c 0"

definition ar_end :: "'v array_core \<Rightarrow> int" where
  "ar_end c = ar_iter c (- 1)"

definition ar_next :: "'v array_core \<Rightarrow> int \<Rightarrow> int result" where
  "ar_next c iPos = (if iPos < 0 then Inl ArrayException else Inr (ar_iter c (iPos + 1)))"

definition ar_next_pre :: "'v array_core \<Rightarrow> int \<Rightarrow> int" where
  "ar_next_pre c iPos = ar_iter c (if iPos \<ge> 0 then iPos + 1 else iPos)"

definition ar_plus :: "'v array_core \<Rightarrow> int \<Rightarrow> int \<Rightarrow> int result" where
  "ar_plus c iPos iAmnt = (if iPos < 0 then Inl ArrayException else Inr (ar_iter c (iPos + iAmnt)))"

definition ar_prev :: "'v array_core \<Rightarrow> int \<Rightarrow> int result" where
  "ar_prev c iPos = (if iPos < 0 then Inl ArrayException else Inr (if iPos - 1 < 0 then - 1 else iPos - 1))"

definition ar_prev_pre :: "'v array_core \<Rightarrow> int \<Rightarrow> int" where
  "ar_prev_pre c iPos = (let p = (if iPos < ar_getSize c then iPos - 1 else iPos) in if p \<le> 0 then - 1 else p)"

definition ar_minus :: "'v array_core \<Rightarrow> int \<Rightarrow> int \<Rightarrow> int" where
  "ar_minus c iPos iAmnt = (let p = (if iPos < ar_getSize c then iPos - iAmnt else iPos) in if p \<le> 0 then - 1 else p)"

definition ar_deref :: "'v array_core \<Rightarrow> int \<Rightarrow> 'v result" where
  "ar_deref c iPos = (if iPos < 0 then Inl ArrayException else ar_get iPos c)"

text \<open>\<open>insert\<close> before an iterator, with the loop that moves the objects behind it up by one slot.\<close>

fun ar_shift_loop :: "nat list \<Rightarrow> 'v option list \<Rightarrow> 'v option list result" where
  "ar_shift_loop [] d = Inr d"
| "ar_shift_loop (j # js) d =
     rbind (ar_destroy (int j) d) (\<lambda>d1. rbind (slot_get d1 (int j - 1)) (\<lambda>v.
     rbind (ar_construct (int j) v d1) (ar_shift_loop js)))"

definition ar_insert :: "nat \<Rightarrow> int \<Rightarrow> 'v \<Rightarrow> 'v array_core \<Rightarrow> 'v array_core result" where
  "ar_insert inc i rVal c =
     (if i = - 1 then ar_append inc rVal c
      else rbind (if ar_iSize c = ar_iCapacity c then ar_setCapacity (int (ar_iCapacity c + inc)) c else Inr c) (\<lambda>c1.
        let n = int (ar_iSize c1) in
        rbind (slot_get (ar_pData c1) (n - 1)) (\<lambda>v. rbind (ar_construct n v (ar_pData c1)) (\<lambda>d1.
        rbind (ar_shift_loop (rev [nat (i + 1)..<ar_iSize c1]) d1) (\<lambda>d2.
        rbind (ar_destroy i d2) (\<lambda>d3. rbind (ar_construct i rVal d3) (\<lambda>d4.
          Inr (c1\<lparr>ar_pData := d4, ar_iSize := ar_iSize c1 + 1\<rparr>))))))))"

fun ar_erase_value_loop :: "nat list \<Rightarrow> 'v \<Rightarrow> 'v array_core \<Rightarrow> 'v array_core result" where
  "ar_erase_value_loop [] v c = Inr c"
| "ar_erase_value_loop (j # js) v c =
     rbind (slot_get (ar_pData c) (int j)) (\<lambda>w. if w = v then ar_erase (int j) c else ar_erase_value_loop js v c)"

definition ar_erase_value :: "'v \<Rightarrow> 'v array_core \<Rightarrow> 'v array_core result" where
  "ar_erase_value v c = ar_erase_value_loop [0..<ar_iSize c] v c"

definition ar_eraseLast :: "'v array_core \<Rightarrow> 'v array_core result" where
  "ar_eraseLast c = ar_erase (int (ar_iSize c) - 1) c"

definition ar_eraseFirst :: "'v array_core \<Rightarrow> 'v array_core result" where
  "ar_eraseFirst c = ar_erase 0 c"

text \<open>The loop over a whole array, as in \<open>for( iterator i = a.begin(); i; i++ )\<close>.\<close>

function ar_walk :: "'v array_core \<Rightarrow> int \<Rightarrow> 'v list result" where
  "ar_walk c i =
     (if i < 0 then Inr []
      else rbind (ar_deref c i) (\<lambda>v. rbind (ar_walk c (ar_iter c (i + 1))) (\<lambda>vs. Inr (v # vs))))"
  by pat_completeness auto
termination
  by (relation "measure (\<lambda>(c, i). if i < 0 then 0 else nat (int (ar_iSize c) - i) + 1)")
    (auto simp: ar_iter_def ar_getSize_def)

declare ar_walk.simps [simp del]

section \<open>The contents of an array\<close>

text \<open>The first slots hold the items, and no other slot holds an object.\<close>

definition ar_rep :: "'v array_core \<Rightarrow> 'v list \<Rightarrow> bool" where
  "ar_rep c xs \<longleftrightarrow> ar_iSize c = length xs \<and> length xs \<le> ar_iCapacity c \<and>
     ar_pData c = map Some xs @ replicate (ar_iCapacity c - length xs) None"

lemma ar_repD:
  "ar_rep c xs \<Longrightarrow> ar_iSize c = length xs"
  "ar_rep c xs \<Longrightarrow> length xs \<le> ar_iCapacity c"
  "ar_rep c xs \<Longrightarrow> ar_pData c = map Some xs @ replicate (ar_iCapacity c - length xs) None"
  "ar_rep c xs \<Longrightarrow> length (ar_pData c) = ar_iCapacity c"
  by (simp_all add: ar_rep_def)

lemma ar_rep_new [simp]: "ar_rep ar_new []"
  by (simp add: ar_rep_def ar_new_def)

lemma ar_slot [simp]: "i < length xs \<Longrightarrow> slot_get (map Some xs @ r) (int i) = Inr (xs ! i)"
  by (simp add: access nth_append)

lemma ar_slot_pred: "0 < i \<Longrightarrow> i \<le> length xs \<Longrightarrow> slot_get (map Some xs @ r) (int i - 1) = Inr (xs ! (i - 1))"
  using ar_slot [of "i - 1" xs r] by (simp add: of_nat_diff del: ar_slot)

lemma ar_slot_suc: "Suc i < length xs \<Longrightarrow> d = map Some xs @ r \<Longrightarrow> slot_get (d[i := y]) (int i + 1) = Inr (xs ! Suc i)"
  using slot_get_in [of "Suc i" "d[i := y]" "xs ! Suc i"] by (simp add: nth_append add.commute)

lemma ar_construct_in: "i < length d \<Longrightarrow> ar_construct (int i) v d = Inr (d[i := Some v])"
  by (simp add: ar_construct_def)

lemma ar_destroy_in: "i < length xs \<Longrightarrow> ar_destroy (int i) (map Some xs @ r) = Inr ((map Some xs @ r)[i := None])"
  by (simp add: ar_destroy_def)

lemma ar_copy_loop_ok:
  "i \<le> length ys \<Longrightarrow> n + length ys \<le> length d \<Longrightarrow>
   ar_copy_loop [i..<length ys] n (map Some ys @ r) d =
     Inr (take (n + i) d @ map Some (drop i ys) @ drop (n + length ys) d)"
proof (induction "length ys - i" arbitrary: i d)
  case 0
  then show ?case by simp
next
  case (Suc k)
  then have i: "i < length ys" by simp
  then have u: "[i..<length ys] = i # [Suc i..<length ys]" by (rule upt_conv_Cons)
  have len: "n + i < length d" using Suc.prems i by simp
  have "ar_copy_loop [Suc i..<length ys] n (map Some ys @ r) (d[n + i := Some (ys ! i)]) =
    Inr (take (n + Suc i) (d[n + i := Some (ys ! i)]) @ map Some (drop (Suc i) ys) @
      drop (n + length ys) (d[n + i := Some (ys ! i)]))"
    using Suc.hyps Suc.prems i by (intro Suc.hyps(1)) auto
  moreover have "take (n + Suc i) (d[n + i := Some (ys ! i)]) = take (n + i) d @ [Some (ys ! i)]"
    using len by (simp add: take_Suc_conv_app_nth)
  moreover have "map Some (drop i ys) = Some (ys ! i) # map Some (drop (Suc i) ys)"
    using i by (simp add: Cons_nth_drop_Suc [symmetric])
  moreover have "ar_construct (int n + int i) (ys ! i) d = Inr (d[n + i := Some (ys ! i)])"
    using ar_construct_in [OF len] by simp
  ultimately show ?case using i by (simp add: u)
qed

lemma ar_setCapacity_ok:
  assumes "ar_rep c xs"
  shows "\<exists>c'. ar_setCapacity n c = Inr c' \<and> ar_rep c' xs \<and> int (ar_iCapacity c') = max n (int (ar_iCapacity c))"
proof (cases "n \<le> int (ar_iCapacity c)")
  case True
  with assms show ?thesis by (simp add: ar_setCapacity_def)
next
  case False
  note r = ar_repD [OF assms]
  have "length xs \<le> nat n" using False r(2) by linarith
  moreover from this have "ar_copy_loop [0..<length xs] 0 (ar_pData c) (replicate (nat n) None) =
      Inr (map Some xs @ replicate (nat n - length xs) None)"
    using ar_copy_loop_ok [of 0 xs 0 "replicate (nat n) None"] by (simp add: r(3))
  ultimately show ?thesis using False r(1) by (simp add: ar_setCapacity_def ar_rep_def)
qed

text \<open>Growing before a slot is needed.\<close>

lemma ar_grow_ok:
  assumes "ar_rep c xs" "0 < inc"
  shows "\<exists>c'. (if ar_iSize c = ar_iCapacity c then ar_setCapacity (int (ar_iCapacity c + inc)) c else Inr c) = Inr c' \<and>
    ar_rep c' xs \<and> length xs < ar_iCapacity c'"
proof (cases "ar_iSize c = ar_iCapacity c")
  case True
  with ar_setCapacity_ok [OF assms(1), of "int (ar_iCapacity c + inc)"] ar_repD(1) [OF assms(1)] assms(2)
  show ?thesis by auto
next
  case False
  with ar_repD(1,2) [OF assms(1)] assms(1) show ?thesis by auto
qed

lemma ar_rep_snoc:
  assumes "ar_rep c xs" "length xs < ar_iCapacity c"
  shows "ar_rep (c\<lparr>ar_pData := (ar_pData c)[length xs := Some v], ar_iSize := length xs + 1\<rparr>) (xs @ [v])"
proof -
  have "ar_iCapacity c - length xs = Suc (ar_iCapacity c - Suc (length xs))" using assms(2) by simp
  then show ?thesis using assms by (simp add: ar_rep_def list_update_append)
qed

lemma ar_append_ok:
  assumes "ar_rep c xs" "0 < inc"
  shows "\<exists>c'. ar_append inc v c = Inr c' \<and> ar_rep c' (xs @ [v])"
proof -
  obtain c1 where c1: "(if ar_iSize c = ar_iCapacity c then ar_setCapacity (int (ar_iCapacity c + inc)) c else Inr c) = Inr c1"
    "ar_rep c1 xs" "length xs < ar_iCapacity c1" using ar_grow_ok [OF assms] by blast
  have "ar_construct (int (ar_iSize c1)) v (ar_pData c1) = Inr ((ar_pData c1)[length xs := Some v])"
    using c1(3) ar_repD [OF c1(2)] by (simp add: ar_construct_in)
  with c1 ar_rep_snoc [OF c1(2,3), of v] ar_repD(1) [OF c1(2)] show ?thesis by (simp add: ar_append_def)
qed

lemma ar_append_all_ok:
  assumes "ar_rep c xs" "ar_rep r ys"
  shows "\<exists>c'. ar_append_all inc r c = Inr c' \<and> ar_rep c' (xs @ ys)"
proof -
  note x = ar_repD [OF assms(1)] and y = ar_repD [OF assms(2)]
  obtain c1 where c1: "(if ar_iSize c + ar_iSize r > ar_iCapacity c
       then ar_setCapacity (int (ar_iSize c + ar_iSize r + inc)) c else Inr c) = Inr c1"
    "ar_rep c1 xs" "length xs + length ys \<le> ar_iCapacity c1"
    using ar_setCapacity_ok [OF assms(1), of "int (ar_iSize c + ar_iSize r + inc)"] assms(1) x(1) y(1)
    by (cases "ar_iSize c + ar_iSize r > ar_iCapacity c") auto
  note z = ar_repD [OF c1(2)]
  have "ar_copy_loop [0..<length ys] (length xs) (ar_pData r) (ar_pData c1) =
      Inr (map Some (xs @ ys) @ replicate (ar_iCapacity c1 - length (xs @ ys)) None)"
    using ar_copy_loop_ok [of 0 ys "length xs" "ar_pData c1"] c1(3) z by (simp add: y(3))
  with c1 y(1) z(1) show ?thesis by (simp add: ar_append_all_def ar_rep_def)
qed

lemma ar_erase_ok:
  "ar_rep c xs \<Longrightarrow> j < length xs \<Longrightarrow>
   \<exists>c'. ar_erase (int j) c = Inr c' \<and> ar_rep c' (take j xs @ drop (Suc j) xs) \<and> ar_iCapacity c' = ar_iCapacity c"
proof (induction "length xs - j" arbitrary: j c xs)
  case (Suc k)
  note r = ar_repD [OF Suc.prems(1)]
  have d: "ar_destroy (int j) (ar_pData c) = Inr ((ar_pData c)[j := None])"
    using Suc.prems(2) by (simp add: r(3) ar_destroy_in)
  show ?case
  proof (cases "Suc j = length xs")
    case True
    then have "xs = take j xs @ [xs ! j]" using take_Suc_conv_app_nth [of j xs] by simp
    then obtain ys where ys: "xs = ys @ [xs ! j]" "length ys = j" using True by (metis length_append_singleton nat.inject)
    have "(map Some (ys @ [x]) @ replicate m None)[length ys := None] = map Some ys @ replicate (Suc m) None" for x m
      by (simp add: list_update_append)
    then have "(ar_pData c)[j := None] = map Some ys @ replicate (Suc (ar_iCapacity c - length xs)) None"
      unfolding r(3) using ys by metis
    moreover have "Suc (ar_iCapacity c - length xs) = ar_iCapacity c - length ys"
      using r(2) True ys(2) by linarith
    ultimately have "(ar_pData c)[j := None] = map Some ys @ replicate (ar_iCapacity c - length ys) None" by simp
    moreover have "int j = int (ar_iSize c) - 1" "take j xs @ drop (Suc j) xs = ys"
      using True r(1) ys by (simp_all, metis append_eq_conv_conj)
    ultimately show ?thesis
      using d ys(2) r(1,2) True by (subst ar_erase.simps) (simp add: ar_rep_def)
  next
    case False
    then have sj: "Suc j < length xs" using Suc.prems(2) by simp
    let ?c = "c\<lparr>ar_pData := ((ar_pData c)[j := None])[j := Some (xs ! Suc j)]\<rparr>"
    have "ar_rep ?c (xs[j := xs ! Suc j])"
      using Suc.prems(1,2) by (simp add: ar_rep_def list_update_append map_update)
    moreover have "k = length (xs[j := xs ! Suc j]) - Suc j" "Suc j < length (xs[j := xs ! Suc j])" using Suc.hyps(2) sj by simp_all
    ultimately obtain c' where c': "ar_erase (int (Suc j)) ?c = Inr c'" "ar_iCapacity c' = ar_iCapacity c"
      "ar_rep c' (take (Suc j) (xs[j := xs ! Suc j]) @ drop (Suc (Suc j)) (xs[j := xs ! Suc j]))"
      using Suc.hyps(1) [of "xs[j := xs ! Suc j]" "Suc j" ?c] by auto
    have "take (Suc j) (xs[j := xs ! Suc j]) @ drop (Suc (Suc j)) (xs[j := xs ! Suc j]) = take j xs @ drop (Suc j) xs"
      using sj Cons_nth_drop_Suc [OF sj] by (simp add: take_Suc_conv_app_nth)
    moreover have "slot_get ((ar_pData c)[j := None]) (int j + 1) = Inr (xs ! Suc j)"
      by (rule ar_slot_suc [OF sj r(3)])
    ultimately show ?thesis
      using c' d Suc.prems(2) r(1,4) False less_le_trans [OF Suc.prems(2) r(2)]
      by (subst ar_erase.simps) (auto simp: ar_construct_in add.commute)
  qed
qed simp

section \<open>Inserting\<close>

lemma upd_slots: "i < length zs \<Longrightarrow> (map Some zs @ r)[i := Some v] = map Some (zs[i := v]) @ r"
  by (simp add: list_update_append map_update)

lemma nth_slots: "i < length zs \<Longrightarrow> (map Some zs @ r) ! i = Some (zs ! i)"
  by (simp add: nth_append)

lemma ar_shift_loop_ok:
  "Suc i \<le> m \<Longrightarrow> m \<le> length xs \<Longrightarrow>
   ar_shift_loop (rev [Suc i..<m]) (map Some (take m xs @ drop (m - 1) xs) @ r) =
     Inr (map Some (take (Suc i) xs @ drop i xs) @ r)"
proof (induction m)
  case (Suc m)
  show ?case
  proof (cases "m = i")
    case False
    with Suc.prems have m: "Suc i \<le> m" "m < length xs" by simp_all
    let ?zs = "take (Suc m) xs @ drop m xs"
    have len: "m < length ?zs" using m by simp
    have "((map Some ?zs @ r)[m := None]) ! (m - 1) = Some (?zs ! (m - 1))"
      using m(1) nth_slots [of "m - 1" ?zs r] len by (simp only: nth_list_update_neq)
    also have "?zs ! (m - 1) = xs ! (m - 1)" using m less_SucI [of "m - 1" m] by (simp add: nth_append)
    finally have "slot_get ((map Some ?zs @ r)[m := None]) (int (m - 1)) = Inr (xs ! (m - 1))"
      using m by (intro slot_get_in) simp_all
    moreover have "int (m - 1) = int m - 1" using m(1) by simp
    ultimately have "slot_get ((map Some ?zs @ r)[m := None]) (int m - 1) = Inr (xs ! (m - 1))" by simp
    moreover have "(map Some ?zs @ r)[m := Some (xs ! (m - 1))] = map Some (take m xs @ drop (m - 1) xs) @ r"
    proof -
      have "?zs[m := xs ! (m - 1)] = take m xs @ xs ! (m - 1) # drop m xs"
        using m by (simp add: take_Suc_conv_app_nth list_update_append)
      also have "xs ! (m - 1) # drop m xs = drop (m - 1) xs"
        using Cons_nth_drop_Suc [of "m - 1" xs] m by simp
      finally have "map Some (?zs[m := xs ! (m - 1)]) @ r = map Some (take m xs @ drop (m - 1) xs) @ r" by simp
      then show ?thesis by (simp only: upd_slots [OF len])
    qed
    moreover have "rev [Suc i..<Suc m] = m # rev [Suc i..<m]" using m by simp
    moreover have "ar_construct (int m) (xs ! (m - 1)) ((map Some ?zs @ r)[m := None]) =
        Inr ((map Some ?zs @ r)[m := Some (xs ! (m - 1))])"
      using len by (simp add: ar_construct_in)
    ultimately show ?thesis using Suc.IH m ar_destroy_in [OF len, of r] by simp
  qed simp
qed simp

lemma ar_insert_ok:
  assumes "ar_rep c xs" "0 < inc" "i < length xs"
  shows "\<exists>c'. ar_insert inc (int i) v c = Inr c' \<and> ar_rep c' (take i xs @ v # drop i xs)"
proof -
  obtain c1 where c1: "(if ar_iSize c = ar_iCapacity c then ar_setCapacity (int (ar_iCapacity c + inc)) c else Inr c) = Inr c1"
    "ar_rep c1 xs" "length xs < ar_iCapacity c1" using ar_grow_ok [OF assms(1,2)] by blast
  note r = ar_repD [OF c1(2)]
  have ne: "xs \<noteq> []" using assms(3) by auto
  define rest where "rest = replicate (ar_iCapacity c1 - Suc (length xs)) (None :: 'a option)"
  have rest: "replicate (ar_iCapacity c1 - length xs) None = None # rest"
    using c1(3) by (simp add: rest_def Suc_diff_Suc flip: replicate_Suc)
  have s1: "slot_get (ar_pData c1) (int (length xs) - 1) = Inr (last xs)"
    using ar_slot_pred [of "length xs" xs] ne by (simp add: r(3) last_conv_nth)
  have s2: "ar_construct (int (length xs)) (last xs) (ar_pData c1) = Inr (map Some (xs @ [last xs]) @ rest)"
    using c1(3) r(4) ar_construct_in [of "length xs" "ar_pData c1"] by (simp add: r(3) rest list_update_append)
  have "drop (length xs - 1) xs = [last xs]" using ne
    by (metis append_butlast_last_id append_eq_conv_conj length_butlast)
  then have s3: "ar_shift_loop (rev [Suc i..<length xs]) (map Some (xs @ [last xs]) @ rest) =
      Inr (map Some (take (Suc i) xs @ drop i xs) @ rest)"
    using ar_shift_loop_ok [of i "length xs" xs rest] assms(3) by simp
  let ?zs = "take (Suc i) xs @ drop i xs"
  have l: "i < length ?zs" using assms(3) by simp
  have s4: "ar_destroy (int i) (map Some ?zs @ rest) = Inr ((map Some ?zs @ rest)[i := None])"
    by (rule ar_destroy_in [OF l])
  have s5: "ar_construct (int i) v ((map Some ?zs @ rest)[i := None]) = Inr (map Some (take i xs @ v # drop i xs) @ rest)"
  proof -
    have "?zs[i := v] = take i xs @ v # drop i xs" using assms(3) by (simp add: take_Suc_conv_app_nth list_update_append)
    then have "map Some (?zs[i := v]) @ rest = map Some (take i xs @ v # drop i xs) @ rest" by simp
    then have "(map Some ?zs @ rest)[i := Some v] = map Some (take i xs @ v # drop i xs) @ rest"
      by (simp only: upd_slots [OF l])
    then show ?thesis using l by (simp add: ar_construct_in)
  qed
  have n: "nat (int i + 1) = Suc i" by simp
  have "ar_insert inc (int i) v c =
      Inr (c1\<lparr>ar_pData := map Some (take i xs @ v # drop i xs) @ rest, ar_iSize := length xs + 1\<rparr>)"
    unfolding ar_insert_def Let_def using c1(1) s1 s2 s3 s4 s5 r(1) n by simp
  moreover have "ar_rep (c1\<lparr>ar_pData := map Some (take i xs @ v # drop i xs) @ rest, ar_iSize := length xs + 1\<rparr>)
      (take i xs @ v # drop i xs)"
    using c1(3) assms(3) by (simp add: ar_rep_def rest_def)
  ultimately show ?thesis by blast
qed

section \<open>The other members\<close>

lemma ar_get_ok:
  "ar_rep c xs \<Longrightarrow> ar_get i c = (if 0 \<le> i \<and> i < int (length xs) then Inr (xs ! nat i) else Inl ArrayException)"
  using ar_slot [of "nat i" xs] by (auto simp: ar_get_def ar_repD(1,3) simp del: ar_slot)

lemma ar_put_ok:
  assumes "ar_rep c xs" "i < length xs"
  shows "\<exists>c'. ar_put (int i) v c = Inr c' \<and> ar_rep c' (xs[i := v])"
proof -
  note r = ar_repD [OF assms(1)]
  have "ar_construct (int i) v (ar_pData c) = Inr ((ar_pData c)[i := Some v])"
    using assms(2) r(2,4) by (intro ar_construct_in) simp
  moreover have "ar_rep (c\<lparr>ar_pData := (ar_pData c)[i := Some v]\<rparr>) (xs[i := v])"
    using assms by (simp add: ar_rep_def list_update_append map_update)
  ultimately show ?thesis using assms(2) r(1,3) by (simp add: ar_put_def)
qed

lemma ar_swapErase_ok:
  assumes "ar_rep c xs" "j < length xs"
  shows "\<exists>c'. ar_swapErase (int j) c = Inr c' \<and>
    ar_rep c' (if Suc j = length xs then butlast xs else (butlast xs)[j := last xs])"
proof (cases "Suc j = length xs")
  case True
  then have "int j = int (ar_iSize c) - 1" using ar_repD(1) [OF assms(1)] by simp
  moreover have "take j xs @ drop (Suc j) xs = butlast xs" using True by (simp add: butlast_conv_take flip: True)
  ultimately show ?thesis using ar_erase_ok [OF assms] True by (auto simp: ar_swapErase_def)
next
  case False
  note r = ar_repD [OF assms(1)]
  have ne: "xs \<noteq> []" using assms(2) by auto
  let ?n = "length xs - 1" and ?r = "replicate (ar_iCapacity c - length xs) (None :: 'a option)"
  have n: "j < ?n" "?n < length xs" "int (ar_iSize c) - 1 = int ?n" using False assms(2) r(1) by auto
  have d1: "ar_destroy (int j) (ar_pData c) = Inr ((ar_pData c)[j := None])"
    using assms(2) by (simp add: r(3) ar_destroy_in)
  have d2: "slot_get ((ar_pData c)[j := None]) (int ?n) = Inr (last xs)"
    by (rule slot_get_in) (use n ne in \<open>simp_all add: r(3) nth_append last_conv_nth\<close>)
  have d3: "ar_construct (int j) (last xs) ((ar_pData c)[j := None]) = Inr (map Some (xs[j := last xs]) @ ?r)"
    using assms(2) r(4) r(2) by (subst ar_construct_in) (simp_all add: r(3) list_update_append map_update)
  have d4: "ar_destroy (int ?n) (map Some (xs[j := last xs]) @ ?r) =
      Inr ((map Some (xs[j := last xs]) @ ?r)[?n := None])"
    using n by (intro ar_destroy_in) simp
  have "xs = butlast xs @ [last xs]" using ne by simp
  then have "xs[j := last xs] = (butlast xs)[j := last xs] @ [last xs]"
    using n(1) by (metis length_butlast list_update_append1)
  then have e: "map Some (xs[j := last xs]) @ ?r = map Some ((butlast xs)[j := last xs]) @ Some (last xs) # ?r" by simp
  have "ar_rep (c\<lparr>ar_pData := (map Some (xs[j := last xs]) @ ?r)[?n := None], ar_iSize := ar_iSize c - 1\<rparr>)
      ((butlast xs)[j := last xs])"
    unfolding ar_rep_def e using r(1,2) n(2) by (simp add: list_update_append Suc_diff_le [symmetric] flip: replicate_Suc)
  with d1 d2 d3 d4 n(1,3) False show ?thesis by (simp add: ar_swapErase_def)
qed

lemma ar_eraseLast_ok: "ar_rep c (xs @ [x]) \<Longrightarrow> \<exists>c'. ar_eraseLast c = Inr c' \<and> ar_rep c' xs"
  using ar_erase_ok [of c "xs @ [x]" "length xs"] ar_repD(1) [of c "xs @ [x]"] by (auto simp: ar_eraseLast_def)

lemma ar_eraseFirst_ok:
  "ar_rep c xs \<Longrightarrow> \<exists>c'. ar_eraseFirst c = Inr c' \<and> ar_rep c' (tl xs)"
  using ar_erase_ok [of c xs 0] ar_repD(1) [of c xs]
  by (cases xs) (auto simp: ar_eraseFirst_def ar_erase.simps [of 0 c])

lemma ar_erase_value_ok:
  "ar_rep c xs \<Longrightarrow> j \<le> length xs \<Longrightarrow>
   \<exists>c'. ar_erase_value_loop [j..<length xs] v c = Inr c' \<and> ar_rep c' (take j xs @ remove1 v (drop j xs))"
proof (induction "length xs - j" arbitrary: j)
  case (Suc k)
  then have j: "j < length xs" by simp
  then have u: "[j..<length xs] = j # [Suc j..<length xs]" "drop j xs = xs ! j # drop (Suc j) xs"
    by (simp_all add: upt_conv_Cons Cons_nth_drop_Suc)
  note r = ar_repD [OF Suc.prems(1)]
  show ?case
  proof (cases "xs ! j = v")
    case True
    with ar_erase_ok [OF Suc.prems(1) j] j show ?thesis by (auto simp: u r(3))
  next
    case False
    have "k = length xs - Suc j" "Suc j \<le> length xs" using Suc.hyps(2) j by simp_all
    from Suc.hyps(1) [OF this(1) Suc.prems(1) this(2)] False j show ?thesis
      by (simp add: u r(3) take_Suc_conv_app_nth)
  qed
qed simp

lemma ar_copyCore_ok: "ar_rep c xs \<Longrightarrow> ar_copyCore c = Inr c"
proof -
  assume a: "ar_rep c xs"
  note r = ar_repD [OF a]
  have s: "ar_setCapacity (int (ar_iCapacity c)) ar_new =
      Inr \<lparr>ar_pData = replicate (ar_iCapacity c) None, ar_iSize = 0, ar_iCapacity = ar_iCapacity c\<rparr>"
    by (simp add: ar_setCapacity_def ar_new_def)
  have "ar_copy_loop [0..<length xs] 0 (ar_pData c) (replicate (ar_iCapacity c) None) = Inr (ar_pData c)"
    using ar_copy_loop_ok [of 0 xs 0 "replicate (ar_iCapacity c) None"] r(2) by (simp add: r(3))
  then show ?thesis using r(1) by (simp add: ar_copyCore_def s)
qed

text \<open>The copy of an array is what \<open>SharedCore\<close> asks for.\<close>

interpretation array_copy: faithful_copy ar_new "\<lambda>c. case ar_copyCore c of Inr c' \<Rightarrow> c' | Inl e \<Rightarrow> c" "\<lambda>c. \<exists>xs. ar_rep c xs"
  by unfold_locales (auto intro: ar_rep_new simp: ar_copyCore_ok)

lemma ar_equal_loop_ok:
  "ar_rep c xs \<Longrightarrow> ar_rep d ys \<Longrightarrow> length ys = length xs \<Longrightarrow> j \<le> length xs \<Longrightarrow>
   ar_equal_loop [j..<length xs] c d = Inr (drop j xs = drop j ys)"
proof (induction "length xs - j" arbitrary: j)
  case (Suc k)
  then have j: "j < length xs" by simp
  then have "[j..<length xs] = j # [Suc j..<length xs]" "drop j xs = xs ! j # drop (Suc j) xs"
    "drop j ys = ys ! j # drop (Suc j) ys"
    using Suc.prems(3) by (simp_all add: upt_conv_Cons Cons_nth_drop_Suc)
  with Suc j show ?case by (simp add: ar_repD(3))
qed simp

lemma ar_equal_ok: "ar_rep c xs \<Longrightarrow> ar_rep d ys \<Longrightarrow> ar_equal c d = Inr (xs = ys)"
  using ar_equal_loop_ok [of c xs d ys 0] by (auto simp: ar_equal_def ar_repD(1))

lemma ar_walk_from: "ar_rep c xs \<Longrightarrow> i < length xs \<Longrightarrow> ar_walk c (int i) = Inr (drop i xs)"
proof (induction "length xs - i" arbitrary: i)
  case (Suc k)
  have d: "ar_deref c (int i) = Inr (xs ! i)" using ar_get_ok [OF Suc.prems(1)] Suc.prems(2) by (simp add: ar_deref_def)
  have n: "ar_iter c (int i + 1) = (if Suc i = length xs then - 1 else int (Suc i))"
    using ar_repD(1) [OF Suc.prems(1)] Suc.prems(2) by (auto simp: ar_iter_def ar_getSize_def)
  show ?case
  proof (cases "Suc i = length xs")
    case True
    then show ?thesis using d n Suc.prems(2) Cons_nth_drop_Suc [of i xs]
      by (subst ar_walk.simps) (simp add: ar_walk.simps [of c "- 1"])
  next
    case False
    then have "ar_walk c (int (Suc i)) = Inr (drop (Suc i) xs)"
      using Suc.hyps(2) Suc.prems by (intro Suc.hyps(1)) simp_all
    with False d n Suc.prems(2) show ?thesis
      by (subst ar_walk.simps) (simp add: Cons_nth_drop_Suc)
  qed
qed simp

section \<open>Properties\<close>

text \<open>
  C19. An array is a list: inserting before a position puts the item there and moves the others up
  (growing the memory when it is full), erasing that position again leaves the items as they were,
  and iterating shows them in order. No slot is read before it is constructed, and none is
  constructed outside the memory.
\<close>

theorem array_insert_erase:
  assumes "ar_rep c xs" "0 < inc" "i < length xs"
  shows "\<exists>c1 c2. ar_insert inc (int i) v c = Inr c1 \<and> ar_rep c1 (take i xs @ v # drop i xs) \<and>
    ar_walk c1 (ar_begin c1) = Inr (take i xs @ v # drop i xs) \<and> ar_erase (int i) c1 = Inr c2 \<and> ar_rep c2 xs"
proof -
  let ?ys = "take i xs @ v # drop i xs"
  obtain c1 where c1: "ar_insert inc (int i) v c = Inr c1" "ar_rep c1 ?ys" using ar_insert_ok [OF assms] by blast
  have "ar_begin c1 = int 0" using ar_repD(1) [OF c1(2)] by (simp add: ar_begin_def ar_iter_def ar_getSize_def)
  moreover have "ar_walk c1 (int 0) = Inr (drop 0 ?ys)" by (rule ar_walk_from [OF c1(2)]) simp
  moreover have "i < length ?ys" "take i ?ys @ drop (Suc i) ?ys = xs" using assms(3) by simp_all
  with ar_erase_ok [OF c1(2) this(1)] have "\<exists>c2. ar_erase (int i) c1 = Inr c2 \<and> ar_rep c2 xs" by auto
  ultimately show ?thesis using c1 by auto
qed

theorem array_insert_erase_witness:
  "\<exists>c c1. ar_append 10 (7 :: nat) ar_new = Inr c \<and> ar_insert 10 0 5 c = Inr c1 \<and> ar_rep c1 [5, 7]"
proof -
  obtain c where c: "ar_append 10 (7 :: nat) ar_new = Inr c" "ar_rep c [7]"
    using ar_append_ok [OF ar_rep_new, of 10 7] by auto
  from array_insert_erase [OF c(2), of 10 0 5] c(1) show ?thesis by auto
qed

text \<open>
  Erasing the last item of an empty array, or erasing at a finished iterator, destroys an
  object in front of the memory: neither looks at the position.
\<close>

theorem array_erase_nothing:
  "ar_eraseLast ar_new = Inl Out_Of_Bounds" "ar_erase (ar_end c) c = Inl Out_Of_Bounds"
  by (simp_all add: ar_eraseLast_def ar_new_def ar_end_def ar_iter_def ar_getSize_def ar_erase.simps [of "- 1"]
    ar_destroy_def slot_get_def arr_get_def)

text \<open>Stepping backwards with the prefix operator stops before the first item is reached.\<close>

lemma ar_prev_pre_one: "1 < ar_getSize c \<Longrightarrow> ar_prev_pre c 1 = - 1"
  by (simp add: ar_prev_pre_def)

end
