(* ===== verification/Bu_Hash.thy ===== *)
theory Bu_Hash
  imports Bu_Prelude
begin

text \<open>
  \<open>Bu::HashCore\<close> and \<open>Bu::Hash\<close> (\<open>src/stable/hash.h\<close>), the open-addressing hash table: two bit
  arrays say which slots are filled and which of these are deleted, three more arrays hold the
  keys, the values and the hash codes. A slot without an object is \<open>None\<close>. The hash function of
  the key type is the parameter \<open>hf\<close>; keys are compared by \<open>=\<close>. Counters are natural numbers with
  the wrap-around of \<open>uint32_t\<close> written out where the code computes with them.

  \<open>probe\<close> with its rehashing calls itself through \<open>insert\<close> and may not end, so its result is an
  option, in which \<open>None\<close> is not returning.
\<close>

section \<open>State\<close>

record ('k, 'v) hash_core =
  hs_nCapacity :: nat
  hs_nFilled :: nat
  hs_nDeleted :: nat
  hs_bFilled :: "32 word list"
  hs_bDeleted :: "32 word list"
  hs_nKeysSize :: nat
  hs_aKeys :: "'k option list"
  hs_aValues :: "'v option list"
  hs_aHashCodes :: "32 word option list"

text \<open>The constructor leaves \<open>nKeysSize\<close> unset; nothing reads it before \<open>init\<close> sets it.\<close>

definition hs_new :: "('k, 'v) hash_core" where
  "hs_new = \<lparr>hs_nCapacity = 0, hs_nFilled = 0, hs_nDeleted = 0, hs_bFilled = [], hs_bDeleted = [],
     hs_nKeysSize = 0, hs_aKeys = [], hs_aValues = [], hs_aHashCodes = []\<rparr>"

definition bitsTo32 :: "nat \<Rightarrow> nat" where
  "bitsTo32 iCount = iCount div 32 + (if iCount mod 32 > 0 then 1 else 0)"

text \<open>Arrays for \<open>n\<close> slots, with all bits cleared and no objects.\<close>

definition hs_alloc :: "nat \<Rightarrow> ('k, 'v) hash_core" where
  "hs_alloc n = \<lparr>hs_nCapacity = n, hs_nFilled = 0, hs_nDeleted = 0,
     hs_bFilled = replicate (bitsTo32 n) 0, hs_bDeleted = replicate (bitsTo32 n) 0,
     hs_nKeysSize = bitsTo32 n, hs_aKeys = replicate n None, hs_aValues = replicate n None,
     hs_aHashCodes = replicate n None\<rparr>"

definition hs_init :: "('k, 'v) hash_core \<Rightarrow> ('k, 'v) hash_core" where
  "hs_init c =
     (if hs_nCapacity c > 0 then c
      else (hs_alloc 11)\<lparr>hs_nFilled := hs_nFilled c, hs_nDeleted := hs_nDeleted c\<rparr>)"

section \<open>Bits and slots\<close>

definition hs_bit :: "32 word list \<Rightarrow> nat \<Rightarrow> bool result" where
  "hs_bit ws loc = rbind (arr_get ws (int (loc div 32))) (\<lambda>w. Inr (w AND push_bit (loc mod 32) 1 \<noteq> 0))"

definition hs_setbit :: "32 word list \<Rightarrow> nat \<Rightarrow> 32 word list result" where
  "hs_setbit ws loc =
     rbind (arr_get ws (int (loc div 32))) (\<lambda>w. arr_set ws (int (loc div 32)) (w OR push_bit (loc mod 32) 1))"

definition hs_isFilled :: "('k, 'v) hash_core \<Rightarrow> nat \<Rightarrow> bool result" where
  "hs_isFilled c loc =
     (if loc \<ge> hs_nCapacity c then Inl (HashException ''Referenced position invalid.'')
      else hs_bit (hs_bFilled c) loc)"

definition hs_isDeleted :: "('k, 'v) hash_core \<Rightarrow> nat \<Rightarrow> bool result" where
  "hs_isDeleted c loc =
     (if loc \<ge> hs_nCapacity c then Inl (HashException ''Referenced position invalid.'')
      else hs_bit (hs_bDeleted c) loc)"

text \<open>The object in a slot of one of the arrays.\<close>

definition hs_slot :: "'a option list \<Rightarrow> nat \<Rightarrow> 'a result" where
  "hs_slot xs i = slot_get xs (int i)"

definition hs_fill :: "nat \<Rightarrow> 'k \<Rightarrow> 'v \<Rightarrow> 32 word \<Rightarrow> ('k, 'v) hash_core \<Rightarrow> ('k, 'v) hash_core result" where
  "hs_fill loc k v hash c =
     (let c1 = hs_init c in
      rbind (hs_setbit (hs_bFilled c1) loc) (\<lambda>bf.
      rbind (arr_set (hs_aValues c1) (int loc) (Some v)) (\<lambda>vs.
      rbind (arr_set (hs_aKeys c1) (int loc) (Some k)) (\<lambda>ks.
      rbind (arr_set (hs_aHashCodes c1) (int loc) (Some hash)) (\<lambda>hs.
        Inr (c1\<lparr>hs_bFilled := bf, hs_aValues := vs, hs_aKeys := ks, hs_aHashCodes := hs,
                hs_nFilled := (hs_nFilled c1 + 1) mod 2 ^ 32\<rparr>))))))"

text \<open>Erasing destroys the key and the value: a slot that holds none is an error.\<close>

definition hs_eraseAt :: "nat \<Rightarrow> ('k, 'v) hash_core \<Rightarrow> ('k, 'v) hash_core result" where
  "hs_eraseAt loc c =
     (if hs_nCapacity c = 0 then Inr c
      else rbind (hs_setbit (hs_bDeleted c) loc) (\<lambda>bd.
           rbind (hs_slot (hs_aValues c) loc) (\<lambda>v. rbind (hs_slot (hs_aKeys c) loc) (\<lambda>k.
             Inr (c\<lparr>hs_bDeleted := bd, hs_aValues := (hs_aValues c)[loc := None],
                    hs_aKeys := (hs_aKeys c)[loc := None], hs_nDeleted := (hs_nDeleted c + 1) mod 2 ^ 32\<rparr>)))))"

definition hs_getKeyAtPos :: "('k, 'v) hash_core \<Rightarrow> nat \<Rightarrow> 'k result" where
  "hs_getKeyAtPos c nPos =
     (if nPos \<ge> hs_nCapacity c then Inl (HashException ''Referenced position invalid.'')
      else hs_slot (hs_aKeys c) nPos)"

definition hs_getValueAtPos :: "('k, 'v) hash_core \<Rightarrow> nat \<Rightarrow> 'v result" where
  "hs_getValueAtPos c nPos =
     (if nPos \<ge> hs_nCapacity c then Inl (HashException ''Referenced position invalid.'')
      else hs_slot (hs_aValues c) nPos)"

section \<open>Sizes\<close>

text \<open>Subtraction of \<open>uint32_t\<close> values.\<close>

definition sub32 :: "nat \<Rightarrow> nat \<Rightarrow> nat" where
  "sub32 a b = nat ((int a - int b) mod 2 ^ 32)"

text \<open>The loop of the first case of the default size functor.\<close>

function tsize_loop :: "nat \<Rightarrow> nat \<Rightarrow> nat" where
  "tsize_loop nCapacity n = (if nCapacity < n then tsize_loop (nCapacity * 2 + 1) n else nCapacity)"
  by pat_completeness auto
termination
  by (relation "measure (\<lambda>(c, n). n - c)") auto

declare tsize_loop.simps [simp del]

definition calcNextTSize_fast :: "nat \<Rightarrow> nat \<Rightarrow> nat \<Rightarrow> nat" where
  "calcNextTSize_fast nCapacity nFilled nDeleted =
     (if sub32 nFilled nDeleted \<le> nCapacity div 4 then tsize_loop 11 (nFilled * 5 mod 2 ^ 32 div 4)
      else if sub32 nFilled nDeleted \<le> nCapacity div 2
      then (if nDeleted = 0 then (nCapacity div 4 * 5 + 1) mod 2 ^ 32 else nCapacity)
      else (nCapacity * 2 + 1) mod 2 ^ 32)"

section \<open>Probing\<close>

text \<open>
  The loop of \<open>probe\<close>. It ends at the key (the flag is true), or at a slot that is not filled, or
  after 32 slots; the count is part of the result. \<open>1 << 31\<close> counts as the \<open>uint32_t\<close> it is added to.
\<close>

function hs_scan :: "('k, 'v) hash_core \<Rightarrow> 32 word \<Rightarrow> 'k \<Rightarrow> nat \<Rightarrow> nat \<Rightarrow> (bool \<times> nat \<times> nat) result" where
  "hs_scan c hash k j nCur =
     rbind (hs_isFilled c nCur) (\<lambda>f.
       if f \<and> j < 32
       then rbind (hs_slot (hs_aHashCodes c) nCur) (\<lambda>h.
            rbind (if hash = h
                   then rbind (hs_isDeleted c nCur) (\<lambda>d.
                        if d then Inr False else rbind (hs_slot (hs_aKeys c) nCur) (\<lambda>k'. Inr (k' = k)))
                   else Inr False) (\<lambda>found.
              if found then Inr (True, nCur, j)
              else hs_scan c hash k (j + 1) ((nCur + 2 ^ j) mod 2 ^ 32 mod hs_nCapacity c)))
       else Inr (False, nCur, j))"
  by pat_completeness auto
termination
  by (relation "measure (\<lambda>(c, hash, k, j, nCur). 32 - j)") auto

declare hs_scan.simps [simp del]

text \<open>The keys and values of the filled slots that are not deleted, in the order of the slots.\<close>

fun hs_collect :: "('k, 'v) hash_core \<Rightarrow> nat list \<Rightarrow> ('k \<times> 'v) list result" where
  "hs_collect c [] = Inr []"
| "hs_collect c (j # js) =
     rbind (hs_bit (hs_bFilled c) j) (\<lambda>f. rbind (if f then hs_bit (hs_bDeleted c) j else Inr True) (\<lambda>d.
       if d then hs_collect c js
       else rbind (hs_slot (hs_aKeys c) j) (\<lambda>k. rbind (hs_slot (hs_aValues c) j) (\<lambda>v.
            rbind (hs_collect c js) (\<lambda>r. Inr ((k, v) # r))))))"

definition hs_items :: "('k, 'v) hash_core \<Rightarrow> ('k \<times> 'v) list result" where
  "hs_items c = hs_collect c [0..<hs_nCapacity c]"

text \<open>What \<open>insert\<close> does at the slot that \<open>probe\<close> found.\<close>

definition hs_put :: "32 word \<Rightarrow> 'k \<Rightarrow> 'v \<Rightarrow> bool \<times> nat \<times> ('k, 'v) hash_core \<Rightarrow> ('k, 'v) hash_core result" where
  "hs_put hash k v p =
     (case p of (bFill, nPos, c) \<Rightarrow>
        if bFill
        then rbind (hs_slot (hs_aValues c) nPos) (\<lambda>old. Inr (c\<lparr>hs_aValues := (hs_aValues c)[nPos := Some v]\<rparr>))
        else hs_fill nPos k v hash c)"

text \<open>A loop whose body may fail or not return.\<close>

primrec opt_fold :: "('a \<Rightarrow> 's \<Rightarrow> 's result option) \<Rightarrow> 'a list \<Rightarrow> 's \<Rightarrow> 's result option" where
  "opt_fold f [] s = Some (Inr s)"
| "opt_fold f (x # xs) s =
     Option.bind (f x s) (\<lambda>r. case r of Inl e \<Rightarrow> Some (Inl e) | Inr s' \<Rightarrow> opt_fold f xs s')"

lemma mono_opt_fold [partial_function_mono]:
  assumes "\<And>x s. mono_option (\<lambda>f. B f x s)"
  shows "mono_option (\<lambda>f. opt_fold (B f) xs s)"
proof (induction xs arbitrary: s)
  case Nil
  show ?case by (simp add: option.const_mono)
next
  case (Cons x xs)
  have "mono_option (\<lambda>f. case r of Inl e \<Rightarrow> Some (Inl e) | Inr s' \<Rightarrow> opt_fold (B f) xs s')" for r
    using Cons.IH by (cases r) (auto intro: option.const_mono)
  with assms show ?case by (auto intro: bind_mono)
qed

text \<open>
  \<open>probe\<close>, which can make a table of another size, insert all items into it, each with a \<open>probe\<close>
  of its own, and start again.
\<close>

partial_function (option) hs_probe ::
    "('k \<Rightarrow> 32 word) \<Rightarrow> bool \<Rightarrow> 'k \<Rightarrow> ('k, 'v) hash_core \<Rightarrow> (bool \<times> nat \<times> ('k, 'v) hash_core) result option" where
  "hs_probe hf rehash k c =
     (case hs_scan (hs_init c) (hf k) k 0 (unat (hf k) mod hs_nCapacity (hs_init c)) of Inl e \<Rightarrow> Some (Inl e)
      | Inr s \<Rightarrow>
         (if fst s then Some (Inr (True, fst (snd s), hs_init c))
          else case hs_isFilled (hs_init c) (fst (snd s)) of Inl e \<Rightarrow> Some (Inl e)
          | Inr f \<Rightarrow>
             (if (f \<or> snd (snd s) = 32) \<and> rehash
              then case hs_items (hs_init c) of Inl e \<Rightarrow> Some (Inl e)
              | Inr xs \<Rightarrow>
                 Option.bind
                   (opt_fold (\<lambda>x c'. Option.bind (hs_probe hf True (fst x) c')
                                       (\<lambda>p. Some (rbind p (hs_put (hf (fst x)) (fst x) (snd x)))))
                      xs (hs_alloc (calcNextTSize_fast (hs_nCapacity (hs_init c)) (hs_nFilled (hs_init c))
                                      (hs_nDeleted (hs_init c)))))
                   (\<lambda>r. case r of Inl e \<Rightarrow> Some (Inl e) | Inr c2 \<Rightarrow> hs_probe hf True k c2)
              else Some (Inr (False, fst (snd s), hs_init c)))))"

definition hs_insert :: "('k \<Rightarrow> 32 word) \<Rightarrow> 'k \<Rightarrow> 'v \<Rightarrow> ('k, 'v) hash_core \<Rightarrow> ('k, 'v) hash_core result option" where
  "hs_insert hf k v c = Option.bind (hs_probe hf True k c) (\<lambda>p. Some (rbind p (hs_put (hf k) k v)))"

definition hs_insert_all ::
    "('k \<Rightarrow> 32 word) \<Rightarrow> ('k \<times> 'v) list \<Rightarrow> ('k, 'v) hash_core \<Rightarrow> ('k, 'v) hash_core result option" where
  "hs_insert_all hf xs c = opt_fold (\<lambda>x c'. hs_insert hf (fst x) (snd x) c') xs c"

definition hs_reHash :: "('k \<Rightarrow> 32 word) \<Rightarrow> nat \<Rightarrow> ('k, 'v) hash_core \<Rightarrow> ('k, 'v) hash_core result option" where
  "hs_reHash hf nNewSize c =
     (case hs_items c of Inl e \<Rightarrow> Some (Inl e) | Inr xs \<Rightarrow> hs_insert_all hf xs (hs_alloc nNewSize))"

section \<open>The members of the shell\<close>

text \<open>
  Each of these works on a core that is this object's own (copy-on-write sharing is the subject of
  \<open>Bu_SharedCore\<close>). \<open>has\<close>, the constant \<open>get\<close> and \<open>operator==\<close> call \<open>probe\<close> through a pointer to
  a core that is not constant, so they use the \<open>probe\<close> that rehashes too, and their result includes
  the table.
\<close>

definition hs_getCapacity :: "('k, 'v) hash_core \<Rightarrow> nat" where
  "hs_getCapacity c = hs_nCapacity c"

definition hs_getFill :: "('k, 'v) hash_core \<Rightarrow> nat" where
  "hs_getFill c = hs_nFilled c"

definition hs_getSize :: "('k, 'v) hash_core \<Rightarrow> nat" where
  "hs_getSize c = sub32 (hs_nFilled c) (hs_nDeleted c)"

definition hs_isEmpty :: "('k, 'v) hash_core \<Rightarrow> bool" where
  "hs_isEmpty c \<longleftrightarrow> sub32 (hs_nFilled c) (hs_nDeleted c) = 0"

definition hs_getDeleted :: "('k, 'v) hash_core \<Rightarrow> nat" where
  "hs_getDeleted c = hs_nDeleted c"

definition hs_erase :: "('k \<Rightarrow> 32 word) \<Rightarrow> 'k \<Rightarrow> ('k, 'v) hash_core \<Rightarrow> ('k, 'v) hash_core result option" where
  "hs_erase hf k c =
     Option.bind (hs_probe hf True k c) (\<lambda>r. Some (rbind r (\<lambda>(bFill, nPos, c').
       if bFill then hs_eraseAt nPos c' else Inr c')))"

definition hs_getAt :: "bool \<times> nat \<times> ('k, 'v) hash_core \<Rightarrow> ('v \<times> ('k, 'v) hash_core) result" where
  "hs_getAt p =
     (case p of (bFill, nPos, c) \<Rightarrow>
        if bFill then rbind (hs_slot (hs_aValues c) nPos) (\<lambda>v. Inr (v, c))
        else Inl (HashException ''No data associated with that key.''))"

definition hs_get :: "('k \<Rightarrow> 32 word) \<Rightarrow> 'k \<Rightarrow> ('k, 'v) hash_core \<Rightarrow> ('v \<times> ('k, 'v) hash_core) result option" where
  "hs_get hf k c = Option.bind (hs_probe hf False k c) (\<lambda>r. Some (rbind r hs_getAt))"

definition hs_get_const :: "('k \<Rightarrow> 32 word) \<Rightarrow> 'k \<Rightarrow> ('k, 'v) hash_core \<Rightarrow> ('v \<times> ('k, 'v) hash_core) result option" where
  "hs_get_const hf k c = Option.bind (hs_probe hf True k c) (\<lambda>r. Some (rbind r hs_getAt))"

definition hs_has :: "('k \<Rightarrow> 32 word) \<Rightarrow> 'k \<Rightarrow> ('k, 'v) hash_core \<Rightarrow> (bool \<times> ('k, 'v) hash_core) result option" where
  "hs_has hf k c =
     Option.bind (hs_probe hf True k c) (\<lambda>r. Some (rbind r (\<lambda>(bFill, nPos, c'). Inr (bFill, c'))))"

text \<open>The destructor's \<open>clear\<close> destroys every item and gives the arrays back.\<close>

definition hs_clear :: "('k, 'v) hash_core \<Rightarrow> ('k, 'v) hash_core result" where
  "hs_clear c =
     rbind (hs_items c) (\<lambda>xs. Inr (c\<lparr>hs_bFilled := [], hs_bDeleted := [], hs_aKeys := [], hs_aValues := [],
       hs_aHashCodes := [], hs_nCapacity := 0, hs_nFilled := 0, hs_nDeleted := 0\<rparr>))"

definition hs_copyCore :: "('k \<Rightarrow> 32 word) \<Rightarrow> ('k, 'v) hash_core \<Rightarrow> ('k, 'v) hash_core result option" where
  "hs_copyCore hf src =
     (case hs_items src of Inl e \<Rightarrow> Some (Inl e) | Inr xs \<Rightarrow> hs_insert_all hf xs (hs_alloc (hs_nCapacity src)))"

definition hs_getKeys :: "('k, 'v) hash_core \<Rightarrow> 'k list result" where
  "hs_getKeys c = rbind (hs_items c) (\<lambda>xs. Inr (map fst xs))"

definition hs_getValues :: "('k, 'v) hash_core \<Rightarrow> 'v list result" where
  "hs_getValues c = rbind (hs_items c) (\<lambda>xs. Inr (map snd xs))"

text \<open>\<open>operator==\<close> and \<open>operator+=\<close> with another table, which has a core of its own.\<close>

fun hs_equal_loop ::
    "('k \<Rightarrow> 32 word) \<Rightarrow> ('k \<times> 'v) list \<Rightarrow> ('k, 'v) hash_core \<Rightarrow> (bool \<times> ('k, 'v) hash_core) result option" where
  "hs_equal_loop hf [] rhs = Some (Inr (True, rhs))"
| "hs_equal_loop hf ((k, v) # xs) rhs =
     Option.bind (hs_has hf k rhs) (\<lambda>r. case r of Inl e \<Rightarrow> Some (Inl e)
     | Inr (b, rhs1) \<Rightarrow>
         if b
         then Option.bind (hs_get_const hf k rhs1) (\<lambda>r. case r of Inl e \<Rightarrow> Some (Inl e)
              | Inr (w, rhs2) \<Rightarrow> if v = w then hs_equal_loop hf xs rhs2 else Some (Inr (False, rhs2)))
         else Some (Inr (False, rhs1)))"

definition hs_equal ::
    "('k \<Rightarrow> 32 word) \<Rightarrow> ('k, 'v) hash_core \<Rightarrow> ('k, 'v) hash_core \<Rightarrow> (bool \<times> ('k, 'v) hash_core) result option" where
  "hs_equal hf c rhs =
     (if hs_getSize c \<noteq> hs_getSize rhs then Some (Inr (False, rhs))
      else case hs_items c of Inl e \<Rightarrow> Some (Inl e) | Inr xs \<Rightarrow> hs_equal_loop hf xs rhs)"

definition hs_plus_assign ::
    "('k \<Rightarrow> 32 word) \<Rightarrow> ('k, 'v) hash_core \<Rightarrow> ('k, 'v) hash_core \<Rightarrow> ('k, 'v) hash_core result option" where
  "hs_plus_assign hf c rhs =
     (case hs_items rhs of Inl e \<Rightarrow> Some (Inl e) | Inr xs \<Rightarrow> hs_insert_all hf xs c)"

section \<open>The proxy of \<open>operator[]\<close>\<close>

text \<open>It is used before the table changes in another way; its \<open>pValue\<close> is the value at \<open>nPos\<close>.\<close>

record 'k hash_proxy =
  px_pKey :: 'k
  px_nPos :: nat
  px_hash :: "32 word"
  px_bFilled :: bool

definition hs_index ::
    "('k \<Rightarrow> 32 word) \<Rightarrow> 'k \<Rightarrow> ('k, 'v) hash_core \<Rightarrow> ('k hash_proxy \<times> ('k, 'v) hash_core) result option" where
  "hs_index hf k c =
     Option.bind (hs_probe hf True k c) (\<lambda>r. Some (rbind r (\<lambda>(bFill, nPos, c').
       Inr (\<lparr>px_pKey = k, px_nPos = nPos, px_hash = hf k, px_bFilled = bFill\<rparr>, c'))))"

definition px_getValue :: "'k hash_proxy \<Rightarrow> ('k, 'v) hash_core \<Rightarrow> 'v result" where
  "px_getValue px c =
     (if \<not> px_bFilled px then Inl (HashException ''No data associated with that key.'')
      else hs_slot (hs_aValues c) (px_nPos px))"

definition px_isFilled :: "'k hash_proxy \<Rightarrow> bool" where
  "px_isFilled px = px_bFilled px"

definition px_erase :: "'k hash_proxy \<Rightarrow> ('k, 'v) hash_core \<Rightarrow> ('k, 'v) hash_core result" where
  "px_erase px c = (if px_bFilled px then hs_eraseAt (px_nPos px) c else Inr c)"

definition px_assign :: "'k hash_proxy \<Rightarrow> 'v \<Rightarrow> ('k, 'v) hash_core \<Rightarrow> ('k, 'v) hash_core result" where
  "px_assign px nval c =
     (if px_bFilled px
      then rbind (hs_slot (hs_aValues c) (px_nPos px)) (\<lambda>old.
             Inr (c\<lparr>hs_aValues := (hs_aValues c)[px_nPos px := Some nval]\<rparr>))
      else hs_fill (px_nPos px) (px_pKey px) nval (px_hash px) c)"

section \<open>Iterators\<close>

record hash_iter =
  hi_nPos :: nat
  hi_bFinished :: bool

text \<open>The first slot of a range that is filled and not deleted; the flag says that there was none.\<close>

fun hs_seek :: "('k, 'v) hash_core \<Rightarrow> nat list \<Rightarrow> (nat \<times> bool) result" where
  "hs_seek c [] = Inr (0, True)"
| "hs_seek c (j # js) =
     rbind (hs_isFilled c j) (\<lambda>f. rbind (if f then hs_isDeleted c j else Inr True) (\<lambda>d.
       if d then hs_seek c js else Inr (j, False)))"

definition hs_begin :: "('k, 'v) hash_core \<Rightarrow> hash_iter result" where
  "hs_begin c = rbind (hs_seek c [0..<hs_nCapacity c]) (\<lambda>(p, b). Inr \<lparr>hi_nPos = p, hi_bFinished = b\<rparr>)"

definition hs_end :: hash_iter where
  "hs_end = \<lparr>hi_nPos = 0, hi_bFinished = True\<rparr>"

definition hs_next :: "('k, 'v) hash_core \<Rightarrow> hash_iter \<Rightarrow> hash_iter result" where
  "hs_next c i =
     (if hi_bFinished i then Inr i
      else rbind (hs_seek c [hi_nPos i + 1..<hs_nCapacity c]) (\<lambda>(p, b). Inr \<lparr>hi_nPos = p, hi_bFinished = b\<rparr>))"

definition hs_iter_eq :: "hash_iter \<Rightarrow> hash_iter \<Rightarrow> bool" where
  "hs_iter_eq i oth \<longleftrightarrow>
     (if hi_bFinished i \<noteq> hi_bFinished oth then False
      else if hi_bFinished i then True else hi_nPos oth = hi_nPos i)"

definition hs_erase_iter :: "bool \<Rightarrow> hash_iter \<Rightarrow> ('k, 'v) hash_core \<Rightarrow> ('k, 'v) hash_core result" where
  "hs_erase_iter own i c =
     (if \<not> own then Inl (HashException ''This iterator didn't come from this Hash.'')
      else rbind (hs_isFilled c (hi_nPos i)) (\<lambda>f. rbind (if f then hs_isDeleted c (hi_nPos i) else Inr True) (\<lambda>d.
        if d then Inr c else hs_eraseAt (hi_nPos i) c)))"

text \<open>The loop over a whole table, as in \<open>for( iterator i = h.begin(); i; i++ )\<close>.\<close>

partial_function (option) hs_walk :: "('k, 'v) hash_core \<Rightarrow> hash_iter \<Rightarrow> ('k \<times> 'v) list result option" where
  "hs_walk c i =
     (if hi_bFinished i then Some (Inr [])
      else case hs_getKeyAtPos c (hi_nPos i) of Inl e \<Rightarrow> Some (Inl e)
      | Inr k \<Rightarrow> (case hs_getValueAtPos c (hi_nPos i) of Inl e \<Rightarrow> Some (Inl e)
      | Inr v \<Rightarrow> (case hs_next c i of Inl e \<Rightarrow> Some (Inl e)
      | Inr i' \<Rightarrow> Option.bind (hs_walk c i') (\<lambda>r. Some (rbind r (\<lambda>xs. Inr ((k, v) # xs)))))))"

section \<open>Hash functions\<close>

text \<open>The default hash of an integer key, and the one of a C string, which must end in a zero byte.\<close>

definition calcHashCode_int :: "int \<Rightarrow> 32 word" where
  "calcHashCode_int k = word_of_int k"

fun calcHashCode_cstr_loop :: "byte list \<Rightarrow> 64 word \<Rightarrow> 64 word result" where
  "calcHashCode_cstr_loop [] nPos = Inl Out_Of_Bounds"
| "calcHashCode_cstr_loop (s # ss) nPos =
     (if s = 0 then Inr nPos
      else calcHashCode_cstr_loop ss (scast s + push_bit 6 nPos + push_bit 16 nPos - nPos))"

definition calcHashCode_cstr :: "byte list option \<Rightarrow> 32 word result" where
  "calcHashCode_cstr k =
     (case k of None \<Rightarrow> Inr 0 | Some s \<Rightarrow> rbind (calcHashCode_cstr_loop s 0) (\<lambda>h. Inr (ucast h)))"

text \<open>Comparing two C strings at different addresses.\<close>

fun cmpHashKeys_cstr :: "byte list \<Rightarrow> byte list \<Rightarrow> bool result" where
  "cmpHashKeys_cstr (a # as) (b # bs) =
     (if a = b then (if a = 0 then Inr True else cmpHashKeys_cstr as bs) else Inr False)"
| "cmpHashKeys_cstr as bs = Inl Out_Of_Bounds"

end
