(* ===== verification/Bu_HashMap.thy ===== *)
theory Bu_HashMap
  imports Bu_Hash
begin

text \<open>
  The invariant of the hash table, its meaning as a partial map, and the effect on both of
  filling, overwriting and erasing a slot and of the probing loop.
\<close>

section \<open>Bits\<close>

lemma bitsTo32_in: "j < n \<Longrightarrow> j div 32 < bitsTo32 n"
proof -
  assume "j < n"
  then have "j div 32 \<le> n div 32" by (simp add: div_le_mono)
  moreover have "j div 32 < n div 32" if "n mod 32 = 0"
  proof -
    have "32 * (n div 32) + n mod 32 = n" "32 * (j div 32) + j mod 32 = j" by simp_all
    with \<open>j < n\<close> that show ?thesis by linarith
  qed
  ultimately show ?thesis by (auto simp: bitsTo32_def)
qed

lemma and_bit_word: "(w AND push_bit n 1 \<noteq> 0) = bit (w :: 32 word) n" if "n < 32"
proof -
  have "bit (w AND push_bit n 1) m \<longleftrightarrow> m = n \<and> bit w n" for m
    using that by (auto simp: bit_simps)
  then show ?thesis by (metis bit_0_eq bit_word_eqI bot_apply bot_bool_def)
qed

lemma hs_bit_eq: "j div 32 < length ws \<Longrightarrow> hs_bit ws j = Inr (bit (ws ! (j div 32)) (j mod 32))"
  by (simp add: hs_bit_def and_bit_word del: push_bit_of_1)

lemma hs_setbit_ok:
  assumes "j div 32 < length ws"
  shows "\<exists>ws'. hs_setbit ws j = Inr ws' \<and> length ws' = length ws \<and>
    (\<forall>i. i div 32 < length ws \<longrightarrow> bit (ws' ! (i div 32)) (i mod 32) = (i = j \<or> bit (ws ! (i div 32)) (i mod 32)))"
proof -
  have "bit (w OR push_bit (j mod 32) 1) n = (n = j mod 32 \<or> bit w n)" if "n < 32" for w :: "32 word" and n
    using that by (auto simp: bit_simps)
  moreover have "i = j \<longleftrightarrow> i div 32 = j div 32 \<and> i mod 32 = j mod 32" for i :: nat
    by (metis div_mult_mod_eq)
  ultimately show ?thesis
    using assms by (auto simp: hs_setbit_def nth_list_update simp del: push_bit_of_1)
qed

section \<open>The invariant\<close>

definition fil :: "('k, 'v) hash_core \<Rightarrow> nat \<Rightarrow> bool" where
  "fil c j \<longleftrightarrow> j < hs_nCapacity c \<and> bit (hs_bFilled c ! (j div 32)) (j mod 32)"

definition del :: "('k, 'v) hash_core \<Rightarrow> nat \<Rightarrow> bool" where
  "del c j \<longleftrightarrow> j < hs_nCapacity c \<and> bit (hs_bDeleted c ! (j div 32)) (j mod 32)"

definition live :: "('k, 'v) hash_core \<Rightarrow> nat \<Rightarrow> bool" where
  "live c j \<longleftrightarrow> fil c j \<and> \<not> del c j"

definition hs_sized :: "('k, 'v) hash_core \<Rightarrow> bool" where
  "hs_sized c \<longleftrightarrow> hs_nCapacity c < 2 ^ 32 \<and>
     length (hs_bFilled c) = bitsTo32 (hs_nCapacity c) \<and> length (hs_bDeleted c) = bitsTo32 (hs_nCapacity c) \<and>
     length (hs_aKeys c) = hs_nCapacity c \<and> length (hs_aValues c) = hs_nCapacity c \<and>
     length (hs_aHashCodes c) = hs_nCapacity c"

text \<open>The slots that \<open>probe\<close> looks at, in order.\<close>

fun hs_pos :: "nat \<Rightarrow> 32 word \<Rightarrow> nat \<Rightarrow> nat" where
  "hs_pos cap h 0 = unat h mod cap"
| "hs_pos cap h (Suc n) = (hs_pos cap h n + 2 ^ n) mod 2 ^ 32 mod cap"

definition hs_reach :: "('k, 'v) hash_core \<Rightarrow> 32 word \<Rightarrow> nat \<Rightarrow> bool" where
  "hs_reach c h j \<longleftrightarrow> (\<exists>n<32. hs_pos (hs_nCapacity c) h n = j \<and> (\<forall>m<n. fil c (hs_pos (hs_nCapacity c) h m)))"

definition holds :: "('k, 'v) hash_core \<Rightarrow> nat \<Rightarrow> 'k \<Rightarrow> 'v \<Rightarrow> bool" where
  "holds c j k v \<longleftrightarrow> live c j \<and> hs_aKeys c ! j = Some k \<and> hs_aValues c ! j = Some v"

definition hs_wf :: "('k \<Rightarrow> 32 word) \<Rightarrow> ('k, 'v) hash_core \<Rightarrow> bool" where
  "hs_wf hf c \<longleftrightarrow> hs_sized c \<and>
     (\<forall>j. del c j \<longrightarrow> fil c j) \<and>
     hs_nFilled c = card {j. fil c j} \<and> hs_nDeleted c = card {j. del c j} \<and>
     (\<forall>j. fil c j \<longrightarrow> hs_aHashCodes c ! j \<noteq> None) \<and>
     (\<forall>j. live c j \<longrightarrow> (\<exists>k v. holds c j k v)) \<and>
     (\<forall>j k v. holds c j k v \<longrightarrow> hs_aHashCodes c ! j = Some (hf k) \<and> hs_reach c (hf k) j) \<and>
     (\<forall>i j k v w. holds c i k v \<longrightarrow> holds c j k w \<longrightarrow> i = j)"

text \<open>The items of a table, and the map it stands for.\<close>

definition hs_pairs :: "('k, 'v) hash_core \<Rightarrow> ('k \<times> 'v) list" where
  "hs_pairs c = map (\<lambda>j. (the (hs_aKeys c ! j), the (hs_aValues c ! j))) (filter (live c) [0..<hs_nCapacity c])"

definition hs_abs :: "('k, 'v) hash_core \<Rightarrow> 'k \<rightharpoonup> 'v" where
  "hs_abs c = map_of (hs_pairs c)"

lemma live_in: "live c j \<Longrightarrow> j < hs_nCapacity c"
  by (simp add: live_def fil_def)

lemma holds_in: "holds c j k v \<Longrightarrow> j < hs_nCapacity c"
  by (simp add: holds_def live_in)

lemma hs_isFilled_eq [simp]: "hs_sized c \<Longrightarrow> j < hs_nCapacity c \<Longrightarrow> hs_isFilled c j = Inr (fil c j)"
  by (simp add: hs_isFilled_def hs_bit_eq hs_sized_def bitsTo32_in fil_def)

lemma hs_isDeleted_eq [simp]: "hs_sized c \<Longrightarrow> j < hs_nCapacity c \<Longrightarrow> hs_isDeleted c j = Inr (del c j)"
  by (simp add: hs_isDeleted_def hs_bit_eq hs_sized_def bitsTo32_in del_def)

lemma hs_slot_ok: "i < length xs \<Longrightarrow> xs ! i = Some x \<Longrightarrow> hs_slot xs i = Inr x"
  by (simp add: hs_slot_def access)

lemma hs_pos_in: "0 < cap \<Longrightarrow> hs_pos cap h n < cap"
  by (cases n) simp_all

lemma fil_finite [simp]: "finite {j. fil c j}"
  by (rule finite_subset [of _ "{..<hs_nCapacity c}"]) (auto simp: fil_def)

lemma del_finite [simp]: "finite {j. del c j}"
  by (rule finite_subset [of _ "{..<hs_nCapacity c}"]) (auto simp: del_def)

lemma card_fil_le: "card {j. fil c j} \<le> hs_nCapacity c"
  using card_mono [of "{..<hs_nCapacity c}" "{j. fil c j}"] by (auto simp: fil_def)

lemma hs_wfD:
  assumes "hs_wf hf c"
  shows "hs_sized c" "del c j \<Longrightarrow> fil c j" "hs_nFilled c = card {j. fil c j}" "hs_nDeleted c = card {j. del c j}"
    "fil c j \<Longrightarrow> hs_aHashCodes c ! j \<noteq> None" "live c j \<Longrightarrow> \<exists>k v. holds c j k v"
    "holds c j k v \<Longrightarrow> hs_aHashCodes c ! j = Some (hf k)" "holds c j k v \<Longrightarrow> hs_reach c (hf k) j"
    "holds c i k v \<Longrightarrow> holds c j k w \<Longrightarrow> i = j"
  using assms unfolding hs_wf_def by blast+

lemma hs_wf_counts:
  assumes "hs_wf hf c"
  shows "hs_nDeleted c \<le> hs_nFilled c" "hs_nFilled c \<le> hs_nCapacity c" "hs_nFilled c < 2 ^ 32"
    "hs_nFilled c - hs_nDeleted c = card {j. live c j}"
proof -
  note d = hs_wfD [OF assms]
  have s: "{j. del c j} \<subseteq> {j. fil c j}" using d(2) by blast
  show "hs_nDeleted c \<le> hs_nFilled c" using card_mono [OF fil_finite s] d(3,4) by simp
  show 1: "hs_nFilled c \<le> hs_nCapacity c" using card_fil_le d(3) by simp
  show "hs_nFilled c < 2 ^ 32" using 1 d(1) by (simp add: hs_sized_def)
  have "{j. live c j} = {j. fil c j} - {j. del c j}" by (auto simp: live_def)
  then show "hs_nFilled c - hs_nDeleted c = card {j. live c j}"
    using card_Diff_subset [OF del_finite s] d(3,4) by simp
qed

lemma hs_pairs_set: "hs_wf hf c \<Longrightarrow> set (hs_pairs c) = {(k, v). \<exists>j. holds c j k v}"
proof (intro set_eqI iffI)
  fix x assume w: "hs_wf hf c" and x: "x \<in> set (hs_pairs c)"
  then obtain j where j: "live c j" "x = (the (hs_aKeys c ! j), the (hs_aValues c ! j))"
    by (auto simp: hs_pairs_def)
  with hs_wfD(6) [OF w, of j] show "x \<in> {(k, v). \<exists>j. holds c j k v}" by (auto simp: holds_def)
next
  fix x assume "x \<in> {(k, v). \<exists>j. holds c j k v}"
  then obtain k v j where "x = (k, v)" "holds c j k v" by blast
  then show "x \<in> set (hs_pairs c)" using live_in by (force simp: hs_pairs_def holds_def)
qed

lemma hs_pairs_distinct: "hs_wf hf c \<Longrightarrow> distinct (map fst (hs_pairs c))"
proof -
  assume w: "hs_wf hf c"
  have "inj_on (\<lambda>j. the (hs_aKeys c ! j)) {j. live c j}"
    using hs_wfD(6,9) [OF w] by (intro inj_onI) (fastforce simp: holds_def)
  then have "inj_on (\<lambda>j. the (hs_aKeys c ! j)) (set (filter (live c) [0..<hs_nCapacity c]))"
    by (rule inj_on_subset) auto
  then show ?thesis by (simp add: hs_pairs_def comp_def distinct_map)
qed

lemma hs_abs_Some: "hs_wf hf c \<Longrightarrow> hs_abs c k = Some v \<longleftrightarrow> (\<exists>j. holds c j k v)"
  using map_of_eq_Some_iff [OF hs_pairs_distinct, of hf c] by (simp add: hs_abs_def hs_pairs_set)

lemma hs_abs_None: "hs_wf hf c \<Longrightarrow> hs_abs c k = None \<longleftrightarrow> (\<forall>j v. \<not> holds c j k v)"
  using hs_abs_Some [of hf c k] by (metis not_None_eq)

lemma hs_abs_eqI: "hs_wf hf c \<Longrightarrow> (\<And>k v. (\<exists>j. holds c j k v) \<longleftrightarrow> m k = Some v) \<Longrightarrow> hs_abs c = m"
  using hs_abs_Some [of hf c] by (intro ext option.expand) (metis option.exhaust option.sel)+

lemma hs_pairs_length: "hs_wf hf c \<Longrightarrow> length (hs_pairs c) = hs_nFilled c - hs_nDeleted c"
proof -
  assume w: "hs_wf hf c"
  have "length (hs_pairs c) = card (set (filter (live c) [0..<hs_nCapacity c]))"
    using distinct_card [of "filter (live c) [0..<hs_nCapacity c]"] by (simp add: hs_pairs_def del: set_filter)
  also have "set (filter (live c) [0..<hs_nCapacity c]) = {j. live c j}" using live_in by auto
  finally show ?thesis using hs_wf_counts(4) [OF w] by simp
qed

section \<open>The probing loop\<close>

definition at_key :: "('k, 'v) hash_core \<Rightarrow> nat \<Rightarrow> 'k \<Rightarrow> bool" where
  "at_key c j k \<longleftrightarrow> (\<exists>v. holds c j k v)"

lemma hs_pos_Suc: "(hs_pos cap h n + 2 ^ n) mod 2 ^ 32 mod cap = hs_pos cap h (Suc n)"
  by simp

declare hs_pos.simps(2) [simp del]

lemma hs_scan_step:
  assumes w: "hs_wf hf c" and cap: "0 < hs_nCapacity c" and p: "p = hs_pos (hs_nCapacity c) (hf k) j"
  shows "hs_scan c (hf k) k j p =
    (if fil c p \<and> j < 32
     then (if at_key c p k then Inr (True, p, j)
           else hs_scan c (hf k) k (Suc j) (hs_pos (hs_nCapacity c) (hf k) (Suc j)))
     else Inr (False, p, j))"
proof -
  note d = hs_wfD [OF w]
  have in1: "p < hs_nCapacity c" using hs_pos_in [OF cap] p by simp
  have len: "p < length (hs_aHashCodes c)" "p < length (hs_aKeys c)" using in1 d(1) by (simp_all add: hs_sized_def)
  have f: "hs_isFilled c p = Inr (fil c p)" "hs_isDeleted c p = Inr (del c p)" using d(1) in1 by simp_all
  show ?thesis
  proof (cases "fil c p \<and> j < 32")
    case False
    then show ?thesis by (subst hs_scan.simps) (auto simp: f)
  next
    case True
    then obtain h where h: "hs_aHashCodes c ! p = Some h" using d(5) by blast
    have nxt: "(p + 2 ^ j) mod 2 ^ 32 mod hs_nCapacity c = hs_pos (hs_nCapacity c) (hf k) (Suc j)"
      by (simp only: p hs_pos_Suc)
    have slot: "hs_slot (hs_aHashCodes c) p = Inr h" by (rule hs_slot_ok) (use len h in simp_all)
    show ?thesis
    proof (cases "at_key c p k")
      case True
      then obtain v where v: "holds c p k v" unfolding at_key_def by blast
      then have "hs_slot (hs_aKeys c) p = Inr k" "\<not> del c p" "h = hf k"
        using d(7) [OF v] h len by (auto simp: holds_def live_def intro: hs_slot_ok)
      with True \<open>fil c p \<and> j < 32\<close> show ?thesis by (subst hs_scan.simps) (simp add: f slot)
    next
      case no: False
      show ?thesis
      proof (cases "hf k = h \<and> \<not> del c p")
        case True
        then have "live c p" using \<open>fil c p \<and> j < 32\<close> by (simp add: live_def)
        then obtain k' v' where k': "holds c p k' v'" using d(6) by blast
        with no have "k' \<noteq> k" "hs_slot (hs_aKeys c) p = Inr k'"
          using len by (auto simp: holds_def at_key_def intro: hs_slot_ok)
        with no True \<open>fil c p \<and> j < 32\<close> show ?thesis
          by (subst hs_scan.simps) (simp add: f slot nxt [simplified])
      next
        case False
        with no \<open>fil c p \<and> j < 32\<close> show ?thesis
          by (subst hs_scan.simps) (simp add: f slot nxt [simplified])
      qed
    qed
  qed
qed

lemma hs_scan_ok:
  assumes w: "hs_wf hf c" and cap: "0 < hs_nCapacity c" and "j \<le> 32"
  shows "\<exists>b i. hs_scan c (hf k) k j (hs_pos (hs_nCapacity c) (hf k) j) =
      Inr (b, hs_pos (hs_nCapacity c) (hf k) i, i) \<and> j \<le> i \<and> i \<le> 32 \<and>
    (if b then at_key c (hs_pos (hs_nCapacity c) (hf k) i) k
     else (\<forall>m. j \<le> m \<longrightarrow> m < i \<longrightarrow> fil c (hs_pos (hs_nCapacity c) (hf k) m) \<and>
             \<not> at_key c (hs_pos (hs_nCapacity c) (hf k) m) k) \<and>
          (fil c (hs_pos (hs_nCapacity c) (hf k) i) \<longrightarrow> i = 32))"
  using \<open>j \<le> 32\<close>
proof (induction "32 - j" arbitrary: j)
  case 0
  then have "j = 32" by simp
  then show ?case using hs_scan_step [OF w cap refl, of k j] by auto
next
  case (Suc n)
  let ?p = "hs_pos (hs_nCapacity c) (hf k)"
  show ?case
  proof (cases "fil c (?p j) \<and> (\<not> at_key c (?p j) k)")
    case False
    with Suc.hyps(2) show ?thesis
      unfolding hs_scan_step [OF w cap refl, of k j]
      by (intro exI [of _ "fil c (?p j)"] exI [of _ j]) auto
  next
    case True
    have "n = 32 - Suc j" "Suc j \<le> 32" using Suc.hyps(2) by simp_all
    from Suc.hyps(1) [OF this] obtain b i where i: "hs_scan c (hf k) k (Suc j) (?p (Suc j)) = Inr (b, ?p i, i)"
      "Suc j \<le> i" "i \<le> 32" "if b then at_key c (?p i) k
        else (\<forall>m. Suc j \<le> m \<longrightarrow> m < i \<longrightarrow> fil c (?p m) \<and> \<not> at_key c (?p m) k) \<and> (fil c (?p i) \<longrightarrow> i = 32)"
      by blast
    have "hs_scan c (hf k) k j (?p j) = Inr (b, ?p i, i)"
      unfolding hs_scan_step [OF w cap refl, of k j] using True \<open>Suc j \<le> 32\<close> i(1) by simp
    moreover have "(\<forall>m. j \<le> m \<longrightarrow> m < i \<longrightarrow> fil c (?p m) \<and> \<not> at_key c (?p m) k)" if "\<not> b"
      using i(4) that True by (metis le_antisym not_less_eq_eq)
    ultimately show ?thesis using i(2-4) by (intro exI [of _ b] exI [of _ i]) (auto split: if_splits)
  qed
qed

text \<open>
  From the start: the loop finds the key when it is there; otherwise it ends at the first slot of
  the sequence that is not filled, or after 32 slots.
\<close>

lemma hs_scan_start:
  assumes w: "hs_wf hf c" and cap: "0 < hs_nCapacity c"
  shows "\<exists>i. hs_scan c (hf k) k 0 (unat (hf k) mod hs_nCapacity c) =
      Inr (hs_abs c k \<noteq> None, hs_pos (hs_nCapacity c) (hf k) i, i) \<and> i \<le> 32 \<and>
    (if hs_abs c k \<noteq> None then at_key c (hs_pos (hs_nCapacity c) (hf k) i) k
     else (\<forall>m<i. fil c (hs_pos (hs_nCapacity c) (hf k) m)) \<and> (fil c (hs_pos (hs_nCapacity c) (hf k) i) \<longrightarrow> i = 32))"
proof -
  let ?p = "hs_pos (hs_nCapacity c) (hf k)"
  have p0: "?p 0 = unat (hf k) mod hs_nCapacity c" by simp
  obtain b i where i: "hs_scan c (hf k) k 0 (?p 0) = Inr (b, ?p i, i)" "i \<le> 32"
    "if b then at_key c (?p i) k
     else (\<forall>m. 0 \<le> m \<longrightarrow> m < i \<longrightarrow> fil c (?p m) \<and> \<not> at_key c (?p m) k) \<and> (fil c (?p i) \<longrightarrow> i = 32)"
    using hs_scan_ok [OF w cap, of 0 k] by (metis le0)
  have "b \<longleftrightarrow> hs_abs c k \<noteq> None"
  proof
    assume b
    with i(3) hs_abs_None [OF w, of k] show "hs_abs c k \<noteq> None" unfolding at_key_def by auto
  next
    assume "hs_abs c k \<noteq> None"
    then obtain j v where j: "holds c j k v" by (auto simp: hs_abs_None [OF w])
    then obtain n where n: "n < 32" "?p n = j" "\<forall>m<n. fil c (?p m)"
      using hs_wfD(8) [OF w] unfolding hs_reach_def by blast
    show b
    proof (rule ccontr)
      assume "\<not> b"
      with i(3) have a: "\<forall>m<i. fil c (?p m) \<and> \<not> at_key c (?p m) k" "fil c (?p i) \<longrightarrow> i = 32" by simp_all
      have "\<not> n < i" using a(1) n(2) j unfolding at_key_def by blast
      moreover have "fil c (?p n)" using n(2) j by (simp add: holds_def live_def)
      ultimately have "fil c (?p i)" using n(3) by (metis linorder_neqE_nat)
      with a(2) n(1) \<open>\<not> n < i\<close> show False by simp
    qed
  qed
  with i show ?thesis unfolding p0 by auto
qed

section \<open>Filling, overwriting and erasing a slot\<close>

lemma hs_reach_mono:
  "hs_reach c h j \<Longrightarrow> hs_nCapacity c' = hs_nCapacity c \<Longrightarrow> (\<And>i. fil c i \<Longrightarrow> fil c' i) \<Longrightarrow> hs_reach c' h j"
  unfolding hs_reach_def by metis

lemma hs_wfI:
  assumes "hs_sized c" "\<And>j. del c j \<Longrightarrow> fil c j" "hs_nFilled c = card {j. fil c j}" "hs_nDeleted c = card {j. del c j}"
    "\<And>j. fil c j \<Longrightarrow> hs_aHashCodes c ! j \<noteq> None" "\<And>j. live c j \<Longrightarrow> \<exists>k v. holds c j k v"
    "\<And>j k v. holds c j k v \<Longrightarrow> hs_aHashCodes c ! j = Some (hf k)" "\<And>j k v. holds c j k v \<Longrightarrow> hs_reach c (hf k) j"
    "\<And>i j k v w. holds c i k v \<Longrightarrow> holds c j k w \<Longrightarrow> i = j"
  shows "hs_wf hf c"
  using assms unfolding hs_wf_def by blast

lemma hs_fill_ok:
  assumes w: "hs_wf hf c" and cap: "0 < hs_nCapacity c" and p: "p = hs_pos (hs_nCapacity c) (hf k) n" "n < 32"
    "\<And>m. m < n \<Longrightarrow> fil c (hs_pos (hs_nCapacity c) (hf k) m)" "\<not> fil c p"
    and k: "hs_abs c k = None"
  shows "\<exists>c'. hs_fill p k v (hf k) c = Inr c' \<and> hs_wf hf c' \<and> hs_abs c' = (hs_abs c)(k \<mapsto> v) \<and>
    hs_nCapacity c' = hs_nCapacity c \<and> hs_nFilled c' = Suc (hs_nFilled c) \<and> hs_nDeleted c' = hs_nDeleted c"
proof -
  note d = hs_wfD [OF w]
  have inp: "p < hs_nCapacity c" using hs_pos_in [OF cap] p(1) by simp
  have b: "p div 32 < length (hs_bFilled c)" using inp d(1) by (simp add: hs_sized_def bitsTo32_in)
  obtain bf where bf: "hs_setbit (hs_bFilled c) p = Inr bf" "length bf = length (hs_bFilled c)"
    "\<forall>i. i div 32 < length (hs_bFilled c) \<longrightarrow>
      bit (bf ! (i div 32)) (i mod 32) = (i = p \<or> bit (hs_bFilled c ! (i div 32)) (i mod 32))"
    using hs_setbit_ok [OF b] by blast
  have lt: "{j. fil c j} \<subset> {..<hs_nCapacity c}" using inp p(4) by (auto simp: fil_def)
  then have "hs_nFilled c < hs_nCapacity c" using psubset_card_mono [OF _ lt] d(3) by simp
  then have cnt: "(hs_nFilled c + 1) mod 2 ^ 32 = Suc (hs_nFilled c)" using d(1) by (simp add: hs_sized_def)
  define c' where "c' = c\<lparr>hs_bFilled := bf, hs_aValues := (hs_aValues c)[p := Some v],
    hs_aKeys := (hs_aKeys c)[p := Some k], hs_aHashCodes := (hs_aHashCodes c)[p := Some (hf k)],
    hs_nFilled := Suc (hs_nFilled c)\<rparr>"
  have cf: "hs_nCapacity c' = hs_nCapacity c" "hs_nFilled c' = Suc (hs_nFilled c)" "hs_nDeleted c' = hs_nDeleted c"
    "hs_aHashCodes c' = (hs_aHashCodes c)[p := Some (hf k)]" by (simp_all add: c'_def)
  have len: "length (hs_aValues c) = hs_nCapacity c" "length (hs_aKeys c) = hs_nCapacity c"
    "length (hs_aHashCodes c) = hs_nCapacity c" using d(1) by (simp_all add: hs_sized_def)
  have 1: "hs_fill p k v (hf k) c = Inr c'"
    using cap inp bf(1) cnt len by (simp add: hs_fill_def hs_init_def c'_def)
  have f: "fil c' j \<longleftrightarrow> j = p \<or> fil c j" for j
    using bf(3) inp bitsTo32_in [of j "hs_nCapacity c"] d(1) by (auto simp: fil_def c'_def hs_sized_def)
  have dl: "del c' j \<longleftrightarrow> del c j" for j by (simp add: del_def c'_def)
  have dp: "\<not> del c p" using d(2) p(4) by blast
  have h: "holds c' j a x \<longleftrightarrow> (if j = p then a = k \<and> x = v else holds c j a x)" for j a x
    using inp len dp by (auto simp: holds_def live_def f dl) (simp_all add: c'_def)
  have nh: "\<not> holds c j k x" for j x using k hs_abs_None [OF w] by blast
  have reach: "hs_reach c' (hf a) j" if "hs_reach c (hf a) j" for a j
    using that cf(1) by (rule hs_reach_mono) (simp add: f)
  have reachp: "hs_reach c' (hf k) p"
    unfolding hs_reach_def by (intro exI [of _ n]) (use p(1-3) in \<open>simp add: f cf(1)\<close>)
  have "{j. fil c' j} = insert p {j. fil c j}" by (auto simp: f)
  then have card: "card {j. fil c' j} = Suc (card {j. fil c j})" using p(4) by simp
  have 2: "hs_wf hf c'"
  proof (rule hs_wfI)
    show "hs_sized c'" using d(1) bf(2) by (simp add: hs_sized_def c'_def)
    show "del c' j \<Longrightarrow> fil c' j" for j using d(2) by (simp add: f dl)
    show "hs_nFilled c' = card {j. fil c' j}" using d(3) card cf(2) by simp
    show "hs_nDeleted c' = card {j. del c' j}" using d(4) cf(3) by (simp add: dl)
    show "hs_aHashCodes c' ! j \<noteq> None" if "fil c' j" for j
      using that d(5) [of j] inp len by (cases "j = p") (simp_all add: f cf)
    show "\<exists>a x. holds c' j a x" if "live c' j" for j
      using that d(6) [of j] by (cases "j = p") (auto simp: live_def f dl h)
    show "hs_aHashCodes c' ! j = Some (hf a)" if "holds c' j a x" for j a x
      using that d(7) [of j a x] inp len by (cases "j = p") (simp_all add: h cf)
    show "hs_reach c' (hf a) j" if "holds c' j a x" for j a x
      using that d(8) [of j a x] reach reachp by (auto simp: h split: if_splits)
    show "i = j" if "holds c' i a x" "holds c' j a y" for i j a x y
      using that d(9) [of i a x j y] nh by (auto simp: h split: if_splits)
  qed
  have "hs_abs c' = (hs_abs c)(k \<mapsto> v)"
  proof (rule hs_abs_eqI [OF 2])
    fix a x
    have "\<not> holds c p a x" using p(4) by (simp add: holds_def live_def)
    then have "(\<exists>j. j \<noteq> p \<and> holds c j a x) \<longleftrightarrow> hs_abs c a = Some x" using hs_abs_Some [OF w] by metis
    moreover have "(\<exists>j. holds c' j a x) \<longleftrightarrow> a = k \<and> x = v \<or> (\<exists>j. j \<noteq> p \<and> holds c j a x)" using h by auto
    ultimately show "(\<exists>j. holds c' j a x) \<longleftrightarrow> ((hs_abs c)(k \<mapsto> v)) a = Some x" using k by auto
  qed
  with 1 2 cf show ?thesis by simp
qed

lemma holds_other:
  assumes w: "hs_wf hf c" and h0: "holds c p k u"
  shows "(\<exists>j. j \<noteq> p \<and> holds c j a x) \<longleftrightarrow> ((hs_abs c)(k := None)) a = Some x"
proof (cases "a = k")
  case True
  have "holds c j k y \<Longrightarrow> p = j" for j y using hs_wfD(9) [OF w h0] .
  with True show ?thesis by auto
next
  case False
  then have "\<not> holds c p a x" using h0 by (simp add: holds_def)
  then have "(\<exists>j. j \<noteq> p \<and> holds c j a x) \<longleftrightarrow> (\<exists>j. holds c j a x)" by metis
  with False hs_abs_Some [OF w, of a x] show ?thesis by simp
qed

lemma hs_overwrite_ok:
  assumes w: "hs_wf hf c" and h0: "holds c p k u"
  shows "hs_wf hf (c\<lparr>hs_aValues := (hs_aValues c)[p := Some v]\<rparr>) \<and>
    hs_abs (c\<lparr>hs_aValues := (hs_aValues c)[p := Some v]\<rparr>) = (hs_abs c)(k \<mapsto> v) \<and>
    hs_slot (hs_aValues c) p = Inr u"
proof -
  note d = hs_wfD [OF w]
  define c' where "c' = c\<lparr>hs_aValues := (hs_aValues c)[p := Some v]\<rparr>"
  have len: "p < hs_nCapacity c" "length (hs_aValues c) = hs_nCapacity c"
    using d(1) holds_in [OF h0] by (simp_all add: hs_sized_def)
  have f: "fil c' = fil c" "del c' = del c" "live c' = live c"
    by (intro ext, simp add: c'_def fil_def del_def live_def)+
  have h: "holds c' j a x \<longleftrightarrow> (if j = p then a = k \<and> x = v else holds c j a x)" for j a x
    using h0 len by (auto simp: holds_def f, auto simp: c'_def)
  have rc: "hs_reach c' x j = hs_reach c x j" for x j by (simp add: hs_reach_def f) (simp add: c'_def)
  have cf: "hs_nFilled c' = hs_nFilled c" "hs_nDeleted c' = hs_nDeleted c" "hs_aHashCodes c' = hs_aHashCodes c"
    by (simp_all add: c'_def)
  have 2: "hs_wf hf c'"
  proof (rule hs_wfI)
    show "hs_sized c'" using d(1) by (simp add: hs_sized_def c'_def)
    show "del c' j \<Longrightarrow> fil c' j" for j using d(2) by (simp add: f)
    show "hs_nFilled c' = card {j. fil c' j}" "hs_nDeleted c' = card {j. del c' j}" using d(3,4) by (simp_all add: f cf)
    show "fil c' j \<Longrightarrow> hs_aHashCodes c' ! j \<noteq> None" for j using d(5) by (simp add: f cf)
    show "\<exists>a x. holds c' j a x" if "live c' j" for j
      using that d(6) [of j] by (cases "j = p") (auto simp: f h)
    show "hs_aHashCodes c' ! j = Some (hf a)" "hs_reach c' (hf a) j" if "holds c' j a x" for j a x
      using that d(7,8) [of j a x] d(7,8) [OF h0] by (auto simp: h rc cf split: if_splits)
    show "i = j" if "holds c' i a x" "holds c' j a y" for i j a x y
    proof -
      have u: "holds c q k z \<Longrightarrow> q = p" for q z using d(9) [OF h0] by blast
      from that show ?thesis
        using d(9) u by (cases "i = p"; cases "j = p") (simp_all only: h if_True if_False, blast+)
    qed
  qed
  have "hs_abs c' = (hs_abs c)(k \<mapsto> v)"
  proof (rule hs_abs_eqI [OF 2])
    fix a x
    have "(\<exists>j. holds c' j a x) \<longleftrightarrow> a = k \<and> x = v \<or> (\<exists>j. j \<noteq> p \<and> holds c j a x)" using h by auto
    then show "(\<exists>j. holds c' j a x) \<longleftrightarrow> ((hs_abs c)(k \<mapsto> v)) a = Some x"
      unfolding holds_other [OF w h0, of a x] by (cases "a = k") auto
  qed
  moreover have "hs_slot (hs_aValues c) p = Inr u" using h0 len by (auto simp: holds_def intro: hs_slot_ok)
  ultimately show ?thesis using 2 by (simp add: c'_def)
qed

lemma hs_eraseAt_ok:
  assumes w: "hs_wf hf c" and h0: "holds c p k u"
  shows "\<exists>c'. hs_eraseAt p c = Inr c' \<and> hs_wf hf c' \<and> hs_abs c' = (hs_abs c)(k := None) \<and>
    hs_nCapacity c' = hs_nCapacity c \<and> hs_nFilled c' = hs_nFilled c \<and> hs_nDeleted c' = Suc (hs_nDeleted c)"
proof -
  note d = hs_wfD [OF w]
  have inp: "p < hs_nCapacity c" using holds_in [OF h0] .
  have b: "p div 32 < length (hs_bDeleted c)" using inp d(1) by (simp add: hs_sized_def bitsTo32_in)
  obtain bd where bd: "hs_setbit (hs_bDeleted c) p = Inr bd" "length bd = length (hs_bDeleted c)"
    "\<forall>i. i div 32 < length (hs_bDeleted c) \<longrightarrow>
      bit (bd ! (i div 32)) (i mod 32) = (i = p \<or> bit (hs_bDeleted c ! (i div 32)) (i mod 32))"
    using hs_setbit_ok [OF b] by blast
  have lv: "fil c p" "\<not> del c p" using h0 by (simp_all add: holds_def live_def)
  then have "hs_nDeleted c < hs_nFilled c"
    using psubset_card_mono [OF fil_finite, of "{j. del c j}" c] d(2-4) by auto
  then have cnt: "(hs_nDeleted c + 1) mod 2 ^ 32 = Suc (hs_nDeleted c)" using hs_wf_counts(3) [OF w] by simp
  define c' where "c' = c\<lparr>hs_bDeleted := bd, hs_aValues := (hs_aValues c)[p := None],
    hs_aKeys := (hs_aKeys c)[p := None], hs_nDeleted := Suc (hs_nDeleted c)\<rparr>"
  have cf: "hs_nCapacity c' = hs_nCapacity c" "hs_nFilled c' = hs_nFilled c" "hs_nDeleted c' = Suc (hs_nDeleted c)"
    "hs_aHashCodes c' = hs_aHashCodes c" by (simp_all add: c'_def)
  have len: "length (hs_aValues c) = hs_nCapacity c" "length (hs_aKeys c) = hs_nCapacity c"
    using d(1) by (simp_all add: hs_sized_def)
  have "hs_slot (hs_aValues c) p = Inr u" "hs_slot (hs_aKeys c) p = Inr k"
    using h0 len inp by (auto simp: holds_def intro!: hs_slot_ok)
  then have 1: "hs_eraseAt p c = Inr c'"
    using inp bd(1) cnt by (simp add: hs_eraseAt_def c'_def)
  have f: "fil c' j \<longleftrightarrow> fil c j" for j by (simp add: fil_def c'_def)
  have dl: "del c' j \<longleftrightarrow> j = p \<or> del c j" for j
    using bd(3) inp bitsTo32_in [of j "hs_nCapacity c"] d(1) by (auto simp: del_def c'_def hs_sized_def)
  have h: "holds c' j a x \<longleftrightarrow> j \<noteq> p \<and> holds c j a x" for j a x
    using inp len by (auto simp: holds_def live_def f dl) (simp_all add: c'_def)
  have rc: "hs_reach c' x j = hs_reach c x j" for x j by (simp add: hs_reach_def f) (simp add: c'_def)
  have "{j. del c' j} = insert p {j. del c j}" by (auto simp: dl)
  then have card: "card {j. del c' j} = Suc (card {j. del c j})" using lv(2) by simp
  have 2: "hs_wf hf c'"
  proof (rule hs_wfI)
    show "hs_sized c'" using d(1) bd(2) by (simp add: hs_sized_def c'_def)
    show "del c' j \<Longrightarrow> fil c' j" for j using d(2) lv(1) by (auto simp: f dl)
    show "hs_nFilled c' = card {j. fil c' j}" using d(3) by (simp add: f cf(2))
    show "hs_nDeleted c' = card {j. del c' j}" using d(4) card cf(3) by simp
    show "fil c' j \<Longrightarrow> hs_aHashCodes c' ! j \<noteq> None" for j using d(5) by (simp add: f cf)
    show "\<exists>a x. holds c' j a x" if "live c' j" for j
      using that d(6) [of j] by (auto simp: live_def f dl h)
    show "hs_aHashCodes c' ! j = Some (hf a)" "hs_reach c' (hf a) j" if "holds c' j a x" for j a x
      using that d(7,8) [of j a x] by (auto simp: h rc cf)
    show "i = j" if "holds c' i a x" "holds c' j a y" for i j a x y
      using that d(9) [of i a x j y] by (auto simp: h)
  qed
  have "hs_abs c' = (hs_abs c)(k := None)"
  proof (rule hs_abs_eqI [OF 2])
    fix a x
    show "(\<exists>j. holds c' j a x) \<longleftrightarrow> ((hs_abs c)(k := None)) a = Some x"
      using holds_other [OF w h0, of a x] by (simp add: h)
  qed
  with 1 2 cf show ?thesis by simp
qed

section \<open>Fresh tables and the items of a table\<close>

lemma hs_alloc_ok:
  fixes hf :: "'k \<Rightarrow> 32 word" and n :: nat
  defines "c \<equiv> hs_alloc n :: ('k, 'v) hash_core"
  assumes "n < 2 ^ 32"
  shows "hs_wf hf c" "hs_abs c = Map.empty" "hs_nCapacity c = n" "hs_nFilled c = 0" "hs_nDeleted c = 0"
proof -
  have f: "\<not> fil c j" "\<not> del c j" for j
    by (simp_all add: fil_def del_def c_def hs_alloc_def bitsTo32_in)
  show w: "hs_wf hf c"
    using assms(2) by (intro hs_wfI) (simp_all add: f live_def holds_def, simp_all add: hs_sized_def hs_alloc_def c_def)
  show "hs_abs c = Map.empty" by (rule hs_abs_eqI [OF w]) (simp add: holds_def live_def f)
qed (simp_all add: hs_alloc_def c_def)

lemma hs_new_alloc: "hs_new = hs_alloc 0"
  by (simp add: hs_new_def hs_alloc_def bitsTo32_def)

lemma hs_new_ok: "hs_wf hf hs_new" "hs_abs hs_new = Map.empty"
  using hs_alloc_ok [of 0] by (simp_all add: hs_new_alloc)

lemma hs_init_ok:
  assumes "hs_wf hf c"
  shows "hs_wf hf (hs_init c)" "hs_abs (hs_init c) = hs_abs c" "0 < hs_nCapacity (hs_init c)"
    "hs_nFilled (hs_init c) = hs_nFilled c" "hs_nDeleted (hs_init c) = hs_nDeleted c"
proof -
  have "hs_wf hf (hs_init c) \<and> hs_abs (hs_init c) = hs_abs c \<and> 0 < hs_nCapacity (hs_init c) \<and>
    hs_nFilled (hs_init c) = hs_nFilled c \<and> hs_nDeleted (hs_init c) = hs_nDeleted c"
  proof (cases "hs_nCapacity c = 0")
    case True
    then have "hs_nFilled c = 0" "hs_nDeleted c = 0" "hs_abs c = Map.empty"
      using hs_wf_counts [OF assms] by (simp_all add: hs_abs_def hs_pairs_def)
    with True have "hs_init c = hs_alloc 11" by (simp add: hs_init_def hs_alloc_def)
    with \<open>hs_nFilled c = 0\<close> \<open>hs_nDeleted c = 0\<close> \<open>hs_abs c = Map.empty\<close> show ?thesis
      by (simp add: hs_alloc_ok)
  qed (simp add: assms hs_init_def)
  then show "hs_wf hf (hs_init c)" "hs_abs (hs_init c) = hs_abs c" "0 < hs_nCapacity (hs_init c)"
    "hs_nFilled (hs_init c) = hs_nFilled c" "hs_nDeleted (hs_init c) = hs_nDeleted c" by simp_all
qed

lemma hs_collect_ok:
  assumes w: "hs_wf hf c"
  shows "\<forall>j \<in> set js. j < hs_nCapacity c \<Longrightarrow>
    hs_collect c js = Inr (map (\<lambda>j. (the (hs_aKeys c ! j), the (hs_aValues c ! j))) (filter (live c) js))"
proof (induction js)
  case (Cons j js)
  note d = hs_wfD [OF w]
  have in1: "j < hs_nCapacity c" using Cons.prems by simp
  then have b: "hs_bit (hs_bFilled c) j = Inr (fil c j)" "hs_bit (hs_bDeleted c) j = Inr (del c j)"
    using d(1) by (simp_all add: hs_bit_eq hs_sized_def bitsTo32_in fil_def del_def)
  show ?case
  proof (cases "live c j")
    case True
    then obtain k v where h: "holds c j k v" using d(6) by blast
    then have s: "hs_slot (hs_aKeys c) j = Inr k" "hs_slot (hs_aValues c) j = Inr v"
      using in1 d(1) by (auto simp: holds_def hs_sized_def intro!: hs_slot_ok)
    with Cons True h show ?thesis by (simp add: b live_def holds_def)
  next
    case False
    with Cons show ?thesis by (auto simp: b live_def)
  qed
qed simp

lemma hs_items_ok: "hs_wf hf c \<Longrightarrow> hs_items c = Inr (hs_pairs c)"
  by (simp add: hs_items_def hs_pairs_def hs_collect_ok)

lemma tsize_loop_bound: "tsize_loop c n \<le> max c (2 * n)"
proof (induction c n rule: tsize_loop.induct)
  case (1 c n)
  then show ?case by (cases "c < n") (auto simp: tsize_loop.simps [of c n])
qed

lemma calcNextTSize_bound: "c < 2 ^ 32 \<Longrightarrow> calcNextTSize_fast c f d < 2 ^ 32"
proof -
  assume c: "c < 2 ^ 32"
  have "f * 5 mod 2 ^ 32 div 4 < 2 ^ 30" by (simp add: div_less_iff_less_mult)
  moreover have "tsize_loop 11 x < 2 ^ 32" if "x < 2 ^ 30" for x
    using tsize_loop_bound [of 11 x] that by simp
  ultimately have "tsize_loop 11 (f * 5 mod 2 ^ 32 div 4) < 2 ^ 32" by blast
  with c show ?thesis by (simp add: calcNextTSize_fast_def)
qed

section \<open>Probing, inserting and rehashing\<close>

text \<open>What \<open>probe\<close> promises: the table means the same, and the slot is where the key is or may go.\<close>

definition probe_post ::
    "('k \<Rightarrow> 32 word) \<Rightarrow> bool \<Rightarrow> 'k \<Rightarrow> ('k, 'v) hash_core \<Rightarrow> bool \<times> nat \<times> ('k, 'v) hash_core \<Rightarrow> bool" where
  "probe_post hf rehash k c x \<longleftrightarrow> (case x of (b, p, c') \<Rightarrow>
     hs_wf hf c' \<and> 0 < hs_nCapacity c' \<and> hs_abs c' = hs_abs c \<and> b = (hs_abs c k \<noteq> None) \<and>
     (b \<longrightarrow> at_key c' p k) \<and>
     (\<not> b \<longrightarrow> rehash \<longrightarrow> \<not> fil c' p \<and> (\<exists>n<32. p = hs_pos (hs_nCapacity c') (hf k) n \<and>
        (\<forall>m<n. fil c' (hs_pos (hs_nCapacity c') (hf k) m)))))"

lemma hs_put_ok:
  assumes "probe_post hf True k c x"
  shows "\<exists>c'. hs_put (hf k) k v x = Inr c' \<and> hs_wf hf c' \<and> hs_abs c' = (hs_abs c)(k \<mapsto> v)"
proof -
  obtain b p c1 where x: "x = (b, p, c1)" by (cases x) auto
  note post = assms [unfolded probe_post_def x prod.case]
  show ?thesis
  proof (cases b)
    case True
    then obtain u where "holds c1 p k u" using post unfolding at_key_def by blast
    from hs_overwrite_ok [OF _ this, of hf v] True post show ?thesis by (simp add: x hs_put_def)
  next
    case False
    then obtain n where n: "n < 32" "p = hs_pos (hs_nCapacity c1) (hf k) n"
      "\<forall>m<n. fil c1 (hs_pos (hs_nCapacity c1) (hf k) m)" "\<not> fil c1 p" "hs_abs c1 k = None"
      "hs_wf hf c1" "0 < hs_nCapacity c1" "hs_abs c1 = hs_abs c" using post by auto
    from hs_fill_ok [OF n(6,7,2,1) _ n(4,5), of v] n(3,8) False show ?thesis by (auto simp: x hs_put_def)
  qed
qed

lemma opt_fold_ok:
  assumes "\<And>x c y. x \<in> set xs \<Longrightarrow> hs_wf hf c \<Longrightarrow> f x c = Some y \<Longrightarrow>
    \<exists>c'. y = Inr c' \<and> hs_wf hf c' \<and> hs_abs c' = (hs_abs c)(fst x \<mapsto> snd x)"
  shows "hs_wf hf c \<Longrightarrow> opt_fold f xs c = Some y \<Longrightarrow>
    \<exists>c'. y = Inr c' \<and> hs_wf hf c' \<and> hs_abs c' = hs_abs c ++ map_of (rev xs)"
  using assms
proof (induction xs arbitrary: c)
  case (Cons x xs)
  obtain r where r: "f x c = Some r" using Cons.prems(2) by (cases "f x c") auto
  then obtain c' where c': "r = Inr c'" "hs_wf hf c'" "hs_abs c' = (hs_abs c)(fst x \<mapsto> snd x)"
    using Cons.prems(3) [OF list.set_intros(1) Cons.prems(1) r] by blast
  from Cons.prems(2) r c'(1) have "opt_fold f xs c' = Some y" by simp
  from Cons.IH [OF c'(2) this Cons.prems(3) [OF list.set_intros(2)]] obtain c'' where
    "y = Inr c''" "hs_wf hf c''" "hs_abs c'' = hs_abs c' ++ map_of (rev xs)" by blast
  with c'(3) show ?case by (cases x) (simp add: map_add_upd_left)
qed auto

lemma map_of_rev_distinct: "distinct (map fst xs) \<Longrightarrow> map_of (rev xs) = map_of xs"
  by (rule ext) (metis map_of_eq_None_iff map_of_eq_Some_iff not_None_eq rev_map distinct_rev set_rev)

lemma hs_probe_end:
  assumes w: "hs_wf hf c"
  shows "\<exists>i. hs_scan (hs_init c) (hf k) k 0 (unat (hf k) mod hs_nCapacity (hs_init c)) =
       Inr (hs_abs c k \<noteq> None, hs_pos (hs_nCapacity (hs_init c)) (hf k) i, i) \<and> i \<le> 32 \<and>
     hs_isFilled (hs_init c) (hs_pos (hs_nCapacity (hs_init c)) (hf k) i) =
       Inr (fil (hs_init c) (hs_pos (hs_nCapacity (hs_init c)) (hf k) i)) \<and>
     (hs_abs c k = None \<longrightarrow> (\<forall>m<i. fil (hs_init c) (hs_pos (hs_nCapacity (hs_init c)) (hf k) m)) \<and>
        (fil (hs_init c) (hs_pos (hs_nCapacity (hs_init c)) (hf k) i) \<longrightarrow> i = 32)) \<and>
     (\<forall>rehash. hs_abs c k \<noteq> None \<or> \<not> rehash \<or>
        \<not> (fil (hs_init c) (hs_pos (hs_nCapacity (hs_init c)) (hf k) i) \<or> i = 32) \<longrightarrow>
        probe_post hf rehash k c (hs_abs c k \<noteq> None, hs_pos (hs_nCapacity (hs_init c)) (hf k) i, hs_init c))"
proof -
  note i = hs_init_ok [OF w]
  obtain n where n: "hs_scan (hs_init c) (hf k) k 0 (unat (hf k) mod hs_nCapacity (hs_init c)) =
      Inr (hs_abs c k \<noteq> None, hs_pos (hs_nCapacity (hs_init c)) (hf k) n, n)" "n \<le> 32"
    "if hs_abs c k \<noteq> None then at_key (hs_init c) (hs_pos (hs_nCapacity (hs_init c)) (hf k) n) k
     else (\<forall>m<n. fil (hs_init c) (hs_pos (hs_nCapacity (hs_init c)) (hf k) m)) \<and>
       (fil (hs_init c) (hs_pos (hs_nCapacity (hs_init c)) (hf k) n) \<longrightarrow> n = 32)"
    using hs_scan_start [OF i(1,3), of k] unfolding i(2) by blast
  moreover have "hs_isFilled (hs_init c) (hs_pos (hs_nCapacity (hs_init c)) (hf k) n) =
       Inr (fil (hs_init c) (hs_pos (hs_nCapacity (hs_init c)) (hf k) n))"
    using hs_wfD(1) [OF i(1)] hs_pos_in [OF i(3)] by simp
  moreover have "probe_post hf rehash k c (hs_abs c k \<noteq> None, hs_pos (hs_nCapacity (hs_init c)) (hf k) n, hs_init c)"
    if "hs_abs c k \<noteq> None \<or> \<not> rehash \<or> \<not> (fil (hs_init c) (hs_pos (hs_nCapacity (hs_init c)) (hf k) n) \<or> n = 32)" for rehash
  proof -
    have "\<exists>m<32. hs_pos (hs_nCapacity (hs_init c)) (hf k) n = hs_pos (hs_nCapacity (hs_init c)) (hf k) m \<and>
        (\<forall>l<m. fil (hs_init c) (hs_pos (hs_nCapacity (hs_init c)) (hf k) l))" if "hs_abs c k = None" "n \<noteq> 32"
      using n(2,3) that by (intro exI [of _ n]) simp
    with that n(3) i(1-3) show ?thesis by (auto simp: probe_post_def)
  qed
  ultimately show ?thesis by (intro exI [of _ n]) auto
qed

lemma hs_probe_endE:
  assumes "hs_wf hf c"
  obtains n where
    "hs_scan (hs_init c) (hf k) k 0 (unat (hf k) mod hs_nCapacity (hs_init c)) =
       Inr (hs_abs c k \<noteq> None, hs_pos (hs_nCapacity (hs_init c)) (hf k) n, n)"
    "hs_isFilled (hs_init c) (hs_pos (hs_nCapacity (hs_init c)) (hf k) n) =
       Inr (fil (hs_init c) (hs_pos (hs_nCapacity (hs_init c)) (hf k) n))"
    "hs_abs c k = None \<Longrightarrow> (\<forall>m<n. fil (hs_init c) (hs_pos (hs_nCapacity (hs_init c)) (hf k) m)) \<and>
       (fil (hs_init c) (hs_pos (hs_nCapacity (hs_init c)) (hf k) n) \<longrightarrow> n = 32)"
    "\<And>rehash. hs_abs c k \<noteq> None \<or> \<not> rehash \<or>
       \<not> (fil (hs_init c) (hs_pos (hs_nCapacity (hs_init c)) (hf k) n) \<or> n = 32) \<Longrightarrow>
       probe_post hf rehash k c (hs_abs c k \<noteq> None, hs_pos (hs_nCapacity (hs_init c)) (hf k) n, hs_init c)"
proof -
  let ?p = "hs_pos (hs_nCapacity (hs_init c)) (hf k)"
  obtain n where n: "hs_scan (hs_init c) (hf k) k 0 (unat (hf k) mod hs_nCapacity (hs_init c)) =
       Inr (hs_abs c k \<noteq> None, ?p n, n)"
    "hs_isFilled (hs_init c) (?p n) = Inr (fil (hs_init c) (?p n))"
    "hs_abs c k = None \<longrightarrow> (\<forall>m<n. fil (hs_init c) (?p m)) \<and> (fil (hs_init c) (?p n) \<longrightarrow> n = 32)"
    "\<forall>rehash. hs_abs c k \<noteq> None \<or> \<not> rehash \<or> \<not> (fil (hs_init c) (?p n) \<or> n = 32) \<longrightarrow>
       probe_post hf rehash k c (hs_abs c k \<noteq> None, ?p n, hs_init c)"
    using hs_probe_end [OF assms, of k] by (elim exE conjE) (rule that)
  show ?thesis by (rule that [OF n(1,2)]) (use n(3,4) in blast)+
qed

lemma hs_probe_cases:
  assumes w: "hs_wf hf c"
  shows "(\<exists>b p. hs_probe hf rehash k c = Some (Inr (b, p, hs_init c)) \<and> probe_post hf rehash k c (b, p, hs_init c)) \<or>
    rehash \<and> hs_abs c k = None \<and> (\<forall>m<32. fil (hs_init c) (hs_pos (hs_nCapacity (hs_init c)) (hf k) m)) \<and>
    hs_probe hf rehash k c =
      Option.bind (hs_reHash hf (calcNextTSize_fast (hs_nCapacity (hs_init c)) (hs_nFilled c) (hs_nDeleted c)) (hs_init c))
        (\<lambda>r. case r of Inl e \<Rightarrow> Some (Inl e) | Inr c2 \<Rightarrow> hs_probe hf True k c2)"
proof -
  let ?c = "hs_init c" and ?p = "hs_pos (hs_nCapacity (hs_init c)) (hf k)"
  note i = hs_init_ok [OF w]
  obtain n where n: "hs_scan ?c (hf k) k 0 (unat (hf k) mod hs_nCapacity ?c) = Inr (hs_abs c k \<noteq> None, ?p n, n)"
    "hs_isFilled ?c (?p n) = Inr (fil ?c (?p n))"
    "hs_abs c k = None \<Longrightarrow> (\<forall>m<n. fil ?c (?p m)) \<and> (fil ?c (?p n) \<longrightarrow> n = 32)"
    "hs_abs c k \<noteq> None \<or> \<not> rehash \<or> \<not> (fil ?c (?p n) \<or> n = 32) \<Longrightarrow>
      probe_post hf rehash k c (hs_abs c k \<noteq> None, ?p n, ?c)"
    by (rule hs_probe_endE [OF w, of k]) (rule that, assumption+)
  show ?thesis
  proof (cases "hs_abs c k \<noteq> None \<or> \<not> rehash \<or> \<not> (fil ?c (?p n) \<or> n = 32)")
    case True
    have "hs_probe hf rehash k c = Some (Inr (hs_abs c k \<noteq> None, ?p n, ?c))"
      by (subst hs_probe.simps) (use True n(1,2) in auto)
    with n(4) [OF True] show ?thesis by blast
  next
    case False
    then have "n = 32" using n(3) by auto
    have "hs_probe hf rehash k c =
      Option.bind (hs_reHash hf (calcNextTSize_fast (hs_nCapacity ?c) (hs_nFilled c) (hs_nDeleted c)) ?c)
        (\<lambda>r. case r of Inl e \<Rightarrow> Some (Inl e) | Inr c2 \<Rightarrow> hs_probe hf True k c2)"
      by (subst hs_probe.simps)
        (use False n(1,2) i(4,5) in \<open>simp add: hs_reHash_def hs_insert_all_def hs_insert_def [abs_def] hs_items_ok [OF i(1)]\<close>)
    with False n(3) \<open>n = 32\<close> show ?thesis by simp
  qed
qed

lemma probe_post_abs: "hs_abs c = hs_abs c' \<Longrightarrow> probe_post hf rehash k c x = probe_post hf rehash k c' x"
  by (simp add: probe_post_def)

lemma hs_abs_alloc [simp]: "n < 2 ^ 32 \<Longrightarrow> hs_abs (hs_alloc n) = Map.empty"
  by (rule hs_alloc_ok(2))

lemma hs_probe_sound:
  assumes "hs_probe hf rehash k c = Some y"
  shows "hs_wf hf c \<longrightarrow> (\<exists>x. y = Inr x \<and> probe_post hf rehash k c x)"
proof (rule hs_probe.raw_induct [where P = "\<lambda>hf rehash k c y. hs_wf hf c \<longrightarrow> (\<exists>x. y = Inr x \<and> probe_post hf rehash k c x)",
        OF _ assms], intro impI, goal_cases)
  case (1 f hf rehash k c y)
  note IH = 1(1) and body = 1(2) and w = 1(3)
  let ?c = "hs_init c" and ?p = "hs_pos (hs_nCapacity (hs_init c)) (hf k)"
  note i = hs_init_ok [OF w]
  obtain n where n: "hs_scan ?c (hf k) k 0 (unat (hf k) mod hs_nCapacity ?c) = Inr (hs_abs c k \<noteq> None, ?p n, n)"
    "hs_isFilled ?c (?p n) = Inr (fil ?c (?p n))"
    "hs_abs c k \<noteq> None \<or> \<not> rehash \<or> \<not> (fil ?c (?p n) \<or> n = 32) \<Longrightarrow>
      probe_post hf rehash k c (hs_abs c k \<noteq> None, ?p n, ?c)"
    by (rule hs_probe_endE [OF w, of k]) (rule that, assumption+)
  show ?case
  proof (cases "hs_abs c k \<noteq> None \<or> \<not> rehash \<or> \<not> (fil ?c (?p n) \<or> n = 32)")
    case True
    then have "y = Inr (hs_abs c k \<noteq> None, ?p n, ?c)"
      using body unfolding n(1) by (cases "hs_abs c k = None") (auto simp: n(2))
    with n(3) [OF True] show ?thesis by blast
  next
    case False
    let ?step = "\<lambda>x c'. Option.bind (f hf True (fst x) c') (\<lambda>p. Some (rbind p (hs_put (hf (fst x)) (fst x) (snd x))))"
    let ?a = "hs_alloc (calcNextTSize_fast (hs_nCapacity ?c) (hs_nFilled ?c) (hs_nDeleted ?c)) :: ('a, 'b) hash_core"
    have cap: "calcNextTSize_fast (hs_nCapacity ?c) (hs_nFilled ?c) (hs_nDeleted ?c) < 2 ^ 32"
      using calcNextTSize_bound hs_wfD(1) [OF i(1)] by (simp add: hs_sized_def)
    have eq: "Option.bind (opt_fold ?step (hs_pairs ?c) ?a)
        (\<lambda>r. case r of Inl e \<Rightarrow> Some (Inl e) | Inr c2 \<Rightarrow> f hf True k c2) = Some y"
      using body False unfolding n(1) by (simp add: n(2) hs_items_ok [OF i(1)])
    then obtain r where r: "opt_fold ?step (hs_pairs ?c) ?a = Some r" by (cases "opt_fold ?step (hs_pairs ?c) ?a") auto
    have "\<exists>c'. y = Inr c' \<and> hs_wf hf c' \<and> hs_abs c' = (hs_abs d)(fst x \<mapsto> snd x)"
      if d: "hs_wf hf d" "?step x d = Some y" for x d y
    proof -
      obtain q where q: "f hf True (fst x) d = Some q" "y = rbind q (hs_put (hf (fst x)) (fst x) (snd x))"
        using d(2) by (cases "f hf True (fst x) d") auto
      then obtain z where "q = Inr z" "probe_post hf True (fst x) d z" using IH [OF q(1)] d(1) by blast
      with hs_put_ok [of hf "fst x" d z "snd x"] q(2) show ?thesis by simp
    qed
    from opt_fold_ok [OF this hs_alloc_ok(1) [OF cap] r] obtain c2 where
      c2: "r = Inr c2" "hs_wf hf c2" "hs_abs c2 = hs_abs ?a ++ map_of (rev (hs_pairs ?c))" by blast
    have "hs_abs c2 = hs_abs c"
      using c2(3) map_of_rev_distinct [OF hs_pairs_distinct [OF i(1)]] i(2)
      by (simp add: hs_abs_def [of ?c] hs_abs_alloc [OF cap] del: hs_abs_alloc)
    moreover from eq r c2(1) have "f hf True k c2 = Some y" by simp
    with IH [OF this] c2(2) obtain x where "y = Inr x" "probe_post hf True k c2 x" by blast
    ultimately show ?thesis using False probe_post_abs [of c2 c] by auto
  qed
qed

lemma hs_insert_sound:
  assumes "hs_insert hf k v c = Some y" "hs_wf hf c"
  shows "\<exists>c'. y = Inr c' \<and> hs_wf hf c' \<and> hs_abs c' = (hs_abs c)(k \<mapsto> v)"
proof -
  obtain q where q: "hs_probe hf True k c = Some q" "y = rbind q (hs_put (hf k) k v)"
    using assms(1) by (cases "hs_probe hf True k c") (auto simp: hs_insert_def)
  then obtain x where "q = Inr x" "probe_post hf True k c x" using hs_probe_sound [OF q(1)] assms(2) by blast
  with hs_put_ok [of hf k c x v] q(2) show ?thesis by simp
qed

lemma hs_insert_all_sound:
  assumes "hs_insert_all hf xs c = Some y" "hs_wf hf c"
  shows "\<exists>c'. y = Inr c' \<and> hs_wf hf c' \<and> hs_abs c' = hs_abs c ++ map_of (rev xs)"
  by (rule opt_fold_ok [OF _ assms(2) assms(1) [unfolded hs_insert_all_def]]) (rule hs_insert_sound)

lemma hs_reHash_sound:
  assumes "hs_reHash hf n c = Some y" "hs_wf hf c" "n < 2 ^ 32"
  shows "\<exists>c'. y = Inr c' \<and> hs_wf hf c' \<and> hs_abs c' = hs_abs c"
proof -
  have "hs_insert_all hf (hs_pairs c) (hs_alloc n) = Some y"
    using assms(1) by (simp add: hs_reHash_def hs_items_ok [OF assms(2)])
  from hs_insert_all_sound [OF this hs_alloc_ok(1) [OF assms(3)]] show ?thesis
    using map_of_rev_distinct [OF hs_pairs_distinct [OF assms(2)]] assms(3) by (simp add: hs_abs_def [of c])
qed

end
