(* ===== verification/Bu_HashOps.thy ===== *)
theory Bu_HashOps
  imports Bu_HashMap
begin

text \<open>
  The members of \<open>Bu::Hash\<close> against a partial map: what they return and leave when they return, and
  when they do return.
\<close>

section \<open>Operations that find a free slot\<close>

text \<open>The slots that \<open>probe\<close> looks at for a key are not all filled.\<close>

definition hs_room :: "('k \<Rightarrow> 32 word) \<Rightarrow> 'k \<Rightarrow> ('k, 'v) hash_core \<Rightarrow> bool" where
  "hs_room hf k c \<longleftrightarrow> (\<exists>m<32. \<not> fil (hs_init c) (hs_pos (hs_nCapacity (hs_init c)) (hf k) m))"

lemma hs_probe_returns:
  assumes "hs_wf hf c" "hs_abs c k \<noteq> None \<or> \<not> rehash \<or> hs_room hf k c"
  shows "\<exists>b p. hs_probe hf rehash k c = Some (Inr (b, p, hs_init c)) \<and> probe_post hf rehash k c (b, p, hs_init c)"
  using hs_probe_cases [OF assms(1), of rehash k] assms(2) unfolding hs_room_def by blast

lemma hs_insert_free:
  assumes w: "hs_wf hf c" and k: "hs_abs c k = None" and r: "hs_room hf k c"
  shows "\<exists>c'. hs_insert hf k v c = Some (Inr c') \<and> hs_wf hf c' \<and> hs_abs c' = (hs_abs c)(k \<mapsto> v) \<and>
    hs_nCapacity c' = hs_nCapacity (hs_init c) \<and> hs_nFilled c' = Suc (hs_nFilled c) \<and> hs_nDeleted c' = hs_nDeleted c"
proof -
  obtain b p where p: "hs_probe hf True k c = Some (Inr (b, p, hs_init c))" "probe_post hf True k c (b, p, hs_init c)"
    using hs_probe_returns [OF w] r by blast
  then obtain n where n: "\<not> b" "n < 32" "p = hs_pos (hs_nCapacity (hs_init c)) (hf k) n" "\<not> fil (hs_init c) p"
    "\<forall>m<n. fil (hs_init c) (hs_pos (hs_nCapacity (hs_init c)) (hf k) m)" using k by (auto simp: probe_post_def)
  note i = hs_init_ok [OF w]
  have k': "hs_abs (hs_init c) k = None" using i(2) k by simp
  obtain c' where "hs_fill p k v (hf k) (hs_init c) = Inr c'" "hs_wf hf c'" "hs_abs c' = (hs_abs (hs_init c))(k \<mapsto> v)"
    "hs_nCapacity c' = hs_nCapacity (hs_init c)" "hs_nFilled c' = Suc (hs_nFilled (hs_init c))"
    "hs_nDeleted c' = hs_nDeleted (hs_init c)"
    using hs_fill_ok [OF i(1) i(3) n(3,2) n(5)[rule_format] n(4) k'] by blast
  with p(1) n(1) i show ?thesis by (simp add: hs_insert_def hs_put_def)
qed

lemma hs_insert_present:
  assumes w: "hs_wf hf c" and k: "hs_abs c k \<noteq> None"
  shows "\<exists>c'. hs_insert hf k v c = Some (Inr c') \<and> hs_wf hf c' \<and> hs_abs c' = (hs_abs c)(k \<mapsto> v) \<and>
    hs_nCapacity c' = hs_nCapacity (hs_init c) \<and> hs_nFilled c' = hs_nFilled c \<and> hs_nDeleted c' = hs_nDeleted c"
proof -
  obtain b p where p: "hs_probe hf True k c = Some (Inr (b, p, hs_init c))" "probe_post hf True k c (b, p, hs_init c)"
    using hs_probe_returns [OF w] k by blast
  then obtain u where "b" "holds (hs_init c) p k u" using k by (auto simp: probe_post_def at_key_def)
  with p(1) hs_overwrite_ok [OF hs_init_ok(1) [OF w] this(2), of v] hs_init_ok [OF w] show ?thesis
    by (simp add: hs_insert_def hs_put_def)
qed

section \<open>Erasing and looking up\<close>

lemma hs_erase_from:
  assumes "probe_post hf True k c (b, p, c1)"
  shows "\<exists>c'. (if b then hs_eraseAt p c1 else Inr c1) = Inr c' \<and> hs_wf hf c' \<and> hs_abs c' = (hs_abs c)(k := None) \<and>
    hs_nCapacity c' = hs_nCapacity c1 \<and> hs_nFilled c' = hs_nFilled c1"
proof (cases b)
  case True
  then obtain u where "holds c1 p k u" using assms by (auto simp: probe_post_def at_key_def)
  with hs_eraseAt_ok [OF _ this, of hf] True assms show ?thesis by (auto simp: probe_post_def)
next
  case False
  with assms show ?thesis by (auto simp: probe_post_def fun_upd_idem)
qed

lemma hs_getAt_from:
  assumes "probe_post hf rehash k c (b, p, c1)"
  shows "hs_getAt (b, p, c1) = (case hs_abs c k of
     Some v \<Rightarrow> Inr (v, c1) | None \<Rightarrow> Inl (HashException ''No data associated with that key.''))"
proof (cases b)
  case True
  then obtain u where u: "holds c1 p k u" using assms by (auto simp: probe_post_def at_key_def)
  have w: "hs_wf hf c1" using assms by (simp add: probe_post_def)
  have "hs_slot (hs_aValues c1) p = Inr u" using hs_overwrite_ok [OF w u] by blast
  moreover have "hs_abs c1 k = Some u" using hs_abs_Some [OF w] u by blast
  ultimately show ?thesis using True assms by (simp add: hs_getAt_def probe_post_def)
next
  case False
  with assms show ?thesis by (simp add: hs_getAt_def probe_post_def)
qed

lemma hs_erase_sound:
  assumes "hs_erase hf k c = Some y" "hs_wf hf c"
  shows "\<exists>c'. y = Inr c' \<and> hs_wf hf c' \<and> hs_abs c' = (hs_abs c)(k := None)"
proof -
  obtain q where q: "hs_probe hf True k c = Some q" "y = rbind q (\<lambda>(b, p, c'). if b then hs_eraseAt p c' else Inr c')"
    using assms(1) by (cases "hs_probe hf True k c") (auto simp: hs_erase_def)
  then obtain b p c1 where "q = Inr (b, p, c1)" "probe_post hf True k c (b, p, c1)"
    using hs_probe_sound [OF q(1)] assms(2) by (metis prod_cases3)
  with hs_erase_from [OF this(2)] q(2) show ?thesis by auto
qed

lemma hs_has_sound:
  assumes "hs_has hf k c = Some y" "hs_wf hf c"
  shows "\<exists>c'. y = Inr (hs_abs c k \<noteq> None, c') \<and> hs_wf hf c' \<and> hs_abs c' = hs_abs c"
proof -
  obtain q where q: "hs_probe hf True k c = Some q" "y = rbind q (\<lambda>(b, p, c'). Inr (b, c'))"
    using assms(1) by (cases "hs_probe hf True k c") (auto simp: hs_has_def)
  then obtain b p c1 where "q = Inr (b, p, c1)" "probe_post hf True k c (b, p, c1)"
    using hs_probe_sound [OF q(1)] assms(2) by (metis prod_cases3)
  with q(2) show ?thesis by (auto simp: probe_post_def)
qed

text \<open>\<open>get\<close> always returns: the value, or the exception for a key that is not there.\<close>

lemma hs_get_ok:
  assumes "hs_wf hf c"
  shows "hs_get hf k c = Some (case hs_abs c k of
     Some v \<Rightarrow> Inr (v, hs_init c) | None \<Rightarrow> Inl (HashException ''No data associated with that key.''))"
proof -
  obtain b p where "hs_probe hf False k c = Some (Inr (b, p, hs_init c))" "probe_post hf False k c (b, p, hs_init c)"
    using hs_probe_returns [OF assms, of k False] by blast
  with hs_getAt_from [OF this(2)] show ?thesis by (simp add: hs_get_def)
qed

lemma hs_get_const_present:
  assumes "hs_wf hf c" "hs_abs c k = Some v"
  shows "hs_get_const hf k c = Some (Inr (v, hs_init c))"
proof -
  obtain b p where "hs_probe hf True k c = Some (Inr (b, p, hs_init c))" "probe_post hf True k c (b, p, hs_init c)"
    using hs_probe_returns [OF assms(1), of k True] assms(2) by auto
  with hs_getAt_from [OF this(2)] assms(2) show ?thesis by (simp add: hs_get_const_def)
qed

lemma hs_has_present:
  assumes "hs_wf hf c" "hs_abs c k \<noteq> None"
  shows "hs_has hf k c = Some (Inr (True, hs_init c))"
proof -
  obtain b p where "hs_probe hf True k c = Some (Inr (b, p, hs_init c))" "probe_post hf True k c (b, p, hs_init c)"
    using hs_probe_returns [OF assms(1), of k True] assms(2) by auto
  with assms(2) show ?thesis by (simp add: hs_has_def probe_post_def)
qed

lemma hs_getSize_ok:
  assumes "hs_wf hf c"
  shows "hs_getSize c = card (dom (hs_abs c))" "hs_isEmpty c \<longleftrightarrow> hs_abs c = Map.empty"
proof -
  have f: "hs_nDeleted c \<le> hs_nFilled c" "hs_nFilled c < 2 ^ 32" using hs_wf_counts [OF assms] by simp_all
  then have "sub32 (hs_nFilled c) (hs_nDeleted c) = hs_nFilled c - hs_nDeleted c"
    by (simp add: sub32_def flip: of_nat_diff)
  also have "\<dots> = length (map fst (hs_pairs c))" using hs_pairs_length [OF assms] by simp
  also have "\<dots> = card (set (map fst (hs_pairs c)))" using distinct_card [OF hs_pairs_distinct [OF assms]] by simp
  also have "set (map fst (hs_pairs c)) = dom (hs_abs c)" by (simp add: hs_abs_def dom_map_of_conv_image_fst)
  finally have s: "sub32 (hs_nFilled c) (hs_nDeleted c) = card (dom (hs_abs c))" .
  then show "hs_getSize c = card (dom (hs_abs c))" by (simp add: hs_getSize_def)
  have "finite (dom (hs_abs c))" by (simp add: hs_abs_def finite_dom_map_of)
  with s show "hs_isEmpty c \<longleftrightarrow> hs_abs c = Map.empty" by (simp add: hs_isEmpty_def)
qed

section \<open>A session on a table\<close>

datatype ('k, 'v) hash_op = H_Insert 'k 'v | H_Erase 'k | H_Find 'k | H_Size | H_Keys

datatype ('k, 'v) hash_answer = A_Done | A_Value 'v | A_Missing | A_Size nat | A_Keys "'k list"

definition hs_step ::
    "('k \<Rightarrow> 32 word) \<Rightarrow> ('k, 'v) hash_op \<Rightarrow> ('k, 'v) hash_core \<Rightarrow>
     (('k, 'v) hash_answer \<times> ('k, 'v) hash_core) result option" where
  "hs_step hf op c = (case op of
     H_Insert k v \<Rightarrow> map_option (\<lambda>r. rbind r (\<lambda>c'. Inr (A_Done, c'))) (hs_insert hf k v c)
   | H_Erase k \<Rightarrow> map_option (\<lambda>r. rbind r (\<lambda>c'. Inr (A_Done, c'))) (hs_erase hf k c)
   | H_Find k \<Rightarrow> Option.bind (hs_has hf k c) (\<lambda>r. case r of Inl e \<Rightarrow> Some (Inl e)
       | Inr (b, c') \<Rightarrow> if b then map_option (\<lambda>r. rbind r (\<lambda>(v, c''). Inr (A_Value v, c''))) (hs_get hf k c')
                        else Some (Inr (A_Missing, c')))
   | H_Size \<Rightarrow> Some (Inr (A_Size (hs_getSize c), c))
   | H_Keys \<Rightarrow> Some (rbind (hs_getKeys c) (\<lambda>ks. Inr (A_Keys ks, c))))"

fun hs_run ::
    "('k \<Rightarrow> 32 word) \<Rightarrow> ('k, 'v) hash_op list \<Rightarrow> ('k, 'v) hash_core \<Rightarrow>
     (('k, 'v) hash_answer list \<times> ('k, 'v) hash_core) result option" where
  "hs_run hf [] c = Some (Inr ([], c))"
| "hs_run hf (op # ops) c =
     Option.bind (hs_step hf op c) (\<lambda>r. case r of Inl e \<Rightarrow> Some (Inl e)
     | Inr (a, c') \<Rightarrow> map_option (\<lambda>r. rbind r (\<lambda>(as, c''). Inr (a # as, c''))) (hs_run hf ops c'))"

text \<open>The same on a partial map: the state it leaves, and which answers are right.\<close>

fun map_step :: "('k, 'v) hash_op \<Rightarrow> ('k \<rightharpoonup> 'v) \<Rightarrow> ('k \<rightharpoonup> 'v)" where
  "map_step (H_Insert k v) m = m(k \<mapsto> v)"
| "map_step (H_Erase k) m = m(k := None)"
| "map_step op m = m"

fun map_answers :: "('k, 'v) hash_op \<Rightarrow> ('k \<rightharpoonup> 'v) \<Rightarrow> ('k, 'v) hash_answer \<Rightarrow> bool" where
  "map_answers (H_Find k) m a \<longleftrightarrow> a = (case m k of None \<Rightarrow> A_Missing | Some v \<Rightarrow> A_Value v)"
| "map_answers H_Size m a \<longleftrightarrow> a = A_Size (card (dom m))"
| "map_answers H_Keys m a \<longleftrightarrow> (\<exists>ks. a = A_Keys ks \<and> distinct ks \<and> set ks = dom m)"
| "map_answers op m a \<longleftrightarrow> a = A_Done"

fun map_answers_all :: "('k, 'v) hash_op list \<Rightarrow> ('k \<rightharpoonup> 'v) \<Rightarrow> ('k, 'v) hash_answer list \<Rightarrow> bool" where
  "map_answers_all [] m as \<longleftrightarrow> as = []"
| "map_answers_all (op # ops) m as \<longleftrightarrow>
     (case as of [] \<Rightarrow> False | a # bs \<Rightarrow> map_answers op m a \<and> map_answers_all ops (map_step op m) bs)"

lemma hs_getKeys_ok:
  "hs_wf hf c \<Longrightarrow> \<exists>ks. hs_getKeys c = Inr ks \<and> distinct ks \<and> set ks = dom (hs_abs c)"
  using hs_pairs_distinct [of hf c] by (simp add: hs_getKeys_def hs_items_ok hs_abs_def dom_map_of_conv_image_fst)

lemma hs_step_sound:
  assumes "hs_step hf op c = Some y" "hs_wf hf c"
  shows "\<exists>a c'. y = Inr (a, c') \<and> hs_wf hf c' \<and> hs_abs c' = map_step op (hs_abs c) \<and> map_answers op (hs_abs c) a"
proof (cases op)
  case (H_Insert k v)
  then obtain q where "hs_insert hf k v c = Some q" "y = rbind q (\<lambda>c'. Inr (A_Done, c'))"
    using assms(1) by (auto simp: hs_step_def)
  with hs_insert_sound [OF this(1) assms(2)] H_Insert show ?thesis by auto
next
  case (H_Erase k)
  then obtain q where "hs_erase hf k c = Some q" "y = rbind q (\<lambda>c'. Inr (A_Done, c'))"
    using assms(1) by (auto simp: hs_step_def)
  with hs_erase_sound [OF this(1) assms(2)] H_Erase show ?thesis by auto
next
  case (H_Find k)
  obtain q where q: "hs_has hf k c = Some q"
    using assms(1) H_Find by (cases "hs_has hf k c") (auto simp: hs_step_def)
  from hs_has_sound [OF q assms(2)] obtain c1 where
    c1: "q = Inr (hs_abs c k \<noteq> None, c1)" "hs_wf hf c1" "hs_abs c1 = hs_abs c" by blast
  show ?thesis
  proof (cases "hs_abs c k")
    case None
    with assms(1) q c1 H_Find show ?thesis by (auto simp: hs_step_def)
  next
    case (Some v)
    with assms(1) q c1 H_Find hs_get_ok [OF c1(2), of k] have "y = Inr (A_Value v, hs_init c1)"
      by (auto simp: hs_step_def)
    with Some H_Find c1(3) hs_init_ok [OF c1(2)] show ?thesis by simp
  qed
next
  case H_Size
  with assms hs_getSize_ok [OF assms(2)] show ?thesis by (auto simp: hs_step_def)
next
  case H_Keys
  with assms hs_getKeys_ok [OF assms(2)] show ?thesis by (auto simp: hs_step_def)
qed

lemma hs_run_sound:
  "hs_run hf ops c = Some y \<Longrightarrow> hs_wf hf c \<Longrightarrow>
   \<exists>as c'. y = Inr (as, c') \<and> hs_wf hf c' \<and> hs_abs c' = foldl (\<lambda>m op. map_step op m) (hs_abs c) ops \<and>
     map_answers_all ops (hs_abs c) as"
proof (induction ops arbitrary: c y)
  case Nil
  then show ?case by auto
next
  case (Cons op ops)
  obtain q where q: "hs_step hf op c = Some q" using Cons.prems(1) by (cases "hs_step hf op c") auto
  from hs_step_sound [OF q Cons.prems(2)] obtain a c1 where
    c1: "q = Inr (a, c1)" "hs_wf hf c1" "hs_abs c1 = map_step op (hs_abs c)" "map_answers op (hs_abs c) a" by blast
  with Cons.prems(1) q obtain z where z: "hs_run hf ops c1 = Some z" "y = rbind z (\<lambda>(as, c''). Inr (a # as, c''))"
    by auto
  from Cons.IH [OF z(1) c1(2)] z(2) c1(3,4) show ?case by auto
qed

end
