(* ===== verification/Bu_HashReturns.thy ===== *)
theory Bu_HashReturns
  imports Bu_HashOps
begin

text \<open>
  When the operations of \<open>Bu::Hash\<close> return. A rehash may fail to make room, and then \<open>probe\<close> rehashes
  again: fourteen keys with one hash code do this for ever. A table with few items never rehashes.
\<close>

section \<open>The slots of a probe sequence\<close>

lemma hs_pos_closed:
  "0 < C \<Longrightarrow> C \<le> 2 ^ 31 \<Longrightarrow> m \<le> 32 \<Longrightarrow> hs_pos C h m = (unat h mod C + (2 ^ m - 1)) mod C"
proof (induction m)
  case (Suc m)
  have "hs_pos C h m < 2 ^ 31" using hs_pos_in [OF Suc.prems(1), of h m] Suc.prems(2) by simp
  moreover have "(2 :: nat) ^ m \<le> 2 ^ 31" using Suc.prems(3) by (intro power_increasing) simp_all
  ultimately have "(hs_pos C h m + 2 ^ m) mod 2 ^ 32 = hs_pos C h m + 2 ^ m" by simp
  then have "hs_pos C h (Suc m) = (hs_pos C h m + 2 ^ m) mod C" by (simp add: hs_pos.simps(2))
  also have "\<dots> = (unat h mod C + (2 ^ m - 1) + 2 ^ m) mod C"
    using Suc by (simp add: mod_add_left_eq)
  also have "unat h mod C + (2 ^ m - 1) + 2 ^ m = unat h mod C + (2 ^ Suc m - 1)"
    by (simp add: Suc_le_eq)
  finally show ?case .
qed simp

definition path :: "nat \<Rightarrow> 32 word \<Rightarrow> nat set" where
  "path C h = hs_pos C h ` {..<32}"

lemma path_card:
  assumes "0 < C" "C \<le> 2 ^ 31"
  shows "card (path C h) = length (remdups (map (\<lambda>m. (2 ^ m - 1) mod C) [0..<32]))"
proof -
  let ?X = "set (map (\<lambda>m. (2 ^ m - 1) mod C) [0..<32])"
  have "hs_pos C h m = (unat h mod C + (2 ^ m - 1) mod C) mod C" if "m < 32" for m
    using hs_pos_closed [OF assms, of m h] that by (simp add: mod_add_right_eq)
  then have "path C h = (\<lambda>x. (unat h mod C + x) mod C) ` ?X"
    unfolding path_def by (simp add: image_image atLeast0LessThan cong: image_cong_simp)
  moreover have "inj_on (\<lambda>x. (unat h mod C + x) mod C) ?X"
  proof (rule inj_on_subset)
    show "inj_on (\<lambda>x. (unat h mod C + x) mod C) {..<C}"
      by (rule inj_onI) (rule mod_add_inj, simp_all only: lessThan_iff)
    show "?X \<subseteq> {..<C}" using assms(1) by (auto simp only: set_map lessThan_iff intro!: mod_less_divisor)
  qed
  ultimately have "card (path C h) = card ?X" by (simp add: card_image)
  then show ?thesis unfolding length_remdups_card_conv .
qed

lemma path_cards:
  "card (path 11 h) = 10" "card (path 23 h) = 11" "card (path 26 h) = 13" "card (path 31 h) = 5"
  by (simp_all add: path_card upt_rec)

text \<open>A table in which fewer slots are filled than the sequence of a key has.\<close>

lemma hs_room_card:
  assumes w: "hs_wf hf c" and n: "hs_nFilled c < card (path (hs_nCapacity (hs_init c)) (hf k))"
  shows "hs_room hf k c"
proof (rule ccontr)
  assume "\<not> hs_room hf k c"
  then have "path (hs_nCapacity (hs_init c)) (hf k) \<subseteq> {j. fil (hs_init c) j}"
    by (auto simp: hs_room_def path_def)
  from card_mono [OF fil_finite this] n hs_wfD(3) [OF hs_init_ok(1) [OF w]] hs_init_ok(4) [OF w] show False by simp
qed

section \<open>Small tables\<close>

definition hs_small :: "('k \<Rightarrow> 32 word) \<Rightarrow> ('k, 'v) hash_core \<Rightarrow> nat \<Rightarrow> bool" where
  "hs_small hf c n \<longleftrightarrow> hs_wf hf c \<and> hs_nCapacity (hs_init c) = 11 \<and> hs_nFilled c \<le> n"

definition is_insert :: "('k, 'v) hash_op \<Rightarrow> bool" where
  "is_insert op = (case op of H_Insert k v \<Rightarrow> True | _ \<Rightarrow> False)"

lemma hs_small_room: "hs_small hf c n \<Longrightarrow> n \<le> 9 \<Longrightarrow> hs_room hf k c"
  by (rule hs_room_card) (simp_all add: hs_small_def path_cards)

lemma hs_init_init: "hs_nCapacity (hs_init c) = 11 \<Longrightarrow> hs_nCapacity c' = hs_nCapacity (hs_init c) \<Longrightarrow>
    hs_nCapacity (hs_init c') = 11"
  by (simp add: hs_init_def split: if_splits)

lemma hs_init_idem [simp]: "hs_init (hs_init c) = hs_init c"
  by (simp add: hs_init_def hs_alloc_def)

lemma hs_small_init: "hs_small hf c n \<Longrightarrow> hs_small hf (hs_init c) n"
  using hs_init_ok [of hf c] by (auto simp: hs_small_def hs_init_init)

lemma hs_small_insert:
  assumes "hs_small hf c n" "n \<le> 9"
  shows "\<exists>c'. hs_insert hf k v c = Some (Inr c') \<and> hs_small hf c' (Suc n)"
proof -
  have w: "hs_wf hf c" and cap: "hs_nCapacity (hs_init c) = 11" and f: "hs_nFilled c \<le> n"
    using assms(1) by (simp_all add: hs_small_def)
  show ?thesis
  proof (cases "hs_abs c k")
    case None
    with hs_insert_free [OF w None hs_small_room [OF assms], of v] cap f show ?thesis
      by (auto simp: hs_small_def hs_init_init)
  next
    case (Some u)
    then have "hs_abs c k \<noteq> None" by simp
    with hs_insert_present [OF w this, of v] cap f show ?thesis by (fastforce simp: hs_small_def hs_init_init)
  qed
qed

lemma hs_small_erase:
  assumes "hs_small hf c n" "n \<le> 9"
  shows "\<exists>c'. hs_erase hf k c = Some (Inr c') \<and> hs_small hf c' n"
proof -
  have w: "hs_wf hf c" using assms(1) by (simp add: hs_small_def)
  obtain b p where p: "hs_probe hf True k c = Some (Inr (b, p, hs_init c))" "probe_post hf True k c (b, p, hs_init c)"
    using hs_probe_returns [OF w] hs_small_room [OF assms] by blast
  with hs_erase_from [OF p(2)] hs_small_init [OF assms(1)] show ?thesis
    by (auto simp: hs_erase_def hs_small_def hs_init_init)
qed

lemma hs_small_has:
  assumes "hs_small hf c n" "n \<le> 9"
  shows "\<exists>b. hs_has hf k c = Some (Inr (b, hs_init c))"
proof -
  have w: "hs_wf hf c" using assms(1) by (simp add: hs_small_def)
  obtain b p where p: "hs_probe hf True k c = Some (Inr (b, p, hs_init c))"
    using hs_probe_returns [OF w] hs_small_room [OF assms] by blast
  then show ?thesis by (simp add: hs_has_def)
qed

lemma hs_small_step:
  assumes "hs_small hf c n" "n \<le> 9"
  shows "\<exists>a c'. hs_step hf op c = Some (Inr (a, c')) \<and> hs_small hf c' (if is_insert op then Suc n else n)"
proof -
  have w: "hs_wf hf c" using assms(1) by (simp add: hs_small_def)
  show ?thesis
  proof (cases op)
    case (H_Insert k v)
    with hs_small_insert [OF assms, of k v] show ?thesis by (auto simp: hs_step_def is_insert_def)
  next
    case (H_Erase k)
    with hs_small_erase [OF assms, of k] show ?thesis by (auto simp: hs_step_def is_insert_def)
  next
    case (H_Find k)
    obtain b where b: "hs_has hf k c = Some (Inr (b, hs_init c))" using hs_small_has [OF assms] by blast
    have i: "hs_small hf (hs_init c) n" "hs_small hf (hs_init (hs_init c)) n"
      using hs_small_init assms(1) by blast+
    have wi: "hs_wf hf (hs_init c)" using i(1) by (simp add: hs_small_def)
    have "b \<longleftrightarrow> hs_abs (hs_init c) k \<noteq> None" using hs_has_sound [OF b w] hs_init_ok(2) [OF w] by auto
    with b i hs_get_ok [OF wi, of k] H_Find show ?thesis
      by (cases "hs_abs (hs_init c) k") (auto simp: hs_step_def is_insert_def)
  next
    case H_Size
    with assms show ?thesis by (auto simp: hs_step_def is_insert_def)
  next
    case H_Keys
    with assms hs_getKeys_ok [OF w] show ?thesis by (auto simp: hs_step_def is_insert_def)
  qed
qed

lemma hs_small_run:
  "hs_small hf c n \<Longrightarrow> n + length (filter is_insert ops) \<le> 9 \<Longrightarrow> \<exists>as c'. hs_run hf ops c = Some (Inr (as, c'))"
proof (induction ops arbitrary: c n)
  case (Cons op ops)
  have "n \<le> 9" using Cons.prems(2) by simp
  then obtain a c1 where c1: "hs_step hf op c = Some (Inr (a, c1))" "hs_small hf c1 (if is_insert op then Suc n else n)"
    using hs_small_step [OF Cons.prems(1)] by blast
  from Cons.IH [OF c1(2)] Cons.prems(2) obtain as c' where "hs_run hf ops c1 = Some (Inr (as, c'))"
    by (auto split: if_splits)
  with c1(1) show ?case by simp
qed simp

section \<open>Keys with one hash code\<close>

text \<open>A table of \<open>C\<close> slots with \<open>n\<close> keys, all of hash code \<open>h\<close>, and nothing deleted.\<close>

definition same_hash :: "('k \<Rightarrow> 32 word) \<Rightarrow> 32 word \<Rightarrow> nat \<Rightarrow> nat \<Rightarrow> ('k, 'v) hash_core \<Rightarrow> bool" where
  "same_hash hf h C n c \<longleftrightarrow> hs_wf hf c \<and> hs_nCapacity c = C \<and> hs_nFilled c = n \<and> hs_nDeleted c = 0 \<and>
     (\<forall>k \<in> dom (hs_abs c). hf k = h)"

lemma same_hash_path:
  assumes "same_hash hf h C n c"
  shows "{j. fil c j} \<subseteq> path C h"
proof
  fix j assume "j \<in> {j. fil c j}"
  have w: "hs_wf hf c" and C: "hs_nCapacity c = C" and h: "\<forall>k \<in> dom (hs_abs c). hf k = h" and d: "hs_nDeleted c = 0"
    using assms by (simp_all add: same_hash_def)
  have "\<not> del c j" using d hs_wfD(4) [OF w] del_finite [of c] by auto
  with \<open>j \<in> {j. fil c j}\<close> obtain k v where j: "holds c j k v" using hs_wfD(6) [OF w, of j] by (auto simp: live_def)
  then have "hs_abs c k = Some v" using hs_abs_Some [OF w] by blast
  then have "hf k = h" using h by blast
  with hs_wfD(8) [OF w j] C show "j \<in> path C h" by (auto simp: hs_reach_def path_def)
qed

lemma same_hash_room:
  assumes "same_hash hf h C n c" "hf k = h" "0 < C" "n < card (path C h)"
  shows "hs_room hf k c"
  using assms by (intro hs_room_card) (simp_all add: same_hash_def hs_init_def)

lemma same_hash_full:
  assumes s: "same_hash hf h C n c" and "n = card (path C h)" "m < 32"
  shows "fil c (hs_pos C h m)"
proof -
  have "card {j. fil c j} = card (path C h)" using s hs_wfD(3) [of hf c] assms(2) by (simp add: same_hash_def)
  then have "{j. fil c j} = path C h"
    using card_subset_eq [OF _ same_hash_path [OF s]] by (simp add: path_def)
  with \<open>m < 32\<close> show ?thesis by (auto simp: path_def)
qed

lemma same_hash_insert:
  assumes s: "same_hash hf h C n c" and k: "hf k = h" "hs_abs c k = None" and C: "0 < C" "n < card (path C h)"
  shows "\<exists>c'. hs_insert hf k v c = Some (Inr c') \<and> same_hash hf h C (Suc n) c' \<and> hs_abs c' = (hs_abs c)(k \<mapsto> v)"
proof -
  have w: "hs_wf hf c" and i: "hs_init c = c" using s C(1) by (simp_all add: same_hash_def hs_init_def)
  from hs_insert_free [OF w k(2) same_hash_room [OF s k(1) C], of v] s k(1) show ?thesis
    unfolding i by (auto simp: same_hash_def)
qed

lemma hs_insert_rehash:
  assumes "hs_wf hf c" "0 < hs_nCapacity c" "hs_abs c k = None" "\<And>m. m < 32 \<Longrightarrow> fil c (hs_pos (hs_nCapacity c) (hf k) m)"
  shows "hs_insert hf k v c =
    Option.bind (hs_reHash hf (calcNextTSize_fast (hs_nCapacity c) (hs_nFilled c) (hs_nDeleted c)) c)
      (\<lambda>r. case r of Inl e \<Rightarrow> Some (Inl e) | Inr c2 \<Rightarrow> hs_insert hf k v c2)"
    and "hs_probe hf True k c =
    Option.bind (hs_reHash hf (calcNextTSize_fast (hs_nCapacity c) (hs_nFilled c) (hs_nDeleted c)) c)
      (\<lambda>r. case r of Inl e \<Rightarrow> Some (Inl e) | Inr c2 \<Rightarrow> hs_probe hf True k c2)"
proof -
  let ?r = "hs_reHash hf (calcNextTSize_fast (hs_nCapacity c) (hs_nFilled c) (hs_nDeleted c)) c"
  have i: "hs_init c = c" using assms(2) by (simp add: hs_init_def)
  have "\<not> probe_post hf True k c (b, p, c)" for b p
  proof
    assume a: "probe_post hf True k c (b, p, c)"
    then obtain n where "n < 32" "p = hs_pos (hs_nCapacity c) (hf k) n" "\<not> fil c p"
      using assms(3) by (auto simp: probe_post_def)
    with assms(4) show False by blast
  qed
  with hs_probe_cases [OF assms(1), of True k]
  show *: "hs_probe hf True k c = Option.bind ?r (\<lambda>r. case r of Inl e \<Rightarrow> Some (Inl e) | Inr c2 \<Rightarrow> hs_probe hf True k c2)"
    unfolding i by blast
  show "hs_insert hf k v c = Option.bind ?r (\<lambda>r. case r of Inl e \<Rightarrow> Some (Inl e) | Inr c2 \<Rightarrow> hs_insert hf k v c2)"
    unfolding hs_insert_def * by (cases ?r) (auto split: sum.split)
qed

text \<open>One more key of the same hash code takes a table of \<open>C\<close> slots with \<open>n\<close> keys to one of \<open>D\<close> slots.\<close>

definition grows_to :: "('k \<Rightarrow> 32 word) \<Rightarrow> 32 word \<Rightarrow> 'v itself \<Rightarrow> nat \<Rightarrow> nat \<Rightarrow> nat \<Rightarrow> bool" where
  "grows_to hf h V C n D \<longleftrightarrow> (\<forall>(c :: ('k, 'v) hash_core) k v. same_hash hf h C n c \<longrightarrow> hf k = h \<longrightarrow> hs_abs c k = None \<longrightarrow>
     (\<exists>c'. hs_insert hf k v c = Some (Inr c') \<and> same_hash hf h D (Suc n) c' \<and> hs_abs c' = (hs_abs c)(k \<mapsto> v)))"

lemma grows_stay: "0 < C \<Longrightarrow> n < card (path C h) \<Longrightarrow> grows_to hf h V C n C"
  unfolding grows_to_def by (intro allI impI) (rule same_hash_insert)

lemma grows_all:
  assumes "\<And>i. m \<le> i \<Longrightarrow> i < m + length xs \<Longrightarrow> grows_to hf h TYPE('v) (caps i) i (caps (Suc i))"
  shows "same_hash hf h (caps m) m (c :: ('k, 'v) hash_core) \<Longrightarrow> distinct (map fst xs) \<Longrightarrow>
    fst ` set xs \<inter> dom (hs_abs c) = {} \<Longrightarrow> \<forall>x \<in> set xs. hf (fst x) = h \<Longrightarrow>
    \<exists>c'. hs_insert_all hf xs c = Some (Inr c') \<and> same_hash hf h (caps (m + length xs)) (m + length xs) c' \<and>
      dom (hs_abs c') = dom (hs_abs c) \<union> fst ` set xs"
  using assms
proof (induction xs arbitrary: c m)
  case Nil
  then show ?case by (simp add: hs_insert_all_def)
next
  case (Cons x xs)
  have g: "grows_to hf h TYPE('v) (caps m) m (caps (Suc m))" using Cons.prems(5) by simp
  have "hs_abs c (fst x) = None" using Cons.prems(3) by auto
  moreover have "hf (fst x) = h" using Cons.prems(4) by simp
  ultimately obtain c1 where c1: "hs_insert hf (fst x) (snd x) c = Some (Inr c1)" "same_hash hf h (caps (Suc m)) (Suc m) c1"
    "hs_abs c1 = (hs_abs c)(fst x \<mapsto> snd x)" using g Cons.prems(1) unfolding grows_to_def by blast
  have d: "dom (hs_abs c1) = insert (fst x) (dom (hs_abs c))" by (simp add: c1(3))
  have "\<exists>c'. hs_insert_all hf xs c1 = Some (Inr c') \<and> same_hash hf h (caps (Suc m + length xs)) (Suc m + length xs) c' \<and>
      dom (hs_abs c') = dom (hs_abs c1) \<union> fst ` set xs"
  proof (rule Cons.IH [OF c1(2)])
    show "distinct (map fst xs)" "\<forall>x \<in> set xs. hf (fst x) = h" using Cons.prems(2,4) by simp_all
    show "fst ` set xs \<inter> dom (hs_abs c1) = {}" using Cons.prems(2,3) d by auto
    show "grows_to hf h TYPE('v) (caps i) i (caps (Suc i))" if "Suc m \<le> i" "i < Suc m + length xs" for i
      using Cons.prems(5) [of i] that by simp
  qed
  with c1(1) d show ?case by (auto simp: hs_insert_all_def)
qed

lemma same_hash_alloc: "n < 2 ^ 32 \<Longrightarrow> same_hash hf h n 0 (hs_alloc n)"
  by (simp add: same_hash_def hs_alloc_ok)

text \<open>A rehash of a full path, through tables of \<open>caps 0\<close>, \<open>caps 1\<close>, and so on.\<close>

lemma same_hash_reHash:
  assumes s: "same_hash hf h C n (c :: ('k, 'v) hash_core)"
    and caps: "calcNextTSize_fast C n 0 = caps 0" "\<And>i. i < n \<Longrightarrow> grows_to hf h TYPE('v) (caps i) i (caps (Suc i))"
  shows "\<exists>c2. hs_reHash hf (calcNextTSize_fast C n 0) c = Some (Inr c2) \<and> same_hash hf h (caps n) n c2 \<and>
    hs_abs c2 = hs_abs c"
proof -
  have w: "hs_wf hf c" and f: "hs_nFilled c = n" "hs_nDeleted c = 0" "hs_nCapacity c = C"
    and h: "\<forall>k \<in> dom (hs_abs c). hf k = h" using s by (simp_all add: same_hash_def)
  have lt: "caps 0 < 2 ^ 32" using calcNextTSize_bound [of C n 0] hs_wfD(1) [OF w] f caps(1) by (simp add: hs_sized_def)
  have ln: "length (hs_pairs c) = n" using hs_pairs_length [OF w] f by simp
  have "\<forall>x \<in> set (hs_pairs c). hf (fst x) = h"
    using h by (auto simp: hs_abs_def dom_map_of_conv_image_fst)
  then obtain c2 where c2: "hs_insert_all hf (hs_pairs c) (hs_alloc (caps 0)) = Some (Inr c2)" "same_hash hf h (caps n) n c2"
    using grows_all [of 0 "hs_pairs c" hf h caps "hs_alloc (caps 0)"] same_hash_alloc [OF lt] caps(2)
      hs_pairs_distinct [OF w] ln lt by auto
  then have r: "hs_reHash hf (calcNextTSize_fast C n 0) c = Some (Inr c2)"
    by (simp add: hs_reHash_def hs_items_ok [OF w] caps(1))
  with hs_reHash_sound [OF r w] lt caps(1) c2(2) show ?thesis by auto
qed

lemma grows_rehash:
  assumes C: "0 < C" "n = card (path C h)"
    and caps: "calcNextTSize_fast C n 0 = caps 0" "\<And>i. i < n \<Longrightarrow> grows_to hf h TYPE('v) (caps i) i (caps (Suc i))"
    and D: "0 < caps n" "n < card (path (caps n) h)"
  shows "grows_to hf h TYPE('v) C n (caps n)"
  unfolding grows_to_def
proof (intro allI impI)
  fix c :: "('a, 'v) hash_core" and k v
  assume s: "same_hash hf h C n c" and k: "hf k = h" "hs_abs c k = None"
  have w: "hs_wf hf c" and f: "hs_nFilled c = n" "hs_nDeleted c = 0" "hs_nCapacity c = C"
    using s by (simp_all add: same_hash_def)
  have "fil c (hs_pos (hs_nCapacity c) (hf k) m)" if "m < 32" for m
    using same_hash_full [OF s C(2) that] f k(1) by simp
  note re = hs_insert_rehash(1) [OF w _ k(2) this, unfolded f, OF C(1)]
  obtain c2 where c2: "hs_reHash hf (calcNextTSize_fast C n 0) c = Some (Inr c2)" "same_hash hf h (caps n) n c2"
    "hs_abs c2 = hs_abs c" using same_hash_reHash [OF s caps] by blast
  have "hs_abs c2 k = None" using k(2) c2(3) by simp
  from same_hash_insert [OF c2(2) k(1) this D, of v] c2(1,3)
  show "\<exists>c'. hs_insert hf k v c = Some (Inr c') \<and> same_hash hf h (caps n) (Suc n) c' \<and> hs_abs c' = (hs_abs c)(k \<mapsto> v)"
    by (simp add: re)
qed

section \<open>The loop\<close>

text \<open>
  With the default size functor a table of one hash code goes from 11 slots to 23, to 26, to 31
  slots, and from there back to 11, because ever fewer slots of the larger tables are on the path.
\<close>

lemma next_sizes:
  "calcNextTSize_fast 11 10 0 = 23" "calcNextTSize_fast 23 11 0 = 26" "calcNextTSize_fast 26 13 0 = 31"
  "calcNextTSize_fast 31 5 0 = 11"
  by (simp_all add: calcNextTSize_fast_def sub32_def tsize_loop.simps)

lemma grows_11: "i < 10 \<Longrightarrow> grows_to hf h V 11 i 11"
  and grows_23: "i < 11 \<Longrightarrow> grows_to hf h V 23 i 23"
  and grows_26: "i < 13 \<Longrightarrow> grows_to hf h V 26 i 26"
  and grows_31: "i < 5 \<Longrightarrow> grows_to hf h V 31 i 31"
  by (simp_all add: grows_stay path_cards)

lemma grows_11_23: "grows_to hf h TYPE('v) 11 10 23"
  by (rule grows_rehash [where caps = "\<lambda>_. 23"]) (simp_all add: path_cards next_sizes grows_23)

lemma grows_23_26: "grows_to hf h TYPE('v) 23 11 26"
  by (rule grows_rehash [where caps = "\<lambda>_. 26"]) (simp_all add: path_cards next_sizes grows_26)

lemma grows_31_11: "grows_to hf h TYPE('v) 31 5 11"
  by (rule grows_rehash [where caps = "\<lambda>_. 11"]) (simp_all add: path_cards next_sizes grows_11)

definition caps_from :: "nat \<Rightarrow> nat \<Rightarrow> nat" where
  "caps_from C i = (if C = 31 \<and> i \<le> 5 then 31 else if i \<le> 10 then 11 else if i = 11 then 23 else 26)"

lemma grows_caps_from: "i < 13 \<Longrightarrow> grows_to hf h TYPE('v) (caps_from C i) i (caps_from C (Suc i))"
proof -
  assume "i < 13"
  then consider "C = 31 \<and> i < 5" | "C = 31 \<and> i = 5" | "C \<noteq> 31 \<and> i < 10" | "5 < i \<and> i < 10" | "i = 10" | "i = 11" | "i = 12"
    by linarith
  then show ?thesis
    by cases (simp_all add: caps_from_def grows_11 grows_26 grows_31 grows_11_23 grows_23_26 grows_31_11)
qed

lemma opt_fold_mono:
  "(\<And>x s y. f x s = Some y \<Longrightarrow> g x s = Some y) \<Longrightarrow> opt_fold f xs s = Some y \<Longrightarrow> opt_fold g xs s = Some y"
proof (induction xs arbitrary: s)
  case (Cons x xs)
  obtain r where r: "f x s = Some r" using Cons.prems(2) by (cases "f x s") auto
  then have "g x s = Some r" by (rule Cons.prems(1))
  with Cons r show ?case by (cases r) auto
qed simp

text \<open>A full table of 26 slots is rehashed into another one.\<close>

lemma full_26_again:
  assumes "same_hash hf h 26 13 (c :: ('k, 'v) hash_core)" "hf k = h" "hs_abs c k = None"
  shows "\<exists>c2. hs_reHash hf 31 c = Some (Inr c2) \<and> same_hash hf h 26 13 c2 \<and> hs_abs c2 k = None"
    and "m < 32 \<Longrightarrow> fil c (hs_pos (hs_nCapacity c) (hf k) m)"
proof -
  show "\<exists>c2. hs_reHash hf 31 c = Some (Inr c2) \<and> same_hash hf h 26 13 c2 \<and> hs_abs c2 k = None"
  proof -
    have "calcNextTSize_fast 26 13 0 = caps_from 31 0" "caps_from 31 13 = 26"
      by (simp_all add: next_sizes caps_from_def)
    with same_hash_reHash [OF assms(1) this(1) grows_caps_from] assms(3) show ?thesis by (auto simp: next_sizes)
  qed
  show "m < 32 \<Longrightarrow> fil c (hs_pos (hs_nCapacity c) (hf k) m)"
    using same_hash_full [OF assms(1), of m] assms(1,2) by (simp add: path_cards same_hash_def)
qed

lemma full_26_never:
  assumes "hs_probe hf rehash k c = Some y"
  shows "hs_probe hf rehash k c = Some y \<and> \<not> (rehash \<and> same_hash hf h 26 13 c \<and> hf k = h \<and> hs_abs c k = None)"
proof (rule hs_probe.raw_induct [where P = "\<lambda>hf rehash k c y. hs_probe hf rehash k c = Some y \<and>
          \<not> (rehash \<and> same_hash hf h 26 13 c \<and> hf k = h \<and> hs_abs c k = None)", OF _ assms], goal_cases)
  case (1 f hf rehash k c y)
  note IH = 1(1) and body = 1(2)
  let ?step = "\<lambda>f x c'. Option.bind (f hf True (fst x) c') (\<lambda>p. Some (rbind p (hs_put (hf (fst x)) (fst x) (snd x))))"
  have step: "?step hs_probe x s = Some z" if "?step f x s = Some z" for x s z
    using that IH by (auto simp: Option.bind_eq_Some_conv)
  have fold: "opt_fold (?step hs_probe) xs s = Some z" if "opt_fold (?step f) xs s = Some z" for xs s z
    by (rule opt_fold_mono [OF _ that]) (rule step)
  have p: "hs_probe hf rehash k c = Some y"
  proof (cases "hs_scan (hs_init c) (hf k) k 0 (unat (hf k) mod hs_nCapacity (hs_init c))")
    case (Inr s)
    show ?thesis
    proof (cases "fst s \<or> (\<exists>e. hs_isFilled (hs_init c) (fst (snd s)) = Inl e) \<or> (\<exists>e. hs_items (hs_init c) = Inl e)")
      case True
      then show ?thesis using body Inr by (subst hs_probe.simps) (auto split: sum.splits if_splits)
    next
      case False
      then obtain b xs where b: "hs_isFilled (hs_init c) (fst (snd s)) = Inr b" "hs_items (hs_init c) = Inr xs"
        by (meson sum.exhaust)
      show ?thesis
      proof (cases "(b \<or> snd (snd s) = 32) \<and> rehash")
        case True
        let ?a = "hs_alloc (calcNextTSize_fast (hs_nCapacity (hs_init c)) (hs_nFilled (hs_init c)) (hs_nDeleted (hs_init c)))"
        obtain r where r: "opt_fold (?step f) xs ?a = Some r"
          "(case r of Inl e \<Rightarrow> Some (Inl e) | Inr c2 \<Rightarrow> f hf True k c2) = Some y"
          using body Inr False b True by (auto simp: Option.bind_eq_Some_conv)
        have "(case r of Inl e \<Rightarrow> Some (Inl e) | Inr c2 \<Rightarrow> hs_probe hf True k c2) = Some y"
          using r(2) IH by (cases r) auto
        with fold [OF r(1)] Inr False b True show ?thesis by (subst hs_probe.simps) simp
      next
        case False
        then show ?thesis using body Inr b \<open>\<not> (fst s \<or> _ \<or> _)\<close> by (subst hs_probe.simps) auto
      qed
    qed
  qed (use body in \<open>subst hs_probe.simps, simp\<close>)
  moreover have False if s: "rehash" "same_hash hf h 26 13 c" "hf k = h" "hs_abs c k = None"
  proof -
    have w: "hs_wf hf c" and f: "hs_nFilled c = 13" "hs_nDeleted c = 0" "hs_nCapacity c = 26"
      using s(2) by (simp_all add: same_hash_def)
    then have i: "hs_init c = c" by (simp add: hs_init_def)
    obtain c2 where c2: "hs_reHash hf 31 c = Some (Inr c2)" "same_hash hf h 26 13 c2" "hs_abs c2 k = None"
      using full_26_again(1) [OF s(2-4)] by blast
    obtain n where "hs_scan c (hf k) k 0 (unat (hf k) mod hs_nCapacity c) =
        Inr (False, hs_pos (hs_nCapacity c) (hf k) n, n)"
      "hs_isFilled c (hs_pos (hs_nCapacity c) (hf k) n) = Inr (fil c (hs_pos (hs_nCapacity c) (hf k) n))" "n \<le> 32"
      using hs_probe_end [OF w, of k] s(4) unfolding i by auto
    moreover from \<open>n \<le> 32\<close> have "fil c (hs_pos (hs_nCapacity c) (hf k) n) \<or> n = 32"
      using full_26_again(2) [OF s(2-4), of n] by (cases "n = 32") auto
    ultimately obtain p n where n: "hs_scan c (hf k) k 0 (unat (hf k) mod hs_nCapacity c) = Inr (False, p, n)"
      "hs_isFilled c p = Inr (fil c p)" "fil c p \<or> n = 32" by blast
    have "Option.bind (opt_fold (?step f) (hs_pairs c) (hs_alloc 31))
        (\<lambda>r. case r of Inl e \<Rightarrow> Some (Inl e) | Inr c2 \<Rightarrow> f hf True k c2) = Some y"
      using body n(3) s(1) unfolding i n(1) by (simp add: n(2) hs_items_ok [OF w] f next_sizes)
    then obtain r where r: "opt_fold (?step f) (hs_pairs c) (hs_alloc 31) = Some r"
      "(case r of Inl e \<Rightarrow> Some (Inl e) | Inr c2 \<Rightarrow> f hf True k c2) = Some y"
      by (auto simp: Option.bind_eq_Some_conv)
    have "opt_fold (?step hs_probe) (hs_pairs c) (hs_alloc 31) = Some (Inr c2)"
      using c2(1) by (simp add: hs_reHash_def hs_items_ok [OF w] hs_insert_all_def hs_insert_def [abs_def])
    with fold [OF r(1)] have "r = Inr c2" by simp
    with r(2) have "f hf True k c2 = Some y" by simp
    from IH [OF this] c2(2,3) s(3) show False by blast
  qed
  ultimately show ?case by blast
qed

end
