(* ===== verification/Bu_HashTable.thy ===== *)
theory Bu_HashTable
  imports Bu_HashReturns
begin

text \<open>
  The properties of \<open>Bu::Hash\<close>: sessions of operations, the proxy of \<open>operator[]\<close>, iteration,
  comparison, and the keys with one hash code that make an insertion run for ever.
\<close>

section \<open>Sessions\<close>

definition op_key :: "('k, 'v) hash_op \<Rightarrow> 'k option" where
  "op_key op = (case op of H_Insert k v \<Rightarrow> Some k | H_Erase k \<Rightarrow> Some k | H_Find k \<Rightarrow> Some k | _ \<Rightarrow> None)"

text \<open>All 32 slots that \<open>probe\<close> looks at for a key are filled.\<close>

definition hs_full :: "('k \<Rightarrow> 32 word) \<Rightarrow> 'k \<Rightarrow> ('k, 'v) hash_core \<Rightarrow> bool" where
  "hs_full hf k c = list_all (\<lambda>m. fil (hs_init c) (hs_pos (hs_nCapacity (hs_init c)) (hf k) m)) [0..<32]"

lemma hs_full_room: "hs_full hf k c \<longleftrightarrow> \<not> hs_room hf k c"
  by (auto simp: hs_full_def hs_room_def list_all_iff)

lemma hs_probe_None: "hs_probe hf rehash k c = None \<Longrightarrow> hs_wf hf c \<Longrightarrow> hs_abs c k = None \<and> hs_full hf k c"
  using hs_probe_returns [of hf c k rehash] by (force simp: hs_full_room)

lemma hs_step_None:
  assumes "hs_step hf op c = None" "hs_wf hf c"
  shows "\<exists>k. op_key op = Some k \<and> hs_abs c k = None \<and> hs_full hf k c"
proof -
  have "\<exists>k. op_key op = Some k \<and> hs_probe hf True k c = None"
  proof (cases op)
    case (H_Insert k v)
    with assms show ?thesis by (auto simp: hs_step_def hs_insert_def op_key_def Option.bind_eq_None_conv)
  next
    case (H_Erase k)
    with assms show ?thesis by (auto simp: hs_step_def hs_erase_def op_key_def Option.bind_eq_None_conv)
  next
    case (H_Find k)
    show ?thesis
    proof (cases "hs_has hf k c")
      case None
      with H_Find show ?thesis by (auto simp: hs_has_def op_key_def Option.bind_eq_None_conv)
    next
      case (Some r)
      obtain c1 where "r = Inr (hs_abs c k \<noteq> None, c1)" "hs_wf hf c1"
        using hs_has_sound [OF Some assms(2)] by (elim exE conjE) (rule that)
      with Some assms(1) H_Find hs_get_ok [of hf c1 k] have False by (cases "hs_abs c k") (auto simp: hs_step_def)
      then show ?thesis ..
    qed
  qed (use assms in \<open>simp_all add: hs_step_def\<close>)
  then obtain k where k: "op_key op = Some k" "hs_probe hf True k c = None" by (elim exE conjE) (rule that)
  from hs_probe_None [OF k(2) assms(2)] k(1) show ?thesis by (intro exI [of _ k]) simp
qed

lemma hs_run_None:
  "hs_run hf ops c = None \<Longrightarrow> hs_wf hf c \<Longrightarrow>
   \<exists>done op rest as c' k. ops = done @ op # rest \<and> hs_run hf done c = Some (Inr (as, c')) \<and> hs_step hf op c' = None \<and>
     op_key op = Some k \<and> hs_abs c' k = None \<and> hs_full hf k c'"
proof (induction ops arbitrary: c)
  case (Cons op ops)
  show ?case
  proof (cases "hs_step hf op c")
    case None
    with hs_step_None [OF None Cons.prems(2)] show ?thesis by (intro exI [of _ "[]"]) simp
  next
    case (Some r)
    from hs_step_sound [OF Some Cons.prems(2)] obtain a c1 where c1: "r = Inr (a, c1)" "hs_wf hf c1" by blast
    with Cons.prems(1) Some have "hs_run hf ops c1 = None" by simp
    from Cons.IH [OF this c1(2)] obtain dn op' rest as c' k where
      i: "ops = dn @ op' # rest" "hs_run hf dn c1 = Some (Inr (as, c'))" "hs_step hf op' c' = None" "op_key op' = Some k"
        "hs_abs c' k = None" "hs_full hf k c'" by blast
    have "hs_run hf (op # dn) c = Some (Inr (a # as, c'))" using Some c1(1) i(2) by simp
    with i show ?thesis by (intro exI [of _ "op # dn"]) auto
  qed
qed simp

text \<open>
  C1. A session of insertions, erasures, look-ups and questions on an empty table either returns, and
  then, through all collisions, deletions and rehashes, every answer is that of a partial map, the
  table means the map the session leaves, and its invariant holds; or it does not return, and then it
  stops at an operation that does not return, after answers that were all right, on a key that is not
  there and whose 32 slots are all filled.
\<close>

theorem hash_session:
  "case hs_run hf ops hs_new of
     Some r \<Rightarrow> \<exists>as c. r = Inr (as, c) \<and> hs_wf hf c \<and> hs_abs c = foldl (\<lambda>m op. map_step op m) Map.empty ops \<and>
       map_answers_all ops Map.empty as
   | None \<Rightarrow> \<exists>done op rest as c k. ops = done @ op # rest \<and> hs_run hf done hs_new = Some (Inr (as, c)) \<and>
       hs_abs c = foldl (\<lambda>m op. map_step op m) Map.empty done \<and> map_answers_all done Map.empty as \<and>
       hs_step hf op c = None \<and> op_key op = Some k \<and> hs_abs c k = None \<and> hs_full hf k c"
proof (cases "hs_run hf ops hs_new")
  case None
  from hs_run_None [OF this hs_new_ok(1)] obtain dn op rest as c k where
    i: "ops = dn @ op # rest" "hs_run hf dn hs_new = Some (Inr (as, c))" "hs_step hf op c = None" "op_key op = Some k"
      "hs_abs c k = None" "hs_full hf k c" by blast
  have a: "hs_abs c = foldl (\<lambda>m op. map_step op m) Map.empty dn \<and> map_answers_all dn Map.empty as"
    using hs_run_sound [OF i(2) hs_new_ok(1)] by (auto simp: hs_new_ok(2))
  have "\<exists>done op rest as c k. ops = done @ op # rest \<and> hs_run hf done hs_new = Some (Inr (as, c)) \<and>
       hs_abs c = foldl (\<lambda>m op. map_step op m) Map.empty done \<and> map_answers_all done Map.empty as \<and>
       hs_step hf op c = None \<and> op_key op = Some k \<and> hs_abs c k = None \<and> hs_full hf k c"
    using a i by blast
  then show ?thesis by (simp only: None option.case)
next
  case (Some r)
  from hs_run_sound [OF Some hs_new_ok(1)] Some show ?thesis by (auto simp: hs_new_ok(2))
qed

text \<open>
  C24. A session with at most nine insertions returns, whatever the hash function: it never needs a
  rehash, because of any eleven slots the sequence of a key reaches ten.
\<close>

theorem hash_small_returns:
  fixes ops :: "('k, 'v) hash_op list"
  assumes "length (filter is_insert ops) \<le> 9"
  shows "\<exists>as c. hs_run hf ops hs_new = Some (Inr (as, c)) \<and> hs_abs c = foldl (\<lambda>m op. map_step op m) Map.empty ops \<and>
    map_answers_all ops Map.empty as"
proof -
  have "hs_small hf (hs_new :: ('k, 'v) hash_core) 0"
    using hs_new_ok(1) by (simp add: hs_small_def) (simp add: hs_new_def hs_init_def hs_alloc_def)
  from hs_small_run [OF this, of ops] assms obtain as c where r: "hs_run hf ops hs_new = Some (Inr (as, c))" by auto
  from hs_run_sound [OF r hs_new_ok(1)] r show ?thesis by (simp add: hs_new_ok(2))
qed

theorem hash_small_returns_witness:
  "\<exists>c. hs_run calcHashCode_int [H_Insert 1 ''a'', H_Insert 12 ''b'', H_Erase 1, H_Find 12, H_Find 1, H_Size] hs_new =
     Some (Inr ([A_Done, A_Done, A_Done, A_Value ''b'', A_Missing, A_Size 1], c))"
proof -
  let ?ops = "[H_Insert 1 ''a'', H_Insert 12 ''b'', H_Erase 1, H_Find 12, H_Find 1, H_Size] :: (int, string) hash_op list"
  obtain as c where r: "hs_run calcHashCode_int ?ops hs_new = Some (Inr (as, c))" "map_answers_all ?ops Map.empty as"
    using hash_small_returns [of ?ops calcHashCode_int] by (auto simp: is_insert_def)
  have "dom (Map.empty(1 \<mapsto> ''a'', 12 \<mapsto> ''b'', 1 := None)) = {12 :: int}" by auto
  with r(2) have "as = [A_Done, A_Done, A_Done, A_Value ''b'', A_Missing, A_Size 1]"
    by (auto split: list.splits)
  with r(1) show ?thesis by blast
qed

section \<open>Keys with one hash code\<close>

lemma hs_probe_init: "hs_probe hf rehash k (hs_init c) = hs_probe hf rehash k c"
  by (rule trans [OF hs_probe.simps [of hf rehash k "hs_init c", unfolded hs_init_idem]
        hs_probe.simps [of hf rehash k c, symmetric]])

lemma hs_insert_init: "hs_insert hf k v (hs_init c) = hs_insert hf k v c"
  by (simp add: hs_insert_def hs_probe_init)

lemma same_hash_thirteen:
  fixes xs :: "('k \<times> 'v) list"
  assumes "length xs = 13" "distinct (map fst xs)" "\<forall>x \<in> set xs. hf (fst x) = h"
  shows "\<exists>c. hs_insert_all hf xs hs_new = Some (Inr c) \<and> same_hash hf h 26 13 c \<and> dom (hs_abs c) = fst ` set xs"
proof -
  have a: "hs_init hs_new = hs_alloc 11" by (simp add: hs_init_def hs_new_def hs_alloc_def)
  have "xs \<noteq> []" using assms(1) by auto
  then have e: "hs_insert_all hf xs hs_new = hs_insert_all hf xs (hs_alloc 11)"
    using hs_insert_init [of hf "fst (hd xs)" "snd (hd xs)" hs_new]
    by (cases xs) (simp_all add: hs_insert_all_def a)
  have i: "same_hash hf h (caps_from 11 0) 0 (hs_alloc 11)" "fst ` set xs \<inter> dom (hs_abs (hs_alloc 11)) = {}"
    by (simp_all add: caps_from_def same_hash_alloc)
  have g: "grows_to hf h TYPE('v) (caps_from 11 i) i (caps_from 11 (Suc i))" if "0 \<le> i" "i < 0 + length xs" for i
    using that assms(1) by (intro grows_caps_from) simp
  obtain c where c: "hs_insert_all hf xs (hs_alloc 11) = Some (Inr c)"
    "same_hash hf h (caps_from 11 (0 + length xs)) (0 + length xs) c"
    "dom (hs_abs c) = dom (hs_abs (hs_alloc 11 :: ('k, 'v) hash_core)) \<union> fst ` set xs"
    using grows_all [OF g i(1) assms(2) i(2) assms(3)] by blast
  moreover have "hs_abs (hs_alloc 11 :: ('k, 'v) hash_core) = Map.empty" by simp
  ultimately show ?thesis using assms(1) e by (simp add: caps_from_def)
qed

text \<open>
  C35. Thirteen keys with one hash code can be inserted, but the insertion of a fourteenth never
  returns: \<open>probe\<close> rehashes to a size where the keys do not fit either, again and again. For 64-bit
  keys it is enough that the keys differ by multiples of \<open>2 ^ 32\<close>.
\<close>

theorem hash_collisions_loop:
  fixes xs :: "('k \<times> 'v) list"
  assumes "length xs = 13" "distinct (map fst xs)" "k \<notin> fst ` set xs" "\<forall>x \<in> set xs. hf (fst x) = h" "hf k = h"
  shows "\<exists>c. hs_insert_all hf xs hs_new = Some (Inr c) \<and> hs_insert hf k v c = None"
proof -
  obtain c where c: "hs_insert_all hf xs hs_new = Some (Inr c)" "same_hash hf h 26 13 c" "dom (hs_abs c) = fst ` set xs"
    using same_hash_thirteen [OF assms(1,2,4)] by blast
  have "hs_abs c k = None" using c(3) assms(3) by auto
  then have "hs_probe hf True k c = None"
    using full_26_never [of hf True k c] c(2) assms(5) by (cases "hs_probe hf True k c") blast+
  then have "hs_insert hf k v c = None" by (simp add: hs_insert_def)
  with c(1) show ?thesis by simp
qed

theorem hash_collisions_loop_witness:
  "\<exists>c. hs_insert_all calcHashCode_int (map (\<lambda>i. (int i * 2 ^ 32, i)) [0..<13]) hs_new = Some (Inr c) \<and>
     hs_insert calcHashCode_int (13 * 2 ^ 32) 7 c = None"
proof -
  have h: "calcHashCode_int (i * 2 ^ 32) = 0" for i
    unfolding calcHashCode_int_def word_of_int_eq_0_iff by (simp add: take_bit_eq_mod)
  show ?thesis
  proof (rule hash_collisions_loop)
    show "\<forall>x \<in> set (map (\<lambda>i. (int i * 2 ^ 32, i)) [0..<13]). calcHashCode_int (fst x) = 0"
      by (simp only: set_map ball_simps(9) fst_conv h) simp
    show "calcHashCode_int (13 * 2 ^ 32) = 0" by (rule h)
  qed (auto simp: distinct_map inj_on_def)
qed

text \<open>
  A session that rehashes twice: thirteen keys with one hash code need a table of 26 slots instead of
  11, and are all there afterwards.
\<close>

lemma hs_run_inserts:
  "hs_insert_all hf xs c = Some (Inr c') \<Longrightarrow>
   \<exists>as. hs_run hf (map (\<lambda>x. H_Insert (fst x) (snd x)) xs) c = Some (Inr (as, c'))"
proof (induction xs arbitrary: c)
  case Nil
  then show ?case by (simp add: hs_insert_all_def)
next
  case (Cons x xs)
  obtain c1 where c1: "hs_insert hf (fst x) (snd x) c = Some (Inr c1)" "hs_insert_all hf xs c1 = Some (Inr c')"
    using Cons.prems unfolding hs_insert_all_def
    by (cases "hs_insert hf (fst x) (snd x) c"; cases "the (hs_insert hf (fst x) (snd x) c)") simp_all
  from Cons.IH [OF c1(2)] c1(1) show ?case by (auto simp: hs_step_def)
qed

theorem hash_session_witness:
  "\<exists>as c. hs_run calcHashCode_int (map (\<lambda>i. H_Insert (int i * 2 ^ 32) i) [0..<13]) hs_new = Some (Inr (as, c)) \<and>
     hs_nCapacity c = 26 \<and> hs_abs c (7 * 2 ^ 32) = Some 7 \<and> hs_abs c (13 * 2 ^ 32) = None"
proof -
  let ?xs = "map (\<lambda>i. (int i * 2 ^ 32, i)) [0..<13]"
  let ?ops = "map (\<lambda>i. H_Insert (int i * 2 ^ 32) i) [0..<13]"
  have h: "calcHashCode_int (i * 2 ^ 32) = 0" for i
    unfolding calcHashCode_int_def word_of_int_eq_0_iff by (simp add: take_bit_eq_mod)
  have d: "distinct (map fst ?xs)" by (auto simp: distinct_map inj_on_def)
  have e: "\<forall>x \<in> set ?xs. calcHashCode_int (fst x) = 0"
    by (simp only: set_map ball_simps(9) fst_conv h) simp
  have m: "map (\<lambda>x. H_Insert (fst x) (snd x)) ?xs = ?ops" by (simp only: map_map comp_def fst_conv snd_conv)
  have "length ?xs = 13" by simp
  from same_hash_thirteen [OF this d e] obtain c where c: "hs_insert_all calcHashCode_int ?xs hs_new = Some (Inr c)"
    "same_hash calcHashCode_int 0 26 13 c" by blast
  from hs_run_inserts [OF c(1), unfolded m] obtain as where r: "hs_run calcHashCode_int ?ops hs_new = Some (Inr (as, c))"
    by blast
  have f: "foldl (\<lambda>m op. map_step op m) Map.empty ?ops = map_of (rev ?xs)" by (simp add: numeral_nat upt_rec)
  from hash_session [where hf = calcHashCode_int and ops = ?ops, unfolded r option.case f] have "hs_abs c = map_of (rev ?xs)" by blast
  then have "hs_abs c (7 * 2 ^ 32) = Some 7" "hs_abs c (13 * 2 ^ 32) = None"
    by (simp_all add: numeral_nat upt_rec)
  moreover have "hs_nCapacity c = 26" using c(2) by (simp add: same_hash_def)
  ultimately show ?thesis using r by blast
qed

section \<open>The proxy\<close>

text \<open>
  \<open>operator[]\<close> returns whenever the key is there or a slot for it is free, and its proxy shows
  the value under the key, or throws; assigning to it stores the value, and erasing it removes the
  key, each leaving all other keys alone.
\<close>

theorem hash_proxy:
  assumes w: "hs_wf hf c" and r: "hs_abs c k \<noteq> None \<or> hs_room hf k c"
  shows "\<exists>px c1. hs_index hf k c = Some (Inr (px, c1)) \<and> hs_abs c1 = hs_abs c \<and>
    px_getValue px c1 = (case hs_abs c k of Some v \<Rightarrow> Inr v | None \<Rightarrow> Inl (HashException ''No data associated with that key.'')) \<and>
    (\<exists>c2. px_assign px v c1 = Inr c2 \<and> hs_wf hf c2 \<and> hs_abs c2 = (hs_abs c)(k \<mapsto> v)) \<and>
    (\<exists>c3. px_erase px c1 = Inr c3 \<and> hs_wf hf c3 \<and> hs_abs c3 = (hs_abs c)(k := None))"
proof -
  obtain b p where p: "hs_probe hf True k c = Some (Inr (b, p, hs_init c))" "probe_post hf True k c (b, p, hs_init c)"
    using hs_probe_returns [OF w] r by blast
  let ?px = "\<lparr>px_pKey = k, px_nPos = p, px_hash = hf k, px_bFilled = b\<rparr>"
  have 1: "hs_index hf k c = Some (Inr (?px, hs_init c))" by (simp add: hs_index_def p(1))
  have "px_assign ?px v (hs_init c) = hs_put (hf k) k v (b, p, hs_init c)" by (simp add: px_assign_def hs_put_def)
  then have 2: "\<exists>c2. px_assign ?px v (hs_init c) = Inr c2 \<and> hs_wf hf c2 \<and> hs_abs c2 = (hs_abs c)(k \<mapsto> v)"
    using hs_put_ok [OF p(2), of v] by simp
  have 3: "\<exists>c3. px_erase ?px (hs_init c) = Inr c3 \<and> hs_wf hf c3 \<and> hs_abs c3 = (hs_abs c)(k := None)"
    using hs_erase_from [OF p(2)] by (auto simp: px_erase_def)
  have 4: "px_getValue ?px (hs_init c) = (case hs_abs c k of Some v \<Rightarrow> Inr v | None \<Rightarrow>
      Inl (HashException ''No data associated with that key.''))"
    using hs_getAt_from [OF p(2)] p(2)
    by (cases "hs_slot (hs_aValues (hs_init c)) p")
      (auto simp: px_getValue_def hs_getAt_def probe_post_def split: option.splits)
  from 1 2 3 4 hs_init_ok(2) [OF w] show ?thesis by blast
qed

theorem hash_proxy_witness:
  "\<exists>px c1 c2. hs_index calcHashCode_int 5 (hs_new :: (int, nat) hash_core) = Some (Inr (px, c1)) \<and>
     px_assign px 7 c1 = Inr c2 \<and> hs_abs c2 = [5 \<mapsto> 7]"
proof -
  have w: "hs_wf calcHashCode_int (hs_new :: (int, nat) hash_core)" by (rule hs_new_ok(1))
  then have "hs_small calcHashCode_int (hs_new :: (int, nat) hash_core) 0"
    by (simp add: hs_small_def) (simp add: hs_new_def hs_init_def hs_alloc_def)
  then have "hs_room calcHashCode_int 5 (hs_new :: (int, nat) hash_core)" by (rule hs_small_room) simp
  with hash_proxy [OF w, of 5 7] show ?thesis by (auto simp: hs_new_ok(2))
qed

text \<open>
  A proxy for a missing key does not notice that it has been assigned: a second assignment fills
  the slot again and counts it twice, so that \<open>getSize\<close> is one too high.
\<close>

lemma px_assign_twice:
  assumes "\<not> px_bFilled px" "px_assign px v c = Inr c1" "hs_nFilled c1 < 2 ^ 32 - 1" "hs_nCapacity c1 > 0"
    "px_nPos px < hs_nCapacity c1" "hs_sized c1"
  shows "\<exists>c2. px_assign px w c1 = Inr c2 \<and> hs_nFilled c2 = Suc (hs_nFilled c1)"
proof -
  have "px_nPos px div 32 < length (hs_bFilled c1)" using assms(5,6) by (simp add: hs_sized_def bitsTo32_in)
  then obtain ws where "hs_setbit (hs_bFilled c1) (px_nPos px) = Inr ws" using hs_setbit_ok by blast
  with assms show ?thesis by (simp add: px_assign_def hs_fill_def hs_init_def hs_sized_def)
qed

section \<open>Iteration\<close>

lemma hs_seek_ok:
  "hs_wf hf c \<Longrightarrow> \<forall>j \<in> set js. j < hs_nCapacity c \<Longrightarrow>
   hs_seek c js = Inr (case filter (live c) js of [] \<Rightarrow> (0, True) | j # _ \<Rightarrow> (j, False))"
proof (induction js)
  case (Cons j js)
  have s: "hs_sized c" using Cons.prems(1) by (rule hs_wfD(1))
  have j: "j < hs_nCapacity c" using Cons.prems(2) by simp
  show ?case using Cons j by (cases "fil c j"; cases "del c j") (simp_all add: live_def s)
qed simp

lemma hs_walk_from:
  assumes w: "hs_wf hf c"
  shows "\<exists>i. rbind (hs_seek c [n..<hs_nCapacity c]) (\<lambda>(p, b). Inr \<lparr>hi_nPos = p, hi_bFinished = b\<rparr>) = Inr i \<and>
    hs_walk c i = Some (Inr (map (\<lambda>j. (the (hs_aKeys c ! j), the (hs_aValues c ! j)))
      (filter (live c) [n..<hs_nCapacity c])))"
proof (induction "hs_nCapacity c - n" arbitrary: n rule: less_induct)
  case less
  have seek: "hs_seek c [n..<hs_nCapacity c] =
      Inr (case filter (live c) [n..<hs_nCapacity c] of [] \<Rightarrow> (0, True) | j # _ \<Rightarrow> (j, False))"
    by (rule hs_seek_ok [OF w]) simp
  show ?case
  proof (cases "filter (live c) [n..<hs_nCapacity c]")
    case Nil
    then show ?thesis unfolding seek by (simp add: hs_walk.simps)
  next
    case (Cons j js)
    then have j: "live c j" "n \<le> j" "j < hs_nCapacity c"
      using filter_set [of "live c" "[n..<hs_nCapacity c]"] by (auto dest: filter_eq_ConsD)
    have "filter (live c) [n..<hs_nCapacity c] = j # js" by (rule Cons)
    have split: "[n..<hs_nCapacity c] = [n..<j] @ j # [Suc j..<hs_nCapacity c]"
      using j(2,3) by (metis le_add_diff_inverse less_imp_le_nat upt_add_eq_append upt_conv_Cons)
    have "filter (live c) [n..<j] = []"
    proof (rule ccontr)
      assume "filter (live c) [n..<j] \<noteq> []"
      then obtain a as where "filter (live c) [n..<j] = a # as" by (cases "filter (live c) [n..<j]") auto
      with Cons split have "a = j" "a \<in> set (filter (live c) [n..<j])" by auto
      then show False by simp
    qed
    with Cons split j(1) have js: "js = filter (live c) [Suc j..<hs_nCapacity c]" by simp
    obtain k v where kv: "holds c j k v" using hs_wfD(6) [OF w j(1)] by blast
    have sl: "hs_slot (hs_aKeys c) j = Inr k" "hs_slot (hs_aValues c) j = Inr v"
      using kv j(3) hs_wfD(1) [OF w] by (auto simp: holds_def hs_sized_def intro!: hs_slot_ok)
    have "hs_nCapacity c - Suc j < hs_nCapacity c - n" using j(2,3) by simp
    from less [OF this] obtain i where i:
      "rbind (hs_seek c [Suc j..<hs_nCapacity c]) (\<lambda>(p, b). Inr \<lparr>hi_nPos = p, hi_bFinished = b\<rparr>) = Inr i"
      "hs_walk c i = Some (Inr (map (\<lambda>j. (the (hs_aKeys c ! j), the (hs_aValues c ! j))) js))"
      unfolding js by blast
    let ?i = "\<lparr>hi_nPos = j, hi_bFinished = False\<rparr>"
    have "hs_next c ?i = Inr i" using i(1) by (simp add: hs_next_def)
    then have "hs_walk c ?i = Some (Inr ((k, v) # map (\<lambda>j. (the (hs_aKeys c ! j), the (hs_aValues c ! j))) js))"
      using i(2) sl j(3) by (subst hs_walk.simps) (simp add: hs_getKeyAtPos_def hs_getValueAtPos_def)
    with kv show ?thesis unfolding seek Cons by (simp add: holds_def)
  qed
qed

text \<open>
  Iterating over a table with \<open>begin\<close> and \<open>++\<close> comes to an end, and meets every key of the map
  exactly once, with its value.
\<close>

theorem hash_iterates:
  assumes "hs_wf hf c"
  shows "\<exists>i xs. hs_begin c = Inr i \<and> hs_walk c i = Some (Inr xs) \<and> distinct (map fst xs) \<and> map_of xs = hs_abs c"
  using hs_walk_from [OF assms, of 0] hs_pairs_distinct [OF assms]
  unfolding hs_begin_def hs_abs_def hs_pairs_def by blast

theorem hash_iterates_witness:
  "\<exists>c i xs. hs_insert calcHashCode_int 5 ''x'' hs_new = Some (Inr c) \<and> hs_begin c = Inr i \<and>
     hs_walk c i = Some (Inr xs) \<and> map_of xs = [5 \<mapsto> ''x'']"
proof -
  have w: "hs_wf calcHashCode_int (hs_new :: (int, string) hash_core)" by (rule hs_new_ok(1))
  then have "hs_small calcHashCode_int (hs_new :: (int, string) hash_core) 0"
    by (simp add: hs_small_def) (simp add: hs_new_def hs_init_def hs_alloc_def)
  then have "hs_room calcHashCode_int 5 (hs_new :: (int, string) hash_core)" by (rule hs_small_room) simp
  from hs_insert_free [OF w _ this, of "''x''"] obtain c where c: "hs_insert calcHashCode_int 5 ''x'' hs_new = Some (Inr c)"
    "hs_wf calcHashCode_int c" "hs_abs c = [5 \<mapsto> ''x'']" by (auto simp: hs_new_ok(2))
  from hash_iterates [OF c(2)] c(1,3) show ?thesis by auto
qed

section \<open>Comparison, union and copy\<close>

lemma hs_equal_loop_ok:
  "hs_wf hf rhs \<Longrightarrow>
   (case hs_equal_loop hf xs rhs of
      Some r \<Rightarrow> \<exists>rhs'. r = Inr ((\<forall>(k, v) \<in> set xs. hs_abs rhs k = Some v), rhs') \<and> hs_wf hf rhs' \<and> hs_abs rhs' = hs_abs rhs
    | None \<Rightarrow> \<not> (\<forall>(k, v) \<in> set xs. hs_abs rhs k = Some v))"
proof (induction xs arbitrary: rhs)
  case Nil
  then show ?case by simp
next
  case (Cons x xs)
  obtain k v where x: "x = (k, v)" by (cases x)
  note w = Cons.prems
  show ?case
  proof (cases "hs_abs rhs k")
    case None
    show ?thesis
    proof (cases "hs_has hf k rhs")
      case (Some r)
      from hs_has_sound [OF Some w] None obtain c' where "r = Inr (False, c')" "hs_wf hf c'" "hs_abs c' = hs_abs rhs" by auto
      with None Some x show ?thesis by auto
    qed (use None x in auto)
  next
    case (Some u)
    then have p: "hs_abs rhs k \<noteq> None" by simp
    note h = hs_has_present [OF w p]
    have w1: "hs_wf hf (hs_init rhs)" and a1: "hs_abs (hs_init rhs) = hs_abs rhs" using hs_init_ok [OF w] by simp_all
    have g: "hs_get_const hf k (hs_init rhs) = Some (Inr (u, hs_init rhs))"
      using hs_get_const_present [OF w1, of k u] Some a1 by simp
    show ?thesis
    proof (cases "v = u")
      case True
      with Cons.IH [OF w1] h g Some x a1 show ?thesis by (auto split: option.splits)
    next
      case False
      with h g Some x a1 w1 show ?thesis by auto
    qed
  qed
qed

lemma map_le_same_card:
  assumes "finite (dom b)" "card (dom a) = card (dom b)" "\<And>k v. a k = Some v \<Longrightarrow> b k = Some v"
  shows "a = b"
proof -
  have "dom a \<subseteq> dom b" using assms(3) by blast
  then have d: "dom a = dom b" using card_subset_eq [OF assms(1)] assms(2) by blast
  show ?thesis
  proof
    fix k show "a k = b k"
    proof (cases "a k")
      case None
      then have "k \<notin> dom b" using d by blast
      with None show ?thesis by (cases "b k") auto
    qed (simp add: assms(3))
  qed
qed

text \<open>
  Comparing two tables decides whether they hold the same keys with equal values, whatever
  their sizes, deletions and the order of their slots. For equal tables it always returns; the
  other table may be rehashed, but keeps its items.
\<close>

theorem hash_equal:
  assumes w: "hs_wf hf c" "hs_wf hf rhs"
  shows "case hs_equal hf c rhs of
      Some r \<Rightarrow> \<exists>rhs'. r = Inr (hs_abs c = hs_abs rhs, rhs') \<and> hs_wf hf rhs' \<and> hs_abs rhs' = hs_abs rhs
    | None \<Rightarrow> hs_abs c \<noteq> hs_abs rhs"
proof (cases "hs_getSize c = hs_getSize rhs")
  case False
  then have "hs_abs c \<noteq> hs_abs rhs" using hs_getSize_ok(1) [OF w(1)] hs_getSize_ok(1) [OF w(2)] by auto
  with False w(2) show ?thesis by (simp add: hs_equal_def)
next
  case True
  have "(\<forall>(k, v) \<in> set (hs_pairs c). hs_abs rhs k = Some v) \<longleftrightarrow> hs_abs c = hs_abs rhs"
  proof
    assume a: "\<forall>(k, v) \<in> set (hs_pairs c). hs_abs rhs k = Some v"
    show "hs_abs c = hs_abs rhs"
    proof (rule map_le_same_card)
      show "finite (dom (hs_abs rhs))" by (simp add: hs_abs_def finite_dom_map_of)
      show "card (dom (hs_abs c)) = card (dom (hs_abs rhs))"
        using True hs_getSize_ok(1) [OF w(1)] hs_getSize_ok(1) [OF w(2)] by simp
      show "hs_abs rhs k = Some v" if "hs_abs c k = Some v" for k v
        using that a map_of_SomeD unfolding hs_abs_def [of c] by fastforce
    qed
  next
    assume "hs_abs c = hs_abs rhs"
    then show "\<forall>(k, v) \<in> set (hs_pairs c). hs_abs rhs k = Some v"
      using map_of_eq_Some_iff [OF hs_pairs_distinct [OF w(1)]] by (auto simp: hs_abs_def [of c])
  qed
  moreover have "hs_equal hf c rhs = hs_equal_loop hf (hs_pairs c) rhs"
    using True by (simp add: hs_equal_def hs_items_ok [OF w(1)])
  ultimately show ?thesis using hs_equal_loop_ok [OF w(2), of "hs_pairs c"] by (simp only:)
qed

theorem hash_equal_witness:
  "\<exists>r. hs_equal calcHashCode_int (hs_new :: (int, nat) hash_core) hs_new = Some (Inr (True, r))"
  using hash_equal [OF hs_new_ok(1) hs_new_ok(1), of calcHashCode_int] by (auto split: option.splits)

lemma hs_plus_assign_sound:
  assumes "hs_plus_assign hf c rhs = Some y" "hs_wf hf c" "hs_wf hf rhs"
  shows "\<exists>c'. y = Inr c' \<and> hs_wf hf c' \<and> hs_abs c' = hs_abs c ++ hs_abs rhs"
  using assms(1) hs_insert_all_sound [OF _ assms(2), of "hs_pairs rhs" y] map_of_rev_distinct [OF hs_pairs_distinct [OF assms(3)]]
  by (simp add: hs_plus_assign_def hs_items_ok [OF assms(3)] hs_abs_def [of rhs])

lemma hs_copyCore_reHash: "hs_copyCore hf c = hs_reHash hf (hs_nCapacity c) c"
  by (simp add: hs_copyCore_def hs_reHash_def)

lemma hs_copyCore_sound:
  assumes "hs_copyCore hf c = Some y" "hs_wf hf c"
  shows "\<exists>c'. y = Inr c' \<and> hs_wf hf c' \<and> hs_abs c' = hs_abs c"
  using hs_reHash_sound [OF assms(1) [unfolded hs_copyCore_reHash] assms(2)] hs_wfD(1) [OF assms(2)]
  by (simp add: hs_sized_def)

lemma hs_clear_ok:
  assumes "hs_wf hf c"
  shows "\<exists>c'. hs_clear c = Inr c' \<and> hs_wf hf c' \<and> hs_abs c' = Map.empty"
proof -
  define c' where "c' = c\<lparr>hs_bFilled := [], hs_bDeleted := [], hs_aKeys := [], hs_aValues := [],
       hs_aHashCodes := [], hs_nCapacity := 0, hs_nFilled := 0, hs_nDeleted := 0\<rparr>"
  have f: "\<not> fil c' j" "\<not> del c' j" for j by (simp_all add: fil_def del_def c'_def)
  have w: "hs_wf hf c'"
    by (intro hs_wfI) (simp_all add: f live_def holds_def, simp_all add: hs_sized_def c'_def bitsTo32_def)
  have "hs_abs c' = Map.empty" by (simp add: hs_abs_def hs_pairs_def c'_def)
  with w show ?thesis by (simp add: hs_clear_def hs_items_ok [OF assms] c'_def)
qed

end
