(* ===== verification/Bu_Stream.thy ===== *)
theory Bu_Stream
  imports Bu_Prelude
begin

text \<open>
  \<open>Bu::Stream\<close> (\<open>src/stable/stream.h\<close>, \<open>stream.cpp\<close>): what a client of a stream relies on, as
  locales, the two members the base class implements on top of \<open>read\<close> (\<open>readLine\<close>, \<open>readAll\<close>), and
  the memory streams \<open>MemBuf\<close>, \<open>StaticMemBuf\<close> and the \<open>NullStream\<close>, which provide it.

  A \<open>read\<close> gives the bytes it stored in the caller's buffer (their number is its result), a
  \<open>write\<close> the number of bytes it took.
\<close>

section \<open>The interface\<close>

text \<open>
  \<open>pending\<close> are the bytes a source still has to give. A read gives a first part of them, and
  at least one byte when it is asked for one and has one. An exact source gives all it is asked
  for as long as it has them.
\<close>

locale byte_source =
  fixes rd :: "'s \<Rightarrow> int \<Rightarrow> (byte list \<times> 's) result"
    and pending :: "'s \<Rightarrow> byte list"
    and good :: "'s \<Rightarrow> bool"
  assumes rd_law: "good s \<Longrightarrow> 0 \<le> n \<Longrightarrow>
    \<exists>bs s'. rd s n = Inr (bs, s') \<and> good s' \<and> pending s = bs @ pending s' \<and>
      int (length bs) \<le> n \<and> (0 < n \<and> pending s \<noteq> [] \<longrightarrow> bs \<noteq> [])"

locale eos_source = byte_source rd pending good
  for rd :: "'s \<Rightarrow> int \<Rightarrow> (byte list \<times> 's) result" and pending good +
  fixes eos :: "'s \<Rightarrow> bool"
  assumes eos_law: "good s \<Longrightarrow> eos s \<longleftrightarrow> pending s = []"

locale exact_source = byte_source rd pending good
  for rd :: "'s \<Rightarrow> int \<Rightarrow> (byte list \<times> 's) result" and pending good +
  assumes rd_exact: "good s \<Longrightarrow> 0 \<le> n \<Longrightarrow> rd s n = Inr (bs, s') \<Longrightarrow> bs = take (nat n) (pending s)"

text \<open>A sink takes a first part of what it is given; a full sink takes all of it.\<close>

locale byte_sink =
  fixes wr :: "'s \<Rightarrow> byte list \<Rightarrow> (int \<times> 's) result"
    and written :: "'s \<Rightarrow> byte list"
    and good :: "'s \<Rightarrow> bool"
  assumes wr_law: "good s \<Longrightarrow>
    \<exists>k s'. wr s bs = Inr (int k, s') \<and> k \<le> length bs \<and> good s' \<and> written s' = written s @ take k bs"

locale full_sink = byte_sink wr written good
  for wr :: "'s \<Rightarrow> byte list \<Rightarrow> (int \<times> 's) result" and written good +
  assumes wr_full: "good s \<Longrightarrow> wr s bs = Inr (n, s') \<Longrightarrow> n = int (length bs)"

section \<open>The members of the base class\<close>

definition is_line_end :: "byte \<Rightarrow> bool" where
  "is_line_end c \<longleftrightarrow> c = 10 \<or> c = 13"

partial_function (option) stream_readLine ::
    "('s \<Rightarrow> int \<Rightarrow> (byte list \<times> 's) result) \<Rightarrow> 's \<Rightarrow> (byte list \<times> 's) result option" where
  "stream_readLine rd s =
     (case rd s 1 of Inl e \<Rightarrow> Some (Inl e)
      | Inr bs \<Rightarrow>
          (if fst bs = [] then Some (Inr ([], snd bs))
           else if is_line_end (hd (fst bs)) then Some (Inr ([], snd bs))
           else Option.bind (stream_readLine rd (snd bs))
             (\<lambda>r. Some (rbind r (\<lambda>ls. Inr (hd (fst bs) # fst ls, snd ls))))))"

partial_function (option) stream_readAll ::
    "('s \<Rightarrow> int \<Rightarrow> (byte list \<times> 's) result) \<Rightarrow> ('s \<Rightarrow> bool) \<Rightarrow> 's \<Rightarrow> (byte list \<times> 's) result option" where
  "stream_readAll rd eos s =
     (if eos s then Some (Inr ([], s))
      else case rd s 4096 of Inl e \<Rightarrow> Some (Inl e)
      | Inr bs \<Rightarrow>
          (if fst bs = [] then Some (Inr ([], snd bs))
           else Option.bind (stream_readAll rd eos (snd bs))
             (\<lambda>r. Some (rbind r (\<lambda>ls. Inr (fst bs @ fst ls, snd ls))))))"

context byte_source begin

lemma readLine_law:
  "good s \<Longrightarrow> \<exists>s'. stream_readLine rd s = Some (Inr (takeWhile (\<lambda>c. \<not> is_line_end c) (pending s), s')) \<and>
     good s' \<and> pending s' = drop 1 (dropWhile (\<lambda>c. \<not> is_line_end c) (pending s))"
proof (induction "length (pending s)" arbitrary: s rule: less_induct)
  case less
  obtain bs s1 where rd: "rd s 1 = Inr (bs, s1)" "good s1" "pending s = bs @ pending s1"
    "length bs \<le> 1" "pending s \<noteq> [] \<longrightarrow> bs \<noteq> []"
    using rd_law [OF less.prems, of 1] by auto
  show ?case
  proof (cases bs)
    case Nil
    with rd show ?thesis by (simp add: stream_readLine.simps [of rd s])
  next
    case (Cons b bs')
    then have bs: "bs = [b]" using rd(4) by simp
    show ?thesis
    proof (cases "is_line_end b")
      case True
      with rd bs show ?thesis by (simp add: stream_readLine.simps [of rd s])
    next
      case False
      from rd(3) bs have "length (pending s1) < length (pending s)" by simp
      from less.hyps [OF this rd(2)] False rd bs show ?thesis
        by (auto simp: stream_readLine.simps [of rd s])
    qed
  qed
qed

end

context eos_source begin

lemma readAll_law:
  "good s \<Longrightarrow> \<exists>s'. stream_readAll rd eos s = Some (Inr (pending s, s')) \<and> good s' \<and> pending s' = []"
proof (induction "length (pending s)" arbitrary: s rule: less_induct)
  case less
  show ?case
  proof (cases "eos s")
    case True
    with less.prems show ?thesis by (simp add: stream_readAll.simps [of rd eos s] eos_law)
  next
    case False
    obtain bs s1 where rd: "rd s 4096 = Inr (bs, s1)" "good s1" "pending s = bs @ pending s1"
      "bs \<noteq> []"
      using rd_law [OF less.prems, of 4096] False eos_law [OF less.prems] by auto
    then have "length (pending s1) < length (pending s)" by simp
    from less.hyps [OF this rd(2)] False rd show ?thesis
      by (auto simp: stream_readAll.simps [of rd eos s])
  qed
qed

end

text \<open>A client that writes a list of chunks to a full sink, and one that reads several times.\<close>

fun write_chunks :: "('s \<Rightarrow> byte list \<Rightarrow> (int \<times> 's) result) \<Rightarrow> 's \<Rightarrow> byte list list \<Rightarrow> 's result" where
  "write_chunks wr s [] = Inr s"
| "write_chunks wr s (c # cs) = rbind (wr s c) (\<lambda>(n, s'). write_chunks wr s' cs)"

fun read_chunks ::
    "('s \<Rightarrow> int \<Rightarrow> (byte list \<times> 's) result) \<Rightarrow> 's \<Rightarrow> nat list \<Rightarrow> (byte list list \<times> 's) result" where
  "read_chunks rd s [] = Inr ([], s)"
| "read_chunks rd s (n # ns) = rbind (rd s (int n)) (\<lambda>(bs, s').
     rbind (read_chunks rd s' ns) (\<lambda>(bss, s''). Inr (bs # bss, s'')))"

context full_sink begin

lemma wr_all: "good s \<Longrightarrow> \<exists>s'. wr s bs = Inr (int (length bs), s') \<and> good s' \<and> written s' = written s @ bs"
  using wr_law [of s bs] wr_full [of s bs] by fastforce

lemma write_chunks_law:
  "good s \<Longrightarrow> \<exists>s'. write_chunks wr s cs = Inr s' \<and> good s' \<and> written s' = written s @ concat cs"
proof (induction cs arbitrary: s)
  case Nil
  then show ?case by simp
next
  case (Cons c cs)
  obtain s1 where "wr s c = Inr (int (length c), s1)" "good s1" "written s1 = written s @ c"
    using wr_all [OF Cons.prems, of c] by blast
  with Cons.IH [of s1] show ?case by auto
qed

end

context exact_source begin

lemma rd_take:
  "good s \<Longrightarrow> \<exists>s'. rd s (int n) = Inr (take n (pending s), s') \<and> good s' \<and> pending s' = drop n (pending s)"
proof -
  assume g: "good s"
  obtain bs s' where r: "rd s (int n) = Inr (bs, s')" "good s'" "pending s = bs @ pending s'"
    using rd_law [OF g, of "int n"] by auto
  from rd_exact [OF g _ r(1)] have "bs = take n (pending s)" by simp
  moreover from this r(3) have "pending s' = drop n (pending s)"
    by (metis append_take_drop_id same_append_eq)
  ultimately show ?thesis using r by blast
qed

lemma read_chunks_law:
  "good s \<Longrightarrow> \<exists>bss s'. read_chunks rd s ns = Inr (bss, s') \<and> good s' \<and>
     concat bss = take (sum_list ns) (pending s) \<and> pending s' = drop (sum_list ns) (pending s)"
proof (induction ns arbitrary: s)
  case Nil
  then show ?case by simp
next
  case (Cons n ns)
  obtain s1 where s1: "rd s (int n) = Inr (take n (pending s), s1)" "good s1"
    "pending s1 = drop n (pending s)" using rd_take [OF Cons.prems] by blast
  from Cons.IH [OF s1(2)] obtain bss s' where "read_chunks rd s1 ns = Inr (bss, s')" "good s'"
    "concat bss = take (sum_list ns) (pending s1)" "pending s' = drop (sum_list ns) (pending s1)" by blast
  with s1 show ?case by (auto simp: take_add add.commute)
qed

end

text \<open>
  Filters that count in an \<open>int\<close> keep the two contracts only for calls of less than \<open>2^31\<close> bytes.
\<close>

locale short_source =
  fixes rd :: "'s \<Rightarrow> int \<Rightarrow> (byte list \<times> 's) result"
    and pending :: "'s \<Rightarrow> byte list"
    and good :: "'s \<Rightarrow> bool"
  assumes rd_short: "good s \<Longrightarrow> n < 2147483648 \<Longrightarrow>
    \<exists>s'. rd s (int n) = Inr (take n (pending s), s') \<and> good s' \<and> pending s' = drop n (pending s)"

locale short_sink =
  fixes wr :: "'s \<Rightarrow> byte list \<Rightarrow> (int \<times> 's) result"
    and written :: "'s \<Rightarrow> byte list"
    and good :: "'s \<Rightarrow> bool"
  assumes wr_short: "good s \<Longrightarrow> length bs < 2147483648 \<Longrightarrow>
    \<exists>s'. wr s bs = Inr (int (length bs), s') \<and> good s' \<and> written s' = written s @ bs"
begin

lemma write_short_chunks:
  "good s \<Longrightarrow> \<forall>c \<in> set cs. length c < 2147483648 \<Longrightarrow>
   \<exists>s'. write_chunks wr s cs = Inr s' \<and> good s' \<and> written s' = written s @ concat cs"
proof (induction cs arbitrary: s)
  case Nil
  then show ?case by simp
next
  case (Cons c cs)
  obtain s1 where "wr s c = Inr (int (length c), s1)" "good s1" "written s1 = written s @ c"
    using wr_short [OF Cons.prems(1), of c] Cons.prems(2) by auto
  with Cons.IH [of s1] Cons.prems(2) show ?case by auto
qed

end

sublocale exact_source \<subseteq> short_source rd pending good
  by unfold_locales (rule rd_take)

sublocale full_sink \<subseteq> short_sink wr written good
  by unfold_locales (rule wr_all)

section \<open>\<open>MemBuf\<close>\<close>

record mem_buf =
  mb_sBuf :: "byte list"
  mb_nPos :: int

definition mb_new :: "byte list \<Rightarrow> mem_buf" where
  "mb_new bs = \<lparr>mb_sBuf = bs, mb_nPos = 0\<rparr>"

definition mb_getSize :: "mem_buf \<Rightarrow> int" where
  "mb_getSize m = int (length (mb_sBuf m))"

text \<open>
  \<open>memcpy\<close> of \<open>n\<close> bytes from offset \<open>p\<close> of an array, and into one: a negative count is a huge
  unsigned one, and a range outside the array is out of bounds.
\<close>

definition mem_load :: "'a list \<Rightarrow> int \<Rightarrow> int \<Rightarrow> 'a list result" where
  "mem_load xs p n =
     (if 0 \<le> p \<and> 0 \<le> n \<and> p + n \<le> int (length xs) then Inr (take (nat n) (drop (nat p) xs))
      else Inl Out_Of_Bounds)"

definition mem_store :: "'a list \<Rightarrow> int \<Rightarrow> 'a list \<Rightarrow> 'a list result" where
  "mem_store xs p ys =
     (if 0 \<le> p \<and> p + int (length ys) \<le> int (length xs)
      then Inr (take (nat p) xs @ ys @ drop (nat p + length ys) xs)
      else Inl Out_Of_Bounds)"

lemma mem_store_in [access]:
  "p + length ys \<le> length xs \<Longrightarrow> mem_store xs (int p) ys = Inr (overwrite xs p ys)"
  by (simp add: mem_store_def overwrite_def)

text \<open>The values of bytes of a buffer, when all of them have been written.\<close>

definition init_bytes :: "byte option list \<Rightarrow> byte list result" where
  "init_bytes xs = (if None \<in> set xs then Inl Out_Of_Bounds else Inr (map the xs))"

lemma init_bytes_Some [simp]: "init_bytes (map Some xs) = Inr xs"
  by (auto simp: init_bytes_def comp_def)

definition mb_read :: "mem_buf \<Rightarrow> int \<Rightarrow> (byte list \<times> mem_buf) result" where
  "mb_read m nBytes =
     (let n = (if mb_getSize m - mb_nPos m < nBytes then mb_getSize m - mb_nPos m else nBytes)
      in rbind (mem_load (mb_sBuf m) (mb_nPos m) n)
           (\<lambda>bs. Inr (bs, m\<lparr>mb_nPos := mb_nPos m + n\<rparr>)))"

definition mb_write :: "mem_buf \<Rightarrow> byte list \<Rightarrow> (int \<times> mem_buf) result" where
  "mb_write m bs =
     (let nBytes = int (length bs) in
      if mb_nPos m = mb_getSize m
      then Inr (nBytes, m\<lparr>mb_sBuf := mb_sBuf m @ bs, mb_nPos := mb_nPos m + nBytes\<rparr>)
      else let iOver = min (mb_getSize m - mb_nPos m) nBytes
           in rbind (mem_store (mb_sBuf m) (mb_nPos m) (take (nat iOver) bs)) (\<lambda>s.
              Inr (nBytes, m\<lparr>mb_sBuf := (if iOver < nBytes then s @ drop (nat iOver) bs else s),
                             mb_nPos := mb_nPos m + nBytes\<rparr>)))"

text \<open>The positioning members clamp to the buffer.\<close>

definition mb_clamp :: "mem_buf \<Rightarrow> int \<Rightarrow> mem_buf" where
  "mb_clamp m p =
     m\<lparr>mb_nPos := (if p < 0 then 0 else if p > mb_getSize m then mb_getSize m else p)\<rparr>"

definition mb_seek :: "mem_buf \<Rightarrow> int \<Rightarrow> mem_buf" where
  "mb_seek m offset = mb_clamp m (mb_nPos m + offset)"

definition mb_setPos :: "mem_buf \<Rightarrow> int \<Rightarrow> mem_buf" where
  "mb_setPos m pos = mb_clamp m pos"

definition mb_setPosEnd :: "mem_buf \<Rightarrow> int \<Rightarrow> mem_buf" where
  "mb_setPosEnd m pos = mb_clamp m (mb_getSize m - pos)"

definition mb_isEos :: "mem_buf \<Rightarrow> bool" where
  "mb_isEos m \<longleftrightarrow> mb_nPos m = mb_getSize m"

text \<open>
  \<open>setSize\<close>: \<open>String::setSize\<close> (\<open>src/stable/string.cpp\<close>) clears the string and takes a new chunk,
  whose bytes are whatever the allocator returns (\<open>fill\<close>).
\<close>

definition str_setSize :: "(nat \<Rightarrow> byte) \<Rightarrow> int \<Rightarrow> byte list" where
  "str_setSize fill iSize = map fill [0..<nat iSize]"

definition mb_setSize :: "(nat \<Rightarrow> byte) \<Rightarrow> mem_buf \<Rightarrow> int \<Rightarrow> mem_buf" where
  "mb_setSize fill m iSize =
     (let n = (if iSize < 0 then 0 else iSize)
      in m\<lparr>mb_sBuf := str_setSize fill n, mb_nPos := (if mb_nPos m > n then n else mb_nPos m)\<rparr>)"

definition mb_setString :: "mem_buf \<Rightarrow> byte list \<Rightarrow> mem_buf" where
  "mb_setString m s = m\<lparr>mb_sBuf := s, mb_nPos := 0\<rparr>"

definition mb_wf :: "mem_buf \<Rightarrow> bool" where
  "mb_wf m \<longleftrightarrow> 0 \<le> mb_nPos m \<and> mb_nPos m \<le> mb_getSize m"

definition mb_pending :: "mem_buf \<Rightarrow> byte list" where
  "mb_pending m = drop (nat (mb_nPos m)) (mb_sBuf m)"

lemma mb_read_eq:
  assumes "mb_wf m" "0 \<le> n"
  shows "mb_read m n = Inr (take (nat n) (mb_pending m),
    m\<lparr>mb_nPos := mb_nPos m + int (length (take (nat n) (mb_pending m)))\<rparr>)"
  using assms
  by (auto simp: mb_read_def mb_wf_def mb_getSize_def mb_pending_def mem_load_def Let_def min_def)

lemma mb_pending_advance:
  "mb_wf m \<Longrightarrow> mb_pending (m\<lparr>mb_nPos := mb_nPos m + int k\<rparr>) = drop k (mb_pending m)"
  by (simp add: mb_pending_def mb_wf_def nat_add_distrib add.commute)

lemma mb_wf_advance:
  "mb_wf m \<Longrightarrow> k \<le> length (mb_pending m) \<Longrightarrow> mb_wf (m\<lparr>mb_nPos := mb_nPos m + int k\<rparr>)"
  by (auto simp: mb_pending_def mb_wf_def mb_getSize_def)

interpretation membuf: eos_source mb_read mb_pending mb_wf mb_isEos
proof (unfold_locales, goal_cases)
  case (1 m n)
  have "mb_pending m = take (nat n) (mb_pending m) @ drop (length (take (nat n) (mb_pending m))) (mb_pending m)"
    by (simp add: min_def)
  with 1 mb_wf_advance [OF 1(1), of "length (take (nat n) (mb_pending m))"] show ?case
    unfolding mb_read_eq [OF 1] by (auto simp: mb_pending_advance)
next
  case (2 m)
  then show ?case by (auto simp: mb_isEos_def mb_pending_def mb_wf_def mb_getSize_def)
qed

interpretation membuf: exact_source mb_read mb_pending mb_wf
  by unfold_locales (simp add: mb_read_eq)


lemma mb_new_source [simp]: "mb_wf (mb_new t)" "mb_pending (mb_new t) = t"
  by (simp_all add: mb_wf_def mb_new_def mb_pending_def mb_getSize_def)

text \<open>Writing overwrites from the position and extends the buffer when it has to.\<close>

lemma mb_write_wf:
  assumes "mb_wf m"
  shows "\<exists>m'. mb_write m bs = Inr (int (length bs), m') \<and> mb_wf m' \<and>
    mb_nPos m' = mb_nPos m + int (length bs) \<and>
    mb_sBuf m' = take (nat (mb_nPos m)) (mb_sBuf m) @ bs @ drop (nat (mb_nPos m) + length bs) (mb_sBuf m)"
proof (cases "mb_nPos m = mb_getSize m")
  case True
  then show ?thesis by (simp add: mb_write_def mb_wf_def mb_getSize_def Let_def)
next
  case False
  obtain p where p: "mb_nPos m = int p" "p \<le> length (mb_sBuf m)"
    using assms nonneg_int_cases [of "mb_nPos m"] by (auto simp: mb_wf_def mb_getSize_def)
  show ?thesis
  proof (cases "length (mb_sBuf m) - p < length bs")
    case True
    with p False show ?thesis
      by (auto simp: mb_write_def mb_wf_def mb_getSize_def Let_def mem_store_def nat_diff_distrib min_def)
  next
    case fits: False
    with p False show ?thesis
      by (auto simp: mb_write_def mb_wf_def mb_getSize_def Let_def mem_store_def min_def)
  qed
qed

interpretation membuf_sink: full_sink mb_write mb_sBuf "\<lambda>m. mb_nPos m = mb_getSize m"
proof (unfold_locales, goal_cases)
  case (1 m bs)
  then show ?case
    by (intro exI [of _ "length bs"]) (simp add: mb_write_def mb_getSize_def Let_def)
next
  case (2 m bs n m')
  then show ?case by (simp add: mb_write_def Let_def)
qed

section \<open>\<open>StaticMemBuf\<close>\<close>

text \<open>A read-only view of memory: the same positions, no writes.\<close>

record static_mem_buf =
  smb_pData :: "byte list"
  smb_iSize :: int
  smb_nPos :: int

definition smb_new :: "byte list \<Rightarrow> int \<Rightarrow> static_mem_buf" where
  "smb_new pData iSize = \<lparr>smb_pData = pData, smb_iSize = iSize, smb_nPos = 0\<rparr>"

definition smb_read :: "static_mem_buf \<Rightarrow> int \<Rightarrow> (byte list \<times> static_mem_buf) result" where
  "smb_read m nBytes =
     (let n = (if smb_iSize m - smb_nPos m < nBytes then smb_iSize m - smb_nPos m else nBytes)
      in rbind (mem_load (smb_pData m) (smb_nPos m) n)
           (\<lambda>bs. Inr (bs, m\<lparr>smb_nPos := smb_nPos m + n\<rparr>)))"

definition smb_write :: "static_mem_buf \<Rightarrow> byte list \<Rightarrow> (int \<times> static_mem_buf) result" where
  "smb_write m bs = Inr (-1, m)"

definition smb_clamp :: "static_mem_buf \<Rightarrow> int \<Rightarrow> static_mem_buf" where
  "smb_clamp m p =
     m\<lparr>smb_nPos := (if p < 0 then 0 else if p > smb_iSize m then smb_iSize m else p)\<rparr>"

definition smb_seek :: "static_mem_buf \<Rightarrow> int \<Rightarrow> static_mem_buf" where
  "smb_seek m offset = smb_clamp m (smb_nPos m + offset)"

definition smb_setPos :: "static_mem_buf \<Rightarrow> int \<Rightarrow> static_mem_buf" where
  "smb_setPos m pos = smb_clamp m pos"

definition smb_setPosEnd :: "static_mem_buf \<Rightarrow> int \<Rightarrow> static_mem_buf" where
  "smb_setPosEnd m pos = smb_clamp m (smb_iSize m - pos)"

definition smb_isEos :: "static_mem_buf \<Rightarrow> bool" where
  "smb_isEos m \<longleftrightarrow> smb_nPos m = smb_iSize m"

definition smb_wf :: "static_mem_buf \<Rightarrow> bool" where
  "smb_wf m \<longleftrightarrow> 0 \<le> smb_nPos m \<and> smb_nPos m \<le> smb_iSize m \<and> smb_iSize m = int (length (smb_pData m))"

text \<open>The view reads as a \<open>MemBuf\<close> with the same bytes and position.\<close>

definition smb_as_mb :: "static_mem_buf \<Rightarrow> mem_buf" where
  "smb_as_mb m = \<lparr>mb_sBuf = smb_pData m, mb_nPos = smb_nPos m\<rparr>"

lemma smb_wf_as_mb: "smb_wf m \<Longrightarrow> mb_wf (smb_as_mb m)"
  by (simp add: smb_wf_def mb_wf_def smb_as_mb_def mb_getSize_def)

lemma smb_read_as_mb:
  assumes "smb_wf m"
  shows "rbind (smb_read m n) (\<lambda>(bs, m'). Inr (bs, smb_as_mb m')) = mb_read (smb_as_mb m) n"
  using assms
  by (cases "mem_load (smb_pData m) (smb_nPos m) n")
    (auto simp: smb_read_def mb_read_def Let_def smb_as_mb_def smb_wf_def mb_getSize_def rbind_def split: sum.splits)

lemma smb_read_eq:
  assumes "smb_wf m" "0 \<le> n"
  shows "smb_read m n = Inr (take (nat n) (mb_pending (smb_as_mb m)),
    m\<lparr>smb_nPos := smb_nPos m + int (length (take (nat n) (mb_pending (smb_as_mb m))))\<rparr>)"
  using assms
  by (auto simp: smb_read_def smb_wf_def smb_as_mb_def mb_pending_def mem_load_def Let_def min_def)

interpretation staticbuf: eos_source smb_read "\<lambda>m. mb_pending (smb_as_mb m)" smb_wf smb_isEos
proof (unfold_locales, goal_cases)
  case (1 m n)
  let ?t = "take (nat n) (mb_pending (smb_as_mb m))"
  have "mb_pending (smb_as_mb (m\<lparr>smb_nPos := smb_nPos m + int k\<rparr>)) = drop k (mb_pending (smb_as_mb m))" for k
    using mb_pending_advance [OF smb_wf_as_mb [OF 1(1)], of k] by (simp add: smb_as_mb_def)
  moreover have "mb_pending (smb_as_mb m) = ?t @ drop (length ?t) (mb_pending (smb_as_mb m))"
    by (simp add: min_def)
  moreover have "smb_wf (m\<lparr>smb_nPos := smb_nPos m + int (length ?t)\<rparr>)"
    using 1 by (auto simp: smb_wf_def smb_as_mb_def mb_pending_def)
  moreover have "int (length ?t) \<le> n" using 1(2) by simp
  ultimately show ?case
    unfolding smb_read_eq [OF 1] by auto
next
  case (2 m)
  then show ?case by (auto simp: smb_isEos_def mb_pending_def smb_wf_def smb_as_mb_def)
qed

interpretation staticbuf: exact_source smb_read "\<lambda>m. mb_pending (smb_as_mb m)" smb_wf
  by unfold_locales (simp add: smb_read_eq)

section \<open>\<open>NullStream\<close>\<close>

text \<open>Reads zeros for ever and takes every write; it counts both.\<close>

record null_stream =
  ns_sRead :: int
  ns_sWrote :: int

definition ns_new :: null_stream where
  "ns_new = \<lparr>ns_sRead = 0, ns_sWrote = 0\<rparr>"

definition ns_read :: "null_stream \<Rightarrow> int \<Rightarrow> (byte list \<times> null_stream) result" where
  "ns_read s nBytes =
     (if 0 \<le> nBytes then Inr (replicate (nat nBytes) 0, s\<lparr>ns_sRead := ns_sRead s + nBytes\<rparr>)
      else Inl Out_Of_Bounds)"

definition ns_readLine :: "null_stream \<Rightarrow> byte list \<times> null_stream" where
  "ns_readLine s = ([0], s\<lparr>ns_sRead := ns_sRead s + 1\<rparr>)"

definition ns_write :: "null_stream \<Rightarrow> byte list \<Rightarrow> (int \<times> null_stream) result" where
  "ns_write s bs = Inr (int (length bs), s\<lparr>ns_sWrote := ns_sWrote s + int (length bs)\<rparr>)"

definition ns_tell :: "null_stream \<Rightarrow> int" where
  "ns_tell s = ns_sRead s + ns_sWrote s"

definition ns_close :: "null_stream \<Rightarrow> null_stream" where
  "ns_close s = s\<lparr>ns_sRead := 0, ns_sWrote := 0\<rparr>"

section \<open>Properties\<close>

text \<open>
  Writing to a \<open>MemBuf\<close> at any position inside it never stores outside the buffer: the
  bytes replace those from the position on, the part that does not fit is appended, everything
  before and after stays, and the position ends behind the written bytes.
\<close>

theorem membuf_write_overwrites:
  assumes "mb_wf m"
  shows "\<exists>m'. mb_write m bs = Inr (int (length bs), m') \<and> mb_wf m' \<and>
    mb_nPos m' = mb_nPos m + int (length bs) \<and>
    mb_sBuf m' = take (nat (mb_nPos m)) (mb_sBuf m) @ bs @ drop (nat (mb_nPos m) + length bs) (mb_sBuf m)"
  by (rule mb_write_wf) (rule assms)

theorem membuf_write_overwrites_witness:
  "\<exists>m'. mb_write (mb_setPos (mb_new [1, 2, 3]) 2) [8, 9] = Inr (2, m') \<and> mb_wf m' \<and>
    mb_nPos m' = 4 \<and> mb_sBuf m' = [1, 2, 8, 9]"
  using membuf_write_overwrites [of "mb_setPos (mb_new [1, 2, 3]) 2" "[8, 9]"]
  by (simp add: mb_wf_def mb_setPos_def mb_clamp_def mb_new_def mb_getSize_def)

text \<open>
  \<open>readLine\<close> of the base class over a \<open>MemBuf\<close> returns after finitely many reads: the
  line is the part before the first line feed or carriage return, without it, the stream stands
  behind that character, and at the end of the data the rest is the line.
\<close>

theorem membuf_readLine:
  assumes "mb_wf m"
  shows "\<exists>m'. stream_readLine mb_read m =
      Some (Inr (takeWhile (\<lambda>c. \<not> is_line_end c) (mb_pending m), m')) \<and> mb_wf m' \<and>
    mb_pending m' = drop 1 (dropWhile (\<lambda>c. \<not> is_line_end c) (mb_pending m))"
  by (rule membuf.readLine_law) (rule assms)

theorem membuf_readLine_witness:
  "\<exists>m'. stream_readLine mb_read (mb_new [65, 66, 10, 67]) = Some (Inr ([65, 66], m')) \<and>
    mb_pending m' = [67]"
  using membuf_readLine [of "mb_new [65, 66, 10, 67]"]
  by (auto simp: mb_wf_def mb_new_def mb_getSize_def mb_pending_def is_line_end_def)

text \<open>
  What is written to a new \<open>MemBuf\<close>, in any chunks, is what \<open>readAll\<close> returns after
  seeking back to the start; nothing is raised, and the loop ends.
\<close>

theorem membuf_write_readAll:
  "\<exists>m m'. write_chunks mb_write (mb_new []) cs = Inr m \<and>
     stream_readAll mb_read mb_isEos (mb_setPos m 0) = Some (Inr (concat cs, m')) \<and> mb_isEos m'"
proof -
  obtain m where m: "write_chunks mb_write (mb_new []) cs = Inr m" "mb_sBuf m = concat cs"
    using membuf_sink.write_chunks_law [of "mb_new []" cs] by (auto simp: mb_new_def mb_getSize_def)
  have "mb_wf (mb_setPos m 0)" "mb_pending (mb_setPos m 0) = concat cs"
    using m(2) by (auto simp: mb_wf_def mb_setPos_def mb_clamp_def mb_pending_def mb_getSize_def)
  with membuf.readAll_law [of "mb_setPos m 0"] m(1) show ?thesis
    by (auto simp: membuf.eos_law)
qed

text \<open>
  \<open>setSize\<close> of a \<open>MemBuf\<close> keeps nothing of the data: two buffers of any contents and the
  same position are the same after it, even when the size does not change, where \<open>stream.h\<close>
  promises that data is added or removed at the end.
\<close>

theorem membuf_setSize_discards:
  "mb_setSize fill \<lparr>mb_sBuf = s, mb_nPos = p\<rparr> n = mb_setSize fill \<lparr>mb_sBuf = t, mb_nPos = p\<rparr> n"
  by (simp add: mb_setSize_def)

end
