(* ===== verification/Bu_QueueBuf.thy ===== *)
theory Bu_QueueBuf
  imports Bu_Stream
begin

text \<open>
  \<open>Bu::QueueBuf\<close> (\<open>src/stable/queuebuf.cpp\<close>): a byte queue kept in a list of fixed-size blocks.
  Writes fill the last block from \<open>iWriteOffset\<close>, reads empty the first one from \<open>iReadOffset\<close>.
  A block byte that was never written is \<open>None\<close>; reading one, or a block that is not there, is
  \<open>Out_Of_Bounds\<close>. Offsets and sizes are natural numbers (the code never lets them become
  negative); the arguments are C++ integers.
\<close>

section \<open>The buffer and its operations\<close>

record queue_buf =
  qb_iBlockSize :: nat
  qb_iReadOffset :: nat
  qb_iWriteOffset :: nat
  qb_iTotalSize :: nat
  qb_lBlocks :: "byte option list list"

definition qb_new :: "nat \<Rightarrow> queue_buf" where
  "qb_new iBlockSize = \<lparr>qb_iBlockSize = iBlockSize, qb_iReadOffset = 0, qb_iWriteOffset = 0,
     qb_iTotalSize = 0, qb_lBlocks = []\<rparr>"

definition qb_close :: "queue_buf \<Rightarrow> queue_buf" where
  "qb_close q = q\<lparr>qb_lBlocks := [], qb_iReadOffset := 0, qb_iWriteOffset := 0, qb_iTotalSize := 0\<rparr>"

definition qb_addBlock :: "queue_buf \<Rightarrow> queue_buf" where
  "qb_addBlock q = q\<lparr>qb_lBlocks := qb_lBlocks q @ [replicate (qb_iBlockSize q) None]\<rparr>"

definition qb_removeBlock :: "queue_buf \<Rightarrow> queue_buf result" where
  "qb_removeBlock q =
     (if qb_lBlocks q = [] then Inl Out_Of_Bounds else Inr (q\<lparr>qb_lBlocks := tl (qb_lBlocks q)\<rparr>))"

text \<open>One round of the loop of \<open>read\<close>: move on to the next block, then copy. The flag is
  false when the loop returns early.\<close>

definition qb_next_block :: "queue_buf \<Rightarrow> (bool \<times> queue_buf) result" where
  "qb_next_block q =
     (if qb_iReadOffset q = qb_iBlockSize q
      then rbind (qb_removeBlock q) (\<lambda>q'.
             if qb_lBlocks q' = [] then Inr (False, q') else Inr (True, q'\<lparr>qb_iReadOffset := 0\<rparr>))
      else Inr (True, q))"

definition qb_copy_out :: "nat \<Rightarrow> queue_buf \<Rightarrow> (byte list \<times> queue_buf) result" where
  "qb_copy_out iLeft q =
     (case qb_lBlocks q of [] \<Rightarrow> Inl Out_Of_Bounds
      | b # _ \<Rightarrow>
          let iCopy = min (min (qb_iBlockSize q - qb_iReadOffset q) iLeft) (qb_iTotalSize q)
          in rbind (mem_load b (int (qb_iReadOffset q)) (int iCopy)) (\<lambda>xs.
             rbind (init_bytes xs) (\<lambda>bs.
               Inr (bs, q\<lparr>qb_iReadOffset := qb_iReadOffset q + iCopy,
                         qb_iTotalSize := qb_iTotalSize q - iCopy\<rparr>))))"

partial_function (option) qb_read_loop :: "nat \<Rightarrow> queue_buf \<Rightarrow> (byte list \<times> queue_buf) result option" where
  "qb_read_loop iLeft q =
     (if iLeft > 0 \<and> qb_iTotalSize q > 0
      then case qb_next_block q of Inl e \<Rightarrow> Some (Inl e)
      | Inr fq \<Rightarrow>
         (if \<not> fst fq then Some (Inr ([], snd fq))
          else case qb_copy_out iLeft (snd fq) of Inl e \<Rightarrow> Some (Inl e)
          | Inr bq \<Rightarrow> Option.bind (qb_read_loop (iLeft - length (fst bq)) (snd bq))
             (\<lambda>r. Some (rbind r (\<lambda>cs. Inr (fst bq @ fst cs, snd cs)))))
      else Some (Inr ([], q)))"

definition qb_read :: "queue_buf \<Rightarrow> int \<Rightarrow> (byte list \<times> queue_buf) result option" where
  "qb_read q nBytes =
     (if nBytes \<le> 0 then Some (Inr ([], q))
      else if qb_lBlocks q = [] then Some (Inr ([], q))
      else qb_read_loop (nat nBytes) q)"

text \<open>\<open>peek\<close> walks the blocks with an iterator, here the blocks from it to the end.\<close>

fun qb_peek_skip :: "int \<Rightarrow> int \<Rightarrow> 'b list \<Rightarrow> (int \<times> 'b list) result" where
  "qb_peek_skip bs off [] =
     (if off > bs then Inl (ExceptionBase ''Attempt to iterate past end of list.'') else Inr (off, []))"
| "qb_peek_skip bs off (b # bl) = (if off > bs then qb_peek_skip bs (off - bs) bl else Inr (off, b # bl))"

partial_function (option) qb_peek_loop ::
    "nat \<Rightarrow> nat \<Rightarrow> nat \<Rightarrow> int \<Rightarrow> byte option list list \<Rightarrow> byte list result option" where
  "qb_peek_loop bs iLeft iRem off blks =
     (if iLeft > 0 \<and> iRem > 0
      then let blks' = (if off = int bs then tl blks else blks);
               off' = (if off = int bs then 0 else off)
           in if off = int bs \<and> blks = []
              then Some (Inl (ExceptionBase ''Attempt to iterate past end of list.''))
              else if off = int bs \<and> blks' = [] then Some (Inr [])
              else if blks' = [] then Some (Inl Out_Of_Bounds)
              else let iCopy = min (min (nat (int bs - off')) iLeft) iRem
                   in (case rbind (mem_load (hd blks') off' (int iCopy)) init_bytes of
                         Inl e \<Rightarrow> Some (Inl e)
                       | Inr xs \<Rightarrow> Option.bind
                           (qb_peek_loop bs (iLeft - iCopy) (iRem - iCopy) (off' + int iCopy) blks')
                           (\<lambda>r. Some (rbind r (\<lambda>ys. Inr (xs @ ys)))))
      else Some (Inr []))"

definition qb_peek :: "queue_buf \<Rightarrow> int \<Rightarrow> int \<Rightarrow> byte list result option" where
  "qb_peek q nBytes nSkip =
     (if nBytes \<le> 0 then Some (Inr [])
      else if qb_lBlocks q = [] then Some (Inr [])
      else case qb_peek_skip (int (qb_iBlockSize q)) (int (qb_iReadOffset q) + nSkip) (qb_lBlocks q) of
             Inl e \<Rightarrow> Some (Inl e)
           | Inr ob \<Rightarrow> qb_peek_loop (qb_iBlockSize q) (nat nBytes) (qb_iTotalSize q) (fst ob) (snd ob))"

text \<open>One round of the loop of \<open>write\<close>, which fills the last block.\<close>

definition qb_room :: "queue_buf \<Rightarrow> queue_buf" where
  "qb_room q =
     (if qb_iWriteOffset q = qb_iBlockSize q then (qb_addBlock q)\<lparr>qb_iWriteOffset := 0\<rparr> else q)"

definition qb_copy_in :: "byte list \<Rightarrow> queue_buf \<Rightarrow> (nat \<times> queue_buf) result" where
  "qb_copy_in bs q =
     (if qb_lBlocks q = [] then Inl Out_Of_Bounds
      else let iCopy = min (qb_iBlockSize q - qb_iWriteOffset q) (length bs)
           in rbind (mem_store (last (qb_lBlocks q)) (int (qb_iWriteOffset q)) (map Some (take iCopy bs)))
                (\<lambda>b. Inr (iCopy, q\<lparr>qb_lBlocks := butlast (qb_lBlocks q) @ [b],
                              qb_iWriteOffset := qb_iWriteOffset q + iCopy,
                              qb_iTotalSize := qb_iTotalSize q + iCopy\<rparr>)))"

partial_function (option) qb_write_loop :: "byte list \<Rightarrow> queue_buf \<Rightarrow> queue_buf result option" where
  "qb_write_loop bs q =
     (if bs = [] then Some (Inr q)
      else case qb_copy_in bs (qb_room q) of Inl e \<Rightarrow> Some (Inl e)
      | Inr nq \<Rightarrow> qb_write_loop (drop (fst nq) bs) (snd nq))"

definition qb_write :: "queue_buf \<Rightarrow> byte list \<Rightarrow> (int \<times> queue_buf) result option" where
  "qb_write q bs =
     (if bs = [] then Some (Inr (0, q))
      else let q1 = (if qb_lBlocks q = [] then (qb_addBlock q)\<lparr>qb_iWriteOffset := 0\<rparr> else q)
           in map_option (\<lambda>r. rbind r (\<lambda>q'. Inr (int (length bs), q'))) (qb_write_loop bs q1))"

text \<open>\<open>seek\<close> drops bytes at the front.\<close>

function qb_seek_loop :: "queue_buf \<Rightarrow> queue_buf result" where
  "qb_seek_loop q =
     (if qb_iReadOffset q \<ge> qb_iBlockSize q
      then if qb_lBlocks q = [] then Inl Out_Of_Bounds
           else qb_seek_loop (q\<lparr>qb_lBlocks := tl (qb_lBlocks q),
                  qb_iReadOffset := qb_iReadOffset q - qb_iBlockSize q\<rparr>)
      else Inr q)"
  by pat_completeness auto
termination
  by (relation "measure (\<lambda>q. length (qb_lBlocks q))") auto

declare qb_seek_loop.simps [simp del]

definition qb_seek :: "queue_buf \<Rightarrow> int \<Rightarrow> queue_buf result" where
  "qb_seek q iAmnt =
     (if iAmnt \<le> 0 then Inr q
      else if iAmnt \<ge> int (qb_iTotalSize q) then Inr (qb_close q)
      else qb_seek_loop (q\<lparr>qb_iReadOffset := qb_iReadOffset q + nat iAmnt,
                           qb_iTotalSize := qb_iTotalSize q - nat iAmnt\<rparr>))"

definition qb_isEos :: "queue_buf \<Rightarrow> bool" where
  "qb_isEos q \<longleftrightarrow> qb_iTotalSize q = 0"

definition qb_canRead :: "queue_buf \<Rightarrow> bool" where
  "qb_canRead q \<longleftrightarrow> qb_iTotalSize q > 0"

definition qb_getSize :: "queue_buf \<Rightarrow> nat" where
  "qb_getSize q = qb_iTotalSize q"

section \<open>The bytes a buffer holds\<close>

text \<open>
  The blocks in a row are what has been read, the data, and the room behind the write offset.
\<close>

definition qb_span :: "byte option list \<Rightarrow> nat \<Rightarrow> byte list \<Rightarrow> nat \<Rightarrow> bool" where
  "qb_span xs r data w \<longleftrightarrow>
     (\<exists>pre junk. xs = pre @ map Some data @ junk \<and> length pre = r \<and> length junk = w)"

definition qb_rep :: "queue_buf \<Rightarrow> byte list \<Rightarrow> bool" where
  "qb_rep q data \<longleftrightarrow>
     0 < qb_iBlockSize q \<and> (\<forall>b \<in> set (qb_lBlocks q). length b = qb_iBlockSize q) \<and>
     qb_iReadOffset q \<le> qb_iBlockSize q \<and> qb_iWriteOffset q \<le> qb_iBlockSize q \<and>
     qb_iTotalSize q = length data \<and>
     (if qb_lBlocks q = [] then data = [] \<and> qb_iReadOffset q = 0
      else qb_span (concat (qb_lBlocks q)) (qb_iReadOffset q) data (qb_iBlockSize q - qb_iWriteOffset q))"

lemma qb_spanI: "xs = pre @ map Some data @ junk \<Longrightarrow> length pre = r \<Longrightarrow> length junk = w \<Longrightarrow> qb_span xs r data w"
  by (auto simp: qb_span_def)

lemma qb_span_advance:
  assumes "qb_span xs r data w" "k \<le> length data"
  shows "qb_span xs (r + k) (drop k data) w"
proof -
  obtain pre junk where c: "xs = pre @ map Some data @ junk" "length pre = r" "length junk = w"
    using assms(1) by (auto simp: qb_span_def)
  have "map Some data = map Some (take k data) @ map Some (drop k data)"
    by (metis append_take_drop_id map_append)
  with c assms(2) show ?thesis
    by (intro qb_spanI [of _ "pre @ map Some (take k data)" _ junk]) simp_all
qed

lemma qb_span_extend: "qb_span xs r data 0 \<Longrightarrow> qb_span (xs @ ys) r data (length ys)"
  unfolding qb_span_def by (metis append.right_neutral append_assoc length_0_conv)

lemma qb_rep_new: "0 < n \<Longrightarrow> qb_rep (qb_new n) []"
  by (simp add: qb_rep_def qb_new_def)

lemma qb_rep_close: "qb_rep q data \<Longrightarrow> qb_rep (qb_close q) []"
  by (simp add: qb_rep_def qb_close_def)

lemma qb_rep_blocks: "qb_rep q data \<Longrightarrow> data \<noteq> [] \<Longrightarrow> qb_lBlocks q \<noteq> []"
  by (auto simp: qb_rep_def)

lemma qb_rep_pop:
  assumes rep: "qb_rep q data" and ne: "data \<noteq> []" and off: "qb_iReadOffset q = qb_iBlockSize q"
  shows "tl (qb_lBlocks q) \<noteq> [] \<and>
    qb_rep (q\<lparr>qb_lBlocks := tl (qb_lBlocks q), qb_iReadOffset := 0\<rparr>) data"
proof -
  obtain b bl where bl: "qb_lBlocks q = b # bl"
    using qb_rep_blocks [OF rep ne] by (cases "qb_lBlocks q") auto
  then obtain pre junk where c: "b @ concat bl = pre @ map Some data @ junk"
    "length pre = length b" "length junk = qb_iBlockSize q - qb_iWriteOffset q"
    using rep off by (auto simp: qb_rep_def qb_span_def)
  then have tl: "concat bl = map Some data @ junk" by simp
  with ne have "bl \<noteq> []" by auto
  moreover have "qb_span (concat bl) 0 data (qb_iBlockSize q - qb_iWriteOffset q)"
    by (rule qb_spanI [of _ "[]" _ junk]) (simp_all add: tl c)
  ultimately show ?thesis using rep bl by (auto simp: qb_rep_def)
qed

lemma qb_next_block_rep:
  assumes "qb_rep q data" "data \<noteq> []"
  shows "\<exists>q'. qb_next_block q = Inr (True, q') \<and> qb_rep q' data \<and> qb_iReadOffset q' < qb_iBlockSize q'"
proof (cases "qb_iReadOffset q = qb_iBlockSize q")
  case True
  moreover have "0 < qb_iBlockSize q" using assms(1) by (simp add: qb_rep_def)
  ultimately show ?thesis using qb_rep_pop [OF assms True] qb_rep_blocks [OF assms]
    by (simp add: qb_next_block_def qb_removeBlock_def)
next
  case False
  with assms show ?thesis by (simp add: qb_next_block_def qb_rep_def)
qed

lemma first_block_bytes:
  assumes "b @ rest = pre @ map Some data @ junk" "length pre + k \<le> length b" "k \<le> length data"
  shows "take k (drop (length pre) b) = map Some (take k data)"
proof -
  have "take k (drop (length pre) (b @ rest)) = take k (drop (length pre) b)"
    using assms(2) by simp
  moreover have "take k (drop (length pre) (b @ rest)) = map Some (take k data)"
    unfolding assms(1) using assms(3) by (simp add: take_map)
  ultimately show ?thesis by (rule trans [OF sym])
qed

lemma qb_rep_advance:
  assumes "qb_rep q data" "qb_iReadOffset q + k \<le> qb_iBlockSize q" "k \<le> length data" "qb_lBlocks q \<noteq> []"
  shows "qb_rep (q\<lparr>qb_iReadOffset := qb_iReadOffset q + k, qb_iTotalSize := qb_iTotalSize q - k\<rparr>) (drop k data)"
  using assms qb_span_advance by (auto simp: qb_rep_def)

lemma qb_copy_out_rep:
  assumes rep: "qb_rep q data" and ne: "data \<noteq> []" and off: "qb_iReadOffset q < qb_iBlockSize q"
    and left: "0 < iLeft"
  shows "\<exists>k q'. qb_copy_out iLeft q = Inr (take k data, q') \<and> 0 < k \<and> k \<le> iLeft \<and> k \<le> length data \<and>
    qb_rep q' (drop k data)"
proof -
  define k where "k = min (min (qb_iBlockSize q - qb_iReadOffset q) iLeft) (qb_iTotalSize q)"
  obtain b bl where bl: "qb_lBlocks q = b # bl"
    using qb_rep_blocks [OF rep ne] by (cases "qb_lBlocks q") auto
  have n: "length b = qb_iBlockSize q" "qb_iTotalSize q = length data"
    using rep bl by (auto simp: qb_rep_def)
  then have k: "0 < k" "k \<le> iLeft" "k \<le> length data" "qb_iReadOffset q + k \<le> length b"
    using ne off left by (auto simp: k_def)
  obtain pre junk where "b @ concat bl = pre @ map Some data @ junk" "length pre = qb_iReadOffset q"
    using rep bl by (auto simp: qb_rep_def qb_span_def)
  with k have "take k (drop (qb_iReadOffset q) b) = map Some (take k data)"
    using first_block_bytes [of b "concat bl" pre data junk k] by simp
  with k bl have "qb_copy_out iLeft q =
      Inr (take k data, q\<lparr>qb_iReadOffset := qb_iReadOffset q + k, qb_iTotalSize := qb_iTotalSize q - k\<rparr>)"
    by (simp add: qb_copy_out_def Let_def mem_load_def flip: k_def)
  with qb_rep_advance [OF rep _ k(3)] k bl n show ?thesis by auto
qed

lemma qb_read_loop_rep:
  "qb_rep q data \<Longrightarrow>
   \<exists>q'. qb_read_loop iLeft q = Some (Inr (take iLeft data, q')) \<and> qb_rep q' (drop iLeft data)"
proof (induction iLeft arbitrary: q data rule: less_induct)
  case (less iLeft)
  show ?case
  proof (cases "iLeft > 0 \<and> data \<noteq> []")
    case False
    with less.prems show ?thesis
      by (subst qb_read_loop.simps) (auto simp: qb_rep_def)
  next
    case True
    then have c: "iLeft > 0 \<and> qb_iTotalSize q > 0" using less.prems by (simp add: qb_rep_def)
    obtain q1 where q1: "qb_next_block q = Inr (True, q1)" "qb_rep q1 data"
      "qb_iReadOffset q1 < qb_iBlockSize q1"
      using qb_next_block_rep [OF less.prems] True by blast
    obtain k q2 where q2: "qb_copy_out iLeft q1 = Inr (take k data, q2)" "0 < k" "k \<le> iLeft"
      "k \<le> length data" "qb_rep q2 (drop k data)"
      using qb_copy_out_rep [OF q1(2) _ q1(3)] True by blast
    from less.IH [OF _ q2(5), of "iLeft - k"] q2(2) True obtain q' where
      q': "qb_read_loop (iLeft - k) q2 = Some (Inr (take (iLeft - k) (drop k data), q'))"
      "qb_rep q' (drop (iLeft - k) (drop k data))" by auto
    have "length (take k data) = k" using q2(4) by simp
    with q' c q1 q2 have "qb_read_loop iLeft q =
        Some (Inr (take k data @ take (iLeft - k) (drop k data), q'))"
      by (subst qb_read_loop.simps) simp
    moreover have "take k data @ take (iLeft - k) (drop k data) = take iLeft data"
      using q2(3) take_add [of k "iLeft - k" data] by simp
    ultimately show ?thesis using q'(2) q2(3) by simp
  qed
qed

lemma qb_read_rep:
  assumes "qb_rep q data"
  shows "\<exists>q'. qb_read q n = Some (Inr (take (nat n) data, q')) \<and> qb_rep q' (drop (nat n) data)"
  using qb_read_loop_rep [OF assms, of "nat n"] assms
  by (auto simp: qb_read_def qb_rep_def)

lemma qb_rep_room:
  assumes "qb_rep q data" "qb_lBlocks q \<noteq> []"
  shows "qb_rep (qb_room q) data \<and> qb_lBlocks (qb_room q) \<noteq> [] \<and>
    qb_iWriteOffset (qb_room q) < qb_iBlockSize (qb_room q)"
proof (cases "qb_iWriteOffset q = qb_iBlockSize q")
  case True
  with assms qb_span_extend [of "concat (qb_lBlocks q)" "qb_iReadOffset q" data "replicate (qb_iBlockSize q) None"]
  show ?thesis by (auto simp: qb_room_def qb_rep_def qb_addBlock_def)
next
  case False
  with assms show ?thesis by (simp add: qb_room_def qb_rep_def)
qed

lemma qb_copy_in_rep:
  assumes rep: "qb_rep q data" and bl: "qb_lBlocks q \<noteq> []" and off: "qb_iWriteOffset q < qb_iBlockSize q"
    and ne: "bs \<noteq> []"
  shows "\<exists>k q'. qb_copy_in bs q = Inr (k, q') \<and> 0 < k \<and> k \<le> length bs \<and>
    qb_rep q' (data @ take k bs) \<and> qb_lBlocks q' \<noteq> []"
proof -
  define k where "k = min (qb_iBlockSize q - qb_iWriteOffset q) (length bs)"
  define b where "b = last (qb_lBlocks q)"
  have lb: "length b = qb_iBlockSize q" using rep bl by (simp add: qb_rep_def b_def)
  have k: "0 < k" "k \<le> length bs" "qb_iWriteOffset q + k \<le> length b"
    using off ne lb by (auto simp: k_def)
  let ?w = "qb_iWriteOffset q"
  let ?b' = "take ?w b @ map Some (take k bs) @ drop (?w + k) b"
  have eq: "qb_copy_in bs q = Inr (k, q\<lparr>qb_lBlocks := butlast (qb_lBlocks q) @ [?b'],
      qb_iWriteOffset := ?w + k, qb_iTotalSize := qb_iTotalSize q + k\<rparr>)"
    using bl k by (simp add: qb_copy_in_def Let_def mem_store_def flip: k_def b_def)
  obtain pre junk where c: "concat (qb_lBlocks q) = pre @ map Some data @ junk"
    "length pre = qb_iReadOffset q" "length junk = qb_iBlockSize q - ?w"
    using rep bl by (auto simp: qb_rep_def qb_span_def)
  have "qb_lBlocks q = butlast (qb_lBlocks q) @ [b]" using bl by (simp add: b_def)
  then have "concat (qb_lBlocks q) = concat (butlast (qb_lBlocks q)) @ b"
    by (metis concat.simps concat_append append_Nil2)
  then have "(concat (butlast (qb_lBlocks q)) @ take ?w b) @ drop ?w b = (pre @ map Some data) @ junk"
    using c(1) by simp
  moreover have "length (drop ?w b) = length junk" using c(3) lb by simp
  ultimately have "concat (butlast (qb_lBlocks q)) @ take ?w b = pre @ map Some data"
    by (metis append_eq_append_conv)
  then have "concat (butlast (qb_lBlocks q) @ [?b']) =
      pre @ map Some (data @ take k bs) @ drop (?w + k) b" by simp
  then have "qb_span (concat (butlast (qb_lBlocks q) @ [?b'])) (qb_iReadOffset q) (data @ take k bs)
      (qb_iBlockSize q - (?w + k))"
    by (rule qb_spanI) (simp_all add: c(2) lb)
  moreover have "\<forall>x \<in> set (butlast (qb_lBlocks q) @ [?b']). length x = qb_iBlockSize q"
    using rep k lb by (auto simp: qb_rep_def dest: in_set_butlastD)
  ultimately have "qb_rep (q\<lparr>qb_lBlocks := butlast (qb_lBlocks q) @ [?b'],
      qb_iWriteOffset := ?w + k, qb_iTotalSize := qb_iTotalSize q + k\<rparr>) (data @ take k bs)"
    using rep k lb by (auto simp: qb_rep_def)
  with eq k show ?thesis by auto
qed

lemma qb_write_loop_rep:
  "qb_rep q data \<Longrightarrow> qb_lBlocks q \<noteq> [] \<Longrightarrow>
   \<exists>q'. qb_write_loop bs q = Some (Inr q') \<and> qb_rep q' (data @ bs)"
proof (induction "length bs" arbitrary: bs q data rule: less_induct)
  case less
  show ?case
  proof (cases "bs = []")
    case True
    with less.prems show ?thesis by (simp add: qb_write_loop.simps)
  next
    case False
    have room: "qb_rep (qb_room q) data" "qb_lBlocks (qb_room q) \<noteq> []"
      "qb_iWriteOffset (qb_room q) < qb_iBlockSize (qb_room q)"
      using qb_rep_room [OF less.prems] by auto
    obtain k q1 where q1: "qb_copy_in bs (qb_room q) = Inr (k, q1)" "0 < k" "k \<le> length bs"
      "qb_rep q1 (data @ take k bs)" "qb_lBlocks q1 \<noteq> []"
      using qb_copy_in_rep [OF room False] by blast
    have "length (drop k bs) < length bs" using q1(2,3) by simp
    from less.hyps [OF this q1(4,5)] q1(1) False show ?thesis
      by (simp add: qb_write_loop.simps [of bs q])
  qed
qed

lemma qb_write_rep:
  assumes rep: "qb_rep q data"
  shows "\<exists>q'. qb_write q bs = Some (Inr (int (length bs), q')) \<and> qb_rep q' (data @ bs)"
proof (cases "bs = []")
  case True
  with rep show ?thesis by (simp add: qb_write_def)
next
  case False
  define q1 where "q1 = (if qb_lBlocks q = [] then (qb_addBlock q)\<lparr>qb_iWriteOffset := 0\<rparr> else q)"
  have "qb_rep q1 data" "qb_lBlocks q1 \<noteq> []"
    using rep by (auto simp: q1_def qb_rep_def qb_addBlock_def qb_span_def)
  from qb_write_loop_rep [OF this, of bs] False show ?thesis
    by (auto simp: qb_write_def Let_def simp flip: q1_def)
qed

lemma qb_seek_loop_rep:
  "qb_lBlocks q \<noteq> [] \<Longrightarrow> data \<noteq> [] \<Longrightarrow> 0 < qb_iBlockSize q \<Longrightarrow>
   (\<forall>b \<in> set (qb_lBlocks q). length b = qb_iBlockSize q) \<Longrightarrow>
   qb_iWriteOffset q \<le> qb_iBlockSize q \<Longrightarrow> qb_iTotalSize q = length data \<Longrightarrow>
   qb_span (concat (qb_lBlocks q)) (qb_iReadOffset q) data (qb_iBlockSize q - qb_iWriteOffset q) \<Longrightarrow>
   \<exists>q'. qb_seek_loop q = Inr q' \<and> qb_rep q' data"
proof (induction q rule: qb_seek_loop.induct)
  case (1 q)
  show ?case
  proof (cases "qb_iReadOffset q \<ge> qb_iBlockSize q")
    case False
    with "1.prems" show ?thesis by (subst qb_seek_loop.simps) (simp add: qb_rep_def)
  next
    case True
    obtain b bl where bl: "qb_lBlocks q = b # bl" using "1.prems"(1) by (cases "qb_lBlocks q") auto
    obtain pre junk where c: "b @ concat bl = pre @ map Some data @ junk"
      "length pre = qb_iReadOffset q" "length junk = qb_iBlockSize q - qb_iWriteOffset q"
      using "1.prems"(7) bl by (auto simp: qb_span_def)
    have lb: "length b = qb_iBlockSize q" using "1.prems"(4) bl by simp
    have "concat bl = drop (length b) (pre @ map Some data @ junk)" by (simp flip: c(1))
    then have tl: "concat bl = drop (length b) pre @ map Some data @ junk" using True c(2) lb by simp
    then have "bl \<noteq> []" using "1.prems"(2) by auto
    moreover have "qb_span (concat bl) (qb_iReadOffset q - qb_iBlockSize q) data
        (qb_iBlockSize q - qb_iWriteOffset q)"
      by (rule qb_spanI [OF tl]) (simp_all add: c lb)
    ultimately show ?thesis
      using "1.IH" True "1.prems" bl by (subst qb_seek_loop.simps) simp
  qed
qed

lemma qb_seek_rep:
  assumes rep: "qb_rep q data"
  shows "\<exists>q'. qb_seek q n = Inr q' \<and> qb_rep q' (drop (nat n) data)"
proof -
  have t: "qb_iTotalSize q = length data" using rep by (simp add: qb_rep_def)
  consider "n \<le> 0" | "0 < n" "n \<ge> int (length data)" | "0 < n" "nat n < length data" by linarith
  then show ?thesis
  proof cases
    case 1
    with rep show ?thesis by (simp add: qb_seek_def)
  next
    case 2
    with t qb_rep_close [OF rep] show ?thesis by (simp add: qb_seek_def)
  next
    case 3
    then have "data \<noteq> []" by auto
    then have bl: "qb_lBlocks q \<noteq> []" by (rule qb_rep_blocks [OF rep])
    have "qb_span (concat (qb_lBlocks q)) (qb_iReadOffset q + nat n) (drop (nat n) data)
        (qb_iBlockSize q - qb_iWriteOffset q)"
      using qb_span_advance [of "concat (qb_lBlocks q)" "qb_iReadOffset q" data _ "nat n"] rep bl 3
      by (simp add: qb_rep_def)
    with qb_seek_loop_rep [of "q\<lparr>qb_iReadOffset := qb_iReadOffset q + nat n,
          qb_iTotalSize := qb_iTotalSize q - nat n\<rparr>" "drop (nat n) data"] rep bl 3
    obtain q' where "qb_seek_loop (q\<lparr>qb_iReadOffset := qb_iReadOffset q + nat n,
        qb_iTotalSize := qb_iTotalSize q - nat n\<rparr>) = Inr q'" "qb_rep q' (drop (nat n) data)"
      by (auto simp: qb_rep_def)
    moreover have "\<not> n \<le> 0" "\<not> n \<ge> int (qb_iTotalSize q)" using 3 t by auto
    ultimately show ?thesis by (simp add: qb_seek_def)
  qed
qed

text \<open>\<open>peek\<close> with a skip inside the first block, and enough data behind it.\<close>

lemma qb_peek_loop_rep:
  "qb_span (concat blks) off data w \<Longrightarrow> 0 < bs \<Longrightarrow> (\<forall>b \<in> set blks. length b = bs) \<Longrightarrow>
   off \<le> bs \<Longrightarrow> blks \<noteq> [] \<Longrightarrow>
   qb_peek_loop bs iLeft (length data) (int off) blks = Some (Inr (take iLeft data))"
proof (induction iLeft arbitrary: blks off data rule: less_induct)
  case (less iLeft)
  show ?case
  proof (cases "iLeft > 0 \<and> data \<noteq> []")
    case False
    then show ?thesis by (subst qb_peek_loop.simps) auto
  next
    case True
    define bl where "bl = (if off = bs then tl blks else blks)"
    define o' where "o' = (if off = bs then 0 else off)"
    have sp: "qb_span (concat bl) o' data w" "bl \<noteq> []" "\<forall>b \<in> set bl. length b = bs" "o' < bs"
    proof -
      obtain b bl' where b: "blks = b # bl'" using less.prems(5) by (cases blks) auto
      have "qb_span (concat bl') 0 data w \<and> bl' \<noteq> []" if off: "off = bs"
      proof -
        obtain pre junk where c: "b @ concat bl' = pre @ map Some data @ junk" "length pre = length b"
          "length junk = w" using less.prems(1,3) b off by (auto simp: qb_span_def)
        then have "concat bl' = [] @ map Some data @ junk" by simp
        from qb_spanI [OF this, of 0 w] c this True show ?thesis by auto
      qed
      with less.prems b show "qb_span (concat bl) o' data w" "bl \<noteq> []"
        "\<forall>b \<in> set bl. length b = bs" "o' < bs" by (auto simp: bl_def o'_def)
    qed
    obtain b bl' where b: "bl = b # bl'" using sp(2) by (cases bl) auto
    define k where "k = min (min (bs - o') iLeft) (length data)"
    have k: "0 < k" "k \<le> iLeft" "k \<le> length data" "o' + k \<le> bs"
      using True sp(4) by (auto simp: k_def)
    obtain pre junk where c: "b @ concat bl' = pre @ map Some data @ junk" "length pre = o'"
      using sp(1) b by (auto simp: qb_span_def)
    have lb: "length b = bs" using sp(3) b by simp
    have "take k (drop o' b) = map Some (take k data)"
      using first_block_bytes [OF c(1)] k c(2) lb by simp
    then have ld: "rbind (mem_load b (int o') (int k)) init_bytes = Inr (take k data)"
      using k lb by (simp add: mem_load_def)
    have step: "qb_peek_loop bs iLeft (length data) (int off) blks =
        Option.bind (qb_peek_loop bs (iLeft - k) (length data - k) (int o' + int k) bl)
          (\<lambda>r. Some (rbind r (\<lambda>ys. Inr (take k data @ ys))))"
    proof -
      have "nat (int bs - int o') = bs - o'" by simp
      with True ld b less.prems(5) show ?thesis
        by (subst qb_peek_loop.simps) (auto simp: bl_def o'_def k_def Let_def)
    qed
    have "qb_peek_loop bs (iLeft - k) (length (drop k data)) (int (o' + k)) bl =
        Some (Inr (take (iLeft - k) (drop k data)))"
      by (rule less.IH) (use k True sp less.prems(2) qb_span_advance [OF sp(1) k(3)] in auto)
    with step have "qb_peek_loop bs iLeft (length data) (int off) blks =
        Some (Inr (take k data @ take (iLeft - k) (drop k data)))" by simp
    moreover have "take k data @ take (iLeft - k) (drop k data) = take iLeft data"
      using k(2) take_add [of k "iLeft - k" data] by simp
    ultimately show ?thesis by simp
  qed
qed

lemma qb_peek_rep:
  assumes rep: "qb_rep q data"
  shows "qb_peek q n 0 = Some (Inr (take (nat n) data))"
proof (cases "n \<le> 0 \<or> qb_lBlocks q = []")
  case True
  with rep show ?thesis by (auto simp: qb_peek_def qb_rep_def)
next
  case False
  then obtain b bl where bl: "qb_lBlocks q = b # bl" by (cases "qb_lBlocks q") auto
  have "\<not> int (qb_iReadOffset q) > int (qb_iBlockSize q)" using rep by (simp add: qb_rep_def)
  with False bl rep qb_peek_loop_rep [of "qb_lBlocks q" "qb_iReadOffset q" data
      "qb_iBlockSize q - qb_iWriteOffset q" "qb_iBlockSize q" "nat n"]
  show ?thesis by (simp add: qb_peek_def qb_rep_def)
qed

section \<open>The queue as a source and a sink\<close>

text \<open>
  The loops return on every buffer with a positive block size, so an operation of the stream
  interface is its value.
\<close>

definition qb_source :: "queue_buf \<Rightarrow> int \<Rightarrow> (byte list \<times> queue_buf) result" where
  "qb_source q n = (case qb_read q n of None \<Rightarrow> Inl Out_Of_Bounds | Some r \<Rightarrow> r)"

definition qb_sink :: "queue_buf \<Rightarrow> byte list \<Rightarrow> (int \<times> queue_buf) result" where
  "qb_sink q bs = (case qb_write q bs of None \<Rightarrow> Inl Out_Of_Bounds | Some r \<Rightarrow> r)"

text \<open>The bytes in a buffer, computed: the written slots between the two offsets.\<close>

definition qb_bytes :: "queue_buf \<Rightarrow> byte list" where
  "qb_bytes q = map the (take (qb_iTotalSize q) (drop (qb_iReadOffset q) (concat (qb_lBlocks q))))"

definition qb_wf :: "queue_buf \<Rightarrow> bool" where
  "qb_wf q \<longleftrightarrow> qb_rep q (qb_bytes q)"

lemma qb_rep_bytes: "qb_rep q data \<Longrightarrow> qb_bytes q = data"
  by (cases "qb_lBlocks q = []") (auto simp: qb_rep_def qb_bytes_def qb_span_def comp_def)

lemma qb_rep_wf: "qb_rep q data \<Longrightarrow> qb_wf q \<and> qb_bytes q = data"
  by (simp add: qb_wf_def qb_rep_bytes)

lemma qb_source_wf:
  assumes "qb_wf q"
  shows "\<exists>q'. qb_source q n = Inr (take (nat n) (qb_bytes q), q') \<and> qb_wf q' \<and>
    qb_bytes q' = drop (nat n) (qb_bytes q)"
  using qb_read_rep [of q "qb_bytes q" n] assms by (auto simp: qb_source_def qb_wf_def dest: qb_rep_wf)

interpretation queuebuf: eos_source qb_source qb_bytes qb_wf qb_isEos
proof (unfold_locales, goal_cases)
  case (1 q n)
  with qb_source_wf [OF 1(1), of n] show ?case by (auto simp: min_def)
next
  case (2 q)
  then show ?case by (auto simp: qb_isEos_def qb_wf_def qb_rep_def)
qed

interpretation queuebuf: exact_source qb_source qb_bytes qb_wf
proof (unfold_locales, goal_cases)
  case (1 q n bs q')
  with qb_source_wf [OF 1(1), of n] show ?case by auto
qed

interpretation queuebuf_sink: full_sink qb_sink qb_bytes qb_wf
proof (unfold_locales, goal_cases)
  case (1 q bs)
  with qb_write_rep [of q "qb_bytes q" bs] show ?case
    by (intro exI [of _ "length bs"]) (auto simp: qb_sink_def qb_wf_def dest: qb_rep_wf)
next
  case (2 q bs n q')
  with qb_write_rep [of q "qb_bytes q" bs] show ?case by (auto simp: qb_sink_def qb_wf_def)
qed

section \<open>Properties\<close>

text \<open>
  C13. Any chunks written to a new queue buffer with a positive block size come out in order
  under reads of any sizes: every operation returns, never touches a block that is not there or a
  byte that was not written, and what is left over stays queued.
\<close>

theorem queuebuf_fifo:
  assumes "0 < n"
  shows "\<exists>q q' bss. write_chunks qb_sink (qb_new n) cs = Inr q \<and>
    read_chunks qb_source q ns = Inr (bss, q') \<and>
    concat bss = take (sum_list ns) (concat cs) \<and> qb_bytes q' = drop (sum_list ns) (concat cs) \<and>
    qb_getSize q' = length (concat cs) - sum_list ns"
proof -
  obtain q where q: "write_chunks qb_sink (qb_new n) cs = Inr q" "qb_wf q" "qb_bytes q = concat cs"
    using queuebuf_sink.write_chunks_law [of "qb_new n" cs] qb_rep_wf [OF qb_rep_new [OF assms]] by auto
  from queuebuf.read_chunks_law [OF q(2), of ns] q(3) obtain bss q' where
    q': "read_chunks qb_source q ns = Inr (bss, q')" "qb_wf q'"
    "concat bss = take (sum_list ns) (concat cs)" "qb_bytes q' = drop (sum_list ns) (concat cs)" by auto
  then have "qb_getSize q' = length (concat cs) - sum_list ns"
    by (simp add: qb_wf_def qb_rep_def qb_getSize_def)
  with q q' show ?thesis by blast
qed

theorem queuebuf_fifo_witness:
  "\<exists>q q' bss. write_chunks qb_sink (qb_new 2) [[1, 2, 3], [4, 5]] = Inr q \<and>
    read_chunks qb_source q [1, 3] = Inr (bss, q') \<and>
    concat bss = [1, 2, 3, 4] \<and> qb_bytes q' = [5] \<and> qb_getSize q' = 1"
  using queuebuf_fifo [of 2 "[[1, 2, 3], [4, 5]]" "[1, 3]"] by simp

text \<open>
  On a well-formed buffer \<open>peek\<close> returns what a \<open>read\<close> of the same size would, and
  \<open>seek\<close> drops exactly that many bytes (all of them when there are not as many), keeping the
  buffer well formed.
\<close>

theorem queuebuf_peek_seek:
  assumes "qb_wf q"
  shows "(\<exists>q'. qb_read q n = Some (Inr (take (nat n) (qb_bytes q), q'))) \<and>
    qb_peek q n 0 = Some (Inr (take (nat n) (qb_bytes q))) \<and>
    (\<exists>q'. qb_seek q n = Inr q' \<and> qb_wf q' \<and> qb_bytes q' = drop (nat n) (qb_bytes q))"
  using qb_read_rep [of q "qb_bytes q" n] qb_peek_rep [of q "qb_bytes q" n]
    qb_seek_rep [of q "qb_bytes q" n] assms
  by (auto simp: qb_wf_def dest: qb_rep_wf)

text \<open>A buffer with two bytes in blocks of two, of which one has been read.\<close>

definition qb_sample :: queue_buf where
  "qb_sample = \<lparr>qb_iBlockSize = 2, qb_iReadOffset = 1, qb_iWriteOffset = 1, qb_iTotalSize = 2,
     qb_lBlocks = [[Some 7, Some 8], [Some 9, None]]\<rparr>"

lemma qb_sample_rep: "qb_rep qb_sample [8, 9]"
  by (simp add: qb_rep_def qb_sample_def qb_spanI [of _ "[Some 7]" _ "[None]"])

theorem queuebuf_peek_seek_witness:
  "(\<exists>q'. qb_read qb_sample 1 = Some (Inr ([8], q'))) \<and> qb_peek qb_sample 1 0 = Some (Inr [8]) \<and>
    (\<exists>q'. qb_seek qb_sample 1 = Inr q' \<and> qb_wf q' \<and> qb_bytes q' = [9])"
  using queuebuf_peek_seek [of qb_sample 1] qb_rep_wf [OF qb_sample_rep] by simp

text \<open>
  \<open>peek\<close> with a skip reads past the data: it subtracts nothing from the size that remains,
  so peeking two bytes behind the first of the two in the buffer copies a byte that was never
  written, where it should return the one byte there is.
\<close>

theorem queuebuf_peek_skip_overreads:
  "qb_bytes qb_sample = [8, 9] \<and> qb_peek qb_sample 2 1 = Some (Inl Out_Of_Bounds)"
  by (simp add: qb_bytes_def qb_sample_def qb_peek_def qb_peek_loop.simps mem_load_def init_bytes_def)

end
