(* ===== verification/Bu_Buffer.thy ===== *)
theory Bu_Buffer
  imports Bu_Stream
begin

text \<open>
  Two filters over any stream: \<open>Bu::Buffer\<close> (\<open>src/stable/buffer.cpp\<close>), which reads ahead and
  collects writes in arrays of \<open>iBufSize\<close> bytes, and \<open>Bu::SubStream\<close> (\<open>substream.cpp\<close>), a window
  of fixed size. The next stream is a parameter: its state \<open>bf_rNext\<close> and its \<open>read\<close> and \<open>write\<close>.
\<close>

section \<open>\<open>Buffer\<close>\<close>

record 's buffer =
  bf_rNext :: 's
  bf_iBufSize :: nat
  bf_sReadBuf :: "byte option list"
  bf_sWriteBuf :: "byte option list"
  bf_iReadBufFill :: nat
  bf_iReadPos :: nat
  bf_iWriteBufFill :: nat
  bf_iWritePos :: nat
  bf_iWhat :: nat

definition bf_new :: "'s \<Rightarrow> nat \<Rightarrow> nat \<Rightarrow> 's buffer" where
  "bf_new rNext iWhat iBufSize =
     \<lparr>bf_rNext = rNext, bf_iBufSize = iBufSize, bf_sReadBuf = replicate iBufSize None,
      bf_sWriteBuf = replicate iBufSize None, bf_iReadBufFill = 0, bf_iReadPos = 0,
      bf_iWriteBufFill = 0, bf_iWritePos = 0, bf_iWhat = iWhat\<rparr>"

definition bf_reads :: "'s buffer \<Rightarrow> bool" where
  "bf_reads b \<longleftrightarrow> bf_iWhat b AND 2 \<noteq> 0"

definition bf_writes :: "'s buffer \<Rightarrow> bool" where
  "bf_writes b \<longleftrightarrow> bf_iWhat b AND 1 \<noteq> 0"

subsection \<open>Reading\<close>

definition bf_fillReadBuf :: "('s \<Rightarrow> int \<Rightarrow> (byte list \<times> 's) result) \<Rightarrow> 's buffer \<Rightarrow> 's buffer result" where
  "bf_fillReadBuf rd b =
     (if bf_iReadBufFill b + bf_iReadPos b < bf_iBufSize b
      then rbind (rd (bf_rNext b) (int (bf_iBufSize b - bf_iReadBufFill b - bf_iReadPos b))) (\<lambda>(bs, s).
           rbind (mem_store (bf_sReadBuf b) (int (bf_iReadPos b + bf_iReadBufFill b)) (map Some bs)) (\<lambda>a.
             Inr (b\<lparr>bf_rNext := s, bf_sReadBuf := a, bf_iReadBufFill := bf_iReadBufFill b + length bs\<rparr>)))
      else Inr b)"

text \<open>One round of the loop of \<open>read\<close>, with \<open>n\<close> bytes still wanted.\<close>

definition bf_take :: "nat \<Rightarrow> 's buffer \<Rightarrow> (byte list \<times> 's buffer) result" where
  "bf_take n b =
     (let iAmnt = min (c_int (int n)) (int (bf_iReadBufFill b))
      in if iAmnt > 0
         then rbind (mem_load (bf_sReadBuf b) (int (bf_iReadPos b)) iAmnt) (\<lambda>xs.
              rbind (init_bytes xs) (\<lambda>bs.
                Inr (bs, b\<lparr>bf_iReadPos := bf_iReadPos b + nat iAmnt,
                          bf_iReadBufFill := bf_iReadBufFill b - nat iAmnt\<rparr>)))
         else Inr ([], b))"

definition bf_read_step ::
    "('s \<Rightarrow> int \<Rightarrow> (byte list \<times> 's) result) \<Rightarrow> nat \<Rightarrow> 's buffer \<Rightarrow> (byte list \<times> 's buffer) result" where
  "bf_read_step rd n b =
     rbind (bf_take n b) (\<lambda>(bs, b1).
       if bf_iReadBufFill b1 = 0
       then rbind (bf_fillReadBuf rd (b1\<lparr>bf_iReadPos := 0\<rparr>)) (\<lambda>b2. Inr (bs, b2))
       else Inr (bs, b1))"

partial_function (option) bf_read_loop ::
    "('s \<Rightarrow> int \<Rightarrow> (byte list \<times> 's) result) \<Rightarrow> nat \<Rightarrow> 's buffer \<Rightarrow> (byte list \<times> 's buffer) result option" where
  "bf_read_loop rd n b =
     (case bf_read_step rd n b of Inl e \<Rightarrow> Some (Inl e)
      | Inr xb \<Rightarrow>
          (if length (fst xb) < n \<and> bf_iReadBufFill (snd xb) > 0
           then Option.bind (bf_read_loop rd (n - length (fst xb)) (snd xb))
                  (\<lambda>r. Some (rbind r (\<lambda>ys. Inr (fst xb @ fst ys, snd ys))))
           else Some (Inr xb)))"

definition bf_read ::
    "('s \<Rightarrow> int \<Rightarrow> (byte list \<times> 's) result) \<Rightarrow> 's buffer \<Rightarrow> int \<Rightarrow> (byte list \<times> 's buffer) result option" where
  "bf_read rd b nBytes =
     (if \<not> bf_reads b
      then Some (rbind (rd (bf_rNext b) nBytes) (\<lambda>(bs, s). Inr (bs, b\<lparr>bf_rNext := s\<rparr>)))
      else if nBytes \<le> 0 then Some (rbind (bf_fillReadBuf rd b) (\<lambda>b'. Inr ([], b')))
      else bf_read_loop rd (nat nBytes) b)"

definition bf_isEos :: "('s \<Rightarrow> bool) \<Rightarrow> 's buffer \<Rightarrow> bool" where
  "bf_isEos eos b \<longleftrightarrow> int (bf_iReadPos b) \<ge> int (bf_iReadBufFill b) - 1 \<and> eos (bf_rNext b)"

subsection \<open>Writing\<close>

text \<open>The inner loop of \<open>write\<close>: while the array is full to its end, hand it on. The flag is
  false when the next stream took nothing.\<close>

partial_function (option) bf_drain ::
    "('s \<Rightarrow> byte list \<Rightarrow> (int \<times> 's) result) \<Rightarrow> 's buffer \<Rightarrow> (bool \<times> 's buffer) result option" where
  "bf_drain wr b =
     (if bf_iWritePos b + bf_iWriteBufFill b = bf_iBufSize b
      then case rbind (rbind (mem_load (bf_sWriteBuf b) (int (bf_iWritePos b)) (int (bf_iWriteBufFill b))) init_bytes)
                  (wr (bf_rNext b)) of
             Inl e \<Rightarrow> Some (Inl e)
           | Inr ns \<Rightarrow>
              (if fst ns = 0 then Some (Inr (False, b\<lparr>bf_rNext := snd ns\<rparr>))
               else if fst ns = int (bf_iWriteBufFill b)
               then bf_drain wr (b\<lparr>bf_rNext := snd ns, bf_iWritePos := 0, bf_iWriteBufFill := 0\<rparr>)
               else bf_drain wr (b\<lparr>bf_rNext := snd ns,
                      bf_iWritePos := nat (int (bf_iWritePos b) + fst ns),
                      bf_iWriteBufFill := nat (int (bf_iWriteBufFill b) - fst ns)\<rparr>))
      else Some (Inr (True, b)))"

definition bf_put :: "byte list \<Rightarrow> 's buffer \<Rightarrow> (nat \<times> 's buffer) result" where
  "bf_put bs b =
     (let iAmnt = min (c_int (int (length bs))) (int (bf_iBufSize b) - int (bf_iWritePos b) - int (bf_iWriteBufFill b))
      in if iAmnt > 0
         then rbind (mem_store (bf_sWriteBuf b) (int (bf_iWritePos b + bf_iWriteBufFill b))
                       (map Some (take (nat iAmnt) bs))) (\<lambda>a.
              Inr (nat iAmnt, b\<lparr>bf_sWriteBuf := a, bf_iWriteBufFill := bf_iWriteBufFill b + nat iAmnt\<rparr>))
         else Inr (0, b))"

partial_function (option) bf_write_loop ::
    "('s \<Rightarrow> byte list \<Rightarrow> (int \<times> 's) result) \<Rightarrow> byte list \<Rightarrow> 's buffer \<Rightarrow> (nat \<times> 's buffer) result option" where
  "bf_write_loop wr bs b =
     (case bf_put bs b of Inl e \<Rightarrow> Some (Inl e)
      | Inr kb \<Rightarrow> Option.bind (bf_drain wr (snd kb)) (\<lambda>r.
          (case r of Inl e \<Rightarrow> Some (Inl e)
           | Inr fb \<Rightarrow>
              (if fst fb \<and> fst kb < length bs \<and>
                  bf_iWriteBufFill (snd fb) < bf_iBufSize (snd fb) + bf_iWritePos (snd fb)
               then Option.bind (bf_write_loop wr (drop (fst kb) bs) (snd fb))
                      (\<lambda>r'. Some (rbind r' (\<lambda>nb. Inr (fst kb + fst nb, snd nb))))
               else Some (Inr (fst kb, snd fb))))))"

definition bf_write ::
    "('s \<Rightarrow> byte list \<Rightarrow> (int \<times> 's) result) \<Rightarrow> 's buffer \<Rightarrow> byte list \<Rightarrow> (int \<times> 's buffer) result option" where
  "bf_write wr b bs =
     (if \<not> bf_writes b
      then Some (rbind (wr (bf_rNext b) bs) (\<lambda>(n, s). Inr (n, b\<lparr>bf_rNext := s\<rparr>)))
      else map_option (\<lambda>r. rbind r (\<lambda>nb. Inr (int (fst nb), snd nb))) (bf_write_loop wr bs b))"

partial_function (option) bf_flush_loop ::
    "('s \<Rightarrow> byte list \<Rightarrow> (int \<times> 's) result) \<Rightarrow> 's buffer \<Rightarrow> 's buffer result option" where
  "bf_flush_loop wr b =
     (case rbind (rbind (mem_load (bf_sWriteBuf b) (int (bf_iWritePos b)) (int (bf_iWriteBufFill b))) init_bytes)
             (wr (bf_rNext b)) of
        Inl e \<Rightarrow> Some (Inl e)
      | Inr ns \<Rightarrow>
          (let b' = b\<lparr>bf_rNext := snd ns, bf_iWritePos := nat (int (bf_iWritePos b) + fst ns),
                      bf_iWriteBufFill := nat (int (bf_iWriteBufFill b) - fst ns)\<rparr>
           in if bf_iWriteBufFill b' > 0 \<and> fst ns > 0 then bf_flush_loop wr b' else Some (Inr b')))"

definition bf_flush ::
    "('s \<Rightarrow> byte list \<Rightarrow> (int \<times> 's) result) \<Rightarrow> ('s \<Rightarrow> 's) \<Rightarrow> 's buffer \<Rightarrow> 's buffer result option" where
  "bf_flush wr fl b =
     (if \<not> bf_writes b then Some (Inr (b\<lparr>bf_rNext := fl (bf_rNext b)\<rparr>))
      else if bf_iWriteBufFill b > 0 then bf_flush_loop wr b
      else Some (Inr b))"

definition bf_stop ::
    "('s \<Rightarrow> byte list \<Rightarrow> (int \<times> 's) result) \<Rightarrow> ('s \<Rightarrow> 's) \<Rightarrow> 's buffer \<Rightarrow> 's buffer result option" where
  "bf_stop wr fl b = map_option (\<lambda>r. rbind r (\<lambda>b'. Inr (b'\<lparr>bf_iReadBufFill := 0, bf_iReadPos := 0,
     bf_iWriteBufFill := 0, bf_iWritePos := 0\<rparr>))) (bf_flush wr fl b)"

section \<open>What the two arrays hold\<close>

text \<open>\<open>buf_holds a p n data\<close>: the \<open>n\<close> bytes from \<open>p\<close> on of the array are \<open>data\<close>.\<close>

definition buf_holds :: "byte option list \<Rightarrow> nat \<Rightarrow> nat \<Rightarrow> byte list \<Rightarrow> bool" where
  "buf_holds a p n data \<longleftrightarrow> p + n \<le> length a \<and> take n (drop p a) = map Some data"

lemma buf_holds_length: "buf_holds a p n data \<Longrightarrow> length data = n"
  unfolding buf_holds_def by (metis length_map length_take length_drop add_le_imp_le_diff min.absorb2
      add.commute)

lemma buf_holds_nil: "p \<le> length a \<Longrightarrow> buf_holds a p 0 []"
  by (simp add: buf_holds_def)

lemma buf_holds_load:
  assumes "buf_holds a p n data" "k \<le> n"
  shows "rbind (mem_load a (int p) (int k)) init_bytes = Inr (take k data)"
proof -
  have "take k (drop p a) = take k (take n (drop p a))" using assms(2) by (simp add: min_absorb1)
  with assms show ?thesis by (simp add: buf_holds_def mem_load_def take_map)
qed

lemma buf_holds_advance:
  assumes "buf_holds a p n data" "k \<le> n"
  shows "buf_holds a (p + k) (n - k) (drop k data)"
proof -
  have "take (n - k) (drop (p + k) a) = drop k (take n (drop p a))"
    by (simp add: drop_take add.commute)
  with assms show ?thesis by (simp add: buf_holds_def drop_map)
qed

lemma buf_holds_extend:
  assumes "buf_holds a p n data" "p + n + length bs \<le> length a"
  shows "\<exists>a'. mem_store a (int (p + n)) (map Some bs) = Inr a' \<and> length a' = length a \<and>
    buf_holds a' p (n + length bs) (data @ bs)"
proof -
  let ?a = "take (p + n) a @ map Some bs @ drop (p + n + length bs) a"
  have "drop p ?a = take n (drop p a) @ map Some bs @ drop (p + n + length bs) a"
    using assms by (simp add: drop_take buf_holds_def)
  with assms have "take (n + length bs) (drop p ?a) = map Some data @ map Some bs"
    using buf_holds_length [OF assms(1)] by (simp add: buf_holds_def)
  moreover have "mem_store a (int (p + n)) (map Some bs) = Inr ?a"
    using assms(2) by (simp add: mem_store_def nat_int_add)
  moreover have "buf_holds ?a p (n + length bs) (data @ bs)"
    unfolding buf_holds_def map_append
  proof
    show "p + (n + length bs) \<le> length ?a" using assms(2) by simp
    show "take (n + length bs) (drop p ?a) = map Some data @ map Some bs" by fact
  qed
  ultimately show ?thesis using assms(2) by auto
qed

definition bf_rok :: "'s buffer \<Rightarrow> byte list \<Rightarrow> bool" where
  "bf_rok b data \<longleftrightarrow> 0 < bf_iBufSize b \<and> length (bf_sReadBuf b) = bf_iBufSize b \<and>
     buf_holds (bf_sReadBuf b) (bf_iReadPos b) (bf_iReadBufFill b) data"

definition bf_wok :: "'s buffer \<Rightarrow> byte list \<Rightarrow> bool" where
  "bf_wok b data \<longleftrightarrow> 0 < bf_iBufSize b \<and> length (bf_sWriteBuf b) = bf_iBufSize b \<and>
     buf_holds (bf_sWriteBuf b) (bf_iWritePos b) (bf_iWriteBufFill b) data"

lemma bf_rok_fill: "bf_rok b data \<Longrightarrow> bf_iReadBufFill b = length data"
  by (auto simp: bf_rok_def dest: buf_holds_length)

lemma bf_wok_fill: "bf_wok b data \<Longrightarrow> bf_iWriteBufFill b = length data"
  by (auto simp: bf_wok_def dest: buf_holds_length)

section \<open>Buffered reads\<close>

context byte_source begin

lemma bf_fill_law:
  assumes ok: "bf_rok b data" and g: "good (bf_rNext b)"
  shows "\<exists>b' data'. bf_fillReadBuf rd b = Inr b' \<and> bf_rok b' data' \<and> good (bf_rNext b') \<and>
    bf_iWhat b' = bf_iWhat b \<and>
    data' @ pending (bf_rNext b') = data @ pending (bf_rNext b) \<and>
    (data = [] \<and> bf_iReadPos b = 0 \<and> data' = [] \<longrightarrow> pending (bf_rNext b') = [])"
proof (cases "bf_iReadBufFill b + bf_iReadPos b < bf_iBufSize b")
  case False
  with ok g bf_rok_fill [OF ok] show ?thesis
    by (auto simp: bf_fillReadBuf_def bf_rok_def)
next
  case True
  let ?n = "bf_iBufSize b - bf_iReadBufFill b - bf_iReadPos b"
  obtain bs s where rd: "rd (bf_rNext b) (int ?n) = Inr (bs, s)" "good s"
    "pending (bf_rNext b) = bs @ pending s" "length bs \<le> ?n"
    "pending (bf_rNext b) \<noteq> [] \<longrightarrow> bs \<noteq> []"
    using rd_law [OF g, of "int ?n"] True by auto
  have h: "buf_holds (bf_sReadBuf b) (bf_iReadPos b) (bf_iReadBufFill b) data"
    "length (bf_sReadBuf b) = bf_iBufSize b" using ok by (auto simp: bf_rok_def)
  have "bf_iReadPos b + bf_iReadBufFill b + length bs \<le> length (bf_sReadBuf b)"
    using rd(4) True h(2) by simp
  from buf_holds_extend [OF h(1) this] obtain a' where a':
    "mem_store (bf_sReadBuf b) (int (bf_iReadPos b + bf_iReadBufFill b)) (map Some bs) = Inr a'"
    "length a' = length (bf_sReadBuf b)"
    "buf_holds a' (bf_iReadPos b) (bf_iReadBufFill b + length bs) (data @ bs)" by blast
  define b' where "b' = b\<lparr>bf_rNext := s, bf_sReadBuf := a', bf_iReadBufFill := bf_iReadBufFill b + length bs\<rparr>"
  have "bf_fillReadBuf rd b = Inr b'"
    using True rd(1) a'(1) by (simp add: bf_fillReadBuf_def b'_def)
  moreover have "bf_rok b' (data @ bs)" using ok a' h by (simp add: bf_rok_def b'_def)
  ultimately show ?thesis using rd by (intro exI [of _ b'] exI [of _ "data @ bs"]) (auto simp: b'_def)
qed

lemma bf_read_step_law:
  assumes ok: "bf_rok b data" and g: "good (bf_rNext b)" and small: "n < 2147483648"
  shows "\<exists>b' data'. bf_read_step rd n b = Inr (take n data, b') \<and> bf_rok b' data' \<and> good (bf_rNext b') \<and>
    bf_iWhat b' = bf_iWhat b \<and>
    data' @ pending (bf_rNext b') = drop n data @ pending (bf_rNext b) \<and>
    (data' = [] \<longrightarrow> pending (bf_rNext b') = [])"
proof -
  let ?k = "min n (bf_iReadBufFill b)"
  define b1 where "b1 = b\<lparr>bf_iReadPos := bf_iReadPos b + ?k, bf_iReadBufFill := bf_iReadBufFill b - ?k\<rparr>"
  have h: "buf_holds (bf_sReadBuf b) (bf_iReadPos b) (bf_iReadBufFill b) data"
    using ok by (simp add: bf_rok_def)
  have k: "take ?k data = take n data" "drop ?k data = drop n data"
    by (auto simp: min_def bf_rok_fill [OF ok])
  have m: "min (c_int (int n)) (int (bf_iReadBufFill b)) = int ?k" using small by simp
  have take: "bf_take n b = Inr (take n data, b1)"
  proof (cases "?k > 0")
    case True
    then have p: "0 < int ?k" by simp
    from buf_holds_load [OF h, of ?k] k(1) p show ?thesis
      unfolding bf_take_def m Let_def rbind_eq_Inr b1_def nat_int by (auto simp: rbind_eq_Inr)
  next
    case False
    then have z: "?k = 0" "take n data = []" using k(1) by auto
    show ?thesis unfolding bf_take_def m z by (simp add: b1_def z)
  qed
  have ok1: "bf_rok b1 (drop n data)"
    using ok buf_holds_advance [OF h, of ?k] k(2) by (simp add: bf_rok_def b1_def)
  have n1: "bf_rNext b1 = bf_rNext b" "bf_iWhat b1 = bf_iWhat b" by (simp_all add: b1_def)
  show ?thesis
  proof (cases "bf_iReadBufFill b1 = 0")
    case True
    then have d: "drop n data = []" using bf_rok_fill [OF ok1] by simp
    define b2 where "b2 = b1\<lparr>bf_iReadPos := 0\<rparr>"
    have "bf_rok b2 []" "good (bf_rNext b2)" "bf_iReadPos b2 = 0"
      using ok1 True g n1 by (auto simp: bf_rok_def b2_def buf_holds_def)
    from bf_fill_law [OF this(1,2)] this(3) obtain b' data' where "bf_fillReadBuf rd b2 = Inr b'"
      "bf_rok b' data'" "good (bf_rNext b')" "bf_iWhat b' = bf_iWhat b2"
      "data' @ pending (bf_rNext b') = pending (bf_rNext b2)"
      "data' = [] \<longrightarrow> pending (bf_rNext b') = []" by auto
    with True take d n1 show ?thesis
      by (intro exI [of _ b'] exI [of _ data']) (auto simp: bf_read_step_def b2_def)
  next
    case False
    then have "drop n data \<noteq> []" using bf_rok_fill [OF ok1] by auto
    with False take ok1 n1 g show ?thesis
      by (intro exI [of _ b1] exI [of _ "drop n data"]) (simp add: bf_read_step_def)
  qed
qed

lemma bf_read_loop_ne:
  "bf_rok b data \<Longrightarrow> good (bf_rNext b) \<Longrightarrow> data \<noteq> [] \<Longrightarrow> 0 < n \<Longrightarrow> n < 2147483648 \<Longrightarrow>
   \<exists>b' data'. bf_read_loop rd n b = Some (Inr (take n (data @ pending (bf_rNext b)), b')) \<and>
     bf_rok b' data' \<and> good (bf_rNext b') \<and> bf_iWhat b' = bf_iWhat b \<and>
     data' @ pending (bf_rNext b') = drop n (data @ pending (bf_rNext b))"
proof (induction n arbitrary: b data rule: less_induct)
  case (less n)
  obtain b1 data1 where b1: "bf_read_step rd n b = Inr (take n data, b1)" "bf_rok b1 data1"
    "good (bf_rNext b1)" "bf_iWhat b1 = bf_iWhat b"
    "data1 @ pending (bf_rNext b1) = drop n data @ pending (bf_rNext b)"
    "data1 = [] \<longrightarrow> pending (bf_rNext b1) = []"
    using bf_read_step_law [OF less.prems(1,2,5)] by blast
  show ?case
  proof (cases "length (take n data) < n \<and> bf_iReadBufFill b1 > 0")
    case True
    then have lt: "length data < n" "data1 \<noteq> []" using bf_rok_fill [OF b1(2)] by auto
    then have p: "data1 @ pending (bf_rNext b1) = pending (bf_rNext b)" using b1(5) by simp
    have "n - length data < n" "0 < n - length data" "n - length data < 2147483648" using lt less.prems(3-5) by auto
    from less.IH [OF this(1) b1(2,3) lt(2) this(2,3)] obtain b' data' where b':
      "bf_read_loop rd (n - length data) b1 = Some (Inr (take (n - length data) (pending (bf_rNext b)), b'))"
      "bf_rok b' data'" "good (bf_rNext b')" "bf_iWhat b' = bf_iWhat b1"
      "data' @ pending (bf_rNext b') = drop (n - length data) (pending (bf_rNext b))"
      unfolding p by blast
    have "bf_read_loop rd n b = Some (Inr (take n (data @ pending (bf_rNext b)), b'))"
      using True lt b1(1) b'(1) by (subst bf_read_loop.simps) simp
    with b' b1(4) lt(1) show ?thesis by (intro exI [of _ b'] exI [of _ data']) simp
  next
    case False
    have "take n (data @ pending (bf_rNext b)) = take n data \<and>
        drop n (data @ pending (bf_rNext b)) = drop n data @ pending (bf_rNext b)"
    proof (cases "length data < n")
      case True
      with False have "data1 = []" using bf_rok_fill [OF b1(2)] by auto
      with b1(5,6) show ?thesis by simp
    qed simp
    moreover have "bf_read_loop rd n b = Some (Inr (take n data, b1))"
      using False b1(1) by (subst bf_read_loop.simps) auto
    ultimately show ?thesis using b1 by (intro exI [of _ b1] exI [of _ data1]) simp
  qed
qed

lemma bf_read_law:
  assumes ok: "bf_rok b data" and g: "good (bf_rNext b)" and rd: "bf_reads b" and small: "n < 2147483648"
  shows "\<exists>b' data'. bf_read rd b n = Some (Inr (take (nat n) (data @ pending (bf_rNext b)), b')) \<and>
     bf_rok b' data' \<and> good (bf_rNext b') \<and> bf_iWhat b' = bf_iWhat b \<and>
     data' @ pending (bf_rNext b') = drop (nat n) (data @ pending (bf_rNext b))"
proof -
  consider "n \<le> 0" | "0 < n" "data \<noteq> []" | "0 < n" "data = []" by linarith
  then show ?thesis
  proof cases
    case 1
    with bf_fill_law [OF ok g] rd show ?thesis by (auto simp: bf_read_def)
  next
    case 2
    with bf_read_loop_ne [OF ok g 2(2), of "nat n"] rd small show ?thesis by (simp add: bf_read_def)
  next
    case 3
    obtain b1 data1 where b1: "bf_read_step rd (nat n) b = Inr ([], b1)" "bf_rok b1 data1"
      "good (bf_rNext b1)" "bf_iWhat b1 = bf_iWhat b"
      "data1 @ pending (bf_rNext b1) = pending (bf_rNext b)"
      "data1 = [] \<longrightarrow> pending (bf_rNext b1) = []"
      using bf_read_step_law [OF ok g, of "nat n"] 3 small by (auto simp: nat_less_iff)
    show ?thesis
    proof (cases "data1 = []")
      case True
      then have "bf_read_loop rd (nat n) b = Some (Inr ([], b1))"
        using b1(1) bf_rok_fill [OF b1(2)] by (subst bf_read_loop.simps) simp
      with True b1 rd 3 show ?thesis by (auto simp: bf_read_def)
    next
      case False
      from bf_read_loop_ne [OF b1(2,3) False, of "nat n"] 3(1) b1(5) small have
        "\<exists>b' data'. bf_read_loop rd (nat n) b1 = Some (Inr (take (nat n) (pending (bf_rNext b)), b')) \<and>
          bf_rok b' data' \<and> good (bf_rNext b') \<and> bf_iWhat b' = bf_iWhat b1 \<and>
          data' @ pending (bf_rNext b') = drop (nat n) (pending (bf_rNext b))"
        by (simp add: nat_less_iff)
      then obtain b' data' where b':
        "bf_read_loop rd (nat n) b1 = Some (Inr (take (nat n) (pending (bf_rNext b)), b'))"
        "bf_rok b' data'" "good (bf_rNext b')" "bf_iWhat b' = bf_iWhat b1"
        "data' @ pending (bf_rNext b') = drop (nat n) (pending (bf_rNext b))" by blast
      have "bf_read_loop rd (nat n) b = bf_read_loop rd (nat n) b1"
        using b1(1) b'(1) False bf_rok_fill [OF b1(2)] 3(1) by (subst bf_read_loop.simps) simp
      with b' b1(4) rd 3 show ?thesis by (auto simp: bf_read_def)
    qed
  qed
qed

end

section \<open>Buffered writes\<close>

context byte_sink begin

lemma bf_hand_on:
  assumes ok: "bf_wok b data" and g: "good (bf_rNext b)"
  shows "\<exists>k s. rbind (rbind (mem_load (bf_sWriteBuf b) (int (bf_iWritePos b)) (int (bf_iWriteBufFill b))) init_bytes)
      (wr (bf_rNext b)) = Inr (int k, s) \<and> k \<le> length data \<and> good s \<and>
    written s = written (bf_rNext b) @ take k data"
proof -
  have "rbind (mem_load (bf_sWriteBuf b) (int (bf_iWritePos b)) (int (bf_iWriteBufFill b))) init_bytes = Inr data"
    using buf_holds_load [of "bf_sWriteBuf b" "bf_iWritePos b" "bf_iWriteBufFill b" data "bf_iWriteBufFill b"]
      ok bf_wok_fill [OF ok] by (simp add: bf_wok_def)
  with wr_law [OF g, of data] show ?thesis by simp
qed

text \<open>What the buffer and the next stream have taken together.\<close>

definition bf_written :: "'s buffer \<Rightarrow> byte list \<Rightarrow> byte list" where
  "bf_written b data = written (bf_rNext b) @ data"

lemma bf_wok_advance:
  assumes "bf_wok b data" "k \<le> length data"
  shows "bf_wok (b\<lparr>bf_rNext := s, bf_iWritePos := bf_iWritePos b + k,
    bf_iWriteBufFill := bf_iWriteBufFill b - k\<rparr>) (drop k data)"
  using assms buf_holds_advance [of "bf_sWriteBuf b" "bf_iWritePos b" "bf_iWriteBufFill b" data k]
    bf_wok_fill [OF assms(1)] by (simp add: bf_wok_def)

lemma bf_drain_law:
  "bf_wok b data \<Longrightarrow> good (bf_rNext b) \<Longrightarrow>
   \<exists>f b' data'. bf_drain wr b = Some (Inr (f, b')) \<and> bf_wok b' data' \<and> good (bf_rNext b') \<and>
     bf_iWhat b' = bf_iWhat b \<and> bf_written b' data' = bf_written b data \<and>
     (f \<longrightarrow> bf_iWritePos b' + bf_iWriteBufFill b' < bf_iBufSize b')"
proof (induction "length data" arbitrary: b data rule: less_induct)
  case less
  note fill = bf_wok_fill [OF less.prems(1)]
  show ?case
  proof (cases "bf_iWritePos b + bf_iWriteBufFill b = bf_iBufSize b")
    case False
    moreover have "bf_iWritePos b + bf_iWriteBufFill b \<le> bf_iBufSize b"
      using less.prems(1) by (simp add: bf_wok_def buf_holds_def)
    ultimately show ?thesis using less.prems
      by (intro exI [of _ True] exI [of _ b] exI [of _ data]) (simp add: bf_drain.simps [of wr b])
  next
    case True
    obtain k s where k: "rbind (rbind (mem_load (bf_sWriteBuf b) (int (bf_iWritePos b)) (int (bf_iWriteBufFill b))) init_bytes)
        (wr (bf_rNext b)) = Inr (int k, s)" "k \<le> length data" "good s"
      "written s = written (bf_rNext b) @ take k data"
      using bf_hand_on [OF less.prems] by blast
    consider "k = 0" | "0 < k" "k = length data" | "0 < k" "k < length data" using k(2) by linarith
    then show ?thesis
    proof cases
      case 1
      with True k less.prems show ?thesis
        by (intro exI [of _ False] exI [of _ "b\<lparr>bf_rNext := s\<rparr>"] exI [of _ data])
          (simp add: bf_drain.simps [of wr b] bf_wok_def bf_written_def)
    next
      case 2
      let ?b = "b\<lparr>bf_rNext := s, bf_iWritePos := 0, bf_iWriteBufFill := 0\<rparr>"
      have ok: "bf_wok ?b []" using less.prems(1) by (simp add: bf_wok_def buf_holds_def)
      have "bf_drain wr b = bf_drain wr ?b"
        using 2 True k(1) fill by (subst bf_drain.simps) simp
      moreover have "bf_drain wr ?b = Some (Inr (True, ?b))"
        using ok by (subst bf_drain.simps) (simp add: bf_wok_def)
      ultimately show ?thesis using ok k 2
        by (intro exI [of _ True] exI [of _ ?b] exI [of _ "[]"]) (simp add: bf_written_def bf_wok_def)
    next
      case 3
      let ?b = "b\<lparr>bf_rNext := s, bf_iWritePos := bf_iWritePos b + k, bf_iWriteBufFill := bf_iWriteBufFill b - k\<rparr>"
      have "bf_drain wr b = bf_drain wr ?b"
        using 3 True k(1) fill
        by (subst bf_drain.simps) (simp add: nat_int_add of_nat_diff [symmetric] del: of_nat_diff)
      moreover have "bf_wok ?b (drop k data)" by (rule bf_wok_advance) (use less.prems 3 in auto)
      moreover have "length (drop k data) < length data" using 3 by simp
      ultimately show ?thesis
        using less.hyps [of "drop k data" ?b] k by (auto simp: bf_written_def)
    qed
  qed
qed

lemma bf_put_law:
  assumes ok: "bf_wok b data" and small: "length bs < 2147483648"
  shows "\<exists>k b'. bf_put bs b = Inr (k, b') \<and> k \<le> length bs \<and> bf_wok b' (data @ take k bs) \<and>
    bf_rNext b' = bf_rNext b \<and> bf_iWhat b' = bf_iWhat b \<and>
    (bs \<noteq> [] \<and> bf_iWritePos b + bf_iWriteBufFill b < bf_iBufSize b \<longrightarrow> 0 < k)"
proof -
  let ?k = "min (length bs) (bf_iBufSize b - bf_iWritePos b - bf_iWriteBufFill b)"
  have "bf_iWritePos b + bf_iWriteBufFill b \<le> bf_iBufSize b" using ok by (simp add: bf_wok_def buf_holds_def)
  then have "int (bf_iBufSize b) - int (bf_iWritePos b) - int (bf_iWriteBufFill b) =
      int (bf_iBufSize b - bf_iWritePos b - bf_iWriteBufFill b)" by simp
  with small have m: "min (c_int (int (length bs))) (int (bf_iBufSize b) - int (bf_iWritePos b) - int (bf_iWriteBufFill b)) = int ?k"
    by (subst c_int_same) auto
  show ?thesis
  proof (cases "?k > 0")
    case False
    then have z: "?k = 0" by (rule not_gr_zero [THEN iffD1])
    have "bf_put bs b = Inr (0, b)" unfolding bf_put_def m z by simp
    with ok False show ?thesis by (intro exI [of _ 0] exI [of _ b]) auto
  next
    case True
    have h: "buf_holds (bf_sWriteBuf b) (bf_iWritePos b) (bf_iWriteBufFill b) data"
      "length (bf_sWriteBuf b) = bf_iBufSize b" using ok by (auto simp: bf_wok_def)
    have l: "length (take ?k bs) = ?k" by simp
    then have "bf_iWritePos b + bf_iWriteBufFill b + length (take ?k bs) \<le> length (bf_sWriteBuf b)"
      unfolding l using True h(2) by linarith
    from buf_holds_extend [OF h(1) this] obtain a where
      "mem_store (bf_sWriteBuf b) (int (bf_iWritePos b + bf_iWriteBufFill b)) (map Some (take ?k bs)) = Inr a"
      "length a = length (bf_sWriteBuf b)"
      "buf_holds a (bf_iWritePos b) (bf_iWriteBufFill b + ?k) (data @ take ?k bs)"
      unfolding l by blast
    with True ok show ?thesis
      by (intro exI [of _ ?k] exI [of _ "b\<lparr>bf_sWriteBuf := a, bf_iWriteBufFill := bf_iWriteBufFill b + ?k\<rparr>"])
        (simp add: bf_put_def m Let_def bf_wok_def del: of_nat_min)
  qed
qed

lemma bf_write_loop_room:
  "bf_wok b data \<Longrightarrow> good (bf_rNext b) \<Longrightarrow> bf_iWritePos b + bf_iWriteBufFill b < bf_iBufSize b \<Longrightarrow>
   length bs < 2147483648 \<Longrightarrow>
   \<exists>n b' data'. bf_write_loop wr bs b = Some (Inr (n, b')) \<and> n \<le> length bs \<and> bf_wok b' data' \<and>
     good (bf_rNext b') \<and> bf_iWhat b' = bf_iWhat b \<and> bf_written b' data' = bf_written b data @ take n bs"
proof (induction "length bs" arbitrary: bs b data rule: less_induct)
  case less
  obtain k b1 where k: "bf_put bs b = Inr (k, b1)" "k \<le> length bs" "bf_wok b1 (data @ take k bs)"
    "bf_rNext b1 = bf_rNext b" "bf_iWhat b1 = bf_iWhat b" "bs \<noteq> [] \<longrightarrow> 0 < k"
    using bf_put_law [OF less.prems(1,4)] less.prems(3) by auto
  obtain f b2 data2 where b2: "bf_drain wr b1 = Some (Inr (f, b2))" "bf_wok b2 data2"
    "good (bf_rNext b2)" "bf_iWhat b2 = bf_iWhat b1"
    "bf_written b2 data2 = bf_written b1 (data @ take k bs)"
    "f \<longrightarrow> bf_iWritePos b2 + bf_iWriteBufFill b2 < bf_iBufSize b2"
    using bf_drain_law [OF k(3)] less.prems(2) k(4) by metis
  have w2: "bf_written b2 data2 = bf_written b data @ take k bs"
    using b2(5) k(4) by (simp add: bf_written_def)
  show ?case
  proof (cases "f \<and> k < length bs \<and> bf_iWriteBufFill b2 < bf_iBufSize b2 + bf_iWritePos b2")
    case False
    then have "bf_write_loop wr bs b = Some (Inr (k, b2))"
      using k(1) b2(1) by (subst bf_write_loop.simps) auto
    with k b2 w2 show ?thesis by (intro exI [of _ k] exI [of _ b2] exI [of _ data2]) simp
  next
    case True
    then have "length (drop k bs) < length bs" using k(6) by auto
    moreover have "length (drop k bs) < 2147483648" using less.prems(4) by simp
    ultimately obtain n b' data' where b':
      "bf_write_loop wr (drop k bs) b2 = Some (Inr (n, b'))" "n \<le> length (drop k bs)" "bf_wok b' data'"
      "good (bf_rNext b')" "bf_iWhat b' = bf_iWhat b2"
      "bf_written b' data' = bf_written b2 data2 @ take n (drop k bs)"
      using less.hyps [OF _ b2(2,3)] b2(6) True by blast
    have "bf_write_loop wr bs b = Some (Inr (k + n, b'))"
      using True k(1) b2(1) b'(1) by (subst bf_write_loop.simps) simp
    with k b2 b' w2 show ?thesis
      by (intro exI [of _ "k + n"] exI [of _ b'] exI [of _ data']) (simp add: take_add)
  qed
qed

lemma bf_write_law:
  assumes ok: "bf_wok b data" and g: "good (bf_rNext b)" and w: "bf_writes b"
    and room: "bf_iWritePos b + bf_iWriteBufFill b < bf_iBufSize b" and small: "length bs < 2147483648"
  shows "\<exists>n b' data'. bf_write wr b bs = Some (Inr (int n, b')) \<and> n \<le> length bs \<and> bf_wok b' data' \<and>
     good (bf_rNext b') \<and> bf_iWhat b' = bf_iWhat b \<and> bf_written b' data' = bf_written b data @ take n bs"
  using bf_write_loop_room [OF ok g room small] w by (auto simp: bf_write_def)

lemma bf_flush_loop_law:
  "bf_wok b data \<Longrightarrow> good (bf_rNext b) \<Longrightarrow>
   \<exists>b' data'. bf_flush_loop wr b = Some (Inr b') \<and> bf_wok b' data' \<and> good (bf_rNext b') \<and>
     bf_iWhat b' = bf_iWhat b \<and> bf_written b' data' = bf_written b data"
proof (induction "length data" arbitrary: b data rule: less_induct)
  case less
  note fill = bf_wok_fill [OF less.prems(1)]
  obtain k s where k: "rbind (rbind (mem_load (bf_sWriteBuf b) (int (bf_iWritePos b)) (int (bf_iWriteBufFill b))) init_bytes)
      (wr (bf_rNext b)) = Inr (int k, s)" "k \<le> length data" "good s"
    "written s = written (bf_rNext b) @ take k data"
    using bf_hand_on [OF less.prems] by blast
  let ?b = "b\<lparr>bf_rNext := s, bf_iWritePos := bf_iWritePos b + k, bf_iWriteBufFill := bf_iWriteBufFill b - k\<rparr>"
  have n: "nat (int (bf_iWritePos b) + int k) = bf_iWritePos b + k"
    "nat (int (bf_iWriteBufFill b) - int k) = bf_iWriteBufFill b - k" by (simp_all add: nat_int_add)
  have ok: "bf_wok ?b (drop k data)" using bf_wok_advance [OF less.prems(1) k(2)] .
  show ?case
  proof (cases "k < length data \<and> 0 < k")
    case True
    then have "bf_flush_loop wr b = bf_flush_loop wr ?b"
      using k(1) n(2) fill by (subst bf_flush_loop.simps) (simp add: Let_def n(1) del: of_nat_diff)
    moreover have "length (drop k data) < length data" using True by (cases data) auto
    ultimately show ?thesis using less.hyps [of "drop k data" ?b] ok k by (auto simp: bf_written_def)
  next
    case False
    then have "bf_flush_loop wr b = Some (Inr ?b)"
      using k(1) fill by (subst bf_flush_loop.simps) (auto simp: Let_def n)
    with ok k show ?thesis
      by (intro exI [of _ ?b] exI [of _ "drop k data"]) (simp add: bf_written_def)
  qed
qed

lemma bf_flush_law:
  assumes ok: "bf_wok b data" and g: "good (bf_rNext b)" and w: "bf_writes b"
  shows "\<exists>b' data'. bf_flush wr fl b = Some (Inr b') \<and> bf_wok b' data' \<and> good (bf_rNext b') \<and>
     bf_iWhat b' = bf_iWhat b \<and> bf_written b' data' = bf_written b data"
proof (cases "bf_iWriteBufFill b > 0")
  case True
  with bf_flush_loop_law [OF ok g] w show ?thesis by (simp add: bf_flush_def)
next
  case False
  with ok g w show ?thesis by (auto simp: bf_flush_def)
qed

end

text \<open>Over a sink that takes everything, so does the buffer, and a flush leaves nothing behind.\<close>

context full_sink begin

lemma bf_hand_on_full:
  assumes ok: "bf_wok b data" and g: "good (bf_rNext b)"
  shows "\<exists>s. rbind (rbind (mem_load (bf_sWriteBuf b) (int (bf_iWritePos b)) (int (bf_iWriteBufFill b))) init_bytes)
      (wr (bf_rNext b)) = Inr (int (length data), s) \<and> good s \<and> written s = written (bf_rNext b) @ data"
proof -
  have "rbind (mem_load (bf_sWriteBuf b) (int (bf_iWritePos b)) (int (bf_iWriteBufFill b))) init_bytes = Inr data"
    using buf_holds_load [of "bf_sWriteBuf b" "bf_iWritePos b" "bf_iWriteBufFill b" data "bf_iWriteBufFill b"]
      ok bf_wok_fill [OF ok] by (simp add: bf_wok_def)
  with wr_all [OF g, of data] show ?thesis by simp
qed

lemma bf_drain_full:
  assumes ok: "bf_wok b data" and g: "good (bf_rNext b)"
    and ne: "bf_iWritePos b + bf_iWriteBufFill b = bf_iBufSize b \<longrightarrow> data \<noteq> []"
  shows "\<exists>b'. bf_drain wr b = Some (Inr (True, b'))"
proof (cases "bf_iWritePos b + bf_iWriteBufFill b = bf_iBufSize b")
  case False
  then show ?thesis by (subst bf_drain.simps) simp
next
  case True
  obtain s where s: "rbind (rbind (mem_load (bf_sWriteBuf b) (int (bf_iWritePos b)) (int (bf_iWriteBufFill b))) init_bytes)
      (wr (bf_rNext b)) = Inr (int (length data), s)" "good s"
    using bf_hand_on_full [OF ok g] by blast
  have "0 < bf_iBufSize b" using ok by (simp add: bf_wok_def)
  then have "bf_drain wr (b\<lparr>bf_rNext := s, bf_iWritePos := 0, bf_iWriteBufFill := 0\<rparr>) =
      Some (Inr (True, b\<lparr>bf_rNext := s, bf_iWritePos := 0, bf_iWriteBufFill := 0\<rparr>))"
    by (subst bf_drain.simps) simp
  with s True ne bf_wok_fill [OF ok] show ?thesis by (subst bf_drain.simps) auto
qed

lemma bf_write_loop_full:
  "bf_wok b data \<Longrightarrow> good (bf_rNext b) \<Longrightarrow> bf_iWritePos b + bf_iWriteBufFill b < bf_iBufSize b \<Longrightarrow>
   length bs < 2147483648 \<Longrightarrow>
   \<exists>b' data'. bf_write_loop wr bs b = Some (Inr (length bs, b')) \<and> bf_wok b' data' \<and>
     good (bf_rNext b') \<and> bf_iWhat b' = bf_iWhat b \<and> bf_written b' data' = bf_written b data @ bs \<and>
     bf_iWritePos b' + bf_iWriteBufFill b' < bf_iBufSize b'"
proof (induction "length bs" arbitrary: bs b data rule: less_induct)
  case less
  obtain k b1 where k: "bf_put bs b = Inr (k, b1)" "k \<le> length bs" "bf_wok b1 (data @ take k bs)"
    "bf_rNext b1 = bf_rNext b" "bf_iWhat b1 = bf_iWhat b" "bs \<noteq> [] \<longrightarrow> 0 < k"
    using bf_put_law [OF less.prems(1,4)] less.prems(3) by auto
  have "bf_iWritePos b1 + bf_iWriteBufFill b1 = bf_iBufSize b1 \<longrightarrow> data @ take k bs \<noteq> []"
  proof (cases "bs = []")
    case True
    then have "b1 = b" using k(1) by (simp add: bf_put_def)
    with less.prems(3) show ?thesis by simp
  next
    case False
    with k(6) show ?thesis by simp
  qed
  with bf_drain_full [OF k(3)] bf_drain_law [OF k(3)] less.prems(2) k(4)
  obtain b2 data2 where b2: "bf_drain wr b1 = Some (Inr (True, b2))" "bf_wok b2 data2"
    "good (bf_rNext b2)" "bf_iWhat b2 = bf_iWhat b1"
    "bf_written b2 data2 = bf_written b1 (data @ take k bs)"
    "bf_iWritePos b2 + bf_iWriteBufFill b2 < bf_iBufSize b2" by fastforce
  have w2: "bf_written b2 data2 = bf_written b data @ take k bs"
    using b2(5) k(4) by (simp add: bf_written_def)
  show ?case
  proof (cases "k < length bs")
    case False
    then have "bf_write_loop wr bs b = Some (Inr (k, b2))"
      using k(1) b2(1) by (subst bf_write_loop.simps) auto
    with k b2 w2 False show ?thesis by (intro exI [of _ b2] exI [of _ data2]) simp
  next
    case True
    then have "length (drop k bs) < length bs" using k(6) by auto
    moreover have "length (drop k bs) < 2147483648" using less.prems(4) by simp
    ultimately obtain b' data' where b':
      "bf_write_loop wr (drop k bs) b2 = Some (Inr (length (drop k bs), b'))" "bf_wok b' data'"
      "good (bf_rNext b')" "bf_iWhat b' = bf_iWhat b2"
      "bf_written b' data' = bf_written b2 data2 @ drop k bs"
      "bf_iWritePos b' + bf_iWriteBufFill b' < bf_iBufSize b'"
      using less.hyps [OF _ b2(2,3,6)] by blast
    have "bf_write_loop wr bs b = Some (Inr (length bs, b'))"
      using True k(1) b2(1,6) b'(1) by (subst bf_write_loop.simps) simp
    moreover have "bf_written b' data' = bf_written b data @ bs"
      by (simp only: b'(5) w2 append_assoc append_take_drop_id)
    ultimately show ?thesis using k(5) b2(4) b' by auto
  qed
qed

lemma bf_flush_full:
  assumes ok: "bf_wok b data" and g: "good (bf_rNext b)" and w: "bf_writes b"
  shows "\<exists>b'. bf_flush wr fl b = Some (Inr b') \<and> written (bf_rNext b') = written (bf_rNext b) @ data"
proof (cases "bf_iWriteBufFill b > 0")
  case True
  obtain s where s: "rbind (rbind (mem_load (bf_sWriteBuf b) (int (bf_iWritePos b)) (int (bf_iWriteBufFill b))) init_bytes)
      (wr (bf_rNext b)) = Inr (int (length data), s)" "written s = written (bf_rNext b) @ data"
    using bf_hand_on_full [OF ok g] by blast
  then show ?thesis using w True bf_wok_fill [OF ok]
    by (simp add: bf_flush_def bf_flush_loop.simps [of wr b] Let_def)
next
  case False
  with bf_wok_fill [OF ok] w show ?thesis by (simp add: bf_flush_def)
qed

end

section \<open>A buffer as a stream\<close>

definition bf_source :: "('s \<Rightarrow> int \<Rightarrow> (byte list \<times> 's) result) \<Rightarrow> 's buffer \<Rightarrow> int \<Rightarrow> (byte list \<times> 's buffer) result" where
  "bf_source rd b n = (case bf_read rd b n of None \<Rightarrow> Inl Out_Of_Bounds | Some r \<Rightarrow> r)"

definition bf_sink :: "('s \<Rightarrow> byte list \<Rightarrow> (int \<times> 's) result) \<Rightarrow> 's buffer \<Rightarrow> byte list \<Rightarrow> (int \<times> 's buffer) result" where
  "bf_sink wr b bs = (case bf_write wr b bs of None \<Rightarrow> Inl Out_Of_Bounds | Some r \<Rightarrow> r)"

definition bf_rbytes :: "'s buffer \<Rightarrow> byte list" where
  "bf_rbytes b = map the (take (bf_iReadBufFill b) (drop (bf_iReadPos b) (bf_sReadBuf b)))"

definition bf_wbytes :: "'s buffer \<Rightarrow> byte list" where
  "bf_wbytes b = map the (take (bf_iWriteBufFill b) (drop (bf_iWritePos b) (bf_sWriteBuf b)))"

lemma bf_rok_bytes: "bf_rok b data \<Longrightarrow> bf_rbytes b = data"
  by (simp add: bf_rok_def bf_rbytes_def buf_holds_def comp_def)

lemma bf_wok_bytes: "bf_wok b data \<Longrightarrow> bf_wbytes b = data"
  by (simp add: bf_wok_def bf_wbytes_def buf_holds_def comp_def)

text \<open>The invariants of the two sides.\<close>

definition bf_rwf :: "'s buffer \<Rightarrow> bool" where
  "bf_rwf b \<longleftrightarrow> bf_reads b \<and> bf_rok b (bf_rbytes b)"

definition bf_wwf :: "'s buffer \<Rightarrow> bool" where
  "bf_wwf b \<longleftrightarrow> bf_writes b \<and> bf_wok b (bf_wbytes b) \<and>
     bf_iWritePos b + bf_iWriteBufFill b < bf_iBufSize b"

lemma bf_rwfI: "bf_rok b data \<Longrightarrow> bf_reads b \<Longrightarrow> bf_rwf b \<and> bf_rbytes b = data"
  by (auto simp: bf_rwf_def bf_rok_bytes)

lemma bf_new_wf:
  "0 < n \<Longrightarrow> bf_rwf (bf_new s 3 n) \<and> bf_rbytes (bf_new s 3 n) = [] \<and>
   bf_wwf (bf_new s 3 n) \<and> bf_wbytes (bf_new s 3 n) = []"
proof -
  assume n: "0 < n"
  have "bf_rok (bf_new s 3 n) []" "bf_wok (bf_new s 3 n) []"
    using n by (simp_all add: bf_rok_def bf_wok_def bf_new_def buf_holds_def)
  moreover have "bf_reads (bf_new s 3 n)" "bf_writes (bf_new s 3 n)"
    by (simp_all add: bf_reads_def bf_writes_def bf_new_def)
  ultimately show ?thesis
    using n bf_rok_bytes bf_wok_bytes by (auto simp: bf_rwf_def bf_wwf_def bf_new_def)
qed

text \<open>Over any source a buffer gives all it is asked for, below \<open>2^31\<close> bytes.\<close>

lemma bf_short_source:
  assumes "byte_source rd pending good"
  shows "short_source (bf_source rd) (\<lambda>b. bf_rbytes b @ pending (bf_rNext b))
    (\<lambda>b. bf_rwf b \<and> good (bf_rNext b))"
proof (intro short_source.intro, goal_cases)
  case (1 b n)
  then obtain b' data' where b': "bf_read rd b (int n) = Some (Inr (take n (bf_rbytes b @ pending (bf_rNext b)), b'))"
    "bf_rok b' data'" "good (bf_rNext b')" "bf_iWhat b' = bf_iWhat b"
    "data' @ pending (bf_rNext b') = drop n (bf_rbytes b @ pending (bf_rNext b))"
    using byte_source.bf_read_law [OF assms, of b "bf_rbytes b" "int n"] by (auto simp: bf_rwf_def)
  moreover have "bf_reads b'" using 1 b'(4) by (simp add: bf_rwf_def bf_reads_def)
  ultimately show ?case using bf_rwfI [of b' data'] by (auto simp: bf_source_def)
qed

lemma bf_short_sink:
  assumes "full_sink wr written good"
  shows "short_sink (bf_sink wr) (\<lambda>b. written (bf_rNext b) @ bf_wbytes b)
    (\<lambda>b. bf_wwf b \<and> good (bf_rNext b))"
proof (intro short_sink.intro, goal_cases)
  case (1 b bs)
  have sink: "byte_sink wr written good" using assms by (rule full_sink.axioms)
  obtain b' data' where b': "bf_write_loop wr bs b = Some (Inr (length bs, b'))" "bf_wok b' data'"
    "good (bf_rNext b')" "bf_iWhat b' = bf_iWhat b"
    "written (bf_rNext b') @ data' = written (bf_rNext b) @ bf_wbytes b @ bs"
    "bf_iWritePos b' + bf_iWriteBufFill b' < bf_iBufSize b'"
    using full_sink.bf_write_loop_full [OF assms, of b "bf_wbytes b" bs] 1
    by (auto simp: bf_wwf_def byte_sink.bf_written_def [OF sink])
  moreover have "bf_writes b'" "bf_writes b" using 1 b'(4) by (simp_all add: bf_wwf_def bf_writes_def)
  ultimately show ?case using bf_wok_bytes [OF b'(2)]
    by (auto simp: bf_sink_def bf_write_def bf_wwf_def)
qed

interpretation buffered: short_source "bf_source mb_read" "\<lambda>b. bf_rbytes b @ mb_pending (bf_rNext b)"
    "\<lambda>b. bf_rwf b \<and> mb_wf (bf_rNext b)"
  by (rule bf_short_source) (rule membuf.byte_source_axioms)

interpretation buffered_sink: short_sink "bf_sink mb_write" "\<lambda>b. mb_sBuf (bf_rNext b) @ bf_wbytes b"
    "\<lambda>b. bf_wwf b \<and> mb_nPos (bf_rNext b) = mb_getSize (bf_rNext b)"
  by (rule bf_short_sink) (rule membuf_sink.full_sink_axioms)

text \<open>
  From \<open>2^31\<close> bytes on the amount of a round is negative: nothing is copied, and the loops go round
  for ever, \<open>read\<close> as long as there is data in the array, \<open>write\<close> as long as there is room.
\<close>

lemma bf_read_loop_huge:
  assumes "bf_read_loop rd n b = Some r"
  shows "2147483648 \<le> n \<and> n < 4294967296 \<longrightarrow> bf_iReadBufFill b = 0"
proof (rule bf_read_loop.raw_induct [where P = "\<lambda>rd n b r. 2147483648 \<le> n \<and> n < 4294967296 \<longrightarrow> bf_iReadBufFill b = 0", OF _ assms],
    intro impI, rule ccontr)
  fix rec :: "('a \<Rightarrow> int \<Rightarrow> (byte list \<times> 'a) result) \<Rightarrow> nat \<Rightarrow> 'a buffer \<Rightarrow> (byte list \<times> 'a buffer) result option" and rd n b r
  assume ih: "\<And>rd n b r. rec rd n b = Some r \<Longrightarrow> 2147483648 \<le> n \<and> n < 4294967296 \<longrightarrow> bf_iReadBufFill b = 0"
    and body: "(case bf_read_step rd n b of Inl e \<Rightarrow> Some (Inl e)
      | Inr xb \<Rightarrow>
          (if length (fst xb) < n \<and> bf_iReadBufFill (snd xb) > 0
           then Option.bind (rec rd (n - length (fst xb)) (snd xb))
                  (\<lambda>r. Some (rbind r (\<lambda>ys. Inr (fst xb @ fst ys, snd ys))))
           else Some (Inr xb))) = Some r"
    and n: "2147483648 \<le> n \<and> n < 4294967296" and f: "bf_iReadBufFill b \<noteq> 0"
  have "bf_read_step rd n b = Inr ([], b)"
    using f n by (simp add: bf_read_step_def bf_take_def Let_def c_int_negative)
  with body f n obtain r' where "rec rd n b = Some r'" by (auto simp: bind_eq_Some_conv)
  from ih [OF this] n f show False by simp
qed


section \<open>\<open>SubStream\<close>\<close>

record 's sub_stream =
  ss_rNext :: 's
  ss_iStart :: int
  ss_iPos :: int
  ss_iSize :: int

definition ss_new :: "('s \<Rightarrow> int) \<Rightarrow> 's \<Rightarrow> int \<Rightarrow> 's sub_stream" where
  "ss_new tell rNext iSize = \<lparr>ss_rNext = rNext, ss_iStart = tell rNext, ss_iPos = 0, ss_iSize = iSize\<rparr>"

definition ss_read ::
    "('s \<Rightarrow> int \<Rightarrow> (byte list \<times> 's) result) \<Rightarrow> 's sub_stream \<Rightarrow> int \<Rightarrow> (byte list \<times> 's sub_stream) result" where
  "ss_read rd s nBytes =
     (let n = (if nBytes > ss_iSize s - ss_iPos s then ss_iSize s - ss_iPos s else nBytes)
      in rbind (rd (ss_rNext s) n) (\<lambda>(bs, r).
           Inr (bs, s\<lparr>ss_rNext := r, ss_iPos := ss_iPos s + int (length bs)\<rparr>)))"

definition ss_write ::
    "('s \<Rightarrow> byte list \<Rightarrow> (int \<times> 's) result) \<Rightarrow> 's sub_stream \<Rightarrow> byte list \<Rightarrow> (int \<times> 's sub_stream) result" where
  "ss_write wr s bs =
     (let n = (if int (length bs) > ss_iSize s - ss_iPos s then ss_iSize s - ss_iPos s else int (length bs))
      in rbind (wr (ss_rNext s) (take (nat n) bs)) (\<lambda>(k, r).
           Inr (k, s\<lparr>ss_rNext := r, ss_iPos := ss_iPos s + k\<rparr>)))"

definition ss_seek :: "('s \<Rightarrow> int \<Rightarrow> 's) \<Rightarrow> 's sub_stream \<Rightarrow> int \<Rightarrow> 's sub_stream" where
  "ss_seek seek s offset =
     (let o' = (if ss_iPos s + offset < 0 then - ss_iPos s
                else if ss_iPos s + offset > ss_iSize s then ss_iSize s - ss_iPos s else offset)
      in s\<lparr>ss_rNext := seek (ss_rNext s) o', ss_iPos := ss_iPos s + o'\<rparr>)"

definition ss_setPos :: "('s \<Rightarrow> int \<Rightarrow> 's) \<Rightarrow> 's sub_stream \<Rightarrow> int \<Rightarrow> 's sub_stream" where
  "ss_setPos setPos s pos =
     (let p = (if pos < 0 then 0 else if pos > ss_iSize s then ss_iSize s else pos)
      in s\<lparr>ss_iPos := p, ss_rNext := setPos (ss_rNext s) (p + ss_iStart s)\<rparr>)"

definition ss_setPosEnd :: "('s \<Rightarrow> int \<Rightarrow> 's) \<Rightarrow> 's sub_stream \<Rightarrow> int \<Rightarrow> 's sub_stream" where
  "ss_setPosEnd setPos s pos =
     (let p = (if ss_iSize s - pos < 0 then 0 else if ss_iSize s - pos > ss_iSize s then ss_iSize s
               else ss_iSize s - pos)
      in s\<lparr>ss_iPos := p, ss_rNext := setPos (ss_rNext s) (ss_iStart s + p)\<rparr>)"

definition ss_isEos :: "('s \<Rightarrow> bool) \<Rightarrow> 's sub_stream \<Rightarrow> bool" where
  "ss_isEos eos s \<longleftrightarrow> eos (ss_rNext s) \<or> ss_iPos s = ss_iSize s"

definition ss_wf :: "'s sub_stream \<Rightarrow> bool" where
  "ss_wf s \<longleftrightarrow> 0 \<le> ss_iPos s \<and> ss_iPos s \<le> ss_iSize s"

text \<open>A window over a source is a source of what is left of the window.\<close>

lemma ss_eos_source:
  assumes src: "eos_source rd pending good eos"
  shows "eos_source (ss_read rd) (\<lambda>s. take (nat (ss_iSize s - ss_iPos s)) (pending (ss_rNext s)))
    (\<lambda>s. ss_wf s \<and> good (ss_rNext s)) (ss_isEos eos)"
proof (intro eos_source.intro byte_source.intro eos_source_axioms.intro, goal_cases)
  case (1 s n)
  define m where "m = (if n > ss_iSize s - ss_iPos s then ss_iSize s - ss_iPos s else n)"
  have m: "0 \<le> m" "m \<le> n" "m \<le> ss_iSize s - ss_iPos s" using 1 by (auto simp: m_def ss_wf_def)
  obtain bs r where r: "rd (ss_rNext s) m = Inr (bs, r)" "good r" "pending (ss_rNext s) = bs @ pending r"
    "int (length bs) \<le> m" "0 < m \<and> pending (ss_rNext s) \<noteq> [] \<longrightarrow> bs \<noteq> []"
    using byte_source.rd_law [OF eos_source.axioms(1) [OF src], of "ss_rNext s" m] 1 m(1) by blast
  define s' where "s' = s\<lparr>ss_rNext := r, ss_iPos := ss_iPos s + int (length bs)\<rparr>"
  have "ss_read rd s n = Inr (bs, s')" using r(1) by (simp add: ss_read_def s'_def flip: m_def)
  moreover have "ss_wf s'" "good (ss_rNext s')" using 1 r m by (auto simp: ss_wf_def s'_def)
  moreover have "take (nat (ss_iSize s - ss_iPos s)) (pending (ss_rNext s)) =
      bs @ take (nat (ss_iSize s' - ss_iPos s')) (pending (ss_rNext s'))"
  proof -
    have "nat (ss_iSize s - ss_iPos s) = length bs + nat (ss_iSize s' - ss_iPos s')"
      using r(4) m by (simp add: s'_def)
    then show ?thesis by (simp add: r(3) s'_def)
  qed
  moreover have "0 < n \<and> take (nat (ss_iSize s - ss_iPos s)) (pending (ss_rNext s)) \<noteq> [] \<longrightarrow> bs \<noteq> []"
    using r(5) by (auto simp: m_def)
  moreover have "int (length bs) \<le> n" using r(4) m by simp
  ultimately show ?case by blast
next
  case (2 s)
  with eos_source.eos_law [OF src, of "ss_rNext s"] show ?case
    by (auto simp: ss_isEos_def ss_wf_def)
qed

interpretation substream: eos_source "ss_read mb_read"
    "\<lambda>s. take (nat (ss_iSize s - ss_iPos s)) (mb_pending (ss_rNext s))"
    "\<lambda>s. ss_wf s \<and> mb_wf (ss_rNext s)" "ss_isEos mb_isEos"
  by (rule ss_eos_source) (rule membuf.eos_source_axioms)

section \<open>Properties\<close>

text \<open>
  C33. A read buffer over any source: every read of less than \<open>2^31\<close> bytes returns, copies only
  bytes that have been read ahead, and gives the next bytes of the stream in order, as many as were
  asked for while there are any; what is read ahead is given later and never lost. A read of \<open>2^31\<close>
  bytes or more, below \<open>2^32\<close>, never returns when there is a byte in the buffer.
\<close>

theorem buffer_reads_through:
  assumes "byte_source rd pending good" "bf_rwf b" "good (bf_rNext b)"
  shows "(n < 2147483648 \<longrightarrow>
      (\<exists>b'. bf_source rd b (int n) = Inr (take n (bf_rbytes b @ pending (bf_rNext b)), b') \<and>
        bf_rwf b' \<and> good (bf_rNext b') \<and>
        bf_rbytes b' @ pending (bf_rNext b') = drop n (bf_rbytes b @ pending (bf_rNext b)))) \<and>
    (2147483648 \<le> n \<and> n < 4294967296 \<and> bf_rbytes b \<noteq> [] \<longrightarrow> bf_read rd b (int n) = None)"
proof (intro conjI impI, goal_cases)
  case 1
  with short_source.rd_short [OF bf_short_source [OF assms(1)], of b n] assms(2,3) show ?case by blast
next
  case 2
  then have "bf_iReadBufFill b \<noteq> 0" by (auto simp: bf_rbytes_def)
  then have "bf_read_loop rd n b = None" using 2 bf_read_loop_huge [of rd n b] by (cases "bf_read_loop rd n b") auto
  with 2 assms(2) show ?case by (simp add: bf_read_def bf_rwf_def)
qed

theorem buffer_reads_through_witness:
  "(\<exists>b'. bf_source mb_read (bf_new (mb_new [1, 2, 3]) 3 2) 1 = Inr ([1], b') \<and> bf_rwf b' \<and>
    mb_wf (bf_rNext b') \<and> bf_rbytes b' @ mb_pending (bf_rNext b') = [2, 3]) \<and>
   bf_read mb_read ((bf_new (mb_new []) 3 1)\<lparr>bf_sReadBuf := [Some 7], bf_iReadBufFill := 1\<rparr>) 2147483648 = None"
proof
  show "\<exists>b'. bf_source mb_read (bf_new (mb_new [1, 2, 3]) 3 2) 1 = Inr ([1], b') \<and> bf_rwf b' \<and>
    mb_wf (bf_rNext b') \<and> bf_rbytes b' @ mb_pending (bf_rNext b') = [2, 3]"
    using buffer_reads_through [OF membuf.byte_source_axioms, of "bf_new (mb_new [1, 2, 3]) 3 2" 1]
      bf_new_wf [of 2 "mb_new [1, 2, 3]"]
    by (simp add: bf_new_def mb_new_def mb_wf_def mb_getSize_def mb_pending_def)
  let ?b = "(bf_new (mb_new []) 3 1)\<lparr>bf_sReadBuf := [Some 7], bf_iReadBufFill := 1\<rparr>"
  have "bf_rwf ?b" "mb_wf (bf_rNext ?b)" "bf_rbytes ?b \<noteq> []"
    by (simp_all add: bf_rwf_def bf_reads_def bf_rok_def buf_holds_def bf_rbytes_def bf_new_def mb_wf_def mb_new_def mb_getSize_def)
  with buffer_reads_through [OF membuf.byte_source_axioms, of ?b 2147483648]
  show "bf_read mb_read ?b 2147483648 = None" by simp
qed



text \<open>
  C18. Any chunks of less than \<open>2^31\<close> bytes written through a buffer to a \<open>MemBuf\<close> and then flushed
  are in the \<open>MemBuf\<close> in order: each write returns and takes all it is given.
\<close>

theorem buffer_write_flush:
  assumes "0 < n" "\<forall>c \<in> set cs. length c < 2147483648"
  shows "\<exists>b b'. write_chunks (bf_sink mb_write) (bf_new (mb_new []) 3 n) cs = Inr b \<and>
    bf_flush mb_write (\<lambda>s. s) b = Some (Inr b') \<and> mb_sBuf (bf_rNext b') = concat cs"
proof -
  have new: "bf_wwf (bf_new (mb_new []) 3 n)" "bf_wbytes (bf_new (mb_new []) 3 n) = []"
    "bf_rNext (bf_new (mb_new []) 3 n) = mb_new []"
    using bf_new_wf [OF assms(1), of "mb_new []"] by (auto simp: bf_new_def)
  obtain b where b: "write_chunks (bf_sink mb_write) (bf_new (mb_new []) 3 n) cs = Inr b" "bf_wwf b"
    "mb_nPos (bf_rNext b) = mb_getSize (bf_rNext b)" "mb_sBuf (bf_rNext b) @ bf_wbytes b = concat cs"
    using buffered_sink.write_short_chunks [of "bf_new (mb_new []) 3 n" cs] new assms(2)
    by (auto simp: mb_new_def mb_getSize_def)
  with membuf_sink.bf_flush_full [of b "bf_wbytes b" "\<lambda>s. s"] show ?thesis by (auto simp: bf_wwf_def)
qed

theorem buffer_write_flush_witness:
  "\<exists>b b'. write_chunks (bf_sink mb_write) (bf_new (mb_new []) 3 2) [[1], [2, 3, 4]] = Inr b \<and>
    bf_flush mb_write (\<lambda>s. s) b = Some (Inr b') \<and> mb_sBuf (bf_rNext b') = [1, 2, 3, 4]"
  using buffer_write_flush [of 2 "[[1], [2, 3, 4]]"] by simp

text \<open>A next stream that is busy for a number of writes and then takes everything.\<close>

definition busy_write :: "nat \<times> byte list \<Rightarrow> byte list \<Rightarrow> (int \<times> nat \<times> byte list) result" where
  "busy_write s bs =
     (if fst s > 0 then Inr (0, fst s - 1, snd s) else Inr (int (length bs), 0, snd s @ bs))"

text \<open>
  A flush that empties an array filled to its end leaves \<open>iWritePos\<close> there, and from then
  on no write takes anything, whatever the next stream would take: it is handed an empty range,
  answers 0, and the loop gives up. Here the next stream is busy once.
\<close>

theorem buffer_stuck_after_flush:
  "\<exists>b b'. bf_write busy_write (bf_new (1, []) 3 2) [7, 8] = Some (Inr (2, b)) \<and>
     bf_flush busy_write (\<lambda>s. s) b = Some (Inr b') \<and> bf_rNext b' = (0, [7, 8]) \<and>
     (\<forall>bs. bf_write busy_write b' bs = Some (Inr (0, b')))"
proof -
  define b :: "(nat \<times> byte list) buffer" where "b = (bf_new (0, []) 3 2)\<lparr>bf_sWriteBuf := [Some 7, Some 8], bf_iWriteBufFill := 2\<rparr>"
  define b' where "b' = b\<lparr>bf_rNext := (0, [7, 8]), bf_iWritePos := 2, bf_iWriteBufFill := 0\<rparr>"
  define b0 :: "(nat \<times> byte list) buffer" where "b0 = bf_new (1, []) 3 2"
  define b1 where "b1 = b0\<lparr>bf_sWriteBuf := [Some 7, Some 8], bf_iWriteBufFill := 2\<rparr>"
  have put: "bf_put [7, 8] b0 = Inr (2, b1)"
    by (simp add: bf_put_def b0_def b1_def bf_new_def mem_store_def numeral_2_eq_2)
  have drain: "bf_drain busy_write b1 = Some (Inr (False, b))"
    by (subst bf_drain.simps)
      (simp add: b1_def b0_def bf_new_def mem_load_def init_bytes_def busy_write_def b_def numeral_2_eq_2)
  have "bf_write_loop busy_write [7, 8] b0 = Some (Inr (2, b))"
    by (subst bf_write_loop.simps) (simp add: put drain)
  moreover have "bf_writes b0" by (simp add: b0_def bf_writes_def bf_new_def)
  ultimately have "bf_write busy_write (bf_new (1, []) 3 2) [7, 8] = Some (Inr (2, b))"
    unfolding b0_def [symmetric] by (simp add: bf_write_def)
  moreover have "bf_flush_loop busy_write b = Some (Inr b')"
    by (subst bf_flush_loop.simps)
      (simp add: b_def b'_def bf_new_def mem_load_def init_bytes_def busy_write_def Let_def)
  then have "bf_flush busy_write (\<lambda>s. s) b = Some (Inr b')"
    by (simp add: bf_flush_def bf_writes_def) (simp add: b_def bf_new_def)
  moreover have "bf_write busy_write b' bs = Some (Inr (0, b'))" for bs
  proof -
    have put: "bf_put bs b' = Inr (0, b')" by (simp add: bf_put_def b'_def b_def bf_new_def)
    have "bf_drain busy_write b' = Some (Inr (False, b'))"
      by (subst bf_drain.simps)
        (simp add: b'_def b_def bf_new_def mem_load_def init_bytes_def busy_write_def)
    with put show ?thesis
      by (simp add: bf_write_def bf_write_loop.simps [of busy_write bs b'])
        (simp add: bf_writes_def b'_def b_def bf_new_def)
  qed
  moreover have "bf_rNext b' = (0, [7, 8])" by (simp add: b'_def)
  ultimately show ?thesis by blast
qed

text \<open>
  \<open>isEos\<close> of a buffer compares the read position with the number of bytes left behind it:
  after three of four bytes that were read ahead, it reports the end while a byte is pending, and
  \<open>readAll\<close> then loses it.
\<close>

theorem buffer_isEos_early:
  "\<exists>b. bf_read mb_read (bf_new (mb_new [1, 2, 3, 4]) 3 4) 3 = Some (Inr ([1, 2, 3], b)) \<and>
     bf_rbytes b = [4] \<and> bf_isEos mb_isEos b \<and>
     stream_readAll (bf_source mb_read) (bf_isEos mb_isEos) b = Some (Inr ([], b))"
proof -
  let ?m = "mb_new [1, 2, 3, 4]\<lparr>mb_nPos := 4\<rparr>"
  define b1 where "b1 = (bf_new ?m 3 4)\<lparr>bf_sReadBuf := [Some 1, Some 2, Some 3, Some 4], bf_iReadBufFill := 4\<rparr>"
  define b where "b = b1\<lparr>bf_iReadPos := 3, bf_iReadBufFill := 1\<rparr>"
  have s1: "bf_read_step mb_read 3 (bf_new (mb_new [1, 2, 3, 4]) 3 4) = Inr ([], b1)"
    by (simp add: bf_read_step_def bf_take_def bf_new_def bf_fillReadBuf_def mb_read_def mb_new_def
        mb_getSize_def mem_load_def mem_store_def b1_def)
  have s2: "bf_read_step mb_read 3 b1 = Inr ([1, 2, 3], b)"
    by (simp add: bf_read_step_def bf_take_def b1_def b_def bf_new_def mem_load_def init_bytes_def)
  have "bf_read mb_read (bf_new (mb_new [1, 2, 3, 4]) 3 4) 3 = Some (Inr ([1, 2, 3], b))"
    using s1 s2
    by (simp add: bf_read_def bf_reads_def bf_read_loop.simps [of mb_read 3])
      (simp add: b1_def b_def bf_new_def)
  moreover have e: "bf_rbytes b = [4]" "bf_isEos mb_isEos b"
    by (simp_all add: b_def b1_def bf_new_def bf_rbytes_def bf_isEos_def mb_isEos_def mb_new_def mb_getSize_def)
  moreover have "stream_readAll (bf_source mb_read) (bf_isEos mb_isEos) b = Some (Inr ([], b))"
    using e(2) by (subst stream_readAll.simps) simp
  ultimately show ?thesis by blast
qed

text \<open>
  A \<open>SubStream\<close> of size \<open>n\<close> made where a \<open>MemBuf\<close> stands: reading it to its end returns,
  and gives exactly the next \<open>n\<close> bytes of the \<open>MemBuf\<close> (all of them when there are fewer), which
  leaves the \<open>MemBuf\<close> behind the window.
\<close>

theorem substream_window:
  assumes "mb_wf m" "0 \<le> n"
  shows "\<exists>s. stream_readAll (ss_read mb_read) (ss_isEos mb_isEos) (ss_new mb_nPos m n) =
      Some (Inr (take (nat n) (mb_pending m), s)) \<and> ss_wf s \<and> ss_isEos mb_isEos s"
proof -
  have "ss_wf (ss_new mb_nPos m n)" "mb_wf (ss_rNext (ss_new mb_nPos m n))"
    using assms by (simp_all add: ss_wf_def ss_new_def)
  with substream.readAll_law [of "ss_new mb_nPos m n"] obtain s where
    "stream_readAll (ss_read mb_read) (ss_isEos mb_isEos) (ss_new mb_nPos m n) =
      Some (Inr (take (nat n) (mb_pending m), s))" "ss_wf s" "mb_wf (ss_rNext s)"
    "take (nat (ss_iSize s - ss_iPos s)) (mb_pending (ss_rNext s)) = []"
    by (auto simp: ss_new_def)
  with substream.eos_law [of s] show ?thesis by blast
qed

theorem substream_window_witness:
  "\<exists>s. stream_readAll (ss_read mb_read) (ss_isEos mb_isEos) (ss_new mb_nPos (mb_setPos (mb_new [1, 2, 3, 4]) 1) 2) =
      Some (Inr ([2, 3], s)) \<and> ss_isEos mb_isEos s"
  using substream_window [of "mb_setPos (mb_new [1, 2, 3, 4]) 1" 2]
  by (auto simp: mb_wf_def mb_setPos_def mb_clamp_def mb_new_def mb_getSize_def mb_pending_def)

end
