(* ===== verification/Bu_File.thy ===== *)
theory Bu_File
  imports Bu_Stream
begin

text \<open>
  \<open>Bu::File\<close> (\<open>src/stable/file.cpp\<close>) on an open regular file: the contents of the file and the
  offset of the descriptor, with what POSIX says of \<open>read\<close>, \<open>write\<close>, \<open>lseek\<close> and \<open>ftruncate\<close> on
  it. Opening, closing, modes and I/O errors (a full disk, a signal) are not modelled.
\<close>

record bu_file =
  fl_data :: "byte list"
  fl_pos :: nat
  fl_bEos :: bool

definition fl_new :: "byte list \<Rightarrow> bu_file" where
  "fl_new data = \<lparr>fl_data = data, fl_pos = 0, fl_bEos = False\<rparr>"

definition fl_read :: "bu_file \<Rightarrow> int \<Rightarrow> (byte list \<times> bu_file) result" where
  "fl_read f nBytes =
     (if nBytes < 0 then Inl (ExceptionBase ''FileException'')
      else let bs = take (nat nBytes) (drop (fl_pos f) (fl_data f))
           in Inr (bs, f\<lparr>fl_pos := fl_pos f + length bs,
                         fl_bEos := (if bs = [] then True else fl_bEos f)\<rparr>))"

text \<open>A write behind the end fills the gap with zeros.\<close>

definition fl_write :: "bu_file \<Rightarrow> byte list \<Rightarrow> (int \<times> bu_file) result" where
  "fl_write f bs =
     (let d = (if bs = [] then fl_data f
               else overwrite (fl_data f @ replicate (fl_pos f - length (fl_data f)) 0) (fl_pos f) bs)
      in Inr (int (length bs), f\<lparr>fl_data := d, fl_pos := fl_pos f + length bs\<rparr>))"

definition fl_tell :: "bu_file \<Rightarrow> int" where
  "fl_tell f = int (fl_pos f)"

text \<open>\<open>lseek\<close> to a negative offset fails and moves nothing; the code does not look.\<close>

definition fl_lseek :: "int \<Rightarrow> bu_file \<Rightarrow> bu_file" where
  "fl_lseek p f = (if p < 0 then f else f\<lparr>fl_pos := nat p\<rparr>)"

definition fl_seek :: "bu_file \<Rightarrow> int \<Rightarrow> bu_file" where
  "fl_seek f offset = (fl_lseek (int (fl_pos f) + offset) f)\<lparr>fl_bEos := False\<rparr>"

definition fl_setPos :: "bu_file \<Rightarrow> int \<Rightarrow> bu_file" where
  "fl_setPos f pos = (fl_lseek pos f)\<lparr>fl_bEos := False\<rparr>"

definition fl_setPosEnd :: "bu_file \<Rightarrow> int \<Rightarrow> bu_file" where
  "fl_setPosEnd f pos = (fl_lseek (int (length (fl_data f)) + pos) f)\<lparr>fl_bEos := False\<rparr>"

definition fl_isEos :: "bu_file \<Rightarrow> bool" where
  "fl_isEos f \<longleftrightarrow> fl_bEos f"

definition fl_setSize :: "bu_file \<Rightarrow> int \<Rightarrow> bu_file" where
  "fl_setSize f iSize =
     (if iSize < 0 then f
      else f\<lparr>fl_data := take (nat iSize) (fl_data f) @ replicate (nat iSize - length (fl_data f)) 0\<rparr>)"

definition fl_getSize :: "bu_file \<Rightarrow> int" where
  "fl_getSize f = int (length (fl_data f))"

section \<open>A file as a source and as a sink\<close>

interpretation filesrc: exact_source fl_read "\<lambda>f. drop (fl_pos f) (fl_data f)" "\<lambda>f. True"
proof (unfold_locales, goal_cases)
  case (1 f n)
  define X where "X = drop (fl_pos f) (fl_data f)"
  have "X = take (nat n) X @ drop (length (take (nat n) X)) X" by (simp add: min_def)
  moreover have "drop (fl_pos f + k) (fl_data f) = drop k X" for k by (simp add: X_def add.commute)
  ultimately show ?case
    using 1 unfolding fl_read_def Let_def X_def [symmetric]
    by (auto simp: X_def [symmetric])
next
  case (2 f n bs f')
  then show ?case by (auto simp: fl_read_def Let_def split: if_splits)
qed

interpretation filesink: full_sink fl_write fl_data "\<lambda>f. fl_pos f = length (fl_data f)"
proof (unfold_locales, goal_cases)
  case (1 f bs)
  then show ?case
    by (intro exI [of _ "length bs"]) (simp add: fl_write_def Let_def overwrite_end)
next
  case (2 f bs n f')
  then show ?case by (simp add: fl_write_def Let_def)
qed

text \<open>Writing inside the file, and growing it.\<close>

lemma fl_write_inside:
  "fl_pos f + length bs \<le> length (fl_data f) \<Longrightarrow>
   fl_write f bs = Inr (int (length bs), f\<lparr>fl_data := overwrite (fl_data f) (fl_pos f) bs,
     fl_pos := fl_pos f + length bs\<rparr>)"
  by (cases "bs = []") (simp_all add: fl_write_def)

lemma fl_read_inside:
  "fl_pos f + n \<le> length (fl_data f) \<Longrightarrow> 0 < n \<Longrightarrow>
   fl_read f (int n) = Inr (take n (drop (fl_pos f) (fl_data f)), f\<lparr>fl_pos := fl_pos f + n\<rparr>)"
  by (auto simp: fl_read_def Let_def min_absorb2)

lemma fl_setPos_int [simp]: "fl_setPos f (int p) = f\<lparr>fl_pos := p, fl_bEos := False\<rparr>"
  by (simp add: fl_setPos_def fl_lseek_def)

lemma fl_setSize_grow:
  "length (fl_data f) \<le> n \<Longrightarrow>
   fl_data (fl_setSize f (int n)) = fl_data f @ replicate (n - length (fl_data f)) 0"
  by (simp add: fl_setSize_def)

end
