(* ===== verification/Bu_Myriad.thy ===== *)
theory Bu_Myriad
  imports Bu_File
begin

text \<open>
  \<open>Bu::Myriad\<close> and \<open>Bu::MyriadStream\<close> (\<open>src/stable/myriad.cpp\<close>, \<open>myriadstream.cpp\<close>): many
  growing streams in the fixed-size blocks of one store. The store is a \<open>Bu::File\<close>. The
  \<open>Stream\<close> and \<open>Block\<close> objects the code allocates are records at addresses, so that streams and
  handles share them as the pointers do; \<open>my_next\<close> is the next address the allocator returns.
  Sizes, positions of blocks and block numbers are natural numbers, the position of a handle is
  an integer (a seek can make it negative). The mutexes have no effect on one thread's view and
  are left out.
\<close>

section \<open>State\<close>

record my_stream =
  stm_iId :: int
  stm_iSize :: nat
  stm_aBlocks :: "nat list"

record my_block =
  blk_pData :: "byte list"
  blk_bChanged :: bool
  blk_iBlockIndex :: nat

record myriad =
  my_sStore :: bu_file
  my_iBlockSize :: nat
  my_iBlocks :: nat
  my_iUsed :: int
  my_lFreeBlocks :: "nat list"
  my_streams :: "nat \<Rightarrow> my_stream option"
  my_aStreams :: "nat list"
  my_blocks :: "nat \<Rightarrow> my_block option"
  my_hActiveBlocks :: "nat \<Rightarrow> nat option"
  my_bHeaderChanged :: bool
  my_next :: nat

record my_handle =
  mh_pStream :: nat
  mh_pCurBlock :: "nat option"
  mh_iPos :: int

definition stream_at :: "myriad \<Rightarrow> nat \<Rightarrow> my_stream result" where
  "stream_at m p = (case my_streams m p of None \<Rightarrow> Inl Out_Of_Bounds | Some s \<Rightarrow> Inr s)"

definition block_at :: "myriad \<Rightarrow> nat \<Rightarrow> my_block result" where
  "block_at m p = (case my_blocks m p of None \<Rightarrow> Inl Out_Of_Bounds | Some b \<Rightarrow> Inr b)"

definition set_stream :: "nat \<Rightarrow> my_stream \<Rightarrow> myriad \<Rightarrow> myriad" where
  "set_stream p s m = m\<lparr>my_streams := (my_streams m)(p \<mapsto> s)\<rparr>"

definition new_stream :: "my_stream \<Rightarrow> myriad \<Rightarrow> nat \<times> myriad" where
  "new_stream s m = (my_next m, set_stream (my_next m) s (m\<lparr>my_next := Suc (my_next m)\<rparr>))"

section \<open>Blocks\<close>

definition blkDiv :: "nat \<Rightarrow> nat \<Rightarrow> nat" where
  "blkDiv iTotal iBlock = iTotal div iBlock + (if iTotal mod iBlock = 0 then 0 else 1)"

definition my_findEmptyBlock :: "myriad \<Rightarrow> nat \<times> myriad" where
  "my_findEmptyBlock m =
     (let m1 = m\<lparr>my_bHeaderChanged := True\<rparr>
      in case my_lFreeBlocks m1 of
           [] \<Rightarrow> (my_iBlocks m1, m1\<lparr>my_sStore := fl_setSize (my_sStore m1) (int ((my_iBlocks m1 + 1) * my_iBlockSize m1)),
                                  my_iBlocks := my_iBlocks m1 + 1\<rparr>)
         | b # bs \<Rightarrow> (b, m1\<lparr>my_lFreeBlocks := bs\<rparr>))"

text \<open>Append one fresh block to a stream; the body of several loops and of \<open>streamAddBlock\<close>.\<close>

definition my_streamAddBlock :: "nat \<Rightarrow> myriad \<Rightarrow> (nat \<times> myriad) result" where
  "my_streamAddBlock p m =
     (let (b, m1) = my_findEmptyBlock m
      in rbind (stream_at m1 p) (\<lambda>s.
           Inr (b, set_stream p (s\<lparr>stm_aBlocks := stm_aBlocks s @ [b]\<rparr>) (m1\<lparr>my_iUsed := my_iUsed m1 + 1\<rparr>))))"

fun my_addBlocks :: "nat \<Rightarrow> nat \<Rightarrow> myriad \<Rightarrow> myriad result" where
  "my_addBlocks p 0 m = Inr m"
| "my_addBlocks p (Suc n) m = rbind (my_streamAddBlock p m) (\<lambda>(b, m'). my_addBlocks p n m')"

definition my_getBlock :: "nat \<Rightarrow> myriad \<Rightarrow> (nat \<times> myriad) result" where
  "my_getBlock iBlock m =
     rbind (fl_read (fl_setPos (my_sStore m) (int (my_iBlockSize m * iBlock))) (int (my_iBlockSize m))) (\<lambda>(bs, st).
       if length bs < my_iBlockSize m then Inl Out_Of_Bounds
       else Inr (my_next m, m\<lparr>my_sStore := st,
              my_blocks := (my_blocks m)(my_next m \<mapsto>
                \<lparr>blk_pData = bs, blk_bChanged = False, blk_iBlockIndex = iBlock\<rparr>),
              my_hActiveBlocks := (my_hActiveBlocks m)(iBlock \<mapsto> my_next m),
              my_next := Suc (my_next m)\<rparr>))"

definition my_syncBlock :: "nat \<Rightarrow> myriad \<Rightarrow> myriad result" where
  "my_syncBlock a m =
     rbind (block_at m a) (\<lambda>b.
       if blk_bChanged b
       then rbind (fl_write (fl_setPos (my_sStore m) (int (my_iBlockSize m * blk_iBlockIndex b))) (blk_pData b)) (\<lambda>(n, st).
              Inr (m\<lparr>my_sStore := st, my_blocks := (my_blocks m)(a \<mapsto> b\<lparr>blk_bChanged := False\<rparr>)\<rparr>))
       else Inr m)"

definition my_releaseBlock :: "nat option \<Rightarrow> myriad \<Rightarrow> myriad result" where
  "my_releaseBlock p m =
     (case p of None \<Rightarrow> Inr m
      | Some a \<Rightarrow> rbind (my_syncBlock a m) (\<lambda>m1. rbind (block_at m1 a) (\<lambda>b.
          Inr (m1\<lparr>my_hActiveBlocks := (my_hActiveBlocks m1)(blk_iBlockIndex b := None),
                  my_blocks := (my_blocks m1)(a := None)\<rparr>))))"

section \<open>Streams\<close>

fun find_in :: "myriad \<Rightarrow> int \<Rightarrow> nat list \<Rightarrow> nat result" where
  "find_in m iId [] = Inl (MyriadException noSuchStream)"
| "find_in m iId (p # ps) = rbind (stream_at m p) (\<lambda>s. if stm_iId s = iId then Inr p else find_in m iId ps)"

definition my_findStream :: "int \<Rightarrow> myriad \<Rightarrow> nat result" where
  "my_findStream iId m = find_in m iId (my_aStreams m)"

definition my_last_id :: "myriad \<Rightarrow> int result" where
  "my_last_id m =
     (if my_aStreams m = [] then Inl Out_Of_Bounds
      else rbind (stream_at m (last (my_aStreams m))) (\<lambda>s. Inr (stm_iId s)))"

definition my_createStream :: "int \<Rightarrow> myriad \<Rightarrow> (int \<times> myriad) result" where
  "my_createStream iPreAllocate m =
     rbind (my_last_id m) (\<lambda>iLast.
       let (p, m1) = new_stream \<lparr>stm_iId = iLast + 1, stm_iSize = 0, stm_aBlocks = []\<rparr> m;
           m2 = m1\<lparr>my_aStreams := my_aStreams m1 @ [p]\<rparr>
       in rbind (my_addBlocks p (nat iPreAllocate) m2) (\<lambda>m3.
            Inr (iLast + 1, m3\<lparr>my_bHeaderChanged := True\<rparr>)))"

text \<open>
  \<open>createStreamWithId\<close>: the exception it throws when the id exists is caught by its own
  handler, so both cases go on to create the stream. It is inserted before the first stream with
  a larger id; when there is none the new stream is in no list.
\<close>

fun insert_by_id :: "myriad \<Rightarrow> int \<Rightarrow> nat \<Rightarrow> nat list \<Rightarrow> nat list result" where
  "insert_by_id m iId p [] = Inr []"
| "insert_by_id m iId p (q # qs) = rbind (stream_at m q) (\<lambda>s.
     if stm_iId s > iId then Inr (p # q # qs)
     else rbind (insert_by_id m iId p qs) (\<lambda>r. Inr (q # r)))"

definition my_createHandler :: "int \<Rightarrow> int \<Rightarrow> myriad \<Rightarrow> (int \<times> myriad) result" where
  "my_createHandler iId iPreAllocate m =
     rbind (my_last_id m) (\<lambda>iLast.
       let (p, m1) = new_stream \<lparr>stm_iId = iId, stm_iSize = 0, stm_aBlocks = []\<rparr> m
       in rbind (if iLast < iId then Inr (my_aStreams m1 @ [p])
                 else insert_by_id m1 iId p (my_aStreams m1)) (\<lambda>as.
          rbind (my_addBlocks p (nat iPreAllocate) (m1\<lparr>my_aStreams := as\<rparr>)) (\<lambda>m2.
            Inr (iId, m2\<lparr>my_bHeaderChanged := True\<rparr>))))"

definition my_createStreamWithId :: "int \<Rightarrow> int \<Rightarrow> myriad \<Rightarrow> (int \<times> myriad) result" where
  "my_createStreamWithId iId iPreAllocate m =
     (let e = (case my_findStream iId m of Inr p \<Rightarrow> MyriadException streamExists | Inl e \<Rightarrow> e)
      in case e of MyriadException c \<Rightarrow> my_createHandler iId iPreAllocate m | _ \<Rightarrow> Inl e)"

definition my_deleteStream :: "int \<Rightarrow> myriad \<Rightarrow> myriad result" where
  "my_deleteStream iId m =
     (if iId < 0 then Inl (MyriadException invalidStreamId)
      else if iId = 0 then Inl (MyriadException protectedStream)
      else case my_findStream iId m of
             Inl (MyriadException c) \<Rightarrow> Inr m
           | Inl e \<Rightarrow> Inl e
           | Inr p \<Rightarrow> rbind (stream_at m p) (\<lambda>s.
               Inr (m\<lparr>my_lFreeBlocks := my_lFreeBlocks m @ stm_aBlocks s,
                      my_iUsed := my_iUsed m - int (length (stm_aBlocks s)),
                      my_aStreams := remove1 p (my_aStreams m),
                      my_bHeaderChanged := True,
                      my_streams := (my_streams m)(p := None)\<rparr>)))"

definition my_getStreamIds :: "myriad \<Rightarrow> int list" where
  "my_getStreamIds m = map (\<lambda>p. case my_streams m p of None \<Rightarrow> 0 | Some s \<Rightarrow> stm_iId s) (my_aStreams m)"

definition my_getStreamSize :: "int \<Rightarrow> myriad \<Rightarrow> nat result" where
  "my_getStreamSize iId m = rbind (my_findStream iId m) (\<lambda>p. rbind (stream_at m p) (\<lambda>s. Inr (stm_iSize s)))"

definition my_hasStream :: "int \<Rightarrow> myriad \<Rightarrow> bool" where
  "my_hasStream iId m = (case my_findStream iId m of Inl e \<Rightarrow> False | Inr p \<Rightarrow> True)"

definition my_openStream :: "int \<Rightarrow> myriad \<Rightarrow> my_handle result" where
  "my_openStream iId m =
     rbind (my_findStream iId m) (\<lambda>p. Inr \<lparr>mh_pStream = p, mh_pCurBlock = None, mh_iPos = 0\<rparr>)"

definition my_getNumUsedBlocks :: "myriad \<Rightarrow> int" where
  "my_getNumUsedBlocks m = my_iUsed m"

text \<open>\<open>setStreamSize\<close>: whole blocks are given back from the end, or added.\<close>

function my_shrink :: "nat \<Rightarrow> nat \<Rightarrow> nat \<Rightarrow> myriad \<Rightarrow> myriad result" where
  "my_shrink p iSize iNewSize m =
     (if int iNewSize - int (my_iBlockSize m) > int iSize \<and> 0 < my_iBlockSize m
      then rbind (stream_at m p) (\<lambda>s.
             if stm_aBlocks s = [] then Inl Out_Of_Bounds
             else my_shrink p iSize (iNewSize - my_iBlockSize m)
               (set_stream p (s\<lparr>stm_aBlocks := butlast (stm_aBlocks s)\<rparr>)
                 (m\<lparr>my_iUsed := my_iUsed m - 1, my_lFreeBlocks := my_lFreeBlocks m @ [last (stm_aBlocks s)]\<rparr>)))
      else Inr m)"
  by pat_completeness auto
termination
  by (relation "measure (\<lambda>(p, iSize, iNewSize, m). iNewSize)") auto

declare my_shrink.simps [simp del]

function my_grow :: "nat \<Rightarrow> nat \<Rightarrow> nat \<Rightarrow> myriad \<Rightarrow> myriad result" where
  "my_grow p iSize iNewSize m =
     (if iNewSize < iSize \<and> 0 < my_iBlockSize m
      then case my_streamAddBlock p m of Inl e \<Rightarrow> Inl e
           | Inr bm \<Rightarrow> my_grow p iSize (iNewSize + my_iBlockSize m) (snd bm)
      else Inr m)"
  by pat_completeness auto
termination
  by (relation "measure (\<lambda>(p, iSize, iNewSize, m). iSize - iNewSize)") auto

declare my_grow.simps [simp del]

definition my_setStreamSize :: "nat \<Rightarrow> nat \<Rightarrow> myriad \<Rightarrow> myriad result" where
  "my_setStreamSize p iSize m =
     rbind (stream_at m p) (\<lambda>s.
       if stm_iSize s = iSize then Inr m
       else rbind (if stm_iSize s > iSize
                   then my_shrink p iSize (length (stm_aBlocks s) * my_iBlockSize m) m
                   else my_grow p iSize (length (stm_aBlocks s) * my_iBlockSize m) m)
              (\<lambda>m1. rbind (stream_at m1 p) (\<lambda>s1.
                 Inr ((set_stream p (s1\<lparr>stm_iSize := iSize\<rparr>) m1)\<lparr>my_bHeaderChanged := True\<rparr>))))"

section \<open>Formatting a store\<close>

text \<open>
  The loop that finds how many blocks the header needs, of which the header itself must hold the
  numbers. It may not end, so its result is an option.
\<close>

partial_function (option) my_header_loop :: "nat \<Rightarrow> nat \<Rightarrow> nat \<Rightarrow> (nat \<times> nat) option" where
  "my_header_loop bs iHeaderSize iHeaderBlocks =
     (if iHeaderSize > iHeaderBlocks * bs
      then my_header_loop bs (14 + 8 + 4 * blkDiv (iHeaderSize + 4) bs) (blkDiv (iHeaderSize + 4) bs)
      else Some (iHeaderSize, iHeaderBlocks))"

text \<open>An \<open>int\<close> in memory, four bytes with the lowest first.\<close>

definition int_bytes :: "int \<Rightarrow> byte list" where
  "int_bytes i = map (\<lambda>k. word_of_int (i div 256 ^ k)) [0..<4]"

definition magic_code :: "byte list" where
  "magic_code = [0x0a, 0xd3, 0xfa, 0x84]"

definition my_format_bytes :: "nat \<Rightarrow> nat \<Rightarrow> nat \<Rightarrow> byte list" where
  "my_format_bytes iBlockSize iHeaderSize iHeaderBlocks =
     magic_code @ [1] @ [32] @ int_bytes (int iBlockSize) @ int_bytes 1 @ int_bytes 0 @
     int_bytes (int iHeaderSize) @ concat (map (\<lambda>b. int_bytes (int b)) [0..<iHeaderBlocks])"

fun write_zero_blocks :: "nat \<Rightarrow> nat \<Rightarrow> bu_file \<Rightarrow> bu_file result" where
  "write_zero_blocks iBlockSize 0 f = Inr f"
| "write_zero_blocks iBlockSize (Suc n) f =
     rbind (fl_write f (replicate iBlockSize 0)) (\<lambda>(k, f'). write_zero_blocks iBlockSize n f')"

definition my_new :: "bu_file \<Rightarrow> nat \<Rightarrow> myriad" where
  "my_new sStore iBlockSize =
     \<lparr>my_sStore = sStore, my_iBlockSize = iBlockSize, my_iBlocks = 0, my_iUsed = 0, my_lFreeBlocks = [],
      my_streams = Map.empty, my_aStreams = [], my_blocks = Map.empty, my_hActiveBlocks = Map.empty,
      my_bHeaderChanged = False, my_next = 0\<rparr>"

definition my_initialize :: "nat \<Rightarrow> int \<Rightarrow> myriad \<Rightarrow> myriad result option" where
  "my_initialize iBlockSize iPreAllocate m =
     (if iBlockSize = 0 then Some (Inl Out_Of_Bounds)
      else Option.bind (my_header_loop iBlockSize (14 + 8 + 4) 0) (\<lambda>(iHeaderSize, iHeaderBlocks).
        let iPre = nat (iPreAllocate + int iHeaderBlocks) in
        Some (rbind (write_zero_blocks iBlockSize iPre (my_sStore m)) (\<lambda>f1.
          rbind (fl_write (fl_setPos f1 0) (my_format_bytes iBlockSize iHeaderSize iHeaderBlocks)) (\<lambda>(k, f2).
            let (p, m1) = new_stream \<lparr>stm_iId = 0, stm_iSize = iHeaderSize, stm_aBlocks = [0..<iHeaderBlocks]\<rparr>
                  (m\<lparr>my_sStore := f2, my_iBlockSize := iBlockSize, my_iBlocks := iPre,
                     my_iUsed := 1 + int iHeaderBlocks,
                     my_lFreeBlocks := [iHeaderBlocks..<iPre],
                     my_streams := my_streams m |` (- set (my_aStreams m)), my_aStreams := []\<rparr>)
            in Inr (m1\<lparr>my_aStreams := [p], my_bHeaderChanged := True\<rparr>))))))"

section \<open>A handle\<close>

text \<open>Have the block with number \<open>i\<close> loaded: release another one, then read this one.\<close>

definition mh_seat :: "nat \<Rightarrow> my_handle \<Rightarrow> myriad \<Rightarrow> (nat \<times> my_handle \<times> myriad) result" where
  "mh_seat i h m =
     rbind (case mh_pCurBlock h of None \<Rightarrow> Inr None
            | Some a \<Rightarrow> rbind (block_at m a) (\<lambda>b. Inr (if blk_iBlockIndex b = i then Some a else None)))
       (\<lambda>cur. case cur of Some a \<Rightarrow> Inr (a, h, m)
        | None \<Rightarrow> rbind (my_releaseBlock (mh_pCurBlock h) m) (\<lambda>m1.
                  rbind (my_getBlock i m1) (\<lambda>(a, m2). Inr (a, h\<lparr>mh_pCurBlock := Some a\<rparr>, m2))))"

text \<open>One round of the loop of \<open>read\<close>.\<close>

definition mh_read_step :: "nat \<Rightarrow> my_handle \<Rightarrow> myriad \<Rightarrow> (byte list \<times> my_handle \<times> myriad) result" where
  "mh_read_step iLeft h m =
     rbind (stream_at m (mh_pStream h)) (\<lambda>s.
     let bs = int (my_iBlockSize m); pos = mh_iPos h in
     rbind (array_at (stm_aBlocks s) (c_div pos bs)) (\<lambda>iCurBlock.
     rbind (mh_seat iCurBlock h m) (\<lambda>(a, h1, m1).
     rbind (block_at m1 a) (\<lambda>b.
     let iAmnt = min (min (bs - c_rem pos bs) (int iLeft)) (int (stm_iSize s) - pos) in
     rbind (mem_load (blk_pData b) (c_rem pos bs) iAmnt) (\<lambda>xs.
       Inr (xs, h1\<lparr>mh_iPos := pos + iAmnt\<rparr>, m1))))))"

partial_function (option) mh_read_loop ::
    "nat \<Rightarrow> my_handle \<Rightarrow> myriad \<Rightarrow> (byte list \<times> my_handle \<times> myriad) result option" where
  "mh_read_loop iLeft h m =
     (if iLeft = 0 then Some (Inr ([], h, m))
      else case mh_read_step iLeft h m of Inl e \<Rightarrow> Some (Inl e)
      | Inr r \<Rightarrow> Option.bind (mh_read_loop (iLeft - length (fst r)) (fst (snd r)) (snd (snd r)))
          (\<lambda>q. Some (rbind q (\<lambda>t. Inr (fst r @ fst t, snd t)))))"

definition mh_read :: "my_handle \<Rightarrow> int \<Rightarrow> myriad \<Rightarrow> (byte list \<times> my_handle \<times> myriad) result option" where
  "mh_read h nBytes m =
     (case stream_at m (mh_pStream h) of Inl e \<Rightarrow> Some (Inl e)
      | Inr s \<Rightarrow>
         (let n = (if nBytes > int (stm_iSize s) - mh_iPos h then int (stm_iSize s) - mh_iPos h else nBytes)
          in if n \<le> 0 then Some (Inr ([], h, m)) else mh_read_loop (nat n) h m))"

text \<open>
  One round of the loop of \<open>write\<close>: it overwrites inside the stream and extends it behind. The position
  and the size are of type \<open>int\<close>; an addition that would take them to \<open>2^31\<close> overflows, which has no
  meaning in C++ and is an error here.
\<close>

definition mh_write_step :: "byte list \<Rightarrow> my_handle \<Rightarrow> myriad \<Rightarrow> (nat \<times> my_handle \<times> myriad) result" where
  "mh_write_step bytes h m =
     rbind (stream_at m (mh_pStream h)) (\<lambda>s.
     let bs = int (my_iBlockSize m); pos = mh_iPos h in
     rbind (if c_div pos bs < int (length (stm_aBlocks s))
            then rbind (array_at (stm_aBlocks s) (c_div pos bs)) (\<lambda>i. Inr (i, m))
            else my_streamAddBlock (mh_pStream h) m) (\<lambda>(iCurBlock, m0).
     rbind (mh_seat iCurBlock h m0) (\<lambda>(a, h1, m1).
     rbind (block_at m1 a) (\<lambda>b.
     rbind (stream_at m1 (mh_pStream h)) (\<lambda>s1.
     let over = pos < int (stm_iSize s1);
         room = min (bs - c_rem pos bs) (int (length bytes));
         iAmnt = (if over then min room (int (stm_iSize s1) - pos) else room) in
     rbind (mem_store (blk_pData b) (c_rem pos bs) (take (nat iAmnt) bytes)) (\<lambda>d.
       let m2 = m1\<lparr>my_blocks := (my_blocks m1)(a \<mapsto> b\<lparr>blk_pData := d, blk_bChanged := True\<rparr>)\<rparr>;
           m3 = (if over then m2
                 else (set_stream (mh_pStream h) (s1\<lparr>stm_iSize := stm_iSize s1 + nat iAmnt\<rparr>) m2)
                        \<lparr>my_bHeaderChanged := True\<rparr>)
       in if \<not> over \<and> 2147483648 \<le> pos + iAmnt then Inl Out_Of_Bounds
          else Inr (nat iAmnt, h1\<lparr>mh_iPos := pos + iAmnt\<rparr>, m3)))))))"

partial_function (option) mh_write_loop ::
    "byte list \<Rightarrow> my_handle \<Rightarrow> myriad \<Rightarrow> (my_handle \<times> myriad) result option" where
  "mh_write_loop bytes h m =
     (if bytes = [] then Some (Inr (h, m))
      else case mh_write_step bytes h m of Inl e \<Rightarrow> Some (Inl e)
      | Inr r \<Rightarrow> mh_write_loop (drop (fst r) bytes) (fst (snd r)) (snd (snd r)))"

text \<open>\<open>int iLeft = nBytes\<close>: only so many bytes are written, none if that is negative.\<close>

definition mh_write :: "my_handle \<Rightarrow> byte list \<Rightarrow> myriad \<Rightarrow> (int \<times> my_handle \<times> myriad) result option" where
  "mh_write h bytes m =
     map_option (\<lambda>r. rbind r (\<lambda>hm. Inr (int (length bytes), hm))) 
       (mh_write_loop (take (nat (c_int (int (length bytes)))) bytes) h m)"

definition mh_seek :: "my_handle \<Rightarrow> int \<Rightarrow> my_handle" where
  "mh_seek h offset = h\<lparr>mh_iPos := c_int (mh_iPos h + offset)\<rparr>"

definition mh_setPos :: "my_handle \<Rightarrow> int \<Rightarrow> my_handle" where
  "mh_setPos h pos = h\<lparr>mh_iPos := c_int pos\<rparr>"

definition mh_setPosEnd :: "my_handle \<Rightarrow> int \<Rightarrow> myriad \<Rightarrow> my_handle result" where
  "mh_setPosEnd h pos m =
     rbind (stream_at m (mh_pStream h)) (\<lambda>s. Inr (h\<lparr>mh_iPos := c_int (int (stm_iSize s) - pos)\<rparr>))"

definition mh_isEos :: "my_handle \<Rightarrow> myriad \<Rightarrow> bool result" where
  "mh_isEos h m = rbind (stream_at m (mh_pStream h)) (\<lambda>s. Inr (mh_iPos h \<ge> int (stm_iSize s)))"

definition mh_setSize :: "my_handle \<Rightarrow> int \<Rightarrow> myriad \<Rightarrow> (my_handle \<times> myriad) result" where
  "mh_setSize h iSize m =
     (let n = (if iSize < 0 then 0 else iSize)
      in rbind (my_setStreamSize (mh_pStream h) (nat n) m) (\<lambda>m'.
           Inr (if mh_iPos h > n then h\<lparr>mh_iPos := c_int n\<rparr> else h, m')))"

definition mh_destroy :: "my_handle \<Rightarrow> myriad \<Rightarrow> myriad result" where
  "mh_destroy h m = my_releaseBlock (mh_pCurBlock h) m"

end
