(* ===== verification/Bu_MyriadBlocks.thy ===== *)
theory Bu_MyriadBlocks
  imports Bu_Myriad
begin

text \<open>
  The block accounting of \<open>Bu::Myriad\<close>: every block of the store belongs to one stream or is free,
  and the operations on streams keep it so. A Myriad is seen as a map from stream ids to bytes
  (\<open>my_abs\<close>), which creating, deleting and resizing streams change as a map.
\<close>

section \<open>Every block belongs to one stream or is free\<close>

definition strm :: "myriad \<Rightarrow> nat \<Rightarrow> my_stream" where
  "strm m p = the (my_streams m p)"

definition my_owned :: "myriad \<Rightarrow> nat list" where
  "my_owned m = concat (map (\<lambda>p. stm_aBlocks (strm m p)) (my_aStreams m))"

text \<open>
  Block accounting: the blocks of the listed streams and the free blocks are all blocks, each
  once; the store is long enough to hold them; pointers are to allocated objects.
\<close>

definition my_alloc :: "myriad \<Rightarrow> bool" where
  "my_alloc m \<longleftrightarrow>
     0 < my_iBlockSize m \<and>
     mset (my_owned m) + mset (my_lFreeBlocks m) = mset [0..<my_iBlocks m] \<and>
     distinct (my_aStreams m) \<and> set (my_aStreams m) \<subseteq> dom (my_streams m) \<and>
     (\<forall>p. my_next m \<le> p \<longrightarrow> my_streams m p = None \<and> my_blocks m p = None) \<and>
     my_iBlocks m * my_iBlockSize m \<le> length (fl_data (my_sStore m))"

lemma my_alloc_stream: "my_alloc m \<Longrightarrow> p \<in> set (my_aStreams m) \<Longrightarrow> my_streams m p = Some (strm m p)"
  by (auto simp: my_alloc_def strm_def)

lemma my_alloc_blocks:
  "my_alloc m \<Longrightarrow> p \<in> set (my_aStreams m) \<Longrightarrow> i \<in> set (stm_aBlocks (strm m p)) \<Longrightarrow> i < my_iBlocks m"
proof -
  assume m: "my_alloc m" "p \<in> set (my_aStreams m)" "i \<in> set (stm_aBlocks (strm m p))"
  then have "i \<in># mset (my_owned m) + mset (my_lFreeBlocks m)" by (auto simp: my_owned_def)
  moreover have "mset (my_owned m) + mset (my_lFreeBlocks m) = mset [0..<my_iBlocks m]"
    using m(1) by (simp add: my_alloc_def)
  ultimately show ?thesis by simp
qed

lemma my_alloc_distinct:
  assumes "my_alloc m"
  shows "distinct (my_owned m @ my_lFreeBlocks m)"
proof -
  have "mset (my_owned m @ my_lFreeBlocks m) = mset [0..<my_iBlocks m]"
    using assms by (simp add: my_alloc_def)
  then show ?thesis by (metis distinct_upt mset_eq_imp_distinct_iff)
qed

lemma owned_other:
  "distinct (concat (map f as)) \<Longrightarrow> p \<in> set as \<Longrightarrow> q \<in> set as \<Longrightarrow> p \<noteq> q \<Longrightarrow> set (f p) \<inter> set (f q) = {}"
  by (induction as) auto

lemma my_alloc_disjoint:
  assumes "my_alloc m" "p \<in> set (my_aStreams m)" "q \<in> set (my_aStreams m)" "p \<noteq> q"
  shows "set (stm_aBlocks (strm m p)) \<inter> set (stm_aBlocks (strm m q)) = {}"
  using my_alloc_distinct [OF assms(1)] owned_other [OF _ assms(2-4), of "\<lambda>p. stm_aBlocks (strm m p)"]
  by (simp add: my_owned_def)

lemma my_alloc_distinct_stream:
  assumes "my_alloc m" "p \<in> set (my_aStreams m)"
  shows "distinct (stm_aBlocks (strm m p))"
proof -
  have "distinct (concat (map (\<lambda>p. stm_aBlocks (strm m p)) (my_aStreams m)))"
    using my_alloc_distinct [OF assms(1)] by (simp add: my_owned_def)
  with assms(2) show ?thesis by (auto simp: distinct_concat_iff dest: bspec)
qed

lemma owned_upd:
  "distinct as \<Longrightarrow> p \<in> set as \<Longrightarrow>
   mset (concat (map (\<lambda>q. if q = p then b else f q) as)) + mset (f p) = mset (concat (map f as)) + mset b"
proof (induction as)
  case (Cons a as)
  show ?case
  proof (cases "a = p")
    case True
    then have "map (\<lambda>q. if q = p then b else f q) as = map f as" using Cons.prems by auto
    then have "concat (map (\<lambda>q. if q = p then b else f q) as) = concat (map f as)" by (simp only:)
    with True show ?thesis by simp
  next
    case False
    with Cons show ?thesis by simp
  qed
qed simp

lemma owned_set_stream:
  assumes "distinct (my_aStreams m)" "p \<in> set (my_aStreams m)"
  shows "mset (my_owned (set_stream p s m)) + mset (stm_aBlocks (strm m p)) = mset (my_owned m) + mset (stm_aBlocks s)"
proof -
  have "my_owned (set_stream p s m) =
      concat (map (\<lambda>q. if q = p then stm_aBlocks s else stm_aBlocks (strm m q)) (my_aStreams m))"
    unfolding my_owned_def by (intro arg_cong [of _ _ concat]) (simp add: set_stream_def strm_def)
  then show ?thesis
    using owned_upd [OF assms, of "stm_aBlocks s" "\<lambda>q. stm_aBlocks (strm m q)"]
    by (simp add: my_owned_def)
qed

lemma strm_set_stream [simp]:
  "strm (set_stream p s m) q = (if q = p then s else strm m q)"
  by (simp add: set_stream_def strm_def)

text \<open>What an operation on block numbers leaves alone.\<close>

definition my_frame :: "myriad \<Rightarrow> myriad \<Rightarrow> bool" where
  "my_frame m m' \<longleftrightarrow>
     my_iBlockSize m' = my_iBlockSize m \<and> my_aStreams m' = my_aStreams m \<and>
     my_blocks m' = my_blocks m \<and> my_next m' = my_next m \<and>
     my_iBlocks m \<le> my_iBlocks m' \<and>
     (\<forall>i < my_iBlocks m. piece (my_iBlockSize m) (fl_data (my_sStore m')) i =
        piece (my_iBlockSize m) (fl_data (my_sStore m)) i)"

lemma my_frame_refl [simp]: "my_frame m m"
  by (simp add: my_frame_def)

lemma my_frame_trans: "my_frame m m' \<Longrightarrow> my_frame m' m'' \<Longrightarrow> my_frame m m''"
  by (auto simp: my_frame_def)

lemma block_in_store:
  assumes "my_alloc m" "i < my_iBlocks m"
  shows "Suc i * my_iBlockSize m \<le> length (fl_data (my_sStore m))"
proof -
  have "Suc i * my_iBlockSize m \<le> my_iBlocks m * my_iBlockSize m"
    using assms(2) by (intro mult_le_mono1) simp
  with assms(1) show ?thesis by (simp add: my_alloc_def)
qed

lemma my_findEmptyBlock_alloc:
  assumes m: "my_alloc m" and f: "my_findEmptyBlock m = (b, m')"
  shows "mset (my_owned m) + mset (my_lFreeBlocks m') + {#b#} = mset [0..<my_iBlocks m'] \<and>
    my_iBlocks m' * my_iBlockSize m \<le> length (fl_data (my_sStore m')) \<and>
    my_frame m m' \<and> my_streams m' = my_streams m \<and> my_iUsed m' = my_iUsed m \<and>
    b < my_iBlocks m' \<and> b \<notin> set (my_owned m)"
proof -
  have eq: "mset (my_owned m) + mset (my_lFreeBlocks m') + {#b#} = mset [0..<my_iBlocks m'] \<and>
    my_iBlocks m' * my_iBlockSize m \<le> length (fl_data (my_sStore m')) \<and>
    my_frame m m' \<and> my_streams m' = my_streams m \<and> my_iUsed m' = my_iUsed m"
  proof (cases "my_lFreeBlocks m")
    case (Cons c cs)
    with f have m': "b = c" "m' = m\<lparr>my_bHeaderChanged := True, my_lFreeBlocks := cs\<rparr>"
      by (simp_all add: my_findEmptyBlock_def)
    with m Cons show ?thesis by (simp add: my_alloc_def my_frame_def)
  next
    case Nil
    let ?n = "(my_iBlocks m + 1) * my_iBlockSize m"
    have m': "b = my_iBlocks m" "m' = m\<lparr>my_bHeaderChanged := True,
        my_sStore := fl_setSize (my_sStore m) (int ?n), my_iBlocks := my_iBlocks m + 1\<rparr>"
      using f Nil by (auto simp: my_findEmptyBlock_def simp del: of_nat_mult of_nat_add)
    have data: "fl_data (my_sStore m') = take ?n (fl_data (my_sStore m)) @
        replicate (?n - length (fl_data (my_sStore m))) 0"
      unfolding m'(2) fl_setSize_def by (simp del: of_nat_mult mult_Suc)
    then have len: "length (fl_data (my_sStore m')) = ?n" by simp
    have "piece (my_iBlockSize m) (fl_data (my_sStore m')) i = piece (my_iBlockSize m) (fl_data (my_sStore m)) i"
      if "i < my_iBlocks m" for i
    proof -
      have i: "Suc i * my_iBlockSize m \<le> length (fl_data (my_sStore m))"
        by (rule block_in_store [OF m that])
      have "Suc i * my_iBlockSize m \<le> ?n" using that by (intro mult_le_mono1) simp
      with i have "Suc i * my_iBlockSize m \<le> length (take ?n (fl_data (my_sStore m)))" by simp
      then have "piece (my_iBlockSize m) (fl_data (my_sStore m')) i =
          piece (my_iBlockSize m) (take ?n (fl_data (my_sStore m))) i"
        unfolding data by (rule piece_append)
      also have "\<dots> = piece (my_iBlockSize m) (fl_data (my_sStore m)) i"
        using \<open>Suc i * my_iBlockSize m \<le> ?n\<close> by (rule piece_take)
      finally show ?thesis .
    qed
    moreover have "mset (my_owned m) = mset [0..<my_iBlocks m]"
      using m Nil by (simp add: my_alloc_def)
    ultimately show ?thesis using len m' Nil by (simp add: my_frame_def)
  qed
  then have all: "mset (my_owned m) + mset (my_lFreeBlocks m') + {#b#} = mset [0..<my_iBlocks m']" by simp
  have "b \<in># mset (my_owned m) + mset (my_lFreeBlocks m') + {#b#}" by simp
  then have "b \<in># mset [0..<my_iBlocks m']" unfolding all .
  then have "b < my_iBlocks m'" by simp
  moreover have "b \<notin> set (my_owned m)"
  proof
    assume "b \<in> set (my_owned m)"
    then have "count (mset (my_owned m)) b \<ge> 1" by (simp add: Suc_le_eq)
    moreover have "count (mset [0..<my_iBlocks m']) b =
        count (mset (my_owned m)) b + count (mset (my_lFreeBlocks m')) b + 1"
      unfolding all [symmetric] by simp
    moreover have "count (mset [0..<my_iBlocks m']) b \<le> 1"
      using distinct_upt [of 0 "my_iBlocks m'"] unfolding distinct_count_atmost_1 by (auto dest: spec)
    ultimately show False by linarith
  qed
  ultimately show ?thesis using eq by simp
qed

lemma my_streamAddBlock_alloc:
  assumes m: "my_alloc m" and p: "p \<in> set (my_aStreams m)"
  shows "\<exists>b m'. my_streamAddBlock p m = Inr (b, m') \<and> my_alloc m' \<and> my_frame m m' \<and>
    my_streams m' = (my_streams m)(p \<mapsto> (strm m p)\<lparr>stm_aBlocks := stm_aBlocks (strm m p) @ [b]\<rparr>) \<and>
    my_iUsed m' - int (length (my_owned m')) = my_iUsed m - int (length (my_owned m)) \<and>
    b < my_iBlocks m' \<and> b \<notin> set (my_owned m)"
proof -
  obtain b m1 where f: "my_findEmptyBlock m = (b, m1)" by fastforce
  note fe = my_findEmptyBlock_alloc [OF m f]
  let ?s = "(strm m p)\<lparr>stm_aBlocks := stm_aBlocks (strm m p) @ [b]\<rparr>"
  define m' where "m' = set_stream p ?s (m1\<lparr>my_iUsed := my_iUsed m1 + 1\<rparr>)"
  have s: "my_streams m p = Some (strm m p)" by (rule my_alloc_stream [OF m p])
  then have eq: "my_streamAddBlock p m = Inr (b, m')"
    using f fe by (simp add: my_streamAddBlock_def stream_at_def m'_def)
  have same: "my_aStreams m1 = my_aStreams m" "my_streams m1 = my_streams m" "my_iUsed m1 = my_iUsed m"
    using fe by (auto simp: my_frame_def)
  then have st: "strm (m1\<lparr>my_iUsed := my_iUsed m1 + 1\<rparr>) = strm m" by (simp add: strm_def fun_eq_iff)
  then have ow1: "my_owned (m1\<lparr>my_iUsed := my_iUsed m1 + 1\<rparr>) = my_owned m" by (simp add: my_owned_def same)
  have d: "distinct (my_aStreams m)" using m by (simp add: my_alloc_def)
  have "mset (my_owned m') + mset (stm_aBlocks (strm m p)) =
      mset (my_owned m) + mset (stm_aBlocks (strm m p)) + {#b#}"
    using owned_set_stream [of "m1\<lparr>my_iUsed := my_iUsed m1 + 1\<rparr>" p ?s] d p
    unfolding m'_def [symmetric] ow1 st by (simp add: same)
  then have ow: "mset (my_owned m') = mset (my_owned m) + {#b#}" by simp
  then have len: "length (my_owned m') = length (my_owned m) + 1" by (metis size_mset size_union size_single)
  have m'f: "my_lFreeBlocks m' = my_lFreeBlocks m1" "my_iBlocks m' = my_iBlocks m1"
    "my_iBlockSize m' = my_iBlockSize m1" "my_aStreams m' = my_aStreams m1" "my_sStore m' = my_sStore m1"
    "my_next m' = my_next m1" "my_blocks m' = my_blocks m1" "my_iUsed m' = my_iUsed m1 + 1"
    "my_streams m' = (my_streams m)(p \<mapsto> ?s)"
    by (simp_all add: m'_def set_stream_def same)
  have fr: "my_frame m m1" using fe by blast
  have "my_alloc m'"
    unfolding my_alloc_def
  proof (intro conjI)
    show "0 < my_iBlockSize m'" using m m'f fr by (simp add: my_alloc_def my_frame_def)
    show "mset (my_owned m') + mset (my_lFreeBlocks m') = mset [0..<my_iBlocks m']"
      using fe ow m'f by (simp add: ac_simps)
    show "distinct (my_aStreams m')" using d m'f same by simp
    show "set (my_aStreams m') \<subseteq> dom (my_streams m')" using m m'f same by (auto simp: my_alloc_def)
    show "\<forall>q. my_next m' \<le> q \<longrightarrow> my_streams m' q = None \<and> my_blocks m' q = None"
      using m m'f fr s by (auto simp: my_alloc_def my_frame_def)
    show "my_iBlocks m' * my_iBlockSize m' \<le> length (fl_data (my_sStore m'))"
      using fe m'f fr by (simp add: my_frame_def)
  qed
  moreover have "my_frame m m'" using fr m'f by (simp add: my_frame_def)
  ultimately show ?thesis using eq fe m'f len same by auto
qed

text \<open>The loops that add several blocks to one stream.\<close>

definition my_extends :: "nat \<Rightarrow> nat \<Rightarrow> myriad \<Rightarrow> myriad \<Rightarrow> bool" where
  "my_extends p n m m' \<longleftrightarrow>
     my_alloc m' \<and> my_frame m m' \<and>
     my_iUsed m' - int (length (my_owned m')) = my_iUsed m - int (length (my_owned m)) \<and>
     (\<exists>bs. length bs = n \<and>
       my_streams m' = (my_streams m)(p \<mapsto> (strm m p)\<lparr>stm_aBlocks := stm_aBlocks (strm m p) @ bs\<rparr>))"

lemma my_extends_refl:
  assumes "my_alloc m" "p \<in> set (my_aStreams m)"
  shows "my_extends p 0 m m"
  using assms my_alloc_stream [OF assms] by (simp add: my_extends_def fun_upd_idem)

lemma my_extends_trans:
  assumes "my_extends p n m m'" "my_extends p k m' m''"
  shows "my_extends p (n + k) m m''"
proof -
  obtain bs where bs: "length bs = n"
    "my_streams m' = (my_streams m)(p \<mapsto> (strm m p)\<lparr>stm_aBlocks := stm_aBlocks (strm m p) @ bs\<rparr>)"
    using assms(1) by (auto simp: my_extends_def)
  then have s: "strm m' p = (strm m p)\<lparr>stm_aBlocks := stm_aBlocks (strm m p) @ bs\<rparr>" by (simp add: strm_def)
  obtain cs where cs: "length cs = k"
    "my_streams m'' = (my_streams m')(p \<mapsto> (strm m' p)\<lparr>stm_aBlocks := stm_aBlocks (strm m' p) @ cs\<rparr>)"
    using assms(2) by (auto simp: my_extends_def)
  then have "my_streams m'' = (my_streams m)(p \<mapsto> (strm m p)\<lparr>stm_aBlocks := stm_aBlocks (strm m p) @ (bs @ cs)\<rparr>)"
    by (simp add: bs(2) s)
  with bs(1) cs(1) assms show ?thesis
    unfolding my_extends_def by (auto intro: my_frame_trans intro!: exI [of _ "bs @ cs"])
qed

lemma my_streamAddBlock_extends:
  assumes "my_alloc m" "p \<in> set (my_aStreams m)"
  shows "\<exists>b m'. my_streamAddBlock p m = Inr (b, m') \<and> my_extends p 1 m m' \<and> p \<in> set (my_aStreams m')"
proof -
  obtain b m' where "my_streamAddBlock p m = Inr (b, m')" "my_alloc m'" "my_frame m m'"
    "my_streams m' = (my_streams m)(p \<mapsto> (strm m p)\<lparr>stm_aBlocks := stm_aBlocks (strm m p) @ [b]\<rparr>)"
    "my_iUsed m' - int (length (my_owned m')) = my_iUsed m - int (length (my_owned m))"
    using my_streamAddBlock_alloc [OF assms] by blast
  with assms(2) show ?thesis
    by (intro exI [of _ b] exI [of _ m']) (auto simp: my_extends_def my_frame_def intro!: exI [of _ "[b]"])
qed

lemma my_addBlocks_extends:
  "my_alloc m \<Longrightarrow> p \<in> set (my_aStreams m) \<Longrightarrow> \<exists>m'. my_addBlocks p n m = Inr m' \<and> my_extends p n m m'"
proof (induction n arbitrary: m)
  case 0
  then show ?case using my_extends_refl by simp
next
  case (Suc n)
  obtain b m1 where m1: "my_streamAddBlock p m = Inr (b, m1)" "my_extends p 1 m m1" "p \<in> set (my_aStreams m1)"
    using my_streamAddBlock_extends [OF Suc.prems] by blast
  then have "my_alloc m1" by (simp add: my_extends_def)
  from Suc.IH [OF this m1(3)] obtain m' where "my_addBlocks p n m1 = Inr m'" "my_extends p n m1 m'" by blast
  with m1 my_extends_trans [OF m1(2), of n m'] show ?case by simp
qed

lemma my_grow_extends:
  "my_alloc m \<Longrightarrow> p \<in> set (my_aStreams m) \<Longrightarrow>
   \<exists>m' n. my_grow p iSize iNewSize m = Inr m' \<and> my_extends p n m m' \<and> iSize \<le> iNewSize + n * my_iBlockSize m"
proof (induction p iSize iNewSize m rule: my_grow.induct)
  case (1 p iSize iNewSize m)
  show ?case
  proof (cases "iNewSize < iSize \<and> 0 < my_iBlockSize m")
    case False
    with "1.prems" my_extends_refl [OF "1.prems"] show ?thesis
      by (subst my_grow.simps) (auto simp: my_alloc_def intro!: exI [of _ 0])
  next
    case True
    obtain b m1 where m1: "my_streamAddBlock p m = Inr (b, m1)" "my_extends p 1 m m1" "p \<in> set (my_aStreams m1)"
      using my_streamAddBlock_extends [OF "1.prems"] by blast
    then have a1: "my_alloc m1" "my_iBlockSize m1 = my_iBlockSize m" by (auto simp: my_extends_def my_frame_def)
    have "\<exists>m' n. my_grow p iSize (iNewSize + my_iBlockSize m) m1 = Inr m' \<and> my_extends p n m1 m' \<and>
        iSize \<le> iNewSize + my_iBlockSize m + n * my_iBlockSize m1"
      using "1.IH" [OF True m1(1)] a1(1) m1(3) by simp
    then obtain m' n where "my_grow p iSize (iNewSize + my_iBlockSize m) m1 = Inr m'" "my_extends p n m1 m'"
      "iSize \<le> iNewSize + my_iBlockSize m + n * my_iBlockSize m1" by blast
    with True m1 a1 my_extends_trans [OF m1(2), of n m'] show ?thesis
      by (subst my_grow.simps) (auto intro!: exI [of _ "Suc n"])
  qed
qed

text \<open>Giving blocks back.\<close>

lemma my_alloc_set_size:
  assumes "my_alloc m" "p \<in> set (my_aStreams m)"
  shows "my_alloc (set_stream p ((strm m p)\<lparr>stm_iSize := n\<rparr>) m) \<and>
    my_owned (set_stream p ((strm m p)\<lparr>stm_iSize := n\<rparr>) m) = my_owned m"
proof -
  let ?m = "set_stream p ((strm m p)\<lparr>stm_iSize := n\<rparr>) m"
  have ow: "my_owned ?m = my_owned m"
    unfolding my_owned_def by (intro arg_cong [of _ _ concat]) (simp add: set_stream_def strm_def)
  show ?thesis
    using assms my_alloc_stream [OF assms] ow
    by (auto simp: my_alloc_def set_stream_def split: if_splits)
qed

lemma my_alloc_give_back:
  assumes m: "my_alloc m" and p: "p \<in> set (my_aStreams m)" and ne: "stm_aBlocks (strm m p) \<noteq> []"
    and m': "m' = set_stream p ((strm m p)\<lparr>stm_aBlocks := butlast (stm_aBlocks (strm m p))\<rparr>)
      (m\<lparr>my_iUsed := my_iUsed m - 1, my_lFreeBlocks := my_lFreeBlocks m @ [last (stm_aBlocks (strm m p))]\<rparr>)"
  shows "my_alloc m' \<and> my_iUsed m' - int (length (my_owned m')) = my_iUsed m - int (length (my_owned m))"
proof -
  let ?b = "last (stm_aBlocks (strm m p))"
  let ?m1 = "m\<lparr>my_iUsed := my_iUsed m - 1, my_lFreeBlocks := my_lFreeBlocks m @ [?b]\<rparr>"
  have st: "strm ?m1 = strm m" "my_owned ?m1 = my_owned m" by (simp_all add: strm_def my_owned_def fun_eq_iff)
  have d: "distinct (my_aStreams m)" using m by (simp add: my_alloc_def)
  have b: "mset (stm_aBlocks (strm m p)) = mset (butlast (stm_aBlocks (strm m p))) + {#?b#}"
    using ne by (metis append_butlast_last_id mset_append mset_single_iff_right)
  have "mset (my_owned m') + mset (stm_aBlocks (strm m p)) =
      mset (my_owned m) + mset (butlast (stm_aBlocks (strm m p)))"
    using owned_set_stream [of ?m1 p "(strm m p)\<lparr>stm_aBlocks := butlast (stm_aBlocks (strm m p))\<rparr>"] d p
    unfolding m' [symmetric] st by simp
  then have ow: "mset (my_owned m') + {#?b#} = mset (my_owned m)" unfolding b by simp
  then have len: "length (my_owned m') + 1 = length (my_owned m)" by (metis size_mset size_union size_single)
  have free: "mset (my_lFreeBlocks m') = mset (my_lFreeBlocks m) + {#?b#}" by (simp add: m' set_stream_def)
  have "mset (my_owned m') + mset (my_lFreeBlocks m') = (mset (my_owned m') + {#?b#}) + mset (my_lFreeBlocks m)"
    unfolding free by (simp add: ac_simps)
  also have "\<dots> = mset [0..<my_iBlocks m']"
    using m unfolding ow by (simp add: my_alloc_def m' set_stream_def)
  finally have acc: "mset (my_owned m') + mset (my_lFreeBlocks m') = mset [0..<my_iBlocks m']" .
  have "my_alloc m'"
    unfolding my_alloc_def
    by (intro conjI acc) (use m my_alloc_stream [OF m p] in \<open>auto simp: m' set_stream_def my_alloc_def\<close>)
  with len show ?thesis by (simp add: m' set_stream_def)
qed

lemma my_shrink_alloc:
  "my_alloc m \<Longrightarrow> p \<in> set (my_aStreams m) \<Longrightarrow> iNewSize = length (stm_aBlocks (strm m p)) * my_iBlockSize m \<Longrightarrow>
   \<exists>m' k. my_shrink p iSize iNewSize m = Inr m' \<and> my_alloc m' \<and> my_frame m m' \<and>
     my_sStore m' = my_sStore m \<and>
     my_iUsed m' - int (length (my_owned m')) = my_iUsed m - int (length (my_owned m)) \<and>
     my_streams m' = (my_streams m)(p \<mapsto> (strm m p)\<lparr>stm_aBlocks := take k (stm_aBlocks (strm m p))\<rparr>) \<and>
     k \<le> length (stm_aBlocks (strm m p)) \<and> (iSize \<le> iNewSize \<longrightarrow> iSize \<le> k * my_iBlockSize m)"
proof (induction "length (stm_aBlocks (strm m p))" arbitrary: m iNewSize)
  case 0
  then have "my_shrink p iSize iNewSize m = Inr m" by (simp add: my_shrink.simps)
  with 0 my_alloc_stream [OF 0(2,3)] show ?case
    by (intro exI [of _ m] exI [of _ 0]) (simp add: fun_upd_idem)
next
  case (Suc l)
  show ?case
  proof (cases "int iNewSize - int (my_iBlockSize m) > int iSize \<and> 0 < my_iBlockSize m")
    case False
    then have "my_shrink p iSize iNewSize m = Inr m" by (subst my_shrink.simps) (simp only: if_False)
    with Suc.prems my_alloc_stream [OF Suc.prems(1,2)] show ?thesis
      by (intro exI [of _ m] exI [of _ "length (stm_aBlocks (strm m p))"]) (simp add: fun_upd_idem)
  next
    case True
    let ?s = "strm m p"
    have ne: "stm_aBlocks ?s \<noteq> []" using Suc.hyps(2) by auto
    define m1 where "m1 = set_stream p (?s\<lparr>stm_aBlocks := butlast (stm_aBlocks ?s)\<rparr>)
      (m\<lparr>my_iUsed := my_iUsed m - 1, my_lFreeBlocks := my_lFreeBlocks m @ [last (stm_aBlocks ?s)]\<rparr>)"
    note a1 = my_alloc_give_back [OF Suc.prems(1,2) ne m1_def]
    have s1: "strm m1 p = ?s\<lparr>stm_aBlocks := butlast (stm_aBlocks ?s)\<rparr>" "my_iBlockSize m1 = my_iBlockSize m"
      "my_aStreams m1 = my_aStreams m" by (simp_all add: m1_def) (simp_all add: set_stream_def)
    have l1: "l = length (stm_aBlocks (strm m1 p))" using Suc.hyps(2) by (simp add: s1)
    have "iNewSize - my_iBlockSize m = length (stm_aBlocks (strm m1 p)) * my_iBlockSize m1"
      using Suc.prems(3) Suc.hyps(2) [symmetric] by (simp add: s1)
    from Suc.hyps(1) [OF l1 _ _ this] a1 Suc.prems(2) obtain m' k where m':
      "my_shrink p iSize (iNewSize - my_iBlockSize m) m1 = Inr m'" "my_alloc m'" "my_frame m1 m'"
      "my_sStore m' = my_sStore m1"
      "my_iUsed m' - int (length (my_owned m')) = my_iUsed m1 - int (length (my_owned m1))"
      "my_streams m' = (my_streams m1)(p \<mapsto> (strm m1 p)\<lparr>stm_aBlocks := take k (stm_aBlocks (strm m1 p))\<rparr>)"
      "k \<le> length (stm_aBlocks (strm m1 p))"
      "iSize \<le> iNewSize - my_iBlockSize m \<longrightarrow> iSize \<le> k * my_iBlockSize m1"
      by (auto simp: s1)
    have "my_shrink p iSize iNewSize m = Inr m'"
      using True m'(1) ne my_alloc_stream [OF Suc.prems(1,2)]
      by (subst my_shrink.simps) (simp add: stream_at_def m1_def)
    moreover have "my_frame m m'"
      using m'(3) by (simp add: my_frame_def m1_def set_stream_def)
    moreover have "k \<le> length (stm_aBlocks ?s)" using m'(7) by (simp add: s1)
    moreover have "my_streams m' = (my_streams m)(p \<mapsto> ?s\<lparr>stm_aBlocks := take k (stm_aBlocks ?s)\<rparr>)"
    proof -
      have "take k (butlast (stm_aBlocks ?s)) = take k (stm_aBlocks ?s)"
        using m'(7) by (simp add: s1 butlast_conv_take min_absorb1)
      then show ?thesis unfolding m'(6) s1 by (simp add: m1_def set_stream_def)
    qed
    moreover have "my_sStore m' = my_sStore m" using m'(4) by (simp add: m1_def set_stream_def)
    ultimately show ?thesis using m' a1 True s1
      by (intro exI [of _ m'] exI [of _ k]) auto
  qed
qed

section \<open>The bytes of a stream\<close>

definition my_bytes :: "myriad \<Rightarrow> nat \<Rightarrow> byte list" where
  "my_bytes m p = take (stm_iSize (strm m p))
     (concat (map (piece (my_iBlockSize m) (fl_data (my_sStore m))) (stm_aBlocks (strm m p))))"

text \<open>What a Myriad promises: a map from ids to byte strings.\<close>

definition my_abs :: "myriad \<Rightarrow> int \<Rightarrow> byte list option" where
  "my_abs m = map_of (map (\<lambda>p. (stm_iId (strm m p), my_bytes m p)) (my_aStreams m))"

definition my_ids :: "myriad \<Rightarrow> int list" where
  "my_ids m = map (\<lambda>p. stm_iId (strm m p)) (my_aStreams m)"

lemma my_header_flag [simp]:
  "my_alloc (m\<lparr>my_bHeaderChanged := x\<rparr>) = my_alloc m" "my_owned (m\<lparr>my_bHeaderChanged := x\<rparr>) = my_owned m"
  "strm (m\<lparr>my_bHeaderChanged := x\<rparr>) = strm m" "my_bytes (m\<lparr>my_bHeaderChanged := x\<rparr>) = my_bytes m"
  "my_ids (m\<lparr>my_bHeaderChanged := x\<rparr>) = my_ids m"
  by (simp_all add: my_alloc_def my_owned_def strm_def my_bytes_def my_ids_def fun_eq_iff)

text \<open>
  The invariant between operations: block accounting, ids in ascending order, no stream larger
  than its blocks, and no block left in memory.
\<close>

definition my_wf :: "myriad \<Rightarrow> bool" where
  "my_wf m \<longleftrightarrow>
     my_alloc m \<and> my_blocks m = Map.empty \<and> my_aStreams m \<noteq> [] \<and> sorted_wrt (<) (my_ids m) \<and>
     (\<forall>p \<in> set (my_aStreams m). stm_iSize (strm m p) \<le> length (stm_aBlocks (strm m p)) * my_iBlockSize m)"

lemma my_wf_alloc: "my_wf m \<Longrightarrow> my_alloc m"
  by (simp add: my_wf_def)

lemma sorted_distinct: "sorted_wrt (<) (xs :: int list) \<Longrightarrow> distinct xs"
  by (induction xs) auto

lemma my_wf_ids_inj:
  assumes "my_wf m" "p \<in> set (my_aStreams m)" "q \<in> set (my_aStreams m)" "stm_iId (strm m p) = stm_iId (strm m q)"
  shows "p = q"
  using assms sorted_distinct [of "my_ids m"] unfolding my_wf_def my_ids_def distinct_map
  by (auto dest: inj_onD)

lemma my_abs_Some:
  assumes "distinct (my_ids m)"
  shows "my_abs m i = Some b \<longleftrightarrow> (\<exists>p \<in> set (my_aStreams m). stm_iId (strm m p) = i \<and> b = my_bytes m p)"
proof -
  have "map fst (map (\<lambda>p. (stm_iId (strm m p), my_bytes m p)) (my_aStreams m)) = my_ids m"
    by (simp add: my_ids_def)
  then have "my_abs m i = Some b \<longleftrightarrow> (i, b) \<in> set (map (\<lambda>p. (stm_iId (strm m p), my_bytes m p)) (my_aStreams m))"
    unfolding my_abs_def using assms by (intro map_of_eq_Some_iff) simp
  then show ?thesis by auto
qed

lemma my_abs_None: "my_abs m i = None \<longleftrightarrow> i \<notin> set (my_ids m)"
  unfolding my_abs_def map_of_eq_None_iff by (simp add: my_ids_def image_image)

lemma my_bytes_frame:
  assumes "my_alloc m" "p \<in> set (my_aStreams m)" "my_frame m m'" "strm m' p = strm m p"
  shows "my_bytes m' p = my_bytes m p"
proof -
  have "map (piece (my_iBlockSize m) (fl_data (my_sStore m'))) (stm_aBlocks (strm m p)) =
      map (piece (my_iBlockSize m) (fl_data (my_sStore m))) (stm_aBlocks (strm m p))"
    using assms(3) my_alloc_blocks [OF assms(1,2)] by (auto simp: my_frame_def)
  then have "concat (map (piece (my_iBlockSize m) (fl_data (my_sStore m'))) (stm_aBlocks (strm m p))) =
      concat (map (piece (my_iBlockSize m) (fl_data (my_sStore m))) (stm_aBlocks (strm m p)))" by (simp only:)
  with assms(3,4) show ?thesis by (simp add: my_bytes_def my_frame_def)
qed

lemma my_pieces_length:
  assumes "my_alloc m" "p \<in> set (my_aStreams m)"
  shows "length (concat (map (piece (my_iBlockSize m) (fl_data (my_sStore m))) (stm_aBlocks (strm m p)))) =
    length (stm_aBlocks (strm m p)) * my_iBlockSize m"
proof -
  have "\<forall>b \<in> set (map (piece (my_iBlockSize m) (fl_data (my_sStore m))) (stm_aBlocks (strm m p))). length b = my_iBlockSize m"
    using my_alloc_blocks [OF assms] block_in_store [OF assms(1)] by (auto intro: length_piece)
  from length_concat_blocks [OF this] show ?thesis by simp
qed

lemma my_bytes_length:
  "my_wf m \<Longrightarrow> p \<in> set (my_aStreams m) \<Longrightarrow> length (my_bytes m p) = stm_iSize (strm m p)"
  using my_pieces_length [of m p] by (auto simp: my_wf_def my_bytes_def)

text \<open>One stream changes, the others keep their bytes.\<close>

definition my_change :: "nat \<Rightarrow> byte list \<Rightarrow> myriad \<Rightarrow> myriad \<Rightarrow> bool" where
  "my_change p b m m' \<longleftrightarrow>
     my_aStreams m' = my_aStreams m \<and> my_ids m' = my_ids m \<and> my_bytes m' p = b \<and>
     (\<forall>q \<in> set (my_aStreams m). q \<noteq> p \<longrightarrow> my_bytes m' q = my_bytes m q)"

lemma my_ids_same:
  assumes "my_ids m' = my_ids m" "my_aStreams m' = my_aStreams m" "q \<in> set (my_aStreams m)"
  shows "stm_iId (strm m' q) = stm_iId (strm m q)"
  using assms by (auto simp: my_ids_def)

lemma my_change_abs:
  assumes wf: "my_wf m" and p: "p \<in> set (my_aStreams m)" and c: "my_change p b m m'"
  shows "my_abs m' = (my_abs m)(stm_iId (strm m p) \<mapsto> b)"
proof
  fix i
  have d: "distinct (my_ids m)" using wf by (simp add: my_wf_def sorted_distinct)
  have ids: "my_ids m' = my_ids m" "my_aStreams m' = my_aStreams m" using c by (auto simp: my_change_def)
  note same = my_ids_same [OF ids]
  have d': "distinct (my_ids m')" using d ids by simp
  show "my_abs m' i = ((my_abs m)(stm_iId (strm m p) \<mapsto> b)) i"
  proof (cases "i = stm_iId (strm m p)")
    case True
    with p same c have "my_abs m' i = Some b" by (auto simp: my_abs_Some [OF d'] my_change_def)
    with True show ?thesis by simp
  next
    case False
    have "my_abs m' i = my_abs m i"
    proof (cases "my_abs m i")
      case None
      then have "my_abs m' i = None" unfolding my_abs_None ids by simp
      with None show ?thesis by simp
    next
      case (Some x)
      then obtain q where q: "q \<in> set (my_aStreams m)" "stm_iId (strm m q) = i" "x = my_bytes m q"
        by (auto simp: my_abs_Some [OF d])
      with False have "q \<noteq> p" by auto
      with q c have "my_bytes m' q = x" by (auto simp: my_change_def)
      with q same ids have "my_abs m' i = Some x" by (auto simp: my_abs_Some [OF d'])
      with Some show ?thesis by simp
    qed
    with False show ?thesis by simp
  qed
qed

lemma find_in_ids:
  assumes "set ps \<subseteq> dom (my_streams m)"
  shows "find_in m iId ps =
    (if iId \<in> (\<lambda>p. stm_iId (strm m p)) ` set ps
     then Inr (hd (filter (\<lambda>p. stm_iId (strm m p) = iId) ps)) else Inl (MyriadException noSuchStream))"
  using assms by (induction ps) (auto simp: stream_at_def strm_def)

lemma my_findStream_Inr:
  assumes wf: "my_wf m" and p: "p \<in> set (my_aStreams m)"
  shows "my_findStream (stm_iId (strm m p)) m = Inr p"
proof -
  let ?i = "stm_iId (strm m p)" and ?ps = "my_aStreams m"
  have "set ?ps \<subseteq> dom (my_streams m)" using wf by (simp add: my_wf_def my_alloc_def)
  then have "my_findStream ?i m = Inr (hd (filter (\<lambda>q. stm_iId (strm m q) = ?i) ?ps))"
    using p by (simp add: my_findStream_def find_in_ids)
  moreover have "filter (\<lambda>q. stm_iId (strm m q) = ?i) ?ps \<noteq> []" using p by (auto simp: filter_empty_conv)
  then have "hd (filter (\<lambda>q. stm_iId (strm m q) = ?i) ?ps) \<in> set (filter (\<lambda>q. stm_iId (strm m q) = ?i) ?ps)"
    by (rule hd_in_set)
  then have "hd (filter (\<lambda>q. stm_iId (strm m q) = ?i) ?ps) = p"
    using my_wf_ids_inj [OF wf] p by auto
  ultimately show ?thesis by simp
qed

lemma my_findStream_Inl:
  assumes wf: "my_wf m" and i: "i \<notin> set (my_ids m)"
  shows "my_findStream i m = Inl (MyriadException noSuchStream)"
  using assms by (auto simp: my_findStream_def find_in_ids my_wf_def my_alloc_def my_ids_def)

section \<open>Creating, deleting and resizing streams\<close>

lemma my_extends_change:
  assumes wf: "my_wf m" and p: "p \<in> set (my_aStreams m)" and e: "my_extends p n m m'"
  shows "my_wf m' \<and> my_change p (my_bytes m p) m m' \<and>
    length (stm_aBlocks (strm m' p)) = length (stm_aBlocks (strm m p)) + n \<and>
    stm_iSize (strm m' p) = stm_iSize (strm m p)"
proof -
  obtain bs where bs: "length bs = n"
    "my_streams m' = (my_streams m)(p \<mapsto> (strm m p)\<lparr>stm_aBlocks := stm_aBlocks (strm m p) @ bs\<rparr>)"
    using e by (auto simp: my_extends_def)
  have a: "my_alloc m'" and fr: "my_frame m m'" using e by (auto simp: my_extends_def)
  have sp: "strm m' p = (strm m p)\<lparr>stm_aBlocks := stm_aBlocks (strm m p) @ bs\<rparr>" by (simp add: strm_def bs(2))
  have sq: "strm m' q = strm m q" if "q \<noteq> p" for q using that by (simp add: strm_def bs(2))
  have f: "my_aStreams m' = my_aStreams m" "my_iBlockSize m' = my_iBlockSize m" "my_blocks m' = my_blocks m"
    using fr by (auto simp: my_frame_def)
  have st: "strm m' q = (if q = p then (strm m p)\<lparr>stm_aBlocks := stm_aBlocks (strm m p) @ bs\<rparr> else strm m q)" for q
    using sp sq by simp
  then have ids: "my_ids m' = my_ids m" by (simp add: my_ids_def f if_distrib [of stm_iId] cong: if_cong)
  have old: "map (piece (my_iBlockSize m) (fl_data (my_sStore m'))) (stm_aBlocks (strm m p)) =
      map (piece (my_iBlockSize m) (fl_data (my_sStore m))) (stm_aBlocks (strm m p))"
    using fr my_alloc_blocks [OF my_wf_alloc [OF wf] p] by (auto simp: my_frame_def)
  have sz: "stm_iSize (strm m p) \<le> length (stm_aBlocks (strm m p)) * my_iBlockSize m"
    using wf p by (simp add: my_wf_def)
  have "my_bytes m' p = my_bytes m p"
    using sz my_pieces_length [OF my_wf_alloc [OF wf] p]
    by (simp add: my_bytes_def sp f old)
  moreover have "my_wf m'"
    using wf a by (auto simp: my_wf_def f ids st add_mult_distrib intro: trans_le_add1)
  moreover have "my_bytes m' q = my_bytes m q" if "q \<in> set (my_aStreams m)" "q \<noteq> p" for q
    using my_bytes_frame [OF my_wf_alloc [OF wf] that(1) fr] sq that(2) by simp
  ultimately show ?thesis using f ids sp bs(1) by (simp add: my_change_def)
qed

lemma my_set_size_change:
  assumes wf: "my_wf m" and p: "p \<in> set (my_aStreams m)"
    and n: "n \<le> length (stm_aBlocks (strm m p)) * my_iBlockSize m"
    and m': "m' = (set_stream p ((strm m p)\<lparr>stm_iSize := n\<rparr>) m)\<lparr>my_bHeaderChanged := True\<rparr>"
  shows "my_wf m' \<and> my_aStreams m' = my_aStreams m \<and> my_ids m' = my_ids m \<and>
    my_bytes m' p = take n (concat (map (piece (my_iBlockSize m) (fl_data (my_sStore m))) (stm_aBlocks (strm m p)))) \<and>
    (\<forall>q \<in> set (my_aStreams m). q \<noteq> p \<longrightarrow> my_bytes m' q = my_bytes m q)"
proof -
  have st: "strm m' q = (if q = p then (strm m p)\<lparr>stm_iSize := n\<rparr> else strm m q)" for q
    by (simp add: m' strm_def set_stream_def)
  have f: "my_aStreams m' = my_aStreams m" "my_iBlockSize m' = my_iBlockSize m" "my_blocks m' = my_blocks m"
    "my_sStore m' = my_sStore m" by (simp_all add: m' set_stream_def)
  have "my_alloc m'"
    using my_alloc_set_size [OF my_wf_alloc [OF wf] p, of n] by (simp add: m')
  moreover have ids: "my_ids m' = my_ids m" by (simp add: my_ids_def f st if_distrib [of stm_iId] cong: if_cong)
  ultimately show ?thesis
    using wf n by (simp add: my_wf_def ids f st my_bytes_def)
qed

lemma my_setStreamSize_change:
  assumes wf: "my_wf m" and p: "p \<in> set (my_aStreams m)"
  shows "\<exists>m' b. my_setStreamSize p n m = Inr m' \<and> my_wf m' \<and> my_change p b m m' \<and> length b = n \<and>
    take (min n (length (my_bytes m p))) b = take n (my_bytes m p)"
proof -
  have a: "my_alloc m" using wf by (rule my_wf_alloc)
  have s: "stream_at m p = Inr (strm m p)" using my_alloc_stream [OF a p] by (simp add: stream_at_def)
  have lb: "length (my_bytes m p) = stm_iSize (strm m p)" by (rule my_bytes_length [OF wf p])
  have sz: "stm_iSize (strm m p) \<le> length (stm_aBlocks (strm m p)) * my_iBlockSize m"
    using wf p by (simp add: my_wf_def)
  consider "stm_iSize (strm m p) = n" | "stm_iSize (strm m p) > n" | "stm_iSize (strm m p) < n" by linarith
  then show ?thesis
  proof cases
    case 1
    with s lb wf show ?thesis
      by (intro exI [of _ m] exI [of _ "my_bytes m p"]) (simp add: my_setStreamSize_def my_change_def)
  next
    case 2
    obtain m1 k where m1: "my_shrink p n (length (stm_aBlocks (strm m p)) * my_iBlockSize m) m = Inr m1"
      "my_alloc m1" "my_frame m m1" "my_sStore m1 = my_sStore m"
      "my_streams m1 = (my_streams m)(p \<mapsto> (strm m p)\<lparr>stm_aBlocks := take k (stm_aBlocks (strm m p))\<rparr>)"
      "k \<le> length (stm_aBlocks (strm m p))" "n \<le> k * my_iBlockSize m"
      using my_shrink_alloc [OF a p refl, of n] 2 sz by auto
    have sp: "strm m1 p = (strm m p)\<lparr>stm_aBlocks := take k (stm_aBlocks (strm m p))\<rparr>" by (simp add: strm_def m1(5))
    have f: "my_aStreams m1 = my_aStreams m" "my_iBlockSize m1 = my_iBlockSize m" "my_blocks m1 = my_blocks m"
      using m1(3) by (auto simp: my_frame_def)
    define m' where "m' = (set_stream p ((strm m1 p)\<lparr>stm_iSize := n\<rparr>) m1)\<lparr>my_bHeaderChanged := True\<rparr>"
    have st: "strm m' q = (if q = p then (strm m1 p)\<lparr>stm_iSize := n\<rparr> else strm m q)" for q
      using m1(5) by (simp add: m'_def strm_def set_stream_def)
    have f': "my_aStreams m' = my_aStreams m" "my_iBlockSize m' = my_iBlockSize m" "my_blocks m' = my_blocks m"
      "my_sStore m' = my_sStore m" by (simp_all add: m'_def set_stream_def f m1(4))
    have ids: "my_ids m' = my_ids m" by (simp add: my_ids_def f' st sp if_distrib [of stm_iId] cong: if_cong)
    have "my_alloc m'"
      using my_alloc_set_size [OF m1(2), of p n] p f(1) by (simp add: m'_def)
    then have "my_wf m'"
      using wf m1(6,7) ids by (simp add: my_wf_def f' st sp min_absorb2)
    moreover have "my_bytes m' q = my_bytes m q" if "q \<noteq> p" for q
      using that by (simp add: my_bytes_def st f')
    moreover have "my_bytes m' p = take n (my_bytes m p)"
    proof -
      let ?f = "piece (my_iBlockSize m) (fl_data (my_sStore m))" and ?as = "stm_aBlocks (strm m p)"
      have "length (concat (map ?f (take k ?as))) = k * my_iBlockSize m"
      proof -
        have "\<forall>b \<in> set (map ?f (take k ?as)). length b = my_iBlockSize m"
          using my_alloc_blocks [OF a p] block_in_store [OF a] by (auto dest!: in_set_takeD intro: length_piece)
        from length_concat_blocks [OF this] m1(6) show ?thesis by (simp add: min_absorb2)
      qed
      moreover have "concat (map ?f ?as) = concat (map ?f (take k ?as)) @ concat (map ?f (drop k ?as))"
        by (metis append_take_drop_id concat_append map_append)
      ultimately have "take n (concat (map ?f ?as)) = take n (concat (map ?f (take k ?as)))"
        using m1(7) by simp
      with 2 show ?thesis by (simp add: my_bytes_def st f' sp min_absorb1)
    qed
    moreover have "my_setStreamSize p n m = Inr m'"
      using s 2 m1(1,2) my_alloc_stream [OF m1(2), of p] p f(1)
      by (simp add: my_setStreamSize_def stream_at_def m'_def)
    ultimately show ?thesis using 2 lb ids f'
      by (intro exI [of _ m'] exI [of _ "take n (my_bytes m p)"]) (simp add: my_change_def)
  next
    case 3
    obtain m1 k where m1: "my_grow p n (length (stm_aBlocks (strm m p)) * my_iBlockSize m) m = Inr m1"
      "my_extends p k m m1" "n \<le> length (stm_aBlocks (strm m p)) * my_iBlockSize m + k * my_iBlockSize m"
      using my_grow_extends [OF a p] by blast
    have e: "my_wf m1" "my_change p (my_bytes m p) m m1"
      "length (stm_aBlocks (strm m1 p)) = length (stm_aBlocks (strm m p)) + k"
      "stm_iSize (strm m1 p) = stm_iSize (strm m p)"
      using my_extends_change [OF wf p m1(2)] by auto
    have f: "my_aStreams m1 = my_aStreams m" "my_iBlockSize m1 = my_iBlockSize m"
      using m1(2) by (auto simp: my_extends_def my_frame_def)
    have p1: "p \<in> set (my_aStreams m1)" using p f by simp
    define m' where "m' = (set_stream p ((strm m1 p)\<lparr>stm_iSize := n\<rparr>) m1)\<lparr>my_bHeaderChanged := True\<rparr>"
    have room: "n \<le> length (stm_aBlocks (strm m1 p)) * my_iBlockSize m1"
      using m1(3) e(3) f(2) by (simp add: add_mult_distrib)
    note ch = my_set_size_change [OF e(1) p1 room m'_def]
    have "my_setStreamSize p n m = Inr m'"
      using s 3 m1(1) my_alloc_stream [OF my_wf_alloc [OF e(1)] p1]
      by (simp add: my_setStreamSize_def stream_at_def m'_def)
    moreover have "length (my_bytes m' p) = n"
      using ch p1 my_bytes_length [of m' p] by (simp add: m'_def set_stream_def strm_def)
    moreover have "take (stm_iSize (strm m p)) (my_bytes m' p) = my_bytes m p"
    proof -
      have "take (stm_iSize (strm m p)) (my_bytes m' p) = my_bytes m1 p"
        using ch 3 e(4) by (simp add: my_bytes_def [of m1] min_absorb1)
      with e(2) show ?thesis by (simp add: my_change_def)
    qed
    moreover have "my_change p (my_bytes m' p) m m'"
      using ch e(2) f by (simp add: my_change_def)
    ultimately show ?thesis using ch 3 lb
      by (intro exI [of _ m'] exI [of _ "my_bytes m' p"]) (simp add: min_absorb2)
  qed
qed

lemma mset_concat_map: "mset (concat (map f xs)) = \<Sum>\<^sub># (image_mset (\<lambda>x. mset (f x)) (mset xs))"
  by (induction xs) simp_all

lemma my_new_stream_wf:
  assumes wf: "my_wf m" and as: "mset as = add_mset (my_next m) (mset (my_aStreams m))"
    and m2: "m2 = (snd (new_stream \<lparr>stm_iId = i, stm_iSize = 0, stm_aBlocks = []\<rparr> m))\<lparr>my_aStreams := as\<rparr>"
    and sorted: "sorted_wrt (<) (my_ids m2)"
  shows "my_wf m2 \<and> my_abs m2 = (my_abs m)(i \<mapsto> []) \<and> my_frame m (m2\<lparr>my_aStreams := my_aStreams m, my_next := my_next m\<rparr>) \<and>
    my_iUsed m2 - int (length (my_owned m2)) = my_iUsed m - int (length (my_owned m)) \<and>
    stm_iId (strm m2 (my_next m)) = i \<and> my_bytes m2 (my_next m) = []"
proof -
  let ?p = "my_next m"
  have a: "my_alloc m" using wf by (rule my_wf_alloc)
  have f: "my_aStreams m2 = as" "my_sStore m2 = my_sStore m" "my_iBlockSize m2 = my_iBlockSize m"
    "my_iBlocks m2 = my_iBlocks m" "my_lFreeBlocks m2 = my_lFreeBlocks m" "my_blocks m2 = my_blocks m"
    "my_next m2 = Suc ?p" "my_iUsed m2 = my_iUsed m"
    by (simp_all add: m2 new_stream_def set_stream_def)
  have st: "strm m2 q = (if q = ?p then \<lparr>stm_iId = i, stm_iSize = 0, stm_aBlocks = []\<rparr> else strm m q)" for q
    by (simp add: m2 new_stream_def set_stream_def strm_def)
  have sm: "my_streams m2 = (my_streams m)(?p \<mapsto> \<lparr>stm_iId = i, stm_iSize = 0, stm_aBlocks = []\<rparr>)"
    by (simp add: m2 new_stream_def set_stream_def)
  have fresh: "?p \<notin> set (my_aStreams m)" "my_streams m ?p = None" using a by (auto simp: my_alloc_def)
  have set_as: "set as = insert ?p (set (my_aStreams m))" using arg_cong [OF as, of set_mset] by simp
  have d: "distinct as" using as fresh(1) a unfolding my_alloc_def
    by (metis distinct.simps(2) mset.simps(2) mset_eq_imp_distinct_iff)
  have "mset (my_owned m2) = mset (my_owned m)"
  proof -
    have "mset (my_owned m2) = \<Sum>\<^sub># (image_mset (\<lambda>p. mset (stm_aBlocks (strm m2 p))) (mset as))"
      by (simp add: my_owned_def f mset_concat_map)
    also have "\<dots> = \<Sum>\<^sub># (image_mset (\<lambda>p. mset (stm_aBlocks (strm m2 p))) (mset (my_aStreams m)))"
      by (simp add: as st)
    also have "image_mset (\<lambda>p. mset (stm_aBlocks (strm m2 p))) (mset (my_aStreams m)) =
        image_mset (\<lambda>p. mset (stm_aBlocks (strm m p))) (mset (my_aStreams m))"
      by (rule image_mset_cong) (use fresh in \<open>auto simp: st\<close>)
    also have "\<Sum>\<^sub># \<dots> = mset (my_owned m)"
      by (simp add: my_owned_def mset_concat_map)
    finally show ?thesis .
  qed
  then have ow: "mset (my_owned m2) = mset (my_owned m)" "length (my_owned m2) = length (my_owned m)"
    by (simp, metis size_mset)
  have "my_alloc m2"
    using a d set_as unfolding my_alloc_def f ow(1) by (auto simp: sm)
  moreover have "as \<noteq> []" using as by auto
  ultimately have wf2: "my_wf m2"
    using wf sorted by (auto simp: my_wf_def f st set_as)
  have bys: "my_bytes m2 q = (if q = ?p then [] else my_bytes m q)" for q
    by (simp add: my_bytes_def st f)
  have d1: "distinct (my_ids m)" "distinct (my_ids m2)"
    using wf wf2 by (simp_all add: my_wf_def sorted_distinct)
  have "my_abs m2 = (my_abs m)(i \<mapsto> [])"
  proof
    fix j
    show "my_abs m2 j = ((my_abs m)(i \<mapsto> [])) j"
    proof (cases "j = i")
      case True
      have "my_abs m2 i = Some []"
        unfolding my_abs_Some [OF d1(2)] by (intro bexI [of _ ?p]) (simp_all add: bys st f set_as)
      with True show ?thesis by simp
    next
      case False
      have "my_abs m2 j = Some b \<longleftrightarrow> my_abs m j = Some b" for b
        unfolding my_abs_Some [OF d1(1)] my_abs_Some [OF d1(2)]
        using False fresh by (auto simp: f set_as st bys) metis
      then have "my_abs m2 j = my_abs m j" by (cases "my_abs m j"; cases "my_abs m2 j") auto
      with False show ?thesis by simp
    qed
  qed
  with wf2 ow bys show ?thesis by (simp add: f st my_frame_def)
qed

lemma my_last_id_wf:
  "my_wf m \<Longrightarrow> my_last_id m = Inr (last (my_ids m)) \<and> (\<forall>i \<in> set (my_ids m). i \<le> last (my_ids m))"
proof -
  assume wf: "my_wf m"
  then have ne: "my_aStreams m \<noteq> []" by (simp add: my_wf_def)
  then have "last (my_aStreams m) \<in> set (my_aStreams m)" by simp
  with wf have "my_last_id m = Inr (last (my_ids m))"
    using my_alloc_stream [OF my_wf_alloc [OF wf]] ne
    by (simp add: my_last_id_def stream_at_def my_ids_def last_map)
  moreover have "my_ids m = butlast (my_ids m) @ [last (my_ids m)]" using ne by (simp add: my_ids_def)
  then have "\<forall>i \<in> set (butlast (my_ids m)). i < last (my_ids m)"
    using wf unfolding my_wf_def by (metis sorted_wrt_append list.set_intros(1))
  then have "\<forall>i \<in> set (my_ids m). i \<le> last (my_ids m)"
    by (metis \<open>my_ids m = butlast (my_ids m) @ [last (my_ids m)]\<close> Un_iff empty_iff insert_iff
        less_imp_le list.set(1) list.simps(15) order_refl set_append)
  ultimately show ?thesis by simp
qed

lemma my_addBlocks_change:
  assumes "my_wf m" "p \<in> set (my_aStreams m)"
  shows "\<exists>m'. my_addBlocks p n m = Inr m' \<and> my_wf m' \<and> my_change p (my_bytes m p) m m' \<and>
    my_iUsed m' - int (length (my_owned m')) = my_iUsed m - int (length (my_owned m))"
proof -
  obtain m' where m': "my_addBlocks p n m = Inr m'" "my_extends p n m m'"
    using my_addBlocks_extends [OF my_wf_alloc [OF assms(1)] assms(2)] by blast
  with my_extends_change [OF assms m'(2)] show ?thesis by (auto simp: my_extends_def)
qed

lemma my_header_wf [simp]: "my_wf (m\<lparr>my_bHeaderChanged := x\<rparr>) = my_wf m"
  "my_abs (m\<lparr>my_bHeaderChanged := x\<rparr>) = my_abs m"
  by (simp_all add: my_wf_def my_abs_def)

lemma my_create_wf:
  assumes wf: "my_wf m" and as: "mset as = add_mset (my_next m) (mset (my_aStreams m))"
    and m1: "m1 = snd (new_stream \<lparr>stm_iId = i, stm_iSize = 0, stm_aBlocks = []\<rparr> m)"
    and sorted: "sorted_wrt (<) (my_ids (m1\<lparr>my_aStreams := as\<rparr>))"
  shows "\<exists>m'. my_addBlocks (my_next m) n (m1\<lparr>my_aStreams := as\<rparr>) = Inr m' \<and> my_wf m' \<and>
    my_abs m' = (my_abs m)(i \<mapsto> []) \<and>
    my_iUsed m' - int (length (my_owned m')) = my_iUsed m - int (length (my_owned m))"
proof -
  let ?m2 = "m1\<lparr>my_aStreams := as\<rparr>"
  note w2 = my_new_stream_wf [OF wf as _ sorted, unfolded m1, OF refl, folded m1]
  have "my_next m \<in># mset as" by (simp add: as)
  then have p: "my_next m \<in> set (my_aStreams ?m2)" by simp
  obtain m' where m': "my_addBlocks (my_next m) n ?m2 = Inr m'" "my_wf m'"
    "my_change (my_next m) (my_bytes ?m2 (my_next m)) ?m2 m'"
    "my_iUsed m' - int (length (my_owned m')) = my_iUsed ?m2 - int (length (my_owned ?m2))"
    using my_addBlocks_change [OF _ p] w2 by blast
  have "my_abs m' = my_abs ?m2"
    using my_change_abs [OF _ p m'(3)] w2 by simp
  with m' w2 show ?thesis by auto
qed

lemma my_createStream_wf:
  assumes wf: "my_wf m"
  shows "\<exists>i m'. my_createStream n m = Inr (i, m') \<and> my_wf m' \<and> my_abs m i = None \<and>
    my_abs m' = (my_abs m)(i \<mapsto> []) \<and>
    my_iUsed m' - int (length (my_owned m')) = my_iUsed m - int (length (my_owned m))"
proof -
  let ?i = "last (my_ids m) + 1"
  note last = my_last_id_wf [OF wf]
  define m1 where "m1 = snd (new_stream \<lparr>stm_iId = ?i, stm_iSize = 0, stm_aBlocks = []\<rparr> m)"
  have n: "new_stream \<lparr>stm_iId = ?i, stm_iSize = 0, stm_aBlocks = []\<rparr> m = (my_next m, m1)"
    by (simp add: m1_def new_stream_def)
  have fresh: "my_next m \<notin> set (my_aStreams m)" using my_wf_alloc [OF wf] by (auto simp: my_alloc_def)
  then have "my_ids (m1\<lparr>my_aStreams := my_aStreams m @ [my_next m]\<rparr>) = my_ids m @ [?i]"
    by (auto simp: my_ids_def m1_def new_stream_def set_stream_def strm_def)
  moreover have "sorted_wrt (<) (my_ids m @ [?i])"
    using wf last by (auto simp: my_wf_def sorted_wrt_append)
  ultimately have sorted: "sorted_wrt (<) (my_ids (m1\<lparr>my_aStreams := my_aStreams m @ [my_next m]\<rparr>))" by simp
  obtain m' where m': "my_addBlocks (my_next m) (nat n) (m1\<lparr>my_aStreams := my_aStreams m @ [my_next m]\<rparr>) = Inr m'"
    "my_wf m'" "my_abs m' = (my_abs m)(?i \<mapsto> [])"
    "my_iUsed m' - int (length (my_owned m')) = my_iUsed m - int (length (my_owned m))"
    using my_create_wf [OF wf _ m1_def sorted, of "nat n"] by auto
  have "my_aStreams m1 = my_aStreams m" by (simp add: m1_def new_stream_def set_stream_def)
  with m'(1) last n have "my_createStream n m = Inr (?i, m'\<lparr>my_bHeaderChanged := True\<rparr>)"
    by (simp add: my_createStream_def)
  moreover have "my_abs m ?i = None" using last by (force simp: my_abs_None)
  ultimately show ?thesis using m' by (intro exI [of _ ?i] exI [of _ "m'\<lparr>my_bHeaderChanged := True\<rparr>"]) simp
qed

lemma insert_by_id_sorted:
  assumes "set ps \<subseteq> dom (my_streams m)" "sorted_wrt (<) (map (\<lambda>p. stm_iId (strm m p)) ps)"
    "i \<notin> (\<lambda>p. stm_iId (strm m p)) ` set ps" "\<exists>p \<in> set ps. i < stm_iId (strm m p)" "stm_iId (strm m p0) = i"
  shows "\<exists>as. insert_by_id m i p0 ps = Inr as \<and> mset as = add_mset p0 (mset ps) \<and>
    sorted_wrt (<) (map (\<lambda>p. stm_iId (strm m p)) as)"
  using assms
proof (induction ps)
  case Nil
  then show ?case by simp
next
  case (Cons q qs)
  have q: "stream_at m q = Inr (strm m q)" using Cons.prems(1) by (auto simp: stream_at_def strm_def)
  show ?case
  proof (cases "stm_iId (strm m q) > i")
    case True
    then have "\<forall>r \<in> set qs. i < stm_iId (strm m r)" using Cons.prems(2) by (auto intro: less_trans)
    with True Cons.prems(2) have "sorted_wrt (<) (map (\<lambda>p. stm_iId (strm m p)) (p0 # q # qs))"
      by (simp add: Cons.prems(5))
    with True q show ?thesis by simp
  next
    case False
    then have "stm_iId (strm m q) < i" using Cons.prems(3) by force
    moreover obtain as where as: "insert_by_id m i p0 qs = Inr as" "mset as = add_mset p0 (mset qs)"
      "sorted_wrt (<) (map (\<lambda>p. stm_iId (strm m p)) as)"
      using Cons False by fastforce
    moreover have "set as = insert p0 (set qs)" using arg_cong [OF as(2), of set_mset] by simp
    ultimately show ?thesis using q False Cons.prems(2,5) by auto
  qed
qed

lemma my_createStreamWithId_wf:
  assumes wf: "my_wf m" and i: "my_abs m i = None"
  shows "\<exists>m'. my_createStreamWithId i n m = Inr (i, m') \<and> my_wf m' \<and>
    my_abs m' = (my_abs m)(i \<mapsto> []) \<and>
    my_iUsed m' - int (length (my_owned m')) = my_iUsed m - int (length (my_owned m))"
proof -
  note last = my_last_id_wf [OF wf]
  have ni: "i \<notin> set (my_ids m)" using i by (simp add: my_abs_None)
  define m1 where "m1 = snd (new_stream \<lparr>stm_iId = i, stm_iSize = 0, stm_aBlocks = []\<rparr> m)"
  have n: "new_stream \<lparr>stm_iId = i, stm_iSize = 0, stm_aBlocks = []\<rparr> m = (my_next m, m1)"
    by (simp add: m1_def new_stream_def)
  have fresh: "my_next m \<notin> set (my_aStreams m)" using my_wf_alloc [OF wf] by (auto simp: my_alloc_def)
  have st: "strm m1 q = (if q = my_next m then \<lparr>stm_iId = i, stm_iSize = 0, stm_aBlocks = []\<rparr> else strm m q)" for q
    by (simp add: m1_def new_stream_def set_stream_def strm_def)
  have f1: "my_aStreams m1 = my_aStreams m" by (simp add: m1_def new_stream_def set_stream_def)
  have ids1: "map (\<lambda>p. stm_iId (strm m1 p)) (my_aStreams m) = my_ids m" using fresh by (auto simp: my_ids_def st)
  have dom1: "set (my_aStreams m) \<subseteq> dom (my_streams m1)"
    using my_wf_alloc [OF wf] by (auto simp: my_alloc_def m1_def new_stream_def set_stream_def)
  have "\<exists>as. (if last (my_ids m) < i then Inr (my_aStreams m1 @ [my_next m])
      else insert_by_id m1 i (my_next m) (my_aStreams m1)) = Inr as \<and>
      mset as = add_mset (my_next m) (mset (my_aStreams m)) \<and> sorted_wrt (<) (map (\<lambda>p. stm_iId (strm m1 p)) as)"
  proof (cases "last (my_ids m) < i")
    case True
    have "sorted_wrt (<) (my_ids m @ [i])" using wf last True by (fastforce simp: my_wf_def sorted_wrt_append)
    then have "sorted_wrt (<) (map (\<lambda>p. stm_iId (strm m1 p)) (my_aStreams m @ [my_next m]))"
      unfolding map_append ids1 by (simp add: st)
    with True show ?thesis by (simp add: f1)
  next
    case False
    have ne: "my_ids m \<noteq> []" using wf by (simp add: my_wf_def my_ids_def)
    then have "last (my_ids m) \<in> set (my_ids m)" by simp
    then have "last (my_ids m) \<in> set (map (\<lambda>p. stm_iId (strm m1 p)) (my_aStreams m))" unfolding ids1 .
    moreover have "i < last (my_ids m)" using False ni \<open>last (my_ids m) \<in> set (my_ids m)\<close> by (metis linorder_neqE)
    ultimately have "\<exists>p \<in> set (my_aStreams m). i < stm_iId (strm m1 p)" by auto
    moreover have "i \<notin> (\<lambda>p. stm_iId (strm m1 p)) ` set (my_aStreams m)"
      using ni unfolding ids1 [symmetric] by simp
    ultimately show ?thesis
      using insert_by_id_sorted [OF dom1, of i "my_next m"] False wf
      unfolding ids1 by (simp add: f1 st my_wf_def)
  qed
  then obtain as where as: "(if last (my_ids m) < i then Inr (my_aStreams m1 @ [my_next m])
      else insert_by_id m1 i (my_next m) (my_aStreams m1)) = Inr as"
    "mset as = add_mset (my_next m) (mset (my_aStreams m))" "sorted_wrt (<) (map (\<lambda>p. stm_iId (strm m1 p)) as)" by blast
  have sorted: "sorted_wrt (<) (my_ids (m1\<lparr>my_aStreams := as\<rparr>))"
    using as(3) by (simp add: my_ids_def strm_def)
  obtain m' where m': "my_addBlocks (my_next m) (nat n) (m1\<lparr>my_aStreams := as\<rparr>) = Inr m'"
    "my_wf m'" "my_abs m' = (my_abs m)(i \<mapsto> [])"
    "my_iUsed m' - int (length (my_owned m')) = my_iUsed m - int (length (my_owned m))"
    using my_create_wf [OF wf as(2) m1_def sorted, of "nat n"] by blast
  then have "my_createStreamWithId i n m = Inr (i, m'\<lparr>my_bHeaderChanged := True\<rparr>)"
    using last n as(1) my_findStream_Inl [OF wf ni]
    by (simp add: my_createStreamWithId_def my_createHandler_def)
  with m' show ?thesis by (intro exI [of _ "m'\<lparr>my_bHeaderChanged := True\<rparr>"]) simp
qed

lemma my_deleteStream_wf:
  assumes wf: "my_wf m" and i: "0 < i" and zero: "0 \<in> set (my_ids m)"
  shows "\<exists>m'. my_deleteStream i m = Inr m' \<and> my_wf m' \<and> my_abs m' = (my_abs m)(i := None) \<and>
    my_iUsed m' - int (length (my_owned m')) = my_iUsed m - int (length (my_owned m))"
proof (cases "i \<in> set (my_ids m)")
  case False
  then have "my_abs m i = None" by (simp add: my_abs_None)
  then have "(my_abs m)(i := None) = my_abs m" by (simp add: fun_upd_idem)
  with False i my_findStream_Inl [OF wf False] wf show ?thesis by (simp add: my_deleteStream_def)
next
  case True
  then obtain p where p: "p \<in> set (my_aStreams m)" "stm_iId (strm m p) = i" by (auto simp: my_ids_def)
  have a: "my_alloc m" using wf by (rule my_wf_alloc)
  let ?s = "strm m p"
  define m' where "m' = m\<lparr>my_lFreeBlocks := my_lFreeBlocks m @ stm_aBlocks ?s,
      my_iUsed := my_iUsed m - int (length (stm_aBlocks ?s)),
      my_aStreams := remove1 p (my_aStreams m), my_bHeaderChanged := True,
      my_streams := (my_streams m)(p := None)\<rparr>"
  have eq: "my_deleteStream i m = Inr m'"
    using i my_findStream_Inr [OF wf p(1)] p(2) my_alloc_stream [OF a p(1)]
    by (simp add: my_deleteStream_def stream_at_def m'_def)
  obtain l r where lr: "my_aStreams m = l @ p # r" "p \<notin> set l" using split_list_first [OF p(1)] by blast
  have d: "distinct (my_aStreams m)" using a by (simp add: my_alloc_def)
  then have r: "remove1 p (my_aStreams m) = l @ r" "p \<notin> set r" using lr by (simp_all add: remove1_append)
  have f: "my_aStreams m' = l @ r" "my_sStore m' = my_sStore m" "my_iBlockSize m' = my_iBlockSize m"
    "my_iBlocks m' = my_iBlocks m" "my_blocks m' = my_blocks m" "my_next m' = my_next m"
    "my_lFreeBlocks m' = my_lFreeBlocks m @ stm_aBlocks ?s"
    "my_iUsed m' = my_iUsed m - int (length (stm_aBlocks ?s))"
    "my_streams m' = (my_streams m)(p := None)"
    by (simp_all add: m'_def r)
  have st: "strm m' q = strm m q" if "q \<noteq> p" for q using that by (simp add: strm_def f)
  have maps: "map (\<lambda>q. g (strm m' q)) (l @ r) = map (\<lambda>q. g (strm m q)) (l @ r)" for g :: "my_stream \<Rightarrow> 'x"
  proof (rule map_cong [OF refl])
    fix q assume "q \<in> set (l @ r)"
    then have "q \<noteq> p" using lr(2) r(2) by auto
    then show "g (strm m' q) = g (strm m q)" by (simp add: st)
  qed
  have ow: "my_owned m' = concat (map (\<lambda>q. stm_aBlocks (strm m q)) (l @ r))"
    unfolding my_owned_def f(1) maps ..
  have owm: "mset (my_owned m) = mset (my_owned m') + mset (stm_aBlocks ?s)"
    by (simp add: ow my_owned_def [of m] lr(1))
  then have len: "length (my_owned m) = length (my_owned m') + length (stm_aBlocks ?s)"
    by (metis size_mset size_union)
  have ids: "my_ids m' = map (\<lambda>q. stm_iId (strm m q)) (l @ r)" unfolding my_ids_def f(1) maps ..
  have idsm: "my_ids m = map (\<lambda>q. stm_iId (strm m q)) l @ i # map (\<lambda>q. stm_iId (strm m q)) r"
    by (simp add: my_ids_def lr(1) p(2))
  have "my_alloc m'"
    using a d lr(1) r(2) owm unfolding my_alloc_def f by (auto simp: ac_simps)
  moreover have "sorted_wrt (<) (my_ids m')"
    using wf unfolding my_wf_def idsm ids by (auto simp: sorted_wrt_append)
  moreover have "l @ r \<noteq> []"
  proof
    assume "l @ r = []"
    with zero i show False unfolding idsm by simp
  qed
  moreover have "\<forall>q \<in> set (l @ r). stm_iSize (strm m' q) \<le> length (stm_aBlocks (strm m' q)) * my_iBlockSize m"
  proof
    fix q assume q: "q \<in> set (l @ r)"
    then have "q \<noteq> p" using lr(2) r(2) by auto
    with q wf lr(1) show "stm_iSize (strm m' q) \<le> length (stm_aBlocks (strm m' q)) * my_iBlockSize m"
      by (auto simp: my_wf_def st)
  qed
  ultimately have wf': "my_wf m'" using wf by (simp add: my_wf_def f)
  have bys: "my_bytes m' q = my_bytes m q" if "q \<noteq> p" for q by (simp add: my_bytes_def st [OF that] f)
  have d1: "distinct (my_ids m)" "distinct (my_ids m')" using wf wf' by (simp_all add: my_wf_def sorted_distinct)
  have "my_abs m' = (my_abs m)(i := None)"
  proof
    fix j
    show "my_abs m' j = ((my_abs m)(i := None)) j"
    proof (cases "j = i")
      case True
      have "i \<notin> set (my_ids m')" using d1(1) unfolding ids idsm by auto
      with True show ?thesis by (simp add: my_abs_None)
    next
      case False
      have same: "\<forall>q \<in> set (l @ r). strm m' q = strm m q \<and> my_bytes m' q = my_bytes m q"
      proof
        fix q assume "q \<in> set (l @ r)"
        then have "q \<noteq> p" using lr(2) r(2) by auto
        then show "strm m' q = strm m q \<and> my_bytes m' q = my_bytes m q" by (simp add: st bys)
      qed
      have "my_abs m' j = Some b \<longleftrightarrow> my_abs m j = Some b" for b
      proof -
        have "my_abs m' j = Some b \<longleftrightarrow> (\<exists>q \<in> set (l @ r). stm_iId (strm m q) = j \<and> b = my_bytes m q)"
          unfolding my_abs_Some [OF d1(2)] f(1) by (rule bex_cong) (use same in auto)
        also have "\<dots> \<longleftrightarrow> my_abs m j = Some b"
          unfolding my_abs_Some [OF d1(1)] lr(1) using False p(2) by auto
        finally show ?thesis .
      qed
      then have "my_abs m' j = my_abs m j" by (cases "my_abs m j"; cases "my_abs m' j") auto
      with False show ?thesis by simp
    qed
  qed
  with eq wf' len show ?thesis by (simp add: f)
qed

end
