(* ===== verification/Bu_MyriadStream.thy ===== *)
theory Bu_MyriadStream
  imports Bu_MyriadBlocks
begin

text \<open>
  \<open>Bu::MyriadStream\<close>: reading and writing through a handle, which keeps one block of its stream in
  memory and writes it back when it goes to another one or is destroyed. The loops end, and they
  read and overwrite the bytes of the stream.
\<close>

section \<open>Reading and writing through a handle\<close>

text \<open>
  Block \<open>i\<close> as a handle sees it: the copy it has in memory, or the bytes of the store.
\<close>

definition mh_view :: "myriad \<Rightarrow> my_handle \<Rightarrow> nat \<Rightarrow> byte list" where
  "mh_view m h i =
     (case mh_pCurBlock h of None \<Rightarrow> piece (my_iBlockSize m) (fl_data (my_sStore m)) i
      | Some a \<Rightarrow> (case my_blocks m a of None \<Rightarrow> piece (my_iBlockSize m) (fl_data (my_sStore m)) i
          | Some b \<Rightarrow> if blk_iBlockIndex b = i then blk_pData b
                     else piece (my_iBlockSize m) (fl_data (my_sStore m)) i))"

definition mh_bytes :: "myriad \<Rightarrow> my_handle \<Rightarrow> byte list" where
  "mh_bytes m h = take (stm_iSize (strm m (mh_pStream h)))
     (concat (map (mh_view m h) (stm_aBlocks (strm m (mh_pStream h)))))"

text \<open>
  The invariant while one handle is at work: its block is the only one in memory, it is one of its
  stream's, and it is the store's unless it is marked changed.
\<close>

definition my_sized :: "myriad \<Rightarrow> bool" where
  "my_sized m \<longleftrightarrow>
     (\<forall>p \<in> set (my_aStreams m). stm_iSize (strm m p) \<le> length (stm_aBlocks (strm m p)) * my_iBlockSize m)"

definition mh_ok :: "myriad \<Rightarrow> my_handle \<Rightarrow> bool" where
  "mh_ok m h \<longleftrightarrow>
     my_alloc m \<and> my_sized m \<and> mh_pStream h \<in> set (my_aStreams m) \<and>
     (case mh_pCurBlock h of None \<Rightarrow> my_blocks m = Map.empty
      | Some a \<Rightarrow> \<exists>b. my_blocks m = [a \<mapsto> b] \<and> length (blk_pData b) = my_iBlockSize m \<and>
          blk_iBlockIndex b \<in> set (stm_aBlocks (strm m (mh_pStream h))) \<and>
          (\<not> blk_bChanged b \<longrightarrow> blk_pData b = piece (my_iBlockSize m) (fl_data (my_sStore m)) (blk_iBlockIndex b)))"

text \<open>What is the same before and after an access: everything but the store's bytes and the memory.\<close>

definition my_rest :: "myriad \<Rightarrow> myriad \<Rightarrow> bool" where
  "my_rest m m' \<longleftrightarrow>
     my_iBlockSize m' = my_iBlockSize m \<and> my_iBlocks m' = my_iBlocks m \<and> my_iUsed m' = my_iUsed m \<and>
     my_lFreeBlocks m' = my_lFreeBlocks m \<and> my_streams m' = my_streams m \<and> my_aStreams m' = my_aStreams m \<and>
     my_next m \<le> my_next m' \<and> length (fl_data (my_sStore m')) = length (fl_data (my_sStore m))"

lemma my_rest_strm: "my_rest m m' \<Longrightarrow> strm m' = strm m"
  by (simp add: my_rest_def strm_def fun_eq_iff)

lemma my_rest_owned: "my_rest m m' \<Longrightarrow> my_owned m' = my_owned m"
  by (simp add: my_owned_def my_rest_strm) (simp add: my_rest_def)

lemma my_rest_alloc:
  assumes "my_alloc m" "my_rest m m'" "\<forall>p. my_next m' \<le> p \<longrightarrow> my_blocks m' p = None"
  shows "my_alloc m'"
proof -
  have "my_streams m' p = None" if "my_next m' \<le> p" for p
    using assms(1,2) that by (auto simp: my_alloc_def my_rest_def)
  with assms my_rest_owned [OF assms(2)] show ?thesis by (simp add: my_alloc_def my_rest_def)
qed

lemma my_rest_trans: "my_rest m m' \<Longrightarrow> my_rest m' m'' \<Longrightarrow> my_rest m m''"
  by (simp add: my_rest_def)

lemma my_rest_refl [simp]: "my_rest m m"
  by (simp add: my_rest_def)

lemma my_rest_sized: "my_rest m m' \<Longrightarrow> my_sized m' = my_sized m"
  by (simp add: my_sized_def my_rest_strm) (simp add: my_rest_def)

lemma mh_ok_alloc: "mh_ok m h \<Longrightarrow> my_alloc m"
  by (simp add: mh_ok_def)

lemma my_releaseBlock_ok:
  assumes ok: "mh_ok m h"
  shows "\<exists>m1. my_releaseBlock (mh_pCurBlock h) m = Inr m1 \<and> my_alloc m1 \<and> my_rest m m1 \<and>
    my_blocks m1 = Map.empty \<and> (\<forall>i < my_iBlocks m. piece (my_iBlockSize m) (fl_data (my_sStore m1)) i = mh_view m h i)"
proof (cases "mh_pCurBlock h")
  case None
  with ok show ?thesis by (auto simp: my_releaseBlock_def mh_ok_def mh_view_def)
next
  case (Some a)
  obtain b where b: "my_blocks m = [a \<mapsto> b]" "length (blk_pData b) = my_iBlockSize m"
    "blk_iBlockIndex b \<in> set (stm_aBlocks (strm m (mh_pStream h)))"
    "\<not> blk_bChanged b \<longrightarrow> blk_pData b = piece (my_iBlockSize m) (fl_data (my_sStore m)) (blk_iBlockIndex b)"
    using ok Some by (auto simp: mh_ok_def)
  have al: "my_alloc m" and p: "mh_pStream h \<in> set (my_aStreams m)" using ok by (auto simp: mh_ok_def)
  let ?i = "blk_iBlockIndex b" and ?bs = "my_iBlockSize m" and ?d = "fl_data (my_sStore m)"
  have i: "?i < my_iBlocks m" by (rule my_alloc_blocks [OF al p b(3)])
  have room: "Suc ?i * ?bs \<le> length ?d" by (rule block_in_store [OF al i])
  have view: "mh_view m h j = (if j = ?i then blk_pData b else piece ?bs ?d j)" for j
    using Some b(1) by (simp add: mh_view_def)
  show ?thesis
  proof (cases "blk_bChanged b")
    case False
    define m1 where "m1 = m\<lparr>my_hActiveBlocks := (my_hActiveBlocks m)(?i := None), my_blocks := Map.empty\<rparr>"
    have "my_releaseBlock (mh_pCurBlock h) m = Inr m1"
      using Some b(1) False by (simp add: my_releaseBlock_def my_syncBlock_def block_at_def m1_def)
    moreover have r: "my_rest m m1" by (simp add: my_rest_def m1_def)
    moreover have "my_alloc m1" by (rule my_rest_alloc [OF al r]) (simp add: m1_def)
    moreover have "\<forall>j < my_iBlocks m. piece ?bs (fl_data (my_sStore m1)) j = mh_view m h j"
      using b(4) False by (simp add: view) (simp add: m1_def)
    ultimately show ?thesis by (auto simp: m1_def)
  next
    case True
    define d' where "d' = overwrite ?d (?i * ?bs) (blk_pData b)"
    define st where "st = (my_sStore m)\<lparr>fl_pos := ?bs * ?i + ?bs, fl_bEos := False, fl_data := d'\<rparr>"
    define m1 where "m1 = m\<lparr>my_sStore := st, my_hActiveBlocks := (my_hActiveBlocks m)(?i := None),
      my_blocks := Map.empty\<rparr>"
    have wr: "fl_write (fl_setPos (my_sStore m) (int (?bs * ?i))) (blk_pData b) = Inr (int ?bs, st)"
      using room b(2) unfolding fl_setPos_int
      by (subst fl_write_inside) (simp_all add: st_def d'_def mult.commute)
    then have "my_releaseBlock (mh_pCurBlock h) m = Inr m1"
      using Some b(1) True by (simp add: my_releaseBlock_def my_syncBlock_def block_at_def m1_def)
    moreover have ld: "length d' = length ?d"
      using room b(2) by (simp add: d'_def length_overwrite)
    then have r: "my_rest m m1" by (simp add: my_rest_def m1_def st_def)
    moreover have "my_alloc m1" by (rule my_rest_alloc [OF al r]) (simp add: m1_def)
    moreover have "piece ?bs d' j = mh_view m h j" for j
    proof (cases "j = ?i")
      case True
      then show ?thesis using room b(2) by (simp add: view d'_def piece_same)
    next
      case False
      then show ?thesis using room b(2) by (simp add: view d'_def piece_other)
    qed
    then have "\<forall>j < my_iBlocks m. piece ?bs (fl_data (my_sStore m1)) j = mh_view m h j"
      by (simp add: m1_def st_def)
    ultimately show ?thesis by (auto simp: m1_def)
  qed
qed

lemma my_getBlock_ok:
  assumes al: "my_alloc m" and i: "i < my_iBlocks m" and emp: "my_blocks m = Map.empty"
  shows "\<exists>m1. my_getBlock i m = Inr (my_next m, m1) \<and> my_alloc m1 \<and> my_rest m m1 \<and>
    fl_data (my_sStore m1) = fl_data (my_sStore m) \<and>
    my_blocks m1 = [my_next m \<mapsto> \<lparr>blk_pData = piece (my_iBlockSize m) (fl_data (my_sStore m)) i,
      blk_bChanged = False, blk_iBlockIndex = i\<rparr>]"
proof -
  let ?bs = "my_iBlockSize m" and ?d = "fl_data (my_sStore m)"
  have room: "Suc i * ?bs \<le> length ?d" by (rule block_in_store [OF al i])
  have bs: "0 < ?bs" using al by (simp add: my_alloc_def)
  define st where "st = (my_sStore m)\<lparr>fl_pos := ?bs * i + ?bs, fl_bEos := False\<rparr>"
  define m1 where "m1 = m\<lparr>my_sStore := st,
      my_blocks := (my_blocks m)(my_next m \<mapsto> \<lparr>blk_pData = piece ?bs ?d i, blk_bChanged = False, blk_iBlockIndex = i\<rparr>),
      my_hActiveBlocks := (my_hActiveBlocks m)(i \<mapsto> my_next m), my_next := Suc (my_next m)\<rparr>"
  have rd: "fl_read (fl_setPos (my_sStore m) (int (?bs * i))) (int ?bs) = Inr (piece ?bs ?d i, st)"
    using room bs unfolding fl_setPos_int
    by (subst fl_read_inside) (simp_all add: st_def piece_def mult.commute)
  have "length (piece ?bs ?d i) = ?bs" by (rule length_piece [OF room])
  then have "my_getBlock i m = Inr (my_next m, m1)"
    unfolding my_getBlock_def rd by (simp add: m1_def)
  moreover have r: "my_rest m m1" by (simp add: my_rest_def m1_def st_def)
  moreover have "my_alloc m1"
    by (rule my_rest_alloc [OF al r]) (use al in \<open>auto simp: m1_def my_alloc_def\<close>)
  ultimately show ?thesis using emp by (auto simp: m1_def st_def)
qed

lemma map_upd_one_eq [simp]: "[a \<mapsto> x] = [a \<mapsto> y] \<longleftrightarrow> x = y"
  by (metis fun_upd_same option.inject)

text \<open>After seating a block the handle has it in memory, and sees every block as before.\<close>

lemma mh_seat_ok:
  assumes ok: "mh_ok m h" and i: "i \<in> set (stm_aBlocks (strm m (mh_pStream h)))"
  shows "\<exists>a h' m' b. mh_seat i h m = Inr (a, h', m') \<and> mh_ok m' h' \<and> my_rest m m' \<and>
    h' = h\<lparr>mh_pCurBlock := Some a\<rparr> \<and> my_blocks m' = [a \<mapsto> b] \<and> blk_iBlockIndex b = i \<and>
    (\<forall>j < my_iBlocks m. mh_view m' h' j = mh_view m h j) \<and>
    (\<forall>j < my_iBlocks m. j \<notin> set (stm_aBlocks (strm m (mh_pStream h))) \<longrightarrow>
      piece (my_iBlockSize m) (fl_data (my_sStore m')) j = piece (my_iBlockSize m) (fl_data (my_sStore m)) j)"
proof (cases "\<exists>a b. mh_pCurBlock h = Some a \<and> my_blocks m = [a \<mapsto> b] \<and> blk_iBlockIndex b = i")
  case True
  then obtain a b where ab: "mh_pCurBlock h = Some a" "my_blocks m = [a \<mapsto> b]" "blk_iBlockIndex b = i" by blast
  then have "mh_seat i h m = Inr (a, h, m)" by (simp add: mh_seat_def block_at_def)
  moreover have "h = h\<lparr>mh_pCurBlock := Some a\<rparr>" using ab(1) by simp
  ultimately show ?thesis using ok ab by (intro exI [of _ a] exI [of _ h] exI [of _ m] exI [of _ b]) simp
next
  case False
  have al: "my_alloc m" and p: "mh_pStream h \<in> set (my_aStreams m)" using ok by (auto simp: mh_ok_def)
  let ?bs = "my_iBlockSize m"
  obtain m1 where m1: "my_releaseBlock (mh_pCurBlock h) m = Inr m1" "my_alloc m1" "my_rest m m1"
    "my_blocks m1 = Map.empty" "\<forall>i < my_iBlocks m. piece ?bs (fl_data (my_sStore m1)) i = mh_view m h i"
    using my_releaseBlock_ok [OF ok] by blast
  have f1: "my_iBlocks m1 = my_iBlocks m" "my_iBlockSize m1 = ?bs" using m1(3) by (auto simp: my_rest_def)
  have ib: "i < my_iBlocks m" by (rule my_alloc_blocks [OF al p i])
  then have i1: "i < my_iBlocks m1" by (simp add: f1)
  obtain m2 where m2: "my_getBlock i m1 = Inr (my_next m1, m2)" "my_alloc m2" "my_rest m1 m2"
    "fl_data (my_sStore m2) = fl_data (my_sStore m1)"
    "my_blocks m2 = [my_next m1 \<mapsto> \<lparr>blk_pData = piece ?bs (fl_data (my_sStore m1)) i,
      blk_bChanged = False, blk_iBlockIndex = i\<rparr>]"
    using my_getBlock_ok [OF m1(2) i1 m1(4)] unfolding f1 by blast
  define h' where "h' = h\<lparr>mh_pCurBlock := Some (my_next m1)\<rparr>"
  have r: "my_rest m m2" using m1(3) m2(3) by (rule my_rest_trans)
  have f2: "my_iBlocks m2 = my_iBlocks m" "my_iBlockSize m2 = ?bs" "my_aStreams m2 = my_aStreams m"
    using r by (auto simp: my_rest_def)
  have cur: "(case mh_pCurBlock h of None \<Rightarrow> Inr None
      | Some a \<Rightarrow> rbind (block_at m a) (\<lambda>b. Inr (if blk_iBlockIndex b = i then Some a else None))) = Inr None"
    using ok False by (auto simp: mh_ok_def block_at_def split: option.splits)
  have "mh_seat i h m = Inr (my_next m1, h', m2)"
    unfolding mh_seat_def cur by (simp add: m1(1) m2(1) h'_def)
  moreover have "mh_ok m2 h'"
    using m2(2) ok r length_piece [OF block_in_store [OF m1(2) i1]] i
    unfolding mh_ok_def by (simp add: h'_def m2(4,5) f1 f2 my_rest_strm [OF r] my_rest_sized [OF r])
  moreover have view2: "mh_view m2 h' j = piece ?bs (fl_data (my_sStore m1)) j" for j
    by (simp add: mh_view_def h'_def m2(4,5) f2)
  moreover have "\<forall>j < my_iBlocks m. j \<notin> set (stm_aBlocks (strm m (mh_pStream h))) \<longrightarrow>
      piece ?bs (fl_data (my_sStore m2)) j = piece ?bs (fl_data (my_sStore m)) j"
    using ok m1(5) by (auto simp: m2(4) mh_view_def mh_ok_def split: option.splits)
  ultimately show ?thesis using m1(5) m2(5) r by (auto simp: h'_def)
qed

text \<open>What an access through a handle leaves alone: the other streams and the accounting.\<close>

definition mh_keeps :: "myriad \<Rightarrow> my_handle \<Rightarrow> myriad \<Rightarrow> my_handle \<Rightarrow> bool" where
  "mh_keeps m h m' h' \<longleftrightarrow>
     mh_pStream h' = mh_pStream h \<and> my_aStreams m' = my_aStreams m \<and> my_ids m' = my_ids m \<and>
     my_iUsed m' - int (length (my_owned m')) = my_iUsed m - int (length (my_owned m)) \<and>
     (\<forall>q \<in> set (my_aStreams m). q \<noteq> mh_pStream h \<longrightarrow> my_bytes m' q = my_bytes m q)"

lemma mh_keeps_refl [simp]: "mh_keeps m h m h"
  by (simp add: mh_keeps_def)

lemma mh_keeps_trans: "mh_keeps m h m' h' \<Longrightarrow> mh_keeps m' h' m'' h'' \<Longrightarrow> mh_keeps m h m'' h''"
  by (simp add: mh_keeps_def)

lemma my_rest_keeps:
  assumes al: "my_alloc m" and p: "p \<in> set (my_aStreams m)" and r: "my_rest m m'"
    and same: "\<forall>j < my_iBlocks m. j \<notin> set (stm_aBlocks (strm m p)) \<longrightarrow>
      piece (my_iBlockSize m) (fl_data (my_sStore m')) j = piece (my_iBlockSize m) (fl_data (my_sStore m)) j"
    and h: "mh_pStream h = p" "mh_pStream h' = p"
  shows "mh_keeps m h m' h'"
proof -
  have "my_bytes m' q = my_bytes m q" if q: "q \<in> set (my_aStreams m)" "q \<noteq> p" for q
  proof -
    have "map (piece (my_iBlockSize m) (fl_data (my_sStore m'))) (stm_aBlocks (strm m q)) =
      map (piece (my_iBlockSize m) (fl_data (my_sStore m))) (stm_aBlocks (strm m q))"
    proof (rule map_cong [OF refl])
      fix j assume j: "j \<in> set (stm_aBlocks (strm m q))"
      then have "j \<notin> set (stm_aBlocks (strm m p))" using my_alloc_disjoint [OF al q(1) p q(2)] by auto
      with same my_alloc_blocks [OF al q(1) j]
      show "piece (my_iBlockSize m) (fl_data (my_sStore m')) j = piece (my_iBlockSize m) (fl_data (my_sStore m)) j"
        by simp
    qed
    then have "concat (map (piece (my_iBlockSize m) (fl_data (my_sStore m'))) (stm_aBlocks (strm m q))) =
      concat (map (piece (my_iBlockSize m) (fl_data (my_sStore m))) (stm_aBlocks (strm m q)))" by (simp only:)
    with r show ?thesis by (simp add: my_bytes_def my_rest_strm [OF r]) (simp add: my_rest_def)
  qed
  moreover have "my_ids m' = my_ids m" using r by (simp add: my_ids_def my_rest_strm [OF r]) (simp add: my_rest_def)
  ultimately show ?thesis using r h by (simp add: mh_keeps_def my_rest_owned [OF r]) (simp add: my_rest_def)
qed

text \<open>The blocks of a stream as its handle sees them.\<close>

definition mh_blocks :: "myriad \<Rightarrow> my_handle \<Rightarrow> byte list list" where
  "mh_blocks m h = map (mh_view m h) (stm_aBlocks (strm m (mh_pStream h)))"

lemma mh_view_length:
  assumes "mh_ok m h" "i < my_iBlocks m"
  shows "length (mh_view m h i) = my_iBlockSize m"
  using assms length_piece [OF block_in_store [OF mh_ok_alloc [OF assms(1)] assms(2)]]
  by (auto simp: mh_view_def mh_ok_def split: option.splits)

lemma mh_blocks_length:
  assumes ok: "mh_ok m h"
  shows "\<forall>b \<in> set (mh_blocks m h). length b = my_iBlockSize m"
  using mh_view_length [OF ok] my_alloc_blocks [OF mh_ok_alloc [OF ok]] ok
  by (auto simp: mh_blocks_def mh_ok_def)

lemma mh_blocks_total:
  assumes ok: "mh_ok m h"
  shows "length (concat (mh_blocks m h)) = length (stm_aBlocks (strm m (mh_pStream h))) * my_iBlockSize m"
  using length_concat_blocks [OF mh_blocks_length [OF ok]] by (simp add: mh_blocks_def)

lemma mh_ok_size:
  "mh_ok m h \<Longrightarrow> stm_iSize (strm m (mh_pStream h)) \<le> length (concat (mh_blocks m h))"
  using mh_blocks_total [of m h] by (auto simp: mh_ok_def my_sized_def)

lemma mh_bytes_blocks: "mh_bytes m h = take (stm_iSize (strm m (mh_pStream h))) (concat (mh_blocks m h))"
  by (simp add: mh_bytes_def mh_blocks_def)

lemma mh_bytes_length: "mh_ok m h \<Longrightarrow> length (mh_bytes m h) = stm_iSize (strm m (mh_pStream h))"
  using mh_ok_size [of m h] by (simp add: mh_bytes_blocks)

lemma mh_view_pos [simp]: "mh_view m (h\<lparr>mh_iPos := x\<rparr>) = mh_view m h"
  by (simp add: mh_view_def fun_eq_iff)

lemma mh_ok_pos [simp]: "mh_ok m (h\<lparr>mh_iPos := x\<rparr>) = mh_ok m h"
  "mh_blocks m (h\<lparr>mh_iPos := x\<rparr>) = mh_blocks m h" "mh_bytes m (h\<lparr>mh_iPos := x\<rparr>) = mh_bytes m h"
  by (simp_all add: mh_ok_def mh_blocks_def mh_bytes_def cong: option.case_cong)

text \<open>Seating a block, for the handle's view of its stream.\<close>

lemma mh_seat_blocks:
  assumes ok: "mh_ok m h" and j: "j < length (stm_aBlocks (strm m (mh_pStream h)))"
  shows "\<exists>a h' m' b. mh_seat (stm_aBlocks (strm m (mh_pStream h)) ! j) h m = Inr (a, h', m') \<and>
    mh_ok m' h' \<and> my_rest m m' \<and> h' = h\<lparr>mh_pCurBlock := Some a\<rparr> \<and> my_blocks m' = [a \<mapsto> b] \<and>
    blk_iBlockIndex b = stm_aBlocks (strm m (mh_pStream h)) ! j \<and>
    mh_blocks m' h' = mh_blocks m h \<and> blk_pData b = mh_blocks m h ! j \<and> mh_keeps m h m' h'"
proof -
  let ?as = "stm_aBlocks (strm m (mh_pStream h))"
  have al: "my_alloc m" and p: "mh_pStream h \<in> set (my_aStreams m)" using ok by (auto simp: mh_ok_def)
  have i: "?as ! j \<in> set ?as" using j by simp
  obtain a h' m' b where s: "mh_seat (?as ! j) h m = Inr (a, h', m')" "mh_ok m' h'" "my_rest m m'"
    "h' = h\<lparr>mh_pCurBlock := Some a\<rparr>" "my_blocks m' = [a \<mapsto> b]" "blk_iBlockIndex b = ?as ! j"
    "\<forall>j < my_iBlocks m. mh_view m' h' j = mh_view m h j"
    "\<forall>j < my_iBlocks m. j \<notin> set ?as \<longrightarrow>
      piece (my_iBlockSize m) (fl_data (my_sStore m')) j = piece (my_iBlockSize m) (fl_data (my_sStore m)) j"
    using mh_seat_ok [OF ok i] by blast
  have bl: "mh_blocks m' h' = mh_blocks m h"
    using s(4,7) my_alloc_blocks [OF al p] by (simp add: mh_blocks_def my_rest_strm [OF s(3)])
  have "blk_pData b = mh_view m' h' (?as ! j)" using s(4,5,6) by (simp add: mh_view_def)
  also have "\<dots> = mh_blocks m h ! j"
    using bl j by (simp add: mh_blocks_def my_rest_strm [OF s(3)] s(4) list_eq_iff_nth_eq)
  finally have "blk_pData b = mh_blocks m h ! j" .
  moreover have "mh_keeps m h m' h'" using my_rest_keeps [OF al p s(3) s(8)] s(4) by simp
  ultimately show ?thesis using s bl by blast
qed

lemma mh_stream_at: "mh_ok m h \<Longrightarrow> stream_at m (mh_pStream h) = Inr (strm m (mh_pStream h))"
  using my_alloc_stream by (auto simp: mh_ok_def stream_at_def)

lemma mh_read_step_ok:
  assumes ok: "mh_ok m h" and pos: "mh_iPos h = int pos" and n: "0 < n" "pos + n \<le> length (mh_bytes m h)"
  shows "\<exists>xs h' m'. mh_read_step n h m = Inr (xs, h', m') \<and> mh_ok m' h' \<and> mh_keeps m h m' h' \<and>
    my_rest m m' \<and> mh_bytes m' h' = mh_bytes m h \<and> mh_iPos h' = int (pos + length xs) \<and>
    0 < length xs \<and> length xs \<le> n \<and> xs = take (length xs) (drop pos (mh_bytes m h))"
proof -
  let ?p = "mh_pStream h" and ?bs = "my_iBlockSize m"
  let ?s = "strm m ?p" and ?C = "concat (mh_blocks m h)"
  let ?j = "pos div ?bs" and ?o = "pos mod ?bs"
  have bs: "0 < ?bs" using ok by (simp add: mh_ok_def my_alloc_def)
  have sz: "pos + n \<le> stm_iSize ?s" using n mh_bytes_length [OF ok] by simp
  have "pos < length (stm_aBlocks ?s) * ?bs" using sz n mh_ok_size [OF ok] mh_blocks_total [OF ok] by simp
  then have j: "?j < length (stm_aBlocks ?s)" by (simp add: less_mult_imp_div_less)
  obtain a h1 m1 b where s: "mh_seat (stm_aBlocks ?s ! ?j) h m = Inr (a, h1, m1)" "mh_ok m1 h1" "my_rest m m1"
    "h1 = h\<lparr>mh_pCurBlock := Some a\<rparr>" "my_blocks m1 = [a \<mapsto> b]" "blk_iBlockIndex b = stm_aBlocks ?s ! ?j"
    "mh_blocks m1 h1 = mh_blocks m h" "blk_pData b = mh_blocks m h ! ?j" "mh_keeps m h m1 h1"
    using mh_seat_blocks [OF ok j] by blast
  define k where "k = min (min (?bs - ?o) n) (stm_iSize ?s - pos)"
  have o: "?o < ?bs" using bs by simp
  have k: "0 < k" "k \<le> n" "?o + k \<le> ?bs" "pos + k \<le> stm_iSize ?s" using o sz n by (auto simp: k_def)
  have jb: "?j < length (mh_blocks m h)" using j by (simp add: mh_blocks_def)
  have lb: "length (mh_blocks m h ! ?j) = ?bs" using mh_blocks_length [OF ok] jb by simp
  define xs where "xs = take k (drop ?o (mh_blocks m h ! ?j))"
  have lx: "length xs = k" using k lb by (simp add: xs_def)
  have "xs = take k (drop pos ?C)"
    using concat_block_read [OF mh_blocks_length [OF ok] jb k(3)] by (simp add: xs_def)
  then have xs: "xs = take k (drop pos (mh_bytes m h))"
    using k(4) by (simp add: mh_bytes_blocks drop_take min_absorb1)
  have "int (?bs - ?o) = int ?bs - int ?o" by (rule of_nat_diff) (use bs in simp)
  then have amnt: "min (min (int ?bs - int ?o) (int n)) (int (stm_iSize ?s) - int pos) = int k"
    using sz by (simp add: k_def of_nat_min of_nat_diff [OF le_trans [OF le_add1 sz]] del: of_nat_mod zmod_int)
  have ld: "mem_load (blk_pData b) (int ?o) (int k) = Inr xs"
    using k lb by (simp add: mem_load_def s(8) xs_def)
  have "mh_read_step n h m = Inr (xs, h1\<lparr>mh_iPos := int pos + int k\<rparr>, m1)"
    using s(1,5) ld bs unfolding mh_read_step_def mh_stream_at [OF ok] pos
    by (simp add: Let_def amnt j block_at_def)
  moreover have "mh_bytes m1 h1 = mh_bytes m h"
    by (simp add: mh_bytes_blocks s(7) my_rest_strm [OF s(3)]) (simp add: s(4))
  moreover have "mh_keeps m h m1 (h1\<lparr>mh_iPos := int pos + int k\<rparr>)" using s(9) by (simp add: mh_keeps_def)
  ultimately show ?thesis using s(2,3) k lx xs by (intro exI [of _ xs]) simp
qed

lemma mh_read_loop_ok:
  "mh_ok m h \<Longrightarrow> mh_iPos h = int pos \<Longrightarrow> pos + n \<le> length (mh_bytes m h) \<Longrightarrow>
   \<exists>h' m'. mh_read_loop n h m = Some (Inr (take n (drop pos (mh_bytes m h)), h', m')) \<and> mh_ok m' h' \<and>
     mh_keeps m h m' h' \<and> mh_bytes m' h' = mh_bytes m h \<and> mh_iPos h' = int (pos + n)"
proof (induction n arbitrary: m h pos rule: less_induct)
  case (less n)
  show ?case
  proof (cases "n = 0")
    case True
    with less.prems show ?thesis by (subst mh_read_loop.simps) simp
  next
    case False
    then have "0 < n" by simp
    from mh_read_step_ok [OF less.prems(1,2) this less.prems(3)]
    obtain xs h1 m1 where s: "mh_read_step n h m = Inr (xs, h1, m1)" "mh_ok m1 h1" "mh_keeps m h m1 h1"
      "mh_bytes m1 h1 = mh_bytes m h" "mh_iPos h1 = int (pos + length xs)" "0 < length xs" "length xs \<le> n"
      "xs = take (length xs) (drop pos (mh_bytes m h))" by blast
    let ?k = "length xs"
    have "n - ?k < n" "pos + ?k + (n - ?k) \<le> length (mh_bytes m1 h1)"
      using s(6,7) False less.prems(3) by (simp_all add: s(4))
    from less.IH [OF this(1) s(2,5) this(2)] obtain h2 m2 where r:
      "mh_read_loop (n - ?k) h1 m1 = Some (Inr (take (n - ?k) (drop (pos + ?k) (mh_bytes m1 h1)), h2, m2))"
      "mh_ok m2 h2" "mh_keeps m1 h1 m2 h2" "mh_bytes m2 h2 = mh_bytes m1 h1" "mh_iPos h2 = int (pos + ?k + (n - ?k))"
      by blast
    have "take n (drop pos (mh_bytes m h)) = take (?k + (n - ?k)) (drop pos (mh_bytes m h))" using s(7) by simp
    also have "\<dots> = xs @ take (n - ?k) (drop (pos + ?k) (mh_bytes m h))"
      unfolding take_add by (simp add: s(8) [symmetric] add.commute)
    finally have "mh_read_loop n h m = Some (Inr (take n (drop pos (mh_bytes m h)), h2, m2))"
      using False s(1) r(1) s(4) by (subst mh_read_loop.simps) simp
    moreover have "mh_keeps m h m2 h2" using s(3) r(3) by (rule mh_keeps_trans)
    ultimately show ?thesis using r(2,4,5) s(4,7) by simp
  qed
qed

text \<open>The three things a round of \<open>write\<close> does: a new block, new bytes in the block, a new size.\<close>

lemma mh_add_block:
  assumes ok: "mh_ok m h"
  shows "\<exists>b m'. my_streamAddBlock (mh_pStream h) m = Inr (b, m') \<and> mh_ok m' h \<and> mh_keeps m h m' h \<and>
    mh_bytes m' h = mh_bytes m h \<and> my_iBlockSize m' = my_iBlockSize m \<and>
    stm_iSize (strm m' (mh_pStream h)) = stm_iSize (strm m (mh_pStream h)) \<and>
    stm_aBlocks (strm m' (mh_pStream h)) = stm_aBlocks (strm m (mh_pStream h)) @ [b]"
proof -
  let ?p = "mh_pStream h"
  let ?s = "strm m ?p"
  have al: "my_alloc m" and p: "?p \<in> set (my_aStreams m)" using ok by (auto simp: mh_ok_def)
  obtain b m' where m': "my_streamAddBlock ?p m = Inr (b, m')" "my_alloc m'" "my_frame m m'"
    "my_streams m' = (my_streams m)(?p \<mapsto> ?s\<lparr>stm_aBlocks := stm_aBlocks ?s @ [b]\<rparr>)"
    "my_iUsed m' - int (length (my_owned m')) = my_iUsed m - int (length (my_owned m))"
    using my_streamAddBlock_alloc [OF al p] by blast
  have f: "my_aStreams m' = my_aStreams m" "my_iBlockSize m' = my_iBlockSize m" "my_blocks m' = my_blocks m"
    using m'(3) by (auto simp: my_frame_def)
  have st: "strm m' q = (if q = ?p then ?s\<lparr>stm_aBlocks := stm_aBlocks ?s @ [b]\<rparr> else strm m q)" for q
    by (simp add: strm_def m'(4))
  have same: "piece (my_iBlockSize m) (fl_data (my_sStore m')) i = piece (my_iBlockSize m) (fl_data (my_sStore m)) i"
    if "i \<in> set (stm_aBlocks ?s)" for i
    using m'(3) my_alloc_blocks [OF al p that] by (simp add: my_frame_def)
  have view: "mh_view m' h i = mh_view m h i" if "i \<in> set (stm_aBlocks ?s)" for i
    using same [OF that] by (simp add: mh_view_def f split: option.splits)
  have "my_sized m'" using ok by (auto simp: mh_ok_def my_sized_def f st add_mult_distrib intro: trans_le_add1)
  with ok m'(2) same have "mh_ok m' h"
    by (auto simp: mh_ok_def f st split: option.splits)
  moreover have "mh_bytes m' h = mh_bytes m h"
  proof -
    have "mh_blocks m' h = mh_blocks m h @ [mh_view m' h b]" by (simp add: mh_blocks_def st view)
    then show ?thesis using mh_ok_size [OF ok] by (simp add: mh_bytes_blocks st)
  qed
  moreover have "my_bytes m' q = my_bytes m q" if "q \<in> set (my_aStreams m)" "q \<noteq> ?p" for q
    using my_bytes_frame [OF al that(1) m'(3)] that(2) by (simp add: st)
  then have "mh_keeps m h m' h"
    using m'(5) f by (simp add: mh_keeps_def my_ids_def st if_distrib [of stm_iId] cong: if_cong)
  ultimately show ?thesis using m'(1) f by (simp add: st)
qed

lemma mh_store_block:
  assumes ok: "mh_ok m h" and cur: "mh_pCurBlock h = Some a" "my_blocks m = [a \<mapsto> b]"
    and j: "j < length (stm_aBlocks (strm m (mh_pStream h)))"
      "blk_iBlockIndex b = stm_aBlocks (strm m (mh_pStream h)) ! j"
    and d: "length d = my_iBlockSize m"
    and m': "m' = m\<lparr>my_blocks := (my_blocks m)(a \<mapsto> b\<lparr>blk_pData := d, blk_bChanged := True\<rparr>)\<rparr>"
  shows "mh_ok m' h \<and> mh_blocks m' h = (mh_blocks m h)[j := d] \<and> mh_keeps m h m' h \<and> strm m' = strm m"
proof -
  let ?as = "stm_aBlocks (strm m (mh_pStream h))"
  have al: "my_alloc m" and p: "mh_pStream h \<in> set (my_aStreams m)" using ok by (auto simp: mh_ok_def)
  have st: "strm m' = strm m" by (simp add: strm_def m' fun_eq_iff)
  have a: "a < my_next m"
  proof (rule ccontr)
    assume "\<not> a < my_next m"
    then have "my_blocks m a = None" using al by (simp add: my_alloc_def)
    with cur(2) show False by simp
  qed
  have ow: "my_owned m' = my_owned m" by (simp add: my_owned_def st) (simp add: m')
  have al': "my_alloc m'" using al a unfolding my_alloc_def ow by (auto simp: m')
  have sz': "my_sized m'" using ok by (simp add: mh_ok_def my_sized_def st) (simp add: m')
  have ok': "mh_ok m' h"
    unfolding mh_ok_def using al' sz' p j cur d by (simp add: st) (simp add: m')
  have "mh_view m' h i = (if i = ?as ! j then d else mh_view m h i)" for i
    using cur j(2) by (simp add: mh_view_def m')
  then have "mh_blocks m' h = (mh_blocks m h)[j := d]"
    using my_alloc_distinct_stream [OF al p] j(1)
    by (intro nth_equalityI) (auto simp: mh_blocks_def st nth_list_update nth_eq_iff_index_eq)
  moreover have "my_bytes m' q = my_bytes m q" for q by (simp add: my_bytes_def st) (simp add: m')
  then have "mh_keeps m h m' h" by (simp add: mh_keeps_def ow my_ids_def st) (simp add: m')
  ultimately show ?thesis using ok' st by blast
qed

lemma mh_set_size:
  assumes ok: "mh_ok m h" and n: "n \<le> length (concat (mh_blocks m h))"
    and m': "m' = (set_stream (mh_pStream h) ((strm m (mh_pStream h))\<lparr>stm_iSize := n\<rparr>) m)\<lparr>my_bHeaderChanged := True\<rparr>"
  shows "mh_ok m' h \<and> mh_bytes m' h = take n (concat (mh_blocks m h)) \<and> mh_keeps m h m' h"
proof -
  let ?p = "mh_pStream h"
  have al: "my_alloc m" and p: "?p \<in> set (my_aStreams m)" using ok by (auto simp: mh_ok_def)
  have st: "strm m' q = (if q = ?p then (strm m ?p)\<lparr>stm_iSize := n\<rparr> else strm m q)" for q
    by (simp add: m' strm_def set_stream_def)
  have f: "my_aStreams m' = my_aStreams m" "my_iBlockSize m' = my_iBlockSize m" "my_blocks m' = my_blocks m"
    "my_sStore m' = my_sStore m" "my_iUsed m' = my_iUsed m" by (simp_all add: m' set_stream_def)
  have al': "my_alloc m'" "my_owned m' = my_owned m" using my_alloc_set_size [OF al p, of n] by (simp_all add: m')
  have view: "mh_view m' h i = mh_view m h i" for i by (simp add: mh_view_def f split: option.splits)
  then have "mh_blocks m' h = mh_blocks m h" by (simp add: mh_blocks_def st)
  then have "mh_bytes m' h = take n (concat (mh_blocks m h))" by (simp add: mh_bytes_blocks st)
  moreover have "my_sized m'"
    using ok n mh_blocks_total [OF ok] by (simp add: mh_ok_def my_sized_def f st)
  then have "mh_ok m' h" using ok al'(1) by (auto simp: mh_ok_def f st split: option.splits)
  moreover have "my_bytes m' q = my_bytes m q" if "q \<noteq> ?p" for q using that by (simp add: my_bytes_def st f)
  then have "mh_keeps m h m' h"
    using al' f by (simp add: mh_keeps_def my_ids_def st if_distrib [of stm_iId] cong: if_cong)
  ultimately show ?thesis by blast
qed

lemma take_overwrite_max:
  "p \<le> n \<Longrightarrow> n \<le> length xs \<Longrightarrow> take (max n (p + length ys)) (overwrite xs p ys) = overwrite (take n xs) p ys"
  by (auto simp: overwrite_def drop_take min_def max_def)

text \<open>The first thing a round of \<open>write\<close> does is to find its block, or to add one.\<close>

lemma mh_write_block:
  assumes ok: "mh_ok m h"
  defines "as \<equiv> stm_aBlocks (strm m (mh_pStream h))"
  shows "\<exists>i m0 j. (if c_div (int pos) (int (my_iBlockSize m)) < int (length as)
      then rbind (array_at as (c_div (int pos) (int (my_iBlockSize m)))) (\<lambda>i. Inr (i, m))
      else my_streamAddBlock (mh_pStream h) m) = Inr (i, m0) \<and> mh_ok m0 h \<and> mh_keeps m h m0 h \<and>
    mh_bytes m0 h = mh_bytes m h \<and> my_iBlockSize m0 = my_iBlockSize m \<and>
    j < length (stm_aBlocks (strm m0 (mh_pStream h))) \<and> i = stm_aBlocks (strm m0 (mh_pStream h)) ! j \<and>
    (pos div my_iBlockSize m = j \<or> length (mh_bytes m h) \<le> j * my_iBlockSize m) \<and>
    (pos \<le> length (mh_bytes m h) \<longrightarrow> pos div my_iBlockSize m = j)"
proof (cases "pos div my_iBlockSize m < length as")
  case True
  with ok show ?thesis
    by (intro exI [of _ "as ! (pos div my_iBlockSize m)"] exI [of _ m] exI [of _ "pos div my_iBlockSize m"]) (simp add: as_def)
next
  case False
  let ?bs = "my_iBlockSize m"
  have bs: "0 < ?bs" using ok by (simp add: mh_ok_def my_alloc_def)
  have len: "length (mh_bytes m h) \<le> length as * ?bs"
    using mh_bytes_length [OF ok] mh_ok_size [OF ok] mh_blocks_total [OF ok] by (simp add: as_def)
  have j: "pos div ?bs = length as" if "pos \<le> length (mh_bytes m h)"
  proof -
    have "pos \<le> length as * ?bs" using that len by simp
    then have "pos div ?bs \<le> length as" using div_le_mono [of pos "length as * ?bs" ?bs] bs by simp
    with False show ?thesis by simp
  qed
  obtain b m' where "my_streamAddBlock (mh_pStream h) m = Inr (b, m')" "mh_ok m' h" "mh_keeps m h m' h"
    "mh_bytes m' h = mh_bytes m h" "my_iBlockSize m' = ?bs"
    "stm_aBlocks (strm m' (mh_pStream h)) = as @ [b]"
    using mh_add_block [OF ok] unfolding as_def by blast
  with j len False show ?thesis by (intro exI [of _ b] exI [of _ m'] exI [of _ "length as"]) simp
qed

text \<open>
  One round of \<open>write\<close>. Up to the end of the stream it overwrites; behind the end it still adds
  what it wrote to the size, so that the size falls short of the position.
\<close>

lemma mh_write_step_ok:
  assumes ok: "mh_ok m h" and pos: "mh_iPos h = int pos" and ne: "bytes \<noteq> []"
    and fits: "pos + length bytes \<le> length (mh_bytes m h) \<or> pos + length bytes < 2147483648"
  shows "\<exists>k h' m'. mh_write_step bytes h m = Inr (k, h', m') \<and> mh_ok m' h' \<and> mh_keeps m h m' h' \<and>
    mh_iPos h' = int (pos + k) \<and> 0 < k \<and> k \<le> length bytes \<and>
    (length (mh_bytes m h) \<le> pos \<longrightarrow> length (mh_bytes m' h') = length (mh_bytes m h) + k) \<and>
    (pos \<le> length (mh_bytes m h) \<longrightarrow> mh_bytes m' h' = overwrite (mh_bytes m h) pos (take k bytes))"
proof -
  let ?p = "mh_pStream h" and ?bs = "my_iBlockSize m"
  let ?o = "pos mod ?bs"
  have bs: "0 < ?bs" using ok by (simp add: mh_ok_def my_alloc_def)
  obtain i m0 j where m0: "(if c_div (int pos) (int ?bs) < int (length (stm_aBlocks (strm m ?p)))
      then rbind (array_at (stm_aBlocks (strm m ?p)) (c_div (int pos) (int ?bs))) (\<lambda>i. Inr (i, m))
      else my_streamAddBlock ?p m) = Inr (i, m0)" "mh_ok m0 h" "mh_keeps m h m0 h"
    "mh_bytes m0 h = mh_bytes m h" "my_iBlockSize m0 = ?bs" "j < length (stm_aBlocks (strm m0 ?p))"
    "i = stm_aBlocks (strm m0 ?p) ! j" "pos div ?bs = j \<or> length (mh_bytes m h) \<le> j * ?bs"
    "pos \<le> length (mh_bytes m h) \<longrightarrow> pos div ?bs = j"
    using mh_write_block [OF ok, of pos] by blast
  obtain a h1 m1 b where s: "mh_seat i h m0 = Inr (a, h1, m1)" "mh_ok m1 h1" "my_rest m0 m1"
    "h1 = h\<lparr>mh_pCurBlock := Some a\<rparr>" "my_blocks m1 = [a \<mapsto> b]" "blk_iBlockIndex b = i"
    "mh_blocks m1 h1 = mh_blocks m0 h" "blk_pData b = mh_blocks m0 h ! j" "mh_keeps m0 h m1 h1"
    using mh_seat_blocks [OF m0(2,6)] unfolding m0(7) [symmetric] by blast
  have p1: "mh_pStream h1 = ?p" "mh_pCurBlock h1 = Some a" by (simp_all add: s(4))
  let ?s = "strm m1 ?p" and ?C = "concat (mh_blocks m1 h1)"
  have st: "strm m1 = strm m0" "my_iBlockSize m1 = ?bs"
    using s(3) m0(5) by (simp_all add: my_rest_strm) (simp add: my_rest_def)
  define sz where "sz = stm_iSize ?s"
  have by1: "mh_bytes m1 h1 = mh_bytes m h"
    by (simp add: mh_bytes_blocks s(7) p1 st m0(4) [unfolded mh_bytes_blocks])
  have len: "length (mh_bytes m h) = sz" using mh_bytes_length [OF s(2)] by (simp add: sz_def p1 by1)
  have sz: "sz \<le> length ?C" using mh_ok_size [OF s(2)] by (simp add: sz_def p1)
  have byC: "mh_bytes m h = take sz ?C" using by1 by (simp add: mh_bytes_blocks sz_def p1)
  define over where "over \<longleftrightarrow> pos < sz"
  define k where "k = (if over then min (min (?bs - ?o) (length bytes)) (sz - pos) else min (?bs - ?o) (length bytes))"
  have o: "?o < ?bs" using bs by simp
  have k: "0 < k" "k \<le> length bytes" "?o + k \<le> ?bs" "over \<longrightarrow> pos + k \<le> sz"
    using o ne by (auto simp: k_def over_def)
  have sub: "int (?bs - ?o) = int ?bs - int ?o" by (rule of_nat_diff) (use bs in simp)
  have amnt: "pos < sz \<Longrightarrow> min (min (int ?bs - int ?o) (int (length bytes))) (int sz - int pos) = int k"
    "\<not> pos < sz \<Longrightarrow> min (int ?bs - int ?o) (int (length bytes)) = int k"
    unfolding sub [symmetric] k_def over_def by (auto simp: of_nat_min of_nat_diff)
  have jb: "j < length (mh_blocks m1 h1)" using m0(6) by (simp add: mh_blocks_def p1 st)
  have lb: "length (mh_blocks m1 h1 ! j) = ?bs" using mh_blocks_length [OF s(2)] jb by (simp add: st)
  define d where "d = overwrite (mh_blocks m1 h1 ! j) ?o (take k bytes)"
  have ld: "length d = ?bs" using k lb o by (simp add: d_def length_overwrite)
  have mst: "mem_store (blk_pData b) (int ?o) (take k bytes) = Inr d"
    using k lb by (simp add: s(8) s(7) [symmetric] d_def mem_store_in)
  define m2 where "m2 = m1\<lparr>my_blocks := (my_blocks m1)(a \<mapsto> b\<lparr>blk_pData := d, blk_bChanged := True\<rparr>)\<rparr>"
  have j1: "j < length (stm_aBlocks (strm m1 (mh_pStream h1)))"
    "blk_iBlockIndex b = stm_aBlocks (strm m1 (mh_pStream h1)) ! j"
    using m0(6,7) s(6) by (simp_all add: p1 st)
  have d1: "length d = my_iBlockSize m1" by (simp add: ld st)
  have w2: "mh_ok m2 h1" "mh_blocks m2 h1 = (mh_blocks m1 h1)[j := d]" "mh_keeps m1 h1 m2 h1" "strm m2 = strm m1"
    using mh_store_block [OF s(2) p1(2) s(5) j1 d1 m2_def] by blast+
  have C2: "concat (mh_blocks m2 h1) = overwrite ?C (j * ?bs + ?o) (take k bytes)"
    using concat_update_block [OF mh_blocks_length [OF s(2)] jb, of ?o "take k bytes"] k
    by (simp add: w2(2) d_def st)
  have len2: "length (take k bytes) = k" using k by simp
  have lC: "length ?C = length (mh_blocks m1 h1) * ?bs"
    using length_concat_blocks [OF mh_blocks_length [OF s(2)]] by (simp add: st)
  have "Suc j * ?bs \<le> length (mh_blocks m1 h1) * ?bs" using jb by (intro mult_le_mono1) simp
  then have in_C: "j * ?bs + ?o + k \<le> length ?C" using k(3) by (simp add: lC)
  have in_C': "sz \<le> j * ?bs + ?o" if "\<not> over"
  proof (cases "pos div ?bs = j")
    case True
    then have "j * ?bs + ?o = pos" by auto
    with that show ?thesis by (simp add: over_def)
  next
    case False
    with m0(8) show ?thesis by (simp add: len)
  qed
  define n where "n = (if over then sz else sz + k)"
  define m3 where "m3 = (if over then m2
    else (set_stream ?p (?s\<lparr>stm_iSize := sz + k\<rparr>) m2)\<lparr>my_bHeaderChanged := True\<rparr>)"
  have "mh_ok m3 h1 \<and> mh_bytes m3 h1 = take n (concat (mh_blocks m2 h1)) \<and> mh_keeps m2 h1 m3 h1"
  proof (cases over)
    case True
    with w2 show ?thesis by (simp add: m3_def n_def mh_bytes_blocks p1 sz_def)
  next
    case False
    have "sz + k \<le> length (concat (mh_blocks m2 h1))"
      unfolding C2 using in_C in_C' [OF False] by (simp add: length_overwrite)
    from mh_set_size [OF w2(1) this, of m3] show ?thesis using False by (simp add: m3_def n_def w2(4) p1)
  qed
  then have w3: "mh_ok m3 h1" "mh_bytes m3 h1 = take n (concat (mh_blocks m2 h1))" "mh_keeps m2 h1 m3 h1"
    by blast+
  have "length (mh_bytes m3 h1) = n"
    unfolding w3(2) C2 using in_C in_C' sz by (auto simp: n_def length_overwrite)
  then have grow: "length (mh_bytes m h) \<le> pos \<longrightarrow> length (mh_bytes m3 h1) = length (mh_bytes m h) + k"
    by (simp add: len n_def over_def)
  have "mh_bytes m3 h1 = overwrite (mh_bytes m h) pos (take k bytes)" if p: "pos \<le> sz"
  proof -
    have "pos div ?bs = j" using m0(9) p by (simp add: len)
    then have "j * ?bs + ?o = pos" by auto
    moreover have "n = max sz (pos + k)" using k(4) p by (auto simp: n_def over_def)
    ultimately show ?thesis
      using take_overwrite_max [OF p sz, of "take k bytes"] by (simp only: w3(2) C2 byC len2)
  qed
  moreover have small: "\<not> pos < sz \<Longrightarrow> \<not> 2147483648 \<le> int pos + int k" using fits k(1,2) by (auto simp: len)
  have "stream_at m1 ?p = Inr ?s" using mh_stream_at [OF s(2)] by (simp add: p1)
  then have "mh_write_step bytes h m = Inr (k, h1\<lparr>mh_iPos := int pos + int k\<rparr>, m3)"
    using s(5) mst bs
    by (simp only: mh_write_step_def mh_stream_at [OF ok] pos Let_def rbind_Inr m0(1) prod.case s(1))
      (simp add: block_at_def sz_def [symmetric] m3_def over_def m2_def amnt small)
  moreover have "mh_keeps m h m3 (h1\<lparr>mh_iPos := int pos + int k\<rparr>)"
    using m0(3) s(9) w2(3) w3(3) p1 by (simp add: mh_keeps_def)
  ultimately show ?thesis
    using w3(1) k grow by (intro exI [of _ k] exI [of _ "h1\<lparr>mh_iPos := int pos + int k\<rparr>"] exI [of _ m3]) (simp add: len)
qed

lemma mh_write_loop_ok:
  "mh_ok m h \<Longrightarrow> mh_iPos h = int pos \<Longrightarrow> pos \<le> length (mh_bytes m h) \<Longrightarrow> pos + length bytes < 2147483648 \<Longrightarrow>
   \<exists>h' m'. mh_write_loop bytes h m = Some (Inr (h', m')) \<and> mh_ok m' h' \<and> mh_keeps m h m' h' \<and>
     mh_iPos h' = int (pos + length bytes) \<and> mh_bytes m' h' = overwrite (mh_bytes m h) pos bytes"
proof (induction bytes arbitrary: m h pos rule: length_induct)
  case (1 bytes)
  show ?case
  proof (cases "bytes = []")
    case True
    with 1(2-) show ?thesis by (subst mh_write_loop.simps) simp
  next
    case False
    from mh_write_step_ok [OF 1(2,3) False] 1(4,5) obtain k h1 m1 where s:
      "mh_write_step bytes h m = Inr (k, h1, m1)" "mh_ok m1 h1" "mh_keeps m h m1 h1" "mh_iPos h1 = int (pos + k)"
      "0 < k" "k \<le> length bytes" "mh_bytes m1 h1 = overwrite (mh_bytes m h) pos (take k bytes)" by blast
    have lk: "length (take k bytes) = k" using s(6) by simp
    have "length (drop k bytes) < length bytes" using s(5) False by simp
    moreover have "pos + k \<le> length (mh_bytes m1 h1)"
      unfolding s(7) length_overwrite [OF 1(4)] lk by simp
    moreover have "pos + k + length (drop k bytes) < 2147483648" using 1(5) s(6) by simp
    ultimately obtain h2 m2 where r: "mh_write_loop (drop k bytes) h1 m1 = Some (Inr (h2, m2))" "mh_ok m2 h2"
      "mh_keeps m1 h1 m2 h2" "mh_iPos h2 = int (pos + k + length (drop k bytes))"
      "mh_bytes m2 h2 = overwrite (mh_bytes m1 h1) (pos + k) (drop k bytes)"
      using 1(1) s(2,4) by blast
    have "mh_write_loop bytes h m = Some (Inr (h2, m2))"
      using False s(1) r(1) by (subst mh_write_loop.simps) simp
    moreover have "mh_bytes m2 h2 = overwrite (mh_bytes m h) pos bytes"
      using overwrite_overwrite [OF 1(4), of "take k bytes" "drop k bytes"] unfolding r(5) s(7) lk by simp
    moreover have "mh_keeps m h m2 h2" using s(3) r(3) by (rule mh_keeps_trans)
    ultimately show ?thesis using r(2,4) s(6) by (intro exI [of _ h2] exI [of _ m2]) simp
  qed
qed

lemma mh_write_loop_past:
  "mh_ok m h \<Longrightarrow> mh_iPos h = int pos \<Longrightarrow> length (mh_bytes m h) \<le> pos \<Longrightarrow> pos + length bytes < 2147483648 \<Longrightarrow>
   \<exists>h' m'. mh_write_loop bytes h m = Some (Inr (h', m')) \<and> mh_ok m' h' \<and> mh_keeps m h m' h' \<and>
     length (mh_bytes m' h') = length (mh_bytes m h) + length bytes"
proof (induction bytes arbitrary: m h pos rule: length_induct)
  case (1 bytes)
  show ?case
  proof (cases "bytes = []")
    case True
    with 1(2-) show ?thesis by (subst mh_write_loop.simps) simp
  next
    case False
    from mh_write_step_ok [OF 1(2,3) False] 1(4,5) obtain k h1 m1 where s:
      "mh_write_step bytes h m = Inr (k, h1, m1)" "mh_ok m1 h1" "mh_keeps m h m1 h1" "mh_iPos h1 = int (pos + k)"
      "0 < k" "k \<le> length bytes" "length (mh_bytes m1 h1) = length (mh_bytes m h) + k" by blast
    have "length (drop k bytes) < length bytes" using s(5) False by simp
    moreover have "length (mh_bytes m1 h1) \<le> pos + k" using s(7) 1(4) by simp
    moreover have "pos + k + length (drop k bytes) < 2147483648" using 1(5) s(6) by simp
    ultimately obtain h2 m2 where r: "mh_write_loop (drop k bytes) h1 m1 = Some (Inr (h2, m2))" "mh_ok m2 h2"
      "mh_keeps m1 h1 m2 h2" "length (mh_bytes m2 h2) = length (mh_bytes m1 h1) + length (drop k bytes)"
      using 1(1) s(2,4) by blast
    have "mh_write_loop bytes h m = Some (Inr (h2, m2))"
      using False s(1) r(1) by (subst mh_write_loop.simps) simp
    moreover have "mh_keeps m h m2 h2" using s(3) r(3) by (rule mh_keeps_trans)
    ultimately show ?thesis using r(2,4) s(6,7) by (intro exI [of _ h2] exI [of _ m2]) simp
  qed
qed

section \<open>A stream opened, used and closed\<close>

text \<open>
  What a program does with a Myriad: open a stream, go to a position, read or write, and let the
  stream object go, which writes its block back.
\<close>

definition my_read_at :: "int \<Rightarrow> int \<Rightarrow> int \<Rightarrow> myriad \<Rightarrow> (byte list \<times> myriad) result option" where
  "my_read_at iId pos n m =
     (case my_openStream iId m of Inl e \<Rightarrow> Some (Inl e)
      | Inr h \<Rightarrow> map_option (\<lambda>r. rbind r (\<lambda>(bs, h', m'). rbind (mh_destroy h' m') (\<lambda>m''. Inr (bs, m''))))
          (mh_read (mh_setPos h pos) n m))"

definition my_write_at :: "int \<Rightarrow> int \<Rightarrow> byte list \<Rightarrow> myriad \<Rightarrow> (int \<times> myriad) result option" where
  "my_write_at iId pos bytes m =
     (case my_openStream iId m of Inl e \<Rightarrow> Some (Inl e)
      | Inr h \<Rightarrow> map_option (\<lambda>r. rbind r (\<lambda>(n, h', m'). rbind (mh_destroy h' m') (\<lambda>m''. Inr (n, m''))))
          (mh_write (mh_setPos h pos) bytes m))"

lemma my_open_ok:
  assumes wf: "my_wf m" and i: "my_abs m i = Some b"
  shows "\<exists>p. p \<in> set (my_aStreams m) \<and> stm_iId (strm m p) = i \<and>
    my_openStream i m = Inr \<lparr>mh_pStream = p, mh_pCurBlock = None, mh_iPos = 0\<rparr> \<and>
    mh_ok m \<lparr>mh_pStream = p, mh_pCurBlock = None, mh_iPos = x\<rparr> \<and>
    mh_bytes m \<lparr>mh_pStream = p, mh_pCurBlock = None, mh_iPos = x\<rparr> = b"
proof -
  have "distinct (my_ids m)" using wf by (simp add: my_wf_def sorted_distinct)
  then obtain p where p: "p \<in> set (my_aStreams m)" "stm_iId (strm m p) = i" "b = my_bytes m p"
    using i by (auto simp: my_abs_Some)
  have "my_findStream i m = Inr p" using my_findStream_Inr [OF wf p(1)] p(2) by simp
  with p wf show ?thesis
    by (intro exI [of _ p])
      (simp add: my_openStream_def mh_ok_def my_wf_def my_sized_def mh_bytes_def my_bytes_def mh_view_def [abs_def])
qed

lemma mh_destroy_ok:
  assumes ok: "mh_ok m h" and ids: "sorted_wrt (<) (my_ids m)"
  shows "\<exists>m'. mh_destroy h m = Inr m' \<and> my_wf m' \<and> my_change (mh_pStream h) (mh_bytes m h) m m' \<and>
    my_iUsed m' - int (length (my_owned m')) = my_iUsed m - int (length (my_owned m))"
proof -
  let ?p = "mh_pStream h"
  have al: "my_alloc m" and p: "?p \<in> set (my_aStreams m)" and sz: "my_sized m" using ok by (auto simp: mh_ok_def)
  obtain m1 where m1: "my_releaseBlock (mh_pCurBlock h) m = Inr m1" "my_alloc m1" "my_rest m m1"
    "my_blocks m1 = Map.empty" "\<forall>i < my_iBlocks m. piece (my_iBlockSize m) (fl_data (my_sStore m1)) i = mh_view m h i"
    using my_releaseBlock_ok [OF ok] by blast
  have same: "\<forall>j < my_iBlocks m. j \<notin> set (stm_aBlocks (strm m ?p)) \<longrightarrow>
      piece (my_iBlockSize m) (fl_data (my_sStore m1)) j = piece (my_iBlockSize m) (fl_data (my_sStore m)) j"
    using ok m1(5) by (auto simp: mh_view_def mh_ok_def split: option.splits)
  have k: "mh_keeps m h m1 h" by (rule my_rest_keeps [OF al p m1(3) same refl refl])
  have bl: "map (piece (my_iBlockSize m) (fl_data (my_sStore m1))) (stm_aBlocks (strm m ?p)) = mh_blocks m h"
    using m1(5) my_alloc_blocks [OF al p] by (simp add: mh_blocks_def)
  have f: "my_iBlockSize m1 = my_iBlockSize m" "my_aStreams m1 = my_aStreams m"
    using m1(3) by (simp_all add: my_rest_def)
  have by1: "my_bytes m1 ?p = mh_bytes m h"
    unfolding my_bytes_def mh_bytes_blocks my_rest_strm [OF m1(3)] f(1) bl ..
  have "my_sized m1" using sz my_rest_sized [OF m1(3)] by simp
  moreover have "my_ids m1 = my_ids m" using k by (simp add: mh_keeps_def)
  ultimately have "my_wf m1"
    using m1(2,4) p ids f(2) unfolding my_wf_def my_sized_def by auto
  with m1(1) k by1 show ?thesis by (auto simp: mh_destroy_def mh_keeps_def my_change_def)
qed

lemma mh_session:
  assumes wf: "my_wf m" and p: "p \<in> set (my_aStreams m)" and h: "mh_pStream h = p"
    and ok: "mh_ok m' h'" and k: "mh_keeps m h m' h'"
  shows "\<exists>m2. mh_destroy h' m' = Inr m2 \<and> my_wf m2 \<and> my_abs m2 = (my_abs m)(stm_iId (strm m p) \<mapsto> mh_bytes m' h') \<and>
    my_iUsed m2 - int (length (my_owned m2)) = my_iUsed m - int (length (my_owned m))"
proof -
  have "sorted_wrt (<) (my_ids m')" using wf k by (simp add: my_wf_def mh_keeps_def)
  from mh_destroy_ok [OF ok this] obtain m2 where m2: "mh_destroy h' m' = Inr m2" "my_wf m2"
    "my_change (mh_pStream h') (mh_bytes m' h') m' m2"
    "my_iUsed m2 - int (length (my_owned m2)) = my_iUsed m' - int (length (my_owned m'))" by blast
  have "my_change p (mh_bytes m' h') m m2" using m2(3) k h by (simp add: my_change_def mh_keeps_def)
  from my_change_abs [OF wf p this] m2 k show ?thesis by (simp add: mh_keeps_def)
qed

text \<open>
  C9. Writing through a stream object, from a position not behind the end, is overwriting the
  stream's bytes from the position on, growing the stream at the end when need be, as long as it
  stays below \<open>2^31\<close> bytes: every loop round ends, blocks are added and shared out correctly, all
  other streams keep their bytes, and the invariant holds afterwards. A single write of \<open>2^31\<close> bytes
  or more, below \<open>2^32\<close>, reports that it wrote them all and changes nothing.
\<close>

theorem myriad_write:
  assumes "my_wf m" "my_abs m i = Some b" "pos \<le> length b"
  shows "(pos + length bytes < 2147483648 \<longrightarrow>
    (\<exists>m'. my_write_at i (int pos) bytes m = Some (Inr (int (length bytes), m')) \<and> my_wf m' \<and>
      my_abs m' = (my_abs m)(i \<mapsto> overwrite b pos bytes) \<and>
      my_iUsed m' - int (length (my_owned m')) = my_iUsed m - int (length (my_owned m)))) \<and>
    (2147483648 \<le> length bytes \<and> length bytes < 4294967296 \<longrightarrow>
      my_write_at i (int pos) bytes m = Some (Inr (int (length bytes), m)))"
proof (intro conjI impI, goal_cases)
  case 1
  obtain p where p: "p \<in> set (my_aStreams m)" "stm_iId (strm m p) = i"
    "my_openStream i m = Inr \<lparr>mh_pStream = p, mh_pCurBlock = None, mh_iPos = 0\<rparr>"
    "mh_ok m \<lparr>mh_pStream = p, mh_pCurBlock = None, mh_iPos = int pos\<rparr>"
    "mh_bytes m \<lparr>mh_pStream = p, mh_pCurBlock = None, mh_iPos = int pos\<rparr> = b"
    using my_open_ok [OF assms(1,2)] by blast
  define h where "h = mh_setPos \<lparr>mh_pStream = p, mh_pCurBlock = None, mh_iPos = 0\<rparr> (int pos)"
  have h: "mh_ok m h" "mh_bytes m h = b" "mh_iPos h = int pos" "mh_pStream h = p"
    unfolding h_def mh_setPos_def using p(4,5) 1 by simp_all
  then obtain h' m' where w: "mh_write_loop bytes h m = Some (Inr (h', m'))" "mh_ok m' h'" "mh_keeps m h m' h'"
    "mh_bytes m' h' = overwrite b pos bytes"
    using mh_write_loop_ok [OF h(1,3), of bytes] assms(3) 1 by auto
  obtain m2 where "mh_destroy h' m' = Inr m2" "my_wf m2" "my_abs m2 = (my_abs m)(i \<mapsto> overwrite b pos bytes)"
    "my_iUsed m2 - int (length (my_owned m2)) = my_iUsed m - int (length (my_owned m))"
    using mh_session [OF assms(1) p(1) h(4) w(2,3)] unfolding p(2) w(4) by blast
  with p(3) w(1) 1 show ?case by (simp add: my_write_at_def mh_write_def h_def)
next
  case 2
  obtain p where "my_openStream i m = Inr \<lparr>mh_pStream = p, mh_pCurBlock = None, mh_iPos = 0\<rparr>"
    using my_open_ok [OF assms(1,2)] by blast
  with 2 show ?case
    by (simp add: my_write_at_def mh_write_def c_int_negative mh_write_loop.simps mh_setPos_def mh_destroy_def my_releaseBlock_def)
qed

text \<open>
  C27. Reading through a stream object returns the stream's bytes from the position on, at most the
  number asked for, and changes no stream; the position is an \<open>int\<close>.
\<close>

theorem myriad_read:
  assumes "my_wf m" "my_abs m i = Some b" "pos \<le> length b" "pos < 2147483648"
  shows "\<exists>m'. my_read_at i (int pos) (int n) m = Some (Inr (take n (drop pos b), m')) \<and> my_wf m' \<and>
    my_abs m' = my_abs m"
proof -
  obtain p where p: "p \<in> set (my_aStreams m)" "stm_iId (strm m p) = i"
    "my_openStream i m = Inr \<lparr>mh_pStream = p, mh_pCurBlock = None, mh_iPos = 0\<rparr>"
    "mh_ok m \<lparr>mh_pStream = p, mh_pCurBlock = None, mh_iPos = int pos\<rparr>"
    "mh_bytes m \<lparr>mh_pStream = p, mh_pCurBlock = None, mh_iPos = int pos\<rparr> = b"
    using my_open_ok [OF assms(1,2)] by blast
  define h where "h = mh_setPos \<lparr>mh_pStream = p, mh_pCurBlock = None, mh_iPos = 0\<rparr> (int pos)"
  have h: "mh_ok m h" "mh_bytes m h = b" "mh_iPos h = int pos" "mh_pStream h = p"
    unfolding h_def mh_setPos_def using p(4,5) assms(4) by simp_all
  have sz: "stm_iSize (strm m p) = length b" using mh_bytes_length [OF h(1)] h(2,4) by simp
  define k where "k = min n (length b - pos)"
  have tk: "take k (drop pos b) = take n (drop pos b)" by (simp add: k_def min_def)
  have fit: "pos + k \<le> length b" using assms(3) by (auto simp: k_def)
  obtain h' m' where w: "mh_read_loop k h m = Some (Inr (take n (drop pos b), h', m'))" "mh_ok m' h'"
    "mh_keeps m h m' h'" "mh_bytes m' h' = b"
    using mh_read_loop_ok [OF h(1,3), of k] fit unfolding h(2) tk by blast
  have nk: "(if int n > int (length b) - int pos then int (length b) - int pos else int n) = int k"
    using assms(3) by (auto simp: k_def)
  have st: "stream_at m (mh_pStream h) = Inr (strm m p)" using mh_stream_at [OF h(1)] by (simp add: h(4))
  have "mh_read h (int n) m = mh_read_loop k h m"
    unfolding mh_read_def st sum.case h(3) sz Let_def nk
    by (cases "k = 0") (simp_all add: mh_read_loop.simps [of 0])
  with w(1) have "mh_read h (int n) m = Some (Inr (take n (drop pos b), h', m'))" by simp
  moreover obtain m2 where "mh_destroy h' m' = Inr m2" "my_wf m2" "my_abs m2 = (my_abs m)(i \<mapsto> b)"
    using mh_session [OF assms(1) p(1) h(4) w(2,3)] unfolding p(2) w(4) by blast
  moreover have "(my_abs m)(i \<mapsto> b) = my_abs m" using assms(2) by (simp add: fun_upd_idem)
  ultimately show ?thesis using p(3) by (simp add: my_read_at_def h_def)
qed

end
