(* ===== verification/Bu_MyriadStore.thy ===== *)
theory Bu_MyriadStore
  imports Bu_MyriadStream
begin

text \<open>
  Formatting a store, and the properties of a Myriad with their witnesses, which start from a
  freshly formatted store.
\<close>

section \<open>A fresh Myriad\<close>

text \<open>The header loop: with five bytes to a block or more it ends, with fewer it does not.\<close>

lemma blkDiv_bounds:
  assumes "0 < b"
  shows "n \<le> blkDiv n b * b" "blkDiv n b * b < n + b"
proof -
  have n: "n = n div b * b + n mod b" by simp
  have m: "n mod b < b" using assms by simp
  have "n \<le> blkDiv n b * b \<and> blkDiv n b * b < n + b"
  proof (cases "n mod b = 0")
    case True
    then have "blkDiv n b * b = n" using n by (simp add: blkDiv_def)
    with assms show ?thesis by simp
  next
    case False
    then have "blkDiv n b * b = n div b * b + b" by (simp add: blkDiv_def)
    moreover have "0 < n mod b" using False by simp
    ultimately show ?thesis using n m by linarith
  qed
  then show "n \<le> blkDiv n b * b" "blkDiv n b * b < n + b" by blast+
qed

lemma header_loop_from:
  "5 \<le> bs \<Longrightarrow> \<exists>hb'. my_header_loop bs (22 + 4 * hb) hb = Some (22 + 4 * hb', hb') \<and> 22 + 4 * hb' \<le> hb' * bs"
proof (induction "22 - hb" arbitrary: hb rule: less_induct)
  case less
  show ?case
  proof (cases "22 + 4 * hb > hb * bs")
    case False
    then show ?thesis by (subst my_header_loop.simps) auto
  next
    case True
    define hb1 where "hb1 = blkDiv (26 + 4 * hb) bs"
    have small: "hb < 22"
    proof (rule ccontr)
      assume "\<not> hb < 22"
      moreover have "hb * 5 \<le> hb * bs" using less.prems by (intro mult_le_mono2)
      ultimately show False using True by simp
    qed
    have "hb * bs < blkDiv (26 + 4 * hb) bs * bs"
      using True blkDiv_bounds(1) [of bs "26 + 4 * hb"] less.prems by linarith
    then have "hb < hb1" by (simp add: hb1_def)
    with small have "22 - hb1 < 22 - hb" by simp
    from less.hyps [OF this less.prems] obtain hb' where
      "my_header_loop bs (22 + 4 * hb1) hb1 = Some (22 + 4 * hb', hb')" "22 + 4 * hb' \<le> hb' * bs" by blast
    then show ?thesis using True
      by (intro exI [of _ hb']) (subst my_header_loop.simps, simp add: hb1_def [symmetric])
  qed
qed

lemma header_loop_start:
  "0 < bs \<Longrightarrow> my_header_loop bs 26 0 = my_header_loop bs (22 + 4 * blkDiv 30 bs) (blkDiv 30 bs)"
  by (subst my_header_loop.simps) simp

lemma header_loop_stuck:
  assumes "my_header_loop bs hs hb = Some r"
  shows "5 \<le> bs \<or> hs \<noteq> 22 + 4 * hb"
proof (rule my_header_loop.raw_induct [where P = "\<lambda>bs hs hb r. 5 \<le> bs \<or> hs \<noteq> 22 + 4 * hb", OF _ assms])
  fix loop bs hs hb r
  assume IH: "\<And>bs hs hb y. loop bs hs hb = Some y \<Longrightarrow> 5 \<le> bs \<or> hs \<noteq> 22 + 4 * hb"
    and eq: "(if hs > hb * bs then loop bs (14 + 8 + 4 * blkDiv (hs + 4) bs) (blkDiv (hs + 4) bs)
      else Some (hs, hb)) = Some r"
  show "5 \<le> bs \<or> hs \<noteq> 22 + 4 * hb"
  proof (rule ccontr)
    assume c: "\<not> (5 \<le> bs \<or> hs \<noteq> 22 + 4 * hb)"
    then have "hb * bs \<le> hb * 4" by (intro mult_le_mono2) simp
    moreover have "hs = 22 + 4 * hb" using c by simp
    ultimately have "hs > hb * bs" by linarith
    with eq have "loop bs (14 + 8 + 4 * blkDiv (hs + 4) bs) (blkDiv (hs + 4) bs) = Some r" by simp
    from IH [OF this] c show False by simp
  qed
qed

text \<open>
  Formatting a store ends exactly when a block holds at least five bytes (a block size of 0 is
  a division by zero): for one to four bytes the header never fits into its own blocks, and the
  loop that computes its size runs forever.
\<close>

theorem myriad_header_loop:
  assumes "0 < bs"
  shows "(\<exists>r. my_initialize bs iPre m = Some r) \<longleftrightarrow> 5 \<le> bs"
proof (cases "5 \<le> bs")
  case True
  then obtain hb where "my_header_loop bs (22 + 4 * blkDiv 30 bs) (blkDiv 30 bs) = Some (22 + 4 * hb, hb)"
    using header_loop_from by blast
  with True header_loop_start [OF assms] show ?thesis by (simp add: my_initialize_def Let_def)
next
  case False
  then have "my_header_loop bs (22 + 4 * blkDiv 30 bs) (blkDiv 30 bs) = None"
    using header_loop_stuck [of bs "22 + 4 * blkDiv 30 bs" "blkDiv 30 bs"]
    by (cases "my_header_loop bs (22 + 4 * blkDiv 30 bs) (blkDiv 30 bs)") auto
  with False header_loop_start [OF assms] assms show ?thesis by (simp add: my_initialize_def)
qed

theorem myriad_header_loop_witness:
  "my_initialize 4 0 (my_new (fl_new []) 4) = None \<and> (\<exists>r. my_initialize 5 0 (my_new (fl_new []) 5) = Some r)"
proof
  have "\<not> (\<exists>r. my_initialize 4 0 (my_new (fl_new []) 4) = Some r)"
    using myriad_header_loop [of 4 0 "my_new (fl_new []) 4"] by simp
  then show "my_initialize 4 0 (my_new (fl_new []) 4) = None" by simp
  show "\<exists>r. my_initialize 5 0 (my_new (fl_new []) 5) = Some r"
    using myriad_header_loop [of 5 0 "my_new (fl_new []) 5"] by simp
qed

lemma fl_write_grows:
  "fl_write f bs = Inr (k, f') \<Longrightarrow>
   fl_pos f' = fl_pos f + length bs \<and> length (fl_data f) \<le> length (fl_data f') \<and>
   (bs \<noteq> [] \<longrightarrow> fl_pos f + length bs \<le> length (fl_data f'))"
  by (auto simp: fl_write_def Let_def length_overwrite)

lemma write_zero_blocks_ok:
  "0 < bs \<Longrightarrow> \<exists>f'. write_zero_blocks bs n f = Inr f' \<and> length (fl_data f) \<le> length (fl_data f') \<and>
     (0 < n \<longrightarrow> fl_pos f + n * bs \<le> length (fl_data f'))"
proof (induction n arbitrary: f)
  case 0
  then show ?case by simp
next
  case (Suc n)
  obtain k f1 where f1: "fl_write f (replicate bs 0) = Inr (k, f1)" by (simp add: fl_write_def Let_def)
  note g = fl_write_grows [OF f1]
  obtain f' where f': "write_zero_blocks bs n f1 = Inr f'" "length (fl_data f1) \<le> length (fl_data f')"
    "0 < n \<longrightarrow> fl_pos f1 + n * bs \<le> length (fl_data f')" using Suc by blast
  show ?case
  proof (cases "n = 0")
    case True
    with f1 f' g Suc.prems show ?thesis by auto
  next
    case False
    with f1 f' g show ?thesis by auto
  qed
qed

lemma write_zero_blocks_le:
  "write_zero_blocks bs n f = Inr f' \<Longrightarrow> length (fl_data f') \<le> max (length (fl_data f)) (fl_pos f + n * bs)"
proof (induction n arbitrary: f)
  case (Suc n)
  obtain k f1 where f1: "fl_write f (replicate bs 0) = Inr (k, f1)" by (simp add: fl_write_def Let_def)
  then have "fl_pos f1 = fl_pos f + bs" "length (fl_data f1) \<le> max (length (fl_data f)) (fl_pos f + bs)"
    by (auto simp: fl_write_def Let_def length_overwrite split: if_splits)
  with Suc.IH [of f1] Suc.prems f1 show ?case by auto
qed simp

lemma length_int_bytes [simp]: "length (int_bytes i) = 4"
  by (simp add: int_bytes_def)

lemma length_format_bytes [simp]: "length (my_format_bytes bs hs hb) = 18 + 4 * (hb + 1)"
proof -
  have "length (concat (map (\<lambda>b. int_bytes (int b)) [0..<hb])) = hb * 4"
    using length_concat_blocks [of "map (\<lambda>b. int_bytes (int b)) [0..<hb]" 4] by simp
  then show ?thesis by (simp add: my_format_bytes_def magic_code_def)
qed

lemma concat_pieces: "k * n \<le> length xs \<Longrightarrow> concat (map (piece n xs) [0..<k]) = take (k * n) xs"
proof (induction k)
  case 0
  then show ?case by simp
next
  case (Suc k)
  then show ?case by (simp add: piece_def take_add add.commute [of n])
qed

lemma my_initialize_form:
  assumes bs: "5 \<le> bs" and pre: "0 \<le> iPre"
  shows "\<exists>m hb. my_initialize bs iPre (my_new f x) = Some (Inr m) \<and> my_wf m \<and>
    my_abs m = [0 \<mapsto> my_format_bytes bs (22 + 4 * hb) hb] \<and>
    my_iBlocks m = nat iPre + hb \<and> length (my_lFreeBlocks m) = nat iPre \<and>
    my_getNumUsedBlocks m = int (length (my_owned m)) + 1 \<and>
    my_aStreams m = [0] \<and> my_ids m = [0] \<and> my_bHeaderChanged m \<and> my_iBlockSize m = bs \<and>
    stm_aBlocks (strm m 0) = [0..<hb] \<and> 0 < hb \<and> my_header_loop bs 26 0 = Some (22 + 4 * hb, hb) \<and>
    length (fl_data (my_sStore m)) \<le> max (length (fl_data f)) (fl_pos f + (nat iPre + hb) * bs)"
proof -
  obtain hb where hl: "my_header_loop bs 26 0 = Some (22 + 4 * hb, hb)" "22 + 4 * hb \<le> hb * bs"
    using header_loop_from [OF bs] header_loop_start [of bs] bs by fastforce
  have hb: "0 < hb" using hl(2) by (cases hb) auto
  define n where "n = nat iPre + hb"
  have nn: "nat (iPre + int hb) = n" using pre by (simp add: n_def nat_add_distrib)
  have b0: "0 < bs" using bs by simp
  obtain f1 where f1: "write_zero_blocks bs n f = Inr f1" "n * bs \<le> length (fl_data f1)"
    using write_zero_blocks_ok [OF b0, of n f] hb by (auto simp: n_def)
  define d where "d = my_format_bytes bs (22 + 4 * hb) hb"
  have ld: "length d = 22 + 4 * hb" by (simp add: d_def)
  have "hb * bs \<le> n * bs" by (intro mult_le_mono1) (simp add: n_def)
  then have "hb * bs \<le> length (fl_data f1)" using f1(2) by (rule le_trans)
  then have fit: "hb * bs \<le> length (fl_data f1)" "length d \<le> length (fl_data f1)" using hl(2) ld by simp_all
  define f2 where "f2 = f1\<lparr>fl_data := overwrite (fl_data f1) 0 d, fl_pos := length d, fl_bEos := False\<rparr>"
  have w: "fl_write (fl_setPos f1 0) d = Inr (int (length d), f2)"
    using fit fl_setPos_int [of f1 0] by (simp add: fl_write_inside f2_def)
  have lf2: "length (fl_data f2) = length (fl_data f1)" using fit by (simp add: f2_def length_overwrite)
  define s where "s = \<lparr>stm_iId = 0, stm_iSize = 22 + 4 * hb, stm_aBlocks = [0..<hb]\<rparr>"
  define m where "m = \<lparr>my_sStore = f2, my_iBlockSize = bs, my_iBlocks = n, my_iUsed = 1 + int hb,
    my_lFreeBlocks = [hb..<n], my_streams = [0 \<mapsto> s], my_aStreams = [0], my_blocks = Map.empty,
    my_hActiveBlocks = Map.empty, my_bHeaderChanged = True, my_next = 1\<rparr>"
  have init: "my_initialize bs iPre (my_new f x) = Some (Inr m)"
    using b0 f1(1) w hl(1)
    by (simp add: my_initialize_def nn d_def [symmetric] my_new_def new_stream_def set_stream_def m_def s_def Let_def)
  have st: "strm m 0 = s" by (simp add: m_def strm_def)
  have ow: "my_owned m = [0..<hb]" by (simp add: my_owned_def m_def strm_def s_def)
  have "[0..<hb] @ [hb..<n] = [0..<n]"
    using upt_add_eq_append [of 0 hb "nat iPre"] by (simp add: n_def add.commute)
  then have "mset [0..<hb] + mset [hb..<n] = mset [0..<n]" by (metis mset_append)
  then have al: "my_alloc m"
    unfolding my_alloc_def ow using b0 f1(2) lf2 by (simp add: m_def)
  have "22 + 4 * hb \<le> hb * bs" by (rule hl(2))
  then have wf: "my_wf m"
    using al unfolding my_wf_def my_ids_def by (simp add: m_def strm_def s_def)
  have "my_bytes m 0 = take (22 + 4 * hb) (concat (map (piece bs (fl_data f2)) [0..<hb]))"
    by (simp add: my_bytes_def st) (simp add: m_def s_def)
  also have "\<dots> = take (22 + 4 * hb) (fl_data f2)"
    using fit(1) hl(2) by (simp add: concat_pieces lf2 min_absorb1)
  also have "\<dots> = d" by (simp add: f2_def overwrite_def ld [symmetric])
  finally have "my_bytes m 0 = d" .
  moreover have "my_aStreams m = [0]" "stm_iId s = 0" by (simp_all add: m_def s_def)
  ultimately have "my_abs m = [0 \<mapsto> d]" by (simp add: my_abs_def st)
  then show ?thesis
    using init wf hb hl(1) write_zero_blocks_le [OF f1(1)] lf2
    by (intro exI [of _ m] exI [of _ hb])
      (simp add: ow d_def my_getNumUsedBlocks_def st my_ids_def, simp add: m_def n_def s_def strm_def)
qed

lemma my_initialize_ok:
  assumes "5 \<le> bs" "0 \<le> iPre"
  shows "\<exists>m hb. my_initialize bs iPre (my_new f x) = Some (Inr m) \<and> my_wf m \<and>
    my_abs m = [0 \<mapsto> my_format_bytes bs (22 + 4 * hb) hb] \<and>
    my_iBlocks m = nat iPre + hb \<and> length (my_lFreeBlocks m) = nat iPre \<and>
    my_getNumUsedBlocks m = int (length (my_owned m)) + 1"
  using my_initialize_form [OF assms] by blast

section \<open>The properties\<close>

text \<open>A Myriad freshly formatted on an empty file, and one with a stream in it: the inputs of the witnesses.\<close>

lemma fresh16:
  "\<exists>m b. my_initialize 16 2 (my_new (fl_new []) 0) = Some (Inr m) \<and> my_wf m \<and> my_abs m = [0 \<mapsto> b]"
  using my_initialize_ok [of 16 2 "fl_new []" 0] by auto

lemma fresh16_stream:
  "\<exists>m m' i. my_initialize 16 2 (my_new (fl_new []) 0) = Some (Inr m) \<and> my_createStream 1 m = Inr (i, m') \<and>
     my_wf m' \<and> my_abs m' i = Some [] \<and> my_abs m' 0 \<noteq> None \<and> i \<noteq> 0"
proof -
  obtain m b where m: "my_initialize 16 2 (my_new (fl_new []) 0) = Some (Inr m)" "my_wf m" "my_abs m = [0 \<mapsto> b]"
    using fresh16 by blast
  obtain i m' where m': "my_createStream 1 m = Inr (i, m')" "my_wf m'" "my_abs m i = None"
    "my_abs m' = (my_abs m)(i \<mapsto> [])" using my_createStream_wf [OF m(2), of 1] by blast
  have i: "i \<noteq> 0" using m'(3) m(3) by (cases "i = 0") simp_all
  have a: "my_abs m' i = Some []" by (simp add: m'(4))
  have z: "my_abs m' 0 \<noteq> None" using i by (simp add: m'(4) m(3))
  show ?thesis using m(1) m'(1,2) i a z by blast
qed

text \<open>
  Formatting a store, whatever it held, gives a Myriad with one stream, number 0, that holds
  the header; every block is the header's or free. The counter of used blocks is one too high.
\<close>

theorem myriad_initialize:
  assumes "5 \<le> bs" "0 \<le> iPre"
  shows "\<exists>m hb. my_initialize bs iPre (my_new f x) = Some (Inr m) \<and> my_wf m \<and>
    my_abs m = [0 \<mapsto> my_format_bytes bs (22 + 4 * hb) hb] \<and>
    my_iBlocks m = nat iPre + hb \<and> length (my_lFreeBlocks m) = nat iPre \<and>
    my_getNumUsedBlocks m = int (length (my_owned m)) + 1"
  by (rule my_initialize_ok [OF assms])

theorem myriad_initialize_witness:
  "\<exists>m hb. my_initialize 64 3 (my_new (fl_new [1, 2]) 9) = Some (Inr m) \<and> my_iBlocks m = 3 + hb"
  using myriad_initialize [of 64 3 "fl_new [1, 2]" 9] by auto

text \<open>
  \<open>createStream\<close> returns an id that was not in use, makes it name an empty stream, leaves the
  bytes of every other stream alone, and shares out the blocks it preallocates correctly.
\<close>

theorem myriad_createStream:
  assumes "my_wf m"
  shows "\<exists>i m'. my_createStream n m = Inr (i, m') \<and> my_wf m' \<and> my_abs m i = None \<and>
    my_abs m' = (my_abs m)(i \<mapsto> []) \<and>
    my_iUsed m' - int (length (my_owned m')) = my_iUsed m - int (length (my_owned m))"
  by (rule my_createStream_wf [OF assms])

theorem myriad_createStream_witness:
  "\<exists>m i m'. my_initialize 16 2 (my_new (fl_new []) 0) = Some (Inr m) \<and> my_createStream 1 m = Inr (i, m') \<and>
     my_abs m' = (my_abs m)(i \<mapsto> [])"
  using fresh16 myriad_createStream [of _ 1] by blast

text \<open>\<open>createStreamWithId\<close> of an id not in use does the same for the id it is given.\<close>

theorem myriad_createStreamWithId:
  assumes "my_wf m" "my_abs m i = None"
  shows "\<exists>m'. my_createStreamWithId i n m = Inr (i, m') \<and> my_wf m' \<and> my_abs m' = (my_abs m)(i \<mapsto> []) \<and>
    my_iUsed m' - int (length (my_owned m')) = my_iUsed m - int (length (my_owned m))"
  by (rule my_createStreamWithId_wf [OF assms])

theorem myriad_createStreamWithId_witness:
  "\<exists>m m'. my_initialize 16 2 (my_new (fl_new []) 0) = Some (Inr m) \<and> my_createStreamWithId 7 5 m = Inr (7, m') \<and>
     my_abs m' = (my_abs m)(7 \<mapsto> [])"
proof -
  obtain m b where m: "my_initialize 16 2 (my_new (fl_new []) 0) = Some (Inr m)" "my_wf m" "my_abs m = [0 \<mapsto> b]"
    using fresh16 by blast
  then have "my_abs m 7 = None" by simp
  from myriad_createStreamWithId [OF m(2) this, of 5] m(1) show ?thesis by blast
qed

text \<open>
  C28. \<open>deleteStream\<close> of any id but 0 removes that stream, if there is one, and no other, and gives
  its blocks back to the free ones.
\<close>

theorem myriad_deleteStream:
  assumes "my_wf m" "my_abs m 0 \<noteq> None" "0 < i"
  shows "\<exists>m'. my_deleteStream i m = Inr m' \<and> my_wf m' \<and> my_abs m' = (my_abs m)(i := None) \<and>
    my_iUsed m' - int (length (my_owned m')) = my_iUsed m - int (length (my_owned m))"
  using assms my_deleteStream_wf [OF assms(1,3)] by (auto simp: my_abs_None)

theorem myriad_deleteStream_witness:
  "\<exists>m m' m''. my_initialize 16 2 (my_new (fl_new []) 0) = Some (Inr m) \<and>
     my_createStreamWithId 7 5 m = Inr (7, m') \<and> my_deleteStream 7 m' = Inr m'' \<and> my_abs m'' = my_abs m"
proof -
  obtain m b where m: "my_initialize 16 2 (my_new (fl_new []) 0) = Some (Inr m)" "my_wf m" "my_abs m = [0 \<mapsto> b]"
    using fresh16 by blast
  then have n: "my_abs m 7 = None" by simp
  obtain m' where m': "my_createStreamWithId 7 5 m = Inr (7, m')" "my_wf m'" "my_abs m' = (my_abs m)(7 \<mapsto> [])"
    using my_createStreamWithId_wf [OF m(2) n, of 5] by blast
  have "my_abs m' 0 \<noteq> None" by (simp add: m'(3) m(3))
  from myriad_deleteStream [OF m'(2) this, of 7] obtain m'' where
    "my_deleteStream 7 m' = Inr m''" "my_abs m'' = (my_abs m')(7 := None)" by auto
  moreover have "(my_abs m')(7 := None) = my_abs m" using n by (simp add: m'(3) fun_upd_idem)
  ultimately show ?thesis using m(1) m'(1) by metis
qed

text \<open>
  Resizing a stream through its stream object cuts it, or grows it keeping what it has; the
  other streams and the accounting are as before, and the position stays inside.
\<close>

theorem myriad_setSize:
  assumes "my_wf m" "my_abs m i = Some b" "- 2147483648 \<le> pos" "pos < 2147483648" "n < 2147483648"
  shows "\<exists>h m' b'. my_openStream i m = Inr h \<and>
    mh_setSize (mh_setPos h pos) (int n) m = Inr (mh_setPos h (min pos (int n)), m') \<and> my_wf m' \<and>
    my_abs m' = (my_abs m)(i \<mapsto> b') \<and> length b' = n \<and> take (min n (length b)) b' = take n b"
proof -
  obtain p where p: "p \<in> set (my_aStreams m)" "stm_iId (strm m p) = i"
    "my_openStream i m = Inr \<lparr>mh_pStream = p, mh_pCurBlock = None, mh_iPos = 0\<rparr>"
    "mh_bytes m \<lparr>mh_pStream = p, mh_pCurBlock = None, mh_iPos = 0\<rparr> = b"
    using my_open_ok [OF assms(1,2)] by blast
  have b: "my_bytes m p = b" using p(4) by (simp add: mh_bytes_def my_bytes_def mh_view_def [abs_def])
  obtain m' b' where m': "my_setStreamSize p n m = Inr m'" "my_wf m'" "my_change p b' m m'" "length b' = n"
    "take (min n (length b)) b' = take n b"
    using my_setStreamSize_change [OF assms(1) p(1), of n] unfolding b by blast
  have "my_abs m' = (my_abs m)(i \<mapsto> b')" using my_change_abs [OF assms(1) p(1) m'(3)] p(2) by simp
  with m' p(3) assms(3-5) show ?thesis
    by (intro exI [of _ "\<lparr>mh_pStream = p, mh_pCurBlock = None, mh_iPos = 0\<rparr>"] exI [of _ m'] exI [of _ b'])
      (simp add: mh_setSize_def mh_setPos_def min_def)
qed

theorem myriad_setSize_witness:
  "\<exists>m m' i h m'' b'. my_initialize 16 2 (my_new (fl_new []) 0) = Some (Inr m) \<and> my_createStream 1 m = Inr (i, m') \<and>
     my_openStream i m' = Inr h \<and> mh_setSize (mh_setPos h 50) 40 m' = Inr (mh_setPos h 40, m'') \<and>
     my_abs m'' = (my_abs m')(i \<mapsto> b') \<and> length b' = 40"
proof -
  obtain m m' i where m: "my_initialize 16 2 (my_new (fl_new []) 0) = Some (Inr m)" "my_createStream 1 m = Inr (i, m')"
    "my_wf m'" "my_abs m' i = Some []" using fresh16_stream by blast
  from myriad_setSize [OF m(3,4), of 50 40] m(1,2) show ?thesis by auto
qed

theorem myriad_write_witness:
  "\<exists>m m' i m''. my_initialize 16 2 (my_new (fl_new []) 0) = Some (Inr m) \<and> my_createStream 1 m = Inr (i, m') \<and>
     my_write_at i 0 [1, 2, 3] m' = Some (Inr (3, m'')) \<and> my_abs m'' = (my_abs m')(i \<mapsto> [1, 2, 3])"
proof -
  obtain m m' i where m: "my_initialize 16 2 (my_new (fl_new []) 0) = Some (Inr m)" "my_createStream 1 m = Inr (i, m')"
    "my_wf m'" "my_abs m' i = Some []" using fresh16_stream by blast
  from myriad_write [OF m(3,4), of 0 "[1, 2, 3]"] m(1,2) show ?thesis by (auto simp: overwrite_def)
qed

theorem myriad_read_witness:
  "\<exists>m b m'. my_initialize 16 2 (my_new (fl_new []) 0) = Some (Inr m) \<and> my_abs m 0 = Some b \<and>
     my_read_at 0 0 4 m = Some (Inr (take 4 b, m')) \<and> my_abs m' = my_abs m"
proof -
  obtain m b where m: "my_initialize 16 2 (my_new (fl_new []) 0) = Some (Inr m)" "my_wf m" "my_abs m = [0 \<mapsto> b]"
    using fresh16 by blast
  then have "my_abs m 0 = Some b" by simp
  from myriad_read [OF m(2) this, of 0 4] m(1) this show ?thesis by auto
qed

text \<open>
  \<open>createStreamWithId\<close> of an id in use does not report \<open>streamExists\<close>: it catches its own
  exception, returns normally, and leaves two streams of that id (unless it is the last id).
\<close>

lemma insert_by_id_dup:
  assumes "set ps \<subseteq> dom (my_streams m)" "\<exists>p \<in> set ps. i < stm_iId (strm m p)"
  shows "\<exists>as. insert_by_id m i p0 ps = Inr as \<and> mset as = add_mset p0 (mset ps)"
  using assms
proof (induction ps)
  case Nil
  then show ?case by simp
next
  case (Cons q qs)
  have "stream_at m q = Inr (strm m q)" using Cons.prems(1) by (auto simp: stream_at_def strm_def)
  with Cons show ?case by (cases "stm_iId (strm m q) > i") fastforce+
qed

theorem myriad_createStreamWithId_existing:
  assumes wf: "my_wf m" and i: "my_abs m i \<noteq> None" "my_abs m j \<noteq> None" "i < j"
  shows "\<exists>m'. my_createStreamWithId i 0 m = Inr (i, m') \<and>
    length (filter (\<lambda>k. k = i) (my_getStreamIds m')) = 2"
proof -
  note last = my_last_id_wf [OF wf]
  have ids: "i \<in> set (my_ids m)" "j \<in> set (my_ids m)" using i my_abs_None by (metis, metis)
  let ?s = "\<lparr>stm_iId = i, stm_iSize = 0, stm_aBlocks = []\<rparr>" and ?p = "my_next m"
  define m1 where "m1 = snd (new_stream ?s m)"
  have n: "new_stream ?s m = (?p, m1)" by (simp add: m1_def new_stream_def)
  have al: "my_alloc m" using wf by (rule my_wf_alloc)
  have fresh: "?p \<notin> set (my_aStreams m)" using al by (auto simp: my_alloc_def)
  have st: "strm m1 q = (if q = ?p then ?s else strm m q)" for q
    by (simp add: m1_def new_stream_def set_stream_def strm_def)
  have sm: "my_streams m1 = (my_streams m)(?p \<mapsto> ?s)" by (simp add: m1_def new_stream_def set_stream_def)
  have f1: "my_aStreams m1 = my_aStreams m" by (simp add: m1_def new_stream_def set_stream_def)
  have dom1: "set (my_aStreams m1) \<subseteq> dom (my_streams m1)" using al by (auto simp: my_alloc_def sm f1)
  have nl: "\<not> last (my_ids m) < i" using last ids i(3) by force
  obtain q where q: "q \<in> set (my_aStreams m)" "j = stm_iId (strm m q)" using ids(2) by (auto simp: my_ids_def)
  then have "q \<noteq> ?p" using fresh by auto
  then have "\<exists>p \<in> set (my_aStreams m1). i < stm_iId (strm m1 p)"
    using q i(3) by (intro bexI [of _ q]) (simp_all add: f1 st)
  from insert_by_id_dup [OF dom1 this, of ?p] obtain as where
    as: "insert_by_id m1 i ?p (my_aStreams m1) = Inr as" "mset as = add_mset ?p (mset (my_aStreams m))"
    by (auto simp: f1)
  define m' where "m' = m1\<lparr>my_aStreams := as, my_bHeaderChanged := True\<rparr>"
  obtain p where "p \<in> set (my_aStreams m)" "stm_iId (strm m p) = i" using ids(1) by (auto simp: my_ids_def)
  then have fs: "my_findStream i m = Inr p" using my_findStream_Inr [OF wf] by blast
  have eq: "my_createStreamWithId i 0 m = Inr (i, m')"
    using last nl n as(1) fs by (simp add: my_createStreamWithId_def my_createHandler_def m'_def)
  define g where "g p = (case my_streams m' p of None \<Rightarrow> 0 | Some s \<Rightarrow> stm_iId s)" for p
  have gi: "my_getStreamIds m' = map g as" by (simp add: my_getStreamIds_def g_def [abs_def] m'_def)
  have gm: "g q = stm_iId (strm m q)" if "q \<in> set (my_aStreams m)" for q
    using that fresh my_alloc_stream [OF al that] by (auto simp: g_def m'_def sm)
  have "mset (map g as) = add_mset i (mset (my_ids m))"
  proof -
    have "image_mset g (mset (my_aStreams m)) = mset (my_ids m)"
      unfolding my_ids_def mset_map by (rule image_mset_cong) (simp add: gm)
    moreover have "g ?p = i" by (simp add: g_def m'_def sm)
    ultimately show ?thesis by (simp add: as(2))
  qed
  then have "size (filter_mset (\<lambda>k. k = i) (mset (map g as))) = Suc (size (filter_mset (\<lambda>k. k = i) (mset (my_ids m))))"
    by simp
  moreover have "size (filter_mset (\<lambda>k. k = i) (mset (my_ids m))) = 1"
  proof -
    have "distinct (my_ids m)" using wf by (simp add: my_wf_def sorted_distinct)
    then have "count (mset (my_ids m)) i = 1" using ids(1) by (simp add: distinct_count_atmost_1)
    then show ?thesis by (simp add: filter_eq_replicate_mset)
  qed
  ultimately have "length (filter (\<lambda>k. k = i) (map g as)) = 2"
    by (metis Suc_1 mset_filter size_mset)
  with eq gi show ?thesis by simp
qed

theorem myriad_createStreamWithId_existing_witness:
  "\<exists>m i m' m''. my_initialize 16 2 (my_new (fl_new []) 0) = Some (Inr m) \<and> my_createStreamWithId 7 0 m = Inr (i, m') \<and>
     my_createStreamWithId 0 0 m' = Inr (0, m'') \<and> length (filter (\<lambda>k. k = 0) (my_getStreamIds m'')) = 2"
proof -
  obtain m b where m: "my_initialize 16 2 (my_new (fl_new []) 0) = Some (Inr m)" "my_wf m" "my_abs m = [0 \<mapsto> b]"
    using fresh16 by blast
  then have n: "my_abs m 7 = None" by simp
  obtain m' where m': "my_createStreamWithId 7 0 m = Inr (7, m')" "my_wf m'" "my_abs m' = (my_abs m)(7 \<mapsto> [])"
    using my_createStreamWithId_wf [OF m(2) n, of 0] by blast
  have "my_abs m' 0 \<noteq> None" "my_abs m' 7 \<noteq> None" by (simp_all add: m'(3) m(3))
  from myriad_createStreamWithId_existing [OF m'(2) this] m(1) m'(1) show ?thesis by auto
qed

text \<open>
  A write behind the end of a stream does not make the stream reach up to there: it reports
  success, but the stream grows by the number of bytes written, so that their end is cut off.
\<close>

theorem myriad_write_past_end:
  assumes "my_wf m" "my_abs m i = Some b" "length b < pos" "pos + length bytes < 2147483648"
  shows "\<exists>m' b'. my_write_at i (int pos) bytes m = Some (Inr (int (length bytes), m')) \<and> my_wf m' \<and>
    my_abs m' = (my_abs m)(i \<mapsto> b') \<and> length b' = length b + length bytes"
proof -
  obtain p where p: "p \<in> set (my_aStreams m)" "stm_iId (strm m p) = i"
    "my_openStream i m = Inr \<lparr>mh_pStream = p, mh_pCurBlock = None, mh_iPos = 0\<rparr>"
    "mh_ok m \<lparr>mh_pStream = p, mh_pCurBlock = None, mh_iPos = int pos\<rparr>"
    "mh_bytes m \<lparr>mh_pStream = p, mh_pCurBlock = None, mh_iPos = int pos\<rparr> = b"
    using my_open_ok [OF assms(1,2)] by blast
  define h where "h = mh_setPos \<lparr>mh_pStream = p, mh_pCurBlock = None, mh_iPos = 0\<rparr> (int pos)"
  have h: "mh_ok m h" "mh_bytes m h = b" "mh_iPos h = int pos" "mh_pStream h = p"
    unfolding h_def mh_setPos_def using p(4,5) assms(4) by simp_all
  obtain h' m' where w: "mh_write_loop bytes h m = Some (Inr (h', m'))" "mh_ok m' h'" "mh_keeps m h m' h'"
    "length (mh_bytes m' h') = length b + length bytes"
    using mh_write_loop_past [OF h(1,3), of bytes] assms(3,4) unfolding h(2) by auto
  obtain m2 where "mh_destroy h' m' = Inr m2" "my_wf m2" "my_abs m2 = (my_abs m)(i \<mapsto> mh_bytes m' h')"
    using mh_session [OF assms(1) p(1) h(4) w(2,3)] unfolding p(2) by blast
  with p(3) w(1,4) assms(4) show ?thesis by (auto simp: my_write_at_def mh_write_def h_def)
qed

theorem myriad_write_past_end_witness:
  "\<exists>m m' i m'' b'. my_initialize 16 2 (my_new (fl_new []) 0) = Some (Inr m) \<and> my_createStream 1 m = Inr (i, m') \<and>
     my_write_at i 20 [7, 8, 9] m' = Some (Inr (3, m'')) \<and> my_abs m'' i = Some b' \<and> length b' = 3"
proof -
  obtain m m' i where m: "my_initialize 16 2 (my_new (fl_new []) 0) = Some (Inr m)" "my_createStream 1 m = Inr (i, m')"
    "my_wf m'" "my_abs m' i = Some []" using fresh16_stream by blast
  from myriad_write_past_end [OF m(3,4), of 20 "[7, 8, 9]"] m(1,2) show ?thesis by fastforce
qed

end
