(* ===== verification/Bu_Bytes.thy ===== *)
theory Bu_Bytes
  imports Bu_Stream
begin

text \<open>
  Bytes in memory and the 32 bit words the digests and the ciphers make of them. A host is little
  or big endian (\<open>be\<close>); the code that reads a buffer through a \<open>uint32_t\<close> pointer sees the words
  of its host. The second part feeds a byte string to a function on blocks of 64 bytes, which is
  how both message digests are specified, with the padding they share.
\<close>

section \<open>Words in memory\<close>

lemma xor_cancel_left [simp]: "v XOR (v XOR x) = (x :: 'a::len word)"
  by (simp flip: xor.assoc)

lemma xor_left_eq: "v XOR x = v XOR y \<longleftrightarrow> x = (y :: 'a::len word)"
  by (metis xor_cancel_left)

lemma xor_right_eq: "x XOR v = y XOR v \<longleftrightarrow> x = (y :: 'a::len word)"
  using xor_left_eq [of v x y] by (simp add: xor.commute)

definition le_word :: "byte list \<Rightarrow> 32 word" where
  "le_word bs = ucast (bs ! 0) OR push_bit 8 (ucast (bs ! 1)) OR push_bit 16 (ucast (bs ! 2)) OR
     push_bit 24 (ucast (bs ! 3))"

definition le_bytes :: "32 word \<Rightarrow> byte list" where
  "le_bytes w = [ucast w, ucast (drop_bit 8 w), ucast (drop_bit 16 w), ucast (drop_bit 24 w)]"

definition be_word :: "byte list \<Rightarrow> 32 word" where
  "be_word bs = le_word (rev bs)"

definition be_bytes :: "32 word \<Rightarrow> byte list" where
  "be_bytes w = rev (le_bytes w)"

text \<open>A load and a store through a \<open>uint32_t\<close> pointer.\<close>

definition host_word :: "bool \<Rightarrow> byte list \<Rightarrow> 32 word" where
  "host_word be bs = (if be then be_word bs else le_word bs)"

definition host_bytes :: "bool \<Rightarrow> 32 word \<Rightarrow> byte list" where
  "host_bytes be w = (if be then be_bytes w else le_bytes w)"

definition rotl32 :: "nat \<Rightarrow> 32 word \<Rightarrow> 32 word" where
  "rotl32 s w = push_bit s w OR drop_bit (32 - s) w"

lemma length_le_bytes [simp]: "length (le_bytes w) = 4"
  by (simp add: le_bytes_def)

lemma length_be_bytes [simp]: "length (be_bytes w) = 4"
  by (simp add: be_bytes_def)

lemma length_host_bytes [simp]: "length (host_bytes be w) = 4"
  by (simp add: host_bytes_def)

lemma le_word_bytes [simp]: "le_word (le_bytes w) = w"
proof (rule bit_word_eqI)
  fix n assume "n < LENGTH(32)"
  then have "n < 32" by simp
  then consider "n < 8" | "8 \<le> n \<and> n < 16" | "16 \<le> n \<and> n < 24" | "24 \<le> n \<and> n < 32" by linarith
  then show "bit (le_word (le_bytes w)) n = bit w n"
    by cases (auto simp: le_word_def le_bytes_def bit_simps byte_bit_high)
qed

lemma le_bytes_word [simp]:
  assumes "length bs = 4"
  shows "le_bytes (le_word bs) = bs"
proof -
  obtain a b c d where bs: "bs = [a, b, c, d]"
    using assms by (auto simp: numeral_eq_Suc length_Suc_conv)
  have "ucast (le_word [a, b, c, d]) = a" "ucast (drop_bit 8 (le_word [a, b, c, d])) = b"
    "ucast (drop_bit 16 (le_word [a, b, c, d])) = c" "ucast (drop_bit 24 (le_word [a, b, c, d])) = d"
    by (rule bit_word_eqI, auto simp: le_word_def bit_simps byte_bit_high)+
  then show ?thesis unfolding bs le_bytes_def by simp
qed

lemma be_word_bytes [simp]: "be_word (be_bytes w) = w"
  by (simp add: be_word_def be_bytes_def)

lemma be_bytes_word [simp]: "length bs = 4 \<Longrightarrow> be_bytes (be_word bs) = bs"
  by (simp add: be_word_def be_bytes_def)

lemma host_word_bytes [simp]: "host_word be (host_bytes be w) = w"
  by (simp add: host_word_def host_bytes_def)

lemma host_bytes_word [simp]: "length bs = 4 \<Longrightarrow> host_bytes be (host_word be bs) = bs"
  by (simp add: host_word_def host_bytes_def)

text \<open>The words of a whole buffer.\<close>

definition words_of :: "(byte list \<Rightarrow> 32 word) \<Rightarrow> nat \<Rightarrow> byte list \<Rightarrow> 32 word list" where
  "words_of f n bs = map (\<lambda>i. f (piece 4 bs i)) [0..<n]"

lemma piece_concat:
  assumes "\<forall>b \<in> set bss. length b = n" "i < length bss"
  shows "piece n (concat bss @ ys) i = bss ! i"
proof -
  have t: "bss = take i bss @ bss ! i # drop (Suc i) bss" using assms(2) by (rule id_take_nth_drop)
  have l: "length (concat (take i bss)) = i * n"
    using assms length_concat_blocks [of "take i bss" n] by (auto dest: in_set_takeD)
  have b: "length (bss ! i) = n" using assms by simp
  have c: "concat bss = concat (take i bss) @ bss ! i @ concat (drop (Suc i) bss)"
    by (subst t) (simp del: append_take_drop_id)
  show ?thesis by (simp add: piece_def c l b)
qed

lemma words_of_concat:
  assumes "length ws = n" "\<And>w. length (g w) = 4" "\<And>w. f (g w) = w"
  shows "words_of f n (concat (map g ws) @ ys) = ws"
proof (rule nth_equalityI)
  show "length (words_of f n (concat (map g ws) @ ys)) = length ws" by (simp add: words_of_def assms(1))
next
  fix i assume "i < length (words_of f n (concat (map g ws) @ ys))"
  then have i: "i < length ws" by (simp add: words_of_def assms(1))
  then show "words_of f n (concat (map g ws) @ ys) ! i = ws ! i"
    using piece_concat [of "map g ws" 4 i ys] assms by (simp add: words_of_def)
qed

section \<open>Blocks of a message\<close>

function absorb :: "('s \<Rightarrow> byte list \<Rightarrow> 's) \<Rightarrow> 's \<Rightarrow> byte list \<Rightarrow> 's \<times> byte list" where
  "absorb cmp s xs = (if length xs < 64 then (s, xs) else absorb cmp (cmp s (take 64 xs)) (drop 64 xs))"
  by pat_completeness auto
termination by (relation "measure (\<lambda>(cmp, s, xs). length xs)") auto

declare absorb.simps [simp del]

lemma absorb_short [simp]: "length xs < 64 \<Longrightarrow> absorb cmp s xs = (s, xs)"
  by (simp add: absorb.simps)

lemma absorb_block: "length b = 64 \<Longrightarrow> absorb cmp s (b @ xs) = absorb cmp (cmp s b) xs"
  by (simp add: absorb.simps [of cmp s "b @ xs"])

lemma absorb_append:
  "absorb cmp s (xs @ ys) = absorb cmp (fst (absorb cmp s xs)) (snd (absorb cmp s xs) @ ys)"
proof (induction cmp s xs rule: absorb.induct)
  case (1 cmp s xs)
  show ?case
  proof (cases "length xs < 64")
    case True
    then show ?thesis by simp
  next
    case False
    then have "absorb cmp s (xs @ ys) = absorb cmp (cmp s (take 64 xs)) (drop 64 xs @ ys)"
      by (simp add: absorb.simps [of cmp s "xs @ ys"])
    with 1 [OF False] False show ?thesis by (simp add: absorb.simps [of cmp s xs])
  qed
qed

lemma absorb_rest: "length (snd (absorb cmp s xs)) = length xs mod 64"
proof (induction cmp s xs rule: absorb.induct)
  case (1 cmp s xs)
  then show ?case by (cases "length xs < 64") (auto simp: absorb.simps [of cmp s xs] le_mod_geq not_less)
qed

lemma absorb_cong:
  assumes "\<And>s b. length b = 64 \<Longrightarrow> f s b = g s b"
  shows "absorb f s xs = absorb g s xs"
  using assms
proof (induction g s xs rule: absorb.induct)
  case (1 g s xs)
  then show ?case by (cases "length xs < 64") (simp_all add: absorb.simps [of _ s xs] assms)
qed

text \<open>
  Padding: one bit, zeros up to eight bytes before the end of a block, and the length of the
  message in bits in eight bytes.
\<close>

definition md_zeros :: "nat \<Rightarrow> nat" where
  "md_zeros n = nat ((55 - int n) mod 64)"

definition md_pad :: "(nat \<Rightarrow> byte list) \<Rightarrow> byte list \<Rightarrow> byte list" where
  "md_pad enc xs = xs @ [0x80] @ replicate (md_zeros (length xs)) 0 @ enc (8 * length xs)"

lemma md_zeros_cases:
  "n mod 64 < 56 \<Longrightarrow> md_zeros n = 55 - n mod 64"
  "56 \<le> n mod 64 \<Longrightarrow> md_zeros n = 119 - n mod 64"
proof -
  have e: "(55 - int n) mod 64 = (55 - int (n mod 64)) mod 64"
    by (metis mod_diff_right_eq of_nat_mod of_nat_numeral)
  have m: "n mod 64 < 64" by simp
  show "n mod 64 < 56 \<Longrightarrow> md_zeros n = 55 - n mod 64"
    unfolding md_zeros_def e by (subst mod_pos_pos_trivial) (auto simp: nat_diff_distrib)
  show "56 \<le> n mod 64 \<Longrightarrow> md_zeros n = 119 - n mod 64"
  proof -
    assume a: "56 \<le> n mod 64"
    have "(55 - int (n mod 64)) mod 64 = (119 - int (n mod 64)) mod 64"
      using mod_add_self2 [of "55 - int (n mod 64)" 64] by simp
    also have "\<dots> = 119 - int (n mod 64)" using a m by (intro mod_pos_pos_trivial) linarith+
    finally show ?thesis unfolding md_zeros_def e using m by simp
  qed
qed

end
