(* ===== verification/Bu_BitString.thy ===== *)
theory Bu_BitString
  imports Bu_Prelude
begin

text \<open>
  \<open>Bu::BitString\<close> (\<open>src/unstable/bitstring.cpp\<close>): a string of bits in an array of bytes. The array
  is absent in a default-constructed object. What newly allocated memory holds is a parameter
  (\<open>fresh\<close>), and so are the random bytes. A \<open>long\<close> is an unbounded integer of eight bytes.
\<close>

section \<open>State\<close>

record bit_string =
  bs_caData :: "byte list option"
  bs_iBits :: int
  bs_iBytes :: int
  bs_cTopByteMask :: byte

definition bitsToBytes :: "int \<Rightarrow> int" where
  "bitsToBytes iBits = c_div iBits 8 + (if c_rem iBits 8 \<noteq> 0 then 1 else 0)"

definition bs_empty :: bit_string where
  "bs_empty = \<lparr>bs_caData = None, bs_iBits = 0, bs_iBytes = 0, bs_cTopByteMask = 0\<rparr>"

definition bs_data :: "bit_string \<Rightarrow> byte list result" where
  "bs_data b = (case bs_caData b of None \<Rightarrow> Inl Out_Of_Bounds | Some d \<Rightarrow> Inr d)"

definition bs_alloc :: "(nat \<Rightarrow> byte) \<Rightarrow> int \<Rightarrow> byte list" where
  "bs_alloc fresh n = map fresh [0..<nat n]"

definition bs_fixup :: "bit_string \<Rightarrow> bit_string result" where
  "bs_fixup b =
     (case bs_caData b of None \<Rightarrow> Inr b
      | Some d \<Rightarrow> rbind (arr_get d (bs_iBytes b - 1)) (\<lambda>x.
          rbind (arr_set d (bs_iBytes b - 1) (x AND bs_cTopByteMask b)) (\<lambda>d'. Inr (b\<lparr>bs_caData := Some d'\<rparr>))))"

definition bs_setMask :: "bit_string \<Rightarrow> bit_string" where
  "bs_setMask b =
     (if c_rem (bs_iBits b) 8 = 0 then b\<lparr>bs_cTopByteMask := 0xFF\<rparr>
      else b\<lparr>bs_cTopByteMask := foldl (\<lambda>m j. m OR push_bit j 1) 0 [0..<nat (c_rem (bs_iBits b) 8)]\<rparr>)"

definition bs_clear :: "bit_string \<Rightarrow> bit_string" where
  "bs_clear b =
     (case bs_caData b of None \<Rightarrow> b
      | Some d \<Rightarrow> b\<lparr>bs_caData := Some (replicate (nat (bs_iBytes b)) 0 @ drop (nat (bs_iBytes b)) d)\<rparr>)"

definition bs_new :: "(nat \<Rightarrow> byte) \<Rightarrow> (nat \<Rightarrow> byte) \<Rightarrow> int \<Rightarrow> bool \<Rightarrow> bit_string result" where
  "bs_new fresh rand iNewBits bFillRandomly =
     (let n = bitsToBytes iNewBits;
          b = bs_setMask \<lparr>bs_caData = Some (bs_alloc fresh n), bs_iBits = iNewBits, bs_iBytes = n, bs_cTopByteMask = 0\<rparr>
      in bs_fixup (if bFillRandomly then b\<lparr>bs_caData := Some (map rand [0..<nat n])\<rparr> else bs_clear b))"

text \<open>The copy constructor, and the assignment operator, which do the same.\<close>

definition bs_copy :: "bit_string \<Rightarrow> bit_string result" where
  "bs_copy xSrc =
     bs_fixup (xSrc\<lparr>bs_caData := Some (case bs_caData xSrc of None \<Rightarrow> [] | Some d \<Rightarrow> take (nat (bs_iBytes xSrc)) d)\<rparr>)"

definition bs_not :: "bit_string \<Rightarrow> bit_string result" where
  "bs_not b = rbind (bs_copy b) (\<lambda>r. bs_fixup (r\<lparr>bs_caData := map_option (map (\<lambda>x. NOT x)) (bs_caData r)\<rparr>))"

section \<open>Single bits\<close>

definition bs_setBit :: "bit_string \<Rightarrow> int \<Rightarrow> bool \<Rightarrow> bit_string result" where
  "bs_setBit b iBit bBitState =
     (if iBit < 0 \<or> iBit \<ge> bs_iBits b then Inl (ExceptionBase ''bit out of range'')
      else rbind (bs_data b) (\<lambda>d. rbind (arr_get d (iBit div 8)) (\<lambda>x.
        let m = push_bit (nat (iBit mod 8)) 1 in
        rbind (arr_set d (iBit div 8) (if bBitState then x OR m else x AND NOT m)) (\<lambda>d'.
          Inr (b\<lparr>bs_caData := Some d'\<rparr>)))))"

definition bs_flipBit :: "bit_string \<Rightarrow> int \<Rightarrow> bit_string result" where
  "bs_flipBit b iBit =
     (if c_rem iBit 8 < 0 then Inl Out_Of_Bounds
      else rbind (bs_data b) (\<lambda>d. rbind (arr_get d (c_div iBit 8)) (\<lambda>x.
        rbind (arr_set d (c_div iBit 8) (x XOR push_bit (nat (c_rem iBit 8)) 1)) (\<lambda>d'.
          Inr (b\<lparr>bs_caData := Some d'\<rparr>)))))"

definition bs_getBit :: "bit_string \<Rightarrow> int \<Rightarrow> bool result" where
  "bs_getBit b iBit =
     (if iBit \<ge> bs_iBits b \<or> iBit < 0 then Inr False
      else rbind (bs_data b) (\<lambda>d. rbind (arr_get d (iBit div 8)) (\<lambda>x.
        Inr (x AND push_bit (nat (iBit mod 8)) 1 \<noteq> 0))))"

definition bs_getSize :: "bit_string \<Rightarrow> int" where
  "bs_getSize b = bs_iBits b"

definition bs_invert :: "bit_string \<Rightarrow> bit_string result" where
  "bs_invert b =
     (case bs_caData b of None \<Rightarrow> Inr b
      | Some d \<Rightarrow> bs_fixup (b\<lparr>bs_caData := Some (map (\<lambda>x. NOT x) d)\<rparr>))"

definition bs_randomize :: "(nat \<Rightarrow> byte) \<Rightarrow> bit_string \<Rightarrow> bit_string result" where
  "bs_randomize rand b =
     (case bs_caData b of None \<Rightarrow> Inr b
      | Some d \<Rightarrow> bs_fixup (b\<lparr>bs_caData := Some (map rand [0..<length d])\<rparr>))"

fun bs_highest :: "bit_string \<Rightarrow> nat \<Rightarrow> int result" where
  "bs_highest b 0 = Inr (- 1)"
| "bs_highest b (Suc j) = rbind (bs_getBit b (int j)) (\<lambda>x. if x then Inr (int j) else bs_highest b j)"

definition bs_getHighestOrderBitPos :: "bit_string \<Rightarrow> int result" where
  "bs_getHighestOrderBitPos b = bs_highest b (nat (bs_iBits b))"

fun bs_digits :: "bit_string \<Rightarrow> nat \<Rightarrow> string result" where
  "bs_digits b 0 = Inr []"
| "bs_digits b (Suc j) = rbind (bs_getBit b (int j)) (\<lambda>x.
     rbind (bs_digits b j) (\<lambda>cs. Inr ((if x then CHR ''1'' else CHR ''0'') # cs)))"

definition bs_toString :: "bit_string \<Rightarrow> string result" where
  "bs_toString b = bs_digits b (nat (bs_iBits b))"

section \<open>Shifting\<close>

text \<open>The loop of \<open>shiftLeft\<close>, from the last byte down; a byte before the first one counts as zero.\<close>

definition bs_byte_or_0 :: "byte list \<Rightarrow> int \<Rightarrow> byte result" where
  "bs_byte_or_0 d i = (if i < 0 then Inr 0 else arr_get d i)"

fun bs_shl_loop :: "int \<Rightarrow> nat \<Rightarrow> nat \<Rightarrow> byte list \<Rightarrow> byte list result" where
  "bs_shl_loop iByteShift iBitShift 0 d = Inr d"
| "bs_shl_loop iByteShift iBitShift (Suc j) d =
     rbind (bs_byte_or_0 d (int j - iByteShift)) (\<lambda>x. rbind (bs_byte_or_0 d (int j - iByteShift - 1)) (\<lambda>y.
     rbind (arr_set d (int j) (push_bit iBitShift x OR drop_bit (8 - iBitShift) y)) (\<lambda>d'.
       bs_shl_loop iByteShift iBitShift j d')))"

text \<open>
  The loop of \<open>shiftRight\<close>, from the first byte up: an index that is greater than \<open>iBytes\<close> counts as
  zero, the index \<open>iBytes\<close> does not.
\<close>

definition bs_byte_upto :: "byte list \<Rightarrow> int \<Rightarrow> int \<Rightarrow> byte result" where
  "bs_byte_upto d iBytes i = (if i > iBytes then Inr 0 else arr_get d i)"

fun bs_shr_loop :: "int \<Rightarrow> nat \<Rightarrow> int \<Rightarrow> nat list \<Rightarrow> byte list \<Rightarrow> byte list result" where
  "bs_shr_loop iByteShift iBitShift iBytes [] d = Inr d"
| "bs_shr_loop iByteShift iBitShift iBytes (j # js) d =
     rbind (bs_byte_upto d iBytes (int j + iByteShift)) (\<lambda>x. rbind (bs_byte_upto d iBytes (int j + iByteShift + 1)) (\<lambda>y.
     rbind (arr_set d (int j) (drop_bit iBitShift x OR push_bit (8 - iBitShift) y)) (\<lambda>d'.
       bs_shr_loop iByteShift iBitShift iBytes js d')))"

definition bs_shift_up :: "bit_string \<Rightarrow> int \<Rightarrow> bit_string result" where
  "bs_shift_up b iAmt =
     rbind (if bs_iBytes b \<le> 0 then Inr (bs_caData b)
            else rbind (bs_data b) (\<lambda>d.
                 rbind (bs_shl_loop (iAmt div 8) (nat (iAmt mod 8)) (nat (bs_iBytes b)) d) (\<lambda>d'. Inr (Some d')))) (\<lambda>c.
       bs_fixup (b\<lparr>bs_caData := c\<rparr>))"

definition bs_shift_down :: "bit_string \<Rightarrow> int \<Rightarrow> bit_string result" where
  "bs_shift_down b iAmt =
     rbind (if bs_iBytes b \<le> 0 then Inr (bs_caData b)
            else rbind (bs_data b) (\<lambda>d.
                 rbind (bs_shr_loop (iAmt div 8) (nat (iAmt mod 8)) (bs_iBytes b) [0..<nat (bs_iBytes b)] d) (\<lambda>d'.
                   Inr (Some d')))) (\<lambda>c.
       bs_fixup (b\<lparr>bs_caData := c\<rparr>))"

definition bs_shiftLeft :: "bit_string \<Rightarrow> int \<Rightarrow> bit_string result" where
  "bs_shiftLeft b iAmt =
     (if iAmt = 0 then Inr b else if iAmt < 0 then bs_shift_down b (- iAmt) else bs_shift_up b iAmt)"

definition bs_shiftRight :: "bit_string \<Rightarrow> int \<Rightarrow> bit_string result" where
  "bs_shiftRight b iAmt =
     (if iAmt = 0 then Inr b else if iAmt < 0 then bs_shift_up b (- iAmt) else bs_shift_down b iAmt)"

text \<open>
  The bytes of \<open>operator<<\<close> and of \<open>getSubString\<close>: byte \<open>r\<close> and the next one of this string, moved down
  by \<open>shft\<close> bits, go to byte \<open>w\<close> of the new one.
\<close>

fun bs_sub_loop :: "nat \<Rightarrow> (int \<times> int) list \<Rightarrow> byte list \<Rightarrow> byte list \<Rightarrow> byte list result" where
  "bs_sub_loop shft [] src d = Inr d"
| "bs_sub_loop shft ((r, w) # js) src d =
     rbind (arr_get src r) (\<lambda>x. rbind (arr_get src (r + 1)) (\<lambda>y.
       let lowmask = foldl (\<lambda>m j. m OR push_bit j 1) 0 [0..<8 - shft] in
       rbind (arr_set d w (drop_bit shft x AND lowmask OR push_bit (8 - shft) y AND NOT lowmask)) (\<lambda>d'.
         bs_sub_loop shft js src d')))"

definition bs_shl_op :: "(nat \<Rightarrow> byte) \<Rightarrow> bit_string \<Rightarrow> int \<Rightarrow> bit_string result" where
  "bs_shl_op fresh b iAmt =
     (if iAmt = 0 then bs_copy b
      else rbind (bs_new fresh fresh (bs_iBits b) False) (\<lambda>xSub.
        if c_rem iAmt 8 < 0 then Inl Out_Of_Bounds
        else rbind (bs_data b) (\<lambda>src. rbind (bs_data xSub) (\<lambda>d.
          rbind (bs_sub_loop (nat (c_rem iAmt 8))
                   (map (\<lambda>j. (int j, c_div iAmt 8 + int j)) [0..<nat (bs_iBytes xSub)]) src d) (\<lambda>d'.
            bs_fixup (xSub\<lparr>bs_caData := Some d'\<rparr>))))))"

definition bs_shr_op :: "bit_string \<Rightarrow> int \<Rightarrow> bit_string result" where
  "bs_shr_op b iAmt = bs_copy b"

definition bs_getSubString :: "(nat \<Rightarrow> byte) \<Rightarrow> bit_string \<Rightarrow> int \<Rightarrow> int \<Rightarrow> bit_string result" where
  "bs_getSubString fresh b iLower iUpper =
     (let iUpper' = (if iUpper = 0 \<or> iUpper < iLower then bs_iBits b else iUpper)
      in rbind (bs_new fresh fresh (iUpper' - iLower + 1) False) (\<lambda>xSub.
        if c_rem iLower 8 < 0 then Inl Out_Of_Bounds
        else rbind (bs_data b) (\<lambda>src. rbind (bs_data xSub) (\<lambda>d.
          rbind (bs_sub_loop (nat (c_rem iLower 8))
                   (map (\<lambda>j. (c_div iLower 8 + int j, int j)) [0..<nat (bs_iBytes xSub)]) src d) (\<lambda>d'.
            bs_fixup (xSub\<lparr>bs_caData := Some d'\<rparr>))))))"

text \<open>\<open>toLong\<close> reads eight bytes, the size of a \<open>long\<close>, from the array of the sub string.\<close>

definition bs_toLong :: "(nat \<Rightarrow> byte) \<Rightarrow> bit_string \<Rightarrow> int \<Rightarrow> int \<Rightarrow> int result" where
  "bs_toLong fresh b iStart iSize =
     (let iSize1 = (if iSize < 1 then 1 else iSize); iSize2 = (if iSize1 > 32 then 32 else iSize1) in
      if iStart < 0 then Inr 0
      else if iStart + iSize2 > bs_iBits b then Inr 0
      else rbind (bs_getSubString fresh b iStart (iStart + iSize2 - 1)) (\<lambda>s.
        rbind (bs_copy s) (\<lambda>tmpo. rbind (bs_data tmpo) (\<lambda>d.
          if length d < 8 then Inl Out_Of_Bounds
          else Inr (sint (word_of_int (foldr (\<lambda>x n. uint x + 256 * n) (take 8 d) 0) :: 64 word))))))"

section \<open>Resizing\<close>

definition bs_setSize :: "(nat \<Rightarrow> byte) \<Rightarrow> bit_string \<Rightarrow> int \<Rightarrow> bool \<Rightarrow> bit_string" where
  "bs_setSize fresh b iLength bClear =
     (case bs_caData b of
        None \<Rightarrow> b\<lparr>bs_iBits := iLength, bs_iBytes := bitsToBytes iLength,
                 bs_caData := Some (replicate (nat (bitsToBytes iLength)) 0)\<rparr>
      | Some d \<Rightarrow>
          (if bs_iBits b \<noteq> iLength
           then let n = bitsToBytes iLength in
             if bs_iBytes b = n
             then let b1 = bs_setMask (b\<lparr>bs_iBits := iLength\<rparr>) in if bClear then bs_clear b1 else b1
             else bs_setMask (b\<lparr>bs_iBits := iLength, bs_iBytes := n,
                    bs_caData := Some (if bClear then replicate (nat n) 0
                      else take (nat n) (take (nat (bs_iBytes b)) d) @
                        drop (min (nat n) (nat (bs_iBytes b))) (bs_alloc fresh n))\<rparr>)
           else if bClear then bs_clear b else b))"

section \<open>The bits of a string\<close>

definition bs_bit :: "byte list \<Rightarrow> nat \<Rightarrow> bool" where
  "bs_bit d i = bit (d ! (i div 8)) (i mod 8)"

definition bs_bits :: "bit_string \<Rightarrow> bool list" where
  "bs_bits b = map (bs_bit (the (bs_caData b))) [0..<nat (bs_iBits b)]"

definition bs_top :: "nat \<Rightarrow> nat" where
  "bs_top n = (if n mod 8 = 0 then 8 else n mod 8)"

text \<open>The array has the bytes the bits need, the mask is that of the last byte.\<close>

definition bs_shape :: "bit_string \<Rightarrow> byte list \<Rightarrow> nat \<Rightarrow> bool" where
  "bs_shape b d n \<longleftrightarrow>
     bs_caData b = Some d \<and> bs_iBits b = int n \<and> 0 < n \<and> length d = (n + 7) div 8 \<and>
     bs_iBytes b = int (length d) \<and> bs_cTopByteMask b = mask (bs_top n)"

text \<open>A well-formed string: besides, the bits of the last byte behind the end are zero.\<close>

definition bs_wf :: "bit_string \<Rightarrow> bool" where
  "bs_wf b \<longleftrightarrow> (\<exists>d n. bs_shape b d n \<and> (\<forall>i. n \<le> i \<and> i < 8 * length d \<longrightarrow> \<not> bs_bit d i))"

lemma bs_bits_shape: "bs_shape b d n \<Longrightarrow> bs_bits b = map (bs_bit d) [0..<n]"
  by (simp add: bs_bits_def bs_shape_def)

lemma bs_length_bits: "bs_shape b d n \<Longrightarrow> length (bs_bits b) = n"
  by (simp add: bs_bits_shape)

lemma bitsToBytes_nat: "bitsToBytes (int n) = int ((n + 7) div 8)"
proof -
  have "bitsToBytes (int n) = int (n div 8 + (if n mod 8 \<noteq> 0 then 1 else 0))"
    using c_div_int [of n 8] c_rem_int [of 8 n] by (auto simp: bitsToBytes_def)
  moreover have "n div 8 + (if n mod 8 \<noteq> 0 then 1 else 0) = (n + 7) div 8" by presburger
  ultimately show ?thesis by simp
qed

lemma bs_foldl_mask: "foldl (\<lambda>m j. m OR push_bit j 1) (0 :: byte) [0..<k] = mask k"
  by (induction k) (auto intro!: bit_word_eqI simp: bit_simps less_Suc_eq)

lemma byte_mask_8: "(mask 8 :: byte) = 0xFF"
  by (simp add: mask_eq_exp_minus_1)

lemma bs_setMask_int:
  "bs_iBits b = int n \<Longrightarrow> bs_setMask b = b\<lparr>bs_cTopByteMask := mask (bs_top n)\<rparr>"
  using c_rem_int [of 8 n] by (auto simp: bs_setMask_def bs_top_def bs_foldl_mask byte_mask_8 simp del: push_bit_of_1)

lemma bs_fixup_shape:
  assumes "bs_shape b d n"
  shows "\<exists>b'. bs_fixup b = Inr b' \<and> bs_wf b' \<and> bs_bits b' = bs_bits b"
proof -
  let ?l = "length d - 1"
  have s: "bs_caData b = Some d" "bs_iBits b = int n" "0 < n" "length d = (n + 7) div 8" "bs_iBytes b = int (length d)"
    "bs_cTopByteMask b = mask (bs_top n)" using assms by (simp_all add: bs_shape_def)
  have l: "?l < length d" "int (length d) - 1 = int ?l" using s(3,4) by (simp_all add: of_nat_diff)
  define d' where "d' = d[?l := d ! ?l AND mask (bs_top n)]"
  have f: "bs_fixup b = Inr (b\<lparr>bs_caData := Some d'\<rparr>)"
    using arr_get_in [OF l(1)] arr_set_in [OF l(1)] by (simp only: bs_fixup_def s(1,5,6) d'_def option.case l(2) rbind_Inr)
  have sh: "bs_shape (b\<lparr>bs_caData := Some d'\<rparr>) d' n" using s by (simp add: bs_shape_def d'_def)
  have bit': "bs_bit d' i = (bs_bit d i \<and> (i div 8 = ?l \<longrightarrow> i mod 8 < bs_top n))" if "i < 8 * length d" for i
  proof -
    have "i div 8 < length d" using that by (simp add: less_mult_imp_div_less mult.commute)
    then show ?thesis using l(1) by (auto simp: bs_bit_def d'_def nth_list_update bit_simps bs_top_def)
  qed
  have n: "8 * length d = n + (8 - bs_top n)" "n = 8 * ?l + bs_top n"
  proof -
    have q: "n = 8 * (n div 8) + n mod 8" "n mod 8 < 8" by simp_all
    have r: "length d = n div 8 + (if n mod 8 = 0 then 0 else 1)" unfolding s(4) by presburger
    show "8 * length d = n + (8 - bs_top n)"
    proof (cases "n mod 8 = 0")
      case False
      then have "bs_top n = n mod 8" "length d = n div 8 + 1" by (simp_all add: r bs_top_def)
      then show ?thesis using q by linarith
    next
      case True
      then have "bs_top n = 8" "length d = n div 8" by (simp_all add: r bs_top_def)
      then show ?thesis using q True by linarith
    qed
    show "n = 8 * ?l + bs_top n"
      using q s(3) by (cases "n mod 8 = 0") (simp_all add: r bs_top_def)
  qed
  have "bs_bit d' i = bs_bit d i" if "i < n" for i
  proof -
    have q: "i = 8 * (i div 8) + i mod 8" by simp
    have "i div 8 = ?l \<longrightarrow> i mod 8 < bs_top n"
    proof
      assume "i div 8 = ?l"
      with q that n(2) show "i mod 8 < bs_top n" by linarith
    qed
    with bit' [of i] that n(1) show ?thesis by simp
  qed
  then have "bs_bits (b\<lparr>bs_caData := Some d'\<rparr>) = bs_bits b"
    by (simp add: bs_bits_shape [OF sh] bs_bits_shape [OF assms])
  moreover have "\<not> bs_bit d' i" if "n \<le> i" "i < 8 * length d'" for i
  proof -
    have "i < 8 * length d" using that(2) by (simp add: d'_def)
    moreover have "i div 8 = ?l \<and> \<not> i mod 8 < bs_top n"
    proof -
      have q: "i = 8 * (i div 8) + i mod 8" "i mod 8 < 8" by simp_all
      have t: "0 < bs_top n" by (simp add: bs_top_def)
      have "length d = ?l + 1" using l(1) by simp
      then have i: "i < 8 * ?l + 8" using \<open>i < 8 * length d\<close> by linarith
      have "i div 8 = ?l" using q i t that(1) n(2) by linarith
      with q that(1) n(2) show ?thesis by linarith
    qed
    ultimately show ?thesis using bit' by blast
  qed
  then have "bs_wf (b\<lparr>bs_caData := Some d'\<rparr>)" using sh unfolding bs_wf_def by blast
  ultimately show ?thesis using f by blast
qed

lemma bs_getBit_wf:
  assumes "bs_shape b d n" "i < n"
  shows "bs_getBit b (int i) = Inr (bs_bits b ! i)"
proof -
  have "i div 8 < length d" using assms by (simp add: bs_shape_def)
  then have "arr_get d (int i div 8) = Inr (d ! (i div 8))" using arr_get_in [of "i div 8" d] by (simp add: of_nat_div)
  then show ?thesis
    using assms by (simp add: bs_getBit_def bs_data_def bs_shape_def bs_bits_def bs_bit_def nat_mod_distrib
        bit_iff_and_push_bit_not_eq_0)
qed

section \<open>The operations on bits\<close>

lemma byte_index: "i < n \<Longrightarrow> i div 8 < (n + 7) div (8 :: nat)"
  using div_le_mono [of "i + 8" "n + 7" 8] by simp

lemma byte_room: "n \<le> 8 * ((n + 7) div (8 :: nat))"
proof -
  have "n + 7 = 8 * ((n + 7) div 8) + (n + 7) mod 8" "(n + 7) mod 8 < 8" by simp_all
  then show ?thesis by linarith
qed

lemma byte_split: "b < 8 \<Longrightarrow> (8 * a + b) div 8 = (a :: nat)" "b < 8 \<Longrightarrow> (8 * a + b) mod 8 = (b :: nat)"
  by simp_all

lemma bs_new_bits:
  assumes "0 < n"
  shows "\<exists>b. bs_new fresh rand (int n) False = Inr b \<and> bs_wf b \<and> bs_bits b = replicate n False"
proof -
  let ?l = "(n + 7) div 8"
  define b where "b = \<lparr>bs_caData = Some (replicate ?l 0), bs_iBits = int n, bs_iBytes = int ?l,
    bs_cTopByteMask = mask (bs_top n)\<rparr>"
  have "bs_shape b (replicate ?l 0) n" using assms by (simp add: bs_shape_def b_def)
  note sh = this
  have "bs_bit (replicate ?l 0) i = False" if "i < n" for i
  proof -
    have "i div 8 < ?l" using that by (rule byte_index)
    then show ?thesis by (simp add: bs_bit_def)
  qed
  then have "bs_bits b = replicate n False"
    by (simp add: bs_bits_shape [OF sh] list_eq_iff_nth_eq)
  moreover have "bs_new fresh rand (int n) False = bs_fixup b"
    using bs_setMask_int [of "\<lparr>bs_caData = Some (bs_alloc fresh (int ?l)), bs_iBits = int n, bs_iBytes = int ?l, bs_cTopByteMask = 0\<rparr>" n]
    by (simp add: bs_new_def bitsToBytes_nat Let_def bs_clear_def bs_alloc_def b_def)
  ultimately show ?thesis using bs_fixup_shape [OF sh] by metis
qed

lemma bs_wf_set:
  assumes "bs_shape b d n" "\<forall>i. n \<le> i \<and> i < 8 * length d \<longrightarrow> \<not> bs_bit d i" "i < n"
    "length d' = length d" "\<forall>j < 8 * length d. bs_bit d' j = (if j = i then x else bs_bit d j)"
  shows "bs_wf (b\<lparr>bs_caData := Some d'\<rparr>) \<and> bs_bits (b\<lparr>bs_caData := Some d'\<rparr>) = (bs_bits b)[i := x]"
proof -
  have sh: "bs_shape (b\<lparr>bs_caData := Some d'\<rparr>) d' n" using assms(1,4) by (simp add: bs_shape_def)
  have n: "n \<le> 8 * length d"
  proof -
    have "length d = (n + 7) div 8" using assms(1) by (simp add: bs_shape_def)
    then show ?thesis using byte_room [of n] by simp
  qed
  have "bs_wf (b\<lparr>bs_caData := Some d'\<rparr>)"
    unfolding bs_wf_def using sh assms(2-5) by (intro exI [of _ d'] exI [of _ n]) auto
  moreover have "bs_bits (b\<lparr>bs_caData := Some d'\<rparr>) = (bs_bits b)[i := x]"
    unfolding bs_bits_shape [OF sh] bs_bits_shape [OF assms(1)]
    using assms(3,5) n by (intro nth_equalityI) (auto simp: nth_list_update)
  ultimately show ?thesis by blast
qed

lemma bs_byte_update:
  assumes "i < 8 * length d" "\<forall>k < 8. bit y k = (if k = i mod 8 then x else bit (d ! (i div 8)) k)"
  shows "\<forall>j < 8 * length d. bs_bit (d[i div 8 := y]) j = (if j = i then x else bs_bit d j)"
proof (intro allI impI)
  fix j assume j: "j < 8 * length d"
  then have "j div 8 < length d" by (simp add: less_mult_imp_div_less mult.commute)
  moreover have "j = i \<longleftrightarrow> j div 8 = i div 8 \<and> j mod 8 = i mod 8" by (metis div_mult_mod_eq)
  ultimately show "bs_bit (d[i div 8 := y]) j = (if j = i then x else bs_bit d j)"
    using assms(2) by (cases "j div 8 = i div 8") (auto simp: bs_bit_def)
qed

lemma bs_setBit_wf:
  assumes wf: "bs_wf b" and i: "i < length (bs_bits b)"
  shows "\<exists>b'. bs_setBit b (int i) x = Inr b' \<and> bs_wf b' \<and> bs_bits b' = (bs_bits b)[i := x]"
proof -
  obtain d n where sh: "bs_shape b d n" and z: "\<forall>i. n \<le> i \<and> i < 8 * length d \<longrightarrow> \<not> bs_bit d i"
    using wf unfolding bs_wf_def by blast
  have n: "i < n" using i by (simp add: bs_length_bits [OF sh])
  have l: "length d = (n + 7) div 8" using sh by (simp add: bs_shape_def)
  have b: "i div 8 < length d" "i < 8 * length d" using byte_index [OF n] byte_room [of n] n by (simp_all add: l)
  define y where "y = (if x then d ! (i div 8) OR push_bit (i mod 8) 1 else d ! (i div 8) AND NOT (push_bit (i mod 8) 1))"
  have "\<forall>k < 8. bit y k = (if k = i mod 8 then x else bit (d ! (i div 8)) k)"
    by (auto simp: y_def bit_simps simp del: push_bit_of_1)
  from bs_wf_set [OF sh z n _ bs_byte_update [OF b(2) this]]
  have r: "bs_wf (b\<lparr>bs_caData := Some (d[i div 8 := y])\<rparr>)"
    "bs_bits (b\<lparr>bs_caData := Some (d[i div 8 := y])\<rparr>) = (bs_bits b)[i := x]" by simp_all
  have di: "int i div 8 = int (i div 8)" "nat (int i mod 8) = i mod 8"
    by (simp_all add: of_nat_div nat_mod_distrib)
  have g: "arr_get d (int i div 8) = Inr (d ! (i div 8))" "arr_set d (int i div 8) y = Inr (d[i div 8 := y])" for y
    unfolding di using b(1) by simp_all
  have "bs_setBit b (int i) x = Inr (b\<lparr>bs_caData := Some (d[i div 8 := y])\<rparr>)"
    using sh n unfolding bs_setBit_def bs_data_def
    by (simp add: bs_shape_def g di(2) Let_def y_def del: push_bit_of_1)
  with r show ?thesis by blast
qed

lemma bs_invert_wf:
  assumes "bs_wf b"
  shows "\<exists>b'. bs_invert b = Inr b' \<and> bs_wf b' \<and> bs_bits b' = map Not (bs_bits b)"
proof -
  obtain d n where sh: "bs_shape b d n" using assms unfolding bs_wf_def by blast
  let ?b = "b\<lparr>bs_caData := Some (map (\<lambda>x. NOT x) d)\<rparr>"
  have sh': "bs_shape ?b (map (\<lambda>x. NOT x) d) n" using sh by (simp add: bs_shape_def)
  have l: "length d = (n + 7) div 8" using sh by (simp add: bs_shape_def)
  have "bs_bit (map (\<lambda>x. NOT x) d) i = (\<not> bs_bit d i)" if "i < n" for i
  proof -
    have "i div 8 < length d" "i mod 8 < 8" using byte_index [OF that] by (simp_all add: l)
    then show ?thesis by (simp add: bs_bit_def bit_simps)
  qed
  then have "bs_bits ?b = map Not (bs_bits b)" by (simp add: bs_bits_shape [OF sh] bs_bits_shape [OF sh'])
  with bs_fixup_shape [OF sh'] sh show ?thesis by (simp add: bs_invert_def bs_shape_def)
qed

lemma bs_copy_wf:
  assumes "bs_wf b"
  shows "\<exists>b'. bs_copy b = Inr b' \<and> bs_wf b' \<and> bs_bits b' = bs_bits b"
proof -
  obtain d n where sh: "bs_shape b d n" using assms unfolding bs_wf_def by blast
  then have "b\<lparr>bs_caData := Some d\<rparr> = b" by (simp add: bs_shape_def)
  moreover have "bs_copy b = bs_fixup (b\<lparr>bs_caData := Some d\<rparr>)" using sh by (simp add: bs_copy_def bs_shape_def)
  ultimately have "bs_copy b = bs_fixup b" by simp
  with bs_fixup_shape [OF sh] show ?thesis by simp
qed

text \<open>The loop of \<open>shiftLeft\<close>: every byte is computed from bytes not yet overwritten.\<close>

definition bs_shl_byte :: "nat \<Rightarrow> nat \<Rightarrow> byte list \<Rightarrow> nat \<Rightarrow> byte" where
  "bs_shl_byte q r d j = push_bit r (if q \<le> j then d ! (j - q) else 0) OR
     drop_bit (8 - r) (if Suc q \<le> j then d ! (j - q - 1) else 0)"

lemma bs_byte_or_0_int:
  "j < length d \<Longrightarrow> bs_byte_or_0 d (int j - int q) = Inr (if q \<le> j then d ! (j - q) else 0)"
  "j < length d \<Longrightarrow> bs_byte_or_0 d (int j - int q - 1) = Inr (if Suc q \<le> j then d ! (j - q - 1) else 0)"
proof -
  assume j: "j < length d"
  show "bs_byte_or_0 d (int j - int q) = Inr (if q \<le> j then d ! (j - q) else 0)"
  proof (cases "q \<le> j")
    case True
    then have e: "int j - int q = int (j - q)" by (simp add: of_nat_diff)
    have "arr_get d (int (j - q)) = Inr (d ! (j - q))" by (rule arr_get_in) (use j in simp)
    then show ?thesis by (simp only: bs_byte_or_0_def e of_nat_less_0_iff if_False if_True True)
  qed (simp add: bs_byte_or_0_def)
next
  assume j: "j < length d"
  show "bs_byte_or_0 d (int j - int q - 1) = Inr (if Suc q \<le> j then d ! (j - q - 1) else 0)"
  proof (cases "Suc q \<le> j")
    case True
    then have e: "int j - int q - 1 = int (j - q - 1)" by (simp add: of_nat_diff)
    have "arr_get d (int (j - q - 1)) = Inr (d ! (j - q - 1))" by (rule arr_get_in) (use j in simp)
    then show ?thesis by (simp only: bs_byte_or_0_def e of_nat_less_0_iff if_False if_True True)
  qed (simp add: bs_byte_or_0_def)
qed

lemma bs_shl_loop_ok:
  "m \<le> length d \<Longrightarrow> \<exists>d'. bs_shl_loop (int q) r m d = Inr d' \<and> length d' = length d \<and>
     (\<forall>i < length d. d' ! i = (if i < m then bs_shl_byte q r d i else d ! i))"
proof (induction m arbitrary: d)
  case 0
  then show ?case by simp
next
  case (Suc j)
  define d1 where "d1 = d[j := bs_shl_byte q r d j]"
  have j: "j < length d" using Suc.prems by simp
  have "bs_shl_loop (int q) r (Suc j) d = bs_shl_loop (int q) r j d1"
    using bs_byte_or_0_int [OF j, of q] j by (simp add: d1_def bs_shl_byte_def)
  moreover obtain d' where d': "bs_shl_loop (int q) r j d1 = Inr d'" "length d' = length d1"
    "\<forall>i < length d1. d' ! i = (if i < j then bs_shl_byte q r d1 i else d1 ! i)"
    using Suc.IH [of d1] j by (auto simp: d1_def)
  moreover have "bs_shl_byte q r d1 i = bs_shl_byte q r d i" if "i < j" for i
    using that by (auto simp: bs_shl_byte_def d1_def)
  ultimately show ?case using j by (auto simp: d1_def less_Suc_eq)
qed

lemma bs_shl_byte_bit:
  assumes "r < 8" "i div 8 < length d"
  shows "bit (bs_shl_byte q r d (i div 8)) (i mod 8) = (8 * q + r \<le> i \<and> bs_bit d (i - (8 * q + r)))"
proof -
  define j k where "j = i div 8" and "k = i mod 8"
  have i: "i = 8 * j + k" "k < 8" by (simp_all add: j_def k_def)
  have hi: "\<not> bit (y :: byte) (8 + n)" for y n by (rule byte_bit_high) simp
  consider (a) "j < q" | (b) "j = q" "k < r" | (c) "q \<le> j" "r \<le> k" | (d) "q < j" "k < r" by linarith
  then show ?thesis
  proof cases
    case a
    then have "\<not> 8 * q + r \<le> i" using i by linarith
    with a show ?thesis by (simp add: bs_shl_byte_def j_def)
  next
    case b
    then have "\<not> 8 * q + r \<le> i" using i by linarith
    with b i(2) assms(1) show ?thesis by (auto simp: bs_shl_byte_def bit_simps j_def [symmetric] k_def [symmetric])
  next
    case c
    then have e: "8 * q + r \<le> i" "i - (8 * q + r) = 8 * (j - q) + (k - r)" using i by (simp_all add: algebra_simps)
    have "(i - (8 * q + r)) div 8 = j - q" "(i - (8 * q + r)) mod 8 = k - r" unfolding e(2) using i(2) by (simp_all only: byte_split)
    moreover have "\<not> bit y (8 - r + k)" for y :: byte using c by (intro byte_bit_high) simp
    ultimately show ?thesis using c e(1) i(2)
      by (auto simp: bs_shl_byte_def bit_simps bs_bit_def j_def [symmetric] k_def [symmetric])
  next
    case d
    then have e: "8 * q + r \<le> i" "i - (8 * q + r) = 8 * (j - q - 1) + (8 - r + k)" using i assms(1)
      by (simp_all add: algebra_simps)
    have "(i - (8 * q + r)) div 8 = j - q - 1" "(i - (8 * q + r)) mod 8 = 8 - r + k"
      unfolding e(2) using d assms(1) by (simp_all only: byte_split)
    with d e(1) i(2) show ?thesis
      by (auto simp: bs_shl_byte_def bit_simps bs_bit_def j_def [symmetric] k_def [symmetric])
  qed
qed

lemma bs_shiftLeft_wf:
  assumes wf: "bs_wf b"
  shows "\<exists>b'. bs_shiftLeft b (int s) = Inr b' \<and> bs_wf b' \<and>
    bs_bits b' = take (length (bs_bits b)) (replicate s False @ bs_bits b)"
proof (cases "s = 0")
  case True
  with wf show ?thesis by (simp add: bs_shiftLeft_def)
next
  case False
  obtain d n where sh: "bs_shape b d n" using wf unfolding bs_wf_def by blast
  have l: "length d = (n + 7) div 8" "0 < n" using sh by (simp_all add: bs_shape_def)
  have ld: "0 < length d" using l byte_index [of 0 n] by simp
  obtain d' where d': "bs_shl_loop (int (s div 8)) (s mod 8) (length d) d = Inr d'" "length d' = length d"
    "\<forall>i < length d. d' ! i = bs_shl_byte (s div 8) (s mod 8) d i"
    using bs_shl_loop_ok [of "length d" d "s div 8" "s mod 8"] by auto
  let ?b = "b\<lparr>bs_caData := Some d'\<rparr>"
  have sh': "bs_shape ?b d' n" using sh d'(2) by (simp add: bs_shape_def)
  have s8: "8 * (s div 8) + s mod 8 = s" by simp
  have "bs_bit d' i = (s \<le> i \<and> bs_bit d (i - s))" if "i < n" for i
  proof -
    have "i div 8 < length d" using byte_index [OF that] by (simp add: l)
    with bs_shl_byte_bit [of "s mod 8" i d "s div 8"] d'(3) show ?thesis unfolding s8 by (simp add: bs_bit_def [of d'])
  qed
  then have "bs_bits ?b = take n (replicate s False @ bs_bits b)"
    unfolding bs_bits_shape [OF sh] bs_bits_shape [OF sh']
    by (intro nth_equalityI) (auto simp: nth_append)
  moreover have "bs_shiftLeft b (int s) = bs_fixup ?b"
  proof -
    have "int s div 8 = int (s div 8)" "nat (int s mod 8) = s mod 8"
      by (simp_all add: of_nat_div nat_mod_distrib)
    with False sh ld d'(1) show ?thesis
      by (simp add: bs_shiftLeft_def bs_shift_up_def bs_shape_def bs_data_def)
  qed
  ultimately show ?thesis using bs_fixup_shape [OF sh'] by (simp add: bs_length_bits [OF sh])
qed

section \<open>The properties\<close>

lemma bs_ten: "\<exists>b. bs_new fresh rand 10 False = Inr b \<and> bs_wf b \<and> bs_bits b = replicate 10 False"
  using bs_new_bits [of 10 fresh rand] by simp

text \<open>
  Setting a bit of a well-formed string changes that bit and no other, in whatever byte it is,
  and keeps the string well formed; a bit outside is an exception.
\<close>

theorem bitstring_setBit:
  assumes "bs_wf b"
  shows "if 0 \<le> i \<and> i < int (length (bs_bits b))
    then \<exists>b'. bs_setBit b i x = Inr b' \<and> bs_wf b' \<and> bs_bits b' = (bs_bits b)[nat i := x]
    else bs_setBit b i x = Inl (ExceptionBase ''bit out of range'')"
proof -
  obtain d n where sh: "bs_shape b d n" using assms unfolding bs_wf_def by blast
  show ?thesis
  proof (cases "0 \<le> i \<and> i < int (length (bs_bits b))")
    case True
    then have "nat i < length (bs_bits b)" by linarith
    from bs_setBit_wf [OF assms this, of x] True show ?thesis by simp
  next
    case False
    then have "i < 0 \<or> i \<ge> bs_iBits b" using sh by (auto simp: bs_length_bits [OF sh] bs_shape_def)
    then have "bs_setBit b i x = Inl (ExceptionBase ''bit out of range'')" by (simp add: bs_setBit_def)
    with False show ?thesis by (simp only: if_False)
  qed
qed

theorem bitstring_setBit_witness:
  "\<exists>b b'. bs_new (\<lambda>i. 0) (\<lambda>i. 0) 10 False = Inr b \<and> bs_setBit b 9 True = Inr b' \<and>
     bs_bits b' = (replicate 10 False)[9 := True]"
proof -
  obtain b where b: "bs_new (\<lambda>i. 0) (\<lambda>i. 0) 10 False = Inr b" "bs_wf b" "bs_bits b = replicate 10 False"
    using bs_ten by blast
  from bitstring_setBit [OF b(2), of 9 True] b show ?thesis by auto
qed

text \<open>
  \<open>shiftLeft\<close> moves every bit up by the amount, fills with zeros from below and drops what goes
  over the end, although it works byte by byte in place.
\<close>

theorem bitstring_shiftLeft:
  assumes "bs_wf b"
  shows "\<exists>b'. bs_shiftLeft b (int s) = Inr b' \<and> bs_wf b' \<and>
    bs_bits b' = take (length (bs_bits b)) (replicate s False @ bs_bits b)"
  by (rule bs_shiftLeft_wf [OF assms])

theorem bitstring_shiftLeft_witness:
  "\<exists>b b1 b2. bs_new (\<lambda>i. 0) (\<lambda>i. 0) 10 False = Inr b \<and> bs_setBit b 0 True = Inr b1 \<and> bs_shiftLeft b1 9 = Inr b2 \<and>
     bs_bits b2 = replicate 9 False @ [True]"
proof -
  obtain b where b: "bs_new (\<lambda>i. 0) (\<lambda>i. 0) 10 False = Inr b" "bs_wf b" "bs_bits b = replicate 10 False"
    using bs_ten by blast
  obtain b1 where b1: "bs_setBit b 0 True = Inr b1" "bs_wf b1" "bs_bits b1 = (replicate 10 False)[0 := True]"
    using bs_setBit_wf [OF b(2), of 0 True] b(3) by auto
  from bitstring_shiftLeft [OF b1(2), of 9] b(1) b1 show ?thesis by (auto simp: numeral_eq_Suc)
qed

lemma bs_digits_ok:
  "bs_shape b d n \<Longrightarrow> m \<le> n \<Longrightarrow>
   bs_digits b m = Inr (map (\<lambda>x. if x then CHR ''1'' else CHR ''0'') (rev (take m (bs_bits b))))"
proof (induction m)
  case (Suc m)
  then have "take (Suc m) (bs_bits b) = take m (bs_bits b) @ [bs_bits b ! m]"
    by (intro take_Suc_conv_app_nth) (simp add: bs_length_bits)
  with Suc bs_getBit_wf [of b d n m] show ?case by simp
qed simp

text \<open>\<open>toString\<close> gives one digit for every bit, the highest bit first.\<close>

theorem bitstring_toString:
  assumes "bs_wf b"
  shows "bs_toString b = Inr (map (\<lambda>x. if x then CHR ''1'' else CHR ''0'') (rev (bs_bits b)))"
proof -
  obtain d n where sh: "bs_shape b d n" using assms unfolding bs_wf_def by blast
  then have "nat (bs_iBits b) = n" by (simp add: bs_shape_def)
  with bs_digits_ok [OF sh, of n] bs_length_bits [OF sh] show ?thesis by (simp add: bs_toString_def)
qed

theorem bitstring_toString_witness:
  "\<exists>b. bs_new (\<lambda>i. 0) (\<lambda>i. 0) 10 False = Inr b \<and> bs_toString b = Inr ''0000000000''"
  using bs_ten [of "\<lambda>i. 0" "\<lambda>i. 0"] bitstring_toString by (fastforce simp: numeral_eq_Suc)

lemma bs_highest_ok:
  "bs_shape b d n \<Longrightarrow> m \<le> n \<Longrightarrow> \<exists>p. bs_highest b m = Inr p \<and>
     (p = - 1 \<and> (\<forall>i < m. \<not> bs_bits b ! i) \<or>
      (\<exists>j < m. p = int j \<and> bs_bits b ! j \<and> (\<forall>i < m. j < i \<longrightarrow> \<not> bs_bits b ! i)))"
proof (induction m)
  case (Suc m)
  show ?case
  proof (cases "bs_bits b ! m")
    case True
    with Suc.prems bs_getBit_wf [of b d n m] show ?thesis by (auto intro!: exI [of _ m])
  next
    case False
    obtain p where "bs_highest b m = Inr p" "p = - 1 \<and> (\<forall>i < m. \<not> bs_bits b ! i) \<or>
      (\<exists>j < m. p = int j \<and> bs_bits b ! j \<and> (\<forall>i < m. j < i \<longrightarrow> \<not> bs_bits b ! i))" using Suc by auto
    with False Suc.prems bs_getBit_wf [of b d n m] show ?thesis by (auto simp: less_Suc_eq)
  qed
qed simp

lemma bs_shr_overrun:
  "length d = l \<Longrightarrow> \<forall>j \<in> set js. j < l \<Longrightarrow> \<exists>j \<in> set js. j + q = l \<or> j + q + 1 = l \<Longrightarrow>
   bs_shr_loop (int q) r (int l) js d = Inl Out_Of_Bounds"
proof (induction js arbitrary: d)
  case (Cons j js)
  have get: "bs_byte_upto d (int l) i = Inl Out_Of_Bounds \<or> (\<exists>x. bs_byte_upto d (int l) i = Inr x)" for i
    by (auto simp: bs_byte_upto_def arr_get_def)
  show ?case
  proof (cases "j + q = l \<or> j + q + 1 = l")
    case True
    then have "bs_byte_upto d (int l) (int j + int q) = Inl Out_Of_Bounds \<or>
        bs_byte_upto d (int l) (int j + int q + 1) = Inl Out_Of_Bounds"
      using Cons.prems(1) by (auto simp: bs_byte_upto_def arr_get_def)
    then show ?thesis using get [of "int j + int q"] by auto
  next
    case False
    with Cons.prems have ex: "\<exists>j \<in> set js. j + q = l \<or> j + q + 1 = l" "j < length d" by auto
    have "bs_shr_loop (int q) r (int l) js (d[j := y]) = Inl Out_Of_Bounds" for y
      using Cons.prems ex by (intro Cons.IH) auto
    then show ?thesis using get [of "int j + int q"] get [of "int j + int q + 1"] ex(2) by auto
  qed
qed simp

text \<open>
  \<open>shiftRight\<close> by less than the whole length reads the byte behind the array: the test of its
  index is for greater where it should be for greater or equal.
\<close>

theorem bitstring_shiftRight_overruns:
  assumes "bs_wf b" "0 < s" "s < length (bs_bits b)"
  shows "bs_shiftRight b (int s) = Inl Out_Of_Bounds"
proof -
  obtain d n where sh: "bs_shape b d n" using assms(1) unfolding bs_wf_def by blast
  have s: "bs_caData b = Some d" "length d = (n + 7) div 8" "bs_iBytes b = int (length d)"
    using sh by (simp_all add: bs_shape_def)
  have q: "s div 8 < length d" using byte_index [of s n] assms(3) by (simp add: bs_length_bits [OF sh] s(2))
  then have "\<exists>j \<in> set [0..<length d]. j + s div 8 = length d \<or> j + s div 8 + 1 = length d"
    by (intro bexI [of _ "length d - 1 - s div 8"]) auto
  then have "bs_shr_loop (int (s div 8)) (s mod 8) (int (length d)) [0..<length d] d = Inl Out_Of_Bounds"
    by (intro bs_shr_overrun) auto
  moreover have "int s div 8 = int (s div 8)" "nat (int s mod 8) = s mod 8"
    by (simp_all add: of_nat_div nat_mod_distrib)
  moreover have "d \<noteq> []" using q by auto
  ultimately show ?thesis
    using assms(2) s(1,3) by (simp add: bs_shiftRight_def bs_shift_down_def bs_data_def)
qed

theorem bitstring_shiftRight_overruns_witness:
  "\<exists>b. bs_new (\<lambda>i. 0) (\<lambda>i. 0) 10 False = Inr b \<and> bs_shiftRight b 1 = Inl Out_Of_Bounds"
  using bs_ten [of "\<lambda>i. 0" "\<lambda>i. 0"] bitstring_shiftRight_overruns [of _ 1] by fastforce

text \<open>
  The copy of a default-constructed string writes before its array, and a string that is resized
  from the default keeps the mask zero, so that inverting it leaves it zero.
\<close>

lemma bs_copy_empty: "bs_copy bs_empty = Inl Out_Of_Bounds"
  by (simp add: bs_copy_def bs_empty_def bs_fixup_def arr_get_def)

lemma bs_setSize_empty_mask: "bs_cTopByteMask (bs_setSize fresh bs_empty n c) = 0"
  by (simp add: bs_setSize_def bs_empty_def)

end
