(* ===== verification/Bu_MyriadHeader.thy ===== *)
theory Bu_MyriadHeader
  imports Bu_MyriadStore Bu_Bytes Bu_BitString
begin

text \<open>
  The part of \<open>Bu::Myriad\<close> (\<open>src/stable/myriad.cpp\<close>) that keeps a store on disk: \<open>updateHeader\<close> writes
  the table of streams into stream 0, \<open>initialize()\<close> reads it back through a stream of its own that
  it exchanges for the real one as soon as that is known, and the constructor, which formats a store
  that has no header. An \<open>int\<close> is four bytes, the lowest first.
\<close>

section \<open>Writing the header\<close>

fun my_sum_blocks :: "myriad \<Rightarrow> nat list \<Rightarrow> nat result" where
  "my_sum_blocks m [] = Inr 0"
| "my_sum_blocks m (p # ps) =
     rbind (stream_at m p) (\<lambda>s. rbind (my_sum_blocks m ps) (\<lambda>n. Inr (4 * length (stm_aBlocks s) + n)))"

text \<open>The loop that gives the header the blocks it needs; every one of them makes the header longer.\<close>

partial_function (option) my_header_grow :: "nat \<Rightarrow> nat \<Rightarrow> myriad \<Rightarrow> (nat \<times> myriad) result option" where
  "my_header_grow p iHeaderSize m =
     obind (Some (stream_at m p)) (\<lambda>s.
     if blkDiv iHeaderSize (my_iBlockSize m) > length (stm_aBlocks s)
     then obind (Some (my_streamAddBlock p m)) (\<lambda>bm. my_header_grow p (iHeaderSize + 4) (snd bm))
     else Some (Inr (iHeaderSize, m)))"

definition my_put :: "byte list \<Rightarrow> my_handle \<times> myriad \<Rightarrow> (my_handle \<times> myriad) result option" where
  "my_put bytes hm = obind (mh_write (fst hm) bytes (snd hm)) (\<lambda>r. Some (Inr (snd r)))"

fun my_put_blocks :: "nat \<Rightarrow> nat list \<Rightarrow> my_handle \<times> myriad \<Rightarrow> (my_handle \<times> myriad) result option" where
  "my_put_blocks p [] hm = Some (Inr hm)"
| "my_put_blocks p (j # js) hm =
     obind (Some (rbind (stream_at (snd hm) p) (\<lambda>s. array_at (stm_aBlocks s) (int j)))) (\<lambda>b.
     obind (my_put (int_bytes (int b)) hm) (my_put_blocks p js))"

fun my_put_streams :: "nat list \<Rightarrow> my_handle \<times> myriad \<Rightarrow> (my_handle \<times> myriad) result option" where
  "my_put_streams [] hm = Some (Inr hm)"
| "my_put_streams (p # ps) hm =
     obind (Some (stream_at (snd hm) p)) (\<lambda>s.
     obind (my_put (int_bytes (stm_iId s)) hm) (\<lambda>hm1.
     obind (Some (stream_at (snd hm1) p)) (\<lambda>s1.
     obind (my_put (int_bytes (int (stm_iSize s1))) hm1) (\<lambda>hm2.
     obind (Some (stream_at (snd hm2) p)) (\<lambda>s2.
     obind (my_put_blocks p [0..<blkDiv (stm_iSize s2) (my_iBlockSize (snd hm2))] hm2) (my_put_streams ps))))))"

definition my_put_header :: "my_handle \<times> myriad \<Rightarrow> (my_handle \<times> myriad) result option" where
  "my_put_header hm =
     obind (my_put magic_code hm) (\<lambda>hm1.
     obind (my_put [1] hm1) (\<lambda>hm2.
     obind (my_put [32] hm2) (\<lambda>hm3.
     obind (my_put (int_bytes (int (my_iBlockSize (snd hm3)))) hm3) (\<lambda>hm4.
     obind (my_put (int_bytes (int (length (my_aStreams (snd hm4))))) hm4) (\<lambda>hm5.
     my_put_streams (my_aStreams (snd hm5)) hm5)))))"

definition my_updateHeader :: "bool \<Rightarrow> myriad \<Rightarrow> myriad result option" where
  "my_updateHeader canWrite m =
     (if \<not> my_bHeaderChanged m \<or> \<not> canWrite then Some (Inr m)
      else if my_iBlockSize m = 0 then Some (Inl Out_Of_Bounds)
      else obind (Some (my_sum_blocks m (my_aStreams m))) (\<lambda>n.
        obind (Some (array_at (my_aStreams m) 0)) (\<lambda>p.
        obind (my_header_grow p (14 + 8 * length (my_aStreams m) + n) m) (\<lambda>(iHeaderSize, m1).
        obind (Some (stream_at m1 p)) (\<lambda>s.
        obind (my_put_header (\<lparr>mh_pStream = p, mh_pCurBlock = None, mh_iPos = 0\<rparr>,
                set_stream p (s\<lparr>stm_iSize := iHeaderSize\<rparr>) m1)) (\<lambda>(h, m2).
        Some (mh_destroy h (m2\<lparr>my_bHeaderChanged := False\<rparr>))))))))"

text \<open>\<open>sync\<close>: the loaded blocks are visited in the order of the hash table, a parameter.\<close>

fun my_sync_blocks :: "nat list \<Rightarrow> myriad \<Rightarrow> myriad result" where
  "my_sync_blocks [] m = Inr m"
| "my_sync_blocks (i # is) m =
     rbind (case my_hActiveBlocks m i of None \<Rightarrow> Inr m | Some a \<Rightarrow> my_syncBlock a m) (my_sync_blocks is)"

definition my_sync :: "bool \<Rightarrow> nat list \<Rightarrow> myriad \<Rightarrow> myriad result option" where
  "my_sync canWrite active m = obind (my_updateHeader canWrite m) (\<lambda>m1. Some (my_sync_blocks active m1))"

text \<open>The destructor, for which blocks that are still loaded are only worth a message.\<close>

definition my_destroy :: "bool \<Rightarrow> nat list \<Rightarrow> myriad \<Rightarrow> myriad result option" where
  "my_destroy canWrite active m =
     obind (my_sync canWrite active m) (\<lambda>m1. Some (Inr (m1\<lparr>my_streams := my_streams m1 |` (- set (my_aStreams m1))\<rparr>)))"

section \<open>Reading the header\<close>

text \<open>
  Four bytes into an \<open>int\<close>; when fewer can be read, the rest of it was never written. Sizes and
  block counts of a damaged header that are negative, which the code uses as they are, are counted
  as out of bounds here.
\<close>

definition my_getInt :: "my_handle \<Rightarrow> myriad \<Rightarrow> (int \<times> my_handle \<times> myriad) result option" where
  "my_getInt h m =
     obind (mh_read h 4 m) (\<lambda>(bs, h', m'). if length bs < 4 then Some (Inl Out_Of_Bounds)
       else Some (Inr (sint (le_word bs), h', m')))"

type_synonym loader = "my_handle \<times> bit_string \<times> myriad"

text \<open>One block number: into the list of the stream at \<open>p\<close>, into the bit string, counted.\<close>

definition my_load_block :: "nat \<Rightarrow> loader \<Rightarrow> loader result option" where
  "my_load_block p st =
     obind (my_getInt (fst st) (snd (snd st))) (\<lambda>(iBId, h, m).
     obind (Some (stream_at m p)) (\<lambda>s.
     obind (Some (bs_setBit (fst (snd st)) iBId True)) (\<lambda>b.
     Some (Inr (h, b, set_stream p (s\<lparr>stm_aBlocks := stm_aBlocks s @ [nat iBId]\<rparr>) (m\<lparr>my_iUsed := my_iUsed m + 1\<rparr>))))))"

text \<open>The exchange of the stream over the first blocks for the real stream 0.\<close>

definition my_load_switch :: "nat \<Rightarrow> nat \<Rightarrow> loader \<Rightarrow> loader result" where
  "my_load_switch pFakeHdr p st =
     (case st of (h, b, m) \<Rightarrow> rbind (mh_destroy h m) (\<lambda>m1.
        Inr (\<lparr>mh_pStream = p, mh_pCurBlock = None, mh_iPos = mh_iPos h\<rparr>, b,
             m1\<lparr>my_streams := (my_streams m1)(pFakeHdr := None)\<rparr>)))"

fun my_load_blocks :: "nat \<Rightarrow> nat \<Rightarrow> nat \<Rightarrow> bool \<Rightarrow> nat list \<Rightarrow> loader \<Rightarrow> loader result option" where
  "my_load_blocks iHeaderBlocks pFakeHdr p first [] st = Some (Inr st)"
| "my_load_blocks iHeaderBlocks pFakeHdr p first (k # ks) st =
     obind (my_load_block p st) (\<lambda>st1.
     obind (Some (if first \<and> k + 1 = iHeaderBlocks then my_load_switch pFakeHdr p st1 else Inr st1))
       (my_load_blocks iHeaderBlocks pFakeHdr p first ks))"

definition my_load_stream :: "nat \<Rightarrow> nat \<Rightarrow> nat \<Rightarrow> loader \<Rightarrow> loader result option" where
  "my_load_stream iHeaderBlocks pFakeHdr j st =
     (case st of (h, b, m) \<Rightarrow>
      case new_stream \<lparr>stm_iId = 0, stm_iSize = 0, stm_aBlocks = []\<rparr> m of (p, m1) \<Rightarrow>
      obind (my_getInt h (m1\<lparr>my_aStreams := my_aStreams m1 @ [p]\<rparr>)) (\<lambda>(iId, h2, m2).
      obind (Some (stream_at m2 p)) (\<lambda>s2.
      obind (my_getInt h2 (set_stream p (s2\<lparr>stm_iId := iId\<rparr>) m2)) (\<lambda>(iSize, h3, m3).
      if iSize < 0 then Some (Inl Out_Of_Bounds)
      else obind (Some (stream_at m3 p)) (\<lambda>s3.
        my_load_blocks iHeaderBlocks pFakeHdr p (j = 0) [0..<blkDiv (nat iSize) (my_iBlockSize m3)]
          (h3, b, set_stream p (s3\<lparr>stm_iSize := nat iSize\<rparr>) m3))))))"

fun my_load_streams :: "nat \<Rightarrow> nat \<Rightarrow> nat list \<Rightarrow> loader \<Rightarrow> loader result option" where
  "my_load_streams iHeaderBlocks pFakeHdr [] st = Some (Inr st)"
| "my_load_streams iHeaderBlocks pFakeHdr (j # js) st =
     obind (my_load_stream iHeaderBlocks pFakeHdr j st) (my_load_streams iHeaderBlocks pFakeHdr js)"

fun my_free_blocks :: "bit_string \<Rightarrow> nat list \<Rightarrow> nat list result" where
  "my_free_blocks b [] = Inr []"
| "my_free_blocks b (j # js) =
     rbind (bs_getBit b (int j)) (\<lambda>x. rbind (my_free_blocks b js) (\<lambda>fs. Inr (if x then fs else j # fs)))"

definition my_load_body :: "(nat \<Rightarrow> byte) \<Rightarrow> nat \<Rightarrow> nat \<Rightarrow> nat \<Rightarrow> myriad \<Rightarrow> myriad result option" where
  "my_load_body fresh iSize iBlockSize iStreams m =
     (let m1 = m\<lparr>my_iBlockSize := iBlockSize, my_iBlocks := iSize div iBlockSize\<rparr> in
      Option.bind (my_header_loop iBlockSize (14 + 8 + 4) 0) (\<lambda>(iHeaderSize, iHeaderBlocks).
      case new_stream \<lparr>stm_iId = 0, stm_iSize = iHeaderSize, stm_aBlocks = [0..<iHeaderBlocks]\<rparr> m1 of (pFakeHdr, m2) \<Rightarrow>
      obind (Some (bs_new fresh fresh (int (my_iBlocks m2)) False)) (\<lambda>b.
      obind (my_load_streams iHeaderBlocks pFakeHdr [0..<iStreams]
          (\<lparr>mh_pStream = pFakeHdr, mh_pCurBlock = None, mh_iPos = fl_tell (my_sStore m2)\<rparr>, bs_clear b, m2)) (\<lambda>(h, b1, m3).
      obind (Some (mh_destroy h m3)) (\<lambda>m4.
      obind (Some (my_free_blocks b1 [0..<my_iBlocks m4])) (\<lambda>fs.
      Some (Inr (m4\<lparr>my_lFreeBlocks := fs\<rparr>))))))))"

text \<open>A short read leaves the rest of the buffer, or of the block size, as it was.\<close>

definition my_load :: "(nat \<Rightarrow> byte) \<Rightarrow> myriad \<Rightarrow> myriad result option" where
  "my_load fresh m =
     (let f0 = fl_setPosEnd (my_sStore m) 0; iSize = nat (fl_tell f0) in
      obind (Some (fl_read (fl_setPos f0 0) 4)) (\<lambda>(buf, f1).
      if length buf < 4 then Some (Inl (MyriadException emptyStream))
      else if buf \<noteq> magic_code then Some (Inl (MyriadException invalidFormat))
      else obind (Some (fl_read f1 2)) (\<lambda>(b2, f2).
      let buf2 = b2 @ drop (length b2) buf in
      if buf2 ! 0 \<noteq> 1 then Some (Inl (MyriadException badVersion))
      else if buf2 ! 1 \<noteq> 32 then Some (Inl (MyriadException invalidWordSize))
      else obind (Some (fl_read f2 4)) (\<lambda>(b3, f3).
      let iBlockSize = sint (le_word (b3 @ drop (length b3) (int_bytes (int (my_iBlockSize m))))) in
      obind (Some (fl_read f3 4)) (\<lambda>(b4, f4).
      if length b4 < 4 \<or> iBlockSize \<le> 0 then Some (Inl Out_Of_Bounds)
      else my_load_body fresh iSize (nat iBlockSize) (nat (sint (le_word b4)))
             (m\<lparr>my_lFreeBlocks := [], my_sStore := f4\<rparr>))))))"

text \<open>The constructor: a store too short for a header is formatted, from where the reading stopped.\<close>

definition my_construct :: "(nat \<Rightarrow> byte) \<Rightarrow> bu_file \<Rightarrow> nat \<Rightarrow> int \<Rightarrow> myriad result option" where
  "my_construct fresh sStore iBlockSize iPreallocate =
     (case my_load fresh (my_new sStore iBlockSize) of
        Some (Inl (MyriadException emptyStream)) \<Rightarrow>
          obind (Some (fl_read (fl_setPos (fl_setPosEnd sStore 0) 0) 4)) (\<lambda>(buf, f1).
            my_initialize iBlockSize iPreallocate (my_new f1 iBlockSize))
      | r \<Rightarrow> r)"

definition my_isMyriad :: "bu_file \<Rightarrow> (bool \<times> byte option \<times> bu_file) result" where
  "my_isMyriad sStore =
     rbind (fl_read (fl_setPos sStore 0) 4) (\<lambda>(buf, f1).
     if length buf < 4 then Inl (MyriadException emptyStream)
     else rbind (fl_read f1 1) (\<lambda>(v, f2).
       Inr (buf = magic_code, (case v of [] \<Rightarrow> None | x # xs \<Rightarrow> Some x), fl_setPos f2 0)))"

section \<open>Numbers of a Myriad\<close>

definition my_getNumStreams :: "myriad \<Rightarrow> nat" where
  "my_getNumStreams m = length (my_aStreams m)"

fun my_sizes :: "myriad \<Rightarrow> nat list \<Rightarrow> nat list result" where
  "my_sizes m [] = Inr []"
| "my_sizes m (p # ps) = rbind (stream_at m p) (\<lambda>s. rbind (my_sizes m ps) (\<lambda>ns. Inr (stm_iSize s # ns)))"

definition my_getTotalUsedBytes :: "myriad \<Rightarrow> nat result" where
  "my_getTotalUsedBytes m = rbind (my_sizes m (my_aStreams m)) (\<lambda>ns. Inr (sum_list ns))"

definition my_getTotalUnusedBytes :: "nat \<Rightarrow> myriad \<Rightarrow> int result" where
  "my_getTotalUnusedBytes iBlockSize m =
     rbind (my_sizes m (my_aStreams m)) (\<lambda>ns.
       if iBlockSize = 0 \<and> ns \<noteq> [] then Inl Out_Of_Bounds
       else Inr ((int (my_iBlocks m) - my_iUsed m) * int iBlockSize +
              sum_list (map (\<lambda>n. int iBlockSize - int (n mod iBlockSize)) ns)))"

fun my_unset :: "nat list \<Rightarrow> bit_string \<Rightarrow> bit_string result" where
  "my_unset [] b = Inr b"
| "my_unset (i # is) b = rbind (bs_setBit b (int i) False) (my_unset is)"

fun my_set_all :: "nat list \<Rightarrow> bit_string \<Rightarrow> bit_string result" where
  "my_set_all [] b = Inr b"
| "my_set_all (i # is) b = rbind (bs_setBit b (int i) True) (my_set_all is)"

definition my_getBlocksUsed :: "(nat \<Rightarrow> byte) \<Rightarrow> myriad \<Rightarrow> bit_string result" where
  "my_getBlocksUsed fresh m =
     rbind (bs_new fresh fresh (int (my_iBlocks m)) False) (\<lambda>b.
     rbind (my_set_all [0..<my_iBlocks m] b) (my_unset (my_lFreeBlocks m)))"

end
