(* ===== verification/Bu_MyriadRead.thy ===== *)
theory Bu_MyriadRead
  imports Bu_MyriadHeader "HOL-Library.Sublist"
begin

text \<open>
  Reading through a handle while the tables of a Myriad are still being made, as \<open>initialize()\<close> does:
  the block accounting does not hold yet, all that is known is that the blocks of the handle's
  stream are in the store. Nothing but the memory changes.
\<close>

section \<open>A handle that only reads\<close>

definition ro_ok :: "myriad \<Rightarrow> my_handle \<Rightarrow> bool" where
  "ro_ok m h \<longleftrightarrow>
     0 < my_iBlockSize m \<and> my_streams m (mh_pStream h) \<noteq> None \<and>
     (\<forall>i \<in> set (stm_aBlocks (strm m (mh_pStream h))). Suc i * my_iBlockSize m \<le> length (fl_data (my_sStore m))) \<and>
     (case mh_pCurBlock h of None \<Rightarrow> my_blocks m = Map.empty
      | Some a \<Rightarrow> \<exists>b. my_blocks m = [a \<mapsto> b] \<and> \<not> blk_bChanged b \<and>
          blk_pData b = piece (my_iBlockSize m) (fl_data (my_sStore m)) (blk_iBlockIndex b))"

definition ro_src :: "myriad \<Rightarrow> my_handle \<Rightarrow> byte list" where
  "ro_src m h = concat (map (piece (my_iBlockSize m) (fl_data (my_sStore m))) (stm_aBlocks (strm m (mh_pStream h))))"

definition ro_same :: "myriad \<Rightarrow> myriad \<Rightarrow> bool" where
  "ro_same m m' \<longleftrightarrow>
     my_iBlockSize m' = my_iBlockSize m \<and> my_iBlocks m' = my_iBlocks m \<and> my_iUsed m' = my_iUsed m \<and>
     my_lFreeBlocks m' = my_lFreeBlocks m \<and> my_streams m' = my_streams m \<and> my_aStreams m' = my_aStreams m \<and>
     my_bHeaderChanged m' = my_bHeaderChanged m \<and> fl_data (my_sStore m') = fl_data (my_sStore m) \<and>
     my_next m \<le> my_next m'"

lemma ro_same_refl [simp]: "ro_same m m"
  by (simp add: ro_same_def)

lemma ro_same_trans: "ro_same m m1 \<Longrightarrow> ro_same m1 m2 \<Longrightarrow> ro_same m m2"
  by (simp add: ro_same_def)

lemma ro_same_strm: "ro_same m m' \<Longrightarrow> strm m' = strm m"
  by (simp add: ro_same_def strm_def fun_eq_iff)

lemma ro_same_src: "ro_same m m' \<Longrightarrow> mh_pStream h' = mh_pStream h \<Longrightarrow> ro_src m' h' = ro_src m h"
  by (simp add: ro_src_def ro_same_strm) (simp add: ro_same_def)

lemma ro_stream_at: "ro_ok m h \<Longrightarrow> stream_at m (mh_pStream h) = Inr (strm m (mh_pStream h))"
  by (auto simp: ro_ok_def stream_at_def strm_def)

lemma ro_release:
  assumes "ro_ok m h"
  shows "\<exists>m'. my_releaseBlock (mh_pCurBlock h) m = Inr m' \<and> ro_same m m' \<and> my_blocks m' = Map.empty"
  using assms
  by (auto simp: ro_ok_def my_releaseBlock_def my_syncBlock_def block_at_def ro_same_def split: option.splits)

lemma ro_getBlock:
  assumes bs: "0 < my_iBlockSize m" and room: "Suc i * my_iBlockSize m \<le> length (fl_data (my_sStore m))"
    and emp: "my_blocks m = Map.empty"
  shows "\<exists>m'. my_getBlock i m = Inr (my_next m, m') \<and> ro_same m m' \<and>
    my_blocks m' = [my_next m \<mapsto> \<lparr>blk_pData = piece (my_iBlockSize m) (fl_data (my_sStore m)) i,
      blk_bChanged = False, blk_iBlockIndex = i\<rparr>]"
proof -
  let ?bs = "my_iBlockSize m" and ?d = "fl_data (my_sStore m)"
  have "fl_read (fl_setPos (my_sStore m) (int (?bs * i))) (int ?bs) =
      Inr (piece ?bs ?d i, (my_sStore m)\<lparr>fl_pos := ?bs * i + ?bs, fl_bEos := False\<rparr>)"
    using room bs unfolding fl_setPos_int by (subst fl_read_inside) (simp_all add: piece_def mult.commute)
  then show ?thesis
    using length_piece [OF room] emp unfolding my_getBlock_def by (simp add: ro_same_def)
qed

lemma ro_seat:
  assumes ok: "ro_ok m h" and i: "i \<in> set (stm_aBlocks (strm m (mh_pStream h)))"
  shows "\<exists>a m' b. mh_seat i h m = Inr (a, h\<lparr>mh_pCurBlock := Some a\<rparr>, m') \<and> ro_same m m' \<and>
    ro_ok m' (h\<lparr>mh_pCurBlock := Some a\<rparr>) \<and> my_blocks m' = [a \<mapsto> b] \<and>
    blk_pData b = piece (my_iBlockSize m) (fl_data (my_sStore m)) i"
proof (cases "\<exists>a b. mh_pCurBlock h = Some a \<and> my_blocks m = [a \<mapsto> b] \<and> blk_iBlockIndex b = i")
  case True
  then obtain a b where ab: "mh_pCurBlock h = Some a" "my_blocks m = [a \<mapsto> b]" "blk_iBlockIndex b = i" by blast
  then have "mh_seat i h m = Inr (a, h, m)" by (simp add: mh_seat_def block_at_def)
  moreover have "h\<lparr>mh_pCurBlock := Some a\<rparr> = h" using ab(1) by simp
  ultimately show ?thesis using ok ab
    by (intro exI [of _ a] exI [of _ m] exI [of _ b]) (simp, auto simp: ro_ok_def)
next
  case False
  obtain m1 where m1: "my_releaseBlock (mh_pCurBlock h) m = Inr m1" "ro_same m m1" "my_blocks m1 = Map.empty"
    using ro_release [OF ok] by blast
  have f1: "my_iBlockSize m1 = my_iBlockSize m" "fl_data (my_sStore m1) = fl_data (my_sStore m)"
    using m1(2) by (simp_all add: ro_same_def)
  have bs: "0 < my_iBlockSize m" "Suc i * my_iBlockSize m \<le> length (fl_data (my_sStore m))"
    using ok i by (auto simp: ro_ok_def)
  obtain m2 where m2: "my_getBlock i m1 = Inr (my_next m1, m2)" "ro_same m1 m2"
    "my_blocks m2 = [my_next m1 \<mapsto> \<lparr>blk_pData = piece (my_iBlockSize m) (fl_data (my_sStore m)) i,
      blk_bChanged = False, blk_iBlockIndex = i\<rparr>]"
    using ro_getBlock [of m1 i] bs m1(3) unfolding f1 by blast
  have cur: "(case mh_pCurBlock h of None \<Rightarrow> Inr None
      | Some a \<Rightarrow> rbind (block_at m a) (\<lambda>b. Inr (if blk_iBlockIndex b = i then Some a else None))) = Inr None"
    using ok False by (auto simp: ro_ok_def block_at_def split: option.splits)
  have r: "ro_same m m2" using m1(2) m2(2) by (rule ro_same_trans)
  have "ro_ok m2 (h\<lparr>mh_pCurBlock := Some (my_next m1)\<rparr>)"
    using ok r by (simp add: ro_ok_def m2(3) ro_same_strm [OF r]) (simp add: ro_same_def)
  moreover have "mh_seat i h m = Inr (my_next m1, h\<lparr>mh_pCurBlock := Some (my_next m1)\<rparr>, m2)"
    unfolding mh_seat_def cur by (simp add: m1(1) m2(1))
  ultimately show ?thesis using r m2(3) by auto
qed

lemma ro_pieces:
  assumes "ro_ok m h"
  shows "\<forall>b \<in> set (map (piece (my_iBlockSize m) (fl_data (my_sStore m))) (stm_aBlocks (strm m (mh_pStream h)))).
    length b = my_iBlockSize m"
  using assms by (auto simp: ro_ok_def intro: length_piece)

lemma ro_pos [simp]: "ro_ok m (h\<lparr>mh_iPos := x\<rparr>) = ro_ok m h" "ro_src m (h\<lparr>mh_iPos := x\<rparr>) = ro_src m h"
  by (simp_all add: ro_ok_def ro_src_def cong: option.case_cong)

lemma ro_read_step:
  assumes ok: "ro_ok m h" and pos: "mh_iPos h = int pos" and n: "0 < n" "pos + n \<le> stm_iSize (strm m (mh_pStream h))"
    and room: "pos + n \<le> length (stm_aBlocks (strm m (mh_pStream h))) * my_iBlockSize m"
  shows "\<exists>k h' m'. mh_read_step n h m = Inr (take k (drop pos (ro_src m h)), h', m') \<and> ro_ok m' h' \<and> ro_same m m' \<and>
    mh_pStream h' = mh_pStream h \<and> mh_iPos h' = int (pos + k) \<and> 0 < k \<and> k \<le> n"
proof -
  let ?p = "mh_pStream h" and ?bs = "my_iBlockSize m"
  let ?s = "strm m ?p" and ?j = "pos div ?bs" and ?o = "pos mod ?bs"
  let ?ps = "map (piece ?bs (fl_data (my_sStore m))) (stm_aBlocks ?s)"
  have bs: "0 < ?bs" using ok by (simp add: ro_ok_def)
  have "pos < length (stm_aBlocks ?s) * ?bs" using room n(1) by simp
  then have j: "?j < length (stm_aBlocks ?s)" by (simp add: less_mult_imp_div_less)
  then have i: "stm_aBlocks ?s ! ?j \<in> set (stm_aBlocks ?s)" by simp
  obtain a m1 b where s: "mh_seat (stm_aBlocks ?s ! ?j) h m = Inr (a, h\<lparr>mh_pCurBlock := Some a\<rparr>, m1)" "ro_same m m1"
    "ro_ok m1 (h\<lparr>mh_pCurBlock := Some a\<rparr>)" "my_blocks m1 = [a \<mapsto> b]"
    "blk_pData b = piece ?bs (fl_data (my_sStore m)) (stm_aBlocks ?s ! ?j)"
    using ro_seat [OF ok i] by blast
  define k where "k = min (min (?bs - ?o) n) (stm_iSize ?s - pos)"
  have o: "?o < ?bs" using bs by simp
  have k: "0 < k" "k \<le> n" "?o + k \<le> ?bs" using o n by (auto simp: k_def)
  have jb: "?j < length ?ps" using j by simp
  have data: "blk_pData b = ?ps ! ?j" using s(5) j by simp
  have lb: "length (?ps ! ?j) = ?bs" using ro_pieces [OF ok] jb by simp
  define xs where "xs = take k (drop ?o (?ps ! ?j))"
  have lx: "length xs = k" using k lb by (simp add: xs_def)
  have xs: "xs = take k (drop pos (ro_src m h))"
    using concat_block_read [OF ro_pieces [OF ok] jb k(3)] by (simp add: xs_def ro_src_def)
  have "int (?bs - ?o) = int ?bs - int ?o" by (rule of_nat_diff) (use bs in simp)
  then have amnt: "min (min (int ?bs - int ?o) (int n)) (int (stm_iSize ?s) - int pos) = int k"
    using n(2) by (simp add: k_def of_nat_min of_nat_diff [OF le_trans [OF le_add1 n(2)]] del: of_nat_mod zmod_int)
  have ld: "mem_load (blk_pData b) (int ?o) (int k) = Inr xs"
    using k lb by (simp add: mem_load_def data xs_def)
  have "mh_read_step n h m = Inr (xs, h\<lparr>mh_pCurBlock := Some a\<rparr>\<lparr>mh_iPos := int pos + int k\<rparr>, m1)"
    using s(1,4) ld bs unfolding mh_read_step_def ro_stream_at [OF ok] pos
    by (simp add: Let_def amnt j block_at_def)
  moreover have "ro_ok m1 (h\<lparr>mh_pCurBlock := Some a\<rparr>\<lparr>mh_iPos := int pos + int k\<rparr>)" using s(3) unfolding ro_pos .
  ultimately show ?thesis using s(2) k xs
    by (intro exI [of _ k] exI [of _ "h\<lparr>mh_pCurBlock := Some a\<rparr>\<lparr>mh_iPos := int pos + int k\<rparr>"] exI [of _ m1]) simp
qed

lemma ro_read_loop:
  "ro_ok m h \<Longrightarrow> mh_iPos h = int pos \<Longrightarrow> pos + n \<le> stm_iSize (strm m (mh_pStream h)) \<Longrightarrow>
   pos + n \<le> length (stm_aBlocks (strm m (mh_pStream h))) * my_iBlockSize m \<Longrightarrow>
   \<exists>h' m'. mh_read_loop n h m = Some (Inr (take n (drop pos (ro_src m h)), h', m')) \<and> ro_ok m' h' \<and> ro_same m m' \<and>
     mh_pStream h' = mh_pStream h \<and> mh_iPos h' = int (pos + n)"
proof (induction n arbitrary: m h pos rule: less_induct)
  case (less n)
  show ?case
  proof (cases "n = 0")
    case True
    with less.prems show ?thesis by (subst mh_read_loop.simps) simp
  next
    case False
    then have "0 < n" by simp
    from ro_read_step [OF less.prems(1,2) this less.prems(3,4)]
    obtain k h1 m1 where s: "mh_read_step n h m = Inr (take k (drop pos (ro_src m h)), h1, m1)" "ro_ok m1 h1"
      "ro_same m m1" "mh_pStream h1 = mh_pStream h" "mh_iPos h1 = int (pos + k)" "0 < k" "k \<le> n" by blast
    have src: "length (ro_src m h) = length (stm_aBlocks (strm m (mh_pStream h))) * my_iBlockSize m"
      using length_concat_blocks [OF ro_pieces [OF less.prems(1)]] by (simp add: ro_src_def)
    have lk: "length (take k (drop pos (ro_src m h))) = k" using less.prems(4) s(7) by (simp add: src)
    have sm: "strm m1 = strm m" "my_iBlockSize m1 = my_iBlockSize m" "ro_src m1 h1 = ro_src m h"
      using ro_same_strm [OF s(3)] s(3) ro_same_src [OF s(3,4)] by (simp_all add: ro_same_def)
    have "n - k < n" "pos + k + (n - k) \<le> stm_iSize (strm m1 (mh_pStream h1))"
      "pos + k + (n - k) \<le> length (stm_aBlocks (strm m1 (mh_pStream h1))) * my_iBlockSize m1"
      using s(6,7) less.prems by (simp_all add: sm s(4))
    from less.IH [OF this(1) s(2,5) this(2,3)] obtain h2 m2 where r:
      "mh_read_loop (n - k) h1 m1 = Some (Inr (take (n - k) (drop (pos + k) (ro_src m h)), h2, m2))" "ro_ok m2 h2"
      "ro_same m1 m2" "mh_pStream h2 = mh_pStream h" "mh_iPos h2 = int (pos + k + (n - k))"
      unfolding sm(3) s(4) by blast
    have "take n (drop pos (ro_src m h)) = take (k + (n - k)) (drop pos (ro_src m h))" using s(7) by simp
    also have "\<dots> = take k (drop pos (ro_src m h)) @ take (n - k) (drop (pos + k) (ro_src m h))"
      unfolding take_add by (simp add: add.commute)
    finally have "mh_read_loop n h m = Some (Inr (take n (drop pos (ro_src m h)), h2, m2))"
      using False s(1) r(1) lk by (subst mh_read_loop.simps) simp
    moreover have "ro_same m m2" using s(3) r(3) by (rule ro_same_trans)
    ultimately show ?thesis using r(2,4,5) s(7) by simp
  qed
qed

section \<open>An int of the header\<close>

lemma int_bytes_le: "int_bytes i = le_bytes (word_of_int i)"
proof -
  have b: "(word_of_int (i div 2 ^ n) :: byte) = ucast (drop_bit n (word_of_int i :: 32 word))" if "n \<le> 24" for n
    by (rule bit_word_eqI) (use that in \<open>auto simp: bit_simps simp flip: drop_bit_eq_div\<close>)
  have "[0..<4] = [0, 1, 2, 3 :: nat]" by (simp add: upt_rec numeral_eq_Suc)
  then show ?thesis using b [of 0] b [of 8] b [of 16] b [of 24] by (simp add: int_bytes_def le_bytes_def)
qed

lemma le_word_int: "- (2 ^ 31) \<le> i \<Longrightarrow> i < 2 ^ 31 \<Longrightarrow> sint (le_word (int_bytes i)) = i"
  unfolding int_bytes_le le_word_bytes
  by (simp add: sint_uint uint_word_of_int_eq signed_take_bit_take_bit signed_take_bit_int_eq_self)

text \<open>The text of a header is in the blocks \<open>B\<close>, of which the handle's stream may know the first few.\<close>

definition hdr_src :: "nat \<Rightarrow> byte list \<Rightarrow> nat list \<Rightarrow> byte list \<Rightarrow> bool" where
  "hdr_src bs d B t \<longleftrightarrow> t = take (length t) (concat (map (piece bs d) B)) \<and> (\<forall>i \<in> set B. Suc i * bs \<le> length d)"

lemma prefix_src:
  assumes "hdr_src bs d B t" "prefix B' B" "n \<le> length t" "n \<le> length B' * bs"
  shows "take n (concat (map (piece bs d) B')) = take n t"
proof -
  obtain C where B: "B = B' @ C" using assms(2) by (auto simp: prefix_def)
  have "\<forall>b \<in> set (map (piece bs d) B'). length b = bs" using assms(1) by (auto simp: hdr_src_def B intro: length_piece)
  from length_concat_blocks [OF this] have l: "n \<le> length (concat (map (piece bs d) B'))" using assms(4) by simp
  have "take n t = take n (take (length t) (concat (map (piece bs d) B)))" using assms(1) by (simp add: hdr_src_def)
  also have "\<dots> = take n (concat (map (piece bs d) B))" using assms(3) by (simp add: min_absorb1)
  also have "\<dots> = take n (concat (map (piece bs d) B'))" using l by (simp add: B)
  finally show ?thesis by simp
qed

lemma my_getInt_ok:
  assumes ok: "ro_ok m h" and pos: "mh_iPos h = int pos"
    and src: "hdr_src (my_iBlockSize m) (fl_data (my_sStore m)) B t" "prefix (stm_aBlocks (strm m (mh_pStream h))) B"
    and room: "pos + 4 \<le> stm_iSize (strm m (mh_pStream h))"
      "pos + 4 \<le> length (stm_aBlocks (strm m (mh_pStream h))) * my_iBlockSize m"
    and t: "drop pos t = int_bytes i @ rest" and i: "- (2 ^ 31) \<le> i" "i < 2 ^ 31"
  shows "\<exists>h' m'. my_getInt h m = Some (Inr (i, h', m')) \<and> ro_ok m' h' \<and> ro_same m m' \<and>
    mh_pStream h' = mh_pStream h \<and> mh_iPos h' = int (pos + 4)"
proof -
  obtain h' m' where r: "mh_read_loop 4 h m = Some (Inr (take 4 (drop pos (ro_src m h)), h', m'))" "ro_ok m' h'" "ro_same m m'"
    "mh_pStream h' = mh_pStream h" "mh_iPos h' = int (pos + 4)" using ro_read_loop [OF ok pos room] by blast
  have "length (drop pos t) = length (int_bytes i @ rest)" unfolding t ..
  then have lt: "pos + 4 \<le> length t" by simp
  have "take 4 (drop pos (ro_src m h)) = drop pos (take (pos + 4) (ro_src m h))" by (simp add: drop_take)
  also have "\<dots> = drop pos (take (pos + 4) t)" using prefix_src [OF src lt room(2)] by (simp add: ro_src_def)
  also have "\<dots> = take 4 (drop pos t)" by (simp add: drop_take)
  also have "\<dots> = int_bytes i" by (simp add: t)
  finally have "mh_read_loop 4 h m = Some (Inr (int_bytes i, h', m'))" using r(1) by simp
  moreover have "\<not> 4 > int (stm_iSize (strm m (mh_pStream h))) - mh_iPos h" using room(1) pos by simp
  then have "mh_read h 4 m = mh_read_loop 4 h m"
    unfolding mh_read_def ro_stream_at [OF ok] sum.case Let_def by simp
  ultimately show ?thesis using r(2-5) le_word_int [OF i] by (simp add: my_getInt_def)
qed

end
