(* ===== verification/Bu_MyriadSync.thy ===== *)
theory Bu_MyriadSync
  imports Bu_MyriadHeader
begin

text \<open>
  What \<open>updateHeader\<close> leaves in a store: stream 0 begins with the table of all streams, every other
  stream keeps its bytes, and the block accounting stays right.
\<close>

section \<open>Writing inside a stream\<close>

lemma mh_write_step_rest:
  assumes ok: "mh_ok m h" and pos: "mh_iPos h = int pos" and n: "pos + length bytes \<le> length (mh_bytes m h)" "bytes \<noteq> []"
    and st: "mh_write_step bytes h m = Inr (k, h', m')"
  shows "my_rest m m'"
proof -
  let ?p = "mh_pStream h" and ?bs = "my_iBlockSize m"
  let ?s = "strm m ?p" and ?j = "pos div ?bs"
  have bs: "0 < ?bs" using ok by (simp add: mh_ok_def my_alloc_def)
  have sz: "pos < stm_iSize ?s" using n mh_bytes_length [OF ok] by (cases bytes) simp_all
  then have "pos < length (stm_aBlocks ?s) * ?bs" using mh_ok_size [OF ok] mh_blocks_total [OF ok] by simp
  then have j: "?j < length (stm_aBlocks ?s)" by (simp add: less_mult_imp_div_less)
  obtain a h1 m1 b where s: "mh_seat (stm_aBlocks ?s ! ?j) h m = Inr (a, h1, m1)" "my_rest m m1"
    "my_blocks m1 = [a \<mapsto> b]" "h1 = h\<lparr>mh_pCurBlock := Some a\<rparr>"
    using mh_seat_ok [OF ok, of "stm_aBlocks ?s ! ?j"] j by auto
  have st1: "stream_at m1 ?p = Inr ?s" using mh_stream_at [OF ok] s(2) by (simp add: stream_at_def my_rest_def)
  have "\<exists>d. m' = m1\<lparr>my_blocks := (my_blocks m1)(a \<mapsto> b\<lparr>blk_pData := d, blk_bChanged := True\<rparr>)\<rparr>"
    using st s(1,3) j sz bs unfolding mh_write_step_def mh_stream_at [OF ok] pos
    by (auto simp: Let_def block_at_def st1 rbind_eq_Inr)
  with s(2) show ?thesis by (auto simp: my_rest_def)
qed

lemma mh_write_loop_inside:
  "mh_ok m h \<Longrightarrow> mh_iPos h = int pos \<Longrightarrow> pos + length bytes \<le> length (mh_bytes m h) \<Longrightarrow>
   \<exists>h' m'. mh_write_loop bytes h m = Some (Inr (h', m')) \<and> mh_ok m' h' \<and> mh_keeps m h m' h' \<and> my_rest m m' \<and>
     mh_iPos h' = int (pos + length bytes) \<and> mh_bytes m' h' = overwrite (mh_bytes m h) pos bytes"
proof (induction bytes arbitrary: m h pos rule: length_induct)
  case (1 bytes)
  show ?case
  proof (cases "bytes = []")
    case True
    with 1(2-) show ?thesis by (subst mh_write_loop.simps) simp
  next
    case False
    have le: "pos \<le> length (mh_bytes m h)" using 1(4) by simp
    from mh_write_step_ok [OF 1(2,3) False] le 1(4) obtain k h1 m1 where s:
      "mh_write_step bytes h m = Inr (k, h1, m1)" "mh_ok m1 h1" "mh_keeps m h m1 h1" "mh_iPos h1 = int (pos + k)"
      "0 < k" "k \<le> length bytes" "mh_bytes m1 h1 = overwrite (mh_bytes m h) pos (take k bytes)" by blast
    have rest: "my_rest m m1" by (rule mh_write_step_rest [OF 1(2,3,4) False s(1)])
    have lk: "length (take k bytes) = k" using s(6) by simp
    have "length (drop k bytes) < length bytes" using s(5) False by simp
    moreover have "pos + k + length (drop k bytes) \<le> length (mh_bytes m1 h1)"
      unfolding s(7) length_overwrite [OF le] lk using 1(4) s(6) by simp
    ultimately obtain h2 m2 where r: "mh_write_loop (drop k bytes) h1 m1 = Some (Inr (h2, m2))" "mh_ok m2 h2"
      "mh_keeps m1 h1 m2 h2" "my_rest m1 m2" "mh_iPos h2 = int (pos + k + length (drop k bytes))"
      "mh_bytes m2 h2 = overwrite (mh_bytes m1 h1) (pos + k) (drop k bytes)"
      using 1(1) s(2,4) by blast
    have "mh_write_loop bytes h m = Some (Inr (h2, m2))"
      using False s(1) r(1) by (subst mh_write_loop.simps) simp
    moreover have "mh_bytes m2 h2 = overwrite (mh_bytes m h) pos bytes"
      using overwrite_overwrite [OF le, of "take k bytes" "drop k bytes"] unfolding r(6) s(7) lk by simp
    moreover have "mh_keeps m h m2 h2" using s(3) r(3) by (rule mh_keeps_trans)
    moreover have "my_rest m m2" using rest r(4) by (rule my_rest_trans)
    ultimately show ?thesis using r(2,5) s(6) by (intro exI [of _ h2] exI [of _ m2]) simp
  qed
qed

section \<open>The text of a header\<close>

definition hdr_rec :: "nat \<Rightarrow> my_stream \<Rightarrow> byte list" where
  "hdr_rec bs s = int_bytes (stm_iId s) @ int_bytes (int (stm_iSize s)) @
     concat (map (\<lambda>b. int_bytes (int b)) (take (blkDiv (stm_iSize s) bs) (stm_aBlocks s)))"

definition hdr_text :: "nat \<Rightarrow> my_stream list \<Rightarrow> byte list" where
  "hdr_text bs ss = magic_code @ [1] @ [32] @ int_bytes (int bs) @ int_bytes (int (length ss)) @ concat (map (hdr_rec bs) ss)"

lemma length_int_list [simp]: "length (concat (map (\<lambda>b. int_bytes (f b)) xs)) = 4 * length xs"
  by (induction xs) simp_all

lemma length_hdr_rec: "length (hdr_rec bs s) = 8 + 4 * min (length (stm_aBlocks s)) (blkDiv (stm_iSize s) bs)"
  by (simp add: hdr_rec_def)

lemma length_hdr_recs: "length (concat (map (hdr_rec bs) ss)) \<le> 8 * length ss + 4 * sum_list (map (length \<circ> stm_aBlocks) ss)"
  by (induction ss) (simp_all add: length_hdr_rec)

text \<open>A header in the making: \<open>w\<close> is written, behind it the stream is as it was.\<close>

definition hdr_at :: "myriad \<Rightarrow> my_handle \<Rightarrow> byte list \<Rightarrow> my_handle \<times> myriad \<Rightarrow> bool" where
  "hdr_at m0 h0 w hm \<longleftrightarrow> mh_ok (snd hm) (fst hm) \<and> my_rest m0 (snd hm) \<and> mh_keeps m0 h0 (snd hm) (fst hm) \<and>
     mh_iPos (fst hm) = int (length w) \<and> length w \<le> length (mh_bytes m0 h0) \<and>
     mh_bytes (snd hm) (fst hm) = w @ drop (length w) (mh_bytes m0 h0)"

lemma my_put_at:
  assumes at: "hdr_at m0 h0 w hm" and fits: "length w + length bytes \<le> length (mh_bytes m0 h0)"
    and small: "length bytes < 2147483648"
  shows "\<exists>hm'. my_put bytes hm = Some (Inr hm') \<and> hdr_at m0 h0 (w @ bytes) hm'"
proof -
  have b: "mh_ok (snd hm) (fst hm)" "mh_iPos (fst hm) = int (length w)" "my_rest m0 (snd hm)" "mh_keeps m0 h0 (snd hm) (fst hm)"
    "mh_bytes (snd hm) (fst hm) = w @ drop (length w) (mh_bytes m0 h0)" using at by (simp_all add: hdr_at_def)
  have "length w + length bytes \<le> length (mh_bytes (snd hm) (fst hm))" using fits at by (simp add: hdr_at_def)
  from mh_write_loop_inside [OF b(1,2) this] obtain h' m' where w:
    "mh_write_loop bytes (fst hm) (snd hm) = Some (Inr (h', m'))" "mh_ok m' h'" "mh_keeps (snd hm) (fst hm) m' h'"
    "my_rest (snd hm) m'" "mh_iPos h' = int (length w + length bytes)"
    "mh_bytes m' h' = overwrite (mh_bytes (snd hm) (fst hm)) (length w) bytes" by blast
  have "mh_bytes m' h' = (w @ bytes) @ drop (length (w @ bytes)) (mh_bytes m0 h0)"
    unfolding w(6) b(5) by (simp add: overwrite_def add.commute)
  moreover have "my_put bytes hm = Some (Inr (h', m'))" by (simp add: my_put_def mh_write_def w(1) small)
  moreover have "my_rest m0 m'" using b(3) w(4) by (rule my_rest_trans)
  moreover have "mh_keeps m0 h0 m' h'" using b(4) w(3) by (rule mh_keeps_trans)
  ultimately show ?thesis using w(2,5) fits by (intro exI [of _ "(h', m')"]) (simp add: hdr_at_def)
qed

lemma hdr_at_stream:
  assumes at: "hdr_at m0 h0 w hm" and p: "p \<in> set (my_aStreams m0)"
  shows "stream_at (snd hm) p = Inr (strm m0 p)"
proof -
  have "my_alloc (snd hm)" "my_aStreams (snd hm) = my_aStreams m0" "strm (snd hm) = strm m0"
    using at my_rest_strm [of m0 "snd hm"] by (auto simp: hdr_at_def my_rest_def mh_ok_def)
  with my_alloc_stream [of "snd hm" p] p show ?thesis by (simp add: stream_at_def)
qed

lemma my_put_blocks_at:
  "hdr_at m0 h0 w hm \<Longrightarrow> p \<in> set (my_aStreams m0) \<Longrightarrow> \<forall>j \<in> set js. j < length (stm_aBlocks (strm m0 p)) \<Longrightarrow>
   length w + 4 * length js \<le> length (mh_bytes m0 h0) \<Longrightarrow>
   \<exists>hm'. my_put_blocks p js hm = Some (Inr hm') \<and>
     hdr_at m0 h0 (w @ concat (map (\<lambda>j. int_bytes (int (stm_aBlocks (strm m0 p) ! j))) js)) hm'"
proof (induction js arbitrary: w hm)
  case Nil
  then show ?case by simp
next
  case (Cons j js)
  let ?b = "int_bytes (int (stm_aBlocks (strm m0 p) ! j))"
  obtain hm1 where hm1: "my_put ?b hm = Some (Inr hm1)" "hdr_at m0 h0 (w @ ?b) hm1"
    using my_put_at [OF Cons.prems(1), of ?b] Cons.prems(4) by auto
  from Cons.IH [OF hm1(2) Cons.prems(2)] Cons.prems(3,4) obtain hm' where
    "my_put_blocks p js hm1 = Some (Inr hm')"
    "hdr_at m0 h0 ((w @ ?b) @ concat (map (\<lambda>j. int_bytes (int (stm_aBlocks (strm m0 p) ! j))) js)) hm'" by auto
  with hm1(1) Cons.prems(3) hdr_at_stream [OF Cons.prems(1,2)] show ?case by simp
qed

lemma blkDiv_le:
  assumes "0 < b" "n \<le> k * b"
  shows "blkDiv n b \<le> k"
proof (rule ccontr)
  assume "\<not> blkDiv n b \<le> k"
  then have "Suc k * b \<le> blkDiv n b * b" by (intro mult_le_mono1) simp
  with blkDiv_bounds(2) [OF assms(1), of n] assms(2) show False by simp
qed

lemma my_put_streams_at:
  "hdr_at m0 h0 w hm \<Longrightarrow> set ps \<subseteq> set (my_aStreams m0) \<Longrightarrow>
   length w + length (concat (map (\<lambda>p. hdr_rec (my_iBlockSize m0) (strm m0 p)) ps)) \<le> length (mh_bytes m0 h0) \<Longrightarrow>
   \<exists>hm'. my_put_streams ps hm = Some (Inr hm') \<and>
     hdr_at m0 h0 (w @ concat (map (\<lambda>p. hdr_rec (my_iBlockSize m0) (strm m0 p)) ps)) hm'"
proof (induction ps arbitrary: w hm)
  case Nil
  then show ?case by simp
next
  case (Cons p ps)
  let ?bs = "my_iBlockSize m0" and ?s = "strm m0 p"
  have p: "p \<in> set (my_aStreams m0)" using Cons.prems(2) by simp
  have sz: "my_sized m0" "0 < ?bs"
    using Cons.prems(1) my_rest_sized [of m0 "snd hm"] by (auto simp: hdr_at_def mh_ok_def my_alloc_def my_rest_def)
  then have used: "blkDiv (stm_iSize ?s) ?bs \<le> length (stm_aBlocks ?s)"
    using p by (intro blkDiv_le) (auto simp: my_sized_def)
  have len: "length (hdr_rec ?bs ?s) = 8 + 4 * blkDiv (stm_iSize ?s) ?bs" using used by (simp add: length_hdr_rec)
  have "\<exists>hm'. my_put (int_bytes (stm_iId ?s)) hm = Some (Inr hm') \<and> hdr_at m0 h0 (w @ int_bytes (stm_iId ?s)) hm'"
    by (rule my_put_at [OF Cons.prems(1)]) (use Cons.prems(3) len in simp_all)
  then obtain hm1 where hm1: "my_put (int_bytes (stm_iId ?s)) hm = Some (Inr hm1)" "hdr_at m0 h0 (w @ int_bytes (stm_iId ?s)) hm1"
    by blast
  have "\<exists>hm'. my_put (int_bytes (int (stm_iSize ?s))) hm1 = Some (Inr hm') \<and>
      hdr_at m0 h0 ((w @ int_bytes (stm_iId ?s)) @ int_bytes (int (stm_iSize ?s))) hm'"
    by (rule my_put_at [OF hm1(2)]) (use Cons.prems(3) len in simp_all)
  then obtain hm2 where hm2: "my_put (int_bytes (int (stm_iSize ?s))) hm1 = Some (Inr hm2)"
    "hdr_at m0 h0 ((w @ int_bytes (stm_iId ?s)) @ int_bytes (int (stm_iSize ?s))) hm2" by blast
  have bs2: "my_iBlockSize (snd hm2) = ?bs" using hm2(2) by (simp add: hdr_at_def my_rest_def)
  have "\<exists>hm'. my_put_blocks p [0..<blkDiv (stm_iSize ?s) ?bs] hm2 = Some (Inr hm') \<and>
     hdr_at m0 h0 (((w @ int_bytes (stm_iId ?s)) @ int_bytes (int (stm_iSize ?s))) @
       concat (map (\<lambda>j. int_bytes (int (stm_aBlocks ?s ! j))) [0..<blkDiv (stm_iSize ?s) ?bs])) hm'"
    by (rule my_put_blocks_at [OF hm2(2) p]) (use used Cons.prems(3) len in auto)
  then obtain hm3 where hm3: "my_put_blocks p [0..<blkDiv (stm_iSize ?s) ?bs] hm2 = Some (Inr hm3)"
    "hdr_at m0 h0 (((w @ int_bytes (stm_iId ?s)) @ int_bytes (int (stm_iSize ?s))) @
       concat (map (\<lambda>j. int_bytes (int (stm_aBlocks ?s ! j))) [0..<blkDiv (stm_iSize ?s) ?bs])) hm3" by blast
  have "map (\<lambda>j. int_bytes (int (stm_aBlocks ?s ! j))) [0..<blkDiv (stm_iSize ?s) ?bs] =
      map (\<lambda>b. int_bytes (int b)) (take (blkDiv (stm_iSize ?s) ?bs) (stm_aBlocks ?s))"
    using used by (intro nth_equalityI) simp_all
  then have w3: "hdr_at m0 h0 (w @ hdr_rec ?bs ?s) hm3" using hm3(2) by (simp add: hdr_rec_def)
  from Cons.IH [OF w3] Cons.prems(2,3) obtain hm' where
    "my_put_streams ps hm3 = Some (Inr hm')"
    "hdr_at m0 h0 ((w @ hdr_rec ?bs ?s) @ concat (map (\<lambda>p. hdr_rec ?bs (strm m0 p)) ps)) hm'" by auto
  moreover note hdr_at_stream [OF Cons.prems(1) p] hdr_at_stream [OF hm1(2) p] hdr_at_stream [OF hm2(2) p]
  ultimately show ?case using hm1(1) hm2(1) hm3(1) bs2 by simp
qed

text \<open>The whole header, into a stream with room for it.\<close>

lemma my_put_header_at:
  assumes ok: "mh_ok m h" "mh_iPos h = 0"
    and fits: "length (hdr_text (my_iBlockSize m) (map (strm m) (my_aStreams m))) \<le> length (mh_bytes m h)"
  shows "\<exists>hm'. my_put_header (h, m) = Some (Inr hm') \<and>
    hdr_at m h (hdr_text (my_iBlockSize m) (map (strm m) (my_aStreams m))) hm'"
proof -
  let ?bs = "my_iBlockSize m" and ?as = "my_aStreams m"
  let ?r = "concat (map (\<lambda>p. hdr_rec ?bs (strm m p)) ?as)"
  let ?t = "magic_code @ [1] @ [32] @ int_bytes (int ?bs) @ int_bytes (int (length ?as))"
  have tx: "hdr_text ?bs (map (strm m) ?as) = ?t @ ?r" by (simp add: hdr_text_def comp_def)
  have f: "length ?t + length ?r \<le> length (mh_bytes m h)" using fits unfolding tx by simp
  have lm: "length magic_code = 4" by (simp add: magic_code_def)
  have start: "hdr_at m h [] (h, m)" using ok by (simp add: hdr_at_def)
  have "\<exists>hm'. my_put magic_code (h, m) = Some (Inr hm') \<and> hdr_at m h ([] @ magic_code) hm'"
    by (rule my_put_at [OF start]) (use f lm in simp_all)
  then obtain hm1 where 1: "my_put magic_code (h, m) = Some (Inr hm1)" "hdr_at m h ([] @ magic_code) hm1" by blast
  have "\<exists>hm'. my_put [1] hm1 = Some (Inr hm') \<and> hdr_at m h (([] @ magic_code) @ [1]) hm'"
    by (rule my_put_at [OF 1(2)]) (use f lm in simp_all)
  then obtain hm2 where 2: "my_put [1] hm1 = Some (Inr hm2)" "hdr_at m h (([] @ magic_code) @ [1]) hm2" by blast
  have "\<exists>hm'. my_put [32] hm2 = Some (Inr hm') \<and> hdr_at m h ((([] @ magic_code) @ [1]) @ [32]) hm'"
    by (rule my_put_at [OF 2(2)]) (use f lm in simp_all)
  then obtain hm3 where 3: "my_put [32] hm2 = Some (Inr hm3)" "hdr_at m h ((([] @ magic_code) @ [1]) @ [32]) hm3" by blast
  have "\<exists>hm'. my_put (int_bytes (int ?bs)) hm3 = Some (Inr hm') \<and>
      hdr_at m h (((([] @ magic_code) @ [1]) @ [32]) @ int_bytes (int ?bs)) hm'"
    by (rule my_put_at [OF 3(2)]) (use f lm in simp_all)
  then obtain hm4 where 4: "my_put (int_bytes (int ?bs)) hm3 = Some (Inr hm4)"
    "hdr_at m h (((([] @ magic_code) @ [1]) @ [32]) @ int_bytes (int ?bs)) hm4" by blast
  have "\<exists>hm'. my_put (int_bytes (int (length ?as))) hm4 = Some (Inr hm') \<and>
      hdr_at m h ((((([] @ magic_code) @ [1]) @ [32]) @ int_bytes (int ?bs)) @ int_bytes (int (length ?as))) hm'"
    by (rule my_put_at [OF 4(2)]) (use f lm in simp_all)
  then obtain hm5 where 5: "my_put (int_bytes (int (length ?as))) hm4 = Some (Inr hm5)" "hdr_at m h ?t hm5" by auto
  have "\<exists>hm'. my_put_streams ?as hm5 = Some (Inr hm') \<and> hdr_at m h (?t @ ?r) hm'"
    by (rule my_put_streams_at [OF 5(2)]) (use f in simp_all)
  then obtain hm' where 6: "my_put_streams ?as hm5 = Some (Inr hm')" "hdr_at m h (?t @ ?r) hm'" by blast
  have same: "my_iBlockSize (snd hm3) = ?bs" "my_aStreams (snd hm4) = ?as" "my_aStreams (snd hm5) = ?as"
    using 3(2) 4(2) 5(2) by (simp_all add: hdr_at_def my_rest_def)
  show ?thesis
    using 1(1) 2(1) 3(1) 4(1) 5(1) 6 unfolding tx by (simp add: my_put_header_def same)
qed

section \<open>Room for the header\<close>

lemma my_header_grow_ok:
  "5 \<le> my_iBlockSize m \<Longrightarrow> my_alloc m \<Longrightarrow> p \<in> set (my_aStreams m) \<Longrightarrow>
   \<exists>n m'. my_header_grow p hs m = Some (Inr (hs + 4 * n, m')) \<and> my_extends p n m m' \<and>
     hs + 4 * n \<le> length (stm_aBlocks (strm m' p)) * my_iBlockSize m' \<and>
     (hs \<le> length (stm_aBlocks (strm m p)) * my_iBlockSize m \<longrightarrow> m' = m)"
proof (induction "hs - length (stm_aBlocks (strm m p)) * my_iBlockSize m" arbitrary: hs m rule: less_induct)
  case less
  let ?bs = "my_iBlockSize m" and ?n = "length (stm_aBlocks (strm m p))"
  have s: "stream_at m p = Inr (strm m p)" using my_alloc_stream [OF less.prems(2,3)] by (simp add: stream_at_def)
  show ?case
  proof (cases "blkDiv hs ?bs > ?n")
    case False
    have "hs \<le> blkDiv hs ?bs * ?bs" using less.prems(1) by (intro blkDiv_bounds(1)) simp
    also have "\<dots> \<le> ?n * ?bs" using False by (intro mult_le_mono1) simp
    finally have "hs \<le> ?n * ?bs" .
    moreover have "my_header_grow p hs m = Some (Inr (hs + 4 * 0, m))"
      using False s by (subst my_header_grow.simps) simp
    ultimately show ?thesis using my_extends_refl [OF less.prems(2,3)] by (intro exI [of _ 0] exI [of _ m]) simp
  next
    case True
    have big: "?n * ?bs < hs"
    proof (rule ccontr)
      assume "\<not> ?n * ?bs < hs"
      then have "blkDiv hs ?bs \<le> ?n" using less.prems(1) by (intro blkDiv_le) simp_all
      with True show False by simp
    qed
    obtain b m1 where m1: "my_streamAddBlock p m = Inr (b, m1)" "my_extends p 1 m m1" "p \<in> set (my_aStreams m1)"
      using my_streamAddBlock_extends [OF less.prems(2,3)] by blast
    then have a1: "my_alloc m1" "my_iBlockSize m1 = ?bs" by (auto simp: my_extends_def my_frame_def)
    have n1: "length (stm_aBlocks (strm m1 p)) = ?n + 1"
      using m1(2) by (auto simp: my_extends_def strm_def)
    have "(hs + 4) - (?n + 1) * ?bs < hs - ?n * ?bs" using big less.prems(1) by simp
    then have "hs + 4 - length (stm_aBlocks (strm m1 p)) * my_iBlockSize m1 < hs - ?n * ?bs" by (simp add: n1 a1(2))
    from less.hyps [OF this] a1 less.prems(1) m1(3) obtain n m' where r:
      "my_header_grow p (hs + 4) m1 = Some (Inr (hs + 4 + 4 * n, m'))" "my_extends p n m1 m'"
      "hs + 4 + 4 * n \<le> length (stm_aBlocks (strm m' p)) * my_iBlockSize m'" by auto
    have "my_header_grow p hs m = Some (Inr (hs + 4 * Suc n, m'))"
      using True s m1(1) r(1) by (subst my_header_grow.simps) simp
    moreover have "my_extends p (Suc n) m m'" using my_extends_trans [OF m1(2) r(2)] by simp
    moreover have "hs + 4 * Suc n = hs + 4 + 4 * n" by simp
    ultimately show ?thesis using r(3) big by (intro exI [of _ "Suc n"] exI [of _ m']) (metis not_le)
  qed
qed

lemma my_sum_blocks_ok:
  "my_alloc m \<Longrightarrow> set ps \<subseteq> set (my_aStreams m) \<Longrightarrow>
   my_sum_blocks m ps = Inr (4 * sum_list (map (\<lambda>p. length (stm_aBlocks (strm m p))) ps))"
  by (induction ps) (auto simp: stream_at_def my_alloc_stream)

section \<open>updateHeader\<close>

text \<open>Stream 0 begins with the table of the streams as they are.\<close>

definition my_headered :: "myriad \<Rightarrow> bool" where
  "my_headered m \<longleftrightarrow> (\<exists>pad. my_bytes m (hd (my_aStreams m)) =
     hdr_text (my_iBlockSize m) (map (strm m) (my_aStreams m)) @ pad)"

text \<open>Only the blocks and the size of the stream at \<open>p\<close> changed, its blocks at the end.\<close>

definition my_grown :: "nat \<Rightarrow> myriad \<Rightarrow> myriad \<Rightarrow> bool" where
  "my_grown p m m' \<longleftrightarrow>
     my_wf m' \<and> my_iBlockSize m' = my_iBlockSize m \<and> my_aStreams m' = my_aStreams m \<and> my_ids m' = my_ids m \<and>
     my_iUsed m' - int (length (my_owned m')) = my_iUsed m - int (length (my_owned m)) \<and>
     (\<exists>bs. stm_aBlocks (strm m' p) = stm_aBlocks (strm m p) @ bs) \<and>
     (\<forall>q \<in> set (my_aStreams m). q \<noteq> p \<longrightarrow> strm m' q = strm m q \<and> my_bytes m' q = my_bytes m q)"

lemma mh_ok_fresh: "my_wf m \<Longrightarrow> p \<in> set (my_aStreams m) \<Longrightarrow> mh_ok m \<lparr>mh_pStream = p, mh_pCurBlock = None, mh_iPos = x\<rparr>"
  by (simp add: mh_ok_def my_wf_def my_sized_def)

lemma mh_destroy_rest:
  assumes "mh_ok m h"
  shows "\<exists>m'. mh_destroy h m = Inr m' \<and> my_rest m m'"
  using my_releaseBlock_ok [OF assms] by (auto simp: mh_destroy_def)

lemma length_hdr_text:
  assumes "\<forall>p \<in> set as. f p = length (stm_aBlocks (g p))"
  shows "length (hdr_text bs (map g as)) \<le> 14 + 8 * length as + 4 * sum_list (map f as)"
proof -
  have "map f as = map (length \<circ> stm_aBlocks) (map g as)" using assms by simp
  then have "sum_list (map f as) = sum_list (map (length \<circ> stm_aBlocks) (map g as))" by (simp only:)
  with length_hdr_recs [of bs "map g as"] show ?thesis by (simp add: hdr_text_def magic_code_def)
qed

lemma sum_list_grow:
  "distinct as \<Longrightarrow> p \<in> set as \<Longrightarrow> f' p = f p + (n :: nat) \<Longrightarrow> \<forall>q \<in> set as. q \<noteq> p \<longrightarrow> f' q = f q \<Longrightarrow>
   sum_list (map f' as) = sum_list (map f as) + n"
proof (induction as)
  case (Cons q as)
  show ?case
  proof (cases "q = p")
    case True
    with Cons.prems have "map f' as = map f as" by auto
    then have "sum_list (map f' as) = sum_list (map f as)" by (simp only:)
    with True Cons.prems show ?thesis by simp
  next
    case False
    with Cons show ?thesis by simp
  qed
qed simp

text \<open>The stream that gets the new size and then the text.\<close>

lemma my_write_header:
  assumes wf: "my_wf m" and p: "p \<in> set (my_aStreams m)"
    and room: "hs \<le> length (stm_aBlocks (strm m p)) * my_iBlockSize m"
    and fits: "14 + 8 * length (my_aStreams m) + 4 * sum_list (map (\<lambda>q. length (stm_aBlocks (strm m q))) (my_aStreams m)) \<le> hs"
    and m1: "m1 = set_stream p ((strm m p)\<lparr>stm_iSize := hs\<rparr>) m"
  shows "\<exists>h m2 m'. my_put_header (\<lparr>mh_pStream = p, mh_pCurBlock = None, mh_iPos = 0\<rparr>, m1) = Some (Inr (h, m2)) \<and>
    mh_destroy h (m2\<lparr>my_bHeaderChanged := False\<rparr>) = Inr m' \<and> my_grown p m m' \<and> stm_iSize (strm m' p) = hs \<and>
    \<not> my_bHeaderChanged m' \<and> length (fl_data (my_sStore m')) = length (fl_data (my_sStore m)) \<and>
    (\<exists>pad. my_bytes m' p = hdr_text (my_iBlockSize m') (map (strm m') (my_aStreams m')) @ pad)"
proof -
  let ?h = "\<lparr>mh_pStream = p, mh_pCurBlock = None, mh_iPos = 0\<rparr>"
  let ?m1 = "m1\<lparr>my_bHeaderChanged := True\<rparr>"
  note ch = my_set_size_change [OF wf p room refl, folded m1]
  have st: "strm m1 q = (if q = p then (strm m p)\<lparr>stm_iSize := hs\<rparr> else strm m q)" for q
    by (simp add: m1 strm_def set_stream_def)
  have f: "my_aStreams m1 = my_aStreams m" "my_iBlockSize m1 = my_iBlockSize m" "my_iUsed m1 = my_iUsed m"
    by (simp_all add: m1 set_stream_def)
  have wf1: "my_wf m1" "my_ids m1 = my_ids m"
    and by1: "\<forall>q \<in> set (my_aStreams m). q \<noteq> p \<longrightarrow> my_bytes m1 q = my_bytes m q"
    using ch by (simp_all add: f)
  have ow: "my_owned m1 = my_owned m" using my_alloc_set_size [OF my_wf_alloc [OF wf] p] by (simp add: m1)
  have p1: "p \<in> set (my_aStreams m1)" using p by (simp add: f)
  have ok: "mh_ok m1 ?h" by (rule mh_ok_fresh [OF wf1(1) p1])
  have lb: "length (mh_bytes m1 ?h) = hs" using mh_bytes_length [OF ok] by (simp add: st)
  have "length (hdr_text (my_iBlockSize m1) (map (strm m1) (my_aStreams m1))) \<le> length (mh_bytes m1 ?h)"
    unfolding lb f(1,2) by (rule le_trans [OF length_hdr_text fits]) (simp add: st)
  from my_put_header_at [OF ok _ this] obtain h m2 where w: "my_put_header (?h, m1) = Some (Inr (h, m2))"
    "hdr_at m1 ?h (hdr_text (my_iBlockSize m1) (map (strm m1) (my_aStreams m1))) (h, m2)" by auto
  let ?t = "hdr_text (my_iBlockSize m1) (map (strm m1) (my_aStreams m1))"
  let ?m2 = "m2\<lparr>my_bHeaderChanged := False\<rparr>"
  have a: "mh_ok m2 h" "my_rest m1 m2" "mh_keeps m1 ?h m2 h" "mh_bytes m2 h = ?t @ drop (length ?t) (mh_bytes m1 ?h)"
    using w(2) by (simp_all add: hdr_at_def)
  have hp: "mh_pStream h = p" using a(3) by (simp add: mh_keeps_def)
  have flagv: "mh_view ?m2 h = mh_view m2 h" by (simp add: mh_view_def fun_eq_iff split: option.split)
  have flag: "mh_bytes ?m2 h = mh_bytes m2 h" by (simp add: mh_bytes_def flagv)
  have ok2: "mh_ok ?m2 h" using a(1) by (simp add: mh_ok_def my_sized_def cong: option.case_cong)
  have rest2: "my_rest m1 ?m2" using a(2) by (simp add: my_rest_def)
  have ids2: "my_ids ?m2 = my_ids m1" using a(3) by (simp add: mh_keeps_def)
  have "sorted_wrt (<) (my_ids ?m2)" using wf1 wf unfolding ids2 by (simp add: my_wf_def)
  from mh_destroy_ok [OF ok2 this] obtain m' where d: "mh_destroy h ?m2 = Inr m'" "my_wf m'"
    "my_change p (mh_bytes m2 h) ?m2 m'"
    "my_iUsed m' - int (length (my_owned m')) = my_iUsed ?m2 - int (length (my_owned ?m2))"
    unfolding hp flag by blast
  have rest: "my_rest m1 m'" using mh_destroy_rest [OF ok2] d(1) rest2 by (auto intro: my_rest_trans)
  have sm: "strm m' = strm m1" by (rule my_rest_strm [OF rest])
  have lst: "length (fl_data (my_sStore m')) = length (fl_data (my_sStore m))"
    using rest by (simp add: my_rest_def m1 set_stream_def)
  have fl: "\<not> my_bHeaderChanged m'"
    using d(1) by (auto simp: mh_destroy_def my_releaseBlock_def my_syncBlock_def rbind_eq_Inr block_at_def
        split: option.splits if_splits)
  have "my_aStreams m' = my_aStreams m1" "my_iBlockSize m' = my_iBlockSize m1" using rest by (simp_all add: my_rest_def)
  note f' = this
  have "my_bytes m' q = my_bytes m q" if "q \<in> set (my_aStreams m)" "q \<noteq> p" for q
  proof -
    have "my_bytes m' q = my_bytes m2 q" using d(3) that a(2) f by (simp add: my_change_def my_rest_def)
    also have "\<dots> = my_bytes m1 q" using a(3) that f by (simp add: mh_keeps_def)
    finally show ?thesis using by1 that by simp
  qed
  moreover have "my_ids m' = my_ids m" using d(3) ids2 wf1(2) by (simp add: my_change_def)
  moreover have "my_iUsed m' - int (length (my_owned m')) = my_iUsed m - int (length (my_owned m))"
    using d(4) rest2 my_rest_owned [OF rest2] f(3) ow by (simp add: my_rest_def)
  ultimately have "my_grown p m m'"
    using d(2) unfolding my_grown_def sm f' f by (simp add: st)
  moreover have "my_bytes m' p = hdr_text (my_iBlockSize m') (map (strm m') (my_aStreams m')) @ drop (length ?t) (mh_bytes m1 ?h)"
    unfolding sm f' using d(3) a(4) by (simp add: my_change_def)
  ultimately show ?thesis
    using w(1) d(1) fl lst by (intro exI [of _ h] exI [of _ m2] exI [of _ m']) (auto simp: sm st)
qed

lemma my_grown_trans:
  assumes "my_grown p m m1" "my_grown p m1 m2"
  shows "my_grown p m m2"
  using assms unfolding my_grown_def by (auto simp: append_assoc)

lemma my_extends_grown:
  assumes wf: "my_wf m" and p: "p \<in> set (my_aStreams m)" and e: "my_extends p n m m'"
  shows "my_grown p m m'"
  using my_extends_change [OF assms] e unfolding my_grown_def
  by (auto simp: my_extends_def my_frame_def my_change_def strm_def)

lemma my_updateHeader_ok:
  assumes wf: "my_wf m" and ch: "my_bHeaderChanged m" and bs: "5 \<le> my_iBlockSize m"
  shows "\<exists>m'. my_updateHeader True m = Some (Inr m') \<and> my_grown (hd (my_aStreams m)) m m' \<and> my_headered m' \<and>
    \<not> my_bHeaderChanged m' \<and>
    (14 + 8 * length (my_aStreams m) + 4 * sum_list (map (\<lambda>q. length (stm_aBlocks (strm m q))) (my_aStreams m)) \<le>
       length (stm_aBlocks (strm m (hd (my_aStreams m)))) * my_iBlockSize m \<longrightarrow>
     length (fl_data (my_sStore m')) = length (fl_data (my_sStore m)))"
proof -
  let ?as = "my_aStreams m" and ?p = "hd (my_aStreams m)" and ?l = "\<lambda>m q. length (stm_aBlocks (strm m q))"
  have ne: "?as \<noteq> []" using wf by (simp add: my_wf_def)
  then have p: "?p \<in> set ?as" by simp
  have al: "my_alloc m" using wf by (rule my_wf_alloc)
  define hs where "hs = 14 + 8 * length ?as + 4 * sum_list (map (?l m) ?as)"
  obtain n m1 where g: "my_header_grow ?p hs m = Some (Inr (hs + 4 * n, m1))" "my_extends ?p n m m1"
    "hs + 4 * n \<le> ?l m1 ?p * my_iBlockSize m1" "hs \<le> ?l m ?p * my_iBlockSize m \<longrightarrow> m1 = m"
    using my_header_grow_ok [OF bs al p] by blast
  have gr: "my_grown ?p m m1" by (rule my_extends_grown [OF wf p g(2)])
  have wf1: "my_wf m1" and as1: "my_aStreams m1 = ?as" using gr by (simp_all add: my_grown_def)
  have p1: "?p \<in> set (my_aStreams m1)" using p by (simp add: as1)
  have d: "distinct ?as" using al by (simp add: my_alloc_def)
  have len: "?l m1 ?p = ?l m ?p + n" using my_extends_change [OF wf p g(2)] by blast
  have oth: "\<forall>q \<in> set ?as. q \<noteq> ?p \<longrightarrow> ?l m1 q = ?l m q" using gr by (simp add: my_grown_def)
  have "sum_list (map (?l m1) ?as) = sum_list (map (?l m) ?as) + n" by (rule sum_list_grow [OF d p len oth])
  then have fits: "14 + 8 * length (my_aStreams m1) + 4 * sum_list (map (?l m1) (my_aStreams m1)) \<le> hs + 4 * n"
    by (simp add: as1 hs_def)
  obtain h m2 m' where w: "my_put_header (\<lparr>mh_pStream = ?p, mh_pCurBlock = None, mh_iPos = 0\<rparr>,
      set_stream ?p ((strm m1 ?p)\<lparr>stm_iSize := hs + 4 * n\<rparr>) m1) = Some (Inr (h, m2))"
    "mh_destroy h (m2\<lparr>my_bHeaderChanged := False\<rparr>) = Inr m'" "my_grown ?p m1 m'" "\<not> my_bHeaderChanged m'"
    "length (fl_data (my_sStore m')) = length (fl_data (my_sStore m1))"
    "\<exists>pad. my_bytes m' ?p = hdr_text (my_iBlockSize m') (map (strm m') (my_aStreams m')) @ pad"
    using my_write_header [OF wf1 p1 g(3) fits refl] by blast
  have sum: "my_sum_blocks m ?as = Inr (4 * sum_list (map (?l m) ?as))" by (rule my_sum_blocks_ok [OF al]) simp
  have first: "array_at ?as 0 = Inr ?p" using ne by (simp add: array_at_def hd_conv_nth)
  have s1: "stream_at m1 ?p = Inr (strm m1 ?p)"
    using my_alloc_stream [OF my_wf_alloc [OF wf1] p1] by (simp add: stream_at_def)
  have "my_updateHeader True m = Some (Inr m')"
    using ch bs g(1) s1 w(1,2) unfolding my_updateHeader_def sum first by (simp add: hs_def)
  moreover have "my_grown ?p m m'" by (rule my_grown_trans [OF gr w(3)])
  moreover have "my_headered m'"
  proof -
    have "my_aStreams m' = ?as" using w(3) as1 by (simp add: my_grown_def)
    with w(6) show ?thesis by (simp add: my_headered_def)
  qed
  moreover have "hs \<le> ?l m ?p * my_iBlockSize m \<longrightarrow> length (fl_data (my_sStore m')) = length (fl_data (my_sStore m))"
    using g(4) w(5) by auto
  ultimately show ?thesis using w(4) unfolding hs_def by blast
qed

lemma my_grown_abs:
  assumes wf: "my_wf m" and p: "p \<in> set (my_aStreams m)" and g: "my_grown p m m'"
  shows "my_abs m' = (my_abs m)(stm_iId (strm m p) \<mapsto> my_bytes m' p)"
  by (rule my_change_abs [OF wf p]) (use g in \<open>simp add: my_grown_def my_change_def\<close>)

text \<open>
  C36. \<open>updateHeader\<close> on a changed store gives stream 0 the blocks it needs and writes the table of
  all streams, itself included, to its front. No other stream changes, the invariant holds, and the
  header is marked written. Each block the header grows by makes the table longer, and the loop
  still ends.
\<close>

theorem myriad_updateHeader:
  assumes "my_wf m" "my_bHeaderChanged m" "5 \<le> my_iBlockSize m"
  shows "\<exists>m' b. my_updateHeader True m = Some (Inr m') \<and> my_wf m' \<and> my_headered m' \<and> \<not> my_bHeaderChanged m' \<and>
    my_abs m' = (my_abs m)(hd (my_ids m) \<mapsto> b) \<and>
    my_iUsed m' - int (length (my_owned m')) = my_iUsed m - int (length (my_owned m))"
proof -
  have ne: "my_aStreams m \<noteq> []" using assms(1) by (simp add: my_wf_def)
  then have p: "hd (my_aStreams m) \<in> set (my_aStreams m)" "hd (my_ids m) = stm_iId (strm m (hd (my_aStreams m)))"
    by (simp_all add: my_ids_def hd_map)
  obtain m' where u: "my_updateHeader True m = Some (Inr m')" "my_grown (hd (my_aStreams m)) m m'" "my_headered m'"
    "\<not> my_bHeaderChanged m'" using my_updateHeader_ok [OF assms] by blast
  from my_grown_abs [OF assms(1) p(1) u(2)] u p(2) show ?thesis
    by (intro exI [of _ m']) (auto simp: my_grown_def)
qed

theorem myriad_updateHeader_witness:
  "\<exists>m m' b. my_initialize 16 2 (my_new (fl_new []) 0) = Some (Inr m) \<and> my_updateHeader True m = Some (Inr m') \<and>
     my_headered m' \<and> my_abs m' = (my_abs m)(0 \<mapsto> b)"
proof -
  obtain m where m: "my_initialize 16 2 (my_new (fl_new []) 0) = Some (Inr m)" "my_wf m" "my_aStreams m = [0]"
    "my_ids m = [0]" "my_bHeaderChanged m" "my_iBlockSize m = 16"
    using my_initialize_form [of 16 2 "fl_new []" 0] by auto
  from myriad_updateHeader [OF m(2,5)] m(1,4,6) show ?thesis by auto
qed

end
