(* ===== verification/Bu_MyriadLoad.thy ===== *)
theory Bu_MyriadLoad
  imports Bu_MyriadRead Bu_MyriadSync
begin

text \<open>
  \<open>initialize()\<close> on a store whose header \<open>updateHeader\<close> wrote: the streams come back with their ids,
  sizes and blocks, and what no stream has is free.
\<close>

section \<open>The tables in the making\<close>

text \<open>
  \<open>ss\<close> are the streams so far, the last of them perhaps with a part of its blocks; the bit string has
  exactly their blocks.
\<close>

definition ld_inv :: "byte list \<Rightarrow> nat \<Rightarrow> nat \<Rightarrow> my_stream list \<Rightarrow> my_handle \<Rightarrow> bit_string \<Rightarrow> myriad \<Rightarrow> bool" where
  "ld_inv d bs n ss h b m \<longleftrightarrow>
     ro_ok m h \<and> my_iBlockSize m = bs \<and> fl_data (my_sStore m) = d \<and> my_iBlocks m = n \<and> my_lFreeBlocks m = [] \<and>
     \<not> my_bHeaderChanged m \<and> distinct (my_aStreams m) \<and> set (my_aStreams m) \<subseteq> dom (my_streams m) \<and>
     (\<forall>q \<ge> my_next m. my_streams m q = None) \<and> map (strm m) (my_aStreams m) = ss \<and>
     my_iUsed m = int (length (concat (map stm_aBlocks ss))) \<and> bs_wf b \<and> length (bs_bits b) = n \<and>
     (\<forall>i < n. bs_bits b ! i \<longleftrightarrow> i \<in> set (concat (map stm_aBlocks ss)))"

lemma ld_inv_same: "ld_inv d bs n ss h b m \<Longrightarrow> ro_same m m' \<Longrightarrow> ro_ok m' h' \<Longrightarrow> ld_inv d bs n ss h' b m'"
  using ro_same_strm [of m m'] by (auto simp: ld_inv_def ro_same_def)

lemma ld_inv_last:
  assumes "ld_inv d bs n (ss @ [c]) h b m"
  shows "\<exists>ps p. my_aStreams m = ps @ [p] \<and> strm m p = c \<and> p \<notin> set ps \<and> map (strm m) ps = ss \<and> my_streams m p = Some c"
proof -
  have e: "map (strm m) (my_aStreams m) = ss @ [c]" using assms by (simp add: ld_inv_def)
  then have "my_aStreams m \<noteq> []" by auto
  then obtain ps p where ps: "my_aStreams m = ps @ [p]" by (meson rev_exhaust)
  with assms have "p \<notin> set ps" "p \<in> dom (my_streams m)" by (auto simp: ld_inv_def)
  with ps e show ?thesis by (intro exI [of _ ps] exI [of _ p]) (auto simp: strm_def)
qed

text \<open>What can be read of the header at a position, and what is there.\<close>

definition ld_read :: "byte list \<Rightarrow> nat list \<Rightarrow> nat \<Rightarrow> nat \<Rightarrow> my_handle \<Rightarrow> myriad \<Rightarrow> bool" where
  "ld_read t B pos lim h m \<longleftrightarrow>
     hdr_src (my_iBlockSize m) (fl_data (my_sStore m)) B t \<and> prefix (stm_aBlocks (strm m (mh_pStream h))) B \<and>
     mh_iPos h = int pos \<and> lim \<le> stm_iSize (strm m (mh_pStream h)) \<and>
     lim \<le> length (stm_aBlocks (strm m (mh_pStream h))) * my_iBlockSize m"

lemma ld_getInt:
  assumes inv: "ld_inv d bs n ss h b m" and rd: "ld_read t B pos lim h m" "pos + 4 \<le> lim"
    and t: "drop pos t = int_bytes i @ rest" and i: "- (2 ^ 31) \<le> i" "i < 2 ^ 31"
  shows "\<exists>h' m'. my_getInt h m = Some (Inr (i, h', m')) \<and> ld_inv d bs n ss h' b m' \<and> ld_read t B (pos + 4) lim h' m' \<and>
    ro_same m m' \<and> mh_pStream h' = mh_pStream h"
proof -
  have ok: "ro_ok m h" using inv by (simp add: ld_inv_def)
  have r: "mh_iPos h = int pos" "hdr_src (my_iBlockSize m) (fl_data (my_sStore m)) B t"
    "prefix (stm_aBlocks (strm m (mh_pStream h))) B" "pos + 4 \<le> stm_iSize (strm m (mh_pStream h))"
    "pos + 4 \<le> length (stm_aBlocks (strm m (mh_pStream h))) * my_iBlockSize m"
    using rd by (auto simp: ld_read_def)
  from my_getInt_ok [OF ok r t i] obtain h' m' where g: "my_getInt h m = Some (Inr (i, h', m'))" "ro_ok m' h'"
    "ro_same m m'" "mh_pStream h' = mh_pStream h" "mh_iPos h' = int (pos + 4)" by blast
  have "ld_read t B (pos + 4) lim h' m'"
    using rd(1) g(3,4,5) ro_same_strm [OF g(3)] by (simp add: ld_read_def) (simp add: ro_same_def)
  with g ld_inv_same [OF inv g(3,2)] show ?thesis by blast
qed

text \<open>A stream gets a new record; if the handle reads through it, the new blocks are in the store.\<close>

lemma ro_ok_set_stream:
  assumes "ro_ok m h" "p = mh_pStream h \<longrightarrow> (\<forall>i \<in> set (stm_aBlocks s). Suc i * my_iBlockSize m \<le> length (fl_data (my_sStore m)))"
  shows "ro_ok (set_stream p s m) h"
  using assms by (auto simp: ro_ok_def strm_def set_stream_def split: option.splits)

lemma ld_inv_set_stream:
  assumes inv: "ld_inv d bs n (ss @ [c]) h b m" and p: "my_aStreams m = ps @ [p]"
    and c': "stm_aBlocks c' = stm_aBlocks c"
  shows "ld_inv d bs n (ss @ [c']) h b (set_stream p c' m)"
proof -
  have q: "strm m p = c" "p \<notin> set ps" "map (strm m) ps = ss" "my_streams m p = Some c"
    using ld_inv_last [OF inv] p by auto
  define m2 where "m2 = set_stream p c' m"
  have f: "my_iBlockSize m2 = my_iBlockSize m" "my_sStore m2 = my_sStore m" "my_iBlocks m2 = my_iBlocks m"
    "my_lFreeBlocks m2 = my_lFreeBlocks m" "my_bHeaderChanged m2 = my_bHeaderChanged m" "my_aStreams m2 = ps @ [p]"
    "my_next m2 = my_next m" "my_iUsed m2 = my_iUsed m" "my_streams m2 = (my_streams m)(p \<mapsto> c')"
    by (simp_all add: m2_def set_stream_def p)
  have ok: "ro_ok m h" using inv by (simp add: ld_inv_def)
  have "ro_ok m2 h"
    unfolding m2_def by (rule ro_ok_set_stream [OF ok]) (use ok q(1) c' in \<open>auto simp: ro_ok_def\<close>)
  moreover have "map (strm m2) ps = ss" "strm m2 p = c'" using q(2,3) by (auto simp: f strm_def)
  moreover have "p < my_next m" using inv q(4) by (force simp: ld_inv_def not_less [symmetric])
  ultimately have "ld_inv d bs n (ss @ [c']) h b m2"
    using inv c' q(2,4) unfolding ld_inv_def f p by auto
  then show ?thesis by (simp add: m2_def)
qed

lemma my_load_block_ok:
  assumes inv: "ld_inv d bs n (ss @ [c]) h b m" and p: "my_aStreams m = ps @ [p]"
    and rd: "ld_read t B pos lim h m" "pos + 4 \<le> lim" and t: "drop pos t = int_bytes (int i) @ rest"
    and i: "i < n" "Suc i * bs \<le> length d" "n \<le> 2 ^ 31"
  shows "\<exists>h' b' m'. my_load_block p (h, b, m) = Some (Inr (h', b', m')) \<and>
    ld_inv d bs n (ss @ [c\<lparr>stm_aBlocks := stm_aBlocks c @ [i]\<rparr>]) h' b' m' \<and> mh_pStream h' = mh_pStream h \<and>
    mh_iPos h' = int (pos + 4) \<and> my_aStreams m' = my_aStreams m \<and>
    my_streams m' = (my_streams m)(p \<mapsto> c\<lparr>stm_aBlocks := stm_aBlocks c @ [i]\<rparr>)"
proof -
  let ?c = "c\<lparr>stm_aBlocks := stm_aBlocks c @ [i]\<rparr>"
  have i31: "- (2 ^ 31) \<le> int i" "int i < 2 ^ 31" using i(1,3) by simp_all
  obtain h' m' where g: "my_getInt h m = Some (Inr (int i, h', m'))" "ld_inv d bs n (ss @ [c]) h' b m'"
    "ld_read t B (pos + 4) lim h' m'" "ro_same m m'" "mh_pStream h' = mh_pStream h"
    using ld_getInt [OF inv rd t i31] by blast
  have p': "my_aStreams m' = ps @ [p]" using g(4) p by (simp add: ro_same_def)
  have q: "strm m' p = c" "p \<notin> set ps" "map (strm m') ps = ss" "my_streams m' p = Some c"
    using ld_inv_last [OF g(2)] p' by auto
  have f: "my_iBlockSize m' = bs" "fl_data (my_sStore m') = d" "ro_ok m' h'" "bs_wf b" "length (bs_bits b) = n"
    using g(2) by (simp_all add: ld_inv_def)
  obtain b' where b': "bs_setBit b (int i) True = Inr b'" "bs_wf b'" "bs_bits b' = (bs_bits b)[i := True]"
    using bs_setBit_wf [OF f(4), of i True] i(1) f(5) by auto
  define m2 where "m2 = set_stream p ?c (m'\<lparr>my_iUsed := my_iUsed m' + 1\<rparr>)"
  have f2: "my_iBlockSize m2 = my_iBlockSize m'" "my_sStore m2 = my_sStore m'" "my_iBlocks m2 = my_iBlocks m'"
    "my_lFreeBlocks m2 = my_lFreeBlocks m'" "my_bHeaderChanged m2 = my_bHeaderChanged m'" "my_aStreams m2 = ps @ [p]"
    "my_next m2 = my_next m'" "my_iUsed m2 = my_iUsed m' + 1" "my_streams m2 = (my_streams m')(p \<mapsto> ?c)"
    by (simp_all add: m2_def set_stream_def p')
  have "ro_ok (m'\<lparr>my_iUsed := my_iUsed m' + 1\<rparr>) h'"
    using f(3) by (auto simp: ro_ok_def strm_def split: option.splits)
  then have "ro_ok m2 h'"
    unfolding m2_def by (rule ro_ok_set_stream) (use f i(2) q(1) in \<open>auto simp: ro_ok_def\<close>)
  moreover have "map (strm m2) ps = ss" "strm m2 p = ?c" using q(2,3) by (auto simp: f2 strm_def)
  moreover have "p < my_next m'" using g(2) q(4) by (force simp: ld_inv_def not_less [symmetric])
  moreover have "\<forall>j < n. bs_bits b' ! j \<longleftrightarrow> j \<in> set (concat (map stm_aBlocks (ss @ [?c])))"
  proof (intro allI impI)
    fix j assume j: "j < n"
    have "bs_bits b ! j \<longleftrightarrow> j \<in> set (concat (map stm_aBlocks (ss @ [c])))" using g(2) j by (simp add: ld_inv_def)
    with j f(5) show "bs_bits b' ! j \<longleftrightarrow> j \<in> set (concat (map stm_aBlocks (ss @ [?c])))"
      by (cases "j = i") (auto simp: b'(3))
  qed
  ultimately have "ld_inv d bs n (ss @ [?c]) h' b' m2"
    using g(2) b'(2,3) q(2,4) unfolding ld_inv_def f2 p' by auto
  moreover have "my_load_block p (h, b, m) = Some (Inr (h', b', m2))"
    using g(1) q(4) b'(1) by (simp add: my_load_block_def stream_at_def m2_def)
  moreover have "mh_iPos h' = int (pos + 4)" using g(3) by (simp add: ld_read_def)
  moreover have "my_streams m2 = (my_streams m)(p \<mapsto> ?c)" "my_aStreams m2 = my_aStreams m"
    using g(4) by (simp_all add: m2_def set_stream_def ro_same_def)
  ultimately show ?thesis using g(5) by blast
qed

lemma ld_read_update:
  assumes inv: "ld_inv d bs n (ss @ [c]) h b m" and p: "my_aStreams m = ps @ [p]"
    and rd: "ld_read t B pos lim h m"
    and m': "my_streams m' = (my_streams m)(p \<mapsto> c\<lparr>stm_aBlocks := stm_aBlocks c @ [i]\<rparr>)" "my_iBlockSize m' = my_iBlockSize m"
      "fl_data (my_sStore m') = fl_data (my_sStore m)"
    and h': "mh_pStream h' = mh_pStream h" "mh_iPos h' = int pos'"
    and lim': "lim' \<le> stm_iSize (strm m (mh_pStream h))"
      "lim' \<le> (length (stm_aBlocks (strm m (mh_pStream h))) + (if p = mh_pStream h then 1 else 0)) * bs"
    and pre: "p = mh_pStream h \<longrightarrow> prefix (stm_aBlocks c @ [i]) B"
  shows "ld_read t B pos' lim' h' m'"
proof -
  have c: "strm m p = c" using ld_inv_last [OF inv] p by auto
  have "my_iBlockSize m = bs" using inv by (simp add: ld_inv_def)
  then show ?thesis
    using rd c lim' pre unfolding ld_read_def m'(2,3) h' by (auto simp: strm_def m'(1) split: if_splits)
qed

text \<open>The blocks of one stream. The header's own stream becomes readable further as they come.\<close>

lemma my_load_blocks_ok:
  "ld_inv d bs n (ss @ [c]) h b m \<Longrightarrow> my_aStreams m = ps @ [p] \<Longrightarrow> ld_read t B pos lim h m \<Longrightarrow>
   \<forall>k \<in> set ks. \<not> (first \<and> k + 1 = hb) \<Longrightarrow> length ks = length is \<Longrightarrow>
   drop pos t = concat (map (\<lambda>i. int_bytes (int i)) is) @ rest \<Longrightarrow>
   \<forall>i \<in> set is. i < n \<and> Suc i * bs \<le> length d \<Longrightarrow> n \<le> 2 ^ 31 \<Longrightarrow>
   pos + 4 * length is \<le> stm_iSize (strm m (mh_pStream h)) \<Longrightarrow>
   \<forall>j < length is. pos + 4 * (j + 1) \<le> (length (stm_aBlocks (strm m (mh_pStream h))) + (if p = mh_pStream h then j else 0)) * bs \<Longrightarrow>
   p = mh_pStream h \<longrightarrow> prefix (stm_aBlocks c @ is) B \<Longrightarrow>
   \<exists>h' b' m'. my_load_blocks hb pf p first ks (h, b, m) = Some (Inr (h', b', m')) \<and>
    ld_inv d bs n (ss @ [c\<lparr>stm_aBlocks := stm_aBlocks c @ is\<rparr>]) h' b' m' \<and> mh_pStream h' = mh_pStream h \<and>
    mh_iPos h' = int (pos + 4 * length is) \<and> my_aStreams m' = my_aStreams m \<and>
    my_streams m' = (my_streams m)(p \<mapsto> c\<lparr>stm_aBlocks := stm_aBlocks c @ is\<rparr>)"
proof (induction ks arbitrary: "is" c h b m pos lim)
  case Nil
  from ld_inv_last [OF Nil.prems(1)] Nil.prems(2) have "my_streams m p = Some c" by auto
  with Nil show ?case by (auto simp: ld_read_def)
next
  case (Cons k ks)
  then obtain i js where "is": "is = i # js" by (cases "is") auto
  let ?c = "c\<lparr>stm_aBlocks := stm_aBlocks c @ [i]\<rparr>"
  have bs: "my_iBlockSize m = bs" "fl_data (my_sStore m) = d" using Cons.prems(1) by (simp_all add: ld_inv_def)
  have l0: "pos + 4 \<le> length (stm_aBlocks (strm m (mh_pStream h))) * bs"
    using Cons.prems(10) [rule_format, of 0] by (simp add: "is" split: if_splits)
  have rd: "ld_read t B pos (pos + 4) h m"
    using Cons.prems(3,9) l0 bs by (simp add: ld_read_def "is")
  have t: "drop pos t = int_bytes (int i) @ (concat (map (\<lambda>i. int_bytes (int i)) js) @ rest)"
    using Cons.prems(6) by (simp add: "is")
  have i: "i < n" "Suc i * bs \<le> length d" using Cons.prems(7) by (simp_all add: "is")
  obtain h1 b1 m1 where s: "my_load_block p (h, b, m) = Some (Inr (h1, b1, m1))"
    "ld_inv d bs n (ss @ [?c]) h1 b1 m1" "mh_pStream h1 = mh_pStream h" "mh_iPos h1 = int (pos + 4)"
    "my_aStreams m1 = my_aStreams m" "my_streams m1 = (my_streams m)(p \<mapsto> ?c)"
    using my_load_block_ok [OF Cons.prems(1,2) rd le_refl t i Cons.prems(8)] by blast
  have f1: "my_iBlockSize m1 = my_iBlockSize m" "fl_data (my_sStore m1) = fl_data (my_sStore m)"
    using s(2) bs by (simp_all add: ld_inv_def)
  have pre: "p = mh_pStream h \<longrightarrow> prefix (stm_aBlocks c @ [i]) B"
    using Cons.prems(11) by (auto simp: "is" prefix_def)
  have rd1: "ld_read t B (pos + 4) 0 h1 m1"
    by (rule ld_read_update [OF Cons.prems(1,2) rd s(6) f1 s(3,4) _ _ pre]) simp_all
  have pc: "strm m p = c" using ld_inv_last [OF Cons.prems(1)] Cons.prems(2) by auto
  have hs: "stm_iSize (strm m1 (mh_pStream h1)) = stm_iSize (strm m (mh_pStream h))"
    "length (stm_aBlocks (strm m1 (mh_pStream h1))) =
      length (stm_aBlocks (strm m (mh_pStream h))) + (if p = mh_pStream h then 1 else 0)"
    using pc unfolding s(3) by (auto simp: strm_def s(6))
  have "\<exists>h' b' m'. my_load_blocks hb pf p first ks (h1, b1, m1) = Some (Inr (h', b', m')) \<and>
    ld_inv d bs n (ss @ [?c\<lparr>stm_aBlocks := stm_aBlocks ?c @ js\<rparr>]) h' b' m' \<and> mh_pStream h' = mh_pStream h1 \<and>
    mh_iPos h' = int (pos + 4 + 4 * length js) \<and> my_aStreams m' = my_aStreams m1 \<and>
    my_streams m' = (my_streams m1)(p \<mapsto> ?c\<lparr>stm_aBlocks := stm_aBlocks ?c @ js\<rparr>)"
  proof (rule Cons.IH [OF s(2) _ rd1])
    show "my_aStreams m1 = ps @ [p]" using s(5) Cons.prems(2) by simp
    show "\<forall>k \<in> set ks. \<not> (first \<and> k + 1 = hb)" using Cons.prems(4) by simp
    show "length ks = length js" using Cons.prems(5) by (simp add: "is")
    have "drop (pos + 4) t = drop 4 (drop pos t)" by (simp add: add.commute)
    then show "drop (pos + 4) t = concat (map (\<lambda>i. int_bytes (int i)) js) @ rest" by (simp add: t)
    show "\<forall>i \<in> set js. i < n \<and> Suc i * bs \<le> length d" using Cons.prems(7) by (simp add: "is")
    show "n \<le> 2 ^ 31" by (rule Cons.prems(8))
    show "pos + 4 + 4 * length js \<le> stm_iSize (strm m1 (mh_pStream h1))" using Cons.prems(9) by (simp add: hs "is")
    show "\<forall>j < length js. pos + 4 + 4 * (j + 1) \<le>
        (length (stm_aBlocks (strm m1 (mh_pStream h1))) + (if p = mh_pStream h1 then j else 0)) * bs"
    proof (intro allI impI)
      fix j assume "j < length js"
      then show "pos + 4 + 4 * (j + 1) \<le>
          (length (stm_aBlocks (strm m1 (mh_pStream h1))) + (if p = mh_pStream h1 then j else 0)) * bs"
        using Cons.prems(10) [rule_format, of "j + 1"] unfolding hs by (simp add: s(3) "is" split: if_splits)
    qed
    show "p = mh_pStream h1 \<longrightarrow> prefix (stm_aBlocks ?c @ js) B" using Cons.prems(11) by (simp add: s(3) "is")
  qed
  then obtain h' b' m' where r: "my_load_blocks hb pf p first ks (h1, b1, m1) = Some (Inr (h', b', m'))"
    "ld_inv d bs n (ss @ [?c\<lparr>stm_aBlocks := stm_aBlocks ?c @ js\<rparr>]) h' b' m'" "mh_pStream h' = mh_pStream h1"
    "mh_iPos h' = int (pos + 4 + 4 * length js)" "my_aStreams m' = my_aStreams m1"
    "my_streams m' = (my_streams m1)(p \<mapsto> ?c\<lparr>stm_aBlocks := stm_aBlocks ?c @ js\<rparr>)" by blast
  have "\<not> (first \<and> k + 1 = hb)" using Cons.prems(4) by simp
  with s(1) r(1) have "my_load_blocks hb pf p first (k # ks) (h, b, m) = Some (Inr (h', b', m'))" by auto
  with r(2-6) s(3,5,6) show ?case by (intro exI [of _ h'] exI [of _ b'] exI [of _ m']) (simp add: "is")
qed

lemma ld_inv_new:
  assumes inv: "ld_inv d bs n ss h b m" and c: "stm_aBlocks c = []"
    and m': "m' = (snd (new_stream c m))\<lparr>my_aStreams := my_aStreams m @ [my_next m]\<rparr>"
  shows "ld_inv d bs n (ss @ [c]) h b m'" "my_streams m' = (my_streams m)(my_next m \<mapsto> c)"
    "ld_read t B pos lim h m = ld_read t B pos lim h m'"
proof -
  let ?p = "my_next m"
  have f: "my_iBlockSize m' = my_iBlockSize m" "my_sStore m' = my_sStore m" "my_iBlocks m' = my_iBlocks m"
    "my_lFreeBlocks m' = my_lFreeBlocks m" "my_bHeaderChanged m' = my_bHeaderChanged m" "my_aStreams m' = my_aStreams m @ [?p]"
    "my_next m' = Suc ?p" "my_iUsed m' = my_iUsed m" "my_streams m' = (my_streams m)(?p \<mapsto> c)" "my_blocks m' = my_blocks m"
    by (simp_all add: m' new_stream_def set_stream_def)
  have new: "my_streams m ?p = None" "?p \<notin> set (my_aStreams m)" using inv by (auto simp: ld_inv_def)
  have hp: "mh_pStream h \<noteq> ?p" using inv new(1) by (auto simp: ld_inv_def ro_ok_def)
  then have hs: "strm m' (mh_pStream h) = strm m (mh_pStream h)" by (simp add: strm_def f)
  have "ro_ok m h" using inv by (simp add: ld_inv_def)
  then have "ro_ok m' h" using hp unfolding ro_ok_def hs f by simp
  moreover have "map (strm m') (my_aStreams m) = ss" "strm m' ?p = c"
    using inv new(2) by (auto simp: ld_inv_def strm_def f)
  ultimately show "ld_inv d bs n (ss @ [c]) h b m'" using inv new(2) c unfolding ld_inv_def f by auto
  show "my_streams m' = (my_streams m)(?p \<mapsto> c)" by (rule f)
  show "ld_read t B pos lim h m = ld_read t B pos lim h m'" by (simp add: ld_read_def f hs)
qed

lemma ld_read_set_stream:
  assumes "ld_read t B pos lim h m" "p \<noteq> mh_pStream h"
  shows "ld_read t B pos lim h (set_stream p s m)"
  using assms by (simp add: ld_read_def strm_def) (simp add: set_stream_def)

lemma my_load_head:
  assumes inv: "ld_inv d bs n ss h b m" and rd: "ld_read t B pos lim h m" "pos + 8 \<le> lim"
    and t: "drop pos t = int_bytes iId @ int_bytes (int sz) @ rest"
    and i: "- (2 ^ 31) \<le> iId" "iId < 2 ^ 31" and sz: "sz < 2 ^ 31"
  shows "\<exists>h' m'. ld_inv d bs n (ss @ [\<lparr>stm_iId = iId, stm_iSize = sz, stm_aBlocks = []\<rparr>]) h' b m' \<and>
    ld_read t B (pos + 8) lim h' m' \<and> mh_pStream h' = mh_pStream h \<and> my_aStreams m' = my_aStreams m @ [my_next m] \<and>
    my_streams m' = (my_streams m)(my_next m \<mapsto> \<lparr>stm_iId = iId, stm_iSize = sz, stm_aBlocks = []\<rparr>) \<and>
    my_load_stream hb pf j (h, b, m) = my_load_blocks hb pf (my_next m) (j = 0) [0..<blkDiv sz bs] (h', b, m')"
proof -
  let ?p = "my_next m" and ?c0 = "\<lparr>stm_iId = 0, stm_iSize = 0, stm_aBlocks = []\<rparr>"
  let ?c1 = "\<lparr>stm_iId = iId, stm_iSize = 0, stm_aBlocks = []\<rparr>" and ?c2 = "\<lparr>stm_iId = iId, stm_iSize = sz, stm_aBlocks = []\<rparr>"
  define m1 where "m1 = (snd (new_stream ?c0 m))\<lparr>my_aStreams := my_aStreams m @ [?p]\<rparr>"
  note n1 = ld_inv_new [OF inv _ m1_def]
  have i1: "ld_inv d bs n (ss @ [?c0]) h b m1" "my_streams m1 = (my_streams m)(?p \<mapsto> ?c0)" "ld_read t B pos lim h m1"
    using n1(1,2) n1(3) [of t B pos lim] rd(1) by simp_all
  have as1: "my_aStreams m1 = my_aStreams m @ [?p]" by (simp add: m1_def)
  have hp: "?p \<noteq> mh_pStream h" using inv by (auto simp: ld_inv_def ro_ok_def)
  have t1: "drop pos t = int_bytes iId @ (int_bytes (int sz) @ rest)" by (rule t)
  obtain h2 m2 where 2: "my_getInt h m1 = Some (Inr (iId, h2, m2))" "ld_inv d bs n (ss @ [?c0]) h2 b m2"
    "ld_read t B (pos + 4) lim h2 m2" "ro_same m1 m2" "mh_pStream h2 = mh_pStream h"
    using ld_getInt [OF i1(1,3) _ t1 i] rd(2) by auto
  have as2: "my_aStreams m2 = my_aStreams m @ [?p]" "my_streams m2 = (my_streams m)(?p \<mapsto> ?c0)"
    using 2(4) as1 i1(2) by (simp_all add: ro_same_def)
  define m2' where "m2' = set_stream ?p ?c1 m2"
  have i2: "ld_inv d bs n (ss @ [?c1]) h2 b m2'"
    unfolding m2'_def by (rule ld_inv_set_stream [OF 2(2) as2(1)]) simp
  have r2: "ld_read t B (pos + 4) lim h2 m2'"
    unfolding m2'_def by (rule ld_read_set_stream [OF 2(3)]) (simp add: 2(5) hp)
  have "drop (pos + 4) t = drop 4 (drop pos t)" by (simp add: add.commute)
  then have t2: "drop (pos + 4) t = int_bytes (int sz) @ rest" by (simp add: t)
  have z: "- (2 ^ 31) \<le> int sz" "int sz < 2 ^ 31" using sz by simp_all
  obtain h3 m3 where 3: "my_getInt h2 m2' = Some (Inr (int sz, h3, m3))" "ld_inv d bs n (ss @ [?c1]) h3 b m3"
    "ld_read t B (pos + 4 + 4) lim h3 m3" "ro_same m2' m3" "mh_pStream h3 = mh_pStream h2"
    using ld_getInt [OF i2 r2 _ t2 z] rd(2) by auto
  have as3: "my_aStreams m3 = my_aStreams m @ [?p]" "my_streams m3 = (my_streams m)(?p \<mapsto> ?c1)"
    using 3(4) as2 by (simp_all add: ro_same_def m2'_def set_stream_def)
  have i3: "ld_inv d bs n (ss @ [?c2]) h3 b (set_stream ?p ?c2 m3)"
    by (rule ld_inv_set_stream [OF 3(2) as3(1)]) simp
  have r3: "ld_read t B (pos + 8) lim h3 (set_stream ?p ?c2 m3)"
    by (rule ld_read_set_stream) (use 3(3,5) 2(5) hp in \<open>simp_all add: add.assoc\<close>)
  have bs3: "my_iBlockSize m3 = bs" using 3(2) by (simp add: ld_inv_def)
  have p1: "fst (new_stream ?c0 m) = ?p" by (simp add: new_stream_def)
  have "my_load_stream hb pf j (h, b, m) =
      my_load_blocks hb pf ?p (j = 0) [0..<blkDiv sz bs] (h3, b, set_stream ?p ?c2 m3)"
  proof -
    have "(snd (new_stream ?c0 m))\<lparr>my_aStreams := my_aStreams (snd (new_stream ?c0 m)) @ [?p]\<rparr> = m1"
      by (simp add: m1_def new_stream_def set_stream_def)
    with 2(1) 3(1) as2(2) as3(2) bs3 show ?thesis
      by (simp add: my_load_stream_def new_stream_def stream_at_def m2'_def)
  qed
  moreover have "my_aStreams (set_stream ?p ?c2 m3) = my_aStreams m @ [?p]"
    "my_streams (set_stream ?p ?c2 m3) = (my_streams m)(?p \<mapsto> ?c2)" by (simp_all add: set_stream_def as3)
  ultimately show ?thesis using i3 r3 3(5) 2(5)
    by (intro exI [of _ h3] exI [of _ "set_stream ?p ?c2 m3"]) simp
qed

section \<open>The streams of a header\<close>

definition my_stored :: "nat \<Rightarrow> my_stream \<Rightarrow> my_stream" where
  "my_stored bs s = s\<lparr>stm_aBlocks := take (blkDiv (stm_iSize s) bs) (stm_aBlocks s)\<rparr>"

text \<open>A stream whose numbers fit into an \<open>int\<close> and whose blocks are in the store.\<close>

definition hdr_fits :: "nat \<Rightarrow> byte list \<Rightarrow> nat \<Rightarrow> my_stream \<Rightarrow> bool" where
  "hdr_fits bs d n s \<longleftrightarrow>
     - (2 ^ 31) \<le> stm_iId s \<and> stm_iId s < 2 ^ 31 \<and> stm_iSize s < 2 ^ 31 \<and> blkDiv (stm_iSize s) bs \<le> length (stm_aBlocks s) \<and>
     (\<forall>i \<in> set (stm_aBlocks s). i < n \<and> Suc i * bs \<le> length d)"

lemma hdr_rec_stored:
  "hdr_rec bs s = int_bytes (stm_iId s) @ int_bytes (int (stm_iSize s)) @
     concat (map (\<lambda>i. int_bytes (int i)) (stm_aBlocks (my_stored bs s)))"
  by (simp add: hdr_rec_def my_stored_def)

lemma my_load_stream_ok:
  assumes inv: "ld_inv d bs n ss h b m" and rd: "ld_read t B pos (length t) h m"
    and t: "drop pos t = hdr_rec bs s @ rest" and s: "hdr_fits bs d n s" and n: "n \<le> 2 ^ 31" and j: "j \<noteq> 0"
  shows "\<exists>h' b' m'. my_load_stream hb pf j (h, b, m) = Some (Inr (h', b', m')) \<and>
    ld_inv d bs n (ss @ [my_stored bs s]) h' b' m' \<and> ld_read t B (pos + length (hdr_rec bs s)) (length t) h' m'"
proof -
  let ?c = "\<lparr>stm_iId = stm_iId s, stm_iSize = stm_iSize s, stm_aBlocks = []\<rparr>" and ?is = "stm_aBlocks (my_stored bs s)"
  let ?p = "my_next m" and ?hp = "mh_pStream h"
  have hp: "?hp \<noteq> ?p" using inv by (auto simp: ld_inv_def ro_ok_def)
  have "length (drop pos t) = length (hdr_rec bs s @ rest)" unfolding t ..
  then have lt: "pos + length (hdr_rec bs s) \<le> length t" by (simp add: length_hdr_rec)
  have lr: "length (hdr_rec bs s) = 8 + 4 * length ?is" by (simp add: hdr_rec_stored)
  have i: "- (2 ^ 31) \<le> stm_iId s" "stm_iId s < 2 ^ 31" "stm_iSize s < 2 ^ 31" using s by (simp_all add: hdr_fits_def)
  have t8: "drop pos t = int_bytes (stm_iId s) @ int_bytes (int (stm_iSize s)) @
      (concat (map (\<lambda>i. int_bytes (int i)) ?is) @ rest)" by (simp add: t hdr_rec_stored)
  have le8: "pos + 8 \<le> length t" using lt lr by simp
  obtain h1 m1 where 1: "ld_inv d bs n (ss @ [?c]) h1 b m1" "ld_read t B (pos + 8) (length t) h1 m1" "mh_pStream h1 = ?hp"
    "my_aStreams m1 = my_aStreams m @ [?p]" "my_streams m1 = (my_streams m)(?p \<mapsto> ?c)"
    "my_load_stream hb pf j (h, b, m) = my_load_blocks hb pf ?p (j = 0) [0..<blkDiv (stm_iSize s) bs] (h1, b, m1)"
    using my_load_head [OF inv rd le8 t8 i, of hb pf j] by blast
  have bs1: "my_iBlockSize m1 = bs" using 1(1) by (simp add: ld_inv_def)
  have r1: "length t \<le> stm_iSize (strm m1 ?hp)" "length t \<le> length (stm_aBlocks (strm m1 ?hp)) * bs"
    using 1(2) bs1 by (simp_all add: ld_read_def 1(3))
  have "drop (pos + 8) t = drop 8 (drop pos t)" by (simp add: add.commute)
  then have t1: "drop (pos + 8) t = concat (map (\<lambda>i. int_bytes (int i)) ?is) @ rest" by (simp add: t8)
  have "\<exists>h' b' m'. my_load_blocks hb pf ?p (j = 0) [0..<blkDiv (stm_iSize s) bs] (h1, b, m1) = Some (Inr (h', b', m')) \<and>
    ld_inv d bs n (ss @ [?c\<lparr>stm_aBlocks := stm_aBlocks ?c @ ?is\<rparr>]) h' b' m' \<and> mh_pStream h' = mh_pStream h1 \<and>
    mh_iPos h' = int (pos + 8 + 4 * length ?is) \<and> my_aStreams m' = my_aStreams m1 \<and>
    my_streams m' = (my_streams m1)(?p \<mapsto> ?c\<lparr>stm_aBlocks := stm_aBlocks ?c @ ?is\<rparr>)"
  proof (rule my_load_blocks_ok [OF 1(1,4,2) _ _ t1 _ n])
    show "\<forall>k \<in> set [0..<blkDiv (stm_iSize s) bs]. \<not> (j = 0 \<and> k + 1 = hb)" using j by simp
    show "length [0..<blkDiv (stm_iSize s) bs] = length ?is" using s by (simp add: hdr_fits_def my_stored_def)
    show "\<forall>i \<in> set ?is. i < n \<and> Suc i * bs \<le> length d"
      using s by (auto simp: hdr_fits_def my_stored_def dest!: in_set_takeD)
    show "pos + 8 + 4 * length ?is \<le> stm_iSize (strm m1 (mh_pStream h1))" using lt lr r1(1) by (simp add: 1(3))
    show "\<forall>k < length ?is. pos + 8 + 4 * (k + 1) \<le>
        (length (stm_aBlocks (strm m1 (mh_pStream h1))) + (if ?p = mh_pStream h1 then k else 0)) * bs"
      using lt lr r1(2) hp by (auto simp: 1(3))
    show "?p = mh_pStream h1 \<longrightarrow> prefix (stm_aBlocks ?c @ ?is) B" using hp by (simp add: 1(3))
  qed
  then obtain h' b' m' where r: "my_load_stream hb pf j (h, b, m) = Some (Inr (h', b', m'))"
    "ld_inv d bs n (ss @ [?c\<lparr>stm_aBlocks := stm_aBlocks ?c @ ?is\<rparr>]) h' b' m'" "mh_pStream h' = ?hp"
    "mh_iPos h' = int (pos + 8 + 4 * length ?is)"
    "my_streams m' = (my_streams m1)(?p \<mapsto> ?c\<lparr>stm_aBlocks := stm_aBlocks ?c @ ?is\<rparr>)" unfolding 1(3,6) by blast
  have "?c\<lparr>stm_aBlocks := stm_aBlocks ?c @ ?is\<rparr> = my_stored bs s" by (simp add: my_stored_def)
  then have inv': "ld_inv d bs n (ss @ [my_stored bs s]) h' b' m'" using r(2) by (simp only:)
  have "strm m' ?hp = strm m1 ?hp" using hp by (simp add: strm_def r(5))
  moreover have "my_iBlockSize m' = my_iBlockSize m1" "fl_data (my_sStore m') = fl_data (my_sStore m1)"
    using inv' 1(1) by (simp_all add: ld_inv_def)
  ultimately have "ld_read t B (pos + length (hdr_rec bs s)) (length t) h' m'"
    using 1(2,3) r(3,4) lr by (simp add: ld_read_def)
  with r(1) inv' show ?thesis by blast
qed

lemma my_load_streams_ok:
  "ld_inv d bs n ss h b m \<Longrightarrow> ld_read t B pos (length t) h m \<Longrightarrow> drop pos t = concat (map (hdr_rec bs) us) \<Longrightarrow>
   \<forall>s \<in> set us. hdr_fits bs d n s \<Longrightarrow> n \<le> 2 ^ 31 \<Longrightarrow> length js = length us \<Longrightarrow> 0 \<notin> set js \<Longrightarrow>
   \<exists>h' b' m'. my_load_streams hb pf js (h, b, m) = Some (Inr (h', b', m')) \<and>
     ld_inv d bs n (ss @ map (my_stored bs) us) h' b' m'"
proof (induction js arbitrary: us ss h b m pos)
  case Nil
  then show ?case by simp
next
  case (Cons j js)
  then obtain s vs where us: "us = s # vs" by (cases us) auto
  have t: "drop pos t = hdr_rec bs s @ concat (map (hdr_rec bs) vs)" using Cons.prems(3) by (simp add: us)
  have s: "hdr_fits bs d n s" "j \<noteq> 0" using Cons.prems(4,7) by (simp_all add: us)
  obtain h1 b1 m1 where 1: "my_load_stream hb pf j (h, b, m) = Some (Inr (h1, b1, m1))"
    "ld_inv d bs n (ss @ [my_stored bs s]) h1 b1 m1" "ld_read t B (pos + length (hdr_rec bs s)) (length t) h1 m1"
    using my_load_stream_ok [OF Cons.prems(1,2) t s(1) Cons.prems(5) s(2)] by blast
  have "drop (pos + length (hdr_rec bs s)) t = drop (length (hdr_rec bs s)) (drop pos t)" by (simp add: add.commute)
  then have t1: "drop (pos + length (hdr_rec bs s)) t = concat (map (hdr_rec bs) vs)" by (simp add: t)
  have "\<exists>h' b' m'. my_load_streams hb pf js (h1, b1, m1) = Some (Inr (h', b', m')) \<and>
     ld_inv d bs n ((ss @ [my_stored bs s]) @ map (my_stored bs) vs) h' b' m'"
    by (rule Cons.IH [OF 1(2,3) t1]) (use Cons.prems in \<open>simp_all add: us\<close>)
  with 1(1) show ?case by (simp add: us)
qed

text \<open>The exchange of the handle, and the stream it happens in.\<close>

lemma my_load_switch_ok:
  assumes inv: "ld_inv d bs n (ss @ [c]) h b m" and p: "my_aStreams m = ps @ [p]" and pf: "pf \<notin> set (my_aStreams m)"
    and c: "\<forall>i \<in> set (stm_aBlocks c). Suc i * bs \<le> length d"
  shows "\<exists>h' m'. my_load_switch pf p (h, b, m) = Inr (h', b, m') \<and> ld_inv d bs n (ss @ [c]) h' b m' \<and>
    mh_pStream h' = p \<and> mh_iPos h' = mh_iPos h \<and> my_aStreams m' = my_aStreams m \<and> strm m' p = c"
proof -
  have ok: "ro_ok m h" using inv by (simp add: ld_inv_def)
  obtain m1 where m1: "mh_destroy h m = Inr m1" "ro_same m m1" "my_blocks m1 = Map.empty"
    using ro_release [OF ok] unfolding mh_destroy_def by blast
  let ?h = "\<lparr>mh_pStream = p, mh_pCurBlock = None, mh_iPos = mh_iPos h\<rparr>"
  define m2 where "m2 = m1\<lparr>my_streams := (my_streams m1)(pf := None)\<rparr>"
  have f: "my_iBlockSize m2 = my_iBlockSize m" "fl_data (my_sStore m2) = fl_data (my_sStore m)" "my_iBlocks m2 = my_iBlocks m"
    "my_lFreeBlocks m2 = my_lFreeBlocks m" "my_bHeaderChanged m2 = my_bHeaderChanged m" "my_aStreams m2 = my_aStreams m"
    "my_iUsed m2 = my_iUsed m" "my_streams m2 = (my_streams m)(pf := None)" "my_next m \<le> my_next m2" "my_blocks m2 = Map.empty"
    using m1(2,3) by (simp_all add: m2_def ro_same_def)
  have st: "strm m2 q = strm m q" if "q \<in> set (my_aStreams m)" for q using that pf by (auto simp: strm_def f)
  have c1: "strm m p = c" "my_streams m p = Some c" using ld_inv_last [OF inv] p by auto
  have "ro_ok m2 ?h"
    using ok c c1 st [of p] p pf inv unfolding ro_ok_def f by (auto simp: ld_inv_def)
  moreover have "map (strm m2) (my_aStreams m) = map (strm m) (my_aStreams m)" using st by simp
  moreover have "set (my_aStreams m) \<subseteq> dom ((my_streams m)(pf := None))" using inv pf by (auto simp: ld_inv_def)
  moreover have "\<forall>q \<ge> my_next m2. ((my_streams m)(pf := None)) q = None" using inv f(9) by (auto simp: ld_inv_def)
  ultimately have "ld_inv d bs n (ss @ [c]) ?h b m2"
    using inv unfolding ld_inv_def f by simp
  moreover have "my_load_switch pf p (h, b, m) = Inr (?h, b, m2)" by (simp add: my_load_switch_def m1(1) m2_def)
  ultimately show ?thesis using st [of p] p c1 f(6) by auto
qed

lemma my_load_first_ok:
  assumes inv: "ld_inv d bs n [] h b m" and as: "my_aStreams m = []"
    and fake: "strm m (mh_pStream h) = \<lparr>stm_iId = 0, stm_iSize = 26, stm_aBlocks = [0]\<rparr>"
    and pos: "mh_iPos h = 14" and src: "hdr_src bs d B t" and B: "B = stm_aBlocks (my_stored bs s)" "hd B = 0"
    and t: "drop 14 t = hdr_rec bs s @ rest" "length t \<le> stm_iSize s" and s: "hdr_fits bs d n s"
    and n: "n \<le> 2 ^ 31" and bs: "30 \<le> bs"
  shows "\<exists>h' b' m'. my_load_stream 1 (mh_pStream h) 0 (h, b, m) = Some (Inr (h', b', m')) \<and>
    ld_inv d bs n [my_stored bs s] h' b' m' \<and> ld_read t B (14 + length (hdr_rec bs s)) (length t) h' m'"
proof -
  let ?pf = "mh_pStream h" and ?p = "my_next m" and ?k = "blkDiv (stm_iSize s) bs"
  let ?c = "\<lparr>stm_iId = stm_iId s, stm_iSize = stm_iSize s, stm_aBlocks = []\<rparr>"
  have pf: "?pf \<noteq> ?p" using inv by (auto simp: ld_inv_def ro_ok_def)
  have bsm: "my_iBlockSize m = bs" "fl_data (my_sStore m) = d" using inv by (simp_all add: ld_inv_def)
  have b0: "0 < bs" using bs by simp
  have lB: "length B = ?k" using s by (simp add: B(1) my_stored_def hdr_fits_def)
  have lr: "length (hdr_rec bs s) = 8 + 4 * ?k" using lB by (simp add: hdr_rec_stored B(1))
  have "length (drop 14 t) = length (hdr_rec bs s @ rest)" unfolding t(1) ..
  then have lt: "14 + (8 + 4 * ?k) \<le> length t" by (simp add: lr)
  have "0 < ?k"
  proof (rule ccontr)
    assume "\<not> 0 < ?k"
    with blkDiv_bounds(1) [OF b0, of "stm_iSize s"] lt t(2) show False by simp
  qed
  with lB B(2) obtain C where C: "B = 0 # C" by (cases B) auto
  have lC: "length C + 1 = ?k" using lB by (simp add: C)
  have room: "length t \<le> length B * bs" using blkDiv_bounds(1) [OF b0, of "stm_iSize s"] t(2) lB by simp
  have rd: "ld_read t B 14 26 h m" using src pos fake bs by (simp add: ld_read_def bsm C)
  have i: "- (2 ^ 31) \<le> stm_iId s" "stm_iId s < 2 ^ 31" "stm_iSize s < 2 ^ 31" using s by (simp_all add: hdr_fits_def)
  have inB: "\<forall>i \<in> set B. i < n \<and> Suc i * bs \<le> length d"
    using s by (auto simp: B(1) hdr_fits_def my_stored_def dest!: in_set_takeD)
  have t14: "drop 14 t = int_bytes (stm_iId s) @ int_bytes (int (stm_iSize s)) @
      (int_bytes (int 0) @ concat (map (\<lambda>i. int_bytes (int i)) C) @ rest)"
    using t(1) by (simp add: hdr_rec_stored B(1) [symmetric] C)
  obtain h1 m1 where 1: "ld_inv d bs n ([] @ [?c]) h1 b m1" "ld_read t B (14 + 8) 26 h1 m1" "mh_pStream h1 = ?pf"
    "my_aStreams m1 = my_aStreams m @ [?p]"
    "my_load_stream 1 ?pf 0 (h, b, m) = my_load_blocks 1 ?pf ?p (0 = 0) [0..<?k] (h1, b, m1)"
    using my_load_head [OF inv rd _ t14 i, of 1 ?pf 0] by auto
  have as1: "my_aStreams m1 = [] @ [?p]" using 1(4) as by simp
  have "drop (14 + 8) t = drop 8 (drop 14 t)" by simp
  then have t22: "drop (14 + 8) t = int_bytes (int 0) @ (concat (map (\<lambda>i. int_bytes (int i)) C) @ rest)" by (simp add: t14)
  have i0: "0 < n" "Suc 0 * bs \<le> length d" using inB by (simp_all add: C)
  obtain h2 b2 m2 where 2: "my_load_block ?p (h1, b, m1) = Some (Inr (h2, b2, m2))"
    "ld_inv d bs n ([] @ [?c\<lparr>stm_aBlocks := [0]\<rparr>]) h2 b2 m2" "mh_iPos h2 = int (14 + 8 + 4)" "my_aStreams m2 = [?p]"
    using my_load_block_ok [OF 1(1) as1 1(2) _ t22 i0 n] as1 by auto
  have "?pf \<notin> set (my_aStreams m2)" "my_aStreams m2 = [] @ [?p]" using pf 2(4) by simp_all
  note sw = my_load_switch_ok [OF 2(2) this(2) this(1)]
  obtain h3 m3 where 3: "my_load_switch ?pf ?p (h2, b2, m2) = Inr (h3, b2, m3)"
    "ld_inv d bs n ([] @ [?c\<lparr>stm_aBlocks := [0]\<rparr>]) h3 b2 m3" "mh_pStream h3 = ?p" "mh_iPos h3 = 26"
    "my_aStreams m3 = [?p]" "strm m3 ?p = ?c\<lparr>stm_aBlocks := [0]\<rparr>"
    using sw i0 2(3,4) by auto
  have bs3: "my_iBlockSize m3 = bs" "fl_data (my_sStore m3) = d" using 3(2) by (simp_all add: ld_inv_def)
  have rd3: "ld_read t B 26 26 h3 m3"
    using src 3(3,4,6) bs lt t(2) lC by (simp add: ld_read_def bs3 C)
  have "drop 26 t = drop 4 (drop (14 + 8) t)" by simp
  then have t26: "drop 26 t = concat (map (\<lambda>i. int_bytes (int i)) C) @ rest" unfolding t22 by simp
  have as3: "my_aStreams m3 = [] @ [?p]" using 3(5) by simp
  have "\<exists>h' b' m'. my_load_blocks 1 ?pf ?p True [1..<?k] (h3, b2, m3) = Some (Inr (h', b', m')) \<and>
    ld_inv d bs n ([] @ [?c\<lparr>stm_aBlocks := [0]\<rparr>\<lparr>stm_aBlocks := stm_aBlocks (?c\<lparr>stm_aBlocks := [0]\<rparr>) @ C\<rparr>]) h' b' m' \<and>
    mh_pStream h' = mh_pStream h3 \<and> mh_iPos h' = int (26 + 4 * length C) \<and> my_aStreams m' = my_aStreams m3 \<and>
    my_streams m' = (my_streams m3)(?p \<mapsto> ?c\<lparr>stm_aBlocks := [0]\<rparr>\<lparr>stm_aBlocks := stm_aBlocks (?c\<lparr>stm_aBlocks := [0]\<rparr>) @ C\<rparr>)"
  proof (rule my_load_blocks_ok [OF 3(2) as3 rd3 _ _ t26 _ n])
    show "\<forall>k \<in> set [1..<?k]. \<not> (True \<and> k + 1 = 1)" by simp
    show "length [1..<?k] = length C" using lC by simp
    show "\<forall>i \<in> set C. i < n \<and> Suc i * bs \<le> length d" using inB by (simp add: C)
    show "26 + 4 * length C \<le> stm_iSize (strm m3 (mh_pStream h3))" using lt t(2) lC by (simp add: 3(3,6))
    show "\<forall>j < length C. 26 + 4 * (j + 1) \<le>
        (length (stm_aBlocks (strm m3 (mh_pStream h3))) + (if ?p = mh_pStream h3 then j else 0)) * bs"
    proof (intro allI impI)
      fix j
      have "(1 + j) * 30 \<le> (1 + j) * bs" using bs by (intro mult_le_mono2)
      then show "26 + 4 * (j + 1) \<le>
          (length (stm_aBlocks (strm m3 (mh_pStream h3))) + (if ?p = mh_pStream h3 then j else 0)) * bs"
        by (simp add: 3(3,6))
    qed
    show "?p = mh_pStream h3 \<longrightarrow> prefix (stm_aBlocks (?c\<lparr>stm_aBlocks := [0]\<rparr>) @ C) B" by (simp add: C)
  qed
  then obtain h' b' m' where r: "my_load_blocks 1 ?pf ?p True [1..<?k] (h3, b2, m3) = Some (Inr (h', b', m'))"
    "ld_inv d bs n [?c\<lparr>stm_aBlocks := B\<rparr>] h' b' m'" "mh_pStream h' = ?p" "mh_iPos h' = int (26 + 4 * length C)"
    "my_streams m' = (my_streams m3)(?p \<mapsto> ?c\<lparr>stm_aBlocks := B\<rparr>)" unfolding 3(3) by (auto simp: C)
  have k0: "[0..<?k] = 0 # [1..<?k]" using \<open>0 < ?k\<close> by (simp add: upt_conv_Cons)
  have "my_load_stream 1 ?pf 0 (h, b, m) = Some (Inr (h', b', m'))"
    unfolding 1(5) k0 using 2(1) 3(1) r(1) by simp
  moreover have st: "?c\<lparr>stm_aBlocks := B\<rparr> = my_stored bs s" by (simp add: my_stored_def B(1))
  moreover have "ld_read t B (14 + length (hdr_rec bs s)) (length t) h' m'"
  proof -
    have "strm m' ?p = my_stored bs s" unfolding strm_def r(5) st by simp
    moreover have "stm_iSize (my_stored bs s) = stm_iSize s" by (simp add: my_stored_def)
    moreover have "my_iBlockSize m' = bs" "fl_data (my_sStore m') = d" using r(2) by (simp_all add: ld_inv_def)
    ultimately show ?thesis
      using src r(3,4) room t(2) lr lC by (simp add: ld_read_def B(1) [symmetric])
  qed
  ultimately show ?thesis using r(2) by (auto simp only: st)
qed

section \<open>The whole of initialize()\<close>

lemma my_free_blocks_ok:
  assumes "bs_wf b"
  shows "\<forall>j \<in> set js. j < length (bs_bits b) \<Longrightarrow> my_free_blocks b js = Inr (filter (\<lambda>j. \<not> bs_bits b ! j) js)"
proof (induction js)
  case (Cons j js)
  obtain d n where sh: "bs_shape b d n" using assms unfolding bs_wf_def by blast
  have "bs_getBit b (int j) = Inr (bs_bits b ! j)"
    by (rule bs_getBit_wf [OF sh]) (use Cons.prems bs_length_bits [OF sh] in simp)
  with Cons show ?case by simp
qed simp

lemma bs_clear_wf: "bs_wf b \<Longrightarrow> bs_bits b = replicate n False \<Longrightarrow> bs_wf (bs_clear b) \<and> bs_bits (bs_clear b) = replicate n False"
proof -
  assume wf: "bs_wf b" and bits: "bs_bits b = replicate n False"
  obtain d k where sh: "bs_shape b d k" using wf unfolding bs_wf_def by blast
  have kn: "k = n" using bs_length_bits [OF sh] bits by simp
  let ?d = "replicate (length d) 0 :: byte list"
  have sh': "bs_shape (bs_clear b) ?d k" using sh by (simp add: bs_shape_def bs_clear_def)
  have z: "\<not> bs_bit ?d i" if "i < 8 * length d" for i
  proof -
    have "i div 8 < length d" using that by simp
    then show ?thesis by (simp add: bs_bit_def)
  qed
  have room: "k \<le> 8 * length d" using sh by (simp add: bs_shape_def)
  have "bs_wf (bs_clear b)" unfolding bs_wf_def using sh' z by (intro exI [of _ ?d] exI [of _ k]) simp
  moreover have "bs_bits (bs_clear b) = replicate n False"
    unfolding bs_bits_shape [OF sh'] kn [symmetric] using z room by (intro nth_equalityI) simp_all
  ultimately show ?thesis by blast
qed

text \<open>The tables a load ends with make a Myriad that is in order.\<close>

lemma ld_inv_wf:
  assumes inv: "ld_inv d bs n ss h b m" and m': "ro_same m m'" "my_blocks m' = Map.empty"
    and m2: "m2 = m'\<lparr>my_lFreeBlocks := filter (\<lambda>j. \<not> bs_bits b ! j) [0..<n]\<rparr>"
    and dis: "distinct (concat (map stm_aBlocks ss))" and low: "\<forall>i \<in> set (concat (map stm_aBlocks ss)). i < n"
    and ids: "sorted_wrt (<) (map stm_iId ss)" and ne: "ss \<noteq> []"
    and sz: "\<forall>s \<in> set ss. stm_iSize s \<le> length (stm_aBlocks s) * bs" and room: "n * bs \<le> length d"
  shows "my_wf m2 \<and> my_iUsed m2 = int (length (my_owned m2)) \<and> map (strm m2) (my_aStreams m2) = ss \<and>
    my_iBlockSize m2 = bs \<and> fl_data (my_sStore m2) = d \<and> \<not> my_bHeaderChanged m2"
proof -
  have f: "my_iBlockSize m2 = bs" "fl_data (my_sStore m2) = d" "my_iBlocks m2 = n" "my_aStreams m2 = my_aStreams m"
    "my_lFreeBlocks m2 = filter (\<lambda>j. \<not> bs_bits b ! j) [0..<n]" "my_iUsed m2 = my_iUsed m" "my_streams m2 = my_streams m"
    "my_next m \<le> my_next m2" "my_blocks m2 = Map.empty" "\<not> my_bHeaderChanged m2"
    using inv m' by (simp_all add: m2 ro_same_def ld_inv_def)
  have st: "strm m2 = strm m" by (simp add: strm_def f fun_eq_iff)
  have ss: "map (strm m) (my_aStreams m) = ss" using inv by (simp add: ld_inv_def)
  have ow: "my_owned m2 = concat (map stm_aBlocks ss)"
    unfolding my_owned_def st f ss [symmetric] by (simp add: comp_def)
  have bits: "\<forall>i < n. bs_bits b ! i \<longleftrightarrow> i \<in> set (concat (map stm_aBlocks ss))" using inv by (simp add: ld_inv_def)
  have "set (my_owned m2 @ my_lFreeBlocks m2) = set [0..<n]"
    unfolding ow f using bits low by auto
  moreover have "distinct (my_owned m2 @ my_lFreeBlocks m2)"
    unfolding ow f using dis low bits by auto
  ultimately have "mset (my_owned m2 @ my_lFreeBlocks m2) = mset [0..<n]"
    using set_eq_iff_mset_eq_distinct [of "my_owned m2 @ my_lFreeBlocks m2" "[0..<n]"] by simp
  then have "mset (my_owned m2) + mset (my_lFreeBlocks m2) = mset [0..<my_iBlocks m2]" by (simp add: f(3))
  moreover have "0 < bs" using inv by (auto simp: ld_inv_def ro_ok_def)
  moreover have "\<forall>p. my_next m2 \<le> p \<longrightarrow> my_streams m2 p = None \<and> my_blocks m2 p = None"
    using inv f(8) by (auto simp: ld_inv_def f(7,9) dest: le_trans)
  ultimately have al: "my_alloc m2"
    using inv room unfolding my_alloc_def f(1-4) by (simp add: f(7) ld_inv_def)
  have "my_ids m2 = map stm_iId ss" unfolding my_ids_def st f(4) ss [symmetric] by simp
  moreover have "\<forall>p \<in> set (my_aStreams m2). stm_iSize (strm m2 p) \<le> length (stm_aBlocks (strm m2 p)) * my_iBlockSize m2"
    using sz unfolding st f ss [symmetric] by simp
  moreover have "my_aStreams m2 \<noteq> []" using ne ss f(4) by auto
  ultimately have "my_wf m2" using al ids f(9) by (simp add: my_wf_def)
  moreover have "my_iUsed m2 = int (length (my_owned m2))" unfolding ow f(6) using inv by (simp add: ld_inv_def)
  ultimately show ?thesis using f(1,2,10) ss st f(4) by simp
qed

text \<open>
  What a load needs of the Myriad that left the store: the table in stream 0, which begins at the
  front of the store, blocks of 30 bytes or more, and numbers that fit into an \<open>int\<close>.
\<close>

definition my_loadable :: "myriad \<Rightarrow> bool" where
  "my_loadable m \<longleftrightarrow>
     my_headered m \<and> 30 \<le> my_iBlockSize m \<and>
     stm_aBlocks (strm m (hd (my_aStreams m))) \<noteq> [] \<and> hd (stm_aBlocks (strm m (hd (my_aStreams m)))) = 0 \<and>
     (\<forall>i \<in> set (my_ids m). - (2 ^ 31) \<le> i \<and> i < 2 ^ 31) \<and> length (fl_data (my_sStore m)) < 2 ^ 31"

lemma my_stored_facts:
  assumes wf: "my_wf m" and p: "p \<in> set (my_aStreams m)"
  shows "blkDiv (stm_iSize (strm m p)) (my_iBlockSize m) \<le> length (stm_aBlocks (strm m p))"
    "stm_iSize (strm m p) \<le> length (stm_aBlocks (my_stored (my_iBlockSize m) (strm m p))) * my_iBlockSize m"
    "take (stm_iSize (strm m p)) (concat (map (piece (my_iBlockSize m) (fl_data (my_sStore m)))
       (stm_aBlocks (my_stored (my_iBlockSize m) (strm m p))))) = my_bytes m p"
proof -
  let ?bs = "my_iBlockSize m" and ?s = "strm m p"
  let ?f = "piece ?bs (fl_data (my_sStore m))" and ?k = "blkDiv (stm_iSize ?s) ?bs"
  have b0: "0 < ?bs" using wf by (simp add: my_wf_def my_alloc_def)
  have sz: "stm_iSize ?s \<le> length (stm_aBlocks ?s) * ?bs" using wf p by (simp add: my_wf_def)
  show used: "?k \<le> length (stm_aBlocks ?s)" by (rule blkDiv_le [OF b0 sz])
  have len: "length (stm_aBlocks (my_stored ?bs ?s)) = ?k" using used by (simp add: my_stored_def)
  show fit: "stm_iSize ?s \<le> length (stm_aBlocks (my_stored ?bs ?s)) * ?bs"
    unfolding len by (rule blkDiv_bounds(1) [OF b0])
  have "\<forall>b \<in> set (map ?f (take ?k (stm_aBlocks ?s))). length b = ?bs"
    using my_alloc_blocks [OF my_wf_alloc [OF wf] p] block_in_store [OF my_wf_alloc [OF wf]]
    by (auto dest!: in_set_takeD intro: length_piece)
  from length_concat_blocks [OF this] have l: "length (concat (map ?f (take ?k (stm_aBlocks ?s)))) = ?k * ?bs"
    using used by simp
  have "concat (map ?f (stm_aBlocks ?s)) = concat (map ?f (take ?k (stm_aBlocks ?s))) @ concat (map ?f (drop ?k (stm_aBlocks ?s)))"
    by (metis append_take_drop_id concat_append map_append)
  with l fit len show "take (stm_iSize ?s) (concat (map ?f (stm_aBlocks (my_stored ?bs ?s)))) = my_bytes m p"
    by (simp add: my_bytes_def my_stored_def)
qed

end
