(* ===== verification/Bu_MyriadReload.thy ===== *)
theory Bu_MyriadReload
  imports Bu_MyriadLoad
begin

text \<open>
  A Myriad that was written to its store and is opened again: \<open>initialize()\<close> as a whole, and its
  composition with \<open>updateHeader\<close>.
\<close>

section \<open>Reading the tables\<close>

lemma distinct_concat_takes:
  "distinct (concat (map f as)) \<Longrightarrow> distinct (concat (map (\<lambda>a. take (k a) (f a)) as))"
proof (induction as)
  case (Cons a as)
  have "set (concat (map (\<lambda>a. take (k a) (f a)) as)) \<subseteq> set (concat (map f as))" by (auto dest: in_set_takeD)
  then have "set (take (k a) (f a)) \<inter> set (concat (map (\<lambda>a. take (k a) (f a)) as)) = {}"
    using Cons.prems by (auto dest!: in_set_takeD)
  with Cons show ?case by simp
qed simp

text \<open>The facts about a store that can be loaded, collected.\<close>

lemma my_loadable_facts:
  assumes wf: "my_wf m" and ld: "my_loadable m"
  defines "bs \<equiv> my_iBlockSize m" and "d \<equiv> fl_data (my_sStore m)" and "s0 \<equiv> strm m (hd (my_aStreams m))"
    and "n \<equiv> length (fl_data (my_sStore m)) div my_iBlockSize m"
    and "t \<equiv> hdr_text (my_iBlockSize m) (map (strm m) (my_aStreams m))"
  shows "hdr_src bs d (stm_aBlocks (my_stored bs s0)) t" "hd (stm_aBlocks (my_stored bs s0)) = 0" "length t \<le> stm_iSize s0"
    "\<forall>p \<in> set (my_aStreams m). hdr_fits bs d n (strm m p)" "0 < n" "n \<le> 2 ^ 31" "bs \<le> length d"
    "take 14 d = magic_code @ [1] @ [32] @ int_bytes (int bs) @ int_bytes (int (length (my_aStreams m)))"
    "drop 14 t = concat (map (hdr_rec bs) (map (strm m) (my_aStreams m)))"
    "bs < 2 ^ 31" "length (my_aStreams m) < 2 ^ 31"
proof -
  let ?p = "hd (my_aStreams m)"
  have ne: "my_aStreams m \<noteq> []" and al: "my_alloc m" using wf by (simp_all add: my_wf_def)
  then have p: "?p \<in> set (my_aStreams m)" by simp
  have b30: "30 \<le> bs" and D: "length d < 2 ^ 31" using ld by (simp_all add: my_loadable_def bs_def d_def)
  have b0: "0 < bs" using b30 by simp
  note st = my_stored_facts [OF wf p, folded bs_def d_def s0_def]
  obtain pad where pad: "my_bytes m ?p = t @ pad" using ld by (auto simp: my_loadable_def my_headered_def t_def)
  have lt: "length (my_bytes m ?p) = stm_iSize s0" using my_bytes_length [OF wf p] by (simp add: s0_def)
  then show tsz: "length t \<le> stm_iSize s0" unfolding pad by simp
  have inst: "Suc i * bs \<le> length d" "i < n" if "q \<in> set (my_aStreams m)" "i \<in> set (stm_aBlocks (strm m q))" for q i
  proof -
    show r: "Suc i * bs \<le> length d"
      using block_in_store [OF al my_alloc_blocks [OF al that]] by (simp add: bs_def d_def)
    have "Suc i \<le> length d div bs" using div_le_mono [OF r, of bs] b0 by simp
    then show "i < n" by (simp add: n_def bs_def d_def)
  qed
  have "t = take (length t) (t @ pad)" by simp
  also have "\<dots> = take (length t) (concat (map (piece bs d) (stm_aBlocks (my_stored bs s0))))"
    unfolding pad [symmetric] st(3) [symmetric] using tsz by (simp add: min_absorb1)
  finally show src: "hdr_src bs d (stm_aBlocks (my_stored bs s0)) t"
    unfolding hdr_src_def using inst [OF p] by (auto simp: my_stored_def s0_def dest!: in_set_takeD)
  have t14: "14 \<le> length t" by (simp add: t_def hdr_text_def magic_code_def)
  then have "stm_aBlocks (my_stored bs s0) \<noteq> []" using st(2) tsz by auto
  then show h0: "hd (stm_aBlocks (my_stored bs s0)) = 0"
    using ld by (simp add: my_loadable_def my_stored_def s0_def hd_take)
  have z: "0 \<in> set (stm_aBlocks s0)" using ld by (metis hd_in_set my_loadable_def s0_def)
  show bd: "bs \<le> length d" using inst(1) [OF p z [unfolded s0_def]] by simp
  show n0: "0 < n" using inst(2) [OF p z [unfolded s0_def]] by simp
  have "n \<le> length d" by (simp add: n_def d_def)
  then show "n \<le> 2 ^ 31" using D by linarith
  show "bs < 2 ^ 31" using bd D by linarith
  have sized: "stm_iSize (strm m q) < 2 ^ 31" if "q \<in> set (my_aStreams m)" for q
  proof -
    have "length (my_owned m) \<le> my_iBlocks m"
      using al unfolding my_alloc_def by (metis le_add1 length_upt minus_nat.diff_0 size_mset size_union)
    moreover have "length (stm_aBlocks (strm m q)) \<le> length (my_owned m)"
      using that unfolding my_owned_def length_concat by (auto intro: member_le_sum_list)
    ultimately have "length (stm_aBlocks (strm m q)) * bs \<le> my_iBlocks m * bs" by (intro mult_le_mono1) simp
    also have "\<dots> \<le> length d" using al by (simp add: my_alloc_def bs_def d_def)
    finally have "stm_iSize (strm m q) \<le> length d" using wf that by (force simp: my_wf_def bs_def)
    with D show ?thesis by linarith
  qed
  show "\<forall>p \<in> set (my_aStreams m). hdr_fits bs d n (strm m p)"
    using ld sized inst my_stored_facts(1) [OF wf]
    by (auto simp: hdr_fits_def my_loadable_def my_ids_def bs_def)
  obtain C where C: "stm_aBlocks (my_stored bs s0) = 0 # C"
    using h0 \<open>stm_aBlocks (my_stored bs s0) \<noteq> []\<close> by (cases "stm_aBlocks (my_stored bs s0)") auto
  have "take 14 (concat (map (piece bs d) [0])) = take 14 t"
    by (rule prefix_src [OF src]) (use t14 b30 in \<open>simp_all add: C\<close>)
  then have "take 14 d = take 14 t" using b30 by (simp add: piece_def min_absorb1)
  then show "take 14 d = magic_code @ [1] @ [32] @ int_bytes (int bs) @ int_bytes (int (length (my_aStreams m)))"
    by (simp add: t_def hdr_text_def magic_code_def bs_def)
  show "drop 14 t = concat (map (hdr_rec bs) (map (strm m) (my_aStreams m)))"
    by (simp add: t_def hdr_text_def magic_code_def bs_def)
  have "8 * length us \<le> length (concat (map (hdr_rec bs) us))" for us
    by (induction us) (simp_all add: length_hdr_rec)
  from this [of "map (strm m) (my_aStreams m)"] have "8 * length (my_aStreams m) \<le> length t"
    by (simp add: t_def hdr_text_def bs_def)
  then show "length (my_aStreams m) < 2 ^ 31" using tsz sized [OF p] by (simp add: s0_def)
qed

lemma my_header_loop_30: "30 \<le> bs \<Longrightarrow> my_header_loop bs 26 0 = Some (26, 1)"
proof -
  assume b: "30 \<le> bs"
  then have "blkDiv 30 bs = 1" by (cases "bs = 30") (simp_all add: blkDiv_def)
  with b header_loop_start [of bs] show ?thesis by (simp add: my_header_loop.simps [of bs 26 "Suc 0"])
qed

lemma my_load_body_ok:
  assumes wf: "my_wf m" and ld: "my_loadable m"
    and f: "fl_data f = fl_data (my_sStore m)" "fl_pos f = 14" and m0: "m0 = (my_new f x)\<lparr>my_lFreeBlocks := []\<rparr>"
  shows "\<exists>m2. my_load_body fresh (length (fl_data (my_sStore m))) (my_iBlockSize m) (length (my_aStreams m)) m0 = Some (Inr m2) \<and>
    my_wf m2 \<and> my_iUsed m2 = int (length (my_owned m2)) \<and>
    map (strm m2) (my_aStreams m2) = map (\<lambda>p. my_stored (my_iBlockSize m) (strm m p)) (my_aStreams m) \<and>
    my_iBlockSize m2 = my_iBlockSize m \<and> fl_data (my_sStore m2) = fl_data (my_sStore m) \<and> \<not> my_bHeaderChanged m2"
proof -
  let ?bs = "my_iBlockSize m" and ?d = "fl_data (my_sStore m)" and ?as = "my_aStreams m"
  let ?s0 = "strm m (hd ?as)" and ?n = "length ?d div ?bs" and ?t = "hdr_text ?bs (map (strm m) ?as)"
  let ?fake = "\<lparr>stm_iId = 0, stm_iSize = 26, stm_aBlocks = [0]\<rparr>"
  note lf = my_loadable_facts [OF wf ld]
  have ne: "?as \<noteq> []" and al: "my_alloc m" using wf by (simp_all add: my_wf_def)
  have b30: "30 \<le> ?bs" using ld by (simp add: my_loadable_def)
  define m1 where "m1 = snd (new_stream ?fake (m0\<lparr>my_iBlockSize := ?bs, my_iBlocks := ?n\<rparr>))"
  have f1: "my_iBlockSize m1 = ?bs" "my_sStore m1 = f" "my_iBlocks m1 = ?n" "my_lFreeBlocks m1 = []" "\<not> my_bHeaderChanged m1"
    "my_aStreams m1 = []" "my_next m1 = 1" "my_iUsed m1 = 0" "my_streams m1 = [0 \<mapsto> ?fake]" "my_blocks m1 = Map.empty"
    by (simp_all add: m1_def m0 my_new_def new_stream_def set_stream_def)
  let ?h = "\<lparr>mh_pStream = 0, mh_pCurBlock = None, mh_iPos = 14\<rparr>"
  obtain b where b: "bs_new fresh fresh (int ?n) False = Inr b" "bs_wf b" "bs_bits b = replicate ?n False"
    using bs_new_bits [OF lf(5)] by blast
  have bc: "bs_wf (bs_clear b)" "bs_bits (bs_clear b) = replicate ?n False" using bs_clear_wf [OF b(2,3)] by simp_all
  have fake: "strm m1 0 = ?fake" by (simp add: strm_def f1)
  have inv: "ld_inv ?d ?bs ?n [] ?h (bs_clear b) m1"
    using bc lf(7) b30 f(1) unfolding ld_inv_def ro_ok_def f1 by (simp add: fake f1(5))
  obtain p ps where as: "?as = p # ps" using ne by (cases ?as) auto
  have t: "drop 14 ?t = hdr_rec ?bs ?s0 @ concat (map (hdr_rec ?bs) (map (strm m) ps))" using lf(9) by (simp add: as)
  have s0: "hdr_fits ?bs ?d ?n ?s0" using lf(4) ne by simp
  obtain h2 b2 m2 where 2: "my_load_stream 1 0 0 (?h, bs_clear b, m1) = Some (Inr (h2, b2, m2))"
    "ld_inv ?d ?bs ?n [my_stored ?bs ?s0] h2 b2 m2"
    "ld_read ?t (stm_aBlocks (my_stored ?bs ?s0)) (14 + length (hdr_rec ?bs ?s0)) (length ?t) h2 m2"
    using my_load_first_ok [OF inv f1(6) _ _ lf(1) refl lf(2) t lf(3) s0 lf(6) b30] fake by auto
  have "drop (14 + length (hdr_rec ?bs ?s0)) ?t = drop (length (hdr_rec ?bs ?s0)) (drop 14 ?t)" by (simp add: add.commute)
  then have t2: "drop (14 + length (hdr_rec ?bs ?s0)) ?t = concat (map (hdr_rec ?bs) (map (strm m) ps))" by (simp add: t)
  have "\<exists>h' b' m'. my_load_streams 1 0 [1..<length ?as] (h2, b2, m2) = Some (Inr (h', b', m')) \<and>
     ld_inv ?d ?bs ?n ([my_stored ?bs ?s0] @ map (my_stored ?bs) (map (strm m) ps)) h' b' m'"
    by (rule my_load_streams_ok [OF 2(2,3) t2 _ lf(6)]) (use lf(4) in \<open>auto simp: as simp del: upt_Suc\<close>)
  then obtain h3 b3 m3 where 3: "my_load_streams 1 0 [1..<length ?as] (h2, b2, m2) = Some (Inr (h3, b3, m3))"
    "ld_inv ?d ?bs ?n (map (\<lambda>p. my_stored ?bs (strm m p)) ?as) h3 b3 m3" by (auto simp: as comp_def)
  have streams: "my_load_streams 1 0 [0..<length ?as] (?h, bs_clear b, m1) = Some (Inr (h3, b3, m3))"
  proof -
    have "[0..<length ?as] = 0 # [1..<length ?as]" using ne by (simp add: upt_conv_Cons)
    with 2(1) 3(1) show ?thesis by simp
  qed
  have "ro_ok m3 h3" using 3(2) by (simp add: ld_inv_def)
  then obtain m4 where 4: "mh_destroy h3 m3 = Inr m4" "ro_same m3 m4" "my_blocks m4 = Map.empty"
    using ro_release unfolding mh_destroy_def by blast
  have b3: "bs_wf b3" "length (bs_bits b3) = ?n" "my_iBlocks m4 = ?n" using 3(2) 4(2) by (simp_all add: ld_inv_def ro_same_def)
  define m5 where "m5 = m4\<lparr>my_lFreeBlocks := filter (\<lambda>j. \<not> bs_bits b3 ! j) [0..<?n]\<rparr>"
  have free: "my_free_blocks b3 [0..<my_iBlocks m4] = Inr (filter (\<lambda>j. \<not> bs_bits b3 ! j) [0..<?n])"
    unfolding b3(3) by (rule my_free_blocks_ok [OF b3(1)]) (simp add: b3(2))
  have loop: "my_header_loop ?bs (14 + 8 + 4) 0 = Some (26, 1)" using my_header_loop_30 [OF b30] by simp
  have "my_load_body fresh (length ?d) ?bs (length ?as) m0 = Some (Inr m5)"
    unfolding my_load_body_def loop Let_def
    using b(1) streams 4(1) free f(2) f1(2,3)
    by (simp add: m1_def [symmetric] m5_def fl_tell_def) (simp add: m1_def m0 my_new_def new_stream_def set_stream_def fl_tell_def)
  moreover have "my_wf m5 \<and> my_iUsed m5 = int (length (my_owned m5)) \<and>
      map (strm m5) (my_aStreams m5) = map (\<lambda>p. my_stored ?bs (strm m p)) ?as \<and> my_iBlockSize m5 = ?bs \<and>
      fl_data (my_sStore m5) = ?d \<and> \<not> my_bHeaderChanged m5"
  proof (rule ld_inv_wf [OF 3(2) 4(2,3) m5_def])
    have "distinct (my_owned m)" using my_alloc_distinct [OF al] by simp
    from distinct_concat_takes [OF this [unfolded my_owned_def]]
    show "distinct (concat (map stm_aBlocks (map (\<lambda>p. my_stored ?bs (strm m p)) ?as)))"
      by (simp add: comp_def my_stored_def)
    show "\<forall>i \<in> set (concat (map stm_aBlocks (map (\<lambda>p. my_stored ?bs (strm m p)) ?as))). i < ?n"
      using lf(4) by (auto simp: my_stored_def hdr_fits_def dest!: in_set_takeD)
    show "sorted_wrt (<) (map stm_iId (map (\<lambda>p. my_stored ?bs (strm m p)) ?as))"
      using wf by (simp add: comp_def my_stored_def my_wf_def my_ids_def)
    show "\<forall>s \<in> set (map (\<lambda>p. my_stored ?bs (strm m p)) ?as). stm_iSize s \<le> length (stm_aBlocks s) * ?bs"
      using my_stored_facts(2) [OF wf] by (auto simp: my_stored_def)
    show "?n * ?bs \<le> length ?d" by (rule div_times_less_eq_dividend)
  qed (use ne in simp)
  ultimately show ?thesis by blast
qed

section \<open>From the first byte\<close>

lemma fl_read_at:
  "k + n \<le> length (fl_data f) \<Longrightarrow> 0 < n \<Longrightarrow>
   fl_read (f\<lparr>fl_pos := k\<rparr>) (int n) = Inr (take n (drop k (fl_data f)), f\<lparr>fl_pos := k + n\<rparr>)"
  using fl_read_inside [of "f\<lparr>fl_pos := k\<rparr>" n] by simp

lemma take_drop_front: "take n ds = xs \<Longrightarrow> k + j \<le> n \<Longrightarrow> take j (drop k ds) = take j (drop k xs)"
  by (auto simp: take_drop min_def)

lemma my_load_eq:
  assumes wf: "my_wf m" and ld: "my_loadable m" and st: "fl_data st = fl_data (my_sStore m)"
  shows "\<exists>f. fl_data f = fl_data (my_sStore m) \<and> fl_pos f = 14 \<and>
    my_load fresh (my_new st x) = my_load_body fresh (length (fl_data (my_sStore m))) (my_iBlockSize m)
      (length (my_aStreams m)) ((my_new f x)\<lparr>my_lFreeBlocks := []\<rparr>)"
proof -
  let ?d = "fl_data (my_sStore m)" and ?bs = "my_iBlockSize m" and ?k = "length (my_aStreams m)"
  note lf = my_loadable_facts [OF wf ld]
  have b30: "30 \<le> ?bs" using ld by (simp add: my_loadable_def)
  have room: "14 \<le> length ?d" using lf(7) b30 by simp
  define g where "g = st\<lparr>fl_bEos := False\<rparr>"
  have gd: "fl_data g = ?d" using st by (simp add: g_def)
  have g0: "fl_setPos (fl_setPosEnd st 0) 0 = g\<lparr>fl_pos := 0\<rparr>" "nat (fl_tell (fl_setPosEnd st 0)) = length ?d"
    using st by (simp_all add: fl_setPosEnd_def fl_setPos_def fl_lseek_def fl_tell_def g_def)
  have h: "take 4 (drop 0 ?d) = magic_code" "take 2 (drop 4 ?d) = [1, 32]" "take 4 (drop 6 ?d) = int_bytes (int ?bs)"
    "take 4 (drop 10 ?d) = int_bytes (int ?k)"
    using take_drop_front [OF lf(8), of 0 4] take_drop_front [OF lf(8), of 4 2] take_drop_front [OF lf(8), of 6 4]
      take_drop_front [OF lf(8), of 10 4]
    by (simp_all add: magic_code_def)
  have lm: "length magic_code = 4" by (simp add: magic_code_def)
  have r: "fl_read (g\<lparr>fl_pos := 0\<rparr>) 4 = Inr (magic_code, g\<lparr>fl_pos := 4\<rparr>)"
    "fl_read (g\<lparr>fl_pos := 4\<rparr>) 2 = Inr ([1, 32], g\<lparr>fl_pos := 6\<rparr>)"
    "fl_read (g\<lparr>fl_pos := 6\<rparr>) 4 = Inr (int_bytes (int ?bs), g\<lparr>fl_pos := 10\<rparr>)"
    "fl_read (g\<lparr>fl_pos := 10\<rparr>) 4 = Inr (int_bytes (int ?k), g\<lparr>fl_pos := 14\<rparr>)"
    using fl_read_at [of 0 4 g] fl_read_at [of 4 2 g] fl_read_at [of 6 4 g] fl_read_at [of 10 4 g] room h
    unfolding gd by simp_all
  have v: "sint (le_word (int_bytes (int ?bs))) = int ?bs" "sint (le_word (int_bytes (int ?k))) = int ?k"
    using lf(10,11) by (simp_all add: le_word_int)
  have "my_load fresh (my_new st x) = my_load_body fresh (length ?d) ?bs ?k ((my_new st x)\<lparr>my_lFreeBlocks := [], my_sStore := g\<lparr>fl_pos := 14\<rparr>\<rparr>)"
    using b30 unfolding my_load_def
    by (simp add: my_new_def g0 r lm v Let_def)
  moreover have "(my_new st x)\<lparr>my_lFreeBlocks := [], my_sStore := g\<lparr>fl_pos := 14\<rparr>\<rparr> =
      (my_new (g\<lparr>fl_pos := 14\<rparr>) x)\<lparr>my_lFreeBlocks := []\<rparr>" by (simp add: my_new_def)
  ultimately show ?thesis using gd by (intro exI [of _ "g\<lparr>fl_pos := 14\<rparr>"]) simp
qed

lemma my_stored_abs:
  assumes wf: "my_wf m" and ss: "map (strm m2) (my_aStreams m2) = map (\<lambda>p. my_stored (my_iBlockSize m) (strm m p)) (my_aStreams m)"
    and same: "my_iBlockSize m2 = my_iBlockSize m" "fl_data (my_sStore m2) = fl_data (my_sStore m)"
  shows "my_abs m2 = my_abs m" "my_ids m2 = my_ids m"
proof -
  let ?g = "\<lambda>s. (stm_iId s, take (stm_iSize s) (concat (map (piece (my_iBlockSize m) (fl_data (my_sStore m))) (stm_aBlocks s))))"
  have "map (\<lambda>p. (stm_iId (strm m2 p), my_bytes m2 p)) (my_aStreams m2) = map ?g (map (strm m2) (my_aStreams m2))"
    by (simp add: my_bytes_def same)
  also have "\<dots> = map (\<lambda>p. ?g (my_stored (my_iBlockSize m) (strm m p))) (my_aStreams m)" unfolding ss by simp
  also have "\<dots> = map (\<lambda>p. (stm_iId (strm m p), my_bytes m p)) (my_aStreams m)"
  proof (rule map_cong [OF refl])
    fix p assume "p \<in> set (my_aStreams m)"
    from my_stored_facts(3) [OF wf this]
    show "?g (my_stored (my_iBlockSize m) (strm m p)) = (stm_iId (strm m p), my_bytes m p)" by (simp add: my_stored_def)
  qed
  finally show "my_abs m2 = my_abs m" by (simp add: my_abs_def)
  have "my_ids m2 = map stm_iId (map (strm m2) (my_aStreams m2))" by (simp add: my_ids_def)
  then show "my_ids m2 = my_ids m" unfolding ss by (simp add: my_ids_def my_stored_def)
qed

section \<open>The properties\<close>

text \<open>
  C2. What a Myriad wrote, another one reads: after \<open>updateHeader\<close>, opening the store again gives
  the same streams with the same bytes under the same ids, the invariant holds, and the count of
  used blocks is exact. The header, whose block list is in its own blocks, is read through them as
  they become known; that needs blocks of 30 bytes.
\<close>

theorem myriad_reload:
  assumes "my_wf m" "my_bHeaderChanged m" "30 \<le> my_iBlockSize m"
    "hd (stm_aBlocks (strm m (hd (my_aStreams m)))) = 0" "stm_aBlocks (strm m (hd (my_aStreams m))) \<noteq> []"
    "\<forall>i \<in> set (my_ids m). - (2 ^ 31) \<le> i \<and> i < 2 ^ 31"
    "my_updateHeader True m = Some (Inr m1)" "length (fl_data (my_sStore m1)) < 2 ^ 31"
  shows "\<exists>m2 b. my_load fresh (my_new (my_sStore m1) x) = Some (Inr m2) \<and> my_wf m2 \<and> my_ids m2 = my_ids m \<and>
    my_abs m2 = (my_abs m)(hd (my_ids m) \<mapsto> b) \<and> my_getNumUsedBlocks m2 = int (length (my_owned m2))"
proof -
  let ?p = "hd (my_aStreams m)"
  have ne: "my_aStreams m \<noteq> []" using assms(1) by (simp add: my_wf_def)
  then have p: "?p \<in> set (my_aStreams m)" "hd (my_ids m) = stm_iId (strm m ?p)" by (simp_all add: my_ids_def hd_map)
  have g: "my_grown ?p m m1" "my_headered m1" using my_updateHeader_ok [OF assms(1,2)] assms(3,7) by auto
  have wf1: "my_wf m1" using g(1) by (simp add: my_grown_def)
  have "my_loadable m1"
    using g assms(3-6,8) by (auto simp: my_loadable_def my_grown_def)
  note ld = this
  obtain f where f: "fl_data f = fl_data (my_sStore m1)" "fl_pos f = 14"
    "my_load fresh (my_new (my_sStore m1) x) = my_load_body fresh (length (fl_data (my_sStore m1))) (my_iBlockSize m1)
      (length (my_aStreams m1)) ((my_new f x)\<lparr>my_lFreeBlocks := []\<rparr>)"
    using my_load_eq [OF wf1 ld refl] by blast
  obtain m2 where 2: "my_load fresh (my_new (my_sStore m1) x) = Some (Inr m2)" "my_wf m2"
    "my_iUsed m2 = int (length (my_owned m2))"
    "map (strm m2) (my_aStreams m2) = map (\<lambda>p. my_stored (my_iBlockSize m1) (strm m1 p)) (my_aStreams m1)"
    "my_iBlockSize m2 = my_iBlockSize m1" "fl_data (my_sStore m2) = fl_data (my_sStore m1)"
    using my_load_body_ok [OF wf1 ld f(1,2) refl, of fresh] unfolding f(3) by blast
  have "my_abs m2 = (my_abs m)(hd (my_ids m) \<mapsto> my_bytes m1 ?p)"
    unfolding my_stored_abs(1) [OF wf1 2(4-6)] p(2) by (rule my_grown_abs [OF assms(1) p(1) g(1)])
  moreover have "my_ids m2 = my_ids m" using my_stored_abs(2) [OF wf1 2(4-6)] g(1) by (simp add: my_grown_def)
  ultimately show ?thesis using 2(1-3) by (auto simp: my_getNumUsedBlocks_def)
qed

theorem myriad_reload_witness:
  "\<exists>m m1 m2. my_initialize 64 1 (my_new (fl_new []) 0) = Some (Inr m) \<and> my_updateHeader True m = Some (Inr m1) \<and>
     my_load (\<lambda>i. 0) (my_new (my_sStore m1) 0) = Some (Inr m2) \<and> my_ids m2 = [0]"
proof -
  have i: "5 \<le> (64 :: nat)" "0 \<le> (1 :: int)" by simp_all
  obtain m hb where f: "my_initialize 64 1 (my_new (fl_new []) 0) = Some (Inr m) \<and> my_wf m \<and>
    my_abs m = [0 \<mapsto> my_format_bytes 64 (22 + 4 * hb) hb] \<and>
    my_iBlocks m = nat 1 + hb \<and> length (my_lFreeBlocks m) = nat 1 \<and>
    my_getNumUsedBlocks m = int (length (my_owned m)) + 1 \<and>
    my_aStreams m = [0] \<and> my_ids m = [0] \<and> my_bHeaderChanged m \<and> my_iBlockSize m = 64 \<and>
    stm_aBlocks (strm m 0) = [0..<hb] \<and> 0 < hb \<and> my_header_loop 64 26 0 = Some (22 + 4 * hb, hb) \<and>
    length (fl_data (my_sStore m)) \<le> max (length (fl_data (fl_new []))) (fl_pos (fl_new []) + (nat 1 + hb) * 64)"
    using my_initialize_form [OF i, of "fl_new []" 0] by (elim exE) (rule that)
  note m = f [THEN conjunct1] f [THEN conjunct2, THEN conjunct1]
  note f' = f [THEN conjunct2, THEN conjunct2, THEN conjunct2, THEN conjunct2, THEN conjunct2, THEN conjunct2]
  have m': "my_aStreams m = [0]" "my_ids m = [0]" "my_bHeaderChanged m" "my_iBlockSize m = 64"
    "stm_aBlocks (strm m 0) = [0..<hb]" "my_header_loop 64 26 0 = Some (22 + 4 * hb, hb)"
    "length (fl_data (my_sStore m)) \<le> max (length (fl_data (fl_new []))) (fl_pos (fl_new []) + (nat 1 + hb) * 64)"
    using f' by blast+
  have l30: "my_header_loop 64 26 0 = Some (26, 1)" by (rule my_header_loop_30) simp
  have "Some (26, 1) = Some (22 + 4 * hb, hb)" by (rule trans [OF l30 [symmetric] m'(6)])
  then have hb: "hb = 1" by (simp only: option.inject prod.inject)
  obtain m1 where m1: "my_updateHeader True m = Some (Inr m1)" "length (fl_data (my_sStore m1)) = length (fl_data (my_sStore m))"
    using my_updateHeader_ok [OF m(2) m'(3)] by (auto simp: m' hb)
  have "length (fl_data (my_sStore m1)) < 2 ^ 31" using m1(2) m'(7) hb by (simp add: fl_new_def)
  note l = this
  obtain m2 where "my_load (\<lambda>i. 0) (my_new (my_sStore m1) 0) = Some (Inr m2)" "my_ids m2 = my_ids m"
    using myriad_reload [OF m(2) m'(3) _ _ _ _ m1(1) l, of "\<lambda>i. 0" 0] by (auto simp: m' hb)
  then show ?thesis using m(1) m'(2) m1(1) by (intro exI [of _ m] exI [of _ m1] exI [of _ m2]) simp
qed

end
