(* ===== verification/Bu_Base64.thy ===== *)
theory Bu_Base64
  imports Bu_Stream
begin

text \<open>
  \<open>Bu::Base64\<close> (\<open>src/stable/base64.cpp\<close>): a filter that encodes what is written to it and decodes
  what is read through it. The next stream is a parameter, as for \<open>Buffer\<close>. The integer the code
  packs three bytes in is a 32-bit word.
\<close>

section \<open>State and tables\<close>

datatype b64_mode = B64_Nothing | B64_Encode | B64_Decode

record 's base64 =
  b64_rNext :: 's
  b64_iBPos :: nat
  b64_iBuf :: "32 word"
  b64_iRPos :: int
  b64_iChars :: int
  b64_bEosIn :: bool
  b64_iTotalIn :: int
  b64_iTotalOut :: int
  b64_eMode :: b64_mode
  b64_iChunkSize :: int
  b64_iCurChunk :: int

definition tblEnc :: "byte list" where
  "tblEnc = map of_char ''ABCDEFGHIJKLMNOPQRSTUVWXYZabcdefghijklmnopqrstuvwxyz0123456789+/''"

text \<open>The decoding table, built by the constructor.\<close>

definition tblDec :: "byte list" where
  "tblDec = foldl (\<lambda>t j. t[nat (sint (tblEnc ! j) - 43) := word_of_nat j]) (replicate 80 0) [0..<64]"

definition b64_new :: "'s \<Rightarrow> int \<Rightarrow> 's base64" where
  "b64_new rNext iChunkSize =
     \<lparr>b64_rNext = rNext, b64_iBPos = 0, b64_iBuf = 0, b64_iRPos = 0, b64_iChars = 0, b64_bEosIn = False,
      b64_iTotalIn = 0, b64_iTotalOut = 0, b64_eMode = B64_Nothing, b64_iChunkSize = iChunkSize, b64_iCurChunk = 0\<rparr>"

section \<open>Encoding\<close>

text \<open>The four characters of the three bytes in the buffer, the last one first in the code's loop.\<close>

definition b64_quad :: "32 word \<Rightarrow> byte list" where
  "b64_quad iBuf = map (\<lambda>k. tblEnc ! unat (drop_bit (6 * k) iBuf AND 0x3f)) [3, 2, 1, 0]"

text \<open>Four characters to the next stream, with a line end inside or behind them when a chunk is full.\<close>

definition b64_emit ::
    "('s \<Rightarrow> byte list \<Rightarrow> (int \<times> 's) result) \<Rightarrow> byte list \<Rightarrow> 's base64 \<Rightarrow> (int \<times> 's base64) result" where
  "b64_emit wr outBuf b =
     (let cur = b64_iCurChunk b + 4 in
      if b64_iChunkSize b \<noteq> 0 \<and> cur \<ge> b64_iChunkSize b
      then let c = cur - b64_iChunkSize b in
        if c > 4 then Inl Out_Of_Bounds
        else rbind (wr (b64_rNext b) (take (nat (4 - c)) outBuf)) (\<lambda>(n1, s1).
             rbind (wr s1 [13, 10]) (\<lambda>(n2, s2).
             rbind (wr s2 (drop (nat (4 - c)) outBuf)) (\<lambda>(n3, s3).
               Inr (n1 + n2 + n3, b\<lparr>b64_rNext := s3, b64_iCurChunk := c\<rparr>))))
      else rbind (wr (b64_rNext b) outBuf) (\<lambda>(n, s). Inr (n, b\<lparr>b64_rNext := s, b64_iCurChunk := cur\<rparr>)))"

fun b64_write_loop ::
    "('s \<Rightarrow> byte list \<Rightarrow> (int \<times> 's) result) \<Rightarrow> byte list \<Rightarrow> 's base64 \<Rightarrow> (int \<times> 's base64) result" where
  "b64_write_loop wr [] b = Inr (0, b)"
| "b64_write_loop wr (x # xs) b =
     (let b1 = b\<lparr>b64_iBuf := b64_iBuf b OR push_bit ((2 - b64_iBPos b) * 8) (ucast x), b64_iBPos := b64_iBPos b + 1\<rparr>
      in rbind (if b64_iBPos b1 = 3
                then rbind (b64_emit wr (b64_quad (b64_iBuf b1)) b1) (\<lambda>(n, b2).
                       Inr (n, b2\<lparr>b64_iBPos := 0, b64_iBuf := 0\<rparr>))
                else Inr (0, b1)) (\<lambda>(n, b2).
         rbind (b64_write_loop wr xs b2) (\<lambda>(k, b3). Inr (n + k, b3))))"

definition b64_write ::
    "('s \<Rightarrow> byte list \<Rightarrow> (int \<times> 's) result) \<Rightarrow> 's base64 \<Rightarrow> byte list \<Rightarrow> (int \<times> 's base64) result" where
  "b64_write wr b bytes =
     (if b64_eMode b = B64_Decode then Inl (Base64Exception ''Cannot write to an input stream.'')
      else rbind (b64_write_loop wr bytes (b\<lparr>b64_eMode := B64_Encode\<rparr>)) (\<lambda>(n, b').
             Inr (n, b'\<lparr>b64_iTotalOut := b64_iTotalOut b' + n\<rparr>)))"

text \<open>\<open>stop\<close> writes what is left with padding. It does not reset the buffer.\<close>

definition b64_stop :: "('s \<Rightarrow> byte list \<Rightarrow> (int \<times> 's) result) \<Rightarrow> 's base64 \<Rightarrow> (int \<times> 's base64) result" where
  "b64_stop wr b =
     (if b64_eMode b = B64_Encode
      then (if b64_iBPos b = 0 then Inr (b64_iTotalOut b, b)
            else rbind (b64_emit wr (take (b64_iBPos b + 1) (b64_quad (b64_iBuf b)) @
                         replicate (3 - b64_iBPos b) 61) b) (\<lambda>(n, b').
                   Inr (b64_iTotalOut b' + n, b'\<lparr>b64_iTotalOut := b64_iTotalOut b' + n\<rparr>)))
      else Inr (b64_iTotalIn b, b))"

section \<open>Decoding\<close>

definition b64_space :: "byte \<Rightarrow> bool" where
  "b64_space c \<longleftrightarrow> c = 32 \<or> c = 9 \<or> c = 10 \<or> c = 13"

text \<open>Four characters that are not white space, or as many as there are.\<close>

partial_function (option) b64_fill ::
    "('s \<Rightarrow> int \<Rightarrow> (byte list \<times> 's) result) \<Rightarrow> byte list \<Rightarrow> 's \<Rightarrow> (byte list \<times> 's) result option" where
  "b64_fill rd buf s =
     (if length buf = 4 then Some (Inr (buf, s))
      else case rd s 1 of Inl e \<Rightarrow> Some (Inl e)
      | Inr bs \<Rightarrow>
          (if fst bs = [] then Some (Inr (buf, snd bs))
           else b64_fill rd (if b64_space (hd (fst bs)) then buf else buf @ [hd (fst bs)]) (snd bs)))"

fun b64_load :: "byte list \<Rightarrow> nat \<Rightarrow> 's base64 \<Rightarrow> 's base64 result" where
  "b64_load [] j b = Inr b"
| "b64_load (c # cs) j b =
     (if c = 61 then b64_load cs (Suc j) (b\<lparr>b64_iChars := b64_iChars b - 1, b64_bEosIn := True\<rparr>)
      else rbind (arr_get tblDec (sint c - 43)) (\<lambda>v.
             b64_load cs (Suc j) (b\<lparr>b64_iBuf := b64_iBuf b OR push_bit ((3 - j) * 6) (ucast (v AND 0x3f))\<rparr>)))"

text \<open>Decoded bytes that are ready, at most \<open>n\<close> of them.\<close>

definition b64_copy :: "nat \<Rightarrow> 's base64 \<Rightarrow> byte list \<times> 's base64" where
  "b64_copy n b =
     (let k = min n (nat (b64_iChars b - b64_iRPos b))
      in (map (\<lambda>i. ucast (drop_bit (8 * (2 - (nat (b64_iRPos b) + i))) (b64_iBuf b) AND 0xFF)) [0..<k],
          b\<lparr>b64_iRPos := b64_iRPos b + int k\<rparr>))"

text \<open>What a round of \<open>read\<close> does behind the copying: stop with the given state, or go on from it.\<close>

definition b64_refill ::
    "('s \<Rightarrow> int \<Rightarrow> (byte list \<times> 's) result) \<Rightarrow> ('s \<Rightarrow> bool) \<Rightarrow> 's base64 \<Rightarrow> (bool \<times> 's base64) result option" where
  "b64_refill rd eos b =
     map_option (\<lambda>r. rbind r (\<lambda>(buf, s).
       let b1 = b\<lparr>b64_rNext := s\<rparr> in
       if length buf < 4
       then (if eos s
             then (if buf \<noteq> []
                   then Inl (Base64Exception ''Premature end of stream detected while decoding Base64 data.'')
                   else Inr (True, b1\<lparr>b64_iRPos := (if b64_iRPos b1 = 0 then b64_iChars b1 else b64_iRPos b1),
                                     b64_bEosIn := True\<rparr>))
             else Inr (True, b1))
       else rbind (b64_load buf 0 (b1\<lparr>b64_iChars := 3, b64_iBuf := 0\<rparr>)) (\<lambda>b2. Inr (False, b2))))
     (b64_fill rd [] (b64_rNext b))"

partial_function (option) b64_read_loop ::
    "('s \<Rightarrow> int \<Rightarrow> (byte list \<times> 's) result) \<Rightarrow> ('s \<Rightarrow> bool) \<Rightarrow> nat \<Rightarrow> 's base64 \<Rightarrow>
     (byte list \<times> 's base64) result option" where
  "b64_read_loop rd eos n b =
     (if n = 0 then Some (Inr ([], b))
      else let (xs, b1) = b64_copy n b in
        if b64_iRPos b1 = b64_iChars b1 \<and> b64_bEosIn b1 \<or> b64_iRPos b1 \<noteq> b64_iChars b1 \<and> length xs = n
        then Some (Inr (xs, b1))
        else Option.bind (b64_refill rd eos (if b64_iRPos b1 = b64_iChars b1 then b1\<lparr>b64_iRPos := 0\<rparr> else b1)) (\<lambda>r.
          case r of Inl e \<Rightarrow> Some (Inl e)
          | Inr sb \<Rightarrow>
             (if fst sb then Some (Inr (xs, snd sb))
              else Option.bind (b64_read_loop rd eos (n - length xs) (snd sb))
                (\<lambda>q. Some (rbind q (\<lambda>yb. Inr (xs @ fst yb, snd yb)))))))"

definition b64_read ::
    "('s \<Rightarrow> int \<Rightarrow> (byte list \<times> 's) result) \<Rightarrow> ('s \<Rightarrow> bool) \<Rightarrow> 's base64 \<Rightarrow> int \<Rightarrow>
     (byte list \<times> 's base64) result option" where
  "b64_read rd eos b nBytes =
     (if b64_eMode b = B64_Encode then Some (Inl (Base64Exception ''Cannot read from an output stream.''))
      else let b1 = b\<lparr>b64_eMode := B64_Decode\<rparr> in
        if b64_bEosIn b1 \<and> b64_iRPos b1 = b64_iChars b1 then Some (Inr ([], b1))
        else b64_read_loop rd eos (nat nBytes) b1)"

definition b64_isEos :: "'s base64 \<Rightarrow> bool" where
  "b64_isEos b \<longleftrightarrow> b64_bEosIn b \<and> b64_iRPos b = b64_iChars b"

section \<open>The tables\<close>

lemma tblEnc_eval: "tblEnc = [65, 66, 67, 68, 69, 70, 71, 72, 73, 74, 75, 76, 77, 78, 79, 80, 81, 82, 83, 84,
  85, 86, 87, 88, 89, 90, 97, 98, 99, 100, 101, 102, 103, 104, 105, 106, 107, 108, 109, 110, 111, 112, 113, 114,
  115, 116, 117, 118, 119, 120, 121, 122, 48, 49, 50, 51, 52, 53, 54, 55, 56, 57, 43, 47]"
  by (simp add: tblEnc_def)

lemma tblDec_eval: "tblDec = [62, 0, 0, 0, 63, 52, 53, 54, 55, 56, 57, 58, 59, 60, 61, 0, 0, 0, 0, 0, 0, 0, 0, 1, 2, 3, 4, 5, 6, 7, 8,
  9, 10, 11, 12, 13, 14, 15, 16, 17, 18, 19, 20, 21, 22, 23, 24, 25, 0, 0, 0, 0, 0, 0, 26, 27, 28, 29, 30,
  31, 32, 33, 34, 35, 36, 37, 38, 39, 40, 41, 42, 43, 44, 45, 46, 47, 48, 49, 50, 51]"
  by (simp add: tblDec_def tblEnc_eval upt_rec) (simp add: numeral_eq_Suc)

lemma tbl_inverse_all:
  "list_all (\<lambda>j. arr_get tblDec (sint (tblEnc ! j) - 43) = Inr (word_of_nat j) \<and> tblEnc ! j \<noteq> 61 \<and>
     \<not> b64_space (tblEnc ! j)) [0..<64]"
  unfolding tblDec_eval tblEnc_eval by (simp add: upt_rec arr_get_def b64_space_def)

lemma tbl_inverse:
  assumes "j < 64"
  shows "arr_get tblDec (sint (tblEnc ! j) - 43) = Inr (word_of_nat j)" "tblEnc ! j \<noteq> 61" "\<not> b64_space (tblEnc ! j)"
  using tbl_inverse_all assms unfolding list_all_iff by simp_all

section \<open>Three bytes in a word\<close>

lemma and_3f: "x AND 0x3f = take_bit 6 (x :: 'a::len word)" by (simp add: take_bit_eq_mask mask_eq_exp_minus_1)
lemma and_ff: "x AND 0xff = take_bit 8 (x :: 'a::len word)" by (simp add: take_bit_eq_mask mask_eq_exp_minus_1)

lemma sextets:
  assumes "drop_bit 24 (w :: 32 word) = 0"
  shows "push_bit 18 (drop_bit 18 w AND 0x3f) OR push_bit 12 (drop_bit 12 w AND 0x3f) OR
    push_bit 6 (drop_bit 6 w AND 0x3f) OR (w AND 0x3f) = w"
proof (rule bit_word_eqI)
  fix n assume n: "n < LENGTH(32)"
  have hi: "\<not> bit w n" if "24 \<le> n" for n
  proof -
    have "bit w n \<longleftrightarrow> bit (drop_bit 24 w) (n - 24)" using that by (simp add: bit_drop_bit_eq)
    with assms show ?thesis by simp
  qed
  consider "n < 6" | "6 \<le> n" "n < 12" | "12 \<le> n" "n < 18" | "18 \<le> n" "n < 24" | "24 \<le> n" by linarith
  then show "bit (push_bit 18 (drop_bit 18 w AND 0x3f) OR push_bit 12 (drop_bit 12 w AND 0x3f) OR
    push_bit 6 (drop_bit 6 w AND 0x3f) OR (w AND 0x3f)) n = bit w n"
    by cases (use n in \<open>simp_all add: and_3f bit_simps hi less_diff_conv2\<close>)
qed

lemma octets:
  fixes a b c :: "8 word"
  shows "ucast (drop_bit 16 (push_bit 16 (ucast a) OR push_bit 8 (ucast b) OR ucast c :: 32 word) AND 0xFF) = a"
  "ucast (drop_bit 8 (push_bit 16 (ucast a) OR push_bit 8 (ucast b) OR ucast c :: 32 word) AND 0xFF) = b"
  "ucast ((push_bit 16 (ucast a) OR push_bit 8 (ucast b) OR ucast c :: 32 word) AND 0xFF) = c"
  unfolding and_ff by (rule bit_word_eqI; simp add: bit_simps byte_bit_high)+

text \<open>The first one, two or three bytes of a group, as the code packs them.\<close>

fun b64_pack :: "byte list \<Rightarrow> 32 word" where
  "b64_pack [a] = push_bit 16 (ucast a)"
| "b64_pack [a, b] = push_bit 16 (ucast a) OR push_bit 8 (ucast b)"
| "b64_pack [a, b, c] = push_bit 16 (ucast a) OR push_bit 8 (ucast b) OR ucast c"
| "b64_pack xs = 0"

lemma pack_24: "drop_bit 24 (b64_pack xs) = 0"
  by (cases xs rule: b64_pack.cases) (auto intro!: bit_word_eqI simp: bit_simps byte_bit_high)

text \<open>The characters of a packed group, and the group of the characters.\<close>

definition b64_sextet :: "32 word \<Rightarrow> nat \<Rightarrow> nat" where
  "b64_sextet w k = unat (drop_bit (6 * k) w AND 0x3f)"

lemma sextet_less: "b64_sextet w k < 64"
  using take_bit_nat_less_exp [of 6 "unat (drop_bit (6 * k) w)"]
  by (simp add: b64_sextet_def and_3f unsigned_take_bit_eq)

lemma sextet_back: "ucast ((word_of_nat (b64_sextet w k) :: byte) AND 0x3f) = drop_bit (6 * k) w AND 0x3f"
proof -
  have u: "unat (word_of_nat (b64_sextet w k) :: byte) = b64_sextet w k"
    using sextet_less [of w k] by (simp add: unat_of_nat)
  have "unat ((word_of_nat (b64_sextet w k) :: byte) AND 0x3f) = b64_sextet w k"
    using sextet_less [of w k] by (simp add: and_3f unsigned_take_bit_eq u take_bit_nat_eq_self)
  then have "unat (ucast ((word_of_nat (b64_sextet w k) :: byte) AND 0x3f) :: 32 word) = b64_sextet w k"
    using sextet_less [of w k] by (simp add: unsigned_ucast_eq take_bit_nat_eq_self)
  then show ?thesis by (simp only: word_unat_eq_iff b64_sextet_def)
qed

lemma quad_sextets: "b64_quad w = map (\<lambda>k. tblEnc ! b64_sextet w k) [3, 2, 1, 0]"
  by (simp add: b64_quad_def b64_sextet_def)

section \<open>What the encoder writes\<close>

text \<open>The encoding of a byte string: groups of three bytes, the last one padded.\<close>

fun b64_spec :: "byte list \<Rightarrow> byte list" where
  "b64_spec [] = []"
| "b64_spec [a] = take 2 (b64_quad (b64_pack [a])) @ [61, 61]"
| "b64_spec [a, b] = take 3 (b64_quad (b64_pack [a, b])) @ [61]"
| "b64_spec (a # b # c # xs) = b64_quad (b64_pack [a, b, c]) @ b64_spec xs"

lemma b64_spec_append: "length g mod 3 = 0 \<Longrightarrow> b64_spec (g @ r) = b64_spec g @ b64_spec r"
  by (induction g rule: b64_spec.induct) simp_all

lemma b64_spec_tail:
  "0 < length r \<Longrightarrow> length r < 3 \<Longrightarrow>
   b64_spec r = take (length r + 1) (b64_quad (b64_pack r)) @ replicate (3 - length r) 61"
  by (cases r rule: b64_spec.cases) (simp_all add: numeral_eq_Suc)

definition no_space :: "byte list \<Rightarrow> byte list" where
  "no_space xs = filter (\<lambda>c. \<not> b64_space c) xs"

lemma no_space_append [simp]: "no_space (xs @ ys) = no_space xs @ no_space ys"
  by (simp add: no_space_def)

lemma no_space_crlf [simp]: "no_space [13, 10] = []"
  by (simp add: no_space_def b64_space_def)

lemma length_quad [simp]: "length (b64_quad w) = 4"
  by (simp add: b64_quad_def)

lemma quad_no_space: "\<forall>c \<in> set (b64_quad w). \<not> b64_space c"
  using tbl_inverse(3) sextet_less by (auto simp: quad_sextets)

text \<open>
  The state of an encoder that has been given \<open>data\<close>: whole groups are written, the rest is packed
  in the buffer.
\<close>

definition b64_enc :: "'s base64 \<Rightarrow> byte list \<Rightarrow> byte list \<Rightarrow> bool" where
  "b64_enc b out data \<longleftrightarrow>
     b64_eMode b \<noteq> B64_Decode \<and>
     (b64_iChunkSize b = 0 \<or> 4 \<le> b64_iChunkSize b \<and> 0 \<le> b64_iCurChunk b \<and> b64_iCurChunk b < b64_iChunkSize b) \<and>
     (\<exists>g r. data = g @ r \<and> length g mod 3 = 0 \<and> length r < 3 \<and> no_space out = b64_spec g \<and>
        (b64_iChunkSize b = 0 \<longrightarrow> out = b64_spec g) \<and> b64_iBPos b = length r \<and> b64_iBuf b = b64_pack r)"

lemma b64_encD:
  assumes "b64_enc b out data"
  shows "b64_eMode b \<noteq> B64_Decode"
    "b64_iChunkSize b = 0 \<or> 4 \<le> b64_iChunkSize b \<and> 0 \<le> b64_iCurChunk b \<and> b64_iCurChunk b < b64_iChunkSize b"
    "\<exists>g r. data = g @ r \<and> length g mod 3 = 0 \<and> length r < 3 \<and> no_space out = b64_spec g \<and>
      (b64_iChunkSize b = 0 \<longrightarrow> out = b64_spec g) \<and> b64_iBPos b = length r \<and> b64_iBuf b = b64_pack r"
  using assms by (simp_all add: b64_enc_def)

lemma b64_enc_new: "chunk = 0 \<or> 4 \<le> chunk \<Longrightarrow> b64_enc (b64_new s chunk) [] []"
  by (auto simp: b64_enc_def b64_new_def no_space_def)

lemma b64_pack_snoc:
  "length r < 3 \<Longrightarrow> b64_pack r OR push_bit ((2 - length r) * 8) (ucast x) = b64_pack (r @ [x])"
  by (cases r rule: b64_pack.cases) (auto simp: or.assoc)

lemma b64_spec_group: "length r = 3 \<Longrightarrow> b64_spec r = b64_quad (b64_pack r)"
  by (cases r rule: b64_spec.cases) auto

lemma b64_spec_no_space: "no_space (b64_spec xs) = b64_spec xs"
proof (induction xs rule: b64_spec.induct)
  case (2 a)
  have "\<forall>c \<in> set (take 2 (b64_quad (b64_pack [a]))). \<not> b64_space c"
    using quad_no_space in_set_takeD by fast
  then show ?case by (simp add: no_space_def filter_id_conv b64_space_def del: b64_pack.simps)
next
  case (3 a b)
  have "\<forall>c \<in> set (take 3 (b64_quad (b64_pack [a, b]))). \<not> b64_space c"
    using quad_no_space in_set_takeD by fast
  then show ?case by (simp add: no_space_def filter_id_conv b64_space_def del: b64_pack.simps)
next
  case (4 a b c xs)
  have "no_space (b64_quad (b64_pack [a, b, c])) = b64_quad (b64_pack [a, b, c])"
    unfolding no_space_def filter_id_conv by (rule quad_no_space)
  with 4 show ?case by simp
qed (simp add: no_space_def)

context full_sink begin

lemma b64_emit_law:
  assumes g: "good (b64_rNext b)" and q: "length q = 4" "no_space q = q"
    and c: "b64_iChunkSize b = 0 \<or> 4 \<le> b64_iChunkSize b \<and> 0 \<le> b64_iCurChunk b \<and> b64_iCurChunk b < b64_iChunkSize b"
  shows "\<exists>n b' out. b64_emit wr q b = Inr (n, b') \<and> good (b64_rNext b') \<and>
    b' = b\<lparr>b64_rNext := b64_rNext b', b64_iCurChunk := b64_iCurChunk b'\<rparr> \<and>
    written (b64_rNext b') = written (b64_rNext b) @ out \<and> no_space out = q \<and>
    (b64_iChunkSize b = 0 \<longrightarrow> out = q) \<and>
    (b64_iChunkSize b = 0 \<or> 4 \<le> b64_iChunkSize b \<and> 0 \<le> b64_iCurChunk b' \<and> b64_iCurChunk b' < b64_iChunkSize b)"
proof (cases "b64_iChunkSize b \<noteq> 0 \<and> b64_iCurChunk b + 4 \<ge> b64_iChunkSize b")
  case False
  obtain s where "wr (b64_rNext b) q = Inr (int (length q), s)" "good s" "written s = written (b64_rNext b) @ q"
    using wr_all [OF g, of q] by blast
  with False c q(2) show ?thesis by (auto simp: b64_emit_def Let_def)
next
  case True
  define k where "k = b64_iCurChunk b + 4 - b64_iChunkSize b"
  have k: "0 \<le> k" "k < 4" "k < b64_iChunkSize b" using True c by (auto simp: k_def)
  obtain s1 where s1: "wr (b64_rNext b) (take (nat (4 - k)) q) = Inr (int (length (take (nat (4 - k)) q)), s1)" "good s1"
    "written s1 = written (b64_rNext b) @ take (nat (4 - k)) q" using wr_all [OF g] by blast
  obtain s2 where s2: "wr s1 [13, 10] = Inr (int (length [13, 10 :: byte]), s2)" "good s2" "written s2 = written s1 @ [13, 10]"
    using wr_all [OF s1(2)] by blast
  obtain s3 where s3: "wr s2 (drop (nat (4 - k)) q) = Inr (int (length (drop (nat (4 - k)) q)), s3)" "good s3"
    "written s3 = written s2 @ drop (nat (4 - k)) q" using wr_all [OF s2(2)] by blast
  have "no_space (take (nat (4 - k)) q @ [13, 10] @ drop (nat (4 - k)) q) = no_space (take (nat (4 - k)) q @ drop (nat (4 - k)) q)"
    by (simp only: no_space_append no_space_crlf append_Nil)
  also have "\<dots> = q" using q(2) by simp
  finally have n: "no_space (take (nat (4 - k)) q @ [13, 10] @ drop (nat (4 - k)) q) = q" .
  define m where "m = int (length (take (nat (4 - k)) q)) + int (length [13, 10 :: byte]) + int (length (drop (nat (4 - k)) q))"
  have e: "b64_emit wr q b = Inr (m, b\<lparr>b64_rNext := s3, b64_iCurChunk := k\<rparr>)"
    using True k s1(1) s2(1) s3(1) by (simp add: b64_emit_def Let_def k_def [symmetric] m_def)
  have w: "written s3 = written (b64_rNext b) @ (take (nat (4 - k)) q @ [13, 10] @ drop (nat (4 - k)) q)"
    using s1(3) s2(3) s3(3) by simp
  have c4: "4 \<le> b64_iChunkSize b" using True c by simp
  show ?thesis
    by (rule exI [of _ m], rule exI [of _ "b\<lparr>b64_rNext := s3, b64_iCurChunk := k\<rparr>"],
        rule exI [of _ "take (nat (4 - k)) q @ [13, 10] @ drop (nat (4 - k)) q"])
      (use e w n s3(2) k c4 True in simp)
qed

lemma b64_write_loop_law:
  "good (b64_rNext b) \<Longrightarrow> written (b64_rNext b) = w0 @ out \<Longrightarrow> b64_enc b out data \<Longrightarrow>
   \<exists>n b' out'. b64_write_loop wr xs b = Inr (n, b') \<and> good (b64_rNext b') \<and> b64_eMode b' = b64_eMode b \<and>
     b64_iChunkSize b' = b64_iChunkSize b \<and>
     written (b64_rNext b') = w0 @ out' \<and> b64_enc b' out' (data @ xs)"
proof (induction xs arbitrary: b out data)
  case Nil
  then show ?case by auto
next
  case (Cons x xs)
  obtain g r where gr: "data = g @ r" "length g mod 3 = 0" "length r < 3" "no_space out = b64_spec g"
    "b64_iChunkSize b = 0 \<longrightarrow> out = b64_spec g" "b64_iBPos b = length r" "b64_iBuf b = b64_pack r"
    using b64_encD(3) [OF Cons.prems(3)] by (elim exE conjE) (rule that)
  note md = b64_encD(1) [OF Cons.prems(3)] and c = b64_encD(2) [OF Cons.prems(3)]
  define b1 where "b1 = b\<lparr>b64_iBuf := b64_iBuf b OR push_bit ((2 - b64_iBPos b) * 8) (ucast x), b64_iBPos := b64_iBPos b + 1\<rparr>"
  have b1: "b64_iBuf b1 = b64_pack (r @ [x])" "b64_iBPos b1 = length (r @ [x])" "b64_rNext b1 = b64_rNext b"
    "b64_iChunkSize b1 = b64_iChunkSize b" "b64_iCurChunk b1 = b64_iCurChunk b" "b64_eMode b1 = b64_eMode b"
    using gr(3,6,7) by (simp_all add: b1_def b64_pack_snoc)
  have step: "b64_write_loop wr (x # xs) b =
      rbind (if length (r @ [x]) = 3
             then rbind (b64_emit wr (b64_quad (b64_iBuf b1)) b1) (\<lambda>(n, b2). Inr (n, b2\<lparr>b64_iBPos := 0, b64_iBuf := 0\<rparr>))
             else Inr (0, b1)) (\<lambda>(n, b2). rbind (b64_write_loop wr xs b2) (\<lambda>(k, b3). Inr (n + k, b3)))"
    by (simp only: b64_write_loop.simps Let_def b1_def [symmetric] b1(2))
  show ?case
  proof (cases "length (r @ [x]) = 3")
    case False
    have "b64_enc b1 out (data @ [x])"
      unfolding b64_enc_def b1 using gr c md False by (intro conjI exI [of _ g] exI [of _ "r @ [x]"]) auto
    from Cons.IH [OF _ _ this] Cons.prems(1,2) obtain n b' out' where
      "b64_write_loop wr xs b1 = Inr (n, b')" "good (b64_rNext b')" "b64_eMode b' = b64_eMode b1"
      "b64_iChunkSize b' = b64_iChunkSize b1"
      "written (b64_rNext b') = w0 @ out'" "b64_enc b' out' (data @ [x] @ xs)" by (auto simp: b1)
    with False show ?thesis unfolding step by (simp add: b1)
  next
    case True
    let ?q = "b64_quad (b64_iBuf b1)"
    have "no_space ?q = ?q" unfolding no_space_def filter_id_conv by (rule quad_no_space)
    from b64_emit_law [of b1, OF _ length_quad this] Cons.prems(1) c obtain n b2 o2 where e:
      "b64_emit wr ?q b1 = Inr (n, b2)" "good (b64_rNext b2)"
      "b2 = b1\<lparr>b64_rNext := b64_rNext b2, b64_iCurChunk := b64_iCurChunk b2\<rparr>"
      "written (b64_rNext b2) = written (b64_rNext b) @ o2" "no_space o2 = ?q" "b64_iChunkSize b = 0 \<longrightarrow> o2 = ?q"
      "b64_iChunkSize b = 0 \<or> 4 \<le> b64_iChunkSize b \<and> 0 \<le> b64_iCurChunk b2 \<and> b64_iCurChunk b2 < b64_iChunkSize b"
      unfolding b1 by blast
    define b3 where "b3 = b2\<lparr>b64_iBPos := 0, b64_iBuf := 0\<rparr>"
    have f2: "b64_iChunkSize b2 = b64_iChunkSize b" "b64_eMode b2 = b64_eMode b"
      by (subst e(3), simp add: b1)+
    have sp: "b64_spec (g @ r @ [x]) = b64_spec g @ ?q"
      using gr(2) b64_spec_group [OF True] by (simp add: b64_spec_append b1)
    have g3: "length (g @ r @ [x]) mod 3 = 0"
    proof -
      have "length (g @ r @ [x]) = length g + 3" using True by simp
      with gr(2) show ?thesis by simp
    qed
    have "b64_enc b3 (out @ o2) (data @ [x])"
      unfolding b64_enc_def
      by (intro conjI exI [of _ "g @ r @ [x]"] exI [of _ "[]"])
        (use gr e(5,6,7) md g3 in \<open>simp_all add: b3_def f2 sp\<close>)
    from Cons.IH [OF _ _ this] e(2,4) Cons.prems(2) obtain k b' out' where
      "b64_write_loop wr xs b3 = Inr (k, b')" "good (b64_rNext b')" "b64_eMode b' = b64_eMode b3"
      "b64_iChunkSize b' = b64_iChunkSize b3"
      "written (b64_rNext b') = w0 @ out'" "b64_enc b' out' (data @ [x] @ xs)" by (auto simp: b3_def)
    then show ?thesis using e(1) True unfolding step by (simp add: b3_def f2)
  qed
qed

lemma b64_write_law:
  assumes "good (b64_rNext b)" "written (b64_rNext b) = w0 @ out" "b64_enc b out data"
  shows "\<exists>n b' out'. b64_write wr b xs = Inr (n, b') \<and> good (b64_rNext b') \<and> b64_eMode b' = B64_Encode \<and>
     b64_iChunkSize b' = b64_iChunkSize b \<and>
     written (b64_rNext b') = w0 @ out' \<and> b64_enc b' out' (data @ xs)"
proof -
  have m: "b64_eMode b \<noteq> B64_Decode" using assms(3) by (simp add: b64_enc_def)
  have "b64_enc (b\<lparr>b64_eMode := B64_Encode\<rparr>) out data" using assms(3) by (simp add: b64_enc_def)
  from b64_write_loop_law [of "b\<lparr>b64_eMode := B64_Encode\<rparr>" w0 out data xs, OF _ _ this] assms(1,2) obtain n b' out' where
    b': "b64_write_loop wr xs (b\<lparr>b64_eMode := B64_Encode\<rparr>) = Inr (n, b')" "good (b64_rNext b')" "b64_eMode b' = B64_Encode"
    "b64_iChunkSize b' = b64_iChunkSize b"
    "written (b64_rNext b') = w0 @ out'" "b64_enc b' out' (data @ xs)" by auto
  moreover have "b64_enc (b'\<lparr>b64_iTotalOut := b64_iTotalOut b' + n\<rparr>) out' (data @ xs)"
    using b'(6) by (simp add: b64_enc_def)
  ultimately show ?thesis using m by (simp add: b64_write_def)
qed

lemma b64_writes_law:
  "good (b64_rNext b) \<Longrightarrow> written (b64_rNext b) = w0 @ out \<Longrightarrow> b64_enc b out data \<Longrightarrow> b64_eMode b = B64_Encode \<or> cs \<noteq> [] \<Longrightarrow>
   \<exists>b' out'. write_chunks (b64_write wr) b cs = Inr b' \<and> good (b64_rNext b') \<and> b64_eMode b' = B64_Encode \<and>
     b64_iChunkSize b' = b64_iChunkSize b \<and>
     written (b64_rNext b') = w0 @ out' \<and> b64_enc b' out' (data @ concat cs)"
proof (induction cs arbitrary: b out data)
  case Nil
  then show ?case by auto
next
  case (Cons c cs)
  obtain n b1 o1 where b1: "b64_write wr b c = Inr (n, b1)" "good (b64_rNext b1)" "b64_eMode b1 = B64_Encode"
    "b64_iChunkSize b1 = b64_iChunkSize b" "written (b64_rNext b1) = w0 @ o1" "b64_enc b1 o1 (data @ c)"
    using b64_write_law [OF Cons.prems(1-3), of c] by blast
  with Cons.IH [OF b1(2,5,6)] show ?case by auto
qed

lemma b64_stop_law:
  assumes "good (b64_rNext b)" "written (b64_rNext b) = w0 @ out" "b64_enc b out data" "b64_eMode b = B64_Encode"
  shows "\<exists>n b' out'. b64_stop wr b = Inr (n, b') \<and> good (b64_rNext b') \<and> written (b64_rNext b') = w0 @ out' \<and>
    no_space out' = b64_spec data \<and> (b64_iChunkSize b = 0 \<longrightarrow> out' = b64_spec data)"
proof -
  obtain g r where gr: "data = g @ r" "length g mod 3 = 0" "length r < 3" "no_space out = b64_spec g"
    "b64_iChunkSize b = 0 \<longrightarrow> out = b64_spec g" "b64_iBPos b = length r" "b64_iBuf b = b64_pack r"
    using b64_encD(3) [OF assms(3)] by (elim exE conjE) (rule that)
  note c = b64_encD(2) [OF assms(3)]
  have sp: "b64_spec data = b64_spec g @ b64_spec r" using gr(1,2) by (simp add: b64_spec_append)
  show ?thesis
  proof (cases "r = []")
    case True
    with assms gr sp show ?thesis by (auto simp: b64_stop_def)
  next
    case False
    define q where "q = take (length r + 1) (b64_quad (b64_pack r)) @ replicate (3 - length r) 61"
    have qs: "q = b64_spec r" using False gr(3) by (simp add: q_def b64_spec_tail)
    have "length q = 4" using gr(3) by (simp add: q_def)
    from b64_emit_law [OF assms(1) this _ c] obtain n b' o2 where e: "b64_emit wr q b = Inr (n, b')"
      "good (b64_rNext b')" "written (b64_rNext b') = written (b64_rNext b) @ o2" "no_space o2 = q"
      "b64_iChunkSize b = 0 \<longrightarrow> o2 = q" using b64_spec_no_space by (auto simp: qs)
    have "b64_stop wr b = Inr (b64_iTotalOut b' + n, b'\<lparr>b64_iTotalOut := b64_iTotalOut b' + n\<rparr>)"
      using assms(4) False gr(6,7) e(1) by (simp add: b64_stop_def q_def)
    with e assms(2) gr(4,5) sp qs show ?thesis by (intro exI [of _ "b64_iTotalOut b' + n"] exI) auto
  qed
qed

end

section \<open>What the decoder reads\<close>

definition b64_out :: "32 word \<Rightarrow> nat \<Rightarrow> byte" where
  "b64_out w i = ucast (drop_bit (8 * (2 - i)) w AND 0xFF)"

text \<open>The characters of one to three bytes, loaded, give back these bytes.\<close>

definition b64_val :: "32 word \<Rightarrow> nat \<Rightarrow> 32 word" where
  "b64_val w k = drop_bit (6 * k) w AND 0x3f"

lemma load_step:
  "b64_load (tblEnc ! b64_sextet w k # cs) j b =
    b64_load cs (Suc j) (b\<lparr>b64_iBuf := b64_iBuf b OR push_bit ((3 - j) * 6) (b64_val w k)\<rparr>)"
  using tbl_inverse [OF sextet_less [of w k]] by (simp add: sextet_back b64_val_def)

lemma load_pad:
  "b64_load (61 # cs) j b = b64_load cs (Suc j) (b\<lparr>b64_iChars := b64_iChars b - 1, b64_bEosIn := True\<rparr>)"
  by simp

lemma load_nil: "b64_load [] j b = Inr b"
  by simp

lemmas load_simps = load_step load_pad load_nil

lemma vals_or:
  assumes "drop_bit 24 w = 0"
  shows "push_bit 18 (b64_val w 3) OR (push_bit 12 (b64_val w 2) OR (push_bit 6 (b64_val w 1) OR b64_val w 0)) = w"
proof -
  have "b64_val w 3 = drop_bit 18 w AND 0x3f" "b64_val w 2 = drop_bit 12 w AND 0x3f"
    "b64_val w 1 = drop_bit 6 w AND 0x3f" "b64_val w 0 = w AND 0x3f" by (simp_all add: b64_val_def)
  with sextets [OF assms] show ?thesis by (simp only: or.assoc)
qed

lemma load_three:
  "b64_iBuf b = 0 \<Longrightarrow> b64_load (b64_quad (b64_pack [x, y, z])) 0 b = Inr (b\<lparr>b64_iBuf := b64_pack [x, y, z]\<rparr>)"
  using vals_or [OF pack_24, of "[x, y, z]"]
  by (simp add: quad_sextets load_simps or.assoc del: b64_pack.simps b64_load.simps)

lemma low_vals:
  "b64_val (b64_pack [x]) 1 = 0" "b64_val (b64_pack [x]) 0 = 0" "b64_val (b64_pack [x, y]) 0 = 0"
  unfolding b64_val_def b64_pack.simps and_3f by (rule bit_word_eqI; simp add: bit_simps byte_bit_high)+

lemma load_two:
  "b64_iBuf b = 0 \<Longrightarrow> b64_load (take 3 (b64_quad (b64_pack [x, y])) @ [61]) 0 b =
     Inr (b\<lparr>b64_iBuf := b64_pack [x, y], b64_iChars := b64_iChars b - 1, b64_bEosIn := True\<rparr>)"
  using vals_or [OF pack_24, of "[x, y]"]
  by (simp add: quad_sextets load_simps or.assoc low_vals del: b64_pack.simps b64_load.simps)

lemma load_one:
  "b64_iBuf b = 0 \<Longrightarrow> b64_load (take 2 (b64_quad (b64_pack [x])) @ [61, 61]) 0 b =
     Inr (b\<lparr>b64_iBuf := b64_pack [x], b64_iChars := b64_iChars b - 2, b64_bEosIn := True\<rparr>)"
  using vals_or [OF pack_24, of "[x]"] low_vals(1,2) [of x]
  by (simp add: quad_sextets load_simps or.assoc del: b64_pack.simps b64_load.simps)

lemma out_pack:
  "b64_out (b64_pack [x, y, z]) 0 = x" "b64_out (b64_pack [x, y, z]) (Suc 0) = y" "b64_out (b64_pack [x, y, z]) (Suc (Suc 0)) = z"
  "b64_out (b64_pack [x, y]) 0 = x" "b64_out (b64_pack [x, y]) (Suc 0) = y" "b64_out (b64_pack [x]) 0 = x"
  using octets [of x y z] octets [of x y 0] octets [of x 0 0] by (simp_all add: b64_out_def)

text \<open>The first group of a text: loading its four characters makes its bytes ready.\<close>

lemma load_group:
  assumes "d \<noteq> []" "b64_iBuf b = 0" "b64_iChars b = 3" "\<not> b64_bEosIn b"
  shows "\<exists>b'. b64_load (take 4 (b64_spec d)) 0 b = Inr b' \<and> 4 \<le> length (b64_spec d) \<and>
    b' = b\<lparr>b64_iBuf := b64_iBuf b', b64_iChars := b64_iChars b', b64_bEosIn := b64_bEosIn b'\<rparr> \<and>
    b64_iChars b' = int (min 3 (length d)) \<and> map (b64_out (b64_iBuf b')) [0..<min 3 (length d)] = take 3 d \<and>
    (if b64_bEosIn b' then length d \<le> 3 else drop 4 (b64_spec d) = b64_spec (drop 3 d))"
proof (cases d rule: b64_spec.cases)
  case (2 x)
  with assms load_one [of b x] show ?thesis by (simp add: out_pack upt_rec del: b64_pack.simps b64_load.simps)
next
  case (3 x y)
  with assms load_two [of b x y] show ?thesis by (simp add: out_pack upt_rec del: b64_pack.simps b64_load.simps)
next
  case (4 x y z xs)
  with assms load_three [of b x y z] show ?thesis by (simp add: out_pack upt_rec del: b64_pack.simps b64_load.simps)
qed (use assms in simp)

text \<open>The state of a decoder that has \<open>rest\<close> still to give.\<close>

definition b64_dec :: "byte list \<Rightarrow> 's base64 \<Rightarrow> byte list \<Rightarrow> bool" where
  "b64_dec pend b rest \<longleftrightarrow>
     b64_eMode b \<noteq> B64_Encode \<and> 0 \<le> b64_iRPos b \<and> b64_iRPos b \<le> b64_iChars b \<and> b64_iChars b \<le> 3 \<and>
     (\<exists>d. rest = map (b64_out (b64_iBuf b)) [nat (b64_iRPos b)..<nat (b64_iChars b)] @ d \<and>
        (if b64_bEosIn b then d = [] else no_space pend = b64_spec d))"

lemma b64_dec_new: "no_space pend = b64_spec data \<Longrightarrow> b64_dec pend (b64_new s chunk) data"
  by (simp add: b64_dec_def b64_new_def)

lemma b64_copy_dec:
  assumes "b64_dec pend b rest" "b64_copy n b = (xs, b1)"
  shows "b64_dec pend b1 (drop (length xs) rest) \<and> xs = take (length xs) rest \<and> length xs \<le> n \<and>
    b64_rNext b1 = b64_rNext b \<and> b64_eMode b1 = b64_eMode b \<and>
    b64_bEosIn b1 = b64_bEosIn b \<and> (b64_iRPos b1 \<noteq> b64_iChars b1 \<longrightarrow> length xs = n)"
proof -
  obtain d where d: "rest = map (b64_out (b64_iBuf b)) [nat (b64_iRPos b)..<nat (b64_iChars b)] @ d"
    "if b64_bEosIn b then d = [] else no_space pend = b64_spec d"
    using assms(1) unfolding b64_dec_def by blast
  have r: "b64_eMode b \<noteq> B64_Encode" "0 \<le> b64_iRPos b" "b64_iRPos b \<le> b64_iChars b" "b64_iChars b \<le> 3"
    using assms(1) unfolding b64_dec_def by blast+
  define p c where "p = nat (b64_iRPos b)" and "c = nat (b64_iChars b)"
  have pc: "b64_iRPos b = int p" "b64_iChars b = int c" "p \<le> c" using r by (simp_all add: p_def c_def)
  define k where "k = min n (c - p)"
  have xs: "xs = map (b64_out (b64_iBuf b)) [p..<p + k]" "b1 = b\<lparr>b64_iRPos := int (p + k)\<rparr>"
    using assms(2) pc by (auto simp: b64_copy_def k_def b64_out_def Let_def nat_diff_distrib
        intro!: nth_equalityI)
  have l: "length xs = k" by (simp add: xs)
  have sp: "[p..<c] = [p..<p + k] @ [p + k..<c]"
    using pc(3) upt_add_eq_append [of p "p + k" "c - (p + k)"] by (simp add: k_def)
  have rest: "rest = xs @ map (b64_out (b64_iBuf b)) [p + k..<c] @ d"
    using d(1) by (simp add: pc sp xs(1))
  have "b64_dec pend b1 (drop k rest)"
    using r d(2) l rest pc by (auto simp: b64_dec_def xs(2) k_def nat_int_add intro!: exI [of _ d])
  moreover have "b64_iRPos b1 \<noteq> b64_iChars b1 \<longrightarrow> k = n"
    using pc(3) by (auto simp: xs(2) pc(2) k_def min_def split: if_splits)
  moreover have "k \<le> n" by (simp add: k_def)
  moreover have "take k rest = xs" unfolding rest l [symmetric] by simp
  moreover have "b64_rNext b1 = b64_rNext b" "b64_eMode b1 = b64_eMode b" "b64_bEosIn b1 = b64_bEosIn b"
    by (simp_all add: xs(2))
  ultimately show ?thesis unfolding l by blast
qed

context eos_source begin

lemma b64_fill_law:
  "good s \<Longrightarrow> length buf \<le> 4 \<Longrightarrow> \<exists>s'. b64_fill rd buf s =
     Some (Inr (buf @ take (4 - length buf) (no_space (pending s)), s')) \<and> good s' \<and>
     no_space (pending s') = drop (4 - length buf) (no_space (pending s)) \<and>
     (length buf + length (no_space (pending s)) < 4 \<longrightarrow> pending s' = [])"
proof (induction "length (pending s)" arbitrary: s buf rule: less_induct)
  case less
  show ?case
  proof (cases "length buf = 4")
    case True
    with less.prems show ?thesis by (subst b64_fill.simps) simp
  next
    case False
    obtain bs s1 where r: "rd s 1 = Inr (bs, s1)" "good s1" "pending s = bs @ pending s1" "length bs \<le> 1"
      "pending s \<noteq> [] \<longrightarrow> bs \<noteq> []" using rd_law [OF less.prems(1), of 1] by auto
    show ?thesis
    proof (cases bs)
      case Nil
      with r have "pending s = []" "pending s1 = []" by auto
      with r Nil False show ?thesis by (subst b64_fill.simps) (simp add: no_space_def)
    next
      case (Cons c cs)
      with r(4) have bs: "bs = [c]" by simp
      define buf1 where "buf1 = (if b64_space c then buf else buf @ [c])"
      have b1: "length buf1 \<le> 4" using less.prems(2) False by (simp add: buf1_def)
      have "length (pending s1) < length (pending s)" using r(3) bs by simp
      from less.hyps [OF this r(2) b1] obtain s' where s': "b64_fill rd buf1 s1 =
          Some (Inr (buf1 @ take (4 - length buf1) (no_space (pending s1)), s'))" "good s'"
        "no_space (pending s') = drop (4 - length buf1) (no_space (pending s1))"
        "length buf1 + length (no_space (pending s1)) < 4 \<longrightarrow> pending s' = []" by blast
      have ns: "no_space (pending s) = (if b64_space c then [] else [c]) @ no_space (pending s1)"
        using r(3) bs by (simp add: no_space_def)
      have le: "4 - length buf = Suc (4 - Suc (length buf))" using less.prems(2) False by simp
      have "b64_fill rd buf s = b64_fill rd buf1 s1"
        using False r(1) bs by (subst b64_fill.simps) (simp add: buf1_def)
      with s' ns le show ?thesis by (intro exI [of _ s']) (auto simp: buf1_def)
    qed
  qed
qed

lemma b64_refill_law:
  assumes g: "good (b64_rNext b)" and ns: "no_space (pending (b64_rNext b)) = b64_spec d"
    and b: "\<not> b64_bEosIn b" "b64_eMode b \<noteq> B64_Encode" "b64_iRPos b = 0" "0 \<le> b64_iChars b" "b64_iChars b \<le> 3"
  shows "\<exists>b'. b64_refill rd eos b = Some (Inr (d = [], b')) \<and> good (b64_rNext b') \<and>
    b64_dec (pending (b64_rNext b')) b' d \<and> b64_eMode b' = b64_eMode b \<and>
    (d \<noteq> [] \<longrightarrow> b64_iRPos b' \<noteq> b64_iChars b')"
proof -
  obtain s where s: "b64_fill rd [] (b64_rNext b) = Some (Inr (take 4 (b64_spec d), s))" "good s"
    "no_space (pending s) = drop 4 (b64_spec d)" "length (b64_spec d) < 4 \<longrightarrow> pending s = []"
    using b64_fill_law [OF g, of "[]"] unfolding ns by auto
  show ?thesis
  proof (cases "d = []")
    case True
    with s eos_law [OF s(2)] have "b64_refill rd eos b =
        Some (Inr (True, b\<lparr>b64_rNext := s, b64_iRPos := b64_iChars b, b64_bEosIn := True\<rparr>))"
      using b(3) by (simp add: b64_refill_def Let_def)
    with True s(2) b show ?thesis by (auto simp: b64_dec_def)
  next
    case False
    let ?b1 = "b\<lparr>b64_rNext := s, b64_iChars := 3, b64_iBuf := 0\<rparr>"
    obtain b' where b': "b64_load (take 4 (b64_spec d)) 0 ?b1 = Inr b'" "4 \<le> length (b64_spec d)"
      "b' = ?b1\<lparr>b64_iBuf := b64_iBuf b', b64_iChars := b64_iChars b', b64_bEosIn := b64_bEosIn b'\<rparr>"
      "b64_iChars b' = int (min 3 (length d))" "map (b64_out (b64_iBuf b')) [0..<min 3 (length d)] = take 3 d"
      "if b64_bEosIn b' then length d \<le> 3 else drop 4 (b64_spec d) = b64_spec (drop 3 d)"
      using load_group [OF False, of ?b1] b(1) by auto
    have f: "b64_rNext b' = s" "b64_iRPos b' = 0" "b64_eMode b' = b64_eMode b"
      by (subst b'(3), simp add: b(3))+
    have "b64_refill rd eos b = Some (Inr (False, b'))"
      using s(1) b'(1,2) by (simp add: b64_refill_def Let_def)
    moreover have "b64_dec (pending s) b' d"
      unfolding b64_dec_def f using b(2) b'(4,5,6) s(3) by (auto intro!: exI [of _ "drop 3 d"])
    moreover have "b64_iChars b' \<noteq> 0" using False b'(4) by (cases d) auto
    ultimately show ?thesis using False s(2) f by auto
  qed
qed

lemma b64_read_loop_law:
  "good (b64_rNext b) \<Longrightarrow> b64_dec (pending (b64_rNext b)) b rest \<Longrightarrow>
   \<exists>b'. b64_read_loop rd eos n b = Some (Inr (take n rest, b')) \<and> good (b64_rNext b') \<and>
     b64_dec (pending (b64_rNext b')) b' (drop n rest) \<and> b64_eMode b' = b64_eMode b"
proof (induction "2 * n + (if b64_iRPos b = b64_iChars b then 1 else 0)" arbitrary: n b rest rule: less_induct)
  case less
  show ?case
  proof (cases "n = 0")
    case True
    with less.prems show ?thesis by (subst b64_read_loop.simps) auto
  next
    case False
    obtain xs b1 where c: "b64_copy n b = (xs, b1)" by fastforce
    have cp: "b64_dec (pending (b64_rNext b)) b1 (drop (length xs) rest)" "xs = take (length xs) rest" "length xs \<le> n"
      "b64_rNext b1 = b64_rNext b" "b64_eMode b1 = b64_eMode b" "b64_bEosIn b1 = b64_bEosIn b"
      "b64_iRPos b1 \<noteq> b64_iChars b1 \<longrightarrow> length xs = n"
      using b64_copy_dec [OF less.prems(2) c] by blast+
    show ?thesis
    proof (cases "b64_iRPos b1 = b64_iChars b1 \<and> \<not> b64_bEosIn b1")
      case False
      have "take n rest = xs \<and> drop n rest = drop (length xs) rest"
      proof (cases "b64_iRPos b1 = b64_iChars b1")
        case True
        then have "drop (length xs) rest = []" using cp(1) False by (auto simp: b64_dec_def)
        then have "length rest \<le> length xs" by simp
        with cp(2,3) show ?thesis by (simp add: min_absorb1)
      next
        case False
        with cp(2,7) show ?thesis by simp
      qed
      moreover have "b64_read_loop rd eos n b = Some (Inr (xs, b1))"
        using \<open>n \<noteq> 0\<close> False c cp(7) by (subst b64_read_loop.simps) auto
      ultimately show ?thesis using less.prems(1) cp(1,4,5) by auto
    next
      case True
      define b2 where "b2 = b1\<lparr>b64_iRPos := 0\<rparr>"
      define d where "d = drop (length xs) rest"
      have ns: "no_space (pending (b64_rNext b2)) = b64_spec d"
        using cp(1) True by (auto simp: b64_dec_def d_def b2_def cp(4))
      have f2: "\<not> b64_bEosIn b2" "b64_eMode b2 \<noteq> B64_Encode" "b64_iRPos b2 = 0" "0 \<le> b64_iChars b2" "b64_iChars b2 \<le> 3"
        "good (b64_rNext b2)" using cp(1) True less.prems(1) by (auto simp: b64_dec_def b2_def cp(4))
      obtain b3 where b3: "b64_refill rd eos b2 = Some (Inr (d = [], b3))" "good (b64_rNext b3)"
        "b64_dec (pending (b64_rNext b3)) b3 d" "b64_eMode b3 = b64_eMode b2" "d \<noteq> [] \<longrightarrow> b64_iRPos b3 \<noteq> b64_iChars b3"
        using b64_refill_law [OF f2(6) ns f2(1-5)] by blast
      have tk: "take n rest = xs @ take (n - length xs) d" "drop n rest = drop (n - length xs) d"
        using cp(2,3) take_add [of "length xs" "n - length xs" rest] by (simp_all add: d_def)
      have eq: "b64_read_loop rd eos n b = (if d = [] then Some (Inr (xs, b3))
          else Option.bind (b64_read_loop rd eos (n - length xs) b3) (\<lambda>q. Some (rbind q (\<lambda>yb. Inr (xs @ fst yb, snd yb)))))"
        using \<open>n \<noteq> 0\<close> True c b3(1) by (subst b64_read_loop.simps) (simp add: b2_def)
      show ?thesis
      proof (cases "d = []")
        case True
        with eq tk b3 cp(5) show ?thesis by (auto simp: b2_def)
      next
        case False
        have "2 * (n - length xs) + (if b64_iRPos b3 = b64_iChars b3 then 1 else 0) <
            2 * n + (if b64_iRPos b = b64_iChars b then 1 else 0)"
        proof (cases "xs = []")
          case True
          have "b1 = b" using c True by (auto simp: b64_copy_def Let_def)
          with \<open>b64_iRPos b1 = b64_iChars b1 \<and> \<not> b64_bEosIn b1\<close> False b3(5) True show ?thesis by simp
        next
          case False
          then have "n - length xs < n" using \<open>n \<noteq> 0\<close> by simp
          then show ?thesis by simp
        qed
        from less.hyps [OF this b3(2,3)] obtain b4 where
          "b64_read_loop rd eos (n - length xs) b3 = Some (Inr (take (n - length xs) d, b4))" "good (b64_rNext b4)"
          "b64_dec (pending (b64_rNext b4)) b4 (drop (n - length xs) d)" "b64_eMode b4 = b64_eMode b3" by blast
        with eq False tk b3(4) cp(5) show ?thesis by (auto simp: b2_def)
      qed
    qed
  qed
qed

lemma b64_read_law:
  assumes "good (b64_rNext b)" "b64_dec (pending (b64_rNext b)) b rest"
  shows "\<exists>b'. b64_read rd eos b (int n) = Some (Inr (take n rest, b')) \<and> good (b64_rNext b') \<and>
    b64_dec (pending (b64_rNext b')) b' (drop n rest)"
proof -
  let ?b1 = "b\<lparr>b64_eMode := B64_Decode\<rparr>"
  have m: "b64_eMode b \<noteq> B64_Encode" using assms(2) by (simp add: b64_dec_def)
  have d1: "b64_dec (pending (b64_rNext ?b1)) ?b1 rest" using assms(2) by (auto simp: b64_dec_def)
  show ?thesis
  proof (cases "b64_bEosIn b \<and> b64_iRPos b = b64_iChars b")
    case True
    then have "rest = []" using assms(2) by (auto simp: b64_dec_def)
    with True m d1 assms(1) show ?thesis by (auto simp: b64_read_def)
  next
    case False
    obtain b' where b': "b64_read_loop rd eos n ?b1 = Some (Inr (take n rest, b'))" "good (b64_rNext b')"
      "b64_dec (pending (b64_rNext b')) b' (drop n rest)" using b64_read_loop_law [OF _ d1, of n] assms(1) by auto
    with m False show ?thesis by (auto simp: b64_read_def Let_def)
  qed
qed

end

section \<open>Through a memory buffer\<close>

text \<open>A client that encodes chunks into a memory buffer, and one that decodes a text in several reads.\<close>

definition b64_encode_chunks :: "int \<Rightarrow> byte list list \<Rightarrow> byte list result" where
  "b64_encode_chunks iChunkSize cs =
     rbind (write_chunks (b64_write mb_write) (b64_new (mb_new []) iChunkSize) cs) (\<lambda>b.
     rbind (b64_stop mb_write b) (\<lambda>(n, b'). Inr (mb_sBuf (b64_rNext b'))))"

fun b64_reads :: "mem_buf base64 \<Rightarrow> nat list \<Rightarrow> byte list list result option" where
  "b64_reads b [] = Some (Inr [])"
| "b64_reads b (n # ns) =
     (case b64_read mb_read mb_isEos b (int n) of
        None \<Rightarrow> None
      | Some (Inl e) \<Rightarrow> Some (Inl e)
      | Some (Inr (bs, b')) \<Rightarrow> map_option (\<lambda>r. rbind r (\<lambda>bss. Inr (bs # bss))) (b64_reads b' ns))"

lemma b64_encode_chunks_ok:
  assumes "chunk = 0 \<or> 4 \<le> chunk"
  shows "\<exists>t. b64_encode_chunks chunk cs = Inr t \<and> no_space t = b64_spec (concat cs) \<and>
    (chunk = 0 \<longrightarrow> t = b64_spec (concat cs))"
proof (cases "cs = []")
  case True
  then show ?thesis by (simp add: b64_encode_chunks_def b64_stop_def b64_new_def mb_new_def no_space_def)
next
  case False
  let ?b = "b64_new (mb_new []) chunk"
  have g: "mb_nPos (b64_rNext ?b) = mb_getSize (b64_rNext ?b)" "mb_sBuf (b64_rNext ?b) = [] @ []" "b64_iChunkSize ?b = chunk"
    by (simp_all add: b64_new_def mb_new_def mb_getSize_def)
  obtain b1 o1 where b1: "write_chunks (b64_write mb_write) ?b cs = Inr b1" "mb_nPos (b64_rNext b1) = mb_getSize (b64_rNext b1)"
    "b64_eMode b1 = B64_Encode" "b64_iChunkSize b1 = chunk" "mb_sBuf (b64_rNext b1) = [] @ o1" "b64_enc b1 o1 (concat cs)"
    using membuf_sink.b64_writes_law [OF g(1,2) b64_enc_new [OF assms], of cs] False unfolding g(3) by auto
  obtain n b2 o2 where "b64_stop mb_write b1 = Inr (n, b2)" "mb_sBuf (b64_rNext b2) = [] @ o2"
    "no_space o2 = b64_spec (concat cs)" "b64_iChunkSize b1 = 0 \<longrightarrow> o2 = b64_spec (concat cs)"
    using membuf_sink.b64_stop_law [OF b1(2,5,6,3)] by blast
  with b1(1,4) show ?thesis by (simp add: b64_encode_chunks_def)
qed

text \<open>
  Without a chunk size the encoder writes exactly the encoding of all bytes it was given,
  however they were cut into writes: groups of three bytes as four characters, the last group padded.
\<close>

theorem base64_encodes:
  "b64_encode_chunks 0 cs = Inr (b64_spec (concat cs))"
  using b64_encode_chunks_ok [of 0 cs] by auto

lemma b64_reads_ok:
  "mb_wf (b64_rNext b) \<Longrightarrow> b64_dec (mb_pending (b64_rNext b)) b rest \<Longrightarrow>
   \<exists>bss. b64_reads b ns = Some (Inr bss) \<and> concat bss = take (sum_list ns) rest"
proof (induction ns arbitrary: b rest)
  case Nil
  then show ?case by simp
next
  case (Cons n ns)
  obtain b' where b': "b64_read mb_read mb_isEos b (int n) = Some (Inr (take n rest, b'))" "mb_wf (b64_rNext b')"
    "b64_dec (mb_pending (b64_rNext b')) b' (drop n rest)" using membuf.b64_read_law [OF Cons.prems, of n] by blast
  from Cons.IH [OF b'(2,3)] obtain bss where "b64_reads b' ns = Some (Inr bss)"
    "concat bss = take (sum_list ns) (drop n rest)" by blast
  with b'(1) show ?case by (simp add: take_add)
qed

text \<open>
  C11. What the encoder writes, with line ends after any number of characters that is at least four
  or without, the decoder reads back: reads of any sizes give the bytes in order, as many as asked
  for while there are any, and the loops end.
\<close>

theorem base64_roundtrip:
  assumes "chunk = 0 \<or> 4 \<le> chunk"
  shows "\<exists>t bss. b64_encode_chunks chunk cs = Inr t \<and> b64_reads (b64_new (mb_new t) chunk') ns = Some (Inr bss) \<and>
    concat bss = take (sum_list ns) (concat cs)"
proof -
  obtain t where t: "b64_encode_chunks chunk cs = Inr t" "no_space t = b64_spec (concat cs)"
    using b64_encode_chunks_ok [OF assms] by blast
  have "b64_rNext (b64_new (mb_new t) chunk') = mb_new t" by (simp add: b64_new_def)
  with b64_reads_ok [of "b64_new (mb_new t) chunk'" "concat cs" ns] b64_dec_new [of t "concat cs" "mb_new t" chunk'] t
  show ?thesis by simp
qed

theorem base64_roundtrip_witness:
  "\<exists>t bss. b64_encode_chunks 4 [[1, 2], [3], [4, 5, 6, 7]] = Inr t \<and>
     b64_reads (b64_new (mb_new t) 0) [5, 1] = Some (Inr bss) \<and> concat bss = [1, 2, 3, 4, 5, 6]"
  using base64_roundtrip [of 4 "[[1, 2], [3], [4, 5, 6, 7]]" 0 "[5, 1]"] by simp

text \<open>
  A character below \<open>+\<close> that is not white space makes the decoder read before its table: nothing
  checks the characters of a text.
\<close>

theorem base64_invalid_character:
  assumes "sint c < 43" "\<not> b64_space c" "\<not> b64_space x" "\<not> b64_space y" "\<not> b64_space z" "0 < n"
  shows "b64_read mb_read mb_isEos (b64_new (mb_new ([c, x, y, z] @ t)) 0) (int n) = Some (Inl Out_Of_Bounds)"
proof -
  let ?b = "(b64_new (mb_new ([c, x, y, z] @ t)) 0)\<lparr>b64_eMode := B64_Decode\<rparr>"
  have c: "c \<noteq> 61" using assms(1) by auto
  obtain s where f: "b64_fill mb_read [] (mb_new ([c, x, y, z] @ t)) = Some (Inr ([c, x, y, z], s))"
    using membuf.b64_fill_law [of "mb_new ([c, x, y, z] @ t)" "[]"] assms(2-5) by (auto simp: no_space_def)
  have "arr_get tblDec (sint c - 43) = Inl Out_Of_Bounds" using assms(1) by (simp add: arr_get_def)
  then have "b64_refill mb_read mb_isEos ?b = Some (Inl Out_Of_Bounds)"
    using f c by (simp add: b64_refill_def b64_new_def Let_def)
  moreover have "b64_copy n ?b = ([], ?b)" by (simp add: b64_copy_def b64_new_def)
  moreover have "b64_iRPos ?b = b64_iChars ?b" "\<not> b64_bEosIn ?b" "?b\<lparr>b64_iRPos := 0\<rparr> = ?b" by (simp_all add: b64_new_def)
  ultimately have "b64_read_loop mb_read mb_isEos n ?b = Some (Inl Out_Of_Bounds)"
    using assms(6) by (subst b64_read_loop.simps) simp
  then show ?thesis by (simp add: b64_read_def b64_new_def)
qed

theorem base64_invalid_character_witness:
  "b64_read mb_read mb_isEos (b64_new (mb_new [33, 65, 65, 65]) 0) 3 = Some (Inl Out_Of_Bounds)"
  using base64_invalid_character [of 33 65 65 65 3 "[]"] by (simp add: b64_space_def)

end
