(* ===== verification/Bu_Hex.thy ===== *)
theory Bu_Hex
  imports Bu_Base64
begin

text \<open>
  \<open>Bu::Hex\<close> (\<open>src/stable/hex.cpp\<close>): two hexadecimal digits for every byte, with a space after
  every \<open>iChunk\<close> bytes when \<open>iChunk\<close> is positive. Decoding skips white space.
\<close>

record 's hex =
  hx_rNext :: 's
  hx_iChunk :: int
  hx_iPos :: int
  hx_cIn :: "byte list"
  hx_iIn :: nat
  hx_sChrs :: "byte list"

definition hx_new :: "'s \<Rightarrow> bool \<Rightarrow> int \<Rightarrow> 's hex" where
  "hx_new rNext bUpperCase iChunk =
     \<lparr>hx_rNext = rNext, hx_iChunk = iChunk, hx_iPos = 0, hx_cIn = [0, 0], hx_iIn = 0,
      hx_sChrs = map of_char (if bUpperCase then ''0123456789ABCDEF'' else ''0123456789abcdef'')\<rparr>"

definition hx_start :: "'s hex \<Rightarrow> 's hex" where
  "hx_start h = h\<lparr>hx_iPos := 0, hx_iIn := 0\<rparr>"

definition hx_stop :: "'s hex \<Rightarrow> int" where
  "hx_stop h = hx_iPos h"

section \<open>Writing\<close>

fun hx_write_loop :: "('s \<Rightarrow> byte list \<Rightarrow> (int \<times> 's) result) \<Rightarrow> byte list \<Rightarrow> 's hex \<Rightarrow> 's hex result" where
  "hx_write_loop wr [] h = Inr h"
| "hx_write_loop wr (x # xs) h =
     (let cOut = [hx_sChrs h ! unat (drop_bit 4 (x AND 0xf0)), hx_sChrs h ! unat (x AND 0x0f)]
      in rbind (if hx_iChunk h > 0 \<and> c_rem (hx_iPos h) (hx_iChunk h) = 0 \<and> hx_iPos h > 0
                then rbind (wr (hx_rNext h) [32]) (\<lambda>(n, s). Inr s) else Inr (hx_rNext h)) (\<lambda>s.
         rbind (wr s cOut) (\<lambda>(n, s').
           hx_write_loop wr xs (h\<lparr>hx_rNext := s', hx_iPos := hx_iPos h + 1\<rparr>))))"

definition hx_write :: "('s \<Rightarrow> byte list \<Rightarrow> (int \<times> 's) result) \<Rightarrow> 's hex \<Rightarrow> byte list \<Rightarrow> (int \<times> 's hex) result" where
  "hx_write wr h bytes = rbind (hx_write_loop wr bytes h) (\<lambda>h'. Inr (int (length bytes), h'))"

section \<open>Reading\<close>

text \<open>Two characters that are not white space; the flag is false when the next stream gave nothing.\<close>

partial_function (option) hx_fill ::
    "('s \<Rightarrow> int \<Rightarrow> (byte list \<times> 's) result) \<Rightarrow> 's hex \<Rightarrow> (bool \<times> 's hex) result option" where
  "hx_fill rd h =
     (if hx_iIn h < 2
      then case rd (hx_rNext h) 1 of Inl e \<Rightarrow> Some (Inl e)
      | Inr bs \<Rightarrow>
          (if fst bs = [] then Some (Inr (False, h\<lparr>hx_rNext := snd bs\<rparr>))
           else let h1 = h\<lparr>hx_rNext := snd bs, hx_cIn := (hx_cIn h)[hx_iIn h := hd (fst bs)]\<rparr>
             in hx_fill rd (if b64_space (hd (fst bs)) then h1 else h1\<lparr>hx_iIn := hx_iIn h + 1\<rparr>))
      else Some (Inr (True, h)))"

definition chr2nibble :: "byte \<Rightarrow> byte" where
  "chr2nibble c = (if 48 \<le> c \<and> c \<le> 57 then c - 48 else (c OR 0x60) - 97 + 10)"

fun hx_read_loop ::
    "('s \<Rightarrow> int \<Rightarrow> (byte list \<times> 's) result) \<Rightarrow> nat \<Rightarrow> 's hex \<Rightarrow> (byte list \<times> 's hex) result option" where
  "hx_read_loop rd 0 h = Some (Inr ([], h))"
| "hx_read_loop rd (Suc n) h =
     (case hx_fill rd h of
        None \<Rightarrow> None
      | Some (Inl e) \<Rightarrow> Some (Inl e)
      | Some (Inr (False, h1)) \<Rightarrow> Some (Inr ([], h1))
      | Some (Inr (True, h1)) \<Rightarrow>
          (let c = push_bit 4 (chr2nibble (hx_cIn h1 ! 0)) OR chr2nibble (hx_cIn h1 ! 1)
           in map_option (\<lambda>r. rbind r (\<lambda>(bs, h2). Inr (c # bs, h2))) (hx_read_loop rd n (h1\<lparr>hx_iIn := 0\<rparr>))))"

definition hx_read ::
    "('s \<Rightarrow> int \<Rightarrow> (byte list \<times> 's) result) \<Rightarrow> 's hex \<Rightarrow> int \<Rightarrow> (byte list \<times> 's hex) result option" where
  "hx_read rd h iBytes = hx_read_loop rd (nat iBytes) h"

section \<open>Digits\<close>

definition hx_digits :: "bool \<Rightarrow> byte list" where
  "hx_digits u = map of_char (if u then ''0123456789ABCDEF'' else ''0123456789abcdef'')"

lemma hx_digit_inverse:
  "list_all (\<lambda>j. chr2nibble (hx_digits u ! j) = word_of_nat j \<and> \<not> b64_space (hx_digits u ! j)) [0..<16]"
  by (cases u) (simp_all add: hx_digits_def upt_rec chr2nibble_def b64_space_def)

lemma hx_digit:
  assumes "j < 16"
  shows "chr2nibble (hx_digits u ! j) = word_of_nat j" "\<not> b64_space (hx_digits u ! j)"
  using hx_digit_inverse [of u] assms unfolding list_all_iff by simp_all

lemma and_0f: "x AND 0x0f = take_bit 4 (x :: byte)"
  by (simp add: take_bit_eq_mask mask_eq_exp_minus_1)

lemma and_f0: "drop_bit 4 (x AND 0xf0) = drop_bit 4 (x :: byte)"
proof -
  have e: "(0xf0 :: byte) = push_bit 4 (mask 4)" by (simp add: mask_eq_exp_minus_1 push_bit_eq_mult)
  show ?thesis unfolding e by (intro bit_word_eqI) (auto simp: bit_simps dest: bit_imp_le_length)
qed

lemma nibbles: "push_bit 4 (drop_bit 4 x) OR take_bit 4 x = (x :: byte)"
  by (rule bit_word_eqI) (auto simp: bit_simps)

lemma high_nibble: "unat (drop_bit 4 (x :: byte)) < 16"
proof -
  have x: "unat x < 2 ^ LENGTH(8)" by (rule unsigned_less)
  then have "unat (drop_bit 4 x) = unat x div 16"
    by (simp only: unsigned_drop_bit_eq) (simp add: drop_bit_eq_div take_bit_nat_eq_self)
  with x show ?thesis by simp
qed

lemma low_nibble: "unat (take_bit 4 (x :: byte)) < 16"
  using take_bit_nat_less_exp [of 4 "unat x"] by (simp add: unsigned_take_bit_eq)

definition hx_pair :: "bool \<Rightarrow> byte \<Rightarrow> byte list" where
  "hx_pair u x = [hx_digits u ! unat (drop_bit 4 x), hx_digits u ! unat (take_bit 4 x)]"

text \<open>The encoding of a byte string.\<close>

definition hx_spec :: "bool \<Rightarrow> byte list \<Rightarrow> byte list" where
  "hx_spec u xs = concat (map (hx_pair u) xs)"

lemma hx_pair_inverse:
  "push_bit 4 (chr2nibble (hx_pair u x ! 0)) OR chr2nibble (hx_pair u x ! 1) = x"
  using hx_digit(1) [OF high_nibble, of u x] hx_digit(1) [OF low_nibble, of u x] nibbles [of x]
  by (simp add: hx_pair_def)

lemma hx_pair_no_space: "no_space (hx_pair u x) = hx_pair u x"
  using hx_digit(2) [OF high_nibble, of u x] hx_digit(2) [OF low_nibble, of u x]
  by (simp add: hx_pair_def no_space_def)

section \<open>What is written and what is read\<close>

context full_sink begin

lemma hx_write_loop_law:
  "good (hx_rNext h) \<Longrightarrow> hx_sChrs h = hx_digits u \<Longrightarrow>
   \<exists>h' out. hx_write_loop wr xs h = Inr h' \<and> good (hx_rNext h') \<and> hx_sChrs h' = hx_digits u \<and>
     hx_iPos h' = hx_iPos h + int (length xs) \<and>
     written (hx_rNext h') = written (hx_rNext h) @ out \<and> no_space out = hx_spec u xs \<and>
     (hx_iChunk h \<le> 0 \<longrightarrow> out = hx_spec u xs) \<and> hx_iChunk h' = hx_iChunk h"
proof (induction xs arbitrary: h)
  case Nil
  then show ?case by (auto simp: hx_spec_def no_space_def)
next
  case (Cons x xs)
  define sp where "sp = (if hx_iChunk h > 0 \<and> c_rem (hx_iPos h) (hx_iChunk h) = 0 \<and> hx_iPos h > 0 then [32 :: byte] else [])"
  obtain s1 where s1: "(if hx_iChunk h > 0 \<and> c_rem (hx_iPos h) (hx_iChunk h) = 0 \<and> hx_iPos h > 0
      then rbind (wr (hx_rNext h) [32]) (\<lambda>(n, s). Inr s) else Inr (hx_rNext h)) = Inr s1"
    "good s1" "written s1 = written (hx_rNext h) @ sp"
  proof (cases "hx_iChunk h > 0 \<and> c_rem (hx_iPos h) (hx_iChunk h) = 0 \<and> hx_iPos h > 0")
    case True
    obtain s where "wr (hx_rNext h) [32] = Inr (int (length [32 :: byte]), s)" "good s" "written s = written (hx_rNext h) @ [32]"
      using wr_all [OF Cons.prems(1), of "[32]"] by blast
    with True that [of s] show thesis by (simp add: sp_def)
  next
    case False
    with Cons.prems(1) that [of "hx_rNext h"] show thesis by (auto simp: sp_def)
  qed
  have pr: "[hx_sChrs h ! unat (drop_bit 4 (x AND 0xf0)), hx_sChrs h ! unat (x AND 0x0f)] = hx_pair u x"
    unfolding and_f0 and_0f by (simp add: hx_pair_def Cons.prems(2))
  obtain n s2 where s2: "wr s1 (hx_pair u x) = Inr (n, s2)" "good s2" "written s2 = written s1 @ hx_pair u x"
    using wr_all [OF s1(2), of "hx_pair u x"] by blast
  let ?h = "h\<lparr>hx_rNext := s2, hx_iPos := hx_iPos h + 1\<rparr>"
  obtain h' out where h': "hx_write_loop wr xs ?h = Inr h'" "good (hx_rNext h')" "hx_sChrs h' = hx_digits u"
    "hx_iPos h' = hx_iPos h + 1 + int (length xs)" "written (hx_rNext h') = written s2 @ out"
    "no_space out = hx_spec u xs" "hx_iChunk h \<le> 0 \<longrightarrow> out = hx_spec u xs" "hx_iChunk h' = hx_iChunk h"
    using Cons.IH [of ?h] s2(2) Cons.prems(2) by auto
  have "hx_write_loop wr (x # xs) h = Inr h'"
    using s2(1) h'(1) by (simp only: hx_write_loop.simps Let_def pr s1(1) rbind_Inr prod.case)
  moreover have "no_space sp = []" by (simp add: sp_def no_space_def b64_space_def)
  ultimately show ?case
    using h' s1(3) s2(3)
    by (intro exI [of _ h'] exI [of _ "sp @ hx_pair u x @ out"]) (simp add: hx_pair_no_space hx_spec_def, simp add: sp_def)
qed

end

text \<open>A reader between two bytes.\<close>

definition hx_dec :: "bool \<Rightarrow> byte list \<Rightarrow> 's hex \<Rightarrow> byte list \<Rightarrow> bool" where
  "hx_dec u pend h rest \<longleftrightarrow> no_space pend = hx_spec u rest \<and> hx_iIn h = 0 \<and> length (hx_cIn h) = 2"

context byte_source begin

lemma hx_fill_law:
  "good (hx_rNext h) \<Longrightarrow> length (hx_cIn h) = 2 \<Longrightarrow> hx_iIn h \<le> 2 \<Longrightarrow>
   \<exists>h'. hx_fill rd h = Some (Inr (hx_iIn h' = 2, h')) \<and> good (hx_rNext h') \<and> length (hx_cIn h') = 2 \<and>
     no_space (pending (hx_rNext h')) = drop (2 - hx_iIn h) (no_space (pending (hx_rNext h))) \<and>
     hx_iIn h' = hx_iIn h + length (take (2 - hx_iIn h) (no_space (pending (hx_rNext h)))) \<and>
     take (hx_iIn h') (hx_cIn h') = take (hx_iIn h) (hx_cIn h) @ take (2 - hx_iIn h) (no_space (pending (hx_rNext h)))"
proof (induction "length (pending (hx_rNext h))" arbitrary: h rule: less_induct)
  case less
  show ?case
  proof (cases "hx_iIn h < 2")
    case False
    with less.prems show ?thesis by (subst hx_fill.simps) auto
  next
    case True
    obtain bs s1 where r: "rd (hx_rNext h) 1 = Inr (bs, s1)" "good s1" "pending (hx_rNext h) = bs @ pending s1"
      "length bs \<le> 1" "pending (hx_rNext h) \<noteq> [] \<longrightarrow> bs \<noteq> []" using rd_law [OF less.prems(1), of 1] by auto
    show ?thesis
    proof (cases bs)
      case Nil
      with r have e: "pending (hx_rNext h) = []" "pending s1 = []" by auto
      have "hx_fill rd h = Some (Inr (False, h\<lparr>hx_rNext := s1\<rparr>))"
        using r(1) Nil True by (subst hx_fill.simps) simp
      with e r(2) less.prems True show ?thesis
        by (intro exI [of _ "h\<lparr>hx_rNext := s1\<rparr>"]) (simp add: no_space_def)
    next
      case (Cons c cs)
      with r(4) have bs: "bs = [c]" by simp
      define h1 where "h1 = (let h1 = h\<lparr>hx_rNext := s1, hx_cIn := (hx_cIn h)[hx_iIn h := c]\<rparr>
        in if b64_space c then h1 else h1\<lparr>hx_iIn := hx_iIn h + 1\<rparr>)"
      have f1: "hx_rNext h1 = s1" "hx_cIn h1 = (hx_cIn h)[hx_iIn h := c]"
        "hx_iIn h1 = (if b64_space c then hx_iIn h else hx_iIn h + 1)" by (simp_all add: h1_def Let_def)
      have ns: "no_space (pending (hx_rNext h)) = (if b64_space c then [] else [c]) @ no_space (pending s1)"
        using r(3) bs by (simp add: no_space_def)
      have eq: "hx_fill rd h = hx_fill rd h1"
        using True r(1) bs by (subst hx_fill.simps) (simp add: h1_def Let_def)
      have "length (pending (hx_rNext h1)) < length (pending (hx_rNext h))" using r(3) bs by (simp add: f1)
      moreover have "good (hx_rNext h1)" "length (hx_cIn h1) = 2" "hx_iIn h1 \<le> 2"
        using r(2) less.prems True by (simp_all add: f1)
      ultimately obtain h' where h': "hx_fill rd h1 = Some (Inr (hx_iIn h' = 2, h'))"
        "good (hx_rNext h')" "length (hx_cIn h') = 2"
        "no_space (pending (hx_rNext h')) = drop (2 - hx_iIn h1) (no_space (pending s1))"
        "hx_iIn h' = hx_iIn h1 + length (take (2 - hx_iIn h1) (no_space (pending s1)))"
        "take (hx_iIn h') (hx_cIn h') = take (hx_iIn h1) (hx_cIn h1) @ take (2 - hx_iIn h1) (no_space (pending s1))"
        using less.hyps [of h1] unfolding f1(1) by blast
      show ?thesis
      proof (cases "b64_space c")
        case True
        with h' eq ns f1 show ?thesis by (intro exI [of _ h']) simp
      next
        case False
        have "take (hx_iIn h + 1) ((hx_cIn h)[hx_iIn h := c]) = take (hx_iIn h) (hx_cIn h) @ [c]"
          using True less.prems(2) by (simp add: take_Suc_conv_app_nth)
        moreover have "2 - hx_iIn h = Suc (2 - (hx_iIn h + 1))" using True by simp
        ultimately show ?thesis using False h' eq ns f1 by (intro exI [of _ h']) simp
      qed
    qed
  qed
qed

lemma hx_read_loop_law:
  "good (hx_rNext h) \<Longrightarrow> hx_dec u (pending (hx_rNext h)) h rest \<Longrightarrow>
   \<exists>h'. hx_read_loop rd n h = Some (Inr (take n rest, h')) \<and> good (hx_rNext h') \<and>
     hx_dec u (pending (hx_rNext h')) h' (drop n rest)"
proof (induction n arbitrary: h rest)
  case 0
  then show ?case by auto
next
  case (Suc n)
  obtain h1 where f: "hx_fill rd h = Some (Inr (hx_iIn h1 = 2, h1))" "good (hx_rNext h1)" "length (hx_cIn h1) = 2"
    "no_space (pending (hx_rNext h1)) = drop 2 (hx_spec u rest)" "hx_iIn h1 = length (take 2 (hx_spec u rest))"
    "take (hx_iIn h1) (hx_cIn h1) = take 2 (hx_spec u rest)"
    using hx_fill_law [OF Suc.prems(1)] Suc.prems(2) unfolding hx_dec_def by auto
  show ?case
  proof (cases rest)
    case Nil
    with f have "hx_read_loop rd (Suc n) h = Some (Inr ([], h1))" by (simp add: hx_spec_def)
    with Nil f show ?thesis by (simp add: hx_dec_def hx_spec_def)
  next
    case (Cons x r)
    have sp: "hx_spec u rest = hx_pair u x @ hx_spec u r" "length (hx_pair u x) = 2"
      by (simp_all add: Cons hx_spec_def hx_pair_def)
    have i: "hx_iIn h1 = 2" using f(5) sp by simp
    have c: "hx_cIn h1 = hx_pair u x" using f(3,6) sp i by simp
    have "hx_dec u (pending (hx_rNext (h1\<lparr>hx_iIn := 0\<rparr>))) (h1\<lparr>hx_iIn := 0\<rparr>) r"
      using f(3,4) sp by (simp add: hx_dec_def)
    from Suc.IH [OF _ this] f(2) obtain h' where "hx_read_loop rd n (h1\<lparr>hx_iIn := 0\<rparr>) = Some (Inr (take n r, h'))"
      "good (hx_rNext h')" "hx_dec u (pending (hx_rNext h')) h' (drop n r)" by auto
    with f(1) i Cons hx_pair_inverse [of u x] show ?thesis by (simp add: c)
  qed
qed

end

section \<open>Through a memory buffer\<close>

definition hx_encode :: "bool \<Rightarrow> int \<Rightarrow> byte list list \<Rightarrow> byte list result" where
  "hx_encode bUpperCase iChunk cs =
     rbind (write_chunks (hx_write mb_write) (hx_new (mb_new []) bUpperCase iChunk) cs) (\<lambda>h.
       Inr (mb_sBuf (hx_rNext h)))"

fun hx_reads :: "mem_buf hex \<Rightarrow> nat list \<Rightarrow> byte list list result option" where
  "hx_reads h [] = Some (Inr [])"
| "hx_reads h (n # ns) =
     (case hx_read mb_read h (int n) of
        None \<Rightarrow> None
      | Some (Inl e) \<Rightarrow> Some (Inl e)
      | Some (Inr (bs, h')) \<Rightarrow> map_option (\<lambda>r. rbind r (\<lambda>bss. Inr (bs # bss))) (hx_reads h' ns))"

lemma hx_spec_append: "hx_spec u (xs @ ys) = hx_spec u xs @ hx_spec u ys"
  by (simp add: hx_spec_def)

lemma hx_writes_ok:
  "mb_nPos (hx_rNext h) = mb_getSize (hx_rNext h) \<Longrightarrow> hx_sChrs h = hx_digits u \<Longrightarrow>
   \<exists>h' out. write_chunks (hx_write mb_write) h cs = Inr h' \<and> mb_sBuf (hx_rNext h') = mb_sBuf (hx_rNext h) @ out \<and>
     no_space out = hx_spec u (concat cs) \<and> (hx_iChunk h \<le> 0 \<longrightarrow> out = hx_spec u (concat cs))"
proof (induction cs arbitrary: h)
  case Nil
  then show ?case by (auto simp: hx_spec_def no_space_def)
next
  case (Cons c cs)
  obtain h1 o1 where h1: "hx_write_loop mb_write c h = Inr h1" "mb_nPos (hx_rNext h1) = mb_getSize (hx_rNext h1)"
    "hx_sChrs h1 = hx_digits u" "mb_sBuf (hx_rNext h1) = mb_sBuf (hx_rNext h) @ o1" "no_space o1 = hx_spec u c"
    "hx_iChunk h \<le> 0 \<longrightarrow> o1 = hx_spec u c" "hx_iChunk h1 = hx_iChunk h"
    using membuf_sink.hx_write_loop_law [OF Cons.prems, of c] by blast
  from Cons.IH [OF h1(2,3)] obtain h' o2 where "write_chunks (hx_write mb_write) h1 cs = Inr h'"
    "mb_sBuf (hx_rNext h') = mb_sBuf (hx_rNext h1) @ o2" "no_space o2 = hx_spec u (concat cs)"
    "hx_iChunk h1 \<le> 0 \<longrightarrow> o2 = hx_spec u (concat cs)" by blast
  moreover have "hx_write mb_write h c = Inr (int (length c), h1)" using h1(1) by (simp add: hx_write_def)
  ultimately show ?case using h1 by (intro exI [of _ h'] exI [of _ "o1 @ o2"]) (simp add: hx_spec_append)
qed

lemma hx_reads_ok:
  "mb_wf (hx_rNext h) \<Longrightarrow> hx_dec u (mb_pending (hx_rNext h)) h rest \<Longrightarrow>
   \<exists>bss. hx_reads h ns = Some (Inr bss) \<and> concat bss = take (sum_list ns) rest"
proof (induction ns arbitrary: h rest)
  case Nil
  then show ?case by simp
next
  case (Cons n ns)
  obtain h' where h': "hx_read_loop mb_read n h = Some (Inr (take n rest, h'))" "mb_wf (hx_rNext h')"
    "hx_dec u (mb_pending (hx_rNext h')) h' (drop n rest)" using membuf.hx_read_loop_law [OF Cons.prems, of n] by blast
  from Cons.IH [OF h'(2,3)] obtain bss where "hx_reads h' ns = Some (Inr bss)"
    "concat bss = take (sum_list ns) (drop n rest)" by blast
  with h'(1) show ?case by (simp add: hx_read_def take_add)
qed

text \<open>
  C20. Whatever is written in hexadecimal, in either case and with spaces after any number of bytes
  or none, is read back in order by reads of any sizes.
\<close>

theorem hex_roundtrip:
  "\<exists>t bss. hx_encode u chunk cs = Inr t \<and> hx_reads (hx_new (mb_new t) u' chunk') ns = Some (Inr bss) \<and>
     concat bss = take (sum_list ns) (concat cs)"
proof -
  let ?h = "hx_new (mb_new []) u chunk"
  have "mb_nPos (hx_rNext ?h) = mb_getSize (hx_rNext ?h)" "hx_sChrs ?h = hx_digits u" "mb_sBuf (hx_rNext ?h) = []"
    by (simp_all add: hx_new_def mb_new_def mb_getSize_def hx_digits_def)
  then obtain h' t where t: "write_chunks (hx_write mb_write) ?h cs = Inr h'" "mb_sBuf (hx_rNext h') = t"
    "no_space t = hx_spec u (concat cs)" using hx_writes_ok [of ?h u cs] by auto
  let ?r = "hx_new (mb_new t) u' chunk'"
  have "mb_wf (hx_rNext ?r)" "hx_dec u (mb_pending (hx_rNext ?r)) ?r (concat cs)"
    using t(3) by (simp_all add: hx_new_def hx_dec_def)
  from hx_reads_ok [OF this, of ns] t show ?thesis by (simp add: hx_encode_def)
qed

end
