(* ===== verification/Bu_Digest.thy ===== *)
theory Bu_Digest
  imports Bu_Bytes Bu_Hex
begin

text \<open>
  \<open>Bu::CryptoHash\<close> (\<open>src/stable/cryptohash.cpp\<close>), the interface of the digests, with its member
  \<open>getHexResult\<close>, and \<open>Bu::PearsonHash\<close> (\<open>pearsonhash.cpp\<close>), its smallest provider.
\<close>

section \<open>The interface\<close>

text \<open>
  \<open>fed c M\<close>: the digest object \<open>c\<close> has been given the message \<open>M\<close> since its last \<open>reset\<close>.
  \<open>getResult\<close> gives the digest of that message when its length is admissible, and a new object,
  because the code of some digests changes the object.
\<close>

locale digest =
  fixes add :: "'c \<Rightarrow> byte list \<Rightarrow> 'c result option"
    and getResult :: "'c \<Rightarrow> (byte list \<times> 'c) result option"
    and reset :: "'c \<Rightarrow> 'c"
    and fed :: "'c \<Rightarrow> byte list \<Rightarrow> bool"
    and good :: "'c \<Rightarrow> bool"
    and reference :: "byte list \<Rightarrow> byte list"
    and admissible :: "byte list \<Rightarrow> bool"
  assumes reset_law: "good c \<Longrightarrow> fed (reset c) []"
    and add_law: "fed c M \<Longrightarrow> \<exists>c'. add c xs = Some (Inr c') \<and> fed c' (M @ xs)"
    and fed_good: "fed c M \<Longrightarrow> good c"
    and result_law: "fed c M \<Longrightarrow> admissible M \<Longrightarrow> \<exists>c'. getResult c = Some (Inr (reference M, c')) \<and> good c'"

fun add_chunks :: "('c \<Rightarrow> byte list \<Rightarrow> 'c result option) \<Rightarrow> 'c \<Rightarrow> byte list list \<Rightarrow> 'c result option" where
  "add_chunks add c [] = Some (Inr c)"
| "add_chunks add c (x # xs) = obind (add c x) (\<lambda>c'. add_chunks add c' xs)"

text \<open>A whole use of a digest object: reset it, add the chunks, take the result.\<close>

definition digest_run ::
    "('c \<Rightarrow> byte list \<Rightarrow> 'c result option) \<Rightarrow> ('c \<Rightarrow> (byte list \<times> 'c) result option) \<Rightarrow> ('c \<Rightarrow> 'c) \<Rightarrow> 'c \<Rightarrow>
     byte list list \<Rightarrow> (byte list \<times> 'c) result option" where
  "digest_run add getResult reset c cs = obind (add_chunks add (reset c) cs) getResult"

text \<open>\<open>getHexResult\<close>: two digits for every byte of the result.\<close>

definition hex_tab :: "byte list" where
  "hex_tab = map of_char ''0123456789abcdef''"

fun hex_loop :: "byte list \<Rightarrow> byte list \<Rightarrow> nat \<Rightarrow> byte list" where
  "hex_loop [] sRet k = sRet"
| "hex_loop (b # bs) sRet k =
     hex_loop bs (sRet[k := hex_tab ! unat (drop_bit 4 b AND 0xF), k + 1 := hex_tab ! unat (b AND 0xF)]) (k + 2)"

definition getHexResult ::
    "('c \<Rightarrow> (byte list \<times> 'c) result option) \<Rightarrow> byte list \<Rightarrow> 'c \<Rightarrow> (byte list \<times> 'c) result option" where
  "getHexResult getResult fill c =
     obind (getResult c) (\<lambda>(sResult, c'). Some (Inr (hex_loop sResult (take (2 * length sResult) fill) 0, c')))"

text \<open>\<open>writeResult\<close> of the digests that hand the result to the stream.\<close>

definition writeResult ::
    "('c \<Rightarrow> (byte list \<times> 'c) result option) \<Rightarrow> ('s \<Rightarrow> byte list \<Rightarrow> (int \<times> 's) result) \<Rightarrow> 'c \<Rightarrow> 's \<Rightarrow>
     ('c \<times> 's) result option" where
  "writeResult getResult wr c sOut =
     obind (getResult c) (\<lambda>(r, c'). Some (rbind (wr sOut r) (\<lambda>(n, sOut'). Inr (c', sOut'))))"

lemma hex_nibble: "take_bit 4 (drop_bit 4 b) = drop_bit 4 (b :: byte)"
  by (intro bit_word_eqI) (auto simp: bit_simps dest: bit_imp_le_length)

lemma hex_loop_eq:
  "length sRet = k + 2 * length bs \<Longrightarrow> hex_loop bs sRet k = take k sRet @ hx_spec False bs"
proof (induction bs arbitrary: sRet k)
  case Nil
  then show ?case by (simp add: hx_spec_def)
next
  case (Cons b bs)
  have h: "hex_tab = hx_digits False" by (simp add: hex_tab_def hx_digits_def)
  have t: "take (Suc (Suc k)) (sRet[k := x, Suc k := y]) = take k sRet @ [x, y]" for x y
  proof -
    have "Suc k < length sRet" using Cons.prems by simp
    then show ?thesis by (intro nth_equalityI) (auto simp: nth_append nth_list_update nth_Cons' less_Suc_eq min_def split: if_splits)
  qed
  show ?case
    using Cons.prems by (simp add: Cons.IH t hx_spec_def hx_pair_def h hex_nibble and_0f del: list_update.simps)
qed

context digest begin

lemma add_chunks_law: "fed c M \<Longrightarrow> \<exists>c'. add_chunks add c cs = Some (Inr c') \<and> fed c' (M @ concat cs)"
proof (induction cs arbitrary: c M)
  case Nil
  then show ?case by simp
next
  case (Cons x xs)
  obtain c1 where c1: "add c x = Some (Inr c1)" "fed c1 (M @ x)" using add_law [OF Cons.prems] by blast
  with Cons.IH [OF c1(2)] show ?case by simp
qed

lemma digest_run_law:
  assumes "good c" "admissible (concat cs)"
  shows "\<exists>c'. digest_run add getResult reset c cs = Some (Inr (reference (concat cs), c')) \<and> good c'"
proof -
  obtain c1 where c1: "add_chunks add (reset c) cs = Some (Inr c1)" "fed c1 (concat cs)"
    using add_chunks_law [OF reset_law [OF assms(1)], of cs] by auto
  with result_law [OF c1(2) assms(2)] show ?thesis by (auto simp: digest_run_def)
qed

lemma getHexResult_law:
  assumes "fed c M" "admissible M" "2 * length (reference M) \<le> length fill"
  shows "\<exists>c'. getHexResult getResult fill c = Some (Inr (hx_spec False (reference M), c')) \<and> good c'"
  using result_law [OF assms(1,2)] assms(3) by (auto simp: getHexResult_def hex_loop_eq)

end

section \<open>\<open>PearsonHash\<close>\<close>

definition aSBox :: "byte list" where
  "aSBox = [
     251, 175, 119, 215, 81, 14, 79, 191, 103, 49, 181, 143, 186, 157, 0, 232, 31, 32, 55, 60,
     152, 58, 17, 237, 174, 70, 160, 144, 220, 90, 57, 223, 59, 3, 18, 140, 111, 166, 203, 196,
     134, 243, 124, 95, 222, 179, 197, 65, 180, 48, 36, 15, 107, 46, 233, 130, 165, 30, 123, 161,
     209, 23, 97, 16, 40, 91, 219, 61, 100, 10, 210, 109, 250, 127, 22, 138, 29, 108, 244, 67,
     207, 9, 178, 204, 74, 98, 126, 249, 167, 116, 34, 77, 193, 200, 121, 5, 20, 113, 71, 35,
     128, 13, 182, 94, 25, 226, 227, 199, 75, 27, 41, 245, 230, 224, 43, 225, 177, 26, 155, 150,
     212, 142, 218, 115, 241, 73, 88, 105, 39, 114, 62, 255, 192, 201, 145, 214, 168, 158, 221, 148,
     154, 122, 12, 84, 82, 163, 44, 139, 228, 236, 205, 242, 217, 11, 187, 146, 159, 64, 86, 239,
     195, 42, 106, 198, 118, 112, 184, 172, 87, 2, 173, 117, 176, 229, 247, 253, 137, 185, 99, 164,
     102, 147, 45, 66, 231, 52, 141, 211, 194, 206, 246, 238, 56, 110, 78, 248, 63, 240, 189, 93,
     92, 51, 53, 183, 19, 171, 72, 50, 33, 104, 101, 69, 8, 252, 83, 120, 76, 135, 85, 54,
     202, 125, 188, 213, 96, 235, 136, 208, 162, 129, 190, 132, 156, 38, 47, 1, 7, 254, 24, 4,
     216, 131, 89, 21, 28, 133, 37, 153, 149, 80, 170, 68, 6, 169, 234, 151]"

record pearson =
  ph_iValue :: byte

definition ph_reset :: "pearson \<Rightarrow> pearson" where
  "ph_reset h = h\<lparr>ph_iValue := 0\<rparr>"

definition ph_new :: pearson where
  "ph_new = \<lparr>ph_iValue = 0\<rparr>"

fun ph_add_loop :: "pearson \<Rightarrow> byte list \<Rightarrow> pearson" where
  "ph_add_loop h [] = h"
| "ph_add_loop h (x # xs) = ph_add_loop (h\<lparr>ph_iValue := aSBox ! unat (ph_iValue h XOR x)\<rparr>) xs"

definition ph_addData :: "pearson \<Rightarrow> byte list \<Rightarrow> pearson result option" where
  "ph_addData h xs = Some (Inr (ph_add_loop h xs))"

definition ph_getResult :: "pearson \<Rightarrow> (byte list \<times> pearson) result option" where
  "ph_getResult h = Some (Inr ([ph_iValue h], h))"

definition pearson_of :: "byte list \<Rightarrow> byte" where
  "pearson_of xs = foldl (\<lambda>v x. aSBox ! unat (v XOR x)) 0 xs"

lemma ph_add_loop_eq: "ph_iValue (ph_add_loop h xs) = foldl (\<lambda>v x. aSBox ! unat (v XOR x)) (ph_iValue h) xs"
  by (induction xs arbitrary: h) simp_all

interpretation pearson: digest ph_addData ph_getResult ph_reset "\<lambda>h M. ph_iValue h = pearson_of M"
    "\<lambda>h. True" "\<lambda>M. [pearson_of M]" "\<lambda>M. True"
  by unfold_locales
    (simp_all add: ph_addData_def ph_getResult_def ph_reset_def pearson_of_def ph_add_loop_eq)

text \<open>The table is a permutation of the bytes.\<close>

lemma length_aSBox: "length aSBox = 256"
  by (simp add: aSBox_def)

lemma distinct_aSBox: "distinct aSBox"
proof -
  have "sort aSBox = map word_of_nat [0..<256]" by code_simp
  moreover have "inj_on (word_of_nat :: nat \<Rightarrow> byte) {0..<256}"
    by (rule inj_onI) (simp add: word_of_nat_eq_iff take_bit_nat_eq_self)
  ultimately have "distinct (sort aSBox)" by (simp add: distinct_map)
  then show ?thesis by simp
qed

lemma aSBox_inj: "aSBox ! unat x = aSBox ! unat y \<longleftrightarrow> x = (y :: byte)"
proof -
  have "unat (z :: byte) < 256" for z using unsigned_less [of z] by simp
  then show ?thesis
    using nth_eq_iff_index_eq [OF distinct_aSBox, of "unat x" "unat y"] by (simp add: length_aSBox word_unat_eq_iff)
qed

lemma pearson_fold_inj:
  "foldl (\<lambda>v x. aSBox ! unat (v XOR x)) v xs = foldl (\<lambda>v x. aSBox ! unat (v XOR x)) w xs \<longleftrightarrow> v = w"
proof (induction xs arbitrary: v w)
  case (Cons x xs)
  then show ?case by (simp add: aSBox_inj xor_right_eq)
qed simp

text \<open>Two messages that differ in one byte have different hashes.\<close>

lemma pearson_one_byte:
  assumes "x \<noteq> y"
  shows "pearson_of (xs @ x # ys) \<noteq> pearson_of (xs @ y # ys)"
  using assms by (simp add: pearson_of_def pearson_fold_inj aSBox_inj xor_left_eq)

text \<open>
  Whatever the chunks are, the hash depends only on their concatenation, and two messages that
  differ in exactly one byte never have the same hash.
\<close>

theorem pearson_detects_one_byte:
  assumes "concat cs = xs @ x # ys" "concat ds = xs @ y # ys" "x \<noteq> y"
  shows "\<exists>a b h1 h2. digest_run ph_addData ph_getResult ph_reset h cs = Some (Inr ([a], h1)) \<and>
     digest_run ph_addData ph_getResult ph_reset h' ds = Some (Inr ([b], h2)) \<and> a \<noteq> b"
  using pearson.digest_run_law [of h cs] pearson.digest_run_law [of h' ds] pearson_one_byte [OF assms(3), of xs ys]
    assms(1,2) by auto

theorem pearson_detects_one_byte_witness:
  "\<exists>a b h1 h2. digest_run ph_addData ph_getResult ph_reset ph_new [[1], [2, 3]] = Some (Inr ([a], h1)) \<and>
     digest_run ph_addData ph_getResult ph_reset ph_new [[1, 7], [3]] = Some (Inr ([b], h2)) \<and> a \<noteq> b"
  using pearson_detects_one_byte [of "[[1], [2, 3]]" "[1]" 2 "[3]" "[[1, 7], [3]]" 7 ph_new ph_new] by simp

end
