(* ===== verification/Bu_Md5.thy ===== *)
theory Bu_Md5
  imports Bu_Digest
begin

text \<open>
  \<open>Bu::Md5\<close> (\<open>src/stable/md5.cpp\<close>). The model covers hosts of both byte orders: \<open>be\<close> is true on
  the hosts for which \<open>SYSTEM_BIG_ENDIAN\<close> is defined, where the buffers are converted in place
  before they are read as words. The reference is the algorithm as RFC 1321 states it: the message
  is padded, cut into blocks, and each block goes through 64 numbered steps.
\<close>

section \<open>The model\<close>

text \<open>The object; \<open>inbuf\<close> holds whatever bytes were there until data arrives.\<close>

record md5 =
  md_inbuf :: "byte list"
  md_sum :: "32 word list"
  md_uBits0 :: "32 word"
  md_uBits1 :: "32 word"

definition md5_reset :: "md5 \<Rightarrow> md5" where
  "md5_reset c = c\<lparr>md_sum := [0x67452301, 0xEFCDAB89, 0x98BADCFE, 0x10325476], md_uBits0 := 0, md_uBits1 := 0\<rparr>"

definition md5_new :: "byte list \<Rightarrow> md5" where
  "md5_new garbage = md5_reset \<lparr>md_inbuf = garbage, md_sum = [], md_uBits0 = 0, md_uBits1 = 0\<rparr>"

definition toLittleEndian :: "bool \<Rightarrow> byte list \<Rightarrow> nat \<Rightarrow> byte list" where
  "toLittleEndian be buf iCount =
     (if be then concat (map (\<lambda>i. host_bytes be (le_word (piece 4 buf i))) [0..<iCount]) @ drop (4 * iCount) buf
      else buf)"

definition md5_F1 :: "32 word \<Rightarrow> 32 word \<Rightarrow> 32 word \<Rightarrow> 32 word" where
  "md5_F1 x y z = z XOR (x AND (y XOR z))"

definition md5_F2 :: "32 word \<Rightarrow> 32 word \<Rightarrow> 32 word \<Rightarrow> 32 word" where
  "md5_F2 x y z = md5_F1 z x y"

definition md5_F3 :: "32 word \<Rightarrow> 32 word \<Rightarrow> 32 word \<Rightarrow> 32 word" where
  "md5_F3 x y z = x XOR y XOR z"

definition md5_F4 :: "32 word \<Rightarrow> 32 word \<Rightarrow> 32 word \<Rightarrow> 32 word" where
  "md5_F4 x y z = y XOR (x OR NOT z)"

definition MD5STEP ::
    "(32 word \<Rightarrow> 32 word \<Rightarrow> 32 word \<Rightarrow> 32 word) \<Rightarrow> 32 word \<Rightarrow> 32 word \<Rightarrow> 32 word \<Rightarrow> 32 word \<Rightarrow> 32 word \<Rightarrow> nat \<Rightarrow> 32 word" where
  "MD5STEP f w x y z dat s =
     (let w1 = w + (f x y z + dat);
          w2 = push_bit s w1 OR drop_bit (32 - s) w1
      in w2 + x)"

text \<open>
  The steps of one function, in the order of the code, as index into \<open>x\<close>, constant and shift. The
  registers a step names move by one place from step to step: \<open>a b c d\<close>, \<open>d a b c\<close>, \<open>c d a b\<close>,
  \<open>b c d a\<close>.
\<close>

definition md5_F1_steps :: "(nat \<times> 32 word \<times> nat) list" where
  "md5_F1_steps = [
     (0, 0xd76aa478, 7), (1, 0xe8c7b756, 12), (2, 0x242070db, 17), (3, 0xc1bdceee, 22),
     (4, 0xf57c0faf, 7), (5, 0x4787c62a, 12), (6, 0xa8304613, 17), (7, 0xfd469501, 22),
     (8, 0x698098d8, 7), (9, 0x8b44f7af, 12), (10, 0xffff5bb1, 17), (11, 0x895cd7be, 22),
     (12, 0x6b901122, 7), (13, 0xfd987193, 12), (14, 0xa679438e, 17), (15, 0x49b40821, 22)]"

definition md5_F2_steps :: "(nat \<times> 32 word \<times> nat) list" where
  "md5_F2_steps = [
     (1, 0xf61e2562, 5), (6, 0xc040b340, 9), (11, 0x265e5a51, 14), (0, 0xe9b6c7aa, 20),
     (5, 0xd62f105d, 5), (10, 0x02441453, 9), (15, 0xd8a1e681, 14), (4, 0xe7d3fbc8, 20),
     (9, 0x21e1cde6, 5), (14, 0xc33707d6, 9), (3, 0xf4d50d87, 14), (8, 0x455a14ed, 20),
     (13, 0xa9e3e905, 5), (2, 0xfcefa3f8, 9), (7, 0x676f02d9, 14), (12, 0x8d2a4c8a, 20)]"

definition md5_F3_steps :: "(nat \<times> 32 word \<times> nat) list" where
  "md5_F3_steps = [
     (5, 0xfffa3942, 4), (8, 0x8771f681, 11), (11, 0x6d9d6122, 16), (14, 0xfde5380c, 23),
     (1, 0xa4beea44, 4), (4, 0x4bdecfa9, 11), (7, 0xf6bb4b60, 16), (10, 0xbebfbc70, 23),
     (13, 0x289b7ec6, 4), (0, 0xeaa127fa, 11), (3, 0xd4ef3085, 16), (6, 0x04881d05, 23),
     (9, 0xd9d4d039, 4), (12, 0xe6db99e5, 11), (15, 0x1fa27cf8, 16), (2, 0xc4ac5665, 23)]"

definition md5_F4_steps :: "(nat \<times> 32 word \<times> nat) list" where
  "md5_F4_steps = [
     (0, 0xf4292244, 6), (7, 0x432aff97, 10), (14, 0xab9423a7, 15), (5, 0xfc93a039, 21),
     (12, 0x655b59c3, 6), (3, 0x8f0ccc92, 10), (10, 0xffeff47d, 15), (1, 0x85845dd1, 21),
     (8, 0x6fa87e4f, 6), (15, 0xfe2ce6e0, 10), (6, 0xa3014314, 15), (13, 0x4e0811a1, 21),
     (4, 0xf7537e82, 6), (11, 0xbd3af235, 10), (2, 0x2ad7d2bb, 15), (9, 0xeb86d391, 21)]"

type_synonym quad = "32 word \<times> 32 word \<times> 32 word \<times> 32 word"

fun md5_steps ::
    "(32 word \<Rightarrow> 32 word \<Rightarrow> 32 word \<Rightarrow> 32 word) \<Rightarrow> 32 word list \<Rightarrow> (nat \<times> 32 word \<times> nat) list \<Rightarrow> quad \<Rightarrow> quad" where
  "md5_steps f x [] q = q"
| "md5_steps f x ((k, t, s) # r) (a, b, c, d) = md5_steps f x r (d, MD5STEP f a b c d (x ! k + t) s, b, c)"

definition md5_compBlock :: "32 word list \<Rightarrow> 32 word list \<Rightarrow> 32 word list" where
  "md5_compBlock lsum x =
     (let (a, b, c, d) =
        md5_steps md5_F4 x md5_F4_steps (md5_steps md5_F3 x md5_F3_steps
          (md5_steps md5_F2 x md5_F2_steps (md5_steps md5_F1 x md5_F1_steps
            (lsum ! 0, lsum ! 1, lsum ! 2, lsum ! 3))))
      in [lsum ! 0 + a, lsum ! 1 + b, lsum ! 2 + c, lsum ! 3 + d])"

text \<open>The full buffer: converted in place, then compressed.\<close>

definition md5_full :: "bool \<Rightarrow> md5 \<Rightarrow> md5" where
  "md5_full be c =
     (let b = toLittleEndian be (md_inbuf c) 16
      in c\<lparr>md_inbuf := b, md_sum := md5_compBlock (md_sum c) (words_of (host_word be) 16 b)\<rparr>)"

definition md5_copy :: "md5 \<Rightarrow> nat \<Rightarrow> byte list \<Rightarrow> md5 result" where
  "md5_copy c p xs = rbind (mem_store (md_inbuf c) (int p) xs) (\<lambda>b. Inr (c\<lparr>md_inbuf := b\<rparr>))"

function md5_whole :: "bool \<Rightarrow> md5 \<Rightarrow> byte list \<Rightarrow> (md5 \<times> byte list) result" where
  "md5_whole be c sData =
     (if 64 \<le> length sData
      then rbind (md5_copy c 0 (take 64 sData)) (\<lambda>c1. md5_whole be (md5_full be c1) (drop 64 sData))
      else Inr (c, sData))"
  by pat_completeness auto
termination by (relation "measure (\<lambda>(be, c, xs). length xs)") auto

definition md5_count :: "md5 \<Rightarrow> int \<Rightarrow> md5" where
  "md5_count c iSize =
     (let t = md_uBits0 c;
          u0 = t + push_bit 3 (word_of_int iSize);
          u1 = (if u0 < t then md_uBits1 c + 1 else md_uBits1 c)
      in c\<lparr>md_uBits0 := u0, md_uBits1 := u1 + word_of_int (drop_bit 29 iSize)\<rparr>)"

definition md5_addData :: "bool \<Rightarrow> md5 \<Rightarrow> byte list \<Rightarrow> md5 result" where
  "md5_addData be c0 sData =
     (let c = md5_count c0 (int (length sData));
          t = unat (drop_bit 3 (md_uBits0 c0) AND 0x3f);
          rest = (\<lambda>c d. rbind (md5_whole be c d) (\<lambda>(c1, d1). md5_copy c1 0 d1))
      in if t \<noteq> 0
         then if length sData < 64 - t then md5_copy c t sData
              else rbind (md5_copy c t (take (64 - t) sData)) (\<lambda>c1. rest (md5_full be c1) (drop (64 - t) sData))
         else rest c sData)"

definition md5_compCap :: "bool \<Rightarrow> md5 \<Rightarrow> byte list result" where
  "md5_compCap be c =
     (let used = unat (drop_bit 3 (md_uBits0 c) AND 0x3F);
          iCount = 64 - 1 - used in
      rbind (mem_store (md_inbuf c) (int used) [0x80]) (\<lambda>t1.
      rbind (if iCount < 8
        then rbind (mem_store t1 (int used + 1) (replicate iCount 0)) (\<lambda>t2.
             let t3 = toLittleEndian be t2 16;
                 s = md5_compBlock (md_sum c) (words_of (host_word be) 16 t3)
             in rbind (mem_store t3 0 (replicate 56 0)) (\<lambda>t4. Inr (s, t4)))
        else rbind (mem_store t1 (int used + 1) (replicate (iCount - 8) 0)) (\<lambda>t2. Inr (md_sum c, t2))) (\<lambda>(s, t).
      let t = toLittleEndian be t 14 in
      rbind (mem_store t 56 (host_bytes be (md_uBits0 c) @ host_bytes be (md_uBits1 c))) (\<lambda>t'.
      let s' = md5_compBlock s (words_of (host_word be) 16 t')
      in Inr (toLittleEndian be (concat (map (host_bytes be) s')) 4)))))"

definition md5_getResult :: "bool \<Rightarrow> md5 \<Rightarrow> (byte list \<times> md5) result" where
  "md5_getResult be c = rbind (md5_compCap be c) (\<lambda>r. Inr (r, c))"

section \<open>The reference\<close>

definition rfc_F :: "nat \<Rightarrow> 32 word \<Rightarrow> 32 word \<Rightarrow> 32 word \<Rightarrow> 32 word" where
  "rfc_F i x y z =
     (if i < 16 then (x AND y) OR (NOT x AND z)
      else if i < 32 then (x AND z) OR (y AND NOT z)
      else if i < 48 then x XOR y XOR z
      else y XOR (x OR NOT z))"

definition rfc_k :: "nat \<Rightarrow> nat" where
  "rfc_k i = (if i < 16 then i else if i < 32 then (5 * i + 1) mod 16
     else if i < 48 then (3 * i + 5) mod 16 else (7 * i) mod 16)"

definition rfc_s :: "nat \<Rightarrow> nat" where
  "rfc_s i = [[7, 12, 17, 22], [5, 9, 14, 20], [4, 11, 16, 23], [6, 10, 15, 21]] ! (i div 16) ! (i mod 4)"

text \<open>The integer parts of \<open>4294967296 * abs (sin (i + 1))\<close>.\<close>

definition rfc_T :: "32 word list" where
  "rfc_T = [
     0xd76aa478, 0xe8c7b756, 0x242070db, 0xc1bdceee, 0xf57c0faf, 0x4787c62a, 0xa8304613, 0xfd469501,
     0x698098d8, 0x8b44f7af, 0xffff5bb1, 0x895cd7be, 0x6b901122, 0xfd987193, 0xa679438e, 0x49b40821,
     0xf61e2562, 0xc040b340, 0x265e5a51, 0xe9b6c7aa, 0xd62f105d, 0x2441453, 0xd8a1e681, 0xe7d3fbc8,
     0x21e1cde6, 0xc33707d6, 0xf4d50d87, 0x455a14ed, 0xa9e3e905, 0xfcefa3f8, 0x676f02d9, 0x8d2a4c8a,
     0xfffa3942, 0x8771f681, 0x6d9d6122, 0xfde5380c, 0xa4beea44, 0x4bdecfa9, 0xf6bb4b60, 0xbebfbc70,
     0x289b7ec6, 0xeaa127fa, 0xd4ef3085, 0x4881d05, 0xd9d4d039, 0xe6db99e5, 0x1fa27cf8, 0xc4ac5665,
     0xf4292244, 0x432aff97, 0xab9423a7, 0xfc93a039, 0x655b59c3, 0x8f0ccc92, 0xffeff47d, 0x85845dd1,
     0x6fa87e4f, 0xfe2ce6e0, 0xa3014314, 0x4e0811a1, 0xf7537e82, 0xbd3af235, 0x2ad7d2bb, 0xeb86d391]"

fun rfc_step :: "32 word list \<Rightarrow> nat \<Rightarrow> quad \<Rightarrow> quad" where
  "rfc_step x i (a, b, c, d) =
     (d, b + rotl32 (rfc_s i) (a + rfc_F i b c d + x ! rfc_k i + rfc_T ! i), b, c)"

fun rfc_add :: "quad \<Rightarrow> quad \<Rightarrow> quad" where
  "rfc_add (a, b, c, d) (a', b', c', d') = (a + a', b + b', c + c', d + d')"

definition rfc_block :: "quad \<Rightarrow> byte list \<Rightarrow> quad" where
  "rfc_block h b = rfc_add h (fold (rfc_step (words_of le_word 16 b)) [0..<64] h)"

definition rfc_length :: "nat \<Rightarrow> byte list" where
  "rfc_length n = le_bytes (word_of_nat n) @ le_bytes (word_of_nat (n div 2 ^ 32))"

definition rfc_init :: quad where
  "rfc_init = (0x67452301, 0xEFCDAB89, 0x98BADCFE, 0x10325476)"

fun rfc_output :: "quad \<Rightarrow> byte list" where
  "rfc_output (a, b, c, d) = le_bytes a @ le_bytes b @ le_bytes c @ le_bytes d"

definition rfc1321 :: "byte list \<Rightarrow> byte list" where
  "rfc1321 M = rfc_output (fst (absorb rfc_block rfc_init (md_pad rfc_length M)))"

section \<open>One block\<close>

lemma MD5STEP_eq: "MD5STEP f w x y z (u + t) s = x + rotl32 s (w + f x y z + u + t)"
  by (simp add: MD5STEP_def rotl32_def Let_def ac_simps)

lemma md5_F1_eq: "md5_F1 x y z = (x AND y) OR (NOT x AND z)"
  by (rule bit_word_eqI) (auto simp: md5_F1_def bit_simps)

lemma md5_F2_eq: "md5_F2 x y z = (x AND z) OR (y AND NOT z)"
  by (rule bit_word_eqI) (auto simp: md5_F2_def md5_F1_def bit_simps)

lemma md5_steps_fold:
  "(\<forall>i \<in> set is. f = rfc_F i) \<Longrightarrow>
   md5_steps f x (map (\<lambda>i. (rfc_k i, rfc_T ! i, rfc_s i)) is) q = fold (rfc_step x) is q"
proof (induction "is" arbitrary: q)
  case (Cons i "is")
  then show ?case by (cases q) (simp add: MD5STEP_eq)
qed simp

lemma md5_tables:
  "md5_F1_steps = map (\<lambda>i. (rfc_k i, rfc_T ! i, rfc_s i)) [0..<16]"
  "md5_F2_steps = map (\<lambda>i. (rfc_k i, rfc_T ! i, rfc_s i)) [16..<32]"
  "md5_F3_steps = map (\<lambda>i. (rfc_k i, rfc_T ! i, rfc_s i)) [32..<48]"
  "md5_F4_steps = map (\<lambda>i. (rfc_k i, rfc_T ! i, rfc_s i)) [48..<64]"
  by code_simp+

fun quad_list :: "quad \<Rightarrow> 32 word list" where
  "quad_list (a, b, c, d) = [a, b, c, d]"

lemma md5_compBlock_eq:
  "md5_compBlock (quad_list h) x = quad_list (rfc_add h (fold (rfc_step x) [0..<64] h))"
proof -
  obtain a b c d where h: "h = (a, b, c, d)" by (cases h)
  have u: "[0..<64] = [0..<16] @ [16..<32] @ [32..<48] @ [48..<64]"
    by code_simp
  have f1: "md5_steps md5_F1 x md5_F1_steps q = fold (rfc_step x) [0..<16] q" for q
    unfolding md5_tables by (rule md5_steps_fold) (auto simp: fun_eq_iff md5_F1_eq rfc_F_def)
  have f2: "md5_steps md5_F2 x md5_F2_steps q = fold (rfc_step x) [16..<32] q" for q
    unfolding md5_tables by (rule md5_steps_fold) (auto simp: fun_eq_iff md5_F2_eq rfc_F_def)
  have f3: "md5_steps md5_F3 x md5_F3_steps q = fold (rfc_step x) [32..<48] q" for q
    unfolding md5_tables by (rule md5_steps_fold) (auto simp: fun_eq_iff md5_F3_def rfc_F_def)
  have f4: "md5_steps md5_F4 x md5_F4_steps q = fold (rfc_step x) [48..<64] q" for q
    unfolding md5_tables by (rule md5_steps_fold) (auto simp: fun_eq_iff md5_F4_def rfc_F_def)
  have "md5_steps md5_F4 x md5_F4_steps (md5_steps md5_F3 x md5_F3_steps
      (md5_steps md5_F2 x md5_F2_steps (md5_steps md5_F1 x md5_F1_steps h))) = fold (rfc_step x) [0..<64] h"
    unfolding u f1 f2 f3 f4 by (simp only: fold_append o_apply)
  then show ?thesis
    unfolding h md5_compBlock_def by (cases "fold (rfc_step x) [0..<64] (a, b, c, d)") simp
qed


section \<open>Buffers\<close>

lemma words_of_append:
  assumes "length x = 4 * n"
  shows "words_of f (n + m) (x @ y) = words_of f n x @ words_of f m y"
proof (rule nth_equalityI)
  show "length (words_of f (n + m) (x @ y)) = length (words_of f n x @ words_of f m y)"
    by (simp add: words_of_def)
next
  fix i assume "i < length (words_of f (n + m) (x @ y))"
  then have i: "i < n + m" by (simp add: words_of_def)
  show "words_of f (n + m) (x @ y) ! i = (words_of f n x @ words_of f m y) ! i"
  proof (cases "i < n")
    case True
    then have "Suc i * 4 \<le> length x" using assms by simp
    with True i show ?thesis by (simp add: words_of_def nth_append piece_append)
  next
    case False
    then obtain j where j: "i = n + j" by (metis le_Suc_ex not_less)
    have "piece 4 (x @ y) i = piece 4 y j" using assms by (simp add: piece_def j add_mult_distrib mult.commute)
    with i j show ?thesis by (simp add: words_of_def nth_append)
  qed
qed

lemma words_of_le [simp]: "words_of (host_word False) n b = words_of le_word n b"
  by (simp add: words_of_def host_word_def)

lemma toLittleEndian_words:
  "words_of (host_word be) n (toLittleEndian be b n) = words_of le_word n b"
proof (cases be)
  case True
  let ?ws = "map (\<lambda>i. le_word (piece 4 b i)) [0..<n]"
  have "words_of (host_word True) n (concat (map (host_bytes True) ?ws) @ drop (4 * n) b) = ?ws"
    by (rule words_of_concat) simp_all
  with True show ?thesis by (simp add: toLittleEndian_def words_of_def comp_def)
qed (simp add: toLittleEndian_def)

lemma length_concat_bytes: "length (concat (map (host_bytes be) ws)) = 4 * length ws"
  by (induction ws) simp_all

lemma length_toLittleEndian: "4 * n \<le> length b \<Longrightarrow> length (toLittleEndian be b n) = length b"
  using length_concat_bytes [of True "map (\<lambda>i. le_word (piece 4 b i)) [0..<n]"]
  by (simp add: toLittleEndian_def comp_def)

lemma toLittleEndian_append:
  assumes "length x = 4 * n"
  shows "\<exists>x'. toLittleEndian be (x @ y) n = x' @ y \<and> length x' = 4 * n \<and>
    words_of (host_word be) n x' = words_of le_word n x"
proof -
  let ?t = "toLittleEndian be (x @ y) n"
  have "drop (4 * n) ?t = y"
  proof (cases be)
    case True
    then show ?thesis
      using length_concat_bytes [of be "map (\<lambda>i. le_word (piece 4 (x @ y) i)) [0..<n]"] assms
      by (simp add: toLittleEndian_def comp_def)
  qed (simp add: toLittleEndian_def assms)
  then have t: "?t = take (4 * n) ?t @ y" by (metis append_take_drop_id)
  have l: "length (take (4 * n) ?t) = 4 * n" using assms by (simp add: length_toLittleEndian)
  have e: "words_of f n (u @ v) = words_of f n u" if "length u = 4 * n" for f u v
    using words_of_append [OF that, of f 0 v] by (simp add: words_of_def)
  have "words_of (host_word be) n (take (4 * n) ?t) = words_of (host_word be) n ?t"
    using e [OF l, of "host_word be" y] t by simp
  also have "\<dots> = words_of le_word n x" by (simp add: toLittleEndian_words e [OF assms])
  finally show ?thesis using t l by (intro exI [of _ "take (4 * n) ?t"]) simp
qed

lemma md5_output:
  "toLittleEndian be (concat (map (host_bytes be) (quad_list h))) 4 = rfc_output h"
proof -
  obtain a b c d where h: "h = (a, b, c, d)" by (cases h)
  have e: "host_bytes True (le_word (be_bytes w)) = le_bytes w" for w
    by (simp add: host_bytes_def be_bytes_def le_bytes_word)
  have "[0..<4] = [0, 1, 2, 3::nat]" by (simp add: upt_rec)
  moreover have "be_bytes w = [be_bytes w ! 0, be_bytes w ! 1, be_bytes w ! 2, be_bytes w ! 3]" for w
    by (simp add: be_bytes_def le_bytes_def)
  ultimately show ?thesis
    using piece_concat [of "map be_bytes [a, b, c, d]" 4 _ "[]"]
    by (cases be) (simp_all add: h toLittleEndian_def host_bytes_def e [unfolded host_bytes_def, simplified] comp_def)
qed

section \<open>Counting and copying\<close>

definition md5_bits :: "md5 \<Rightarrow> nat \<Rightarrow> bool" where
  "md5_bits c n \<longleftrightarrow> md_uBits0 c = word_of_nat (8 * n) \<and> md_uBits1 c = word_of_nat (8 * n div 2 ^ 32)"

lemma md5_count_law:
  assumes "md5_bits c n"
  shows "md5_bits (md5_count c (int k)) (n + k)"
proof -
  let ?a = "8 * n" and ?b = "8 * k" and ?B = "2 ^ 32 :: nat"
  have p: "push_bit 3 (word_of_int (int k)) = (word_of_nat ?b :: 32 word)"
    by (simp add: push_bit_eq_mult)
  have u0: "md_uBits0 c + push_bit 3 (word_of_int (int k)) = word_of_nat (?a + ?b)"
    using assms unfolding p by (simp add: md5_bits_def)
  have un: "unat (word_of_nat m :: 32 word) = m mod ?B" for m by (simp add: unsigned_of_nat take_bit_eq_mod)
  have less: "word_of_nat (?a + ?b) < (word_of_nat ?a :: 32 word) \<longleftrightarrow> (?a + ?b) mod ?B < ?a mod ?B"
    by (simp add: word_less_nat_alt un del: of_nat_add of_nat_mult)
  have d: "(?a + ?b) div ?B = ?a div ?B + ?b div ?B + (?a mod ?B + ?b mod ?B) div ?B"
    by (rule div_add1_eq)
  have lt: "?a mod ?B < ?B" "?b mod ?B < ?B" by simp_all
  have "(?a + ?b) mod ?B < ?a mod ?B \<longleftrightarrow> ?B \<le> ?a mod ?B + ?b mod ?B"
  proof (cases "?B \<le> ?a mod ?B + ?b mod ?B")
    case True
    then have "(?a mod ?B + ?b mod ?B) mod ?B = ?a mod ?B + ?b mod ?B - ?B"
      using lt by (simp add: le_mod_geq)
    then have "(?a + ?b) mod ?B = ?a mod ?B + ?b mod ?B - ?B" by (simp add: mod_add_eq)
    with True lt show ?thesis by linarith
  next
    case False
    then have "(?a mod ?B + ?b mod ?B) mod ?B = ?a mod ?B + ?b mod ?B" by simp
    then have "(?a + ?b) mod ?B = ?a mod ?B + ?b mod ?B" by (simp add: mod_add_eq)
    with False show ?thesis by linarith
  qed
  moreover have "(?a mod ?B + ?b mod ?B) div ?B = (if ?B \<le> ?a mod ?B + ?b mod ?B then 1 else 0)"
    using lt by (auto simp: le_div_geq)
  ultimately have q: "(?a + ?b) div ?B = ?a div ?B + ?b div ?B + (if (?a + ?b) mod ?B < ?a mod ?B then 1 else 0)"
    using d by (simp del: of_nat_add)
  have r: "drop_bit 29 (int k) = int (?b div ?B)"
    by (simp add: drop_bit_eq_div zdiv_int)
  have c1: "(if word_of_nat (?a + ?b) < (word_of_nat ?a :: 32 word) then word_of_nat (?a div ?B) + 1 else word_of_nat (?a div ?B))
      + word_of_int (drop_bit 29 (int k)) = (word_of_nat ((?a + ?b) div ?B) :: 32 word)"
    unfolding q less r by simp
  have b: "md_uBits0 c = word_of_nat ?a" "md_uBits1 c = word_of_nat (?a div ?B)"
    using assms by (simp_all only: md5_bits_def)
  let ?c = "md5_count c (int k)"
  have "md_uBits0 ?c = word_of_nat (?a + ?b)"
    unfolding md5_count_def Let_def u0 by simp
  moreover have "md_uBits1 ?c = word_of_nat ((?a + ?b) div ?B)"
    unfolding md5_count_def Let_def u0 c1 [symmetric] by (simp add: b)
  ultimately show ?thesis unfolding md5_bits_def add_mult_distrib2 by blast
qed

lemma md5_used:
  assumes "md5_bits c n"
  shows "unat (drop_bit 3 (md_uBits0 c) AND 0x3f) = n mod 64"
proof -
  have m: "(0x3f :: 32 word) = mask 6" by (simp add: mask_eq_exp_minus_1)
  have u: "unat (md_uBits0 c) = 8 * n mod 2 ^ 32"
    using assms by (simp only: md5_bits_def unsigned_of_nat take_bit_eq_mod len_num1 len_bit0) simp
  have "unat (drop_bit 3 (md_uBits0 c) AND 0x3f) = take_bit 6 (drop_bit 3 (unat (md_uBits0 c)))"
    unfolding m by (simp only: unsigned_take_bit_eq unsigned_drop_bit_eq flip: take_bit_eq_mask)
      (simp add: take_bit_drop_bit take_bit_take_bit)
  also have "\<dots> = 8 * n mod 2 ^ 32 div 8 mod 64"
    by (simp only: u take_bit_eq_mod drop_bit_eq_div) simp
  also have "\<dots> = n mod 64"
  proof -
    have "8 * n mod 2 ^ 32 = 8 * (n mod 2 ^ 29)" by (simp add: mult_mod_right)
    then have "8 * n mod 2 ^ 32 div 8 = n mod 2 ^ 29" by simp
    then show ?thesis using mod_mod_cancel [of 64 "2 ^ 29" n] by simp
  qed
  finally show ?thesis .
qed

section \<open>Feeding data\<close>

definition md5_holds :: "md5 \<Rightarrow> quad \<Rightarrow> byte list \<Rightarrow> bool" where
  "md5_holds c h r \<longleftrightarrow> length (md_inbuf c) = 64 \<and> md_sum c = quad_list h \<and> length r < 64 \<and>
     take (length r) (md_inbuf c) = r"

lemma md5_full_law:
  assumes "length (md_inbuf c) = 64" "md_sum c = quad_list h"
  shows "length (md_inbuf (md5_full be c)) = 64" "md_sum (md5_full be c) = quad_list (rfc_block h (md_inbuf c))"
    "md5_bits (md5_full be c) n = md5_bits c n"
  using assms length_toLittleEndian [of 16 "md_inbuf c" be]
  by (simp_all add: md5_full_def Let_def toLittleEndian_words md5_compBlock_eq rfc_block_def md5_bits_def)

lemma md5_copy_in:
  "length (md_inbuf c) = 64 \<Longrightarrow> p + length xs \<le> 64 \<Longrightarrow>
   md5_copy c p xs = Inr (c\<lparr>md_inbuf := overwrite (md_inbuf c) p xs\<rparr>)"
  by (simp add: md5_copy_def mem_store_in)

lemma overwrite_all: "length xs = length ys \<Longrightarrow> overwrite xs 0 ys = ys"
  by (simp add: overwrite_def)

declare md5_whole.simps [simp del]

lemma md5_whole_law:
  "length (md_inbuf c) = 64 \<Longrightarrow> md_sum c = quad_list h \<Longrightarrow>
   \<exists>c'. md5_whole be c xs = Inr (c', snd (absorb rfc_block h xs)) \<and> length (md_inbuf c') = 64 \<and>
     md_sum c' = quad_list (fst (absorb rfc_block h xs)) \<and> (\<forall>n. md5_bits c' n = md5_bits c n)"
proof (induction be c xs arbitrary: h rule: md5_whole.induct)
  case (1 be c xs)
  show ?case
  proof (cases "64 \<le> length xs")
    case False
    with "1.prems" show ?thesis by (simp add: md5_whole.simps [of be c xs])
  next
    case True
    let ?c = "c\<lparr>md_inbuf := take 64 xs\<rparr>"
    have cp: "md5_copy c 0 (take 64 xs) = Inr ?c"
      using "1.prems"(1) True by (simp add: md5_copy_in overwrite_all)
    have l: "length (md_inbuf ?c) = 64" "md_sum ?c = quad_list h" using "1.prems" True by simp_all
    have b: "md5_bits ?c n = md5_bits c n" for n by (simp add: md5_bits_def)
    have a: "absorb rfc_block h xs = absorb rfc_block (rfc_block h (take 64 xs)) (drop 64 xs)"
      using True by (subst absorb.simps) simp
    from "1.IH" [OF True cp md5_full_law(1,2) [OF l]] md5_full_law(3) [OF l] True cp show ?thesis
      by (simp add: md5_whole.simps [of be c xs] a b)
  qed
qed

lemma md5_rest_law:
  assumes "length (md_inbuf c) = 64" "md_sum c = quad_list h"
  shows "\<exists>c'. rbind (md5_whole be c xs) (\<lambda>(c1, d1). md5_copy c1 0 d1) = Inr c' \<and>
    md5_holds c' (fst (absorb rfc_block h xs)) (snd (absorb rfc_block h xs)) \<and> (\<forall>n. md5_bits c' n = md5_bits c n)"
proof -
  let ?r = "snd (absorb rfc_block h xs)"
  have l: "length ?r < 64" by (simp add: absorb_rest)
  obtain c' where c': "md5_whole be c xs = Inr (c', ?r)" "length (md_inbuf c') = 64"
    "md_sum c' = quad_list (fst (absorb rfc_block h xs))" "\<forall>n. md5_bits c' n = md5_bits c n"
    using md5_whole_law [OF assms, of be xs] by blast
  have t: "take (length ?r) (overwrite (md_inbuf c') 0 ?r) = ?r" by (simp add: overwrite_def)
  have "length (overwrite (md_inbuf c') 0 ?r) = 64" using c'(2) l by (simp add: length_overwrite)
  with c' l t show ?thesis by (simp add: md5_copy_in md5_holds_def md5_bits_def)
qed

lemma md5_addData_law:
  assumes "md5_holds c h r" "md5_bits c n" "n mod 64 = length r"
  shows "\<exists>c'. md5_addData be c xs = Inr c' \<and> md5_bits c' (n + length xs) \<and>
    md5_holds c' (fst (absorb rfc_block h (r @ xs))) (snd (absorb rfc_block h (r @ xs)))"
proof -
  let ?c = "md5_count c (int (length xs))"
  have b: "md5_bits ?c (n + length xs)" by (rule md5_count_law) (rule assms(2))
  have f: "md_inbuf ?c = md_inbuf c" "md_sum ?c = md_sum c" by (simp_all add: md5_count_def Let_def)
  have u: "unat (drop_bit 3 (md_uBits0 c) AND 0x3f) = length r" using md5_used [OF assms(2)] assms(3) by simp
  have h: "length (md_inbuf ?c) = 64" "md_sum ?c = quad_list h" "length r < 64"
    "take (length r) (md_inbuf ?c) = r" using assms(1) by (simp_all add: md5_holds_def f)
  show ?thesis
  proof (cases "r = []")
    case True
    then show ?thesis using md5_rest_law [OF h(1,2), of be xs] b u by (auto simp: md5_addData_def Let_def)
  next
    case r: False
    show ?thesis
    proof (cases "length xs < 64 - length r")
      case True
      let ?d = "?c\<lparr>md_inbuf := overwrite (md_inbuf ?c) (length r) xs\<rparr>"
      have "md5_copy ?c (length r) xs = Inr ?d" using h True by (intro md5_copy_in) simp_all
      moreover have "md5_holds ?d h (r @ xs)"
        using h True by (simp add: md5_holds_def length_overwrite) (simp add: overwrite_def min_def)
      moreover have "md5_bits ?d (n + length xs)" using b by (simp add: md5_bits_def)
      ultimately show ?thesis using True r u by (simp add: md5_addData_def Let_def)
    next
      case False
      let ?k = "64 - length r"
      let ?d = "?c\<lparr>md_inbuf := r @ take ?k xs\<rparr>"
      have "overwrite (md_inbuf ?c) (length r) (take ?k xs) = r @ take ?k xs"
        using h False by (simp add: overwrite_def)
      then have cp: "md5_copy ?c (length r) (take ?k xs) = Inr ?d"
        using h False by (subst md5_copy_in) simp_all
      have l: "length (md_inbuf ?d) = 64" "md_sum ?d = quad_list h" using h False by simp_all
      note fl = md5_full_law [OF l]
      have a: "absorb rfc_block h (r @ xs) = absorb rfc_block (rfc_block h (r @ take ?k xs)) (drop ?k xs)"
        using absorb_block [of "r @ take ?k xs" rfc_block h "drop ?k xs"] h False by simp
      have "md5_bits ?d m = md5_bits ?c m" for m by (simp add: md5_bits_def)
      with md5_rest_law [OF fl(1,2), of be be "drop ?k xs"] fl(3) b cp False r u show ?thesis
        by (auto simp: md5_addData_def Let_def a)
    qed
  qed
qed

section \<open>The result\<close>

lemma md5_compCap_block:
  assumes "length y = 8" "length x = 56"
  shows "\<exists>b. mem_store (toLittleEndian be (x @ y) 14) 56 (host_bytes be u @ host_bytes be v) = Inr b \<and>
    words_of (host_word be) 16 b = words_of le_word 16 (x @ le_bytes u @ le_bytes v)"
proof -
  obtain x' where x': "toLittleEndian be (x @ y) 14 = x' @ y" "length x' = 56"
    "words_of (host_word be) 14 x' = words_of le_word 14 x"
    using toLittleEndian_append [of x 14 be y] assms(2) by auto
  have w: "words_of f 2 (g u @ g v) = [u, v]" if "\<And>w. length (g w) = 4" "\<And>w. f (g w) = w" for f g
    using words_of_concat [of "[u, v]" 2 g f "[]"] that by simp
  have "mem_store (x' @ y) (int 56) (host_bytes be u @ host_bytes be v) = Inr (x' @ host_bytes be u @ host_bytes be v)"
    using x'(2) assms(1) by (subst mem_store_in) (simp_all add: overwrite_def)
  moreover have "words_of (host_word be) (14 + 2) (x' @ host_bytes be u @ host_bytes be v) =
      words_of le_word (14 + 2) (x @ le_bytes u @ le_bytes v)"
    using x' assms by (subst (1 2) words_of_append) (simp_all add: w)
  ultimately show ?thesis using x'(1) by simp
qed

lemma md5_compCap_law:
  assumes "md5_holds c h r" "md5_bits c n" "n mod 64 = length r"
  shows "md5_compCap be c = Inr (rfc_output (fst (absorb rfc_block h
    (r @ [0x80] @ replicate (md_zeros n) 0 @ rfc_length (8 * n)))))"
proof -
  let ?l = "le_bytes (md_uBits0 c) @ le_bytes (md_uBits1 c)"
  have len: "rfc_length (8 * n) = ?l" using assms(2) by (simp add: rfc_length_def md5_bits_def)
  have u: "unat (drop_bit 3 (md_uBits0 c) AND 0x3F) = length r" using md5_used [OF assms(2)] assms(3) by simp
  have hs: "length (md_inbuf c) = 64" "md_sum c = quad_list h" "length r < 64"
    "take (length r) (md_inbuf c) = r" using assms(1) by (simp_all add: md5_holds_def)
  have b16: "words_of le_word 16 (x @ ?l) = words_of le_word 16 (x @ le_bytes (md_uBits0 c) @ le_bytes (md_uBits1 c))" for x
    by simp
  have s1: "mem_store (md_inbuf c) (int (length r)) [0x80] = Inr (overwrite (md_inbuf c) (length r) [0x80])"
    using hs by (intro mem_store_in) simp
  have o: "overwrite (md_inbuf c) (length r) [0x80] = r @ [0x80] @ drop (length r + 1) (md_inbuf c)"
    using hs by (simp add: overwrite_def)
  show ?thesis
  proof (cases "64 - 1 - length r < 8")
    case True
    then have z: "md_zeros n = (63 - length r) + 56" using md_zeros_cases(2) [of n] hs(3) assms(3) by simp
    let ?b = "r @ [0x80] @ replicate (63 - length r) 0"
    have lb: "length ?b = 64" using hs(3) by simp
    have s2: "mem_store (r @ [0x80] @ drop (length r + 1) (md_inbuf c)) (int (length r) + 1) (replicate (63 - length r) 0) = Inr ?b"
      using hs mem_store_in [of "length r + 1" "replicate (63 - length r) 0" "r @ [0x80] @ drop (length r + 1) (md_inbuf c)"]
      by (simp add: overwrite_def add.commute)
    let ?t = "toLittleEndian be ?b 16"
    have lt: "length ?t = 64" using lb by (simp add: length_toLittleEndian)
    have s3: "mem_store ?t 0 (replicate 56 0) = Inr (replicate 56 0 @ drop 56 ?t)"
      using mem_store_in [of 0 "replicate 56 0" ?t] lt by (simp add: overwrite_def)
    obtain b where b: "mem_store (toLittleEndian be (replicate 56 0 @ drop 56 ?t) 14) 56
        (host_bytes be (md_uBits0 c) @ host_bytes be (md_uBits1 c)) = Inr b"
      "words_of (host_word be) 16 b = words_of le_word 16 (replicate 56 0 @ ?l)"
      using md5_compCap_block [of "drop 56 ?t" "replicate 56 0" be "md_uBits0 c" "md_uBits1 c"] lt by auto
    have a: "absorb rfc_block h (r @ [0x80] @ replicate (md_zeros n) 0 @ ?l) =
        (rfc_block (rfc_block h ?b) (replicate 56 0 @ ?l), [])"
      using absorb_block [OF lb, of rfc_block h "replicate 56 0 @ ?l"]
        absorb_block [of "replicate 56 0 @ ?l" rfc_block "rfc_block h ?b" "[]"]
      by (simp add: z replicate_add)
    show ?thesis
      using True b unfolding len a
      by (simp add: md5_compCap_def Let_def u s1 o [simplified] s2 [simplified] s3 [simplified] hs(2) toLittleEndian_words
        md5_compBlock_eq md5_output rfc_block_def)
  next
    case False
    then have z: "md_zeros n = 55 - length r" using md_zeros_cases(1) [of n] hs(3) assms(3) by simp
    let ?x = "r @ [0x80] @ replicate (55 - length r) 0"
    have lx: "length ?x = 56" using False by simp
    have s2: "mem_store (r @ [0x80] @ drop (length r + 1) (md_inbuf c)) (int (length r) + 1) (replicate (55 - length r) 0) =
        Inr (?x @ drop 56 (md_inbuf c))"
      using hs False mem_store_in [of "length r + 1" "replicate (55 - length r) 0" "r @ [0x80] @ drop (length r + 1) (md_inbuf c)"]
      by (simp add: overwrite_def add.commute drop_Cons')
    obtain b where b: "mem_store (toLittleEndian be (?x @ drop 56 (md_inbuf c)) 14) 56
        (host_bytes be (md_uBits0 c) @ host_bytes be (md_uBits1 c)) = Inr b"
      "words_of (host_word be) 16 b = words_of le_word 16 (?x @ ?l)"
      using md5_compCap_block [OF _ lx, of "drop 56 (md_inbuf c)" be "md_uBits0 c" "md_uBits1 c"] hs(1) by auto
    have a: "absorb rfc_block h (r @ [0x80] @ replicate (md_zeros n) 0 @ ?l) = (rfc_block h (?x @ ?l), [])"
      using absorb_block [of "?x @ ?l" rfc_block h "[]"] lx by (simp add: z)
    show ?thesis
      using False b unfolding len a
      by (simp add: md5_compCap_def Let_def u s1 o [simplified] s2 [simplified] hs(2)
        md5_compBlock_eq md5_output rfc_block_def)
  qed
qed

section \<open>The property\<close>

text \<open>\<open>addData\<close> and \<open>getResult\<close> of MD5 always return.\<close>

abbreviation (input) md5_add :: "bool \<Rightarrow> md5 \<Rightarrow> byte list \<Rightarrow> md5 result option" where
  "md5_add be \<equiv> \<lambda>c xs. Some (md5_addData be c xs)"

abbreviation (input) md5_result :: "bool \<Rightarrow> md5 \<Rightarrow> (byte list \<times> md5) result option" where
  "md5_result be \<equiv> \<lambda>c. Some (md5_getResult be c)"

definition md5_fed :: "md5 \<Rightarrow> byte list \<Rightarrow> bool" where
  "md5_fed c M \<longleftrightarrow> md5_holds c (fst (absorb rfc_block rfc_init M)) (snd (absorb rfc_block rfc_init M)) \<and>
     md5_bits c (length M)"

lemma md5_result_law:
  assumes "md5_fed c M"
  shows "md5_getResult be c = Inr (rfc1321 M, c)"
proof -
  have "length M mod 64 = length (snd (absorb rfc_block rfc_init M))" by (simp add: absorb_rest)
  with md5_compCap_law [of c "fst (absorb rfc_block rfc_init M)" "snd (absorb rfc_block rfc_init M)" "length M" be] assms show ?thesis
    by (simp add: md5_getResult_def md5_fed_def rfc1321_def md_pad_def
      absorb_append [of rfc_block rfc_init M])
qed

interpretation md5: digest "md5_add be" "md5_result be" md5_reset md5_fed
    "\<lambda>c. length (md_inbuf c) = 64" rfc1321 "\<lambda>M. True" for be
proof (unfold_locales, goal_cases)
  case (1 c)
  then show ?case
    by (simp add: md5_fed_def md5_holds_def md5_bits_def md5_reset_def rfc_init_def)
next
  case (2 c M xs)
  have "length M mod 64 = length (snd (absorb rfc_block rfc_init M))" by (simp add: absorb_rest)
  with 2 md5_addData_law [of c "fst (absorb rfc_block rfc_init M)" "snd (absorb rfc_block rfc_init M)" "length M" be xs] show ?case
    by (auto simp: md5_fed_def absorb_append [of rfc_block rfc_init M])
next
  case (3 c M)
  then show ?case by (simp add: md5_fed_def md5_holds_def)
next
  case (4 c M)
  then show ?case using md5_result_law [OF 4(1), of be] by (simp add: md5_fed_def md5_holds_def)
qed

text \<open>
  C7. On hosts of either byte order, whatever stands in the buffer of a new object, and however the
  message is cut into chunks, MD5 gives the digest of RFC 1321 for the whole message; no copy
  leaves the buffer. Taking the result does not change the object: more data can be added, and the
  next result is the digest of everything added since the construction.
\<close>

theorem md5_is_rfc1321:
  assumes "length garbage = 64"
  shows "\<exists>c d. add_chunks (md5_add be) (md5_new garbage) cs = Some (Inr c) \<and>
      md5_getResult be c = Inr (rfc1321 (concat cs), c) \<and>
      add_chunks (md5_add be) c ds = Some (Inr d) \<and> md5_getResult be d = Inr (rfc1321 (concat cs @ concat ds), d)"
proof -
  have "md5_fed (md5_new garbage) []"
    using assms md5.reset_law [of "\<lparr>md_inbuf = garbage, md_sum = [], md_uBits0 = 0, md_uBits1 = 0\<rparr>"]
    by (simp add: md5_new_def)
  then obtain c where c: "add_chunks (md5_add be) (md5_new garbage) cs = Some (Inr c)" "md5_fed c (concat cs)"
    using md5.add_chunks_law [of "md5_new garbage" "[]" be cs] by auto
  then obtain d where "add_chunks (md5_add be) c ds = Some (Inr d)" "md5_fed d (concat cs @ concat ds)"
    using md5.add_chunks_law [OF c(2), of be ds] by auto
  with c md5_result_law show ?thesis by blast
qed

theorem md5_is_rfc1321_witness:
  "\<exists>c d. add_chunks (md5_add True) (md5_new (replicate 64 7)) [[1], [2, 3]] = Some (Inr c) \<and>
      md5_getResult True c = Inr (rfc1321 [1, 2, 3], c) \<and>
      add_chunks (md5_add True) c [[4]] = Some (Inr d) \<and> md5_getResult True d = Inr (rfc1321 [1, 2, 3, 4], d)"
  using md5_is_rfc1321 [of "replicate 64 7" True "[[1], [2, 3]]" "[[4]]"] by simp

text \<open>The reference gives the digest of the empty message that the test suite of the standard lists.\<close>

lemma rfc1321_pad_empty: "md_pad rfc_length [] = 0x80 # replicate 63 0"
proof -
  have "rfc_length 0 = [0, 0, 0, 0, 0, 0, 0, 0]" by (simp add: rfc_length_def le_bytes_def)
  also have "\<dots> = replicate 8 0" by (simp add: eval_nat_numeral)
  finally have "rfc_length 0 = replicate 8 0" .
  then show ?thesis by (simp add: md_pad_def md_zeros_def flip: replicate_add)
qed

lemma rfc1321_words_empty:
  "words_of le_word 16 (0x80 # replicate 63 0) = [0x80, 0, 0, 0, 0, 0, 0, 0, 0, 0, 0, 0, 0, 0, 0, 0]"
  by (simp add: words_of_def le_word_def piece_def upt_rec drop_Cons' nth_Cons')

lemma rfc1321_steps_empty:
  "fold (rfc_step [0x80, 0, 0, 0, 0, 0, 0, 0, 0, 0, 0, 0, 0, 0, 0, 0]) [0..<64]
     (0x67452301, 0xEFCDAB89, 0x98BADCFE, 0x10325476) = (0x7246fad3, 0x14e45506, 0xff4ea3eb, 0x6e10a476)"
  by (simp add: rfc_F_def rfc_k_def rfc_s_def rfc_T_def rotl32_def upt_rec)

lemma rfc1321_empty:
  "rfc1321 [] = [0xd4, 0x1d, 0x8c, 0xd9, 0x8f, 0x00, 0xb2, 0x04, 0xe9, 0x80, 0x09, 0x98, 0xec, 0xf8, 0x42, 0x7e]"
proof -
  have "absorb rfc_block rfc_init (0x80 # replicate 63 0) = (rfc_block rfc_init (0x80 # replicate 63 0), [])"
    using absorb_block [of "0x80 # replicate 63 0" rfc_block rfc_init "[]"] by simp
  then show ?thesis
    by (simp add: rfc1321_def rfc1321_pad_empty rfc_block_def rfc1321_words_empty rfc_init_def
      rfc1321_steps_empty le_bytes_def)
qed

end
