(* ===== verification/Bu_Sha1.thy ===== *)
theory Bu_Sha1
  imports Bu_Md5
begin

text \<open>
  \<open>Bu::Sha1\<close> (\<open>src/stable/sha1.cpp\<close>), against the algorithm of FIPS 180. Unlike MD5, taking the
  result feeds the padding to the object itself, so the object is then one that has been given the
  padded message.
\<close>

section \<open>The model\<close>

record sha1 =
  sh_uH0 :: "32 word"
  sh_uH1 :: "32 word"
  sh_uH2 :: "32 word"
  sh_uH3 :: "32 word"
  sh_uH4 :: "32 word"
  sh_uBytes :: "byte list"
  sh_iUnprocessedBytes :: int
  sh_uTotalBytes :: "32 word"

definition sha1_reset :: "sha1 \<Rightarrow> sha1" where
  "sha1_reset c = c\<lparr>sh_uH0 := 0x67452301, sh_uH1 := 0xefcdab89, sh_uH2 := 0x98badcfe, sh_uH3 := 0x10325476,
     sh_uH4 := 0xc3d2e1f0, sh_iUnprocessedBytes := 0, sh_uTotalBytes := 0\<rparr>"

definition sha1_new :: "byte list \<Rightarrow> sha1" where
  "sha1_new garbage = sha1_reset \<lparr>sh_uH0 = 0x67452301, sh_uH1 = 0xefcdab89, sh_uH2 = 0x98badcfe,
     sh_uH3 = 0x10325476, sh_uH4 = 0xc3d2e1f0, sh_uBytes = garbage, sh_iUnprocessedBytes = 0, sh_uTotalBytes = 0\<rparr>"

definition sha1_lrot :: "32 word \<Rightarrow> nat \<Rightarrow> 32 word" where
  "sha1_lrot x bits = push_bit bits x OR drop_bit (32 - bits) x"

definition toBigEndian :: "32 word \<Rightarrow> byte list" where
  "toBigEndian num = [ucast (drop_bit 24 num), ucast (drop_bit 16 num), ucast (drop_bit 8 num), ucast num]"

text \<open>The message block and its expansion, the two loops that fill \<open>W\<close>.\<close>

definition sha1_W16 :: "byte list \<Rightarrow> 32 word list" where
  "sha1_W16 uBytes = map (\<lambda>t. push_bit 24 (ucast (uBytes ! (t * 4))) + push_bit 16 (ucast (uBytes ! (t * 4 + 1)))
     + push_bit 8 (ucast (uBytes ! (t * 4 + 2))) + ucast (uBytes ! (t * 4 + 3))) [0..<16]"

definition sha1_expand :: "32 word list \<Rightarrow> nat \<Rightarrow> 32 word list" where
  "sha1_expand W t = W @ [sha1_lrot (W ! (t - 3) XOR W ! (t - 8) XOR W ! (t - 14) XOR W ! (t - 16)) 1]"

definition sha1_W :: "byte list \<Rightarrow> 32 word list" where
  "sha1_W uBytes = foldl sha1_expand (sha1_W16 uBytes) [16..<80]"

type_synonym quint = "32 word \<times> 32 word \<times> 32 word \<times> 32 word \<times> 32 word"

fun sha1_step :: "32 word list \<Rightarrow> quint \<Rightarrow> nat \<Rightarrow> quint" where
  "sha1_step W (a, b, c, d, e) t =
     (let (K, f) =
        (if t < 20 then (0x5a827999, (b AND c) OR (NOT b AND d))
         else if t < 40 then (0x6ed9eba1, b XOR c XOR d)
         else if t < 60 then (0x8f1bbcdc, (b AND c) OR (b AND d) OR (c AND d))
         else (0xca62c1d6, b XOR c XOR d));
        temp = sha1_lrot a 5 + f + e + W ! t + K
      in (temp, a, sha1_lrot b 30, c, d))"

definition sha1_process :: "sha1 \<Rightarrow> sha1" where
  "sha1_process s =
     (let W = sha1_W (sh_uBytes s);
          (a, b, c, d, e) = foldl (sha1_step W) (sh_uH0 s, sh_uH1 s, sh_uH2 s, sh_uH3 s, sh_uH4 s) [0..<80]
      in s\<lparr>sh_uH0 := sh_uH0 s + a, sh_uH1 := sh_uH1 s + b, sh_uH2 := sh_uH2 s + c, sh_uH3 := sh_uH3 s + d,
           sh_uH4 := sh_uH4 s + e, sh_iUnprocessedBytes := 0\<rparr>)"

text \<open>The loop of \<open>addData\<close>, which takes at least one byte while the block has room for one.\<close>

partial_function (option) sha1_add_loop :: "sha1 \<Rightarrow> byte list \<Rightarrow> sha1 result option" where
  "sha1_add_loop s sData =
     (if sData = [] then Some (Inr s)
      else let iSize = int (length sData);
               iNeeded = 64 - sh_iUnprocessedBytes s;
               iToCopy = (if iSize < iNeeded then iSize else iNeeded)
           in case mem_store (sh_uBytes s) (sh_iUnprocessedBytes s) (take (nat iToCopy) sData) of
                Inl e \<Rightarrow> Some (Inl e)
              | Inr b \<Rightarrow>
                  let s1 = s\<lparr>sh_uBytes := b, sh_iUnprocessedBytes := sh_iUnprocessedBytes s + iToCopy\<rparr>
                  in sha1_add_loop (if sh_iUnprocessedBytes s1 = 64 then sha1_process s1 else s1) (drop (nat iToCopy) sData))"

definition sha1_addData :: "sha1 \<Rightarrow> byte list \<Rightarrow> sha1 result option" where
  "sha1_addData s sData = sha1_add_loop (s\<lparr>sh_uTotalBytes := sh_uTotalBytes s + word_of_nat (length sData)\<rparr>) sData"

definition sha1_getResult :: "sha1 \<Rightarrow> (byte list \<times> sha1) result option" where
  "sha1_getResult s0 =
     (let totalBitsL = push_bit 3 (sh_uTotalBytes s0);
          totalBitsH = drop_bit 29 (sh_uTotalBytes s0);
          footer = replicate 64 0 in
      obind (sha1_addData s0 [0x80]) (\<lambda>s1.
      obind (if sh_iUnprocessedBytes s1 > 56 then sha1_addData s1 (take (nat (64 - sh_iUnprocessedBytes s1)) footer)
             else Some (Inr s1)) (\<lambda>s2.
      let iNeededZeros = 56 - sh_iUnprocessedBytes s2 in
      obind (Some (rbind (mem_store footer iNeededZeros (toBigEndian totalBitsH)) (\<lambda>f1.
                   mem_store f1 (iNeededZeros + 4) (toBigEndian totalBitsL)))) (\<lambda>f2.
      obind (sha1_addData s2 (take (nat (iNeededZeros + 8)) f2)) (\<lambda>s3.
      Some (Inr (toBigEndian (sh_uH0 s3) @ toBigEndian (sh_uH1 s3) @ toBigEndian (sh_uH2 s3) @
        toBigEndian (sh_uH3 s3) @ toBigEndian (sh_uH4 s3), s3)))))))"

section \<open>The reference\<close>

definition fips_f :: "nat \<Rightarrow> 32 word \<Rightarrow> 32 word \<Rightarrow> 32 word \<Rightarrow> 32 word" where
  "fips_f t x y z =
     (if t \<le> 19 then (x AND y) XOR (NOT x AND z)
      else if t \<le> 39 then x XOR y XOR z
      else if t \<le> 59 then (x AND y) XOR (x AND z) XOR (y AND z)
      else x XOR y XOR z)"

definition fips_K :: "nat \<Rightarrow> 32 word" where
  "fips_K t = [0x5a827999, 0x6ed9eba1, 0x8f1bbcdc, 0xca62c1d6] ! (t div 20)"

fun fips_W :: "32 word list \<Rightarrow> nat \<Rightarrow> 32 word" where
  "fips_W M t =
     (if t < 16 then M ! t
      else rotl32 1 (fips_W M (t - 3) XOR fips_W M (t - 8) XOR fips_W M (t - 14) XOR fips_W M (t - 16)))"

declare fips_W.simps [simp del]

fun fips_step :: "32 word list \<Rightarrow> nat \<Rightarrow> quint \<Rightarrow> quint" where
  "fips_step M t (a, b, c, d, e) =
     (rotl32 5 a + fips_f t b c d + e + fips_K t + fips_W M t, a, rotl32 30 b, c, d)"

fun fips_add :: "quint \<Rightarrow> quint \<Rightarrow> quint" where
  "fips_add (a, b, c, d, e) (a', b', c', d', e') = (a + a', b + b', c + c', d + d', e + e')"

definition fips_block :: "quint \<Rightarrow> byte list \<Rightarrow> quint" where
  "fips_block h b = fips_add h (fold (fips_step (words_of be_word 16 b)) [0..<80] h)"

definition fips_length :: "nat \<Rightarrow> byte list" where
  "fips_length n = be_bytes (word_of_nat (n div 2 ^ 32)) @ be_bytes (word_of_nat n)"

definition fips_init :: quint where
  "fips_init = (0x67452301, 0xefcdab89, 0x98badcfe, 0x10325476, 0xc3d2e1f0)"

fun fips_output :: "quint \<Rightarrow> byte list" where
  "fips_output (a, b, c, d, e) = be_bytes a @ be_bytes b @ be_bytes c @ be_bytes d @ be_bytes e"

definition fips180_sha1 :: "byte list \<Rightarrow> byte list" where
  "fips180_sha1 M = fips_output (fst (absorb fips_block fips_init (md_pad fips_length M)))"

section \<open>One block\<close>

lemma sha1_lrot_eq: "sha1_lrot x s = rotl32 s x"
  by (simp add: sha1_lrot_def rotl32_def)

lemma toBigEndian_eq: "toBigEndian w = be_bytes w"
  by (simp add: toBigEndian_def be_bytes_def le_bytes_def)

lemma plus_bytes:
  "push_bit 24 (ucast a) + push_bit 16 (ucast b) + push_bit 8 (ucast c) + ucast (d :: byte) =
   be_word [a :: byte, b :: byte, c :: byte, d]"
proof -
  have 1: "push_bit 24 (ucast a) + push_bit 16 (ucast b) = (push_bit 24 (ucast a) OR push_bit 16 (ucast b) :: 32 word)"
    by (rule disjunctive_add) (auto simp: bit_simps byte_bit_high)
  have 2: "(push_bit 24 (ucast a) OR push_bit 16 (ucast b)) + push_bit 8 (ucast c) =
      (push_bit 24 (ucast a) OR push_bit 16 (ucast b) OR push_bit 8 (ucast c) :: 32 word)"
    by (subst disjunctive_add) (auto simp: bit_simps byte_bit_high or.assoc)
  have 3: "(push_bit 24 (ucast a) OR push_bit 16 (ucast b) OR push_bit 8 (ucast c)) + ucast d =
      (push_bit 24 (ucast a) OR push_bit 16 (ucast b) OR push_bit 8 (ucast c) OR ucast d :: 32 word)"
    by (subst disjunctive_add) (auto simp: bit_simps byte_bit_high or.assoc)
  show ?thesis unfolding 1 2 3 by (simp add: be_word_def le_word_def ac_simps)
qed

lemma sha1_W16_eq:
  assumes "length b = 64"
  shows "sha1_W16 b = words_of be_word 16 b"
proof -
  have "piece 4 b t = [b ! (t * 4), b ! (t * 4 + 1), b ! (t * 4 + 2), b ! (t * 4 + 3)]" if "t < 16" for t
    using that assms
    by (intro nth_equalityI) (auto simp: piece_def nth_Cons' numeral_eq_Suc less_Suc_eq)
  then show ?thesis by (simp add: sha1_W16_def words_of_def plus_bytes)
qed

lemma sha1_expand_fold:
  "length W = 16 \<Longrightarrow> n \<le> 64 \<Longrightarrow> foldl sha1_expand W [16..<16 + n] = map (fips_W W) [0..<16 + n]"
proof (induction n)
  case 0
  have "map (fips_W W) [0..<16] = map ((!) W) [0..<16]" by (simp add: fips_W.simps [of W])
  with 0 show ?case by (metis add_0_right foldl_Nil map_nth upt_conv_Nil order_refl)
next
  case (Suc n)
  then have "foldl sha1_expand W [16..<16 + Suc n] = sha1_expand (map (fips_W W) [0..<16 + n]) (16 + n)"
    using upt_Suc_append [of 16 "16 + n"] by simp
  also have "\<dots> = map (fips_W W) [0..<16 + n] @ [fips_W W (16 + n)]"
    by (simp add: sha1_expand_def sha1_lrot_eq fips_W.simps [of W "16 + n"] del: upt_Suc)
  finally show ?case using upt_Suc_append [of 0 "16 + n"] by simp
qed

lemma sha1_W_eq:
  assumes "length b = 64"
  shows "sha1_W b = map (fips_W (words_of be_word 16 b)) [0..<80]"
  using sha1_expand_fold [of "words_of be_word 16 b" 64]
  by (simp add: sha1_W_def sha1_W16_eq [OF assms] words_of_def)

lemma fips_f_eq:
  "t < 20 \<Longrightarrow> fips_f t b c d = (b AND c) OR (NOT b AND d)"
  "20 \<le> t \<Longrightarrow> t < 40 \<Longrightarrow> fips_f t b c d = b XOR c XOR d"
  "40 \<le> t \<Longrightarrow> t < 60 \<Longrightarrow> fips_f t b c d = (b AND c) OR (b AND d) OR (c AND d)"
  "60 \<le> t \<Longrightarrow> fips_f t b c d = b XOR c XOR d"
  by (auto simp: fips_f_def bit_eq_iff bit_simps)

lemma fips_K_eq:
  "t < 20 \<Longrightarrow> fips_K t = 0x5a827999" "20 \<le> t \<Longrightarrow> t < 40 \<Longrightarrow> fips_K t = 0x6ed9eba1"
  "40 \<le> t \<Longrightarrow> t < 60 \<Longrightarrow> fips_K t = 0x8f1bbcdc" "60 \<le> t \<Longrightarrow> t < 80 \<Longrightarrow> fips_K t = 0xca62c1d6"
proof -
  have "t div 20 = 1" if "20 \<le> t" "t < 40" using that by (simp add: div_nat_eqI)
  moreover have "t div 20 = 2" if "40 \<le> t" "t < 60" using that by (simp add: div_nat_eqI)
  moreover have "t div 20 = 3" if "60 \<le> t" "t < 80" using that by (simp add: div_nat_eqI)
  ultimately show "t < 20 \<Longrightarrow> fips_K t = 0x5a827999" "20 \<le> t \<Longrightarrow> t < 40 \<Longrightarrow> fips_K t = 0x6ed9eba1"
    "40 \<le> t \<Longrightarrow> t < 60 \<Longrightarrow> fips_K t = 0x8f1bbcdc" "60 \<le> t \<Longrightarrow> t < 80 \<Longrightarrow> fips_K t = 0xca62c1d6"
    by (simp_all add: fips_K_def)
qed

lemma sha1_step_eq:
  assumes "t < 80"
  shows "sha1_step (map (fips_W M) [0..<80]) q t = fips_step M t q"
proof -
  obtain a b c d e where q: "q = (a, b, c, d, e)" by (cases q)
  consider "t < 20" | "20 \<le> t" "t < 40" | "40 \<le> t" "t < 60" | "60 \<le> t" by linarith
  then show ?thesis
    using assms by cases (simp_all add: q Let_def sha1_lrot_eq fips_f_eq fips_K_eq ac_simps)
qed

lemma sha1_fold_eq:
  "n \<le> 80 \<Longrightarrow> foldl (sha1_step (map (fips_W M) [0..<80])) q [0..<n] = fold (fips_step M) [0..<n] q"
  by (induction n) (simp_all add: sha1_step_eq)

definition sha1_chain :: "sha1 \<Rightarrow> quint" where
  "sha1_chain s = (sh_uH0 s, sh_uH1 s, sh_uH2 s, sh_uH3 s, sh_uH4 s)"

lemma sha1_process_law:
  assumes "length (sh_uBytes s) = 64"
  shows "sha1_chain (sha1_process s) = fips_block (sha1_chain s) (sh_uBytes s)"
    "sh_uBytes (sha1_process s) = sh_uBytes s" "sh_iUnprocessedBytes (sha1_process s) = 0"
    "sh_uTotalBytes (sha1_process s) = sh_uTotalBytes s"
proof -
  let ?M = "words_of be_word 16 (sh_uBytes s)"
  have "foldl (sha1_step (sha1_W (sh_uBytes s))) (sha1_chain s) [0..<80] = fold (fips_step ?M) [0..<80] (sha1_chain s)"
    by (simp add: sha1_W_eq [OF assms] sha1_fold_eq del: upt_rec_numeral)
  then show "sha1_chain (sha1_process s) = fips_block (sha1_chain s) (sh_uBytes s)"
    by (simp add: sha1_process_def Let_def fips_block_def sha1_chain_def split: prod.splits del: upt_rec_numeral)
  show "sh_uBytes (sha1_process s) = sh_uBytes s" "sh_iUnprocessedBytes (sha1_process s) = 0"
    "sh_uTotalBytes (sha1_process s) = sh_uTotalBytes s"
    by (simp_all add: sha1_process_def Let_def split: prod.splits)
qed

section \<open>Feeding data\<close>

definition sha1_holds :: "sha1 \<Rightarrow> quint \<Rightarrow> byte list \<Rightarrow> bool" where
  "sha1_holds s h r \<longleftrightarrow> length (sh_uBytes s) = 64 \<and> sha1_chain s = h \<and> length r < 64 \<and>
     sh_iUnprocessedBytes s = int (length r) \<and> take (length r) (sh_uBytes s) = r"

lemma sha1_add_loop_law:
  "sha1_holds s h r \<Longrightarrow>
   \<exists>s'. sha1_add_loop s xs = Some (Inr s') \<and> sh_uTotalBytes s' = sh_uTotalBytes s \<and>
     sha1_holds s' (fst (absorb fips_block h (r @ xs))) (snd (absorb fips_block h (r @ xs)))"
proof (induction "length xs" arbitrary: s h r xs rule: less_induct)
  case less
  show ?case
  proof (cases "xs = []")
    case True
    with less.prems show ?thesis by (simp add: sha1_add_loop.simps [of s] sha1_holds_def)
  next
    case False
    note hs = less.prems [unfolded sha1_holds_def]
    define k where "k = min (length xs) (64 - length r)"
    let ?u = "r @ take k xs"
    have k: "0 < k" "k \<le> length xs" "length r + k \<le> 64" using False hs by (auto simp: k_def)
    have cp: "(if int (length xs) < 64 - sh_iUnprocessedBytes s then int (length xs) else 64 - sh_iUnprocessedBytes s) = int k"
      using hs by (cases "length xs < 64 - length r") (auto simp: k_def)
    define b where "b = overwrite (sh_uBytes s) (length r) (take k xs)"
    have ms: "mem_store (sh_uBytes s) (sh_iUnprocessedBytes s) (take k xs) = Inr b"
      using hs k by (simp add: mem_store_in b_def)
    have b: "length b = 64" "take (length r + k) b = ?u"
      using hs k by (simp_all add: b_def length_overwrite) (simp add: overwrite_def min_def)
    let ?s1 = "s\<lparr>sh_uBytes := b, sh_iUnprocessedBytes := int (length r) + int k\<rparr>"
    define s2 where "s2 = (if length r + k = 64 then sha1_process ?s1 else ?s1)"
    have c64: "int (length r) + int k = 64 \<longleftrightarrow> length r + k = 64" by linarith
    have step: "sha1_add_loop s xs = sha1_add_loop s2 (drop k xs)"
      using False hs unfolding sha1_add_loop.simps [of s xs] Let_def cp nat_int ms by (simp add: s2_def c64)
    have ch: "sha1_chain ?s1 = h" using hs by (simp add: sha1_chain_def)
    have rest: "length (drop k xs) < length xs" using k by simp
    show ?thesis
    proof (cases "length r + k = 64")
      case True
      with b have u: "b = ?u" by simp
      have h2: "sha1_holds s2 (fips_block h ?u) []"
        using True b ch u sha1_process_law [of ?s1] by (simp add: s2_def sha1_holds_def)
      have t: "sh_uTotalBytes s2 = sh_uTotalBytes s" using True b sha1_process_law(4) [of ?s1] by (simp add: s2_def)
      have "absorb fips_block h (r @ xs) = absorb fips_block (fips_block h ?u) (drop k xs)"
        using absorb_block [of ?u fips_block h "drop k xs"] True k by simp
      with less.hyps [OF rest h2] t show ?thesis by (simp add: step)
    next
      case False
      then have "length xs < 64 - length r" using k by (auto simp: k_def min_def split: if_splits)
      then have "k = length xs" by (simp add: k_def)
      moreover have "sha1_holds s2 h (r @ xs)"
        using False b ch k \<open>k = length xs\<close> by (simp add: s2_def sha1_holds_def)
      ultimately show ?thesis
        using less.hyps [OF rest, of s2 h "r @ xs"] False by (simp add: step s2_def sha1_holds_def)
    qed
  qed
qed

definition sha1_fed :: "sha1 \<Rightarrow> byte list \<Rightarrow> bool" where
  "sha1_fed s M \<longleftrightarrow> sha1_holds s (fst (absorb fips_block fips_init M)) (snd (absorb fips_block fips_init M)) \<and>
     sh_uTotalBytes s = word_of_nat (length M)"

lemma sha1_addData_law:
  assumes "sha1_fed s M"
  shows "\<exists>s'. sha1_addData s xs = Some (Inr s') \<and> sha1_fed s' (M @ xs)"
proof -
  let ?s = "s\<lparr>sh_uTotalBytes := sh_uTotalBytes s + word_of_nat (length xs)\<rparr>"
  have "sha1_holds ?s (fst (absorb fips_block fips_init M)) (snd (absorb fips_block fips_init M))"
    using assms by (simp add: sha1_fed_def sha1_holds_def sha1_chain_def)
  from sha1_add_loop_law [OF this, of xs] assms show ?thesis
    by (auto simp: sha1_addData_def sha1_fed_def absorb_append [of fips_block fips_init M])
qed

lemma sha1_fed_rest:
  assumes "sha1_fed s M"
  shows "sh_iUnprocessedBytes s = int (length M mod 64)"
  using assms by (simp add: sha1_fed_def sha1_holds_def absorb_rest)

text \<open>The result: the padding is added to the object, and its chain is then the digest.\<close>

lemma sha1_output:
  "toBigEndian (sh_uH0 s) @ toBigEndian (sh_uH1 s) @ toBigEndian (sh_uH2 s) @ toBigEndian (sh_uH3 s) @
    toBigEndian (sh_uH4 s) = fips_output (sha1_chain s)"
  by (simp add: sha1_chain_def toBigEndian_eq)

lemma sha1_footer:
  assumes "k \<le> 56"
  shows "rbind (mem_store (replicate 64 0) (int k) (be_bytes u)) (\<lambda>f1. mem_store f1 (int k + 4) (be_bytes v)) =
      Inr (replicate k 0 @ be_bytes u @ be_bytes v @ replicate (56 - k) 0)"
proof -
  have "mem_store (replicate 64 0) (int k) (be_bytes u) = Inr (replicate k 0 @ be_bytes u @ replicate (60 - k) 0)"
    using assms mem_store_in [of k "be_bytes u" "replicate 64 0"] by (simp add: overwrite_def)
  moreover have "mem_store (replicate k 0 @ be_bytes u @ replicate (60 - k) 0) (int (k + 4)) (be_bytes v) =
      Inr (replicate k 0 @ be_bytes u @ be_bytes v @ replicate (56 - k) 0)"
    using assms by (subst mem_store_in) (simp_all add: overwrite_def)
  ultimately show ?thesis by (simp add: add.commute)
qed

lemma sha1_result_law:
  assumes "sha1_fed s M" "length M < 2 ^ 32"
  shows "\<exists>s'. sha1_getResult s = Some (Inr (fips180_sha1 M, s')) \<and> sha1_fed s' (md_pad fips_length M)"
proof -
  let ?n = "length M" and ?u = "drop_bit 29 (sh_uTotalBytes s)" and ?v = "push_bit 3 (sh_uTotalBytes s)"
  obtain s1 where s1: "sha1_addData s [0x80] = Some (Inr s1)" "sha1_fed s1 (M @ [0x80])"
    using sha1_addData_law [OF assms(1)] by blast
  have u1: "sh_iUnprocessedBytes s1 = int (Suc ?n mod 64)" using sha1_fed_rest [OF s1(2)] by simp
  have m: "Suc ?n mod 64 = (if ?n mod 64 = 63 then 0 else Suc (?n mod 64))" by (simp add: mod_Suc)
  have mb: "?n mod 64 < 64" by simp
  define z where "z = (if Suc ?n mod 64 > 56 then 64 - Suc ?n mod 64 else 0)"
  have "\<exists>s2. (if sh_iUnprocessedBytes s1 > 56
      then sha1_addData s1 (take (nat (64 - sh_iUnprocessedBytes s1)) (replicate 64 0)) else Some (Inr s1)) = Some (Inr s2) \<and>
      sha1_fed s2 (M @ [0x80] @ replicate z 0)"
  proof (cases "Suc ?n mod 64 > 56")
    case True
    then have t: "take (nat (64 - sh_iUnprocessedBytes s1)) (replicate 64 0) = replicate z (0 :: byte)"
      by (simp add: u1 z_def nat_diff_distrib min_def)
    from sha1_addData_law [OF s1(2), of "replicate z 0"] True show ?thesis unfolding t by (simp add: u1)
  next
    case False
    with s1(2) show ?thesis by (simp add: u1 z_def)
  qed
  then obtain s2 where s2: "(if sh_iUnprocessedBytes s1 > 56
      then sha1_addData s1 (take (nat (64 - sh_iUnprocessedBytes s1)) (replicate 64 0)) else Some (Inr s1)) = Some (Inr s2)"
      "sha1_fed s2 (M @ [0x80] @ replicate z 0)" by blast
  define k where "k = 56 - (?n + 1 + z) mod 64"
  have k: "sh_iUnprocessedBytes s2 = 56 - int k" "k \<le> 56" "z + k = md_zeros ?n"
  proof -
    define q where "q = Suc ?n mod 64"
    have z: "z = (if q > 56 then 64 - q else 0)" by (simp add: z_def q_def)
    have e: "(?n + 1 + z) mod 64 = (q + z) mod 64" by (simp add: q_def mod_add_left_eq)
    have "q < 64" by (simp add: q_def)
    then have r: "(?n + 1 + z) mod 64 = (if q > 56 then 0 else q)" unfolding e by (simp add: z)
    then have le: "(?n + 1 + z) mod 64 \<le> 56" by simp
    show "k \<le> 56" by (simp add: k_def)
    show "sh_iUnprocessedBytes s2 = 56 - int k" using sha1_fed_rest [OF s2(2)] le by (simp add: k_def)
    show "z + k = md_zeros ?n"
    proof (cases "?n mod 64 < 56")
      case True
      then have "q = Suc (?n mod 64)" using m by (simp add: q_def)
      with True show ?thesis unfolding k_def r by (simp add: z md_zeros_cases)
    next
      case False
      then have "q = 0 \<and> ?n mod 64 = 63 \<or> q = Suc (?n mod 64) \<and> q > 56" using m mb by (auto simp: q_def)
      with False mb show ?thesis unfolding k_def r by (auto simp: z md_zeros_cases)
    qed
  qed
  have f: "rbind (mem_store (replicate 64 0) (56 - sh_iUnprocessedBytes s2) (toBigEndian ?u))
      (\<lambda>f1. mem_store f1 (56 - sh_iUnprocessedBytes s2 + 4) (toBigEndian ?v)) =
      Inr (replicate k 0 @ be_bytes ?u @ be_bytes ?v @ replicate (56 - k) 0)"
    using sha1_footer [OF k(2), of ?u ?v] by (simp add: k(1) toBigEndian_eq)
  have tk: "take (nat (56 - sh_iUnprocessedBytes s2 + 8)) (replicate k 0 @ be_bytes ?u @ be_bytes ?v @ replicate (56 - k) 0) =
      replicate k 0 @ be_bytes ?u @ be_bytes ?v"
    by (simp add: k(1) nat_add_distrib)
  have T: "sh_uTotalBytes s = word_of_nat ?n" using assms(1) by (simp add: sha1_fed_def)
  have "?u = word_of_nat (8 * ?n div 2 ^ 32)"
  proof -
    have "8 * ?n div 2 ^ 32 = ?n div 2 ^ 29" by simp
    moreover have w: "unat (sh_uTotalBytes s) = ?n"
      using assms(2) by (simp add: T unsigned_of_nat take_bit_nat_eq_self)
    then have "unat ?u = ?n div 2 ^ 29"
      using assms(2) by (simp only: unsigned_drop_bit_eq) (simp add: drop_bit_eq_div take_bit_nat_eq_self)
    ultimately show ?thesis using of_nat_unat [of ?u, where 'a = "32 word"] by (simp add: ucast_id)
  qed
  moreover have "?v = word_of_nat (8 * ?n)" by (simp add: T push_bit_eq_mult)
  ultimately have len: "fips_length (8 * ?n) = be_bytes ?u @ be_bytes ?v" by (simp add: fips_length_def)
  obtain s3 where s3: "sha1_addData s2 (replicate k 0 @ be_bytes ?u @ be_bytes ?v) = Some (Inr s3)"
    "sha1_fed s3 ((M @ [0x80] @ replicate z 0) @ replicate k 0 @ be_bytes ?u @ be_bytes ?v)"
    using sha1_addData_law [OF s2(2)] by blast
  have pad: "(M @ [0x80] @ replicate z 0) @ replicate k 0 @ be_bytes ?u @ be_bytes ?v = md_pad fips_length M"
    by (simp add: md_pad_def len replicate_add flip: k(3))
  have "sha1_getResult s = Some (Inr (fips_output (sha1_chain s3), s3))"
    by (simp only: sha1_getResult_def Let_def s1(1) obind_simps s2(1) f tk s3(1) sha1_output)
  moreover have "sha1_chain s3 = fst (absorb fips_block fips_init (md_pad fips_length M))"
    using s3(2) unfolding pad by (simp add: sha1_fed_def sha1_holds_def)
  ultimately show ?thesis using s3(2) unfolding pad by (simp add: fips180_sha1_def)
qed

interpretation sha1: digest sha1_addData sha1_getResult sha1_reset sha1_fed
    "\<lambda>s. length (sh_uBytes s) = 64" fips180_sha1 "\<lambda>M. length M < 2 ^ 32"
proof (unfold_locales, goal_cases)
  case (1 c)
  then show ?case by (simp add: sha1_fed_def sha1_holds_def sha1_reset_def fips_init_def sha1_chain_def)
next
  case (2 c M xs)
  then show ?case by (rule sha1_addData_law)
next
  case (3 c M)
  then show ?case by (simp add: sha1_fed_def sha1_holds_def)
next
  case (4 c M)
  from sha1_result_law [OF this] show ?case by (auto simp: sha1_fed_def sha1_holds_def)
qed

text \<open>
  C21. However a message of less than 4 GiB is cut into chunks, and whatever stands in the block of
  a new object, SHA-1 returns and gives the digest of FIPS 180; no copy leaves the block. A second
  \<open>getResult\<close> of the same object gives the digest of the padded message instead, because the first
  one has added the padding to the object.
\<close>

theorem sha1_is_fips180:
  assumes "length garbage = 64" "length (concat cs) < 2 ^ 32 - 128"
  shows "\<exists>c c' c''. add_chunks sha1_addData (sha1_new garbage) cs = Some (Inr c) \<and>
      sha1_getResult c = Some (Inr (fips180_sha1 (concat cs), c')) \<and>
      sha1_getResult c' = Some (Inr (fips180_sha1 (md_pad fips_length (concat cs)), c''))"
proof -
  let ?M = "concat cs"
  have "sha1_fed (sha1_new garbage) []" unfolding sha1_new_def by (rule sha1.reset_law) (simp add: assms(1))
  then obtain c where c: "add_chunks sha1_addData (sha1_new garbage) cs = Some (Inr c)" "sha1_fed c ?M"
    using sha1.add_chunks_law [of "sha1_new garbage" "[]" cs] by auto
  obtain c' where c': "sha1_getResult c = Some (Inr (fips180_sha1 ?M, c'))" "sha1_fed c' (md_pad fips_length ?M)"
    using sha1_result_law [OF c(2)] assms(2) by auto
  have "md_zeros (length ?M) < 64" by (simp add: md_zeros_def nat_less_iff)
  then have "length (md_pad fips_length ?M) < 2 ^ 32"
    using assms(2) by (simp add: md_pad_def fips_length_def)
  from sha1_result_law [OF c'(2) this] c c' show ?thesis by blast
qed

theorem sha1_is_fips180_witness:
  "\<exists>c c' c''. add_chunks sha1_addData (sha1_new (replicate 64 7)) [[1], [2, 3]] = Some (Inr c) \<and>
      sha1_getResult c = Some (Inr (fips180_sha1 [1, 2, 3], c')) \<and>
      sha1_getResult c' = Some (Inr (fips180_sha1 (md_pad fips_length [1, 2, 3]), c''))"
  using sha1_is_fips180 [of "replicate 64 7" "[[1], [2, 3]]"] by simp

end
