(* ===== verification/Bu_Cipher.thy ===== *)
theory Bu_Cipher
  imports Bu_Bytes
begin

text \<open>
  \<open>Bu::Cipher\<close> (\<open>src/unstable/cipher.h\<close>), the filter that gathers blocks and enciphers or deciphers
  them in place, and the modes \<open>CipherModeEcb\<close>, \<open>CipherModeCbc\<close>, \<open>CipherModeCfb\<close>, \<open>CipherModeOfb\<close>
  (\<open>ciphermode*.h\<close>), which wrap the two virtual members of the cipher they derive from.

  What the filter asks of its cipher is the locale \<open>block_coder\<close>: an encoder and a decoder that run
  in step. A key dependent permutation of blocks (locale \<open>block_permutation\<close>) gives one in every mode.
\<close>

section \<open>Coders of blocks\<close>

text \<open>\<open>run_blocks\<close> cuts a message into blocks, and gives the coded blocks, the last state and the rest.\<close>

function run_blocks :: "nat \<Rightarrow> ('k \<Rightarrow> byte list \<Rightarrow> byte list \<times> 'k) \<Rightarrow> 'k \<Rightarrow> byte list \<Rightarrow> byte list \<times> 'k \<times> byte list" where
  "run_blocks n f k xs =
     (if n = 0 \<or> length xs < n then ([], k, xs)
      else let (c, k1) = f k (take n xs); (cs, k2, r) = run_blocks n f k1 (drop n xs) in (c @ cs, k2, r))"
  by pat_completeness auto
termination by (relation "measure (\<lambda>(n, f, k, xs). length xs)") auto

declare run_blocks.simps [simp del]

lemma run_blocks_short [simp]: "length xs < n \<Longrightarrow> run_blocks n f k xs = ([], k, xs)"
  by (simp add: run_blocks.simps)

lemma run_blocks_block:
  "0 < n \<Longrightarrow> length b = n \<Longrightarrow> f k b = (c, k1) \<Longrightarrow> run_blocks n f k1 xs = (cs, k2, r) \<Longrightarrow>
   run_blocks n f k (b @ xs) = (c @ cs, k2, r)"
  by (simp add: run_blocks.simps [of n f k "b @ xs"])

lemma run_blocks_take:
  "0 < n \<Longrightarrow> n \<le> length xs \<Longrightarrow> f k (take n xs) = (c, k1) \<Longrightarrow> run_blocks n f k1 (drop n xs) = (cs, k2, r) \<Longrightarrow>
   run_blocks n f k xs = (c @ cs, k2, r)"
  by (simp add: run_blocks.simps [of n f k xs])

lemma run_blocks_append:
  "0 < n \<Longrightarrow> run_blocks n f k xs = (cs, k1, r) \<Longrightarrow> run_blocks n f k1 (r @ ys) = (ds, k2, q) \<Longrightarrow>
   run_blocks n f k (xs @ ys) = (cs @ ds, k2, q)"
proof (induction n f k xs arbitrary: cs rule: run_blocks.induct)
  case (1 n f k xs)
  show ?case
  proof (cases "length xs < n")
    case True
    with 1 show ?thesis by simp
  next
    case False
    obtain c k' where f: "f k (take n xs) = (c, k')" by fastforce
    obtain cs' k'' r' where rec: "run_blocks n f k' (drop n xs) = (cs', k'', r')" by (cases "run_blocks n f k' (drop n xs)")
    with 1 False f have eq: "cs = c @ cs'" "k'' = k1" "r' = r" by (simp_all add: run_blocks.simps [of n f k xs])
    have "run_blocks n f k' (drop n xs @ ys) = (cs' @ ds, k2, q)"
      using 1 False f rec eq by (metis less_numeral_extra(3))
    with 1 False f eq show ?thesis
      using run_blocks_take [of n "xs @ ys" f k c k' "cs' @ ds" k2 q] by simp
  qed
qed

lemma run_blocks_rest: "0 < n \<Longrightarrow> run_blocks n f k xs = (cs, k1, r) \<Longrightarrow> length r = length xs mod n"
proof (induction n f k xs arbitrary: cs rule: run_blocks.induct)
  case (1 n f k xs)
  then show ?case
    by (cases "length xs < n") (auto simp: run_blocks.simps [of n f k xs] le_mod_geq Let_def split: prod.splits)
qed

lemma run_blocks_split:
  "0 < n \<Longrightarrow> run_blocks n f k xs = (cs, k1, r) \<Longrightarrow> \<exists>ys. xs = ys @ r \<and> run_blocks n f k ys = (cs, k1, [])"
proof (induction n f k xs arbitrary: cs rule: run_blocks.induct)
  case (1 n f k xs)
  show ?case
  proof (cases "length xs < n")
    case True
    with 1 show ?thesis by simp
  next
    case False
    obtain c k' where f: "f k (take n xs) = (c, k')" by fastforce
    obtain cs' k'' r' where rec: "run_blocks n f k' (drop n xs) = (cs', k'', r')" by (cases "run_blocks n f k' (drop n xs)")
    with 1 False f have eq: "cs = c @ cs'" "k'' = k1" "r' = r" by (simp_all add: run_blocks.simps [of n f k xs])
    have "\<exists>ys. drop n xs = ys @ r \<and> run_blocks n f k' ys = (cs', k1, [])"
      using 1 False f rec eq by (metis less_numeral_extra(3))
    then obtain ys where ys: "drop n xs = ys @ r" "run_blocks n f k' ys = (cs', k1, [])" by blast
    have "run_blocks n f k (take n xs @ ys) = (cs, k1, [])"
      using run_blocks_block [where f = f and k = k and b = "take n xs" and xs = ys, OF 1(2) _ f ys(2)] False eq by simp
    moreover have "xs = (take n xs @ ys) @ r" using ys(1) by (metis append_assoc append_take_drop_id)
    ultimately show ?thesis by blast
  qed
qed

locale block_coder =
  fixes n :: nat
    and enc dec :: "'k \<Rightarrow> byte list \<Rightarrow> byte list \<times> 'k"
    and synced :: "'k \<Rightarrow> 'k \<Rightarrow> bool"
  assumes n_pos: "0 < n"
    and enc_length: "synced ke kd \<Longrightarrow> length b = n \<Longrightarrow> length (fst (enc ke b)) = n"
    and dec_enc: "synced ke kd \<Longrightarrow> length b = n \<Longrightarrow> fst (dec kd (fst (enc ke b))) = b"
    and in_step: "synced ke kd \<Longrightarrow> length b = n \<Longrightarrow> synced (snd (enc ke b)) (snd (dec kd (fst (enc ke b))))"
begin

lemma run_decodes:
  "synced ke kd \<Longrightarrow> length xs mod n = 0 \<Longrightarrow> run_blocks n enc ke xs = (cs, ke', r) \<Longrightarrow>
   r = [] \<and> length cs = length xs \<and> (\<exists>kd'. run_blocks n dec kd cs = (xs, kd', []) \<and> synced ke' kd')"
proof (induction "length xs" arbitrary: ke kd xs cs rule: less_induct)
  case less
  show ?case
  proof (cases "length xs < n")
    case True
    with less.prems have "xs = []" by simp
    with less.prems n_pos show ?thesis by auto
  next
    case False
    obtain c k1 where e: "enc ke (take n xs) = (c, k1)" by fastforce
    obtain cs' k2 r' where rec: "run_blocks n enc k1 (drop n xs) = (cs', k2, r')" by (cases "run_blocks n enc k1 (drop n xs)")
    with less.prems(3) False e n_pos have eq: "cs = c @ cs'" "k2 = ke'" "r' = r"
      by (simp_all add: run_blocks.simps [of n enc ke xs])
    have l: "length (take n xs) = n" using False by simp
    have d: "length c = n" "dec kd c = (take n xs, snd (dec kd c))" "synced k1 (snd (dec kd c))"
      using enc_length [OF less.prems(1) l] dec_enc [OF less.prems(1) l] in_step [OF less.prems(1) l]
      by (simp_all add: e prod_eq_iff)
    have "length (drop n xs) mod n = 0" using less.prems(2) False by (simp add: le_mod_geq)
    from less.hyps [OF _ d(3) this rec [unfolded eq(2,3)]] n_pos False
    have "r = []" "length cs' = length xs - n" and
      "\<exists>kd'. run_blocks n dec (snd (dec kd c)) cs' = (drop n xs, kd', []) \<and> synced ke' kd'" by simp_all
    with d run_blocks_block [where f = dec and k = kd and b = c, OF n_pos d(1) d(2)] False show ?thesis by (auto simp: eq(1))
  qed
qed

end

section \<open>The filter\<close>

record ('s, 'k) cipher =
  ci_rNext :: 's
  ci_aReadBuf :: "byte list"
  ci_aWriteBuf :: "byte list"
  ci_iReadBufFill :: int
  ci_iReadBufPos :: int
  ci_iWriteBufFill :: int
  ci_coder :: 'k

text \<open>The arrays of a new object hold arbitrary bytes.\<close>

definition ci_new :: "'s \<Rightarrow> byte list \<Rightarrow> byte list \<Rightarrow> 'k \<Rightarrow> ('s, 'k) cipher" where
  "ci_new rNext r w k = \<lparr>ci_rNext = rNext, ci_aReadBuf = r, ci_aWriteBuf = w, ci_iReadBufFill = 0,
     ci_iReadBufPos = 0, ci_iWriteBufFill = 0, ci_coder = k\<rparr>"

text \<open>\<open>decipher( aReadBuf )\<close> and \<open>encipher( aWriteBuf )\<close>, which work in place.\<close>

definition ci_decipher :: "('k \<Rightarrow> byte list \<Rightarrow> byte list \<times> 'k) \<Rightarrow> ('s, 'k) cipher \<Rightarrow> ('s, 'k) cipher" where
  "ci_decipher dec c = c\<lparr>ci_aReadBuf := fst (dec (ci_coder c) (ci_aReadBuf c)), ci_coder := snd (dec (ci_coder c) (ci_aReadBuf c))\<rparr>"

definition ci_encipher :: "('k \<Rightarrow> byte list \<Rightarrow> byte list \<times> 'k) \<Rightarrow> ('s, 'k) cipher \<Rightarrow> ('s, 'k) cipher" where
  "ci_encipher enc c = c\<lparr>ci_aWriteBuf := fst (enc (ci_coder c) (ci_aWriteBuf c)), ci_coder := snd (enc (ci_coder c) (ci_aWriteBuf c))\<rparr>"

text \<open>The first half of a round of \<open>read\<close>; the flag is false when the next stream gave nothing.\<close>

definition ci_fill ::
    "nat \<Rightarrow> ('k \<Rightarrow> byte list \<Rightarrow> byte list \<times> 'k) \<Rightarrow> ('s \<Rightarrow> int \<Rightarrow> (byte list \<times> 's) result) \<Rightarrow> ('s, 'k) cipher \<Rightarrow>
     (bool \<times> ('s, 'k) cipher) result" where
  "ci_fill n dec rd c =
     (if ci_iReadBufFill c < int n
      then rbind (rd (ci_rNext c) (int n - ci_iReadBufFill c)) (\<lambda>(bs, s).
           rbind (mem_store (ci_aReadBuf c) (ci_iReadBufFill c) bs) (\<lambda>b.
           let c1 = c\<lparr>ci_rNext := s, ci_aReadBuf := b\<rparr> in
           if bs = [] then Inr (False, c1)
           else let c2 = c1\<lparr>ci_iReadBufFill := ci_iReadBufFill c + int (length bs)\<rparr>
                in Inr (True, if ci_iReadBufFill c2 = int n then ci_decipher dec c2 else c2)))
      else Inr (True, c))"

text \<open>The second half: the part of a full block that fits. A negative count leaves the array.\<close>

definition ci_copy :: "nat \<Rightarrow> int \<Rightarrow> ('s, 'k) cipher \<Rightarrow> (byte list \<times> ('s, 'k) cipher) result" where
  "ci_copy n iLeft c =
     (if ci_iReadBufFill c = int n
      then let iCpy = min (c_int iLeft) (int n - ci_iReadBufPos c) in
           rbind (mem_load (ci_aReadBuf c) (ci_iReadBufPos c) iCpy) (\<lambda>bs.
           let c1 = c\<lparr>ci_iReadBufPos := ci_iReadBufPos c + iCpy\<rparr>
           in Inr (bs, if ci_iReadBufPos c1 = int n then c1\<lparr>ci_iReadBufPos := 0, ci_iReadBufFill := 0\<rparr> else c1))
      else Inr ([], c))"

partial_function (option) ci_read ::
    "nat \<Rightarrow> ('k \<Rightarrow> byte list \<Rightarrow> byte list \<times> 'k) \<Rightarrow> ('s \<Rightarrow> int \<Rightarrow> (byte list \<times> 's) result) \<Rightarrow> ('s, 'k) cipher \<Rightarrow> int \<Rightarrow>
     (byte list \<times> ('s, 'k) cipher) result option" where
  "ci_read n dec rd c iLeft =
     (if 0 < iLeft
      then case ci_fill n dec rd c of Inl e \<Rightarrow> Some (Inl e)
      | Inr bc \<Rightarrow>
          if \<not> fst bc then Some (Inr ([], snd bc))
          else (case ci_copy n iLeft (snd bc) of Inl e \<Rightarrow> Some (Inl e)
          | Inr cp \<Rightarrow> Option.bind (ci_read n dec rd (snd cp) (iLeft - int (length (fst cp))))
              (\<lambda>r. Some (rbind r (\<lambda>x. Inr (fst cp @ fst x, snd x)))))
      else Some (Inr ([], c)))"

text \<open>One round of \<open>write\<close>, and the loop. The answers of the next stream are not looked at.\<close>

definition ci_put ::
    "nat \<Rightarrow> ('k \<Rightarrow> byte list \<Rightarrow> byte list \<times> 'k) \<Rightarrow> ('s \<Rightarrow> byte list \<Rightarrow> (int \<times> 's) result) \<Rightarrow> ('s, 'k) cipher \<Rightarrow> byte list \<Rightarrow>
     ('s, 'k) cipher result" where
  "ci_put n enc wr c bs =
     rbind (mem_store (ci_aWriteBuf c) (ci_iWriteBufFill c) bs) (\<lambda>b.
     let c1 = c\<lparr>ci_aWriteBuf := b, ci_iWriteBufFill := ci_iWriteBufFill c + int (length bs)\<rparr> in
     if ci_iWriteBufFill c1 = int n
     then let c2 = ci_encipher enc c1 in
          rbind (wr (ci_rNext c2) (ci_aWriteBuf c2)) (\<lambda>(k, s). Inr (c2\<lparr>ci_rNext := s, ci_iWriteBufFill := 0\<rparr>))
     else Inr c1)"

partial_function (option) ci_write_loop ::
    "nat \<Rightarrow> ('k \<Rightarrow> byte list \<Rightarrow> byte list \<times> 'k) \<Rightarrow> ('s \<Rightarrow> byte list \<Rightarrow> (int \<times> 's) result) \<Rightarrow> ('s, 'k) cipher \<Rightarrow> byte list \<Rightarrow>
     ('s, 'k) cipher result option" where
  "ci_write_loop n enc wr c bs =
     (if bs = [] then Some (Inr c)
      else let iLeft = min (c_int (int (length bs))) (int n - ci_iWriteBufFill c)
           in if iLeft < 0 then Some (Inl Out_Of_Bounds)
              else case ci_put n enc wr c (take (nat iLeft) bs) of Inl e \<Rightarrow> Some (Inl e)
              | Inr c1 \<Rightarrow> ci_write_loop n enc wr c1 (drop (nat iLeft) bs))"

definition ci_write ::
    "nat \<Rightarrow> ('k \<Rightarrow> byte list \<Rightarrow> byte list \<times> 'k) \<Rightarrow> ('s \<Rightarrow> byte list \<Rightarrow> (int \<times> 's) result) \<Rightarrow> ('s, 'k) cipher \<Rightarrow> byte list \<Rightarrow>
     (int \<times> ('s, 'k) cipher) result option" where
  "ci_write n enc wr c bs = map_option (\<lambda>r. rbind r (\<lambda>c1. Inr (int (length bs), c1))) (ci_write_loop n enc wr c bs)"

definition ci_flush ::
    "nat \<Rightarrow> ('k \<Rightarrow> byte list \<Rightarrow> byte list \<times> 'k) \<Rightarrow> ('s \<Rightarrow> byte list \<Rightarrow> (int \<times> 's) result) \<Rightarrow> ('s \<Rightarrow> 's) \<Rightarrow> ('s, 'k) cipher \<Rightarrow>
     ('s, 'k) cipher result" where
  "ci_flush n enc wr fl c =
     rbind (if ci_iWriteBufFill c > 0 \<and> ci_iWriteBufFill c < int n
       then rbind (mem_store (ci_aWriteBuf c) (ci_iWriteBufFill c) (replicate (nat (int n - ci_iWriteBufFill c)) 0)) (\<lambda>b.
            let c1 = ci_encipher enc (c\<lparr>ci_aWriteBuf := b\<rparr>) in
            rbind (wr (ci_rNext c1) (ci_aWriteBuf c1)) (\<lambda>(k, s). Inr (c1\<lparr>ci_rNext := s, ci_iWriteBufFill := 0\<rparr>)))
       else Inr c) (\<lambda>c1. Inr (c1\<lparr>ci_rNext := fl (ci_rNext c1)\<rparr>))"

definition ci_stop ::
    "nat \<Rightarrow> ('k \<Rightarrow> byte list \<Rightarrow> byte list \<times> 'k) \<Rightarrow> ('s \<Rightarrow> byte list \<Rightarrow> (int \<times> 's) result) \<Rightarrow> ('s \<Rightarrow> 's) \<Rightarrow> ('s, 'k) cipher \<Rightarrow>
     (int \<times> ('s, 'k) cipher) result" where
  "ci_stop n enc wr fl c = rbind (ci_flush n enc wr fl c) (\<lambda>c1. Inr (0, c1))"

section \<open>Writing\<close>

text \<open>The write buffer holds the last bytes, which do not fill a block.\<close>

definition ci_wok :: "nat \<Rightarrow> ('s, 'k) cipher \<Rightarrow> byte list \<Rightarrow> bool" where
  "ci_wok n c r \<longleftrightarrow> length (ci_aWriteBuf c) = n \<and> length r < n \<and> ci_iWriteBufFill c = int (length r) \<and>
     take (length r) (ci_aWriteBuf c) = r"

definition keeps_length :: "nat \<Rightarrow> ('k \<Rightarrow> byte list \<Rightarrow> byte list \<times> 'k) \<Rightarrow> bool" where
  "keeps_length n f \<longleftrightarrow> 0 < n \<and> (\<forall>k b. length b = n \<longrightarrow> length (fst (f k b)) = n)"

text \<open>\<open>flush\<close> completes the last block with zeros.\<close>

definition zero_pad :: "nat \<Rightarrow> byte list \<Rightarrow> byte list" where
  "zero_pad n r = (if r = [] then [] else r @ replicate (n - length r) 0)"

context full_sink begin

lemma ci_put_law:
  assumes "ci_wok n c r" "good (ci_rNext c)" "keeps_length n enc" "length r + length bs \<le> n"
    "run_blocks n enc (ci_coder c) (r @ bs) = (out, k', r')"
  shows "\<exists>c'. ci_put n enc wr c bs = Inr c' \<and> good (ci_rNext c') \<and> ci_wok n c' r' \<and> ci_coder c' = k' \<and>
    written (ci_rNext c') = written (ci_rNext c) @ out"
proof -
  note ok = assms(1) [unfolded ci_wok_def]
  define b where "b = overwrite (ci_aWriteBuf c) (length r) bs"
  have ms: "mem_store (ci_aWriteBuf c) (int (length r)) bs = Inr b"
    using ok assms(4) by (simp add: mem_store_in b_def)
  have b: "length b = n" "take (length r + length bs) b = r @ bs"
    using ok assms(4) by (simp_all add: b_def length_overwrite) (simp add: overwrite_def)
  have n: "0 < n" using assms(3) by (simp add: keeps_length_def)
  show ?thesis
  proof (cases "length r + length bs = n")
    case False
    with assms(4) have "length (r @ bs) < n" by simp
    with assms(5) have e: "out = []" "k' = ci_coder c" "r' = r @ bs" by simp_all
    let ?c = "c\<lparr>ci_aWriteBuf := b, ci_iWriteBufFill := ci_iWriteBufFill c + int (length bs)\<rparr>"
    have "int (length r) + int (length bs) \<noteq> int n" using False by linarith
    then have "ci_put n enc wr c bs = Inr ?c" using ok by (simp add: ci_put_def ms Let_def)
    with ok b False assms(2,4) show ?thesis by (simp add: ci_wok_def e)
  next
    case True
    with b have bb: "b = r @ bs" by simp
    obtain o1 k1 where e1: "enc (ci_coder c) b = (o1, k1)" by fastforce
    have e: "out = o1" "k' = k1" "r' = []"
      using run_blocks_block [where f = enc and k = "ci_coder c" and b = b and xs = "[]" and cs = "[]" and ?k2.0 = k1 and r = "[]", OF n b(1) e1] assms(5) n by (simp_all add: bb)
    have l: "length o1 = n" using assms(3) b(1) e1 unfolding keeps_length_def by (metis fst_conv)
    obtain s where s: "wr (ci_rNext c) o1 = Inr (int (length o1), s)" "good s" "written s = written (ci_rNext c) @ o1"
      using wr_all [OF assms(2)] by blast
    have "int (length r) + int (length bs) = int n" using True by linarith
    with ok l s n show ?thesis by (auto simp: ci_put_def ms Let_def ci_encipher_def e1 e ci_wok_def)
  qed
qed

lemma ci_write_loop_law:
  assumes "keeps_length n enc"
  shows "ci_wok n c r \<Longrightarrow> good (ci_rNext c) \<Longrightarrow> run_blocks n enc (ci_coder c) (r @ bs) = (out, k', r') \<Longrightarrow>
    length bs < 2147483648 \<Longrightarrow> \<exists>c'. ci_write_loop n enc wr c bs = Some (Inr c') \<and> good (ci_rNext c') \<and> ci_wok n c' r' \<and> ci_coder c' = k' \<and>
      written (ci_rNext c') = written (ci_rNext c) @ out"
proof (induction "length bs" arbitrary: bs c r out rule: less_induct)
  case less
  have n: "0 < n" using assms by (simp add: keeps_length_def)
  show ?case
  proof (cases "bs = []")
    case True
    with less.prems show ?thesis by (simp add: ci_write_loop.simps [of n enc wr c] ci_wok_def)
  next
    case False
    note ok = less.prems(1) [unfolded ci_wok_def]
    define j where "j = min (length bs) (n - length r)"
    have j: "0 < j" "j \<le> length bs" "length r + j \<le> n" using False ok by (auto simp: j_def)
    have m: "min (c_int (int (length bs))) (int n - ci_iWriteBufFill c) = int j"
      using ok less.prems(4) by (cases "length bs \<le> n - length r") (auto simp: j_def)
    obtain o1 k1 r1 where r1: "run_blocks n enc (ci_coder c) (r @ take j bs) = (o1, k1, r1)"
      by (cases "run_blocks n enc (ci_coder c) (r @ take j bs)")
    obtain o2 k2 r2 where r2: "run_blocks n enc k1 (r1 @ drop j bs) = (o2, k2, r2)"
      by (cases "run_blocks n enc k1 (r1 @ drop j bs)")
    have e: "out = o1 @ o2" "k' = k2" "r' = r2"
      using run_blocks_append [OF n r1 r2] less.prems(3) by simp_all
    obtain c1 where c1: "ci_put n enc wr c (take j bs) = Inr c1" "good (ci_rNext c1)" "ci_wok n c1 r1" "ci_coder c1 = k1"
      "written (ci_rNext c1) = written (ci_rNext c) @ o1"
      using ci_put_law [OF less.prems(1,2) assms _ r1] j by auto
    have lt: "length (drop j bs) < length bs" using j by simp
    have sm: "length (drop j bs) < 2147483648" using less.prems(4) by simp
    obtain c' where "ci_write_loop n enc wr c1 (drop j bs) = Some (Inr c')" "good (ci_rNext c')" "ci_wok n c' r'"
      "ci_coder c' = k'" "written (ci_rNext c') = written (ci_rNext c1) @ o2"
      using less.hyps [OF lt c1(3,2) _ sm, of o2] r2 c1(4) by (auto simp: e(2,3))
    moreover have "ci_write_loop n enc wr c bs = ci_write_loop n enc wr c1 (drop j bs)"
      using False by (subst ci_write_loop.simps) (simp add: Let_def m c1(1))
    ultimately show ?thesis using c1(5) by (simp add: e)
  qed
qed

lemma ci_flush_law:
  assumes "ci_wok n c r" "good (ci_rNext c)" "keeps_length n enc"
  shows "\<exists>c'. ci_flush n enc wr (\<lambda>s. s) c = Inr c' \<and> good (ci_rNext c') \<and> ci_wok n c' [] \<and>
    ci_coder c' = (if r = [] then ci_coder c else snd (enc (ci_coder c) (zero_pad n r))) \<and>
    written (ci_rNext c') = written (ci_rNext c) @ (if r = [] then [] else fst (enc (ci_coder c) (zero_pad n r)))"
proof (cases "r = []")
  case True
  with assms show ?thesis by (simp add: ci_flush_def ci_wok_def)
next
  case False
  note ok = assms(1) [unfolded ci_wok_def]
  have ms: "mem_store (ci_aWriteBuf c) (int (length r)) (replicate (n - length r) 0) = Inr (zero_pad n r)"
    using ok False by (simp add: mem_store_in overwrite_def zero_pad_def)
  have lz: "length (zero_pad n r) = n" using ok False by (simp add: zero_pad_def)
  obtain o1 k1 where e1: "enc (ci_coder c) (zero_pad n r) = (o1, k1)" by fastforce
  have l: "length o1 = n" using assms(3) lz e1 unfolding keeps_length_def by (metis fst_conv)
  obtain s where s: "wr (ci_rNext c) o1 = Inr (int (length o1), s)" "good s" "written s = written (ci_rNext c) @ o1"
    using wr_all [OF assms(2)] by blast
  have "ci_flush n enc wr (\<lambda>s. s) c =
      Inr (c\<lparr>ci_aWriteBuf := o1, ci_coder := k1, ci_rNext := s, ci_iWriteBufFill := 0\<rparr>)"
    using ok False by (simp add: ci_flush_def nat_diff_distrib ms Let_def ci_encipher_def e1 s(1))
  with ok False l s e1 show ?thesis by (auto simp: ci_wok_def)
qed

end

section \<open>Reading\<close>

text \<open>
  \<open>ci_rok n c\<close>: the read buffer holds the first bytes of a block that is not complete, or a
  deciphered block of which some bytes have been given. \<open>ci_plain\<close> is what the reader will give.
\<close>

definition ci_rok :: "nat \<Rightarrow> ('s, 'k) cipher \<Rightarrow> bool" where
  "ci_rok n c \<longleftrightarrow> length (ci_aReadBuf c) = n \<and> 0 \<le> ci_iReadBufFill c \<and> ci_iReadBufFill c \<le> int n \<and>
     0 \<le> ci_iReadBufPos c \<and> ci_iReadBufPos c < int n \<and> (ci_iReadBufFill c < int n \<longrightarrow> ci_iReadBufPos c = 0)"

definition ci_plain :: "nat \<Rightarrow> ('k \<Rightarrow> byte list \<Rightarrow> byte list \<times> 'k) \<Rightarrow> byte list \<Rightarrow> ('s, 'k) cipher \<Rightarrow> byte list" where
  "ci_plain n dec pend c =
     (if ci_iReadBufFill c = int n
      then drop (nat (ci_iReadBufPos c)) (ci_aReadBuf c) @ fst (run_blocks n dec (ci_coder c) pend)
      else fst (run_blocks n dec (ci_coder c) (take (nat (ci_iReadBufFill c)) (ci_aReadBuf c) @ pend)))"

context byte_source begin

lemma ci_fill_law:
  assumes "ci_rok n c" "good (ci_rNext c)" "keeps_length n dec"
  shows "\<exists>b c'. ci_fill n dec rd c = Inr (b, c') \<and> good (ci_rNext c') \<and> ci_rok n c' \<and>
    ci_plain n dec (pending (ci_rNext c')) c' = ci_plain n dec (pending (ci_rNext c)) c \<and>
    length (pending (ci_rNext c')) \<le> length (pending (ci_rNext c)) \<and>
    (if b then ci_iReadBufFill c' = int n \<or> length (pending (ci_rNext c')) < length (pending (ci_rNext c))
     else ci_plain n dec (pending (ci_rNext c)) c = [])"
proof (cases "ci_iReadBufFill c < int n")
  case False
  with assms show ?thesis by (auto simp: ci_fill_def ci_rok_def)
next
  case True
  note ok = assms(1) [unfolded ci_rok_def]
  have n: "0 < n" using assms(3) by (simp add: keeps_length_def)
  define q where "q = nat (ci_iReadBufFill c)"
  have q: "ci_iReadBufFill c = int q" "q < n" "ci_iReadBufPos c = 0" using ok True by (auto simp: q_def)
  obtain bs s where r: "rd (ci_rNext c) (int n - int q) = Inr (bs, s)" "good s" "pending (ci_rNext c) = bs @ pending s"
    "length bs \<le> n - q" "pending (ci_rNext c) \<noteq> [] \<longrightarrow> bs \<noteq> []"
    using rd_law [OF assms(2), of "int n - int q"] q(2) by auto
  define b where "b = overwrite (ci_aReadBuf c) q bs"
  have ms: "mem_store (ci_aReadBuf c) (int q) bs = Inr b" using ok q r(4) by (simp add: mem_store_in b_def)
  have b: "length b = n" "take (q + length bs) b = take q (ci_aReadBuf c) @ bs"
    using ok q r(4) by (simp_all add: b_def length_overwrite) (simp add: overwrite_def)
  show ?thesis
  proof (cases "bs = []")
    case True
    with r(5) have e: "pending (ci_rNext c) = []" "pending s = []" using r(3) by auto
    let ?c = "c\<lparr>ci_rNext := s, ci_aReadBuf := b\<rparr>"
    have "ci_fill n dec rd c = Inr (False, ?c)" using q r(1) ms True by (simp add: ci_fill_def Let_def)
    moreover have "b = ci_aReadBuf c" using ok q True by (simp add: b_def)
    moreover have "ci_plain n dec [] c = []"
      using ok q n by (simp add: ci_plain_def)
    ultimately show ?thesis
      using ok q r(2) e by (intro exI [of _ False] exI [of _ ?c]) (simp add: ci_rok_def ci_plain_def)
  next
    case False
    let ?c2 = "c\<lparr>ci_rNext := s, ci_aReadBuf := b, ci_iReadBufFill := int q + int (length bs)\<rparr>"
    have lt: "length (pending s) < length (pending (ci_rNext c))" using r(3) False by simp
    show ?thesis
    proof (cases "q + length bs = n")
      case True
      then have t: "int q + int (length bs) = int n" by linarith
      obtain p k1 where d: "dec (ci_coder c) b = (p, k1)" by fastforce
      have lp: "length p = n" using assms(3) b(1) d unfolding keeps_length_def by (metis fst_conv)
      have f: "ci_fill n dec rd c = Inr (True, ci_decipher dec ?c2)"
        using q r(1) ms False t by (simp add: ci_fill_def Let_def)
      have bb: "take q (ci_aReadBuf c) @ pending (ci_rNext c) = b @ pending s"
        using b True r(3) by (metis append_assoc take_all order_refl)
      have "fst (run_blocks n dec (ci_coder c) (b @ pending s)) = p @ fst (run_blocks n dec k1 (pending s))"
        using run_blocks_block [where f = dec and k = "ci_coder c" and b = b and xs = "pending s", OF n b(1) d]
        by (cases "run_blocks n dec k1 (pending s)") simp
      with f q r(2) t lp n bb lt show ?thesis
        by (intro exI [of _ True] exI [of _ "ci_decipher dec ?c2"])
          (simp add: ci_decipher_def d ci_rok_def ci_plain_def)
    next
      case part: False
      then have t: "int q + int (length bs) \<noteq> int n" "int q + int (length bs) < int n" using r(4) q(2) by linarith+
      have f: "ci_fill n dec rd c = Inr (True, ?c2)" using q r(1) ms False t by (simp add: ci_fill_def Let_def)
      have "take (nat (int q + int (length bs))) b = take q (ci_aReadBuf c) @ bs" using b(2) by (simp add: nat_add_distrib)
      with f q r(2,3) t n b(1) lt ok show ?thesis
        by (intro exI [of _ True] exI [of _ ?c2]) (simp add: ci_rok_def ci_plain_def)
    qed
  qed
qed

lemma ci_copy_law:
  assumes "ci_rok n c" "ci_iReadBufFill c = int n" "0 < m" "0 < n" "m < 2147483648"
  shows "\<exists>bs c'. ci_copy n (int m) c = Inr (bs, c') \<and> ci_rNext c' = ci_rNext c \<and> ci_rok n c' \<and> bs \<noteq> [] \<and> length bs \<le> m \<and>
    (\<forall>pend. ci_plain n dec pend c = bs @ ci_plain n dec pend c')"
proof -
  note ok = assms(1) [unfolded ci_rok_def]
  define p where "p = nat (ci_iReadBufPos c)"
  have p: "ci_iReadBufPos c = int p" "p < n" using ok by (auto simp: p_def)
  define j where "j = min m (n - p)"
  have j: "min (c_int (int m)) (int n - int p) = int j" "0 < j" "p + j \<le> n" "j \<le> m"
    using assms(3,5) p by (auto simp: j_def)
  let ?bs = "take j (drop p (ci_aReadBuf c))"
  have l: "mem_load (ci_aReadBuf c) (int p) (int j) = Inr ?bs" using ok j(3) by (simp add: mem_load_def)
  have lb: "length ?bs = j" using ok j by simp
  have d: "drop p (ci_aReadBuf c) = ?bs @ drop (p + j) (ci_aReadBuf c)"
    by (metis append_take_drop_id drop_drop add.commute)
  show ?thesis
  proof (cases "p + j = n")
    case True
    then have t: "int p + int j = int n" by linarith
    let ?c = "c\<lparr>ci_iReadBufPos := 0, ci_iReadBufFill := 0\<rparr>"
    have "ci_copy n (int m) c = Inr (?bs, ?c)"
      unfolding ci_copy_def Let_def p(1) j(1) l rbind_Inr by (simp add: t assms(2))
    moreover have "drop (p + j) (ci_aReadBuf c) = []" using True ok by simp
    ultimately show ?thesis
      using ok assms(2,4) p j lb d by (intro exI [of _ ?bs] exI [of _ ?c]) (auto simp: ci_rok_def ci_plain_def)
  next
    case False
    then have t: "int p + int j \<noteq> int n" by linarith
    let ?c = "c\<lparr>ci_iReadBufPos := int p + int j\<rparr>"
    have "ci_copy n (int m) c = Inr (?bs, ?c)"
      unfolding ci_copy_def Let_def p(1) j(1) l rbind_Inr by (simp add: t assms(2))
    moreover have "nat (int p + int j) = p + j" by linarith
    ultimately show ?thesis
      using ok assms(2,4) p j lb d False by (intro exI [of _ ?bs] exI [of _ ?c]) (auto simp: ci_rok_def ci_plain_def)
  qed
qed

text \<open>A read gives as many bytes as it is asked for, or all there are.\<close>

lemma ci_read_law:
  assumes "keeps_length n dec"
  shows "ci_rok n c \<Longrightarrow> good (ci_rNext c) \<Longrightarrow> m < 2147483648 \<Longrightarrow>
    \<exists>c'. ci_read n dec rd c (int m) = Some (Inr (take m (ci_plain n dec (pending (ci_rNext c)) c), c')) \<and>
      ci_rok n c' \<and> good (ci_rNext c') \<and>
      ci_plain n dec (pending (ci_rNext c')) c' = drop m (ci_plain n dec (pending (ci_rNext c)) c)"
proof (induction "m + length (pending (ci_rNext c))" arbitrary: m c rule: less_induct)
  case less
  note ok = less.prems(1) and g = less.prems(2)
  have n: "0 < n" using assms by (simp add: keeps_length_def)
  show ?case
  proof (cases "m = 0")
    case True
    with ok g show ?thesis by (simp add: ci_read.simps)
  next
    case m: False
    obtain b c1 where f: "ci_fill n dec rd c = Inr (b, c1)" "good (ci_rNext c1)" "ci_rok n c1"
      "ci_plain n dec (pending (ci_rNext c1)) c1 = ci_plain n dec (pending (ci_rNext c)) c"
      "length (pending (ci_rNext c1)) \<le> length (pending (ci_rNext c))"
      "if b then ci_iReadBufFill c1 = int n \<or> length (pending (ci_rNext c1)) < length (pending (ci_rNext c))
       else ci_plain n dec (pending (ci_rNext c)) c = []"
      using ci_fill_law [OF ok g assms] by (elim exE conjE) (rule that)
    show ?thesis
    proof (cases b)
      case False
      with f m show ?thesis by (intro exI [of _ c1]) (simp add: ci_read.simps [of n dec rd c])
    next
      case True
      show ?thesis
      proof (cases "ci_iReadBufFill c1 = int n")
        case full: True
        obtain bs c2 where cp: "ci_copy n (int m) c1 = Inr (bs, c2)" "ci_rNext c2 = ci_rNext c1" "ci_rok n c2" "bs \<noteq> []"
          "length bs \<le> m" "\<forall>pend. ci_plain n dec pend c1 = bs @ ci_plain n dec pend c2"
          using ci_copy_law [OF f(3) full _ n less.prems(3), of dec] m by auto
        have "0 < length bs" using cp(4) by simp
        then have lt: "m - length bs + length (pending (ci_rNext c2)) < m + length (pending (ci_rNext c))"
          using f(5) cp(5) unfolding cp(2) by linarith
        have g2: "good (ci_rNext c2)" using f(2) cp(2) by simp
        have sm: "m - length bs < 2147483648" using less.prems(3) by simp
        obtain c' where c': "ci_read n dec rd c2 (int (m - length bs)) =
            Some (Inr (take (m - length bs) (ci_plain n dec (pending (ci_rNext c2)) c2), c'))" "ci_rok n c'" "good (ci_rNext c')"
          "ci_plain n dec (pending (ci_rNext c')) c' = drop (m - length bs) (ci_plain n dec (pending (ci_rNext c2)) c2)"
          using less.hyps [OF lt cp(3) g2 sm] by (elim exE conjE) (rule that)
        have i: "int m - int (length bs) = int (m - length bs)" using cp(5) by simp
        have f1: "ci_fill n dec rd c = Inr (True, c1)" using f(1) True by simp
        have pl: "ci_plain n dec (pending (ci_rNext c)) c = bs @ ci_plain n dec (pending (ci_rNext c2)) c2"
          using f(4) cp(6) unfolding cp(2) by metis
        have "ci_read n dec rd c (int m) = Some (Inr (bs @ take (m - length bs) (ci_plain n dec (pending (ci_rNext c2)) c2), c'))"
          using m by (subst ci_read.simps) (simp add: f1 cp(1) i c'(1) del: of_nat_diff)
        with c' cp(5) show ?thesis unfolding pl by (intro exI [of _ c']) simp
      next
        case False
        have cp: "ci_copy n (int m) c1 = Inr ([], c1)" using False by (simp add: ci_copy_def)
        have lt: "m + length (pending (ci_rNext c1)) < m + length (pending (ci_rNext c))"
          using f(6) True False by simp
        obtain c' where c': "ci_read n dec rd c1 (int m) =
            Some (Inr (take m (ci_plain n dec (pending (ci_rNext c1)) c1), c'))" "ci_rok n c'" "good (ci_rNext c')"
          "ci_plain n dec (pending (ci_rNext c')) c' = drop m (ci_plain n dec (pending (ci_rNext c1)) c1)"
          using less.hyps [OF lt f(3,2) less.prems(3)] by (elim exE conjE) (rule that)
        with cp f True m show ?thesis
          by (intro exI [of _ c']) (simp add: ci_read.simps [of n dec rd c])
      qed
    qed
  qed
qed

end

text \<open>
  From \<open>2^31\<close> bytes on the cast to \<open>int\<close> is negative: a write, and a read with a deciphered block
  in the buffer, call \<open>memcpy\<close> with a negative count.
\<close>

lemma ci_write_huge:
  assumes "2147483648 \<le> length bs" "length bs < 4294967296"
  shows "ci_write n enc wr c bs = Some (Inl Out_Of_Bounds)"
proof -
  have "min (c_int (int (length bs))) (int n - ci_iWriteBufFill c) < 0"
    using assms by (simp add: c_int_negative min_less_iff_disj)
  moreover have "bs \<noteq> []" using assms by auto
  ultimately have "ci_write_loop n enc wr c bs = Some (Inl Out_Of_Bounds)"
    by (subst ci_write_loop.simps) (simp add: Let_def)
  then show ?thesis by (simp add: ci_write_def)
qed

lemma ci_read_huge:
  assumes "2147483648 \<le> m" "m < 4294967296" "ci_iReadBufFill c = int n"
  shows "ci_read n dec rd c m = Some (Inl Out_Of_Bounds)"
proof -
  have "min (c_int m) (int n - ci_iReadBufPos c) < 0"
    using assms by (simp add: c_int_negative min_less_iff_disj)
  then have "mem_load (ci_aReadBuf c) (ci_iReadBufPos c) (min (c_int m) (int n - ci_iReadBufPos c)) = Inl Out_Of_Bounds"
    unfolding mem_load_def by (simp only: not_le [symmetric] if_False simp_thms)
  then have "ci_copy n m c = Inl Out_Of_Bounds" using assms(3) by (simp add: ci_copy_def Let_def)
  moreover have "ci_fill n dec rd c = Inr (True, c)" using assms(3) by (simp add: ci_fill_def)
  ultimately show ?thesis using assms(1) by (subst ci_read.simps) simp
qed

section \<open>Clients that write and read in chunks\<close>

fun ci_writes ::
    "nat \<Rightarrow> ('k \<Rightarrow> byte list \<Rightarrow> byte list \<times> 'k) \<Rightarrow> ('s \<Rightarrow> byte list \<Rightarrow> (int \<times> 's) result) \<Rightarrow> ('s, 'k) cipher \<Rightarrow>
     byte list list \<Rightarrow> ('s, 'k) cipher result option" where
  "ci_writes n enc wr c [] = Some (Inr c)"
| "ci_writes n enc wr c (x # xs) = obind (ci_write n enc wr c x) (\<lambda>(k, c1). ci_writes n enc wr c1 xs)"

fun ci_reads ::
    "nat \<Rightarrow> ('k \<Rightarrow> byte list \<Rightarrow> byte list \<times> 'k) \<Rightarrow> ('s \<Rightarrow> int \<Rightarrow> (byte list \<times> 's) result) \<Rightarrow> ('s, 'k) cipher \<Rightarrow> nat list \<Rightarrow>
     byte list list result option" where
  "ci_reads n dec rd c [] = Some (Inr [])"
| "ci_reads n dec rd c (m # ms) = obind (ci_read n dec rd c (int m)) (\<lambda>(bs, c1).
     map_option (\<lambda>r. rbind r (\<lambda>bss. Inr (bs # bss))) (ci_reads n dec rd c1 ms))"

definition zero_fill :: "nat \<Rightarrow> byte list \<Rightarrow> byte list" where
  "zero_fill n xs = xs @ replicate ((n - length xs mod n) mod n) 0"

lemma length_zero_fill: "0 < n \<Longrightarrow> length (zero_fill n xs) mod n = 0"
proof (cases "length xs mod n = 0")
  case True
  then show ?thesis by (simp add: zero_fill_def)
next
  case False
  assume n: "0 < n"
  have "length xs + (n - length xs mod n) = n * (length xs div n) + n"
    using n mod_less_divisor [of n "length xs"] by (metis add.assoc add_diff_inverse_nat div_mult_mod_eq less_imp_not_less mult.commute)
  with False n show ?thesis by (simp add: zero_fill_def)
qed

lemma run_zero_fill:
  assumes "0 < n" "run_blocks n f k xs = (out, k', r)"
  shows "run_blocks n f k (zero_fill n xs) =
    (out @ (if r = [] then [] else fst (f k' (zero_pad n r))), if r = [] then k' else snd (f k' (zero_pad n r)), [])"
proof -
  have l: "length r = length xs mod n" by (rule run_blocks_rest [OF assms])
  show ?thesis
  proof (cases "r = []")
    case True
    with l assms show ?thesis by (simp add: zero_fill_def)
  next
    case False
    then have "0 < length xs mod n" unfolding l [symmetric] by simp
    then have z: "r @ replicate ((n - length xs mod n) mod n) 0 = zero_pad n r"
      using l assms(1) False by (simp add: zero_pad_def)
    have "length (zero_pad n r) = n" using l assms(1) False by (simp add: zero_pad_def)
    from run_blocks_block [where f = f and k = k' and b = "zero_pad n r" and xs = "[]", OF assms(1) this]
    have "run_blocks n f k' (zero_pad n r) = (fst (f k' (zero_pad n r)), snd (f k' (zero_pad n r)), [])"
      using assms(1) by (metis append_Nil2 length_greater_0_conv list.size(3) prod.collapse run_blocks_short)
    with run_blocks_append [OF assms, of "replicate ((n - length xs mod n) mod n) 0"] False show ?thesis
      by (simp add: zero_fill_def z)
  qed
qed

context full_sink begin

lemma ci_writes_law:
  assumes "keeps_length n enc"
  shows "ci_wok n c r \<Longrightarrow> good (ci_rNext c) \<Longrightarrow> run_blocks n enc (ci_coder c) (r @ concat cs) = (out, k', r') \<Longrightarrow>
    \<forall>x \<in> set cs. length x < 2147483648 \<Longrightarrow>
    \<exists>c'. ci_writes n enc wr c cs = Some (Inr c') \<and> good (ci_rNext c') \<and> ci_wok n c' r' \<and> ci_coder c' = k' \<and>
      written (ci_rNext c') = written (ci_rNext c) @ out"
proof (induction cs arbitrary: c r out)
  case Nil
  then show ?case by (simp add: ci_wok_def)
next
  case (Cons x xs)
  have n: "0 < n" using assms by (simp add: keeps_length_def)
  obtain o1 k1 r1 where r1: "run_blocks n enc (ci_coder c) (r @ x) = (o1, k1, r1)"
    by (cases "run_blocks n enc (ci_coder c) (r @ x)")
  obtain o2 k2 r2 where r2: "run_blocks n enc k1 (r1 @ concat xs) = (o2, k2, r2)"
    by (cases "run_blocks n enc k1 (r1 @ concat xs)")
  have e: "out = o1 @ o2" "k' = k2" "r' = r2" using run_blocks_append [OF n r1 r2] Cons.prems(3) by simp_all
  obtain c1 where c1: "ci_write_loop n enc wr c x = Some (Inr c1)" "good (ci_rNext c1)" "ci_wok n c1 r1" "ci_coder c1 = k1"
    "written (ci_rNext c1) = written (ci_rNext c) @ o1"
    using ci_write_loop_law [OF assms Cons.prems(1,2) r1] Cons.prems(4) by auto
  from Cons.IH [OF c1(3,2), of o2] r2 c1(4) Cons.prems(4) obtain c' where "ci_writes n enc wr c1 xs = Some (Inr c')" "good (ci_rNext c')"
    "ci_wok n c' r'" "ci_coder c' = k'" "written (ci_rNext c') = written (ci_rNext c1) @ o2" by (auto simp: e(2,3))
  with c1 show ?case by (simp add: ci_write_def e(1))
qed

text \<open>All that is written, with the zeros of \<open>stop\<close>, goes to the next stream enciphered.\<close>

lemma ci_stopped:
  assumes "keeps_length n enc" "length w = n" "good s" "\<forall>x \<in> set cs. length x < 2147483648"
  shows "\<exists>c c'. ci_writes n enc wr (ci_new s a w k) cs = Some (Inr c) \<and> ci_stop n enc wr (\<lambda>s. s) c = Inr (0, c') \<and>
    good (ci_rNext c') \<and> written (ci_rNext c') = written s @ fst (run_blocks n enc k (zero_fill n (concat cs)))"
proof -
  have n: "0 < n" using assms(1) by (simp add: keeps_length_def)
  obtain out k' r where r: "run_blocks n enc k (concat cs) = (out, k', r)" by (cases "run_blocks n enc k (concat cs)")
  have new: "ci_wok n (ci_new s a w k) []" "good (ci_rNext (ci_new s a w k))" "ci_coder (ci_new s a w k) = k"
    "ci_rNext (ci_new s a w k) = s" using assms n by (simp_all add: ci_wok_def ci_new_def)
  from r new(3) have "run_blocks n enc (ci_coder (ci_new s a w k)) ([] @ concat cs) = (out, k', r)" by simp
  then obtain c where c: "ci_writes n enc wr (ci_new s a w k) cs = Some (Inr c)" "good (ci_rNext c)" "ci_wok n c r"
    "ci_coder c = k'" "written (ci_rNext c) = written s @ out"
    using ci_writes_law [OF assms(1) new(1,2) _ assms(4)] new(4) by metis
  from ci_flush_law [OF c(3,2) assms(1)] c run_zero_fill [OF n r] show ?thesis
    by (auto simp: ci_stop_def)
qed

end

context byte_source begin

lemma ci_reads_law:
  assumes "keeps_length n dec"
  shows "ci_rok n c \<Longrightarrow> good (ci_rNext c) \<Longrightarrow> \<forall>m \<in> set ms. m < 2147483648 \<Longrightarrow>
    \<exists>bss. ci_reads n dec rd c ms = Some (Inr bss) \<and> concat bss = take (sum_list ms) (ci_plain n dec (pending (ci_rNext c)) c)"
proof (induction ms arbitrary: c)
  case Nil
  then show ?case by simp
next
  case (Cons m ms)
  obtain c1 where c1: "ci_read n dec rd c (int m) = Some (Inr (take m (ci_plain n dec (pending (ci_rNext c)) c), c1))"
    "ci_rok n c1" "good (ci_rNext c1)" "ci_plain n dec (pending (ci_rNext c1)) c1 = drop m (ci_plain n dec (pending (ci_rNext c)) c)"
    using ci_read_law [OF assms Cons.prems(1,2), of m] Cons.prems(3) by auto
  from Cons.IH [OF c1(2,3)] Cons.prems(3) obtain bss where "ci_reads n dec rd c1 ms = Some (Inr bss)"
    "concat bss = take (sum_list ms) (ci_plain n dec (pending (ci_rNext c1)) c1)" by auto
  with c1 show ?case by (simp add: take_add)
qed

lemma ci_reads_new:
  assumes "keeps_length n dec" "length a = n" "good s" "\<forall>m \<in> set ms. m < 2147483648"
  shows "\<exists>bss. ci_reads n dec rd (ci_new s a w k) ms = Some (Inr bss) \<and>
    concat bss = take (sum_list ms) (fst (run_blocks n dec k (pending s)))"
proof -
  have "ci_rok n (ci_new s a w k)" "good (ci_rNext (ci_new s a w k))"
    using assms by (simp_all add: ci_rok_def ci_new_def keeps_length_def)
  from ci_reads_law [OF assms(1) this assms(4)] show ?thesis
    using assms(1) by (simp add: ci_plain_def ci_new_def keeps_length_def)
qed

end

end
