(* ===== verification/Bu_CipherMode.thy ===== *)
theory Bu_CipherMode
  imports Bu_Cipher
begin

text \<open>
  The modes of operation (\<open>src/unstable/ciphermodeecb.h\<close>, \<open>ciphermodecbc.h\<close>, \<open>ciphermodecfb.h\<close>,
  \<open>ciphermodeofb.h\<close>). Each is a class template over the cipher class it derives from: \<open>E\<close> and \<open>D\<close>
  are \<open>CipherType::encipher\<close> and \<open>CipherType::decipher\<close>, functions of the cipher's key and a block.
\<close>

section \<open>The model\<close>

record 'k mode =
  cm_cipher :: 'k
  cm_bStart :: bool
  cm_aVector :: "byte list"

definition cm_new :: "nat \<Rightarrow> 'k \<Rightarrow> 'k mode" where
  "cm_new n k = \<lparr>cm_cipher = k, cm_bStart = True, cm_aVector = replicate n 0\<rparr>"

text \<open>\<open>setIv\<close> copies \<open>iBlockSize\<close> bytes, however long the string is.\<close>

definition cm_setIv :: "nat \<Rightarrow> 'k mode \<Rightarrow> byte list \<Rightarrow> 'k mode result" where
  "cm_setIv n m sIv = rbind (mem_load sIv 0 (int n)) (\<lambda>v. Inr (m\<lparr>cm_aVector := v\<rparr>))"

text \<open>The loop that combines a buffer with the vector.\<close>

definition xor_with :: "nat \<Rightarrow> byte list \<Rightarrow> byte list \<Rightarrow> byte list" where
  "xor_with n b v = map (\<lambda>j. b ! j XOR v ! j) [0..<n]"

definition ecb_encipher :: "('k \<Rightarrow> byte list \<Rightarrow> byte list) \<Rightarrow> 'k mode \<Rightarrow> byte list \<Rightarrow> byte list \<times> 'k mode" where
  "ecb_encipher E m b = (E (cm_cipher m) b, m)"

definition ecb_decipher :: "('k \<Rightarrow> byte list \<Rightarrow> byte list) \<Rightarrow> 'k mode \<Rightarrow> byte list \<Rightarrow> byte list \<times> 'k mode" where
  "ecb_decipher D m b = (D (cm_cipher m) b, m)"

definition cbc_encipher :: "nat \<Rightarrow> ('k \<Rightarrow> byte list \<Rightarrow> byte list) \<Rightarrow> 'k mode \<Rightarrow> byte list \<Rightarrow> byte list \<times> 'k mode" where
  "cbc_encipher n E m b =
     (let c = E (cm_cipher m) (xor_with n b (cm_aVector m)) in (c, m\<lparr>cm_aVector := c\<rparr>))"

definition cbc_decipher :: "nat \<Rightarrow> ('k \<Rightarrow> byte list \<Rightarrow> byte list) \<Rightarrow> 'k mode \<Rightarrow> byte list \<Rightarrow> byte list \<times> 'k mode" where
  "cbc_decipher n D m b = (xor_with n (D (cm_cipher m) b) (cm_aVector m), m\<lparr>cm_aVector := b\<rparr>)"

definition cfb_encipher :: "nat \<Rightarrow> ('k \<Rightarrow> byte list \<Rightarrow> byte list) \<Rightarrow> 'k mode \<Rightarrow> byte list \<Rightarrow> byte list \<times> 'k mode" where
  "cfb_encipher n E m b =
     (let c = xor_with n b (E (cm_cipher m) (cm_aVector m)) in (c, m\<lparr>cm_aVector := c\<rparr>))"

definition cfb_decipher :: "nat \<Rightarrow> ('k \<Rightarrow> byte list \<Rightarrow> byte list) \<Rightarrow> 'k mode \<Rightarrow> byte list \<Rightarrow> byte list \<times> 'k mode" where
  "cfb_decipher n E m b = (xor_with n b (E (cm_cipher m) (cm_aVector m)), m\<lparr>cm_aVector := b\<rparr>)"

definition ofb_encipher :: "nat \<Rightarrow> ('k \<Rightarrow> byte list \<Rightarrow> byte list) \<Rightarrow> 'k mode \<Rightarrow> byte list \<Rightarrow> byte list \<times> 'k mode" where
  "ofb_encipher n E m b =
     (let v = E (cm_cipher m) (cm_aVector m) in (xor_with n b v, m\<lparr>cm_aVector := v\<rparr>))"

definition ofb_decipher :: "nat \<Rightarrow> ('k \<Rightarrow> byte list \<Rightarrow> byte list) \<Rightarrow> 'k mode \<Rightarrow> byte list \<Rightarrow> byte list \<times> 'k mode" where
  "ofb_decipher n E m b =
     (let v = E (cm_cipher m) (cm_aVector m) in (xor_with n b v, m\<lparr>cm_aVector := v\<rparr>))"

text \<open>The four class templates as one choice.\<close>

datatype block_mode = Ecb | Cbc | Cfb | Ofb

fun mode_encipher :: "block_mode \<Rightarrow> nat \<Rightarrow> ('k \<Rightarrow> byte list \<Rightarrow> byte list) \<Rightarrow> 'k mode \<Rightarrow> byte list \<Rightarrow> byte list \<times> 'k mode" where
  "mode_encipher Ecb n E = ecb_encipher E"
| "mode_encipher Cbc n E = cbc_encipher n E"
| "mode_encipher Cfb n E = cfb_encipher n E"
| "mode_encipher Ofb n E = ofb_encipher n E"

fun mode_decipher ::
    "block_mode \<Rightarrow> nat \<Rightarrow> ('k \<Rightarrow> byte list \<Rightarrow> byte list) \<Rightarrow> ('k \<Rightarrow> byte list \<Rightarrow> byte list) \<Rightarrow> 'k mode \<Rightarrow> byte list \<Rightarrow>
     byte list \<times> 'k mode" where
  "mode_decipher Ecb n E D = ecb_decipher D"
| "mode_decipher Cbc n E D = cbc_decipher n D"
| "mode_decipher Cfb n E D = cfb_decipher n E"
| "mode_decipher Ofb n E D = ofb_decipher n E"

section \<open>A permutation of blocks codes in every mode\<close>

lemma length_xor_with [simp]: "length (xor_with n b v) = n"
  by (simp add: xor_with_def)

lemma xor_with_twice [simp]: "length b = n \<Longrightarrow> xor_with n (xor_with n b v) v = b"
  by (rule nth_equalityI) (simp_all add: xor_with_def xor.assoc)

definition cm_synced :: "nat \<Rightarrow> 'k mode \<Rightarrow> 'k mode \<Rightarrow> bool" where
  "cm_synced n ke kd \<longleftrightarrow> ke = kd \<and> length (cm_aVector ke) = n"

locale block_permutation =
  fixes n :: nat
    and E D :: "'k \<Rightarrow> byte list \<Rightarrow> byte list"
  assumes size_pos: "0 < n"
    and E_length: "length b = n \<Longrightarrow> length (E k b) = n"
    and D_length: "length b = n \<Longrightarrow> length (D k b) = n"
    and D_E: "length b = n \<Longrightarrow> D k (E k b) = b"
begin

lemma ecb_coder: "block_coder n (ecb_encipher E) (ecb_decipher D) (cm_synced n)"
  by unfold_locales (auto simp: ecb_encipher_def ecb_decipher_def cm_synced_def size_pos E_length D_E)

lemma cbc_coder: "block_coder n (cbc_encipher n E) (cbc_decipher n D) (cm_synced n)"
  by unfold_locales (auto simp: cbc_encipher_def cbc_decipher_def cm_synced_def size_pos E_length D_E Let_def)

lemma cfb_coder: "block_coder n (cfb_encipher n E) (cfb_decipher n E) (cm_synced n)"
  by unfold_locales (auto simp: cfb_encipher_def cfb_decipher_def cm_synced_def size_pos Let_def)

lemma ofb_coder: "block_coder n (ofb_encipher n E) (ofb_decipher n E) (cm_synced n)"
  by unfold_locales (auto simp: ofb_encipher_def ofb_decipher_def cm_synced_def size_pos E_length Let_def)

lemma keeps_length_encipher: "keeps_length n (mode_encipher md n E)"
  by (cases md) (auto simp: keeps_length_def size_pos E_length ecb_encipher_def cbc_encipher_def cfb_encipher_def
    ofb_encipher_def Let_def)

lemma keeps_length_decipher: "keeps_length n (mode_decipher md n E D)"
  by (cases md) (auto simp: keeps_length_def size_pos D_length ecb_decipher_def cbc_decipher_def cfb_decipher_def
    ofb_decipher_def Let_def)

end

sublocale block_permutation \<subseteq> coder: block_coder n "mode_encipher md n E" "mode_decipher md n E D" "cm_synced n" for md
  by (cases md) (simp_all add: ecb_coder cbc_coder cfb_coder ofb_coder)

end
