(* ===== verification/Bu_Csv.thy ===== *)
theory Bu_Csv
  imports Bu_Stream
begin

text \<open>
  \<open>Bu::CsvWriter\<close> and \<open>Bu::CsvReader\<close> (\<open>src/stable/csvwriter.cpp\<close>, \<open>csvreader.cpp\<close>). A string is its
  list of bytes, an iterator into it the bytes from its position on, and an iterator is at the end
  when there are none. The encoder and the decoder are the signals the two classes hold.
\<close>

section \<open>The writer\<close>

datatype csv_style = styleExcel | styleC

definition encodeExcel :: "byte list \<Rightarrow> byte list" where
  "encodeExcel sIn =
     (if 34 \<in> set sIn \<or> 44 \<in> set sIn
      then 34 # concat (map (\<lambda>c. if c = 34 then [34, 34] else [c]) sIn) @ [34]
      else sIn)"

definition encodeC :: "byte list \<Rightarrow> byte list" where
  "encodeC sIn = concat (map (\<lambda>c. if c = 44 then [92, 44] else [c]) sIn)"

text \<open>The constructor connects the same encoder for both styles.\<close>

fun csv_sEncode :: "csv_style \<Rightarrow> byte list \<Rightarrow> byte list" where
  "csv_sEncode styleExcel = encodeExcel"
| "csv_sEncode styleC = encodeExcel"

fun csv_join :: "(byte list \<Rightarrow> byte list) \<Rightarrow> bool \<Rightarrow> byte list list \<Rightarrow> byte list" where
  "csv_join sEncode first [] = []"
| "csv_join sEncode first (s # ss) = (if first then [] else [44]) @ sEncode s @ csv_join sEncode False ss"

definition csv_writeLine ::
    "(byte list \<Rightarrow> byte list) \<Rightarrow> ('s \<Rightarrow> byte list \<Rightarrow> (int \<times> 's) result) \<Rightarrow> 's \<Rightarrow> byte list list \<Rightarrow> 's result" where
  "csv_writeLine sEncode wr sOut aStrs = rbind (wr sOut (csv_join sEncode True aStrs @ [10])) (\<lambda>(n, s). Inr s)"

section \<open>The reader\<close>

definition is_blank :: "byte \<Rightarrow> bool" where
  "is_blank c \<longleftrightarrow> c = 32 \<or> c = 9"

text \<open>The loop behind an opening quote, and the one of a field without quotes.\<close>

fun csv_quoted :: "byte list \<Rightarrow> byte list \<times> byte list" where
  "csv_quoted [] = ([], [])"
| "csv_quoted (c # i) =
     (if c = 34
      then (case i of [] \<Rightarrow> ([], [])
            | d # i' \<Rightarrow> if d = 34 then (let (s, r) = csv_quoted i' in (34 # s, r)) else ([], i))
      else let (s, r) = csv_quoted i in (c # s, r))"

fun csv_plain :: "byte list \<Rightarrow> byte list \<times> byte list" where
  "csv_plain [] = ([], [])"
| "csv_plain (c # i) = (if c = 44 then ([], c # i) else let (s, r) = csv_plain i in (c # s, r))"

definition decodeExcel :: "byte list \<Rightarrow> byte list \<times> byte list" where
  "decodeExcel i0 =
     (case dropWhile is_blank i0 of [] \<Rightarrow> ([], [])
      | c # i \<Rightarrow> if c = 34 then csv_quoted i else csv_plain (c # i))"

definition decodeC :: "byte list \<Rightarrow> byte list \<times> byte list" where
  "decodeC i = ([], i)"

fun csv_sDecode :: "csv_style \<Rightarrow> byte list \<Rightarrow> byte list \<times> byte list" where
  "csv_sDecode styleExcel = decodeExcel"
| "csv_sDecode styleC = decodeC"

text \<open>The loop of \<open>readLine\<close> behind the first field. A decoder that is passed in may never let it end.\<close>

partial_function (option) csv_fields ::
    "(byte list \<Rightarrow> byte list \<times> byte list) \<Rightarrow> byte list \<Rightarrow> byte list list option" where
  "csv_fields sDecode i =
     (case i of [] \<Rightarrow> Some []
      | c # i' \<Rightarrow>
          if c = 44
          then (if i' = [] then Some [[]]
                else Option.bind (csv_fields sDecode (snd (sDecode i'))) (\<lambda>vs. Some (fst (sDecode i') # vs)))
          else csv_fields sDecode i')"

definition csv_line :: "(byte list \<Rightarrow> byte list \<times> byte list) \<Rightarrow> byte list \<Rightarrow> byte list list option" where
  "csv_line sDecode sLine =
     (if sLine = [] then Some []
      else map_option (\<lambda>vs. fst (sDecode sLine) # vs) (csv_fields sDecode (snd (sDecode sLine))))"

definition csv_readLine ::
    "(byte list \<Rightarrow> byte list \<times> byte list) \<Rightarrow> ('s \<Rightarrow> int \<Rightarrow> (byte list \<times> 's) result) \<Rightarrow> 's \<Rightarrow>
     (byte list list \<times> 's) result option" where
  "csv_readLine sDecode rd sIn =
     obind (stream_readLine rd sIn) (\<lambda>(sLine, s). map_option (\<lambda>vs. Inr (vs, s)) (csv_line sDecode sLine))"

section \<open>One field\<close>

text \<open>What a field looks like after it has been written and read: unquoted fields lose leading blanks.\<close>

definition csv_kept :: "byte list \<Rightarrow> byte list" where
  "csv_kept s = (if 34 \<in> set s \<or> 44 \<in> set s then s else dropWhile is_blank s)"

text \<open>Behind a field the line is at its end or at a comma.\<close>

definition at_comma :: "byte list \<Rightarrow> bool" where
  "at_comma r \<longleftrightarrow> (case r of [] \<Rightarrow> True | c # r' \<Rightarrow> c = 44)"

lemma csv_quoted_encoded:
  "at_comma r \<Longrightarrow> csv_quoted (concat (map (\<lambda>c. if c = 34 then [34, 34] else [c]) s) @ 34 # r) = (s, r)"
  by (induction s) (auto simp: at_comma_def split: list.splits)

lemma csv_plain_encoded: "at_comma r \<Longrightarrow> 44 \<notin> set s \<Longrightarrow> csv_plain (s @ r) = (s, r)"
  by (induction s) (auto simp: at_comma_def split: list.splits)

lemma dropWhile_blank_append:
  "at_comma r \<Longrightarrow> dropWhile is_blank (s @ r) = dropWhile is_blank s @ r"
  by (induction s) (auto simp: at_comma_def is_blank_def split: list.splits)

lemma decode_encode:
  assumes "at_comma r"
  shows "decodeExcel (encodeExcel s @ r) = (csv_kept s, r)"
proof (cases "34 \<in> set s \<or> 44 \<in> set s")
  case True
  then show ?thesis
    using csv_quoted_encoded [OF assms, of s]
    by (simp add: decodeExcel_def encodeExcel_def csv_kept_def is_blank_def)
next
  case False
  let ?d = "dropWhile is_blank s"
  have d: "34 \<notin> set ?d" "44 \<notin> set ?d" using False by (auto dest: set_dropWhileD)
  have e: "csv_plain (?d @ r) = (?d, r)" using csv_plain_encoded [OF assms d(2)] .
  show ?thesis
  proof (cases "?d @ r")
    case Nil
    then have "?d = []" "r = []" by (simp_all del: dropWhile_eq_Nil_conv)
    with False show ?thesis
      by (simp add: decodeExcel_def encodeExcel_def csv_kept_def dropWhile_blank_append [OF assms] del: dropWhile_eq_Nil_conv)
  next
    case (Cons c i)
    have "c \<noteq> 34" using Cons d(1) assms by (cases ?d) (auto simp: at_comma_def)
    with False Cons e show ?thesis
      by (simp add: decodeExcel_def encodeExcel_def csv_kept_def dropWhile_blank_append [OF assms])
  qed
qed

lemma csv_fields_join: "csv_fields decodeExcel (csv_join encodeExcel False ss) = Some (map csv_kept ss)"
proof (induction ss)
  case Nil
  then show ?case by (simp add: csv_fields.simps)
next
  case (Cons s ss)
  let ?r = "csv_join encodeExcel False ss"
  have c: "at_comma ?r" by (cases ss) (simp_all add: at_comma_def)
  show ?case
  proof (cases "encodeExcel s @ ?r = []")
    case True
    then have "s = []" "ss = []" by (auto simp: encodeExcel_def split: if_splits) (cases ss, auto)
    then show ?thesis by (simp add: csv_fields.simps [of decodeExcel "[44]"] encodeExcel_def csv_kept_def)
  next
    case False
    then show ?thesis
      using Cons.IH decode_encode [OF c, of s] by (auto simp: csv_fields.simps [of _ "44 # encodeExcel s @ ?r"])
  qed
qed

text \<open>A line is empty for no field and for one empty field.\<close>

definition csv_row_kept :: "byte list list \<Rightarrow> byte list list" where
  "csv_row_kept ss = (if ss = [[]] then [] else map csv_kept ss)"

lemma csv_line_join: "csv_line decodeExcel (csv_join encodeExcel True ss) = Some (csv_row_kept ss)"
proof (cases ss)
  case Nil
  then show ?thesis by (simp add: csv_line_def csv_row_kept_def)
next
  case (Cons s rest)
  let ?r = "csv_join encodeExcel False rest"
  have c: "at_comma ?r" by (cases rest) (simp_all add: at_comma_def)
  show ?thesis
  proof (cases "encodeExcel s @ ?r = []")
    case True
    then have "s = []" "rest = []" by (auto simp: encodeExcel_def split: if_splits) (cases rest, auto)
    then show ?thesis by (simp add: csv_line_def csv_row_kept_def Cons encodeExcel_def)
  next
    case False
    then have "ss \<noteq> [[]]" by (auto simp: Cons encodeExcel_def)
    with False show ?thesis
      using decode_encode [OF c, of s] csv_fields_join [of rest] by (simp add: csv_line_def csv_row_kept_def Cons)
  qed
qed

section \<open>A file of lines\<close>

fun csv_writes ::
    "(byte list \<Rightarrow> byte list) \<Rightarrow> ('s \<Rightarrow> byte list \<Rightarrow> (int \<times> 's) result) \<Rightarrow> 's \<Rightarrow> byte list list list \<Rightarrow> 's result" where
  "csv_writes sEncode wr s [] = Inr s"
| "csv_writes sEncode wr s (r # rs) = rbind (csv_writeLine sEncode wr s r) (\<lambda>s'. csv_writes sEncode wr s' rs)"

fun csv_reads ::
    "(byte list \<Rightarrow> byte list \<times> byte list) \<Rightarrow> ('s \<Rightarrow> int \<Rightarrow> (byte list \<times> 's) result) \<Rightarrow> 's \<Rightarrow> nat \<Rightarrow>
     (byte list list list \<times> 's) result option" where
  "csv_reads sDecode rd s 0 = Some (Inr ([], s))"
| "csv_reads sDecode rd s (Suc n) = obind (csv_readLine sDecode rd s) (\<lambda>(r, s').
     obind (csv_reads sDecode rd s' n) (\<lambda>(rs, s''). Some (Inr (r # rs, s''))))"

definition csv_text :: "byte list list list \<Rightarrow> byte list" where
  "csv_text rs = concat (map (\<lambda>r. csv_join encodeExcel True r @ [10]) rs)"

definition no_line_end :: "byte list list \<Rightarrow> bool" where
  "no_line_end r \<longleftrightarrow> (\<forall>s \<in> set r. \<forall>c \<in> set s. \<not> is_line_end c)"

lemma csv_join_no_line_end:
  "no_line_end r \<Longrightarrow> c \<in> set (csv_join encodeExcel b r) \<Longrightarrow> \<not> is_line_end c"
proof (induction r arbitrary: b)
  case (Cons s r)
  have "\<not> is_line_end 44" "\<not> is_line_end 34" by (simp_all add: is_line_end_def)
  moreover have "set (encodeExcel s) \<subseteq> insert 34 (set s)" by (auto simp: encodeExcel_def)
  ultimately show ?case using Cons by (auto simp: no_line_end_def split: if_splits)
qed simp

context full_sink begin

lemma csv_writes_law:
  "good s \<Longrightarrow> \<exists>s'. csv_writes encodeExcel wr s rs = Inr s' \<and> good s' \<and> written s' = written s @ csv_text rs"
proof (induction rs arbitrary: s)
  case Nil
  then show ?case by (simp add: csv_text_def)
next
  case (Cons r rs)
  obtain s1 where s1: "wr s (csv_join encodeExcel True r @ [10]) = Inr (int (length (csv_join encodeExcel True r @ [10])), s1)"
    "good s1" "written s1 = written s @ csv_join encodeExcel True r @ [10]" using wr_all [OF Cons.prems] by blast
  with Cons.IH [OF s1(2)] show ?case by (auto simp: csv_writeLine_def csv_text_def)
qed

end

context byte_source begin

lemma csv_readLine_law:
  assumes "good s" "no_line_end r" "pending s = csv_join encodeExcel True r @ 10 # rest"
  shows "\<exists>s'. csv_readLine decodeExcel rd s = Some (Inr (csv_row_kept r, s')) \<and> good s' \<and> pending s' = rest"
proof -
  have n: "\<And>c. c \<in> set (csv_join encodeExcel True r) \<Longrightarrow> \<not> is_line_end c"
    using csv_join_no_line_end [OF assms(2)] .
  have t: "takeWhile (\<lambda>c. \<not> is_line_end c) (pending s) = csv_join encodeExcel True r"
    "dropWhile (\<lambda>c. \<not> is_line_end c) (pending s) = 10 # rest"
    using n by (simp_all add: assms(3) takeWhile_append dropWhile_append is_line_end_def)
  obtain s' where "stream_readLine rd s = Some (Inr (csv_join encodeExcel True r, s'))" "good s'" "pending s' = rest"
    using readLine_law [OF assms(1)] unfolding t by auto
  then show ?thesis by (simp add: csv_readLine_def csv_line_join)
qed

lemma csv_reads_law:
  "good s \<Longrightarrow> \<forall>r \<in> set rs. no_line_end r \<Longrightarrow> pending s = csv_text rs @ rest \<Longrightarrow>
   \<exists>s'. csv_reads decodeExcel rd s (length rs) = Some (Inr (map csv_row_kept rs, s')) \<and> good s' \<and> pending s' = rest"
proof (induction rs arbitrary: s)
  case Nil
  then show ?case by (simp add: csv_text_def)
next
  case (Cons r rs)
  from Cons.prems(3) have p: "pending s = csv_join encodeExcel True r @ 10 # (csv_text rs @ rest)" by (simp add: csv_text_def)
  obtain s1 where s1: "csv_readLine decodeExcel rd s = Some (Inr (csv_row_kept r, s1))" "good s1"
    "pending s1 = csv_text rs @ rest" using csv_readLine_law [OF Cons.prems(1) _ p] Cons.prems(2) by auto
  from Cons.IH [OF s1(2) _ s1(3)] Cons.prems(2) s1(1) show ?case by auto
qed

end

text \<open>
  C22. Rows written to a memory stream and read back come back in order, one per line, with every field:
  quotes and commas inside fields survive. What does not: the leading blanks of a field without quotes
  and commas, and the difference between a row of one empty field and a row of none. Fields must not
  contain line ends.
\<close>

theorem csv_roundtrip:
  assumes "\<forall>r \<in> set rs. no_line_end r"
  shows "\<exists>m m'. csv_writes (csv_sEncode styleExcel) mb_write (mb_new []) rs = Inr m \<and>
    csv_reads (csv_sDecode styleExcel) mb_read (mb_setPos m 0) (length rs) =
      Some (Inr (map csv_row_kept rs, m')) \<and> mb_isEos m'"
proof -
  have "mb_nPos (mb_new []) = mb_getSize (mb_new [])" by (simp add: mb_new_def mb_getSize_def)
  from membuf_sink.csv_writes_law [OF this] obtain m where m: "csv_writes encodeExcel mb_write (mb_new []) rs = Inr m"
    "mb_sBuf m = csv_text rs" by (auto simp: mb_new_def)
  have g: "mb_wf (mb_setPos m 0)" "mb_pending (mb_setPos m 0) = csv_text rs @ []"
    using m(2) by (auto simp: mb_wf_def mb_setPos_def mb_clamp_def mb_pending_def mb_getSize_def)
  from membuf.csv_reads_law [OF g(1) assms g(2)] m show ?thesis by (auto simp: membuf.eos_law)
qed

theorem csv_roundtrip_witness:
  "\<exists>m m'. csv_writes (csv_sEncode styleExcel) mb_write (mb_new []) [[[97, 44], [34]], [[32, 98], []]] = Inr m \<and>
    csv_reads (csv_sDecode styleExcel) mb_read (mb_setPos m 0) 2 =
      Some (Inr ([[[97, 44], [34]], [[98], []]], m')) \<and> mb_isEos m'"
proof -
  let ?rs = "[[[97, 44], [34]], [[32, 98], []]] :: byte list list list"
  have n: "\<forall>r \<in> set ?rs. no_line_end r" by (simp add: no_line_end_def is_line_end_def)
  have k: "map csv_row_kept ?rs = [[[97, 44], [34]], [[98], []]]"
    by (simp add: csv_row_kept_def csv_kept_def is_blank_def)
  have l: "length ?rs = 2" by simp
  show ?thesis using csv_roundtrip [OF n] unfolding k l .
qed

text \<open>In the C style every field reads as the empty string, whatever the line holds.\<close>

lemma csv_fields_C: "\<exists>n. csv_fields decodeC i = Some (replicate n [])"
proof (induction i)
  case Nil
  have "csv_fields decodeC [] = Some (replicate 0 [])" by (simp add: csv_fields.simps)
  then show ?case by blast
next
  case (Cons c i)
  then obtain n where n: "csv_fields decodeC i = Some (replicate n [])" by blast
  have "csv_fields decodeC (c # i) = Some (replicate (if c = 44 then (if i = [] then 1 else Suc n) else n) [])"
    using n by (simp add: csv_fields.simps [of decodeC "c # i"] decodeC_def)
  then show ?case by blast
qed

theorem csv_styleC_reads_nothing:
  "\<exists>n. csv_line (csv_sDecode styleC) sLine = Some (replicate n [])"
proof (cases "sLine = []")
  case True
  have "csv_line decodeC [] = Some (replicate 0 [])" by (simp add: csv_line_def)
  with True show ?thesis by auto
next
  case False
  obtain n where "csv_fields decodeC sLine = Some (replicate n [])" using csv_fields_C by blast
  with False have "csv_line decodeC sLine = Some (replicate (Suc n) [])" by (simp add: csv_line_def decodeC_def)
  then show ?thesis by (auto simp del: replicate_Suc)
qed

end
