(* ===== verification/Bu_Taf.thy ===== *)
theory Bu_Taf
  imports Bu_Stream
begin

text \<open>
  \<open>Bu::TafWriter\<close> and \<open>Bu::TafReader\<close> (\<open>src/stable/tafwriter.cpp\<close>, \<open>tafreader.cpp\<close>), which print and
  parse trees of groups, properties and comments (\<open>tafgroup.cpp\<close>, \<open>tafproperty.cpp\<close>,
  \<open>tafcomment.cpp\<close>). A group is the list of its children here; the hash tables that \<open>addChild\<close> keeps
  beside the list are modelled in \<open>Bu_TafGroup\<close> as partial maps and in \<open>Bu_TafTable\<close> as they are, with
  the cases in which they do not return. The reader keeps the current character and one character of lookahead, which it
  does not read behind a closing brace. Characters are bytes; the numbers are their codes.
\<close>

section \<open>The tree\<close>

datatype taf_node =
    TafGroup "byte list" "taf_node list"
  | TafProperty "byte list" "byte list"
  | TafComment "byte list" bool

section \<open>The writer\<close>

record 's taf_writer =
  tw_sOut :: 's
  tw_iDepth :: int

definition tw_put ::
    "('s \<Rightarrow> byte list \<Rightarrow> (int \<times> 's) result) \<Rightarrow> 's taf_writer \<Rightarrow> byte list \<Rightarrow> 's taf_writer result" where
  "tw_put wr w bs = rbind (wr (tw_sOut w) bs) (\<lambda>(n, s). Inr (w\<lparr>tw_sOut := s\<rparr>))"

fun tw_ident_loop ::
    "('s \<Rightarrow> byte list \<Rightarrow> (int \<times> 's) result) \<Rightarrow> 's taf_writer \<Rightarrow> nat \<Rightarrow> 's taf_writer result" where
  "tw_ident_loop wr w 0 = Inr w"
| "tw_ident_loop wr w (Suc j) = rbind (tw_put wr w [32, 32, 32, 32]) (\<lambda>w1. tw_ident_loop wr w1 j)"

definition tw_ident :: "('s \<Rightarrow> byte list \<Rightarrow> (int \<times> 's) result) \<Rightarrow> 's taf_writer \<Rightarrow> 's taf_writer result" where
  "tw_ident wr w = tw_ident_loop wr w (nat (tw_iDepth w))"

text \<open>\<open>sprintf( buf, "\\x%02X", ... )\<close>; a \<open>char\<close> is signed, so bytes from 128 on are less than 32.\<close>

definition upper_hex :: "nat \<Rightarrow> byte" where
  "upper_hex d = word_of_nat (if d < 10 then 48 + d else 55 + d)"

definition taf_char :: "byte \<Rightarrow> byte list" where
  "taf_char s =
     (if s = 34 then [92, 34]
      else if s = 92 then [92, 92]
      else if sint s < 32 \<or> sint s > 126 then [92, 120, upper_hex (unat s div 16), upper_hex (unat s mod 16)]
      else [s])"

fun tw_string_loop ::
    "('s \<Rightarrow> byte list \<Rightarrow> (int \<times> 's) result) \<Rightarrow> 's taf_writer \<Rightarrow> byte list \<Rightarrow> 's taf_writer result" where
  "tw_string_loop wr w [] = Inr w"
| "tw_string_loop wr w (c # cs) = rbind (tw_put wr w (taf_char c)) (\<lambda>w1. tw_string_loop wr w1 cs)"

definition tw_writeString ::
    "('s \<Rightarrow> byte list \<Rightarrow> (int \<times> 's) result) \<Rightarrow> 's taf_writer \<Rightarrow> byte list \<Rightarrow> 's taf_writer result" where
  "tw_writeString wr w str =
     rbind (tw_put wr w [34]) (\<lambda>w1. rbind (tw_string_loop wr w1 str) (\<lambda>w2. tw_put wr w2 [34]))"

definition tw_writeProperty ::
    "('s \<Rightarrow> byte list \<Rightarrow> (int \<times> 's) result) \<Rightarrow> 's taf_writer \<Rightarrow> byte list \<Rightarrow> byte list \<Rightarrow> 's taf_writer result" where
  "tw_writeProperty wr w sName sValue =
     rbind (tw_ident wr w) (\<lambda>w1.
     rbind (if sName \<noteq> []
            then rbind (tw_writeString wr w1 sName) (\<lambda>w2. rbind (tw_put wr w2 [61]) (\<lambda>w3. tw_writeString wr w3 sValue))
            else tw_writeString wr w1 sValue) (\<lambda>w4.
     tw_put wr w4 [10]))"

definition tw_writeComment ::
    "('s \<Rightarrow> byte list \<Rightarrow> (int \<times> 's) result) \<Rightarrow> 's taf_writer \<Rightarrow> byte list \<Rightarrow> bool \<Rightarrow> 's taf_writer result" where
  "tw_writeComment wr w sText bEOL =
     rbind (tw_ident wr w) (\<lambda>w1.
     if bEOL
     then rbind (tw_put wr w1 [47, 47]) (\<lambda>w2. rbind (tw_put wr w2 sText) (\<lambda>w3. tw_put wr w3 [10]))
     else rbind (tw_put wr w1 [47, 42]) (\<lambda>w2. rbind (tw_put wr w2 sText) (\<lambda>w3. tw_put wr w3 [42, 47, 32])))"

fun tw_writeNode ::
    "('s \<Rightarrow> byte list \<Rightarrow> (int \<times> 's) result) \<Rightarrow> 's taf_writer \<Rightarrow> taf_node \<Rightarrow> 's taf_writer result"
  and tw_writeNodes ::
    "('s \<Rightarrow> byte list \<Rightarrow> (int \<times> 's) result) \<Rightarrow> 's taf_writer \<Rightarrow> taf_node list \<Rightarrow> 's taf_writer result" where
  "tw_writeNode wr w (TafGroup sName ch) =
     rbind (tw_ident wr w) (\<lambda>w1.
     rbind (tw_put wr w1 [123]) (\<lambda>w2.
     rbind (if sName \<noteq> [] then tw_writeString wr w2 sName else Inr w2) (\<lambda>w3.
     rbind (tw_put wr w3 [58, 10]) (\<lambda>w4.
     rbind (tw_writeNodes wr (w4\<lparr>tw_iDepth := tw_iDepth w4 + 1\<rparr>) ch) (\<lambda>w5.
     rbind (tw_ident wr (w5\<lparr>tw_iDepth := tw_iDepth w5 - 1\<rparr>)) (\<lambda>w6.
     tw_put wr w6 [125, 10]))))))"
| "tw_writeNode wr w (TafProperty sName sValue) = tw_writeProperty wr w sName sValue"
| "tw_writeNode wr w (TafComment sText bEOL) = tw_writeComment wr w sText bEOL"
| "tw_writeNodes wr w [] = Inr w"
| "tw_writeNodes wr w (x # xs) = rbind (tw_writeNode wr w x) (\<lambda>w1. tw_writeNodes wr w1 xs)"

section \<open>The reader\<close>

record 's taf_reader =
  tr_c :: byte
  tr_la :: byte
  tr_sIn :: 's
  tr_iLine :: int
  tr_iCol :: int

definition tr_rawread ::
    "('s \<Rightarrow> int \<Rightarrow> (byte list \<times> 's) result) \<Rightarrow> ('s \<Rightarrow> bool) \<Rightarrow> 's \<Rightarrow> (byte \<times> 's) result" where
  "tr_rawread rd eos s =
     rbind (rd s 1) (\<lambda>(bs, s'). if bs = []
       then Inl (TafException (if eos s' then ''Premature end of stream.'' else ''No data read, but not end of stream?''))
       else Inr (hd bs, s'))"

definition tr_next ::
    "('s \<Rightarrow> int \<Rightarrow> (byte list \<times> 's) result) \<Rightarrow> ('s \<Rightarrow> bool) \<Rightarrow> 's taf_reader \<Rightarrow> 's taf_reader result" where
  "tr_next rd eos r =
     (let r1 = (if tr_c r = 10 then r\<lparr>tr_iLine := tr_iLine r + 1, tr_iCol := 1\<rparr> else r\<lparr>tr_iCol := tr_iCol r + 1\<rparr>) in
      rbind (if tr_c r1 = 125
             then rbind (tr_rawread rd eos (tr_sIn r1)) (\<lambda>(x, s). Inr (r1\<lparr>tr_c := x, tr_sIn := s\<rparr>))
             else Inr (r1\<lparr>tr_c := tr_la r1\<rparr>)) (\<lambda>r2.
      if tr_c r2 \<noteq> 125
      then rbind (tr_rawread rd eos (tr_sIn r2)) (\<lambda>(x, s). Inr (r2\<lparr>tr_la := x, tr_sIn := s\<rparr>))
      else Inr r2))"

definition tr_new ::
    "('s \<Rightarrow> int \<Rightarrow> (byte list \<times> 's) result) \<Rightarrow> ('s \<Rightarrow> bool) \<Rightarrow> 's \<Rightarrow> 's taf_reader result" where
  "tr_new rd eos sIn =
     rbind (tr_next rd eos \<lparr>tr_c = 0, tr_la = 0, tr_sIn = sIn, tr_iLine = 1, tr_iCol = -1\<rparr>) (tr_next rd eos)"

definition tr_space :: "byte \<Rightarrow> bool" where
  "tr_space x \<longleftrightarrow> x = 32 \<or> x = 9 \<or> x = 10 \<or> x = 13"

partial_function (option) tr_ws ::
    "('s \<Rightarrow> int \<Rightarrow> (byte list \<times> 's) result) \<Rightarrow> ('s \<Rightarrow> bool) \<Rightarrow> 's taf_reader \<Rightarrow> 's taf_reader result option" where
  "tr_ws rd eos r = (if tr_space (tr_c r) then obind (Some (tr_next rd eos r)) (\<lambda>r1. tr_ws rd eos r1) else Some (Inr r))"

text \<open>
  \<open>strtol( code, NULL, 16 )\<close> of the standard library: white space, a sign, the prefix \<open>0x\<close>, digits as
  far as they go.
\<close>

definition hex_value :: "byte \<Rightarrow> int option" where
  "hex_value x =
     (if 48 \<le> x \<and> x \<le> 57 then Some (uint x - 48)
      else if 65 \<le> x \<and> x \<le> 70 then Some (uint x - 55)
      else if 97 \<le> x \<and> x \<le> 102 then Some (uint x - 87) else None)"

fun hex_digits_value :: "int \<Rightarrow> byte list \<Rightarrow> int" where
  "hex_digits_value a [] = a"
| "hex_digits_value a (x # xs) = (case hex_value x of None \<Rightarrow> a | Some v \<Rightarrow> hex_digits_value (16 * a + v) xs)"

fun strtol16_prefix :: "byte list \<Rightarrow> byte list" where
  "strtol16_prefix (z # x # y # xs) =
     (if z = 48 \<and> (x = 120 \<or> x = 88) \<and> hex_value y \<noteq> None then y # xs else z # x # y # xs)"
| "strtol16_prefix xs = xs"

definition strtol16 :: "byte list \<Rightarrow> int" where
  "strtol16 code =
     (case dropWhile (\<lambda>x. x = 32 \<or> (9 \<le> x \<and> x \<le> 13)) code of
        [] \<Rightarrow> 0
      | x # xs \<Rightarrow>
          if x = 45 then - hex_digits_value 0 (strtol16_prefix xs)
          else if x = 43 then hex_digits_value 0 (strtol16_prefix xs)
          else hex_digits_value 0 (strtol16_prefix (x # xs)))"

text \<open>Behind a backslash, up to the assignment to \<open>c\<close>.\<close>

definition tr_escape ::
    "('s \<Rightarrow> int \<Rightarrow> (byte list \<times> 's) result) \<Rightarrow> ('s \<Rightarrow> bool) \<Rightarrow> 's taf_reader \<Rightarrow> 's taf_reader result" where
  "tr_escape rd eos r =
     rbind (tr_next rd eos r) (\<lambda>r1.
     if tr_c r1 = 120
     then rbind (tr_next rd eos r1) (\<lambda>r2. rbind (tr_next rd eos r2) (\<lambda>r3.
          Inr (r3\<lparr>tr_c := word_of_int (strtol16 [tr_c r2, tr_c r3])\<rparr>)))
     else if tr_c r1 = 34 then Inr (r1\<lparr>tr_c := 34\<rparr>)
     else if tr_c r1 = 92 then Inr (r1\<lparr>tr_c := 92\<rparr>)
     else if tr_c r1 = 110 then Inr (r1\<lparr>tr_c := 10\<rparr>)
     else if tr_c r1 = 116 then Inr (r1\<lparr>tr_c := 9\<rparr>)
     else Inl (TafException ''Invalid escape sequence''))"

text \<open>The loop of a quoted string, the \<open>next\<close> behind it included, and that of an unquoted one.\<close>

partial_function (option) tr_quoted ::
    "('s \<Rightarrow> int \<Rightarrow> (byte list \<times> 's) result) \<Rightarrow> ('s \<Rightarrow> bool) \<Rightarrow> 's taf_reader \<Rightarrow> (byte list \<times> 's taf_reader) result option" where
  "tr_quoted rd eos r =
     (if tr_c r = 34 then obind (Some (tr_next rd eos r)) (\<lambda>r1. Some (Inr ([], r1)))
      else obind (Some (if tr_c r = 92 then tr_escape rd eos r else Inr r)) (\<lambda>r1.
           obind (Some (tr_next rd eos r1)) (\<lambda>r2.
           obind (tr_quoted rd eos r2) (\<lambda>sr. Some (Inr (tr_c r1 # fst sr, snd sr))))))"

definition tr_stops :: "byte \<Rightarrow> bool" where
  "tr_stops x \<longleftrightarrow> tr_space x \<or> x = 125 \<or> x = 123 \<or> x = 58 \<or> x = 61"

partial_function (option) tr_unquoted ::
    "('s \<Rightarrow> int \<Rightarrow> (byte list \<times> 's) result) \<Rightarrow> ('s \<Rightarrow> bool) \<Rightarrow> 's taf_reader \<Rightarrow> (byte list \<times> 's taf_reader) result option" where
  "tr_unquoted rd eos r =
     (if tr_stops (tr_c r) then Some (Inr ([], r))
      else obind (Some (tr_next rd eos r)) (\<lambda>r1.
           obind (tr_unquoted rd eos r1) (\<lambda>sr. Some (Inr (tr_c r # fst sr, snd sr)))))"

definition tr_readStr ::
    "('s \<Rightarrow> int \<Rightarrow> (byte list \<times> 's) result) \<Rightarrow> ('s \<Rightarrow> bool) \<Rightarrow> 's taf_reader \<Rightarrow> (byte list \<times> 's taf_reader) result option" where
  "tr_readStr rd eos r =
     obind (tr_ws rd eos r) (\<lambda>r1.
     if tr_c r1 = 34 then obind (Some (tr_next rd eos r1)) (tr_quoted rd eos) else tr_unquoted rd eos r1)"

definition tr_readProperty ::
    "('s \<Rightarrow> int \<Rightarrow> (byte list \<times> 's) result) \<Rightarrow> ('s \<Rightarrow> bool) \<Rightarrow> 's taf_reader \<Rightarrow> (taf_node \<times> 's taf_reader) result option" where
  "tr_readProperty rd eos r =
     obind (tr_readStr rd eos r) (\<lambda>(sName, r1).
     obind (tr_ws rd eos r1) (\<lambda>r2.
     if tr_c r2 \<noteq> 61 then Some (Inr (TafProperty [] sName, r2))
     else obind (Some (tr_next rd eos r2)) (\<lambda>r3.
          obind (tr_readStr rd eos r3) (\<lambda>(sValue, r4). Some (Inr (TafProperty sName sValue, r4))))))"

text \<open>The two loops of \<open>readComment\<close>, which start with a \<open>next\<close>.\<close>

partial_function (option) tr_line_comment ::
    "('s \<Rightarrow> int \<Rightarrow> (byte list \<times> 's) result) \<Rightarrow> ('s \<Rightarrow> bool) \<Rightarrow> 's taf_reader \<Rightarrow> (byte list \<times> 's taf_reader) result option" where
  "tr_line_comment rd eos r =
     obind (Some (tr_next rd eos r)) (\<lambda>r1.
     if tr_c r1 = 10 \<and> tr_la r1 = 13
     then obind (Some (rbind (tr_next rd eos r1) (tr_next rd eos))) (\<lambda>r2. Some (Inr ([], r2)))
     else if tr_c r1 = 10 \<or> tr_c r1 = 13 then obind (Some (tr_next rd eos r1)) (\<lambda>r2. Some (Inr ([], r2)))
     else obind (tr_line_comment rd eos r1) (\<lambda>sr. Some (Inr (tr_c r1 # fst sr, snd sr))))"

partial_function (option) tr_block_comment ::
    "('s \<Rightarrow> int \<Rightarrow> (byte list \<times> 's) result) \<Rightarrow> ('s \<Rightarrow> bool) \<Rightarrow> 's taf_reader \<Rightarrow> (byte list \<times> 's taf_reader) result option" where
  "tr_block_comment rd eos r =
     obind (Some (tr_next rd eos r)) (\<lambda>r1.
     if tr_c r1 = 42 \<and> tr_la r1 = 47
     then obind (Some (rbind (tr_next rd eos r1) (tr_next rd eos))) (\<lambda>r2. Some (Inr ([], r2)))
     else obind (tr_block_comment rd eos r1) (\<lambda>sr. Some (Inr (tr_c r1 # fst sr, snd sr))))"

definition tr_readComment ::
    "('s \<Rightarrow> int \<Rightarrow> (byte list \<times> 's) result) \<Rightarrow> ('s \<Rightarrow> bool) \<Rightarrow> bool \<Rightarrow> 's taf_reader \<Rightarrow>
     (taf_node \<times> 's taf_reader) result option" where
  "tr_readComment rd eos bEOL r =
     obind (Some (tr_next rd eos r)) (\<lambda>r1.
     obind (if bEOL then tr_line_comment rd eos r1 else tr_block_comment rd eos r1) (\<lambda>(s, r2).
     Some (Inr (TafComment s bEOL, r2))))"

text \<open>\<open>readGroup\<close> up to its content.\<close>

definition tr_open ::
    "('s \<Rightarrow> int \<Rightarrow> (byte list \<times> 's) result) \<Rightarrow> ('s \<Rightarrow> bool) \<Rightarrow> 's taf_reader \<Rightarrow> (byte list \<times> 's taf_reader) result option" where
  "tr_open rd eos r =
     obind (tr_ws rd eos r) (\<lambda>r1.
     if tr_c r1 \<noteq> 123 then Some (Inl (TafException ''Expected {''))
     else obind (Some (tr_next rd eos r1)) (\<lambda>r2.
          obind (tr_ws rd eos r2) (\<lambda>r3.
          obind (tr_readStr rd eos r3) (\<lambda>(sName, r4).
          obind (tr_ws rd eos r4) (\<lambda>r5.
          if tr_c r5 \<noteq> 58 then Some (Inl (TafException ''Expected :''))
          else obind (Some (tr_next rd eos r5)) (\<lambda>r6. Some (Inr (sName, r6))))))))"

definition tr_close :: "'s taf_reader \<Rightarrow> unit result" where
  "tr_close r = (if tr_c r \<noteq> 125 then Inl (TafException ''Expected }'') else Inr ())"

text \<open>\<open>groupContent\<close>, with the calls of \<open>readGroup\<close> for the groups inside.\<close>

partial_function (option) tr_content ::
    "('s \<Rightarrow> int \<Rightarrow> (byte list \<times> 's) result) \<Rightarrow> ('s \<Rightarrow> bool) \<Rightarrow> 's taf_reader \<Rightarrow>
     (taf_node list \<times> 's taf_reader) result option" where
  "tr_content rd eos r0 =
     obind (tr_ws rd eos r0) (\<lambda>r.
     if tr_c r = 123
     then obind (tr_open rd eos r) (\<lambda>nr.
          obind (tr_content rd eos (snd nr)) (\<lambda>cr.
          obind (Some (rbind (tr_close (snd cr)) (\<lambda>u. tr_next rd eos (snd cr)))) (\<lambda>r1.
          obind (tr_content rd eos r1) (\<lambda>xr. Some (Inr (TafGroup (fst nr) (fst cr) # fst xr, snd xr))))))
     else if tr_c r = 125 then Some (Inr ([], r))
     else if tr_c r = 58 then Some (Inl (TafException ''Encountered stray : in taf stream.''))
     else obind (if tr_c r = 47 \<and> tr_la r = 42 then tr_readComment rd eos False r
                 else if tr_c r = 47 \<and> tr_la r = 47 then tr_readComment rd eos True r
                 else tr_readProperty rd eos r) (\<lambda>nr.
          obind (tr_content rd eos (snd nr)) (\<lambda>xr. Some (Inr (fst nr # fst xr, snd xr)))))"

definition tr_readGroup ::
    "('s \<Rightarrow> int \<Rightarrow> (byte list \<times> 's) result) \<Rightarrow> ('s \<Rightarrow> bool) \<Rightarrow> 's taf_reader \<Rightarrow> (taf_node \<times> 's taf_reader) result option" where
  "tr_readGroup rd eos r =
     obind (tr_open rd eos r) (\<lambda>(sName, r1).
     obind (tr_content rd eos r1) (\<lambda>(ch, r2).
     obind (Some (tr_close r2)) (\<lambda>u. Some (Inr (TafGroup sName ch, r2)))))"

text \<open>A reader on a stream and the first group it reads.\<close>

definition taf_read ::
    "('s \<Rightarrow> int \<Rightarrow> (byte list \<times> 's) result) \<Rightarrow> ('s \<Rightarrow> bool) \<Rightarrow> 's \<Rightarrow> (taf_node \<times> 's taf_reader) result option" where
  "taf_read rd eos s = obind (Some (tr_new rd eos s)) (tr_readGroup rd eos)"

definition taf_write ::
    "('s \<Rightarrow> byte list \<Rightarrow> (int \<times> 's) result) \<Rightarrow> 's \<Rightarrow> taf_node \<Rightarrow> 's result" where
  "taf_write wr s g = rbind (tw_writeNode wr \<lparr>tw_sOut = s, tw_iDepth = 0\<rparr> g) (\<lambda>w. Inr (tw_sOut w))"

end
