(* ===== verification/Bu_TafText.thy ===== *)
theory Bu_TafText
  imports Bu_Taf
begin

text \<open>
  The text of a tree, what the writer and the reader of \<open>Bu_Taf\<close> do with it, and that the reader
  ends on every input. The view of a reader is the text it stands at: the current character and
  all that follows, in which one step of \<open>next\<close> drops the first character.
\<close>

section \<open>The text of a tree\<close>

definition taf_str :: "byte list \<Rightarrow> byte list" where
  "taf_str s = 34 # concat (map taf_char s) @ [34]"

definition taf_blank :: "nat \<Rightarrow> byte list" where
  "taf_blank d = replicate (4 * d) 32"

fun taf_text :: "nat \<Rightarrow> taf_node \<Rightarrow> byte list" and taf_texts :: "nat \<Rightarrow> taf_node list \<Rightarrow> byte list" where
  "taf_text d (TafGroup n ch) =
     taf_blank d @ [123] @ (if n \<noteq> [] then taf_str n else []) @ [58, 10] @ taf_texts (Suc d) ch @ taf_blank d @ [125, 10]"
| "taf_text d (TafProperty n v) =
     taf_blank d @ (if n \<noteq> [] then taf_str n @ [61] @ taf_str v else taf_str v) @ [10]"
| "taf_text d (TafComment t e) =
     taf_blank d @ (if e then [47, 47] @ t @ [10] else [47, 42] @ t @ [42, 47, 32])"
| "taf_texts d [] = []"
| "taf_texts d (x # xs) = taf_text d x @ taf_texts d xs"

text \<open>A part of the writer, at depth \<open>d\<close>, appends \<open>bs\<close> to what its stream has taken.\<close>

definition emits :: "('s \<Rightarrow> byte list) \<Rightarrow> ('s \<Rightarrow> bool) \<Rightarrow> nat \<Rightarrow> ('s taf_writer \<Rightarrow> 's taf_writer result) \<Rightarrow> byte list \<Rightarrow> bool" where
  "emits written good d f bs \<longleftrightarrow> (\<forall>w. good (tw_sOut w) \<longrightarrow> tw_iDepth w = int d \<longrightarrow>
     (\<exists>s. f w = Inr (w\<lparr>tw_sOut := s\<rparr>) \<and> good s \<and> written s = written (tw_sOut w) @ bs))"

lemma emitsI:
  "(\<And>w. good (tw_sOut w) \<Longrightarrow> tw_iDepth w = int d \<Longrightarrow>
     \<exists>s. f w = Inr (w\<lparr>tw_sOut := s\<rparr>) \<and> good s \<and> written s = written (tw_sOut w) @ bs) \<Longrightarrow> emits written good d f bs"
  by (simp add: emits_def)

lemma emitsD:
  assumes "emits written good d f bs" "good (tw_sOut w)" "tw_iDepth w = int d"
  obtains s where "f w = Inr (w\<lparr>tw_sOut := s\<rparr>)" "good s" "written s = written (tw_sOut w) @ bs"
  using assms unfolding emits_def by blast

lemma emits_Inr: "emits written good d Inr []"
proof (rule emitsI)
  fix w :: "'a taf_writer" assume "good (tw_sOut w)"
  then show "\<exists>s. Inr w = Inr (w\<lparr>tw_sOut := s\<rparr>) \<and> good s \<and> written s = written (tw_sOut w) @ []"
    by (intro exI [of _ "tw_sOut w"]) simp
qed

lemma emits_bind:
  assumes f: "emits written good d f a" and g: "emits written good d g b"
  shows "emits written good d (\<lambda>w. rbind (f w) g) (a @ b)"
proof (rule emitsI)
  fix w :: "'a taf_writer" assume w: "good (tw_sOut w)" "tw_iDepth w = int d"
  obtain s where s: "f w = Inr (w\<lparr>tw_sOut := s\<rparr>)" "good s" "written s = written (tw_sOut w) @ a"
    using f w by (rule emitsD)
  have "good (tw_sOut (w\<lparr>tw_sOut := s\<rparr>))" "tw_iDepth (w\<lparr>tw_sOut := s\<rparr>) = int d" using s w by simp_all
  with g obtain t where t: "g (w\<lparr>tw_sOut := s\<rparr>) = Inr (w\<lparr>tw_sOut := s, tw_sOut := t\<rparr>)" "good t"
    "written t = written (tw_sOut (w\<lparr>tw_sOut := s\<rparr>)) @ b" by (rule emitsD)
  with s show "\<exists>t. rbind (f w) g = Inr (w\<lparr>tw_sOut := t\<rparr>) \<and> good t \<and> written t = written (tw_sOut w) @ a @ b"
    by (intro exI [of _ t]) simp
qed

lemma emits_nested:
  assumes f: "emits written good (Suc d) f a" and g: "emits written good d g b"
  shows "emits written good d (\<lambda>w. rbind (f (w\<lparr>tw_iDepth := tw_iDepth w + 1\<rparr>)) (\<lambda>w5. g (w5\<lparr>tw_iDepth := tw_iDepth w5 - 1\<rparr>))) (a @ b)"
proof (rule emitsI)
  fix w :: "'a taf_writer" assume w: "good (tw_sOut w)" "tw_iDepth w = int d"
  let ?w = "w\<lparr>tw_iDepth := tw_iDepth w + 1\<rparr>"
  have "good (tw_sOut ?w)" "tw_iDepth ?w = int (Suc d)" using w by simp_all
  with f obtain s where s: "f ?w = Inr (?w\<lparr>tw_sOut := s\<rparr>)" "good s" "written s = written (tw_sOut ?w) @ a"
    by (rule emitsD)
  have "good (tw_sOut (w\<lparr>tw_sOut := s\<rparr>))" "tw_iDepth (w\<lparr>tw_sOut := s\<rparr>) = int d" using s w by simp_all
  with g obtain t where t: "g (w\<lparr>tw_sOut := s\<rparr>) = Inr (w\<lparr>tw_sOut := s, tw_sOut := t\<rparr>)" "good t"
    "written t = written (tw_sOut (w\<lparr>tw_sOut := s\<rparr>)) @ b" by (rule emitsD)
  have "(?w\<lparr>tw_sOut := s\<rparr>)\<lparr>tw_iDepth := tw_iDepth (?w\<lparr>tw_sOut := s\<rparr>) - 1\<rparr> = w\<lparr>tw_sOut := s\<rparr>" by simp
  with s t show "\<exists>t. rbind (f ?w) (\<lambda>w5. g (w5\<lparr>tw_iDepth := tw_iDepth w5 - 1\<rparr>)) = Inr (w\<lparr>tw_sOut := t\<rparr>) \<and>
      good t \<and> written t = written (tw_sOut w) @ a @ b"
    by (intro exI [of _ t]) simp
qed

context full_sink begin

lemma tw_put_emits: "emits written good d (\<lambda>w. tw_put wr w bs) bs"
proof (rule emitsI)
  fix w :: "'s taf_writer" assume "good (tw_sOut w)"
  from wr_all [OF this, of bs]
  show "\<exists>s. tw_put wr w bs = Inr (w\<lparr>tw_sOut := s\<rparr>) \<and> good s \<and> written s = written (tw_sOut w) @ bs"
    by (auto simp: tw_put_def)
qed

lemma tw_ident_loop_emits: "emits written good d (\<lambda>w. tw_ident_loop wr w j) (replicate (4 * j) 32)"
proof (induction j)
  case 0
  then show ?case using emits_Inr by simp
next
  case (Suc j)
  have "replicate (4 * Suc j) (32 :: byte) = [32, 32, 32, 32] @ replicate (4 * j) 32"
    using replicate_add [of 4 "4 * j" "32 :: byte"] by (simp add: numeral_eq_Suc)
  with emits_bind [OF tw_put_emits [of d "[32, 32, 32, 32]"] Suc] show ?case by simp
qed

lemma tw_ident_emits: "emits written good d (tw_ident wr) (taf_blank d)"
  using tw_ident_loop_emits [of d d] by (simp add: emits_def tw_ident_def taf_blank_def)

lemma tw_string_loop_emits: "emits written good d (\<lambda>w. tw_string_loop wr w cs) (concat (map taf_char cs))"
proof (induction cs)
  case Nil
  then show ?case using emits_Inr by simp
next
  case (Cons c cs)
  from emits_bind [OF tw_put_emits Cons] show ?case by simp
qed

lemma tw_writeString_emits: "emits written good d (\<lambda>w. tw_writeString wr w s) (taf_str s)"
  using emits_bind [OF tw_put_emits [of d "[34]"] emits_bind [OF tw_string_loop_emits [of d s] tw_put_emits [of d "[34]"]]]
  by (simp add: tw_writeString_def taf_str_def)

lemma tw_writeProperty_emits: "emits written good d (\<lambda>w. tw_writeProperty wr w n v) (taf_text d (TafProperty n v))"
proof -
  have "emits written good d (\<lambda>w1. if n \<noteq> []
      then rbind (tw_writeString wr w1 n) (\<lambda>w2. rbind (tw_put wr w2 [61]) (\<lambda>w3. tw_writeString wr w3 v))
      else tw_writeString wr w1 v) (if n \<noteq> [] then taf_str n @ [61] @ taf_str v else taf_str v)"
    using emits_bind [OF tw_writeString_emits [of d n] emits_bind [OF tw_put_emits [of d "[61]"] tw_writeString_emits [of d v]]]
      tw_writeString_emits [of d v] by simp
  from emits_bind [OF tw_ident_emits [of d] emits_bind [OF this tw_put_emits [of d "[10]"]]]
  show ?thesis by (simp add: tw_writeProperty_def)
qed

lemma tw_writeComment_emits: "emits written good d (\<lambda>w. tw_writeComment wr w t e) (taf_text d (TafComment t e))"
proof -
  have "emits written good d (\<lambda>w1. if e
      then rbind (tw_put wr w1 [47, 47]) (\<lambda>w2. rbind (tw_put wr w2 t) (\<lambda>w3. tw_put wr w3 [10]))
      else rbind (tw_put wr w1 [47, 42]) (\<lambda>w2. rbind (tw_put wr w2 t) (\<lambda>w3. tw_put wr w3 [42, 47, 32])))
     (if e then [47, 47] @ t @ [10] else [47, 42] @ t @ [42, 47, 32])"
    using emits_bind [OF tw_put_emits [of d "[47, 47]"] emits_bind [OF tw_put_emits [of d t] tw_put_emits [of d "[10]"]]]
      emits_bind [OF tw_put_emits [of d "[47, 42]"] emits_bind [OF tw_put_emits [of d t] tw_put_emits [of d "[42, 47, 32]"]]]
    by simp
  from emits_bind [OF tw_ident_emits [of d] this] show ?thesis by (simp add: tw_writeComment_def)
qed

lemma tw_writeNode_emits:
  "emits written good d (\<lambda>w. tw_writeNode wr w x) (taf_text d x)"
  "emits written good d (\<lambda>w. tw_writeNodes wr w xs) (taf_texts d xs)"
proof (induction d x and d xs rule: taf_text_taf_texts.induct)
  case (1 d n ch)
  have nm: "emits written good d (\<lambda>w2. if n \<noteq> [] then tw_writeString wr w2 n else Inr w2) (if n \<noteq> [] then taf_str n else [])"
    using tw_writeString_emits [of d n] emits_Inr [of written good d] by (simp add: emits_def)
  have "emits written good d (\<lambda>w4. rbind (tw_writeNodes wr (w4\<lparr>tw_iDepth := tw_iDepth w4 + 1\<rparr>) ch)
      (\<lambda>w5. rbind (tw_ident wr (w5\<lparr>tw_iDepth := tw_iDepth w5 - 1\<rparr>)) (\<lambda>w6. tw_put wr w6 [125, 10])))
      (taf_texts (Suc d) ch @ taf_blank d @ [125, 10])"
    using emits_nested [OF 1 emits_bind [OF tw_ident_emits tw_put_emits]] .
  from emits_bind [OF tw_ident_emits [of d] emits_bind [OF tw_put_emits [of d "[123]"] emits_bind [OF nm
    emits_bind [OF tw_put_emits [of d "[58, 10]"] this]]]]
  show ?case by simp
next
  case (2 d n v)
  then show ?case using tw_writeProperty_emits by simp
next
  case (3 d t e)
  then show ?case using tw_writeComment_emits by simp
next
  case (4 d)
  then show ?case using emits_Inr by simp
next
  case (5 d x xs)
  from emits_bind [OF 5] show ?case by simp
qed

lemma taf_write_law:
  assumes "good s"
  shows "\<exists>s'. taf_write wr s g = Inr s' \<and> good s' \<and> written s' = written s @ taf_text 0 g"
proof -
  have "good (tw_sOut \<lparr>tw_sOut = s, tw_iDepth = 0\<rparr>)" "tw_iDepth \<lparr>tw_sOut = s, tw_iDepth = 0\<rparr> = int 0"
    using assms by simp_all
  with tw_writeNode_emits(1) obtain t where
    "tw_writeNode wr \<lparr>tw_sOut = s, tw_iDepth = 0\<rparr> g = Inr (\<lparr>tw_sOut = s, tw_iDepth = 0\<rparr>\<lparr>tw_sOut := t\<rparr>)" "good t"
    "written t = written (tw_sOut \<lparr>tw_sOut = s, tw_iDepth = 0\<rparr>) @ taf_text 0 g" by (rule emitsD)
  then show ?thesis by (intro exI [of _ t]) (simp add: taf_write_def)
qed

end

section \<open>The view of a reader\<close>

definition tr_ahead :: "('s \<Rightarrow> byte list) \<Rightarrow> 's taf_reader \<Rightarrow> byte list" where
  "tr_ahead pending r = (if tr_c r = 125 then pending (tr_sIn r) else tr_la r # pending (tr_sIn r))"

definition tr_at :: "('s \<Rightarrow> byte list) \<Rightarrow> ('s \<Rightarrow> bool) \<Rightarrow> 's taf_reader \<Rightarrow> byte list \<Rightarrow> bool" where
  "tr_at pending good r xs \<longleftrightarrow> good (tr_sIn r) \<and> xs = tr_c r # tr_ahead pending r"

text \<open>A text the reader can move to: a brace, or at least two characters.\<close>

definition live :: "byte list \<Rightarrow> bool" where
  "live xs \<longleftrightarrow> (case xs of [] \<Rightarrow> False | y # ys \<Rightarrow> y = 125 \<or> ys \<noteq> [])"

lemma live_append: "live b \<Longrightarrow> live (a @ b)"
  by (cases a; cases b) (auto simp: live_def)

lemma live_Cons: "live b \<Longrightarrow> live (x # b)"
  using live_append [of b "[x]"] by simp

lemma live_brace [simp]: "live (125 # xs)"
  by (simp add: live_def)

lemma live_two [simp]: "live (x # y # xs)"
  by (simp add: live_def)

context byte_source begin

lemma tr_rawread_law:
  assumes "good s"
  shows "case pending s of [] \<Rightarrow> (\<exists>e. tr_rawread rd eos s = Inl (TafException e))
    | x # xs \<Rightarrow> (\<exists>s'. tr_rawread rd eos s = Inr (x, s') \<and> good s' \<and> pending s' = xs)"
proof -
  obtain bs s' where r: "rd s 1 = Inr (bs, s')" "good s'" "pending s = bs @ pending s'" "length bs \<le> 1"
    "pending s \<noteq> [] \<longrightarrow> bs \<noteq> []" using rd_law [OF assms, of 1] by auto
  show ?thesis
  proof (cases bs)
    case Nil
    with r show ?thesis by (simp add: tr_rawread_def)
  next
    case (Cons x bs')
    with r show ?thesis by (auto simp: tr_rawread_def)
  qed
qed

text \<open>\<open>next\<close> moves the view by one character, or throws when it cannot look behind the new one.\<close>

lemma tr_next_law:
  assumes g: "good (tr_sIn r)"
  shows "if live (tr_ahead pending r)
    then \<exists>r'. tr_next rd eos r = Inr r' \<and> tr_at pending good r' (tr_ahead pending r)
    else \<exists>e. tr_next rd eos r = Inl (TafException e)"
proof -
  define r1 where "r1 = (if tr_c r = 10 then r\<lparr>tr_iLine := tr_iLine r + 1, tr_iCol := 1\<rparr> else r\<lparr>tr_iCol := tr_iCol r + 1\<rparr>)"
  have r1: "tr_c r1 = tr_c r" "tr_la r1 = tr_la r" "tr_sIn r1 = tr_sIn r" by (simp_all add: r1_def)
  define fin where "fin = (\<lambda>r2 :: 's taf_reader. if tr_c r2 \<noteq> 125
      then rbind (tr_rawread rd eos (tr_sIn r2)) (\<lambda>(x, s). Inr (r2\<lparr>tr_la := x, tr_sIn := s\<rparr>)) else Inr r2)"
  have nx: "tr_next rd eos r = rbind (if tr_c r1 = 125
             then rbind (tr_rawread rd eos (tr_sIn r1)) (\<lambda>(x, s). Inr (r1\<lparr>tr_c := x, tr_sIn := s\<rparr>))
             else Inr (r1\<lparr>tr_c := tr_la r1\<rparr>)) fin" by (simp only: tr_next_def Let_def r1_def fin_def)
  have second: "if live (y # pending s) then \<exists>r'. fin r2 = Inr r' \<and> tr_at pending good r' (y # pending s)
      else \<exists>e. fin r2 = Inl (TafException e)"
    if "tr_c r2 = y" "tr_sIn r2 = s" "good s" for r2 y s
  proof (cases "y = 125")
    case True
    with that show ?thesis by (simp add: fin_def tr_at_def tr_ahead_def)
  next
    case False
    show ?thesis
    proof (cases "pending s")
      case Nil
      with tr_rawread_law [OF that(3), of eos] obtain e where "tr_rawread rd eos s = Inl (TafException e)" by auto
      with Nil False that show ?thesis by (simp add: fin_def live_def)
    next
      case (Cons x xs)
      with tr_rawread_law [OF that(3), of eos] obtain s' where
        "tr_rawread rd eos s = Inr (x, s')" "good s'" "pending s' = xs" by auto
      with Cons False that show ?thesis by (simp add: fin_def live_def tr_at_def tr_ahead_def)
    qed
  qed
  show ?thesis
  proof (cases "tr_c r = 125")
    case True
    show ?thesis
    proof (cases "pending (tr_sIn r)")
      case Nil
      with tr_rawread_law [OF g, of eos] obtain e where "tr_rawread rd eos (tr_sIn r) = Inl (TafException e)" by auto
      with Nil True show ?thesis unfolding nx by (simp add: r1 tr_ahead_def live_def)
    next
      case (Cons x xs)
      obtain s' where s': "tr_rawread rd eos (tr_sIn r) = Inr (x, s')" "good s'" "pending s' = xs"
        using tr_rawread_law [OF g, of eos] Cons by auto
      with True Cons second [of "r1\<lparr>tr_c := x, tr_sIn := s'\<rparr>" x s'] show ?thesis
        unfolding nx by (cases "live (x # xs)") (simp_all add: r1 tr_ahead_def)
    qed
  next
    case False
    with g second [of "r1\<lparr>tr_c := tr_la r\<rparr>" "tr_la r" "tr_sIn r"] show ?thesis
      unfolding nx by (cases "live (tr_la r # pending (tr_sIn r))") (simp_all add: r1 tr_ahead_def)
  qed
qed

lemma tr_next_at:
  assumes "tr_at pending good r (x # ys)" "live ys"
  shows "\<exists>r'. tr_next rd eos r = Inr r' \<and> tr_at pending good r' ys"
  using tr_next_law [of r eos] assms by (simp add: tr_at_def)

lemma tr_at_c: "tr_at pending good r (x # xs) \<Longrightarrow> tr_c r = x"
  by (simp add: tr_at_def)

lemma tr_at_la: "tr_at pending good r (x # y # xs) \<Longrightarrow> x \<noteq> 125 \<Longrightarrow> tr_la r = y"
  by (auto simp: tr_at_def tr_ahead_def)

lemma tr_ws_at:
  "tr_at pending good r (w @ xs) \<Longrightarrow> list_all tr_space w \<Longrightarrow> live xs \<Longrightarrow> \<not> tr_space (hd xs) \<Longrightarrow>
   \<exists>r'. tr_ws rd eos r = Some (Inr r') \<and> tr_at pending good r' xs"
proof (induction w arbitrary: r)
  case Nil
  then show ?case by (cases xs) (auto simp: tr_ws.simps [of rd eos r] live_def dest: tr_at_c)
next
  case (Cons x w)
  obtain r1 where r1: "tr_next rd eos r = Inr r1" "tr_at pending good r1 (w @ xs)"
    using tr_next_at [of r x "w @ xs" eos] Cons.prems live_append [of xs w] by auto
  have "tr_space (tr_c r)" using Cons.prems(1,2) tr_at_c [of r x "w @ xs"] by simp
  with Cons.IH [OF r1(2)] Cons.prems r1(1) show ?case by (simp add: tr_ws.simps [of rd eos r])
qed

end

end
