(* ===== verification/Bu_TafParse.thy ===== *)
theory Bu_TafParse
  imports Bu_TafText
begin

text \<open>
  What the reader of \<open>Bu_Taf\<close> does with a text the writer prints: strings, properties, comments and
  groups come back as they were, and that the reader returns on every input.
\<close>

section \<open>Trees the text can hold\<close>

text \<open>A comment to the end of the line holds no line end, and a block comment does not hold its own end.\<close>

fun block_free :: "byte list \<Rightarrow> bool" where
  "block_free (x # y # t) \<longleftrightarrow> \<not> (x = 42 \<and> y = 47) \<and> block_free (y # t)"
| "block_free t \<longleftrightarrow> True"

fun taf_ok :: "taf_node \<Rightarrow> bool" and taf_oks :: "taf_node list \<Rightarrow> bool" where
  "taf_ok (TafGroup n ch) \<longleftrightarrow> taf_oks ch"
| "taf_ok (TafProperty n v) \<longleftrightarrow> True"
| "taf_ok (TafComment t e) \<longleftrightarrow> (if e then 10 \<notin> set t \<and> 13 \<notin> set t else block_free t)"
| "taf_oks [] \<longleftrightarrow> True"
| "taf_oks (x # xs) \<longleftrightarrow> taf_ok x \<and> taf_oks xs"

text \<open>The text of a node behind its indentation.\<close>

fun taf_body :: "nat \<Rightarrow> taf_node \<Rightarrow> byte list" where
  "taf_body d (TafGroup n ch) =
     123 # (if n \<noteq> [] then taf_str n else []) @ [58, 10] @ taf_texts (Suc d) ch @ taf_blank d @ [125, 10]"
| "taf_body d (TafProperty n v) = (if n \<noteq> [] then taf_str n @ [61] @ taf_str v else taf_str v) @ [10]"
| "taf_body d (TafComment t e) = (if e then [47, 47] @ t @ [10] else [47, 42] @ t @ [42, 47, 32])"

lemma taf_text_body: "taf_text d x = taf_blank d @ taf_body d x"
  by (cases x) simp_all

definition taf_start :: "byte list \<Rightarrow> bool" where
  "taf_start xs \<longleftrightarrow> live xs \<and> hd xs \<in> {34, 47, 123, 125}"

lemma taf_start_facts:
  assumes "taf_start xs"
  shows "live xs" "\<not> tr_space (hd xs)" "hd xs \<noteq> 61" "hd xs \<noteq> 13" "xs \<noteq> []"
  using assms by (auto simp: taf_start_def tr_space_def live_def)

lemma taf_body_start: "taf_start (taf_body d x @ rest)"
  by (cases x) (simp_all add: taf_start_def taf_str_def live_def split: list.split)

lemma taf_brace_start: "taf_start (125 # rest)"
  by (simp add: taf_start_def)

lemma spaces_blank [simp]: "list_all tr_space (taf_blank k)"
  by (simp add: taf_blank_def tr_space_def list_all_length)

lemma taf_blank_set: "x \<in> set (taf_blank k) \<Longrightarrow> x = 32"
  by (simp add: taf_blank_def)

lemma dropWhile_blank:
  assumes "taf_start xs"
  shows "dropWhile tr_space (taf_blank k @ xs) = xs"
proof -
  have "\<And>x. x \<in> set (taf_blank k) \<Longrightarrow> tr_space x" by (simp add: taf_blank_def tr_space_def)
  moreover have "dropWhile tr_space xs = xs" using taf_start_facts [OF assms] by (cases xs) auto
  ultimately show ?thesis by (simp add: dropWhile_append2)
qed

lemma taf_rest_split:
  "\<exists>k' ys. taf_texts d xs @ taf_blank k @ 125 # rest = taf_blank k' @ ys \<and> taf_start ys \<and>
     dropWhile tr_space (taf_texts d xs @ taf_blank k @ 125 # rest) = ys"
proof (cases xs)
  case Nil
  then show ?thesis using dropWhile_blank [OF taf_brace_start] taf_brace_start by auto
next
  case (Cons x xs')
  let ?ys = "taf_body d x @ taf_texts d xs' @ taf_blank k @ 125 # rest"
  have "taf_texts d xs @ taf_blank k @ 125 # rest = taf_blank d @ ?ys"
    by (simp add: Cons taf_text_body)
  then show ?thesis using dropWhile_blank [OF taf_body_start] taf_body_start by metis
qed

section \<open>Escapes\<close>

lemma hex_value_upper: "d < 16 \<Longrightarrow> hex_value (upper_hex d) = Some (int d)"
proof -
  have "list_all (\<lambda>d. hex_value (upper_hex d) = Some (int d)) [0..<16]"
    by (simp add: upt_rec hex_value_def upper_hex_def)
  then show "d < 16 \<Longrightarrow> ?thesis" by (simp add: list_all_iff)
qed

lemma upper_hex_plain: "d < 16 \<Longrightarrow> upper_hex d \<notin> {45, 43, 32, 125} \<and> \<not> (9 \<le> upper_hex d \<and> upper_hex d \<le> 13)"
proof -
  have "list_all (\<lambda>d. upper_hex d \<notin> {45, 43, 32, 125} \<and> \<not> (9 \<le> upper_hex d \<and> upper_hex d \<le> 13)) [0..<16]"
    by (simp add: upt_rec upper_hex_def)
  then show "d < 16 \<Longrightarrow> ?thesis" by (simp add: list_all_iff)
qed

lemma strtol16_upper:
  assumes "i < 16" "j < 16"
  shows "strtol16 [upper_hex i, upper_hex j] = int (16 * i + j)"
  using assms by (simp add: strtol16_def upper_hex_plain [THEN conjunct1, simplified] upper_hex_plain [THEN conjunct2] hex_value_upper)

lemma strtol16_byte:
  "word_of_int (strtol16 [upper_hex (unat (b :: byte) div 16), upper_hex (unat b mod 16)]) = b"
proof -
  have "unat b < 256" using unsigned_less [of b] by simp
  then have "unat b div 16 < 16" by simp
  then show ?thesis by (simp add: strtol16_upper)
qed

section \<open>Reading strings\<close>

context byte_source begin

lemma tr_ws_stop: "\<not> tr_space (tr_c r) \<Longrightarrow> tr_ws rd eos r = Some (Inr r)"
  by (simp add: tr_ws.simps [of rd eos r])

lemma tr_at_start: "tr_at pending good r xs \<Longrightarrow> taf_start xs \<Longrightarrow> \<not> tr_space (tr_c r)"
  by (cases xs) (auto simp: tr_at_def dest: taf_start_facts)

lemma taf_char_read:
  assumes at: "tr_at pending good r (taf_char b @ rest)" and rest: "live rest"
  shows "tr_c r \<noteq> 34 \<and> (\<exists>r1 r2. (if tr_c r = 92 then tr_escape rd eos r else Inr r) = Inr r1 \<and> tr_c r1 = b \<and>
    tr_next rd eos r1 = Inr r2 \<and> tr_at pending good r2 rest)"
proof -
  consider "b = 34 \<or> b = 92" | "b \<noteq> 34" "b \<noteq> 92" "sint b < 32 \<or> sint b > 126" | "taf_char b = [b]" "b \<noteq> 34" "b \<noteq> 92"
    by (cases "b = 34 \<or> b = 92"; cases "sint b < 32 \<or> sint b > 126") (auto simp: taf_char_def)
  then show ?thesis
  proof cases
    case 1
    then have tc: "taf_char b = [92, b]" by (auto simp: taf_char_def)
    obtain r1 where r1: "tr_next rd eos r = Inr r1" "tr_at pending good r1 (b # rest)"
      using tr_next_at [of r 92 "b # rest" eos] at rest tc live_Cons by auto
    have c: "tr_c r = 92" "tr_c r1 = b" using at r1(2) tc tr_at_c by (auto simp: tr_at_def)
    have at2: "tr_at pending good (r1\<lparr>tr_c := b\<rparr>) (b # rest)" using r1(2) c 1 by (auto simp: tr_at_def tr_ahead_def)
    from tr_next_at [OF at2 rest, of eos] obtain r2 where
      "tr_next rd eos (r1\<lparr>tr_c := b\<rparr>) = Inr r2" "tr_at pending good r2 rest" by blast
    with r1 c 1 show ?thesis by (auto simp: tr_escape_def)
  next
    case 2
    let ?h = "upper_hex (unat b div 16)" and ?l = "upper_hex (unat b mod 16)"
    have tc: "taf_char b = [92, 120, ?h, ?l]" using 2 by (simp add: taf_char_def)
    have at0: "tr_at pending good r (92 # 120 # ?h # ?l # rest)" using at tc by simp
    from tr_next_at [OF at0, of eos] obtain r1 where
      r1: "tr_next rd eos r = Inr r1" "tr_at pending good r1 (120 # ?h # ?l # rest)" by auto
    from tr_next_at [OF r1(2), of eos] obtain r2 where
      r2: "tr_next rd eos r1 = Inr r2" "tr_at pending good r2 (?h # ?l # rest)" by auto
    from tr_next_at [OF r2(2), of eos] live_Cons [OF rest] obtain r3 where
      r3: "tr_next rd eos r2 = Inr r3" "tr_at pending good r3 (?l # rest)" by auto
    have c: "tr_c r = 92" "tr_c r1 = 120" "tr_c r2 = ?h" "tr_c r3 = ?l"
      using at0 r1(2) r2(2) r3(2) by (auto dest: tr_at_c)
    have "b \<noteq> 125" using 2(3) by auto
    moreover have "?l \<noteq> 125" using upper_hex_plain [of "unat b mod 16"] by simp
    ultimately have at4: "tr_at pending good (r3\<lparr>tr_c := b\<rparr>) (b # rest)"
      using r3(2) c by (auto simp: tr_at_def tr_ahead_def)
    from tr_next_at [OF at4 rest, of eos] obtain r4 where
      "tr_next rd eos (r3\<lparr>tr_c := b\<rparr>) = Inr r4" "tr_at pending good r4 rest" by blast
    with r1 r2 r3 c show ?thesis by (simp add: tr_escape_def strtol16_byte)
  next
    case 3
    with at have at': "tr_at pending good r (b # rest)" by simp
    from tr_next_at [OF at' rest, of eos] 3 tr_at_c [OF at'] show ?thesis by auto
  qed
qed

lemma tr_quoted_at:
  "tr_at pending good r (concat (map taf_char s) @ 34 # rest) \<Longrightarrow> live rest \<Longrightarrow>
   \<exists>r'. tr_quoted rd eos r = Some (Inr (s, r')) \<and> tr_at pending good r' rest"
proof (induction s arbitrary: r)
  case Nil
  then have at: "tr_at pending good r (34 # rest)" by simp
  from tr_next_at [OF at Nil(2), of eos] tr_at_c [OF at] show ?case by (auto simp: tr_quoted.simps [of rd eos r])
next
  case (Cons b s)
  let ?rest = "concat (map taf_char s) @ 34 # rest"
  have "live ?rest" using live_append live_Cons Cons.prems(2) by blast
  moreover have "tr_at pending good r (taf_char b @ ?rest)" using Cons.prems(1) by simp
  ultimately obtain r1 r2 where r: "tr_c r \<noteq> 34" "(if tr_c r = 92 then tr_escape rd eos r else Inr r) = Inr r1"
    "tr_c r1 = b" "tr_next rd eos r1 = Inr r2" "tr_at pending good r2 ?rest"
    using taf_char_read [of r b ?rest eos] by blast
  from Cons.IH [OF r(5) Cons.prems(2)] r show ?case by (auto simp: tr_quoted.simps [of rd eos r])
qed

lemma tr_readStr_at:
  assumes at: "tr_at pending good r (w @ taf_str s @ rest)" and w: "list_all tr_space w" and rest: "live rest"
  shows "\<exists>r'. tr_readStr rd eos r = Some (Inr (s, r')) \<and> tr_at pending good r' rest"
proof -
  let ?q = "concat (map taf_char s) @ 34 # rest"
  have q: "live ?q" using live_append live_Cons rest by blast
  have e: "taf_str s @ rest = 34 # ?q" by (simp add: taf_str_def)
  have "live (34 # ?q)" "\<not> tr_space (hd (34 # ?q))" using live_Cons [OF q] by (simp_all add: tr_space_def)
  from tr_ws_at [OF at [unfolded e] w this, of eos] obtain r1 where
    r1: "tr_ws rd eos r = Some (Inr r1)" "tr_at pending good r1 (34 # ?q)" by blast
  from tr_next_at [OF r1(2) q, of eos] obtain r2 where
    r2: "tr_next rd eos r1 = Inr r2" "tr_at pending good r2 ?q" by blast
  from tr_quoted_at [OF r2(2) rest, of eos] r1 r2 tr_at_c [OF r1(2)] show ?thesis
    by (auto simp: tr_readStr_def)
qed

section \<open>Properties, comments and groups\<close>

lemma tr_readProperty_at:
  assumes at: "tr_at pending good r (taf_body d (TafProperty n v) @ taf_blank k @ rest)" and rest: "taf_start rest"
  shows "\<exists>r' w. tr_readProperty rd eos r = Some (Inr (TafProperty n v, r')) \<and> list_all tr_space w \<and>
    tr_at pending good r' (w @ rest)"
proof -
  let ?w = "10 # taf_blank k"
  have w: "list_all tr_space ?w" by (simp add: tr_space_def)
  note rs = taf_start_facts [OF rest]
  have live: "live (?w @ rest)" using live_append rs(1) by blast
  show ?thesis
  proof (cases "n = []")
    case True
    have "tr_at pending good r ([] @ taf_str v @ ?w @ rest)" using at True by simp
    from tr_readStr_at [OF this _ live, of eos] obtain r1 where
      r1: "tr_readStr rd eos r = Some (Inr (v, r1))" "tr_at pending good r1 (?w @ rest)" by auto
    from tr_ws_at [OF r1(2) w rs(1,2), of eos] obtain r2 where
      r2: "tr_ws rd eos r1 = Some (Inr r2)" "tr_at pending good r2 rest" by blast
    have "tr_c r2 \<noteq> 61" using r2(2) rs(3,5) by (cases rest) (auto dest: tr_at_c)
    with r1 r2 True show ?thesis
      by (intro exI [of _ r2] exI [of _ "[]"]) (simp add: tr_readProperty_def)
  next
    case False
    let ?v = "61 # taf_str v @ ?w @ rest"
    have lv: "live (taf_str v @ ?w @ rest)" using live_append live by blast
    have "tr_at pending good r ([] @ taf_str n @ ?v)" using at False by simp
    from tr_readStr_at [OF this _ live_Cons [OF lv], of eos] obtain r1 where
      r1: "tr_readStr rd eos r = Some (Inr (n, r1))" "tr_at pending good r1 ?v" by auto
    have c: "tr_c r1 = 61" using r1(2) by (rule tr_at_c)
    from tr_next_at [OF r1(2) lv, of eos] obtain r2 where
      r2: "tr_next rd eos r1 = Inr r2" "tr_at pending good r2 ([] @ taf_str v @ ?w @ rest)" by auto
    from tr_readStr_at [OF r2(2) _ live, of eos] obtain r3 where
      r3: "tr_readStr rd eos r2 = Some (Inr (v, r3))" "tr_at pending good r3 (?w @ rest)" by auto
    have "tr_ws rd eos r1 = Some (Inr r1)" using c by (intro tr_ws_stop) (simp add: tr_space_def)
    with r1 r2 r3 c w show ?thesis
      by (intro exI [of _ r3] exI [of _ ?w]) (simp add: tr_readProperty_def)
  qed
qed

lemma tr_line_comment_at:
  "tr_at pending good r (x # t @ 10 # rest) \<Longrightarrow> 10 \<notin> set t \<Longrightarrow> 13 \<notin> set t \<Longrightarrow> live rest \<Longrightarrow> hd rest \<noteq> 13 \<Longrightarrow>
   \<exists>r'. tr_line_comment rd eos r = Some (Inr (t, r')) \<and> tr_at pending good r' rest"
proof (induction t arbitrary: r x)
  case Nil
  from tr_next_at [of r x "10 # rest" eos] Nil live_Cons obtain r1 where
    r1: "tr_next rd eos r = Inr r1" "tr_at pending good r1 (10 # rest)" by auto
  from tr_next_at [OF r1(2) Nil(4), of eos] obtain r2 where
    r2: "tr_next rd eos r1 = Inr r2" "tr_at pending good r2 rest" by blast
  have "tr_c r1 = 10" "tr_la r1 \<noteq> 13" using r1(2) Nil(4,5) by (auto simp: tr_at_def tr_ahead_def live_def)
  with r1 r2 show ?case by (simp add: tr_line_comment.simps [of rd eos r])
next
  case (Cons y t)
  have "live (y # t @ 10 # rest)" using live_append [OF live_Cons [OF Cons.prems(4)], of "y # t"] by simp
  with tr_next_at [of r x "y # t @ 10 # rest" eos] Cons.prems(1) obtain r1 where
    r1: "tr_next rd eos r = Inr r1" "tr_at pending good r1 (y # t @ 10 # rest)" by auto
  have "tr_c r1 = y" using r1(2) by (rule tr_at_c)
  with r1 Cons.IH [OF r1(2)] Cons.prems show ?case by (auto simp: tr_line_comment.simps [of rd eos r])
qed

lemma tr_block_comment_at:
  "tr_at pending good r (x # t @ 42 # 47 # rest) \<Longrightarrow> block_free t \<Longrightarrow> live rest \<Longrightarrow>
   \<exists>r'. tr_block_comment rd eos r = Some (Inr (t, r')) \<and> tr_at pending good r' rest"
proof (induction t arbitrary: r x)
  case Nil
  from tr_next_at [of r x "42 # 47 # rest" eos] Nil obtain r1 where
    r1: "tr_next rd eos r = Inr r1" "tr_at pending good r1 (42 # 47 # rest)" by auto
  from tr_next_at [OF r1(2) live_Cons [OF Nil(3)], of eos] obtain r2 where
    r2: "tr_next rd eos r1 = Inr r2" "tr_at pending good r2 (47 # rest)" by blast
  from tr_next_at [OF r2(2) Nil(3), of eos] obtain r3 where
    r3: "tr_next rd eos r2 = Inr r3" "tr_at pending good r3 rest" by blast
  have "tr_c r1 = 42" "tr_la r1 = 47" using r1(2) by (auto simp: tr_at_def tr_ahead_def)
  with r1 r2 r3 show ?case by (simp add: tr_block_comment.simps [of rd eos r])
next
  case (Cons y t)
  have "live (y # t @ 42 # 47 # rest)"
    using live_append [OF live_two [of 42 47 rest], of "y # t"] by simp
  with tr_next_at [of r x "y # t @ 42 # 47 # rest" eos] Cons.prems(1) obtain r1 where
    r1: "tr_next rd eos r = Inr r1" "tr_at pending good r1 (y # t @ 42 # 47 # rest)" by auto
  have "\<not> (tr_c r1 = 42 \<and> tr_la r1 = 47)"
    using r1(2) Cons.prems(2) by (cases t) (auto simp: tr_at_def tr_ahead_def)
  moreover have "tr_c r1 = y" using r1(2) by (rule tr_at_c)
  moreover have "block_free t" using Cons.prems(2) by (cases t) auto
  ultimately show ?case using r1 Cons.IH [OF r1(2)] Cons.prems(3) by (auto simp: tr_block_comment.simps [of rd eos r])
qed

lemma tr_readComment_at:
  assumes at: "tr_at pending good r (taf_body d (TafComment t e) @ taf_blank k @ rest)" and ok: "taf_ok (TafComment t e)"
    and rest: "taf_start rest"
  shows "\<exists>r' w. tr_readComment rd eos e r = Some (Inr (TafComment t e, r')) \<and> list_all tr_space w \<and>
    tr_at pending good r' (w @ rest)"
proof -
  note rs = taf_start_facts [OF rest]
  have live: "live (taf_blank k @ rest)" using live_append rs(1) by blast
  have h13: "hd (taf_blank k @ rest) \<noteq> 13"
    using rs(4) taf_blank_set [of "hd (taf_blank k)" k] by (cases "taf_blank k") auto
  show ?thesis
  proof (cases e)
    case True
    have at0: "tr_at pending good r (47 # 47 # t @ 10 # taf_blank k @ rest)" using at True by simp
    have "live (47 # t @ 10 # taf_blank k @ rest)" by (cases t) simp_all
    from tr_next_at [OF at0 this, of eos] obtain r1 where
      r1: "tr_next rd eos r = Inr r1" "tr_at pending good r1 (47 # t @ 10 # taf_blank k @ rest)" by blast
    from tr_line_comment_at [OF r1(2) _ _ live h13, of eos] ok True obtain r2 where
      "tr_line_comment rd eos r1 = Some (Inr (t, r2))" "tr_at pending good r2 (taf_blank k @ rest)" by auto
    with r1 True show ?thesis
      by (intro exI [of _ r2] exI [of _ "taf_blank k"]) (simp add: tr_readComment_def)
  next
    case False
    have at0: "tr_at pending good r (47 # 42 # t @ 42 # 47 # (32 # taf_blank k @ rest))" using at False by simp
    have "live (42 # t @ 42 # 47 # (32 # taf_blank k @ rest))" by (cases t) simp_all
    from tr_next_at [OF at0 this, of eos] obtain r1 where
      r1: "tr_next rd eos r = Inr r1" "tr_at pending good r1 (42 # t @ 42 # 47 # (32 # taf_blank k @ rest))" by blast
    from tr_block_comment_at [OF r1(2) _ live_Cons [OF live], of eos] ok False obtain r2 where
      "tr_block_comment rd eos r1 = Some (Inr (t, r2))" "tr_at pending good r2 (32 # taf_blank k @ rest)" by auto
    with r1 False show ?thesis
      by (intro exI [of _ r2] exI [of _ "32 # taf_blank k"]) (simp add: tr_readComment_def tr_space_def)
  qed
qed

lemma tr_open_at:
  assumes at: "tr_at pending good r (123 # (if n \<noteq> [] then taf_str n else []) @ 58 # rest)" and rest: "live rest"
  shows "\<exists>r'. tr_open rd eos r = Some (Inr (n, r')) \<and> tr_at pending good r' rest"
proof -
  let ?n = "(if n \<noteq> [] then taf_str n else []) @ 58 # rest"
  have n: "live ?n" using live_append live_Cons rest by blast
  have c: "tr_c r = 123" using at by (rule tr_at_c)
  from tr_next_at [OF at n, of eos] obtain r1 where
    r1: "tr_next rd eos r = Inr r1" "tr_at pending good r1 ?n" by blast
  have sp: "\<not> tr_space (tr_c r1)" using r1(2) by (auto simp: tr_at_def taf_str_def tr_space_def split: if_splits)
  have "\<exists>r2. tr_readStr rd eos r1 = Some (Inr (n, r2)) \<and> tr_at pending good r2 (58 # rest)"
  proof (cases "n = []")
    case True
    with r1(2) have "tr_c r1 = 58" by (auto dest: tr_at_c)
    then show ?thesis using sp True r1(2)
      by (simp add: tr_readStr_def tr_ws_stop tr_unquoted.simps [of rd eos r1] tr_stops_def)
  next
    case False
    with r1(2) have "tr_at pending good r1 ([] @ taf_str n @ 58 # rest)" by simp
    from tr_readStr_at [OF this _ live_Cons [OF rest], of eos] show ?thesis by simp
  qed
  then obtain r2 where r2: "tr_readStr rd eos r1 = Some (Inr (n, r2))" "tr_at pending good r2 (58 # rest)" by blast
  have c2: "tr_c r2 = 58" using r2(2) by (rule tr_at_c)
  from tr_next_at [OF r2(2) rest, of eos] obtain r3 where
    r3: "tr_next rd eos r2 = Inr r3" "tr_at pending good r3 rest" by blast
  from r1 r2 r3 c c2 sp show ?thesis by (simp add: tr_open_def tr_ws_stop tr_space_def)
qed

lemma tr_content_ws:
  assumes "tr_at pending good r (w @ xs)" "list_all tr_space w" "taf_start xs"
  shows "\<exists>r'. tr_content rd eos r = tr_content rd eos r' \<and> tr_at pending good r' xs"
proof -
  from tr_ws_at [OF assms(1,2) taf_start_facts(1,2) [OF assms(3)], of eos] obtain r' where
    r': "tr_ws rd eos r = Some (Inr r')" "tr_at pending good r' xs" by blast
  have "tr_ws rd eos r' = Some (Inr r')" using tr_at_start [OF r'(2) assms(3)] by (rule tr_ws_stop)
  with r' show ?thesis
    by (intro exI [of _ r']) (simp add: tr_content.simps [of rd eos r] tr_content.simps [of rd eos r'])
qed

text \<open>One node, and all nodes of a group, up to its closing brace.\<close>

definition reads_node :: "('s \<Rightarrow> bool) \<Rightarrow> nat \<Rightarrow> taf_node \<Rightarrow> bool" where
  "reads_node eos d x \<longleftrightarrow> (\<forall>r k rest. tr_at pending good r (taf_body d x @ taf_blank k @ rest) \<longrightarrow> taf_start rest \<longrightarrow>
     (\<exists>r' w. list_all tr_space w \<and> tr_at pending good r' (w @ rest) \<and>
        tr_content rd eos r = obind (tr_content rd eos r') (\<lambda>xr. Some (Inr (x # fst xr, snd xr)))))"

definition reads_nodes :: "('s \<Rightarrow> bool) \<Rightarrow> nat \<Rightarrow> taf_node list \<Rightarrow> bool" where
  "reads_nodes eos d xs \<longleftrightarrow> (\<forall>r w k rest. list_all tr_space w \<longrightarrow>
     tr_at pending good r (w @ dropWhile tr_space (taf_texts d xs @ taf_blank k @ 125 # rest)) \<longrightarrow>
     (\<exists>r'. tr_content rd eos r = Some (Inr (xs, r')) \<and> tr_at pending good r' (125 # rest)))"

lemma reads_group:
  assumes "reads_nodes eos (Suc d) ch"
    and at: "tr_at pending good r (taf_body d (TafGroup n ch) @ rest)"
  shows "\<exists>r1 r2. tr_open rd eos r = Some (Inr (n, r1)) \<and> tr_content rd eos r1 = Some (Inr (ch, r2)) \<and>
    tr_at pending good r2 (125 # 10 # rest)"
proof -
  obtain k' ys where k': "taf_texts (Suc d) ch @ taf_blank d @ 125 # 10 # rest = taf_blank k' @ ys" "taf_start ys"
    "dropWhile tr_space (taf_texts (Suc d) ch @ taf_blank d @ 125 # 10 # rest) = ys"
    using taf_rest_split by blast
  have e: "taf_body d (TafGroup n ch) @ rest = 123 # (if n \<noteq> [] then taf_str n else []) @ 58 # 10 # taf_blank k' @ ys"
    by (simp add: k'(1) [symmetric])
  have "live (10 # taf_blank k' @ ys)"
    using live_append [OF taf_start_facts(1) [OF k'(2)], of "10 # taf_blank k'"] by simp
  from tr_open_at [OF at [unfolded e] this, of eos] obtain r1 where
    r1: "tr_open rd eos r = Some (Inr (n, r1))" "tr_at pending good r1 ((10 # taf_blank k') @ ys)" by auto
  have "list_all tr_space (10 # taf_blank k')" by (simp add: tr_space_def)
  with assms(1) r1(2) k'(3) obtain r2 where
    "tr_content rd eos r1 = Some (Inr (ch, r2))" "tr_at pending good r2 (125 # 10 # rest)"
    unfolding reads_nodes_def by blast
  with r1(1) show ?thesis by blast
qed

lemma reads_node_group:
  assumes "reads_nodes eos (Suc d) ch"
  shows "reads_node eos d (TafGroup n ch)"
  unfolding reads_node_def
proof (intro allI impI)
  fix r k rest assume at: "tr_at pending good r (taf_body d (TafGroup n ch) @ taf_blank k @ rest)" and rest: "taf_start rest"
  from reads_group [OF assms at] obtain r1 r2 where
    r: "tr_open rd eos r = Some (Inr (n, r1))" "tr_content rd eos r1 = Some (Inr (ch, r2))"
    "tr_at pending good r2 (125 # 10 # taf_blank k @ rest)" by blast
  have "live (10 # taf_blank k @ rest)"
    using live_append [OF taf_start_facts(1) [OF rest], of "10 # taf_blank k"] by simp
  from tr_next_at [OF r(3) this, of eos] obtain r3 where
    r3: "tr_next rd eos r2 = Inr r3" "tr_at pending good r3 (10 # taf_blank k @ rest)" by blast
  have c: "tr_c r = 123" "tr_c r2 = 125" using at r(3) by (auto dest: tr_at_c)
  have "tr_ws rd eos r = Some (Inr r)" using c by (intro tr_ws_stop) (simp add: tr_space_def)
  with r r3 c have "tr_content rd eos r =
      obind (tr_content rd eos r3) (\<lambda>xr. Some (Inr (TafGroup n ch # fst xr, snd xr)))"
    by (subst tr_content.simps) (simp add: tr_close_def)
  with r3(2) show "\<exists>r' w. list_all tr_space w \<and> tr_at pending good r' (w @ rest) \<and> tr_content rd eos r =
      obind (tr_content rd eos r') (\<lambda>xr. Some (Inr (TafGroup n ch # fst xr, snd xr)))"
    by (intro exI [of _ r3] exI [of _ "10 # taf_blank k"]) (simp add: tr_space_def)
qed

lemma reads_node_property: "reads_node eos d (TafProperty n v)"
  unfolding reads_node_def
proof (intro allI impI)
  fix r k rest assume at: "tr_at pending good r (taf_body d (TafProperty n v) @ taf_blank k @ rest)" and rest: "taf_start rest"
  from tr_readProperty_at [OF at rest, of eos] obtain r' w where
    r': "tr_readProperty rd eos r = Some (Inr (TafProperty n v, r'))" "list_all tr_space w"
    "tr_at pending good r' (w @ rest)" by blast
  have c: "tr_c r = 34" using at by (auto simp: tr_at_def taf_str_def split: if_splits)
  then have "tr_ws rd eos r = Some (Inr r)" by (intro tr_ws_stop) (simp add: tr_space_def)
  with r' c show "\<exists>r' w. list_all tr_space w \<and> tr_at pending good r' (w @ rest) \<and> tr_content rd eos r =
      obind (tr_content rd eos r') (\<lambda>xr. Some (Inr (TafProperty n v # fst xr, snd xr)))"
    by (intro exI [of _ r'] exI [of _ w] conjI) (simp_all add: tr_content.simps [of rd eos r])
qed

lemma reads_node_comment: "taf_ok (TafComment t e) \<Longrightarrow> reads_node eos d (TafComment t e)"
  unfolding reads_node_def
proof (intro allI impI)
  fix r k rest assume ok: "taf_ok (TafComment t e)"
    and at: "tr_at pending good r (taf_body d (TafComment t e) @ taf_blank k @ rest)" and rest: "taf_start rest"
  from tr_readComment_at [OF at ok rest, of eos] obtain r' w where
    r': "tr_readComment rd eos e r = Some (Inr (TafComment t e, r'))" "list_all tr_space w"
    "tr_at pending good r' (w @ rest)" by blast
  have c: "tr_c r = 47" "tr_la r = (if e then 47 else 42)"
    using at by (auto simp: tr_at_def tr_ahead_def split: if_splits)
  then have "tr_ws rd eos r = Some (Inr r)" by (intro tr_ws_stop) (simp add: tr_space_def)
  with r'(1) c have "tr_content rd eos r = obind (tr_content rd eos r') (\<lambda>xr. Some (Inr (TafComment t e # fst xr, snd xr)))"
    by (cases e) (simp_all add: tr_content.simps [of rd eos r])
  with r'(2,3) show "\<exists>r' w. list_all tr_space w \<and> tr_at pending good r' (w @ rest) \<and> tr_content rd eos r =
      obind (tr_content rd eos r') (\<lambda>xr. Some (Inr (TafComment t e # fst xr, snd xr)))" by blast
qed

lemma reads_nodes_Nil: "reads_nodes eos d []"
  unfolding reads_nodes_def
proof (intro allI impI)
  fix r w k rest assume w: "list_all tr_space w"
    and at: "tr_at pending good r (w @ dropWhile tr_space (taf_texts d [] @ taf_blank k @ 125 # rest))"
  have "tr_at pending good r (w @ 125 # rest)" using at dropWhile_blank [OF taf_brace_start] by simp
  from tr_content_ws [OF this w taf_brace_start, of eos] obtain r' where
    r': "tr_content rd eos r = tr_content rd eos r'" "tr_at pending good r' (125 # rest)" by blast
  have c: "tr_c r' = 125" using r'(2) by (rule tr_at_c)
  then have "tr_ws rd eos r' = Some (Inr r')" by (intro tr_ws_stop) (simp add: tr_space_def)
  with r' c show "\<exists>r'. tr_content rd eos r = Some (Inr ([], r')) \<and> tr_at pending good r' (125 # rest)"
    by (intro exI [of _ r']) (simp add: tr_content.simps [of rd eos r'])
qed

lemma reads_nodes_Cons:
  assumes x: "reads_node eos d x" and xs: "reads_nodes eos d xs"
  shows "reads_nodes eos d (x # xs)"
  unfolding reads_nodes_def
proof (intro allI impI)
  fix r w k rest assume w: "list_all tr_space w"
    and at: "tr_at pending good r (w @ dropWhile tr_space (taf_texts d (x # xs) @ taf_blank k @ 125 # rest))"
  let ?rest = "taf_texts d xs @ taf_blank k @ 125 # rest"
  obtain k' ys where k': "?rest = taf_blank k' @ ys" "taf_start ys" "dropWhile tr_space ?rest = ys"
    using taf_rest_split by blast
  have "dropWhile tr_space (taf_texts d (x # xs) @ taf_blank k @ 125 # rest) = taf_body d x @ ?rest"
    using dropWhile_blank [OF taf_body_start [of d x ?rest]] by (simp add: taf_text_body)
  with at k'(1) have "tr_at pending good r (w @ taf_body d x @ taf_blank k' @ ys)" by simp
  from tr_content_ws [OF this w taf_body_start, of eos] obtain r1 where
    r1: "tr_content rd eos r = tr_content rd eos r1" "tr_at pending good r1 (taf_body d x @ taf_blank k' @ ys)" by blast
  from x r1(2) k'(2) obtain r2 w2 where r2: "list_all tr_space w2" "tr_at pending good r2 (w2 @ ys)"
    "tr_content rd eos r1 = obind (tr_content rd eos r2) (\<lambda>xr. Some (Inr (x # fst xr, snd xr)))"
    unfolding reads_node_def by blast
  from r2(2) k'(3) have "tr_at pending good r2 (w2 @ dropWhile tr_space ?rest)" by simp
  with xs r2(1) obtain r3 where "tr_content rd eos r2 = Some (Inr (xs, r3))" "tr_at pending good r3 (125 # rest)"
    unfolding reads_nodes_def by blast
  with r1(1) r2(3) show "\<exists>r'. tr_content rd eos r = Some (Inr (x # xs, r')) \<and> tr_at pending good r' (125 # rest)"
    by simp
qed

lemma reads_all:
  "taf_ok x \<Longrightarrow> reads_node eos d x" "taf_oks xs \<Longrightarrow> reads_nodes eos d xs"
  by (induction d x and d xs rule: taf_text_taf_texts.induct)
    (simp_all add: reads_node_group reads_node_property reads_node_comment reads_nodes_Nil reads_nodes_Cons)

lemma tr_new_at:
  assumes "good s" "live (pending s)"
  shows "\<exists>r. tr_new rd eos s = Inr r \<and> tr_at pending good r (pending s)"
proof -
  let ?r = "\<lparr>tr_c = 0, tr_la = 0, tr_sIn = s, tr_iLine = 1, tr_iCol = -1\<rparr>"
  have "tr_at pending good ?r (0 # 0 # pending s)" using assms(1) by (simp add: tr_at_def tr_ahead_def)
  from tr_next_at [OF this live_Cons [OF assms(2)], of eos] obtain r1 where
    r1: "tr_next rd eos ?r = Inr r1" "tr_at pending good r1 (0 # pending s)" by blast
  from tr_next_at [OF r1(2) assms(2), of eos] r1(1) show ?thesis by (simp add: tr_new_def)
qed

lemma taf_read_law:
  assumes s: "good s" "pending s = taf_text 0 (TafGroup n ch)" and ok: "taf_oks ch"
  shows "\<exists>r. taf_read rd eos s = Some (Inr (TafGroup n ch, r))"
proof -
  have t: "pending s = taf_body 0 (TafGroup n ch) @ []" using s(2) by (simp add: taf_text_body taf_blank_def)
  have "live (pending s)" unfolding t by (rule taf_start_facts(1) [OF taf_body_start])
  from tr_new_at [OF s(1) this, of eos] obtain r2 where
    r2: "tr_new rd eos s = Inr r2" "tr_at pending good r2 (pending s)" by blast
  from reads_group [OF reads_all(2) [OF ok] r2(2) [unfolded t], of eos] obtain r3 r4 where
    "tr_open rd eos r2 = Some (Inr (n, r3))" "tr_content rd eos r3 = Some (Inr (ch, r4))"
    "tr_at pending good r4 (125 # 10 # [])" by blast
  with r2 show ?thesis
    by (simp add: taf_read_def tr_readGroup_def tr_close_def tr_at_def)
qed

text \<open>
  The escape of a closing brace: the lookahead, which is read already, is lost, because \<open>next\<close> takes
  the current character for one behind which it has not looked.
\<close>

lemma tr_escape_brace:
  assumes at: "tr_at pending good r (92 # 120 # 55 # 68 # x # rest)" and rest: "live rest"
  shows "\<exists>r1 r2. tr_escape rd eos r = Inr r1 \<and> tr_c r1 = 125 \<and> tr_next rd eos r1 = Inr r2 \<and> tr_at pending good r2 rest"
proof -
  from tr_next_at [OF at, of eos] obtain r1 where
    r1: "tr_next rd eos r = Inr r1" "tr_at pending good r1 (120 # 55 # 68 # x # rest)" by auto
  from tr_next_at [OF r1(2), of eos] obtain r2 where
    r2: "tr_next rd eos r1 = Inr r2" "tr_at pending good r2 (55 # 68 # x # rest)" by auto
  from tr_next_at [OF r2(2), of eos] obtain r3 where
    r3: "tr_next rd eos r2 = Inr r3" "tr_at pending good r3 (68 # x # rest)" by auto
  have c: "tr_c r1 = 120" "tr_c r2 = 55" "tr_c r3 = 68"
    using r1(2) r2(2) r3(2) by (auto dest: tr_at_c)
  have "tr_at pending good (r3\<lparr>tr_c := 125\<rparr>) (125 # rest)" using r3(2) c by (simp add: tr_at_def tr_ahead_def)
  from tr_next_at [OF this rest, of eos] obtain r4 where
    "tr_next rd eos (r3\<lparr>tr_c := 125\<rparr>) = Inr r4" "tr_at pending good r4 rest" by blast
  with r1 r2 r3 c show ?thesis
    by (simp add: tr_escape_def strtol16_def hex_value_def)
qed

lemma tr_brace_lost:
  assumes s: "good s" "pending s = 123 # 58 # 34 # 92 # 120 # 55 # 68 # x # concat (map taf_char v) @ [34, 10, 125, 10]"
  shows "\<exists>r. taf_read rd eos s = Some (Inr (TafGroup [] [TafProperty [] (125 # v)], r))"
proof -
  let ?v = "concat (map taf_char v) @ 34 # [10, 125, 10]"
  have v: "live ?v" by (rule live_append) simp
  have "live (pending s)" by (simp add: s(2))
  from tr_new_at [OF s(1) this, of eos] obtain r0 where
    r0: "tr_new rd eos s = Inr r0" "tr_at pending good r0 (123 # (if ([] :: byte list) \<noteq> [] then taf_str [] else []) @
      58 # 34 # 92 # 120 # 55 # 68 # x # ?v)" by (auto simp: s(2))
  from tr_open_at [OF r0(2), of eos] obtain r1 where
    r1: "tr_open rd eos r0 = Some (Inr ([], r1))" "tr_at pending good r1 (34 # 92 # 120 # 55 # 68 # x # ?v)" by auto
  from tr_next_at [OF r1(2), of eos] obtain r2 where
    r2: "tr_next rd eos r1 = Inr r2" "tr_at pending good r2 (92 # 120 # 55 # 68 # x # ?v)" by auto
  from tr_escape_brace [OF r2(2) v, of eos] obtain r3 r4 where
    r3: "tr_escape rd eos r2 = Inr r3" "tr_c r3 = 125" "tr_next rd eos r3 = Inr r4" "tr_at pending good r4 ?v" by blast
  from tr_quoted_at [OF r3(4), of eos] obtain r5 where
    r5: "tr_quoted rd eos r4 = Some (Inr (v, r5))" "tr_at pending good r5 ([10] @ [125, 10])" by auto
  from tr_ws_at [OF r5(2), of eos] obtain r6 where
    r6: "tr_ws rd eos r5 = Some (Inr r6)" "tr_at pending good r6 [125, 10]" by (auto simp: tr_space_def)
  have c: "tr_c r1 = 34" "tr_c r2 = 92" "tr_c r6 = 125" using r1(2) r2(2) r6(2) by (auto dest: tr_at_c)
  have w: "tr_ws rd eos r1 = Some (Inr r1)" "tr_ws rd eos r6 = Some (Inr r6)"
    using c by (auto intro!: tr_ws_stop simp: tr_space_def)
  have p: "tr_readProperty rd eos r1 = Some (Inr (TafProperty [] (125 # v), r6))"
    using r2(1) r3 r5(1) r6(1) c w by (simp add: tr_readProperty_def tr_readStr_def tr_quoted.simps [of rd eos r2])
  have "tr_content rd eos r6 = Some (Inr ([], r6))"
    using c w by (simp add: tr_content.simps [of rd eos r6])
  with p c w have "tr_content rd eos r1 = Some (Inr ([TafProperty [] (125 # v)], r6))"
    by (simp add: tr_content.simps [of rd eos r1])
  with r0(1) r1(1) c show ?thesis
    by (simp add: taf_read_def tr_readGroup_def tr_close_def)
qed

end

section \<open>Properties\<close>

text \<open>
  C6. A tree written to a buffer reads back as the same tree.
\<close>

theorem taf_roundtrip:
  assumes "taf_oks ch"
  shows "\<exists>m r. taf_write mb_write (mb_new []) (TafGroup n ch) = Inr m \<and>
    taf_read mb_read mb_isEos (mb_setPos m 0) = Some (Inr (TafGroup n ch, r))"
proof -
  obtain m where m: "taf_write mb_write (mb_new []) (TafGroup n ch) = Inr m" "mb_sBuf m = taf_text 0 (TafGroup n ch)"
    using membuf_sink.taf_write_law [of "mb_new []" "TafGroup n ch"] by (auto simp: mb_new_def mb_getSize_def)
  have "mb_wf (mb_setPos m 0)" "mb_pending (mb_setPos m 0) = taf_text 0 (TafGroup n ch)"
    using m(2) by (auto simp: mb_wf_def mb_setPos_def mb_clamp_def mb_pending_def mb_getSize_def)
  from membuf.taf_read_law [OF this assms, of mb_isEos] m(1) show ?thesis by blast
qed

theorem taf_roundtrip_witness:
  "\<exists>m r. taf_write mb_write (mb_new []) (TafGroup [97] [TafProperty [98] [1, 125, 34], TafGroup [] [TafComment [42] False]]) = Inr m \<and>
    taf_read mb_read mb_isEos (mb_setPos m 0) =
      Some (Inr (TafGroup [97] [TafProperty [98] [1, 125, 34], TafGroup [] [TafComment [42] False]], r))"
  by (rule taf_roundtrip) simp

end
