(* ===== verification/Bu_TafEnds.thy ===== *)
theory Bu_TafEnds
  imports Bu_TafParse
begin

text \<open>
  The parser of \<open>Bu_Taf\<close> (which leaves out the hash tables of the groups) returns, with a tree or an
  error, on every stream that has an end. What is
  left of the text shrinks with every step of \<open>next\<close>; only the character an escape stands for can
  let it grow by one, behind three steps.
\<close>

section \<open>A small logic of computations that return\<close>

definition rets :: "('a \<Rightarrow> bool) \<Rightarrow> 'a result option \<Rightarrow> bool" where
  "rets Q m \<longleftrightarrow> (\<exists>x. m = Some (Inr x) \<and> Q x) \<or> (\<exists>t. m = Some (Inl (TafException t)))"

lemma rets_simps [simp]:
  "rets Q (Some (Inl e)) \<longleftrightarrow> (\<exists>t. e = TafException t)" "rets Q (Some (Inr x)) \<longleftrightarrow> Q x" "\<not> rets Q None"
  by (simp_all add: rets_def)

lemma rets_obind: "rets P m \<Longrightarrow> (\<And>x. P x \<Longrightarrow> rets Q (f x)) \<Longrightarrow> rets Q (obind m f)"
  unfolding rets_def [of P] by (elim exE conjE disjE) simp_all

lemma rets_mono: "rets P m \<Longrightarrow> (\<And>x. P x \<Longrightarrow> Q x) \<Longrightarrow> rets Q m"
  by (auto simp: rets_def)

lemma obind_Some: "obind (Some r) (\<lambda>x. Some (f x)) = Some (rbind r f)"
  by (cases r) simp_all

section \<open>The reader\<close>

context byte_source begin

text \<open>Less than \<open>b\<close> characters stand behind the current one.\<close>

definition below :: "nat \<Rightarrow> 's taf_reader \<Rightarrow> bool" where
  "below b r \<longleftrightarrow> good (tr_sIn r) \<and> length (tr_ahead pending r) < b"

lemma below_0 [simp]: "\<not> below 0 r"
  by (simp add: below_def)

lemma below_Suc: "below b r \<Longrightarrow> below (Suc b) r"
  by (simp add: below_def)

lemma tr_next_shrinks:
  assumes "good (tr_sIn r)" "tr_next rd eos r = Inr r'"
  shows "good (tr_sIn r') \<and> length (tr_ahead pending r) = Suc (length (tr_ahead pending r'))"
proof -
  from tr_next_law [OF assms(1), of eos] assms(2) have "tr_at pending good r' (tr_ahead pending r)"
    by (auto split: if_splits)
  then show ?thesis by (simp add: tr_at_def)
qed

lemma tr_next_below:
  assumes "below (Suc b) r"
  shows "rets (below b) (Some (tr_next rd eos r))"
proof (cases "tr_next rd eos r")
  case (Inl e)
  with tr_next_law [of r eos] assms show ?thesis by (auto simp: below_def split: if_splits)
next
  case (Inr r')
  with tr_next_shrinks [OF _ Inr] assms show ?thesis by (simp add: below_def)
qed

lemma tr_skip1_below: "below b r \<Longrightarrow> rets (below b) (Some (tr_next rd eos r))"
  by (rule tr_next_below [OF below_Suc])

lemma tr_ws_below: "below b r \<Longrightarrow> rets (below b) (tr_ws rd eos r)"
proof (induction b arbitrary: r)
  case 0
  then show ?case by simp
next
  case (Suc b)
  show ?case
  proof (cases "tr_space (tr_c r)")
    case True
    then have "tr_ws rd eos r = obind (Some (tr_next rd eos r)) (tr_ws rd eos)"
      by (simp add: tr_ws.simps [of rd eos r])
    moreover have "rets (below (Suc b)) (obind (Some (tr_next rd eos r)) (tr_ws rd eos))"
      by (rule rets_obind [OF tr_next_below [OF Suc.prems]]) (rule rets_mono [OF Suc.IH below_Suc])
    ultimately show ?thesis by simp
  next
    case False
    with Suc.prems show ?thesis by (simp add: tr_ws.simps [of rd eos r])
  qed
qed

lemma tr_ahead_c: "length (tr_ahead pending (r\<lparr>tr_c := x\<rparr>)) \<le> Suc (length (tr_ahead pending r))"
  by (simp add: tr_ahead_def)

lemma tr_escape_below:
  assumes "below b r"
  shows "rets (below b) (Some (tr_escape rd eos r))"
proof (cases "\<exists>b'. b = Suc b'")
  case False
  with assms show ?thesis by (cases b) simp_all
next
  case True
  then obtain b' where b: "b = Suc b'" by blast
  have code: "rets (below b) (Some (rbind (tr_next rd eos r1) (\<lambda>r2. rbind (tr_next rd eos r2) (\<lambda>r3.
          Inr (r3\<lparr>tr_c := word_of_int (strtol16 [tr_c r2, tr_c r3])\<rparr>)))))" if "below b' r1" for r1
    unfolding obind_Some [symmetric]
  proof (rule rets_obind [OF tr_skip1_below [OF that]], rule rets_obind, erule tr_skip1_below)
    fix r2 r3 assume "below b' r3"
    then show "rets (below b) (Some (Inr (r3\<lparr>tr_c := word_of_int (strtol16 [tr_c r2, tr_c r3])\<rparr>)))"
      using tr_ahead_c [where r = r3 and x = "word_of_int (strtol16 [tr_c r2, tr_c r3])"] by (simp add: below_def b)
  qed
  show ?thesis unfolding tr_escape_def obind_Some [symmetric]
  proof (rule rets_obind [OF tr_next_below [OF assms [unfolded b]]])
    fix r1 assume r1: "below b' r1"
    then have "below b (r1\<lparr>tr_c := x\<rparr>)" for x
      using tr_ahead_c [where r = r1 and x = x] by (simp add: below_def b)
    with code [OF r1] show "rets (below b) (Some (if tr_c r1 = 120
     then rbind (tr_next rd eos r1) (\<lambda>r2. rbind (tr_next rd eos r2) (\<lambda>r3.
          Inr (r3\<lparr>tr_c := word_of_int (strtol16 [tr_c r2, tr_c r3])\<rparr>)))
     else if tr_c r1 = 34 then Inr (r1\<lparr>tr_c := 34\<rparr>)
     else if tr_c r1 = 92 then Inr (r1\<lparr>tr_c := 92\<rparr>)
     else if tr_c r1 = 110 then Inr (r1\<lparr>tr_c := 10\<rparr>)
     else if tr_c r1 = 116 then Inr (r1\<lparr>tr_c := 9\<rparr>)
     else Inl (TafException ''Invalid escape sequence'')))"
      by simp
  qed
qed

lemma tr_quoted_below: "below b r \<Longrightarrow> rets (\<lambda>sr. below b (snd sr)) (tr_quoted rd eos r)"
proof (induction b arbitrary: r)
  case 0
  then show ?case by simp
next
  case (Suc b)
  have close: "rets (\<lambda>sr. below (Suc b) (snd sr)) (obind (Some (tr_next rd eos r)) (\<lambda>r1. Some (Inr ([] :: byte list, r1))))"
    by (rule rets_obind [OF tr_next_below [OF Suc.prems]]) (simp add: below_Suc)
  have esc: "rets (below (Suc b)) (Some (if tr_c r = 92 then tr_escape rd eos r else Inr r))"
    using tr_escape_below [OF Suc.prems] Suc.prems by simp
  have "rets (\<lambda>sr. below (Suc b) (snd sr)) (obind (Some (if tr_c r = 92 then tr_escape rd eos r else Inr r)) (\<lambda>r1.
           obind (Some (tr_next rd eos r1)) (\<lambda>r2.
           obind (tr_quoted rd eos r2) (\<lambda>sr. Some (Inr (tr_c r1 # fst sr, snd sr))))))"
  proof (rule rets_obind [OF esc], rule rets_obind [OF tr_next_below], assumption)
    fix r1 r2 assume "below b r2"
    then show "rets (\<lambda>sr. below (Suc b) (snd sr)) (obind (tr_quoted rd eos r2) (\<lambda>sr. Some (Inr (tr_c r1 # fst sr, snd sr))))"
      by (rule rets_obind [OF Suc.IH]) (simp_all add: below_Suc)
  qed
  with close show ?case unfolding tr_quoted.simps [of rd eos r] by simp
qed

lemma tr_unquoted_below: "below b r \<Longrightarrow> rets (\<lambda>sr. below b (snd sr)) (tr_unquoted rd eos r)"
proof (induction b arbitrary: r)
  case 0
  then show ?case by simp
next
  case (Suc b)
  have "rets (\<lambda>sr. below (Suc b) (snd sr)) (obind (Some (tr_next rd eos r)) (\<lambda>r1.
           obind (tr_unquoted rd eos r1) (\<lambda>sr. Some (Inr (tr_c r # fst sr, snd sr)))))"
    by (rule rets_obind [OF tr_next_below [OF Suc.prems]], rule rets_obind [OF Suc.IH]) (simp_all add: below_Suc)
  with Suc.prems show ?case unfolding tr_unquoted.simps [of rd eos r] by simp
qed

lemma tr_unquoted_strict:
  assumes "below (Suc b) r" "\<not> tr_stops (tr_c r)"
  shows "rets (\<lambda>sr. below b (snd sr)) (tr_unquoted rd eos r)"
proof -
  have "rets (\<lambda>sr. below b (snd sr)) (obind (Some (tr_next rd eos r)) (\<lambda>r1.
           obind (tr_unquoted rd eos r1) (\<lambda>sr. Some (Inr (tr_c r # fst sr, snd sr)))))"
    by (rule rets_obind [OF tr_next_below [OF assms(1)]], rule rets_obind [OF tr_unquoted_below]) simp_all
  with assms(2) show ?thesis unfolding tr_unquoted.simps [of rd eos r] by simp
qed

lemma tr_quoted_start: "below (Suc b) r \<Longrightarrow> rets (\<lambda>sr. below b (snd sr)) (obind (Some (tr_next rd eos r)) (tr_quoted rd eos))"
  by (rule rets_obind, erule tr_next_below, erule tr_quoted_below)

lemma tr_readStr_below: "below b r \<Longrightarrow> rets (\<lambda>sr. below b (snd sr)) (tr_readStr rd eos r)"
  unfolding tr_readStr_def
proof (rule rets_obind [OF tr_ws_below], assumption)
  fix r1 assume b: "below b r1"
  then obtain b' where b': "b = Suc b'" by (cases b) simp_all
  have "rets (\<lambda>sr. below b (snd sr)) (obind (Some (tr_next rd eos r1)) (tr_quoted rd eos))"
    using b unfolding b' by (rule rets_mono [OF tr_quoted_start]) (rule below_Suc)
  with tr_unquoted_below [OF b, of eos]
  show "rets (\<lambda>sr. below b (snd sr))
      (if tr_c r1 = 34 then obind (Some (tr_next rd eos r1)) (tr_quoted rd eos) else tr_unquoted rd eos r1)"
    by simp
qed

lemma tr_readProperty_below:
  assumes b: "below (Suc b) r" and c: "\<not> tr_space (tr_c r)" "tr_c r \<notin> {123, 125, 58}"
  shows "rets (\<lambda>xr. below b (snd xr)) (tr_readProperty rd eos r)"
proof (cases "tr_c r = 61")
  case True
  then have rs: "tr_readStr rd eos r = Some (Inr ([], r))"
    using c by (simp add: tr_readStr_def tr_ws_stop tr_unquoted.simps [of rd eos r] tr_stops_def)
  have "rets (\<lambda>xr. below b (snd xr)) (obind (Some (tr_next rd eos r)) (\<lambda>r3.
      obind (tr_readStr rd eos r3) (\<lambda>(sValue, r4). Some (Inr (TafProperty [] sValue, r4)))))"
    by (rule rets_obind [OF tr_next_below [OF b]], rule rets_obind [OF tr_readStr_below]) (auto split: prod.splits)
  with rs True c show ?thesis by (simp add: tr_readProperty_def tr_ws_stop)
next
  case False
  have rs: "rets (\<lambda>sr. below b (snd sr)) (tr_readStr rd eos r)"
    using tr_quoted_start [OF b, of eos] tr_unquoted_strict [OF b, of eos] c False
    by (simp add: tr_readStr_def tr_ws_stop tr_stops_def)
  have val: "rets (\<lambda>xr. below b (snd xr)) (obind (Some (tr_next rd eos r2)) (\<lambda>r3.
      obind (tr_readStr rd eos r3) (\<lambda>(sValue, r4). Some (Inr (TafProperty n sValue, r4)))))" if "below b r2" for n r2
  proof -
    have "below (Suc b) r2" using that by (rule below_Suc)
    from tr_next_below [OF this] show ?thesis
      by (rule rets_obind, intro rets_obind [OF tr_readStr_below]) (auto split: prod.splits)
  qed
  show ?thesis unfolding tr_readProperty_def
  proof (rule rets_obind [OF rs])
    fix nr :: "byte list \<times> 's taf_reader" assume n: "below b (snd nr)"
    obtain n r1 where nr: "nr = (n, r1)" by (cases nr)
    have "rets (\<lambda>xr. below b (snd xr)) (obind (tr_ws rd eos r1) (\<lambda>r2.
       if tr_c r2 \<noteq> 61 then Some (Inr (TafProperty [] n, r2))
       else obind (Some (tr_next rd eos r2)) (\<lambda>r3.
            obind (tr_readStr rd eos r3) (\<lambda>(sValue, r4). Some (Inr (TafProperty n sValue, r4))))))"
      by (rule rets_obind [OF tr_ws_below, of b]) (use n nr val in auto)
    then show "rets (\<lambda>xr. below b (snd xr)) (case nr of (sName, r1) \<Rightarrow> obind (tr_ws rd eos r1) (\<lambda>r2.
       if tr_c r2 \<noteq> 61 then Some (Inr (TafProperty [] sName, r2))
       else obind (Some (tr_next rd eos r2)) (\<lambda>r3.
            obind (tr_readStr rd eos r3) (\<lambda>(sValue, r4). Some (Inr (TafProperty sName sValue, r4))))))"
      by (simp add: nr)
  qed
qed

lemma tr_skip2_below: "below b r \<Longrightarrow> rets (below b) (Some (rbind (tr_next rd eos r) (tr_next rd eos)))"
  unfolding obind_Some [symmetric] by (rule rets_obind, erule tr_skip1_below, erule tr_skip1_below)

lemma tr_line_comment_below: "below b r \<Longrightarrow> rets (\<lambda>sr. below b (snd sr)) (tr_line_comment rd eos r)"
proof (induction b arbitrary: r)
  case 0
  then show ?case by simp
next
  case (Suc b)
  have "rets (\<lambda>sr. below (Suc b) (snd sr)) (if tr_c r1 = 10 \<and> tr_la r1 = 13
     then obind (Some (rbind (tr_next rd eos r1) (tr_next rd eos))) (\<lambda>r2. Some (Inr ([], r2)))
     else if tr_c r1 = 10 \<or> tr_c r1 = 13 then obind (Some (tr_next rd eos r1)) (\<lambda>r2. Some (Inr ([], r2)))
     else obind (tr_line_comment rd eos r1) (\<lambda>sr. Some (Inr (tr_c r1 # fst sr, snd sr))))"
    if b: "below b r1" for r1
    using rets_obind [OF tr_skip2_below [OF b, of eos], of "\<lambda>sr. below (Suc b) (snd sr)" "\<lambda>r2. Some (Inr ([] :: byte list, r2))"]
      rets_obind [OF tr_skip1_below [OF b, of eos], of "\<lambda>sr. below (Suc b) (snd sr)" "\<lambda>r2. Some (Inr ([] :: byte list, r2))"]
      rets_obind [OF Suc.IH [OF b], of "\<lambda>sr. below (Suc b) (snd sr)" "\<lambda>sr. Some (Inr (tr_c r1 # fst sr, snd sr))"]
    by (simp add: below_Suc)
  from rets_obind [OF tr_next_below [OF Suc.prems] this] show ?case by (subst tr_line_comment.simps)
qed

lemma tr_block_comment_below: "below b r \<Longrightarrow> rets (\<lambda>sr. below b (snd sr)) (tr_block_comment rd eos r)"
proof (induction b arbitrary: r)
  case 0
  then show ?case by simp
next
  case (Suc b)
  have "rets (\<lambda>sr. below (Suc b) (snd sr)) (if tr_c r1 = 42 \<and> tr_la r1 = 47
     then obind (Some (rbind (tr_next rd eos r1) (tr_next rd eos))) (\<lambda>r2. Some (Inr ([], r2)))
     else obind (tr_block_comment rd eos r1) (\<lambda>sr. Some (Inr (tr_c r1 # fst sr, snd sr))))"
    if b: "below b r1" for r1
    using rets_obind [OF tr_skip2_below [OF b, of eos], of "\<lambda>sr. below (Suc b) (snd sr)" "\<lambda>r2. Some (Inr ([] :: byte list, r2))"]
      rets_obind [OF Suc.IH [OF b], of "\<lambda>sr. below (Suc b) (snd sr)" "\<lambda>sr. Some (Inr (tr_c r1 # fst sr, snd sr))"]
    by (simp add: below_Suc)
  from rets_obind [OF tr_next_below [OF Suc.prems] this] show ?case by (subst tr_block_comment.simps)
qed

lemma tr_readComment_below:
  assumes "below (Suc b) r"
  shows "rets (\<lambda>xr. below b (snd xr)) (tr_readComment rd eos e r)"
  unfolding tr_readComment_def
proof (rule rets_obind [OF tr_next_below [OF assms]])
  fix r1 assume b: "below b r1"
  have "rets (\<lambda>sr. below b (snd sr)) (if e then tr_line_comment rd eos r1 else tr_block_comment rd eos r1)"
    using tr_line_comment_below [OF b] tr_block_comment_below [OF b] by simp
  then show "rets (\<lambda>xr. below b (snd xr)) (obind (if e then tr_line_comment rd eos r1 else tr_block_comment rd eos r1)
      (\<lambda>(s, r2). Some (Inr (TafComment s e, r2))))"
    by (rule rets_obind) (auto split: prod.splits)
qed

lemma tr_open_below:
  assumes b: "below (Suc b) r" and c: "\<not> tr_space (tr_c r)"
  shows "rets (\<lambda>nr. below b (snd nr)) (tr_open rd eos r)"
proof -
  have colon: "rets (\<lambda>nr. below b (snd nr)) (obind (tr_ws rd eos r4) (\<lambda>r5.
          if tr_c r5 \<noteq> 58 then Some (Inl (TafException ''Expected :''))
          else obind (Some (tr_next rd eos r5)) (\<lambda>r6. Some (Inr (n, r6)))))" if b4: "below b r4" for n :: "byte list" and r4
  proof (rule rets_obind [OF tr_ws_below [OF b4]])
    fix r5 assume "below b r5"
    from rets_obind [OF tr_skip1_below [OF this, of eos], of "\<lambda>nr. below b (snd nr)" "\<lambda>r6. Some (Inr (n, r6))"]
    show "rets (\<lambda>nr. below b (snd nr)) (if tr_c r5 \<noteq> 58 then Some (Inl (TafException ''Expected :''))
          else obind (Some (tr_next rd eos r5)) (\<lambda>r6. Some (Inr (n, r6))))" by simp
  qed
  have name: "rets (\<lambda>nr. below b (snd nr)) (obind (tr_readStr rd eos r3) (\<lambda>(n, r4). obind (tr_ws rd eos r4) (\<lambda>r5.
          if tr_c r5 \<noteq> 58 then Some (Inl (TafException ''Expected :''))
          else obind (Some (tr_next rd eos r5)) (\<lambda>r6. Some (Inr (n, r6))))))" if b3: "below b r3" for r3
    by (rule rets_obind [OF tr_readStr_below [OF b3]]) (auto intro: colon split: prod.splits)
  have "rets (\<lambda>nr. below b (snd nr)) (obind (Some (tr_next rd eos r)) (\<lambda>r2. obind (tr_ws rd eos r2) (\<lambda>r3.
          obind (tr_readStr rd eos r3) (\<lambda>(n, r4). obind (tr_ws rd eos r4) (\<lambda>r5.
          if tr_c r5 \<noteq> 58 then Some (Inl (TafException ''Expected :''))
          else obind (Some (tr_next rd eos r5)) (\<lambda>r6. Some (Inr (n, r6))))))))"
    by (rule rets_obind [OF tr_next_below [OF b]], rule rets_obind, erule tr_ws_below, erule name)
  with c show ?thesis by (simp add: tr_open_def tr_ws_stop)
qed

lemma tr_ws_content: "below b r \<Longrightarrow> rets (\<lambda>r1. below b r1 \<and> \<not> tr_space (tr_c r1)) (tr_ws rd eos r)"
proof (induction b arbitrary: r)
  case 0
  then show ?case by simp
next
  case (Suc b)
  show ?case
  proof (cases "tr_space (tr_c r)")
    case True
    then have "tr_ws rd eos r = obind (Some (tr_next rd eos r)) (tr_ws rd eos)"
      by (simp add: tr_ws.simps [of rd eos r])
    moreover have "rets (\<lambda>r1. below (Suc b) r1 \<and> \<not> tr_space (tr_c r1)) (obind (Some (tr_next rd eos r)) (tr_ws rd eos))"
      by (rule rets_obind [OF tr_next_below [OF Suc.prems]], rule rets_mono [OF Suc.IH]) (simp_all add: below_Suc)
    ultimately show ?thesis by simp
  next
    case False
    with Suc.prems show ?thesis by (simp add: tr_ws.simps [of rd eos r])
  qed
qed

lemma tr_close_below: "below b r \<Longrightarrow> rets (below b) (Some (rbind (tr_close r) (\<lambda>u. tr_next rd eos r)))"
  using tr_skip1_below [of b r eos] by (simp add: tr_close_def)

lemma tr_content_below: "below b r \<Longrightarrow> rets (\<lambda>xr. below b (snd xr)) (tr_content rd eos r)"
proof (induction b arbitrary: r)
  case 0
  then show ?case by simp
next
  case (Suc b)
  have more: "rets (\<lambda>xr. below (Suc b) (snd xr)) (obind (tr_content rd eos r2) (\<lambda>xr. Some (Inr (x # fst xr, snd xr))))"
    if "below b r2" for x r2
    by (rule rets_obind [OF Suc.IH [OF that]]) (simp add: below_Suc)
  have group: "rets (\<lambda>xr. below (Suc b) (snd xr)) (obind (tr_open rd eos r1) (\<lambda>nr.
          obind (tr_content rd eos (snd nr)) (\<lambda>cr.
          obind (Some (rbind (tr_close (snd cr)) (\<lambda>u. tr_next rd eos (snd cr)))) (\<lambda>r2.
          obind (tr_content rd eos r2) (\<lambda>xr. Some (Inr (TafGroup (fst nr) (fst cr) # fst xr, snd xr)))))))"
    if b: "below (Suc b) r1" "\<not> tr_space (tr_c r1)" for r1
    by (rule rets_obind [OF tr_open_below [OF b]], rule rets_obind, erule Suc.IH,
        rule rets_obind, erule tr_close_below, erule more)
  have item: "rets (\<lambda>xr. below (Suc b) (snd xr)) (obind m (\<lambda>nr.
          obind (tr_content rd eos (snd nr)) (\<lambda>xr. Some (Inr (fst nr # fst xr, snd xr)))))"
    if "rets (\<lambda>xr. below b (snd xr)) m" for m
    by (rule rets_obind [OF that], erule more)
  show ?case unfolding tr_content.simps [of rd eos r]
  proof (rule rets_obind [OF tr_ws_content [OF Suc.prems]], elim conjE)
    fix r1 assume r1: "below (Suc b) r1" "\<not> tr_space (tr_c r1)"
    have m: "rets (\<lambda>xr. below b (snd xr)) (if tr_c r1 = 47 \<and> tr_la r1 = 42 then tr_readComment rd eos False r1
                 else if tr_c r1 = 47 \<and> tr_la r1 = 47 then tr_readComment rd eos True r1
                 else tr_readProperty rd eos r1)" if "tr_c r1 \<notin> {123, 125, 58}"
      using tr_readComment_below [OF r1(1)] tr_readProperty_below [OF r1 that] by simp
    from group [OF r1] item [OF m] r1(1)
    show "rets (\<lambda>xr. below (Suc b) (snd xr)) (if tr_c r1 = 123
     then obind (tr_open rd eos r1) (\<lambda>nr.
          obind (tr_content rd eos (snd nr)) (\<lambda>cr.
          obind (Some (rbind (tr_close (snd cr)) (\<lambda>u. tr_next rd eos (snd cr)))) (\<lambda>r2.
          obind (tr_content rd eos r2) (\<lambda>xr. Some (Inr (TafGroup (fst nr) (fst cr) # fst xr, snd xr))))))
     else if tr_c r1 = 125 then Some (Inr ([], r1))
     else if tr_c r1 = 58 then Some (Inl (TafException ''Encountered stray : in taf stream.''))
     else obind (if tr_c r1 = 47 \<and> tr_la r1 = 42 then tr_readComment rd eos False r1
                 else if tr_c r1 = 47 \<and> tr_la r1 = 47 then tr_readComment rd eos True r1
                 else tr_readProperty rd eos r1) (\<lambda>nr.
          obind (tr_content rd eos (snd nr)) (\<lambda>xr. Some (Inr (fst nr # fst xr, snd xr)))))"
      by (cases "tr_c r1 \<in> {123, 125, 58}") (auto simp del: obind_simps)
  qed
qed

lemma tr_open_ws:
  assumes "below b r"
  shows "rets (\<lambda>nr. below b (snd nr)) (tr_open rd eos r)"
proof -
  from assms obtain b' where b: "b = Suc b'" by (cases b) simp_all
  from tr_ws_content [OF assms, of eos] consider
    r1 where "tr_ws rd eos r = Some (Inr r1)" "below b r1" "\<not> tr_space (tr_c r1)"
    | t where "tr_ws rd eos r = Some (Inl (TafException t))" by (auto simp: rets_def)
  then show ?thesis
  proof cases
    case 1
    then have "tr_open rd eos r = tr_open rd eos r1" by (simp add: tr_open_def tr_ws_stop)
    with rets_mono [OF tr_open_below [OF 1(2) [unfolded b] 1(3)]] show ?thesis by (simp add: b below_Suc)
  next
    case 2
    then show ?thesis by (simp add: tr_open_def)
  qed
qed

lemma tr_readGroup_rets: "below b r \<Longrightarrow> rets (\<lambda>x. True) (tr_readGroup rd eos r)"
  unfolding tr_readGroup_def
proof (rule rets_obind [OF tr_open_ws], assumption)
  fix nr :: "byte list \<times> 's taf_reader" assume b: "below b (snd nr)"
  obtain n r1 where nr: "nr = (n, r1)" by (cases nr)
  have "rets (\<lambda>x. True) (obind (tr_content rd eos r1) (\<lambda>(ch, r2). obind (Some (tr_close r2)) (\<lambda>u. Some (Inr (TafGroup n ch, r2)))))"
    by (rule rets_obind [OF tr_content_below, of b]) (use b nr in \<open>auto simp: tr_close_def split: prod.splits\<close>)
  then show "rets (\<lambda>x. True) (case nr of (sName, r1) \<Rightarrow>
      obind (tr_content rd eos r1) (\<lambda>(ch, r2). obind (Some (tr_close r2)) (\<lambda>u. Some (Inr (TafGroup sName ch, r2)))))"
    by (simp add: nr)
qed

lemma taf_read_rets:
  assumes "good s"
  shows "rets (\<lambda>x. True) (taf_read rd eos s)"
proof -
  let ?r = "\<lparr>tr_c = 0, tr_la = 0, tr_sIn = s, tr_iLine = 1, tr_iCol = -1\<rparr>" and ?b = "Suc (length (0 # pending s))"
  have "below ?b ?r" using assms by (simp add: below_def tr_ahead_def)
  from tr_skip2_below [OF this, of eos] have "rets (below ?b) (Some (tr_new rd eos s))" by (simp add: tr_new_def)
  then show ?thesis unfolding taf_read_def by (rule rets_obind) (rule tr_readGroup_rets)
qed

end

section \<open>Properties\<close>

text \<open>
  The parser of \<open>Bu_Taf\<close> ends on every text. The hash tables of the groups it builds are not part of
  it: when their insertions return is the subject of \<open>Bu_TafTable\<close>.
\<close>

theorem taf_read_returns:
  "(\<exists>g r. taf_read mb_read mb_isEos (mb_new t) = Some (Inr (g, r))) \<or>
   (\<exists>e. taf_read mb_read mb_isEos (mb_new t) = Some (Inl (TafException e)))"
  using membuf.taf_read_rets [of "mb_new t" mb_isEos] by (auto simp: rets_def)

text \<open>
  The escape \<open>\x7D\<close> in a quoted string swallows the character behind it: whatever \<open>x\<close> is, it is
  not part of the value that is read.
\<close>

theorem taf_brace_escape_drops:
  "\<exists>r. taf_read mb_read mb_isEos
       (mb_new (123 # 58 # 34 # 92 # 120 # 55 # 68 # x # concat (map taf_char v) @ [34, 10, 125, 10])) =
     Some (Inr (TafGroup [] [TafProperty [] (125 # v)], r))"
  by (rule membuf.tr_brace_lost) simp_all

end
