(* ===== verification/Bu_TafGroup.thy ===== *)
theory Bu_TafGroup
  imports Bu_Taf
begin

text \<open>
  \<open>Bu::TafGroup\<close> (\<open>src/stable/tafgroup.cpp\<close>): the children of a group in order, with two hash tables
  over them that \<open>addChild\<close> keeps up to date, and the look-ups by name and by path. The hash tables
  are used through their abstract behaviour, as partial maps; \<open>Bu_TafTable\<close> shows when the tables of
  the code behave so, and when they do not return.
\<close>

section \<open>The group\<close>

record taf_group =
  tg_sName :: "byte list"
  tg_hProp :: "byte list \<rightharpoonup> byte list list"
  tg_hChildren :: "byte list \<rightharpoonup> taf_node list"
  tg_lChildren :: "taf_node list"

definition tg_new :: "byte list \<Rightarrow> taf_group" where
  "tg_new sName = \<lparr>tg_sName = sName, tg_hProp = Map.empty, tg_hChildren = Map.empty, tg_lChildren = []\<rparr>"

definition tg_setName :: "taf_group \<Rightarrow> byte list \<Rightarrow> taf_group" where
  "tg_setName g sName = g\<lparr>tg_sName := sName\<rparr>"

text \<open>\<open>if( !h.has( n ) ) h.insert( n, List() ); h.get( n ).append( x )\<close>\<close>

definition tab_append :: "(byte list \<rightharpoonup> 'a list) \<Rightarrow> byte list \<Rightarrow> 'a \<Rightarrow> (byte list \<rightharpoonup> 'a list)" where
  "tab_append h n x =
     (let h1 = (if h n = None then h(n \<mapsto> []) else h) in
      case h1 n of None \<Rightarrow> h1 | Some xs \<Rightarrow> h1(n \<mapsto> xs @ [x]))"

fun tg_addChild :: "taf_group \<Rightarrow> taf_node \<Rightarrow> taf_group" where
  "tg_addChild g (TafGroup n ch) =
     g\<lparr>tg_hChildren := tab_append (tg_hChildren g) n (TafGroup n ch), tg_lChildren := tg_lChildren g @ [TafGroup n ch]\<rparr>"
| "tg_addChild g (TafProperty n v) =
     g\<lparr>tg_hProp := tab_append (tg_hProp g) n v, tg_lChildren := tg_lChildren g @ [TafProperty n v]\<rparr>"
| "tg_addChild g (TafComment t e) = g\<lparr>tg_lChildren := tg_lChildren g @ [TafComment t e]\<rparr>"

definition tg_addGroup :: "taf_group \<Rightarrow> byte list \<Rightarrow> taf_group" where
  "tg_addGroup g sName = tg_addChild g (TafGroup sName [])"

definition tg_addProperty :: "taf_group \<Rightarrow> byte list \<Rightarrow> byte list \<Rightarrow> taf_group" where
  "tg_addProperty g sName sValue = tg_addChild g (TafProperty sName sValue)"

text \<open>A group that was built from its children, as the reader and the copy constructor do.\<close>

definition tg_build :: "byte list \<Rightarrow> taf_node list \<Rightarrow> taf_group" where
  "tg_build sName ch = foldl tg_addChild (tg_new sName) ch"

fun tg_of :: "taf_node \<Rightarrow> taf_group" where
  "tg_of (TafGroup n ch) = tg_build n ch"
| "tg_of (TafProperty n v) = tg_new []"
| "tg_of (TafComment t e) = tg_new []"

text \<open>The copy constructor copies what is below a group node by node.\<close>

fun taf_copy :: "taf_node \<Rightarrow> taf_node" and taf_copies :: "taf_node list \<Rightarrow> taf_node list" where
  "taf_copy (TafGroup n ch) = TafGroup n (taf_copies ch)"
| "taf_copy (TafProperty n v) = TafProperty n v"
| "taf_copy (TafComment t e) = TafComment t e"
| "taf_copies [] = []"
| "taf_copies (x # xs) = taf_copy x # taf_copies xs"

definition tg_copy :: "taf_group \<Rightarrow> taf_group" where
  "tg_copy g = tg_build (tg_sName g) (taf_copies (tg_lChildren g))"

section \<open>Looking up\<close>

definition tg_hasChild :: "taf_group \<Rightarrow> byte list \<Rightarrow> bool" where
  "tg_hasChild g sName \<longleftrightarrow> tg_hChildren g sName \<noteq> None"

definition tg_hasProperty :: "taf_group \<Rightarrow> byte list \<Rightarrow> bool" where
  "tg_hasProperty g sName \<longleftrightarrow> tg_hProp g sName \<noteq> None"

definition tg_getChildren :: "taf_group \<Rightarrow> byte list \<Rightarrow> taf_node list result" where
  "tg_getChildren g sName =
     (case tg_hChildren g sName of None \<Rightarrow> Inl (TafException ''No children of group match.'') | Some l \<Rightarrow> Inr l)"

definition tg_getProperties :: "taf_group \<Rightarrow> byte list \<Rightarrow> byte list list result" where
  "tg_getProperties g sName =
     (case tg_hProp g sName of None \<Rightarrow> Inl (TafException ''No properties of group match.'') | Some l \<Rightarrow> Inr l)"

text \<open>\<open>first\<close> of an empty list follows a null pointer.\<close>

definition fst_of :: "'a list \<Rightarrow> 'a result" where
  "fst_of l = (case l of [] \<Rightarrow> Inl Out_Of_Bounds | x # xs \<Rightarrow> Inr x)"

definition tg_getChild :: "taf_group \<Rightarrow> byte list \<Rightarrow> taf_node result" where
  "tg_getChild g sName =
     (case tg_hChildren g sName of None \<Rightarrow> Inl (TafException ''No children of group match.'') | Some l \<Rightarrow> fst_of l)"

definition tg_getProperty :: "taf_group \<Rightarrow> byte list \<Rightarrow> byte list result" where
  "tg_getProperty g sName =
     (case tg_hProp g sName of None \<Rightarrow> Inl (TafException ''No properties of group match.'') | Some l \<Rightarrow> fst_of l)"

definition tg_getPropertyDef :: "taf_group \<Rightarrow> byte list \<Rightarrow> byte list \<Rightarrow> byte list result" where
  "tg_getPropertyDef g sName sDef = (case tg_hProp g sName of None \<Rightarrow> Inr sDef | Some l \<Rightarrow> fst_of l)"

fun tg_getChildByPath :: "taf_group \<Rightarrow> byte list list \<Rightarrow> taf_group result" where
  "tg_getChildByPath cur [] = Inr cur"
| "tg_getChildByPath cur (p # ps) = rbind (tg_getChild cur p) (\<lambda>c. tg_getChildByPath (tg_of c) ps)"

text \<open>The loop stops in front of the last part; \<open>last\<close> of an empty list follows a null pointer.\<close>

definition tg_getByPath :: "taf_group \<Rightarrow> byte list list \<Rightarrow> byte list result" where
  "tg_getByPath g lPath =
     rbind (tg_getChildByPath g (butlast lPath)) (\<lambda>cur.
     if lPath = [] then Inl Out_Of_Bounds else tg_getProperty cur (last lPath))"

text \<open>\<open>String::split\<close>: an empty part behind the last separator is not a part.\<close>

function str_split :: "byte \<Rightarrow> byte list \<Rightarrow> byte list list" where
  "str_split c [] = []"
| "str_split c (x # s) =
     takeWhile (\<lambda>y. y \<noteq> c) (x # s) # str_split c (drop 1 (dropWhile (\<lambda>y. y \<noteq> c) (x # s)))"
  by pat_completeness auto
termination
proof (relation "measure (\<lambda>(c, s). length s)", goal_cases)
  case 1
  show ?case by simp
next
  case (2 c x s)
  have "length (dropWhile (\<lambda>y. y \<noteq> c) (x # s)) \<le> length (x # s)" by (rule length_dropWhile_le)
  then show ?case by (simp only: in_measure prod.case length_drop list.size)
qed

definition tg_getByPathString :: "taf_group \<Rightarrow> byte list \<Rightarrow> byte list result" where
  "tg_getByPathString g sPath = tg_getByPath g (str_split 47 sPath)"

section \<open>What the tables hold\<close>

fun taf_props :: "taf_node list \<Rightarrow> byte list \<Rightarrow> byte list list" where
  "taf_props [] n = []"
| "taf_props (TafProperty m v # ns) n = (if m = n then v # taf_props ns n else taf_props ns n)"
| "taf_props (x # ns) n = taf_props ns n"

fun taf_groups :: "taf_node list \<Rightarrow> byte list \<Rightarrow> taf_node list" where
  "taf_groups [] n = []"
| "taf_groups (TafGroup m ch # ns) n = (if m = n then TafGroup m ch # taf_groups ns n else taf_groups ns n)"
| "taf_groups (x # ns) n = taf_groups ns n"

definition listed :: "'a list \<Rightarrow> 'a list option" where
  "listed l = (if l = [] then None else Some l)"

definition tg_wf :: "taf_group \<Rightarrow> bool" where
  "tg_wf g \<longleftrightarrow> (\<forall>n. tg_hProp g n = listed (taf_props (tg_lChildren g) n)) \<and>
     (\<forall>n. tg_hChildren g n = listed (taf_groups (tg_lChildren g) n))"

lemma taf_props_append [simp]: "taf_props (xs @ ys) n = taf_props xs n @ taf_props ys n"
  by (induction xs n rule: taf_props.induct) simp_all

lemma taf_groups_append [simp]: "taf_groups (xs @ ys) n = taf_groups xs n @ taf_groups ys n"
  by (induction xs n rule: taf_groups.induct) simp_all

lemma tab_append_listed:
  "h m = listed l \<Longrightarrow> tab_append h m x = h(m \<mapsto> l @ [x])"
  by (auto simp: tab_append_def listed_def Let_def split: if_splits)

lemma tg_wf_new: "tg_wf (tg_new n)"
  by (simp add: tg_wf_def tg_new_def listed_def)

lemma tg_wf_addChild: "tg_wf g \<Longrightarrow> tg_wf (tg_addChild g x)"
  by (cases x) (auto simp: tg_wf_def tab_append_listed listed_def)

lemma tg_addChild_fields [simp]:
  "tg_lChildren (tg_addChild g x) = tg_lChildren g @ [x]" "tg_sName (tg_addChild g x) = tg_sName g"
  by (cases x; simp)+

lemma tg_fold_addChild:
  "tg_wf g \<Longrightarrow> tg_wf (foldl tg_addChild g ch) \<and> tg_lChildren (foldl tg_addChild g ch) = tg_lChildren g @ ch \<and>
     tg_sName (foldl tg_addChild g ch) = tg_sName g"
  by (induction ch arbitrary: g) (simp_all add: tg_wf_addChild)

lemma tg_build_wf: "tg_wf (tg_build n ch)" "tg_lChildren (tg_build n ch) = ch" "tg_sName (tg_build n ch) = n"
  using tg_fold_addChild [OF tg_wf_new, of n ch] by (simp_all add: tg_build_def) (simp_all add: tg_new_def)

lemma tg_lookups:
  assumes "tg_wf g"
  shows "tg_getProperties g n = (if taf_props (tg_lChildren g) n = []
      then Inl (TafException ''No properties of group match.'') else Inr (taf_props (tg_lChildren g) n))"
    "tg_getChildren g n = (if taf_groups (tg_lChildren g) n = []
      then Inl (TafException ''No children of group match.'') else Inr (taf_groups (tg_lChildren g) n))"
    "tg_getProperty g n = (if taf_props (tg_lChildren g) n = []
      then Inl (TafException ''No properties of group match.'') else Inr (hd (taf_props (tg_lChildren g) n)))"
    "tg_getChild g n = (if taf_groups (tg_lChildren g) n = []
      then Inl (TafException ''No children of group match.'') else Inr (hd (taf_groups (tg_lChildren g) n)))"
  using assms by (auto simp: tg_wf_def tg_getProperties_def tg_getChildren_def tg_getProperty_def tg_getChild_def
      listed_def fst_of_def split: list.split)

lemma taf_copy_id: "taf_copy x = x" "taf_copies xs = xs"
  by (induction x and xs rule: taf_copy_taf_copies.induct) simp_all

text \<open>What a path means in a tree: the children of the group it leads to, through the first group of each name.\<close>

fun taf_at :: "taf_node list \<Rightarrow> byte list list \<Rightarrow> taf_node list option" where
  "taf_at l [] = Some l"
| "taf_at l (p # ps) = (case taf_groups l p of TafGroup m ch # gs \<Rightarrow> taf_at ch ps | _ \<Rightarrow> None)"

lemma taf_groups_are_groups: "taf_groups l p = g # gs \<Longrightarrow> \<exists>ch. g = TafGroup p ch"
proof (induction l)
  case (Cons x l)
  then show ?case by (cases x) (auto split: if_splits)
qed simp

lemma tg_path_at:
  "(case taf_at l ps of None \<Rightarrow> \<exists>t. tg_getChildByPath (tg_build n l) ps = Inl (TafException t)
    | Some ch \<Rightarrow> \<exists>m. tg_getChildByPath (tg_build n l) ps = Inr (tg_build m ch))"
proof (induction ps arbitrary: n l)
  case Nil
  then show ?case by auto
next
  case (Cons p ps)
  show ?case
  proof (cases "taf_groups l p")
    case Nil
    then show ?thesis by (simp add: tg_lookups tg_build_wf)
  next
    case (Cons g gs)
    with taf_groups_are_groups obtain ch where g: "g = TafGroup p ch" by blast
    with Cons have "tg_getChildByPath (tg_build n l) (p # ps) = tg_getChildByPath (tg_build p ch) ps"
      "taf_at l (p # ps) = taf_at ch ps" by (simp_all add: tg_lookups tg_build_wf)
    with Cons.IH [where l = ch and n = p] show ?thesis by metis
  qed
qed

section \<open>Properties\<close>

text \<open>
  C37. A group that is built child by child, and any group that gets one more child, has its tables
  in agreement with its list of children: under each name the values of the properties, and the
  groups, with that name in order, and no entry for a name that no child has. A copy is equal.
\<close>

theorem taf_group_tables:
  "tg_wf (tg_build n ch) \<and> tg_lChildren (tg_build n ch) = ch \<and> tg_wf (tg_addChild (tg_build n ch) x) \<and>
   tg_copy (tg_build n ch) = tg_build n ch"
  by (simp add: tg_build_wf tg_wf_addChild tg_copy_def taf_copy_id)

text \<open>
  C38. Looking up a path in a tree walks through the first group of each name and gives the first
  value of the property that is named last; where a group or the property is missing it throws.
\<close>

theorem taf_path_lookup:
  assumes "str_split 47 path = ps @ [q]"
  shows "case Option.bind (taf_at l ps) (\<lambda>ch. find (\<lambda>v. True) (taf_props ch q)) of
      None \<Rightarrow> \<exists>t. tg_getByPathString (tg_build n l) path = Inl (TafException t)
    | Some v \<Rightarrow> tg_getByPathString (tg_build n l) path = Inr v"
proof (cases "taf_at l ps")
  case None
  with tg_path_at [where l = l and ps = ps and n = n] assms show ?thesis by (auto simp: tg_getByPathString_def tg_getByPath_def)
next
  case (Some ch)
  with tg_path_at [where l = l and ps = ps and n = n] obtain m where
    "tg_getChildByPath (tg_build n l) ps = Inr (tg_build m ch)" by auto
  with Some assms show ?thesis
    by (cases "taf_props ch q") (simp_all add: tg_getByPathString_def tg_getByPath_def tg_lookups tg_build_wf)
qed

theorem taf_path_lookup_witness:
  "tg_getByPathString (tg_build [] [TafGroup [97] [TafProperty [98] [1]], TafGroup [97] []]) [97, 47, 98] = Inr [1]"
  using taf_path_lookup [where path = "[97, 47, 98]" and ps = "[[97]]" and q = "[98]" and n = "[]"
    and l = "[TafGroup [97] [TafProperty [98] [1]], TafGroup [97] []]"]
  by simp

text \<open>The empty path has no last part, and a null pointer is followed.\<close>

lemma tg_getByPath_empty: "tg_getByPathString g [] = Inl Out_Of_Bounds"
  by (simp add: tg_getByPathString_def tg_getByPath_def)

end
