(* ===== verification/Bu_String.thy ===== *)
theory Bu_String
  imports Bu_SharedCore Bu_Stream
begin

text \<open>
  \<open>Bu::String\<close> (\<open>src/stable/string.h\<close>, \<open>string.cpp\<close>): a list of chunks, each a buffer with room
  behind its text, that is flattened into one chunk when its bytes are needed in a row. A buffer is
  a list of \<open>byte option\<close>, \<open>None\<close> for memory that was never written; copying such memory is allowed,
  looking at it is \<open>Out_Of_Bounds\<close>. A \<open>const char *\<close> is the memory from the pointer on. The chunks
  are linked by \<open>pNext\<close> from \<open>pFirst\<close> to \<open>pLast\<close>, here a list. \<open>sh\<close> says whether other strings share
  the core, in which case \<open>_hardCopy\<close> replaces it by a flat copy. A string that is an argument is
  another one than the object; where a member flattens it, the flat core is returned as well.
\<close>

section \<open>Chunks\<close>

record str_chunk =
  ck_nLength :: int
  ck_pData :: "byte option list"

record str_core =
  st_nLength :: int
  st_chunks :: "str_chunk list"

definition nMinSize :: int where
  "nMinSize = 256"

definition st_new :: str_core where
  "st_new = \<lparr>st_nLength = 0, st_chunks = []\<rparr>"

definition st_newChunk :: "int \<Rightarrow> str_chunk result" where
  "st_newChunk nLen =
     rbind (arr_set (replicate (nat (if nLen < nMinSize then nMinSize else nLen + 1)) None) nLen (Some 0)) (\<lambda>d.
       Inr \<lparr>ck_nLength = nLen, ck_pData = d\<rparr>)"

text \<open>A new chunk and \<open>memcpy\<close> into it, which many members write out.\<close>

definition st_filledChunk :: "byte option list \<Rightarrow> int \<Rightarrow> int \<Rightarrow> str_chunk result" where
  "st_filledChunk src p nLen =
     rbind (st_newChunk nLen) (\<lambda>k. rbind (mem_load src p nLen) (\<lambda>xs. rbind (mem_store (ck_pData k) 0 xs) (\<lambda>d.
       Inr (k\<lparr>ck_pData := d\<rparr>))))"

definition st_copyChunk :: "str_chunk \<Rightarrow> str_chunk result" where
  "st_copyChunk pSrc =
     (let n = ck_nLength pSrc; d0 = replicate (nat (if n < nMinSize then nMinSize else n + 1)) None
      in rbind (mem_load (ck_pData pSrc) 0 n) (\<lambda>xs. rbind (mem_store d0 0 xs) (\<lambda>d1. rbind (arr_set d1 n (Some 0)) (\<lambda>d.
           Inr \<lparr>ck_nLength = n, ck_pData = d\<rparr>))))"

definition st_appendChunk :: "str_chunk \<Rightarrow> str_core \<Rightarrow> str_core" where
  "st_appendChunk k c = \<lparr>st_nLength = st_nLength c + ck_nLength k, st_chunks = st_chunks c @ [k]\<rparr>"

definition st_prependChunk :: "str_chunk \<Rightarrow> str_core \<Rightarrow> str_core" where
  "st_prependChunk k c = \<lparr>st_nLength = st_nLength c + ck_nLength k, st_chunks = k # st_chunks c\<rparr>"

fun st_appendChunks :: "str_chunk list \<Rightarrow> str_core \<Rightarrow> str_core result" where
  "st_appendChunks [] c = Inr c"
| "st_appendChunks (k # ks) c = rbind (st_copyChunk k) (\<lambda>k'. st_appendChunks ks (st_appendChunk k' c))"

definition st_clearCore :: "str_core \<Rightarrow> str_core" where
  "st_clearCore c = (if st_chunks c = [] then c else \<lparr>st_nLength = 0, st_chunks = []\<rparr>)"

text \<open>The loop that copies all chunks into one buffer.\<close>

fun st_gather :: "byte option list \<Rightarrow> int \<Rightarrow> str_chunk list \<Rightarrow> byte option list result" where
  "st_gather d pos [] = Inr d"
| "st_gather d pos (k # ks) =
     rbind (mem_load (ck_pData k) 0 (ck_nLength k)) (\<lambda>xs. rbind (mem_store d pos xs) (\<lambda>d'.
       st_gather d' (pos + ck_nLength k) ks))"

definition st_copy :: "str_core \<Rightarrow> str_core result" where
  "st_copy rSrc =
     (if st_chunks rSrc = [] \<or> st_nLength rSrc = 0 then Inr (rSrc\<lparr>st_chunks := []\<rparr>)
      else rbind (st_newChunk (st_nLength rSrc)) (\<lambda>k. rbind (st_gather (ck_pData k) 0 (st_chunks rSrc)) (\<lambda>d.
        Inr (rSrc\<lparr>st_chunks := [k\<lparr>ck_pData := d\<rparr>]\<rparr>))))"

definition st_isFlat :: "str_core \<Rightarrow> bool" where
  "st_isFlat c \<longleftrightarrow> length (st_chunks c) \<le> 1"

definition st_flatten :: "str_core \<Rightarrow> str_core result" where
  "st_flatten c =
     (if st_isFlat c then Inr c
      else if st_nLength c = 0 then Inr c
      else rbind (st_newChunk (st_nLength c)) (\<lambda>k. rbind (st_gather (ck_pData k) 0 (st_chunks c)) (\<lambda>d.
        Inr \<lparr>st_nLength = ck_nLength k, st_chunks = [k\<lparr>ck_pData := d\<rparr>]\<rparr>)))"

definition st_hardCopy :: "bool \<Rightarrow> str_core \<Rightarrow> str_core result" where
  "st_hardCopy sh c = (if sh then st_copy c else Inr c)"

text \<open>The first chunk, through a pointer that may be null.\<close>

definition st_first :: "str_core \<Rightarrow> str_chunk result" where
  "st_first c = (case st_chunks c of [] \<Rightarrow> Inl Out_Of_Bounds | k # ks \<Rightarrow> Inr k)"

definition st_setFirst :: "str_chunk \<Rightarrow> str_core \<Rightarrow> str_core" where
  "st_setFirst k c = c\<lparr>st_chunks := k # tl (st_chunks c)\<rparr>"

section \<open>Adding and removing text\<close>

fun st_strlen :: "byte option list \<Rightarrow> int result" where
  "st_strlen [] = Inl Out_Of_Bounds"
| "st_strlen (None # xs) = Inl Out_Of_Bounds"
| "st_strlen (Some b # xs) = (if b = 0 then Inr 0 else rbind (st_strlen xs) (\<lambda>n. Inr (n + 1)))"

text \<open>Into the room of the last chunk: how much went there.\<close>

definition st_appendLast :: "byte option list \<Rightarrow> int \<Rightarrow> int \<Rightarrow> str_core \<Rightarrow> (int \<times> str_core) result" where
  "st_appendLast pData p nLen c =
     (if st_chunks c \<noteq> [] \<and> ck_nLength (last (st_chunks c)) < nMinSize
      then (let l = last (st_chunks c);
                nAmnt = (if nMinSize - ck_nLength l > nLen then nLen else nMinSize - ck_nLength l)
            in rbind (mem_load pData p nAmnt) (\<lambda>xs. rbind (mem_store (ck_pData l) (ck_nLength l) xs) (\<lambda>d.
                 Inr (nAmnt, \<lparr>st_nLength = st_nLength c + nAmnt, st_chunks = butlast (st_chunks c) @
                   [\<lparr>ck_nLength = ck_nLength l + nAmnt, ck_pData = d\<rparr>]\<rparr>))))
      else Inr (0, c))"

definition st_append :: "bool \<Rightarrow> byte option list \<Rightarrow> int \<Rightarrow> int \<Rightarrow> str_core \<Rightarrow> str_core result" where
  "st_append sh pData nStart nLen c =
     (if nLen \<le> 0 then Inr c
      else rbind (st_hardCopy sh c) (\<lambda>c1. rbind (st_appendLast pData nStart nLen c1) (\<lambda>(nAmnt, c2).
        if nLen - nAmnt > 0
        then rbind (st_filledChunk pData (nStart + nAmnt) (nLen - nAmnt)) (\<lambda>k. Inr (st_appendChunk k c2))
        else Inr c2)))"

definition st_appendCstr :: "bool \<Rightarrow> byte option list \<Rightarrow> str_core \<Rightarrow> str_core result" where
  "st_appendCstr sh pData c = rbind (st_strlen pData) (\<lambda>nLen. st_append sh pData 0 nLen c)"

definition st_appendChar :: "bool \<Rightarrow> byte \<Rightarrow> str_core \<Rightarrow> str_core result" where
  "st_appendChar sh cData c =
     (if st_chunks c \<noteq> [] \<and> ck_nLength (last (st_chunks c)) < nMinSize
      then rbind (st_hardCopy sh c) (\<lambda>c1.
        if st_chunks c1 = [] then Inl Out_Of_Bounds
        else let l = last (st_chunks c1)
             in rbind (arr_set (ck_pData l) (ck_nLength l) (Some cData)) (\<lambda>d.
                  Inr \<lparr>st_nLength = st_nLength c1 + 1, st_chunks = butlast (st_chunks c1) @
                    [\<lparr>ck_nLength = ck_nLength l + 1, ck_pData = d\<rparr>]\<rparr>))
      else st_append sh [Some cData] 0 1 c)"

text \<open>\<open>getStr\<close>, which writes the terminator, on a constant string.\<close>

definition st_getStr :: "str_core \<Rightarrow> (byte option list \<times> str_core) result" where
  "st_getStr c =
     (if st_chunks c = [] \<or> st_nLength c = 0 then Inr ([Some 0], c)
      else rbind (st_flatten c) (\<lambda>c1. rbind (st_first c1) (\<lambda>k.
        rbind (arr_set (ck_pData k) (st_nLength c1) (Some 0)) (\<lambda>d.
          Inr (d, st_setFirst (k\<lparr>ck_pData := d\<rparr>) c1)))))"

definition st_getStrMut :: "bool \<Rightarrow> str_core \<Rightarrow> (byte option list \<times> str_core) result" where
  "st_getStrMut sh c =
     (if st_chunks c = [] \<or> st_nLength c = 0 then Inr ([Some 0], c)
      else rbind (st_flatten c) (\<lambda>c0. rbind (st_hardCopy sh c0) (\<lambda>c1. rbind (st_first c1) (\<lambda>k.
        rbind (arr_set (ck_pData k) (st_nLength c1) (Some 0)) (\<lambda>d.
          Inr (d, st_setFirst (k\<lparr>ck_pData := d\<rparr>) c1))))))"

definition st_appendStr :: "bool \<Rightarrow> str_core \<Rightarrow> str_core \<Rightarrow> (str_core \<times> str_core) result" where
  "st_appendStr sh sData c =
     rbind (st_getStr sData) (\<lambda>(p, s'). rbind (st_append sh p 0 (st_nLength sData) c) (\<lambda>c'. Inr (c', s')))"

definition st_appendStrLen :: "bool \<Rightarrow> str_core \<Rightarrow> int \<Rightarrow> str_core \<Rightarrow> (str_core \<times> str_core) result" where
  "st_appendStrLen sh sData nLen c =
     rbind (st_getStr sData) (\<lambda>(p, s'). rbind (st_append sh p 0 nLen c) (\<lambda>c'. Inr (c', s')))"

definition st_appendStrSub :: "bool \<Rightarrow> str_core \<Rightarrow> int \<Rightarrow> int \<Rightarrow> str_core \<Rightarrow> (str_core \<times> str_core) result" where
  "st_appendStrSub sh sData nStart nLen c =
     (let n = (if nLen < 0 then st_nLength sData - nStart else nLen)
      in rbind (st_getStr sData) (\<lambda>(p, s'). rbind (st_append sh p nStart n c) (\<lambda>c'. Inr (c', s'))))"

definition st_prepend :: "bool \<Rightarrow> byte option list \<Rightarrow> int \<Rightarrow> str_core \<Rightarrow> str_core result" where
  "st_prepend sh pData nLen c =
     rbind (st_filledChunk pData 0 nLen) (\<lambda>k. rbind (st_hardCopy sh c) (\<lambda>c1. Inr (st_prependChunk k c1)))"

definition st_prependCstr :: "bool \<Rightarrow> byte option list \<Rightarrow> str_core \<Rightarrow> str_core result" where
  "st_prependCstr sh pData c =
     rbind (st_hardCopy sh c) (\<lambda>c1. rbind (st_strlen pData) (\<lambda>nLen. rbind (st_filledChunk pData 0 nLen) (\<lambda>k.
       Inr (st_prependChunk k c1))))"

definition st_prependStr :: "bool \<Rightarrow> str_core \<Rightarrow> str_core \<Rightarrow> (str_core \<times> str_core) result" where
  "st_prependStr sh sData c =
     rbind (st_getStr sData) (\<lambda>(p, s'). rbind (st_prepend sh p (st_nLength sData) c) (\<lambda>c'. Inr (c', s')))"

definition st_prependChar :: "bool \<Rightarrow> byte \<Rightarrow> str_core \<Rightarrow> str_core result" where
  "st_prependChar sh cData c = st_prepend sh [Some cData] 1 c"

definition st_insert :: "bool \<Rightarrow> int \<Rightarrow> byte option list \<Rightarrow> int \<Rightarrow> str_core \<Rightarrow> str_core result" where
  "st_insert sh nPos pData nLen c =
     (if nLen \<le> 0 then Inr c
      else if nPos \<le> 0 then st_prepend sh pData nLen c
      else if nPos \<ge> st_nLength c then st_append sh pData 0 nLen c
      else rbind (st_flatten c) (\<lambda>c0. rbind (st_hardCopy sh c0) (\<lambda>c1. rbind (st_first c1) (\<lambda>k.
        rbind (st_filledChunk (ck_pData k) 0 nPos) (\<lambda>p1.
        rbind (st_filledChunk pData 0 nLen) (\<lambda>p2.
        rbind (st_filledChunk (ck_pData k) nPos (st_nLength c1 - nPos)) (\<lambda>p3.
          Inr (st_appendChunk p3 (st_appendChunk p2 (st_appendChunk p1 (st_clearCore c1)))))))))))"

definition st_insertStr :: "bool \<Rightarrow> int \<Rightarrow> str_core \<Rightarrow> str_core \<Rightarrow> (str_core \<times> str_core) result" where
  "st_insertStr sh nPos str c =
     (if nPos \<le> 0 then st_prependStr sh str c
      else if nPos \<ge> st_nLength c then st_appendStr sh str c
      else rbind (st_flatten c) (\<lambda>c0. rbind (st_hardCopy sh c0) (\<lambda>c1. rbind (st_first c1) (\<lambda>k.
        rbind (st_filledChunk (ck_pData k) 0 nPos) (\<lambda>p1.
        rbind (st_filledChunk (ck_pData k) nPos (st_nLength c1 - nPos)) (\<lambda>p3.
        rbind (st_appendChunks (st_chunks str) (st_appendChunk p1 (st_clearCore c1))) (\<lambda>c2.
          Inr (st_appendChunk p3 c2, str))))))))"

definition st_insertCstr :: "bool \<Rightarrow> int \<Rightarrow> byte option list \<Rightarrow> str_core \<Rightarrow> str_core result" where
  "st_insertCstr sh nPos pData c = rbind (st_strlen pData) (\<lambda>n. st_insert sh nPos pData n c)"

definition st_remove :: "bool \<Rightarrow> int \<Rightarrow> int \<Rightarrow> str_core \<Rightarrow> str_core result" where
  "st_remove sh nPos nLen c =
     (if nLen \<le> 0 \<or> nPos < 0 \<or> nPos \<ge> st_nLength c then Inr c
      else let n = (if nLen > st_nLength c - nPos then st_nLength c - nPos else nLen)
           in rbind (st_flatten c) (\<lambda>c0. rbind (st_hardCopy sh c0) (\<lambda>c1. rbind (st_first c1) (\<lambda>k.
                rbind (mem_load (ck_pData k) (nPos + n) (st_nLength c1 - nPos - n + 1)) (\<lambda>xs.
                rbind (mem_store (ck_pData k) nPos xs) (\<lambda>d.
                  Inr (st_setFirst \<lparr>ck_nLength = ck_nLength k - n, ck_pData = d\<rparr> (c1\<lparr>st_nLength := st_nLength c1 - n\<rparr>))))))))"

definition st_clear :: "bool \<Rightarrow> str_core \<Rightarrow> str_core result" where
  "st_clear sh c = rbind (st_hardCopy sh c) (\<lambda>c1. Inr (st_clearCore c1))"

definition st_resize :: "bool \<Rightarrow> int \<Rightarrow> str_core \<Rightarrow> str_core result" where
  "st_resize sh nNew c =
     (if st_nLength c = nNew then Inr c
      else let nNewSize = (if nNew < 0 then 0 else nNew)
           in rbind (st_flatten c) (\<lambda>c0. rbind (st_hardCopy sh c0) (\<lambda>c1. rbind (st_newChunk nNewSize) (\<lambda>k.
                let nNewLen = (if nNewSize < st_nLength c1 then nNewSize else st_nLength c1)
                in rbind (if st_nLength c1 > 0
                          then rbind (st_first c1) (\<lambda>f. rbind (mem_load (ck_pData f) 0 nNewLen) (\<lambda>xs. mem_store (ck_pData k) 0 xs))
                          else Inr (ck_pData k)) (\<lambda>d.
                   rbind (arr_set d nNewLen (Some 0)) (\<lambda>d'.
                     Inr \<lparr>st_nLength = nNewSize, st_chunks = [k\<lparr>ck_pData := d'\<rparr>]\<rparr>))))))"

definition st_setSize :: "bool \<Rightarrow> int \<Rightarrow> str_core \<Rightarrow> str_core result" where
  "st_setSize sh iSize c =
     rbind (st_hardCopy sh c) (\<lambda>c1. rbind (st_newChunk iSize) (\<lambda>k. Inr (st_appendChunk k (st_clearCore c1))))"

definition st_set :: "bool \<Rightarrow> byte option list \<Rightarrow> int \<Rightarrow> int \<Rightarrow> str_core \<Rightarrow> str_core result" where
  "st_set sh pData nStart nSize c = rbind (st_clear sh c) (\<lambda>c1. st_append False pData nStart nSize c1)"

definition st_setCstr :: "bool \<Rightarrow> byte option list \<Rightarrow> str_core \<Rightarrow> str_core result" where
  "st_setCstr sh pData c = rbind (st_clear sh c) (\<lambda>c1. st_appendCstr False pData c1)"

definition st_setStr :: "bool \<Rightarrow> str_core \<Rightarrow> str_core \<Rightarrow> (str_core \<times> str_core) result" where
  "st_setStr sh rData c = rbind (st_clear sh c) (\<lambda>c1. st_appendStr False rData c1)"

definition st_trimFront :: "bool \<Rightarrow> int \<Rightarrow> str_core \<Rightarrow> str_core result" where
  "st_trimFront sh nAmnt c =
     rbind (st_flatten c) (\<lambda>c0. rbind (st_newChunk (st_nLength c - nAmnt)) (\<lambda>k. rbind (st_first c0) (\<lambda>f.
       rbind (mem_load (ck_pData f) nAmnt (st_nLength c - nAmnt)) (\<lambda>xs. rbind (mem_store (ck_pData k) 0 xs) (\<lambda>d.
       rbind (st_hardCopy sh c0) (\<lambda>c1. Inr (st_appendChunk (k\<lparr>ck_pData := d\<rparr>) (st_clearCore c1))))))))"

text \<open>\<open>trimBack\<close> shortens the core it finds, without \<open>_hardCopy\<close>.\<close>

definition st_trimBack :: "bool \<Rightarrow> int \<Rightarrow> str_core \<Rightarrow> str_core result" where
  "st_trimBack sh iAmnt c =
     (if iAmnt < 0 then Inr c
      else if st_nLength c - iAmnt < 0 then st_clear sh c
      else if st_chunks c = [] \<or> st_nLength c = 0 then Inr c
      else rbind (st_flatten c) (\<lambda>c0. rbind (st_first c0) (\<lambda>k.
        Inr (st_setFirst (k\<lparr>ck_nLength := ck_nLength k - iAmnt\<rparr>) (c0\<lparr>st_nLength := st_nLength c0 - iAmnt\<rparr>)))))"

section \<open>Comparing and searching\<close>

text \<open>A byte that was written, at an index of a buffer, and as a \<open>char\<close>, which is signed.\<close>

definition buf_get :: "byte option list \<Rightarrow> int \<Rightarrow> byte result" where
  "buf_get d i = slot_get d i"

definition st_isEmpty :: "str_core \<Rightarrow> bool" where
  "st_isEmpty c \<longleftrightarrow> st_nLength c = 0"

definition st_isSet :: "str_core \<Rightarrow> bool" where
  "st_isSet c \<longleftrightarrow> st_chunks c \<noteq> []"

fun st_equalCstr_loop :: "int \<Rightarrow> nat \<Rightarrow> byte option list \<Rightarrow> byte option list \<Rightarrow> bool result" where
  "st_equalCstr_loop len j (a # as) (b # bs) =
     rbind (buf_get [a] 0) (\<lambda>x. rbind (buf_get [b] 0) (\<lambda>y.
       if x = 0 \<and> y = 0 then Inr True
       else if x \<noteq> y then Inr False
       else if x = 0 \<and> int j < len then Inr False
       else st_equalCstr_loop len (Suc j) as bs))"
| "st_equalCstr_loop len j as bs = Inl Out_Of_Bounds"

definition st_equalCstr :: "str_core \<Rightarrow> byte option list \<Rightarrow> (bool \<times> str_core) result" where
  "st_equalCstr c pData =
     (if st_chunks c = [] \<or> st_nLength c = 0
      then rbind (buf_get pData 0) (\<lambda>x. Inr (x = 0, c))
      else rbind (st_flatten c) (\<lambda>c1. rbind (st_first c1) (\<lambda>k.
        rbind (arr_set (ck_pData k) (st_nLength c1) (Some 0)) (\<lambda>d.
        rbind (st_equalCstr_loop (st_nLength c1) 0 pData d) (\<lambda>r.
          Inr (r, st_setFirst (k\<lparr>ck_pData := d\<rparr>) c1))))))"

text \<open>The loops of the comparisons, over the first \<open>n\<close> bytes of two buffers.\<close>

fun st_equal_loop :: "nat \<Rightarrow> byte option list \<Rightarrow> byte option list \<Rightarrow> bool result" where
  "st_equal_loop 0 as bs = Inr True"
| "st_equal_loop (Suc n) as bs =
     rbind (buf_get as 0) (\<lambda>x. rbind (buf_get bs 0) (\<lambda>y.
       if x \<noteq> y then Inr False else st_equal_loop n (tl as) (tl bs)))"

text \<open>Two objects: the same core, the same first chunk (both null), or two cores.\<close>

definition st_equal :: "bool \<Rightarrow> str_core \<Rightarrow> str_core \<Rightarrow> (bool \<times> str_core \<times> str_core) result" where
  "st_equal same c p =
     (if same \<or> st_chunks c = [] \<and> st_chunks p = [] then Inr (True, c, p)
      else if st_nLength c = 0 \<and> st_nLength p = 0 then Inr (True, c, p)
      else if st_nLength c \<noteq> st_nLength p then Inr (False, c, p)
      else if st_chunks p = [] \<or> st_chunks c = [] then Inr (False, c, p)
      else rbind (st_flatten c) (\<lambda>c1. rbind (st_flatten p) (\<lambda>p1. rbind (st_first p1) (\<lambda>a. rbind (st_first c1) (\<lambda>b.
        rbind (st_equal_loop (nat (st_nLength c1)) (ck_pData a) (ck_pData b)) (\<lambda>r. Inr (r, c1, p1)))))))"

text \<open>The four orders differ in the answer for a difference and in the one at the end.\<close>

fun st_order_loop :: "(int \<Rightarrow> int \<Rightarrow> bool) \<Rightarrow> bool \<Rightarrow> nat \<Rightarrow> byte option list \<Rightarrow> byte option list \<Rightarrow> bool result" where
  "st_order_loop r e 0 as bs = Inr e"
| "st_order_loop r e (Suc n) as bs =
     rbind (buf_get as 0) (\<lambda>x. rbind (buf_get bs 0) (\<lambda>y.
       if x \<noteq> y then Inr (r (sint x) (sint y)) else st_order_loop r e n (tl as) (tl bs)))"

definition st_order :: "(int \<Rightarrow> int \<Rightarrow> bool) \<Rightarrow> bool \<Rightarrow> str_core \<Rightarrow> str_core \<Rightarrow> (bool \<times> str_core \<times> str_core) result" where
  "st_order r e c p =
     rbind (st_flatten c) (\<lambda>c1. rbind (st_flatten p) (\<lambda>p1. rbind (st_first c1) (\<lambda>a. rbind (st_first p1) (\<lambda>b.
       rbind (st_order_loop r e (nat (st_nLength c1)) (ck_pData a) (ck_pData b)) (\<lambda>x. Inr (x, c1, p1))))))"

definition st_less :: "str_core \<Rightarrow> str_core \<Rightarrow> (bool \<times> str_core \<times> str_core) result" where
  "st_less = st_order (<) False"

definition st_lessEq :: "str_core \<Rightarrow> str_core \<Rightarrow> (bool \<times> str_core \<times> str_core) result" where
  "st_lessEq = st_order (<) True"

definition st_greater :: "str_core \<Rightarrow> str_core \<Rightarrow> (bool \<times> str_core \<times> str_core) result" where
  "st_greater = st_order (>) False"

definition st_greaterEq :: "str_core \<Rightarrow> str_core \<Rightarrow> (bool \<times> str_core \<times> str_core) result" where
  "st_greaterEq = st_order (>) True"

text \<open>\<open>operator[]\<close>: reading, and writing through the reference it returns.\<close>

definition st_index :: "str_core \<Rightarrow> int \<Rightarrow> (byte \<times> str_core) result" where
  "st_index c nIndex =
     (if nIndex < 0 \<or> nIndex \<ge> st_nLength c then Inl (ExceptionBase ''Index out of range.'')
      else rbind (st_flatten c) (\<lambda>c1. rbind (st_first c1) (\<lambda>k. rbind (buf_get (ck_pData k) nIndex) (\<lambda>x. Inr (x, c1)))))"

definition st_indexSet :: "bool \<Rightarrow> int \<Rightarrow> byte \<Rightarrow> str_core \<Rightarrow> str_core result" where
  "st_indexSet sh nIndex x c =
     (if nIndex < 0 \<or> nIndex \<ge> st_nLength c then Inl (ExceptionBase ''Index out of range.'')
      else rbind (st_flatten c) (\<lambda>c0. rbind (st_hardCopy sh c0) (\<lambda>c1. rbind (st_first c1) (\<lambda>k.
        rbind (arr_set (ck_pData k) nIndex (Some x)) (\<lambda>d. Inr (st_setFirst (k\<lparr>ck_pData := d\<rparr>) c1))))))"

fun st_sub_loop :: "int \<Rightarrow> nat \<Rightarrow> nat \<Rightarrow> byte option list \<Rightarrow> byte option list \<Rightarrow> int \<Rightarrow> bool result" where
  "st_sub_loop len j 0 as bs i = Inr True"
| "st_sub_loop len j (Suc n) as bs i =
     rbind (buf_get as (int j)) (\<lambda>x. rbind (buf_get bs (i + int j)) (\<lambda>y.
       if x \<noteq> y then Inr False
       else if x = 0 \<and> int j < len then Inr False
       else st_sub_loop len (Suc j) n as bs i))"

definition st_compareSubCstr :: "str_core \<Rightarrow> byte option list \<Rightarrow> int \<Rightarrow> int \<Rightarrow> (bool \<times> str_core) result" where
  "st_compareSubCstr c pData nIndex nLen =
     (if st_chunks c = [] \<or> st_nLength c = 0
      then if nLen = 0 then Inr (True, c) else rbind (buf_get pData 0) (\<lambda>x. Inr (x = 0, c))
      else if nIndex + nLen > st_nLength c then Inr (False, c)
      else rbind (st_flatten c) (\<lambda>c1. rbind (st_first c1) (\<lambda>k.
        rbind (arr_set (ck_pData k) (st_nLength c1) (Some 0)) (\<lambda>d.
        rbind (st_sub_loop (st_nLength c1) 0 (nat nLen) pData d nIndex) (\<lambda>r.
          Inr (r, st_setFirst (k\<lparr>ck_pData := d\<rparr>) c1))))))"

definition st_compareSub :: "str_core \<Rightarrow> str_core \<Rightarrow> int \<Rightarrow> int \<Rightarrow> (bool \<times> str_core \<times> str_core) result" where
  "st_compareSub c r nIndex nLen =
     (if st_chunks c = [] \<or> st_nLength c = 0 \<or> st_chunks r = [] \<or> st_nLength r = 0 then Inr (False, c, r)
      else let n = (if nLen < 0 then st_nLength r else nLen)
           in if nIndex + n > st_nLength c then Inr (False, c, r)
              else rbind (st_flatten c) (\<lambda>c1. rbind (st_flatten r) (\<lambda>r1. rbind (st_first r1) (\<lambda>a. rbind (st_first c1) (\<lambda>b.
                if nIndex < 0 \<and> 0 < n then Inl Out_Of_Bounds
                else rbind (st_equal_loop (nat n) (ck_pData a) (drop (nat nIndex) (ck_pData b))) (\<lambda>x. Inr (x, c1, r1)))))))"

definition st_isWS_char :: "byte \<Rightarrow> bool" where
  "st_isWS_char b \<longleftrightarrow> b = 32 \<or> b = 9 \<or> b = 13 \<or> b = 10"

definition st_isWS :: "str_core \<Rightarrow> int \<Rightarrow> (bool \<times> str_core) result" where
  "st_isWS c nIndex =
     rbind (st_flatten c) (\<lambda>c1. rbind (st_first c1) (\<lambda>k. rbind (buf_get (ck_pData k) nIndex) (\<lambda>x. Inr (st_isWS_char x, c1))))"

definition st_isAlpha :: "str_core \<Rightarrow> int \<Rightarrow> (bool \<times> str_core) result" where
  "st_isAlpha c nIndex =
     rbind (st_flatten c) (\<lambda>c1. rbind (st_first c1) (\<lambda>k. rbind (buf_get (ck_pData k) nIndex) (\<lambda>x.
       Inr (97 \<le> sint x \<and> sint x \<le> 122 \<or> 65 \<le> sint x \<and> sint x \<le> 90, c1))))"

text \<open>Changing case in place, in a copy.\<close>

fun st_map_loop :: "(byte \<Rightarrow> byte) \<Rightarrow> nat \<Rightarrow> byte option list \<Rightarrow> byte option list result" where
  "st_map_loop f 0 d = Inr d"
| "st_map_loop f (Suc n) d = rbind (buf_get d 0) (\<lambda>x. rbind (st_map_loop f n (tl d)) (\<lambda>d'. Inr (Some (f x) # d')))"

definition st_mapChars :: "(byte \<Rightarrow> byte) \<Rightarrow> str_core \<Rightarrow> (str_core \<times> str_core) result" where
  "st_mapChars f c =
     rbind (st_flatten c) (\<lambda>c0. rbind (st_copy c0) (\<lambda>c1.
       if st_nLength c1 \<le> 0 then Inr (c1, c0)
       else rbind (st_first c1) (\<lambda>k. rbind (st_map_loop f (nat (st_nLength c1)) (ck_pData k)) (\<lambda>d.
         Inr (st_setFirst (k\<lparr>ck_pData := d\<rparr>) c1, c0)))))"

definition chr_lower :: "byte \<Rightarrow> byte" where
  "chr_lower b = (if 65 \<le> sint b \<and> sint b \<le> 90 then b + 32 else b)"

definition chr_upper :: "byte \<Rightarrow> byte" where
  "chr_upper b = (if 97 \<le> sint b \<and> sint b \<le> 122 then b - 32 else b)"

definition st_toLower :: "str_core \<Rightarrow> (str_core \<times> str_core) result" where
  "st_toLower = st_mapChars chr_lower"

definition st_toUpper :: "str_core \<Rightarrow> (str_core \<times> str_core) result" where
  "st_toUpper = st_mapChars chr_upper"

text \<open>\<open>findIdx\<close> of a character, from an index on; \<open>strncmp\<close> stops at a terminator.\<close>

fun st_findIdx_loop :: "byte \<Rightarrow> byte option list \<Rightarrow> int \<Rightarrow> nat \<Rightarrow> int result" where
  "st_findIdx_loop cChar d j 0 = Inr (-1)"
| "st_findIdx_loop cChar d j (Suc n) =
     rbind (buf_get d j) (\<lambda>x. if x = cChar then Inr j else st_findIdx_loop cChar d (j + 1) n)"

definition st_findIdx :: "byte \<Rightarrow> int \<Rightarrow> str_core \<Rightarrow> (int \<times> str_core) result" where
  "st_findIdx cChar iStart c =
     rbind (st_flatten c) (\<lambda>c1. rbind (st_first c1) (\<lambda>k.
     rbind (st_findIdx_loop cChar (ck_pData k) iStart (nat (ck_nLength k - iStart))) (\<lambda>r. Inr (r, c1))))"

fun c_strncmp :: "nat \<Rightarrow> byte option list \<Rightarrow> byte option list \<Rightarrow> bool result" where
  "c_strncmp 0 as bs = Inr True"
| "c_strncmp (Suc n) as bs =
     rbind (buf_get as 0) (\<lambda>x. rbind (buf_get bs 0) (\<lambda>y.
       if x \<noteq> y then Inr False else if x = 0 then Inr True else c_strncmp n (tl as) (tl bs)))"

fun st_findText_loop :: "byte option list \<Rightarrow> nat \<Rightarrow> byte option list \<Rightarrow> int list \<Rightarrow> int result" where
  "st_findText_loop sText nTLen d [] = Inr (-1)"
| "st_findText_loop sText nTLen d (j # js) =
     (if j < 0 \<and> 0 < nTLen then Inl Out_Of_Bounds
      else rbind (c_strncmp nTLen sText (drop (nat j) d)) (\<lambda>r. if r then Inr j else st_findText_loop sText nTLen d js))"

definition st_findIdxText :: "byte option list \<Rightarrow> int \<Rightarrow> str_core \<Rightarrow> (int \<times> str_core) result" where
  "st_findIdxText sText iStart c =
     rbind (st_strlen sText) (\<lambda>nTLen. rbind (st_flatten c) (\<lambda>c1. rbind (st_first c1) (\<lambda>k.
     rbind (st_findText_loop sText (nat nTLen) (ck_pData k) [iStart..ck_nLength k - nTLen - 1]) (\<lambda>r. Inr (r, c1)))))"

definition st_rfindIdx :: "byte option list \<Rightarrow> str_core \<Rightarrow> (int \<times> str_core) result" where
  "st_rfindIdx sText c =
     rbind (st_strlen sText) (\<lambda>nTLen. rbind (st_flatten c) (\<lambda>c1. rbind (st_first c1) (\<lambda>k.
     rbind (st_findText_loop sText (nat nTLen) (ck_pData k) (rev [0..ck_nLength k - nTLen - 1])) (\<lambda>r. Inr (r, c1)))))"

definition st_getSubStrIdx :: "int \<Rightarrow> int \<Rightarrow> str_core \<Rightarrow> (str_core \<times> str_core) result" where
  "st_getSubStrIdx iStart0 iSize0 c =
     (let iStart = (if iStart0 < 0 then 0 else iStart0)
      in if iStart \<ge> st_nLength c then Inr (st_new, c)
         else let iSize1 = (if iSize0 < 0 then st_nLength c else iSize0);
                  iSize = (if iStart + iSize1 > st_nLength c then st_nLength c - iStart else iSize1)
              in if iSize = 0 then Inr (st_new, c)
                 else rbind (st_flatten c) (\<lambda>c1. rbind (st_first c1) (\<lambda>k.
                   rbind (st_append False (ck_pData k) iStart iSize st_new) (\<lambda>ret. Inr (ret, c1)))))"

text \<open>The hash code of a key, and the reading of a truth value.\<close>

fun st_hash_loop :: "nat \<Rightarrow> byte option list \<Rightarrow> 64 word \<Rightarrow> 64 word result" where
  "st_hash_loop 0 s nPos = Inr nPos"
| "st_hash_loop (Suc n) s nPos =
     rbind (buf_get s 0) (\<lambda>x. st_hash_loop n (tl s) (scast x + push_bit 6 nPos + push_bit 16 nPos - nPos))"

definition st_calcHashCode :: "str_core \<Rightarrow> (32 word \<times> str_core) result" where
  "st_calcHashCode k =
     rbind (st_getStr k) (\<lambda>(s, k1). rbind (st_hash_loop (nat (st_nLength k)) s 0) (\<lambda>h. Inr (ucast h, k1)))"

definition c_str :: "string \<Rightarrow> byte option list" where
  "c_str s = map (\<lambda>x. Some (of_nat (of_char x))) s @ [Some 0]"

definition st_toBool :: "str_core \<Rightarrow> (bool \<times> str_core) result" where
  "st_toBool c =
     rbind (st_equalCstr c (c_str ''true'')) (\<lambda>(a, c1). if a then Inr (True, c1)
      else rbind (st_equalCstr c1 (c_str ''yes'')) (\<lambda>(b, c2). if b then Inr (True, c2)
      else st_equalCstr c2 (c_str ''t'')))"

end
