(* ===== verification/Bu_StringOps.thy ===== *)
theory Bu_StringOps
  imports Bu_String
begin

text \<open>
  A string as its text: the invariant of the chunks, and what the members do to the text,
  whatever chunks it is in and whether the core is shared or not.
\<close>

section \<open>Chunks and their text\<close>

text \<open>
  A chunk has at least 256 bytes, and room for a terminator behind its text unless it was filled
  up to the 256th byte by \<open>append\<close>.
\<close>

definition ck_ok :: "str_chunk \<Rightarrow> bool" where
  "ck_ok k \<longleftrightarrow> 0 \<le> ck_nLength k \<and> 256 \<le> length (ck_pData k) \<and>
     (nat (ck_nLength k) < length (ck_pData k) \<or> nat (ck_nLength k) = 256)"

definition ck_text :: "str_chunk \<Rightarrow> byte option list" where
  "ck_text k = take (nat (ck_nLength k)) (ck_pData k)"

definition st_data :: "str_core \<Rightarrow> byte option list" where
  "st_data c = concat (map ck_text (st_chunks c))"

definition st_wf :: "str_core \<Rightarrow> bool" where
  "st_wf c \<longleftrightarrow> (\<forall>k \<in> set (st_chunks c). ck_ok k) \<and> st_nLength c = int (length (st_data c))"

text \<open>A chunk with room for a terminator behind its text.\<close>

definition ck_room :: "str_chunk \<Rightarrow> bool" where
  "ck_room k \<longleftrightarrow> nat (ck_nLength k) < length (ck_pData k)"

lemma length_ck_text [simp]: "ck_ok k \<Longrightarrow> length (ck_text k) = nat (ck_nLength k)"
  by (auto simp: ck_text_def ck_ok_def min_def)

lemma ck_ok_le: "ck_ok k \<Longrightarrow> nat (ck_nLength k) \<le> length (ck_pData k)"
  by (auto simp: ck_ok_def)

lemma ck_text_int: "ck_ok k \<Longrightarrow> ck_nLength k = int (length (ck_text k))"
  by (auto simp: ck_ok_def ck_text_def min_def)

lemma st_wf_new [simp]: "st_wf st_new" "st_data st_new = []"
  by (simp_all add: st_wf_def st_new_def st_data_def)

lemma mem_load_in: "p + n \<le> length xs \<Longrightarrow> mem_load xs (int p) (int n) = Inr (take n (drop p xs))"
  by (simp add: mem_load_def)

lemma newChunk_ok:
  "\<exists>k. st_newChunk (int n) = Inr k \<and> ck_nLength k = int n \<and> length (ck_pData k) = (if n < 256 then 256 else n + 1)"
proof -
  let ?d = "replicate (nat (if int n < nMinSize then nMinSize else int n + 1)) None :: byte option list"
  have l: "length ?d = (if n < 256 then 256 else n + 1)" by (simp add: nMinSize_def nat_add_distrib)
  then have "n < length ?d" by simp
  with l show ?thesis by (simp add: st_newChunk_def)
qed

lemma filledChunk_ok:
  assumes "p + n \<le> length src"
  shows "\<exists>k. st_filledChunk src (int p) (int n) = Inr k \<and> ck_ok k \<and> ck_text k = take n (drop p src) \<and> ck_room k"
proof -
  obtain k where k: "st_newChunk (int n) = Inr k" "ck_nLength k = int n" "length (ck_pData k) = (if n < 256 then 256 else n + 1)"
    using newChunk_ok by blast
  let ?xs = "take n (drop p src)"
  have lx: "length ?xs = n" using assms by simp
  have "mem_store (ck_pData k) 0 ?xs = Inr (overwrite (ck_pData k) 0 ?xs)"
    using mem_store_in [of 0 ?xs "ck_pData k"] k(3) lx by simp
  then have "st_filledChunk src (int p) (int n) = Inr (k\<lparr>ck_pData := overwrite (ck_pData k) 0 ?xs\<rparr>)"
    by (simp add: st_filledChunk_def k(1) mem_load_in [OF assms])
  moreover have "length (overwrite (ck_pData k) 0 ?xs) = length (ck_pData k)" using k(3) lx by (simp add: length_overwrite)
  moreover have "take n (overwrite (ck_pData k) 0 ?xs) = ?xs" using lx by (simp add: overwrite_def)
  ultimately show ?thesis using k(2,3) by (simp add: ck_ok_def ck_text_def ck_room_def)
qed

lemma copyChunk_ok:
  assumes "ck_ok s"
  shows "\<exists>k. st_copyChunk s = Inr k \<and> ck_ok k \<and> ck_text k = ck_text s"
proof -
  obtain n where n: "ck_nLength s = int n" using assms by (auto simp: ck_ok_def intro: that [of "nat (ck_nLength s)"])
  let ?d = "replicate (nat (if int n < nMinSize then nMinSize else int n + 1)) None :: byte option list"
  let ?xs = "take n (ck_pData s)"
  have l: "length ?d = (if n < 256 then 256 else n + 1)" by (simp add: nMinSize_def nat_add_distrib)
  have le0: "n \<le> length (ck_pData s)" using ck_ok_le [OF assms] n by simp
  then have lx: "length ?xs = n" by simp
  have ld: "mem_load (ck_pData s) 0 (int n) = Inr ?xs" using mem_load_in [of 0 n "ck_pData s"] le0 by simp
  have sto: "mem_store ?d 0 ?xs = Inr (overwrite ?d 0 ?xs)" using mem_store_in [of 0 ?xs ?d] l lx by simp
  let ?e = "overwrite ?d 0 ?xs"
  have le: "length ?e = length ?d" using l lx by (simp add: length_overwrite)
  have "arr_set ?e (int n) (Some 0) = Inr (?e[n := Some 0])" by (rule arr_set_in) (unfold le l, simp)
  then have "st_copyChunk s = Inr \<lparr>ck_nLength = int n, ck_pData = ?e[n := Some 0]\<rparr>"
    unfolding st_copyChunk_def n Let_def ld rbind_Inr sto by simp
  moreover have "take n (?e[n := Some 0]) = ?xs" using lx by (simp add: overwrite_def)
  ultimately show ?thesis using le l n by (simp add: ck_ok_def ck_text_def)
qed

section \<open>The core\<close>

lemma appendChunk_ok:
  "st_wf c \<Longrightarrow> ck_ok k \<Longrightarrow> st_wf (st_appendChunk k c) \<and> st_data (st_appendChunk k c) = st_data c @ ck_text k"
  by (auto simp: st_wf_def st_appendChunk_def st_data_def ck_ok_def ck_text_def)

lemma prependChunk_ok:
  "st_wf c \<Longrightarrow> ck_ok k \<Longrightarrow> st_wf (st_prependChunk k c) \<and> st_data (st_prependChunk k c) = ck_text k @ st_data c"
  by (auto simp: st_wf_def st_prependChunk_def st_data_def ck_ok_def ck_text_def)

lemma appendChunks_ok:
  "st_wf c \<Longrightarrow> \<forall>k \<in> set ks. ck_ok k \<Longrightarrow>
   \<exists>c'. st_appendChunks ks c = Inr c' \<and> st_wf c' \<and> st_data c' = st_data c @ concat (map ck_text ks)"
proof (induction ks arbitrary: c)
  case (Cons k ks)
  obtain k' where k: "st_copyChunk k = Inr k'" "ck_ok k'" "ck_text k' = ck_text k" using copyChunk_ok Cons.prems(2) by auto
  from Cons.IH [of "st_appendChunk k' c"] appendChunk_ok [OF Cons.prems(1) k(2)] Cons.prems(2) k show ?case by auto
qed simp

lemma clearCore_ok: "st_wf c \<Longrightarrow> st_clearCore c = st_new"
  by (cases c) (auto simp: st_clearCore_def st_wf_def st_data_def st_new_def)

lemma gather_ok:
  "\<forall>k \<in> set ks. ck_ok k \<Longrightarrow> pos + length (concat (map ck_text ks)) \<le> length d \<Longrightarrow>
   st_gather d (int pos) ks = Inr (overwrite d pos (concat (map ck_text ks)))"
proof (induction ks arbitrary: d pos)
  case (Cons k ks)
  have k: "ck_ok k" using Cons.prems(1) by simp
  obtain n where n: "ck_nLength k = int n" "n = length (ck_text k)" using ck_text_int [OF k] by auto
  have ld: "mem_load (ck_pData k) 0 (int n) = Inr (ck_text k)"
    using mem_load_in [of 0 n "ck_pData k"] ck_ok_le [OF k] n(1) by (simp add: ck_text_def)
  have room: "pos + n \<le> length d" using Cons.prems(2) n(2) by simp
  then have sto: "mem_store d (int pos) (ck_text k) = Inr (overwrite d pos (ck_text k))"
    using mem_store_in [of pos "ck_text k" d] n(2) by simp
  have "st_gather (overwrite d pos (ck_text k)) (int (pos + n)) ks =
      Inr (overwrite (overwrite d pos (ck_text k)) (pos + n) (concat (map ck_text ks)))"
    by (rule Cons.IH) (use Cons.prems n(2) room in \<open>auto simp: length_overwrite\<close>)
  moreover have "overwrite (overwrite d pos (ck_text k)) (pos + n) (concat (map ck_text ks)) =
      overwrite d pos (ck_text k @ concat (map ck_text ks))"
    using overwrite_overwrite [of pos d "ck_text k"] room by (simp add: n(2) [symmetric])
  ultimately show ?case by (simp add: n(1) ld sto)
qed simp

lemma gathered_ok:
  assumes "st_wf c" "st_newChunk (st_nLength c) = Inr k"
  shows "\<exists>d. st_gather (ck_pData k) 0 (st_chunks c) = Inr d \<and> ck_ok (k\<lparr>ck_pData := d\<rparr>) \<and>
    ck_text (k\<lparr>ck_pData := d\<rparr>) = st_data c \<and> ck_room (k\<lparr>ck_pData := d\<rparr>) \<and> ck_nLength k = st_nLength c"
proof -
  let ?n = "length (st_data c)"
  have n: "st_nLength c = int ?n" using assms(1) by (simp add: st_wf_def)
  have k: "ck_nLength k = int ?n" "length (ck_pData k) = (if ?n < 256 then 256 else ?n + 1)"
    using newChunk_ok [of ?n] assms(2) unfolding n by auto
  have "st_gather (ck_pData k) (int 0) (st_chunks c) = Inr (overwrite (ck_pData k) 0 (concat (map ck_text (st_chunks c))))"
    by (rule gather_ok) (use assms(1) k in \<open>auto simp: st_wf_def st_data_def [symmetric]\<close>)
  then have g: "st_gather (ck_pData k) 0 (st_chunks c) = Inr (overwrite (ck_pData k) 0 (st_data c))" by (simp add: st_data_def)
  have l: "length (overwrite (ck_pData k) 0 (st_data c)) = length (ck_pData k)" using k by (simp add: length_overwrite)
  have "take ?n (overwrite (ck_pData k) 0 (st_data c)) = st_data c" by (simp add: overwrite_def)
  with g l k n show ?thesis
    by (intro exI [of _ "overwrite (ck_pData k) 0 (st_data c)"]) (simp add: ck_ok_def ck_text_def ck_room_def)
qed

text \<open>A flat core: no chunk, or one that has all the text.\<close>

definition st_flat :: "str_core \<Rightarrow> bool" where
  "st_flat c \<longleftrightarrow> st_wf c \<and> (st_data c \<noteq> [] \<longrightarrow> (\<exists>k. st_chunks c = [k]))"

lemma st_flat_first:
  assumes "st_flat c" "st_data c \<noteq> []"
  shows "\<exists>k. st_chunks c = [k] \<and> st_first c = Inr k \<and> ck_ok k \<and> ck_text k = st_data c \<and> ck_nLength k = st_nLength c"
  using assms ck_text_int by (auto simp: st_flat_def st_wf_def st_first_def st_data_def)

lemma st_copy_ok:
  assumes wf: "st_wf c"
  shows "\<exists>c'. st_copy c = Inr c' \<and> st_flat c' \<and> st_data c' = st_data c \<and> (\<forall>k \<in> set (st_chunks c'). ck_room k)"
proof (cases "st_chunks c = [] \<or> st_nLength c = 0")
  case True
  then have "st_data c = []" using wf by (auto simp: st_wf_def st_data_def)
  with True wf show ?thesis by (auto simp: st_copy_def st_flat_def st_wf_def st_data_def)
next
  case False
  then obtain k where k: "st_newChunk (st_nLength c) = Inr k" using newChunk_ok [of "length (st_data c)"] wf by (auto simp: st_wf_def)
  from gathered_ok [OF wf k] obtain d where d: "st_gather (ck_pData k) 0 (st_chunks c) = Inr d" "ck_ok (k\<lparr>ck_pData := d\<rparr>)"
    "ck_text (k\<lparr>ck_pData := d\<rparr>) = st_data c" "ck_room (k\<lparr>ck_pData := d\<rparr>)" "ck_nLength k = st_nLength c" by blast
  have "st_copy c = Inr (c\<lparr>st_chunks := [k\<lparr>ck_pData := d\<rparr>]\<rparr>)" using False k d(1) by (simp add: st_copy_def)
  with d wf show ?thesis by (simp add: st_flat_def st_wf_def st_data_def)
qed

lemma st_flatten_ok:
  assumes wf: "st_wf c"
  shows "\<exists>c'. st_flatten c = Inr c' \<and> st_flat c' \<and> st_data c' = st_data c \<and>
    (\<not> st_isFlat c \<longrightarrow> st_data c \<noteq> [] \<longrightarrow> (\<forall>k \<in> set (st_chunks c'). ck_room k)) \<and> (st_isFlat c \<longrightarrow> c' = c)"
proof (cases "st_isFlat c \<or> st_nLength c = 0")
  case True
  then have e: "st_flatten c = Inr c" by (auto simp: st_flatten_def)
  have z: "st_nLength c = 0 \<longleftrightarrow> st_data c = []" using wf by (simp add: st_wf_def)
  have "\<exists>k. st_chunks c = [k]" if "st_isFlat c" "st_data c \<noteq> []"
    using that by (cases "st_chunks c") (auto simp: st_isFlat_def st_data_def)
  then have "st_flat c" using True wf z by (auto simp: st_flat_def)
  with e True z show ?thesis by auto
next
  case False
  then obtain k where k: "st_newChunk (st_nLength c) = Inr k" using newChunk_ok [of "length (st_data c)"] wf by (auto simp: st_wf_def)
  from gathered_ok [OF wf k] obtain d where d: "st_gather (ck_pData k) 0 (st_chunks c) = Inr d" "ck_ok (k\<lparr>ck_pData := d\<rparr>)"
    "ck_text (k\<lparr>ck_pData := d\<rparr>) = st_data c" "ck_room (k\<lparr>ck_pData := d\<rparr>)" "ck_nLength k = st_nLength c" by blast
  have "st_flatten c = Inr \<lparr>st_nLength = st_nLength c, st_chunks = [k\<lparr>ck_pData := d\<rparr>]\<rparr>"
    using False k d(1,5) by (simp add: st_flatten_def)
  with d wf False show ?thesis by (simp add: st_flat_def st_wf_def st_data_def)
qed

lemma st_hardCopy_ok:
  assumes wf: "st_wf c"
  shows "\<exists>c'. st_hardCopy sh c = Inr c' \<and> st_wf c' \<and> st_data c' = st_data c \<and> (st_flat c \<longrightarrow> st_flat c') \<and>
    ((\<forall>k \<in> set (st_chunks c). ck_room k) \<longrightarrow> (\<forall>k \<in> set (st_chunks c'). ck_room k))"
proof (cases sh)
  case True
  with st_copy_ok [OF wf] show ?thesis by (auto simp: st_hardCopy_def st_flat_def)
next
  case False
  with wf show ?thesis by (simp add: st_hardCopy_def)
qed

section \<open>Appending\<close>

lemma st_data_snoc: "st_chunks c = ks @ [l] \<Longrightarrow> st_data c = concat (map ck_text ks) @ ck_text l"
  by (simp add: st_data_def)

lemma appendLast_ok:
  assumes wf: "st_wf c" and room: "p + n \<le> length pData"
  shows "\<exists>k c'. st_appendLast pData (int p) (int n) c = Inr (int k, c') \<and> k \<le> n \<and> st_wf c' \<and>
    st_data c' = st_data c @ take k (drop p pData)"
proof (cases "st_chunks c \<noteq> [] \<and> ck_nLength (last (st_chunks c)) < nMinSize")
  case False
  then have "st_appendLast pData (int p) (int n) c = Inr (int 0, c)" by (auto simp: st_appendLast_def)
  with wf show ?thesis by (intro exI [of _ 0] exI [of _ c]) simp
next
  case True
  then obtain ks l where c: "st_chunks c = ks @ [l]" by (metis rev_exhaust)
  have l: "ck_ok l" using wf c by (simp add: st_wf_def)
  define j where "j = nat (ck_nLength l)"
  have j: "ck_nLength l = int j" "j < 256" "256 \<le> length (ck_pData l)" using l True c by (simp_all add: j_def ck_ok_def nMinSize_def)
  define k where "k = (if 256 - j > n then n else 256 - j)"
  have k: "k \<le> n" "j + k \<le> 256" using j(2) by (auto simp: k_def)
  have amnt: "(if nMinSize - ck_nLength l > int n then int n else nMinSize - ck_nLength l) = int k"
    using j(2) by (auto simp: k_def nMinSize_def j(1))
  let ?xs = "take k (drop p pData)"
  have lx: "length ?xs = k" using room k(1) by simp
  have ld: "mem_load pData (int p) (int k) = Inr ?xs" by (rule mem_load_in) (use room k(1) in simp)
  have sto: "mem_store (ck_pData l) (int j) ?xs = Inr (overwrite (ck_pData l) j ?xs)"
    by (rule mem_store_in) (use lx j k in simp)
  let ?d = "overwrite (ck_pData l) j ?xs"
  define c' where "c' = \<lparr>st_nLength = st_nLength c + int k, st_chunks = ks @ [\<lparr>ck_nLength = int j + int k, ck_pData = ?d\<rparr>]\<rparr>"
  have "st_appendLast pData (int p) (int n) c = Inr (int k, c')"
    using True c amnt ld sto j(1) by (simp add: st_appendLast_def Let_def c'_def del: of_nat_add)
  moreover have ld': "length ?d = length (ck_pData l)" using lx j k by (simp add: length_overwrite)
  moreover have "take (j + k) ?d = ck_text l @ ?xs" using lx j by (simp add: overwrite_def ck_text_def)
  then have tx: "ck_text \<lparr>ck_nLength = int j + int k, ck_pData = ?d\<rparr> = ck_text l @ ?xs" by (simp add: ck_text_def nat_add_distrib)
  moreover have "ck_ok \<lparr>ck_nLength = int j + int k, ck_pData = ?d\<rparr>" using ld' j k by (auto simp: ck_ok_def nat_add_distrib)
  moreover have "st_data c' = st_data c @ ?xs" using tx c by (simp add: st_data_def c'_def)
  ultimately show ?thesis using k(1) wf c lx
    by (intro exI [of _ k] exI [of _ c']) (simp add: st_wf_def c'_def)
qed

lemma st_append_ok:
  assumes wf: "st_wf c" and room: "p + n \<le> length pData"
  shows "\<exists>c'. st_append sh pData (int p) (int n) c = Inr c' \<and> st_wf c' \<and> st_data c' = st_data c @ take n (drop p pData)"
proof (cases "n = 0")
  case True
  with wf show ?thesis by (simp add: st_append_def)
next
  case False
  obtain c1 where c1: "st_hardCopy sh c = Inr c1" "st_wf c1" "st_data c1 = st_data c" using st_hardCopy_ok [OF wf] by blast
  obtain k c2 where c2: "st_appendLast pData (int p) (int n) c1 = Inr (int k, c2)" "k \<le> n" "st_wf c2"
    "st_data c2 = st_data c1 @ take k (drop p pData)" using appendLast_ok [OF c1(2) room] by blast
  show ?thesis
  proof (cases "k = n")
    case True
    with False c1 c2 show ?thesis by (simp add: st_append_def)
  next
    case k: False
    have "p + k + (n - k) \<le> length pData" using room c2(2) by simp
    from filledChunk_ok [OF this] obtain f where f: "st_filledChunk pData (int (p + k)) (int (n - k)) = Inr f" "ck_ok f"
      "ck_text f = take (n - k) (drop (p + k) pData)" by blast
    have "st_append sh pData (int p) (int n) c = Inr (st_appendChunk f c2)"
      using False k c1(1) c2(1,2) f(1) by (simp add: st_append_def of_nat_diff)
    moreover have "take k (drop p pData) @ take (n - k) (drop (p + k) pData) = take n (drop p pData)"
      using take_add [of k "n - k" "drop p pData"] c2(2) by (simp add: add.commute)
    ultimately show ?thesis using appendChunk_ok [OF c2(3) f(2)] c1(3) c2(4) f(3) by simp
  qed
qed

lemma st_append_whole:
  "st_wf c \<Longrightarrow> \<exists>c'. st_append sh xs 0 (int (length xs)) c = Inr c' \<and> st_wf c' \<and> st_data c' = st_data c @ xs"
  using st_append_ok [of c 0 "length xs" xs sh] by simp

text \<open>
  A character goes straight into the last chunk that was seen before the core was copied; the copy
  of an empty core has no chunk.
\<close>

lemma st_appendChar_ok:
  assumes wf: "st_wf c" and ne: "sh \<longrightarrow> st_chunks c = [] \<or> st_data c \<noteq> [] \<and> length (st_data c) < 256"
  shows "\<exists>c'. st_appendChar sh x c = Inr c' \<and> st_wf c' \<and> st_data c' = st_data c @ [Some x]"
proof (cases "st_chunks c \<noteq> [] \<and> ck_nLength (last (st_chunks c)) < nMinSize")
  case False
  then have "st_appendChar sh x c = st_append sh [Some x] 0 1 c" by (auto simp: st_appendChar_def)
  with st_append_whole [OF wf, of sh "[Some x]"] show ?thesis by simp
next
  case True
  have "\<exists>c1. st_hardCopy sh c = Inr c1 \<and> st_wf c1 \<and> st_data c1 = st_data c \<and> st_chunks c1 \<noteq> [] \<and>
    ck_nLength (last (st_chunks c1)) < 256"
  proof (cases sh)
    case sh: True
    obtain c1 where c1: "st_copy c = Inr c1" "st_flat c1" "st_data c1 = st_data c" "\<forall>k \<in> set (st_chunks c1). ck_room k"
      using st_copy_ok [OF wf] by blast
    have ne': "st_data c1 \<noteq> []" "length (st_data c1) < 256" using c1(3) ne sh True by auto
    obtain k where "st_chunks c1 = [k]" "ck_nLength k = st_nLength c1" using st_flat_first [OF c1(2) ne'(1)] by blast
    moreover have "st_nLength c1 < 256" using c1(2) ne'(2) by (simp add: st_flat_def st_wf_def)
    ultimately show ?thesis using c1(1-3) sh by (simp add: st_hardCopy_def st_flat_def)
  next
    case False
    with True wf show ?thesis by (simp add: st_hardCopy_def nMinSize_def)
  qed
  then obtain c1 where c1: "st_hardCopy sh c = Inr c1" "st_wf c1" "st_data c1 = st_data c" "st_chunks c1 \<noteq> []"
    "ck_nLength (last (st_chunks c1)) < 256" by blast
  obtain ks l where ks: "st_chunks c1 = ks @ [l]" using c1(4) by (metis rev_exhaust)
  have l: "ck_ok l" using c1(2) ks by (simp add: st_wf_def)
  define j where "j = nat (ck_nLength l)"
  have j: "ck_nLength l = int j" "j < length (ck_pData l)" "j < 256" using l c1(5) ks by (auto simp: j_def ck_ok_def)
  let ?k = "\<lparr>ck_nLength = int j + 1, ck_pData = (ck_pData l)[j := Some x]\<rparr>"
  define c' where "c' = \<lparr>st_nLength = st_nLength c1 + 1, st_chunks = ks @ [?k]\<rparr>"
  have e: "st_appendChar sh x c = Inr c'"
    using True c1(1,4) ks j by (simp add: st_appendChar_def Let_def c'_def)
  have tx: "ck_text ?k = ck_text l @ [Some x]" using j by (simp add: ck_text_def nat_add_distrib take_Suc_conv_app_nth)
  have ok: "ck_ok ?k" using l j by (auto simp: ck_ok_def nat_add_distrib)
  have dt: "st_data c' = st_data c1 @ [Some x]" using ks tx by (simp add: st_data_def c'_def)
  have "st_wf c'" using c1(2) ks ok dt by (simp add: st_wf_def c'_def)
  with e dt c1(3) show ?thesis by simp
qed

lemma st_appendChar_null:
  assumes wf: "st_wf c" and c: "st_chunks c \<noteq> []" "st_data c = []"
  shows "st_appendChar True x c = Inl Out_Of_Bounds"
proof -
  have k: "ck_nLength k = 0" if "k \<in> set (st_chunks c)" for k
  proof -
    have "ck_ok k" "ck_text k = []" using wf c(2) that by (auto simp: st_wf_def st_data_def)
    then show ?thesis using length_ck_text [of k] by (simp add: ck_ok_def)
  qed
  have z: "st_nLength c = 0" using wf c(2) by (simp add: st_wf_def)
  have "ck_nLength (last (st_chunks c)) = 0" using k c(1) by simp
  with z c(1) show ?thesis by (simp add: st_appendChar_def st_hardCopy_def st_copy_def nMinSize_def)
qed

section \<open>getStr\<close>

text \<open>One chunk that is full to the last byte has no room for the terminator.\<close>

definition st_full :: "str_core \<Rightarrow> bool" where
  "st_full c \<longleftrightarrow> (\<exists>k. st_chunks c = [k] \<and> \<not> ck_room k)"

lemma st_full_data: "st_wf c \<Longrightarrow> st_full c \<Longrightarrow> length (st_data c) = 256"
  by (auto simp: st_full_def st_wf_def st_data_def ck_room_def ck_ok_def ck_text_def)

lemma st_flatten_room:
  assumes wf: "st_wf c" and ne: "st_data c \<noteq> []" and nf: "\<not> st_full c"
  shows "\<exists>c' k. st_flatten c = Inr c' \<and> st_flat c' \<and> st_data c' = st_data c \<and> st_chunks c' = [k] \<and> ck_room k"
proof -
  obtain c' where c': "st_flatten c = Inr c'" "st_flat c'" "st_data c' = st_data c"
    "\<not> st_isFlat c \<longrightarrow> st_data c \<noteq> [] \<longrightarrow> (\<forall>k \<in> set (st_chunks c'). ck_room k)" "st_isFlat c \<longrightarrow> c' = c"
    using st_flatten_ok [OF wf] by blast
  obtain k where k: "st_chunks c' = [k]" using st_flat_first [OF c'(2)] ne c'(3) by auto
  have "ck_room k"
  proof (cases "st_isFlat c")
    case True
    with c'(5) k nf show ?thesis by (auto simp: st_full_def)
  next
    case False
    with c'(4) ne k show ?thesis by simp
  qed
  with c' k show ?thesis by blast
qed

text \<open>The two versions of \<open>getStr\<close> as one, with the copy of the second one.\<close>

lemma st_getStrMut_ok:
  assumes wf: "st_wf c" and nf: "\<not> st_full c"
  shows "\<exists>p c'. st_getStrMut sh c = Inr (p, c') \<and> st_wf c' \<and> st_data c' = st_data c \<and>
    take (length (st_data c)) p = st_data c \<and> length (st_data c) < length p \<and> p ! length (st_data c) = Some 0"
proof (cases "st_data c = []")
  case True
  then have "st_nLength c = 0" using wf by (simp add: st_wf_def)
  with True wf show ?thesis by (simp add: st_getStrMut_def)
next
  case False
  obtain c0 k0 where c0: "st_flatten c = Inr c0" "st_flat c0" "st_data c0 = st_data c" "st_chunks c0 = [k0]" "ck_room k0"
    using st_flatten_room [OF wf False nf] by blast
  have "st_wf c0" using c0(2) by (simp add: st_flat_def)
  from st_hardCopy_ok [OF this, of sh] obtain c1 where c1: "st_hardCopy sh c0 = Inr c1" "st_flat c1" "st_data c1 = st_data c"
    "\<forall>k \<in> set (st_chunks c1). ck_room k" using c0 by auto
  from st_flat_first [OF c1(2)] False c1(3) obtain k where k: "st_chunks c1 = [k]" "st_first c1 = Inr k" "ck_ok k"
    "ck_text k = st_data c" "ck_nLength k = st_nLength c1" by auto
  define n where "n = length (st_data c)"
  have wf1: "st_wf c1" using c1(2) by (simp add: st_flat_def)
  have n: "st_nLength c1 = int n" using wf1 c1(3) by (simp add: st_wf_def n_def)
  have nr: "n < length (ck_pData k)" using c1(4) k(1,5) n by (simp add: ck_room_def)
  have set: "arr_set (ck_pData k) (st_nLength c1) (Some 0) = Inr ((ck_pData k)[n := Some 0])" using nr by (simp add: n)
  let ?d = "(ck_pData k)[n := Some 0]"
  have tx: "take n ?d = st_data c" using k(4,5) n by (simp add: ck_text_def)
  have nz: "st_nLength c \<noteq> 0" "st_chunks c \<noteq> []" using False wf by (auto simp: st_wf_def st_data_def)
  have e: "st_getStrMut sh c = Inr (?d, st_setFirst (k\<lparr>ck_pData := ?d\<rparr>) c1)"
    using nz c0(1) c1(1) k(2) set by (simp add: st_getStrMut_def)
  have "ck_text (k\<lparr>ck_pData := ?d\<rparr>) = st_data c" using tx k(5) n by (simp add: ck_text_def)
  moreover have "ck_ok (k\<lparr>ck_pData := ?d\<rparr>)" using k(3) by (simp add: ck_ok_def)
  ultimately have "st_wf (st_setFirst (k\<lparr>ck_pData := ?d\<rparr>) c1)" "st_data (st_setFirst (k\<lparr>ck_pData := ?d\<rparr>) c1) = st_data c"
    using k(1) n by (simp_all add: st_wf_def st_setFirst_def st_data_def n_def)
  with e tx nr show ?thesis by (simp add: n_def)
qed

lemma hardCopy_own: "st_hardCopy False = Inr"
  by (rule ext) (simp add: st_hardCopy_def)

lemma st_getStr_eq: "st_getStr c = st_getStrMut False c"
  by (simp add: st_getStr_def st_getStrMut_def hardCopy_own)

lemmas st_getStr_ok = st_getStrMut_ok [of _ False, folded st_getStr_eq]

lemma st_getStr_full:
  assumes wf: "st_wf c" and f: "st_full c"
  shows "st_getStr c = Inl Out_Of_Bounds"
proof -
  obtain k where k: "st_chunks c = [k]" "\<not> ck_room k" using f by (auto simp: st_full_def)
  have ok: "ck_ok k" using wf k(1) by (simp add: st_wf_def)
  have n: "st_nLength c = ck_nLength k" using wf k(1) ok by (simp add: st_wf_def st_data_def ck_ok_def)
  have "st_nLength c \<noteq> 0" using st_full_data [OF wf f] wf by (auto simp: st_wf_def)
  moreover have "st_flatten c = Inr c" using k(1) by (simp add: st_flatten_def st_isFlat_def)
  moreover have "arr_set (ck_pData k) (st_nLength c) (Some 0) = Inl Out_Of_Bounds"
    using k(2) ok n by (auto simp: arr_set_def ck_room_def ck_ok_def)
  ultimately show ?thesis using k(1) by (simp add: st_getStr_def st_first_def)
qed

end
