(* ===== verification/Bu_StringEdit.thy ===== *)
theory Bu_StringEdit
  imports Bu_StringOps
begin

text \<open>
  The members that change a string, each as what it does to the text, and a program of such calls
  against a program on lists of bytes.
\<close>

section \<open>The members that flatten first\<close>

definition st_gives :: "str_core result \<Rightarrow> byte option list \<Rightarrow> bool" where
  "st_gives r xs \<longleftrightarrow> (\<exists>c. r = Inr c \<and> st_wf c \<and> st_data c = xs)"

lemma st_givesI [intro]: "r = Inr c \<Longrightarrow> st_wf c \<Longrightarrow> st_data c = xs \<Longrightarrow> st_gives r xs"
  by (auto simp: st_gives_def)

lemma st_givesE: "st_gives r xs \<Longrightarrow> (\<And>c. r = Inr c \<Longrightarrow> st_wf c \<Longrightarrow> st_data c = xs \<Longrightarrow> thesis) \<Longrightarrow> thesis"
  by (auto simp: st_gives_def)

lemma append_gives:
  assumes "st_wf c" "0 \<le> p" "nat p + nat n \<le> length src"
  shows "st_gives (st_append sh src p n c) (st_data c @ take (nat n) (drop (nat p) src))"
proof (cases "n \<le> 0")
  case True
  with assms(1) show ?thesis by (intro st_givesI [of _ c]) (simp_all add: st_append_def)
next
  case False
  with st_append_ok [OF assms(1,3), of sh] assms(2) show ?thesis by (auto simp: st_gives_def)
qed

lemma filledChunk_gives:
  assumes "0 \<le> p" "0 \<le> n" "nat p + nat n \<le> length src"
  obtains k where "st_filledChunk src p n = Inr k" "ck_ok k" "ck_text k = take (nat n) (drop (nat p) src)"
  using filledChunk_ok [OF assms(3)] assms(1,2) by auto

lemma clear_gives: "st_wf c \<Longrightarrow> st_clear sh c = Inr st_new"
  using st_hardCopy_ok [of c sh] clearCore_ok by (auto simp: st_clear_def)

lemma flat_copy:
  assumes wf: "st_wf c" and ne: "st_data c \<noteq> []"
  obtains c0 c1 k n where "st_flatten c = Inr c0" "st_hardCopy sh c0 = Inr c1" "st_chunks c1 = [k]" "st_first c1 = Inr k"
    "ck_ok k" "ck_text k = st_data c" "ck_nLength k = int n" "st_nLength c1 = int n" "length (st_data c) = n"
    "st_wf c1" "st_data c1 = st_data c" "length (st_data c) \<noteq> 256 \<longrightarrow> ck_room k" "n \<le> length (ck_pData k)"
proof -
  obtain c0 where c0: "st_flatten c = Inr c0" "st_flat c0" "st_data c0 = st_data c" using st_flatten_ok [OF wf] by blast
  have "st_wf c0" using c0(2) by (simp add: st_flat_def)
  from st_hardCopy_ok [OF this, of sh] obtain c1 where c1: "st_hardCopy sh c0 = Inr c1" "st_flat c1" "st_data c1 = st_data c"
    using c0 by auto
  from st_flat_first [OF c1(2)] ne c1(3) obtain k where k: "st_chunks c1 = [k]" "st_first c1 = Inr k" "ck_ok k"
    "ck_text k = st_data c" "ck_nLength k = st_nLength c1" by auto
  have wf1: "st_wf c1" using c1(2) by (simp add: st_flat_def)
  then have n: "st_nLength c1 = int (length (st_data c))" using c1(3) by (simp add: st_wf_def)
  have "length (st_data c) \<noteq> 256 \<longrightarrow> ck_room k" using k(3,5) n by (auto simp: ck_ok_def ck_room_def)
  moreover have "length (st_data c) \<le> length (ck_pData k)" using ck_ok_le [OF k(3)] k(5) n by simp
  ultimately show ?thesis using that c0(1) c1(1,3) k n wf1 by metis
qed

lemma ck_pData_split:
  assumes "ck_ok k" "ck_nLength k = int n"
  shows "ck_pData k = ck_text k @ drop n (ck_pData k)" "length (ck_text k) = n"
  using assms by (simp_all add: ck_text_def ck_ok_le min_def) (use ck_ok_le [OF assms(1)] in simp)

definition ins_spec :: "int \<Rightarrow> 'a list \<Rightarrow> 'a list \<Rightarrow> 'a list" where
  "ins_spec i xs d = take (nat i) d @ xs @ drop (nat i) d"

lemma prepend_gives:
  assumes wf: "st_wf c" and n: "0 \<le> n" "nat n \<le> length src"
  shows "st_gives (st_prepend sh src n c) (take (nat n) src @ st_data c)"
proof -
  obtain k where k: "st_filledChunk src 0 n = Inr k" "ck_ok k" "ck_text k = take (nat n) src"
    using filledChunk_gives [of 0 n src] n by auto
  obtain c1 where c1: "st_hardCopy sh c = Inr c1" "st_wf c1" "st_data c1 = st_data c" using st_hardCopy_ok [OF wf, of sh] by blast
  from prependChunk_ok [OF c1(2) k(2)] c1(3) k(3) show ?thesis
    by (intro st_givesI [of _ "st_prependChunk k c1"]) (simp_all add: st_prepend_def k(1) c1(1))
qed

lemma three_chunks:
  assumes "ck_ok a" "ck_ok b" "ck_ok c"
  shows "st_wf (st_appendChunk c (st_appendChunk b (st_appendChunk a st_new)))"
    "st_data (st_appendChunk c (st_appendChunk b (st_appendChunk a st_new))) = ck_text a @ ck_text b @ ck_text c"
  using appendChunk_ok [OF st_wf_new(1) assms(1)] appendChunk_ok [OF _ assms(2)] appendChunk_ok [OF _ assms(3)] by simp_all

lemma insert_gives:
  assumes wf: "st_wf c" and n: "nat n \<le> length src"
  shows "st_gives (st_insert sh nPos src n c) (ins_spec nPos (take (nat n) src) (st_data c))"
proof -
  have len: "st_nLength c = int (length (st_data c))" using wf by (simp add: st_wf_def)
  consider "n \<le> 0" | "0 < n" "nPos \<le> 0" | "0 < n" "0 < nPos" "st_nLength c \<le> nPos" | "0 < n" "0 < nPos" "nPos < st_nLength c"
    by linarith
  then show ?thesis
  proof cases
    case 1
    with wf show ?thesis by (intro st_givesI [of _ c]) (simp_all add: st_insert_def ins_spec_def)
  next
    case 2
    with prepend_gives [OF wf, of n src sh] n show ?thesis by (simp add: st_insert_def ins_spec_def)
  next
    case 3
    then have "length (st_data c) \<le> nat nPos" using len by simp
    with 3 append_gives [OF wf, of 0 n src sh] n show ?thesis by (simp add: st_insert_def ins_spec_def)
  next
    case 4
    then have ne: "st_data c \<noteq> []" using len by auto
    obtain c0 c1 k m where f: "st_flatten c = Inr c0" "st_hardCopy sh c0 = Inr c1" "st_chunks c1 = [k]" "st_first c1 = Inr k"
      "ck_ok k" "ck_text k = st_data c" "ck_nLength k = int m" "st_nLength c1 = int m" "length (st_data c) = m" "st_wf c1"
      "m \<le> length (ck_pData k)"
      by (rule flat_copy [OF wf ne, of sh]) metis
    have pm: "nat nPos < m" using 4(2,3) len f(9) by (simp add: nat_less_iff)
    have td: "take m (ck_pData k) = st_data c" using f(6,7) by (simp add: ck_text_def)
    obtain p1 where p1: "st_filledChunk (ck_pData k) 0 nPos = Inr p1" "ck_ok p1" "ck_text p1 = take (nat nPos) (ck_pData k)"
      using filledChunk_gives [of 0 nPos "ck_pData k"] 4 pm f(11) by auto
    obtain p2 where p2: "st_filledChunk src 0 n = Inr p2" "ck_ok p2" "ck_text p2 = take (nat n) src"
      using filledChunk_gives [of 0 n src] 4 n by auto
    have r: "nat nPos + nat (int m - nPos) \<le> length (ck_pData k)" "0 \<le> int m - nPos" using pm f(11) 4(2) by linarith+
    obtain p3 where p3: "st_filledChunk (ck_pData k) nPos (int m - nPos) = Inr p3" "ck_ok p3"
      "ck_text p3 = take (nat (int m - nPos)) (drop (nat nPos) (ck_pData k))"
      by (rule filledChunk_gives [OF _ r(2) r(1)]) (use 4(2) in auto)
    have "take (nat nPos) (ck_pData k) = take (nat nPos) (st_data c)" using pm by (simp add: td [symmetric])
    moreover have "nat (int m - nPos) = m - nat nPos" using 4(2) by linarith
    then have "take (nat (int m - nPos)) (drop (nat nPos) (ck_pData k)) = drop (nat nPos) (st_data c)"
      by (simp add: td [symmetric] drop_take)
    moreover have "st_insert sh nPos src n c = Inr (st_appendChunk p3 (st_appendChunk p2 (st_appendChunk p1 st_new)))"
      using 4 f(1,2,4,8,10) p1(1) p2(1) p3(1) by (simp add: st_insert_def clearCore_ok)
    ultimately show ?thesis using three_chunks [OF p1(2) p2(2) p3(2)] p1(3) p2(3) p3(3)
      by (intro st_givesI) (simp_all add: ins_spec_def)
  qed
qed

definition rem_spec :: "int \<Rightarrow> int \<Rightarrow> 'a list \<Rightarrow> 'a list" where
  "rem_spec i n d = (if n \<le> 0 \<or> i < 0 then d else take (nat i) d @ drop (nat i + nat n) d)"

lemma setFirst_ok:
  assumes "st_chunks c = [k]" "ck_ok k'" "ck_text k' = xs" "st_nLength c = int (length xs)"
  shows "st_wf (st_setFirst k' c)" "st_data (st_setFirst k' c) = xs"
  using assms by (simp_all add: st_wf_def st_setFirst_def st_data_def)

lemma remove_gives:
  assumes wf: "st_wf c" and nf: "length (st_data c) \<noteq> 256"
  shows "st_gives (st_remove sh nPos nLen c) (rem_spec nPos nLen (st_data c))"
proof (cases "nLen \<le> 0 \<or> nPos < 0 \<or> nPos \<ge> st_nLength c")
  case True
  then have "nLen \<le> 0 \<or> nPos < 0 \<or> length (st_data c) \<le> nat nPos" using wf by (auto simp: st_wf_def)
  then have "rem_spec nPos nLen (st_data c) = st_data c" by (auto simp: rem_spec_def)
  with True wf show ?thesis by (intro st_givesI [of _ c]) (auto simp: st_remove_def)
next
  case False
  have len: "st_nLength c = int (length (st_data c))" using wf by (simp add: st_wf_def)
  have ne: "st_data c \<noteq> []" using False len by auto
  obtain c0 c1 k m where f: "st_flatten c = Inr c0" "st_hardCopy sh c0 = Inr c1" "st_chunks c1 = [k]" "st_first c1 = Inr k"
    "ck_ok k" "ck_text k = st_data c" "ck_nLength k = int m" "st_nLength c1 = int m" "length (st_data c) = m" "st_wf c1"
    "ck_room k"
    by (rule flat_copy [OF wf ne, of sh]) (use nf in metis)
  define p where "p = nat nPos"
  define n where "n = (if nat nLen > m - p then m - p else nat nLen)"
  have p: "nPos = int p" "p < m" using False len f(9) by (auto simp: p_def)
  have n: "(if nLen > st_nLength c - nPos then st_nLength c - nPos else nLen) = int n" "0 < n" "p + n \<le> m"
    using False p len f(9) by (auto simp: n_def)
  let ?D = "ck_pData k"
  have room: "m < length ?D" using f(7,11) by (simp add: ck_room_def)
  define q where "q = m - p - n + 1"
  have q: "int m - int p - int n + 1 = int q" "p + n + q = m + 1" using n(3) by (auto simp: q_def)
  let ?xs = "take q (drop (p + n) ?D)"
  have ld: "mem_load ?D (int p + int n) (int q) = Inr ?xs" using mem_load_in [of "p + n" q ?D] q(2) room by simp
  have lx: "length ?xs = q" using q(2) room by simp
  have sto: "mem_store ?D (int p) ?xs = Inr (overwrite ?D p ?xs)" by (rule mem_store_in) (use lx q(2) room in simp)
  let ?k = "\<lparr>ck_nLength = int m - int n, ck_pData = overwrite ?D p ?xs\<rparr>"
  let ?c = "c1\<lparr>st_nLength := int m - int n\<rparr>"
  have e: "st_remove sh nPos nLen c = Inr (st_setFirst ?k ?c)"
    unfolding st_remove_def Let_def n(1) using False f(1,2,4,7,8) ld sto q(1) p(1) by simp
  have td: "take m ?D = st_data c" using f(6,7) by (simp add: ck_text_def)
  have "m - n = p + (q - 1)" "p \<le> length ?D" "q - 1 \<le> q" using q(2) n(2,3) room by linarith+
  then have "take (m - n) (overwrite ?D p ?xs) = take p ?D @ take (q - 1) (drop (p + n) ?D)"
    using lx by (simp add: overwrite_def min_def)
  also have "\<dots> = take p (st_data c) @ drop (p + n) (st_data c)"
  proof -
    have "q - 1 = m - (p + n)" using q(2) by simp
    with p(2) show ?thesis by (simp add: td [symmetric] drop_take)
  qed
  also have "drop (p + n) (st_data c) = drop (p + nat nLen) (st_data c)" using f(9) by (auto simp: n_def)
  finally have tk: "take (m - n) (overwrite ?D p ?xs) = take p (st_data c) @ drop (p + nat nLen) (st_data c)" .
  have sp: "rem_spec nPos nLen (st_data c) = take p (st_data c) @ drop (p + nat nLen) (st_data c)"
    using False by (simp add: rem_spec_def p_def)
  have tx: "ck_text ?k = rem_spec nPos nLen (st_data c)" using tk sp n(3) by (simp add: ck_text_def nat_diff_distrib)
  have lo: "length (overwrite ?D p ?xs) = length ?D" using lx q(2) room by (simp add: length_overwrite)
  have "256 \<le> length ?D" using f(5) by (simp add: ck_ok_def)
  then have ok: "ck_ok ?k" using lo room n(3) by (simp add: ck_ok_def nat_diff_distrib) linarith
  have "length (ck_text ?k) = m - n" using length_ck_text [OF ok] n(3) by (simp add: nat_diff_distrib)
  then have "st_nLength ?c = int (length (rem_spec nPos nLen (st_data c)))" using tx n(3) by (simp add: of_nat_diff)
  from setFirst_ok [OF _ ok tx this] f(3) e show ?thesis by (intro st_givesI [OF e]) simp_all
qed

end
