(* ===== verification/Bu_StringSession.thy ===== *)
theory Bu_StringSession
  imports Bu_StringEdit
begin

text \<open>
  The members that cut or replace a whole string, and programs of edits: what a string holds after
  any of them is what the same program makes of a plain list of bytes.
\<close>

section \<open>Cutting and resizing\<close>

lemma newChunk_data:
  "st_newChunk (int n) = Inr \<lparr>ck_nLength = int n, ck_pData = (replicate (if n < 256 then 256 else n + 1) None)[n := Some 0]\<rparr>"
proof -
  let ?d = "replicate (nat (if int n < nMinSize then nMinSize else int n + 1)) None :: byte option list"
  have d: "?d = replicate (if n < 256 then 256 else n + 1) None" by (simp add: nMinSize_def nat_add_distrib)
  have "arr_set ?d (int n) (Some 0) = Inr (?d[n := Some 0])" by (rule arr_set_in) (unfold d, simp)
  then show ?thesis unfolding st_newChunk_def d by simp
qed

lemma take_new: "n \<le> m \<Longrightarrow> take n ((replicate m None)[n := x]) = replicate n None"
  by simp

lemma newChunk_text:
  assumes "0 \<le> n"
  obtains k where "st_newChunk n = Inr k" "ck_ok k" "ck_text k = replicate (nat n) None"
  using that newChunk_data [of "nat n"] assms by (auto simp: ck_ok_def ck_text_def)

lemma setSize_gives:
  assumes wf: "st_wf c" and n: "0 \<le> n"
  shows "st_gives (st_setSize sh n c) (replicate (nat n) None)"
proof -
  obtain k where k: "st_newChunk n = Inr k" "ck_ok k" "ck_text k = replicate (nat n) None" using newChunk_text [OF n] .
  obtain c1 where c1: "st_hardCopy sh c = Inr c1" "st_wf c1" using st_hardCopy_ok [OF wf, of sh] by blast
  from appendChunk_ok [OF st_wf_new(1) k(2)] k(3) show ?thesis
    by (intro st_givesI [of _ "st_appendChunk k st_new"]) (simp_all add: st_setSize_def c1 k(1) clearCore_ok)
qed

definition sub_spec :: "int \<Rightarrow> int \<Rightarrow> 'a list \<Rightarrow> 'a list" where
  "sub_spec i n xs = take (nat n) (drop (nat i) xs)"

lemma set_gives:
  assumes "st_wf c" "0 \<le> p" "nat p + nat n \<le> length src"
  shows "st_gives (st_set sh src p n c) (sub_spec p n src)"
  using append_gives [OF st_wf_new(1) assms(2,3), of False] by (simp add: st_set_def clear_gives [OF assms(1)] sub_spec_def)

lemma trimFront_gives:
  assumes wf: "st_wf c" and n: "0 \<le> n" "nat n \<le> length (st_data c)" and ne: "st_data c \<noteq> []"
  shows "st_gives (st_trimFront sh n c) (drop (nat n) (st_data c))"
proof -
  have len: "st_nLength c = int (length (st_data c))" using wf by (simp add: st_wf_def)
  obtain c0 where c0: "st_flatten c = Inr c0" "st_flat c0" "st_data c0 = st_data c" using st_flatten_ok [OF wf] by blast
  have wf0: "st_wf c0" using c0(2) by (simp add: st_flat_def)
  obtain k where k: "st_first c0 = Inr k" "ck_ok k" "ck_text k = st_data c" "ck_nLength k = st_nLength c0"
    using st_flat_first [OF c0(2)] c0(3) ne by auto
  obtain c1 where c1: "st_hardCopy sh c0 = Inr c1" "st_wf c1" using st_hardCopy_ok [OF wf0, of sh] by blast
  have lk: "length (st_data c) \<le> length (ck_pData k)" using k(3) by (metis ck_text_def length_take min.cobounded1)
  have r: "0 \<le> st_nLength c - n" "nat n + nat (st_nLength c - n) \<le> length (ck_pData k)" using n len lk by linarith+
  obtain q where q: "st_filledChunk (ck_pData k) n (st_nLength c - n) = Inr q" "ck_ok q"
    "ck_text q = take (nat (st_nLength c - n)) (drop (nat n) (ck_pData k))"
    by (rule filledChunk_gives [OF n(1) r])
  have e: "st_trimFront sh n c = Inr (st_appendChunk q st_new)"
    using q(1) c0(1) k(1) c1(1) clearCore_ok [OF c1(2)]
    by (auto simp: st_trimFront_def st_filledChunk_def rbind_eq_Inr)
  have td: "take (length (st_data c)) (ck_pData k) = st_data c" using k(3,4) wf0 c0(3) by (simp add: ck_text_def st_wf_def)
  have "nat (st_nLength c - n) = length (st_data c) - nat n" using len n by linarith
  then have "ck_text q = drop (nat n) (take (length (st_data c)) (ck_pData k))" using q(3) by (simp add: drop_take)
  then have "ck_text q = drop (nat n) (st_data c)" by (simp only: td)
  with appendChunk_ok [OF st_wf_new(1) q(2)] show ?thesis by (intro st_givesI [OF e]) simp_all
qed

definition trimBack_spec :: "int \<Rightarrow> 'a list \<Rightarrow> 'a list" where
  "trimBack_spec n d = (if n < 0 then d else take (length d - nat n) d)"

lemma trimBack_gives:
  assumes wf: "st_wf c"
  shows "st_gives (st_trimBack sh n c) (trimBack_spec n (st_data c))"
proof -
  have len: "st_nLength c = int (length (st_data c))" using wf by (simp add: st_wf_def)
  consider "n < 0" | "0 \<le> n" "st_nLength c - n < 0" | "0 \<le> n" "0 \<le> st_nLength c - n" "st_data c = []" |
    "0 \<le> n" "0 \<le> st_nLength c - n" "st_data c \<noteq> []" by linarith
  then show ?thesis
  proof cases
    case 1
    with wf show ?thesis by (intro st_givesI [of _ c]) (simp_all add: st_trimBack_def trimBack_spec_def)
  next
    case 2
    then have "length (st_data c) \<le> nat n" using len by simp
    with 2 show ?thesis by (intro st_givesI [of _ st_new]) (simp_all add: st_trimBack_def trimBack_spec_def clear_gives [OF wf])
  next
    case 3
    with wf len show ?thesis by (intro st_givesI [of _ c]) (auto simp: st_trimBack_def trimBack_spec_def)
  next
    case 4
    obtain c0 where c0: "st_flatten c = Inr c0" "st_flat c0" "st_data c0 = st_data c" using st_flatten_ok [OF wf] by blast
    have wf0: "st_wf c0" using c0(2) by (simp add: st_flat_def)
    obtain k where k: "st_chunks c0 = [k]" "st_first c0 = Inr k" "ck_ok k" "ck_text k = st_data c" "ck_nLength k = st_nLength c0"
      using st_flat_first [OF c0(2)] c0(3) 4(3) by auto
    have l0: "st_nLength c0 = int (length (st_data c))" using wf0 c0(3) by (simp add: st_wf_def)
    let ?m = "length (st_data c) - nat n"
    have m: "st_nLength c0 - n = int ?m" "?m \<le> length (st_data c)" using l0 len 4(1,2) by linarith+
    let ?k = "k\<lparr>ck_nLength := int ?m\<rparr>"
    have ok: "ck_ok ?k" using k(3) m(2) l0 k(5) by (auto simp: ck_ok_def)
    have td: "take (length (st_data c)) (ck_pData k) = st_data c" using k(4,5) l0 by (simp add: ck_text_def)
    have "take ?m (ck_pData k) = take ?m (take (length (st_data c)) (ck_pData k))" by simp
    also have "\<dots> = take ?m (st_data c)" by (simp only: td)
    finally have tx: "ck_text ?k = trimBack_spec n (st_data c)" using 4(1) by (simp add: ck_text_def trimBack_spec_def)
    have nz: "st_chunks c \<noteq> []" "st_nLength c \<noteq> 0" using 4(3) len by (auto simp: st_data_def)
    have e: "st_trimBack sh n c = Inr (st_setFirst ?k (c0\<lparr>st_nLength := int ?m\<rparr>))"
      using 4(1,2) nz c0(1) k(2,5) m(1) by (simp add: st_trimBack_def del: of_nat_diff)
    have "int ?m = int (length (trimBack_spec n (st_data c)))" using 4(1) by (simp add: trimBack_spec_def)
    from setFirst_ok [OF _ ok tx, of "c0\<lparr>st_nLength := int ?m\<rparr>"] this k(1) show ?thesis by (intro st_givesI [OF e]) simp_all
  qed
qed

definition resize_spec :: "int \<Rightarrow> byte option list \<Rightarrow> byte option list" where
  "resize_spec n d = (if nat n \<le> length d then take (nat n) d else d @ Some 0 # replicate (nat n - length d - 1) None)"

lemma resize_gives:
  assumes wf: "st_wf c"
  shows "st_gives (st_resize sh n c) (resize_spec n (st_data c))"
proof (cases "st_nLength c = n")
  case True
  then have "nat n = length (st_data c)" using wf by (simp add: st_wf_def)
  with True wf show ?thesis by (intro st_givesI [of _ c]) (simp_all add: st_resize_def resize_spec_def)
next
  case False
  define s where "s = nat n"
  have s: "(if n < 0 then 0 else n) = int s" by (simp add: s_def)
  have len: "st_nLength c = int (length (st_data c))" using wf by (simp add: st_wf_def)
  obtain c0 where c0: "st_flatten c = Inr c0" "st_flat c0" "st_data c0 = st_data c" using st_flatten_ok [OF wf] by blast
  have wf0: "st_wf c0" using c0(2) by (simp add: st_flat_def)
  from st_hardCopy_ok [OF wf0, of sh] obtain c1 where c1: "st_hardCopy sh c0 = Inr c1" "st_flat c1" "st_data c1 = st_data c"
    using c0 by auto
  have wf1: "st_wf c1" using c1(2) by (simp add: st_flat_def)
  define m where "m = length (st_data c)"
  have l1: "st_nLength c1 = int m" using wf1 c1(3) by (simp add: st_wf_def m_def)
  let ?r = "replicate (if s < 256 then 256 else s + 1) None :: byte option list"
  obtain k where k: "st_newChunk (int s) = Inr k" "ck_pData k = ?r[s := Some 0]" "ck_nLength k = int s"
    by (rule that [OF newChunk_data [of s]]) simp_all
  have lr: "s < length (ck_pData k)" "256 \<le> length (ck_pData k)" using k(2) by simp_all
  define j where "j = (if s < m then s else m)"
  have j: "(if int s < st_nLength c1 then int s else st_nLength c1) = int j" "j \<le> s" "j \<le> m" by (auto simp: j_def l1)
  let ?d = "overwrite (ck_pData k) 0 (take j (st_data c))"
  have lt: "length (take j (st_data c)) = j" using j(3) by (simp add: m_def)
  have copy: "(if st_nLength c1 > 0
      then rbind (st_first c1) (\<lambda>f. rbind (mem_load (ck_pData f) 0 (int j)) (\<lambda>xs. mem_store (ck_pData k) 0 xs))
      else Inr (ck_pData k)) = Inr ?d"
  proof (cases "m = 0")
    case True
    then show ?thesis using l1 j(3) by (simp add: overwrite_def)
  next
    case False
    then have "st_data c1 \<noteq> []" using c1(3) by (auto simp: m_def)
    from st_flat_first [OF c1(2) this] obtain f where f: "st_first c1 = Inr f" "ck_ok f" "ck_text f = st_data c" "ck_nLength f = int m"
      using c1(3) l1 by auto
    have "m \<le> length (ck_pData f)" using ck_ok_le [OF f(2)] f(4) by simp
    then have "mem_load (ck_pData f) 0 (int j) = Inr (take j (ck_pData f))" using mem_load_in [of 0 j "ck_pData f"] j(3) by simp
    moreover have "take j (ck_pData f) = take j (st_data c)" using f(3,4) j(3) by (simp add: ck_text_def flip: f(3))
    moreover have "mem_store (ck_pData k) 0 (take j (st_data c)) = Inr ?d"
      using mem_store_in [of 0 "take j (st_data c)" "ck_pData k"] lt j(2) lr(1) by simp
    ultimately show ?thesis using f(1) l1 False by simp
  qed
  have ld: "length ?d = length (ck_pData k)" using lt j(2) lr(1) by (simp add: length_overwrite)
  have st: "arr_set ?d (int j) (Some 0) = Inr (?d[j := Some 0])" by (rule arr_set_in) (use ld lr(1) j(2) in linarith)
  let ?K = "\<lparr>ck_nLength = int s, ck_pData = ?d[j := Some 0]\<rparr>"
  have e: "st_resize sh n c = Inr \<lparr>st_nLength = int s, st_chunks = [?K]\<rparr>"
    unfolding st_resize_def Let_def s c0(1) rbind_Inr c1(1) k(1) j(1) copy st using False k(3) by simp
  have dd: "?d = take j (st_data c) @ drop j (ck_pData k)" using lt by (simp add: overwrite_def)
  have tx: "ck_text ?K = resize_spec n (st_data c)"
  proof (cases "s \<le> m")
    case True
    then have js: "j = s" by (auto simp: j_def)
    have app: "take s (xs @ ys) = xs" if "length xs = s" for xs ys :: "byte option list" using that by simp
    have "take s (?d[j := Some 0]) = take s ?d" unfolding js by (rule take_update_cancel) simp
    also have "\<dots> = take s (st_data c)" unfolding dd unfolding js by (rule app) (use lt js in simp)
    finally have "take s (?d[j := Some 0]) = take s (st_data c)" .
    with True show ?thesis by (simp add: ck_text_def resize_spec_def s_def m_def)
  next
    case F: False
    then have jm: "j = m" by (simp add: j_def)
    have "drop m (ck_pData k) = None # drop (Suc m) (ck_pData k)"
      using F lr(1) Cons_nth_drop_Suc [of m "ck_pData k"] k(2) by (auto simp: nth_list_update)
    then have "?d[j := Some 0] = st_data c @ Some 0 # drop (Suc m) (ck_pData k)"
      unfolding dd unfolding jm by (simp add: m_def list_update_append)
    moreover have "take (s - m - 1) (drop (Suc m) (ck_pData k)) = replicate (s - m - 1) None"
      using F k(2) by (simp add: drop_update_swap take_drop)
    ultimately have "take s (?d[j := Some 0]) = st_data c @ Some 0 # replicate (s - m - 1) None"
      using F by (simp add: m_def take_Cons')
    with F show ?thesis by (simp add: ck_text_def resize_spec_def s_def m_def)
  qed
  have ok: "ck_ok ?K" using ld lr by (simp add: ck_ok_def)
  have "length (ck_text ?K) = s" using length_ck_text [OF ok] by simp
  with ok tx show ?thesis by (intro st_givesI [OF e]) (simp_all add: st_wf_def st_data_def)
qed

section \<open>Writing and getStr\<close>

lemma indexSet_gives:
  assumes wf: "st_wf c" and i: "0 \<le> i" "nat i < length (st_data c)"
  shows "st_gives (st_indexSet sh i x c) ((st_data c)[nat i := Some x])"
proof -
  have len: "st_nLength c = int (length (st_data c))" using wf by (simp add: st_wf_def)
  have ne: "st_data c \<noteq> []" using i by auto
  obtain c0 c1 k m where f: "st_flatten c = Inr c0" "st_hardCopy sh c0 = Inr c1" "st_chunks c1 = [k]" "st_first c1 = Inr k"
    "ck_ok k" "ck_text k = st_data c" "ck_nLength k = int m" "st_nLength c1 = int m" "length (st_data c) = m"
    "m \<le> length (ck_pData k)"
    by (rule flat_copy [OF wf ne, of sh]) metis
  have "nat i < length (ck_pData k)" using i(2) f(9,10) by linarith
  then have "arr_set (ck_pData k) i (Some x) = Inr ((ck_pData k)[nat i := Some x])"
    using arr_set_in [of "nat i" "ck_pData k" "Some x"] i(1) by simp
  then have e: "st_indexSet sh i x c = Inr (st_setFirst (k\<lparr>ck_pData := (ck_pData k)[nat i := Some x]\<rparr>) c1)"
    using i len f(1,2,4) by (simp add: st_indexSet_def)
  have ok: "ck_ok (k\<lparr>ck_pData := (ck_pData k)[nat i := Some x]\<rparr>)" using f(5) by (simp add: ck_ok_def)
  have tx: "ck_text (k\<lparr>ck_pData := (ck_pData k)[nat i := Some x]\<rparr>) = (st_data c)[nat i := Some x]"
    using f(6) by (simp add: ck_text_def take_update_swap flip: f(6))
  from setFirst_ok [OF f(3) ok tx] f(8,9) show ?thesis by (intro st_givesI [OF e]) simp_all
qed

lemma indexSet_outside:
  "st_wf c \<Longrightarrow> i < 0 \<or> int (length (st_data c)) \<le> i \<Longrightarrow> st_indexSet sh i x c = Inl (ExceptionBase ''Index out of range.'')"
  by (auto simp: st_indexSet_def st_wf_def)

lemma getStr_gives:
  assumes "st_wf c" "length (st_data c) \<noteq> 256"
  shows "st_gives (rbind (st_getStrMut sh c) (\<lambda>(p, c'). Inr c')) (st_data c)"
proof -
  have "\<not> st_full c" using st_full_data [OF assms(1)] assms(2) by blast
  from st_getStrMut_ok [OF assms(1) this, of sh] obtain p c' where "st_getStrMut sh c = Inr (p, c')" "st_wf c'" "st_data c' = st_data c"
    by blast
  then show ?thesis by (intro st_givesI [of _ c']) simp_all
qed

section \<open>Programs of edits\<close>

datatype st_edit =
    SE_Append "byte option list"
  | SE_AppendChar byte
  | SE_Prepend "byte option list"
  | SE_Insert int "byte option list"
  | SE_Remove int int
  | SE_Set "byte option list" int int
  | SE_Clear
  | SE_Resize int
  | SE_SetSize int
  | SE_TrimFront int
  | SE_TrimBack int
  | SE_Put int byte
  | SE_GetStr

fun st_do :: "bool \<Rightarrow> st_edit \<Rightarrow> str_core \<Rightarrow> str_core result" where
  "st_do sh (SE_Append xs) c = st_append sh xs 0 (int (length xs)) c"
| "st_do sh (SE_AppendChar x) c = st_appendChar sh x c"
| "st_do sh (SE_Prepend xs) c = st_prepend sh xs (int (length xs)) c"
| "st_do sh (SE_Insert i xs) c = st_insert sh i xs (int (length xs)) c"
| "st_do sh (SE_Remove i n) c = st_remove sh i n c"
| "st_do sh (SE_Set xs i n) c = st_set sh xs i n c"
| "st_do sh SE_Clear c = st_clear sh c"
| "st_do sh (SE_Resize n) c = st_resize sh n c"
| "st_do sh (SE_SetSize n) c = st_setSize sh n c"
| "st_do sh (SE_TrimFront n) c = st_trimFront sh n c"
| "st_do sh (SE_TrimBack n) c = st_trimBack sh n c"
| "st_do sh (SE_Put i x) c = st_indexSet sh i x c"
| "st_do sh SE_GetStr c = rbind (st_getStrMut sh c) (\<lambda>(p, c'). Inr c')"

text \<open>The same on a list of bytes.\<close>

fun list_do :: "st_edit \<Rightarrow> byte option list \<Rightarrow> byte option list" where
  "list_do (SE_Append xs) d = d @ xs"
| "list_do (SE_AppendChar x) d = d @ [Some x]"
| "list_do (SE_Prepend xs) d = xs @ d"
| "list_do (SE_Insert i xs) d = ins_spec i xs d"
| "list_do (SE_Remove i n) d = rem_spec i n d"
| "list_do (SE_Set xs i n) d = sub_spec i n xs"
| "list_do SE_Clear d = []"
| "list_do (SE_Resize n) d = resize_spec n d"
| "list_do (SE_SetSize n) d = replicate (nat n) None"
| "list_do (SE_TrimFront n) d = drop (nat n) d"
| "list_do (SE_TrimBack n) d = trimBack_spec n d"
| "list_do (SE_Put i x) d = d[nat i := Some x]"
| "list_do SE_GetStr d = d"

text \<open>
  What a caller has to see to: ranges inside the text and the argument, no character appended to a
  shared string that is empty or longer than a chunk, no text of exactly 256 bytes.
\<close>

fun edit_pre :: "bool \<Rightarrow> st_edit \<Rightarrow> byte option list \<Rightarrow> bool" where
  "edit_pre sh (SE_AppendChar x) d \<longleftrightarrow> (sh \<longrightarrow> d \<noteq> [] \<and> length d < 256)"
| "edit_pre sh (SE_Set xs i n) d \<longleftrightarrow> 0 \<le> i \<and> nat i + nat n \<le> length xs"
| "edit_pre sh (SE_SetSize n) d \<longleftrightarrow> 0 \<le> n"
| "edit_pre sh (SE_TrimFront n) d \<longleftrightarrow> 0 \<le> n \<and> nat n \<le> length d \<and> d \<noteq> []"
| "edit_pre sh (SE_Put i x) d \<longleftrightarrow> 0 \<le> i \<and> nat i < length d"
| "edit_pre sh e d \<longleftrightarrow> True"

fun st_program :: "(bool \<times> st_edit) list \<Rightarrow> str_core \<Rightarrow> str_core result" where
  "st_program [] c = Inr c"
| "st_program ((sh, e) # es) c = rbind (st_do sh e c) (st_program es)"

fun list_program :: "(bool \<times> st_edit) list \<Rightarrow> byte option list \<Rightarrow> byte option list" where
  "list_program [] d = d"
| "list_program ((sh, e) # es) d = list_program es (list_do e d)"

fun program_ok :: "(bool \<times> st_edit) list \<Rightarrow> byte option list \<Rightarrow> bool" where
  "program_ok [] d \<longleftrightarrow> True"
| "program_ok ((sh, e) # es) d \<longleftrightarrow> length d \<noteq> 256 \<and> edit_pre sh e d \<and> program_ok es (list_do e d)"

lemma st_do_gives:
  assumes wf: "st_wf c" and nf: "length (st_data c) \<noteq> 256" and pre: "edit_pre sh e (st_data c)"
  shows "st_gives (st_do sh e c) (list_do e (st_data c))"
proof (cases e)
  case (SE_Append xs)
  with append_gives [OF wf, of 0 "int (length xs)" xs sh] show ?thesis by simp
next
  case (SE_AppendChar x)
  with st_appendChar_ok [OF wf, of sh x] pre show ?thesis by (auto simp: st_gives_def)
next
  case (SE_Prepend xs)
  with prepend_gives [OF wf, of "int (length xs)" xs sh] show ?thesis by simp
next
  case (SE_Insert i xs)
  with insert_gives [OF wf, of "int (length xs)" xs sh i] show ?thesis by simp
next
  case (SE_Remove i n)
  with remove_gives [OF wf nf] show ?thesis by simp
next
  case (SE_Set xs i n)
  with set_gives [OF wf, of i n xs sh] pre show ?thesis by simp
next
  case SE_Clear
  with clear_gives [OF wf] show ?thesis by (auto intro: st_givesI [of _ st_new])
next
  case (SE_Resize n)
  with resize_gives [OF wf] show ?thesis by simp
next
  case (SE_SetSize n)
  with setSize_gives [OF wf] pre show ?thesis by simp
next
  case (SE_TrimFront n)
  with trimFront_gives [OF wf] pre show ?thesis by simp
next
  case (SE_TrimBack n)
  with trimBack_gives [OF wf] show ?thesis by simp
next
  case (SE_Put i x)
  with indexSet_gives [OF wf] pre show ?thesis by simp
next
  case SE_GetStr
  with getStr_gives [OF wf nf] show ?thesis by simp
qed

lemma program_gives:
  "st_wf c \<Longrightarrow> program_ok es (st_data c) \<Longrightarrow> st_gives (st_program es c) (list_program es (st_data c))"
proof (induction es arbitrary: c)
  case Nil
  then show ?case by (auto intro: st_givesI [of _ c])
next
  case (Cons x es)
  obtain sh e where x: "x = (sh, e)" by (cases x)
  from st_do_gives [OF Cons.prems(1), of sh e] Cons.prems(2) x
  obtain c' where c': "st_do sh e c = Inr c'" "st_wf c'" "st_data c' = list_do e (st_data c)"
    by (auto elim: st_givesE)
  with Cons.IH [of c'] Cons.prems(2) x show ?case by simp
qed

end
