(* ===== verification/Bu_StringCompare.thy ===== *)
theory Bu_StringCompare
  imports Bu_StringSession "HOL-Library.Sublist"
begin

text \<open>
  The constant members that flatten a string and look at its bytes: comparisons, the hash code, the
  searches by index, substrings. The strings here hold bytes that were written, \<open>map Some xs\<close>.
\<close>

section \<open>A flat string\<close>

definition st_holds :: "str_core \<Rightarrow> byte list \<Rightarrow> bool" where
  "st_holds c xs \<longleftrightarrow> st_wf c \<and> st_data c = map Some xs"

lemma st_holds_len: "st_holds c xs \<Longrightarrow> st_nLength c = int (length xs)"
  by (simp add: st_holds_def st_wf_def)

lemma st_holds_empty: "st_holds c xs \<Longrightarrow> st_chunks c = [] \<Longrightarrow> xs = []"
  by (simp add: st_holds_def st_data_def)

lemma st_holds_new [simp]: "st_holds st_new xs \<longleftrightarrow> xs = []"
  by (auto simp: st_holds_def)

lemma flat_holds:
  assumes h: "st_holds c xs" and ne: "xs \<noteq> []"
  obtains c1 k where "st_flatten c = Inr c1" "st_first c1 = Inr k" "st_chunks c1 = [k]" "ck_ok k" "ck_nLength k = int (length xs)"
    "take (length xs) (ck_pData k) = map Some xs" "length xs \<le> length (ck_pData k)" "st_holds c1 xs"
    "length xs \<noteq> 256 \<longrightarrow> length xs < length (ck_pData k)"
proof -
  have wf: "st_wf c" and d: "st_data c = map Some xs" "st_data c \<noteq> []" using h ne by (auto simp: st_holds_def)
  obtain c0 c1 k n where f: "st_flatten c = Inr c0" "st_hardCopy False c0 = Inr c1" "st_chunks c1 = [k]" "st_first c1 = Inr k"
    "ck_ok k" "ck_text k = st_data c" "ck_nLength k = int n" "length (st_data c) = n" "st_wf c1" "st_data c1 = st_data c"
    "length (st_data c) \<noteq> 256 \<longrightarrow> ck_room k" "n \<le> length (ck_pData k)"
    by (rule flat_copy [OF wf d(2), of False]) metis
  have n: "n = length xs" using f(8) d(1) by simp
  have "take (length xs) (ck_pData k) = map Some xs" using f(6,7) n d(1) by (simp add: ck_text_def)
  moreover have "length xs \<noteq> 256 \<longrightarrow> length xs < length (ck_pData k)" using f(7,8,11) n by (simp add: ck_room_def)
  moreover have "c1 = c0" using f(2) by (simp add: st_hardCopy_def)
  moreover have "st_holds c1 xs" using f(9,10) d(1) by (simp add: st_holds_def)
  ultimately show ?thesis using that [of c0 k] f n by simp
qed

lemma buf_get_in: "i < length xs \<Longrightarrow> take (length xs) d = map Some xs \<Longrightarrow> buf_get d (int i) = Inr (xs ! i)"
proof -
  assume i: "i < length xs" and t: "take (length xs) d = map Some xs"
  have "length xs \<le> length d" using arg_cong [OF t, of length] by simp
  moreover have "d ! i = Some (xs ! i)" using arg_cong [OF t, of "\<lambda>l. l ! i"] i by simp
  ultimately show ?thesis using i by (simp add: buf_get_def slot_get_def arr_get_def)
qed

lemma buf_get_hd: "take (Suc n) as = Some x # xs \<Longrightarrow> buf_get as 0 = Inr x \<and> take n (tl as) = xs"
  by (cases as) (simp_all add: buf_get_def slot_get_def arr_get_def)

section \<open>Equality\<close>

lemma equal_loop:
  "take n as = map Some xs \<Longrightarrow> take n bs = map Some ys \<Longrightarrow> length xs = n \<Longrightarrow> length ys = n \<Longrightarrow>
   st_equal_loop n as bs = Inr (xs = ys)"
proof (induction n arbitrary: as bs xs ys)
  case (Suc n)
  obtain x xs' y ys' where l: "xs = x # xs'" "ys = y # ys'" using Suc.prems(3,4) by (cases xs; cases ys) auto
  have "buf_get as 0 = Inr x" "take n (tl as) = map Some xs'" "buf_get bs 0 = Inr y" "take n (tl bs) = map Some ys'"
    using buf_get_hd [of n as x "map Some xs'"] buf_get_hd [of n bs y "map Some ys'"] Suc.prems(1,2) l by auto
  with Suc.IH [of "tl as" xs' "tl bs" ys'] Suc.prems(3,4) l show ?case by simp
qed simp

lemma st_equal_ok:
  assumes c: "st_holds c xs" and p: "st_holds p ys" and s: "same \<longrightarrow> c = p"
  shows "\<exists>c' p'. st_equal same c p = Inr (xs = ys, c', p') \<and> st_holds c' xs \<and> st_holds p' ys"
proof -
  have lc: "st_nLength c = int (length xs)" and lp: "st_nLength p = int (length ys)" using c p by (simp_all add: st_holds_len)
  have inj: "xs = ys" if "c = p" using c p that by (auto simp: st_holds_def inj_map_eq_map)
  consider "same \<or> st_chunks c = [] \<and> st_chunks p = []" | "\<not> same" "\<not> (st_chunks c = [] \<and> st_chunks p = [])" "xs = []" "ys = []" |
    "\<not> same" "\<not> (st_chunks c = [] \<and> st_chunks p = [])" "length xs \<noteq> length ys" |
    "\<not> same" "\<not> (st_chunks c = [] \<and> st_chunks p = [])" "length xs = length ys" "xs \<noteq> []" "ys \<noteq> []" by fastforce
  then show ?thesis
  proof cases
    case 1
    then have "xs = ys" using inj s st_holds_empty c p by blast
    with 1 c p show ?thesis by (auto simp: st_equal_def)
  next
    case 2
    then have "st_equal same c p = Inr (True, c, p)" using lc lp by (simp add: st_equal_def)
    with 2 c p show ?thesis by simp
  next
    case 3
    then have "st_equal same c p = Inr (False, c, p)" using lc lp by (auto simp: st_equal_def)
    with 3 c p show ?thesis by auto
  next
    case 4
    obtain c1 k where k: "st_flatten c = Inr c1" "st_first c1 = Inr k" "take (length xs) (ck_pData k) = map Some xs" "st_holds c1 xs"
      by (rule flat_holds [OF c 4(4)])
    obtain p1 q where q: "st_flatten p = Inr p1" "st_first p1 = Inr q" "take (length ys) (ck_pData q) = map Some ys" "st_holds p1 ys"
      by (rule flat_holds [OF p 4(5)])
    have ch: "st_chunks c \<noteq> []" "st_chunks p \<noteq> []" using st_holds_empty [OF c] st_holds_empty [OF p] 4(4,5) by auto
    have "st_equal_loop (length xs) (ck_pData q) (ck_pData k) = Inr (ys = xs)"
      by (rule equal_loop) (use k(3) q(3) 4(3) in simp_all)
    then have "st_equal same c p = Inr (ys = xs, c1, p1)"
      using 4 ch lc lp k(1,2) q(1,2) st_holds_len [OF k(4)] by (simp add: st_equal_def)
    then show ?thesis using k(4) q(4) by auto
  qed
qed

section \<open>The orders\<close>

text \<open>The answer of the loops where the right operand does not end first.\<close>

fun order_spec :: "(int \<Rightarrow> int \<Rightarrow> bool) \<Rightarrow> bool \<Rightarrow> byte list \<Rightarrow> byte list \<Rightarrow> bool" where
  "order_spec r e [] ys = e"
| "order_spec r e (x # xs) (y # ys) = (if x \<noteq> y then r (sint x) (sint y) else order_spec r e xs ys)"
| "order_spec r e (x # xs) [] = e"

lemma order_loop:
  "take (length xs) as = map Some xs \<Longrightarrow> take (length ys) bs = map Some ys \<Longrightarrow> \<not> strict_prefix ys xs \<Longrightarrow>
   st_order_loop r e (length xs) as bs = Inr (order_spec r e xs ys)"
proof (induction xs arbitrary: as bs ys)
  case (Cons x xs)
  obtain y ys' where y: "ys = y # ys'" using Cons.prems(3) by (cases ys) auto
  have a: "buf_get as 0 = Inr x" "take (length xs) (tl as) = map Some xs"
    using buf_get_hd [of "length xs" as x "map Some xs"] Cons.prems(1) by auto
  have b: "buf_get bs 0 = Inr y" "take (length ys') (tl bs) = map Some ys'"
    using buf_get_hd [of "length ys'" bs y "map Some ys'"] Cons.prems(2) y by auto
  show ?case
  proof (cases "x = y")
    case True
    with Cons.IH [OF a(2) b(2)] Cons.prems(3) a(1) b(1) y show ?thesis by simp
  next
    case False
    with a(1) b(1) y show ?thesis by simp
  qed
qed simp

lemma st_order_ok:
  assumes c: "st_holds c xs" "xs \<noteq> []" and p: "st_holds p ys" "ys \<noteq> []" and np: "\<not> strict_prefix ys xs"
  shows "\<exists>c' p'. st_order r e c p = Inr (order_spec r e xs ys, c', p') \<and> st_holds c' xs \<and> st_holds p' ys"
proof -
  obtain c1 k where k: "st_flatten c = Inr c1" "st_first c1 = Inr k" "take (length xs) (ck_pData k) = map Some xs" "st_holds c1 xs"
    by (rule flat_holds [OF c])
  obtain p1 q where q: "st_flatten p = Inr p1" "st_first p1 = Inr q" "take (length ys) (ck_pData q) = map Some ys" "st_holds p1 ys"
    by (rule flat_holds [OF p])
  have "st_order r e c p = Inr (order_spec r e xs ys, c1, p1)"
    using k(1,2) q(1,2) order_loop [OF k(3) q(3) np] st_holds_len [OF k(4)] by (simp add: st_order_def)
  with k(4) q(4) show ?thesis by blast
qed

lemma order_spec_less:
  "\<not> strict_prefix ys xs \<Longrightarrow> order_spec (<) False xs ys \<longleftrightarrow> ord_class.lexordp (map sint xs) (map sint ys) \<and> \<not> prefix xs ys"
proof (induction xs arbitrary: ys)
  case (Cons x xs)
  obtain y ys' where y: "ys = y # ys'" using Cons.prems by (cases ys) auto
  have "sint x = sint y \<longleftrightarrow> x = y" by (auto intro: signed_word_eqI)
  with Cons y show ?case by auto
qed simp

section \<open>The hash code\<close>

fun hash_spec :: "byte list \<Rightarrow> 64 word \<Rightarrow> 64 word" where
  "hash_spec [] h = h"
| "hash_spec (x # xs) h = hash_spec xs (scast x + push_bit 6 h + push_bit 16 h - h)"

lemma hash_loop: "take (length xs) s = map Some xs \<Longrightarrow> st_hash_loop (length xs) s h = Inr (hash_spec xs h)"
proof (induction xs arbitrary: s h)
  case (Cons x xs)
  have "buf_get s 0 = Inr x" "take (length xs) (tl s) = map Some xs"
    using buf_get_hd [of "length xs" s x "map Some xs"] Cons.prems by auto
  with Cons.IH show ?case by simp
qed simp

lemma getStr_holds:
  assumes h: "st_holds c xs" and n: "length xs \<noteq> 256"
  shows "\<exists>p c'. st_getStr c = Inr (p, c') \<and> st_holds c' xs \<and> take (length xs) p = map Some xs \<and> length xs < length p \<and>
    p ! length xs = Some 0"
proof -
  have wf: "st_wf c" "st_data c = map Some xs" using h by (simp_all add: st_holds_def)
  have "\<not> st_full c" using st_full_data [OF wf(1)] wf(2) n by auto
  from st_getStr_ok [OF wf(1) this] wf(2) show ?thesis by (auto simp: st_holds_def)
qed

lemma st_calcHashCode_ok:
  assumes h: "st_holds c xs" and n: "length xs \<noteq> 256"
  shows "\<exists>c'. st_calcHashCode c = Inr (ucast (hash_spec xs 0), c') \<and> st_holds c' xs"
proof -
  obtain p c' where p: "st_getStr c = Inr (p, c')" "st_holds c' xs" "take (length xs) p = map Some xs"
    using getStr_holds [OF h n] by blast
  with hash_loop [OF p(3)] st_holds_len [OF h] show ?thesis by (simp add: st_calcHashCode_def)
qed

section \<open>Searching by index\<close>

text \<open>The first index from \<open>j\<close> on that has the character.\<close>

fun idx_spec :: "byte \<Rightarrow> byte list \<Rightarrow> int \<Rightarrow> int" where
  "idx_spec ch [] j = -1"
| "idx_spec ch (x # xs) j = (if x = ch then j else idx_spec ch xs (j + 1))"

lemma findIdx_loop:
  "take (length xs) d = map Some xs \<Longrightarrow> i \<le> length xs \<Longrightarrow>
   st_findIdx_loop ch d (int i) (length xs - i) = Inr (idx_spec ch (drop i xs) (int i))"
proof (induction "length xs - i" arbitrary: i)
  case 0
  then show ?case by simp
next
  case (Suc n)
  then have i: "i < length xs" "length xs - Suc i = n" by simp_all
  have "buf_get d (int i) = Inr (xs ! i)" using buf_get_in [OF i(1) Suc.prems(1)] .
  moreover have "st_findIdx_loop ch d (int (Suc i)) n = Inr (idx_spec ch (drop (Suc i) xs) (int (Suc i)))"
    using Suc.hyps(1) [of "Suc i"] Suc.prems i by simp
  moreover have "drop i xs = xs ! i # drop (Suc i) xs" using i(1) by (simp add: Cons_nth_drop_Suc)
  ultimately show ?case using Suc.hyps(2) [symmetric] by (simp add: add.commute)
qed

lemma st_findIdx_ok:
  assumes h: "st_holds c xs" "xs \<noteq> []" and i: "i \<le> length xs"
  shows "\<exists>c'. st_findIdx ch (int i) c = Inr (idx_spec ch (drop i xs) (int i), c') \<and> st_holds c' xs"
proof -
  obtain c1 k where k: "st_flatten c = Inr c1" "st_first c1 = Inr k" "take (length xs) (ck_pData k) = map Some xs" "st_holds c1 xs"
    "ck_nLength k = int (length xs)"
    by (rule flat_holds [OF h])
  have "nat (ck_nLength k - int i) = length xs - i" using k(5) by simp
  with findIdx_loop [OF k(3) i, of ch] k(1,2,4) show ?thesis by (simp add: st_findIdx_def)
qed

lemma strlen_ok: "\<forall>x \<in> set xs. x \<noteq> 0 \<Longrightarrow> st_strlen (map Some xs @ Some 0 # zs) = Inr (int (length xs))"
  by (induction xs) auto

lemma strncmp_ok:
  "\<forall>x \<in> set xs. x \<noteq> 0 \<Longrightarrow> take (length xs) bs = map Some ys \<Longrightarrow> length ys = length xs \<Longrightarrow>
   c_strncmp (length xs) (map Some xs @ zs) bs = Inr (xs = ys)"
proof (induction xs arbitrary: bs ys)
  case (Cons x xs)
  obtain y ys' where y: "ys = y # ys'" using Cons.prems(3) by (cases ys) auto
  have "buf_get bs 0 = Inr y" "take (length xs) (tl bs) = map Some ys'"
    using buf_get_hd [of "length xs" bs y "map Some ys'"] Cons.prems(2) y by auto
  with Cons.IH [of "tl bs" ys'] Cons.prems y show ?case by (simp add: buf_get_def slot_get_def arr_get_def)
qed simp

text \<open>The first place of a list of places where a text stands.\<close>

fun place_spec :: "byte list \<Rightarrow> byte list \<Rightarrow> int list \<Rightarrow> int" where
  "place_spec t xs [] = -1"
| "place_spec t xs (j # js) = (if prefix t (drop (nat j) xs) then j else place_spec t xs js)"

lemma findText_loop:
  assumes t: "\<forall>x \<in> set t. x \<noteq> 0" and d: "take (length xs) d = map Some xs"
  shows "\<forall>j \<in> set js. 0 \<le> j \<and> nat j + length t \<le> length xs \<Longrightarrow>
    st_findText_loop (map Some t @ zs) (length t) d js = Inr (place_spec t xs js)"
proof (induction js)
  case (Cons j js)
  let ?ys = "take (length t) (drop (nat j) xs)"
  have j: "0 \<le> j" "nat j + length t \<le> length xs" using Cons.prems by auto
  have "take (length t) (drop (nat j) d) = take (length t) (drop (nat j) (take (length xs) d))"
    using j(2) by (simp add: drop_take min_def)
  also have "\<dots> = map Some ?ys" by (simp add: d take_map drop_map)
  finally have "c_strncmp (length t) (map Some t @ zs) (drop (nat j) d) = Inr (t = ?ys)"
    by (rule strncmp_ok [OF t]) (use j(2) in simp)
  moreover have "t = ?ys \<longleftrightarrow> prefix t (drop (nat j) xs)" by (metis append_eq_conv_conj append_take_drop_id prefix_def)
  ultimately show ?case using Cons j(1) by simp
qed simp

lemma st_findText_ok:
  assumes h: "st_holds c xs" "xs \<noteq> []" and t: "\<forall>x \<in> set t. x \<noteq> 0"
  shows "0 \<le> i \<Longrightarrow> \<exists>c'. st_findIdxText (map Some t @ Some 0 # zs) i c =
      Inr (place_spec t xs [i..int (length xs) - int (length t) - 1], c') \<and> st_holds c' xs" (is "_ \<Longrightarrow> ?F")
    and "\<exists>c'. st_rfindIdx (map Some t @ Some 0 # zs) c =
      Inr (place_spec t xs (rev [0..int (length xs) - int (length t) - 1]), c') \<and> st_holds c' xs" (is ?R)
proof -
  obtain c1 k where k: "st_flatten c = Inr c1" "st_first c1 = Inr k" "take (length xs) (ck_pData k) = map Some xs" "st_holds c1 xs"
    "ck_nLength k = int (length xs)"
    by (rule flat_holds [OF h])
  note l = findText_loop [OF t k(3), of _ "Some 0 # zs"]
  show ?F if "0 \<le> i"
  proof -
    have "\<forall>j \<in> set [i..int (length xs) - int (length t) - 1]. 0 \<le> j \<and> nat j + length t \<le> length xs" using that by auto
    from l [OF this] strlen_ok [OF t, of zs] k show ?thesis by (simp add: st_findIdxText_def)
  qed
  have "\<forall>j \<in> set (rev [0..int (length xs) - int (length t) - 1]). 0 \<le> j \<and> nat j + length t \<le> length xs" by auto
  from l [OF this] strlen_ok [OF t, of zs] k show ?R by (simp add: st_rfindIdx_def)
qed

section \<open>Substrings and case\<close>

lemma st_getSubStrIdx_ok:
  assumes h: "st_holds c xs"
  shows "\<exists>r c'. st_getSubStrIdx i n c = Inr (r, c') \<and>
    st_holds r (let s = drop (nat i) xs in if n < 0 then s else take (nat n) s) \<and> st_holds c' xs"
proof -
  define a where "a = nat i"
  have len: "st_nLength c = int (length xs)" using st_holds_len [OF h] .
  have a: "(if i < 0 then 0 else i) = int a" by (simp add: a_def)
  show ?thesis
  proof (cases "length xs \<le> a")
    case True
    then have "st_getSubStrIdx i n c = Inr (st_new, c)" using len a by (simp add: st_getSubStrIdx_def Let_def)
    with True h show ?thesis by (simp add: a_def Let_def)
  next
    case False
    define m where "m = (if n < 0 \<or> length xs - a < nat n then length xs - a else nat n)"
    have m: "(if int a + (if n < 0 then st_nLength c else n) > st_nLength c then st_nLength c - int a
        else (if n < 0 then st_nLength c else n)) = int m"
      using False len by (auto simp: m_def)
    have sub: "(let s = drop (nat i) xs in if n < 0 then s else take (nat n) s) = take m (drop a xs)"
      using False by (auto simp: m_def a_def Let_def)
    show ?thesis
    proof (cases "m = 0")
      case True
      then have "st_getSubStrIdx i n c = Inr (st_new, c)"
        unfolding st_getSubStrIdx_def Let_def a m using False len by simp
      with True h sub show ?thesis by simp
    next
      case m0: False
      have ne: "xs \<noteq> []" using False by auto
      obtain c1 k where k: "st_flatten c = Inr c1" "st_first c1 = Inr k" "take (length xs) (ck_pData k) = map Some xs" "st_holds c1 xs"
        "length xs \<le> length (ck_pData k)"
        by (rule flat_holds [OF h ne])
      have r: "a + m \<le> length xs" using False by (auto simp: m_def)
      from st_append_ok [OF st_wf_new(1), of a m "ck_pData k" False] r k(5)
      obtain q where q: "st_append False (ck_pData k) (int a) (int m) st_new = Inr q" "st_wf q"
        "st_data q = take m (drop a (ck_pData k))" by auto
      have "take m (drop a (ck_pData k)) = take m (drop a (take (length xs) (ck_pData k)))"
        using r by (simp add: drop_take min_def)
      also have "\<dots> = map Some (take m (drop a xs))" by (simp add: k(3) take_map drop_map)
      finally have "st_holds q (take m (drop a xs))" using q by (simp add: st_holds_def)
      moreover have "st_getSubStrIdx i n c = Inr (q, c1)"
        unfolding st_getSubStrIdx_def Let_def a m using False len m0 k(1,2) q(1) by simp
      ultimately show ?thesis using k(4) sub by auto
    qed
  qed
qed

lemma map_loop:
  "take (length xs) d = map Some xs \<Longrightarrow>
   st_map_loop f (length xs) d = Inr (map (Some \<circ> f) xs @ drop (length xs) d)"
proof (induction xs arbitrary: d)
  case (Cons x xs)
  then obtain y ys where d: "d = y # ys" by (cases d) auto
  with buf_get_hd [of "length xs" d x "map Some xs"] Cons show ?case by simp
qed simp

lemma st_mapChars_ok:
  assumes h: "st_holds c xs"
  shows "\<exists>r c'. st_mapChars f c = Inr (r, c') \<and> st_holds r (map f xs) \<and> st_holds c' xs"
proof -
  have wf: "st_wf c" using h by (simp add: st_holds_def)
  obtain c0 where c0: "st_flatten c = Inr c0" "st_flat c0" "st_data c0 = st_data c" using st_flatten_ok [OF wf] by blast
  have h0: "st_holds c0 xs" using c0 h by (simp add: st_holds_def st_flat_def)
  then obtain c1 where c1: "st_copy c0 = Inr c1" "st_flat c1" "st_data c1 = st_data c0" using st_copy_ok [of c0] by (auto simp: st_holds_def)
  have h1: "st_holds c1 xs" using c1 h0 by (simp add: st_holds_def st_flat_def)
  show ?thesis
  proof (cases "xs = []")
    case True
    with c0(1) c1(1) h0 h1 st_holds_len [OF h1] show ?thesis by (simp add: st_mapChars_def)
  next
    case False
    then have "st_data c1 \<noteq> []" using h1 by (simp add: st_holds_def)
    from st_flat_first [OF c1(2) this] obtain k where k: "st_chunks c1 = [k]" "st_first c1 = Inr k" "ck_ok k" "ck_text k = map Some xs"
      "ck_nLength k = int (length xs)" using h1 st_holds_len [OF h1] by (auto simp: st_holds_def)
    have t: "take (length xs) (ck_pData k) = map Some xs" using k(4,5) by (simp add: ck_text_def)
    let ?d = "map (Some \<circ> f) xs @ drop (length xs) (ck_pData k)"
    have e: "st_mapChars f c = Inr (st_setFirst (k\<lparr>ck_pData := ?d\<rparr>) c1, c0)"
      using c0(1) c1(1) k(2) map_loop [OF t, of f] st_holds_len [OF h1] False by (simp add: st_mapChars_def)
    have "length xs \<le> length (ck_pData k)" using ck_ok_le [OF k(3)] k(5) by simp
    then have ok: "ck_ok (k\<lparr>ck_pData := ?d\<rparr>)" using k(3) by (auto simp: ck_ok_def)
    have tx: "ck_text (k\<lparr>ck_pData := ?d\<rparr>) = map Some (map f xs)" using k(5) by (simp add: ck_text_def)
    from setFirst_ok [OF k(1) ok tx] st_holds_len [OF h1] e h0 show ?thesis by (auto simp: st_holds_def)
  qed
qed

end
