(* ===== verification/Bu_TafTable.thy ===== *)
theory Bu_TafTable
  imports Bu_HashTable Bu_TafGroup Bu_StringCompare
begin

text \<open>
  The groups of \<open>Bu_TafGroup\<close> with the hash tables as they are (\<open>Bu_Hash\<close>): every \<open>has\<close>, \<open>insert\<close> and
  \<open>get\<close> of \<open>src/stable/tafgroup.cpp\<close> probes a table, and may make it grow or never return. What returns
  is what \<open>Bu_TafGroup\<close> and the reader say with partial maps, and up to nine names in a table
  everything returns.
\<close>

section \<open>The group\<close>

record taf_table_group =
  th_sName :: "byte list"
  th_hProp :: "(byte list, byte list list) hash_core"
  th_hChildren :: "(byte list, taf_node list) hash_core"
  th_lChildren :: "taf_node list"

definition th_new :: "byte list \<Rightarrow> taf_table_group" where
  "th_new sName = \<lparr>th_sName = sName, th_hProp = hs_new, th_hChildren = hs_new, th_lChildren = []\<rparr>"

text \<open>\<open>h.get( n ).append( x )\<close>: the list under the key is changed in its slot.\<close>

definition ht_push ::
    "('k \<Rightarrow> 32 word) \<Rightarrow> 'k \<Rightarrow> 'a \<Rightarrow> ('k, 'a list) hash_core \<Rightarrow> ('k, 'a list) hash_core result option" where
  "ht_push hf n x h =
     obind (hs_probe hf False n h) (\<lambda>(bFill, nPos, c).
       Some (rbind (hs_getAt (bFill, nPos, c)) (\<lambda>(l, c1). Inr (c1\<lparr>hs_aValues := (hs_aValues c1)[nPos := Some (l @ [x])]\<rparr>))))"

text \<open>\<open>if( !h.has( n ) ) h.insert( n, List() ); h.get( n ).append( x )\<close>\<close>

definition ht_append ::
    "('k \<Rightarrow> 32 word) \<Rightarrow> 'k \<Rightarrow> 'a \<Rightarrow> ('k, 'a list) hash_core \<Rightarrow> ('k, 'a list) hash_core result option" where
  "ht_append hf n x h =
     obind (hs_has hf n h) (\<lambda>(b, h1).
     obind (if \<not> b then hs_insert hf n [] h1 else Some (Inr h1)) (\<lambda>h2.
     ht_push hf n x h2))"

fun th_addChild :: "(byte list \<Rightarrow> 32 word) \<Rightarrow> taf_node \<Rightarrow> taf_table_group \<Rightarrow> taf_table_group result option" where
  "th_addChild hf (TafGroup n ch) g =
     obind (ht_append hf n (TafGroup n ch) (th_hChildren g)) (\<lambda>h.
       Some (Inr (g\<lparr>th_hChildren := h, th_lChildren := th_lChildren g @ [TafGroup n ch]\<rparr>)))"
| "th_addChild hf (TafProperty n v) g =
     obind (ht_append hf n v (th_hProp g)) (\<lambda>h.
       Some (Inr (g\<lparr>th_hProp := h, th_lChildren := th_lChildren g @ [TafProperty n v]\<rparr>)))"
| "th_addChild hf (TafComment t e) g = Some (Inr (g\<lparr>th_lChildren := th_lChildren g @ [TafComment t e]\<rparr>))"

definition th_build :: "(byte list \<Rightarrow> 32 word) \<Rightarrow> byte list \<Rightarrow> taf_node list \<Rightarrow> taf_table_group result option" where
  "th_build hf sName ch = opt_fold (th_addChild hf) ch (th_new sName)"

text \<open>The look-ups, with the tables they leave behind; a \<open>HashException\<close> becomes a \<open>TafException\<close>.\<close>

definition taf_caught :: "string \<Rightarrow> 'a result \<Rightarrow> 'a result" where
  "taf_caught t r = (case r of Inl (HashException u) \<Rightarrow> Inl (TafException t) | _ \<Rightarrow> r)"

definition th_getChild ::
    "(byte list \<Rightarrow> 32 word) \<Rightarrow> taf_table_group \<Rightarrow> byte list \<Rightarrow> (taf_node \<times> taf_table_group) result option" where
  "th_getChild hf g sName =
     map_option (\<lambda>r. taf_caught ''No children of group match.''
         (rbind r (\<lambda>(l, h). rbind (fst_of l) (\<lambda>c. Inr (c, g\<lparr>th_hChildren := h\<rparr>)))))
       (hs_get_const hf sName (th_hChildren g))"

definition th_getProperty ::
    "(byte list \<Rightarrow> 32 word) \<Rightarrow> taf_table_group \<Rightarrow> byte list \<Rightarrow> (byte list \<times> taf_table_group) result option" where
  "th_getProperty hf g sName =
     map_option (\<lambda>r. taf_caught ''No properties of group match.''
         (rbind r (\<lambda>(l, h). rbind (fst_of l) (\<lambda>v. Inr (v, g\<lparr>th_hProp := h\<rparr>)))))
       (hs_get_const hf sName (th_hProp g))"

text \<open>The group with partial maps that it stands for.\<close>

definition th_map :: "taf_table_group \<Rightarrow> taf_group" where
  "th_map g = \<lparr>tg_sName = th_sName g, tg_hProp = hs_abs (th_hProp g), tg_hChildren = hs_abs (th_hChildren g),
     tg_lChildren = th_lChildren g\<rparr>"

definition th_wf :: "(byte list \<Rightarrow> 32 word) \<Rightarrow> taf_table_group \<Rightarrow> bool" where
  "th_wf hf g \<longleftrightarrow> hs_wf hf (th_hProp g) \<and> hs_wf hf (th_hChildren g)"

text \<open>A look-up returns with the answer \<open>r\<close>, and leaves a group that stands for the same one.\<close>

definition th_answers :: "('a \<times> taf_table_group) result option \<Rightarrow> 'a result \<Rightarrow> taf_table_group \<Rightarrow> bool" where
  "th_answers m r g \<longleftrightarrow>
     (case m of None \<Rightarrow> False | Some (Inl e) \<Rightarrow> r = Inl e | Some (Inr (x, g')) \<Rightarrow> r = Inr x \<and> th_map g' = th_map g)"

section \<open>Appending under a name\<close>

lemma ht_push_ok:
  assumes w: "hs_wf hf h" and l: "hs_abs h n = Some l"
  shows "\<exists>h'. ht_push hf n x h = Some (Inr h') \<and> hs_wf hf h' \<and> hs_abs h' = (hs_abs h)(n \<mapsto> l @ [x]) \<and>
    hs_nCapacity h' = hs_nCapacity (hs_init h) \<and> hs_nFilled h' = hs_nFilled h \<and> hs_nDeleted h' = hs_nDeleted h"
proof -
  obtain b p where p: "hs_probe hf False n h = Some (Inr (b, p, hs_init h))" "probe_post hf False n h (b, p, hs_init h)"
    using hs_probe_returns [OF w, of n False] by blast
  then obtain u where u: "holds (hs_init h) p n u" using l by (auto simp: probe_post_def at_key_def)
  from hs_getAt_from [OF p(2)] l have "hs_getAt (b, p, hs_init h) = Inr (l, hs_init h)" by simp
  with p(1) hs_overwrite_ok [OF hs_init_ok(1) [OF w] u, of "l @ [x]"] hs_init_ok [OF w] show ?thesis
    by (simp add: ht_push_def)
qed

lemma hs_init_same: "0 < hs_nCapacity c \<Longrightarrow> hs_init c = c"
  by (simp add: hs_init_def)

text \<open>Appending returns when an insertion under the name does, and leaves as many slots filled.\<close>

lemma ht_append_absent:
  assumes w: "hs_wf hf h" and n: "hs_abs h n = None"
  shows "case hs_insert hf n v h of None \<Rightarrow> ht_append hf n x h = None
    | Some r \<Rightarrow> \<exists>c h'. r = Inr c \<and> ht_append hf n x h = Some (Inr h') \<and> hs_wf hf h' \<and> hs_abs h' = (hs_abs h)(n \<mapsto> [x]) \<and>
        hs_nCapacity h' = hs_nCapacity c \<and> hs_nFilled h' = hs_nFilled c \<and> hs_nDeleted h' = hs_nDeleted c"
proof (cases "hs_probe hf True n h")
  case None
  then show ?thesis by (simp add: hs_insert_def ht_append_def hs_has_def)
next
  case (Some q)
  with hs_probe_sound [OF Some] w obtain b p c1 where q: "q = Inr (b, p, c1)" and post: "probe_post hf True n h (b, p, c1)"
    by (metis prod_cases3)
  have b: "\<not> b" and c1: "hs_wf hf c1" "0 < hs_nCapacity c1" "hs_abs c1 = hs_abs h" using post n by (auto simp: probe_post_def)
  obtain m where m: "m < 32" "p = hs_pos (hs_nCapacity c1) (hf n) m" "\<not> fil c1 p"
    "\<And>i. i < m \<Longrightarrow> fil c1 (hs_pos (hs_nCapacity c1) (hf n) i)" using post b by (auto simp: probe_post_def)
  have n1: "hs_abs c1 n = None" using c1(3) n by simp
  obtain c where c: "hs_fill p n v (hf n) c1 = Inr c" "hs_nCapacity c = hs_nCapacity c1" "hs_nFilled c = Suc (hs_nFilled c1)"
    "hs_nDeleted c = hs_nDeleted c1"
    using hs_fill_ok [OF c1(1,2) m(2,1) m(4,3) n1] by blast
  have ins: "hs_insert hf n v h = Some (Inr c)" using Some q b c(1) by (simp add: hs_insert_def hs_put_def)
  have "hs_room hf n c1" using m(1-3) by (auto simp: hs_room_def hs_init_same [OF c1(2)])
  from hs_insert_free [OF c1(1) n1 this, of "[]"] obtain c2 where
    c2: "hs_insert hf n [] c1 = Some (Inr c2)" "hs_wf hf c2" "hs_abs c2 = (hs_abs h)(n \<mapsto> [])" "hs_nCapacity c2 = hs_nCapacity c1"
      "hs_nFilled c2 = Suc (hs_nFilled c1)" "hs_nDeleted c2 = hs_nDeleted c1"
    by (auto simp: hs_init_same [OF c1(2)] c1(3))
  have "hs_abs c2 n = Some []" using c2(3) by simp
  from ht_push_ok [OF c2(2) this, of x] obtain h' where
    h': "ht_push hf n x c2 = Some (Inr h')" "hs_wf hf h'" "hs_abs h' = (hs_abs h)(n \<mapsto> [x])" "hs_nCapacity h' = hs_nCapacity c2"
      "hs_nFilled h' = hs_nFilled c2" "hs_nDeleted h' = hs_nDeleted c2"
    using c2(3,4) c1(2) by (auto simp: hs_init_same)
  have "ht_append hf n x h = Some (Inr h')" using Some q b c2(1) h'(1) by (simp add: ht_append_def hs_has_def)
  with ins h' c c2 show ?thesis by simp
qed

lemma ht_append_present:
  assumes w: "hs_wf hf h" and n: "hs_abs h n = Some l"
  shows "\<exists>h'. ht_append hf n x h = Some (Inr h') \<and> hs_wf hf h' \<and> hs_abs h' = (hs_abs h)(n \<mapsto> l @ [x]) \<and>
    hs_nCapacity h' = hs_nCapacity (hs_init h) \<and> hs_nFilled h' = hs_nFilled h"
proof -
  have "hs_abs (hs_init h) n = Some l" using hs_init_ok(2) [OF w] n by simp
  from ht_push_ok [OF hs_init_ok(1) [OF w] this, of x] hs_has_present [OF w, of n] n hs_init_ok [OF w] show ?thesis
    by (auto simp: ht_append_def)
qed

lemma ht_append_sound:
  assumes "ht_append hf n x h = Some r" "hs_wf hf h"
  shows "\<exists>h'. r = Inr h' \<and> hs_wf hf h' \<and> hs_abs h' = tab_append (hs_abs h) n x"
proof (cases "hs_abs h n")
  case None
  with ht_append_absent [OF assms(2) None, where v = undefined and x = x] assms(1) show ?thesis
    by (cases "hs_insert hf n undefined h") (auto simp: tab_append_def)
next
  case (Some l)
  with ht_append_present [OF assms(2) Some, where x = x] assms(1) show ?thesis by (auto simp: tab_append_def)
qed


section \<open>What returns is right\<close>

lemma th_addChild_sound:
  assumes "th_addChild hf x g = Some r" "th_wf hf g"
  shows "\<exists>g'. r = Inr g' \<and> th_wf hf g' \<and> th_map g' = tg_addChild (th_map g) x"
proof (cases x)
  case (TafGroup n ch)
  then show ?thesis using assms ht_append_sound [of hf n x "th_hChildren g"]
    by (cases "ht_append hf n x (th_hChildren g)") (auto simp: th_wf_def th_map_def)
next
  case (TafProperty n v)
  then show ?thesis using assms ht_append_sound [of hf n v "th_hProp g"]
    by (cases "ht_append hf n v (th_hProp g)") (auto simp: th_wf_def th_map_def)
next
  case (TafComment t e)
  with assms show ?thesis by (auto simp: th_wf_def th_map_def)
qed

lemma th_fold_sound:
  "opt_fold (th_addChild hf) ch g = Some r \<Longrightarrow> th_wf hf g \<Longrightarrow>
   \<exists>g'. r = Inr g' \<and> th_wf hf g' \<and> th_map g' = foldl tg_addChild (th_map g) ch"
proof (induction ch arbitrary: g)
  case (Cons x ch)
  obtain q where q: "th_addChild hf x g = Some q" using Cons.prems(1) by (cases "th_addChild hf x g") auto
  with th_addChild_sound [OF q Cons.prems(2)] obtain g1 where
    g1: "q = Inr g1" "th_wf hf g1" "th_map g1 = tg_addChild (th_map g) x" by blast
  with Cons.prems(1) q have "opt_fold (th_addChild hf) ch g1 = Some r" by simp
  from Cons.IH [OF this g1(2)] g1(3) show ?case by simp
qed auto

lemma th_new_wf: "th_wf hf (th_new n)" "th_map (th_new n) = tg_new n"
  by (simp_all add: th_wf_def th_map_def th_new_def tg_new_def hs_new_ok)

section \<open>Few names\<close>

definition ht_few :: "('k \<Rightarrow> 32 word) \<Rightarrow> 'k set \<Rightarrow> ('k, 'v) hash_core \<Rightarrow> bool" where
  "ht_few hf N h \<longleftrightarrow> hs_small hf h (card (dom (hs_abs h))) \<and> dom (hs_abs h) \<subseteq> N"

lemma hs_dom_finite: "finite (dom (hs_abs h))"
  by (simp add: hs_abs_def finite_dom_map_of)

lemma hs_new_few: "ht_few hf N (hs_new :: ('k, 'v) hash_core)"
proof -
  have "hs_small hf (hs_new :: ('k, 'v) hash_core) 0"
    using hs_new_ok(1) by (simp add: hs_small_def) (simp add: hs_new_def hs_init_def hs_alloc_def)
  then show ?thesis by (simp add: ht_few_def hs_new_ok(2))
qed

lemma ht_append_few:
  assumes f: "ht_few hf N h" and N: "finite N" "card N \<le> 9" and n: "n \<in> N"
  shows "\<exists>h'. ht_append hf n x h = Some (Inr h') \<and> ht_few hf N h'"
proof -
  have s: "hs_small hf h (card (dom (hs_abs h)))" and d: "dom (hs_abs h) \<subseteq> N" using f by (simp_all add: ht_few_def)
  have w: "hs_wf hf h" and cap: "hs_nCapacity (hs_init h) = 11" and fl: "hs_nFilled h \<le> card (dom (hs_abs h))"
    using s by (simp_all add: hs_small_def)
  have c9: "card (dom (hs_abs h)) \<le> 9" using card_mono [OF N(1) d] N(2) by simp
  show ?thesis
  proof (cases "hs_abs h n")
    case None
    from hs_insert_free [OF w None hs_small_room [OF s c9], where v = "[x]"] obtain c where
      c: "hs_insert hf n [x] h = Some (Inr c)" "hs_nCapacity c = hs_nCapacity (hs_init h)" "hs_nFilled c = Suc (hs_nFilled h)" by blast
    with ht_append_absent [OF w None, where v = "[x]" and x = x] obtain h' where
      h': "ht_append hf n x h = Some (Inr h')" "hs_wf hf h'" "hs_abs h' = (hs_abs h)(n \<mapsto> [x])"
        "hs_nCapacity h' = hs_nCapacity (hs_init h)" "hs_nFilled h' = Suc (hs_nFilled h)" by auto
    have "card (dom (hs_abs h')) = Suc (card (dom (hs_abs h)))" using h'(3) None hs_dom_finite [of h] by (simp add: domIff)
    with h' fl d n hs_init_init [OF cap h'(4)] show ?thesis by (auto simp: ht_few_def hs_small_def)
  next
    case (Some l)
    with ht_append_present [OF w Some, where x = x] obtain h' where
      h': "ht_append hf n x h = Some (Inr h')" "hs_wf hf h'" "hs_abs h' = (hs_abs h)(n \<mapsto> l @ [x])"
        "hs_nCapacity h' = hs_nCapacity (hs_init h)" "hs_nFilled h' = hs_nFilled h" by blast
    have "dom (hs_abs h') = dom (hs_abs h)" using h'(3) Some by auto
    with h' fl d hs_init_init [OF cap h'(4)] show ?thesis by (simp add: ht_few_def hs_small_def)
  qed
qed

lemma hs_get_few:
  assumes "ht_few hf N h" "finite N" "card N \<le> 9"
  shows "hs_get_const hf n h = Some (case hs_abs h n of
      Some v \<Rightarrow> Inr (v, hs_init h) | None \<Rightarrow> Inl (HashException ''No data associated with that key.''))"
proof -
  have s: "hs_small hf h (card (dom (hs_abs h)))" "card (dom (hs_abs h)) \<le> 9"
    using assms card_mono [of N "dom (hs_abs h)"] by (simp_all add: ht_few_def)
  then have w: "hs_wf hf h" by (simp add: hs_small_def)
  obtain b p where "hs_probe hf True n h = Some (Inr (b, p, hs_init h))" "probe_post hf True n h (b, p, hs_init h)"
    using hs_probe_returns [OF w] hs_small_room [OF s] by blast
  with hs_getAt_from [OF this(2)] show ?thesis by (simp add: hs_get_const_def)
qed

text \<open>The names of the groups and of the properties among some children.\<close>

definition taf_group_names :: "taf_node list \<Rightarrow> byte list set" where
  "taf_group_names ch = {n. \<exists>c. TafGroup n c \<in> set ch}"

definition taf_prop_names :: "taf_node list \<Rightarrow> byte list set" where
  "taf_prop_names ch = {n. \<exists>v. TafProperty n v \<in> set ch}"

lemma taf_names_simps [simp]:
  "taf_group_names [] = {}" "taf_group_names (TafGroup n c # ch) = insert n (taf_group_names ch)"
  "taf_group_names (TafProperty n v # ch) = taf_group_names ch" "taf_group_names (TafComment t e # ch) = taf_group_names ch"
  "taf_prop_names [] = {}" "taf_prop_names (TafGroup n c # ch) = taf_prop_names ch"
  "taf_prop_names (TafProperty n v # ch) = insert n (taf_prop_names ch)" "taf_prop_names (TafComment t e # ch) = taf_prop_names ch"
  by (auto simp: taf_group_names_def taf_prop_names_def)

lemma taf_names_finite: "finite (taf_group_names ch)" "finite (taf_prop_names ch)"
proof (induction ch)
  case (Cons x ch)
  { case 1 with Cons show ?case by (cases x) simp_all }
  { case 2 with Cons show ?case by (cases x) simp_all }
qed simp_all

definition th_few :: "(byte list \<Rightarrow> 32 word) \<Rightarrow> byte list set \<Rightarrow> byte list set \<Rightarrow> taf_table_group \<Rightarrow> bool" where
  "th_few hf M N g \<longleftrightarrow> ht_few hf M (th_hChildren g) \<and> ht_few hf N (th_hProp g)"

lemma th_fold_few:
  assumes M: "finite M" "card M \<le> 9" and N: "finite N" "card N \<le> 9"
  shows "th_few hf M N g \<Longrightarrow> taf_group_names ch \<subseteq> M \<Longrightarrow> taf_prop_names ch \<subseteq> N \<Longrightarrow>
    \<exists>g'. opt_fold (th_addChild hf) ch g = Some (Inr g') \<and> th_few hf M N g'"
proof (induction ch arbitrary: g)
  case (Cons x ch)
  have "\<exists>g1. th_addChild hf x g = Some (Inr g1) \<and> th_few hf M N g1"
  proof (cases x)
    case (TafGroup n c)
    with Cons.prems ht_append_few [OF _ M, of hf "th_hChildren g" n x] show ?thesis by (auto simp: th_few_def)
  next
    case (TafProperty n v)
    with Cons.prems ht_append_few [OF _ N, of hf "th_hProp g" n v] show ?thesis by (auto simp: th_few_def)
  next
    case (TafComment t e)
    with Cons.prems show ?thesis by (simp add: th_few_def)
  qed
  then obtain g1 where g1: "th_addChild hf x g = Some (Inr g1)" "th_few hf M N g1" by blast
  have "taf_group_names ch \<subseteq> M" "taf_prop_names ch \<subseteq> N" using Cons.prems(2,3) by (cases x; simp)+
  from Cons.IH [OF g1(2) this] g1(1) show ?case by simp
qed simp

lemma th_lookups_few:
  assumes M: "finite M" "card M \<le> 9" and N: "finite N" "card N \<le> 9" and f: "th_few hf M N g"
  shows "th_answers (th_getChild hf g n) (tg_getChild (th_map g) n) g"
    and "th_answers (th_getProperty hf g n) (tg_getProperty (th_map g) n) g"
proof -
  have w: "ht_few hf M (th_hChildren g)" "ht_few hf N (th_hProp g)" using f by (simp_all add: th_few_def)
  then have i: "hs_abs (hs_init (th_hChildren g)) = hs_abs (th_hChildren g)" "hs_abs (hs_init (th_hProp g)) = hs_abs (th_hProp g)"
    by (auto simp: ht_few_def hs_small_def intro: hs_init_ok(2))
  show "th_answers (th_getChild hf g n) (tg_getChild (th_map g) n) g"
    using hs_get_few [OF w(1) M, of n] i
    by (auto simp: th_getChild_def tg_getChild_def th_map_def taf_caught_def fst_of_def th_answers_def split: option.splits list.splits)
  show "th_answers (th_getProperty hf g n) (tg_getProperty (th_map g) n) g"
    using hs_get_few [OF w(2) N, of n] i
    by (auto simp: th_getProperty_def tg_getProperty_def th_map_def taf_caught_def fst_of_def th_answers_def split: option.splits list.splits)
qed


section \<open>Names with one hash code\<close>

lemma ht_append_grows:
  assumes g: "grows_to hf h TYPE('a list) C n D" and c: "same_hash hf h C n c" "hf k = h" "hs_abs c k = None"
  shows "\<exists>c'. ht_append hf k (x :: 'a) c = Some (Inr c') \<and> same_hash hf h D (Suc n) c' \<and> hs_abs c' = (hs_abs c)(k \<mapsto> [x])"
proof -
  have w: "hs_wf hf c" using c(1) by (simp add: same_hash_def)
  obtain c1 where c1: "hs_insert hf k [x] c = Some (Inr c1)" "same_hash hf h D (Suc n) c1"
    using g c unfolding grows_to_def by blast
  from ht_append_absent [OF w c(3), where v = "[x]" and x = x] c1(1) obtain c' where
    c': "ht_append hf k x c = Some (Inr c')" "hs_wf hf c'" "hs_abs c' = (hs_abs c)(k \<mapsto> [x])" "hs_nCapacity c' = hs_nCapacity c1"
      "hs_nFilled c' = hs_nFilled c1" "hs_nDeleted c' = hs_nDeleted c1" by auto
  with c1(2) c show ?thesis by (auto simp: same_hash_def)
qed

lemma ht_append_init: "ht_append hf n x (hs_init c) = ht_append hf n x c"
  by (simp add: ht_append_def hs_has_def hs_probe_init)

lemma hs_init_new: "hs_init hs_new = hs_alloc 11"
  by (simp add: hs_init_def hs_new_def hs_alloc_def)

definition groups_of :: "(byte list \<times> taf_node list) list \<Rightarrow> taf_node list" where
  "groups_of gs = map (\<lambda>(n, c). TafGroup n c) gs"

lemma groups_of_simps [simp]:
  "groups_of [] = []" "groups_of ((n, c) # gs) = TafGroup n c # groups_of gs" "groups_of (gs @ gs') = groups_of gs @ groups_of gs'"
  by (simp_all add: groups_of_def)

lemma th_fold_grows:
  assumes "\<And>i. m \<le> i \<Longrightarrow> i < m + length gs \<Longrightarrow> grows_to hf h TYPE(taf_node list) (caps i) i (caps (Suc i))"
  shows "same_hash hf h (caps m) m (th_hChildren g) \<Longrightarrow> distinct (map fst gs) \<Longrightarrow>
    fst ` set gs \<inter> dom (hs_abs (th_hChildren g)) = {} \<Longrightarrow> \<forall>x \<in> set gs. hf (fst x) = h \<Longrightarrow>
    \<exists>g'. opt_fold (th_addChild hf) (groups_of gs) g = Some (Inr g') \<and>
      same_hash hf h (caps (m + length gs)) (m + length gs) (th_hChildren g') \<and>
      dom (hs_abs (th_hChildren g')) = dom (hs_abs (th_hChildren g)) \<union> fst ` set gs"
  using assms
proof (induction gs arbitrary: g m)
  case (Cons y gs)
  obtain n c where y: "y = (n, c)" by (cases y)
  have gr: "grows_to hf h TYPE(taf_node list) (caps m) m (caps (Suc m))" using Cons.prems(5) [of m] by simp
  have n: "hf n = h" "hs_abs (th_hChildren g) n = None" using Cons.prems(3,4) y by auto
  obtain t where t: "ht_append hf n (TafGroup n c) (th_hChildren g) = Some (Inr t)" "same_hash hf h (caps (Suc m)) (Suc m) t"
    "hs_abs t = (hs_abs (th_hChildren g))(n \<mapsto> [TafGroup n c])"
    using ht_append_grows [OF gr Cons.prems(1) n] by blast
  let ?g = "g\<lparr>th_hChildren := t, th_lChildren := th_lChildren g @ [TafGroup n c]\<rparr>"
  have "\<exists>g'. opt_fold (th_addChild hf) (groups_of gs) ?g = Some (Inr g') \<and>
      same_hash hf h (caps (Suc m + length gs)) (Suc m + length gs) (th_hChildren g') \<and>
      dom (hs_abs (th_hChildren g')) = dom (hs_abs (th_hChildren ?g)) \<union> fst ` set gs"
  proof (rule Cons.IH)
    show "fst ` set gs \<inter> dom (hs_abs (th_hChildren ?g)) = {}" using Cons.prems(2,3) y t(3) by auto
    show "grows_to hf h TYPE(taf_node list) (caps i) i (caps (Suc i))" if "Suc m \<le> i" "i < Suc m + length gs" for i
      using that Cons.prems(5) by simp
  qed (use Cons.prems(2,4) y t(2) in simp_all)
  then show ?case using y t by auto
qed simp

lemma opt_fold_append:
  "opt_fold f (xs @ ys) s = Option.bind (opt_fold f xs s) (\<lambda>r. case r of Inl e \<Rightarrow> Some (Inl e) | Inr s' \<Rightarrow> opt_fold f ys s')"
proof (induction xs arbitrary: s)
  case (Cons x xs)
  then show ?case by (cases "f x s"; cases "the (f x s)") simp_all
qed simp

lemma th_fourteen_never:
  assumes "length gs = 13" "distinct (map fst gs)" "\<forall>x \<in> set gs. hf (fst x) = hf n" "n \<notin> fst ` set gs"
  shows "th_build hf s (groups_of gs @ TafGroup n c # ch) = None"
proof -
  let ?g = "(th_new s)\<lparr>th_hChildren := hs_alloc 11\<rparr>"
  have a: "ht_append hf m y hs_new = ht_append hf m y (hs_alloc 11)" for m and y :: taf_node
    using ht_append_init [of hf m y hs_new] by (simp add: hs_init_new)
  obtain m d gs' where "gs = (m, d) # gs'" using assms(1) by (cases gs) auto
  then have e: "opt_fold (th_addChild hf) (groups_of gs) (th_new s) = opt_fold (th_addChild hf) (groups_of gs) ?g"
    by (simp add: th_new_def a)
  have "same_hash hf (hf n) (caps_from 11 0) 0 (th_hChildren ?g)" "fst ` set gs \<inter> dom (hs_abs (th_hChildren ?g)) = {}"
    by (simp_all add: caps_from_def same_hash_alloc)
  note start = this(1) assms(2) this(2) assms(3)
  have gr: "grows_to hf (hf n) TYPE(taf_node list) (caps_from 11 i) i (caps_from 11 (Suc i))" if "0 \<le> i" "i < 0 + length gs" for i
    using that assms(1) by (intro grows_caps_from) simp
  obtain g where g: "opt_fold (th_addChild hf) (groups_of gs) ?g = Some (Inr g)"
    "same_hash hf (hf n) (caps_from 11 (0 + length gs)) (0 + length gs) (th_hChildren g)"
    "dom (hs_abs (th_hChildren g)) = dom (hs_abs (th_hChildren ?g)) \<union> fst ` set gs"
    using th_fold_grows [OF gr start] by blast
  then have s: "same_hash hf (hf n) 26 13 (th_hChildren g)" and n: "hs_abs (th_hChildren g) n = None"
    using assms(1,4) by (auto simp: caps_from_def)
  have "hs_probe hf True n (th_hChildren g) = None"
    using full_26_never [of hf True n "th_hChildren g"] s n by (cases "hs_probe hf True n (th_hChildren g)") blast+
  then have "th_addChild hf (TafGroup n c) g = None" by (simp add: ht_append_def hs_has_def)
  then show ?thesis using e g(1) by (simp add: th_build_def opt_fold_append)
qed

section \<open>Properties\<close>

text \<open>
  C23. The hash tables of a group. Whatever the hash codes of the names are: a group that is built
  child by child, when that returns, stands for the group with partial maps; it does return when its
  sub-groups have at most nine names and its properties have at most nine, and then every look-up
  returns too, and answers and throws as with partial maps; and it never returns when thirteen groups
  whose names have one hash code are followed by a fourteenth.
\<close>

theorem taf_hash_tables:
  "(\<forall>r. th_build hf s ch = Some r \<longrightarrow> (\<exists>g. r = Inr g \<and> th_map g = tg_build s ch)) \<and>
   (card (taf_group_names ch) \<le> 9 \<and> card (taf_prop_names ch) \<le> 9 \<longrightarrow>
     (\<exists>g. th_build hf s ch = Some (Inr g) \<and> th_map g = tg_build s ch \<and>
       (\<forall>n. th_answers (th_getChild hf g n) (tg_getChild (tg_build s ch) n) g \<and>
            th_answers (th_getProperty hf g n) (tg_getProperty (tg_build s ch) n) g))) \<and>
   (\<forall>gs n c ch'. ch = groups_of gs @ TafGroup n c # ch' \<and> length gs = 13 \<and> distinct (n # map fst gs) \<and>
     (\<forall>x \<in> set gs. hf (fst x) = hf n) \<longrightarrow> th_build hf s ch = None)"
proof (intro conjI)
  show sound: "\<forall>r. th_build hf s ch = Some r \<longrightarrow> (\<exists>g. r = Inr g \<and> th_map g = tg_build s ch)"
    using th_fold_sound [OF _ th_new_wf(1), of hf ch s] by (auto simp: th_build_def tg_build_def th_new_wf(2))
  show "card (taf_group_names ch) \<le> 9 \<and> card (taf_prop_names ch) \<le> 9 \<longrightarrow>
     (\<exists>g. th_build hf s ch = Some (Inr g) \<and> th_map g = tg_build s ch \<and>
       (\<forall>n. th_answers (th_getChild hf g n) (tg_getChild (tg_build s ch) n) g \<and>
            th_answers (th_getProperty hf g n) (tg_getProperty (tg_build s ch) n) g))"
  proof (intro impI, elim conjE)
    assume c: "card (taf_group_names ch) \<le> 9" "card (taf_prop_names ch) \<le> 9"
    note M = taf_names_finite(1) [of ch] c(1) and N = taf_names_finite(2) [of ch] c(2)
    have "th_few hf (taf_group_names ch) (taf_prop_names ch) (th_new s)" by (simp add: th_few_def th_new_def hs_new_few)
    from th_fold_few [OF M N this subset_refl subset_refl] obtain g where
      g: "th_build hf s ch = Some (Inr g)" "th_few hf (taf_group_names ch) (taf_prop_names ch) g" by (auto simp: th_build_def)
    from sound g(1) have m: "th_map g = tg_build s ch" by auto
    from g(1) m th_lookups_few [OF M N g(2)] show "\<exists>g. th_build hf s ch = Some (Inr g) \<and> th_map g = tg_build s ch \<and>
       (\<forall>n. th_answers (th_getChild hf g n) (tg_getChild (tg_build s ch) n) g \<and>
            th_answers (th_getProperty hf g n) (tg_getProperty (tg_build s ch) n) g)"
      by metis
  qed
  show "\<forall>gs n c ch'. ch = groups_of gs @ TafGroup n c # ch' \<and> length gs = 13 \<and> distinct (n # map fst gs) \<and>
     (\<forall>x \<in> set gs. hf (fst x) = hf n) \<longrightarrow> th_build hf s ch = None"
    using th_fourteen_never by (metis distinct.simps(2) set_map)
qed

text \<open>
  The hash code of \<open>Bu::String\<close> (\<open>st_calcHashCode\<close>) does not tell names of one, two, three and more
  zero bytes apart, which the text of a group can name with escapes.
\<close>

theorem taf_hash_tables_witness:
  "(\<exists>g r. th_build (\<lambda>n. ucast (hash_spec n 0)) [] [TafProperty [97] [1], TafProperty [98] [2]] = Some (Inr g) \<and>
     th_getProperty (\<lambda>n. ucast (hash_spec n 0)) g [98] = Some (Inr r) \<and> fst r = [2]) \<and>
   th_build (\<lambda>n. ucast (hash_spec n 0)) [] (groups_of (map (\<lambda>i. (replicate i 0, [])) [0..<13]) @ [TafGroup (replicate 13 0) []]) = None"
proof -
  let ?hf = "\<lambda>n. ucast (hash_spec n 0) :: 32 word"
  let ?gs = "map (\<lambda>i. (replicate i (0 :: byte), [] :: taf_node list)) [0..<13]"
  have z: "hash_spec (replicate i 0) 0 = 0" for i by (induction i) simp_all
  have t: "tg_getProperty (tg_build [] [TafProperty [97] [1], TafProperty [98] [2]]) [98] = Inr [2]"
    by (simp add: tg_lookups tg_build_wf)
  have "card (taf_group_names [TafProperty [97] [1], TafProperty [98] [2]]) \<le> 9"
    "card (taf_prop_names [TafProperty [97] [1], TafProperty [98] [2]]) \<le> 9" by simp_all
  from taf_hash_tables [where hf = ?hf and s = "[]", THEN conjunct2, THEN conjunct1, THEN mp, OF conjI, OF this] obtain g where
    g: "th_build ?hf [] [TafProperty [97] [1], TafProperty [98] [2]] = Some (Inr g)"
    and l: "th_answers (th_getProperty ?hf g [98]) (tg_getProperty (tg_build [] [TafProperty [97] [1], TafProperty [98] [2]]) [98]) g"
    by blast
  from l [unfolded t] g have "\<exists>g r. th_build ?hf [] [TafProperty [97] [1], TafProperty [98] [2]] = Some (Inr g) \<and>
      th_getProperty ?hf g [98] = Some (Inr r) \<and> fst r = [2]"
    by (cases "th_getProperty ?hf g [98]"; cases "the (th_getProperty ?hf g [98])") (auto simp: th_answers_def)
  moreover have "th_build ?hf [] (groups_of ?gs @ [TafGroup (replicate 13 0) []]) = None"
  proof (rule taf_hash_tables [THEN conjunct2, THEN conjunct2, THEN spec [of _ ?gs], THEN spec [of _ "replicate 13 0"],
        THEN spec [of _ "[]"], THEN spec [of _ "[]"], THEN mp], intro conjI)
    have f: "map fst ?gs = map (\<lambda>i. replicate i 0) [0..<13]" by (simp only: map_map comp_def fst_conv)
    have "inj_on (\<lambda>i. replicate i (0 :: byte)) (set [0..<13])" by (intro inj_onI) (metis length_replicate)
    then have "distinct (map fst ?gs)" unfolding f distinct_map by (intro conjI distinct_upt)
    moreover have "replicate 13 0 \<notin> set (map fst ?gs)"
    proof
      assume "replicate 13 0 \<in> set (map fst ?gs)"
      then have "length (replicate 13 (0 :: byte)) \<in> length ` (\<lambda>i. replicate i (0 :: byte)) ` {0..<13}"
        unfolding f set_map set_upt by (rule imageI)
      then show False by (simp add: image_image)
    qed
    ultimately show "distinct (replicate 13 0 # map fst ?gs)" by (simp only: distinct.simps simp_thms)
    show "\<forall>x \<in> set ?gs. ?hf (fst x) = ?hf (replicate 13 0)"
      by (simp only: set_map ball_simps(9) fst_conv z) simp
  qed simp_all
  ultimately show ?thesis by blast
qed

end
