(* ===== verification/Bu_StringIter.thy ===== *)
theory Bu_StringIter
  imports Bu_String
begin

text \<open>
  The iterators of \<open>Bu::String\<close>: a chunk, here its place in the list of chunks \<open>ks\<close> of the string,
  and an index in it. Comparing and searching with them, and the members that build strings from
  ranges. An iterator whose chunk is null is invalid, whatever its index.
\<close>

section \<open>Iterators\<close>

record str_iter =
  it_pChunk :: "nat option"
  it_iPos :: int

definition it_end :: str_iter where
  "it_end = \<lparr>it_pChunk = None, it_iPos = 0\<rparr>"

definition it_begin :: "str_core \<Rightarrow> str_iter" where
  "it_begin c = (if st_nLength c = 0 \<or> st_chunks c = [] then it_end else \<lparr>it_pChunk = Some 0, it_iPos = 0\<rparr>)"

definition it_isValid :: "str_iter \<Rightarrow> bool" where
  "it_isValid it \<longleftrightarrow> it_pChunk it \<noteq> None"

definition it_inc :: "str_chunk list \<Rightarrow> str_iter \<Rightarrow> str_iter" where
  "it_inc ks it =
     (case it_pChunk it of None \<Rightarrow> it
      | Some i \<Rightarrow> if i < length ks \<and> it_iPos it + 1 < ck_nLength (ks ! i) then it\<lparr>it_iPos := it_iPos it + 1\<rparr>
                  else \<lparr>it_pChunk = (if Suc i < length ks then Some (Suc i) else None), it_iPos = 0\<rparr>)"

function it_add_loop :: "str_chunk list \<Rightarrow> nat \<Rightarrow> int \<Rightarrow> str_iter" where
  "it_add_loop ks i p =
     (if length ks \<le> i then \<lparr>it_pChunk = None, it_iPos = p\<rparr>
      else if p \<ge> ck_nLength (ks ! i) then it_add_loop ks (Suc i) (p - ck_nLength (ks ! i))
      else \<lparr>it_pChunk = Some i, it_iPos = p\<rparr>)"
  by pat_completeness auto
termination by (relation "measure (\<lambda>(ks, i, p). length ks - i)") auto

declare it_add_loop.simps [simp del]

definition it_add :: "str_chunk list \<Rightarrow> str_iter \<Rightarrow> int \<Rightarrow> str_iter" where
  "it_add ks it iAmnt =
     (case it_pChunk it of None \<Rightarrow> it | Some i \<Rightarrow> it_add_loop ks i (it_iPos it + iAmnt))"

definition it_get :: "str_chunk list \<Rightarrow> str_iter \<Rightarrow> byte result" where
  "it_get ks it =
     (case it_pChunk it of None \<Rightarrow> Inl (ExceptionBase ''Not a valid const_iterator.'')
      | Some i \<Rightarrow> rbind (arr_get ks (int i)) (\<lambda>k. buf_get (ck_pData k) (it_iPos it)))"

definition it_set :: "str_chunk list \<Rightarrow> str_iter \<Rightarrow> byte \<Rightarrow> str_chunk list result" where
  "it_set ks it x =
     (case it_pChunk it of None \<Rightarrow> Inl (ExceptionBase ''Not a valid iterator.'')
      | Some i \<Rightarrow> rbind (arr_get ks (int i)) (\<lambda>k. rbind (arr_set (ck_pData k) (it_iPos it) (Some x)) (\<lambda>d.
          Inr (ks[i := k\<lparr>ck_pData := d\<rparr>]))))"

text \<open>\<open>operator==\<close> and \<open>operator!=\<close> with a character: both are false for an invalid iterator.\<close>

definition it_eqChar :: "str_chunk list \<Rightarrow> str_iter \<Rightarrow> byte \<Rightarrow> bool result" where
  "it_eqChar ks it c = (if \<not> it_isValid it then Inr False else rbind (it_get ks it) (\<lambda>x. Inr (x = c)))"

definition it_neChar :: "str_chunk list \<Rightarrow> str_iter \<Rightarrow> byte \<Rightarrow> bool result" where
  "it_neChar ks it c = (if \<not> it_isValid it then Inr False else rbind (it_get ks it) (\<lambda>x. Inr (x \<noteq> c)))"

text \<open>What is still ahead of an iterator; it shrinks with every step.\<close>

definition it_rank :: "str_chunk list \<Rightarrow> str_iter \<Rightarrow> nat" where
  "it_rank ks it =
     (case it_pChunk it of None \<Rightarrow> 0
      | Some i \<Rightarrow> Suc (sum_list (map (\<lambda>k. Suc (nat (ck_nLength k))) (drop (Suc i) ks)) + nat (ck_nLength (ks ! i) - it_iPos it)))"

lemma it_rank_inc: "it_isValid it \<Longrightarrow> it_rank ks (it_inc ks it) < it_rank ks it"
proof -
  assume "it_isValid it"
  then obtain i where i: "it_pChunk it = Some i" by (auto simp: it_isValid_def)
  have nx: "drop (Suc i) ks = ks ! Suc i # drop (Suc (Suc i)) ks" if "Suc i < length ks"
    using that by (rule Cons_nth_drop_Suc [symmetric])
  show ?thesis
  proof (cases "i < length ks \<and> it_iPos it + 1 < ck_nLength (ks ! i)")
    case True
    with i show ?thesis by (simp add: it_inc_def it_rank_def)
  next
    case False
    then have "it_inc ks it = \<lparr>it_pChunk = (if Suc i < length ks then Some (Suc i) else None), it_iPos = 0\<rparr>"
      using i by (auto simp: it_inc_def)
    with nx show ?thesis by (simp add: it_rank_def i)
  qed
qed

section \<open>Comparing\<close>

function it_compare_loop :: "str_chunk list \<Rightarrow> str_iter \<Rightarrow> str_chunk list \<Rightarrow> str_iter \<Rightarrow> bool result" where
  "it_compare_loop ks a ks' b =
     (if it_isValid a \<and> it_isValid b
      then rbind (it_get ks a) (\<lambda>x. rbind (it_get ks' b) (\<lambda>y.
        if x \<noteq> y then Inr False else it_compare_loop ks (it_inc ks a) ks' (it_inc ks' b)))
      else Inr (it_isValid a = it_isValid b))"
  by pat_completeness auto
termination by (relation "measure (\<lambda>(ks, a, ks', b). it_rank ks a)") (auto intro: it_rank_inc)

declare it_compare_loop.simps [simp del]

text \<open>\<open>same\<close>: both iterators are of one string.\<close>

definition it_compare :: "bool \<Rightarrow> str_chunk list \<Rightarrow> str_iter \<Rightarrow> str_chunk list \<Rightarrow> str_iter \<Rightarrow> bool result" where
  "it_compare same ks a ks' b =
     (if (same \<or> \<not> it_isValid a \<and> \<not> it_isValid b) \<and> a = b then Inr True else it_compare_loop ks a ks' b)"

fun it_compareN_loop :: "str_chunk list \<Rightarrow> str_iter \<Rightarrow> str_chunk list \<Rightarrow> str_iter \<Rightarrow> nat \<Rightarrow> bool result" where
  "it_compareN_loop ks a ks' b 0 = Inr True"
| "it_compareN_loop ks a ks' b (Suc n) =
     (if \<not> it_isValid a \<or> \<not> it_isValid b then Inr False
      else rbind (it_get ks a) (\<lambda>x. rbind (it_get ks' b) (\<lambda>y.
        if x \<noteq> y then Inr False else it_compareN_loop ks (it_inc ks a) ks' (it_inc ks' b) n)))"

definition it_compareN :: "bool \<Rightarrow> str_chunk list \<Rightarrow> str_iter \<Rightarrow> str_chunk list \<Rightarrow> str_iter \<Rightarrow> int \<Rightarrow> bool result" where
  "it_compareN same ks a ks' b nLen =
     (if (same \<or> \<not> it_isValid a \<and> \<not> it_isValid b) \<and> a = b then Inr True else it_compareN_loop ks a ks' b (nat nLen))"

fun it_compareCstr_loop :: "str_chunk list \<Rightarrow> str_iter \<Rightarrow> byte option list \<Rightarrow> bool result" where
  "it_compareCstr_loop ks a [] = Inl Out_Of_Bounds"
| "it_compareCstr_loop ks a (c # cs) =
     rbind (buf_get [c] 0) (\<lambda>y.
       if it_isValid a \<and> y \<noteq> 0
       then rbind (it_get ks a) (\<lambda>x. if x \<noteq> y then Inr False else it_compareCstr_loop ks (it_inc ks a) cs)
       else Inr (it_isValid a = (y \<noteq> 0)))"

definition it_compareCstr :: "str_chunk list \<Rightarrow> str_iter \<Rightarrow> byte option list \<Rightarrow> bool result" where
  "it_compareCstr ks a c = (if \<not> it_isValid a then Inr False else it_compareCstr_loop ks a c)"

fun it_compareMem_loop :: "str_chunk list \<Rightarrow> str_iter \<Rightarrow> byte option list \<Rightarrow> nat \<Rightarrow> bool result" where
  "it_compareMem_loop ks a c 0 = Inr True"
| "it_compareMem_loop ks a c (Suc n) =
     (if \<not> it_isValid a then Inr False
      else rbind (it_get ks a) (\<lambda>x. rbind (buf_get c 0) (\<lambda>y.
        if x \<noteq> y then Inr False else it_compareMem_loop ks (it_inc ks a) (tl c) n)))"

definition it_compareMem :: "str_chunk list \<Rightarrow> str_iter \<Rightarrow> byte option list \<Rightarrow> int \<Rightarrow> bool result" where
  "it_compareMem ks a c nLen = (if \<not> it_isValid a then Inr False else it_compareMem_loop ks a c (nat nLen))"

definition it_compareStr :: "bool \<Rightarrow> str_chunk list \<Rightarrow> str_iter \<Rightarrow> str_core \<Rightarrow> bool result" where
  "it_compareStr same ks a s = (if \<not> it_isValid a then Inr False else it_compare same ks a (st_chunks s) (it_begin s))"

definition it_compareStrN :: "bool \<Rightarrow> str_chunk list \<Rightarrow> str_iter \<Rightarrow> str_core \<Rightarrow> int \<Rightarrow> bool result" where
  "it_compareStrN same ks a s nLen =
     (if \<not> it_isValid a then Inr False else it_compareN same ks a (st_chunks s) (it_begin s) nLen)"

section \<open>Searching\<close>

text \<open>The loop of every \<open>find\<close>: the first iterator from here on that a test accepts.\<close>

function it_find_loop :: "(str_iter \<Rightarrow> bool result) \<Rightarrow> str_chunk list \<Rightarrow> str_iter \<Rightarrow> str_iter result" where
  "it_find_loop P ks it =
     (if it_isValid it then rbind (P it) (\<lambda>r. if r then Inr it else it_find_loop P ks (it_inc ks it))
      else Inr it_end)"
  by pat_completeness auto
termination by (relation "measure (\<lambda>(P, ks, it). it_rank ks it)") (auto intro: it_rank_inc)

declare it_find_loop.simps [simp del]

definition it_findChar :: "str_chunk list \<Rightarrow> str_iter \<Rightarrow> byte \<Rightarrow> str_iter result" where
  "it_findChar ks it c = it_find_loop (\<lambda>i. rbind (it_get ks i) (\<lambda>x. Inr (x = c))) ks it"

definition it_findMem :: "str_chunk list \<Rightarrow> str_iter \<Rightarrow> byte option list \<Rightarrow> int \<Rightarrow> str_iter result" where
  "it_findMem ks it pStr nLen = it_find_loop (\<lambda>i. it_compareMem ks i pStr nLen) ks it"

definition it_findStr :: "bool \<Rightarrow> str_chunk list \<Rightarrow> str_iter \<Rightarrow> str_core \<Rightarrow> str_iter result" where
  "it_findStr same ks it s = it_find_loop (\<lambda>i. it_compareStr same ks i s) ks it"

definition it_findStrN :: "bool \<Rightarrow> str_chunk list \<Rightarrow> str_iter \<Rightarrow> str_core \<Rightarrow> int \<Rightarrow> str_iter result" where
  "it_findStrN same ks it s nLen = it_find_loop (\<lambda>i. it_compareStrN same ks i s nLen) ks it"

definition it_from :: "str_core \<Rightarrow> str_iter \<Rightarrow> str_iter" where
  "it_from c iStart = (if it_isValid iStart then iStart else it_begin c)"

definition st_findChar :: "byte \<Rightarrow> str_iter \<Rightarrow> str_core \<Rightarrow> str_iter result" where
  "st_findChar cChar iStart c = it_findChar (st_chunks c) (it_from c iStart) cChar"

definition st_findMem :: "byte option list \<Rightarrow> int \<Rightarrow> str_iter \<Rightarrow> str_core \<Rightarrow> str_iter result" where
  "st_findMem sText nLen iStart c = it_findMem (st_chunks c) (it_from c iStart) sText nLen"

definition st_findStr :: "bool \<Rightarrow> str_core \<Rightarrow> str_iter \<Rightarrow> str_core \<Rightarrow> str_iter result" where
  "st_findStr same rStr iStart c = it_findStr same (st_chunks c) (it_from c iStart) rStr"

definition st_findStrN :: "bool \<Rightarrow> str_core \<Rightarrow> int \<Rightarrow> str_iter \<Rightarrow> str_core \<Rightarrow> str_iter result" where
  "st_findStrN same rStr nLen iStart c = it_findStrN same (st_chunks c) (it_from c iStart) rStr nLen"

section \<open>Ranges\<close>

definition st_appendIter :: "bool \<Rightarrow> str_chunk list \<Rightarrow> str_iter \<Rightarrow> str_core \<Rightarrow> str_core result" where
  "st_appendIter sh ks s c =
     (case it_pChunk s of None \<Rightarrow> Inr c
      | Some i \<Rightarrow> rbind (arr_get ks (int i)) (\<lambda>pSrc.
          rbind (st_filledChunk (ck_pData pSrc) (it_iPos s) (ck_nLength pSrc - it_iPos s)) (\<lambda>k.
          rbind (st_hardCopy sh c) (\<lambda>c1. st_appendChunks (drop (Suc i) ks) (st_appendChunk k c1)))))"

text \<open>A range; when its end lies in a chunk before its start, the search for that chunk runs off the list.\<close>

definition st_appendRange :: "bool \<Rightarrow> str_chunk list \<Rightarrow> str_iter \<Rightarrow> str_iter \<Rightarrow> str_core \<Rightarrow> str_core result" where
  "st_appendRange sh ks s e c =
     (case it_pChunk s of None \<Rightarrow> Inr c
      | Some i \<Rightarrow> (case it_pChunk e of None \<Rightarrow> st_appendIter sh ks s c
        | Some j \<Rightarrow> rbind (arr_get ks (int i)) (\<lambda>pSrc. rbind (st_hardCopy sh c) (\<lambda>c1.
            if i = j
            then rbind (st_filledChunk (ck_pData pSrc) (it_iPos s) (it_iPos e - it_iPos s)) (\<lambda>k. Inr (st_appendChunk k c1))
            else rbind (st_filledChunk (ck_pData pSrc) (it_iPos s) (ck_nLength pSrc - it_iPos s)) (\<lambda>k.
              if j < i then Inl Out_Of_Bounds
              else rbind (st_appendChunks (drop (Suc i) (take j ks)) (st_appendChunk k c1)) (\<lambda>c2.
                rbind (arr_get ks (int j)) (\<lambda>pEnd. rbind (st_filledChunk (ck_pData pEnd) 0 (it_iPos e)) (\<lambda>k'.
                  Inr (st_appendChunk k' c2))))))) ))"

definition st_appendDeref :: "bool \<Rightarrow> str_chunk list \<Rightarrow> str_iter \<Rightarrow> str_core \<Rightarrow> str_core result" where
  "st_appendDeref sh ks i c = st_appendRange sh ks i (it_add ks i 1) c"

definition st_setRange :: "bool \<Rightarrow> str_chunk list \<Rightarrow> str_iter \<Rightarrow> str_iter \<Rightarrow> str_core \<Rightarrow> str_core result" where
  "st_setRange sh ks s e c = rbind (st_clear sh c) (\<lambda>c1. st_appendRange False ks s e c1)"

fun st_appendTexts :: "str_chunk list \<Rightarrow> str_core \<Rightarrow> str_core result" where
  "st_appendTexts [] ret = Inr ret"
| "st_appendTexts (k # ks) ret = rbind (st_append False (ck_pData k) 0 (ck_nLength k) ret) (st_appendTexts ks)"

definition st_getSubStr :: "str_chunk list \<Rightarrow> str_iter \<Rightarrow> str_iter \<Rightarrow> str_core result" where
  "st_getSubStr ks iBegin iEnd =
     (case it_pChunk iBegin of None \<Rightarrow> Inr st_new
      | Some i \<Rightarrow> rbind (arr_get ks (int i)) (\<lambda>k.
          case it_pChunk iEnd of
            None \<Rightarrow> rbind (st_append False (ck_pData k) (it_iPos iBegin) (ck_nLength k - it_iPos iBegin) st_new)
                     (st_appendTexts (drop (Suc i) ks))
          | Some j \<Rightarrow>
              if i = j then st_append False (ck_pData k) (it_iPos iBegin) (it_iPos iEnd - it_iPos iBegin) st_new
              else rbind (st_append False (ck_pData k) (it_iPos iBegin) (ck_nLength k - it_iPos iBegin) st_new) (\<lambda>r.
                if j < i then rbind (st_appendTexts (drop (Suc i) ks) r) (\<lambda>r'. Inl Out_Of_Bounds)
                else rbind (st_appendTexts (drop (Suc i) (take j ks)) r) (\<lambda>r'. rbind (arr_get ks (int j)) (\<lambda>k'.
                  st_append False (ck_pData k') 0 (it_iPos iEnd) r')))))"

section \<open>split, replace and trimWhitespace\<close>

function it_skip :: "(byte \<Rightarrow> bool) \<Rightarrow> str_chunk list \<Rightarrow> str_iter \<Rightarrow> str_iter result" where
  "it_skip P ks it =
     (if it_isValid it then rbind (it_get ks it) (\<lambda>x. if P x then it_skip P ks (it_inc ks it) else Inr it)
      else Inr it)"
  by pat_completeness auto
termination by (relation "measure (\<lambda>(P, ks, it). it_rank ks it)") (auto intro: it_rank_inc)

declare it_skip.simps [simp del]

lemma it_skip_rank: "it_skip P ks it = Inr it' \<Longrightarrow> it_rank ks it' \<le> it_rank ks it"
proof (induction P ks it rule: it_skip.induct)
  case (1 P ks it)
  show ?case
  proof (cases "it_isValid it")
    case False
    with "1.prems" show ?thesis by (simp add: it_skip.simps [of P ks it])
  next
    case True
    then obtain x where x: "it_get ks it = Inr x" using "1.prems" by (auto simp: it_skip.simps [of P ks it] rbind_eq_Inr)
    show ?thesis
    proof (cases "P x")
      case True
      with "1.IH" [OF \<open>it_isValid it\<close> x True] "1.prems" x \<open>it_isValid it\<close> it_rank_inc [of it ks]
      show ?thesis by (auto simp: it_skip.simps [of P ks it])
    next
      case False
      with "1.prems" x \<open>it_isValid it\<close> show ?thesis by (simp add: it_skip.simps [of P ks it])
    qed
  qed
qed

lemma it_rank_after:
  assumes "it_isValid l" "it_skip P ks l = Inr r"
  shows "it_rank ks (it_inc ks r) < it_rank ks l"
proof (cases "it_isValid r")
  case True
  with it_rank_inc [of r ks] it_skip_rank [OF assms(2)] show ?thesis by simp
next
  case False
  then have "it_rank ks (it_inc ks r) = 0" by (simp add: it_isValid_def it_inc_def it_rank_def)
  moreover have "0 < it_rank ks l" using assms(1) by (auto simp: it_isValid_def it_rank_def)
  ultimately show ?thesis by simp
qed

function st_split_loop :: "byte \<Rightarrow> str_chunk list \<Rightarrow> str_iter \<Rightarrow> str_core list result" where
  "st_split_loop c ks l =
     (if it_isValid l
      then (case it_skip (\<lambda>x. x \<noteq> c) ks l of Inl e \<Rightarrow> Inl e
            | Inr r \<Rightarrow> rbind (st_appendRange False ks l r st_new) (\<lambda>s.
                rbind (st_split_loop c ks (it_inc ks r)) (\<lambda>ret. Inr (s # ret))))
      else Inr [])"
  by pat_completeness auto
termination by (relation "measure (\<lambda>(c, ks, l). it_rank ks l)") (auto intro: it_rank_after)

declare st_split_loop.simps [simp del]

definition st_split :: "byte \<Rightarrow> str_core \<Rightarrow> str_core list result" where
  "st_split ch c = st_split_loop ch (st_chunks c) (it_begin c)"

text \<open>The loop of \<open>replace\<close> need not end.\<close>

partial_function (option) st_replace_loop ::
    "str_chunk list \<Rightarrow> str_core \<Rightarrow> str_core \<Rightarrow> str_iter \<Rightarrow> str_core \<Rightarrow> str_core result option" where
  "st_replace_loop ks fnd rep p out =
     obind (Some (it_findStrN False ks p fnd (st_nLength fnd))) (\<lambda>i.
     if \<not> it_isValid i then Some (st_appendIter False ks p out)
     else obind (Some (st_appendRange False ks p i out)) (\<lambda>out1.
       obind (Some (st_appendStr False rep out1)) (\<lambda>r.
         st_replace_loop ks fnd (snd r) (it_add ks i (st_nLength fnd)) (fst r))))"

definition st_replace :: "str_core \<Rightarrow> str_core \<Rightarrow> str_core \<Rightarrow> str_core result option" where
  "st_replace fnd rep c = st_replace_loop (st_chunks c) fnd rep (it_begin c) st_new"

function it_trim_end :: "str_chunk list \<Rightarrow> str_iter \<Rightarrow> str_iter result" where
  "it_trim_end ks e =
     (if it_isValid e
      then rbind (it_get ks e) (\<lambda>x.
        if st_isWS_char x
        then (case it_skip st_isWS_char ks e of Inl er \<Rightarrow> Inl er
              | Inr t \<Rightarrow> if it_isValid t then it_trim_end ks (it_inc ks t) else Inr e)
        else it_trim_end ks (it_inc ks e))
      else Inr e)"
  by pat_completeness auto
termination
  by (relation "measure (\<lambda>(ks, e). it_rank ks e)") (auto intro: it_rank_inc it_rank_after)

declare it_trim_end.simps [simp del]

definition st_trimWhitespace :: "str_core \<Rightarrow> str_core result" where
  "st_trimWhitespace c =
     (if st_nLength c = 0 then Inr st_new
      else rbind (it_skip st_isWS_char (st_chunks c) (it_begin c)) (\<lambda>i.
        if \<not> it_isValid i then Inr st_new
        else rbind (it_trim_end (st_chunks c) i) (\<lambda>e. st_appendRange False (st_chunks c) i e st_new)))"

end
