(* ===== verification/Bu_StringRange.thy ===== *)
theory Bu_StringRange
  imports Bu_StringIter Bu_StringCompare
begin

text \<open>
  What an iterator has ahead of it, and the members that work on ranges as functions of that. The
  chunks of the strings here are not empty; an iterator of a string with an empty chunk stands on a
  byte that is not in the text.
\<close>

section \<open>The text ahead of an iterator\<close>

definition ks_dense :: "str_chunk list \<Rightarrow> bool" where
  "ks_dense ks \<longleftrightarrow> (\<forall>k \<in> set ks. ck_ok k \<and> 0 < ck_nLength k)"

definition it_at :: "str_chunk list \<Rightarrow> str_iter \<Rightarrow> bool" where
  "it_at ks it \<longleftrightarrow>
     (case it_pChunk it of None \<Rightarrow> True
      | Some i \<Rightarrow> i < length ks \<and> 0 \<le> it_iPos it \<and> it_iPos it < ck_nLength (ks ! i))"

definition ks_text :: "str_chunk list \<Rightarrow> byte option list" where
  "ks_text ks = concat (map ck_text ks)"

definition it_rest :: "str_chunk list \<Rightarrow> str_iter \<Rightarrow> byte option list" where
  "it_rest ks it =
     (case it_pChunk it of None \<Rightarrow> []
      | Some i \<Rightarrow> drop (nat (it_iPos it)) (ck_text (ks ! i)) @ ks_text (drop (Suc i) ks))"

lemma ks_text_simps [simp]: "ks_text [] = []" "ks_text (k # ks) = ck_text k @ ks_text ks"
  "ks_text (ks @ ls) = ks_text ks @ ks_text ls"
  by (simp_all add: ks_text_def)

lemma it_end_rest [simp]: "it_pChunk it = None \<Longrightarrow> it_rest ks it = []" "it_pChunk it = None \<Longrightarrow> it_at ks it"
  by (simp_all add: it_rest_def it_at_def)

lemma dense_nth: "ks_dense ks \<Longrightarrow> i < length ks \<Longrightarrow> ck_ok (ks ! i) \<and> 0 < ck_nLength (ks ! i)"
  by (simp add: ks_dense_def)

lemma drop_chunks: "i < length ks \<Longrightarrow> ks_text (drop i ks) = ck_text (ks ! i) @ ks_text (drop (Suc i) ks)"
  by (simp flip: Cons_nth_drop_Suc)

lemma it_valid_rest:
  assumes d: "ks_dense ks" and a: "it_at ks it"
  shows "it_isValid it \<longleftrightarrow> it_rest ks it \<noteq> []"
proof (cases "it_pChunk it")
  case None
  then show ?thesis by (simp add: it_isValid_def)
next
  case (Some i)
  then have i: "i < length ks" "0 \<le> it_iPos it" "it_iPos it < ck_nLength (ks ! i)" using a by (simp_all add: it_at_def)
  have "length (ck_text (ks ! i)) = nat (ck_nLength (ks ! i))" using dense_nth [OF d i(1)] by simp
  with i Some show ?thesis by (simp add: it_isValid_def it_rest_def)
qed

lemma it_split:
  assumes d: "ks_dense ks" and a: "it_at ks it" and v: "it_pChunk it = Some i"
  obtains n m where "i < length ks" "it_iPos it = int n" "n < m" "ck_ok (ks ! i)"
    "ck_nLength (ks ! i) = int m" "length (ck_text (ks ! i)) = m" "m \<le> length (ck_pData (ks ! i))"
    "it_rest ks it = drop n (ck_text (ks ! i)) @ ks_text (drop (Suc i) ks)"
proof -
  have i: "i < length ks" "0 \<le> it_iPos it" "it_iPos it < ck_nLength (ks ! i)" using a v by (simp_all add: it_at_def)
  have k: "ck_ok (ks ! i)" using dense_nth [OF d i(1)] by simp
  have r: "it_rest ks it = drop (nat (it_iPos it)) (ck_text (ks ! i)) @ ks_text (drop (Suc i) ks)"
    using v by (simp add: it_rest_def)
  show ?thesis
    by (rule that [OF i(1) _ _ k _ length_ck_text [OF k] ck_ok_le [OF k] r]) (use i in simp_all)
qed

lemma it_get_rest:
  assumes d: "ks_dense ks" and a: "it_at ks it" and r: "it_rest ks it = Some x # xs"
  shows "it_get ks it = Inr x"
proof -
  obtain i where v: "it_pChunk it = Some i" using r by (cases "it_pChunk it") auto
  obtain n m where n: "i < length ks" "it_iPos it = int n" "n < m" "length (ck_text (ks ! i)) = m"
    "it_rest ks it = drop n (ck_text (ks ! i)) @ ks_text (drop (Suc i) ks)"
    by (rule it_split [OF d a v])
  have "ck_text (ks ! i) ! n = Some x" using r n(3-5) by (metis append_Cons drop_eq_Nil hd_append2 hd_drop_conv_nth leD list.sel(1))
  then have "ck_pData (ks ! i) ! n = Some x" using n(3,4) by (auto simp: ck_text_def)
  moreover have "n < length (ck_pData (ks ! i))" using n(3,4) by (auto simp: ck_text_def)
  ultimately show ?thesis using v n(1,2) by (simp add: it_get_def buf_get_def slot_get_def arr_get_def)
qed

lemma it_inc_rest:
  assumes d: "ks_dense ks" and a: "it_at ks it"
  shows "it_at ks (it_inc ks it)" "it_rest ks (it_inc ks it) = tl (it_rest ks it)"
proof -
  have "it_at ks (it_inc ks it) \<and> it_rest ks (it_inc ks it) = tl (it_rest ks it)"
  proof (cases "it_pChunk it")
    case None
    then show ?thesis by (simp add: it_inc_def)
  next
    case (Some i)
    obtain n m where n: "i < length ks" "it_iPos it = int n" "n < m" "length (ck_text (ks ! i)) = m"
      "ck_nLength (ks ! i) = int m" "it_rest ks it = drop n (ck_text (ks ! i)) @ ks_text (drop (Suc i) ks)"
      by (rule it_split [OF d a Some])
    have tl: "tl (it_rest ks it) = drop (Suc n) (ck_text (ks ! i)) @ ks_text (drop (Suc i) ks)"
      using n(3,4) by (simp add: n(6) drop_Suc tl_drop)
    show ?thesis
    proof (cases "Suc n < m")
      case True
      then have "it_inc ks it = it\<lparr>it_iPos := int n + 1\<rparr>" using Some n(1,2,5) by (simp add: it_inc_def)
      with True Some n(1,5) tl show ?thesis by (simp add: it_at_def it_rest_def nat_add_distrib)
    next
      case False
      then have "it_inc ks it = \<lparr>it_pChunk = (if Suc i < length ks then Some (Suc i) else None), it_iPos = 0\<rparr>"
        using Some n(1,2,5) by (simp add: it_inc_def)
      moreover have "tl (it_rest ks it) = ks_text (drop (Suc i) ks)" using False n(4) tl by simp
      ultimately show ?thesis using dense_nth [OF d, of "Suc i"] drop_chunks [of "Suc i" ks] by (auto simp: it_at_def it_rest_def)
    qed
  qed
  then show "it_at ks (it_inc ks it)" "it_rest ks (it_inc ks it) = tl (it_rest ks it)" by simp_all
qed

lemma it_begin_rest:
  assumes wf: "st_wf c" and d: "ks_dense (st_chunks c)"
  shows "it_at (st_chunks c) (it_begin c)" "it_rest (st_chunks c) (it_begin c) = st_data c"
proof -
  have "it_at (st_chunks c) (it_begin c) \<and> it_rest (st_chunks c) (it_begin c) = st_data c"
  proof (cases "st_nLength c = 0 \<or> st_chunks c = []")
    case True
    then have "st_data c = []" using wf by (auto simp: st_wf_def st_data_def)
    with True show ?thesis by (simp add: it_begin_def it_end_def)
  next
    case False
    with d show ?thesis by (cases "st_chunks c") (auto simp: it_begin_def it_at_def it_rest_def ks_dense_def st_data_def ks_text_def)
  qed
  then show "it_at (st_chunks c) (it_begin c)" "it_rest (st_chunks c) (it_begin c) = st_data c" by simp_all
qed

lemma it_add_loop_rest:
  assumes d: "ks_dense ks"
  shows "it_at ks (it_add_loop ks i (int p)) \<and> it_rest ks (it_add_loop ks i (int p)) = drop p (ks_text (drop i ks))"
proof (induction "length ks - i" arbitrary: i p)
  case 0
  then show ?case by (simp add: it_add_loop.simps [of ks i])
next
  case (Suc n)
  then have i: "i < length ks" "n = length ks - Suc i" by simp_all
  have k: "ck_ok (ks ! i)" using dense_nth [OF d i(1)] by simp
  obtain m where m: "ck_nLength (ks ! i) = int m" "length (ck_text (ks ! i)) = m" using ck_text_int [OF k] by blast
  show ?case
  proof (cases "int p \<ge> ck_nLength (ks ! i)")
    case True
    then have "int p - ck_nLength (ks ! i) = int (p - m)" "m \<le> p" using m(1) by simp_all
    with Suc.hyps(1) [OF i(2), of "p - m"] True i(1) m show ?thesis by (simp add: it_add_loop.simps [of ks i] drop_chunks)
  next
    case False
    with i(1) m show ?thesis by (simp add: it_add_loop.simps [of ks i] it_at_def it_rest_def drop_chunks)
  qed
qed

lemma it_add_rest:
  assumes d: "ks_dense ks" and a: "it_at ks it"
  shows "it_at ks (it_add ks it (int n))" "it_rest ks (it_add ks it (int n)) = drop n (it_rest ks it)"
proof -
  have "it_at ks (it_add ks it (int n)) \<and> it_rest ks (it_add ks it (int n)) = drop n (it_rest ks it)"
  proof (cases "it_pChunk it")
    case None
    then show ?thesis by (simp add: it_add_def)
  next
    case (Some i)
    obtain p m where p: "i < length ks" "it_iPos it = int p" "p < m" "length (ck_text (ks ! i)) = m"
      "it_rest ks it = drop p (ck_text (ks ! i)) @ ks_text (drop (Suc i) ks)"
      by (rule it_split [OF d a Some])
    have "it_add ks it (int n) = it_add_loop ks i (int (p + n))" using Some p(2) by (simp add: it_add_def)
    with it_add_loop_rest [OF d, of i "p + n"] p drop_chunks [OF p(1)] show ?thesis by (simp add: add.commute)
  qed
  then show "it_at ks (it_add ks it (int n))" "it_rest ks (it_add ks it (int n)) = drop n (it_rest ks it)" by simp_all
qed

section \<open>Appending a range\<close>

lemma appendIter_gives:
  assumes wf: "st_wf c" and d: "ks_dense ks" and a: "it_at ks s"
  shows "st_gives (st_appendIter sh ks s c) (st_data c @ it_rest ks s)"
proof (cases "it_pChunk s")
  case None
  with wf show ?thesis by (intro st_givesI [of _ c]) (simp_all add: st_appendIter_def)
next
  case (Some i)
  obtain p m where p: "i < length ks" "it_iPos s = int p" "p < m" "ck_ok (ks ! i)"
    "ck_nLength (ks ! i) = int m" "length (ck_text (ks ! i)) = m" "m \<le> length (ck_pData (ks ! i))"
    "it_rest ks s = drop p (ck_text (ks ! i)) @ ks_text (drop (Suc i) ks)"
    by (rule it_split [OF d a Some])
  have le: "p + (m - p) \<le> length (ck_pData (ks ! i))" using p(3,7) by simp
  obtain k where k: "st_filledChunk (ck_pData (ks ! i)) (int p) (int (m - p)) = Inr k" "ck_ok k"
    "ck_text k = take (m - p) (drop p (ck_pData (ks ! i)))"
    using filledChunk_ok [OF le] by blast
  have tx: "ck_text k = drop p (ck_text (ks ! i))" using k(3) p(5) by (simp add: ck_text_def drop_take)
  obtain c1 where c1: "st_hardCopy sh c = Inr c1" "st_wf c1" "st_data c1 = st_data c" using st_hardCopy_ok [OF wf, of sh] by blast
  have w: "st_wf (st_appendChunk k c1)" "st_data (st_appendChunk k c1) = st_data c @ drop p (ck_text (ks ! i))"
    using appendChunk_ok [OF c1(2) k(2)] c1(3) tx by simp_all
  have "\<forall>k \<in> set (drop (Suc i) ks). ck_ok k" using d by (auto simp: ks_dense_def dest: in_set_dropD)
  from appendChunks_ok [OF w(1) this, folded ks_text_def] obtain c2 where c2: "st_appendChunks (drop (Suc i) ks) (st_appendChunk k c1) = Inr c2" "st_wf c2"
    "st_data c2 = st_data (st_appendChunk k c1) @ ks_text (drop (Suc i) ks)" by blast
  have k': "st_filledChunk (ck_pData (ks ! i)) (int p) (int m - int p) = Inr k" using k(1) p(3) by (simp add: of_nat_diff)
  have ag: "arr_get ks (int i) = Inr (ks ! i)" using p(1) by (simp add: arr_get_def)
  have "st_appendIter sh ks s c = Inr c2"
    unfolding st_appendIter_def Some option.case ag rbind_Inr p(2,5) k' c1(1) by (rule c2(1))
  with c2 w(2) p(8) show ?thesis by (intro st_givesI [of _ c2]) simp_all
qed

end
