(* ===== verification/Bu_StringParts.thy ===== *)
theory Bu_StringParts
  imports Bu_StringRange
begin

text \<open>
  The members that take a string apart with iterators: ranges, \<open>find\<close>, \<open>split\<close>, \<open>replace\<close> and
  \<open>trimWhitespace\<close>, against functions on lists of bytes.
\<close>

section \<open>A range between two iterators\<close>

lemma it_order:
  assumes d: "ks_dense ks" and a: "it_at ks s" "it_at ks e" and v: "it_pChunk s = Some i" "it_pChunk e = Some j"
    and l: "length (it_rest ks e) \<le> length (it_rest ks s)"
  shows "i < j \<or> i = j \<and> it_iPos s \<le> it_iPos e"
proof -
  obtain p m where p: "i < length ks" "it_iPos s = int p" "p < m" "length (ck_text (ks ! i)) = m"
    "it_rest ks s = drop p (ck_text (ks ! i)) @ ks_text (drop (Suc i) ks)" by (rule it_split [OF d a(1) v(1)])
  obtain q n where q: "j < length ks" "it_iPos e = int q" "q < n" "length (ck_text (ks ! j)) = n"
    "it_rest ks e = drop q (ck_text (ks ! j)) @ ks_text (drop (Suc j) ks)" by (rule it_split [OF d a(2) v(2)])
  show ?thesis
  proof (rule ccontr)
    assume "\<not> ?thesis"
    then consider "j < i" | "i = j" "q < p" using p(2) q(2) by linarith
    then show False
    proof cases
      case 1
      have "drop (Suc j) ks = take (i - Suc j) (drop (Suc j) ks) @ drop i ks" using append_take_drop_id [of "i - Suc j" "drop (Suc j) ks"] 1 by simp
      then have "length (ks_text (drop i ks)) \<le> length (ks_text (drop (Suc j) ks))" by (metis ks_text_simps(3) le_add2 length_append)
      then show False using l p(3-5) q(3-5) drop_chunks [OF p(1)] by simp
    next
      case 2
      with l p(3-5) q(3-5) show False by simp
    qed
  qed
qed

lemma range_chunks:
  assumes "i < j" "j < length ks"
  shows "ks_text (drop (Suc i) ks) = ks_text (drop (Suc i) (take j ks)) @ ks_text (drop j ks)"
proof -
  have "drop (Suc i) ks = drop (Suc i) (take j ks) @ drop j ks" using assms
    by (metis append_take_drop_id drop_append drop_drop length_take less_Suc_eq_le min.absorb2 not_less_eq diff_is_0_eq' drop0 less_imp_le_nat Suc_leI)
  then show ?thesis by (metis ks_text_simps(3))
qed

lemma appendRange_gives:
  assumes wf: "st_wf c" and d: "ks_dense ks" and a: "it_at ks s" "it_at ks e" and w: "it_rest ks s = w @ it_rest ks e"
  shows "st_gives (st_appendRange sh ks s e c) (st_data c @ w)"
proof (cases "it_pChunk s")
  case None
  with w wf show ?thesis by (intro st_givesI [of _ c]) (simp_all add: st_appendRange_def)
next
  case S: (Some i)
  show ?thesis
  proof (cases "it_pChunk e")
    case None
    with appendIter_gives [OF wf d a(1), of sh] S w show ?thesis by (simp add: st_appendRange_def)
  next
    case E: (Some j)
    obtain p m where p: "i < length ks" "it_iPos s = int p" "p < m" "ck_ok (ks ! i)" "ck_nLength (ks ! i) = int m"
      "length (ck_text (ks ! i)) = m" "m \<le> length (ck_pData (ks ! i))"
      "it_rest ks s = drop p (ck_text (ks ! i)) @ ks_text (drop (Suc i) ks)" by (rule it_split [OF d a(1) S])
    obtain q n where q: "j < length ks" "it_iPos e = int q" "q < n" "ck_ok (ks ! j)" "ck_nLength (ks ! j) = int n"
      "length (ck_text (ks ! j)) = n" "n \<le> length (ck_pData (ks ! j))"
      "it_rest ks e = drop q (ck_text (ks ! j)) @ ks_text (drop (Suc j) ks)" by (rule it_split [OF d a(2) E])
    have ti: "ck_text (ks ! i) = take m (ck_pData (ks ! i))" using p(5) by (simp add: ck_text_def)
    have tj: "ck_text (ks ! j) = take n (ck_pData (ks ! j))" using q(5) by (simp add: ck_text_def)
    have ag: "arr_get ks (int i) = Inr (ks ! i)" "arr_get ks (int j) = Inr (ks ! j)" using p(1) q(1) by (simp_all add: arr_get_def)
    obtain c1 where c1: "st_hardCopy sh c = Inr c1" "st_wf c1" "st_data c1 = st_data c" using st_hardCopy_ok [OF wf, of sh] by blast
    have ord: "i < j \<or> i = j \<and> it_iPos s \<le> it_iPos e" by (rule it_order [OF d a S E]) (simp add: w)
    show ?thesis
    proof (cases "i = j")
      case True
      then have pq: "p \<le> q" "m = n" using ord p(2,6) q(2,6) by simp_all
      have le: "p + (q - p) \<le> length (ck_pData (ks ! i))" using pq q(3) p(7) by simp
      obtain k where k: "st_filledChunk (ck_pData (ks ! i)) (int p) (int (q - p)) = Inr k" "ck_ok k"
        "ck_text k = take (q - p) (drop p (ck_pData (ks ! i)))" using filledChunk_ok [OF le] by blast
      have k': "st_filledChunk (ck_pData (ks ! i)) (int p) (int q - int p) = Inr k" using k(1) pq(1) by (simp add: of_nat_diff)
      have "take (q - p) (drop p (ck_text (ks ! i))) = take (q - p) (drop p (ck_pData (ks ! i)))"
        using pq q(3) by (simp add: ti drop_take)
      then have "drop p (ck_text (ks ! i)) = ck_text k @ drop q (ck_text (ks ! i))"
        using k(3) pq(1) append_take_drop_id [of "q - p" "drop p (ck_text (ks ! i))"] by simp
      then have "w = ck_text k" using w p(8) q(8) True by simp
      moreover have "st_appendRange sh ks s e c = Inr (st_appendChunk k c1)"
        unfolding st_appendRange_def S E option.case ag rbind_Inr p(2) q(2) k' c1(1) using True by simp
      ultimately show ?thesis using appendChunk_ok [OF c1(2) k(2)] c1(3) by auto
    next
      case False
      then have ij: "i < j" using ord by simp
      have le: "p + (m - p) \<le> length (ck_pData (ks ! i))" using p(3,7) by simp
      obtain k where k: "st_filledChunk (ck_pData (ks ! i)) (int p) (int (m - p)) = Inr k" "ck_ok k"
        "ck_text k = take (m - p) (drop p (ck_pData (ks ! i)))" using filledChunk_ok [OF le] by blast
      have k': "st_filledChunk (ck_pData (ks ! i)) (int p) (int m - int p) = Inr k" using k(1) p(3) by (simp add: of_nat_diff)
      have tk: "ck_text k = drop p (ck_text (ks ! i))" using k(3) by (simp add: ti drop_take)
      have le': "0 + q \<le> length (ck_pData (ks ! j))" using q(3,7) by simp
      obtain l where l: "st_filledChunk (ck_pData (ks ! j)) (int 0) (int q) = Inr l" "ck_ok l"
        "ck_text l = take q (drop 0 (ck_pData (ks ! j)))" using filledChunk_ok [OF le'] by blast
      have tl: "ck_text l = take q (ck_text (ks ! j))" using l(3) q(3) by (simp add: tj min_def)
      have l': "st_filledChunk (ck_pData (ks ! j)) 0 (int q) = Inr l" using l(1) by simp
      have "\<forall>k \<in> set (drop (Suc i) (take j ks)). ck_ok k" using d by (auto simp: ks_dense_def dest: in_set_dropD in_set_takeD)
      from appendChunks_ok [OF conjunct1 [OF appendChunk_ok [OF c1(2) k(2)]] this, folded ks_text_def]
      obtain c2 where c2: "st_appendChunks (drop (Suc i) (take j ks)) (st_appendChunk k c1) = Inr c2" "st_wf c2"
        "st_data c2 = st_data (st_appendChunk k c1) @ ks_text (drop (Suc i) (take j ks))" by blast
      have e: "st_appendRange sh ks s e c = Inr (st_appendChunk l c2)"
        unfolding st_appendRange_def S E option.case ag rbind_Inr p(2,5) q(2) k' c1(1) l'
        using ij c2(1) by (simp add: ag l')
      have "it_rest ks s = (ck_text k @ ks_text (drop (Suc i) (take j ks)) @ ck_text l) @ it_rest ks e"
        using p(8) q(8) range_chunks [OF ij q(1)] drop_chunks [OF q(1)] tk tl by simp
      then have ww: "w = ck_text k @ ks_text (drop (Suc i) (take j ks)) @ ck_text l" using w by simp
      have "st_data (st_appendChunk l c2) = st_data c @ w"
        using appendChunk_ok [OF c2(2) l(2)] appendChunk_ok [OF c1(2) k(2)] c2(3) c1(3) ww by simp
      with appendChunk_ok [OF c2(2) l(2)] show ?thesis by (intro st_givesI [OF e]) simp_all
    qed
  qed
qed

section \<open>Searching\<close>

text \<open>What is ahead of the first place that a test accepts.\<close>

fun find_spec :: "(byte list \<Rightarrow> bool) \<Rightarrow> byte list \<Rightarrow> byte list" where
  "find_spec Q [] = []"
| "find_spec Q (x # xs) = (if Q (x # xs) then x # xs else find_spec Q xs)"

definition it_ahead :: "str_chunk list \<Rightarrow> str_iter \<Rightarrow> byte list \<Rightarrow> bool" where
  "it_ahead ks it xs \<longleftrightarrow> it_at ks it \<and> it_rest ks it = map Some xs"

lemma ahead_step:
  assumes d: "ks_dense ks" and h: "it_ahead ks it xs"
  shows "it_isValid it \<longleftrightarrow> xs \<noteq> []" "it_ahead ks (it_inc ks it) (tl xs)" "xs = x # ys \<Longrightarrow> it_get ks it = Inr x"
  using it_valid_rest [OF d, of it] it_inc_rest [OF d, of it] it_get_rest [OF d, of it x "map Some ys"] h
  by (auto simp: it_ahead_def map_tl)

lemma ahead_end: "it_ahead ks it_end []"
  by (simp add: it_ahead_def it_end_def)

lemma ahead_begin: "st_holds c xs \<Longrightarrow> ks_dense (st_chunks c) \<Longrightarrow> it_ahead (st_chunks c) (it_begin c) xs"
  using it_begin_rest [of c] by (simp add: st_holds_def it_ahead_def)

lemma find_loop:
  assumes d: "ks_dense ks" and P: "\<And>i ys. it_ahead ks i ys \<Longrightarrow> ys \<noteq> [] \<Longrightarrow> P i = Inr (Q ys)"
  shows "it_ahead ks it xs \<Longrightarrow> \<exists>it'. it_find_loop P ks it = Inr it' \<and> it_ahead ks it' (find_spec Q xs)"
proof (induction xs arbitrary: it)
  case Nil
  then have "\<not> it_isValid it" using ahead_step(1) [OF d] by blast
  then show ?case using ahead_end by (simp add: it_find_loop.simps [of P ks it])
next
  case (Cons x xs)
  have v: "it_isValid it" "P it = Inr (Q (x # xs))" using ahead_step(1) [OF d Cons.prems] P [OF Cons.prems] by simp_all
  show ?case
  proof (cases "Q (x # xs)")
    case True
    with v Cons.prems show ?thesis by (simp add: it_find_loop.simps [of P ks it])
  next
    case False
    from Cons.IH [of "it_inc ks it"] ahead_step(2) [OF d Cons.prems]
    obtain it' where "it_find_loop P ks (it_inc ks it) = Inr it'" "it_ahead ks it' (find_spec Q xs)" by auto
    with False v show ?thesis by (simp add: it_find_loop.simps [of P ks it])
  qed
qed

lemma compareN_loop:
  assumes d: "ks_dense ks" "ks_dense ks'"
  shows "it_ahead ks a xs \<Longrightarrow> it_ahead ks' b ys \<Longrightarrow> n \<le> length ys \<Longrightarrow>
    it_compareN_loop ks a ks' b n = Inr (prefix (take n ys) xs)"
proof (induction n arbitrary: a b xs ys)
  case (Suc n)
  obtain y ys' where y: "ys = y # ys'" using Suc.prems(3) by (cases ys) auto
  have b: "it_isValid b" "it_get ks' b = Inr y" "it_ahead ks' (it_inc ks' b) ys'" using ahead_step [OF d(2) Suc.prems(2)] y by auto
  show ?case
  proof (cases xs)
    case Nil
    then have "\<not> it_isValid a" using ahead_step(1) [OF d(1) Suc.prems(1)] by simp
    with Nil y show ?thesis by simp
  next
    case (Cons x xs')
    then have a: "it_isValid a" "it_get ks a = Inr x" "it_ahead ks (it_inc ks a) xs'" using ahead_step [OF d(1) Suc.prems(1)] by auto
    with Suc.IH [OF a(3) b(3)] Suc.prems(3) b y Cons show ?thesis by auto
  qed
qed simp

lemma compareMem_loop:
  assumes d: "ks_dense ks"
  shows "it_ahead ks a xs \<Longrightarrow> take n m = map Some ys \<Longrightarrow> length ys = n \<Longrightarrow> it_compareMem_loop ks a m n = Inr (prefix ys xs)"
proof (induction n arbitrary: a m xs ys)
  case (Suc n)
  obtain y ys' where y: "ys = y # ys'" using Suc.prems(3) by (cases ys) auto
  have b: "buf_get m 0 = Inr y" "take n (tl m) = map Some ys'" using buf_get_hd [of n m y "map Some ys'"] Suc.prems(2) y by auto
  show ?case
  proof (cases xs)
    case Nil
    then have "\<not> it_isValid a" using ahead_step(1) [OF d Suc.prems(1)] by simp
    with Nil y show ?thesis by simp
  next
    case (Cons x xs')
    then have a: "it_isValid a" "it_get ks a = Inr x" "it_ahead ks (it_inc ks a) xs'" using ahead_step [OF d Suc.prems(1)] by auto
    with Suc.IH [OF a(3) b(2)] Suc.prems(3) b y Cons show ?thesis by auto
  qed
qed simp

lemma compare_loop:
  assumes d: "ks_dense ks" "ks_dense ks'"
  shows "it_ahead ks a xs \<Longrightarrow> it_ahead ks' b ys \<Longrightarrow> it_compare_loop ks a ks' b = Inr (xs = ys)"
proof (induction xs arbitrary: a b ys)
  case Nil
  with ahead_step(1) [OF d(1) Nil(1)] ahead_step(1) [OF d(2) Nil(2)] show ?case by (auto simp: it_compare_loop.simps [of ks a ks' b])
next
  case (Cons x xs)
  have a: "it_isValid a" "it_get ks a = Inr x" "it_ahead ks (it_inc ks a) xs" using ahead_step [OF d(1) Cons.prems(1)] by auto
  show ?case
  proof (cases ys)
    case Nil
    then have "\<not> it_isValid b" using ahead_step(1) [OF d(2) Cons.prems(2)] by simp
    with a(1) Nil show ?thesis by (simp add: it_compare_loop.simps [of ks a ks' b])
  next
    case y: (Cons y ys')
    then have b: "it_isValid b" "it_get ks' b = Inr y" "it_ahead ks' (it_inc ks' b) ys'" using ahead_step [OF d(2) Cons.prems(2)] by auto
    with Cons.IH [OF a(3) b(3)] a y show ?thesis by (simp add: it_compare_loop.simps [of ks a ks' b])
  qed
qed

lemma from_ahead:
  assumes "st_holds c xs" "ks_dense (st_chunks c)" "it_ahead (st_chunks c) s ys"
  shows "it_ahead (st_chunks c) (it_from c s) (if ys = [] then xs else ys)"
  using ahead_begin [OF assms(1,2)] ahead_step(1) [OF assms(2,3)] assms(3) by (simp add: it_from_def)

end
