(* ===== verification/Bu_StringSplit.thy ===== *)
theory Bu_StringSplit
  imports Bu_StringParts
begin

text \<open>
  \<open>find\<close>, \<open>split\<close>, \<open>replace\<close> and \<open>trimWhitespace\<close> as functions of the text.
\<close>

section \<open>find\<close>

lemma findMem_ok:
  assumes c: "st_holds c xs" "ks_dense (st_chunks c)" "it_ahead (st_chunks c) s ys" and m: "take n m = map Some fs" "length fs = n"
  shows "\<exists>it. st_findMem m (int n) s c = Inr it \<and>
    it_ahead (st_chunks c) it (find_spec (prefix fs) (if ys = [] then xs else ys))"
  unfolding st_findMem_def it_findMem_def
proof (rule find_loop [OF c(2) _ from_ahead [OF c]])
  fix i zs assume "it_ahead (st_chunks c) i zs" "zs \<noteq> []"
  then show "it_compareMem (st_chunks c) i m (int n) = Inr (prefix fs zs)"
    using compareMem_loop [OF c(2) _ m] ahead_step(1) [OF c(2)] by (simp add: it_compareMem_def)
qed

text \<open>The \<open>find\<close> of a whole string compares up to the end of both.\<close>

lemma findStr_ok:
  assumes c: "st_holds c xs" "ks_dense (st_chunks c)" "it_ahead (st_chunks c) s ys" and f: "st_holds f fs" "ks_dense (st_chunks f)"
  shows "\<exists>it. st_findStr False f s c = Inr it \<and>
    it_ahead (st_chunks c) it (find_spec (\<lambda>zs. zs = fs) (if ys = [] then xs else ys))"
  unfolding st_findStr_def it_findStr_def
proof (rule find_loop [OF c(2) _ from_ahead [OF c]])
  fix i zs assume i: "it_ahead (st_chunks c) i zs" "zs \<noteq> []"
  then have "it_isValid i" using ahead_step(1) [OF c(2)] by blast
  with compare_loop [OF c(2) f(2) i(1) ahead_begin [OF f]]
  show "it_compareStr False (st_chunks c) i f = Inr (zs = fs)" by (simp add: it_compareStr_def it_compare_def)
qed

lemma findStrN_ahead:
  assumes d: "ks_dense ks" and a: "it_ahead ks s ys" and f: "st_holds f fs" "ks_dense (st_chunks f)"
  shows "\<exists>it. it_findStrN False ks s f (st_nLength f) = Inr it \<and> it_ahead ks it (find_spec (prefix fs) ys)"
  unfolding it_findStrN_def
proof (rule find_loop [OF d _ a])
  fix i zs assume i: "it_ahead ks i zs" "zs \<noteq> []"
  then have "it_isValid i" using ahead_step(1) [OF d] by blast
  with compareN_loop [OF d f(2) i(1) ahead_begin [OF f], of "length fs"] st_holds_len [OF f(1)]
  show "it_compareStrN False ks i f (st_nLength f) = Inr (prefix fs zs)" by (simp add: it_compareStrN_def it_compareN_def)
qed

lemma find_spec_suffix: "\<exists>w. xs = w @ find_spec Q xs"
proof (induction xs)
  case (Cons x xs)
  then obtain w where "xs = w @ find_spec Q xs" by blast
  then show ?case by (cases "Q (x # xs)") (auto intro: exI [of _ "x # w"])
qed simp

lemma find_spec_hit: "find_spec Q xs \<noteq> [] \<Longrightarrow> Q (find_spec Q xs)"
  by (induction xs) auto

lemma find_spec_none: "find_spec Q xs = [] \<longleftrightarrow> (\<forall>ys. suffix ys xs \<and> ys \<noteq> [] \<longrightarrow> \<not> Q ys)"
  by (induction xs) (auto simp: suffix_Cons)

section \<open>Ranges into new strings\<close>

lemma range_holds:
  assumes wf: "st_holds c out" and d: "ks_dense ks" and a: "it_ahead ks s xs" "it_ahead ks e ys" and w: "xs = w @ ys"
  obtains r where "st_appendRange sh ks s e c = Inr r" "st_holds r (out @ w)"
  using appendRange_gives [of c ks s e "map Some w" sh] assms
  by (auto simp: st_holds_def it_ahead_def elim!: st_givesE)

lemma skip_ok:
  assumes d: "ks_dense ks"
  shows "it_ahead ks it xs \<Longrightarrow> \<exists>it'. it_skip P ks it = Inr it' \<and> it_ahead ks it' (dropWhile P xs)"
proof (induction xs arbitrary: it)
  case Nil
  then show ?case using ahead_step(1) [OF d Nil] by (simp add: it_skip.simps [of P ks it])
next
  case (Cons x xs)
  have s: "it_isValid it" "it_get ks it = Inr x" "it_ahead ks (it_inc ks it) xs" using ahead_step [OF d Cons.prems] by auto
  with Cons.IH [OF s(3)] Cons.prems show ?case by (simp add: it_skip.simps [of P ks it])
qed

section \<open>split\<close>

function split_spec :: "byte \<Rightarrow> byte list \<Rightarrow> byte list list" where
  "split_spec ch xs =
     (if xs = [] then [] else takeWhile (\<lambda>x. x \<noteq> ch) xs # split_spec ch (tl (dropWhile (\<lambda>x. x \<noteq> ch) xs)))"
  by pat_completeness auto
termination
proof (relation "measure (\<lambda>(ch, xs). length xs)", goal_cases)
  case (2 ch xs)
  have "length (dropWhile (\<lambda>x. x \<noteq> ch) xs) \<le> length xs" by (rule length_dropWhile_le)
  with 2 show ?case by (cases xs) auto
qed simp

declare split_spec.simps [simp del]

lemma split_spec_Nil [simp]: "split_spec ch [] = []"
  by (simp add: split_spec.simps [of ch "[]"])

lemma split_loop:
  assumes d: "ks_dense ks"
  shows "it_ahead ks l xs \<Longrightarrow> \<exists>rs. st_split_loop ch ks l = Inr rs \<and> list_all2 st_holds rs (split_spec ch xs)"
proof (induction ch xs arbitrary: l rule: split_spec.induct)
  case (1 ch xs)
  show ?case
  proof (cases "xs = []")
    case True
    with ahead_step(1) [OF d "1.prems"] show ?thesis by (simp add: st_split_loop.simps [of ch ks l] split_spec.simps [of ch xs])
  next
    case False
    let ?P = "\<lambda>x. x \<noteq> ch"
    obtain r where r: "it_skip ?P ks l = Inr r" "it_ahead ks r (dropWhile ?P xs)" using skip_ok [OF d "1.prems"] by blast
    obtain s where s: "st_appendRange False ks l r st_new = Inr s" "st_holds s ([] @ takeWhile ?P xs)"
      by (rule range_holds [OF _ d "1.prems" r(2), of st_new "[]"]) auto
    obtain rs where rs: "st_split_loop ch ks (it_inc ks r) = Inr rs" "list_all2 st_holds rs (split_spec ch (tl (dropWhile ?P xs)))"
      using "1.IH" [OF False ahead_step(2) [OF d r(2)]] by blast
    have "st_split_loop ch ks l = Inr (s # rs)"
      using False ahead_step(1) [OF d "1.prems"] r(1) s(1) rs(1) by (simp add: st_split_loop.simps [of ch ks l])
    with rs(2) s(2) False show ?thesis by (simp add: split_spec.simps [of ch xs])
  qed
qed

lemma st_split_ok:
  "st_holds c xs \<Longrightarrow> ks_dense (st_chunks c) \<Longrightarrow> \<exists>rs. st_split ch c = Inr rs \<and> list_all2 st_holds rs (split_spec ch xs)"
  unfolding st_split_def by (rule split_loop) (simp_all add: ahead_begin)

text \<open>Putting the parts together again.\<close>

fun join_spec :: "byte \<Rightarrow> byte list list \<Rightarrow> byte list" where
  "join_spec ch [] = []"
| "join_spec ch [p] = p"
| "join_spec ch (p # q # ps) = p @ ch # join_spec ch (q # ps)"

lemma split_spec_parts: "p \<in> set (split_spec ch xs) \<Longrightarrow> ch \<notin> set p"
proof (induction ch xs rule: split_spec.induct)
  case (1 ch xs)
  show ?case
  proof (cases "xs = []")
    case True
    with "1.prems" show ?thesis by (simp add: split_spec.simps [of ch xs])
  next
    case False
    with "1.prems" consider "p = takeWhile (\<lambda>x. x \<noteq> ch) xs" | "p \<in> set (split_spec ch (tl (dropWhile (\<lambda>x. x \<noteq> ch) xs)))"
      by (auto simp: split_spec.simps [of ch xs])
    then show ?thesis using "1.IH" [OF False] by cases (auto dest: set_takeWhileD)
  qed
qed

lemma split_spec_join:
  "join_spec ch (split_spec ch xs) = (if xs \<noteq> [] \<and> last xs = ch then butlast xs else xs)"
proof (induction ch xs rule: split_spec.induct)
  case (1 ch xs)
  show ?case
  proof (cases "xs = []")
    case True
    then show ?thesis by (simp add: split_spec.simps [of ch xs])
  next
    case False
    let ?P = "\<lambda>x. x \<noteq> ch"
    define a where "a = takeWhile ?P xs"
    define b where "b = dropWhile ?P xs"
    have x: "xs = a @ b" by (simp add: a_def b_def)
    have na: "a \<noteq> [] \<Longrightarrow> last a \<noteq> ch" unfolding a_def using set_takeWhileD last_in_set by fastforce
    have sp0: "split_spec ch xs = a # split_spec ch (tl b)" using False by (simp add: split_spec.simps [of ch xs] a_def b_def)
    show ?thesis
    proof (cases b)
      case Nil
      then have "split_spec ch xs = [a]" using sp0 by simp
      with Nil x na False show ?thesis by auto
    next
      case (Cons y b')
      then have y: "y = ch" using hd_dropWhile [of ?P xs] by (simp add: b_def)
      have sp: "split_spec ch xs = a # split_spec ch b'" using sp0 Cons by simp
      have ih: "join_spec ch (split_spec ch b') = (if b' \<noteq> [] \<and> last b' = ch then butlast b' else b')"
        using "1.IH" [OF False] Cons by (simp add: b_def)
      show ?thesis
      proof (cases "b' = []")
        case True
        then show ?thesis using sp x Cons y by (simp add: split_spec.simps [of ch "[]"] butlast_append)
      next
        case nb: False
        then obtain q qs where "split_spec ch b' = q # qs" by (simp add: split_spec.simps [of ch b'])
        with sp ih nb x Cons y show ?thesis by (simp add: butlast_append)
      qed
    qed
  qed
qed

section \<open>trimWhitespace\<close>

definition trail_spec :: "byte list \<Rightarrow> byte list" where
  "trail_spec xs = rev (takeWhile st_isWS_char (rev xs))"

definition trim_spec :: "byte list \<Rightarrow> byte list" where
  "trim_spec xs = rev (dropWhile st_isWS_char (rev (dropWhile st_isWS_char xs)))"

lemma trail_spec_all: "\<forall>x \<in> set xs. st_isWS_char x \<Longrightarrow> trail_spec xs = xs"
  by (simp add: trail_spec_def takeWhile_eq_all_conv [THEN iffD2])

lemma trail_spec_app: "\<not> st_isWS_char x \<Longrightarrow> trail_spec (a @ x # xs) = trail_spec xs"
  by (auto simp: trail_spec_def takeWhile_append takeWhile_eq_all_conv [THEN iffD2])

lemma trim_end_ok:
  assumes d: "ks_dense ks"
  shows "it_ahead ks e xs \<Longrightarrow> \<exists>e'. it_trim_end ks e = Inr e' \<and> it_ahead ks e' (trail_spec xs)"
proof (induction "length xs" arbitrary: e xs rule: less_induct)
  case less
  show ?case
  proof (cases xs)
    case Nil
    with ahead_step(1) [OF d less.prems] less.prems show ?thesis by (simp add: it_trim_end.simps [of ks e] trail_spec_def)
  next
    case (Cons x ys)
    have s: "it_isValid e" "it_get ks e = Inr x" "it_ahead ks (it_inc ks e) ys" using ahead_step [OF d less.prems] Cons by auto
    show ?thesis
    proof (cases "st_isWS_char x")
      case False
      have "trail_spec xs = trail_spec ys" using trail_spec_app [OF False, of "[]" ys] Cons by simp
      with less.hyps [OF _ s(3)] Cons s False show ?thesis by (simp add: it_trim_end.simps [of ks e])
    next
      case True
      obtain t where t: "it_skip st_isWS_char ks e = Inr t" "it_ahead ks t (dropWhile st_isWS_char xs)"
        using skip_ok [OF d less.prems] by blast
      show ?thesis
      proof (cases "dropWhile st_isWS_char xs")
        case Nil
        then have "trail_spec xs = xs" by (intro trail_spec_all) (simp add: dropWhile_eq_Nil_conv)
        moreover have "\<not> it_isValid t" using ahead_step(1) [OF d t(2)] Nil by simp
        ultimately show ?thesis using s True t(1) less.prems by (simp add: it_trim_end.simps [of ks e])
      next
        case D: (Cons y zs)
        have "it_isValid t" "it_ahead ks (it_inc ks t) zs" using ahead_step [OF d t(2)] D by simp_all
        moreover have "length zs < length xs" using length_dropWhile_le [of st_isWS_char xs] D by simp
        moreover have "\<not> st_isWS_char y" using hd_dropWhile [of st_isWS_char xs] D by simp
        then have "trail_spec xs = trail_spec zs"
          using trail_spec_app [of y "takeWhile st_isWS_char xs" zs] D takeWhile_dropWhile_id [of st_isWS_char xs] by simp
        ultimately show ?thesis using less.hyps [of zs "it_inc ks t"] s True t(1) by (simp add: it_trim_end.simps [of ks e])
      qed
    qed
  qed
qed

lemma st_trimWhitespace_ok:
  assumes h: "st_holds c xs" "ks_dense (st_chunks c)"
  shows "\<exists>r. st_trimWhitespace c = Inr r \<and> st_holds r (trim_spec xs)"
proof (cases "xs = []")
  case True
  with st_holds_len [OF h(1)] show ?thesis by (simp add: st_trimWhitespace_def trim_spec_def)
next
  case False
  let ?W = st_isWS_char
  obtain i where i: "it_skip ?W (st_chunks c) (it_begin c) = Inr i" "it_ahead (st_chunks c) i (dropWhile ?W xs)"
    using skip_ok [OF h(2) ahead_begin [OF h]] by blast
  show ?thesis
  proof (cases "dropWhile ?W xs = []")
    case True
    then have "trim_spec xs = []" unfolding trim_spec_def True by simp
    with True ahead_step(1) [OF h(2) i(2)] i(1) False st_holds_len [OF h(1)] show ?thesis by (simp add: st_trimWhitespace_def)
  next
    case F: False
    obtain e where e: "it_trim_end (st_chunks c) i = Inr e" "it_ahead (st_chunks c) e (trail_spec (dropWhile ?W xs))"
      using trim_end_ok [OF h(2) i(2)] by blast
    have "dropWhile ?W xs = trim_spec xs @ trail_spec (dropWhile ?W xs)"
      unfolding trim_spec_def trail_spec_def rev_append [symmetric] by simp
    from range_holds [OF _ h(2) i(2) e(2) this, of st_new "[]" False] obtain r where
      "st_appendRange False (st_chunks c) i e st_new = Inr r" "st_holds r (trim_spec xs)" by auto
    with F ahead_step(1) [OF h(2) i(2)] i(1) e(1) False st_holds_len [OF h(1)] show ?thesis by (simp add: st_trimWhitespace_def)
  qed
qed

end
