(* ===== verification/Bu_StringReplace.thy ===== *)
theory Bu_StringReplace
  imports Bu_StringSplit
begin

text \<open>\<open>replace\<close>: against a function of the texts, and the empty text, for which it does not end.\<close>

lemma appendStr_holds:
  assumes c: "st_holds c xs" and s: "st_holds s ys" "length ys \<noteq> 256"
  obtains c' s' where "st_appendStr sh s c = Inr (c', s')" "st_holds c' (xs @ ys)" "st_holds s' ys"
proof -
  obtain p s' where p: "st_getStr s = Inr (p, s')" "st_holds s' ys" "take (length ys) p = map Some ys" "length ys < length p"
    using getStr_holds [OF s] by blast
  have "st_wf c" "st_data c = map Some xs" using c by (simp_all add: st_holds_def)
  with append_gives [of c 0 "int (length ys)" p sh] p(3,4) obtain c' where
    "st_append sh p 0 (int (length ys)) c = Inr c'" "st_holds c' (xs @ ys)" by (auto simp: st_holds_def elim!: st_givesE)
  with that p(1,2) st_holds_len [OF s(1)] show ?thesis by (simp add: st_appendStr_def)
qed

function replace_spec :: "byte list \<Rightarrow> byte list \<Rightarrow> byte list \<Rightarrow> byte list" where
  "replace_spec f r xs =
     (if xs = [] \<or> f = [] then xs
      else if prefix f xs then r @ replace_spec f r (drop (length f) xs)
      else hd xs # replace_spec f r (tl xs))"
  by pat_completeness auto
termination by (relation "measure (\<lambda>(f, r, xs). length xs)") auto

declare replace_spec.simps [simp del]

lemma replace_spec_find:
  assumes f: "f \<noteq> []"
  shows "xs = w @ find_spec (prefix f) xs \<Longrightarrow>
    replace_spec f r xs = w @ (if find_spec (prefix f) xs = [] then [] else r @ replace_spec f r (drop (length f) (find_spec (prefix f) xs)))"
proof (induction xs arbitrary: w)
  case Nil
  then show ?case by (simp add: replace_spec.simps [of f r "[]"])
next
  case (Cons x xs)
  show ?case
  proof (cases "prefix f (x # xs)")
    case True
    with Cons.prems f show ?thesis by (simp add: replace_spec.simps [of f r "x # xs"])
  next
    case False
    obtain w' where w': "xs = w' @ find_spec (prefix f) xs" using find_spec_suffix [of xs "prefix f"] by blast
    have "w @ find_spec (prefix f) xs = (x # w') @ find_spec (prefix f) xs" using Cons.prems w' False by simp
    then have w: "w = x # w'" by (simp only: append_same_eq)
    have "replace_spec f r (x # xs) = x # replace_spec f r xs" using False f by (simp add: replace_spec.simps [of f r "x # xs"])
    with Cons.IH [OF w'] w False show ?thesis by simp
  qed
qed

lemma replace_loop:
  assumes d: "ks_dense ks" and f: "st_holds f fs" "ks_dense (st_chunks f)" "fs \<noteq> []" and n: "length rs \<noteq> 256"
  shows "it_ahead ks p xs \<Longrightarrow> st_holds out os \<Longrightarrow> st_holds rep rs \<Longrightarrow>
    \<exists>out'. st_replace_loop ks f rep p out = Some (Inr out') \<and> st_holds out' (os @ replace_spec fs rs xs)"
proof (induction "length xs" arbitrary: xs p out os rep rule: less_induct)
  case less
  let ?ys = "find_spec (prefix fs) xs"
  obtain i where i: "it_findStrN False ks p f (st_nLength f) = Inr i" "it_ahead ks i ?ys"
    using findStrN_ahead [OF d less.prems(1) f(1,2)] by blast
  obtain w where w: "xs = w @ ?ys" using find_spec_suffix by blast
  note spec = replace_spec_find [OF f(3) w, of rs]
  show ?case
  proof (cases "?ys = []")
    case True
    then have "\<not> it_isValid i" using ahead_step(1) [OF d i(2)] by simp
    then have e: "st_replace_loop ks f rep p out = Some (st_appendIter False ks p out)"
      by (simp add: st_replace_loop.simps [of ks f rep p out] i(1))
    have "st_gives (st_appendIter False ks p out) (map Some (os @ xs))"
      using appendIter_gives [of out ks p False] less.prems d by (simp add: st_holds_def it_ahead_def)
    with e spec w True show ?thesis by (auto simp: st_holds_def elim!: st_givesE)
  next
    case False
    have v: "it_isValid i" using ahead_step(1) [OF d i(2)] False by simp
    obtain o1 where o1: "st_appendRange False ks p i out = Inr o1" "st_holds o1 (os @ w)"
      by (rule range_holds [OF less.prems(2) d less.prems(1) i(2) w])
    obtain o2 rep' where o2: "st_appendStr False rep o1 = Inr (o2, rep')" "st_holds o2 ((os @ w) @ rs)" "st_holds rep' rs"
      by (rule appendStr_holds [OF o1(2) less.prems(3) n])
    let ?p = "it_add ks i (st_nLength f)"
    have p: "it_ahead ks ?p (drop (length fs) ?ys)"
      using it_add_rest [OF d, of i "length fs"] i(2) st_holds_len [OF f(1)] by (simp add: it_ahead_def drop_map)
    have "length (drop (length fs) ?ys) < length xs" using False f(3) w by (metis length_append length_drop length_greater_0_conv diff_less trans_less_add2)
    from less.hyps [OF this p o2(2,3)] obtain out' where
      out': "st_replace_loop ks f rep' ?p o2 = Some (Inr out')" "st_holds out' (((os @ w) @ rs) @ replace_spec fs rs (drop (length fs) ?ys))"
      by blast
    have "st_replace_loop ks f rep p out = st_replace_loop ks f rep' ?p o2"
      by (subst st_replace_loop.simps) (simp add: i(1) v o1(1) o2(1))
    with out' spec False show ?thesis by simp
  qed
qed

lemma st_replace_ok:
  assumes "st_holds c xs" "ks_dense (st_chunks c)" "st_holds f fs" "ks_dense (st_chunks f)" "fs \<noteq> []"
    "st_holds rep rs" "length rs \<noteq> 256"
  shows "\<exists>out. st_replace f rep c = Some (Inr out) \<and> st_holds out (replace_spec fs rs xs)"
  using replace_loop [OF assms(2-5,7) ahead_begin [OF assms(1,2)] _ assms(6), of st_new "[]"] by (simp add: st_replace_def)

text \<open>An empty text is found where the search starts, and the step past it is no step.\<close>

lemma it_add_0: "ks_dense ks \<Longrightarrow> it_at ks i \<Longrightarrow> it_isValid i \<Longrightarrow> it_add ks i 0 = i"
  by (auto simp: it_isValid_def it_at_def it_add_def it_add_loop.simps)

lemma replace_stuck:
  assumes d: "ks_dense ks" and f: "st_nLength f = 0" and n: "length rs \<noteq> 256"
  shows "st_replace_loop ks f' rep p out = Some y \<Longrightarrow> f' = f \<Longrightarrow> it_ahead ks p xs \<Longrightarrow> xs \<noteq> [] \<Longrightarrow> (\<exists>os. st_holds out os) \<Longrightarrow>
    st_holds rep rs \<Longrightarrow> False"
proof -
  have main: "f' = f \<and> it_ahead ks p xs \<and> xs \<noteq> [] \<and> (\<exists>os. st_holds out os) \<and> st_holds rep rs \<and> ks_dense ks \<longrightarrow> False"
    if run: "st_replace_loop ks f' rep p out = Some y" for ks rep p out f' y
  proof (rule st_replace_loop.raw_induct [where P = "\<lambda>ks f' rep p out y.
      f' = f \<and> it_ahead ks p xs \<and> xs \<noteq> [] \<and> (\<exists>os. st_holds out os) \<and> st_holds rep rs \<and> ks_dense ks \<longrightarrow> False",
      OF _ run], goal_cases)
    case (1 loop ks f' rep p out y)
    show ?case
    proof (intro impI)
      assume h: "f' = f \<and> it_ahead ks p xs \<and> xs \<noteq> [] \<and> (\<exists>os. st_holds out os) \<and> st_holds rep rs \<and> ks_dense ks"
      then obtain os where os: "st_holds out os" by blast
      have v: "it_isValid p" using ahead_step(1) [of ks p xs] h by blast
      have fi: "it_findStrN False ks p f (st_nLength f) = Inr p"
        using v f by (simp add: it_findStrN_def it_find_loop.simps [of _ ks p] it_compareStrN_def it_compareN_def)
      obtain o1 where o1: "st_appendRange False ks p p out = Inr o1" "st_holds o1 (os @ [])"
        by (rule range_holds [of out os ks p xs p xs "[]"]) (use h os in simp_all)
      obtain o2 rep' where o2: "st_appendStr False rep o1 = Inr (o2, rep')" "st_holds o2 ((os @ []) @ rs)" "st_holds rep' rs"
        by (rule appendStr_holds [OF o1(2) _ n]) (use h in blast)
      have "it_add ks p (st_nLength f) = p" using it_add_0 [of ks p] h v f by (simp add: it_ahead_def)
      then have "loop ks f rep' p o2 = Some y" using 1(2) h fi v o1(1) o2(1) by simp
      from 1(1) [OF this] h o2(2,3) show False by blast
    qed
  qed
  then show "st_replace_loop ks f' rep p out = Some y \<Longrightarrow> f' = f \<Longrightarrow> it_ahead ks p xs \<Longrightarrow> xs \<noteq> [] \<Longrightarrow> (\<exists>os. st_holds out os) \<Longrightarrow>
    st_holds rep rs \<Longrightarrow> False" using d by blast
qed

lemma st_replace_empty:
  assumes "st_holds c xs" "ks_dense (st_chunks c)" "xs \<noteq> []" "st_nLength f = 0" "st_holds rep rs" "length rs \<noteq> 256"
  shows "st_replace f rep c = None"
proof (cases "st_replace f rep c")
  case (Some y)
  then have "st_replace_loop (st_chunks c) f rep (it_begin c) st_new = Some y" by (simp add: st_replace_def)
  from replace_stuck [OF assms(2,4,6) this refl ahead_begin [OF assms(1,2)] assms(3) _ assms(5)] show ?thesis
    using st_holds_new by blast
qed simp

end
