(* ===== verification/Bu_StringShare.thy ===== *)
theory Bu_StringShare
  imports Bu_StringReplace
begin

text \<open>
  Two places where the memory of a string shows: the byte behind a full chunk, and \<open>trimBack\<close>, which
  changes the core that other strings share. Here a string is an object of the copy-on-write store.
\<close>

section \<open>A full chunk\<close>

lemma filledChunk_size:
  assumes "p + n \<le> length src" "n < 256"
  obtains k where "st_filledChunk src (int p) (int n) = Inr k" "ck_ok k" "ck_text k = take n (drop p src)"
    "ck_nLength k = int n" "length (ck_pData k) = 256"
proof -
  obtain k where k: "st_newChunk (int n) = Inr k" "ck_nLength k = int n" "length (ck_pData k) = 256"
    using newChunk_ok [of n] assms(2) by auto
  have ld: "mem_load src (int p) (int n) = Inr (take n (drop p src))" by (rule mem_load_in [OF assms(1)])
  have l: "length (take n (drop p src)) = n" using assms(1) by simp
  have sto: "mem_store (ck_pData k) 0 (take n (drop p src)) = Inr (overwrite (ck_pData k) 0 (take n (drop p src)))"
    using mem_store_in [of 0 "take n (drop p src)" "ck_pData k"] k(3) l assms(2) by simp
  obtain k' where k': "st_filledChunk src (int p) (int n) = Inr k'" "ck_ok k'" "ck_text k' = take n (drop p src)"
    using filledChunk_ok [OF assms(1)] by blast
  have "k' = k\<lparr>ck_pData := overwrite (ck_pData k) 0 (take n (drop p src))\<rparr>" using k' k(1) ld sto by (simp add: st_filledChunk_def)
  then have "ck_nLength k' = int n" "length (ck_pData k') = 256" using k(2,3) l assms(2) by (simp_all add: length_overwrite)
  with that k' show ?thesis by blast
qed

lemma appendLast_size:
  assumes "st_appendLast pData p n c = Inr (m, c')"
  shows "map (length \<circ> ck_pData) (st_chunks c') = map (length \<circ> ck_pData) (st_chunks c)"
proof (cases "st_chunks c \<noteq> [] \<and> ck_nLength (last (st_chunks c)) < nMinSize")
  case False
  with assms show ?thesis by (auto simp: st_appendLast_def)
next
  case True
  then obtain ks l where c: "st_chunks c = ks @ [l]" by (metis rev_exhaust)
  with True assms obtain xs d where "mem_store (ck_pData l) (ck_nLength l) xs = Inr d" "st_chunks c' = ks @ [\<lparr>ck_nLength = ck_nLength l + m, ck_pData = d\<rparr>]"
    by (auto simp: st_appendLast_def Let_def rbind_eq_Inr)
  moreover from this have "length d = length (ck_pData l)" by (auto simp: mem_store_def length_overwrite split: if_splits)
  ultimately show ?thesis using c by simp
qed

lemma append_fills:
  assumes x: "xs \<noteq> []" and n: "length xs + length ys = 256" "ys \<noteq> []"
  obtains c1 c2 where "st_append False (map Some xs) 0 (int (length xs)) st_new = Inr c1"
    "st_append False (map Some ys) 0 (int (length ys)) c1 = Inr c2" "st_holds c2 (xs @ ys)" "st_full c2"
proof -
  have lx: "length xs < 256" using n by (cases ys) auto
  obtain k where k: "st_filledChunk (map Some xs) (int 0) (int (length xs)) = Inr k" "ck_ok k" "ck_text k = map Some xs"
    "ck_nLength k = int (length xs)" "length (ck_pData k) = 256"
    by (rule filledChunk_size [of 0 "length xs" "map Some xs"]) (use lx in auto)
  let ?c = "st_appendChunk k st_new"
  have c: "?c = \<lparr>st_nLength = int (length xs), st_chunks = [k]\<rparr>" using k(4) by (simp add: st_appendChunk_def st_new_def)
  have e1: "st_append False (map Some xs) 0 (int (length xs)) st_new = Inr ?c"
    using x k(1) by (simp add: st_append_def st_hardCopy_def st_appendLast_def st_new_def)
  have w: "st_wf ?c" "st_data ?c = map Some xs" using appendChunk_ok [OF st_wf_new(1) k(2)] k(3) by simp_all
  obtain m c2 where m: "st_appendLast (map Some ys) (int 0) (int (length ys)) ?c = Inr (int m, c2)" "st_wf c2"
    "st_data c2 = st_data ?c @ take m (drop 0 (map Some ys))"
    using appendLast_ok [OF w(1), of 0 "length ys" "map Some ys"] by auto
  have "int m = int (length ys)"
    using m(1) n(1) k(4) lx unfolding c by (auto simp: st_appendLast_def nMinSize_def Let_def rbind_eq_Inr)
  then have m': "m = length ys" by simp
  have e2: "st_append False (map Some ys) 0 (int (length ys)) ?c = Inr c2"
    using n(2) m(1) m' by (simp add: st_append_def st_hardCopy_def)
  have h: "st_holds c2 (xs @ ys)" using m(2,3) w(2) m' by (simp add: st_holds_def)
  have "map (length \<circ> ck_pData) (st_chunks c2) = [256]" using appendLast_size [OF m(1)] c k(5) by simp
  then obtain l where l: "st_chunks c2 = [l]" "length (ck_pData l) = 256" by (cases "st_chunks c2") auto
  have "ck_ok l" using m(2) l(1) by (simp add: st_wf_def)
  moreover have "length (ck_text l) = 256" using h l(1) n(1) by (simp add: st_holds_def st_data_def)
  ultimately have "st_full c2" using l by (simp add: st_full_def ck_room_def)
  with that e1 e2 h show ?thesis by blast
qed

section \<open>trimBack on a shared core\<close>

definition str_cp :: "str_core \<Rightarrow> str_core" where
  "str_cp c = (case st_copy c of Inl e \<Rightarrow> c | Inr c' \<Rightarrow> c')"

definition str_trimBack :: "nat \<Rightarrow> int \<Rightarrow> str_core sc_store \<Rightarrow> str_core sc_store result" where
  "str_trimBack h iAmnt st =
     rbind (sc_core st h) (\<lambda>(a, c, n).
       if iAmnt < 0 then Inr st
       else if st_nLength c - iAmnt < 0
       then rbind (sc_hardCopy str_cp h st) (\<lambda>st1. rbind (sc_core st1 h) (\<lambda>(a1, c1, n1).
         Inr (st1\<lparr>sc_heap := (sc_heap st1)(a1 \<mapsto> (st_clearCore c1, n1))\<rparr>)))
       else rbind (st_trimBack False iAmnt c) (\<lambda>c'. Inr (st\<lparr>sc_heap := (sc_heap st)(a \<mapsto> (c', n))\<rparr>)))"

lemma trimBack_shared:
  assumes s: "sc_core st s = Inr (a, c, n)" and h: "sc_shell st h = None" and c: "st_holds c xs" and m: "m \<le> length xs"
  shows "\<exists>st1 st2 c'. sc_step alloc str_cp st (Sc_Copy h s) = Inr st1 \<and> str_trimBack h (int m) st1 = Inr st2 \<and>
    sc_core st2 s = Inr (a, c', n + 1) \<and> st_holds c' (take (length xs - m) xs)"
proof -
  have sa: "sc_shell st s = Some a" "sc_heap st a = Some (c, n)" using s by (auto simp: sc_core_def split: option.splits)
  have hs: "h \<noteq> s" using h sa(1) by auto
  define st1 where "st1 = st\<lparr>sc_heap := (sc_heap st)(a \<mapsto> (c, n + 1)), sc_shell := (sc_shell st)(h \<mapsto> a)\<rparr>"
  have e1: "sc_step alloc str_cp st (Sc_Copy h s) = Inr st1"
    using h sa by (simp add: sc_softCopy_def sc_incRefCount_def sc_core_def st1_def)
  have c1: "sc_core st1 h = Inr (a, c, n + 1)" by (simp add: sc_core_def st1_def)
  have "st_wf c" using c by (simp add: st_holds_def)
  from trimBack_gives [OF this, of False "int m"] c obtain c' where
    c': "st_trimBack False (int m) c = Inr c'" "st_holds c' (take (length xs - m) xs)"
    by (auto simp: st_holds_def trimBack_spec_def take_map elim!: st_givesE)
  define st2 where "st2 = st1\<lparr>sc_heap := (sc_heap st1)(a \<mapsto> (c', n + 1))\<rparr>"
  have "str_trimBack h (int m) st1 = Inr st2"
    using c1 c'(1) m st_holds_len [OF c] by (simp add: str_trimBack_def st2_def)
  moreover have "sc_core st2 s = Inr (a, c', n + 1)" using sa(1) hs by (simp add: sc_core_def st2_def st1_def)
  ultimately show ?thesis using e1 c'(2) by blast
qed

end
