(* ===== verification/Bu_StringProps.thy ===== *)
theory Bu_StringProps
  imports Bu_StringShare
begin

text \<open>
  What \<open>Bu::String\<close> promises, and where it does not keep it. \<open>st_wf c\<close> says that the chunks of
  \<open>c\<close> are what the code allocates and that its length is theirs, \<open>st_holds c xs\<close> that its text is
  \<open>xs\<close> besides, \<open>ks_dense\<close> that no chunk is empty.
\<close>

text \<open>A string of one chunk.\<close>

definition st_of :: "byte list \<Rightarrow> str_core" where
  "st_of xs = (if xs = [] then st_new else
     \<lparr>st_nLength = int (length xs), st_chunks = [\<lparr>ck_nLength = int (length xs), ck_pData = map Some xs @ replicate (max 1 (256 - length xs)) None\<rparr>]\<rparr>)"

lemma st_of_holds [simp]: "st_holds (st_of xs) xs" "ks_dense (st_chunks (st_of xs))"
  by (auto simp: st_of_def st_holds_def st_wf_def st_data_def ck_text_def ck_ok_def ks_dense_def st_new_def max_def)

text \<open>
  \<open>prepend\<close> of an empty C string puts an empty chunk in front, and the iterators then start with
  its terminator, a character that is not in the text.
\<close>

lemma string_empty_chunk:
  assumes h: "st_holds c xs" "xs \<noteq> []"
  shows "\<exists>c'. st_prependCstr False [Some 0] c = Inr c' \<and> st_holds c' xs \<and> it_get (st_chunks c') (it_begin c') = Inr 0"
proof -
  define k where "k = \<lparr>ck_nLength = 0, ck_pData = (replicate 256 (None :: byte option))[0 := Some 0]\<rparr>"
  have "st_newChunk 0 = Inr k" using newChunk_data [of 0] by (simp add: k_def)
  then have k: "st_filledChunk [Some 0] 0 0 = Inr k" "ck_ok k" "ck_text k = []" "ck_pData k = (replicate 256 None)[0 := Some 0]"
    by (simp_all add: st_filledChunk_def mem_load_def mem_store_def overwrite_def ck_ok_def ck_text_def k_def)
  let ?c = "st_prependChunk k c"
  have e: "st_prependCstr False [Some 0] c = Inr ?c" by (simp add: st_prependCstr_def st_hardCopy_def k(1))
  have w: "st_wf ?c" "st_data ?c = map Some xs" using prependChunk_ok [of c k] k(2,3) h(1) by (simp_all add: st_holds_def)
  then have hc: "st_holds ?c xs" by (simp add: st_holds_def)
  have "it_get (st_chunks ?c) (it_begin ?c) = Inr 0"
    using st_holds_len [OF hc] h(2) k(4)
    by (simp add: it_begin_def it_get_def st_prependChunk_def arr_get_def buf_get_def slot_get_def)
  with e hc show ?thesis by blast
qed

text \<open>
  C3. Programs of edits: whatever chunks the text is in, and whether or not other strings share the
  core when a member is called, the members leave the text that the same operations give on a plain
  list of bytes, as long as the caller keeps the conditions of \<open>program_ok\<close>: ranges in bounds, no
  text of exactly 256 bytes, no character appended to a shared string that is empty or long.
\<close>

theorem string_edits:
  assumes "st_wf c" "program_ok es (st_data c)"
  shows "\<exists>c'. st_program es c = Inr c' \<and> st_wf c' \<and> st_data c' = list_program es (st_data c)"
  using program_gives [OF assms] by (simp add: st_gives_def)

lemma string_edits_witness:
  "\<exists>c'. st_program [(False, SE_Append [Some 104, Some 105]), (True, SE_Insert 1 [Some 101, Some 121]), (True, SE_AppendChar 33),
      (False, SE_Remove 0 2), (False, SE_Prepend [Some 72]), (True, SE_Put 0 74), (False, SE_Resize 3), (True, SE_TrimBack 1), (False, SE_GetStr)] st_new = Inr c' \<and>
     st_wf c' \<and> st_data c' = [Some 74, Some 121]"
  using string_edits [of st_new "[(False, SE_Append [Some 104, Some 105]), (True, SE_Insert 1 [Some 101, Some 121]), (True, SE_AppendChar 33),
      (False, SE_Remove 0 2), (False, SE_Prepend [Some 72]), (True, SE_Put 0 74), (False, SE_Resize 3), (True, SE_TrimBack 1), (False, SE_GetStr)]"]
  by (simp add: ins_spec_def rem_spec_def resize_spec_def trimBack_spec_def)

text \<open>
  C30. \<open>operator==\<close> says whether the texts are equal, whatever chunks they are in, and strings that it
  finds equal have the same hash code, which is what a hash table needs of its keys.
\<close>

theorem string_equal_hash:
  assumes c: "st_holds c xs" and p: "st_holds p ys" and n: "length xs \<noteq> 256" "length ys \<noteq> 256"
  shows "\<exists>c' p'. st_equal False c p = Inr (xs = ys, c', p') \<and> st_holds c' xs \<and> st_holds p' ys \<and>
    (\<exists>g h c'' p''. st_calcHashCode c' = Inr (g, c'') \<and> st_calcHashCode p' = Inr (h, p'') \<and> (xs = ys \<longrightarrow> g = h))"
proof -
  obtain c' p' where e: "st_equal False c p = Inr (xs = ys, c', p')" "st_holds c' xs" "st_holds p' ys"
    using st_equal_ok [OF c p, of False] by blast
  moreover obtain c'' p'' where "st_calcHashCode c' = Inr (ucast (hash_spec xs 0), c'')" "st_calcHashCode p' = Inr (ucast (hash_spec ys 0), p'')"
    using st_calcHashCode_ok [OF e(2) n(1)] st_calcHashCode_ok [OF e(3) n(2)] by blast
  ultimately show ?thesis by fastforce
qed

lemma string_equal_hash_witness:
  "\<exists>c' p'. st_equal False (st_of [97, 98]) (st_appendChunk \<lparr>ck_nLength = 1, ck_pData = Some 98 # replicate 255 None\<rparr> (st_of [97])) = Inr (True, c', p')"
proof -
  have "st_holds (st_appendChunk \<lparr>ck_nLength = 1, ck_pData = Some 98 # replicate 255 None\<rparr> (st_of [97])) [97, 98]"
    by (simp add: st_holds_def st_wf_def st_data_def ck_text_def ck_ok_def st_of_def st_appendChunk_def)
  from string_equal_hash [OF st_of_holds(1) [of "[97, 98]"] this] show ?thesis by auto
qed

text \<open>
  \<open>operator<\<close> compares as far as its left operand reaches: it is the order of the bytes as signed
  characters, except that a proper prefix is not less than what it starts, unlike in any
  lexicographic order; so neither of \<open>"a"\<close> and \<open>"ab"\<close> is less than the other or equal to it.
\<close>

theorem string_less:
  assumes "st_holds c xs" "xs \<noteq> []" "st_holds p ys" "ys \<noteq> []" "\<not> strict_prefix ys xs"
  shows "\<exists>c' p'. st_less c p = Inr (ord_class.lexordp (map sint xs) (map sint ys) \<and> \<not> prefix xs ys, c', p') \<and>
    st_holds c' xs \<and> st_holds p' ys"
  using st_order_ok [OF assms, of "(<)" False] by (simp add: st_less_def order_spec_less [OF assms(5)])

lemma string_less_witness: "\<exists>c' p'. st_less (st_of [97]) (st_of [97, 98]) = Inr (False, c', p')"
  using string_less [of "st_of [97]" "[97]" "st_of [97, 98]" "[97, 98]"] by auto

text \<open>
  C16. \<open>split\<close> returns parts without the separator that give the text again when they are joined with
  it, up to a separator at the end, after which there is no empty part.
\<close>

theorem string_split:
  assumes "st_holds c xs" "ks_dense (st_chunks c)"
  shows "\<exists>rs ps. st_split ch c = Inr rs \<and> list_all2 st_holds rs ps \<and> (\<forall>p \<in> set ps. ch \<notin> set p) \<and>
    join_spec ch ps = (if xs \<noteq> [] \<and> last xs = ch then butlast xs else xs)"
  using st_split_ok [OF assms, of ch] split_spec_parts [of _ ch xs] split_spec_join [of ch xs] by blast

lemma string_split_witness: "\<exists>rs. st_split 44 (st_of [97, 44, 44, 98, 44]) = Inr rs"
  using string_split [of "st_of [97, 44, 44, 98, 44]" "[97, 44, 44, 98, 44]" 44] by auto



text \<open>
  C39. \<open>trimWhitespace\<close> cuts the blanks, tabs and line ends on both sides: what it returns starts and
  ends with other characters, and only white space was around it.
\<close>

theorem string_trimWhitespace:
  assumes "st_holds c xs" "ks_dense (st_chunks c)"
  shows "\<exists>r as ys bs. st_trimWhitespace c = Inr r \<and> st_holds r ys \<and> xs = as @ ys @ bs \<and>
    (\<forall>x \<in> set as \<union> set bs. st_isWS_char x) \<and> (ys = [] \<or> \<not> st_isWS_char (hd ys) \<and> \<not> st_isWS_char (last ys))"
proof -
  let ?W = st_isWS_char
  let ?d = "dropWhile ?W xs"
  obtain r where r: "st_trimWhitespace c = Inr r" "st_holds r (trim_spec xs)" using st_trimWhitespace_ok [OF assms] by blast
  have d: "?d = trim_spec xs @ trail_spec ?d" unfolding trim_spec_def trail_spec_def rev_append [symmetric] by simp
  have x: "xs = takeWhile ?W xs @ trim_spec xs @ trail_spec ?d" using d by simp
  have ws: "\<forall>x \<in> set (takeWhile ?W xs) \<union> set (trail_spec ?d). ?W x" by (auto simp: trail_spec_def dest: set_takeWhileD)
  have l: "\<not> ?W (last (trim_spec xs))" if "trim_spec xs \<noteq> []"
    using that hd_dropWhile [of ?W "rev ?d"] unfolding trim_spec_def by (simp add: last_rev)
  have h: "\<not> ?W (hd (trim_spec xs))" if "trim_spec xs \<noteq> []"
  proof -
    have "?d \<noteq> []" "hd ?d = hd (trim_spec xs)" using d that by (metis append_is_Nil_conv, metis hd_append2)
    then show ?thesis using hd_dropWhile [of ?W xs] by metis
  qed
  from r x ws l h show ?thesis by blast
qed

lemma string_trimWhitespace_witness: "\<exists>r. st_trimWhitespace (st_of [32, 97, 32, 98, 10]) = Inr r"
  using string_trimWhitespace [of "st_of [32, 97, 32, 98, 10]" "[32, 97, 32, 98, 10]"] by auto

text \<open>
  C32. \<open>getStr\<close> writes a terminator behind the text. A text of 256 bytes that two calls of \<open>append\<close>
  put into the first chunk fills that chunk, and the terminator is written outside of it.
\<close>

theorem string_getStr_overflow:
  assumes "xs \<noteq> []" "ys \<noteq> []" "length xs + length ys = 256"
  shows "\<exists>c1 c2. st_append False (map Some xs) 0 (int (length xs)) st_new = Inr c1 \<and>
    st_append False (map Some ys) 0 (int (length ys)) c1 = Inr c2 \<and> st_holds c2 (xs @ ys) \<and> st_getStr c2 = Inl Out_Of_Bounds"
proof -
  obtain c1 c2 where "st_append False (map Some xs) 0 (int (length xs)) st_new = Inr c1"
    "st_append False (map Some ys) 0 (int (length ys)) c1 = Inr c2" "st_holds c2 (xs @ ys)" "st_full c2"
    by (rule append_fills [OF assms(1,3,2)])
  moreover from this(3,4) have "st_getStr c2 = Inl Out_Of_Bounds" by (simp add: st_getStr_full st_holds_def)
  ultimately show ?thesis by blast
qed

lemma string_getStr_overflow_witness:
  "\<exists>c1 c2. st_append False (map Some (replicate 255 120)) 0 255 st_new = Inr c1 \<and> st_append False [Some 120] 0 1 c1 = Inr c2 \<and>
     st_getStr c2 = Inl Out_Of_Bounds"
  using string_getStr_overflow [of "replicate 255 120" "[120]"] by auto

lemma place_spec_first:
  "place_spec t xs [int i..int m - 1] = -1 \<and> (\<forall>k. i \<le> k \<and> k < m \<longrightarrow> \<not> prefix t (drop k xs)) \<or>
   (\<exists>k. place_spec t xs [int i..int m - 1] = int k \<and> i \<le> k \<and> k < m \<and> prefix t (drop k xs) \<and>
     (\<forall>j. i \<le> j \<and> j < k \<longrightarrow> \<not> prefix t (drop j xs)))"
proof (induction "m - i" arbitrary: i)
  case 0
  then have "[int i..int m - 1] = []" by simp
  moreover have "\<not> (i \<le> k \<and> k < m)" for k using 0 by simp
  ultimately show ?case by (intro disjI1 conjI allI impI) (simp, blast)
next
  case (Suc n)
  then have i: "i < m" and n: "n = m - Suc i" by simp_all
  have u: "[int i..int m - 1] = int i # [int (Suc i)..int m - 1]" using i by (simp add: upto_rec1 add.commute)
  show ?case
  proof (cases "prefix t (drop i xs)")
    case True
    then show ?thesis unfolding u using i by (intro disjI2 exI [of _ i]) auto
  next
    case False
    then have "place_spec t xs [int i..int m - 1] = place_spec t xs [int (Suc i)..int m - 1]" by (simp add: u)
    with Suc.hyps(1) [OF n] False show ?thesis by (metis Suc_leD Suc_leI le_neq_implies_less)
  qed
qed

lemma place_spec_last:
  "place_spec t xs (rev [0..int m - 1]) = -1 \<and> (\<forall>k. k < m \<longrightarrow> \<not> prefix t (drop k xs)) \<or>
   (\<exists>k. place_spec t xs (rev [0..int m - 1]) = int k \<and> k < m \<and> prefix t (drop k xs) \<and>
     (\<forall>j. k < j \<and> j < m \<longrightarrow> \<not> prefix t (drop j xs)))"
proof (induction m)
  case (Suc m)
  have u: "rev [0..int (Suc m) - 1] = int m # rev [0..int m - 1]" by (simp add: upto_rec2)
  show ?case
  proof (cases "prefix t (drop m xs)")
    case True
    then show ?thesis unfolding u by (intro disjI2 exI [of _ m]) auto
  next
    case False
    then have "place_spec t xs (rev [0..int (Suc m) - 1]) = place_spec t xs (rev [0..int m - 1])" unfolding u by simp
    with Suc.IH False show ?thesis by (metis less_Suc_eq)
  qed
qed simp

text \<open>
  C40. Two searches miss. \<open>findIdx\<close> and \<open>rfindIdx\<close> of a C string give the first place from the start
  on, and the last one, at which the text stands, of the places that leave at least one character
  behind the text, and -1 if there is none: the text at the very end is never found, whatever comes
  before it. And \<open>find\<close> of a string without a length accepts a place only if the text reaches to the
  end, so it finds nothing but a suffix.
\<close>

theorem string_search_misses:
  assumes t: "\<forall>x \<in> set t. x \<noteq> 0" "t \<noteq> []" and c: "st_holds c xs" "ks_dense (st_chunks c)" "xs \<noteq> []"
    and f: "st_holds f t" "ks_dense (st_chunks f)"
  shows "(\<exists>r c'. st_findIdxText (map Some t @ [Some 0]) (int i) c = Inr (r, c') \<and>
      (r = -1 \<and> (\<forall>k. i \<le> k \<and> k + length t < length xs \<longrightarrow> \<not> prefix t (drop k xs)) \<or>
       (\<exists>k. r = int k \<and> i \<le> k \<and> k + length t < length xs \<and> prefix t (drop k xs) \<and>
         (\<forall>j. i \<le> j \<and> j < k \<longrightarrow> \<not> prefix t (drop j xs))))) \<and>
    (\<exists>r c'. st_rfindIdx (map Some t @ [Some 0]) c = Inr (r, c') \<and>
      (r = -1 \<and> (\<forall>k. k + length t < length xs \<longrightarrow> \<not> prefix t (drop k xs)) \<or>
       (\<exists>k. r = int k \<and> k + length t < length xs \<and> prefix t (drop k xs) \<and>
         (\<forall>j. k < j \<and> j + length t < length xs \<longrightarrow> \<not> prefix t (drop j xs))))) \<and>
    (\<exists>it. st_findStr False f it_end c = Inr it \<and> (it_isValid it \<longleftrightarrow> suffix t xs))"
proof -
  obtain it where it: "st_findStr False f it_end c = Inr it" "it_ahead (st_chunks c) it (find_spec (\<lambda>zs. zs = t) xs)"
    using findStr_ok [OF c(1,2) ahead_end f] by auto
  have "it_isValid it \<longleftrightarrow> find_spec (\<lambda>zs. zs = t) xs \<noteq> []" by (rule ahead_step(1) [OF c(2) it(2)])
  also have "\<dots> \<longleftrightarrow> suffix t xs" using find_spec_none [of "\<lambda>zs. zs = t" xs] t(2) by blast
  finally have 3: "\<exists>it. st_findStr False f it_end c = Inr it \<and> (it_isValid it \<longleftrightarrow> suffix t xs)" using it(1) by blast
  obtain c1 c2 where s:
    "st_findIdxText (map Some t @ [Some 0]) (int i) c = Inr (place_spec t xs [int i..int (length xs) - int (length t) - 1], c1)"
    "st_rfindIdx (map Some t @ [Some 0]) c = Inr (place_spec t xs (rev [0..int (length xs) - int (length t) - 1]), c2)"
    using st_findText_ok(1) [OF c(1,3) t(1), of "int i" "[]"] st_findText_ok(2) [OF c(1,3) t(1), of "[]"] by auto
  show ?thesis
  proof (cases "length t \<le> length xs")
    case True
    then have m: "int (length xs) - int (length t) = int (length xs - length t)" and
      e: "k < length xs - length t \<longleftrightarrow> k + length t < length xs" for k by auto
    from 3 s place_spec_first [of t xs i "length xs - length t"] place_spec_last [of t xs "length xs - length t"]
    show ?thesis unfolding m e by blast
  next
    case False
    then have "[int i..int (length xs) - int (length t) - 1] = []" "[0..int (length xs) - int (length t) - 1] = []"
      "\<not> k + length t < length xs" for k by simp_all
    with 3 s show ?thesis by simp
  qed
qed

text \<open>The text "b" is missed at the end of "ab", by both searches; \<open>find\<close> does not find the "a".\<close>

lemma string_search_misses_witness:
  "(\<exists>c'. st_findIdxText [Some 98, Some 0] 0 (st_of [97, 98]) = Inr (-1, c')) \<and>
   (\<exists>c'. st_rfindIdx [Some 98, Some 0] (st_of [97, 98]) = Inr (-1, c')) \<and>
   (\<exists>c'. st_findIdxText [Some 97, Some 0] 0 (st_of [97, 98]) = Inr (0, c')) \<and>
   (\<exists>it. st_findStr False (st_of [97]) it_end (st_of [97, 98]) = Inr it \<and> \<not> it_isValid it)"
proof -
  have p: "prefix [98] (drop k [97, 98 :: byte]) \<longleftrightarrow> k = 1" "prefix [97] (drop k [97, 98 :: byte]) \<longleftrightarrow> k = 0" for k
    by (cases k; cases "k - 1"; simp)+
  from string_search_misses [of "[98]" "st_of [97, 98]" "[97, 98]" "st_of [98]" 0]
    string_search_misses [of "[97]" "st_of [97, 98]" "[97, 98]" "st_of [97]" 0]
  show ?thesis by (auto simp: p suffix_def Cons_eq_append_conv)
qed

text \<open>
  C31. \<open>trimBack\<close> does not take the core for itself before it shortens it: a copy of a string that is
  trimmed shortens the original as well.
\<close>

theorem string_trimBack_shared:
  assumes "sc_core st s = Inr (a, c, n)" "sc_shell st h = None" "st_holds c xs" "m \<le> length xs"
  shows "\<exists>st1 st2 c'. sc_step alloc str_cp st (Sc_Copy h s) = Inr st1 \<and> str_trimBack h (int m) st1 = Inr st2 \<and>
    sc_core st2 s = Inr (a, c', n + 1) \<and> st_holds c' (take (length xs - m) xs)"
  by (rule trimBack_shared [OF assms])

lemma string_trimBack_shared_witness:
  "\<exists>st1 st2 c'. sc_step st_new str_cp (sc_attach 0 (st_of [97, 98]) sc_empty) (Sc_Copy 1 0) = Inr st1 \<and> str_trimBack 1 1 st1 = Inr st2 \<and>
     sc_core st2 0 = Inr (0, c', 2) \<and> st_holds c' [97]"
  using string_trimBack_shared [of "sc_attach 0 (st_of [97, 98]) sc_empty" 0 0 "st_of [97, 98]" 1 1 "[97, 98]" 1 st_new]
  by (simp add: sc_attach_def sc_empty_def sc_core_def)

end
