(* ===== verification/Bu_Telnet.thy ===== *)
theory Bu_Telnet
  imports Bu_QueueBuf
begin

text \<open>
  \<open>Bu::ProtocolTelnet\<close> (\<open>src/stable/protocoltelnet.cpp\<close>), a server's side of a Telnet line: the state
  machine over the bytes that arrive, option negotiation, sub-negotiation, line editing and output.
  It works on a \<open>Bu::Client\<close> (\<open>client.cpp\<close>), of which it uses four members; they are the fields of
  \<open>client_ops\<close>, and the locale \<open>telnet_client\<close> states their contract. The virtual functions that a
  subclass overrides (\<open>gotLine\<close> and others) are logged as events; as in the class itself, they
  change nothing.
\<close>

section \<open>The client\<close>

record 'c client_ops =
  cl_getInputSize :: "'c \<Rightarrow> nat"
  cl_peek :: "'c \<Rightarrow> nat \<Rightarrow> byte result"
  cl_seek :: "nat \<Rightarrow> 'c \<Rightarrow> 'c result"
  cl_write :: "byte list \<Rightarrow> 'c \<Rightarrow> 'c result"

text \<open>The client of the library has two queues of bytes; \<open>peek\<close> is only called for one byte.\<close>

record client =
  cl_qbRead :: queue_buf
  cl_qbWrite :: queue_buf

definition client_new :: "nat \<Rightarrow> client" where
  "client_new bs = \<lparr>cl_qbRead = qb_new bs, cl_qbWrite = qb_new bs\<rparr>"

definition client_peek :: "client \<Rightarrow> nat \<Rightarrow> byte result" where
  "client_peek c nOffset =
     (case qb_peek (cl_qbRead c) 1 (int nOffset) of None \<Rightarrow> Inl Out_Of_Bounds
      | Some r \<Rightarrow> rbind r (\<lambda>bs. if bs = [] then Inl Out_Of_Bounds else Inr (hd bs)))"

definition client_seek :: "nat \<Rightarrow> client \<Rightarrow> client result" where
  "client_seek n c = rbind (qb_seek (cl_qbRead c) (int n)) (\<lambda>q. Inr (c\<lparr>cl_qbRead := q\<rparr>))"

definition client_write :: "byte list \<Rightarrow> client \<Rightarrow> client result" where
  "client_write bs c = rbind (qb_sink (cl_qbWrite c) bs) (\<lambda>(n, q). Inr (c\<lparr>cl_qbWrite := q\<rparr>))"

definition client_ops :: "client client_ops" where
  "client_ops = \<lparr>cl_getInputSize = (\<lambda>c. qb_getSize (cl_qbRead c)), cl_peek = client_peek,
     cl_seek = client_seek, cl_write = client_write\<rparr>"

text \<open>What \<open>processInput\<close> does with bytes it got from the socket, before it calls the protocol.\<close>

definition client_input :: "byte list \<Rightarrow> client \<Rightarrow> client result" where
  "client_input bs c = rbind (qb_sink (cl_qbRead c) bs) (\<lambda>(n, q). Inr (c\<lparr>cl_qbRead := q\<rparr>))"

section \<open>State and options\<close>

abbreviation (input) "CODE_SE \<equiv> (0xf0 :: byte)"
abbreviation (input) "CODE_SB \<equiv> (0xfa :: byte)"
abbreviation (input) "CODE_WILL \<equiv> (0xfb :: byte)"
abbreviation (input) "CODE_WONT \<equiv> (0xfc :: byte)"
abbreviation (input) "CODE_DO \<equiv> (0xfd :: byte)"
abbreviation (input) "CODE_DONT \<equiv> (0xfe :: byte)"
abbreviation (input) "CODE_IAC \<equiv> (0xff :: byte)"
abbreviation (input) "OPT_BINARY \<equiv> (0x00 :: byte)"
abbreviation (input) "OPT_ECHO \<equiv> (0x01 :: byte)"
abbreviation (input) "OPT_SUPGA \<equiv> (0x03 :: byte)"
abbreviation (input) "OPT_NAWS \<equiv> (0x1f :: byte)"

abbreviation (input) "fLocalCant \<equiv> (0x01 :: byte)"
abbreviation (input) "fLocalIs \<equiv> (0x02 :: byte)"
abbreviation (input) "fRemoteCant \<equiv> (0x04 :: byte)"
abbreviation (input) "fRemoteIs \<equiv> (0x08 :: byte)"

datatype tn_event =
    TE_Line "byte list"
  | TE_Data "byte list"
  | TE_NAWS "16 word" "16 word"
  | TE_SubUnknown byte "byte list"

text \<open>The table \<open>hOpts\<close> of the options, here with the flags \<open>fOpts\<close> of each.\<close>

record telnet =
  tn_hOpts :: "byte \<Rightarrow> byte option"
  tn_sDataBuf :: "byte list"
  tn_sSubBuf :: "byte list"
  tn_cSubOpt :: "byte option"
  tn_bCanonical :: bool
  tn_bEcho :: bool
  tn_bSubOpt :: bool
  tn_events :: "tn_event list"

definition tn_new :: telnet where
  "tn_new = \<lparr>tn_hOpts = [OPT_BINARY \<mapsto> 0, OPT_ECHO \<mapsto> 0, OPT_NAWS \<mapsto> 0, OPT_SUPGA \<mapsto> 0], tn_sDataBuf = [], tn_sSubBuf = [],
     tn_cSubOpt = None, tn_bCanonical = True, tn_bEcho = True, tn_bSubOpt = False, tn_events = []\<rparr>"

definition tn_event_log :: "tn_event \<Rightarrow> telnet \<Rightarrow> telnet" where
  "tn_event_log e t = t\<lparr>tn_events := tn_events t @ [e]\<rparr>"

definition tn_isLocalEnabled :: "byte \<Rightarrow> bool" where
  "tn_isLocalEnabled fOpts \<longleftrightarrow> fOpts AND fLocalCant = 0"

definition tn_isLocalSet :: "byte \<Rightarrow> bool" where
  "tn_isLocalSet fOpts \<longleftrightarrow> fOpts AND fLocalIs \<noteq> 0"

definition tn_isRemoteEnabled :: "byte \<Rightarrow> bool" where
  "tn_isRemoteEnabled fOpts \<longleftrightarrow> fOpts AND fRemoteCant = 0"

definition tn_isRemoteSet :: "byte \<Rightarrow> bool" where
  "tn_isRemoteSet fOpts \<longleftrightarrow> fOpts AND fRemoteIs \<noteq> 0"

text \<open>The members of an option that a program calls; the option is one of the four of the table.\<close>

definition tn_localEnable :: "byte \<Rightarrow> bool \<Rightarrow> telnet \<Rightarrow> telnet result" where
  "tn_localEnable cCode bSet t =
     (case tn_hOpts t cCode of None \<Rightarrow> Inl Out_Of_Bounds
      | Some f \<Rightarrow> if bSet = tn_isLocalEnabled f then Inr t
                  else Inr (t\<lparr>tn_hOpts := (tn_hOpts t)(cCode \<mapsto> (if bSet then f AND NOT fLocalCant else f OR fLocalCant))\<rparr>))"

definition tn_localSet :: "'c client_ops \<Rightarrow> byte \<Rightarrow> bool \<Rightarrow> telnet \<Rightarrow> 'c \<Rightarrow> 'c result" where
  "tn_localSet ops cCode bSet t c =
     (case tn_hOpts t cCode of None \<Rightarrow> Inl Out_Of_Bounds
      | Some f \<Rightarrow> if bSet = tn_isLocalSet f then Inr c
                  else cl_write ops [CODE_IAC, (if bSet then CODE_WILL else CODE_WONT), cCode] c)"

definition tn_remoteEnable :: "bool \<Rightarrow> telnet \<Rightarrow> telnet" where
  "tn_remoteEnable bSet t = t"

definition tn_remoteSet :: "'c client_ops \<Rightarrow> byte \<Rightarrow> bool \<Rightarrow> 'c \<Rightarrow> 'c result" where
  "tn_remoteSet ops cCode bSet c = cl_write ops [CODE_IAC, (if bSet then CODE_DO else CODE_DONT), cCode] c"

text \<open>The answers to the four commands of the other side.\<close>

definition tn_onWill :: "'c client_ops \<Rightarrow> byte \<Rightarrow> telnet \<Rightarrow> 'c \<Rightarrow> (telnet \<times> 'c) result" where
  "tn_onWill ops cCode t c =
     (case tn_hOpts t cCode of
        None \<Rightarrow> rbind (cl_write ops [CODE_IAC, CODE_DONT, cCode] c) (\<lambda>c'. Inr (t, c'))
      | Some f \<Rightarrow>
          if tn_isRemoteEnabled f
          then rbind (cl_write ops [CODE_IAC, CODE_DO, cCode] c) (\<lambda>c'.
                 Inr (t\<lparr>tn_hOpts := (tn_hOpts t)(cCode \<mapsto> f OR fRemoteIs)\<rparr>, c'))
          else rbind (cl_write ops [CODE_IAC, CODE_DONT, cCode] c) (\<lambda>c'. Inr (t, c')))"

definition tn_onWont :: "'c client_ops \<Rightarrow> byte \<Rightarrow> telnet \<Rightarrow> 'c \<Rightarrow> (telnet \<times> 'c) result" where
  "tn_onWont ops cCode t c =
     rbind (cl_write ops [CODE_IAC, CODE_DONT, cCode] c) (\<lambda>c'.
       case tn_hOpts t cCode of None \<Rightarrow> Inr (t, c')
       | Some f \<Rightarrow> Inr (t\<lparr>tn_hOpts := (tn_hOpts t)(cCode \<mapsto> f AND NOT fRemoteIs)\<rparr>, c'))"

definition tn_onDo :: "'c client_ops \<Rightarrow> byte \<Rightarrow> telnet \<Rightarrow> 'c \<Rightarrow> (telnet \<times> 'c) result" where
  "tn_onDo ops cCode t c =
     (case tn_hOpts t cCode of
        None \<Rightarrow> rbind (cl_write ops [CODE_IAC, CODE_WONT, cCode] c) (\<lambda>c'. Inr (t, c'))
      | Some f \<Rightarrow>
          if tn_isLocalEnabled f
          then rbind (cl_write ops [CODE_IAC, CODE_WILL, cCode] c) (\<lambda>c'.
                 Inr (t\<lparr>tn_hOpts := (tn_hOpts t)(cCode \<mapsto> f OR fLocalIs)\<rparr>, c'))
          else rbind (cl_write ops [CODE_IAC, CODE_WONT, cCode] c) (\<lambda>c'. Inr (t, c')))"

definition tn_onDont :: "'c client_ops \<Rightarrow> byte \<Rightarrow> telnet \<Rightarrow> 'c \<Rightarrow> (telnet \<times> 'c) result" where
  "tn_onDont ops cCode t c =
     rbind (cl_write ops [CODE_IAC, CODE_DONT, cCode] c) (\<lambda>c'.
       case tn_hOpts t cCode of None \<Rightarrow> Inr (t, c')
       | Some f \<Rightarrow> Inr (t\<lparr>tn_hOpts := (tn_hOpts t)(cCode \<mapsto> f AND NOT fLocalIs)\<rparr>, c'))"

section \<open>The bytes that arrive\<close>

text \<open>\<open>((char *)&x)[1] = hi; ((char *)&x)[0] = lo\<close> on a host of either byte order.\<close>

definition tn_word :: "bool \<Rightarrow> byte \<Rightarrow> byte \<Rightarrow> 16 word" where
  "tn_word be hi lo = (if be then push_bit 8 (ucast lo) OR ucast hi else push_bit 8 (ucast hi) OR ucast lo)"

definition tn_subAt :: "telnet \<Rightarrow> nat \<Rightarrow> byte result" where
  "tn_subAt t i =
     (if i < length (tn_sSubBuf t) then Inr (tn_sSubBuf t ! i) else Inl (ExceptionBase ''Index out of range.''))"

definition tn_onSubOpt :: "bool \<Rightarrow> telnet \<Rightarrow> telnet result" where
  "tn_onSubOpt be t =
     (case tn_cSubOpt t of None \<Rightarrow> Inl Out_Of_Bounds
      | Some opt \<Rightarrow>
          rbind (if opt = OPT_NAWS
                 then rbind (tn_subAt t 0) (\<lambda>a. rbind (tn_subAt t 1) (\<lambda>b. rbind (tn_subAt t 2) (\<lambda>c. rbind (tn_subAt t 3) (\<lambda>d.
                        Inr (tn_event_log (TE_NAWS (tn_word be a b) (tn_word be c d)) t)))))
                 else Inr (tn_event_log (TE_SubUnknown opt (tn_sSubBuf t)) t)) (\<lambda>t'.
            Inr (t'\<lparr>tn_sSubBuf := []\<rparr>)))"

definition tn_onCtlChar :: "'c client_ops \<Rightarrow> byte \<Rightarrow> telnet \<Rightarrow> 'c \<Rightarrow> (telnet \<times> 'c) result" where
  "tn_onCtlChar ops cChr t c =
     (if cChr = 0x7f \<and> tn_sDataBuf t \<noteq> []
      then rbind (cl_write ops [0x08, 0x20, 0x08] c) (\<lambda>c'. Inr (t\<lparr>tn_sDataBuf := butlast (tn_sDataBuf t)\<rparr>, c'))
      else Inr (t, c))"

text \<open>One round of the loop of \<open>onNewData\<close>; the flag is false when the function returns.\<close>

definition tn_again :: "'c client_ops \<Rightarrow> telnet \<Rightarrow> 'c \<Rightarrow> (bool \<times> telnet \<times> 'c) result" where
  "tn_again ops t c = rbind (cl_seek ops 1 c) (\<lambda>c'. Inr (True, t, c'))"

definition tn_sub_round :: "'c client_ops \<Rightarrow> bool \<Rightarrow> nat \<Rightarrow> byte \<Rightarrow> telnet \<Rightarrow> 'c \<Rightarrow> (bool \<times> telnet \<times> 'c) result" where
  "tn_sub_round ops be iLeft bc t c =
     (if bc = CODE_IAC
      then if iLeft \<le> 1 then Inr (False, t, c)
           else rbind (cl_peek ops c 1) (\<lambda>bc2.
                rbind (if bc2 = CODE_SE then tn_onSubOpt be (t\<lparr>tn_bSubOpt := False\<rparr>)
                       else if bc2 = CODE_IAC then Inr (t\<lparr>tn_sSubBuf := tn_sSubBuf t @ [CODE_IAC]\<rparr>)
                       else Inr t) (\<lambda>t'.
                rbind (cl_seek ops 1 c) (\<lambda>c1. tn_again ops t' c1)))
      else tn_again ops (t\<lparr>tn_sSubBuf := tn_sSubBuf t @ [bc]\<rparr>) c)"

definition tn_option :: "'c client_ops \<Rightarrow> byte \<Rightarrow> byte \<Rightarrow> telnet \<Rightarrow> 'c \<Rightarrow> (telnet \<times> 'c) result" where
  "tn_option ops bc2 bc3 t c =
     (if bc2 = CODE_WILL then tn_onWill ops bc3 t c
      else if bc2 = CODE_WONT then tn_onWont ops bc3 t c
      else if bc2 = CODE_DO then tn_onDo ops bc3 t c
      else tn_onDont ops bc3 t c)"

definition tn_iac_round :: "'c client_ops \<Rightarrow> nat \<Rightarrow> telnet \<Rightarrow> 'c \<Rightarrow> (bool \<times> telnet \<times> 'c) result" where
  "tn_iac_round ops iLeft t c =
     (if iLeft \<le> 1 then Inr (False, t, c)
      else rbind (cl_peek ops c 1) (\<lambda>bc2.
        if bc2 = CODE_WILL \<or> bc2 = CODE_WONT \<or> bc2 = CODE_DO \<or> bc2 = CODE_DONT
        then if iLeft \<le> 2 then Inr (False, t, c)
             else rbind (cl_peek ops c 2) (\<lambda>bc3. rbind (cl_seek ops 1 c) (\<lambda>c1.
                  rbind (tn_option ops bc2 bc3 t c1) (\<lambda>tc. rbind (cl_seek ops 1 (snd tc)) (\<lambda>c3. tn_again ops (fst tc) c3))))
        else if bc2 = CODE_SB
        then if iLeft \<le> 2 then Inr (False, t, c)
             else rbind (cl_peek ops c 2) (\<lambda>bc3. rbind (cl_seek ops 1 c) (\<lambda>c1. rbind (cl_seek ops 1 c1) (\<lambda>c2.
                  tn_again ops (t\<lparr>tn_cSubOpt := Some bc3, tn_bSubOpt := True\<rparr>) c2)))
        else rbind (cl_seek ops 1 c) (\<lambda>c1.
               tn_again ops (if bc2 = CODE_IAC then t\<lparr>tn_sDataBuf := tn_sDataBuf t @ [CODE_IAC]\<rparr> else t) c1)))"

text \<open>A character that is kept, and written back if the line echoes.\<close>

definition tn_keep :: "'c client_ops \<Rightarrow> byte \<Rightarrow> telnet \<Rightarrow> 'c \<Rightarrow> (bool \<times> telnet \<times> 'c) result" where
  "tn_keep ops bc t c =
     (let t' = t\<lparr>tn_sDataBuf := tn_sDataBuf t @ [bc]\<rparr>
      in if (case tn_hOpts t OPT_ECHO of None \<Rightarrow> False | Some f \<Rightarrow> tn_isLocalSet f) \<and> tn_bEcho t
         then rbind (cl_write ops [bc] c) (\<lambda>c'. tn_again ops t' c')
         else tn_again ops t' c)"

definition tn_char_round :: "'c client_ops \<Rightarrow> nat \<Rightarrow> byte \<Rightarrow> telnet \<Rightarrow> 'c \<Rightarrow> (bool \<times> telnet \<times> 'c) result" where
  "tn_char_round ops iLeft bc t c =
     (if \<not> tn_bCanonical t then tn_keep ops bc t c
      else if sint bc < 0x20 \<or> sint bc \<ge> 0x7f
      then if bc = 0x0d
           then if iLeft \<le> 1 then Inr (False, t, c)
                else rbind (cl_peek ops c 1) (\<lambda>bc2.
                     rbind (if bc2 = 0 \<or> bc2 = 0x0a
                            then rbind (tn_onCtlChar ops bc t c) (\<lambda>tc.
                                   Inr ((tn_event_log (TE_Line (tn_sDataBuf (fst tc))) (fst tc))\<lparr>tn_sDataBuf := []\<rparr>, snd tc))
                            else Inr (t, c)) (\<lambda>tc.
                     rbind (cl_seek ops 1 (snd tc)) (\<lambda>c1. tn_again ops (fst tc) c1)))
           else rbind (tn_onCtlChar ops bc t c) (\<lambda>tc. tn_again ops (fst tc) (snd tc))
      else tn_keep ops bc t c)"

definition tn_round :: "'c client_ops \<Rightarrow> bool \<Rightarrow> telnet \<Rightarrow> 'c \<Rightarrow> (bool \<times> telnet \<times> 'c) result" where
  "tn_round ops be t c =
     (let iLeft = cl_getInputSize ops c
      in rbind (cl_peek ops c 0) (\<lambda>bc.
           if tn_bSubOpt t then tn_sub_round ops be iLeft bc t c
           else if bc = CODE_IAC then tn_iac_round ops iLeft t c
           else if bc = CODE_SB then tn_again ops t c
           else tn_char_round ops iLeft bc t c))"

partial_function (option) tn_onNewData :: "'c client_ops \<Rightarrow> bool \<Rightarrow> telnet \<Rightarrow> 'c \<Rightarrow> (telnet \<times> 'c) result option" where
  "tn_onNewData ops be t c =
     (if cl_getInputSize ops c = 0
      then Some (Inr (if tn_bCanonical t then t else tn_event_log (TE_Data (tn_sDataBuf t)) t, c))
      else obind (Some (tn_round ops be t c)) (\<lambda>r.
        if fst r then tn_onNewData ops be (fst (snd r)) (snd (snd r)) else Some (Inr (snd r))))"

section \<open>Output\<close>

function tn_write_loop :: "'c client_ops \<Rightarrow> byte list \<Rightarrow> nat \<Rightarrow> nat \<Rightarrow> 'c \<Rightarrow> 'c result" where
  "tn_write_loop ops pData iLast j c =
     (if length pData \<le> j
      then (if iLast < j then cl_write ops (drop iLast pData) c else Inr c)
      else if pData ! j = 0x0a
      then if length pData \<le> j + 1 \<or> pData ! (j + 1) \<noteq> 0x0d \<and> pData ! (j + 1) \<noteq> 0
           then rbind (cl_write ops (take (j - iLast) (drop iLast pData)) c) (\<lambda>c1.
                rbind (cl_write ops [0x0a, 0x0d] c1) (\<lambda>c2. tn_write_loop ops pData (j + 1) (j + 1) c2))
           else tn_write_loop ops pData iLast (j + 2) c
      else tn_write_loop ops pData iLast (j + 1) c)"
  by pat_completeness auto
termination by (relation "measure (\<lambda>(ops, pData, iLast, j, c). length pData - j)") auto

declare tn_write_loop.simps [simp del]

definition tn_write :: "'c client_ops \<Rightarrow> byte list \<Rightarrow> 'c \<Rightarrow> 'c result" where
  "tn_write ops pData c = tn_write_loop ops pData 0 0 c"

definition tn_setCanonical :: "bool \<Rightarrow> telnet \<Rightarrow> telnet" where
  "tn_setCanonical bCon t = t\<lparr>tn_bCanonical := bCon\<rparr>"

definition tn_setEcho :: "bool \<Rightarrow> telnet \<Rightarrow> telnet" where
  "tn_setEcho bOpt t = t\<lparr>tn_bEcho := bOpt\<rparr>"

end
