(* ===== verification/Bu_TelnetStep.thy ===== *)
theory Bu_TelnetStep
  imports Bu_Telnet
begin

text \<open>
  The line over any client that keeps the contract is the line over a pair of lists, what is there to
  read and what was written. On lists, a round of the loop only looks at bytes it has, so it does not
  matter how the bytes arrive.
\<close>

section \<open>The contract of a client\<close>

definition list_client :: "(byte list \<times> byte list) client_ops" where
  "list_client = \<lparr>cl_getInputSize = (\<lambda>(i, out). length i),
     cl_peek = (\<lambda>(i, out) n. if n < length i then Inr (i ! n) else Inl Out_Of_Bounds),
     cl_seek = (\<lambda>n (i, out). Inr (drop n i, out)), cl_write = (\<lambda>bs (i, out). Inr (i, out @ bs))\<rparr>"

lemma list_client_simps [simp]:
  "cl_getInputSize list_client (i, out) = length i"
  "cl_peek list_client (i, out) n = (if n < length i then Inr (i ! n) else Inl Out_Of_Bounds)"
  "cl_seek list_client n (i, out) = Inr (drop n i, out)"
  "cl_write list_client bs (i, out) = Inr (i, out @ bs)"
  by (simp_all add: list_client_def)

lemma rbind_rel:
  "rel_sum (=) R m m' \<Longrightarrow> (\<And>x y. R x y \<Longrightarrow> rel_sum (=) S (f x) (g y)) \<Longrightarrow> rel_sum (=) S (rbind m f) (rbind m' g)"
  by (cases m; cases m') auto

locale telnet_client =
  fixes ops :: "'c client_ops" and inp outp :: "'c \<Rightarrow> byte list" and good :: "'c \<Rightarrow> bool"
  assumes size_law: "good c \<Longrightarrow> cl_getInputSize ops c = length (inp c)"
    and peek_law: "good c \<Longrightarrow> i < length (inp c) \<Longrightarrow> cl_peek ops c i = Inr (inp c ! i)"
    and seek_law: "good c \<Longrightarrow> \<exists>c'. cl_seek ops n c = Inr c' \<and> good c' \<and> inp c' = drop n (inp c) \<and> outp c' = outp c"
    and write_law: "good c \<Longrightarrow> \<exists>c'. cl_write ops bs c = Inr c' \<and> good c' \<and> inp c' = inp c \<and> outp c' = outp c @ bs"

definition client_as :: "('c \<Rightarrow> byte list) \<Rightarrow> ('c \<Rightarrow> byte list) \<Rightarrow> ('c \<Rightarrow> bool) \<Rightarrow> 'c \<Rightarrow> byte list \<times> byte list \<Rightarrow> bool" where
  "client_as inp outp good c l \<longleftrightarrow> good c \<and> l = (inp c, outp c)"

section \<open>On lists\<close>

text \<open>What a handler does does not depend on what there is to read, nor on what was written.\<close>

definition tn_acts :: "telnet \<Rightarrow> (byte list \<times> byte list \<Rightarrow> (telnet \<times> byte list \<times> byte list) result) \<Rightarrow> bool" where
  "tn_acts t f \<longleftrightarrow> (\<exists>t' w. tn_bCanonical t' = tn_bCanonical t \<and> (\<forall>i out. f (i, out) = Inr (t', i, out @ w)))"

lemma tn_actsI: "(\<And>i out. f (i, out) = Inr (t', i, out @ w)) \<Longrightarrow> tn_bCanonical t' = tn_bCanonical t \<Longrightarrow> tn_acts t f"
  by (auto simp: tn_acts_def)

lemma acts_write: "tn_acts t (\<lambda>l. rbind (cl_write list_client bs l) (\<lambda>c'. Inr (t, c')))"
  by (rule tn_actsI [where t' = t and w = bs]) auto

lemma acts_will: "tn_acts t (tn_onWill list_client b t)"
  by (cases "tn_hOpts t b"; cases "tn_isRemoteEnabled (the (tn_hOpts t b))") (auto simp: tn_acts_def tn_onWill_def)

lemma acts_wont: "tn_acts t (tn_onWont list_client b t)"
  by (cases "tn_hOpts t b") (auto simp: tn_acts_def tn_onWont_def)

lemma acts_do: "tn_acts t (tn_onDo list_client b t)"
  by (cases "tn_hOpts t b"; cases "tn_isLocalEnabled (the (tn_hOpts t b))") (auto simp: tn_acts_def tn_onDo_def)

lemma acts_dont: "tn_acts t (tn_onDont list_client b t)"
  by (cases "tn_hOpts t b") (auto simp: tn_acts_def tn_onDont_def)

lemma acts_option: "tn_acts t (tn_option list_client b2 b3 t)"
proof -
  have "tn_option list_client b2 b3 t = (if b2 = CODE_WILL then tn_onWill list_client b3 t else if b2 = CODE_WONT then tn_onWont list_client b3 t
      else if b2 = CODE_DO then tn_onDo list_client b3 t else tn_onDont list_client b3 t)"
    by (rule ext) (simp add: tn_option_def)
  then show ?thesis by (simp add: acts_will acts_wont acts_do acts_dont)
qed

lemma acts_ctl: "tn_acts t (tn_onCtlChar list_client b t)"
  by (cases "b = 0x7f \<and> tn_sDataBuf t \<noteq> []")
    (auto simp: tn_onCtlChar_def intro: tn_actsI [where w = "[0x08, 0x20, 0x08]"] tn_actsI [where w = "[]"])

text \<open>A round fails, waits for more, or takes a number of bytes, whatever comes behind them.\<close>

definition tn_decided :: "(byte list \<Rightarrow> (bool \<times> telnet \<times> byte list \<times> byte list) result) \<Rightarrow> telnet \<Rightarrow> byte list \<Rightarrow> byte list \<Rightarrow> bool" where
  "tn_decided f t xs out \<longleftrightarrow>
     (\<exists>e. \<forall>ys. f ys = Inl e) \<or> f [] = Inr (False, t, xs, out) \<or>
     (\<exists>k t' w. 0 < k \<and> k \<le> length xs \<and> tn_bCanonical t' = tn_bCanonical t \<and> (\<forall>ys. f ys = Inr (True, t', drop k xs @ ys, out @ w)))"

lemma decided_err: "(\<And>ys. f ys = Inl e) \<Longrightarrow> tn_decided f t xs out"
  by (auto simp: tn_decided_def)

lemma decided_wait: "f [] = Inr (False, t, xs, out) \<Longrightarrow> tn_decided f t xs out"
  by (simp add: tn_decided_def)

lemma decided_go:
  "(\<And>ys. f ys = Inr (True, t', drop k xs @ ys, out @ w)) \<Longrightarrow> 0 < k \<Longrightarrow> k \<le> length xs \<Longrightarrow> tn_bCanonical t' = tn_bCanonical t \<Longrightarrow>
   tn_decided f t xs out"
  unfolding tn_decided_def by blast

lemma keep_decided:
  assumes "xs \<noteq> []"
  shows "tn_decided (\<lambda>ys. tn_keep list_client b t (xs @ ys, out)) t xs out"
proof (cases "(case tn_hOpts t OPT_ECHO of None \<Rightarrow> False | Some f \<Rightarrow> tn_isLocalSet f) \<and> tn_bEcho t")
  case True
  show ?thesis
    by (rule decided_go [where k = 1 and w = "[b]" and t' = "t\<lparr>tn_sDataBuf := tn_sDataBuf t @ [b]\<rparr>"])
      (use True assms in \<open>cases xs; simp add: tn_keep_def tn_again_def\<close>)+
next
  case False
  then have k: "tn_keep list_client b t (xs @ ys, out) = Inr (True, t\<lparr>tn_sDataBuf := tn_sDataBuf t @ [b]\<rparr>, drop 1 xs @ ys, out @ [])" for ys
    using assms by (cases xs) (auto simp: tn_keep_def tn_again_def Let_def)
  show ?thesis by (rule decided_go [OF k]) (use assms in \<open>cases xs; simp\<close>)+
qed

lemma sub_decided:
  assumes xs: "xs = bc # zs"
  shows "tn_decided (\<lambda>ys. tn_sub_round list_client be (length (xs @ ys)) bc t (xs @ ys, out)) t xs out"
proof (cases "bc = CODE_IAC")
  case False
  show ?thesis
    by (rule decided_go [where k = 1 and w = "[]" and t' = "t\<lparr>tn_sSubBuf := tn_sSubBuf t @ [bc]\<rparr>"])
      (use False xs in \<open>simp_all add: tn_sub_round_def tn_again_def\<close>)
next
  case True
  show ?thesis
  proof (cases zs)
    case Nil
    with True xs show ?thesis by (intro decided_wait) (simp add: tn_sub_round_def)
  next
    case (Cons b zs')
    let ?m = "if b = CODE_SE then tn_onSubOpt be (t\<lparr>tn_bSubOpt := False\<rparr>)
       else if b = CODE_IAC then Inr (t\<lparr>tn_sSubBuf := tn_sSubBuf t @ [CODE_IAC]\<rparr>) else Inr t"
    have e: "tn_sub_round list_client be (length (xs @ ys)) bc t (xs @ ys, out) = rbind ?m (\<lambda>t'. Inr (True, t', zs' @ ys, out))" for ys
      using True xs Cons by (simp add: tn_sub_round_def tn_again_def numeral_2_eq_2)
    show ?thesis
    proof (cases ?m)
      case (Inl er)
      show ?thesis by (rule decided_err [where e = er]) (simp only: e Inl rbind_Inl)
    next
      case (Inr t')
      then have "tn_bCanonical t' = tn_bCanonical t"
        by (auto simp: tn_onSubOpt_def rbind_eq_Inr tn_event_log_def split: if_splits option.splits)
      then show ?thesis
        by (intro decided_go [where k = 2 and w = "[]" and t' = t']) (simp_all only: e Inr rbind_Inr, simp_all add: xs Cons)
    qed
  qed
qed

lemma iac_decided:
  assumes xs: "xs = CODE_IAC # zs"
  shows "tn_decided (\<lambda>ys. tn_iac_round list_client (length (xs @ ys)) t (xs @ ys, out)) t xs out"
proof (cases zs)
  case Nil
  with xs show ?thesis by (intro decided_wait) (simp add: tn_iac_round_def)
next
  case (Cons b zs')
  note l = xs Cons
  consider "b = CODE_WILL \<or> b = CODE_WONT \<or> b = CODE_DO \<or> b = CODE_DONT" | "b = CODE_SB" |
    "\<not> (b = CODE_WILL \<or> b = CODE_WONT \<or> b = CODE_DO \<or> b = CODE_DONT) \<and> b \<noteq> CODE_SB" by blast
  then show ?thesis
  proof cases
    case 1
    show ?thesis
    proof (cases zs')
      case Nil
      with 1 l show ?thesis by (intro decided_wait) (simp add: tn_iac_round_def)
    next
      case C: (Cons o' r)
      obtain t' w where w: "tn_bCanonical t' = tn_bCanonical t" "\<And>i out. tn_option list_client b o' t (i, out) = Inr (t', i, out @ w)"
        using acts_option [of t b o'] by (auto simp: tn_acts_def)
      have "tn_iac_round list_client (length (xs @ ys)) t (xs @ ys, out) = Inr (True, t', drop 3 xs @ ys, out @ w)" for ys
        using 1 l C by (simp add: tn_iac_round_def tn_again_def w(2))
      then show ?thesis by (rule decided_go) (use l C w(1) in simp_all)
    qed
  next
    case 2
    show ?thesis
    proof (cases zs')
      case Nil
      with 2 l show ?thesis by (intro decided_wait) (simp add: tn_iac_round_def)
    next
      case C: (Cons o' r)
      have "tn_iac_round list_client (length (xs @ ys)) t (xs @ ys, out) =
          Inr (True, t\<lparr>tn_cSubOpt := Some o', tn_bSubOpt := True\<rparr>, drop 3 xs @ ys, out @ [])" for ys
        using 2 l C by (simp add: tn_iac_round_def tn_again_def)
      then show ?thesis by (rule decided_go) (use l C in simp_all)
    qed
  next
    case 3
    have "tn_iac_round list_client (length (xs @ ys)) t (xs @ ys, out) =
        Inr (True, if b = CODE_IAC then t\<lparr>tn_sDataBuf := tn_sDataBuf t @ [CODE_IAC]\<rparr> else t, drop 2 xs @ ys, out @ [])" for ys
      using 3 l by (simp add: tn_iac_round_def tn_again_def)
    then show ?thesis by (rule decided_go) (use l in simp_all)
  qed
qed

lemma char_decided:
  assumes xs: "xs = bc # zs"
  shows "tn_decided (\<lambda>ys. tn_char_round list_client (length (xs @ ys)) bc t (xs @ ys, out)) t xs out"
proof -
  have ne: "xs \<noteq> []" using xs by simp
  consider "\<not> tn_bCanonical t \<or> \<not> (sint bc < 0x20 \<or> sint bc \<ge> 0x7f)" |
    "tn_bCanonical t" "sint bc < 0x20 \<or> sint bc \<ge> 0x7f" "bc = 0x0d" | "tn_bCanonical t" "sint bc < 0x20 \<or> sint bc \<ge> 0x7f" "bc \<noteq> 0x0d"
    by blast
  then show ?thesis
  proof cases
    case 1
    then have "tn_char_round list_client n bc t l = tn_keep list_client bc t l" for n l by (auto simp: tn_char_round_def)
    with keep_decided [OF ne, of bc t out] show ?thesis by simp
  next
    case 3
    obtain t' w where w: "tn_bCanonical t' = tn_bCanonical t" "\<And>i out. tn_onCtlChar list_client bc t (i, out) = Inr (t', i, out @ w)"
      using acts_ctl [of t bc] by (auto simp: tn_acts_def)
    have "tn_char_round list_client (length (xs @ ys)) bc t (xs @ ys, out) = Inr (True, t', drop 1 xs @ ys, out @ w)" for ys
      using 3 xs by (simp add: tn_char_round_def tn_again_def w(2))
    then show ?thesis by (rule decided_go) (use xs w(1) in simp_all)
  next
    case 2
    show ?thesis
    proof (cases zs)
      case Nil
      with 2 xs show ?thesis by (intro decided_wait) (simp add: tn_char_round_def)
    next
      case (Cons b r)
      obtain t' w where w: "tn_bCanonical t' = tn_bCanonical t" "\<And>i out. tn_onCtlChar list_client bc t (i, out) = Inr (t', i, out @ w)"
        using acts_ctl [of t bc] by (auto simp: tn_acts_def)
      show ?thesis
      proof (cases "b = 0 \<or> b = 0x0a")
        case True
        have "tn_char_round list_client (length (xs @ ys)) bc t (xs @ ys, out) =
            Inr (True, (tn_event_log (TE_Line (tn_sDataBuf t')) t')\<lparr>tn_sDataBuf := []\<rparr>, drop 2 xs @ ys, out @ w)" for ys
          using 2 xs Cons True w(2) [of "xs @ ys" out] by (simp add: tn_char_round_def tn_again_def)
        then show ?thesis by (rule decided_go) (use xs Cons w(1) in \<open>simp_all add: tn_event_log_def\<close>)
      next
        case False
        have "tn_char_round list_client (length (xs @ ys)) bc t (xs @ ys, out) = Inr (True, t, drop 2 xs @ ys, out @ [])" for ys
          using 2 xs Cons False by (simp add: tn_char_round_def tn_again_def)
        then show ?thesis by (rule decided_go) (use xs Cons in simp_all)
      qed
    qed
  qed
qed

lemma round_decided:
  assumes "xs \<noteq> []"
  shows "tn_decided (\<lambda>ys. tn_round list_client be t (xs @ ys, out)) t xs out"
proof -
  obtain bc zs where xs: "xs = bc # zs" using assms by (cases xs) auto
  have r: "tn_round list_client be t (xs @ ys, out) =
      (if tn_bSubOpt t then tn_sub_round list_client be (length (xs @ ys)) bc t (xs @ ys, out)
       else if bc = CODE_IAC then tn_iac_round list_client (length (xs @ ys)) t (xs @ ys, out)
       else if bc = CODE_SB then tn_again list_client t (xs @ ys, out)
       else tn_char_round list_client (length (xs @ ys)) bc t (xs @ ys, out))" for ys
    by (simp add: tn_round_def xs)
  consider "tn_bSubOpt t" | "\<not> tn_bSubOpt t" "bc = CODE_IAC" | "\<not> tn_bSubOpt t" "bc = CODE_SB" | "\<not> tn_bSubOpt t" "bc \<noteq> CODE_IAC" "bc \<noteq> CODE_SB"
    by blast
  then show ?thesis
  proof cases
    case 1
    with sub_decided [OF xs, of be t out] show ?thesis by (simp only: r if_True)
  next
    case 2
    have "tn_decided (\<lambda>ys. tn_iac_round list_client (length (xs @ ys)) t (xs @ ys, out)) t xs out"
      by (rule iac_decided) (use xs 2 in simp)
    with 2 show ?thesis by (simp only: r if_True if_False simp_thms)
  next
    case 3
    have "tn_round list_client be t (xs @ ys, out) = Inr (True, t, drop 1 xs @ ys, out @ [])" for ys
      using 3 by (simp add: r) (simp add: tn_again_def xs)
    then show ?thesis by (rule decided_go) (simp_all add: xs)
  next
    case 4
    with char_decided [OF xs, of t out] show ?thesis by (simp only: r if_False)
  qed
qed

lemma round_cases:
  assumes "xs \<noteq> []"
  obtains (err) e where "\<And>ys. tn_round list_client be t (xs @ ys, out) = Inl e"
    | (wait) "tn_round list_client be t (xs, out) = Inr (False, t, xs, out)"
    | (go) k t' w where "0 < k" "k \<le> length xs" "tn_bCanonical t' = tn_bCanonical t"
      "\<And>ys. tn_round list_client be t (xs @ ys, out) = Inr (True, t', drop k xs @ ys, out @ w)"
  using round_decided [OF assms, of be t out] unfolding tn_decided_def by auto

section \<open>The loop on lists\<close>

lemma newData_Nil:
  "tn_onNewData list_client be t ([], out) =
     Some (Inr (if tn_bCanonical t then t else tn_event_log (TE_Data (tn_sDataBuf t)) t, [], out))"
  by (simp add: tn_onNewData.simps [of list_client be t])

lemma newData_err: "tn_round list_client be t (x # xs, out) = Inl e \<Longrightarrow> tn_onNewData list_client be t (x # xs, out) = Some (Inl e)"
  by (subst tn_onNewData.simps) simp

lemma newData_wait:
  "tn_round list_client be t (x # xs, out) = Inr (False, t', l) \<Longrightarrow> tn_onNewData list_client be t (x # xs, out) = Some (Inr (t', l))"
  by (subst tn_onNewData.simps) simp

lemma newData_go:
  "tn_round list_client be t (x # xs, out) = Inr (True, t', l) \<Longrightarrow> tn_onNewData list_client be t (x # xs, out) = tn_onNewData list_client be t' l"
  by (subst tn_onNewData.simps) simp

lemma newData_returns: "\<exists>r. tn_onNewData list_client be t (xs, out) = Some r"
proof (induction "length xs" arbitrary: xs t out rule: less_induct)
  case less
  show ?case
  proof (cases xs)
    case Nil
    then show ?thesis by (simp add: newData_Nil)
  next
    case (Cons x zs)
    then have ne: "xs \<noteq> []" by simp
    show ?thesis
    proof (rule round_cases [OF ne, of be t out], goal_cases)
      case err: (1 e)
      with err [of "[]"] Cons show ?thesis by (simp add: newData_err)
    next
      case wait: 2
      with Cons show ?thesis by (simp add: newData_wait)
    next
      case go: (3 k t' w)
      with go(4) [of "[]"] Cons less [of "drop k xs" t' "out @ w"] show ?thesis by (simp add: newData_go)
    qed
  qed
qed

text \<open>More bytes behind: what the loop leaves is what it takes up again.\<close>

lemma newData_append:
  assumes "tn_bCanonical t"
  shows "tn_onNewData list_client be t (xs @ ys, out) =
    obind (tn_onNewData list_client be t (xs, out)) (\<lambda>r. tn_onNewData list_client be (fst r) (fst (snd r) @ ys, snd (snd r)))"
  using assms
proof (induction "length xs" arbitrary: xs t out rule: less_induct)
  case less
  show ?case
  proof (cases xs)
    case Nil
    with less.prems show ?thesis by (simp add: newData_Nil)
  next
    case (Cons x zs)
    then have ne: "xs \<noteq> []" by simp
    show ?thesis
    proof (rule round_cases [OF ne, of be t out], goal_cases)
      case err: (1 e)
      with err [of "[]"] err [of ys] Cons show ?thesis by (simp add: newData_err)
    next
      case wait: 2
      with Cons show ?thesis by (simp add: newData_wait)
    next
      case go: (3 k t' w)
      with go(4) [of "[]"] go(4) [of ys] Cons less.prems less.hyps [of "drop k xs" t' "out @ w"] show ?thesis by (simp add: newData_go)
    qed
  qed
qed

lemma newData_canonical:
  "tn_onNewData list_client be t (xs, out) = Some (Inr (t', l)) \<Longrightarrow> tn_bCanonical t' = tn_bCanonical t"
proof (induction "length xs" arbitrary: xs t out rule: less_induct)
  case less
  show ?case
  proof (cases xs)
    case Nil
    with less.prems show ?thesis by (auto simp: newData_Nil tn_event_log_def split: if_splits)
  next
    case (Cons x zs)
    then have ne: "xs \<noteq> []" by simp
    show ?thesis
    proof (rule round_cases [OF ne, of be t out], goal_cases)
      case err: (1 e)
      with err [of "[]"] Cons less.prems show ?thesis by (simp add: newData_err)
    next
      case wait: 2
      with Cons less.prems show ?thesis by (simp add: newData_wait)
    next
      case go: (3 k s w)
      with go(4) [of "[]"] Cons less.prems less.hyps [of "drop k xs" s "out @ w"] show ?thesis by (simp add: newData_go)
    qed
  qed
qed

end
