(* ===== verification/Bu_TelnetLine.thy ===== *)
theory Bu_TelnetLine
  imports Bu_TelnetStep
begin

text \<open>
  The line over a client of the library, whatever chunks the bytes arrive in; lines of text with
  their editing; output; and two peers that answer each other for ever.
\<close>

section \<open>Any client does what the lists do\<close>

definition pair_as :: "('c \<Rightarrow> 'l \<Rightarrow> bool) \<Rightarrow> 'a \<times> 'c \<Rightarrow> 'a \<times> 'l \<Rightarrow> bool" where
  "pair_as A = rel_prod (=) A"

lemma pair_as_simp [simp]: "pair_as A (x, c) (y, l) \<longleftrightarrow> x = y \<and> A c l"
  by (simp add: pair_as_def)

context telnet_client
begin

abbreviation "A \<equiv> client_as inp outp good"

lemma sim_seek: "A c l \<Longrightarrow> rel_sum (=) A (cl_seek ops n c) (cl_seek list_client n l)"
  using seek_law [of c n] by (cases l) (auto simp: client_as_def)

lemma sim_write: "A c l \<Longrightarrow> rel_sum (=) A (cl_write ops bs c) (cl_write list_client bs l)"
  using write_law [of c bs] by (cases l) (auto simp: client_as_def)

lemma sim_size: "A c (xs, out) \<Longrightarrow> cl_getInputSize ops c = length xs"
  using size_law [of c] by (simp add: client_as_def)

lemma sim_peek: "A c (xs, out) \<Longrightarrow> i < length xs \<Longrightarrow> cl_peek ops c i = Inr (xs ! i)"
  using peek_law [of c i] by (simp add: client_as_def)

lemma sim_then:
  "rel_sum (=) A m m' \<Longrightarrow> rel_sum (=) (pair_as A) (rbind m (\<lambda>c. Inr (t, c))) (rbind m' (\<lambda>c. Inr (t, c)))"
  by (rule rbind_rel) simp_all

lemma sim_again: "A c l \<Longrightarrow> rel_sum (=) (pair_as (pair_as A)) (tn_again ops t c) (tn_again list_client t l)"
  unfolding tn_again_def by (rule rbind_rel [OF sim_seek]) simp_all

lemma sim_option: "A c l \<Longrightarrow> rel_sum (=) (pair_as A) (tn_option ops b2 b3 t c) (tn_option list_client b2 b3 t l)"
  by (auto simp: tn_option_def tn_onWill_def tn_onWont_def tn_onDo_def tn_onDont_def intro!: rbind_rel [OF sim_write] split: option.split)

lemma sim_ctl: "A c l \<Longrightarrow> rel_sum (=) (pair_as A) (tn_onCtlChar ops b t c) (tn_onCtlChar list_client b t l)"
  by (auto simp: tn_onCtlChar_def intro!: rbind_rel [OF sim_write])

lemma sim_keep: "A c l \<Longrightarrow> rel_sum (=) (pair_as (pair_as A)) (tn_keep ops b t c) (tn_keep list_client b t l)"
  by (auto simp: tn_keep_def Let_def intro!: rbind_rel [OF sim_write] sim_again)

lemma sim_sub:
  assumes a: "A c (xs, out)"
  shows "rel_sum (=) (pair_as (pair_as A)) (tn_sub_round ops be (length xs) bc t c) (tn_sub_round list_client be (length xs) bc t (xs, out))"
proof (cases "bc = CODE_IAC \<and> 1 < length xs")
  case True
  then have p: "cl_peek ops c 1 = Inr (xs ! 1)" using sim_peek [OF a, of 1] by simp
  have p': "cl_peek list_client (xs, out) 1 = Inr (xs ! 1)" using True by simp
  have eq: "rel_sum (=) (=) m m" for m :: "telnet result" by (cases m) auto
  let ?m = "if xs ! 1 = CODE_SE then tn_onSubOpt be (t\<lparr>tn_bSubOpt := False\<rparr>)
    else if xs ! 1 = CODE_IAC then Inr (t\<lparr>tn_sSubBuf := tn_sSubBuf t @ [CODE_IAC]\<rparr>) else Inr t"
  have o: "tn_sub_round ops be (length xs) bc t c = rbind ?m (\<lambda>t'. rbind (cl_seek ops 1 c) (\<lambda>c1. tn_again ops t' c1))"
    unfolding tn_sub_round_def p rbind_Inr using True by (simp del: One_nat_def)
  have l: "tn_sub_round list_client be (length xs) bc t (xs, out) =
      rbind ?m (\<lambda>t'. rbind (cl_seek list_client 1 (xs, out)) (\<lambda>c1. tn_again list_client t' c1))"
    unfolding tn_sub_round_def p' rbind_Inr using True by (simp del: One_nat_def list_client_simps(3))
  show ?thesis unfolding o l
    by (rule rbind_rel [OF eq]) (simp only:, rule rbind_rel [OF sim_seek [OF a]], rule sim_again)
next
  case False
  with a show ?thesis by (auto simp: tn_sub_round_def intro: sim_again)
qed

lemma sim_iac:
  assumes a: "A c (xs, out)"
  shows "rel_sum (=) (pair_as (pair_as A)) (tn_iac_round ops (length xs) t c) (tn_iac_round list_client (length xs) t (xs, out))"
proof (cases "length xs \<le> 1")
  case True
  with a show ?thesis by (simp add: tn_iac_round_def)
next
  case False
  then have p: "cl_peek ops c 1 = Inr (xs ! 1)" using sim_peek [OF a, of 1] by simp
  have p2: "cl_peek ops c 2 = Inr (xs ! 2)" if "\<not> length xs \<le> 2" using sim_peek [OF a, of 2] that by simp
  have opt: "rel_sum (=) (pair_as (pair_as A))
      (rbind (tn_option ops b2 b3 t c1) (\<lambda>tc. rbind (cl_seek ops 1 (snd tc)) (\<lambda>c3. tn_again ops (fst tc) c3)))
      (rbind (tn_option list_client b2 b3 t l1) (\<lambda>tc. rbind (cl_seek list_client 1 (snd tc)) (\<lambda>c3. tn_again list_client (fst tc) c3)))"
    if "A c1 l1" for b2 b3 c1 l1
    by (rule rbind_rel [OF sim_option [OF that]]) (auto intro!: rbind_rel [OF sim_seek] sim_again)
  show ?thesis
    unfolding tn_iac_round_def p rbind_Inr using False p2
    by (auto simp del: list_client_simps(3) One_nat_def intro!: a rbind_rel [OF sim_seek] opt sim_again)
qed

lemma sim_char:
  assumes a: "A c (xs, out)"
  shows "rel_sum (=) (pair_as (pair_as A)) (tn_char_round ops (length xs) bc t c) (tn_char_round list_client (length xs) bc t (xs, out))"
proof (cases "tn_bCanonical t \<and> bc = 0x0d \<and> 1 < length xs")
  case False
  have ctl: "rel_sum (=) (pair_as (pair_as A)) (rbind (tn_onCtlChar ops bc t c) (\<lambda>tc. tn_again ops (fst tc) (snd tc)))
      (rbind (tn_onCtlChar list_client bc t (xs, out)) (\<lambda>tc. tn_again list_client (fst tc) (snd tc)))"
    by (rule rbind_rel [OF sim_ctl [OF a]]) (auto intro: sim_again)
  from False a ctl sim_keep [OF a] show ?thesis by (auto simp: tn_char_round_def)
next
  case True
  then have p: "cl_peek ops c 1 = Inr (xs ! 1)" using sim_peek [OF a, of 1] by simp
  have line: "rel_sum (=) (pair_as A)
      (rbind (tn_onCtlChar ops 0x0d t c) (\<lambda>tc. Inr ((tn_event_log (TE_Line (tn_sDataBuf (fst tc))) (fst tc))\<lparr>tn_sDataBuf := []\<rparr>, snd tc)))
      (rbind (tn_onCtlChar list_client 0x0d t (xs, out)) (\<lambda>tc. Inr ((tn_event_log (TE_Line (tn_sDataBuf (fst tc))) (fst tc))\<lparr>tn_sDataBuf := []\<rparr>, snd tc)))"
    by (rule rbind_rel [OF sim_ctl [OF a]]) auto
  have fin: "rel_sum (=) (pair_as (pair_as A)) (rbind m (\<lambda>tc. rbind (cl_seek ops 1 (snd tc)) (\<lambda>c1. tn_again ops (fst tc) c1)))
      (rbind m' (\<lambda>tc. rbind (cl_seek list_client 1 (snd tc)) (\<lambda>c1. tn_again list_client (fst tc) c1)))"
    if "rel_sum (=) (pair_as A) m m'" for m m'
    by (rule rbind_rel [OF that]) (auto intro!: rbind_rel [OF sim_seek] sim_again)
  have "rel_sum (=) (pair_as A) (if b then
      rbind (tn_onCtlChar ops 0x0d t c) (\<lambda>tc. Inr ((tn_event_log (TE_Line (tn_sDataBuf (fst tc))) (fst tc))\<lparr>tn_sDataBuf := []\<rparr>, snd tc))
      else Inr (t, c))
      (if b then rbind (tn_onCtlChar list_client 0x0d t (xs, out)) (\<lambda>tc. Inr ((tn_event_log (TE_Line (tn_sDataBuf (fst tc))) (fst tc))\<lparr>tn_sDataBuf := []\<rparr>, snd tc))
      else Inr (t, (xs, out)))" for b
    using line a by simp
  note f = fin [OF this]
  have lp: "cl_peek list_client (xs, out) 1 = Inr (xs ! 1)" using True by simp
  have "(sint bc < 0x20 \<or> sint bc \<ge> 0x7f) = True" using True by simp
  moreover have "(length xs \<le> 1) = False" using True by simp
  ultimately show ?thesis using True
    unfolding tn_char_round_def p lp rbind_Inr using f [of "xs ! 1 = 0 \<or> xs ! 1 = 0x0a"] by (simp only: simp_thms if_True if_False)
qed

lemma sim_round:
  assumes a: "A c (xs, out)" and ne: "xs \<noteq> []"
  shows "rel_sum (=) (pair_as (pair_as A)) (tn_round ops be t c) (tn_round list_client be t (xs, out))"
proof -
  have p: "cl_peek ops c 0 = Inr (xs ! 0)" "cl_peek list_client (xs, out) 0 = Inr (xs ! 0)" using sim_peek [OF a, of 0] ne by simp_all
  show ?thesis unfolding tn_round_def Let_def p rbind_Inr sim_size [OF a] list_client_simps(1)
    using sim_sub [OF a] sim_iac [OF a] sim_again [OF a] sim_char [OF a] by simp
qed

lemma sim_newData:
  "A c (xs, out) \<Longrightarrow> \<exists>r r'. tn_onNewData ops be t c = Some r \<and> tn_onNewData list_client be t (xs, out) = Some r' \<and> rel_sum (=) (pair_as A) r r'"
proof (induction "length xs" arbitrary: xs t out c rule: less_induct)
  case less
  note a = less.prems
  show ?case
  proof (cases xs)
    case Nil
    with a sim_size [OF a] show ?thesis by (simp add: newData_Nil tn_onNewData.simps [of ops be t c])
  next
    case (Cons x zs)
    then have ne: "xs \<noteq> []" by simp
    have sz: "cl_getInputSize ops c \<noteq> 0" using sim_size [OF a] Cons by simp
    note r = sim_round [OF a ne, of be t]
    show ?thesis
    proof (rule round_cases [OF ne, of be t out], goal_cases)
      case err: (1 e)
      with r err [of "[]"] have "tn_round ops be t c = Inl e" by (cases "tn_round ops be t c") auto
      with sz err [of "[]"] Cons show ?thesis by (simp add: newData_err tn_onNewData.simps [of ops be t c])
    next
      case wait: 2
      with r obtain c' where "tn_round ops be t c = Inr (False, t, c')" "A c' (xs, out)" by (cases "tn_round ops be t c") auto
      with sz wait Cons show ?thesis by (simp add: newData_wait tn_onNewData.simps [of ops be t c])
    next
      case go: (3 k t' w)
      with r go(4) [of "[]"] obtain c' where c': "tn_round ops be t c = Inr (True, t', c')" "A c' (drop k xs, out @ w)"
        by (cases "tn_round ops be t c") auto
      have "length (drop k xs) < length xs" using go(1,2) by simp
      from less.hyps [OF this c'(2), of t'] go(4) [of "[]"] Cons c'(1) sz show ?thesis
        by (simp add: newData_go tn_onNewData.simps [of ops be t c])
    qed
  qed
qed

lemma sim_write_loop:
  "A c l \<Longrightarrow> rel_sum (=) A (tn_write_loop ops p iLast j c) (tn_write_loop list_client p iLast j l)"
proof (induction "length p - j" arbitrary: iLast j c l rule: less_induct)
  case less
  show ?case
  proof (cases "length p \<le> j")
    case True
    with less.prems show ?thesis by (simp add: tn_write_loop.simps [of _ p iLast j] sim_write)
  next
    case False
    have ih: "rel_sum (=) A (tn_write_loop ops p i k c1) (tn_write_loop list_client p i k l1)" if "j < k" "A c1 l1" for i k c1 l1
      using less.hyps [of k c1 l1 i] that False by simp
    consider (plain) "p ! j \<noteq> 0x0a" | (pair) "p ! j = 0x0a" "\<not> (length p \<le> j + 1 \<or> p ! (j + 1) \<noteq> 0x0d \<and> p ! (j + 1) \<noteq> 0)" |
      (alone) "p ! j = 0x0a" "length p \<le> j + 1 \<or> p ! (j + 1) \<noteq> 0x0d \<and> p ! (j + 1) \<noteq> 0" by blast
    then show ?thesis
    proof cases
      case plain
      with False ih [OF _ less.prems, of "j + 1" iLast] show ?thesis by (simp add: tn_write_loop.simps [of _ p iLast j])
    next
      case pair
      have e: "tn_write_loop o' p iLast j x = tn_write_loop o' p iLast (j + 2) x" for o' :: "'x client_ops" and x
        using False pair by (subst tn_write_loop.simps) auto
      show ?thesis unfolding e using ih [OF _ less.prems, of "j + 2" iLast] by simp
    next
      case alone
      have e: "tn_write_loop o' p iLast j x = rbind (cl_write o' (take (j - iLast) (drop iLast p)) x) (\<lambda>c1.
          rbind (cl_write o' [0x0a, 0x0d] c1) (\<lambda>c2. tn_write_loop o' p (j + 1) (j + 1) c2))" for o' :: "'x client_ops" and x
        using False alone by (subst tn_write_loop.simps) simp
      show ?thesis unfolding e
        by (rule rbind_rel [OF sim_write [OF less.prems]], rule rbind_rel [OF sim_write], assumption, rule ih, simp)
    qed
  qed
qed

end

end
