(* ===== verification/Bu_TelnetProps.thy ===== *)
theory Bu_TelnetProps
  imports Bu_TelnetLine
begin

text \<open>
  The client of the library keeps the contract; lines of text, output, and two peers that answer
  each other.
\<close>

section \<open>The client of the library\<close>

text \<open>\<open>peek\<close> of one byte with a skip that stays inside the data.\<close>

lemma peek_skip_ok:
  "qb_span (concat blks) off data w \<Longrightarrow> 0 < bs \<Longrightarrow> \<forall>b \<in> set blks. length b = bs \<Longrightarrow> data \<noteq> [] \<Longrightarrow>
   \<exists>off' blks'. qb_peek_skip (int bs) (int off) blks = Inr (int off', blks') \<and> qb_span (concat blks') off' data w \<and>
     off' \<le> bs \<and> blks' \<noteq> [] \<and> (\<forall>b \<in> set blks'. length b = bs)"
proof (induction blks arbitrary: off)
  case Nil
  then show ?case by (simp add: qb_span_def)
next
  case (Cons b blks)
  show ?case
  proof (cases "bs < off")
    case False
    with Cons.prems show ?thesis by (intro exI [of _ off] exI [of _ "b # blks"]) simp
  next
    case True
    obtain pre junk where c: "b @ concat blks = pre @ map Some data @ junk" "length pre = off" "length junk = w"
      using Cons.prems(1) by (auto simp: qb_span_def)
    have lb: "length b = bs" using Cons.prems(3) by simp
    have "concat blks = drop bs pre @ map Some data @ junk"
    proof -
      have "concat blks = drop (length b) (b @ concat blks)" by simp
      also have "\<dots> = drop bs pre @ map Some data @ junk" unfolding c(1) using lb c(2) True by simp
      finally show ?thesis .
    qed
    then have "qb_span (concat blks) (off - bs) data w" by (rule qb_spanI) (use c in simp_all)
    from Cons.IH [OF this] Cons.prems(2-4) obtain off' blks' where
      "qb_peek_skip (int bs) (int (off - bs)) blks = Inr (int off', blks')" "qb_span (concat blks') off' data w" "off' \<le> bs" "blks' \<noteq> []"
      "\<forall>b \<in> set blks'. length b = bs" by auto
    then have "qb_peek_skip (int bs) (int off) (b # blks) = Inr (int off', blks')" using True by (simp add: of_nat_diff)
    then show ?thesis using \<open>qb_span (concat blks') off' data w\<close> \<open>off' \<le> bs\<close> \<open>blks' \<noteq> []\<close> \<open>\<forall>b \<in> set blks'. length b = bs\<close> by blast
  qed
qed

lemma peek_loop_one:
  assumes "0 < m" "0 < bs" "off \<le> bs"
  shows "qb_peek_loop bs 1 m (int off) blks =
    (let blks' = (if off = bs then tl blks else blks); off' = (if off = bs then 0 else off)
     in if off = bs \<and> blks = [] then Some (Inl (ExceptionBase ''Attempt to iterate past end of list.''))
        else if off = bs \<and> blks' = [] then Some (Inr [])
        else if blks' = [] then Some (Inl Out_Of_Bounds)
        else Some (rbind (mem_load (hd blks') (int off') 1) init_bytes))"
proof -
  have m: "min (min (nat (int bs - int o')) 1) m = 1" if "o' < bs" for o' using assms(1) that by auto
  have z: "qb_peek_loop bs 0 k x y = Some (Inr [])" for k x y by (subst qb_peek_loop.simps) simp
  show ?thesis
  proof (cases "off = bs")
    case True
    with m [of 0] assms(1,2) show ?thesis
      by (cases "rbind (mem_load (hd (tl blks)) 0 1) init_bytes") (subst qb_peek_loop.simps, simp add: Let_def z)+
  next
    case False
    then have "off < bs" using assms(3) by simp
    with m [of off] assms(1) show ?thesis
      by (cases "rbind (mem_load (hd blks) (int off) 1) init_bytes") (subst qb_peek_loop.simps, simp add: Let_def z)+
  qed
qed

lemma qb_peek_one:
  assumes rep: "qb_rep q data" and i: "i < length data"
  shows "qb_peek q 1 (int i) = Some (Inr [data ! i])"
proof -
  have ne: "data \<noteq> []" using i by auto
  have bl: "qb_lBlocks q \<noteq> []" using qb_rep_blocks [OF rep ne] .
  have r: "0 < qb_iBlockSize q" "\<forall>b \<in> set (qb_lBlocks q). length b = qb_iBlockSize q" "qb_iTotalSize q = length data"
    "qb_span (concat (qb_lBlocks q)) (qb_iReadOffset q) data (qb_iBlockSize q - qb_iWriteOffset q)"
    using rep bl by (simp_all add: qb_rep_def)
  have "qb_span (concat (qb_lBlocks q)) (qb_iReadOffset q + i) (drop i data) (qb_iBlockSize q - qb_iWriteOffset q)"
    by (rule qb_span_advance [OF r(4)]) (use i in simp)
  from peek_skip_ok [OF this r(1,2)] i obtain off' blks' where s:
    "qb_peek_skip (int (qb_iBlockSize q)) (int (qb_iReadOffset q) + int i) (qb_lBlocks q) = Inr (int off', blks')"
    "qb_span (concat blks') off' (drop i data) (qb_iBlockSize q - qb_iWriteOffset q)" "off' \<le> qb_iBlockSize q" "blks' \<noteq> []"
    "\<forall>b \<in> set blks'. length b = qb_iBlockSize q" by auto
  have "qb_peek_loop (qb_iBlockSize q) 1 (length (drop i data)) (int off') blks' = Some (Inr (take 1 (drop i data)))"
    by (rule qb_peek_loop_rep [OF s(2) r(1) s(5,3,4)])
  moreover have "qb_peek_loop (qb_iBlockSize q) 1 (length data) (int off') blks' = qb_peek_loop (qb_iBlockSize q) 1 (length (drop i data)) (int off') blks'"
    by (subst (1 2) peek_loop_one) (use i ne s(3) r(1) in simp_all)
  moreover have "take 1 (drop i data) = [data ! i]" using i by (simp add: take_Suc hd_drop_conv_nth)
  ultimately show ?thesis using bl r(3) s(1) by (simp add: qb_peek_def)
qed

definition client_in :: "client \<Rightarrow> byte list" where
  "client_in c = qb_bytes (cl_qbRead c)"

definition client_out :: "client \<Rightarrow> byte list" where
  "client_out c = qb_bytes (cl_qbWrite c)"

definition client_good :: "client \<Rightarrow> bool" where
  "client_good c \<longleftrightarrow> qb_wf (cl_qbRead c) \<and> qb_wf (cl_qbWrite c)"

lemma client_new_ok: "0 < bs \<Longrightarrow> client_good (client_new bs) \<and> client_in (client_new bs) = [] \<and> client_out (client_new bs) = []"
  using qb_rep_wf [OF qb_rep_new] by (simp add: client_good_def client_in_def client_out_def client_new_def)

lemma qb_sink_wf:
  assumes "qb_wf q"
  shows "\<exists>n q'. qb_sink q bs = Inr (n, q') \<and> qb_wf q' \<and> qb_bytes q' = qb_bytes q @ bs"
  using qb_write_rep [of q "qb_bytes q" bs] assms by (auto simp: qb_sink_def qb_wf_def dest: qb_rep_wf)

lemma client_input_ok:
  assumes "client_good c"
  shows "\<exists>c'. client_input bs c = Inr c' \<and> client_good c' \<and> client_in c' = client_in c @ bs \<and> client_out c' = client_out c"
  using qb_sink_wf [of "cl_qbRead c" bs] assms by (auto simp: client_input_def client_good_def client_in_def client_out_def)

interpretation qbclient: telnet_client client_ops client_in client_out client_good
proof (unfold_locales, goal_cases)
  case (1 c)
  then show ?case by (simp add: client_ops_def qb_getSize_def client_good_def client_in_def qb_wf_def qb_rep_def)
next
  case (2 c i)
  then have "qb_rep (cl_qbRead c) (client_in c)" by (simp add: client_good_def client_in_def qb_wf_def)
  from qb_peek_one [OF this 2(2)] show ?case by (simp add: client_ops_def client_peek_def)
next
  case (3 c n)
  then have "qb_rep (cl_qbRead c) (client_in c)" by (simp add: client_good_def client_in_def qb_wf_def)
  from qb_seek_rep [OF this, of "int n"] obtain q where "qb_seek (cl_qbRead c) (int n) = Inr q" "qb_wf q" "qb_bytes q = drop n (client_in c)"
    using qb_rep_wf by auto
  with 3 show ?case by (simp add: client_ops_def client_seek_def client_good_def client_in_def client_out_def)
next
  case (4 c bs)
  with qb_sink_wf [of "cl_qbWrite c" bs] show ?case
    by (auto simp: client_ops_def client_write_def client_good_def client_in_def client_out_def)
qed

section \<open>Chunks\<close>

text \<open>What the server does: bytes come in, \<open>onNewData\<close> is called, more bytes come in.\<close>

fun tn_session :: "bool \<Rightarrow> telnet \<Rightarrow> client \<Rightarrow> byte list list \<Rightarrow> (telnet \<times> client) result option" where
  "tn_session be t c [] = Some (Inr (t, c))"
| "tn_session be t c (xs # xss) =
     obind (Some (client_input xs c)) (\<lambda>c1. obind (tn_onNewData client_ops be t c1) (\<lambda>r. tn_session be (fst r) (snd r) xss))"

lemma obind_Some_eq: "obind (Some (Inr x)) f = f x"
  by simp

lemma session_list:
  assumes "client_good c" "tn_bCanonical t"
    "obind (tn_onNewData list_client be t (client_in c, client_out c)) (\<lambda>r. Some (Inr r)) = Some (Inr (t, client_in c, client_out c))"
  shows "\<exists>r r'. tn_session be t c xss = Some r \<and> tn_onNewData list_client be t (client_in c @ concat xss, client_out c) = Some r' \<and>
    rel_sum (=) (pair_as (client_as client_in client_out client_good)) r r'"
  using assms
proof (induction xss arbitrary: t c)
  case Nil
  let ?N = "tn_onNewData list_client be t (client_in c, client_out c)"
  have "?N = Some (Inr (t, client_in c, client_out c))"
    using Nil.prems(3) by (cases ?N) (auto simp: obind_def split: sum.splits)
  with Nil.prems(1) show ?case by (simp add: client_as_def)
next
  case (Cons xs xss)
  obtain c1 where c1: "client_input xs c = Inr c1" "client_good c1" "client_in c1 = client_in c @ xs" "client_out c1 = client_out c"
    using client_input_ok [OF Cons.prems(1)] by blast
  have a: "client_as client_in client_out client_good c1 (client_in c @ xs, client_out c)" using c1 by (simp add: client_as_def)
  from qbclient.sim_newData [OF a, of be t] obtain r r' where
    r: "tn_onNewData client_ops be t c1 = Some r" "tn_onNewData list_client be t (client_in c @ xs, client_out c) = Some r'"
    "rel_sum (=) (pair_as (client_as client_in client_out client_good)) r r'" by blast
  have app: "tn_onNewData list_client be t (client_in c @ concat (xs # xss), client_out c) =
      obind (Some r') (\<lambda>r. tn_onNewData list_client be (fst r) (fst (snd r) @ concat xss, snd (snd r)))"
    using newData_append [OF Cons.prems(2), of be "client_in c @ xs" "concat xss" "client_out c"] r(2) by simp
  show ?case
  proof (cases r')
    case (Inl e)
    with r(3) have "r = Inl e" by (cases r) auto
    with Inl app c1(1) r(1) show ?thesis by simp
  next
    case (Inr p)
    obtain t' i o' where p: "p = (t', i, o')" by (cases p)
    with Inr r(3) obtain c2 where c2: "r = Inr (t', c2)" "client_good c2" "i = client_in c2" "o' = client_out c2"
      by (cases r) (auto simp: client_as_def)
    have can: "tn_bCanonical t'" using newData_canonical [of be t "client_in c @ xs" "client_out c" t'] r(2) Inr p Cons.prems(2) by simp
    have again: "tn_onNewData list_client be t' (i, o') = Some (Inr (t', i, o'))"
    proof -
      have "tn_onNewData list_client be t ((client_in c @ xs) @ [], client_out c) =
          obind (Some r') (\<lambda>r. tn_onNewData list_client be (fst r) (fst (snd r) @ [], snd (snd r)))"
        using newData_append [OF Cons.prems(2), of be "client_in c @ xs" "[]" "client_out c"] r(2) by simp
      with r(2) Inr p show ?thesis by simp
    qed
    from Cons.IH [OF c2(2) can] again c2 obtain s s' where
      "tn_session be t' c2 xss = Some s" "tn_onNewData list_client be t' (client_in c2 @ concat xss, client_out c2) = Some s'"
      "rel_sum (=) (pair_as (client_as client_in client_out client_good)) s s'" by auto
    with c1(1) r(1) c2(1,3,4) app Inr p show ?thesis by simp
  qed
qed

section \<open>Lines of text\<close>

definition tn_printable :: "byte \<Rightarrow> bool" where
  "tn_printable b \<longleftrightarrow> 0x20 \<le> sint b \<and> sint b < 0x7f"

text \<open>A key is a printable character or delete, which takes back the last character.\<close>

definition tn_key :: "byte \<Rightarrow> bool" where
  "tn_key b \<longleftrightarrow> tn_printable b \<or> b = 0x7f"

fun tn_edit :: "byte list \<Rightarrow> byte list \<Rightarrow> byte list" where
  "tn_edit acc [] = acc"
| "tn_edit acc (b # bs) = tn_edit (if b = 0x7f then butlast acc else acc @ [b]) bs"

fun tn_typed :: "byte list \<Rightarrow> byte list \<Rightarrow> byte list" where
  "tn_typed acc [] = []"
| "tn_typed acc (b # bs) =
     (if b = 0x7f then (if acc = [] then [] else [0x08, 0x20, 0x08]) @ tn_typed (butlast acc) bs else tn_typed (acc @ [b]) bs)"

definition tn_idle :: "telnet \<Rightarrow> bool" where
  "tn_idle t \<longleftrightarrow> tn_bCanonical t \<and> \<not> tn_bSubOpt t \<and> (\<forall>f. tn_hOpts t OPT_ECHO = Some f \<longrightarrow> \<not> tn_isLocalSet f)"

lemma round_key:
  assumes t: "tn_idle t" and b: "tn_key b"
  shows "tn_round list_client be t (b # xs, out) =
    Inr (True, t\<lparr>tn_sDataBuf := (if b = 0x7f then butlast (tn_sDataBuf t) else tn_sDataBuf t @ [b])\<rparr>, xs,
      out @ (if b = 0x7f \<and> tn_sDataBuf t \<noteq> [] then [0x08, 0x20, 0x08] else []))"
proof (cases "b = 0x7f")
  case True
  with t show ?thesis by (auto simp: tn_round_def tn_idle_def tn_char_round_def tn_onCtlChar_def tn_again_def)
next
  case False
  then have p: "tn_printable b" using b by (simp add: tn_key_def)
  then have "b \<noteq> CODE_IAC" "b \<noteq> CODE_SB" "\<not> (sint b < 0x20 \<or> sint b \<ge> 0x7f)" by (auto simp: tn_printable_def)
  with False t show ?thesis
    by (auto simp: tn_round_def tn_idle_def tn_char_round_def tn_keep_def tn_again_def Let_def split: option.splits)
qed

lemma line_keys:
  "tn_idle t \<Longrightarrow> \<forall>b \<in> set ks. tn_key b \<Longrightarrow>
   tn_onNewData list_client be t (ks @ xs, out) =
   tn_onNewData list_client be (t\<lparr>tn_sDataBuf := tn_edit (tn_sDataBuf t) ks\<rparr>) (xs, out @ tn_typed (tn_sDataBuf t) ks)"
proof (induction ks arbitrary: t out)
  case (Cons k ks)
  have k: "tn_key k" using Cons.prems(2) by simp
  let ?t = "t\<lparr>tn_sDataBuf := (if k = 0x7f then butlast (tn_sDataBuf t) else tn_sDataBuf t @ [k])\<rparr>"
  have "tn_idle ?t" using Cons.prems(1) by (simp add: tn_idle_def)
  from Cons.IH [OF this] Cons.prems(2) newData_go [OF round_key [OF Cons.prems(1) k, of be "ks @ xs" out]] show ?case by simp
qed simp

lemma line_end:
  assumes t: "tn_idle t" and e: "e = 0 \<or> e = 0x0a"
  shows "tn_onNewData list_client be t (0x0d # e # xs, out) =
    tn_onNewData list_client be ((tn_event_log (TE_Line (tn_sDataBuf t)) t)\<lparr>tn_sDataBuf := []\<rparr>) (xs, out)"
proof -
  have "tn_round list_client be t (0x0d # e # xs, out) = Inr (True, (tn_event_log (TE_Line (tn_sDataBuf t)) t)\<lparr>tn_sDataBuf := []\<rparr>, xs, out)"
    using t e by (auto simp: tn_round_def tn_idle_def tn_char_round_def tn_onCtlChar_def tn_again_def)
  then show ?thesis by (rule newData_go)
qed

definition tn_line :: "byte list \<Rightarrow> byte list" where
  "tn_line ks = ks @ [0x0d, 0x0a]"

lemma lines_ok:
  "tn_idle t \<Longrightarrow> tn_sDataBuf t = [] \<Longrightarrow> \<forall>ks \<in> set ls. \<forall>b \<in> set ks. tn_key b \<Longrightarrow>
   tn_onNewData list_client be t (concat (map tn_line ls), out) =
   Some (Inr (t\<lparr>tn_events := tn_events t @ map (\<lambda>ks. TE_Line (tn_edit [] ks)) ls\<rparr>, [], out @ concat (map (tn_typed []) ls)))"
proof (induction ls arbitrary: t out)
  case Nil
  then show ?case by (simp add: newData_Nil tn_idle_def)
next
  case (Cons ks ls)
  have ks: "\<forall>b \<in> set ks. tn_key b" using Cons.prems(3) by simp
  let ?t1 = "t\<lparr>tn_sDataBuf := tn_edit [] ks\<rparr>"
  let ?t2 = "t\<lparr>tn_events := tn_events t @ [TE_Line (tn_edit [] ks)]\<rparr>"
  have i: "tn_idle ?t1" "tn_idle ?t2" using Cons.prems(1) by (simp_all add: tn_idle_def)
  have t2: "(tn_event_log (TE_Line (tn_sDataBuf ?t1)) ?t1)\<lparr>tn_sDataBuf := []\<rparr> = ?t2"
    using Cons.prems(2) by (cases t) (simp add: tn_event_log_def)
  have "tn_onNewData list_client be t (concat (map tn_line (ks # ls)), out) =
      tn_onNewData list_client be ?t1 (0x0d # 0x0a # concat (map tn_line ls), out @ tn_typed [] ks)"
    using line_keys [OF Cons.prems(1) ks, of be "0x0d # 0x0a # concat (map tn_line ls)" out] Cons.prems(2) by (simp add: tn_line_def)
  also have "\<dots> = tn_onNewData list_client be ?t2 (concat (map tn_line ls), out @ tn_typed [] ks)"
    using line_end [OF i(1), of "0x0a" be "concat (map tn_line ls)" "out @ tn_typed [] ks"] t2 by simp
  finally show ?case using Cons.IH [OF i(2)] Cons.prems(2,3) by simp
qed

lemma sub_bytes:
  "tn_bSubOpt t \<Longrightarrow> \<forall>b \<in> set w. b \<noteq> CODE_IAC \<Longrightarrow>
   tn_onNewData list_client be t (w @ xs, out) = tn_onNewData list_client be (t\<lparr>tn_sSubBuf := tn_sSubBuf t @ w\<rparr>) (xs, out)"
proof (induction w arbitrary: t)
  case (Cons b w)
  let ?t = "t\<lparr>tn_sSubBuf := tn_sSubBuf t @ [b]\<rparr>"
  have "tn_round list_client be t (b # w @ xs, out) = Inr (True, ?t, w @ xs, out)"
    using Cons.prems by (simp add: tn_round_def tn_sub_round_def tn_again_def)
  from newData_go [OF this] Cons.IH [of ?t] Cons.prems show ?case by simp
qed simp

section \<open>Output\<close>

text \<open>A line feed goes out with a carriage return behind it, unless one or a null is there.\<close>

fun tn_text :: "byte list \<Rightarrow> byte list" where
  "tn_text [] = []"
| "tn_text [b] = (if b = 0x0a then [0x0a, 0x0d] else [b])"
| "tn_text (b # c # bs) =
     (if b = 0x0a then (if c = 0x0d \<or> c = 0 then b # c # tn_text bs else 0x0a # 0x0d # tn_text (c # bs)) else b # tn_text (c # bs))"

lemma write_loop_list:
  "iLast \<le> j \<Longrightarrow> j \<le> length p \<Longrightarrow>
   tn_write_loop list_client p iLast j (i, out) = Inr (i, out @ take (j - iLast) (drop iLast p) @ tn_text (drop j p))"
proof (induction "length p - j" arbitrary: iLast j out rule: less_induct)
  case less
  show ?case
  proof (cases "j = length p")
    case True
    with less.prems show ?thesis by (cases "iLast < j") (subst tn_write_loop.simps, simp)+
  next
    case False
    then have j: "j < length p" using less.prems by simp
    have dj: "drop j p = p ! j # drop (Suc j) p" using j by (simp add: Cons_nth_drop_Suc)
    have tk: "take (Suc j - iLast) (drop iLast p) = take (j - iLast) (drop iLast p) @ [p ! j]"
      using j less.prems(1) by (simp add: Suc_diff_le take_Suc_conv_app_nth)
    show ?thesis
    proof (cases "p ! j = 0x0a")
      case n: False
      then have "tn_text (drop j p) = p ! j # tn_text (drop (Suc j) p)" unfolding dj by (cases "drop (Suc j) p") auto
      with n j less.hyps [of "Suc j" iLast out] less.prems tk show ?thesis by (simp add: tn_write_loop.simps [of _ p iLast j])
    next
      case lf: True
      show ?thesis
      proof (cases "length p \<le> j + 1 \<or> p ! (j + 1) \<noteq> 0x0d \<and> p ! (j + 1) \<noteq> 0")
        case True
        have t: "tn_text (drop j p) = 0x0a # 0x0d # tn_text (drop (Suc j) p)"
        proof (cases "drop (Suc j) p")
          case Nil
          with lf show ?thesis unfolding dj by simp
        next
          case (Cons c cs)
          then have "Suc j < length p" "p ! Suc j = c" by (metis drop_eq_Nil leI list.distinct(1), metis drop_eq_Nil hd_drop_conv_nth leI list.distinct(1) list.sel(1))
          with True lf show ?thesis unfolding dj Cons by simp
        qed
        have "tn_write_loop list_client p iLast j (i, out) =
            tn_write_loop list_client p (j + 1) (j + 1) (i, (out @ take (j - iLast) (drop iLast p)) @ [0x0a, 0x0d])"
          using True lf j by (subst tn_write_loop.simps) simp
        with less.hyps [of "Suc j" "Suc j" "(out @ take (j - iLast) (drop iLast p)) @ [0x0a, 0x0d]"] j t show ?thesis by simp
      next
        case False
        then have j2: "Suc j < length p" "p ! Suc j = 0x0d \<or> p ! Suc j = 0" by auto
        then have "drop (Suc j) p = p ! Suc j # drop (Suc (Suc j)) p" by (simp add: Cons_nth_drop_Suc)
        then have t: "tn_text (drop j p) = 0x0a # p ! Suc j # tn_text (drop (Suc (Suc j)) p)" unfolding dj using lf j2(2) by simp
        have tk2: "take (Suc (Suc j) - iLast) (drop iLast p) = take (j - iLast) (drop iLast p) @ [p ! j, p ! Suc j]"
          using j2(1) less.prems(1) tk by (simp add: Suc_diff_le take_Suc_conv_app_nth)
        have "tn_write_loop list_client p iLast j (i, out) = tn_write_loop list_client p iLast (j + 2) (i, out)"
          using False lf j by (subst tn_write_loop.simps) auto
        with less.hyps [of "Suc (Suc j)" iLast out] j2(1) less.prems t tk2 lf show ?thesis by simp
      qed
    qed
  qed
qed

section \<open>Two peers\<close>

text \<open>Two lines, each with the bytes that are on their way to it; a line takes what is there for it.\<close>

record tn_net =
  net_a :: telnet
  net_to_a :: "byte list"
  net_b :: telnet
  net_to_b :: "byte list"

inductive net_step :: "bool \<Rightarrow> tn_net \<Rightarrow> tn_net \<Rightarrow> bool" for be where
  net_left: "net_to_a s \<noteq> [] \<Longrightarrow> tn_onNewData list_client be (net_a s) (net_to_a s, []) = Some (Inr (t', i, out)) \<Longrightarrow>
    net_step be s (s\<lparr>net_a := t', net_to_a := i, net_to_b := net_to_b s @ out\<rparr>)"
| net_right: "net_to_b s \<noteq> [] \<Longrightarrow> tn_onNewData list_client be (net_b s) (net_to_b s, []) = Some (Inr (t', i, out)) \<Longrightarrow>
    net_step be s (s\<lparr>net_b := t', net_to_b := i, net_to_a := net_to_a s @ out\<rparr>)"

definition net_open :: "byte \<Rightarrow> tn_net \<Rightarrow> bool" where
  "net_open opt s \<longleftrightarrow>
     tn_bCanonical (net_a s) \<and> \<not> tn_bSubOpt (net_a s) \<and> (\<exists>f. tn_hOpts (net_a s) opt = Some f \<and> tn_isLocalEnabled f) \<and>
     tn_bCanonical (net_b s) \<and> \<not> tn_bSubOpt (net_b s) \<and> (\<exists>f. tn_hOpts (net_b s) opt = Some f \<and> tn_isRemoteEnabled f)"

definition net_busy :: "byte \<Rightarrow> tn_net \<Rightarrow> bool" where
  "net_busy opt s \<longleftrightarrow> net_open opt s \<and>
     (net_to_a s = [] \<and> net_to_b s = [CODE_IAC, CODE_WILL, opt] \<or> net_to_a s = [CODE_IAC, CODE_DO, opt] \<and> net_to_b s = [])"

lemma flag_local: "tn_isLocalEnabled f \<Longrightarrow> tn_isLocalEnabled (f OR fLocalIs)"
proof -
  have "(f OR fLocalIs) AND fLocalCant = f AND fLocalCant" by (simp add: bit.conj_disj_distrib2)
  then show "tn_isLocalEnabled f \<Longrightarrow> tn_isLocalEnabled (f OR fLocalIs)" by (simp add: tn_isLocalEnabled_def)
qed

lemma flag_remote: "tn_isRemoteEnabled f \<Longrightarrow> tn_isRemoteEnabled (f OR fRemoteIs)"
proof -
  have "(f OR fRemoteIs) AND fRemoteCant = f AND fRemoteCant" by (simp add: bit.conj_disj_distrib2)
  then show "tn_isRemoteEnabled f \<Longrightarrow> tn_isRemoteEnabled (f OR fRemoteIs)" by (simp add: tn_isRemoteEnabled_def)
qed

lemma data_will:
  assumes "\<not> tn_bSubOpt t" "tn_bCanonical t" "tn_hOpts t opt = Some f" "tn_isRemoteEnabled f"
  shows "tn_onNewData list_client be t ([CODE_IAC, CODE_WILL, opt], []) =
    Some (Inr (t\<lparr>tn_hOpts := (tn_hOpts t)(opt \<mapsto> f OR fRemoteIs)\<rparr>, [], [CODE_IAC, CODE_DO, opt]))"
proof -
  have "tn_round list_client be t ([CODE_IAC, CODE_WILL, opt], []) =
      Inr (True, t\<lparr>tn_hOpts := (tn_hOpts t)(opt \<mapsto> f OR fRemoteIs)\<rparr>, [], [CODE_IAC, CODE_DO, opt])"
    using assms by (simp add: tn_round_def tn_iac_round_def tn_option_def tn_onWill_def tn_again_def)
  from newData_go [OF this] assms(2) show ?thesis by (simp add: newData_Nil)
qed

lemma data_do:
  assumes "\<not> tn_bSubOpt t" "tn_bCanonical t" "tn_hOpts t opt = Some f" "tn_isLocalEnabled f"
  shows "tn_onNewData list_client be t ([CODE_IAC, CODE_DO, opt], []) =
    Some (Inr (t\<lparr>tn_hOpts := (tn_hOpts t)(opt \<mapsto> f OR fLocalIs)\<rparr>, [], [CODE_IAC, CODE_WILL, opt]))"
proof -
  have "tn_round list_client be t ([CODE_IAC, CODE_DO, opt], []) =
      Inr (True, t\<lparr>tn_hOpts := (tn_hOpts t)(opt \<mapsto> f OR fLocalIs)\<rparr>, [], [CODE_IAC, CODE_WILL, opt])"
    using assms by (simp add: tn_round_def tn_iac_round_def tn_option_def tn_onDo_def tn_again_def)
  from newData_go [OF this] assms(2) show ?thesis by (simp add: newData_Nil)
qed

lemma net_busy_next: "net_busy opt s \<Longrightarrow> \<exists>s'. net_step be s s'"
proof -
  assume b: "net_busy opt s"
  obtain f g where a: "\<not> tn_bSubOpt (net_a s)" "tn_bCanonical (net_a s)" "tn_hOpts (net_a s) opt = Some f" "tn_isLocalEnabled f"
    and r: "\<not> tn_bSubOpt (net_b s)" "tn_bCanonical (net_b s)" "tn_hOpts (net_b s) opt = Some g" "tn_isRemoteEnabled g"
    using b by (auto simp: net_busy_def net_open_def)
  from b consider "net_to_b s = [CODE_IAC, CODE_WILL, opt]" | "net_to_a s = [CODE_IAC, CODE_DO, opt]" by (auto simp: net_busy_def)
  then show ?thesis
  proof cases
    case 1
    then have "tn_onNewData list_client be (net_b s) (net_to_b s, []) =
        Some (Inr ((net_b s)\<lparr>tn_hOpts := (tn_hOpts (net_b s))(opt \<mapsto> g OR fRemoteIs)\<rparr>, [], [CODE_IAC, CODE_DO, opt]))"
      using data_will [OF r] by simp
    from net_right [OF _ this] 1 show ?thesis by auto
  next
    case 2
    then have "tn_onNewData list_client be (net_a s) (net_to_a s, []) =
        Some (Inr ((net_a s)\<lparr>tn_hOpts := (tn_hOpts (net_a s))(opt \<mapsto> f OR fLocalIs)\<rparr>, [], [CODE_IAC, CODE_WILL, opt]))"
      using data_do [OF a] by simp
    from net_left [OF _ this] 2 show ?thesis by auto
  qed
qed

lemma net_busy_step:
  assumes st: "net_step be s s'" and b: "net_busy opt s"
  shows "net_busy opt s'"
proof -
  obtain f g where a: "\<not> tn_bSubOpt (net_a s)" "tn_bCanonical (net_a s)" "tn_hOpts (net_a s) opt = Some f" "tn_isLocalEnabled f"
    and r: "\<not> tn_bSubOpt (net_b s)" "tn_bCanonical (net_b s)" "tn_hOpts (net_b s) opt = Some g" "tn_isRemoteEnabled g"
    using b by (auto simp: net_busy_def net_open_def)
  from st show ?thesis
  proof (cases rule: net_step.cases)
    case (net_left t' i out)
    then have m: "net_to_a s = [CODE_IAC, CODE_DO, opt]" "net_to_b s = []" using b by (auto simp: net_busy_def)
    with net_left data_do [OF a, of be] have "t' = (net_a s)\<lparr>tn_hOpts := (tn_hOpts (net_a s))(opt \<mapsto> f OR fLocalIs)\<rparr>" "i = []"
      "out = [CODE_IAC, CODE_WILL, opt]" by simp_all
    with net_left(1) m a r flag_local [OF a(4)] show ?thesis by (simp add: net_busy_def net_open_def)
  next
    case (net_right t' i out)
    then have m: "net_to_b s = [CODE_IAC, CODE_WILL, opt]" "net_to_a s = []" using b by (auto simp: net_busy_def)
    with net_right data_will [OF r, of be] have "t' = (net_b s)\<lparr>tn_hOpts := (tn_hOpts (net_b s))(opt \<mapsto> g OR fRemoteIs)\<rparr>" "i = []"
      "out = [CODE_IAC, CODE_DO, opt]" by simp_all
    with net_right(1) m a r flag_remote [OF r(4)] show ?thesis by (simp add: net_busy_def net_open_def)
  qed
qed

section \<open>Properties\<close>

lemma tn_new_idle: "tn_idle tn_new" "tn_sDataBuf tn_new = []" "tn_events tn_new = []" "tn_bCanonical tn_new"
  by (simp_all add: tn_idle_def tn_new_def tn_isLocalSet_def)

lemma new_session:
  assumes "0 < bs"
  shows "\<exists>r r'. tn_session be tn_new (client_new bs) xss = Some r \<and> tn_onNewData list_client be tn_new (concat xss, []) = Some r' \<and>
    rel_sum (=) (pair_as (client_as client_in client_out client_good)) r r'"
proof -
  note c = client_new_ok [OF assms]
  have "obind (tn_onNewData list_client be tn_new (client_in (client_new bs), client_out (client_new bs))) (\<lambda>r. Some (Inr r)) =
      Some (Inr (tn_new, client_in (client_new bs), client_out (client_new bs)))"
    using c tn_new_idle(4) by (simp add: newData_Nil)
  from session_list [OF _ tn_new_idle(4) this, of xss] c show ?thesis by simp
qed

text \<open>
  C4. It does not matter in which pieces the bytes of a line arrive, even inside a command or a
  negotiation: the protocol always returns, and ends in the same state, with the same bytes left in
  the input and the same output, or with the same exception.
\<close>

theorem telnet_chunks:
  assumes "0 < bs" "concat xss = concat yss"
  shows "\<exists>r r'. tn_session be tn_new (client_new bs) xss = Some r \<and> tn_session be tn_new (client_new bs) yss = Some r' \<and>
    map_sum id (\<lambda>(t, c). (t, client_in c, client_out c)) r = map_sum id (\<lambda>(t, c). (t, client_in c, client_out c)) r'"
proof -
  obtain r s where r: "tn_session be tn_new (client_new bs) xss = Some r" "tn_onNewData list_client be tn_new (concat xss, []) = Some s"
    "rel_sum (=) (pair_as (client_as client_in client_out client_good)) r s" using new_session [OF assms(1)] by blast
  obtain r' s' where r': "tn_session be tn_new (client_new bs) yss = Some r'" "tn_onNewData list_client be tn_new (concat yss, []) = Some s'"
    "rel_sum (=) (pair_as (client_as client_in client_out client_good)) r' s'" using new_session [OF assms(1)] by blast
  have e: "s' = s" using r(2) r'(2) assms(2) by simp
  have "map_sum id (\<lambda>(t, c). (t, client_in c, client_out c)) r = s"
    using r(3) by (cases r; cases s) (auto simp: pair_as_def client_as_def)
  moreover have "map_sum id (\<lambda>(t, c). (t, client_in c, client_out c)) r' = s"
    using r'(3) e by (cases r'; cases s) (auto simp: pair_as_def client_as_def)
  ultimately show ?thesis using r(1) r'(1) by simp
qed

lemma telnet_chunks_witness:
  "\<exists>r r'. tn_session False tn_new (client_new 2) [[255], [251, 31, 104], [105, 13], [10]] = Some r \<and>
     tn_session False tn_new (client_new 2) [[255, 251, 31, 104, 105, 13, 10]] = Some r' \<and>
     map_sum id (\<lambda>(t, c). (t, client_in c, client_out c)) r = map_sum id (\<lambda>(t, c). (t, client_in c, client_out c)) r'"
  using telnet_chunks [of 2 "[[255], [251, 31, 104], [105, 13], [10]]" "[[255, 251, 31, 104, 105, 13, 10]]" False] by simp

text \<open>
  C15. Lines of printable characters and deletions reach \<open>gotLine\<close> in order, in whatever pieces they
  arrive, each as it was edited; for every deletion that takes a character back the terminal is told
  to wipe it out, and nothing else is sent.
\<close>

theorem telnet_lines:
  assumes "0 < bs" "\<forall>ks \<in> set ls. \<forall>b \<in> set ks. tn_key b" "concat xss = concat (map tn_line ls)"
  shows "\<exists>t c. tn_session be tn_new (client_new bs) xss = Some (Inr (t, c)) \<and>
    tn_events t = map (\<lambda>ks. TE_Line (tn_edit [] ks)) ls \<and> client_out c = concat (map (tn_typed []) ls) \<and> client_in c = []"
proof -
  obtain r s where r: "tn_session be tn_new (client_new bs) xss = Some r" "tn_onNewData list_client be tn_new (concat xss, []) = Some s"
    "rel_sum (=) (pair_as (client_as client_in client_out client_good)) r s" using new_session [OF assms(1)] by blast
  have "s = Inr (tn_new\<lparr>tn_events := map (\<lambda>ks. TE_Line (tn_edit [] ks)) ls\<rparr>, [], concat (map (tn_typed []) ls))"
    using r(2) lines_ok [OF tn_new_idle(1,2) assms(2), of be "[]"] assms(3) tn_new_idle(3) by simp
  with r(1,3) show ?thesis by (cases r) (auto simp: pair_as_def client_as_def)
qed

lemma telnet_lines_witness:
  "\<exists>t c. tn_session False tn_new (client_new 4) [[104, 120, 127], [105, 13], [10, 111, 107, 13, 10]] = Some (Inr (t, c)) \<and>
     tn_events t = [TE_Line [104, 105], TE_Line [111, 107]] \<and> client_out c = [8, 32, 8] \<and> client_in c = []"
  using telnet_lines [of 4 "[[104, 120, 127, 105], [111, 107]]" "[[104, 120, 127], [105, 13], [10, 111, 107, 13, 10]]" False]
  by (simp add: tn_key_def tn_printable_def tn_line_def)

text \<open>
  \<open>write\<close> sends a text with a carriage return behind every line feed that has none, and changes
  nothing else of the client.
\<close>

theorem telnet_write:
  assumes "client_good c"
  shows "\<exists>c'. tn_write client_ops p c = Inr c' \<and> client_good c' \<and> client_in c' = client_in c \<and> client_out c' = client_out c @ tn_text p"
proof -
  have a: "client_as client_in client_out client_good c (client_in c, client_out c)" using assms by (simp add: client_as_def)
  have "tn_write_loop list_client p 0 0 (client_in c, client_out c) = Inr (client_in c, client_out c @ tn_text p)"
    using write_loop_list [of 0 0 p "client_in c" "client_out c"] by simp
  with qbclient.sim_write_loop [OF a, of p 0 0] show ?thesis
    by (cases "tn_write_loop client_ops p 0 0 c") (auto simp: tn_write_def client_as_def)
qed

lemma telnet_write_witness:
  "\<exists>c'. tn_write client_ops [104, 10, 105, 10, 13, 10] (client_new 3) = Inr c' \<and> client_out c' = [104, 10, 13, 105, 10, 13, 10, 13]"
  using telnet_write [of "client_new 3" "[104, 10, 105, 10, 13, 10]"] client_new_ok [of 3] by auto

text \<open>
  C25. Two lines whose servers agree on an option answer each other for ever: a request is confirmed
  even where the option is already in use, so after the first \<open>WILL\<close> there is exactly one command on
  its way in every state the two can reach, and there always is a next step.
\<close>

theorem telnet_answers_for_ever:
  assumes "net_open opt s" "net_to_a s = []" "net_to_b s = [CODE_IAC, CODE_WILL, opt]" "(net_step be)\<^sup>*\<^sup>* s s'"
  shows "length (net_to_a s') + length (net_to_b s') = 3 \<and> (\<exists>s''. net_step be s' s'')"
proof -
  have b: "net_busy opt s" using assms(1-3) by (simp add: net_busy_def)
  from assms(4) have "net_busy opt s'"
    by (induction rule: rtranclp_induct) (auto intro: b net_busy_step)
  then show ?thesis using net_busy_next [of opt s' be] by (auto simp: net_busy_def)
qed

definition net_start :: tn_net where
  "net_start = \<lparr>net_a = tn_new, net_to_a = [], net_b = tn_new, net_to_b = [CODE_IAC, CODE_WILL, OPT_ECHO]\<rparr>"

lemma telnet_answers_for_ever_witness:
  "tn_localSet list_client OPT_ECHO True tn_new ([], []) = Inr ([], net_to_b net_start) \<and> (\<exists>s. net_step False net_start s)"
  using telnet_answers_for_ever [of OPT_ECHO net_start False net_start]
  by (auto simp: net_start_def net_open_def tn_new_def tn_isLocalEnabled_def tn_isRemoteEnabled_def tn_isLocalSet_def tn_localSet_def)

text \<open>
  C26. Three things a client can send: a window size of fewer than four bytes, which ends in an
  exception of the string class; a carriage return before any other character than a line feed or a
  null, which drops that character and gives no line; and a character of the upper half of the
  character set, which is dropped as well.
\<close>

theorem telnet_misreads:
  assumes "length w < 4" "\<forall>b \<in> set w. b \<noteq> CODE_IAC" "x \<noteq> 0" "x \<noteq> 0x0a" "sint u < 0" "u \<noteq> CODE_IAC"
  shows "tn_onNewData list_client be tn_new ([CODE_IAC, CODE_SB, OPT_NAWS] @ w @ [CODE_IAC, CODE_SE], []) =
      Some (Inl (ExceptionBase ''Index out of range.'')) \<and>
    tn_onNewData list_client be tn_new ([0x0d, x], []) = Some (Inr (tn_new, [], [])) \<and>
    tn_onNewData list_client be tn_new ([u], []) = Some (Inr (tn_new, [], []))"
proof (intro conjI)
  let ?t = "tn_new\<lparr>tn_cSubOpt := Some OPT_NAWS, tn_bSubOpt := True\<rparr>"
  let ?t' = "?t\<lparr>tn_sSubBuf := w\<rparr>"
  have "tn_round list_client be tn_new ([CODE_IAC, CODE_SB, OPT_NAWS] @ w @ [CODE_IAC, CODE_SE], []) = Inr (True, ?t, w @ [CODE_IAC, CODE_SE], [])"
    by (simp add: tn_round_def tn_iac_round_def tn_again_def) (simp add: tn_new_def)
  then have "tn_onNewData list_client be tn_new ([CODE_IAC, CODE_SB, OPT_NAWS] @ w @ [CODE_IAC, CODE_SE], []) =
      tn_onNewData list_client be ?t (w @ [CODE_IAC, CODE_SE], [])" by (simp add: newData_go)
  also have "\<dots> = tn_onNewData list_client be ?t' ([CODE_IAC, CODE_SE], [])"
    using sub_bytes [of ?t w be "[CODE_IAC, CODE_SE]" "[]"] assms(2) by (simp add: tn_new_def)
  also have "\<dots> = Some (Inl (ExceptionBase ''Index out of range.''))"
  proof (rule newData_err)
    have "tn_onSubOpt be (?t'\<lparr>tn_bSubOpt := False\<rparr>) = Inl (ExceptionBase ''Index out of range.'')"
      using assms(1) by (auto simp: tn_onSubOpt_def tn_subAt_def)
    then show "tn_round list_client be ?t' (CODE_IAC # [CODE_SE], []) = Inl (ExceptionBase ''Index out of range.'')"
      by (simp add: tn_round_def tn_sub_round_def)
  qed
  finally show "tn_onNewData list_client be tn_new ([CODE_IAC, CODE_SB, OPT_NAWS] @ w @ [CODE_IAC, CODE_SE], []) =
      Some (Inl (ExceptionBase ''Index out of range.''))" .
  have "tn_round list_client be tn_new (0x0d # [x], []) = Inr (True, tn_new, [], [])"
    using assms(3,4) tn_new_idle(1,4) by (simp add: tn_round_def tn_idle_def tn_char_round_def tn_again_def)
  from newData_go [OF this] tn_new_idle(4) show "tn_onNewData list_client be tn_new ([0x0d, x], []) = Some (Inr (tn_new, [], []))"
    by (simp add: newData_Nil)
  have "u \<noteq> 0x0d" "u \<noteq> 0x7f" using assms(5) by auto
  then have "tn_round list_client be tn_new (u # [], []) = Inr (True, tn_new, [], [])"
    using assms(5,6) tn_new_idle(1,4) by (auto simp: tn_round_def tn_idle_def tn_char_round_def tn_onCtlChar_def tn_again_def)
  from newData_go [OF this] tn_new_idle(4) show "tn_onNewData list_client be tn_new ([u], []) = Some (Inr (tn_new, [], []))"
    by (simp add: newData_Nil)
qed

lemma telnet_misreads_witness:
  "tn_onNewData list_client False tn_new ([255, 250, 31, 0, 255, 240], []) = Some (Inl (ExceptionBase ''Index out of range.'')) \<and>
   tn_onNewData list_client False tn_new ([13, 97], []) = Some (Inr (tn_new, [], [])) \<and>
   tn_onNewData list_client False tn_new ([0xc3], []) = Some (Inr (tn_new, [], []))"
  using telnet_misreads [of "[0]" 97 "0xc3" False] by simp

end
