(* ===== verification/Spec2Isabelle.thy ===== *)
theory Spec2Isabelle
  imports Bu_RingBuffer Bu_List Bu_Array Bu_HashTable Bu_QueueBuf Bu_Buffer Bu_MyriadReload Bu_Hex Bu_BitString
    Bu_Sha1 Bu_Md5 Bu_Blowfish Bu_Csv Bu_TafEnds Bu_TafGroup Bu_TafTable Bu_StringProps Bu_TelnetProps
begin

text \<open>
  A verification development for libbu++, the C++ library under \<open>src/src\<close>: its containers, its
  streams and filters, and the block store Myriad that is built from both.

  \<^bold>\<open>The program.\<close> The containers are templates that share their contents copy-on-write through
  \<open>SharedCore\<close>: a shell object points to a core with a reference count, and every member that
  writes calls \<open>_hardCopy\<close> first. The streams implement one interface, \<open>Stream\<close>, of partial reads
  and writes; a filter is a stream over another one. Myriad divides one seekable stream into
  blocks and keeps many growing streams in them, using \<open>Array\<close> for block lists, \<open>List\<close> for the free
  blocks, \<open>Hash\<close> for the loaded blocks, and \<open>MyriadStream\<close> for a position in one of its streams.

  \<^bold>\<open>Conventions.\<close> A class is a record with the members of the class as fields and the same names
  behind a short prefix. A member function is a function of the record that returns the new one.
  An exception is \<open>Inl\<close> of a value of \<open>bu_error\<close>; an access outside the memory of an object, or to
  a slot without an object, is the value \<open>Out_Of_Bounds\<close>, so that a theorem can say that it never
  happens, or that it does. A loop that may run for ever is a \<open>partial_function\<close> into an option, in
  which \<open>None\<close> is not returning; the theorems about such loops state \<open>Some\<close>. No fuel is used
  anywhere. Where a model calls code that is passed in (the next stream of a filter, a comparison,
  a hash function), that code is an argument, and its laws are the assumptions of a locale that is
  interpreted on the streams and containers modelled here. Bytes are \<open>8 word\<close>; counters are natural
  numbers or integers, with the wrap-around written out where the code can reach it: the sizes and
  the probe sequence of the hash table, and the conversions of a \<open>Bu::size\<close> of 64 bits to an \<open>int\<close>
  (\<open>c_int\<close>) in \<open>Buffer\<close>, \<open>Cipher\<close> and \<open>MyriadStream\<close>; pointers into shared structures are addresses in an
  explicit store.

  \<^bold>\<open>Theories.\<close>
    \<^item> \<open>Bu_Prelude\<close>: errors and results, checked array accesses (collection \<open>access\<close>), C++ division,
      overwriting part of a list, equal-sized pieces of a list, the conversion of a size to \<open>int\<close>.
    \<^item> \<open>Bu_Queue\<close>: the interfaces of the queues as locales (weak orders, priority queue, fifo queue, a
      queue that drops its oldest item), with the clients' lemmas.
    \<^item> \<open>Bu_Heap\<close> (\<open>heap.h\<close>, \<open>util.h\<close>), \<open>Bu_RingBuffer\<close> (\<open>ringbuffer.h\<close>): the cores with their loops, the
      heap order as invariant, interpretations of the queue locales, sorting, and the faults of
      \<open>getSize\<close> and of capacity one.
    \<^item> \<open>Bu_SharedCore\<close> (\<open>sharedcore.h\<close>): a store of shells and counted cores, one step per member; exact
      reference counts and the refinement of value semantics. Its locale \<open>faithful_copy\<close> is what it
      asks of a container's copy function; the heap and the array are interpretations.
    \<^item> \<open>Bu_List\<close> (\<open>list.h\<close>): links in an explicit store; insertion, erasure, iterators, queue and stack
      members, sorted insertion and \<open>sort\<close>.
    \<^item> \<open>Bu_Array\<close> (\<open>array.h\<close>): raw memory with constructed and empty slots; the moves of \<open>insert\<close>,
      \<open>erase\<close> and \<open>setCapacity\<close> slot by slot; iterators.
    \<^item> \<open>Bu_Hash\<close> (\<open>hash.h\<close>, \<open>hash.cpp\<close>): the model of the hash table. \<open>Bu_HashMap\<close>: its invariant, its
      meaning as a map, and soundness of \<open>probe\<close>, \<open>insert\<close> and \<open>reHash\<close> through their recursion.
      \<open>Bu_HashOps\<close>: the members and sessions of them. \<open>Bu_HashReturns\<close>: which slots a probe sequence
      reaches, small tables, and the endless rehash of keys with one hash code. \<open>Bu_HashTable\<close>: the
      properties, with the proxy, iteration and comparison.
    \<^item> \<open>Bu_Stream\<close> (\<open>stream.cpp\<close>, \<open>membuf.cpp\<close>, \<open>staticmembuf.cpp\<close>, \<open>nullstream.cpp\<close>): the contracts of sources
      and sinks as locales (those of \<open>short_source\<close> and \<open>short_sink\<close> hold for calls of less than 2 GiB), \<open>readLine\<close> and \<open>readAll\<close> over any source, and the memory streams.
    \<^item> \<open>Bu_QueueBuf\<close> (\<open>queuebuf.cpp\<close>), \<open>Bu_Buffer\<close> (\<open>buffer.cpp\<close>, \<open>substream.cpp\<close>), \<open>Bu_Base64\<close>
      (\<open>base64.cpp\<close>), \<open>Bu_Hex\<close> (\<open>hex.cpp\<close>): the queue of blocks and the filters, with what they do
      over any next stream that keeps the contract, and with round trips over memory streams.
    \<^item> \<open>Bu_File\<close> (\<open>file.cpp\<close>): an open regular file with the documented behaviour of the system calls.
    \<^item> \<open>Bu_Myriad\<close> (\<open>myriad.cpp\<close>, \<open>myriadstream.cpp\<close>): the model of the store and of a handle.
      \<open>Bu_MyriadBlocks\<close>: the invariant (no block is in two streams, or used and free) and the meaning
      as a map from ids to bytes; \<open>Bu_MyriadStream\<close>: reading and writing through a handle;
      \<open>Bu_MyriadStore\<close>: formatting, creating, deleting and resizing. \<open>Bu_MyriadHeader\<close>: the model of
      \<open>updateHeader\<close>, \<open>sync\<close>, the constructor and \<open>initialize()\<close>; \<open>Bu_MyriadSync\<close>: the text of the header
      and what \<open>updateHeader\<close> leaves; \<open>Bu_MyriadRead\<close>: reading before the tables are complete;
      \<open>Bu_MyriadLoad\<close>: the tables as they are read; \<open>Bu_MyriadReload\<close>: writing the header and opening
      the store again.
    \<^item> \<open>Bu_String\<close>, \<open>Bu_StringIter\<close> (\<open>string.h\<close>, \<open>string.cpp\<close>): the models of strings in chunks and of their
      iterators. \<open>Bu_StringOps\<close>, \<open>Bu_StringEdit\<close>, \<open>Bu_StringSession\<close>: the invariant of the chunks and
      what each editing member does to the text, up to programs of edits; \<open>Bu_StringCompare\<close>: the
      members that look at a flat string; \<open>Bu_StringRange\<close>, \<open>Bu_StringParts\<close>, \<open>Bu_StringSplit\<close>,
      \<open>Bu_StringReplace\<close>: what an iterator has ahead of it, and the members on ranges; \<open>Bu_StringShare\<close>:
      full chunks, and strings in the copy-on-write store; \<open>Bu_StringProps\<close>: the properties.
    \<^item> \<open>Bu_Telnet\<close> (\<open>protocoltelnet.cpp\<close>, \<open>client.cpp\<close>): the state machine of a Telnet line on any client;
      \<open>Bu_TelnetStep\<close>: the contract of a client (locale \<open>telnet_client\<close>), and the machine on a client
      that is a pair of lists; \<open>Bu_TelnetLine\<close>: every client of the contract does what the lists do;
      \<open>Bu_TelnetProps\<close>: the client of the library as the interpretation, pieces, lines, output, and a
      step relation of two lines that answer each other.
    \<^item> \<open>Bu_BitString\<close> (\<open>unstable/bitstring.cpp\<close>): bits in a byte array that may be null.
    \<^item> \<open>Bu_Bytes\<close>: words and their bytes in both orders, messages cut into blocks of 64 bytes and padded.
      \<open>Bu_Digest\<close> (\<open>cryptohash.cpp\<close>, \<open>pearsonhash.cpp\<close>): the contract of a digest as a locale, with the
      hexadecimal result; \<open>Bu_Md5\<close> (\<open>md5.cpp\<close>) and \<open>Bu_Sha1\<close> (\<open>sha1.cpp\<close>): the buffered code against
      the definitions of RFC 1321 and FIPS 180, which stand beside the models; all three digests are
      interpretations of the contract.
    \<^item> \<open>Bu_Cipher\<close> (\<open>unstable/cipher.h\<close>): the filter that gathers blocks, over any coder of blocks (locale
      \<open>block_coder\<close>); \<open>Bu_CipherMode\<close> (\<open>unstable/ciphermode*.h\<close>): the four modes over any permutation of
      blocks (locale \<open>block_permutation\<close>, which gives a coder in every mode); \<open>Bu_Blowfish\<close>
      (\<open>unstable/blowfish.h\<close>): the permutation, its key schedule, and the filters over memory streams.
    \<^item> \<open>Bu_Csv\<close> (\<open>csvwriter.cpp\<close>, \<open>csvreader.cpp\<close>): lines of fields and their encoders.
    \<^item> \<open>Bu_Taf\<close> (\<open>tafwriter.cpp\<close>, \<open>tafreader.cpp\<close>): the printer and the parser of the TAF format over
      any streams. \<open>Bu_TafText\<close>: the text of a tree and the view of a reader (the text it stands at);
      \<open>Bu_TafParse\<close>: the parser on printed text, round trip; \<open>Bu_TafEnds\<close>: its loops end on every text;
      \<open>Bu_TafGroup\<close> (\<open>tafgroup.cpp\<close>): the tables of a group, as partial maps, and its look-ups; \<open>Bu_TafTable\<close>:
      the same on the hash tables of \<open>Bu_Hash\<close>, which refine the partial maps, return up to nine names,
      and never return from a fourteenth name with the same hash code.

  \<^bold>\<open>Bounds.\<close> The header loop of Myriad needs blocks of at least five bytes and is shown to run for
  ever below that, and opening a store again is shown for blocks of at least 30 bytes, where the
  first block holds the number of the second. A request of \<open>2 ^ 31\<close> bytes or more is negative as an
  \<open>int\<close>: the theorems on \<open>Buffer\<close>, \<open>Cipher\<close> and \<open>MyriadStream\<close> are bounded below that, and say what happens
  from there on (a loop without end, a copy of a negative length, a write of nothing). The probe loop of the hash table has the code's own bound of 32 slots; a hash
  table with at most nine filled slots never rehashes, because the probe sequence reaches ten of
  the first eleven slots.

  \<^bold>\<open>Not modelled.\<close> The mutexes of Myriad (one thread's view is modelled); archiving and formatting operators of the containers;
  of \<open>Bu::String\<close> the formatting proxy, the conversions by \<open>sscanf\<close>, and calls in which the argument
  is the object itself; the other models take a string as the list of its bytes, which
  \<open>string_edits\<close> justifies; opening, closing and
  errors of files. Sockets, servers, the HTTP protocol, processes, threads, compression filters (loops
  around external libraries), random numbers, the command line tools and
  the experimental classes are left out so far.
\<close>

end
